(* ===== verification/Prelude.thy ===== *)
theory Prelude
  imports Main "HOL-Library.Word"
begin

text \<open>
  Shared vocabulary of the development: the machine types of the kernel, the result type of
  operations that may stop the machine or return an error code, the saturating and wrapping
  arithmetic of Rust that the sources use, and the generic lemmas on words, lists and ring
  indices that several components rely on.

  The kernel is built with the release profile, in which \<open>+\<close>, \<open>-\<close> and \<open>*\<close> on fixed-width
  integers wrap. Values of type \<open>u64\<close>, \<open>u32\<close>, \<open>u16\<close> and \<open>u8\<close> that are bit masks, table entries
  or user-supplied numbers are words of that width. Array indices and lengths (\<open>usize\<close>) and
  physical addresses of the allocators are \<^typ>\<open>nat\<close>, with the reduction modulo \<open>2 ^ 64\<close> written out
  (\<open>wadd\<close>, \<open>wmul\<close>) wherever the operands are not bounded by an array length.
\<close>

unbundle bit_operations_syntax

type_synonym u8 = "8 word"
type_synonym u16 = "16 word"
type_synonym u32 = "32 word"
type_synonym u64 = "64 word"

text \<open>Collections that carry the component proofs: facts about the primitive accessors of the
  kernel's static tables, and facts that an operation keeps a component's invariant.\<close>

named_theorems table_simps
named_theorems inv_intros

subsection \<open>Outcomes\<close>

text \<open>
  \<open>diagnostic_halt(reason)\<close> (\<open>kernel/init/diagnostic.rs\<close>) never returns: it dumps state on the
  serial port and stops the processor. An operation that may call it returns a sum whose left
  side is the reason of the halt.
\<close>

type_synonym 'a halting = "string + 'a"

abbreviation Halted :: "string \<Rightarrow> 'a halting" where
  "Halted r \<equiv> Inl r"

abbreviation Done :: "'a \<Rightarrow> 'a halting" where
  "Done x \<equiv> Inr x"

definition bind_halt :: "'a halting \<Rightarrow> ('a \<Rightarrow> 'b halting) \<Rightarrow> 'b halting" where
  "bind_halt m f = (case m of Inl r \<Rightarrow> Inl r | Inr x \<Rightarrow> f x)"

lemma bind_halt_simps [simp]:
  "bind_halt (Inl r) f = Inl r"
  "bind_halt (Inr x) f = f x"
  by (simp_all add: bind_halt_def)

lemma bind_halt_eq_Inr_iff: "bind_halt m f = Inr y \<longleftrightarrow> (\<exists>x. m = Inr x \<and> f x = Inr y)"
  by (cases m) auto

subsection \<open>Machine arithmetic\<close>

definition u64_max :: nat where
  "u64_max = 2 ^ 64 - 1"

text \<open>\<open>u64::saturating_add\<close>, \<open>saturating_mul\<close> and the wrapping operators on naturals below \<open>2 ^ 64\<close>.\<close>

definition sadd :: "nat \<Rightarrow> nat \<Rightarrow> nat" where
  "sadd a b = min (a + b) u64_max"

definition smul :: "nat \<Rightarrow> nat \<Rightarrow> nat" where
  "smul a b = min (a * b) u64_max"

definition wadd :: "nat \<Rightarrow> nat \<Rightarrow> nat" where
  "wadd a b = (a + b) mod 2 ^ 64"

definition wmul :: "nat \<Rightarrow> nat \<Rightarrow> nat" where
  "wmul a b = (a * b) mod 2 ^ 64"

definition wsub :: "nat \<Rightarrow> nat \<Rightarrow> nat" where
  "wsub a b = (if b \<le> a then a - b else 2 ^ 64 + a - b)"

lemma wsub_le [simp]: "b \<le> a \<Longrightarrow> wsub a b = a - b"
  by (simp add: wsub_def)

lemma wadd_nowrap: "a + b < 2 ^ 64 \<Longrightarrow> wadd a b = a + b"
  by (simp add: wadd_def)

lemma wmul_nowrap: "a * b < 2 ^ 64 \<Longrightarrow> wmul a b = a * b"
  by (simp add: wmul_def)

lemma sadd_exact: "a + b \<le> u64_max \<Longrightarrow> sadd a b = a + b"
  by (simp add: sadd_def)

lemma smul_exact: "a * b \<le> u64_max \<Longrightarrow> smul a b = a * b"
  by (simp add: smul_def)

lemma sadd_ge: "a \<le> u64_max \<Longrightarrow> a \<le> sadd a b"
  by (simp add: sadd_def)

text \<open>\<open>saturating_add\<close> and \<open>saturating_sub\<close> on words.\<close>

definition word_sadd :: "'a::len word \<Rightarrow> 'a word \<Rightarrow> 'a word" where
  "word_sadd a b = (if a + b < a then - 1 else a + b)"

definition word_ssub :: "'a::len word \<Rightarrow> 'a word \<Rightarrow> 'a word" where
  "word_ssub a b = (if a < b then 0 else a - b)"

lemma unat_word_sadd:
  fixes a b :: "'a::len word"
  shows "unat (word_sadd a b) = min (unat a + unat b) (2 ^ LENGTH('a) - 1)"
proof (cases "unat a + unat b < 2 ^ LENGTH('a)")
  case True
  then have "unat (a + b) = unat a + unat b" by (simp add: unat_word_ariths)
  then show ?thesis using True by (simp add: word_sadd_def word_less_nat_alt)
next
  case False
  have a: "unat a < 2 ^ LENGTH('a)" and b: "unat b < 2 ^ LENGTH('a)" by simp_all
  from False have "unat (a + b) = (unat a + unat b - 2 ^ LENGTH('a)) mod 2 ^ LENGTH('a)"
    unfolding unat_word_ariths by (metis le_mod_geq not_less)
  also have "\<dots> = unat a + unat b - 2 ^ LENGTH('a)"
    using a b by (intro mod_less) linarith
  finally have "a + b < a" using False a b unfolding word_less_nat_alt by linarith
  then have "word_sadd a b = - 1" by (simp add: word_sadd_def)
  then show ?thesis using False by (simp add: unsigned_minus_1_eq_mask mask_eq_exp_minus_1)
qed

lemma unat_word_ssub: "unat (word_ssub a b) = unat a - unat b"
  by (simp add: word_ssub_def word_less_nat_alt unat_sub word_le_nat_alt not_less)

lemma unat_succ: "w \<noteq> - 1 \<Longrightarrow> unat (w + 1 :: 'a::len word) = unat w + 1"
proof -
  assume "w \<noteq> - 1"
  then have "unat w \<noteq> unat (- 1 :: 'a word)" using word_unat_eq_iff by blast
  then have "unat w \<noteq> 2 ^ LENGTH('a) - 1"
    by (simp add: unsigned_minus_1_eq_mask mask_eq_exp_minus_1)
  moreover have "unat w < 2 ^ LENGTH('a)" by simp
  ultimately have "unat w + 1 < 2 ^ LENGTH('a)" by linarith
  then show ?thesis by (simp add: unat_word_ariths)
qed

lemma word_less_succ: "w \<noteq> - 1 \<Longrightarrow> w < (w + 1 :: 'a::len word)"
  by (simp add: word_less_nat_alt unat_succ)

subsection \<open>Bit masks\<close>

text \<open>A mask is read as the set of its bits; the tests the kernel writes on masks are inclusions.\<close>

definition submask :: "'a::len word \<Rightarrow> 'a word \<Rightarrow> bool" where
  "submask a b \<longleftrightarrow> a AND NOT b = 0"

lemma submask_iff_bits: "submask a b \<longleftrightarrow> (\<forall>n. bit a n \<longrightarrow> bit b n)"
  unfolding submask_def
proof
  assume "a AND NOT b = 0"
  then have "\<not> bit (a AND NOT b) n" for n by simp
  then show "\<forall>n. bit a n \<longrightarrow> bit b n"
    by (auto simp: bit_and_iff bit_not_iff dest: bit_imp_le_length)
next
  assume "\<forall>n. bit a n \<longrightarrow> bit b n"
  then show "a AND NOT b = 0" by (auto intro!: bit_eqI simp: bit_and_iff bit_not_iff)
qed

lemma and_eq_mask_iff_submask: "b AND m = m \<longleftrightarrow> submask m b"
proof
  assume h: "b AND m = m"
  have "bit b n" if "bit m n" for n
  proof -
    have "bit (b AND m) n" using h that by simp
    then show ?thesis by (simp add: bit_and_iff)
  qed
  then show "submask m b" by (simp add: submask_iff_bits)
next
  assume "submask m b"
  then show "b AND m = m" by (auto intro!: bit_eqI simp: submask_iff_bits bit_and_iff)
qed

lemma submask_refl [simp]: "submask a a"
  by (simp add: submask_iff_bits)

lemma submask_trans: "submask a b \<Longrightarrow> submask b c \<Longrightarrow> submask a c"
  by (simp add: submask_iff_bits)

lemma submask_antisym: "submask a b \<Longrightarrow> submask b a \<Longrightarrow> a = b"
  by (auto intro!: bit_eqI simp: submask_iff_bits)

lemma submask_and1 [simp]: "submask (a AND b) a"
  by (simp add: submask_iff_bits bit_and_iff)

lemma submask_and2 [simp]: "submask (a AND b) b"
  by (simp add: submask_iff_bits bit_and_iff)

lemma submask_or1 [simp]: "submask a (a OR b)"
  by (simp add: submask_iff_bits bit_or_iff)

lemma submask_or2 [simp]: "submask b (a OR b)"
  by (simp add: submask_iff_bits bit_or_iff)

lemma submask_or_iff: "submask (a OR b) c \<longleftrightarrow> submask a c \<and> submask b c"
  by (auto simp: submask_iff_bits bit_or_iff)

lemma submask_full [simp]: "submask a (- 1)"
  by (auto simp: submask_iff_bits dest: bit_imp_le_length)

lemma submask_zero [simp]: "submask 0 a"
  by (simp add: submask_iff_bits)

lemma bit_power2_word [simp]: "bit (2 ^ k :: 'a::len word) n \<longleftrightarrow> n = k \<and> n < LENGTH('a)"
  by (auto simp: bit_exp_iff)

text \<open>The test \<open>(w & (1 << k)) != 0\<close> reads bit \<open>k\<close>.\<close>

lemma and_power2_eq_0_iff: "w AND 2 ^ k = 0 \<longleftrightarrow> \<not> bit (w :: 'a::len word) k"
proof
  assume "w AND 2 ^ k = 0"
  then have "\<not> bit (w AND 2 ^ k) k" by simp
  then show "\<not> bit w k" by (auto simp: bit_and_iff dest: bit_imp_le_length)
next
  assume "\<not> bit w k"
  then show "w AND 2 ^ k = 0" by (auto intro!: bit_eqI simp: bit_and_iff)
qed

subsection \<open>Ring indices\<close>

text \<open>A ring buffer of capacity \<open>n\<close> holds its \<open>len\<close> elements at the positions
  \<open>(head + i) mod n\<close>; distinct offsets below the capacity are distinct positions.\<close>

lemma ring_index_inj:
  fixes h i j n :: nat
  assumes "i < n" "j < n" "(h + i) mod n = (h + j) mod n"
  shows "i = j"
proof -
  have "int (h + i) mod int n = int (h + j) mod int n"
    using assms(3) by (metis zmod_int)
  then have "int n dvd int (h + i) - int (h + j)"
    by (simp add: mod_eq_dvd_iff)
  then have "int n dvd int i - int j" by simp
  moreover have "\<bar>int i - int j\<bar> < int n" using assms(1,2) by linarith
  ultimately show ?thesis by (metis dvd_imp_le_int eq_iff_diff_eq_0 int_int_eq not_less abs_of_nat)
qed

subsection \<open>First match in a table\<close>

text \<open>The scan \<open>for (i, slot) in TABLE.iter().enumerate()\<close> that stops at the first slot with a property.\<close>

primrec first_index :: "('a \<Rightarrow> bool) \<Rightarrow> 'a list \<Rightarrow> nat option" where
  "first_index P [] = None"
| "first_index P (x # xs) = (if P x then Some 0 else map_option Suc (first_index P xs))"

lemma first_index_eq_None_iff: "first_index P xs = None \<longleftrightarrow> (\<forall>x \<in> set xs. \<not> P x)"
  by (induction xs) auto

lemma first_index_eq_Some_iff:
  "first_index P xs = Some i \<longleftrightarrow> i < length xs \<and> P (xs ! i) \<and> (\<forall>j < i. \<not> P (xs ! j))"
proof (induction xs arbitrary: i)
  case Nil
  then show ?case by simp
next
  case (Cons x xs)
  show ?case
  proof (cases i)
    case 0
    then show ?thesis by auto
  next
    case (Suc k)
    then show ?thesis using Cons.IH [of k] by (auto simp: less_Suc_eq_0_disj nth_Cons')
  qed
qed

lemma first_index_SomeD:
  "first_index P xs = Some i \<Longrightarrow> i < length xs"
  "first_index P xs = Some i \<Longrightarrow> P (xs ! i)"
  by (simp_all add: first_index_eq_Some_iff)

lemma first_index_NoneD: "first_index P xs = None \<Longrightarrow> i < length xs \<Longrightarrow> \<not> P (xs ! i)"
  by (auto simp: first_index_eq_None_iff)

lemma first_index_exists: "i < length xs \<Longrightarrow> P (xs ! i) \<Longrightarrow> \<exists>k. first_index P xs = Some k"
  by (cases "first_index P xs") (auto dest: first_index_NoneD)

text \<open>When at most one slot has the property, the scan finds that slot.\<close>

lemma first_index_unique:
  assumes "i < length xs" "P (xs ! i)" "\<And>j. j < length xs \<Longrightarrow> P (xs ! j) \<Longrightarrow> j = i"
  shows "first_index P xs = Some i"
proof -
  from assms(1,2) obtain k where k: "first_index P xs = Some k"
    using first_index_exists [of i xs P] by blast
  with assms(3) have "k = i" by (auto dest: first_index_SomeD)
  with k show ?thesis by simp
qed

lemma first_index_cong: "(\<And>x. x \<in> set xs \<Longrightarrow> P x = Q x) \<Longrightarrow> first_index P xs = first_index Q xs"
  by (induction xs) auto

section \<open>Bytes in memory\<close>

text \<open>A memory is a function from addresses to bytes; \<open>le_bytes n a\<close> is the little-endian number in
  the \<open>n\<close> bytes at \<open>a\<close>.\<close>

fun le_bytes :: "nat \<Rightarrow> (nat \<Rightarrow> u8) \<Rightarrow> nat \<Rightarrow> nat" where
  "le_bytes 0 mem a = 0"
| "le_bytes (Suc n) mem a = unat (mem a) + 256 * le_bytes n mem (a + 1)"

lemma le_bytes_numeral:
  "le_bytes (numeral k) mem a = unat (mem a) + 256 * le_bytes (pred_numeral k) mem (a + 1)"
  by (simp add: numeral_eq_Suc)

lemma le_bytes_bound: "le_bytes n mem a < 256 ^ n"
proof (induction n arbitrary: a)
  case 0
  then show ?case by simp
next
  case (Suc n)
  have "unat (mem a) < 256" using unsigned_less [of "mem a"] by simp
  with Suc.IH [of "a + 1"] show ?case by simp
qed

lemma le_bytes_cong: "(\<And>i. i < n \<Longrightarrow> m (a + i) = m' (a + i)) \<Longrightarrow> le_bytes n m a = le_bytes n m' a"
proof (induction n arbitrary: a)
  case (Suc n)
  have "m a = m' a" using Suc.prems [of 0] by simp
  moreover have "le_bytes n m (a + 1) = le_bytes n m' (a + 1)"
  proof (rule Suc.IH)
    fix i assume "i < n"
    then show "m (a + 1 + i) = m' (a + 1 + i)" using Suc.prems [of "Suc i"] by simp
  qed
  ultimately show ?case by simp
qed simp

section \<open>Linked lists\<close>

text \<open>The free lists of the allocators are threaded through the free memory itself: \<open>chain l h xs\<close> says
  that the list which starts at \<open>h\<close> and follows the links \<open>l\<close> up to 0 has the members \<open>xs\<close>.\<close>

fun chain :: "(nat \<Rightarrow> nat) \<Rightarrow> nat \<Rightarrow> nat list \<Rightarrow> bool" where
  "chain l h [] \<longleftrightarrow> h = 0"
| "chain l h (x # xs) \<longleftrightarrow> h = x \<and> x \<noteq> 0 \<and> chain l (l x) xs"

lemma chain_frame: "y \<notin> set xs \<Longrightarrow> chain (l(y := v)) h xs \<longleftrightarrow> chain l h xs"
  by (induction xs arbitrary: h) auto

lemma chain_nonzero: "chain l h xs \<Longrightarrow> 0 \<notin> set xs"
  by (induction xs arbitrary: h) auto

lemma chain_0_iff: "chain l h xs \<Longrightarrow> h = 0 \<longleftrightarrow> xs = []"
  by (cases xs) auto

lemma chain_unique: "chain l h xs \<Longrightarrow> chain l h ys \<Longrightarrow> xs = ys"
proof (induction xs arbitrary: h ys)
  case Nil
  then show ?case by (cases ys) auto
next
  case (Cons x xs)
  then show ?case by (cases ys) auto
qed

lemma chain_cong: "(\<And>x. x \<in> set xs \<Longrightarrow> l x = l' x) \<Longrightarrow> chain l h xs \<longleftrightarrow> chain l' h xs"
  by (induction xs arbitrary: h) auto

end
