(* ===== verification/Capability.thy ===== *)
theory Capability
  imports Prelude
begin

text \<open>
  Authority of a process: the capability bit mask \<open>CapSet\<close> (\<open>kernel/capability/mod.rs\<close>, bits named in
  \<open>lib/src/lib.rs\<close>), the information-flow label \<open>IflowLabel\<close> (\<open>kernel/iflow/mod.rs\<close>) and the
  restart journal of the supervisor (\<open>kernel/capability/journal.rs\<close>). The label type is
  an instance of the class of orders, with the kernel's flow test as its order.
\<close>

section \<open>Capability bits\<close>

definition cap_SPAWN :: u64 where "cap_SPAWN = push_bit 0 1"
definition cap_REBOOT :: u64 where "cap_REBOOT = push_bit 1 1"
definition cap_DISPLAY :: u64 where "cap_DISPLAY = push_bit 2 1"
definition cap_INPUT :: u64 where "cap_INPUT = push_bit 3 1"
definition cap_IPC_SEND :: u64 where "cap_IPC_SEND = push_bit 4 1"
definition cap_IPC_RECV :: u64 where "cap_IPC_RECV = push_bit 5 1"
definition cap_COMPOSITOR :: u64 where "cap_COMPOSITOR = push_bit 10 1"
definition cap_GRANT :: u64 where "cap_GRANT = push_bit 11 1"
definition cap_PROC_INFO :: u64 where "cap_PROC_INFO = push_bit 12 1"
definition cap_JOURNAL :: u64 where "cap_JOURNAL = push_bit 13 1"
definition cap_SHM :: u64 where "cap_SHM = push_bit 16 1"
definition cap_DECLASSIFY :: u64 where "cap_DECLASSIFY = push_bit 17 1"
definition cap_ENDORSE :: u64 where "cap_ENDORSE = push_bit 18 1"
definition cap_ALL :: u64 where "cap_ALL = - 1"
definition cap_NONE :: u64 where "cap_NONE = 0"

lemmas cap_bit_defs =
  cap_SPAWN_def cap_REBOOT_def cap_DISPLAY_def cap_INPUT_def cap_IPC_SEND_def cap_IPC_RECV_def
  cap_COMPOSITOR_def cap_GRANT_def cap_PROC_INFO_def cap_JOURNAL_def cap_SHM_def
  cap_DECLASSIFY_def cap_ENDORSE_def cap_ALL_def cap_NONE_def

section \<open>Capability sets\<close>

record capset =
  bits :: u64

definition capset_all :: capset where
  "capset_all = \<lparr>bits = cap_ALL\<rparr>"

definition capset_none :: capset where
  "capset_none = \<lparr>bits = cap_NONE\<rparr>"

definition capset_from_bits :: "u64 \<Rightarrow> capset" where
  "capset_from_bits b = \<lparr>bits = b\<rparr>"

definition has :: "capset \<Rightarrow> u64 \<Rightarrow> bool" where
  "has c msk = (bits c AND msk = msk)"

definition grant :: "capset \<Rightarrow> u64 \<Rightarrow> capset" where
  "grant c b = c\<lparr>bits := bits c OR b\<rparr>"

definition revoke :: "capset \<Rightarrow> u64 \<Rightarrow> capset" where
  "revoke c b = c\<lparr>bits := bits c AND NOT b\<rparr>"

definition child_caps :: "capset \<Rightarrow> u64 \<Rightarrow> capset" where
  "child_caps c requested =
     (let msk = (if requested = 0 then cap_ALL else requested) in \<lparr>bits = bits c AND msk\<rparr>)"

text \<open>The authority order: every bit of the first set is a bit of the second.\<close>

definition caps_le :: "capset \<Rightarrow> capset \<Rightarrow> bool" where
  "caps_le c d \<longleftrightarrow> submask (bits c) (bits d)"

lemma has_iff: "has c m \<longleftrightarrow> submask m (bits c)"
  by (simp add: has_def and_eq_mask_iff_submask)

lemma has_or: "has c (m OR n) \<longleftrightarrow> has c m \<and> has c n"
  by (simp add: has_iff submask_or_iff)

lemma has_all [simp]: "has capset_all m"
  by (simp add: has_iff capset_all_def cap_ALL_def)

lemma has_none_iff: "has capset_none m \<longleftrightarrow> m = 0"
  by (auto simp: has_def capset_none_def cap_NONE_def)

lemma caps_le_refl [simp]: "caps_le c c"
  by (simp add: caps_le_def)

lemma caps_le_trans: "caps_le c d \<Longrightarrow> caps_le d e \<Longrightarrow> caps_le c e"
  unfolding caps_le_def by (rule submask_trans)

lemma caps_le_has: "caps_le c d \<Longrightarrow> has c m \<Longrightarrow> has d m"
  unfolding caps_le_def has_iff by (rule submask_trans)

lemma child_caps_le [simp]: "caps_le (child_caps c r) c"
  by (simp add: caps_le_def child_caps_def Let_def)

lemma child_caps_zero: "child_caps c 0 = \<lparr>bits = bits c\<rparr>"
  by (simp add: child_caps_def cap_ALL_def)

lemma revoke_le [simp]: "caps_le (revoke c b) c"
  by (simp add: caps_le_def revoke_def)

lemma le_grant [simp]: "caps_le c (grant c b)"
  by (simp add: caps_le_def grant_def)

lemma has_grant: "has (grant c b) b"
  by (simp add: has_iff grant_def)

lemma bit_revoke: "bit (bits (revoke c b)) n \<longleftrightarrow> bit (bits c) n \<and> \<not> bit b n"
  by (auto simp: revoke_def bit_and_iff bit_not_iff dest: bit_imp_le_length)

lemma bit_grant: "bit (bits (grant c b)) n \<longleftrightarrow> bit (bits c) n \<or> bit b n"
  by (simp add: grant_def bit_or_iff)

lemma revoke_grant_bits: "bits (revoke (grant c b) b) = bits (revoke c b)"
  by (rule bit_eqI) (auto simp: bit_revoke bit_grant)

section \<open>Information-flow labels\<close>

datatype iflow_label = IflowLabel (secrecy: u64) (integrity: u64)

definition label_cogman :: iflow_label where
  "label_cogman = IflowLabel 0 (- 1)"

definition label_default_user :: iflow_label where
  "label_default_user = IflowLabel 0 0"

definition taint :: "iflow_label \<Rightarrow> u64 \<Rightarrow> u64 \<Rightarrow> iflow_label" where
  "taint l add_secrecy remove_integrity =
     IflowLabel (secrecy l OR add_secrecy) (integrity l AND NOT remove_integrity)"

definition declassify :: "iflow_label \<Rightarrow> u64 \<Rightarrow> iflow_label" where
  "declassify l remove_secrecy = IflowLabel (secrecy l AND NOT remove_secrecy) (integrity l)"

definition endorse :: "iflow_label \<Rightarrow> u64 \<Rightarrow> iflow_label" where
  "endorse l add_integrity = IflowLabel (secrecy l) (integrity l OR add_integrity)"

definition child_label :: "iflow_label \<Rightarrow> iflow_label" where
  "child_label l = l"

definition can_flow :: "iflow_label \<Rightarrow> iflow_label \<Rightarrow> bool" where
  "can_flow src dst =
     (let secrecy_ok = (secrecy src AND NOT (secrecy dst) = 0);
          integrity_ok = (integrity dst AND NOT (integrity src) = 0)
      in secrecy_ok \<and> integrity_ok)"

definition PUBLIC_SINK :: iflow_label where
  "PUBLIC_SINK = IflowLabel 0 0"

lemma can_flow_iff:
  "can_flow a b \<longleftrightarrow> submask (secrecy a) (secrecy b) \<and> submask (integrity b) (integrity a)"
  by (simp add: can_flow_def Let_def submask_def)

text \<open>The flow test is a partial order, so the library's order reasoning applies to labels.\<close>

instantiation iflow_label :: order
begin

definition less_eq_iflow_label :: "iflow_label \<Rightarrow> iflow_label \<Rightarrow> bool" where
  "less_eq_iflow_label a b = can_flow a b"

definition less_iflow_label :: "iflow_label \<Rightarrow> iflow_label \<Rightarrow> bool" where
  "less_iflow_label a b = (can_flow a b \<and> \<not> can_flow b a)"

instance
proof
  fix a b c :: iflow_label
  show "a < b \<longleftrightarrow> a \<le> b \<and> \<not> b \<le> a"
    by (simp add: less_eq_iflow_label_def less_iflow_label_def)
  show "a \<le> a" by (simp add: less_eq_iflow_label_def can_flow_iff)
  show "a \<le> b \<Longrightarrow> b \<le> c \<Longrightarrow> a \<le> c"
    by (auto simp: less_eq_iflow_label_def can_flow_iff intro: submask_trans)
  show "a \<le> b \<Longrightarrow> b \<le> a \<Longrightarrow> a = b"
    by (cases a; cases b) (auto simp: less_eq_iflow_label_def can_flow_iff intro: submask_antisym)
qed

end

lemma can_flow_eq_le: "can_flow a b \<longleftrightarrow> a \<le> b"
  by (simp add: less_eq_iflow_label_def)

lemma taint_above: "a \<le> taint a s i"
  by (simp add: less_eq_iflow_label_def can_flow_iff taint_def)

lemma declassify_below: "declassify a s \<le> a"
  by (simp add: less_eq_iflow_label_def can_flow_iff declassify_def)

lemma endorse_below: "endorse a i \<le> a"
  by (simp add: less_eq_iflow_label_def can_flow_iff endorse_def)

lemma cogman_bottom: "label_cogman \<le> a"
  by (simp add: less_eq_iflow_label_def can_flow_iff label_cogman_def)

lemma flow_to_public_iff: "can_flow a PUBLIC_SINK \<longleftrightarrow> secrecy a = 0"
  by (auto simp: can_flow_def PUBLIC_SINK_def)

section \<open>The restart journal\<close>

definition JOURNAL_SIZE :: nat where
  "JOURNAL_SIZE = 4096"

record journal =
  journal_data :: "u8 list"
  journal_len :: nat
  journal_writer_pid :: u32

definition journal_init :: journal where
  "journal_init = \<lparr>journal_data = replicate JOURNAL_SIZE 0, journal_len = 0, journal_writer_pid = 0\<rparr>"

definition journal_write :: "u8 list \<Rightarrow> u32 \<Rightarrow> journal \<Rightarrow> nat \<times> journal" where
  "journal_write data writer j =
     (if length data > JOURNAL_SIZE then (0, j)
      else (length data,
            j\<lparr>journal_data := data @ replicate (JOURNAL_SIZE - length data) 0,
              journal_len := length data,
              journal_writer_pid := writer\<rparr>))"

text \<open>\<open>read(buf)\<close>: the number of bytes copied and the buffer afterwards.\<close>

definition journal_read :: "u8 list \<Rightarrow> journal \<Rightarrow> nat \<times> u8 list" where
  "journal_read buf j =
     (let n = min (length buf) (journal_len j)
      in (n, if n > 0 then take n (journal_data j) @ drop n buf else buf))"

definition journal_wf :: "journal \<Rightarrow> bool" where
  "journal_wf j \<longleftrightarrow> length (journal_data j) = JOURNAL_SIZE \<and> journal_len j \<le> JOURNAL_SIZE \<and>
     (\<forall>i < JOURNAL_SIZE. journal_len j \<le> i \<longrightarrow> journal_data j ! i = 0)"

lemma journal_init_wf [inv_intros]: "journal_wf journal_init"
  by (simp add: journal_wf_def journal_init_def)

lemma journal_write_wf [inv_intros]: "journal_wf j \<Longrightarrow> journal_wf (snd (journal_write d w j))"
  by (auto simp: journal_wf_def journal_write_def nth_append)

lemma journal_read_length: "journal_wf j \<Longrightarrow> length (snd (journal_read buf j)) = length buf"
  by (auto simp: journal_read_def journal_wf_def Let_def)

lemma journal_write_read:
  assumes "length d \<le> JOURNAL_SIZE" "length d \<le> length buf"
  shows "journal_read buf (snd (journal_write d w j)) = (length d, d @ drop (length d) buf)"
  using assms by (auto simp: journal_read_def journal_write_def Let_def min_def)

section \<open>Properties\<close>

lemma bit_chain:
  "bit (bits (foldl child_caps c rs)) n \<longleftrightarrow> bit (bits c) n \<and> (\<forall>r \<in> set rs. r = 0 \<or> bit r n)"
proof (induction rs arbitrary: c)
  case Nil
  then show ?case by simp
next
  case (Cons r rs)
  have "bit (bits (child_caps c r)) n \<longleftrightarrow> bit (bits c) n \<and> (r = 0 \<or> bit r n)"
    by (auto simp: child_caps_def Let_def bit_and_iff cap_ALL_def dest: bit_imp_le_length)
  with Cons.IH [of "child_caps c r"] show ?case by auto
qed

text \<open>along any chain of spawns the capabilities only shrink: the last process holds exactly the
  bits the first one had and no explicit (non-zero) request masked out, so any right it can
  exercise its ancestors could exercise, and a zero request copies the parent.\<close>

theorem spawn_chain_caps:
  "bit (bits (foldl child_caps c rs)) n \<longleftrightarrow> bit (bits c) n \<and> (\<forall>r \<in> set rs. r \<noteq> 0 \<longrightarrow> bit r n)"
  unfolding bit_chain by blast

theorem spawn_chain_caps_witness:
  "bit (bits (foldl child_caps capset_all [0, cap_SPAWN])) 0 \<and>
   \<not> bit (bits (foldl child_caps capset_all [0, cap_SPAWN])) 1"
  unfolding spawn_chain_caps [of capset_all "[0, cap_SPAWN]"]
  by (simp add: capset_all_def cap_ALL_def cap_SPAWN_def)

text \<open>a checkpoint of at most \<open>JOURNAL_SIZE\<close> bytes that was written is read back byte for byte
  into any buffer (truncated to the buffer), a longer one is refused and leaves the journal alone.\<close>

theorem journal_roundtrip:
  assumes "journal_wf j"
  shows "if length d \<le> JOURNAL_SIZE
    then fst (journal_write d w j) = length d \<and> journal_wf (snd (journal_write d w j)) \<and>
      journal_read buf (snd (journal_write d w j))
        = (min (length d) (length buf), take (length buf) d @ drop (length d) buf)
    else journal_write d w j = (0, j)"
  using assms journal_write_wf [OF assms, of d w] by (auto simp: journal_read_def journal_write_def Let_def min_def)

theorem journal_roundtrip_witness:
  "journal_wf journal_init \<and>
   journal_read [9, 9] (snd (journal_write [1, 2, 3] 7 journal_init)) = (2, [1, 2])"
  using journal_roundtrip [of journal_init "[1, 2, 3]" 7 "[9, 9]"]
  by (simp add: journal_init_wf JOURNAL_SIZE_def)

end
