(* ===== verification/Debug_Regs.thy ===== *)
theory Debug_Regs
  imports Prelude
begin

text \<open>
  Hardware breakpoints of a process (\<open>kernel/arch/x86_64/debug_regs.rs\<close>): the saved debug
  registers \<open>HwBpState\<close> and the encoding of a slot in the control register \<open>DR7\<close> (enable bit
  \<open>idx * 2\<close>, condition bits from \<open>16 + idx * 4\<close>, length bits from \<open>18 + idx * 4\<close>). The lemmas are
  stated bit by bit: an operation on a slot writes that slot's field and nothing else.
\<close>

definition MAX_HW_BREAKPOINTS :: nat where
  "MAX_HW_BREAKPOINTS = 4"

datatype bp_condition = Execute | Write | IoRw | ReadWrite

datatype bp_len = Byte | Word | Qword | Dword

fun bp_condition_code :: "bp_condition \<Rightarrow> u64" where
  "bp_condition_code Execute = 0"
| "bp_condition_code Write = 1"
| "bp_condition_code IoRw = 2"
| "bp_condition_code ReadWrite = 3"

fun bp_len_code :: "bp_len \<Rightarrow> u64" where
  "bp_len_code Byte = 0"
| "bp_len_code Word = 1"
| "bp_len_code Qword = 2"
| "bp_len_code Dword = 3"

record hw_bp_state =
  dr0 :: u64
  dr1 :: u64
  dr2 :: u64
  dr3 :: u64
  dr7 :: u64
  dr6 :: u64

definition hw_bp_new :: hw_bp_state where
  "hw_bp_new = \<lparr>dr0 = 0, dr1 = 0, dr2 = 0, dr3 = 0, dr7 = 0x400, dr6 = 0\<rparr>"

definition hw_bp_is_enabled :: "hw_bp_state \<Rightarrow> nat \<Rightarrow> bool" where
  "hw_bp_is_enabled s idx =
     (if idx \<ge> MAX_HW_BREAKPOINTS then False else dr7 s AND push_bit (idx * 2) 1 \<noteq> 0)"

text \<open>The \<open>match idx\<close> that stores the watched address; other indices are unreachable.\<close>

definition hw_bp_store_addr :: "hw_bp_state \<Rightarrow> nat \<Rightarrow> u64 \<Rightarrow> hw_bp_state" where
  "hw_bp_store_addr s idx addr =
     (if idx = 0 then s\<lparr>dr0 := addr\<rparr> else if idx = 1 then s\<lparr>dr1 := addr\<rparr>
      else if idx = 2 then s\<lparr>dr2 := addr\<rparr> else if idx = 3 then s\<lparr>dr3 := addr\<rparr> else s)"

definition slot_mask :: "nat \<Rightarrow> u64" where
  "slot_mask idx = push_bit (idx * 2) 1 OR push_bit (16 + idx * 4) 3 OR push_bit (18 + idx * 4) 3"

definition hw_bp_set :: "hw_bp_state \<Rightarrow> nat \<Rightarrow> u64 \<Rightarrow> bp_condition \<Rightarrow> bp_len \<Rightarrow> hw_bp_state" where
  "hw_bp_set s idx addr cond len =
     (if idx \<ge> MAX_HW_BREAKPOINTS then s
      else let s1 = hw_bp_store_addr s idx addr;
               d1 = dr7 s1 AND NOT (slot_mask idx);
               d2 = d1 OR push_bit (idx * 2) 1;
               d3 = d2 OR push_bit (16 + idx * 4) (bp_condition_code cond);
               d4 = d3 OR push_bit (18 + idx * 4) (bp_len_code len);
               d5 = d4 OR push_bit 10 1
           in s1\<lparr>dr7 := d5\<rparr>)"

definition hw_bp_clear :: "hw_bp_state \<Rightarrow> nat \<Rightarrow> hw_bp_state" where
  "hw_bp_clear s idx =
     (if idx \<ge> MAX_HW_BREAKPOINTS then s
      else let s1 = hw_bp_store_addr s idx 0
           in s1\<lparr>dr7 := dr7 s1 AND NOT (slot_mask idx)\<rparr>)"

text \<open>The address register of a slot, as \<open>SYS_HW_BP_QUERY\<close> reports it.\<close>

definition hw_bp_addr :: "hw_bp_state \<Rightarrow> nat \<Rightarrow> u64" where
  "hw_bp_addr s idx = [dr0 s, dr1 s, dr2 s, dr3 s] ! idx"

section \<open>Bit-level behaviour\<close>

definition slot_field :: "nat \<Rightarrow> nat set" where
  "slot_field idx = {idx * 2, 16 + idx * 4, 17 + idx * 4, 18 + idx * 4, 19 + idx * 4}"

lemma bit_3_iff [simp]: "bit (3 :: int) n \<longleftrightarrow> n < 2" "bit (3 :: nat) n \<longleftrightarrow> n < 2"
proof -
  have "(3 :: int) = Bit_Operations.mask 2" "(3 :: nat) = Bit_Operations.mask 2"
    by (simp_all add: mask_eq_exp_minus_1)
  then show "bit (3 :: int) n \<longleftrightarrow> n < 2" "bit (3 :: nat) n \<longleftrightarrow> n < 2"
    by (simp_all only: bit_mask_iff) (simp_all add: possible_bit_def)
qed

lemma bit_power2_numerals [simp]:
  "bit (2 :: int) n \<longleftrightarrow> n = 1" "bit (2 :: nat) n \<longleftrightarrow> n = 1"
  "bit (1024 :: int) n \<longleftrightarrow> n = 10" "bit (1024 :: nat) n \<longleftrightarrow> n = 10"
proof -
  have "bit (2 ^ k :: int) n \<longleftrightarrow> n = k" "bit (2 ^ k :: nat) n \<longleftrightarrow> n = k" for k
    by (auto simp: bit_exp_iff)
  from this(1) [of 1] this(2) [of 1] this(1) [of 10] this(2) [of 10]
  show "bit (2 :: int) n \<longleftrightarrow> n = 1" "bit (2 :: nat) n \<longleftrightarrow> n = 1"
    "bit (1024 :: int) n \<longleftrightarrow> n = 10" "bit (1024 :: nat) n \<longleftrightarrow> n = 10" by simp_all
qed

lemma two_bits_at: "k \<le> n \<and> n < 64 \<and> n - k < 2 \<longleftrightarrow> n < 64 \<and> (n = k \<or> n = Suc k)" for n k :: nat
  by auto

lemma bit_slot_mask:
  assumes "idx < 4"
  shows "bit (slot_mask idx) n \<longleftrightarrow> n \<in> slot_field idx"
proof -
  have "bit (slot_mask idx) n \<longleftrightarrow>
      n = idx * 2 \<and> n < 64 \<or> 16 + idx * 4 \<le> n \<and> n < 64 \<and> n - (16 + idx * 4) < 2
      \<or> 18 + idx * 4 \<le> n \<and> n < 64 \<and> n - (18 + idx * 4) < 2"
    by (auto simp: slot_mask_def bit_or_iff bit_push_bit_iff)
  also have "\<dots> \<longleftrightarrow> n < 64 \<and> n \<in> slot_field idx"
    unfolding two_bits_at by (auto simp: slot_field_def)
  also have "\<dots> \<longleftrightarrow> n \<in> slot_field idx"
    using assms by (auto simp: slot_field_def)
  finally show ?thesis .
qed

lemma dr7_store_addr [simp]: "dr7 (hw_bp_store_addr s idx a) = dr7 s"
  by (simp add: hw_bp_store_addr_def)

lemma dr6_store_addr [simp]: "dr6 (hw_bp_store_addr s idx a) = dr6 s"
  by (simp add: hw_bp_store_addr_def)

lemma hw_bp_addr_store [simp]:
  "idx < 4 \<Longrightarrow> j < 4 \<Longrightarrow> hw_bp_addr (hw_bp_store_addr s idx a) j = (if j = idx then a else hw_bp_addr s j)"
  by (auto simp: hw_bp_addr_def hw_bp_store_addr_def less_Suc_eq numeral_eq_Suc)

lemma bp_condition_code_bits: "bit (bp_condition_code c) n \<Longrightarrow> n < 2"
  by (cases c) (auto simp: bit_1_iff)

lemma bp_len_code_bits: "bit (bp_len_code l) n \<Longrightarrow> n < 2"
  by (cases l) (auto simp: bit_1_iff)

lemma hw_bp_is_enabled_iff: "idx < 4 \<Longrightarrow> hw_bp_is_enabled s idx \<longleftrightarrow> bit (dr7 s) (idx * 2)"
  by (simp add: hw_bp_is_enabled_def MAX_HW_BREAKPOINTS_def and_power2_eq_0_iff mult.commute)

lemma dr7_set:
  assumes "idx < 4"
  shows "bit (dr7 (hw_bp_set s idx a c l)) n \<longleftrightarrow>
    n = 10 \<or> n = idx * 2 \<or> (16 + idx * 4 \<le> n \<and> n < 64 \<and> bit (bp_condition_code c) (n - (16 + idx * 4))) \<or>
    (18 + idx * 4 \<le> n \<and> n < 64 \<and> bit (bp_len_code l) (n - (18 + idx * 4))) \<or>
    (n \<notin> slot_field idx \<and> bit (dr7 s) n)"
proof -
  have len: "idx * 2 < 64" "(10 :: nat) < 64" using assms by simp_all
  have old: "bit (dr7 s) n \<Longrightarrow> n < 64" by (drule bit_imp_le_length) simp
  have "bit (dr7 (hw_bp_set s idx a c l)) n \<longleftrightarrow>
      (((bit (dr7 s) n \<and> n < 64 \<and> n \<notin> slot_field idx \<or> n = idx * 2 \<and> n < 64) \<or>
        16 + idx * 4 \<le> n \<and> n < 64 \<and> bit (bp_condition_code c) (n - (16 + idx * 4))) \<or>
        18 + idx * 4 \<le> n \<and> n < 64 \<and> bit (bp_len_code l) (n - (18 + idx * 4))) \<or> n < 64 \<and> n = 10"
    using assms
    by (simp add: hw_bp_set_def MAX_HW_BREAKPOINTS_def Let_def bit_or_iff bit_and_iff bit_not_iff
        bit_push_bit_iff bit_slot_mask)
  then show ?thesis using len old by blast
qed

lemma dr7_clear:
  assumes "idx < 4"
  shows "bit (dr7 (hw_bp_clear s idx)) n \<longleftrightarrow> n \<notin> slot_field idx \<and> bit (dr7 s) n"
  using assms
  by (auto simp: hw_bp_clear_def MAX_HW_BREAKPOINTS_def Let_def bit_and_iff bit_not_iff
      bit_slot_mask dest: bit_imp_le_length)

text \<open>The fields of two slots and the reserved bit 10 do not overlap.\<close>

lemma slot_field_disjoint: "i < 4 \<Longrightarrow> j < 4 \<Longrightarrow> i \<noteq> j \<Longrightarrow> slot_field i \<inter> slot_field j = {}"
  by (auto simp: slot_field_def)

lemma slot_field_not_10: "i < 4 \<Longrightarrow> 10 \<notin> slot_field i"
  by (auto simp: slot_field_def)

lemma outside_slot_field:
  assumes "n \<notin> slot_field idx"
  shows "n \<noteq> idx * 2"
    and "16 + idx * 4 \<le> n \<Longrightarrow> \<not> n - (16 + idx * 4) < 2"
    and "18 + idx * 4 \<le> n \<Longrightarrow> \<not> n - (18 + idx * 4) < 2"
  using assms by (auto simp: slot_field_def)

lemma dr7_set_outside:
  assumes "idx < 4" "n \<notin> slot_field idx" "n \<noteq> 10"
  shows "bit (dr7 (hw_bp_set s idx a c l)) n = bit (dr7 s) n"
  unfolding dr7_set [OF assms(1)]
  using outside_slot_field [OF assms(2)] assms(2,3) bp_condition_code_bits bp_len_code_bits by blast

lemma dr7_set_other:
  assumes "i < 4" "j < 4" "i \<noteq> j" "n \<in> slot_field j"
  shows "bit (dr7 (hw_bp_set s i a c l)) n = bit (dr7 s) n"
proof -
  from assms slot_field_disjoint have "n \<notin> slot_field i" by blast
  moreover from assms(2,4) have "n \<noteq> 10" using slot_field_not_10 by blast
  ultimately show ?thesis using assms(1) by (intro dr7_set_outside)
qed

definition field_of :: "u64 \<Rightarrow> nat \<Rightarrow> u64" where
  "field_of d k = drop_bit k d AND 3"

lemma bit_field_of: "bit (field_of d k) n \<longleftrightarrow> n < 2 \<and> bit d (k + n)"
  by (auto simp: field_of_def bit_and_iff bit_drop_bit_eq)

lemma dr7_set_cond_bit:
  "idx < 4 \<Longrightarrow> n < 2 \<Longrightarrow>
   bit (dr7 (hw_bp_set s idx a c l)) (16 + idx * 4 + n) = bit (bp_condition_code c) n"
  by (cases "n = 0") (auto simp: dr7_set slot_field_def less_2_cases_iff)

lemma dr7_set_len_bit:
  "idx < 4 \<Longrightarrow> n < 2 \<Longrightarrow>
   bit (dr7 (hw_bp_set s idx a c l)) (18 + idx * 4 + n) = bit (bp_len_code l) n"
  by (cases "n = 0")
    (auto simp: dr7_set slot_field_def less_2_cases_iff dest!: bp_condition_code_bits)

lemma field_of_set_cond:
  assumes "idx < 4"
  shows "field_of (dr7 (hw_bp_set s idx a c l)) (16 + idx * 4) = bp_condition_code c"
  using assms bp_condition_code_bits
  by (intro bit_eqI) (auto simp: bit_field_of dr7_set_cond_bit)

lemma field_of_set_len:
  assumes "idx < 4"
  shows "field_of (dr7 (hw_bp_set s idx a c l)) (18 + idx * 4) = bp_len_code l"
  using assms bp_len_code_bits
  by (intro bit_eqI) (auto simp: bit_field_of dr7_set_len_bit)

lemma hw_bp_addr_set:
  "idx < 4 \<Longrightarrow> j < 4 \<Longrightarrow> hw_bp_addr (hw_bp_set s idx a c l) j = (if j = idx then a else hw_bp_addr s j)"
  by (simp add: hw_bp_set_def MAX_HW_BREAKPOINTS_def Let_def flip: hw_bp_addr_store)
    (simp add: hw_bp_addr_def)

section \<open>Properties\<close>

text \<open>programming a breakpoint slot makes exactly that slot what was asked for (enabled, address,
  condition and length fields read back) and leaves address, enable bit and control field of every
  other slot as they were.\<close>

theorem hw_bp_set_isolated:
  assumes "idx < 4" "j < 4" "j \<noteq> idx"
  shows "let s' = hw_bp_set s idx a c l in hw_bp_is_enabled s' idx \<and> hw_bp_addr s' idx = a \<and>
    field_of (dr7 s') (16 + idx * 4) = bp_condition_code c \<and>
    field_of (dr7 s') (18 + idx * 4) = bp_len_code l \<and>
    hw_bp_addr s' j = hw_bp_addr s j \<and> hw_bp_is_enabled s' j = hw_bp_is_enabled s j \<and>
    (n \<in> slot_field j \<longrightarrow> bit (dr7 s') n = bit (dr7 s) n)"
proof -
  have "j * 2 \<in> slot_field j" "idx * 2 \<in> slot_field idx" by (auto simp: slot_field_def)
  then show ?thesis
    using assms dr7_set_other [OF assms(1,2), of _ s a c l] dr7_set [OF assms(1), of s a c l "idx * 2"]
      field_of_set_cond [OF assms(1)] field_of_set_len [OF assms(1)] hw_bp_addr_set
    by (auto simp: hw_bp_is_enabled_iff Let_def)
qed

theorem hw_bp_set_isolated_witness:
  "hw_bp_is_enabled (hw_bp_set hw_bp_new 1 0x400000 Execute Byte) 1 \<and>
   \<not> hw_bp_is_enabled (hw_bp_set hw_bp_new 1 0x400000 Execute Byte) 2"
  using hw_bp_set_isolated [of 1 2 hw_bp_new "0x400000" Execute Byte 4]
  by (simp add: Let_def) (simp add: hw_bp_is_enabled_def hw_bp_new_def MAX_HW_BREAKPOINTS_def)

end
