(* ===== verification/Ring_Buffers.thy ===== *)
theory Ring_Buffers
  imports Prelude
begin

text \<open>
  Bounded queues. The locale \<open>bounded_fifo\<close> is the contract every ring buffer of the kernel is
  used under; its clients' lemmas (order of delivery, no loss below capacity) are proved once.
  \<open>ring_list\<close> reads a circular array as a list. The kernel has two ring layouts: the one of
  \<open>kernel/process/ipc.rs\<close> keeps a length, the ones of \<open>kernel/drivers/tty.rs\<close> and
  \<open>kernel/drivers/input.rs\<close> keep one slot free; the second, shared by three queues, is the record
  \<open>gap_ring\<close> here.
\<close>

section \<open>The contract\<close>

fun push_all :: "('a \<Rightarrow> 'q \<Rightarrow> bool \<times> 'q) \<Rightarrow> 'a list \<Rightarrow> 'q \<Rightarrow> bool list \<times> 'q" where
  "push_all push [] q = ([], q)"
| "push_all push (x # xs) q =
     (let (ok, q1) = push x q; (oks, q2) = push_all push xs q1 in (ok # oks, q2))"

fun pop_n :: "('q \<Rightarrow> 'a option \<times> 'q) \<Rightarrow> nat \<Rightarrow> 'q \<Rightarrow> 'a option list \<times> 'q" where
  "pop_n pop 0 q = ([], q)"
| "pop_n pop (Suc n) q =
     (let (r, q1) = pop q; (rs, q2) = pop_n pop n q1 in (r # rs, q2))"

locale bounded_fifo =
  fixes inv :: "'q \<Rightarrow> bool"
    and contents :: "'q \<Rightarrow> 'a list"
    and capacity :: nat
    and push :: "'a \<Rightarrow> 'q \<Rightarrow> bool \<times> 'q"
    and pop :: "'q \<Rightarrow> 'a option \<times> 'q"
  assumes bounded: "inv q \<Longrightarrow> length (contents q) \<le> capacity"
    and push_inv: "inv q \<Longrightarrow> inv (snd (push x q))"
    and pop_inv: "inv q \<Longrightarrow> inv (snd (pop q))"
    and push_full: "inv q \<Longrightarrow> length (contents q) = capacity \<Longrightarrow> push x q = (False, q)"
    and push_room: "inv q \<Longrightarrow> length (contents q) < capacity \<Longrightarrow>
      fst (push x q) \<and> contents (snd (push x q)) = contents q @ [x]"
    and pop_empty: "inv q \<Longrightarrow> contents q = [] \<Longrightarrow> pop q = (None, q)"
    and pop_some: "inv q \<Longrightarrow> contents q = y # ys \<Longrightarrow>
      fst (pop q) = Some y \<and> contents (snd (pop q)) = ys"
begin

lemma push_all_room:
  "inv q \<Longrightarrow> length (contents q) + length xs \<le> capacity \<Longrightarrow>
   fst (push_all push xs q) = replicate (length xs) True \<and> inv (snd (push_all push xs q)) \<and>
   contents (snd (push_all push xs q)) = contents q @ xs"
proof (induction xs arbitrary: q)
  case Nil
  then show ?case by simp
next
  case (Cons x xs)
  obtain ok q1 where p: "push x q = (ok, q1)" by fastforce
  with Cons.prems push_room [of q x] push_inv [of q x]
  have "ok" "contents q1 = contents q @ [x]" "inv q1" by auto
  with Cons.IH [of q1] Cons.prems p show ?case by (auto simp: split_beta)
qed

lemma pop_n_contents:
  "inv q \<Longrightarrow> n \<le> length (contents q) \<Longrightarrow>
   fst (pop_n pop n q) = map Some (take n (contents q)) \<and> inv (snd (pop_n pop n q)) \<and>
   contents (snd (pop_n pop n q)) = drop n (contents q)"
proof (induction n arbitrary: q)
  case 0
  then show ?case by simp
next
  case (Suc n)
  then obtain y ys where c: "contents q = y # ys" by (cases "contents q") auto
  obtain r q1 where p: "pop q = (r, q1)" by fastforce
  with c Suc.prems pop_some [of q y ys] pop_inv [of q]
  have "r = Some y" "contents q1 = ys" "inv q1" by auto
  with Suc.IH [of q1] Suc.prems c p show ?case by (auto simp: split_beta)
qed

text \<open>What is pushed below capacity comes out in the same order, after what was already there.\<close>

lemma fifo_order:
  assumes "inv q" "length (contents q) + length xs \<le> capacity"
  shows "fst (pop_n pop (length (contents q) + length xs) (snd (push_all push xs q)))
    = map Some (contents q @ xs)"
proof -
  note p = push_all_room [OF assms]
  then have "length (contents q) + length xs \<le> length (contents (snd (push_all push xs q)))" by simp
  with p show ?thesis using pop_n_contents by auto
qed

lemma push_keeps_older:
  assumes "inv q"
  shows "take (length (contents q)) (contents (snd (push x q))) = contents q"
proof (cases "length (contents q) = capacity")
  case True
  then show ?thesis using push_full [OF assms] by simp
next
  case False
  then have "length (contents q) < capacity" using bounded [OF assms] by simp
  then show ?thesis using push_room [OF assms] by simp
qed

end

section \<open>Circular arrays read as lists\<close>

definition ring_list :: "nat \<Rightarrow> 'a list \<Rightarrow> nat \<Rightarrow> nat \<Rightarrow> 'a list" where
  "ring_list n xs h len = map (\<lambda>i. xs ! ((h + i) mod n)) [0..<len]"

lemma length_ring_list [simp]: "length (ring_list n xs h len) = len"
  by (simp add: ring_list_def)

lemma ring_list_0 [simp]: "ring_list n xs h 0 = []"
  by (simp add: ring_list_def)

lemma ring_list_snoc:
  assumes "len < n" "length xs = n"
  shows "ring_list n (xs[(h + len) mod n := x]) h (Suc len) = ring_list n xs h len @ [x]"
proof -
  have "xs[(h + len) mod n := x] ! ((h + i) mod n) = xs ! ((h + i) mod n)" if "i < len" for i
    using ring_index_inj [of i n len h] that assms(1) by (intro nth_list_update_neq) auto
  moreover have "(h + len) mod n < length xs" using assms by simp
  ultimately show ?thesis by (auto simp: ring_list_def)
qed

lemma ring_list_Cons:
  "0 < len \<Longrightarrow> ring_list n xs h len = xs ! (h mod n) # ring_list n xs ((h + 1) mod n) (len - 1)"
proof -
  assume "0 < len"
  then obtain k where k: "len = Suc k" by (cases len) auto
  have "[0..<Suc k] = 0 # map Suc [0..<k]" by (simp add: map_Suc_upt upt_conv_Cons del: upt_Suc)
  then show ?thesis unfolding ring_list_def k by (simp add: mod_simps comp_def)
qed

section \<open>Rings with one free slot\<close>

record 'a gap_ring =
  slots :: "'a list"
  wr :: nat
  rd :: nat

definition gap_init :: "nat \<Rightarrow> 'a \<Rightarrow> 'a gap_ring" where
  "gap_init n d = \<lparr>slots = replicate n d, wr = 0, rd = 0\<rparr>"

definition gap_count :: "nat \<Rightarrow> 'a gap_ring \<Rightarrow> nat" where
  "gap_count n r = (if wr r \<ge> rd r then wr r - rd r else n - rd r + wr r)"

definition gap_push :: "nat \<Rightarrow> 'a \<Rightarrow> 'a gap_ring \<Rightarrow> bool \<times> 'a gap_ring" where
  "gap_push n x r =
     (let nxt = (wr r + 1) mod n
      in if nxt = rd r then (False, r)
         else (True, r\<lparr>slots := (slots r)[wr r := x], wr := nxt\<rparr>))"

definition gap_pop :: "nat \<Rightarrow> 'a gap_ring \<Rightarrow> 'a option \<times> 'a gap_ring" where
  "gap_pop n r =
     (if rd r = wr r then (None, r)
      else (Some (slots r ! rd r), r\<lparr>rd := (rd r + 1) mod n\<rparr>))"

definition gap_inv :: "nat \<Rightarrow> 'a gap_ring \<Rightarrow> bool" where
  "gap_inv n r \<longleftrightarrow> 1 < n \<and> length (slots r) = n \<and> wr r < n \<and> rd r < n"

definition gap_contents :: "nat \<Rightarrow> 'a gap_ring \<Rightarrow> 'a list" where
  "gap_contents n r = ring_list n (slots r) (rd r) (gap_count n r)"

lemma gap_count_lt: "gap_inv n r \<Longrightarrow> gap_count n r < n"
  by (auto simp: gap_inv_def gap_count_def)

lemma gap_wr: "gap_inv n r \<Longrightarrow> (rd r + gap_count n r) mod n = wr r"
  by (auto simp: gap_inv_def gap_count_def)

lemma gap_full_iff: "gap_inv n r \<Longrightarrow> (wr r + 1) mod n = rd r \<longleftrightarrow> gap_count n r = n - 1"
  by (auto simp: gap_inv_def gap_count_def mod_Suc)

lemma gap_empty_iff: "gap_inv n r \<Longrightarrow> rd r = wr r \<longleftrightarrow> gap_count n r = 0"
  by (auto simp: gap_inv_def gap_count_def)

lemma gap_count_push:
  "gap_inv n r \<Longrightarrow> (wr r + 1) mod n \<noteq> rd r \<Longrightarrow>
   gap_count n (r\<lparr>slots := s, wr := (wr r + 1) mod n\<rparr>) = Suc (gap_count n r)"
  by (auto simp: gap_inv_def gap_count_def mod_Suc split: if_splits)

lemma gap_count_pop:
  "gap_inv n r \<Longrightarrow> rd r \<noteq> wr r \<Longrightarrow>
   gap_count n (r\<lparr>rd := (rd r + 1) mod n\<rparr>) = gap_count n r - 1"
  by (auto simp: gap_inv_def gap_count_def mod_Suc split: if_splits)

lemma gap_init_inv [inv_intros]: "1 < n \<Longrightarrow> gap_inv n (gap_init n d)"
  by (simp add: gap_inv_def gap_init_def)

lemma gap_init_contents [simp]: "gap_contents n (gap_init n d) = []"
  by (simp add: gap_contents_def gap_init_def gap_count_def)

lemma gap_push_contents:
  assumes "gap_inv n r" "(wr r + 1) mod n \<noteq> rd r"
  shows "gap_contents n (snd (gap_push n x r)) = gap_contents n r @ [x]"
proof -
  have "ring_list n ((slots r)[wr r := x]) (rd r) (Suc (gap_count n r))
      = ring_list n (slots r) (rd r) (gap_count n r) @ [x]"
    using ring_list_snoc [of "gap_count n r" n "slots r" "rd r" x] gap_wr [OF assms(1)]
      gap_count_lt [OF assms(1)] assms(1) by (simp add: gap_inv_def)
  then show ?thesis
    using assms gap_count_push [OF assms] by (simp add: gap_push_def gap_contents_def Let_def)
qed

lemma gap_pop_contents:
  assumes "gap_inv n r" "rd r \<noteq> wr r"
  shows "gap_contents n r = slots r ! rd r # gap_contents n (snd (gap_pop n r))"
proof -
  have "0 < gap_count n r" using gap_empty_iff [OF assms(1)] assms(2) by simp
  then show ?thesis
    using assms gap_count_pop [OF assms] ring_list_Cons [of "gap_count n r" n "slots r" "rd r"]
    by (simp add: gap_pop_def gap_contents_def gap_inv_def)
qed

lemma gap_push_inv [inv_intros]: "gap_inv n r \<Longrightarrow> gap_inv n (snd (gap_push n x r))"
  by (auto simp: gap_inv_def gap_push_def Let_def)

lemma gap_pop_inv [inv_intros]: "gap_inv n r \<Longrightarrow> gap_inv n (snd (gap_pop n r))"
  by (auto simp: gap_inv_def gap_pop_def)

lemma gap_ring_fifo: "bounded_fifo (gap_inv n) (gap_contents n) (n - 1) (gap_push n) (gap_pop n)"
proof (unfold_locales, goal_cases)
  case (1 q)
  then show ?case using gap_count_lt [of n q] by (simp add: gap_contents_def)
next
  case (4 q x)
  then have "(wr q + 1) mod n = rd q" using gap_full_iff [of n q] by (simp add: gap_contents_def)
  then show ?case by (simp add: gap_push_def)
next
  case (5 q x)
  then have "(wr q + 1) mod n \<noteq> rd q" using gap_full_iff [of n q] by (simp add: gap_contents_def)
  with 5 show ?case using gap_push_contents [of n q x] by (simp add: gap_push_def Let_def)
next
  case (6 q)
  then have "gap_count n q = 0" by (metis gap_contents_def length_0_conv length_ring_list)
  with 6 show ?case using gap_empty_iff [of n q] by (simp add: gap_pop_def)
next
  case (7 q y ys)
  then have "gap_count n q \<noteq> 0"
    by (metis gap_contents_def length_ring_list list.size(3) list.distinct(1) length_0_conv)
  with 7 have "rd q \<noteq> wr q" using gap_empty_iff [of n q] by simp
  with 7 show ?case using gap_pop_contents [of n q] by (simp add: gap_pop_def)
qed (simp_all add: inv_intros)

end
