(* ===== verification/Process.thy ===== *)
theory Process
  imports Capability Debug_Regs
begin

text \<open>
  The process table (\<open>kernel/process/process.rs\<close>, \<open>kernel/process/pid.rs\<close>): the descriptor \<open>pcb\<close>, the
  statics of \<open>pid.rs\<close> as the record \<open>ptable\<close>, and one definition per function. The invariant
  \<open>ptable_inv\<close> ties the slots, the kernel stacks and the pid counter together; every operation
  keeps it, and under it the live pids are non-zero and pairwise distinct until the 32-bit
  counter wraps. Serial logging and the table dump are not modelled.
\<close>

section \<open>Descriptors\<close>

definition MAX_PROCESSES :: nat where "MAX_PROCESSES = 64"
definition PROCESS_CANARY :: u64 where "PROCESS_CANARY = 0xDEADBEEFCAFEBABE"
definition KSTACK_CANARY :: u64 where "KSTACK_CANARY = 0xBADC0FFEEE0DDF00"
definition KERNEL_STACK_SIZE :: nat where "KERNEL_STACK_SIZE = 32 * 1024"
definition PRIORITY_NORMAL :: u8 where "PRIORITY_NORMAL = 1"
definition DEFAULT_SESSION_UID :: u32 where "DEFAULT_SESSION_UID = 1000"
definition USER_STACK_TOP :: nat where "USER_STACK_TOP = 0x7ffffffff000"
definition USER_STACK_PAGES :: nat where "USER_STACK_PAGES = 8"
definition STACK_SLOT_PAGES :: nat where "STACK_SLOT_PAGES = USER_STACK_PAGES + 1"
definition PAGE_SIZE :: nat where "PAGE_SIZE = 4096"

datatype process_state = Empty | Runnable | Running | Blocked | Dead

record trap_frame =
  tf_rip :: u64
  tf_cs :: u64
  tf_rflags :: u64
  tf_rsp :: u64
  tf_ss :: u64

record pcb =
  pcb_canary :: u64
  pcb_pid :: u32
  pcb_uid :: u32
  pcb_state :: process_state
  pcb_priority :: u8
  pcb_nice :: int
  pcb_cr3 :: u64
  pcb_kernel_stack_top :: u64
  pcb_trap_frame :: trap_frame
  pcb_exit_status :: "int option"
  pcb_hw_bp :: hw_bp_state
  pcb_waiting_for :: "u32 option"
  pcb_pcid :: u16
  pcb_caps :: capset
  pcb_iflow :: iflow_label

definition pcb_new :: "u32 \<Rightarrow> process_state \<Rightarrow> u64 \<Rightarrow> u64 \<Rightarrow> trap_frame \<Rightarrow> pcb" where
  "pcb_new pid st cr3 kstack tf =
     \<lparr>pcb_canary = PROCESS_CANARY, pcb_pid = pid, pcb_uid = DEFAULT_SESSION_UID, pcb_state = st,
      pcb_priority = PRIORITY_NORMAL, pcb_nice = 0, pcb_cr3 = cr3, pcb_kernel_stack_top = kstack,
      pcb_trap_frame = tf, pcb_exit_status = None, pcb_hw_bp = hw_bp_new, pcb_waiting_for = None,
      pcb_pcid = 0, pcb_caps = capset_none, pcb_iflow = label_default_user\<rparr>"

definition is_alive :: "pcb \<Rightarrow> bool" where
  "is_alive p = (case pcb_state p of Runnable \<Rightarrow> True | Running \<Rightarrow> True | _ \<Rightarrow> False)"

definition is_dead :: "pcb \<Rightarrow> bool" where
  "is_dead p = (pcb_state p = Dead)"

fun state_to_u8 :: "process_state \<Rightarrow> u8" where
  "state_to_u8 Empty = 0"
| "state_to_u8 Runnable = 1"
| "state_to_u8 Running = 2"
| "state_to_u8 Blocked = 3"
| "state_to_u8 Dead = 4"

section \<open>User stacks\<close>

text \<open>\<open>slot * STACK_SLOT_PAGES * PAGE_SIZE\<close> is below \<open>2 ^ 64\<close> for every 32-bit slot, and
  \<open>saturating_sub\<close> on \<open>u64\<close> is truncated subtraction.\<close>

definition stack_top_for_pid :: "u32 \<Rightarrow> nat" where
  "stack_top_for_pid pid =
     (let slot = unat (word_ssub pid 1)
      in USER_STACK_TOP - slot * STACK_SLOT_PAGES * PAGE_SIZE)"

text \<open>The addresses of the pages \<open>setup_user_stack\<close> maps: \<open>stack_top - i * PAGE_SIZE\<close>.\<close>

definition user_stack_vas :: "u32 \<Rightarrow> nat list" where
  "user_stack_vas pid = map (\<lambda>i. stack_top_for_pid pid - i * PAGE_SIZE) [0..<USER_STACK_PAGES]"

definition page_of :: "nat \<Rightarrow> nat set" where
  "page_of va = {va..<va + PAGE_SIZE}"

definition stack_window :: "u32 \<Rightarrow> nat set" where
  "stack_window pid = (\<Union>va \<in> set (user_stack_vas pid). page_of va)"

text \<open>Pids whose window lies above address 0, that is, for which no subtraction saturates.\<close>

definition stack_pid_ok :: "u32 \<Rightarrow> bool" where
  "stack_pid_ok pid \<longleftrightarrow> 0 < pid \<and> unat pid * STACK_SLOT_PAGES * PAGE_SIZE \<le> USER_STACK_TOP"

lemmas stack_consts = STACK_SLOT_PAGES_def USER_STACK_PAGES_def USER_STACK_TOP_def PAGE_SIZE_def

lemma unat_pid_pred: "0 < (pid :: u32) \<Longrightarrow> unat (word_ssub pid 1) = unat pid - 1"
  by (simp add: unat_word_ssub)

lemma stack_top_eq:
  "0 < pid \<Longrightarrow> stack_top_for_pid pid = USER_STACK_TOP - (unat pid - 1) * STACK_SLOT_PAGES * PAGE_SIZE"
  by (simp add: stack_top_for_pid_def Let_def unat_pid_pred)

lemma stack_window_bounds:
  assumes "stack_pid_ok pid" "a \<in> stack_window pid"
  shows "USER_STACK_TOP + 2 * PAGE_SIZE \<le> a + unat pid * STACK_SLOT_PAGES * PAGE_SIZE"
    and "a + (unat pid - 1) * STACK_SLOT_PAGES * PAGE_SIZE < USER_STACK_TOP + PAGE_SIZE"
proof -
  from assms(2) obtain i where i: "i < 8" and a:
    "stack_top_for_pid pid - i * PAGE_SIZE \<le> a" "a < stack_top_for_pid pid - i * PAGE_SIZE + PAGE_SIZE"
    by (auto simp: stack_window_def user_stack_vas_def page_of_def USER_STACK_PAGES_def)
  from assms(1) have pos: "0 < pid" and fits: "unat pid * 36864 \<le> 140737488351232"
    by (auto simp: stack_pid_ok_def stack_consts)
  from pos have "0 < unat pid" by (simp add: unat_gt_0)
  then obtain k where k: "unat pid = Suc k" by (cases "unat pid") auto
  have top: "stack_top_for_pid pid = 140737488351232 - k * 36864"
    using stack_top_eq [OF pos] k by (simp add: stack_consts)
  from i have "i * 4096 \<le> 7 * 4096" by simp
  with a top fits k show
    "USER_STACK_TOP + 2 * PAGE_SIZE \<le> a + unat pid * STACK_SLOT_PAGES * PAGE_SIZE"
    "a + (unat pid - 1) * STACK_SLOT_PAGES * PAGE_SIZE < USER_STACK_TOP + PAGE_SIZE"
    by (simp_all add: stack_consts)
qed

text \<open>Two windows are disjoint, and one unmapped guard page separates neighbours.\<close>

lemma stack_windows_ordered:
  assumes "stack_pid_ok p" "stack_pid_ok q" "p < q" "a \<in> stack_window p" "b \<in> stack_window q"
  shows "b + PAGE_SIZE < a"
proof -
  from assms(3) have lt: "Suc (unat p) \<le> unat q" by (simp add: word_less_nat_alt)
  have "b + (unat q - 1) * 36864 < 140737488351232 + 4096"
    using stack_window_bounds(2) [OF assms(2,5)] by (simp add: stack_consts)
  moreover have "140737488351232 + 8192 \<le> a + unat p * 36864"
    using stack_window_bounds(1) [OF assms(1,4)] by (simp add: stack_consts)
  moreover have "unat p * 36864 \<le> (unat q - 1) * 36864" using lt by simp
  ultimately show ?thesis by (simp add: PAGE_SIZE_def)
qed

lemma guard_page_unmapped:
  assumes "stack_pid_ok p" "a \<in> page_of (stack_top_for_pid p - USER_STACK_PAGES * PAGE_SIZE)"
    and "stack_pid_ok q"
  shows "a \<notin> stack_window q"
proof
  assume aq: "a \<in> stack_window q"
  from assms(1) have pos: "0 < p" and fits: "unat p * 36864 \<le> 140737488351232"
    by (auto simp: stack_pid_ok_def stack_consts)
  from assms(3) have "0 < q" by (simp add: stack_pid_ok_def)
  with pos have pq: "0 < unat p" "0 < unat q" by (simp_all add: unat_gt_0)
  have top: "stack_top_for_pid p = 140737488351232 - (unat p - 1) * 36864"
    using stack_top_eq [OF pos] by (simp add: stack_consts)
  have "a + unat p * 36864 < 140737488351232 + 8192" "140737488351232 + 4096 \<le> a + unat p * 36864"
    using assms(2) top fits pq by (auto simp: page_of_def stack_consts algebra_simps)
  moreover have "140737488351232 + 8192 \<le> a + unat q * 36864"
    "a + (unat q - 1) * 36864 < 140737488351232 + 4096"
    using stack_window_bounds [OF assms(3) aq] by (simp_all add: stack_consts)
  ultimately have "unat p * 36864 < unat q * 36864" "(unat q - 1) * 36864 < unat p * 36864"
    by linarith+
  then show False using pq by simp
qed

section \<open>The process table\<close>

text \<open>The statics of \<open>pid.rs\<close>. \<open>kernel_stack_canaries\<close> is the word at the bottom of each kernel
  stack; \<open>kernel_stacks_base\<close> is the link address of \<open>KERNEL_STACKS\<close>.\<close>

record ptable =
  process_table :: "pcb option list"
  next_pid :: u32
  current_pid :: "u32 option"
  current_index :: "nat option"
  kernel_stack_used :: "bool list"
  kernel_stack_canaries :: "u64 list"
  kernel_stacks_base :: u64

definition ptable_init :: "u64 \<Rightarrow> ptable" where
  "ptable_init base =
     \<lparr>process_table = replicate MAX_PROCESSES None, next_pid = 1, current_pid = None,
      current_index = None, kernel_stack_used = replicate MAX_PROCESSES False,
      kernel_stack_canaries = replicate MAX_PROCESSES 0, kernel_stacks_base = base\<rparr>"

definition allocate_process_slot :: "ptable \<Rightarrow> (nat \<times> u32) option \<times> ptable" where
  "allocate_process_slot pt =
     (case first_index (\<lambda>slot. slot = None) (process_table pt) of
        Some i \<Rightarrow> (Some (i, next_pid pt), pt\<lparr>next_pid := next_pid pt + 1\<rparr>)
      | None \<Rightarrow> (None, pt))"

definition put_descriptor :: "nat \<Rightarrow> pcb \<Rightarrow> ptable \<Rightarrow> ptable" where
  "put_descriptor idx desc pt =
     (if idx \<ge> MAX_PROCESSES then pt
      else pt\<lparr>process_table := (process_table pt)[idx := Some desc]\<rparr>)"

definition release_slot :: "nat \<Rightarrow> ptable \<Rightarrow> ptable" where
  "release_slot idx pt =
     (if idx \<ge> MAX_PROCESSES then pt
      else pt\<lparr>kernel_stack_used := (kernel_stack_used pt)[idx := False],
              process_table := (process_table pt)[idx := None]\<rparr>)"

text \<open>The slot the reaping loop stops at: dead, and either any pid is wanted or this one.\<close>

definition reapable :: "u32 \<Rightarrow> pcb option \<Rightarrow> bool" where
  "reapable pid slot =
     (case slot of None \<Rightarrow> False
      | Some p \<Rightarrow> pcb_state p = Dead \<and> (pid = 0 \<or> pid = - 1 \<or> pcb_pid p = pid))"

definition reap_dead :: "u32 \<Rightarrow> ptable \<Rightarrow> (u32 \<times> int option) option \<times> ptable" where
  "reap_dead pid pt =
     (case first_index (reapable pid) (process_table pt) of
        None \<Rightarrow> (None, pt)
      | Some i \<Rightarrow>
          (case process_table pt ! i of
             None \<Rightarrow> (None, pt)
           | Some p \<Rightarrow> (Some (pcb_pid p, pcb_exit_status p), release_slot i pt)))"

definition get_descriptor :: "nat \<Rightarrow> ptable \<Rightarrow> pcb option" where
  "get_descriptor i pt = (if i \<ge> MAX_PROCESSES then None else process_table pt ! i)"

text \<open>\<open>get_descriptor_mut\<close> followed by an update of the descriptor in place.\<close>

definition update_descriptor :: "nat \<Rightarrow> (pcb \<Rightarrow> pcb) \<Rightarrow> ptable \<Rightarrow> ptable" where
  "update_descriptor i f pt =
     (case get_descriptor i pt of
        None \<Rightarrow> pt
      | Some p \<Rightarrow> pt\<lparr>process_table := (process_table pt)[i := Some (f p)]\<rparr>)"

text \<open>\<open>PROCESS_TABLE[i]\<close> with an index out of range panics.\<close>

definition set_current :: "nat option \<Rightarrow> ptable \<Rightarrow> ptable halting" where
  "set_current idx pt =
     (case idx of
        None \<Rightarrow> Done (pt\<lparr>current_index := None, current_pid := None\<rparr>)
      | Some i \<Rightarrow>
          (if i \<ge> MAX_PROCESSES then Halted ''index out of bounds''
           else Done (pt\<lparr>current_index := Some i,
                         current_pid := map_option pcb_pid (process_table pt ! i)\<rparr>)))"

definition alloc_kernel_stack :: "nat \<Rightarrow> ptable \<Rightarrow> u64 option \<times> ptable" where
  "alloc_kernel_stack idx pt =
     (if idx \<ge> MAX_PROCESSES then (None, pt)
      else if kernel_stack_used pt ! idx then (None, pt)
      else (Some (kernel_stacks_base pt + of_nat (idx * KERNEL_STACK_SIZE + KERNEL_STACK_SIZE)),
            pt\<lparr>kernel_stack_used := (kernel_stack_used pt)[idx := True],
               kernel_stack_canaries := (kernel_stack_canaries pt)[idx := KSTACK_CANARY]\<rparr>))"

definition current_pid_for_fault :: "ptable \<Rightarrow> u64" where
  "current_pid_for_fault pt = (case current_pid pt of None \<Rightarrow> 0 | Some p \<Rightarrow> ucast p)"

definition current_descriptor :: "ptable \<Rightarrow> pcb option" where
  "current_descriptor pt =
     (case current_index pt of None \<Rightarrow> None | Some i \<Rightarrow> get_descriptor i pt)"

definition has_pid :: "u32 \<Rightarrow> pcb option \<Rightarrow> bool" where
  "has_pid pid slot = (case slot of None \<Rightarrow> False | Some p \<Rightarrow> pcb_pid p = pid)"

definition index_of_pid :: "u32 \<Rightarrow> ptable \<Rightarrow> nat option" where
  "index_of_pid pid pt = first_index (has_pid pid) (process_table pt)"

definition check_kernel_stack_canary :: "ptable \<Rightarrow> unit halting" where
  "check_kernel_stack_canary pt =
     (case current_index pt of
        None \<Rightarrow> Done ()
      | Some i \<Rightarrow>
          (if i \<ge> MAX_PROCESSES then Done ()
           else if kernel_stack_canaries pt ! i \<noteq> KSTACK_CANARY
           then Halted ''kernel_stack_canary_corrupt'' else Done ()))"

text \<open>The entries \<open>get_proc_info_snapshot\<close> writes for a buffer of the given capacity.\<close>

definition get_proc_info_snapshot :: "nat \<Rightarrow> ptable \<Rightarrow> (u32 \<times> u8) list" where
  "get_proc_info_snapshot capacity pt =
     take capacity
       (List.map_filter (map_option (\<lambda>p. (pcb_pid p, state_to_u8 (pcb_state p)))) (process_table pt))"

section \<open>Invariant\<close>

definition live :: "ptable \<Rightarrow> nat \<Rightarrow> pcb \<Rightarrow> bool" where
  "live pt i p \<longleftrightarrow> i < MAX_PROCESSES \<and> process_table pt ! i = Some p"

definition ptable_wf :: "ptable \<Rightarrow> bool" where
  "ptable_wf pt \<longleftrightarrow> length (process_table pt) = MAX_PROCESSES \<and>
     length (kernel_stack_used pt) = MAX_PROCESSES \<and>
     length (kernel_stack_canaries pt) = MAX_PROCESSES"

definition ptable_inv :: "ptable \<Rightarrow> bool" where
  "ptable_inv pt \<longleftrightarrow> ptable_wf pt \<and>
     (\<forall>i < MAX_PROCESSES. kernel_stack_used pt ! i \<longleftrightarrow> process_table pt ! i \<noteq> None) \<and>
     (\<forall>i p. live pt i p \<longrightarrow> 0 < pcb_pid p \<and> pcb_pid p < next_pid pt) \<and>
     (\<forall>i j p q. live pt i p \<longrightarrow> live pt j q \<longrightarrow> pcb_pid p = pcb_pid q \<longrightarrow> i = j)"

lemmas ptable_defs = ptable_inv_def ptable_wf_def live_def

lemma ptable_inv_wf [dest]: "ptable_inv pt \<Longrightarrow> ptable_wf pt"
  by (simp add: ptable_inv_def)

lemma get_descriptor_eq_Some_iff [table_simps]:
  "get_descriptor i pt = Some p \<longleftrightarrow> live pt i p"
  by (auto simp: get_descriptor_def live_def)

lemma live_unique: "live pt i p \<Longrightarrow> live pt i q \<Longrightarrow> p = q"
  by (simp add: live_def)

lemma ptable_init_inv [inv_intros]: "ptable_inv (ptable_init base)"
  by (auto simp: ptable_defs ptable_init_def)

lemma release_slot_inv [inv_intros]: "ptable_inv pt \<Longrightarrow> ptable_inv (release_slot i pt)"
  by (fastforce simp: ptable_defs release_slot_def nth_list_update split: if_splits)

lemma live_update_descriptor:
  "ptable_wf pt \<Longrightarrow> live (update_descriptor i f pt) j q \<longleftrightarrow>
    (if j = i then \<exists>p. live pt i p \<and> q = f p else live pt j q)"
  by (auto simp: update_descriptor_def get_descriptor_def live_def ptable_wf_def
      split: option.splits if_splits)

lemma update_descriptor_fields [simp]:
  "next_pid (update_descriptor i f pt) = next_pid pt"
  "current_index (update_descriptor i f pt) = current_index pt"
  "current_pid (update_descriptor i f pt) = current_pid pt"
  "kernel_stack_used (update_descriptor i f pt) = kernel_stack_used pt"
  "kernel_stack_canaries (update_descriptor i f pt) = kernel_stack_canaries pt"
  "length (process_table (update_descriptor i f pt)) = length (process_table pt)"
  by (simp_all add: update_descriptor_def split: option.split)

lemma slot_update_descriptor:
  "ptable_wf pt \<Longrightarrow> j < MAX_PROCESSES \<Longrightarrow>
   process_table (update_descriptor i f pt) ! j = None \<longleftrightarrow> process_table pt ! j = None"
  by (auto simp: update_descriptor_def get_descriptor_def ptable_wf_def nth_list_update
      split: option.splits if_splits)

lemma update_descriptor_wf [inv_intros]: "ptable_wf pt \<Longrightarrow> ptable_wf (update_descriptor i f pt)"
  by (simp add: ptable_wf_def)

lemma update_descriptor_inv [inv_intros]:
  assumes inv: "ptable_inv pt" and pid: "\<And>p. pcb_pid (f p) = pcb_pid p"
  shows "ptable_inv (update_descriptor i f pt)"
proof -
  from inv have wf: "ptable_wf pt" by auto
  have old: "\<exists>p. live pt j p \<and> pcb_pid p = pcb_pid q" if "live (update_descriptor i f pt) j q" for j q
    using that by (auto simp: live_update_descriptor [OF wf] pid split: if_splits)
  show ?thesis
    unfolding ptable_inv_def
  proof (intro conjI allI impI)
    show "ptable_wf (update_descriptor i f pt)" using wf by (rule update_descriptor_wf)
  next
    fix j assume "j < MAX_PROCESSES"
    then show "kernel_stack_used (update_descriptor i f pt) ! j \<longleftrightarrow>
        process_table (update_descriptor i f pt) ! j \<noteq> None"
      using inv by (simp add: slot_update_descriptor [OF wf] ptable_inv_def)
  next
    fix j q assume "live (update_descriptor i f pt) j q"
    then obtain p where "live pt j p" "pcb_pid p = pcb_pid q" using old by blast
    with inv show "0 < pcb_pid q" "pcb_pid q < next_pid (update_descriptor i f pt)"
      by (force simp: ptable_inv_def)+
  next
    fix j k p q
    assume "live (update_descriptor i f pt) j p" "live (update_descriptor i f pt) k q"
      "pcb_pid p = pcb_pid q"
    then obtain p' q' where "live pt j p'" "live pt k q'" "pcb_pid p' = pcb_pid q'"
      using old by metis
    with inv show "j = k" by (simp add: ptable_inv_def)
  qed
qed

lemma reap_dead_inv [inv_intros]: "ptable_inv pt \<Longrightarrow> ptable_inv (snd (reap_dead pid pt))"
  by (auto simp: reap_dead_def release_slot_inv split: option.split)

lemma set_current_inv [inv_intros]: "ptable_inv pt \<Longrightarrow> set_current c pt = Done pt' \<Longrightarrow> ptable_inv pt'"
  by (auto simp: set_current_def ptable_defs split: option.splits if_splits)

section \<open>Allocation of a slot\<close>

lemma allocate_process_slot_Some:
  assumes "allocate_process_slot pt = (Some (i, pid), pt')" "ptable_wf pt"
  shows "i < MAX_PROCESSES" "process_table pt ! i = None" "pid = next_pid pt"
    "pt' = pt\<lparr>next_pid := next_pid pt + 1\<rparr>" "\<forall>j < i. process_table pt ! j \<noteq> None"
  using assms
  by (auto simp: allocate_process_slot_def ptable_wf_def first_index_eq_Some_iff split: option.splits)

lemma allocate_process_slot_None_iff:
  "ptable_wf pt \<Longrightarrow> fst (allocate_process_slot pt) = None \<longleftrightarrow>
    (\<forall>i < MAX_PROCESSES. process_table pt ! i \<noteq> None)"
  by (auto simp: allocate_process_slot_def ptable_wf_def in_set_conv_nth
      first_index_eq_Some_iff first_index_eq_None_iff split: option.split)

text \<open>A free slot always has a free kernel stack, so creation never fails there.\<close>

lemma alloc_kernel_stack_free_slot:
  assumes "ptable_inv pt" "i < MAX_PROCESSES" "process_table pt ! i = None"
  shows "fst (alloc_kernel_stack i pt) \<noteq> None"
  using assms by (simp add: alloc_kernel_stack_def ptable_inv_def)

text \<open>The three steps of \<open>create_user_process\<close> on the table: take a slot and a pid, take the
  kernel stack of that slot, store the descriptor.\<close>

lemma install_descriptor_inv:
  assumes inv: "ptable_inv pt" and nowrap: "next_pid pt \<noteq> - 1"
    and alloc: "allocate_process_slot pt = (Some (i, pid), pt1)"
    and stack: "alloc_kernel_stack i pt1 = (Some ktop, pt2)" and pid: "pcb_pid d = pid"
    and pos: "0 < next_pid pt"
  shows "ptable_inv (put_descriptor i d pt2)"
proof -
  from inv have wf: "ptable_wf pt" by auto
  note a = allocate_process_slot_Some [OF alloc wf]
  have lt: "next_pid pt < next_pid pt + 1"
    using nowrap by (rule word_less_succ)
  have pt2: "put_descriptor i d pt2 =
      pt1\<lparr>kernel_stack_used := (kernel_stack_used pt1)[i := True],
         kernel_stack_canaries := (kernel_stack_canaries pt1)[i := KSTACK_CANARY],
         process_table := (process_table pt1)[i := Some d]\<rparr>"
    using stack a(1) by (auto simp: put_descriptor_def alloc_kernel_stack_def split: if_splits)
  have old: "0 < pcb_pid p \<and> pcb_pid p < next_pid pt" if "live pt j p" for j p
    using inv that by (simp add: ptable_inv_def)
  have lives: "live (put_descriptor i d pt2) j p \<longleftrightarrow> (if j = i then p = d else live pt j p)" for j p
    using wf a by (auto simp: pt2 live_def ptable_wf_def nth_list_update)
  show ?thesis
    unfolding ptable_inv_def
  proof (intro conjI allI impI)
    show "ptable_wf (put_descriptor i d pt2)" using wf a by (simp add: pt2 ptable_wf_def)
  next
    fix j assume "j < MAX_PROCESSES"
    then show "kernel_stack_used (put_descriptor i d pt2) ! j \<longleftrightarrow>
        process_table (put_descriptor i d pt2) ! j \<noteq> None"
      using inv a wf by (simp add: pt2 nth_list_update ptable_inv_def ptable_wf_def)
  next
    fix j p assume "live (put_descriptor i d pt2) j p"
    then consider "j = i" "p = d" | "j \<noteq> i" "live pt j p" by (auto simp: lives split: if_splits)
    then have "0 < pcb_pid p \<and> pcb_pid p < next_pid pt + 1"
    proof cases
      case 1
      then show ?thesis using pid a(3) pos lt by simp
    next
      case 2
      then show ?thesis using old lt by (meson less_trans)
    qed
    then show "0 < pcb_pid p" "pcb_pid p < next_pid (put_descriptor i d pt2)"
      using a(4) by (simp_all add: pt2)
  next
    fix j k p q
    assume "live (put_descriptor i d pt2) j p" "live (put_descriptor i d pt2) k q" "pcb_pid p = pcb_pid q"
    moreover have "pcb_pid r \<noteq> pcb_pid d" if "live pt m r" for m r
      using old [OF that] pid a(3) by auto
    moreover have "j = k" if "live pt j p" "live pt k q" "pcb_pid p = pcb_pid q"
      using inv that unfolding ptable_inv_def by blast
    ultimately show "j = k" unfolding lives by metis
  qed
qed

section \<open>Pids name processes\<close>

text \<open>What a client that addresses processes by pid relies on: the search finds a slot exactly
  when a live process of that slot has the pid.\<close>

locale pid_directory =
  fixes inv :: "'s \<Rightarrow> bool"
    and pid_at :: "'s \<Rightarrow> nat \<Rightarrow> 'p option"
    and find_pid :: "'p \<Rightarrow> 's \<Rightarrow> nat option"
  assumes find_pid_iff: "inv s \<Longrightarrow> find_pid p s = Some i \<longleftrightarrow> pid_at s i = Some p"
begin

lemma find_pid_inj: "inv s \<Longrightarrow> find_pid p s = Some i \<Longrightarrow> find_pid q s = Some i \<Longrightarrow> p = q"
  by (simp add: find_pid_iff)

lemma pid_at_inj: "inv s \<Longrightarrow> pid_at s i = Some p \<Longrightarrow> pid_at s j = Some p \<Longrightarrow> i = j"
  by (metis find_pid_iff option.inject)

lemma find_pid_None_iff: "inv s \<Longrightarrow> find_pid p s = None \<longleftrightarrow> (\<forall>i. pid_at s i \<noteq> Some p)"
  by (metis find_pid_iff not_None_eq)

end

definition pid_at :: "ptable \<Rightarrow> nat \<Rightarrow> u32 option" where
  "pid_at pt i = map_option pcb_pid (get_descriptor i pt)"

lemma pid_at_eq_Some_iff: "pid_at pt i = Some p \<longleftrightarrow> (\<exists>d. live pt i d \<and> pcb_pid d = p)"
  by (auto simp: pid_at_def table_simps)

lemma index_of_pid_iff:
  assumes "ptable_inv pt"
  shows "index_of_pid p pt = Some i \<longleftrightarrow> (\<exists>d. live pt i d \<and> pcb_pid d = p)"
proof
  assume "index_of_pid p pt = Some i"
  then have "i < length (process_table pt)" "has_pid p (process_table pt ! i)"
    by (auto simp: index_of_pid_def dest: first_index_SomeD)
  then show "\<exists>d. live pt i d \<and> pcb_pid d = p"
    using assms by (auto simp: has_pid_def ptable_defs split: option.splits)
next
  assume "\<exists>d. live pt i d \<and> pcb_pid d = p"
  then obtain d where d: "live pt i d" "pcb_pid d = p" by blast
  show "index_of_pid p pt = Some i"
    unfolding index_of_pid_def
  proof (rule first_index_unique)
    show "i < length (process_table pt)" "has_pid p (process_table pt ! i)"
      using d assms by (auto simp: has_pid_def ptable_defs)
    fix j assume "j < length (process_table pt)" "has_pid p (process_table pt ! j)"
    then obtain e where "live pt j e" "pcb_pid e = p"
      using assms by (auto simp: has_pid_def ptable_defs split: option.splits)
    with d assms show "j = i" unfolding ptable_inv_def by metis
  qed
qed

interpretation pids: pid_directory ptable_inv pid_at index_of_pid
  by unfold_locales (simp add: index_of_pid_iff pid_at_eq_Some_iff)

section \<open>Properties\<close>

text \<open>the stacks of two different processes never share a byte, and the guard page below a stack
  belongs to no stack, as long as the pids are small enough for the windows to fit below the top.\<close>

theorem user_stacks_separated:
  assumes "stack_pid_ok p" "stack_pid_ok q" "p \<noteq> q"
  shows "stack_window p \<inter> stack_window q = {} \<and>
    page_of (stack_top_for_pid p - USER_STACK_PAGES * PAGE_SIZE) \<inter> stack_window q = {} \<and>
    page_of (stack_top_for_pid p - USER_STACK_PAGES * PAGE_SIZE) \<inter> stack_window p = {}"
proof -
  have "stack_window p \<inter> stack_window q = {}"
  proof (cases "p < q")
    case True
    then show ?thesis using stack_windows_ordered [OF assms(1,2)] by fastforce
  next
    case False
    with assms(3) have "q < p" by simp
    then show ?thesis using stack_windows_ordered [OF assms(2,1)] by fastforce
  qed
  with guard_page_unmapped [OF assms(1) _ assms(2)] guard_page_unmapped [OF assms(1) _ assms(1)]
  show ?thesis by blast
qed

theorem user_stacks_separated_witness:
  "stack_pid_ok 1 \<and> stack_pid_ok 2 \<and> stack_window 1 \<inter> stack_window 2 = {}"
proof -
  have "stack_pid_ok 1" "stack_pid_ok 2" by (simp_all add: stack_pid_ok_def stack_consts)
  then show ?thesis using user_stacks_separated [of 1 2] by simp
qed

text \<open>installing a new process keeps the table consistent: the chosen slot was empty, its kernel
  stack was free, the pid is new, and the lookup by pid afterwards finds exactly this slot while
  all earlier processes are found where they were.\<close>

theorem install_process:
  assumes inv: "ptable_inv pt" and pos: "0 < next_pid pt" and nowrap: "next_pid pt \<noteq> - 1"
    and alloc: "allocate_process_slot pt = (Some (i, pid), pt1)"
    and stack: "alloc_kernel_stack i pt1 = (Some ktop, pt2)" and d: "pcb_pid d = pid"
  shows "ptable_inv (put_descriptor i d pt2) \<and> index_of_pid pid (put_descriptor i d pt2) = Some i \<and>
    (\<forall>q. q \<noteq> pid \<longrightarrow> index_of_pid q (put_descriptor i d pt2) = index_of_pid q pt)"
proof -
  let ?pt = "put_descriptor i d pt2"
  note inv' = install_descriptor_inv [OF inv nowrap alloc stack d pos]
  from inv have wf: "ptable_wf pt" by auto
  note a = allocate_process_slot_Some [OF alloc wf]
  have tab: "process_table ?pt = (process_table pt)[i := Some d]"
    using a stack by (auto simp: put_descriptor_def alloc_kernel_stack_def split: if_splits)
  have live: "live ?pt j e \<longleftrightarrow> (if j = i then e = d else live pt j e)" for j e
    using a(1) wf by (auto simp: live_def tab ptable_wf_def nth_list_update)
  have none: "\<not> live pt i e" for e using a(2) by (simp add: live_def)
  have "index_of_pid pid ?pt = Some i" using live d by (subst index_of_pid_iff [OF inv']) auto
  moreover have "index_of_pid q ?pt = index_of_pid q pt" if "q \<noteq> pid" for q
  proof -
    have "index_of_pid q pt = Some j \<longleftrightarrow> index_of_pid q ?pt = Some j" for j
      using that live none d by (auto simp: index_of_pid_iff [OF inv] index_of_pid_iff [OF inv'])
    then show ?thesis by (metis not_None_eq)
  qed
  ultimately show ?thesis using inv' by blast
qed

theorem install_process_witness:
  "\<exists>pt1 ktop pt2. allocate_process_slot (ptable_init 0x1000) = (Some (0, 1), pt1) \<and>
    alloc_kernel_stack 0 pt1 = (Some ktop, pt2) \<and>
    index_of_pid 1 (put_descriptor 0 (pcb_new 1 Runnable 0 0
      \<lparr>tf_rip = 0, tf_cs = 0, tf_rflags = 0, tf_rsp = 0, tf_ss = 0\<rparr>) pt2) = Some 0"
proof -
  let ?pt = "ptable_init 0x1000"
  have fi: "first_index (\<lambda>slot :: pcb option. slot = None) (replicate MAX_PROCESSES None) = Some 0"
    by (simp add: first_index_eq_Some_iff MAX_PROCESSES_def)
  have al: "allocate_process_slot ?pt = (Some (0, 1), ?pt\<lparr>next_pid := 2\<rparr>)"
    by (simp add: allocate_process_slot_def ptable_init_def fi)
  obtain ktop pt2 where st: "alloc_kernel_stack 0 (?pt\<lparr>next_pid := 2\<rparr>) = (Some ktop, pt2)"
    by (simp add: alloc_kernel_stack_def ptable_init_def MAX_PROCESSES_def)
  have "pcb_pid (pcb_new 1 Runnable 0 0 tf) = 1" for tf by (simp add: pcb_new_def)
  with install_process [OF ptable_init_inv _ _ al st] al st show ?thesis
    by (fastforce simp: ptable_init_def)
qed

end
