(* ===== verification/Ipc.thy ===== *)
theory Ipc
  imports Ring_Buffers Process
begin

text \<open>
  Per-process message queues (\<open>kernel/process/ipc.rs\<close>) carrying the 64-byte messages of
  \<open>lib/src/lib.rs\<close>. A ring with an explicit length is shown to be a \<open>bounded_fifo\<close>; the
  operations on the array of queues touch only the queue of the given slot.
\<close>

record rwm_msg =
  msg_type :: u8
  msg_flags :: u8
  msg_seq :: u16
  sender_pid :: u32
  payload :: "u8 list"

definition RwmMsg_ZERO :: rwm_msg where
  "RwmMsg_ZERO = \<lparr>msg_type = 0, msg_flags = 0, msg_seq = 0, sender_pid = 0, payload = replicate 56 0\<rparr>"

definition IPC_QUEUE_DEPTH :: nat where
  "IPC_QUEUE_DEPTH = 32"

record ipc_ring =
  ring_buf :: "rwm_msg list"
  ring_head :: nat
  ring_tail :: nat
  ring_len :: nat

definition ipc_ring_new :: ipc_ring where
  "ipc_ring_new =
     \<lparr>ring_buf = replicate IPC_QUEUE_DEPTH RwmMsg_ZERO, ring_head = 0, ring_tail = 0, ring_len = 0\<rparr>"

definition ipc_ring_enqueue :: "rwm_msg \<Rightarrow> ipc_ring \<Rightarrow> bool \<times> ipc_ring" where
  "ipc_ring_enqueue msg r =
     (if ring_len r = IPC_QUEUE_DEPTH then (False, r)
      else (True, r\<lparr>ring_buf := (ring_buf r)[ring_tail r := msg],
                    ring_tail := (ring_tail r + 1) mod IPC_QUEUE_DEPTH,
                    ring_len := ring_len r + 1\<rparr>))"

definition ipc_ring_dequeue :: "ipc_ring \<Rightarrow> rwm_msg option \<times> ipc_ring" where
  "ipc_ring_dequeue r =
     (if ring_len r = 0 then (None, r)
      else (Some (ring_buf r ! ring_head r),
            r\<lparr>ring_head := (ring_head r + 1) mod IPC_QUEUE_DEPTH, ring_len := ring_len r - 1\<rparr>))"

definition ipc_ring_clear :: "ipc_ring \<Rightarrow> ipc_ring" where
  "ipc_ring_clear r = r\<lparr>ring_head := 0, ring_tail := 0, ring_len := 0\<rparr>"

type_synonym ipc_queues = "ipc_ring list"

definition ipc_queues_init :: ipc_queues where
  "ipc_queues_init = replicate MAX_PROCESSES ipc_ring_new"

definition ipc_enqueue :: "nat \<Rightarrow> rwm_msg \<Rightarrow> ipc_queues \<Rightarrow> bool \<times> ipc_queues" where
  "ipc_enqueue idx msg qs =
     (if idx \<ge> MAX_PROCESSES then (False, qs)
      else let (ok, r) = ipc_ring_enqueue msg (qs ! idx) in (ok, qs[idx := r]))"

definition ipc_dequeue :: "nat \<Rightarrow> ipc_queues \<Rightarrow> rwm_msg option \<times> ipc_queues" where
  "ipc_dequeue idx qs =
     (if idx \<ge> MAX_PROCESSES then (None, qs)
      else let (m, r) = ipc_ring_dequeue (qs ! idx) in (m, qs[idx := r]))"

definition ipc_clear :: "nat \<Rightarrow> ipc_queues \<Rightarrow> ipc_queues" where
  "ipc_clear idx qs =
     (if idx \<ge> MAX_PROCESSES then qs else qs[idx := ipc_ring_clear (qs ! idx)])"

section \<open>Each ring is a bounded FIFO\<close>

definition ipc_ring_inv :: "ipc_ring \<Rightarrow> bool" where
  "ipc_ring_inv r \<longleftrightarrow> length (ring_buf r) = IPC_QUEUE_DEPTH \<and> ring_head r < IPC_QUEUE_DEPTH \<and>
     ring_len r \<le> IPC_QUEUE_DEPTH \<and> ring_tail r = (ring_head r + ring_len r) mod IPC_QUEUE_DEPTH"

definition ipc_contents :: "ipc_ring \<Rightarrow> rwm_msg list" where
  "ipc_contents r = ring_list IPC_QUEUE_DEPTH (ring_buf r) (ring_head r) (ring_len r)"

lemma ipc_depth_pos [simp]: "0 < IPC_QUEUE_DEPTH"
  by (simp add: IPC_QUEUE_DEPTH_def)

lemma ipc_ring_new_inv [inv_intros]: "ipc_ring_inv ipc_ring_new"
  by (simp add: ipc_ring_inv_def ipc_ring_new_def)

lemma ipc_ring_new_contents [simp]: "ipc_contents ipc_ring_new = []"
  by (simp add: ipc_contents_def ipc_ring_new_def)

lemma ipc_ring_clear_inv [inv_intros]: "ipc_ring_inv r \<Longrightarrow> ipc_ring_inv (ipc_ring_clear r)"
  by (simp add: ipc_ring_inv_def ipc_ring_clear_def)

lemma ipc_ring_clear_contents [simp]: "ipc_contents (ipc_ring_clear r) = []"
  by (simp add: ipc_contents_def ipc_ring_clear_def)

lemma length_ipc_contents [simp]: "length (ipc_contents r) = ring_len r"
  by (simp add: ipc_contents_def)

lemma ipc_ring_enqueue_inv [inv_intros]:
  "ipc_ring_inv r \<Longrightarrow> ipc_ring_inv (snd (ipc_ring_enqueue m r))"
  by (auto simp: ipc_ring_inv_def ipc_ring_enqueue_def mod_simps)

lemma ipc_ring_dequeue_inv [inv_intros]:
  "ipc_ring_inv r \<Longrightarrow> ipc_ring_inv (snd (ipc_ring_dequeue r))"
  by (cases "ring_len r") (auto simp: ipc_ring_inv_def ipc_ring_dequeue_def mod_simps)

lemma ipc_ring_enqueue_contents:
  assumes "ipc_ring_inv r" "ring_len r < IPC_QUEUE_DEPTH"
  shows "ipc_contents (snd (ipc_ring_enqueue m r)) = ipc_contents r @ [m]"
  using assms ring_list_snoc [of "ring_len r" IPC_QUEUE_DEPTH "ring_buf r" "ring_head r" m]
  by (simp add: ipc_ring_inv_def ipc_ring_enqueue_def ipc_contents_def)

lemma ipc_ring_dequeue_contents:
  assumes "ipc_ring_inv r" "0 < ring_len r"
  shows "ipc_contents r = ring_buf r ! ring_head r # ipc_contents (snd (ipc_ring_dequeue r))"
  using assms ring_list_Cons [of "ring_len r" IPC_QUEUE_DEPTH "ring_buf r" "ring_head r"]
  by (simp add: ipc_ring_inv_def ipc_ring_dequeue_def ipc_contents_def)

interpretation ipcq: bounded_fifo ipc_ring_inv ipc_contents IPC_QUEUE_DEPTH
  ipc_ring_enqueue ipc_ring_dequeue
proof (unfold_locales, goal_cases)
  case (1 q)
  then show ?case by (simp add: ipc_ring_inv_def)
next
  case (4 q x)
  then show ?case by (simp add: ipc_ring_enqueue_def)
next
  case (5 q x)
  then show ?case using ipc_ring_enqueue_contents [of q x] by (simp add: ipc_ring_enqueue_def)
next
  case (6 q)
  then have "ring_len q = 0" using length_ipc_contents [of q] by simp
  then show ?case by (simp add: ipc_ring_dequeue_def)
next
  case (7 q y ys)
  then have "0 < ring_len q" using length_ipc_contents [of q] by simp
  with 7 show ?case using ipc_ring_dequeue_contents [of q] by (simp add: ipc_ring_dequeue_def)
qed (simp_all add: inv_intros)

section \<open>The array of queues\<close>

definition ipc_inv :: "ipc_queues \<Rightarrow> bool" where
  "ipc_inv qs \<longleftrightarrow> length qs = MAX_PROCESSES \<and> (\<forall>r \<in> set qs. ipc_ring_inv r)"

lemma ipc_inv_nth: "ipc_inv qs \<Longrightarrow> i < MAX_PROCESSES \<Longrightarrow> ipc_ring_inv (qs ! i)"
  by (simp add: ipc_inv_def)

lemma ipc_inv_update: "ipc_inv qs \<Longrightarrow> ipc_ring_inv r \<Longrightarrow> ipc_inv (qs[i := r])"
  by (auto simp: ipc_inv_def dest!: set_update_subset_insert [THEN subsetD])

lemma ipc_queues_init_inv [inv_intros]: "ipc_inv ipc_queues_init"
  by (simp add: ipc_inv_def ipc_queues_init_def inv_intros)

lemma ipc_enqueue_inv [inv_intros]: "ipc_inv qs \<Longrightarrow> ipc_inv (snd (ipc_enqueue i m qs))"
  by (auto simp: ipc_enqueue_def split_beta intro!: ipc_inv_update ipc_ring_enqueue_inv ipc_inv_nth)

lemma ipc_dequeue_inv [inv_intros]: "ipc_inv qs \<Longrightarrow> ipc_inv (snd (ipc_dequeue i qs))"
  by (auto simp: ipc_dequeue_def split_beta intro!: ipc_inv_update ipc_ring_dequeue_inv ipc_inv_nth)

lemma ipc_clear_inv [inv_intros]: "ipc_inv qs \<Longrightarrow> ipc_inv (ipc_clear i qs)"
  by (auto simp: ipc_clear_def intro!: ipc_inv_update ipc_ring_clear_inv ipc_inv_nth)

lemma ipc_enqueue_other: "j \<noteq> i \<Longrightarrow> snd (ipc_enqueue i m qs) ! j = qs ! j"
  by (simp add: ipc_enqueue_def split_beta)

lemma ipc_dequeue_other: "j \<noteq> i \<Longrightarrow> snd (ipc_dequeue i qs) ! j = qs ! j"
  by (simp add: ipc_dequeue_def split_beta)

lemma ipc_clear_other: "j \<noteq> i \<Longrightarrow> ipc_clear i qs ! j = qs ! j"
  by (simp add: ipc_clear_def)

lemma ipc_clear_empty: "ipc_inv qs \<Longrightarrow> i < MAX_PROCESSES \<Longrightarrow> ipc_contents (ipc_clear i qs ! i) = []"
  by (simp add: ipc_clear_def ipc_inv_def)

lemma ipc_enqueue_at:
  assumes "ipc_inv qs" "i < MAX_PROCESSES"
  shows "ipc_enqueue i m qs =
    (fst (ipc_ring_enqueue m (qs ! i)), qs[i := snd (ipc_ring_enqueue m (qs ! i))])"
  using assms by (simp add: ipc_enqueue_def split_beta)

section \<open>Properties\<close>

text \<open>the mailbox of a process is a bounded FIFO that nobody else's traffic touches: a send to
  slot \<open>i\<close> appends to \<open>i\<close> or reports failure when 32 messages wait, a receive takes the oldest
  message, a clear empties it, and any other slot \<open>j\<close> keeps its messages in all three cases.\<close>

theorem ipc_mailbox:
  assumes "ipc_inv qs" "i < MAX_PROCESSES" "j < MAX_PROCESSES" "j \<noteq> i"
  shows "(let (ok, qs') = ipc_enqueue i m qs
      in ipc_inv qs' \<and> qs' ! j = qs ! j \<and> ok = (length (ipc_contents (qs ! i)) < IPC_QUEUE_DEPTH) \<and>
         ipc_contents (qs' ! i) = (if ok then ipc_contents (qs ! i) @ [m] else ipc_contents (qs ! i))) \<and>
    (let (r, qs') = ipc_dequeue i qs
      in ipc_inv qs' \<and> qs' ! j = qs ! j \<and>
         (case ipc_contents (qs ! i) of [] \<Rightarrow> r = None \<and> qs' = qs
          | y # ys \<Rightarrow> r = Some y \<and> ipc_contents (qs' ! i) = ys)) \<and>
    ipc_inv (ipc_clear i qs) \<and> ipc_clear i qs ! j = qs ! j \<and> ipc_contents (ipc_clear i qs ! i) = []"
proof -
  from assms have len: "i < length qs" and ring: "ipc_ring_inv (qs ! i)"
    by (simp_all add: ipc_inv_def)
  have "fst (ipc_enqueue i m qs) = (length (ipc_contents (qs ! i)) < IPC_QUEUE_DEPTH) \<and>
      ipc_contents (snd (ipc_enqueue i m qs) ! i) =
        (if fst (ipc_enqueue i m qs) then ipc_contents (qs ! i) @ [m] else ipc_contents (qs ! i))"
  proof (cases "length (ipc_contents (qs ! i)) < IPC_QUEUE_DEPTH")
    case True
    then show ?thesis
      using ipcq.push_room [OF ring True] len by (simp add: ipc_enqueue_at [OF assms(1,2)])
  next
    case False
    with ipcq.bounded [OF ring] have "length (ipc_contents (qs ! i)) = IPC_QUEUE_DEPTH" by simp
    then show ?thesis
      using ipcq.push_full [OF ring] len by (simp add: ipc_enqueue_at [OF assms(1,2)])
  qed
  moreover have "case ipc_contents (qs ! i) of [] \<Rightarrow> ipc_dequeue i qs = (None, qs)
      | y # ys \<Rightarrow> fst (ipc_dequeue i qs) = Some y \<and> ipc_contents (snd (ipc_dequeue i qs) ! i) = ys"
    using ipcq.pop_empty [OF ring] ipcq.pop_some [OF ring] assms(2) len
    by (auto simp: ipc_dequeue_def split_beta split: list.split)
  ultimately show ?thesis
    using assms(1,2,4) ipc_enqueue_other [OF assms(4)] ipc_dequeue_other [OF assms(4)]
    by (auto simp: split_beta Let_def ipc_clear_other ipc_clear_empty inv_intros split: list.splits)
qed

theorem ipc_mailbox_witness:
  "ipc_inv ipc_queues_init \<and> fst (ipc_enqueue 3 RwmMsg_ZERO ipc_queues_init) \<and>
   ipc_contents (snd (ipc_enqueue 3 RwmMsg_ZERO ipc_queues_init) ! 3) = [RwmMsg_ZERO]"
proof -
  have "ipc_contents (ipc_queues_init ! 3) = []" by (simp add: ipc_queues_init_def MAX_PROCESSES_def)
  then show ?thesis
    using ipc_mailbox [OF ipc_queues_init_inv, of 3 4 RwmMsg_ZERO]
    by (simp add: split_beta Let_def MAX_PROCESSES_def ipc_queues_init_inv)
qed

text \<open>messages are delivered in the order they were sent: a batch that fits is received complete
  and in order, after what was already waiting.\<close>

theorem ipc_delivery_order:
  assumes "ipc_ring_inv r" "length (ipc_contents r) + length ms \<le> IPC_QUEUE_DEPTH"
  shows "fst (pop_n ipc_ring_dequeue (length (ipc_contents r) + length ms)
    (snd (push_all ipc_ring_enqueue ms r))) = map Some (ipc_contents r @ ms)"
  using assms by (rule ipcq.fifo_order)

theorem ipc_delivery_order_witness:
  "fst (pop_n ipc_ring_dequeue 2 (snd (push_all ipc_ring_enqueue
     [RwmMsg_ZERO, RwmMsg_ZERO\<lparr>msg_type := 7\<rparr>] ipc_ring_new))) = [Some RwmMsg_ZERO, Some (RwmMsg_ZERO\<lparr>msg_type := 7\<rparr>)]"
  using ipc_delivery_order [OF ipc_ring_new_inv, of "[RwmMsg_ZERO, RwmMsg_ZERO\<lparr>msg_type := 7\<rparr>]"]
  by (simp add: IPC_QUEUE_DEPTH_def numeral_2_eq_2)

end
