(* ===== verification/Console.thy ===== *)
theory Console
  imports Ring_Buffers
begin

text \<open>
  Input queues (\<open>kernel/drivers/input.rs\<close>) and the console line discipline
  (\<open>kernel/drivers/tty.rs\<close>). The serial port is outside the model: the bytes it delivers to a
  poll are an argument, the bytes sent to it are collected in \<open>serial_out\<close>.
\<close>

section \<open>Keyboard and mouse queues\<close>

definition QUEUE_SIZE :: nat where "QUEUE_SIZE = 64"

record key_event =
  keycode :: u8
  pressed :: bool

record mouse_event =
  dx :: u16
  dy :: u16
  buttons :: u8

record input_state =
  key_queue :: "key_event gap_ring"
  mouse_queue :: "mouse_event gap_ring"
  key_drops :: nat
  mouse_drops :: nat

definition input_init :: input_state where
  "input_init =
     \<lparr>key_queue = gap_init QUEUE_SIZE \<lparr>keycode = 0, pressed = False\<rparr>,
      mouse_queue = gap_init QUEUE_SIZE \<lparr>dx = 0, dy = 0, buttons = 0\<rparr>,
      key_drops = 0, mouse_drops = 0\<rparr>"

definition push_event :: "key_event \<Rightarrow> input_state \<Rightarrow> input_state" where
  "push_event ev s =
     (let (ok, q) = gap_push QUEUE_SIZE ev (key_queue s)
      in if ok then s\<lparr>key_queue := q\<rparr> else s\<lparr>key_drops := wadd (key_drops s) 1\<rparr>)"

definition pop_event :: "input_state \<Rightarrow> key_event option \<times> input_state" where
  "pop_event s = (let (e, q) = gap_pop QUEUE_SIZE (key_queue s) in (e, s\<lparr>key_queue := q\<rparr>))"

definition push_mouse_event :: "mouse_event \<Rightarrow> input_state \<Rightarrow> input_state" where
  "push_mouse_event ev s =
     (let (ok, q) = gap_push QUEUE_SIZE ev (mouse_queue s)
      in if ok then s\<lparr>mouse_queue := q\<rparr> else s\<lparr>mouse_drops := wadd (mouse_drops s) 1\<rparr>)"

definition pop_mouse_event :: "input_state \<Rightarrow> mouse_event option \<times> input_state" where
  "pop_mouse_event s = (let (e, q) = gap_pop QUEUE_SIZE (mouse_queue s) in (e, s\<lparr>mouse_queue := q\<rparr>))"

definition input_inv :: "input_state \<Rightarrow> bool" where
  "input_inv s \<longleftrightarrow> gap_inv QUEUE_SIZE (key_queue s) \<and> gap_inv QUEUE_SIZE (mouse_queue s)"

interpretation keyq: bounded_fifo "gap_inv QUEUE_SIZE" "gap_contents QUEUE_SIZE" "QUEUE_SIZE - 1"
  "gap_push QUEUE_SIZE" "gap_pop QUEUE_SIZE"
  by (rule gap_ring_fifo)

lemma input_init_inv [inv_intros]: "input_inv input_init"
  by (simp add: input_inv_def input_init_def QUEUE_SIZE_def inv_intros)

lemma push_event_inv [inv_intros]: "input_inv s \<Longrightarrow> input_inv (push_event ev s)"
  using gap_push_inv [of QUEUE_SIZE "key_queue s" ev]
  by (auto simp: input_inv_def push_event_def split_beta Let_def)

lemma push_mouse_event_inv [inv_intros]: "input_inv s \<Longrightarrow> input_inv (push_mouse_event ev s)"
  using gap_push_inv [of QUEUE_SIZE "mouse_queue s" ev]
  by (auto simp: input_inv_def push_mouse_event_def split_beta Let_def)

lemma pop_event_inv [inv_intros]: "input_inv s \<Longrightarrow> input_inv (snd (pop_event s))"
  by (simp add: input_inv_def pop_event_def split_beta inv_intros)

lemma pop_mouse_event_inv [inv_intros]: "input_inv s \<Longrightarrow> input_inv (snd (pop_mouse_event s))"
  by (simp add: input_inv_def pop_mouse_event_def split_beta inv_intros)

abbreviation keys :: "input_state \<Rightarrow> key_event list" where
  "keys s \<equiv> gap_contents QUEUE_SIZE (key_queue s)"

abbreviation mice :: "input_state \<Rightarrow> mouse_event list" where
  "mice s \<equiv> gap_contents QUEUE_SIZE (mouse_queue s)"

lemma push_event_keys:
  assumes "input_inv s"
  shows "keys (push_event ev s) = (if length (keys s) < 63 then keys s @ [ev] else keys s)"
proof (cases "length (keys s) < 63")
  case True
  then have "fst (gap_push QUEUE_SIZE ev (key_queue s)) \<and>
      gap_contents QUEUE_SIZE (snd (gap_push QUEUE_SIZE ev (key_queue s))) = keys s @ [ev]"
    using assms by (intro keyq.push_room) (auto simp: input_inv_def QUEUE_SIZE_def)
  with True show ?thesis by (simp add: push_event_def split_beta Let_def)
next
  case False
  have "length (keys s) \<le> QUEUE_SIZE - 1"
    using assms by (intro keyq.bounded) (simp add: input_inv_def)
  with False have "length (keys s) = QUEUE_SIZE - 1" by (simp add: QUEUE_SIZE_def)
  then have "gap_push QUEUE_SIZE ev (key_queue s) = (False, key_queue s)"
    using assms by (intro keyq.push_full) (simp_all add: input_inv_def)
  with False show ?thesis by (simp add: push_event_def Let_def)
qed

section \<open>Console\<close>

definition RING_SIZE :: nat where "RING_SIZE = 512"
definition BACKSPACE :: u8 where "BACKSPACE = 0x7f"
definition BS :: u8 where "BS = 0x08"
definition SCROLL_LINES :: nat where "SCROLL_LINES = 256"
definition SCROLL_COLS :: nat where "SCROLL_COLS = 128"

definition NL :: u8 where "NL = 0x0a"
definition CR :: u8 where "CR = 0x0d"
definition HT :: u8 where "HT = 0x09"

record tty =
  scroll :: "u8 list list"
  scroll_len :: "u8 list"
  scroll_line :: nat
  scroll_col :: nat
  tty_ring :: "u8 gap_ring"
  tty_inited :: bool
  serial_out :: "u8 list"

definition tty_boot :: tty where
  "tty_boot =
     \<lparr>scroll = replicate SCROLL_LINES (replicate SCROLL_COLS 0), scroll_len = replicate SCROLL_LINES 0,
      scroll_line = 0, scroll_col = 0, tty_ring = gap_init RING_SIZE 0, tty_inited = False,
      serial_out = []\<rparr>"

definition scroll_push_byte :: "u8 \<Rightarrow> tty \<Rightarrow> tty" where
  "scroll_push_byte c t =
     (if c = NL \<or> c = CR then
        (let line = (scroll_line t + 1) mod SCROLL_LINES
         in t\<lparr>scroll_line := line, scroll_col := 0, scroll_len := (scroll_len t)[line := 0]\<rparr>)
      else if scroll_col t < SCROLL_COLS then
        t\<lparr>scroll := (scroll t)[scroll_line t := (scroll t ! scroll_line t)[scroll_col t := c]],
          scroll_col := scroll_col t + 1,
          scroll_len := (scroll_len t)[scroll_line t := of_nat (scroll_col t + 1)]\<rparr>
      else t)"

definition ring_count :: "tty \<Rightarrow> nat" where
  "ring_count t = gap_count RING_SIZE (tty_ring t)"

definition ring_push :: "u8 \<Rightarrow> tty \<Rightarrow> bool \<times> tty" where
  "ring_push b t = (let (ok, r) = gap_push RING_SIZE b (tty_ring t) in (ok, t\<lparr>tty_ring := r\<rparr>))"

definition ring_pop :: "tty \<Rightarrow> u8 option \<times> tty" where
  "ring_pop t = (let (b, r) = gap_pop RING_SIZE (tty_ring t) in (b, t\<lparr>tty_ring := r\<rparr>))"

definition tty_init :: "tty \<Rightarrow> tty" where
  "tty_init t =
     t\<lparr>tty_ring := (tty_ring t)\<lparr>wr := 0, rd := 0\<rparr>, scroll_line := 0, scroll_col := 0,
       scroll_len := replicate SCROLL_LINES 0, tty_inited := True\<rparr>"

definition serial_putchar :: "u8 \<Rightarrow> tty \<Rightarrow> tty" where
  "serial_putchar c t = t\<lparr>serial_out := serial_out t @ [c]\<rparr>"

definition putchar :: "u8 \<Rightarrow> tty \<Rightarrow> tty" where
  "putchar c t =
     (let t1 = (if c = NL then serial_putchar CR t else t)
      in serial_putchar c (scroll_push_byte c t1))"

definition tty_write :: "u8 list \<Rightarrow> tty \<Rightarrow> tty" where
  "tty_write bs t = fold putchar bs t"

text \<open>One iteration of \<open>poll\<close>: a byte the serial port delivered.\<close>

definition poll_byte :: "u8 \<Rightarrow> tty \<Rightarrow> tty" where
  "poll_byte b t =
     (if b = BACKSPACE \<or> b = BS then
        (if ring_count t > 0 then tty_write [BS, 0x20, BS] (snd (ring_pop t)) else t)
      else if b \<ge> 0x20 \<or> b = NL \<or> b = CR \<or> b = HT then
        (let (ok, t1) = ring_push b t in if ok then putchar b t1 else t1)
      else t)"

text \<open>\<open>poll\<close> runs until the port has no more bytes.\<close>

definition poll :: "u8 list \<Rightarrow> tty \<Rightarrow> tty" where
  "poll bs t = fold poll_byte bs t"

definition getchar :: "u8 list \<Rightarrow> tty \<Rightarrow> u8 option \<times> tty" where
  "getchar bs t = ring_pop (poll bs t)"

text \<open>\<open>getline\<close> with a buffer of \<open>n\<close> free bytes; each list is what the port delivers to one poll.
  \<open>None\<close>: the loop is still waiting when the deliveries end.\<close>

fun getline :: "nat \<Rightarrow> u8 list list \<Rightarrow> tty \<Rightarrow> (u8 list \<times> tty) option" where
  "getline 0 feed t = Some ([], t)"
| "getline (Suc n) [] t = None"
| "getline (Suc n) (bs # feed) t =
     (case ring_pop (poll bs t) of
        (None, t1) \<Rightarrow> getline (Suc n) feed t1
      | (Some b, t1) \<Rightarrow>
          (if b = NL \<or> b = CR then Some ([], t1)
           else map_option (\<lambda>(line, t2). (b # line, t2)) (getline n feed t1)))"

section \<open>Console invariant\<close>

definition tty_inv :: "tty \<Rightarrow> bool" where
  "tty_inv t \<longleftrightarrow> length (scroll t) = SCROLL_LINES \<and> (\<forall>l \<in> set (scroll t). length l = SCROLL_COLS) \<and>
     length (scroll_len t) = SCROLL_LINES \<and> (\<forall>n \<in> set (scroll_len t). unat n \<le> SCROLL_COLS) \<and>
     scroll_line t < SCROLL_LINES \<and> scroll_col t \<le> SCROLL_COLS \<and> gap_inv RING_SIZE (tty_ring t)"

lemma tty_boot_inv [inv_intros]: "tty_inv tty_boot"
  by (simp add: tty_inv_def tty_boot_def SCROLL_LINES_def SCROLL_COLS_def RING_SIZE_def inv_intros)

lemma all_set_update: "(\<And>x. x \<in> set xs \<Longrightarrow> P x) \<Longrightarrow> P y \<Longrightarrow> x \<in> set (xs[i := y]) \<Longrightarrow> P x"
  using set_update_subset_insert [of xs i y] by blast

lemma unat_col: "c < SCROLL_COLS \<Longrightarrow> unat (of_nat (c + 1) :: u8) \<le> SCROLL_COLS"
  by (simp add: SCROLL_COLS_def unat_of_nat take_bit_nat_less_eq_self del: of_nat_add of_nat_Suc)

lemma rows_update:
  "\<forall>l \<in> set xs. length l = n \<Longrightarrow> i < length xs \<Longrightarrow> \<forall>l \<in> set (xs[i := (xs ! i)[j := c]]). length l = n"
  using all_set_update [of xs "\<lambda>l. length l = n" "(xs ! i)[j := c]" _ i] by auto

lemma lens_update:
  "\<forall>k \<in> set xs. unat k \<le> n \<Longrightarrow> unat m \<le> n \<Longrightarrow> \<forall>k \<in> set (xs[i := m]). unat k \<le> n"
  using all_set_update [of xs "\<lambda>k. unat k \<le> n" m _ i] by auto

lemma tty_inv_newline:
  "tty_inv t \<Longrightarrow> k < SCROLL_LINES \<Longrightarrow>
   tty_inv (t\<lparr>scroll_line := k, scroll_col := 0, scroll_len := (scroll_len t)[k := 0]\<rparr>)"
  using lens_update [of "scroll_len t" SCROLL_COLS 0 k] by (simp add: tty_inv_def)

lemma tty_inv_store:
  "tty_inv t \<Longrightarrow> k \<le> SCROLL_COLS \<Longrightarrow> unat m \<le> SCROLL_COLS \<Longrightarrow>
   tty_inv (t\<lparr>scroll := (scroll t)[scroll_line t := (scroll t ! scroll_line t)[scroll_col t := c]],
     scroll_col := k, scroll_len := (scroll_len t)[scroll_line t := m]\<rparr>)"
  using lens_update [of "scroll_len t" SCROLL_COLS m "scroll_line t"]
    rows_update [of "scroll t" SCROLL_COLS "scroll_line t" "scroll_col t" c]
  by (simp add: tty_inv_def)

lemma scroll_push_byte_inv [inv_intros]:
  assumes "tty_inv t"
  shows "tty_inv (scroll_push_byte c t)"
proof -
  have "(scroll_line t + 1) mod SCROLL_LINES < SCROLL_LINES" by (simp add: SCROLL_LINES_def)
  note nl = tty_inv_newline [OF assms this]
  have st: "tty_inv (t\<lparr>scroll := (scroll t)[scroll_line t := (scroll t ! scroll_line t)[scroll_col t := c]],
     scroll_col := scroll_col t + 1, scroll_len := (scroll_len t)[scroll_line t := of_nat (scroll_col t + 1)]\<rparr>)"
    if "scroll_col t < SCROLL_COLS"
    using that unat_col by (intro tty_inv_store [OF assms]) auto
  show ?thesis
    unfolding scroll_push_byte_def Let_def using nl st assms by presburger
qed

lemma serial_putchar_inv [inv_intros]: "tty_inv t \<Longrightarrow> tty_inv (serial_putchar c t)"
  by (simp add: tty_inv_def serial_putchar_def)

lemma putchar_inv [inv_intros]: "tty_inv t \<Longrightarrow> tty_inv (putchar c t)"
  by (simp add: putchar_def Let_def inv_intros)

lemma tty_write_inv [inv_intros]: "tty_inv t \<Longrightarrow> tty_inv (tty_write bs t)"
  unfolding tty_write_def by (induction bs arbitrary: t) (simp_all add: inv_intros)

lemma ring_push_inv [inv_intros]: "tty_inv t \<Longrightarrow> tty_inv (snd (ring_push b t))"
  by (simp add: tty_inv_def ring_push_def split_beta inv_intros)

lemma ring_pop_inv [inv_intros]: "tty_inv t \<Longrightarrow> tty_inv (snd (ring_pop t))"
  by (simp add: tty_inv_def ring_pop_def split_beta inv_intros)

lemma poll_byte_inv [inv_intros]: "tty_inv t \<Longrightarrow> tty_inv (poll_byte b t)"
  by (simp add: poll_byte_def split_beta Let_def inv_intros)

lemma poll_inv [inv_intros]: "tty_inv t \<Longrightarrow> tty_inv (poll bs t)"
  unfolding poll_def by (induction bs arbitrary: t) (simp_all add: inv_intros)

section \<open>What a reader sees\<close>

definition tty_pending :: "tty \<Rightarrow> u8 list" where
  "tty_pending t = gap_contents RING_SIZE (tty_ring t)"

interpretation ttyq: bounded_fifo "gap_inv RING_SIZE" "gap_contents RING_SIZE" "RING_SIZE - 1"
  "gap_push RING_SIZE" "gap_pop RING_SIZE"
  by (rule gap_ring_fifo)

lemma tty_ring_simps [simp]:
  "tty_ring (serial_putchar c t) = tty_ring t"
  "tty_ring (scroll_push_byte c t) = tty_ring t"
  by (simp_all add: serial_putchar_def scroll_push_byte_def Let_def)

lemma tty_ring_putchar [simp]: "tty_ring (putchar c t) = tty_ring t"
  by (simp add: putchar_def Let_def)

lemma tty_ring_write [simp]: "tty_ring (tty_write bs t) = tty_ring t"
  unfolding tty_write_def by (induction bs arbitrary: t) simp_all

text \<open>A byte the line discipline accepts: printable, newline, carriage return or tab.\<close>

definition accepted :: "u8 \<Rightarrow> bool" where
  "accepted b \<longleftrightarrow> b \<noteq> BACKSPACE \<and> b \<noteq> BS \<and> (b \<ge> 0x20 \<or> b = NL \<or> b = CR \<or> b = HT)"

lemma poll_byte_accepted:
  assumes "tty_inv t" "accepted b" "length (tty_pending t) < 511"
  shows "tty_pending (poll_byte b t) = tty_pending t @ [b]"
proof -
  have inv: "gap_inv RING_SIZE (tty_ring t)" using assms(1) by (simp add: tty_inv_def)
  have "fst (gap_push RING_SIZE b (tty_ring t)) \<and>
      gap_contents RING_SIZE (snd (gap_push RING_SIZE b (tty_ring t))) = tty_pending t @ [b]"
    unfolding tty_pending_def using assms(3) inv
    by (intro ttyq.push_room) (simp_all add: tty_pending_def RING_SIZE_def)
  then show ?thesis
    using assms(2)
    by (auto simp: poll_byte_def accepted_def ring_push_def split_beta Let_def tty_pending_def)
qed

lemma poll_byte_ignored:
  "\<not> accepted b \<Longrightarrow> b \<noteq> BACKSPACE \<Longrightarrow> b \<noteq> BS \<Longrightarrow> poll_byte b t = t"
  by (auto simp: poll_byte_def accepted_def)

text \<open>The erase characters remove the byte at the front of the ring, the oldest one typed.\<close>

lemma poll_byte_erase:
  assumes "tty_inv t" "b = BACKSPACE \<or> b = BS"
  shows "tty_pending (poll_byte b t) = tl (tty_pending t)"
proof (cases "ring_count t > 0")
  case True
  have inv: "gap_inv RING_SIZE (tty_ring t)" using assms(1) by (simp add: tty_inv_def)
  have "length (tty_pending t) > 0" using True by (simp add: tty_pending_def gap_contents_def ring_count_def)
  then obtain y ys where c: "tty_pending t = y # ys" by (cases "tty_pending t") auto
  then have "gap_contents RING_SIZE (snd (gap_pop RING_SIZE (tty_ring t))) = ys"
    using ttyq.pop_some [OF inv] by (simp add: tty_pending_def)
  with True c assms(2) show ?thesis
    by (auto simp: poll_byte_def tty_pending_def ring_pop_def split_beta)
next
  case False
  then have "tty_pending t = []" by (simp add: tty_pending_def gap_contents_def ring_count_def)
  with False assms(2) show ?thesis by (auto simp: poll_byte_def)
qed

lemma poll_accepted:
  assumes "tty_inv t" "\<forall>b \<in> set bs. accepted b" "length (tty_pending t) + length bs \<le> 511"
  shows "tty_pending (poll bs t) = tty_pending t @ bs"
  using assms
proof (induction bs arbitrary: t)
  case Nil
  then show ?case by (simp add: poll_def)
next
  case (Cons b bs)
  from Cons.prems have p: "tty_pending (poll_byte b t) = tty_pending t @ [b]"
    by (intro poll_byte_accepted) auto
  moreover from Cons.prems have "tty_inv (poll_byte b t)" by (simp add: inv_intros)
  ultimately show ?case using Cons.IH [of "poll_byte b t"] Cons.prems by (simp add: poll_def)
qed

section \<open>Properties\<close>

text \<open>what is typed is what is read: bytes the line discipline accepts are queued in order behind
  the pending ones, echoing changes nothing of it, and reads return them oldest first, as long as
  at most 511 bytes are pending.\<close>

theorem typed_bytes_are_read:
  assumes "tty_inv t" "\<forall>b \<in> set bs. accepted b" "length (tty_pending t) + length bs \<le> 511"
  shows "fst (pop_n ring_pop (length (tty_pending t) + length bs) (poll bs t))
    = map Some (tty_pending t @ bs)"
proof -
  have "fst (pop_n ring_pop n u) = fst (pop_n (gap_pop RING_SIZE) n (tty_ring u))" for n u
    by (induction n arbitrary: u) (simp_all add: ring_pop_def split_beta Let_def)
  moreover have "gap_inv RING_SIZE (tty_ring (poll bs t))"
    using poll_inv [OF assms(1)] by (simp add: tty_inv_def)
  ultimately show ?thesis
    using ttyq.pop_n_contents [of "tty_ring (poll bs t)" "length (tty_pending t) + length bs"]
      poll_accepted [OF assms] by (simp add: tty_pending_def)
qed

theorem typed_bytes_are_read_witness:
  "fst (pop_n ring_pop (Suc (Suc 0)) (poll [0x68, 0x69] tty_boot)) = [Some 0x68, Some 0x69]"
proof -
  have "tty_pending tty_boot = []"
    by (simp add: tty_pending_def tty_boot_def gap_contents_def gap_count_def gap_init_def RING_SIZE_def)
  then show ?thesis
    using typed_bytes_are_read [OF tty_boot_inv, of "[0x68, 0x69]"]
    by (simp add: accepted_def BACKSPACE_def BS_def del: pop_n.simps)
qed

text \<open>the erase key takes back the oldest pending byte, not the last one typed: after typing at
  least two accepted bytes on an idle console, an erase leaves all but the first.\<close>

theorem erase_removes_oldest:
  assumes "tty_inv t" "tty_pending t = []" "\<forall>b \<in> set bs. accepted b" "length bs \<le> 511"
  shows "tty_pending (poll_byte BACKSPACE (poll bs t)) = tl bs"
  using poll_byte_erase [OF poll_inv [OF assms(1)], of BACKSPACE bs] poll_accepted [OF assms(1,3)] assms(2,4)
  by simp

theorem erase_removes_oldest_witness:
  "tty_pending (poll_byte BACKSPACE (poll [0x61, 0x62] tty_boot)) = [0x62]"
proof -
  have "tty_pending tty_boot = []"
    by (simp add: tty_pending_def tty_boot_def gap_contents_def gap_count_def gap_init_def RING_SIZE_def)
  then show ?thesis
    using erase_removes_oldest [OF tty_boot_inv, of "[0x61, 0x62]"]
    by (simp add: accepted_def BACKSPACE_def BS_def)
qed

end
