(* ===== verification/Eevdf.thy ===== *)
theory Eevdf
  imports Process "HOL-Library.Multiset"
begin

text \<open>
  The EEVDF scheduler (\<open>kernel/process/scheduler/eevdf.rs\<close>). Its statics are the record \<open>rq\<close>; the
  \<open>u64\<close> quantities are naturals with the wrapping (\<open>wadd\<close>, \<open>wmul\<close>) and saturating (\<open>sadd\<close>, \<open>smul\<close>)
  operations the source uses. Abstractly the run queue is the multiset of process
  indices of its occupied slots (locale \<open>runnable_bag\<close>); the choice made by
  \<open>dequeue_runqueue\<close> is characterised as earliest deadline among the eligible.
\<close>

section \<open>Constants and tasks\<close>

definition MAX_RUNNABLE :: nat where "MAX_RUNNABLE = 64"
definition BASE_SLICE_US :: nat where "BASE_SLICE_US = 4000"
definition MIN_SLICE_US :: nat where "MIN_SLICE_US = 500"
definition NICE0_WEIGHT :: nat where "NICE0_WEIGHT = 1024"
definition TICK_US :: nat where "TICK_US = 1000"

definition WEIGHT_TABLE :: "nat list" where
  "WEIGHT_TABLE =
    [88761, 71755, 56483, 46273, 36291,
     29154, 23254, 18705, 14949, 11916,
      9548,  7620,  6100,  4904,  3906,
      3121,  2501,  1991,  1586,  1277,
      1024,   820,   655,   526,   423,
       335,   272,   215,   172,   137,
       110,    87,    70,    56,    45,
        36,    29,    23,    18,    15]"

definition weight_for_nice :: "int \<Rightarrow> nat" where
  "weight_for_nice nice = WEIGHT_TABLE ! nat (max (- 20) (min 19 nice) + 20)"

record eevdf_task =
  t_idx :: nat
  vruntime :: nat
  deadline :: nat
  weight :: nat
  occupied :: bool

definition eevdf_task_empty :: eevdf_task where
  "eevdf_task_empty = \<lparr>t_idx = 0, vruntime = 0, deadline = 0, weight = NICE0_WEIGHT, occupied = False\<rparr>"

text \<open>\<open>CURRENT_TASK_SLOT\<close> is \<open>usize::MAX\<close> when no task runs.\<close>

record rq =
  tasks :: "eevdf_task list"
  task_count :: nat
  min_vruntime :: nat
  current_task_slot :: nat

definition rq_init :: rq where
  "rq_init = \<lparr>tasks = replicate MAX_RUNNABLE eevdf_task_empty, task_count = 0, min_vruntime = 0,
     current_task_slot = u64_max\<rparr>"

section \<open>Operations\<close>

definition slice_for_weight :: "nat \<Rightarrow> nat" where
  "slice_for_weight w = max (smul BASE_SLICE_US w div NICE0_WEIGHT) MIN_SLICE_US"

text \<open>The scans of the task array: \<open>if P(task) && key(task) < best\<close> then the task is the new best.\<close>

fun scan_min :: "('a \<Rightarrow> bool) \<Rightarrow> ('a \<Rightarrow> nat) \<Rightarrow> nat \<Rightarrow> 'a list \<Rightarrow> nat option \<times> nat \<Rightarrow> nat option \<times> nat" where
  "scan_min P key i [] acc = acc"
| "scan_min P key i (x # xs) (b, k) =
     scan_min P key (Suc i) xs (if P x \<and> key x < k then (Some i, key x) else (b, k))"

definition recompute_min_vruntime :: "rq \<Rightarrow> rq" where
  "recompute_min_vruntime q =
     (let m = snd (scan_min occupied vruntime 0 (tasks q) (None, u64_max))
      in if m \<noteq> u64_max \<and> m > min_vruntime q then q\<lparr>min_vruntime := m\<rparr> else q)"

definition runqueue_total_len :: "rq \<Rightarrow> nat" where
  "runqueue_total_len q = task_count q"

text \<open>\<open>nice\<close> is what \<open>get_descriptor(proc_idx)\<close> reports, 0 if there is no descriptor.\<close>

definition nice_of :: "ptable \<Rightarrow> nat \<Rightarrow> int" where
  "nice_of pt i = (case get_descriptor i pt of None \<Rightarrow> 0 | Some p \<Rightarrow> pcb_nice p)"

definition enqueue_runqueue :: "nat \<Rightarrow> int \<Rightarrow> rq \<Rightarrow> rq halting" where
  "enqueue_runqueue proc_idx nice q =
     (let w = weight_for_nice nice;
          vrt = min_vruntime q;
          slice = slice_for_weight w;
          dl = wadd vrt (wmul slice NICE0_WEIGHT div w)
      in case first_index (\<lambda>t. \<not> occupied t) (tasks q) of
           Some i \<Rightarrow>
             Done (q\<lparr>tasks := (tasks q)[i := \<lparr>t_idx = proc_idx, vruntime = vrt, deadline = dl,
                                              weight = w, occupied = True\<rparr>],
                     task_count := task_count q + 1\<rparr>)
         | None \<Rightarrow> Halted ''eevdf_runqueue_full'')"

definition lag_of :: "eevdf_task \<Rightarrow> nat" where
  "lag_of t = wmul (slice_for_weight (weight t)) NICE0_WEIGHT div weight t"

definition eligible :: "nat \<Rightarrow> eevdf_task \<Rightarrow> bool" where
  "eligible minv t = (vruntime t \<le> sadd minv (lag_of t))"

text \<open>The loop of \<open>dequeue_runqueue\<close>: best eligible deadline, and the minimum virtual runtime as a
  fallback, over the occupied slots.\<close>

fun select_loop :: "nat \<Rightarrow> nat \<Rightarrow> eevdf_task list \<Rightarrow> (nat option \<times> nat) \<times> (nat option \<times> nat)
    \<Rightarrow> (nat option \<times> nat) \<times> (nat option \<times> nat)" where
  "select_loop minv i [] acc = acc"
| "select_loop minv i (t # ts) ((bs, bd), (fs, fv)) =
     (if \<not> occupied t then select_loop minv (Suc i) ts ((bs, bd), (fs, fv))
      else select_loop minv (Suc i) ts
        (if eligible minv t then (if deadline t < bd then (Some i, deadline t) else (bs, bd)) else (bs, bd),
         if vruntime t < fv then (Some i, vruntime t) else (fs, fv)))"

definition dequeue_runqueue :: "rq \<Rightarrow> nat option \<times> rq" where
  "dequeue_runqueue q0 =
     (let q = recompute_min_vruntime q0
      in if task_count q = 0 then (None, q)
         else let ((bs, _), (fs, _)) =
                    select_loop (min_vruntime q) 0 (tasks q) ((None, u64_max), (None, u64_max))
              in case (case bs of Some i \<Rightarrow> Some i | None \<Rightarrow> fs) of
                   None \<Rightarrow> (None, q)
                 | Some chosen \<Rightarrow>
                     (Some (t_idx (tasks q ! chosen)),
                      q\<lparr>current_task_slot := chosen,
                        tasks := (tasks q)[chosen := (tasks q ! chosen)\<lparr>occupied := False\<rparr>],
                        task_count := task_count q - 1\<rparr>))"

definition remove_from_runqueue :: "nat \<Rightarrow> rq \<Rightarrow> rq" where
  "remove_from_runqueue proc_idx q =
     (case first_index (\<lambda>t. occupied t \<and> t_idx t = proc_idx) (tasks q) of
        Some i \<Rightarrow> q\<lparr>tasks := (tasks q)[i := (tasks q ! i)\<lparr>occupied := False\<rparr>],
                    task_count := task_count q - 1\<rparr>
      | None \<Rightarrow>
          (if current_task_slot q < MAX_RUNNABLE \<and> t_idx (tasks q ! current_task_slot q) = proc_idx
           then q\<lparr>current_task_slot := u64_max\<rparr> else q))"

definition tick_current :: "rq \<Rightarrow> bool \<times> rq" where
  "tick_current q =
     (if current_task_slot q \<ge> MAX_RUNNABLE then (False, q)
      else let s = current_task_slot q;
               t = tasks q ! s;
               delta = smul TICK_US NICE0_WEIGHT div weight t;
               t' = t\<lparr>vruntime := sadd (vruntime t) delta\<rparr>
           in (vruntime t' \<ge> deadline t', q\<lparr>tasks := (tasks q)[s := t']\<rparr>))"

definition requeue_current :: "rq \<Rightarrow> rq" where
  "requeue_current q =
     (if current_task_slot q \<ge> MAX_RUNNABLE then q
      else let s = current_task_slot q;
               t = tasks q ! s;
               slice = slice_for_weight (weight t);
               vrt = max (vruntime t) (min_vruntime q);
               t' = t\<lparr>vruntime := vrt, deadline := wadd vrt (wmul slice NICE0_WEIGHT div weight t),
                      occupied := True\<rparr>
           in recompute_min_vruntime
                (q\<lparr>tasks := (tasks q)[s := t'], task_count := task_count q + 1,
                   current_task_slot := u64_max\<rparr>))"

definition set_nice :: "nat \<Rightarrow> int \<Rightarrow> rq \<Rightarrow> rq" where
  "set_nice proc_idx nice q =
     (case first_index (\<lambda>t. occupied t \<and> t_idx t = proc_idx) (tasks q) of
        Some i \<Rightarrow> q\<lparr>tasks := (tasks q)[i := (tasks q ! i)\<lparr>weight := weight_for_nice nice\<rparr>]\<rparr>
      | None \<Rightarrow> q)"

section \<open>Weights and slices\<close>

lemma length_weight_table [simp]: "length WEIGHT_TABLE = 40"
  by (simp add: WEIGHT_TABLE_def)

lemma weight_for_nice_in_table: "weight_for_nice n \<in> set WEIGHT_TABLE"
  unfolding weight_for_nice_def by (intro nth_mem) simp

lemma weight_table_bounds: "w \<in> set WEIGHT_TABLE \<Longrightarrow> 15 \<le> w \<and> w \<le> 88761"
  by (auto simp: WEIGHT_TABLE_def)

lemma weight_table_decreasing: "sorted_wrt (>) WEIGHT_TABLE"
  by (simp add: WEIGHT_TABLE_def)

lemma weight_for_nice_antimono:
  assumes "- 20 \<le> m" "m < n" "n \<le> 19"
  shows "weight_for_nice n < weight_for_nice m"
proof -
  have "nat (m + 20) < nat (n + 20)" "nat (n + 20) < length WEIGHT_TABLE"
    using assms by simp_all
  with assms sorted_wrt_nth_less [OF weight_table_decreasing] show ?thesis
    by (simp add: weight_for_nice_def max_def min_def)
qed

lemma slice_exact:
  "w \<in> set WEIGHT_TABLE \<Longrightarrow> slice_for_weight w = max (4000 * w div 1024) 500"
  using weight_table_bounds [of w]
  by (simp add: slice_for_weight_def BASE_SLICE_US_def NICE0_WEIGHT_def MIN_SLICE_US_def smul_def u64_max_def)

text \<open>The virtual length of a slice, \<open>slice * NICE0_WEIGHT / weight\<close>, never overflows and is at most
  34133 virtual microseconds.\<close>

lemma vslice_bound:
  assumes "w \<in> set WEIGHT_TABLE"
  shows "wmul (slice_for_weight w) NICE0_WEIGHT div w \<le> 34134"
proof -
  note b = weight_table_bounds [OF assms]
  define k where "k = 4000 * w div 1024"
  have s: "slice_for_weight w = max k 500" unfolding k_def by (rule slice_exact [OF assms])
  have k: "k * 1024 \<le> 4000 * w" unfolding k_def by (rule div_times_less_eq_dividend)
  have "k * 1024 \<le> 34134 * w" "500 * 1024 \<le> 34134 * w" "k * 1024 < 2 ^ 64"
    using k b by simp_all
  then have le: "slice_for_weight w * 1024 \<le> 34134 * w" and small: "slice_for_weight w * 1024 < 2 ^ 64"
    unfolding s by (simp_all add: max_def)
  from le have "slice_for_weight w * 1024 div w \<le> 34134"
    using b by (metis div_le_mono nonzero_mult_div_cancel_right not_numeral_le_zero)
  with small show ?thesis by (simp add: NICE0_WEIGHT_def wmul_nowrap)
qed

section \<open>Scans\<close>

lemma scan_min_spec:
  assumes "scan_min P key i xs (b, k) = (b', k')"
  shows "k' \<le> k" "\<And>x. x \<in> set xs \<Longrightarrow> P x \<Longrightarrow> k' \<le> key x"
    "(b', k') = (b, k) \<or> (\<exists>j < length xs. b' = Some (i + j) \<and> P (xs ! j) \<and> key (xs ! j) = k')"
proof -
  have "k' \<le> k \<and> (\<forall>x \<in> set xs. P x \<longrightarrow> k' \<le> key x) \<and>
      ((b', k') = (b, k) \<or> (\<exists>j < length xs. b' = Some (i + j) \<and> P (xs ! j) \<and> key (xs ! j) = k'))"
    using assms
  proof (induction xs arbitrary: i b k)
    case Nil
    then show ?case by simp
  next
    case (Cons x xs)
    let ?acc = "if P x \<and> key x < k then (Some i, key x) else (b, k)"
    obtain c d where acc: "?acc = (c, d)" by fastforce
    from Cons.prems acc have "scan_min P key (Suc i) xs (c, d) = (b', k')" by simp
    from Cons.IH [OF this] have IH: "k' \<le> d" "\<forall>x \<in> set xs. P x \<longrightarrow> k' \<le> key x"
      "(b', k') = (c, d) \<or> (\<exists>j < length xs. b' = Some (Suc i + j) \<and> P (xs ! j) \<and> key (xs ! j) = k')"
      by auto
    have d: "d \<le> k" "P x \<Longrightarrow> d \<le> key x" using acc by (auto split: if_splits)
    have "(b', k') = (b, k) \<or> (\<exists>j < length (x # xs). b' = Some (i + j) \<and> P ((x # xs) ! j) \<and> key ((x # xs) ! j) = k')"
      using IH(3)
    proof
      assume "(b', k') = (c, d)"
      then show ?thesis using acc by (auto split: if_splits)
    next
      assume "\<exists>j < length xs. b' = Some (Suc i + j) \<and> P (xs ! j) \<and> key (xs ! j) = k'"
      then obtain j where "j < length xs" "b' = Some (Suc i + j)" "P (xs ! j)" "key (xs ! j) = k'" by blast
      then show ?thesis by (intro disjI2 exI [of _ "Suc j"]) auto
    qed
    with IH d show ?case by (auto intro: le_trans)
  qed
  then show "k' \<le> k" "\<And>x. x \<in> set xs \<Longrightarrow> P x \<Longrightarrow> k' \<le> key x"
    "(b', k') = (b, k) \<or> (\<exists>j < length xs. b' = Some (i + j) \<and> P (xs ! j) \<and> key (xs ! j) = k')"
    by blast+
qed

text \<open>The loop computes the two minima independently.\<close>

lemma select_loop_eq:
  "select_loop minv i ts (a, b) =
    (scan_min (\<lambda>t. occupied t \<and> eligible minv t) deadline i ts a,
     scan_min occupied vruntime i ts b)"
proof (induction ts arbitrary: i a b)
  case Nil
  then show ?case by simp
next
  case (Cons t ts)
  obtain bs bd fs fv where ab: "a = (bs, bd)" "b = (fs, fv)" by (cases a; cases b) auto
  show ?case unfolding ab using Cons.IH by simp
qed

section \<open>Invariant\<close>

text \<open>The slots are 64, the counter counts the occupied ones, every slot (free ones too) carries a
  weight of the table, and virtual time is far from the 64-bit limit: \<open>VTIME_LIMIT\<close> is half the
  range, some 290000 years of microseconds.\<close>

definition VTIME_LIMIT :: nat where "VTIME_LIMIT = 2 ^ 63"

definition occupied_count :: "rq \<Rightarrow> nat" where
  "occupied_count q = length (filter occupied (tasks q))"

definition rq_inv :: "rq \<Rightarrow> bool" where
  "rq_inv q \<longleftrightarrow> length (tasks q) = MAX_RUNNABLE \<and> task_count q = occupied_count q \<and>
     (\<forall>t \<in> set (tasks q). weight t \<in> set WEIGHT_TABLE) \<and>
     (\<forall>t \<in> set (tasks q). occupied t \<longrightarrow>
        vruntime t < VTIME_LIMIT \<and> deadline t \<le> VTIME_LIMIT + 34134) \<and>
     min_vruntime q < VTIME_LIMIT"

text \<open>The processes that are runnable: the indices of the occupied slots, as a multiset.\<close>

definition rq_procs :: "rq \<Rightarrow> nat multiset" where
  "rq_procs q = mset (map t_idx (filter occupied (tasks q)))"

lemma size_rq_procs: "size (rq_procs q) = occupied_count q"
  unfolding rq_procs_def occupied_count_def by (simp only: size_mset length_map)

lemma rq_init_inv [inv_intros]: "rq_inv rq_init"
  by (simp add: rq_inv_def rq_init_def occupied_count_def eevdf_task_empty_def WEIGHT_TABLE_def
      NICE0_WEIGHT_def VTIME_LIMIT_def)

lemma rq_procs_init [simp]: "rq_procs rq_init = {#}"
  by (simp add: rq_procs_def rq_init_def eevdf_task_empty_def)

lemma filter_update_mset:
  assumes "i < length xs"
  shows "mset (map f (filter P (xs[i := y]))) + (if P (xs ! i) then {#f (xs ! i)#} else {#})
    = mset (map f (filter P xs)) + (if P y then {#f y#} else {#})"
proof -
  have xs: "xs = take i xs @ xs ! i # drop (Suc i) xs" by (rule id_take_nth_drop [OF assms])
  have up: "xs[i := y] = take i xs @ y # drop (Suc i) xs" by (rule upd_conv_take_nth_drop [OF assms])
  have "mset (map f (filter P (xs[i := y]))) = mset (map f (filter P (take i xs)))
      + (if P y then {#f y#} else {#}) + mset (map f (filter P (drop (Suc i) xs)))"
    unfolding up by simp
  moreover have "mset (map f (filter P xs)) = mset (map f (filter P (take i xs)))
      + (if P (xs ! i) then {#f (xs ! i)#} else {#}) + mset (map f (filter P (drop (Suc i) xs)))"
    by (subst xs) simp
  ultimately show ?thesis by simp
qed

lemma rq_procs_update:
  "i < length (tasks q) \<Longrightarrow>
   rq_procs (q\<lparr>tasks := (tasks q)[i := t]\<rparr>) + (if occupied (tasks q ! i) then {#t_idx (tasks q ! i)#} else {#})
   = rq_procs q + (if occupied t then {#t_idx t#} else {#})"
  using filter_update_mset [of i "tasks q" t_idx occupied t] by (simp add: rq_procs_def)

lemma rq_procs_cong [simp]:
  "rq_procs (q\<lparr>task_count := n\<rparr>) = rq_procs q"
  "rq_procs (q\<lparr>min_vruntime := n\<rparr>) = rq_procs q"
  "rq_procs (q\<lparr>current_task_slot := n\<rparr>) = rq_procs q"
  by (simp_all add: rq_procs_def)

lemma occupied_count_cong [simp]:
  "occupied_count (q\<lparr>task_count := n\<rparr>) = occupied_count q"
  "occupied_count (q\<lparr>min_vruntime := n\<rparr>) = occupied_count q"
  "occupied_count (q\<lparr>current_task_slot := n\<rparr>) = occupied_count q"
  by (simp_all add: occupied_count_def)

text \<open>A slot that becomes occupied adds its process; a slot that is freed removes it.\<close>

lemma rq_procs_fill:
  "i < length (tasks q) \<Longrightarrow> \<not> occupied (tasks q ! i) \<Longrightarrow> occupied t \<Longrightarrow>
   rq_procs (q\<lparr>tasks := (tasks q)[i := t]\<rparr>) = add_mset (t_idx t) (rq_procs q)"
  using rq_procs_update [of i q t] by simp

lemma rq_procs_free:
  "i < length (tasks q) \<Longrightarrow> occupied (tasks q ! i) \<Longrightarrow> \<not> occupied t \<Longrightarrow>
   add_mset (t_idx (tasks q ! i)) (rq_procs (q\<lparr>tasks := (tasks q)[i := t]\<rparr>)) = rq_procs q"
  using rq_procs_update [of i q t] by simp

lemma rq_inv_update:
  assumes "rq_inv q" "i < MAX_RUNNABLE" "weight t \<in> set WEIGHT_TABLE"
    "occupied t \<Longrightarrow> vruntime t < VTIME_LIMIT \<and> deadline t \<le> VTIME_LIMIT + 34134"
    "n = occupied_count (q\<lparr>tasks := (tasks q)[i := t]\<rparr>)"
  shows "rq_inv (q\<lparr>tasks := (tasks q)[i := t], task_count := n\<rparr>)"
  using assms set_update_subset_insert [of "tasks q" i t]
  unfolding rq_inv_def by (auto simp: occupied_count_def)

lemma rq_inv_current [simp]: "rq_inv (q\<lparr>current_task_slot := n\<rparr>) = rq_inv q"
  by (simp add: rq_inv_def)

section \<open>The clock\<close>

lemma recompute_fields [simp]:
  "tasks (recompute_min_vruntime q) = tasks q"
  "task_count (recompute_min_vruntime q) = task_count q"
  "current_task_slot (recompute_min_vruntime q) = current_task_slot q"
  by (simp_all add: recompute_min_vruntime_def Let_def)

lemma recompute_procs [simp]: "rq_procs (recompute_min_vruntime q) = rq_procs q"
  by (simp add: rq_procs_def)

lemma recompute_mono: "min_vruntime q \<le> min_vruntime (recompute_min_vruntime q)"
  by (simp add: recompute_min_vruntime_def Let_def)

lemma recompute_inv [inv_intros]:
  assumes "rq_inv q"
  shows "rq_inv (recompute_min_vruntime q)"
proof -
  obtain b m where s: "scan_min occupied vruntime 0 (tasks q) (None, u64_max) = (b, m)" by fastforce
  have "m < VTIME_LIMIT" if "m \<noteq> u64_max"
    using scan_min_spec(3) [OF s] that assms by (auto simp: rq_inv_def)
  with assms s show ?thesis by (auto simp: recompute_min_vruntime_def rq_inv_def occupied_count_def)
qed

text \<open>After the clock is advanced, the task with the least virtual runtime has not passed it.\<close>

lemma recompute_min_reached:
  assumes "rq_inv q" "t \<in> set (tasks q)" "occupied t"
  shows "\<exists>u \<in> set (tasks q). occupied u \<and> vruntime u \<le> min_vruntime (recompute_min_vruntime q)"
proof -
  obtain b m where s: "scan_min occupied vruntime 0 (tasks q) (None, u64_max) = (b, m)" by fastforce
  have "m \<le> vruntime t" using scan_min_spec(2) [OF s] assms by blast
  moreover have "vruntime t < u64_max"
    using assms by (force simp: rq_inv_def VTIME_LIMIT_def u64_max_def)
  ultimately have m: "m \<noteq> u64_max" by simp
  with scan_min_spec(3) [OF s] obtain u where u: "u \<in> set (tasks q)" "occupied u" "vruntime u = m"
    using nth_mem by fastforce
  moreover have "m \<le> min_vruntime (recompute_min_vruntime q)"
    using s m by (simp add: recompute_min_vruntime_def)
  ultimately show ?thesis by auto
qed

section \<open>Enqueue\<close>

lemma first_free_slot:
  "first_index (\<lambda>t. \<not> occupied t) (tasks q) = None \<longleftrightarrow> occupied_count q = length (tasks q)"
proof -
  have "occupied_count q = length (tasks q) \<longleftrightarrow> (\<forall>t \<in> set (tasks q). occupied t)"
    unfolding occupied_count_def
    by (metis filter_True length_filter_less linorder_neq_iff)
  then show ?thesis by (simp add: first_index_eq_None_iff)
qed

lemma enqueue_runqueue_cases:
  assumes "rq_inv q"
  shows "if size (rq_procs q) = MAX_RUNNABLE
    then enqueue_runqueue p n q = Halted ''eevdf_runqueue_full''
    else \<exists>q'. enqueue_runqueue p n q = Done q' \<and> rq_inv q' \<and> rq_procs q' = add_mset p (rq_procs q)
      \<and> min_vruntime q' = min_vruntime q"
proof (cases "first_index (\<lambda>t. \<not> occupied t) (tasks q)")
  case None
  then have "size (rq_procs q) = MAX_RUNNABLE"
    using assms first_free_slot [of q] by (simp add: size_rq_procs rq_inv_def)
  with None show ?thesis by (simp add: enqueue_runqueue_def Let_def)
next
  case (Some i)
  then have i: "i < length (tasks q)" "\<not> occupied (tasks q ! i)" by (auto dest: first_index_SomeD)
  have room: "size (rq_procs q) \<noteq> MAX_RUNNABLE"
    using Some assms first_free_slot [of q] by (auto simp: size_rq_procs rq_inv_def)
  let ?w = "weight_for_nice n"
  let ?t = "\<lparr>t_idx = p, vruntime = min_vruntime q,
     deadline = wadd (min_vruntime q) (wmul (slice_for_weight ?w) NICE0_WEIGHT div ?w),
     weight = ?w, occupied = True\<rparr>"
  let ?q = "q\<lparr>tasks := (tasks q)[i := ?t], task_count := task_count q + 1\<rparr>"
  have bag: "rq_procs (q\<lparr>tasks := (tasks q)[i := ?t]\<rparr>) = add_mset p (rq_procs q)"
    using rq_procs_fill [OF i, of ?t] by simp
  have "wmul (slice_for_weight ?w) NICE0_WEIGHT div ?w \<le> 34134"
    by (rule vslice_bound [OF weight_for_nice_in_table])
  moreover have mv: "min_vruntime q < VTIME_LIMIT" using assms by (simp add: rq_inv_def)
  ultimately have "deadline ?t \<le> VTIME_LIMIT + 34134"
    by (simp add: wadd_nowrap VTIME_LIMIT_def)
  moreover have "task_count q + 1 = occupied_count (q\<lparr>tasks := (tasks q)[i := ?t]\<rparr>)"
    using bag assms unfolding size_rq_procs [symmetric] by (simp add: rq_inv_def size_rq_procs)
  ultimately have "rq_inv ?q"
    using assms i mv weight_for_nice_in_table by (intro rq_inv_update) (auto simp: rq_inv_def)
  moreover have "enqueue_runqueue p n q = Done ?q"
    using Some by (simp add: enqueue_runqueue_def Let_def)
  ultimately show ?thesis using bag room by (simp add: rq_procs_def)
qed

section \<open>Dequeue\<close>

text \<open>What a choice of the scheduler is: a slot that is occupied and eligible, with the earliest
  deadline of the eligible ones.\<close>

definition edf_choice :: "rq \<Rightarrow> nat \<Rightarrow> bool" where
  "edf_choice q i \<longleftrightarrow> i < length (tasks q) \<and> occupied (tasks q ! i) \<and>
     eligible (min_vruntime q) (tasks q ! i) \<and>
     (\<forall>t \<in> set (tasks q). occupied t \<longrightarrow> eligible (min_vruntime q) t \<longrightarrow> deadline (tasks q ! i) \<le> deadline t)"

lemma eligible_below: "vruntime t \<le> minv \<Longrightarrow> minv \<le> u64_max \<Longrightarrow> eligible minv t"
  by (simp add: eligible_def sadd_def)

lemma free_chosen:
  assumes "rq_inv q" "edf_choice q i"
  defines "q' \<equiv> q\<lparr>current_task_slot := i, tasks := (tasks q)[i := (tasks q ! i)\<lparr>occupied := False\<rparr>],
    task_count := task_count q - 1\<rparr>"
  shows "rq_inv q'" "add_mset (t_idx (tasks q ! i)) (rq_procs q') = rq_procs q"
proof -
  let ?t = "(tasks q ! i)\<lparr>occupied := False\<rparr>"
  let ?r = "q\<lparr>current_task_slot := i\<rparr>"
  from assms(2) have i: "i < length (tasks q)" "occupied (tasks q ! i)" by (auto simp: edf_choice_def)
  have bag: "add_mset (t_idx (tasks q ! i)) (rq_procs (?r\<lparr>tasks := (tasks ?r)[i := ?t]\<rparr>)) = rq_procs ?r"
    using rq_procs_free [of i ?r ?t] i by simp
  then show "add_mset (t_idx (tasks q ! i)) (rq_procs q') = rq_procs q" by (simp add: q'_def rq_procs_def)
  have "size (rq_procs q) = Suc (size (rq_procs (?r\<lparr>tasks := (tasks ?r)[i := ?t]\<rparr>)))"
    using arg_cong [OF bag, of size] by simp
  then have "task_count q - 1 = occupied_count (?r\<lparr>tasks := (tasks ?r)[i := ?t]\<rparr>)"
    using assms(1) unfolding size_rq_procs rq_inv_def by simp
  moreover have "rq_inv ?r" using assms(1) by simp
  ultimately have "rq_inv (?r\<lparr>tasks := (tasks ?r)[i := ?t], task_count := task_count q - 1\<rparr>)"
    using i assms(1) by (intro rq_inv_update) (auto simp: rq_inv_def)
  then show "rq_inv q'" by (simp add: q'_def)
qed

lemma select_best:
  assumes "rq_inv q" "t \<in> set (tasks q)" "occupied t" "eligible (min_vruntime q) t"
    "select_loop (min_vruntime q) 0 (tasks q) ((None, u64_max), (None, u64_max)) = ((bs, bd), fb)"
  shows "\<exists>i. bs = Some i \<and> edf_choice q i"
proof -
  let ?P = "\<lambda>t. occupied t \<and> eligible (min_vruntime q) t"
  from assms(5) have s: "scan_min ?P deadline 0 (tasks q) (None, u64_max) = (bs, bd)"
    by (simp add: select_loop_eq)
  have le: "bd \<le> deadline u" if "u \<in> set (tasks q)" "?P u" for u
    using scan_min_spec(2) [OF s that] .
  have "deadline t < u64_max"
    using assms(1-3) by (force simp: rq_inv_def VTIME_LIMIT_def u64_max_def)
  with le [of t] assms(2-4) have "bd \<noteq> u64_max" by auto
  with scan_min_spec(3) [OF s] obtain i where "i < length (tasks q)" "bs = Some i" "?P (tasks q ! i)"
    "deadline (tasks q ! i) = bd" by auto
  with le show ?thesis unfolding edf_choice_def by auto
qed

text \<open>A non-empty run queue always yields a task, and it is an EDF choice: the fallback branch is
  never taken, because advancing the clock makes the least advanced task eligible.\<close>

lemma dequeue_runqueue_spec:
  assumes inv: "rq_inv q0" and ne: "rq_procs q0 \<noteq> {#}"
  defines "q \<equiv> recompute_min_vruntime q0"
  shows "\<exists>i q'. edf_choice q i \<and> dequeue_runqueue q0 = (Some (t_idx (tasks q ! i)), q') \<and>
    rq_inv q' \<and> add_mset (t_idx (tasks q ! i)) (rq_procs q') = rq_procs q0 \<and>
    current_task_slot q' = i \<and> min_vruntime q' = min_vruntime q"
proof -
  from ne obtain t where t: "t \<in> set (tasks q0)" "occupied t"
    unfolding rq_procs_def by (metis filter_False list.map_disc_iff mset_zero_iff)
  from recompute_min_reached [OF inv t] obtain u where u: "u \<in> set (tasks q)" "occupied u"
    "vruntime u \<le> min_vruntime q" unfolding q_def by auto
  have invq: "rq_inv q" unfolding q_def using inv by (rule recompute_inv)
  then have "min_vruntime q \<le> u64_max" by (simp add: rq_inv_def VTIME_LIMIT_def u64_max_def)
  with u have el: "eligible (min_vruntime q) u" by (intro eligible_below)
  obtain bs bd fb where sel:
    "select_loop (min_vruntime q) 0 (tasks q) ((None, u64_max), (None, u64_max)) = ((bs, bd), fb)"
    by (metis surj_pair)
  from select_best [OF invq u(1,2) el sel] obtain i where i: "bs = Some i" "edf_choice q i" by blast
  have cnt: "task_count q \<noteq> 0"
  proof -
    have "occupied_count q0 \<noteq> 0"
      using ne unfolding size_rq_procs [symmetric] by simp
    then show ?thesis using inv by (simp add: q_def rq_inv_def)
  qed
  obtain fs fv where fb: "fb = (fs, fv)" by fastforce
  have "dequeue_runqueue q0 = (Some (t_idx (tasks q ! i)),
      q\<lparr>current_task_slot := i, tasks := (tasks q)[i := (tasks q ! i)\<lparr>occupied := False\<rparr>],
        task_count := task_count q - 1\<rparr>)"
    using sel i cnt by (simp add: dequeue_runqueue_def fb flip: q_def)
  moreover note free_chosen [OF invq i(2)]
  moreover have "rq_procs q = rq_procs q0" by (simp add: q_def)
  ultimately show ?thesis using i(2) by auto
qed

lemma dequeue_runqueue_empty:
  assumes "rq_inv q" "rq_procs q = {#}"
  shows "dequeue_runqueue q = (None, recompute_min_vruntime q)"
proof -
  have "occupied_count q = 0" using assms(2) by (simp flip: size_rq_procs)
  then show ?thesis using assms(1) by (simp add: dequeue_runqueue_def rq_inv_def)
qed

section \<open>Removal and accounting\<close>

lemma remove_from_runqueue_spec:
  assumes "rq_inv q"
  shows "rq_inv (remove_from_runqueue p q)"
    "rq_procs (remove_from_runqueue p q) = rq_procs q - {#p#}"
    "min_vruntime (remove_from_runqueue p q) = min_vruntime q"
proof -
  let ?f = "first_index (\<lambda>t. occupied t \<and> t_idx t = p) (tasks q)"
  have "rq_inv (remove_from_runqueue p q) \<and> rq_procs (remove_from_runqueue p q) = rq_procs q - {#p#}"
  proof (cases ?f)
    case None
    then have "p \<notin># rq_procs q" by (auto simp: rq_procs_def first_index_eq_None_iff)
    then have "rq_procs q - {#p#} = rq_procs q" by (simp add: diff_single_trivial)
    with None assms show ?thesis by (simp add: remove_from_runqueue_def)
  next
    case (Some i)
    then have i: "i < length (tasks q)" "occupied (tasks q ! i)" "t_idx (tasks q ! i) = p"
      by (auto dest: first_index_SomeD)
    let ?t = "(tasks q ! i)\<lparr>occupied := False\<rparr>"
    have bag: "add_mset p (rq_procs (q\<lparr>tasks := (tasks q)[i := ?t]\<rparr>)) = rq_procs q"
      using rq_procs_free [of i q ?t] i by simp
    then have "size (rq_procs q) = Suc (size (rq_procs (q\<lparr>tasks := (tasks q)[i := ?t]\<rparr>)))"
      by (metis size_add_mset)
    then have "task_count q - 1 = occupied_count (q\<lparr>tasks := (tasks q)[i := ?t]\<rparr>)"
      using assms unfolding size_rq_procs rq_inv_def by simp
    then have "rq_inv (q\<lparr>tasks := (tasks q)[i := ?t], task_count := task_count q - 1\<rparr>)"
      using i assms by (intro rq_inv_update) (auto simp: rq_inv_def)
    moreover have "rq_procs (q\<lparr>tasks := (tasks q)[i := ?t]\<rparr>) = rq_procs q - {#p#}"
      by (subst bag [symmetric]) simp
    ultimately show ?thesis using Some by (simp add: remove_from_runqueue_def)
  qed
  then show "rq_inv (remove_from_runqueue p q)"
    "rq_procs (remove_from_runqueue p q) = rq_procs q - {#p#}" by auto
  show "min_vruntime (remove_from_runqueue p q) = min_vruntime q"
    by (simp add: remove_from_runqueue_def split: option.split)
qed

lemma set_nice_spec:
  assumes "rq_inv q"
  shows "rq_inv (set_nice p n q) \<and> rq_procs (set_nice p n q) = rq_procs q"
proof (cases "first_index (\<lambda>t. occupied t \<and> t_idx t = p) (tasks q)")
  case None
  with assms show ?thesis by (simp add: set_nice_def)
next
  case (Some i)
  then have i: "i < length (tasks q)" "occupied (tasks q ! i)" by (auto dest: first_index_SomeD)
  let ?t = "(tasks q ! i)\<lparr>weight := weight_for_nice n\<rparr>"
  have bag: "rq_procs (q\<lparr>tasks := (tasks q)[i := ?t]\<rparr>) = rq_procs q"
    using rq_procs_update [of i q ?t] i by simp
  have "task_count q = occupied_count (q\<lparr>tasks := (tasks q)[i := ?t]\<rparr>)"
    using bag assms unfolding size_rq_procs [symmetric] by (simp add: rq_inv_def size_rq_procs)
  then have "rq_inv (q\<lparr>tasks := (tasks q)[i := ?t], task_count := task_count q\<rparr>)"
    using i assms weight_for_nice_in_table by (intro rq_inv_update) (auto simp: rq_inv_def)
  with bag Some show ?thesis by (simp add: set_nice_def)
qed

section \<open>The abstract run queue\<close>

text \<open>What the process life cycle relies on: a bag of process indices, to which enqueue adds, from
  which dequeue takes, and in which removal deletes one occurrence.\<close>

locale runnable_bag =
  fixes inv :: "'q \<Rightarrow> bool"
    and procs :: "'q \<Rightarrow> nat multiset"
    and limit :: nat
    and enq :: "nat \<Rightarrow> int \<Rightarrow> 'q \<Rightarrow> 'q halting"
    and deq :: "'q \<Rightarrow> nat option \<times> 'q"
    and remove :: "nat \<Rightarrow> 'q \<Rightarrow> 'q"
  assumes enq_room: "inv q \<Longrightarrow> size (procs q) \<noteq> limit \<Longrightarrow>
      \<exists>q'. enq p n q = Inr q' \<and> inv q' \<and> procs q' = add_mset p (procs q)"
    and deq_some: "inv q \<Longrightarrow> procs q \<noteq> {#} \<Longrightarrow>
      \<exists>p q'. deq q = (Some p, q') \<and> inv q' \<and> add_mset p (procs q') = procs q"
    and deq_none: "inv q \<Longrightarrow> procs q = {#} \<Longrightarrow>
      \<exists>q'. deq q = (None, q') \<and> inv q' \<and> procs q' = {#}"
    and remove_one: "inv q \<Longrightarrow> inv (remove p q) \<and> procs (remove p q) = procs q - {#p#}"
begin

lemma deq_result:
  assumes "inv q" "deq q = (r, q')"
  shows "inv q'" "procs q = (case r of None \<Rightarrow> {#} | Some p \<Rightarrow> add_mset p (procs q'))"
    "r = None \<longleftrightarrow> procs q = {#}"
  using assms deq_some [of q] deq_none [of q] by (cases "procs q = {#}"; force)+

text \<open>A process that is enqueued is runnable until it is chosen or removed.\<close>

lemma enq_then_runnable:
  assumes "inv q" "size (procs q) \<noteq> limit" "enq p n q = Inr q'"
  shows "p \<in># procs q'" "inv q'"
  using enq_room [OF assms(1,2), of p n] assms(3) by auto

lemma removed_at_most_once:
  assumes "inv q" "count (procs q) p \<le> 1"
  shows "p \<notin># procs (remove p q)"
  using remove_one [OF assms(1), of p] assms(2) by (simp add: not_in_iff)

end

interpretation rqbag: runnable_bag rq_inv rq_procs MAX_RUNNABLE enqueue_runqueue dequeue_runqueue
  remove_from_runqueue
proof (unfold_locales, goal_cases)
  case (1 q p n)
  then show ?case using enqueue_runqueue_cases [of q p n] by auto
next
  case (2 q)
  then show ?case using dequeue_runqueue_spec [of q] by blast
next
  case (3 q)
  then show ?case by (simp add: dequeue_runqueue_empty inv_intros)
next
  case (4 q p)
  then show ?case by (simp add: remove_from_runqueue_spec)
qed

section \<open>Properties\<close>

lemma enqueue_inv:
  "rq_inv q \<Longrightarrow> enqueue_runqueue p n q = Done q' \<Longrightarrow> rq_inv q' \<and> rq_procs q' = add_mset p (rq_procs q)"
  using enqueue_runqueue_cases [of q p n] by (auto split: if_splits)

lemma enqueued_init:
  "\<exists>q. enqueue_runqueue p n rq_init = Done q \<and> rq_inv q \<and> rq_procs q = {#p#}"
  using enqueue_runqueue_cases [OF rq_init_inv, of p n] by (auto simp: MAX_RUNNABLE_def)

text \<open>C33: the scheduler is work-conserving and picks by earliest deadline: if any process is
  runnable, \<open>dequeue_runqueue\<close> returns one whose slot is eligible and has the earliest deadline
  among the eligible slots, removes exactly that process, and makes its slot the current one. The
  fallback of the source is never needed.\<close>

theorem dequeue_picks_earliest_deadline:
  assumes "rq_inv q" "rq_procs q \<noteq> {#}"
  shows "\<exists>i q'. edf_choice (recompute_min_vruntime q) i \<and>
    dequeue_runqueue q = (Some (t_idx (tasks q ! i)), q') \<and> rq_inv q' \<and> current_task_slot q' = i \<and>
    add_mset (t_idx (tasks q ! i)) (rq_procs q') = rq_procs q"
  using dequeue_runqueue_spec [OF assms] by auto

theorem dequeue_picks_earliest_deadline_witness:
  "\<exists>q. enqueue_runqueue 5 0 rq_init = Done q \<and> fst (dequeue_runqueue q) = Some 5"
proof -
  obtain q where q: "enqueue_runqueue 5 0 rq_init = Done q" "rq_inv q" "rq_procs q = {#5#}"
    using enqueued_init by blast
  with dequeue_picks_earliest_deadline [of q] have "fst (dequeue_runqueue q) = Some 5" by auto
  with q show ?thesis by blast
qed

text \<open>the run queue refines the bag of runnable processes: enqueue adds one occurrence (and
  halts the kernel exactly when 64 processes are queued), removal deletes one, renicing changes
  none, and dequeue reports an empty queue exactly when the bag is empty.\<close>

theorem run_queue_is_a_bag:
  assumes "rq_inv q"
  shows "(case enqueue_runqueue p n q of
        Inl e \<Rightarrow> size (rq_procs q) = MAX_RUNNABLE
      | Inr q' \<Rightarrow> size (rq_procs q) \<noteq> MAX_RUNNABLE \<and> rq_inv q' \<and> rq_procs q' = add_mset p (rq_procs q)) \<and>
    rq_inv (remove_from_runqueue p q) \<and> rq_procs (remove_from_runqueue p q) = rq_procs q - {#p#} \<and>
    rq_inv (set_nice p n q) \<and> rq_procs (set_nice p n q) = rq_procs q \<and>
    (fst (dequeue_runqueue q) = None \<longleftrightarrow> rq_procs q = {#})"
proof -
  have "fst (dequeue_runqueue q) = None \<longleftrightarrow> rq_procs q = {#}"
    using rqbag.deq_result(3) [OF assms] by (metis prod.collapse)
  moreover have "case enqueue_runqueue p n q of Inl e \<Rightarrow> size (rq_procs q) = MAX_RUNNABLE
      | Inr q' \<Rightarrow> size (rq_procs q) \<noteq> MAX_RUNNABLE \<and> rq_inv q' \<and> rq_procs q' = add_mset p (rq_procs q)"
    using enqueue_runqueue_cases [OF assms, of p n] by (auto split: if_splits)
  ultimately show ?thesis
    using remove_from_runqueue_spec [OF assms, of p] set_nice_spec [OF assms, of p n] by blast
qed

theorem run_queue_is_a_bag_witness:
  "rq_inv rq_init \<and> fst (dequeue_runqueue rq_init) = None"
  using run_queue_is_a_bag [OF rq_init_inv, of 0 0] by (simp add: rq_init_inv)

text \<open>a task that was dispatched gives up its slot, so waking another process may overwrite it.
  If the slot of the running task is the first free one, enqueueing \<open>p\<close> and then requeueing the
  current task leaves the running process off the queue and counts \<open>p\<close> twice.\<close>

theorem requeue_after_wakeup_loses_current:
  assumes inv: "rq_inv q" and cur: "first_index (\<lambda>t. \<not> occupied t) (tasks q) = Some (current_task_slot q)"
    and enq: "enqueue_runqueue p n q = Done q1"
  shows "rq_procs (requeue_current q1) = add_mset p (rq_procs q) \<and>
    task_count (requeue_current q1) = occupied_count (requeue_current q1) + 1"
proof -
  let ?s = "current_task_slot q"
  from cur have s: "?s < length (tasks q)" "\<not> occupied (tasks q ! ?s)" by (auto dest: first_index_SomeD)
  from enq cur have q1: "current_task_slot q1 = ?s" "length (tasks q1) = length (tasks q)"
    "occupied (tasks q1 ! ?s)" "t_idx (tasks q1 ! ?s) = p" "task_count q1 = task_count q + 1"
    using s by (auto simp: enqueue_runqueue_def Let_def)
  have bag1: "rq_procs q1 = add_mset p (rq_procs q)" and inv1: "rq_inv q1"
    using enqueue_inv [OF inv enq] by auto
  have slot: "?s < MAX_RUNNABLE" using s inv by (simp add: rq_inv_def)
  define t where "t = (tasks q1 ! ?s)\<lparr>vruntime := max (vruntime (tasks q1 ! ?s)) (min_vruntime q1),
    deadline := wadd (max (vruntime (tasks q1 ! ?s)) (min_vruntime q1))
      (wmul (slice_for_weight (weight (tasks q1 ! ?s))) NICE0_WEIGHT div weight (tasks q1 ! ?s)), occupied := True\<rparr>"
  have req: "requeue_current q1 = recompute_min_vruntime (q1\<lparr>tasks := (tasks q1)[?s := t],
      task_count := task_count q1 + 1, current_task_slot := u64_max\<rparr>)"
    using slot q1(1) by (simp add: requeue_current_def Let_def t_def)
  have "rq_procs (q1\<lparr>tasks := (tasks q1)[?s := t]\<rparr>) = rq_procs q1"
    using rq_procs_update [of ?s q1 t] q1(2-4) s by (simp add: t_def)
  then have bag: "rq_procs (requeue_current q1) = rq_procs q1"
    unfolding req by (simp add: rq_procs_def)
  moreover have "occupied_count (requeue_current q1) = occupied_count q1"
    unfolding size_rq_procs [symmetric] bag ..
  ultimately show ?thesis using bag1 inv1 by (simp add: req rq_inv_def)
qed

theorem requeue_after_wakeup_loses_current_witness:
  "\<exists>q0 q1. enqueue_runqueue 5 0 rq_init = Done q0 \<and>
     enqueue_runqueue 9 0 (snd (dequeue_runqueue q0)) = Done q1 \<and>
     fst (dequeue_runqueue q0) = Some 5 \<and> rq_procs (requeue_current q1) = {#9#}"
proof -
  obtain q0 where q0: "enqueue_runqueue 5 0 rq_init = Done q0" "rq_inv q0" "rq_procs q0 = {#5#}"
    using enqueued_init by blast
  from dequeue_runqueue_spec [OF q0(2)] q0(3) obtain i q where d:
    "edf_choice (recompute_min_vruntime q0) i" "dequeue_runqueue q0 = (Some 5, q)" "rq_inv q"
    "rq_procs q = {#}" "current_task_slot q = i" by auto
  have fi: "first_index (\<lambda>t. \<not> occupied t) (replicate MAX_RUNNABLE eevdf_task_empty) = Some 0"
    by (simp add: first_index_eq_Some_iff MAX_RUNNABLE_def eevdf_task_empty_def)
  have "i = 0"
    using d(1) q0(1) fi
    by (auto simp: edf_choice_def enqueue_runqueue_def rq_init_def Let_def nth_list_update
        eevdf_task_empty_def split: if_splits)
  moreover have "first_index (\<lambda>t. \<not> occupied t) (tasks q) = Some 0"
  proof -
    have "\<forall>t \<in> set (tasks q). \<not> occupied t" using d(4) by (auto simp: rq_procs_def filter_empty_conv)
    moreover have "length (tasks q) = 64" using d(3) by (simp add: rq_inv_def MAX_RUNNABLE_def)
    ultimately show ?thesis by (auto simp: first_index_eq_Some_iff)
  qed
  ultimately have cur: "first_index (\<lambda>t. \<not> occupied t) (tasks q) = Some (current_task_slot q)"
    using d(5) by simp
  obtain q1 where q1: "enqueue_runqueue 9 0 q = Done q1"
    using enqueue_runqueue_cases [OF d(3), of 9 0] d(4) by (auto simp: MAX_RUNNABLE_def)
  show ?thesis
    using requeue_after_wakeup_loses_current [OF d(3) cur q1] q0(1) q1 d(2,4) by auto
qed

end
