(* ===== verification/Buddy.thy ===== *)
theory Buddy
  imports Process
begin

text \<open>
  The physical page allocator (\<open>kernel/memory/physical/buddy.rs\<close>, the wrappers of
  \<open>frame_allocator.rs\<close>, \<open>layout.rs\<close> and \<open>region.rs\<close>). The statics of the module are the record
  \<open>buddy\<close>. Physical addresses are naturals with the 64-bit wrap-around of the release build
  written out; the first word of a free block, which links it into its free list, is the map
  \<open>links\<close>. A call of \<open>diagnostic_halt\<close> is a \<open>Halted\<close> result. The walk of a free list is a partial
  function: \<open>None\<close> would be a walk that never ends.

  The lemmas show that under the invariant \<open>buddy_inv\<close> (lists of aligned, disjoint blocks inside
  the region whose pages are all clear in the bitmap) allocation never halts and hands out pages
  that were free, that freeing a block whose buddy is in use puts exactly its pages back, and that
  freeing a block whose buddy is free halts the kernel.
\<close>

section \<open>State\<close>

definition MAX_ORDER :: nat where "MAX_ORDER = 18"
definition FRAME_REGION_BASE :: nat where "FRAME_REGION_BASE = 2 * 1024 * 1024"
definition FRAME_REGION_PAGES :: nat where "FRAME_REGION_PAGES = 2048"
definition MAX_REGION_PAGES :: nat where "MAX_REGION_PAGES = 65536"
definition BITMAP_WORDS :: nat where "BITMAP_WORDS = (MAX_REGION_PAGES + 63) div 64"

record buddy =
  region_start :: nat
  region_pages :: nat
  buddy_inited :: bool
  free_lists :: "nat list"
  alloc_bitmap :: "u64 list"
  links :: "nat \<Rightarrow> nat"

definition buddy_boot :: buddy where
  "buddy_boot = \<lparr>region_start = FRAME_REGION_BASE, region_pages = FRAME_REGION_PAGES,
     buddy_inited = False, free_lists = replicate (MAX_ORDER + 1) 0,
     alloc_bitmap = replicate BITMAP_WORDS 0, links = (\<lambda>_. 0)\<rparr>"

section \<open>Bitmap\<close>

definition page_index :: "nat \<Rightarrow> buddy \<Rightarrow> nat" where
  "page_index pa b = wsub pa (region_start b) div PAGE_SIZE"

definition bitmap_test :: "nat \<Rightarrow> buddy \<Rightarrow> bool" where
  "bitmap_test idx b = (let w = idx div 64; i = idx mod 64
     in (alloc_bitmap b ! w) AND push_bit i 1 \<noteq> 0)"

definition bitmap_set :: "nat \<Rightarrow> buddy \<Rightarrow> buddy" where
  "bitmap_set idx b = (let w = idx div 64; i = idx mod 64
     in b\<lparr>alloc_bitmap := (alloc_bitmap b)[w := (alloc_bitmap b ! w) OR push_bit i 1]\<rparr>)"

definition bitmap_clear :: "nat \<Rightarrow> buddy \<Rightarrow> buddy" where
  "bitmap_clear idx b = (let w = idx div 64; i = idx mod 64
     in b\<lparr>alloc_bitmap := (alloc_bitmap b)[w := (alloc_bitmap b ! w) AND NOT (push_bit i 1)]\<rparr>)"

text \<open>The loops over the pages of a block; the list holds the page indices still to visit.\<close>

fun mark_alloc_loop :: "nat list \<Rightarrow> buddy \<Rightarrow> buddy halting" where
  "mark_alloc_loop [] b = Done b"
| "mark_alloc_loop (idx # is) b =
     (if idx \<ge> region_pages b then Halted ''buddy_alloc_oob''
      else if bitmap_test idx b then Halted ''buddy_double_alloc''
      else mark_alloc_loop is (bitmap_set idx b))"

fun mark_free_loop :: "nat list \<Rightarrow> buddy \<Rightarrow> buddy halting" where
  "mark_free_loop [] b = Done b"
| "mark_free_loop (idx # is) b =
     (if idx \<ge> region_pages b then Halted ''buddy_free_oob''
      else if \<not> bitmap_test idx b then Halted ''buddy_double_free''
      else mark_free_loop is (bitmap_clear idx b))"

definition mark_alloc_range :: "nat \<Rightarrow> nat \<Rightarrow> buddy \<Rightarrow> buddy halting" where
  "mark_alloc_range pa order b =
     (let start = page_index pa b; len = 2 ^ order in mark_alloc_loop [start..<start + len] b)"

definition mark_free_range :: "nat \<Rightarrow> nat \<Rightarrow> buddy \<Rightarrow> buddy halting" where
  "mark_free_range pa order b =
     (let start = page_index pa b; len = 2 ^ order in mark_free_loop [start..<start + len] b)"

section \<open>Free lists\<close>

definition buddy_of :: "nat \<Rightarrow> nat \<Rightarrow> buddy \<Rightarrow> nat" where
  "buddy_of pa order b =
     (let size_bytes = 2 ^ order * PAGE_SIZE;
          idx = wsub pa (region_start b) div size_bytes;
          buddy_idx = idx XOR 1
      in wadd (region_start b) (wmul buddy_idx size_bytes))"

definition pop_free :: "nat \<Rightarrow> buddy \<Rightarrow> nat \<times> buddy" where
  "pop_free order b =
     (let head = free_lists b ! order
      in if head = 0 then (0, b)
         else (head, b\<lparr>free_lists := (free_lists b)[order := links b head]\<rparr>))"

definition push_free :: "nat \<Rightarrow> nat \<Rightarrow> buddy \<Rightarrow> buddy halting" where
  "push_free pa order b =
     (let next = free_lists b ! order;
          region_end = wadd (region_start b) (region_pages b * PAGE_SIZE)
      in if next \<noteq> 0 \<and> (next < region_start b \<or> next \<ge> region_end) then Halted ''buddy_next_ptr_oob''
         else Done (b\<lparr>links := (links b)(pa := next), free_lists := (free_lists b)[order := pa]\<rparr>))"

partial_function (option) remove_loop :: "nat \<Rightarrow> nat \<Rightarrow> nat \<Rightarrow> nat \<Rightarrow> buddy \<Rightarrow> (bool \<times> buddy) option" where
  "remove_loop pa order prev cur b =
     (if cur = 0 then Some (False, b)
      else if cur = pa then
        (if prev = 0 then Some (True, b\<lparr>free_lists := (free_lists b)[order := links b cur]\<rparr>)
         else Some (True, b\<lparr>links := (links b)(prev := links b cur)\<rparr>))
      else remove_loop pa order cur (links b cur) b)"

definition remove_from_free_list :: "nat \<Rightarrow> nat \<Rightarrow> buddy \<Rightarrow> (bool \<times> buddy) option" where
  "remove_from_free_list pa order b = remove_loop pa order 0 (free_lists b ! order) b"

section \<open>Initialisation\<close>

definition init_with_region :: "nat \<Rightarrow> nat \<Rightarrow> buddy \<Rightarrow> buddy halting" where
  "init_with_region start pages b =
     (if pages = 0 \<or> pages > MAX_REGION_PAGES then Halted ''buddy_region_invalid''
      else if start mod PAGE_SIZE \<noteq> 0 then Halted ''buddy_region_unaligned''
      else Done (b\<lparr>region_start := start, region_pages := pages, buddy_inited := True\<rparr>))"

definition buddy_init :: "buddy \<Rightarrow> buddy halting" where
  "buddy_init b = init_with_region FRAME_REGION_BASE FRAME_REGION_PAGES b"

function max_order_loop :: "nat \<Rightarrow> nat \<Rightarrow> nat" where
  "max_order_loop pages order =
     (if 2 ^ (order + 1) \<le> pages \<and> order < MAX_ORDER then max_order_loop pages (order + 1) else order)"
  by pat_completeness auto
termination
  by (relation "measure (\<lambda>(pages, order). MAX_ORDER - order)") auto

declare max_order_loop.simps [simp del]

text \<open>\<open>rsp\<close> and the stack bounds are what the CPU and the linker report. The canary is written to
  the first word of the region and read back before the block is linked.\<close>

definition build_initial_freelist :: "nat \<Rightarrow> nat \<Rightarrow> nat \<Rightarrow> buddy \<Rightarrow> buddy halting" where
  "build_initial_freelist rsp stack_bottom stack_top b =
     (if rsp < stack_bottom \<or> rsp > stack_top then Halted ''buddy_rsp_oob''
      else let b1 = b\<lparr>links := (links b)(region_start b := 0xCAFEBABECAFED00D)\<rparr>
           in if links b1 (region_start b) \<noteq> 0xCAFEBABECAFED00D then Halted ''buddy_canary_mismatch''
              else push_free (region_start b1) (max_order_loop (region_pages b1) 0) b1)"

section \<open>Allocation and release\<close>

text \<open>The inner loop of \<open>alloc_order\<close> splits the block it found down to the wanted order.\<close>

fun split_loop :: "nat \<Rightarrow> nat \<Rightarrow> nat \<Rightarrow> buddy \<Rightarrow> buddy halting" where
  "split_loop pa order k b =
     (if k > order then
        (let k1 = k - 1; half = 2 ^ k1 * PAGE_SIZE
         in bind_halt (push_free (wadd pa half) k1 b) (split_loop pa order k1))
      else Done b)"

declare split_loop.simps [simp del]

function alloc_loop :: "nat \<Rightarrow> nat \<Rightarrow> buddy \<Rightarrow> (nat \<times> buddy) halting" where
  "alloc_loop order k b =
     (case pop_free k b of (pa, b1) \<Rightarrow>
        if pa \<noteq> 0 then
          bind_halt (split_loop pa order k b1) (\<lambda>b2.
            bind_halt (mark_alloc_range pa order b2) (\<lambda>b3. Done (pa, b3)))
        else if k + 1 > MAX_ORDER then Done (0, b1) else alloc_loop order (k + 1) b1)"
  by pat_completeness auto
termination
  by (relation "measure (\<lambda>(order, k, b). MAX_ORDER - k)") auto

declare alloc_loop.simps [simp del]

definition alloc_order :: "nat \<Rightarrow> buddy \<Rightarrow> (nat \<times> buddy) halting" where
  "alloc_order order b =
     (if \<not> buddy_inited b then Done (0, b)
      else if order > MAX_ORDER then Done (0, b)
      else alloc_loop order order b)"

definition alloc_frame :: "buddy \<Rightarrow> (nat option \<times> buddy) halting" where
  "alloc_frame b =
     bind_halt (alloc_order 0 b) (\<lambda>(pa, b1). Done (if pa = 0 then None else Some pa, b1))"

text \<open>Inner \<open>Halted\<close>: the kernel stopped; outer \<open>None\<close>: a free-list walk that does not end.\<close>

function free_order :: "nat \<Rightarrow> nat \<Rightarrow> buddy \<Rightarrow> buddy halting option" where
  "free_order pa order b =
     (if order > MAX_ORDER then Some (Done b)
      else if pa < region_start b \<or> (pa - region_start b) mod PAGE_SIZE \<noteq> 0
      then Some (Halted ''buddy_free_invalid_pa'')
      else case mark_free_range pa order b of
             Inl r \<Rightarrow> Some (Inl r)
           | Inr b1 \<Rightarrow>
               let bud = buddy_of pa order b1
               in case remove_from_free_list bud order b1 of
                    None \<Rightarrow> None
                  | Some (True, b2) \<Rightarrow> free_order (if pa < bud then pa else bud) (order + 1) b2
                  | Some (False, b2) \<Rightarrow> Some (push_free pa order b2))"
  by pat_completeness auto
termination
  by (relation "measure (\<lambda>(pa, order, b). Suc MAX_ORDER - order)") auto

declare free_order.simps [simp del]

definition free_frame :: "nat \<Rightarrow> buddy \<Rightarrow> buddy halting option" where
  "free_frame pa b = free_order pa 0 b"

definition region :: "buddy \<Rightarrow> nat \<times> nat" where
  "region b = (region_start b, region_pages b * PAGE_SIZE)"

text \<open>\<open>n.next_power_of_two().trailing_zeros()\<close>: the least order whose block holds \<open>n\<close> pages. Beyond
  \<open>2 ^ 63\<close> the power wraps to 0, which has 64 trailing zeros.\<close>

definition order_for :: "nat \<Rightarrow> nat" where
  "order_for n = (case first_index (\<lambda>k. n \<le> 2 ^ k) [0..<64] of Some k \<Rightarrow> k | None \<Rightarrow> 64)"

definition alloc_contiguous :: "nat \<Rightarrow> buddy \<Rightarrow> (nat \<times> buddy) halting" where
  "alloc_contiguous n b =
     (if n = 0 then Done (0, b)
      else let order = order_for n in if order > MAX_ORDER then Done (0, b) else alloc_order order b)"

section \<open>Bitmap lemmas\<close>

lemma bitmap_test_iff: "bitmap_test i b \<longleftrightarrow> bit (alloc_bitmap b ! (i div 64)) (i mod 64)"
  by (simp add: bitmap_test_def Let_def and_power2_eq_0_iff)

text \<open>The word and the bit of a page index determine it.\<close>

lemma bitmap_pos_eq: "i div 64 = j div 64 \<and> i mod 64 = j mod 64 \<longleftrightarrow> i = j" for i j :: nat
  by (metis div_mult_mod_eq)

lemma bitmap_test_set:
  assumes "i < 64 * length (alloc_bitmap b)"
  shows "bitmap_test j (bitmap_set i b) \<longleftrightarrow> j = i \<or> bitmap_test j b"
proof -
  have "i div 64 < length (alloc_bitmap b)" using assms by (simp add: less_mult_imp_div_less mult.commute)
  then have "bitmap_test j (bitmap_set i b) \<longleftrightarrow>
      (i div 64 = j div 64 \<and> i mod 64 = j mod 64) \<or> bitmap_test j b"
    unfolding bitmap_test_iff
    by (cases "i div 64 = j div 64") (simp_all add: bitmap_set_def Let_def bit_or_iff eq_commute disj_commute)
  then show ?thesis unfolding bitmap_pos_eq by blast
qed

lemma bitmap_test_clear:
  assumes "i < 64 * length (alloc_bitmap b)"
  shows "bitmap_test j (bitmap_clear i b) \<longleftrightarrow> j \<noteq> i \<and> bitmap_test j b"
proof -
  have "i div 64 < length (alloc_bitmap b)" using assms by (simp add: less_mult_imp_div_less mult.commute)
  then have "bitmap_test j (bitmap_clear i b) \<longleftrightarrow>
      \<not> (i div 64 = j div 64 \<and> i mod 64 = j mod 64) \<and> bitmap_test j b"
    unfolding bitmap_test_iff
    by (cases "i div 64 = j div 64") (simp_all add: bitmap_clear_def Let_def bit_and_iff bit_not_iff eq_commute conj_commute)
  then show ?thesis unfolding bitmap_pos_eq by blast
qed

lemma bitmap_set_fields [simp]:
  "region_start (bitmap_set i b) = region_start b" "region_pages (bitmap_set i b) = region_pages b"
  "buddy_inited (bitmap_set i b) = buddy_inited b" "free_lists (bitmap_set i b) = free_lists b"
  "links (bitmap_set i b) = links b" "length (alloc_bitmap (bitmap_set i b)) = length (alloc_bitmap b)"
  by (simp_all add: bitmap_set_def Let_def)

lemma bitmap_clear_fields [simp]:
  "region_start (bitmap_clear i b) = region_start b" "region_pages (bitmap_clear i b) = region_pages b"
  "buddy_inited (bitmap_clear i b) = buddy_inited b" "free_lists (bitmap_clear i b) = free_lists b"
  "links (bitmap_clear i b) = links b" "length (alloc_bitmap (bitmap_clear i b)) = length (alloc_bitmap b)"
  by (simp_all add: bitmap_clear_def Let_def)

text \<open>Two states that differ in the bitmap only.\<close>

definition same_lists :: "buddy \<Rightarrow> buddy \<Rightarrow> bool" where
  "same_lists b b' \<longleftrightarrow> region_start b' = region_start b \<and> region_pages b' = region_pages b \<and>
     buddy_inited b' = buddy_inited b \<and> free_lists b' = free_lists b \<and> links b' = links b \<and>
     length (alloc_bitmap b') = length (alloc_bitmap b)"

lemma mark_alloc_loop_ok:
  assumes "\<forall>i \<in> set is. i < region_pages b \<and> \<not> bitmap_test i b" "distinct is"
    "region_pages b \<le> 64 * length (alloc_bitmap b)"
  shows "\<exists>b'. mark_alloc_loop is b = Done b' \<and> same_lists b b' \<and>
    (\<forall>j. bitmap_test j b' \<longleftrightarrow> j \<in> set is \<or> bitmap_test j b)"
  using assms
proof (induction "is" arbitrary: b)
  case Nil
  then show ?case by (simp add: same_lists_def)
next
  case (Cons i "is")
  have t: "bitmap_test j (bitmap_set i b) \<longleftrightarrow> j = i \<or> bitmap_test j b" for j
    using Cons.prems by (intro bitmap_test_set) auto
  have "\<forall>k \<in> set is. k < region_pages (bitmap_set i b) \<and> \<not> bitmap_test k (bitmap_set i b)"
    using Cons.prems t by auto
  with Cons.IH [of "bitmap_set i b"] Cons.prems obtain b' where
    "mark_alloc_loop is (bitmap_set i b) = Done b'" "same_lists (bitmap_set i b) b'"
    "\<forall>j. bitmap_test j b' \<longleftrightarrow> j \<in> set is \<or> bitmap_test j (bitmap_set i b)" by auto
  then show ?case using Cons.prems t by (auto simp: same_lists_def)
qed

lemma mark_free_loop_ok:
  assumes "\<forall>i \<in> set is. i < region_pages b \<and> bitmap_test i b" "distinct is"
    "region_pages b \<le> 64 * length (alloc_bitmap b)"
  shows "\<exists>b'. mark_free_loop is b = Done b' \<and> same_lists b b' \<and>
    (\<forall>j. bitmap_test j b' \<longleftrightarrow> j \<notin> set is \<and> bitmap_test j b)"
  using assms
proof (induction "is" arbitrary: b)
  case Nil
  then show ?case by (simp add: same_lists_def)
next
  case (Cons i "is")
  have t: "bitmap_test j (bitmap_clear i b) \<longleftrightarrow> j \<noteq> i \<and> bitmap_test j b" for j
    using Cons.prems by (intro bitmap_test_clear) auto
  have "\<forall>k \<in> set is. k < region_pages (bitmap_clear i b) \<and> bitmap_test k (bitmap_clear i b)"
    using Cons.prems t by auto
  with Cons.IH [of "bitmap_clear i b"] Cons.prems obtain b' where
    "mark_free_loop is (bitmap_clear i b) = Done b'" "same_lists (bitmap_clear i b) b'"
    "\<forall>j. bitmap_test j b' \<longleftrightarrow> j \<notin> set is \<and> bitmap_test j (bitmap_clear i b)" by auto
  then show ?case using Cons.prems t by (auto simp: same_lists_def)
qed

section \<open>Linked lists\<close>

text \<open>The walk ends and finds exactly the members of the list; unlinking removes one.\<close>

lemma remove_loop_absent:
  "chain (links b) cur xs \<Longrightarrow> pa \<notin> set xs \<Longrightarrow> remove_loop pa order prev cur b = Some (False, b)"
proof (induction xs arbitrary: prev cur)
  case Nil
  then show ?case by (subst remove_loop.simps) simp
next
  case (Cons x xs)
  then show ?case by (subst remove_loop.simps) simp
qed

lemma remove_loop_inner:
  assumes "chain (links b) cur xs" "pa \<in> set xs" "distinct (prev # xs)" "prev \<noteq> 0" "links b prev = cur"
  shows "\<exists>b'. remove_loop pa order prev cur b = Some (True, b') \<and>
    b' = b\<lparr>links := links b'\<rparr> \<and> chain (links b') (links b' prev) (remove1 pa xs) \<and>
    (\<forall>y. y \<notin> set (prev # xs) \<longrightarrow> links b' y = links b y)"
  using assms
proof (induction xs arbitrary: prev cur)
  case Nil
  then show ?case by simp
next
  case (Cons x xs)
  from Cons.prems(1) have x: "cur = x" "x \<noteq> 0" "chain (links b) (links b x) xs" by auto
  show ?case
  proof (cases "x = pa")
    case True
    let ?b = "b\<lparr>links := (links b)(prev := links b x)\<rparr>"
    have "remove_loop pa order prev cur b = Some (True, ?b)"
      using True x Cons.prems(4) by (subst remove_loop.simps) simp
    moreover have "chain (links ?b) (links ?b prev) (remove1 pa (x # xs))"
      using True x(3) Cons.prems(3) by (simp add: chain_frame)
    moreover have "\<forall>y. y \<notin> set (prev # x # xs) \<longrightarrow> links ?b y = links b y" by simp
    moreover have "?b = b\<lparr>links := links ?b\<rparr>" by simp
    ultimately show ?thesis by blast
  next
    case False
    have "distinct (x # xs)" "pa \<in> set xs" using Cons.prems False by auto
    from Cons.IH [OF x(3) this(2) this(1) x(2) refl] obtain b' where b':
      "remove_loop pa order x (links b x) b = Some (True, b')" "b' = b\<lparr>links := links b'\<rparr>"
      "chain (links b') (links b' x) (remove1 pa xs)"
      "\<forall>y. y \<notin> set (x # xs) \<longrightarrow> links b' y = links b y" by blast
    have "remove_loop pa order prev cur b = Some (True, b')"
      using b'(1) x False by (subst remove_loop.simps) simp
    moreover have "links b' prev = x" using b'(4) Cons.prems(3,5) x(1) by auto
    ultimately show ?thesis using b'(2-4) x(2) False by (intro exI [of _ b'] conjI) auto
  qed
qed

section \<open>Invariant\<close>

text \<open>\<open>fls k\<close> is the free list of order \<open>k\<close> as a list of block addresses.\<close>

type_synonym fls = "nat \<Rightarrow> nat list"

definition blk :: "buddy \<Rightarrow> nat \<Rightarrow> nat \<Rightarrow> bool" where
  "blk b k pa \<longleftrightarrow> k \<le> MAX_ORDER \<and> pa \<noteq> 0 \<and>
     (\<exists>i. pa = region_start b + i * 2 ^ k * PAGE_SIZE \<and> (i + 1) * 2 ^ k \<le> region_pages b)"

definition pages_of :: "buddy \<Rightarrow> nat \<Rightarrow> nat \<Rightarrow> nat set" where
  "pages_of b k pa = {page_index pa b..<page_index pa b + 2 ^ k}"

definition geometry :: "buddy \<Rightarrow> bool" where
  "geometry b \<longleftrightarrow> 0 < region_start b \<and> 0 < region_pages b \<and> region_pages b \<le> MAX_REGION_PAGES \<and>
     region_start b + (region_pages b + 2 ^ MAX_ORDER) * PAGE_SIZE < 2 ^ 64 \<and>
     length (free_lists b) = MAX_ORDER + 1 \<and> length (alloc_bitmap b) = BITMAP_WORDS"

definition list_ok :: "buddy \<Rightarrow> fls \<Rightarrow> nat \<Rightarrow> bool" where
  "list_ok b fls k \<longleftrightarrow> chain (links b) (free_lists b ! k) (fls k) \<and> distinct (fls k) \<and>
     (\<forall>pa \<in> set (fls k). blk b k pa \<and> (\<forall>p \<in> pages_of b k pa. \<not> bitmap_test p b))"

text \<open>The pages of a block and those of the blocks on the free lists.\<close>

definition apart :: "buddy \<Rightarrow> fls \<Rightarrow> nat \<Rightarrow> nat \<Rightarrow> bool" where
  "apart b fls k pa \<longleftrightarrow> (\<forall>k' \<le> MAX_ORDER. \<forall>pa' \<in> set (fls k'). (k, pa) \<noteq> (k', pa') \<longrightarrow>
     pages_of b k pa \<inter> pages_of b k' pa' = {})"

definition buddy_inv :: "buddy \<Rightarrow> fls \<Rightarrow> bool" where
  "buddy_inv b fls \<longleftrightarrow> geometry b \<and> (\<forall>k \<le> MAX_ORDER. list_ok b fls k \<and> (\<forall>pa \<in> set (fls k). apart b fls k pa))"

definition loose :: "buddy \<Rightarrow> fls \<Rightarrow> nat \<Rightarrow> nat \<Rightarrow> bool" where
  "loose b fls k pa \<longleftrightarrow> buddy_inv b fls \<and> blk b k pa \<and>
     (\<forall>k' \<le> MAX_ORDER. \<forall>pa' \<in> set (fls k'). pages_of b k pa \<inter> pages_of b k' pa' = {}) \<and>
     (\<forall>p \<in> pages_of b k pa. \<not> bitmap_test p b)"

definition free_pages :: "buddy \<Rightarrow> fls \<Rightarrow> nat set" where
  "free_pages b fls = (\<Union>k \<in> {..MAX_ORDER}. \<Union>pa \<in> set (fls k). pages_of b k pa)"

definition same_region :: "buddy \<Rightarrow> buddy \<Rightarrow> bool" where
  "same_region b b' \<longleftrightarrow> region_start b' = region_start b \<and> region_pages b' = region_pages b \<and>
     buddy_inited b' = buddy_inited b \<and> length (free_lists b') = length (free_lists b) \<and>
     length (alloc_bitmap b') = length (alloc_bitmap b)"

lemma page_pos [simp]: "0 < PAGE_SIZE" by (simp add: PAGE_SIZE_def)

lemma page_index_at: "page_index (region_start b + i * PAGE_SIZE) b = i"
  by (simp add: page_index_def)

lemma blk_iff_index:
  "blk b k pa \<longleftrightarrow> k \<le> MAX_ORDER \<and> pa \<noteq> 0 \<and> pa = region_start b + page_index pa b * PAGE_SIZE \<and>
     (\<exists>i. page_index pa b = i * 2 ^ k) \<and> page_index pa b + 2 ^ k \<le> region_pages b"
proof
  assume "blk b k pa"
  then obtain i where i: "k \<le> MAX_ORDER" "pa \<noteq> 0" "pa = region_start b + (i * 2 ^ k) * PAGE_SIZE"
    "(i + 1) * 2 ^ k \<le> region_pages b" unfolding blk_def by blast
  then have "page_index pa b = i * 2 ^ k" using page_index_at [of b "i * 2 ^ k"] by simp
  with i show "k \<le> MAX_ORDER \<and> pa \<noteq> 0 \<and> pa = region_start b + page_index pa b * PAGE_SIZE \<and>
     (\<exists>i. page_index pa b = i * 2 ^ k) \<and> page_index pa b + 2 ^ k \<le> region_pages b"
    by (auto simp: add_mult_distrib)
next
  assume "k \<le> MAX_ORDER \<and> pa \<noteq> 0 \<and> pa = region_start b + page_index pa b * PAGE_SIZE \<and>
     (\<exists>i. page_index pa b = i * 2 ^ k) \<and> page_index pa b + 2 ^ k \<le> region_pages b"
  then obtain i where "k \<le> MAX_ORDER" "pa \<noteq> 0" "pa = region_start b + i * 2 ^ k * PAGE_SIZE"
    "i * 2 ^ k + 2 ^ k \<le> region_pages b" by auto
  then show "blk b k pa" unfolding blk_def by (auto intro!: exI [of _ i])
qed

lemma blk_bounds:
  assumes "geometry b" "blk b k pa"
  shows "region_start b \<le> pa" "pa + 2 ^ k * PAGE_SIZE \<le> region_start b + region_pages b * PAGE_SIZE"
    "pa + 2 ^ k * PAGE_SIZE < 2 ^ 64"
proof -
  from assms(2) have pa: "pa = region_start b + page_index pa b * PAGE_SIZE"
    and le: "page_index pa b + 2 ^ k \<le> region_pages b" by (auto simp: blk_iff_index)
  have "(page_index pa b + 2 ^ k) * PAGE_SIZE \<le> region_pages b * PAGE_SIZE" using le by (intro mult_right_mono) auto
  then show b: "pa + 2 ^ k * PAGE_SIZE \<le> region_start b + region_pages b * PAGE_SIZE"
    using pa by (simp add: add_mult_distrib)
  show "region_start b \<le> pa" using pa by linarith
  show "pa + 2 ^ k * PAGE_SIZE < 2 ^ 64" using b assms(1) by (simp add: geometry_def add_mult_distrib)
qed

lemma pages_nonempty [simp]: "page_index pa b \<in> pages_of b k pa"
  by (simp add: pages_of_def)

lemma pages_in_region: "blk b k pa \<Longrightarrow> p \<in> pages_of b k pa \<Longrightarrow> p < region_pages b"
  by (auto simp: blk_iff_index pages_of_def)

lemma same_region_cong:
  assumes "same_region b b'"
  shows "pages_of b' = pages_of b" "blk b' = blk b" "geometry b' = geometry b"
    "free_pages b' = free_pages b" "apart b' = apart b"
proof -
  show p: "pages_of b' = pages_of b"
    using assms by (auto simp: same_region_def pages_of_def page_index_def fun_eq_iff)
  show "blk b' = blk b" using assms by (simp add: same_region_def blk_def fun_eq_iff)
  show "geometry b' = geometry b" using assms by (simp add: same_region_def geometry_def)
  show "free_pages b' = free_pages b" by (simp add: free_pages_def p fun_eq_iff)
  show "apart b' = apart b" by (simp add: apart_def p fun_eq_iff)
qed

lemma same_region_refl [simp]: "same_region b b" by (simp add: same_region_def)

lemma same_region_trans: "same_region a b \<Longrightarrow> same_region b c \<Longrightarrow> same_region a c"
  by (simp add: same_region_def)

lemma same_lists_region: "same_lists b b' \<Longrightarrow> same_region b b'"
  by (simp add: same_lists_def same_region_def)

lemma loose_not_listed:
  assumes "loose b fls k pa" "k' \<le> MAX_ORDER"
  shows "pa \<notin> set (fls k')"
proof
  assume "pa \<in> set (fls k')"
  with assms have "pages_of b k pa \<inter> pages_of b k' pa = {}" by (auto simp: loose_def)
  then show False using pages_nonempty [of pa b k] pages_nonempty [of pa b k'] by blast
qed

section \<open>List operations\<close>

lemma push_free_ok:
  assumes "loose b fls k pa"
  shows "\<exists>b'. push_free pa k b = Done b' \<and> buddy_inv b' (fls(k := pa # fls k)) \<and>
    same_region b b' \<and> alloc_bitmap b' = alloc_bitmap b"
proof -
  from assms have inv: "buddy_inv b fls" and bk: "blk b k pa" and geo: "geometry b"
    and k: "k \<le> MAX_ORDER" and pa: "pa \<noteq> 0"
    by (auto simp: loose_def buddy_inv_def blk_def)
  let ?b = "b\<lparr>links := (links b)(pa := free_lists b ! k), free_lists := (free_lists b)[k := pa]\<rparr>"
  let ?f = "fls(k := pa # fls k)"
  have ok: "list_ok b fls j" if "j \<le> MAX_ORDER" for j using inv that by (simp add: buddy_inv_def)
  have "push_free pa k b = Done ?b"
  proof (cases "free_lists b ! k = 0")
    case True
    then show ?thesis by (simp add: push_free_def)
  next
    case False
    let ?n = "free_lists b ! k"
    have "?n \<in> set (fls k)" using ok [OF k] False by (cases "fls k") (auto simp: list_ok_def)
    with ok [OF k] have "blk b k ?n" by (simp add: list_ok_def)
    note bd = blk_bounds [OF geo this]
    have "0 < 2 ^ k * PAGE_SIZE" by simp
    with bd have "?n < region_start b + region_pages b * PAGE_SIZE" by linarith
    moreover have "wadd (region_start b) (region_pages b * PAGE_SIZE) = region_start b + region_pages b * PAGE_SIZE"
      using geo by (intro wadd_nowrap) (simp add: geometry_def add_mult_distrib)
    ultimately show ?thesis using bd(1) by (simp add: push_free_def)
  qed
  moreover have sr: "same_region b ?b" by (simp add: same_region_def)
  moreover have "buddy_inv ?b ?f"
  proof -
    have bit: "bitmap_test p ?b = bitmap_test p b" for p by (simp add: bitmap_test_def)
    have "list_ok ?b ?f j" if j: "j \<le> MAX_ORDER" for j
    proof (cases "j = k")
      case True
      have "k < length (free_lists b)" using geo k by (simp add: geometry_def)
      then show ?thesis
        using True ok [OF k] assms loose_not_listed [OF assms k] pa bk
        by (auto simp: list_ok_def same_region_cong [OF sr] bit chain_frame loose_def)
    next
      case False
      then show ?thesis
        using ok [OF j] loose_not_listed [OF assms j]
        by (auto simp: list_ok_def same_region_cong [OF sr] bit chain_frame)
    qed
    moreover have "apart b ?f j p" if "j \<le> MAX_ORDER" "p \<in> set (?f j)" for j p
      using that inv assms
      by (auto simp: apart_def buddy_inv_def loose_def Int_commute split: if_splits) blast+
    ultimately show ?thesis using geo by (simp add: buddy_inv_def same_region_cong [OF sr])
  qed
  ultimately show ?thesis by (intro exI [of _ ?b]) simp
qed

lemma pop_free_nil: "buddy_inv b fls \<Longrightarrow> k \<le> MAX_ORDER \<Longrightarrow> fls k = [] \<Longrightarrow> pop_free k b = (0, b)"
  by (auto simp: buddy_inv_def list_ok_def pop_free_def)

lemma pop_free_cons:
  assumes inv: "buddy_inv b fls" and k: "k \<le> MAX_ORDER" and c: "fls k = x # xs"
  shows "\<exists>b'. pop_free k b = (x, b') \<and> x \<noteq> 0 \<and> loose b' (fls(k := xs)) k x \<and>
    same_region b b' \<and> alloc_bitmap b' = alloc_bitmap b"
proof -
  let ?b = "b\<lparr>free_lists := (free_lists b)[k := links b x]\<rparr>"
  let ?f = "fls(k := xs)"
  have ok: "list_ok b fls j" if "j \<le> MAX_ORDER" for j using inv that by (simp add: buddy_inv_def)
  have geo: "geometry b" using inv by (simp add: buddy_inv_def)
  have x: "free_lists b ! k = x" "x \<noteq> 0" "chain (links b) (links b x) xs" "x \<notin> set xs" "distinct xs"
    using ok [OF k] c by (auto simp: list_ok_def)
  have sr: "same_region b ?b" by (simp add: same_region_def)
  have bit: "bitmap_test p ?b = bitmap_test p b" for p by (simp add: bitmap_test_def)
  have sub: "set (?f j) \<subseteq> set (fls j)" for j using c by auto
  have "list_ok ?b ?f j" if j: "j \<le> MAX_ORDER" for j
    using ok [OF j] x c k geo by (auto simp: list_ok_def same_region_cong [OF sr] bit geometry_def)
  moreover have ap: "apart b ?f j p" if "j \<le> MAX_ORDER" "p \<in> set (fls j)" for j p
    using that inv sub unfolding apart_def buddy_inv_def by blast
  moreover have "apart b ?f j p" if "j \<le> MAX_ORDER" "p \<in> set (?f j)" for j p
    using ap sub that by blast
  ultimately have "buddy_inv ?b ?f"
    using geo by (simp add: buddy_inv_def same_region_cong [OF sr])
  moreover have "blk b k x" "\<forall>p \<in> pages_of b k x. \<not> bitmap_test p b"
    using ok [OF k] c by (auto simp: list_ok_def)
  moreover have "pages_of b k x \<inter> pages_of b k' p = {}" if "k' \<le> MAX_ORDER" "p \<in> set (?f k')" for k' p
  proof -
    have "(k, x) \<noteq> (k', p)" using that x(4) by (auto split: if_splits)
    then show ?thesis using ap [OF k, of x] that c unfolding apart_def by auto
  qed
  ultimately have "loose ?b ?f k x" by (simp add: loose_def same_region_cong [OF sr] bit)
  with x sr show ?thesis by (simp add: pop_free_def)
qed

section \<open>Splitting\<close>

text \<open>The two halves of a block.\<close>

lemma blk_halves:
  assumes "geometry b" "blk b (Suc k) pa"
  shows "blk b k pa" "blk b k (pa + 2 ^ k * PAGE_SIZE)"
    "page_index (pa + 2 ^ k * PAGE_SIZE) b = page_index pa b + 2 ^ k"
proof -
  from assms(2) obtain i where i: "Suc k \<le> MAX_ORDER" "pa \<noteq> 0"
    "pa = region_start b + i * 2 ^ Suc k * PAGE_SIZE" "(i + 1) * 2 ^ Suc k \<le> region_pages b"
    unfolding blk_def by blast
  show "blk b k pa"
    unfolding blk_def using i by (auto intro!: exI [of _ "2 * i"])
  have "pa + 2 ^ k * PAGE_SIZE = region_start b + (2 * i + 1) * 2 ^ k * PAGE_SIZE"
    using i(3) by (simp add: add_mult_distrib mult.assoc)
  moreover have "(2 * i + 1 + 1) * 2 ^ k \<le> region_pages b" using i(4) by simp
  ultimately show "blk b k (pa + 2 ^ k * PAGE_SIZE)"
    unfolding blk_def using i(1,2) by (auto intro!: exI [of _ "2 * i + 1"])
  have "pa = region_start b + page_index pa b * PAGE_SIZE" using assms(2) by (simp add: blk_iff_index)
  then have "pa + 2 ^ k * PAGE_SIZE = region_start b + (page_index pa b + 2 ^ k) * PAGE_SIZE"
    by (simp add: add_mult_distrib)
  then show "page_index (pa + 2 ^ k * PAGE_SIZE) b = page_index pa b + 2 ^ k"
    by (metis page_index_at)
qed

lemma pages_halves:
  assumes "geometry b" "blk b (Suc k) pa"
  shows "pages_of b (Suc k) pa = pages_of b k pa \<union> pages_of b k (pa + 2 ^ k * PAGE_SIZE)"
    "pages_of b k pa \<inter> pages_of b k (pa + 2 ^ k * PAGE_SIZE) = {}"
  unfolding pages_of_def blk_halves(3) [OF assms] by auto

lemma split_step:
  assumes "loose b fls (Suc k) pa"
  defines "pb \<equiv> pa + 2 ^ k * PAGE_SIZE"
  shows "\<exists>b'. push_free (wadd pa (2 ^ k * PAGE_SIZE)) k b = Done b' \<and>
    loose b' (fls(k := pb # fls k)) k pa \<and> same_region b b' \<and> alloc_bitmap b' = alloc_bitmap b"
proof -
  from assms have geo: "geometry b" and bk: "blk b (Suc k) pa" and inv: "buddy_inv b fls"
    by (auto simp: loose_def buddy_inv_def)
  note h = blk_halves [OF geo bk] and ph = pages_halves [OF geo bk]
  have w: "wadd pa (2 ^ k * PAGE_SIZE) = pb"
    using blk_bounds(3) [OF geo h(1)] by (simp add: wadd_nowrap pb_def)
  have "loose b fls k pb" and low: "loose b fls k pa"
    using assms h ph(1) by (auto simp: loose_def pb_def)
  from push_free_ok [OF this(1)] obtain b' where b': "push_free pb k b = Done b'"
    "buddy_inv b' (fls(k := pb # fls k))" "same_region b b'" "alloc_bitmap b' = alloc_bitmap b" by blast
  have bit: "bitmap_test p b' = bitmap_test p b" for p using b'(4) by (simp add: bitmap_test_def)
  have "loose b' (fls(k := pb # fls k)) k pa"
    using b'(2) low ph(2) unfolding loose_def same_region_cong [OF b'(3)] bit by (auto simp: pb_def)
  with b' w show ?thesis by auto
qed

lemma free_pages_push:
  "k \<le> MAX_ORDER \<Longrightarrow> free_pages b (fls(k := pa # fls k)) = free_pages b fls \<union> pages_of b k pa"
proof -
  assume k: "k \<le> MAX_ORDER"
  have "(\<Union>q \<in> set ((fls(k := pa # fls k)) j). pages_of b j q)
      = (\<Union>q \<in> set (fls j). pages_of b j q) \<union> (if j = k then pages_of b k pa else {})" for j by auto
  moreover have "(\<Union>j \<in> {..MAX_ORDER}. if j = k then pages_of b k pa else {}) = pages_of b k pa"
    using k by (auto split: if_splits)
  ultimately show ?thesis by (simp add: free_pages_def UN_Un_distrib)
qed

lemma split_loop_ok:
  assumes "loose b fls k pa" "order \<le> k"
  shows "\<exists>b' fls'. split_loop pa order k b = Done b' \<and> loose b' fls' order pa \<and> same_region b b' \<and>
    alloc_bitmap b' = alloc_bitmap b \<and>
    free_pages b fls' \<union> pages_of b order pa = free_pages b fls \<union> pages_of b k pa \<and>
    (order < k \<longrightarrow> pa + 2 ^ order * PAGE_SIZE \<in> set (fls' order))"
  using assms
proof (induction k arbitrary: b fls)
  case 0
  then show ?case by (subst split_loop.simps) auto
next
  case (Suc k)
  show ?case
  proof (cases "order = Suc k")
    case True
    then show ?thesis using Suc.prems by (subst split_loop.simps) auto
  next
    case False
    let ?pb = "pa + 2 ^ k * PAGE_SIZE"
    from split_step [OF Suc.prems(1)] obtain b1 where b1:
      "push_free (wadd pa (2 ^ k * PAGE_SIZE)) k b = Done b1"
      "loose b1 (fls(k := ?pb # fls k)) k pa" "same_region b b1" "alloc_bitmap b1 = alloc_bitmap b" by blast
    have k: "k \<le> MAX_ORDER" and geo: "geometry b" and bk: "blk b (Suc k) pa"
      using Suc.prems(1) by (auto simp: loose_def blk_def buddy_inv_def)
    have "order \<le> k" using False Suc.prems(2) by simp
    from Suc.IH [OF b1(2) this] obtain b2 fls2 where b2: "split_loop pa order k b1 = Done b2"
      "loose b2 fls2 order pa" "same_region b1 b2" "alloc_bitmap b2 = alloc_bitmap b1"
      "free_pages b1 fls2 \<union> pages_of b1 order pa = free_pages b1 (fls(k := ?pb # fls k)) \<union> pages_of b1 k pa"
      "order < k \<longrightarrow> pa + 2 ^ order * PAGE_SIZE \<in> set (fls2 order)" by blast
    have "split_loop pa order (Suc k) b = Done b2"
      using b1(1) b2(1) False Suc.prems(2) by (subst split_loop.simps) (simp add: Let_def)
    moreover have "free_pages b fls2 \<union> pages_of b order pa = free_pages b fls \<union> pages_of b (Suc k) pa"
      using b2(5) free_pages_push [OF k, of b fls ?pb] pages_halves(1) [OF geo bk]
      by (auto simp: same_region_cong [OF b1(3)])
    moreover have "pa + 2 ^ order * PAGE_SIZE \<in> set (fls2 order)"
    proof (cases "order < k")
      case True
      then show ?thesis using b2(6) by blast
    next
      case eq: False
      with False Suc.prems(2) have "order = k" by simp
      have "split_loop pa order k b1 = Done b1" using \<open>order = k\<close> by (subst split_loop.simps) simp
      with b2(1) have "b2 = b1" by simp
      have "?pb \<in> set (fls2 k)"
      proof (rule ccontr)
        assume n: "?pb \<notin> set (fls2 k)"
        have "buddy_inv b1 (fls(k := ?pb # fls k))" "buddy_inv b1 fls2"
          using b1(2) b2(2) \<open>b2 = b1\<close> by (auto simp: loose_def)
        then have "chain (links b1) (free_lists b1 ! k) (?pb # fls k)" "chain (links b1) (free_lists b1 ! k) (fls2 k)"
          using k by (auto simp: buddy_inv_def list_ok_def)
        then show False using n page_pos by (cases "fls2 k") auto
      qed
      with \<open>order = k\<close> show ?thesis by simp
    qed
    ultimately show ?thesis
      using b1(3,4) b2(2-4) False Suc.prems(2) same_region_trans by (intro exI [of _ b2] exI [of _ fls2]) auto
  qed
qed

section \<open>Marking\<close>

lemma bitmap_room: "geometry b \<Longrightarrow> region_pages b \<le> 64 * length (alloc_bitmap b)"
  by (simp add: geometry_def BITMAP_WORDS_def MAX_REGION_PAGES_def)

lemma mark_alloc_range_ok:
  assumes "loose b fls k pa"
  shows "\<exists>b'. mark_alloc_range pa k b = Done b' \<and> buddy_inv b' fls \<and> same_region b b' \<and>
    (\<forall>p. bitmap_test p b' \<longleftrightarrow> p \<in> pages_of b k pa \<or> bitmap_test p b)"
proof -
  from assms have geo: "geometry b" and bk: "blk b k pa" and inv: "buddy_inv b fls"
    and clr: "\<forall>p \<in> pages_of b k pa. \<not> bitmap_test p b" by (auto simp: loose_def buddy_inv_def)
  let ?is = "[page_index pa b..<page_index pa b + 2 ^ k]"
  have set: "set ?is = pages_of b k pa" by (simp add: pages_of_def)
  obtain b' where b': "mark_alloc_loop ?is b = Done b'" "same_lists b b'"
    "\<forall>p. bitmap_test p b' \<longleftrightarrow> p \<in> set ?is \<or> bitmap_test p b"
    using mark_alloc_loop_ok [of ?is b] clr pages_in_region [OF bk] bitmap_room [OF geo]
    unfolding set by auto
  note sr = same_lists_region [OF b'(2)]
  have "list_ok b' fls j" if j: "j \<le> MAX_ORDER" for j
  proof -
    have "pages_of b k pa \<inter> pages_of b j q = {}" if "q \<in> set (fls j)" for q
      using assms j that by (auto simp: loose_def)
    then show ?thesis
      using inv j b'(2,3) unfolding list_ok_def buddy_inv_def same_region_cong [OF sr] set
      by (auto simp: same_lists_def list_ok_def)
  qed
  then have "buddy_inv b' fls" using inv by (simp add: buddy_inv_def same_region_cong [OF sr])
  with b' sr show ?thesis unfolding set by (auto simp: mark_alloc_range_def Let_def)
qed

section \<open>Allocation\<close>

text \<open>What an allocation of \<open>2 ^ order\<close> pages at \<open>pa\<close> means: an aligned block of the region whose pages
  were on the free lists, which lose exactly them, and which are now marked in the bitmap.\<close>

definition allocated :: "nat \<Rightarrow> nat \<Rightarrow> buddy \<Rightarrow> fls \<Rightarrow> buddy \<Rightarrow> fls \<Rightarrow> bool" where
  "allocated order pa b fls b' fls' \<longleftrightarrow> blk b order pa \<and> buddy_inv b' fls' \<and> same_region b b' \<and>
     pages_of b order pa \<subseteq> free_pages b fls \<and> free_pages b fls' = free_pages b fls - pages_of b order pa \<and>
     (\<forall>p. bitmap_test p b' \<longleftrightarrow> p \<in> pages_of b order pa \<or> bitmap_test p b)"

lemma free_pages_pop:
  assumes "fls k = x # xs" "k \<le> MAX_ORDER"
  shows "free_pages b fls = free_pages b (fls(k := xs)) \<union> pages_of b k x"
  using free_pages_push [OF assms(2), of b "fls(k := xs)" x] assms(1) by (simp add: fun_upd_idem)

lemma alloc_found:
  assumes inv: "buddy_inv b fls" and k: "k \<le> MAX_ORDER" "order \<le> k" and c: "fls k = x # xs"
  shows "\<exists>b' fls'. alloc_loop order k b = Done (x, b') \<and> allocated order x b fls b' fls' \<and>
    (order < k \<longrightarrow> x + 2 ^ order * PAGE_SIZE \<in> set (fls' order))"
proof -
  from pop_free_cons [OF inv k(1) c] obtain b1 where b1: "pop_free k b = (x, b1)" "x \<noteq> 0"
    "loose b1 (fls(k := xs)) k x" "same_region b b1" "alloc_bitmap b1 = alloc_bitmap b" by blast
  from split_loop_ok [OF b1(3) k(2)] obtain b2 fls2 where b2: "split_loop x order k b1 = Done b2"
    "loose b2 fls2 order x" "same_region b1 b2" "alloc_bitmap b2 = alloc_bitmap b1"
    "free_pages b1 fls2 \<union> pages_of b1 order x = free_pages b1 (fls(k := xs)) \<union> pages_of b1 k x"
    "order < k \<longrightarrow> x + 2 ^ order * PAGE_SIZE \<in> set (fls2 order)" by blast
  from mark_alloc_range_ok [OF b2(2)] obtain b3 where b3: "mark_alloc_range x order b2 = Done b3"
    "buddy_inv b3 fls2" "same_region b2 b3"
    "\<forall>p. bitmap_test p b3 \<longleftrightarrow> p \<in> pages_of b2 order x \<or> bitmap_test p b2" by blast
  have s12: "same_region b b2" and s13: "same_region b b3"
    using b1(4) b2(3) b3(3) same_region_trans by blast+
  have bit: "bitmap_test p b2 = bitmap_test p b" for p using b1(5) b2(4) by (simp add: bitmap_test_def)
  have lo: "blk b order x" "pages_of b order x \<inter> free_pages b fls2 = {}"
    using b2(2) by (auto simp: loose_def same_region_cong [OF s12] free_pages_def)
  have "free_pages b fls2 \<union> pages_of b order x = free_pages b fls"
    using b2(5) free_pages_pop [of fls k x xs b, OF c k(1)] by (simp add: same_region_cong [OF b1(4)])
  then have "allocated order x b fls b3 fls2"
    using b3(2,4) lo s13 by (auto simp: allocated_def same_region_cong [OF s12] bit)
  moreover have "alloc_loop order k b = Done (x, b3)"
    using b1(1,2) b2(1) b3(1) by (subst alloc_loop.simps) simp
  ultimately show ?thesis using b2(6) by blast
qed

lemma alloc_loop_spec:
  assumes "buddy_inv b fls" "k \<le> MAX_ORDER" "order \<le> k"
  shows "(\<forall>j. k \<le> j \<and> j \<le> MAX_ORDER \<longrightarrow> fls j = []) \<and> alloc_loop order k b = Done (0, b) \<or>
    (\<exists>j pa b' fls'. k \<le> j \<and> j \<le> MAX_ORDER \<and> pa \<in> set (fls j) \<and> alloc_loop order k b = Done (pa, b') \<and>
      allocated order pa b fls b' fls' \<and> (order < j \<longrightarrow> pa + 2 ^ order * PAGE_SIZE \<in> set (fls' order)))"
  using assms
proof (induction "MAX_ORDER - k" arbitrary: k)
  case 0
  then have k: "k = MAX_ORDER" by simp
  show ?case
  proof (cases "fls k")
    case Nil
    then have "alloc_loop order k b = Done (0, b)"
      using pop_free_nil [OF 0(2,3)] k by (subst alloc_loop.simps) simp
    with Nil k show ?thesis by auto
  next
    case (Cons x xs)
    with alloc_found [OF 0(2,3,4) Cons] show ?thesis using k by (intro disjI2) (metis list.set_intros(1) order_refl)
  qed
next
  case (Suc d)
  show ?case
  proof (cases "fls k")
    case Nil
    have lt: "k + 1 \<le> MAX_ORDER" using Suc.hyps(2) by simp
    have step: "alloc_loop order k b = alloc_loop order (k + 1) b"
      using pop_free_nil [OF Suc.prems(1,2) Nil] lt by (subst alloc_loop.simps) simp
    have all: "(\<forall>j. k + 1 \<le> j \<and> j \<le> MAX_ORDER \<longrightarrow> fls j = []) \<longleftrightarrow> (\<forall>j. k \<le> j \<and> j \<le> MAX_ORDER \<longrightarrow> fls j = [])"
      using Nil by (metis Suc_eq_plus1 le_antisym not_less_eq_eq Suc_leD)
    have "d = MAX_ORDER - (k + 1)" "order \<le> k + 1" using Suc by auto
    from Suc.hyps(1) [OF this(1) Suc.prems(1) lt this(2)] show ?thesis
      unfolding step all by (meson Suc_leD Suc_eq_plus1 add_leD1)
  next
    case (Cons x xs)
    with alloc_found [OF Suc.prems Cons] Suc.prems show ?thesis
      by (intro disjI2) (metis list.set_intros(1) order_refl)
  qed
qed

section \<open>Release\<close>

lemma mark_free_range_ok:
  assumes inv: "buddy_inv b fls" and bk: "blk b k pa" and set: "\<forall>p \<in> pages_of b k pa. bitmap_test p b"
  shows "\<exists>b'. mark_free_range pa k b = Done b' \<and> same_lists b b' \<and> loose b' fls k pa \<and>
    (\<forall>p. bitmap_test p b' \<longleftrightarrow> p \<notin> pages_of b k pa \<and> bitmap_test p b)"
proof -
  let ?is = "[page_index pa b..<page_index pa b + 2 ^ k]"
  have st: "set ?is = pages_of b k pa" by (simp add: pages_of_def)
  have geo: "geometry b" using inv by (simp add: buddy_inv_def)
  obtain b' where b': "mark_free_loop ?is b = Done b'" "same_lists b b'"
    "\<forall>p. bitmap_test p b' \<longleftrightarrow> p \<notin> set ?is \<and> bitmap_test p b"
    using mark_free_loop_ok [of ?is b] set pages_in_region [OF bk] bitmap_room [OF geo]
    unfolding st by auto
  note sr = same_lists_region [OF b'(2)]
  have "list_ok b' fls j" if j: "j \<le> MAX_ORDER" for j
    using inv j b'(2,3) unfolding list_ok_def buddy_inv_def same_region_cong [OF sr]
    by (auto simp: same_lists_def list_ok_def)
  then have "buddy_inv b' fls" using inv by (simp add: buddy_inv_def same_region_cong [OF sr])
  moreover have "pages_of b k pa \<inter> pages_of b j q = {}" if "j \<le> MAX_ORDER" "q \<in> set (fls j)" for j q
  proof -
    have "\<forall>p \<in> pages_of b j q. \<not> bitmap_test p b" using inv that by (auto simp: buddy_inv_def list_ok_def)
    with set show ?thesis by blast
  qed
  ultimately have "loose b' fls k pa"
    using bk b'(3) unfolding loose_def same_region_cong [OF sr] st by blast
  with b' show ?thesis unfolding st by (auto simp: mark_free_range_def Let_def)
qed

lemma remove_absent:
  "buddy_inv b fls \<Longrightarrow> k \<le> MAX_ORDER \<Longrightarrow> q \<notin> set (fls k) \<Longrightarrow> remove_from_free_list q k b = Some (False, b)"
  by (auto simp: remove_from_free_list_def buddy_inv_def list_ok_def intro!: remove_loop_absent)

lemma remove_present:
  assumes "buddy_inv b fls" "k \<le> MAX_ORDER" "q \<in> set (fls k)"
  shows "\<exists>b'. remove_from_free_list q k b = Some (True, b') \<and> region_start b' = region_start b \<and>
    region_pages b' = region_pages b \<and> alloc_bitmap b' = alloc_bitmap b"
proof -
  have c: "chain (links b) (free_lists b ! k) (fls k)" "distinct (fls k)"
    using assms by (auto simp: buddy_inv_def list_ok_def)
  obtain x xs where xs: "fls k = x # xs" using assms(3) by (cases "fls k") auto
  then have x: "free_lists b ! k = x" "x \<noteq> 0" "chain (links b) (links b x) xs" using c by auto
  show ?thesis
  proof (cases "x = q")
    case True
    then show ?thesis using x by (simp add: remove_from_free_list_def remove_loop.simps [of _ _ 0])
  next
    case False
    then have "q \<in> set xs" "distinct (x # xs)" using assms(3) c xs by auto
    from remove_loop_inner [OF x(3) this(1,2) x(2) refl] obtain b' where
      "remove_loop q k x (links b x) b = Some (True, b')" "b' = b\<lparr>links := links b'\<rparr>" by blast
    moreover have "remove_from_free_list q k b = remove_loop q k x (links b x) b"
      using x False by (simp add: remove_from_free_list_def remove_loop.simps [of _ _ 0])
    ultimately show ?thesis
      by (metis (no_types, lifting) buddy.select_convs(1,2,5) buddy.surjective buddy.update_convs(6))
  qed
qed

lemma blk_accepted:
  "blk b k pa \<Longrightarrow> \<not> (pa < region_start b \<or> (pa - region_start b) mod PAGE_SIZE \<noteq> 0)"
  by (auto simp: blk_def)

lemma free_order_buddy_used:
  assumes inv: "buddy_inv b fls" and bk: "blk b k pa" and set: "\<forall>p \<in> pages_of b k pa. bitmap_test p b"
    and used: "buddy_of pa k b \<notin> set (fls k)"
  shows "\<exists>b'. free_order pa k b = Some (Done b') \<and> buddy_inv b' (fls(k := pa # fls k)) \<and> same_region b b' \<and>
    (\<forall>p. bitmap_test p b' \<longleftrightarrow> p \<notin> pages_of b k pa \<and> bitmap_test p b)"
proof -
  from mark_free_range_ok [OF inv bk set] obtain b1 where b1: "mark_free_range pa k b = Done b1"
    "same_lists b b1" "loose b1 fls k pa"
    "\<forall>p. bitmap_test p b1 \<longleftrightarrow> p \<notin> pages_of b k pa \<and> bitmap_test p b" by blast
  have k: "k \<le> MAX_ORDER" using bk by (simp add: blk_def)
  have "buddy_of pa k b1 = buddy_of pa k b" using b1(2) by (simp add: same_lists_def buddy_of_def)
  moreover have "buddy_inv b1 fls" using b1(3) by (simp add: loose_def)
  ultimately have "remove_from_free_list (buddy_of pa k b1) k b1 = Some (False, b1)"
    using remove_absent k used by simp
  moreover from push_free_ok [OF b1(3)] obtain b2 where b2: "push_free pa k b1 = Done b2"
    "buddy_inv b2 (fls(k := pa # fls k))" "same_region b1 b2" "alloc_bitmap b2 = alloc_bitmap b1" by blast
  ultimately have "free_order pa k b = Some (Done b2)"
    using b1(1) k blk_accepted [OF bk] by (subst free_order.simps) simp
  moreover have "bitmap_test p b2 = bitmap_test p b1" for p using b2(4) by (simp add: bitmap_test_def)
  ultimately show ?thesis
    using b1(4) b2(2,3) same_lists_region [OF b1(2)] same_region_trans by blast
qed

lemma mark_free_clear_halts:
  "page_index pa b < region_pages b \<Longrightarrow> \<not> bitmap_test (page_index pa b) b \<Longrightarrow>
   mark_free_range pa k b = Halted ''buddy_double_free''"
proof -
  assume "page_index pa b < region_pages b" "\<not> bitmap_test (page_index pa b) b"
  moreover have "[page_index pa b..<page_index pa b + 2 ^ k]
      = page_index pa b # [Suc (page_index pa b)..<page_index pa b + 2 ^ k]"
    by (simp add: upt_conv_Cons)
  ultimately show ?thesis by (simp add: mark_free_range_def Let_def)
qed

lemma free_order_buddy_free:
  assumes inv: "buddy_inv b fls" and bk: "blk b k pa" and set: "\<forall>p \<in> pages_of b k pa. bitmap_test p b"
    and free: "buddy_of pa k b \<in> set (fls k)" and lt: "k < MAX_ORDER"
  shows "free_order pa k b = Some (Halted ''buddy_double_free'')"
proof -
  from mark_free_range_ok [OF inv bk set] obtain b1 where b1: "mark_free_range pa k b = Done b1"
    "same_lists b b1" "loose b1 fls k pa"
    "\<forall>p. bitmap_test p b1 \<longleftrightarrow> p \<notin> pages_of b k pa \<and> bitmap_test p b" by blast
  let ?bud = "buddy_of pa k b"
  have bud: "buddy_of pa k b1 = ?bud" using b1(2) by (simp add: same_lists_def buddy_of_def)
  have inv1: "buddy_inv b1 fls" using b1(3) by (simp add: loose_def)
  from remove_present [OF inv1 _ free] lt obtain b2 where b2:
    "remove_from_free_list ?bud k b1 = Some (True, b2)" "region_start b2 = region_start b1"
    "region_pages b2 = region_pages b1" "alloc_bitmap b2 = alloc_bitmap b1" by auto
  let ?m = "if pa < ?bud then pa else ?bud"
  have step: "free_order pa k b = free_order ?m (k + 1) b2"
    using b1(1) b2(1) lt blk_accepted [OF bk] bud by (subst free_order.simps) simp
  have m: "blk b1 k ?m" "\<not> bitmap_test (page_index ?m b1) b1"
  proof -
    have "\<forall>q \<in> set (fls k). blk b1 k q \<and> (\<forall>p \<in> pages_of b1 k q. \<not> bitmap_test p b1)"
      using inv1 lt unfolding buddy_inv_def list_ok_def by (meson less_imp_le)
    then show "blk b1 k ?m" "\<not> bitmap_test (page_index ?m b1) b1"
      using b1(3) free pages_nonempty by (auto simp: loose_def)
  qed
  have pi: "page_index ?m b2 = page_index ?m b1" using b2(2) by (simp add: page_index_def)
  have "page_index ?m b1 < region_pages b1" using pages_in_region [OF m(1)] pages_nonempty by blast
  then have "mark_free_range ?m (k + 1) b2 = Halted ''buddy_double_free''"
    using m(2) b2(3,4) pi by (intro mark_free_clear_halts) (simp_all add: bitmap_test_def)
  moreover have "blk b2 k ?m" using m(1) b2(2,3) by (simp add: blk_def)
  ultimately have "free_order ?m (k + 1) b2 = Some (Halted ''buddy_double_free'')"
    using lt blk_accepted [of b2 k ?m] by (subst free_order.simps) simp
  with step show ?thesis by simp
qed

section \<open>Start-up\<close>

lemma max_order_loop_bounds:
  "2 ^ order \<le> pages \<Longrightarrow> order \<le> MAX_ORDER \<Longrightarrow>
   2 ^ max_order_loop pages order \<le> pages \<and> max_order_loop pages order \<le> MAX_ORDER"
proof (induction pages order rule: max_order_loop.induct)
  case (1 pages order)
  then show ?case by (cases "2 ^ (order + 1) \<le> pages \<and> order < MAX_ORDER")
      (simp_all add: max_order_loop.simps [of pages order])
qed

definition boot_region :: "nat \<Rightarrow> nat \<Rightarrow> bool" where
  "boot_region start pages \<longleftrightarrow> 0 < start \<and> start mod PAGE_SIZE = 0 \<and> 0 < pages \<and> pages \<le> MAX_REGION_PAGES \<and>
     start + (pages + 2 ^ MAX_ORDER) * PAGE_SIZE < 2 ^ 64"

lemma buddy_start_inv:
  assumes "boot_region start pages" "stack_bottom \<le> rsp" "rsp \<le> stack_top"
  defines "k \<equiv> max_order_loop pages 0"
  shows "\<exists>b1 b2. init_with_region start pages buddy_boot = Done b1 \<and>
    build_initial_freelist rsp stack_bottom stack_top b1 = Done b2 \<and> buddy_inited b2 \<and>
    buddy_inv b2 ((\<lambda>_. [])(k := [start])) \<and> region_start b2 = start \<and> region_pages b2 = pages \<and>
    (\<forall>p. p < MAX_REGION_PAGES \<longrightarrow> \<not> bitmap_test p b2)"
proof -
  let ?b1 = "buddy_boot\<lparr>region_start := start, region_pages := pages, buddy_inited := True\<rparr>"
  let ?b = "?b1\<lparr>links := (links ?b1)(start := 0xCAFEBABECAFED00D)\<rparr>"
  have i: "init_with_region start pages buddy_boot = Done ?b1"
    using assms(1) by (simp add: init_with_region_def boot_region_def)
  have k: "2 ^ k \<le> pages" "k \<le> MAX_ORDER"
    using max_order_loop_bounds [of 0 pages] assms(1) by (auto simp: k_def boot_region_def)
  have bit: "\<not> bitmap_test p c" if "p < MAX_REGION_PAGES" "alloc_bitmap c = alloc_bitmap buddy_boot" for p c
  proof -
    have "p div 64 < BITMAP_WORDS" using that(1) by (simp add: BITMAP_WORDS_def MAX_REGION_PAGES_def less_mult_imp_div_less)
    then show ?thesis using that(2) by (simp add: bitmap_test_def buddy_boot_def)
  qed
  have geo: "geometry ?b" using assms(1) by (simp add: geometry_def boot_region_def buddy_boot_def)
  have inv: "buddy_inv ?b (\<lambda>_. [])"
    using geo nth_replicate [of _ "MAX_ORDER + 1" "0 :: nat"]
    by (simp add: buddy_inv_def list_ok_def buddy_boot_def del: replicate_Suc)
  have bk: "blk ?b k start" using k assms(1) by (auto simp: blk_def boot_region_def intro!: exI [of _ 0])
  moreover have "\<not> bitmap_test p ?b" if "p \<in> pages_of ?b k start" for p
    using pages_in_region [OF bk that] assms(1) by (intro bit) (auto simp: boot_region_def)
  ultimately have "loose ?b (\<lambda>_. []) k start" using inv by (simp add: loose_def)
  from push_free_ok [OF this] obtain b2 where b2: "push_free start k ?b = Done b2"
    "buddy_inv b2 ((\<lambda>_. [])(k := [start]))" "same_region ?b b2" "alloc_bitmap b2 = alloc_bitmap ?b" by auto
  have "build_initial_freelist rsp stack_bottom stack_top ?b1 = Done b2"
    using b2(1) assms(2,3) by (simp add: build_initial_freelist_def Let_def k_def)
  moreover have "buddy_inited b2" "region_start b2 = start" "region_pages b2 = pages"
    using b2(3) by (simp_all add: same_region_def)
  moreover have "\<not> bitmap_test p b2" if "p < MAX_REGION_PAGES" for p using that b2(4) by (intro bit) simp_all
  ultimately show ?thesis using i b2(2) by blast
qed

section \<open>The allocator as a source of frames\<close>

text \<open>The free lists are determined by the state.\<close>

definition fls_of :: "buddy \<Rightarrow> fls" where
  "fls_of b k = (THE xs. chain (links b) (free_lists b ! k) xs)"

definition buddy_ok :: "buddy \<Rightarrow> bool" where
  "buddy_ok b \<longleftrightarrow> buddy_inited b \<and> buddy_inv b (fls_of b)"

definition free_set :: "buddy \<Rightarrow> nat set" where
  "free_set b = free_pages b (fls_of b)"

lemma fls_of_eq: "buddy_inv b fls \<Longrightarrow> k \<le> MAX_ORDER \<Longrightarrow> fls_of b k = fls k"
  unfolding fls_of_def buddy_inv_def list_ok_def by (rule the_equality) (auto intro: chain_unique)

lemma buddy_inv_fls_of: "buddy_inv b fls \<Longrightarrow> buddy_inv b (fls_of b)"
  using fls_of_eq [of b fls] unfolding buddy_inv_def list_ok_def apart_def by simp

lemma free_set_eq: "buddy_inv b fls \<Longrightarrow> free_set b = free_pages b fls"
  using fls_of_eq [of b fls] by (simp add: free_set_def free_pages_def)

lemma alloc_order_cases:
  assumes "buddy_ok b" "order \<le> MAX_ORDER"
  shows "(\<forall>k. order \<le> k \<and> k \<le> MAX_ORDER \<longrightarrow> fls_of b k = []) \<and> alloc_order order b = Done (0, b) \<or>
    (\<exists>k pa b'. order \<le> k \<and> k \<le> MAX_ORDER \<and> pa \<in> set (fls_of b k) \<and> alloc_order order b = Done (pa, b') \<and>
      buddy_ok b' \<and> allocated order pa b (fls_of b) b' (fls_of b') \<and>
      (order < k \<longrightarrow> pa + 2 ^ order * PAGE_SIZE \<in> set (fls_of b' order)))"
proof -
  from assms have inv: "buddy_inv b (fls_of b)" and "buddy_inited b" by (auto simp: buddy_ok_def)
  then have eq: "alloc_order order b = alloc_loop order order b"
    using assms(2) by (simp add: alloc_order_def)
  from alloc_loop_spec [OF inv assms(2) order_refl] show ?thesis
  proof (elim disjE exE conjE, goal_cases)
    case 1
    then show ?case unfolding eq by blast
  next
    case (2 k pa b' fls')
    then have i: "buddy_inv b' fls'" and s: "same_region b b'" by (auto simp: allocated_def)
    have "allocated order pa b (fls_of b) b' (fls_of b')"
      using 2(5) buddy_inv_fls_of [OF i] free_set_eq [OF i]
      by (auto simp: allocated_def free_set_def same_region_cong [OF s])
    moreover have "buddy_ok b'"
      using buddy_inv_fls_of [OF i] s \<open>buddy_inited b\<close> by (simp add: buddy_ok_def same_region_def)
    ultimately show ?case
      using 2 fls_of_eq [OF i assms(2)] unfolding eq by auto
  qed
qed

lemma blk_nonzero: "blk b k pa \<Longrightarrow> pa \<noteq> 0" by (simp add: blk_def)

text \<open>What the page tables and the heap rely on: a frame that is handed out was available, is not
  available any more, and is page aligned and non-zero.\<close>

locale frame_source =
  fixes inv :: "'s \<Rightarrow> bool"
    and avail :: "'s \<Rightarrow> nat set"
    and alloc :: "'s \<Rightarrow> (nat option \<times> 's) halting"
  assumes alloc_ok: "inv s \<Longrightarrow> \<exists>r s'. alloc s = Inr (r, s') \<and> inv s' \<and>
      (case r of None \<Rightarrow> s' = s \<and> avail s = {} | Some pa \<Rightarrow> pa \<in> avail s \<and> avail s' = avail s - {pa})"
    and avail_aligned: "inv s \<Longrightarrow> pa \<in> avail s \<Longrightarrow> pa mod PAGE_SIZE = 0 \<and> 0 < pa"
begin

lemma alloc_SomeD:
  assumes "inv s" "alloc s = Inr (Some pa, s')"
  shows "inv s'" "pa \<in> avail s" "avail s' = avail s - {pa}" "pa mod PAGE_SIZE = 0" "0 < pa"
  using alloc_ok [OF assms(1)] avail_aligned [OF assms(1), of pa] assms(2) by auto

lemma alloc_NoneD:
  assumes "inv s" "alloc s = Inr (None, s')"
  shows "s' = s" "avail s = {}"
  using alloc_ok [OF assms(1)] assms(2) by auto

lemma alloc_never_halts: "inv s \<Longrightarrow> alloc s \<noteq> Inl e"
  using alloc_ok [of s] by auto

text \<open>Two frames handed out in sequence differ.\<close>

lemma alloc_twice:
  assumes "inv s" "alloc s = Inr (Some p, s1)" "alloc s1 = Inr (Some q, s2)"
  shows "p \<noteq> q"
  using alloc_SomeD [OF assms(1,2)] alloc_SomeD(2) [OF _ assms(3)] by auto

end

definition free_frames :: "buddy \<Rightarrow> nat set" where
  "free_frames b = (\<lambda>p. region_start b + p * PAGE_SIZE) ` free_set b"

lemma free_set_empty: "buddy_ok b \<Longrightarrow> (\<forall>k. k \<le> MAX_ORDER \<longrightarrow> fls_of b k = []) \<Longrightarrow> free_set b = {}"
  by (auto simp: free_set_def free_pages_def)

lemma alloc_frame_cases:
  assumes "buddy_ok b"
  shows "\<exists>r b'. alloc_frame b = Done (r, b') \<and> buddy_ok b' \<and> same_region b b' \<and>
    (case r of None \<Rightarrow> b' = b \<and> free_frames b = {}
     | Some pa \<Rightarrow> blk b 0 pa \<and> pa \<in> free_frames b \<and> free_frames b' = free_frames b - {pa})"
  using alloc_order_cases [OF assms le0]
proof (elim disjE exE conjE, goal_cases)
  case 1
  then have "free_frames b = {}" using free_set_empty [OF assms] by (simp add: free_frames_def)
  with 1 assms show ?case by (simp add: alloc_frame_def)
next
  case (2 k pa b')
  then have bk: "blk b 0 pa" and s: "same_region b b'" and sub: "pages_of b 0 pa \<subseteq> free_set b"
    and diff: "free_set b' = free_set b - pages_of b 0 pa"
    by (auto simp: allocated_def free_set_def same_region_cong)
  have pa: "pa = region_start b + page_index pa b * PAGE_SIZE" using bk by (simp add: blk_iff_index)
  have pg: "pages_of b 0 pa = {page_index pa b}" by (auto simp: pages_of_def)
  have inj: "inj (\<lambda>p. region_start b + p * PAGE_SIZE)" by (simp add: inj_def PAGE_SIZE_def)
  have "free_frames b' = free_frames b - (\<lambda>p. region_start b + p * PAGE_SIZE) ` pages_of b 0 pa"
    using diff s by (simp add: free_frames_def image_set_diff [OF inj] same_region_def)
  then have "free_frames b' = free_frames b - {pa}" using pg pa by simp
  moreover have "pa \<in> free_frames b" using sub pg pa unfolding free_frames_def by blast
  ultimately show ?case using 2 bk s blk_nonzero [OF bk] by (auto simp: alloc_frame_def)
qed

lemma free_frames_aligned:
  assumes "buddy_ok b" "region_start b mod PAGE_SIZE = 0" "pa \<in> free_frames b"
  shows "pa mod PAGE_SIZE = 0 \<and> 0 < pa"
  using assms by (auto simp: free_frames_def buddy_ok_def buddy_inv_def geometry_def)

interpretation buddyf: frame_source "\<lambda>b. buddy_ok b \<and> region_start b mod PAGE_SIZE = 0" free_frames alloc_frame
proof (unfold_locales, goal_cases)
  case (1 s)
  from alloc_frame_cases [of s] 1 obtain r b' where "alloc_frame s = Done (r, b')" "buddy_ok b'" "same_region s b'"
    "case r of None \<Rightarrow> b' = s \<and> free_frames s = {}
     | Some pa \<Rightarrow> blk s 0 pa \<and> pa \<in> free_frames s \<and> free_frames b' = free_frames s - {pa}" by blast
  with 1 show ?case by (auto simp: same_region_def split: option.splits)
next
  case (2 s pa)
  then show ?case using free_frames_aligned [of s pa] by simp
qed

section \<open>Properties\<close>

text \<open>The default region, once initialised.\<close>

definition booted :: buddy where
  "booted = (case bind_halt (buddy_init buddy_boot) (build_initial_freelist 1 0 2) of
     Inr b \<Rightarrow> b | Inl e \<Rightarrow> buddy_boot)"

lemma max_order_default: "max_order_loop 2048 0 = 11"
  by (simp add: max_order_loop.simps MAX_ORDER_def)

lemma booted_inv:
  "buddy_inited booted" "buddy_inv booted ((\<lambda>_. [])(11 := [FRAME_REGION_BASE]))"
  "region_start booted = FRAME_REGION_BASE" "region_pages booted = FRAME_REGION_PAGES"
proof -
  have r: "boot_region FRAME_REGION_BASE FRAME_REGION_PAGES"
    by (simp add: boot_region_def FRAME_REGION_BASE_def FRAME_REGION_PAGES_def MAX_REGION_PAGES_def
        MAX_ORDER_def PAGE_SIZE_def)
  from buddy_start_inv [OF r, of 0 1 2] obtain b1 b2 where b:
    "init_with_region FRAME_REGION_BASE FRAME_REGION_PAGES buddy_boot = Done b1"
    "build_initial_freelist 1 0 2 b1 = Done b2" "buddy_inited b2"
    "buddy_inv b2 ((\<lambda>_. [])(max_order_loop FRAME_REGION_PAGES 0 := [FRAME_REGION_BASE]))"
    "region_start b2 = FRAME_REGION_BASE" "region_pages b2 = FRAME_REGION_PAGES" by auto
  then have "booted = b2" by (simp add: booted_def buddy_init_def)
  with b show "buddy_inited booted" "buddy_inv booted ((\<lambda>_. [])(11 := [FRAME_REGION_BASE]))"
    "region_start booted = FRAME_REGION_BASE" "region_pages booted = FRAME_REGION_PAGES"
    by (simp_all add: FRAME_REGION_PAGES_def max_order_default)
qed

lemma booted_ok: "buddy_ok booted" and booted_fls: "k \<le> MAX_ORDER \<Longrightarrow> fls_of booted k = (if k = 11 then [FRAME_REGION_BASE] else [])"
  using booted_inv buddy_inv_fls_of fls_of_eq by (auto simp: buddy_ok_def)

text \<open>initialising the allocator with a page-aligned, non-zero region that does not reach the end
  of the address space establishes the invariant, with one free block at the region's start and
  no page in use.\<close>

theorem buddy_start:
  assumes "boot_region start pages" "stack_bottom \<le> rsp" "rsp \<le> stack_top"
  shows "\<exists>b1 b2. init_with_region start pages buddy_boot = Done b1 \<and>
    build_initial_freelist rsp stack_bottom stack_top b1 = Done b2 \<and> buddy_ok b2 \<and>
    free_set b2 = {0..<2 ^ max_order_loop pages 0} \<and>
    (\<forall>p. p < MAX_REGION_PAGES \<longrightarrow> \<not> bitmap_test p b2)"
proof -
  let ?k = "max_order_loop pages 0"
  from buddy_start_inv [OF assms] obtain b1 b2 where b: "init_with_region start pages buddy_boot = Done b1"
    "build_initial_freelist rsp stack_bottom stack_top b1 = Done b2" "buddy_inited b2"
    "buddy_inv b2 ((\<lambda>_. [])(?k := [start]))" "region_start b2 = start"
    "\<forall>p. p < MAX_REGION_PAGES \<longrightarrow> \<not> bitmap_test p b2" by blast
  have "?k \<le> MAX_ORDER"
    using max_order_loop_bounds [of 0 pages] assms(1) by (simp add: boot_region_def)
  then have "free_set b2 = pages_of b2 ?k start"
    using free_set_eq [OF b(4)] free_pages_push [of ?k b2 "\<lambda>_. []" start] by (simp add: free_pages_def)
  moreover have "page_index start b2 = 0" using b(5) by (simp add: page_index_def)
  ultimately have "free_set b2 = {0..<2 ^ ?k}" by (simp add: pages_of_def)
  with b show ?thesis using buddy_inv_fls_of [OF b(4)] by (simp add: buddy_ok_def)
qed

theorem buddy_start_witness:
  "boot_region 0x200000 2048 \<and> (\<exists>b1 b2. init_with_region 0x200000 2048 buddy_boot = Done b1 \<and>
     build_initial_freelist 5 0 9 b1 = Done b2 \<and> free_set b2 = {0..<2048})"
proof -
  have r: "boot_region 0x200000 2048"
    by (simp add: boot_region_def MAX_REGION_PAGES_def MAX_ORDER_def PAGE_SIZE_def)
  with buddy_start [OF r, of 0 5 9] show ?thesis by (auto simp: max_order_default)
qed

text \<open>C8: allocation is safe and complete: it never halts, it reports 0 (and changes nothing) exactly
  when no free block of the order or a larger one exists, and otherwise returns an aligned block of
  the region all of whose pages were free, takes exactly these pages from the free set and marks
  exactly them in the bitmap.\<close>

theorem alloc_order_fresh:
  assumes "buddy_ok b" "order \<le> MAX_ORDER"
  shows "\<exists>pa b'. alloc_order order b = Done (pa, b') \<and> buddy_ok b' \<and>
    (pa = 0 \<longleftrightarrow> (\<forall>k. order \<le> k \<and> k \<le> MAX_ORDER \<longrightarrow> fls_of b k = [])) \<and>
    (if pa = 0 then b' = b
     else blk b order pa \<and> pages_of b order pa \<subseteq> free_set b \<and>
       free_set b' = free_set b - pages_of b order pa \<and>
       (\<forall>p. bitmap_test p b' \<longleftrightarrow> p \<in> pages_of b order pa \<or> bitmap_test p b))"
  using alloc_order_cases [OF assms]
proof (elim disjE exE conjE, goal_cases)
  case 1
  then show ?case using assms(1) by simp
next
  case (2 k pa b')
  then have "pa \<noteq> 0" "fls_of b k \<noteq> []" by (auto simp: allocated_def blk_def)
  with 2 show ?case by (auto simp: allocated_def free_set_def same_region_cong)
qed

theorem alloc_order_fresh_witness:
  "buddy_ok booted \<and> (\<exists>pa b'. alloc_order 3 booted = Done (pa, b') \<and> pa \<noteq> 0 \<and>
     free_set b' = free_set booted - pages_of booted 3 pa)"
proof -
  have "\<not> (\<forall>k. 3 \<le> k \<and> k \<le> MAX_ORDER \<longrightarrow> fls_of booted k = [])"
    using booted_fls [of 11] by (auto simp: MAX_ORDER_def intro!: exI [of _ 11])
  with alloc_order_fresh [OF booted_ok, of 3] booted_ok show ?thesis by (auto simp: MAX_ORDER_def)
qed

text \<open>releasing a block whose buddy is not on the free list succeeds and gives back exactly the
  pages of the block: the free set grows by them and their bits are cleared.\<close>

theorem free_order_returns_pages:
  assumes "buddy_ok b" "blk b k pa" "\<forall>p \<in> pages_of b k pa. bitmap_test p b"
    "buddy_of pa k b \<notin> set (fls_of b k)"
  shows "\<exists>b'. free_order pa k b = Some (Done b') \<and> buddy_ok b' \<and> free_set b' = free_set b \<union> pages_of b k pa \<and>
    (\<forall>p. bitmap_test p b' \<longleftrightarrow> p \<notin> pages_of b k pa \<and> bitmap_test p b)"
proof -
  have inv: "buddy_inv b (fls_of b)" and i: "buddy_inited b" and k: "k \<le> MAX_ORDER"
    using assms(1,2) by (auto simp: buddy_ok_def blk_def)
  from free_order_buddy_used [OF inv assms(2-4)] obtain b' where b': "free_order pa k b = Some (Done b')"
    "buddy_inv b' ((fls_of b)(k := pa # fls_of b k))" "same_region b b'"
    "\<forall>p. bitmap_test p b' \<longleftrightarrow> p \<notin> pages_of b k pa \<and> bitmap_test p b" by blast
  have "free_set b' = free_set b \<union> pages_of b k pa"
    using free_set_eq [OF b'(2)]
    by (simp only: same_region_cong [OF b'(3)] free_pages_push [OF k] free_set_def)
  moreover have "buddy_ok b'"
    using buddy_inv_fls_of [OF b'(2)] b'(3) i by (simp add: buddy_ok_def same_region_def)
  ultimately show ?thesis using b' by blast
qed

lemma whole_region_taken:
  "\<exists>b'. alloc_order 11 booted = Done (FRAME_REGION_BASE, b') \<and> buddy_ok b' \<and> blk b' 11 FRAME_REGION_BASE \<and>
    (\<forall>p \<in> pages_of b' 11 FRAME_REGION_BASE. bitmap_test p b') \<and> fls_of b' 11 = [] \<and> free_set b' = {}"
proof -
  have "(11::nat) \<le> MAX_ORDER" by (simp add: MAX_ORDER_def)
  from alloc_found [OF booted_inv(2) this order_refl] obtain b' fls' where
    b': "alloc_loop 11 11 booted = Done (FRAME_REGION_BASE, b')"
    and al: "allocated 11 FRAME_REGION_BASE booted ((\<lambda>_. [])(11 := [FRAME_REGION_BASE])) b' fls'" by auto
  from al have i: "buddy_inv b' fls'" and s: "same_region booted b'" by (auto simp: allocated_def)
  have "free_pages booted ((\<lambda>_. [])(11 := [FRAME_REGION_BASE])) = pages_of booted 11 FRAME_REGION_BASE"
    using free_pages_push [OF \<open>11 \<le> MAX_ORDER\<close>, of booted "\<lambda>_. []" FRAME_REGION_BASE] by (simp add: free_pages_def)
  then have e: "free_set b' = {}"
    using al free_set_eq [OF i] by (simp add: allocated_def same_region_cong [OF s])
  moreover have "fls_of b' 11 = []"
  proof (rule ccontr)
    assume "fls_of b' 11 \<noteq> []"
    then obtain q where "q \<in> set (fls_of b' 11)" by (cases "fls_of b' 11") auto
    then have "page_index q b' \<in> free_set b'"
      using \<open>11 \<le> MAX_ORDER\<close> pages_nonempty [of q b' 11] unfolding free_set_def free_pages_def by blast
    with e show False by simp
  qed
  moreover have "buddy_ok b'"
    using buddy_inv_fls_of [OF i] booted_inv(1) s by (simp add: buddy_ok_def same_region_def)
  ultimately show ?thesis
    using b' al booted_inv(1) \<open>11 \<le> MAX_ORDER\<close>
    by (auto simp: alloc_order_def allocated_def same_region_cong [OF s])
qed

theorem free_order_returns_pages_witness:
  "\<exists>b1 b2. alloc_order 11 booted = Done (FRAME_REGION_BASE, b1) \<and>
     free_order FRAME_REGION_BASE 11 b1 = Some (Done b2) \<and> free_set b2 = pages_of b1 11 FRAME_REGION_BASE"
proof -
  obtain b1 where b1: "alloc_order 11 booted = Done (FRAME_REGION_BASE, b1)" "buddy_ok b1"
    "blk b1 11 FRAME_REGION_BASE" "\<forall>p \<in> pages_of b1 11 FRAME_REGION_BASE. bitmap_test p b1"
    "fls_of b1 11 = []" "free_set b1 = {}" using whole_region_taken by blast
  with free_order_returns_pages [OF b1(2-4)] show ?thesis by auto
qed

text \<open>coalescing stops the kernel. Whenever the buddy of a released block is free, the merge
  runs the double-free check a second time over pages it has just cleared and halts; so a block that
  was cut from a larger one cannot be given back right after its allocation.\<close>

theorem release_after_split_halts:
  assumes "buddy_ok b" "order < MAX_ORDER" "fls_of b order = []" "alloc_order order b = Done (pa, b')" "pa \<noteq> 0"
  shows "free_order pa order b' = Some (Halted ''buddy_double_free'')"
  using alloc_order_cases [OF assms(1) less_imp_le [OF assms(2)]]
proof (elim disjE exE conjE, goal_cases)
  case 1
  then show ?case using assms(4,5) by simp
next
  case (2 k q b2)
  then have eq: "q = pa" "b2 = b'" using assms(4) by auto
  have lt: "order < k" using 2(1,3) assms(3) by (cases "order = k") auto
  have al: "allocated order pa b (fls_of b) b' (fls_of b')" and nx: "pa + 2 ^ order * PAGE_SIZE \<in> set (fls_of b' order)"
    using 2 lt eq by auto
  have s: "same_region b b'" and inv': "buddy_inv b' (fls_of b')" using al by (auto simp: allocated_def)
  have geo: "geometry b" using assms(1) by (simp add: buddy_ok_def buddy_inv_def)
  have big: "blk b k pa" using 2(2,3) eq assms(1) by (auto simp: buddy_ok_def buddy_inv_def list_ok_def)
  then obtain i where i: "pa = region_start b + i * 2 ^ k * PAGE_SIZE" by (auto simp: blk_def)
  obtain d where d: "k = order + Suc d" using lt by (metis less_iff_Suc_add add_Suc_right)
  have idx: "pa = region_start b + (2 * (i * 2 ^ d)) * (2 ^ order * PAGE_SIZE)"
    using i d by (simp add: power_add)
  have "0 < 2 ^ order * PAGE_SIZE" by simp
  have "blk b order (pa + 2 ^ order * PAGE_SIZE)"
    using nx inv' assms(2) unfolding buddy_inv_def list_ok_def same_region_cong [OF s] by auto
  note bd = blk_bounds(3) [OF geo this]
  have "(pa - region_start b) div (2 ^ order * PAGE_SIZE) = 2 * (i * 2 ^ d)"
    unfolding idx using \<open>0 < 2 ^ order * PAGE_SIZE\<close> by simp
  moreover have "(2 * (i * 2 ^ d)) XOR 1 = 2 * (i * 2 ^ d) + (1 :: nat)" by (simp add: xor_Suc_0_eq)
  ultimately have "buddy_of pa order b' = wadd (region_start b) (wmul (2 * (i * 2 ^ d) + 1) (2 ^ order * PAGE_SIZE))"
    using s idx by (simp add: buddy_of_def Let_def same_region_def)
  moreover have fit: "region_start b + (2 * (i * 2 ^ d) + 1) * (2 ^ order * PAGE_SIZE) = pa + 2 ^ order * PAGE_SIZE"
    using idx by (simp add: add_mult_distrib)
  moreover define n where "n = (2 * (i * 2 ^ d) + 1) * (2 ^ order * PAGE_SIZE)"
  ultimately have "buddy_of pa order b' = wadd (region_start b) (n mod 2 ^ 64)"
    "region_start b + n = pa + 2 ^ order * PAGE_SIZE" by (simp_all only: wmul_def)
  moreover have "region_start b + n < 2 ^ 64" using bd calculation(2) by linarith
  ultimately have "buddy_of pa order b' = pa + 2 ^ order * PAGE_SIZE" by (simp add: wadd_def)
  with nx al show ?case
    using inv' assms(2)
    by (intro free_order_buddy_free) (auto simp: allocated_def same_region_cong [OF s])
qed

theorem release_after_split_halts_witness:
  "\<exists>pa b'. alloc_order 0 booted = Done (pa, b') \<and> free_frame pa b' = Some (Halted ''buddy_double_free'')"
proof -
  have "fls_of booted 0 = []" using booted_fls [of 0] by simp
  moreover obtain pa b' where "alloc_order 0 booted = Done (pa, b')" "pa \<noteq> 0"
    using alloc_order_cases [OF booted_ok le0] booted_fls [of 11]
    by (auto simp: MAX_ORDER_def allocated_def blk_def)
  ultimately show ?thesis
    using release_after_split_halts [OF booted_ok, of 0 pa b'] by (auto simp: free_frame_def MAX_ORDER_def)
qed

end
