(* ===== verification/Memmap.thy ===== *)
theory Memmap
  imports Buddy
begin

text \<open>
  Where the page allocator gets its region from: the UEFI memory map
  (\<open>kernel/memory/physical/memmap.rs\<close>), \<open>init_from_bootinfo\<close> of \<open>frame_allocator.rs\<close> and the region
  type of \<open>region.rs\<close>. Physical memory is a function from addresses to bytes; a descriptor is read
  from it at the offsets the source uses.
\<close>

section \<open>Regions\<close>

record phys_region =
  pr_start :: nat
  pr_length :: nat

definition frame_region :: phys_region where
  "frame_region = \<lparr>pr_start = FRAME_REGION_BASE, pr_length = FRAME_REGION_PAGES * PAGE_SIZE\<rparr>"

definition pr_end :: "phys_region \<Rightarrow> nat" where
  "pr_end r = wadd (pr_start r) (pr_length r)"

definition pr_is_aligned :: "phys_region \<Rightarrow> bool" where
  "pr_is_aligned r \<longleftrightarrow> pr_start r mod PAGE_SIZE = 0 \<and> pr_length r mod PAGE_SIZE = 0"

text \<open>\<open>None\<close> is a failed assertion.\<close>

definition pr_page_index :: "phys_region \<Rightarrow> nat \<Rightarrow> nat option" where
  "pr_page_index r pa =
     (if \<not> (pa \<ge> pr_start r \<and> pa < pr_end r) then None
      else if (pa - pr_start r) mod PAGE_SIZE \<noteq> 0 then None
      else Some ((pa - pr_start r) div PAGE_SIZE))"

definition pr_index_to_address :: "phys_region \<Rightarrow> nat \<Rightarrow> nat" where
  "pr_index_to_address r idx = wadd (pr_start r) (wmul idx PAGE_SIZE)"

lemma pr_index_roundtrip:
  assumes "pr_start r + pr_length r < 2 ^ 64" "pr_page_index r pa = Some i"
  shows "pr_index_to_address r i = pa" "i * PAGE_SIZE < pr_length r"
proof -
  have e: "pr_end r = pr_start r + pr_length r" using assms(1) by (simp add: pr_end_def wadd_nowrap)
  with assms(2) have pa: "pr_start r \<le> pa" "pa < pr_start r + pr_length r"
    "i = (pa - pr_start r) div PAGE_SIZE" "(pa - pr_start r) mod PAGE_SIZE = 0"
    by (auto simp: pr_page_index_def split: if_splits)
  then have i: "i * PAGE_SIZE = pa - pr_start r" by (metis add.right_neutral div_mult_mod_eq)
  then show "i * PAGE_SIZE < pr_length r" using pa by linarith
  have "pr_start r + i * PAGE_SIZE = pa" using i pa(1) by simp
  then show "pr_index_to_address r i = pa"
    using assms(1) pa i by (simp add: pr_index_to_address_def wadd_def wmul_def)
qed

section \<open>The memory map\<close>

definition EFI_CONVENTIONAL_MEMORY :: nat where "EFI_CONVENTIONAL_MEMORY = 7"
definition MEMORY_DESCRIPTOR_SIZE :: nat where "MEMORY_DESCRIPTOR_SIZE = 40"
definition MIN_BASE :: nat where "MIN_BASE = 2 * 1024 * 1024"

record reserved_region =
  rr_start :: nat
  rr_len :: nat

definition overlaps :: "nat \<Rightarrow> nat \<Rightarrow> nat \<Rightarrow> nat \<Rightarrow> bool" where
  "overlaps start len r_start r_len =
     (let end = sadd start len; r_end = sadd r_start r_len in start < r_end \<and> r_start < end)"

definition page_round_up :: "nat \<Rightarrow> nat" where
  "page_round_up n = wadd n (PAGE_SIZE - 1) div PAGE_SIZE * PAGE_SIZE"

definition reserved_from_bootinfo :: "nat \<Rightarrow> nat \<Rightarrow> nat \<Rightarrow> nat \<Rightarrow> nat \<Rightarrow> nat \<Rightarrow> reserved_region list" where
  "reserved_from_bootinfo fb_base fb_size mem_map_paddr mem_map_size nvme_bar rsdp_addr =
     [\<lparr>rr_start = 0, rr_len = 16 * 1024 * 1024\<rparr>,
      \<lparr>rr_start = 0x8000, rr_len = PAGE_SIZE\<rparr>,
      \<lparr>rr_start = fb_base, rr_len = page_round_up fb_size\<rparr>,
      \<lparr>rr_start = mem_map_paddr, rr_len = page_round_up mem_map_size\<rparr>,
      \<lparr>rr_start = nvme_bar, rr_len = if nvme_bar \<noteq> 0 then PAGE_SIZE else 0\<rparr>,
      \<lparr>rr_start = rsdp_addr, rr_len = if rsdp_addr \<noteq> 0 then PAGE_SIZE else 0\<rparr>,
      \<lparr>rr_start = 0, rr_len = 0\<rparr>,
      \<lparr>rr_start = 0, rr_len = 0\<rparr>]"

text \<open>One descriptor: its type, physical start and page count.\<close>

definition read_desc :: "(nat \<Rightarrow> u8) \<Rightarrow> nat \<Rightarrow> nat \<times> nat \<times> nat" where
  "read_desc mem p = (le_bytes 4 mem p, le_bytes 8 mem (p + 8), le_bytes 8 mem (p + 24))"

text \<open>The conditions under which the loop does not \<open>continue\<close> with the next descriptor.\<close>

definition usable_desc :: "reserved_region list \<Rightarrow> nat \<times> nat \<times> nat \<Rightarrow> bool" where
  "usable_desc reserved d = (case d of (ty, phys_start, page_count) \<Rightarrow>
     ty = EFI_CONVENTIONAL_MEMORY \<and> \<not> (phys_start < MIN_BASE \<or> page_count = 0) \<and>
     \<not> list_ex (\<lambda>r. rr_len r \<noteq> 0 \<and> overlaps phys_start (smul page_count PAGE_SIZE) (rr_start r) (rr_len r)) reserved)"

fun choose_loop :: "(nat \<Rightarrow> u8) \<Rightarrow> nat \<Rightarrow> nat \<Rightarrow> reserved_region list \<Rightarrow> nat list \<Rightarrow> nat \<times> nat
    \<Rightarrow> (nat \<times> nat) option" where
  "choose_loop mem paddr desc_size reserved [] best = Some best"
| "choose_loop mem paddr desc_size reserved (i # is) best =
     (if i * desc_size \<ge> 2 ^ 64 then None
      else if paddr + i * desc_size \<ge> 2 ^ 64 then None
      else let d = read_desc mem (paddr + i * desc_size)
           in choose_loop mem paddr desc_size reserved is
                (if usable_desc reserved d \<and> snd (snd d) > snd best then (fst (snd d), snd (snd d)) else best))"

definition choose_conventional_region :: "(nat \<Rightarrow> u8) \<Rightarrow> nat \<Rightarrow> nat \<Rightarrow> nat \<Rightarrow> reserved_region list
    \<Rightarrow> (nat \<times> nat) option" where
  "choose_conventional_region mem paddr map_size desc_size reserved =
     (if desc_size < MEMORY_DESCRIPTOR_SIZE then None
      else case choose_loop mem paddr desc_size reserved [0..<map_size div desc_size] (0, 0) of
             None \<Rightarrow> None
           | Some (best_start, best_pages) \<Rightarrow>
               if best_pages = 0 then None else Some (best_start, best_pages))"

record boot_info =
  bi_fb_base :: nat
  bi_fb_size :: nat
  bi_mem_map_valid :: nat
  bi_mem_map_paddr :: nat
  bi_mem_map_size :: nat
  bi_mem_desc_size :: nat
  bi_nvme_bar :: nat
  bi_rsdp_addr :: nat

definition reserved_of :: "boot_info \<Rightarrow> reserved_region list" where
  "reserved_of bi = reserved_from_bootinfo (bi_fb_base bi) (bi_fb_size bi) (bi_mem_map_paddr bi)
     (bi_mem_map_size bi) (bi_nvme_bar bi) (bi_rsdp_addr bi)"

definition init_from_bootinfo :: "(nat \<Rightarrow> u8) \<Rightarrow> boot_info \<Rightarrow> buddy \<Rightarrow> (bool \<times> buddy) halting" where
  "init_from_bootinfo mem bi b =
     (if bi_mem_map_valid bi \<noteq> 0xC0DEF00D then Done (False, b)
      else case choose_conventional_region mem (bi_mem_map_paddr bi) (bi_mem_map_size bi)
                  (bi_mem_desc_size bi) (reserved_of bi) of
             None \<Rightarrow> Done (False, b)
           | Some (start, pages) \<Rightarrow>
               bind_halt (init_with_region start (min pages MAX_REGION_PAGES) b) (\<lambda>b1. Done (True, b1)))"

section \<open>The choice\<close>

definition desc_at :: "(nat \<Rightarrow> u8) \<Rightarrow> nat \<Rightarrow> nat \<Rightarrow> nat \<Rightarrow> nat \<times> nat \<times> nat" where
  "desc_at mem paddr desc_size i = read_desc mem (paddr + i * desc_size)"

lemma choose_loop_spec:
  assumes "choose_loop mem paddr ds reserved is best = Some (s, n)"
  shows "((s, n) = best \<or> (\<exists>i \<in> set is. usable_desc reserved (desc_at mem paddr ds i) \<and>
      snd (desc_at mem paddr ds i) = (s, n))) \<and> snd best \<le> n \<and>
    (\<forall>i \<in> set is. usable_desc reserved (desc_at mem paddr ds i) \<longrightarrow> snd (snd (desc_at mem paddr ds i)) \<le> n)"
  using assms
proof (induction "is" arbitrary: best)
  case Nil
  then show ?case by simp
next
  case (Cons i "is")
  let ?d = "desc_at mem paddr ds i"
  let ?best = "if usable_desc reserved ?d \<and> snd (snd ?d) > snd best then (fst (snd ?d), snd (snd ?d)) else best"
  from Cons.prems have "choose_loop mem paddr ds reserved is ?best = Some (s, n)"
    by (auto simp: Let_def desc_at_def split: if_splits)
  note IH = Cons.IH [OF this]
  show ?case
  proof (cases "usable_desc reserved ?d \<and> snd (snd ?d) > snd best")
    case True
    with IH show ?thesis by (auto simp: prod_eq_iff)
  next
    case False
    with IH show ?thesis by auto
  qed
qed

lemma overlaps_complete:
  assumes "a < u64_max" "a \<in> {s..<s + n}" "a \<in> {r..<r + m}"
  shows "overlaps s n r m"
  using assms by (auto simp: overlaps_def sadd_def Let_def)

section \<open>Properties\<close>

text \<open>the region the allocator is given is a range of conventional memory of the map: it starts at
  or above 2 MiB, has pages, shares no address with the framebuffer, the stored map, the NVMe
  registers, the ACPI table, the boot information or the low 16 MiB, and no other such range of the
  map is larger.\<close>

theorem chosen_region_is_safe:
  assumes "choose_conventional_region mem paddr map_size desc_size reserved = Some (start, pages)"
  shows "(\<exists>i < map_size div desc_size. desc_at mem paddr desc_size i = (EFI_CONVENTIONAL_MEMORY, start, pages)) \<and>
    MIN_BASE \<le> start \<and> 0 < pages \<and>
    (\<forall>r \<in> set reserved. \<forall>a < u64_max.
       \<not> (a \<in> {start..<start + smul pages PAGE_SIZE} \<and> a \<in> {rr_start r..<rr_start r + rr_len r})) \<and>
    (\<forall>i < map_size div desc_size. usable_desc reserved (desc_at mem paddr desc_size i) \<longrightarrow>
       snd (snd (desc_at mem paddr desc_size i)) \<le> pages)"
proof -
  from assms have l: "choose_loop mem paddr desc_size reserved [0..<map_size div desc_size] (0, 0) = Some (start, pages)"
    and pos: "0 < pages"
    by (auto simp: choose_conventional_region_def split: if_splits option.splits)
  note spec = choose_loop_spec [OF l]
  from spec pos obtain i where i: "i < map_size div desc_size"
    "usable_desc reserved (desc_at mem paddr desc_size i)" "snd (desc_at mem paddr desc_size i) = (start, pages)" by auto
  then have d: "desc_at mem paddr desc_size i = (EFI_CONVENTIONAL_MEMORY, start, pages)"
    by (auto simp: usable_desc_def prod_eq_iff split: prod.splits)
  from i(2) have base: "MIN_BASE \<le> start"
    and no: "\<forall>r \<in> set reserved. rr_len r \<noteq> 0 \<longrightarrow> \<not> overlaps start (smul pages PAGE_SIZE) (rr_start r) (rr_len r)"
    unfolding d by (auto simp: usable_desc_def list_ex_iff)
  have "\<not> (a \<in> {start..<start + smul pages PAGE_SIZE} \<and> a \<in> {rr_start r..<rr_start r + rr_len r})"
    if "r \<in> set reserved" "a < u64_max" for r a
  proof
    assume a: "a \<in> {start..<start + smul pages PAGE_SIZE} \<and> a \<in> {rr_start r..<rr_start r + rr_len r}"
    then have "rr_len r \<noteq> 0" by auto
    with no that overlaps_complete [OF that(2)] a show False by blast
  qed
  with spec i(1) d base pos show ?thesis by auto
qed

text \<open>A map of one descriptor: 16 pages of conventional memory at 32 MiB.\<close>

definition sample_map :: "nat \<Rightarrow> u8" where
  "sample_map a = (if a = 0x9000 then 7 else if a = 0x900B then 2 else if a = 0x9018 then 16 else 0)"

theorem chosen_region_is_safe_witness:
  "choose_conventional_region sample_map 0x9000 40 40 (reserved_from_bootinfo 0 0 0x9000 40 0 0)
     = Some (0x2000000, 16) \<and> MIN_BASE \<le> 0x2000000"
proof -
  have "read_desc sample_map 0x9000 = (7, 0x2000000, 16)"
    by (simp add: read_desc_def sample_map_def le_bytes_numeral)
  then have "choose_conventional_region sample_map 0x9000 40 40 (reserved_from_bootinfo 0 0 0x9000 40 0 0)
     = Some (0x2000000, 16)"
    by (simp add: choose_conventional_region_def MEMORY_DESCRIPTOR_SIZE_def usable_desc_def Let_def
        EFI_CONVENTIONAL_MEMORY_def MIN_BASE_def reserved_from_bootinfo_def overlaps_def sadd_def smul_def
        page_round_up_def wadd_def PAGE_SIZE_def u64_max_def)
  with chosen_region_is_safe [OF this] show ?thesis by simp
qed

end
