(* ===== verification/Paging.thy ===== *)
theory Paging
  imports Buddy
begin

text \<open>
  Four-level page tables: \<open>kernel/memory/paging/levels.rs\<close>, \<open>flags.rs\<close>, \<open>page_table.rs\<close>, \<open>tlb.rs\<close>
  and \<open>mapper.rs\<close>, with the operations of \<open>kernel/memory/virtual/mapping.rs\<close> that call them. Entries
  and addresses are 64-bit words. Physical memory, as far as it is read and written as page tables
  (which are identity mapped), is the map \<open>tabs\<close> from the address of a table and an index to an entry.
  A table pointer of the source is the address, 0 the null pointer. Serial tracing is left out; TLB
  flushes have no counterpart, since the walks of the model read the tables directly.
\<close>

section \<open>Addresses and entries\<close>

definition ENTRY_COUNT :: nat where "ENTRY_COUNT = 512"
definition PAGE_SIZE_4K :: u64 where "PAGE_SIZE_4K = 4096"
definition PAGE_SIZE_2MB :: u64 where "PAGE_SIZE_2MB = 0x200000"
definition PAGE_SIZE_1GB :: u64 where "PAGE_SIZE_1GB = 0x40000000"
definition FRAME_MASK :: u64 where "FRAME_MASK = 0x000FFFFFFFFFF000"
definition PDE_PS :: u64 where "PDE_PS = push_bit 7 1"
definition PDE_2MB_FRAME_MASK :: u64 where "PDE_2MB_FRAME_MASK = 0x000FFFFFFFFFE00000"
definition PDPTE_PS :: u64 where "PDPTE_PS = push_bit 7 1"
definition PDPTE_1GB_FRAME_MASK :: u64 where "PDPTE_1GB_FRAME_MASK = 0x000FFFFFC0000000"

definition pml4_index :: "u64 \<Rightarrow> nat" where "pml4_index va = unat (drop_bit 39 va AND 0x1FF)"
definition pdpt_index :: "u64 \<Rightarrow> nat" where "pdpt_index va = unat (drop_bit 30 va AND 0x1FF)"
definition pd_index :: "u64 \<Rightarrow> nat" where "pd_index va = unat (drop_bit 21 va AND 0x1FF)"
definition pt_index :: "u64 \<Rightarrow> nat" where "pt_index va = unat (drop_bit 12 va AND 0x1FF)"

definition page_align_down :: "u64 \<Rightarrow> u64" where "page_align_down va = va AND NOT (PAGE_SIZE_4K - 1)"
definition page_align_up :: "u64 \<Rightarrow> u64" where "page_align_up va = (va + PAGE_SIZE_4K - 1) AND NOT (PAGE_SIZE_4K - 1)"

datatype page_flag = Present | Writable | User | NoExec

fun flag_mask :: "page_flag \<Rightarrow> u64" where
  "flag_mask Present = push_bit 0 1"
| "flag_mask Writable = push_bit 1 1"
| "flag_mask User = push_bit 2 1"
| "flag_mask NoExec = push_bit 63 1"

declare flag_mask.simps [simp del]

definition VALID_MASK :: u64 where
  "VALID_MASK = push_bit 0 1 OR push_bit 1 1 OR push_bit 2 1 OR push_bit 63 1"

definition flags_with :: "u64 \<Rightarrow> page_flag \<Rightarrow> u64" where "flags_with fl f = fl OR flag_mask f"
definition flags_as_u64 :: "u64 \<Rightarrow> u64" where "flags_as_u64 fl = fl AND VALID_MASK"
definition flags_contains :: "u64 \<Rightarrow> page_flag \<Rightarrow> bool" where "flags_contains fl f \<longleftrightarrow> fl AND flag_mask f \<noteq> 0"

definition kernel_rw :: u64 where "kernel_rw = flags_with (flags_with 0 Present) Writable"
definition user_rw :: u64 where "user_rw = flags_with (flags_with (flags_with 0 Present) Writable) User"
definition user_rx :: u64 where "user_rx = flags_with (flags_with 0 Present) User"
definition user_ro :: u64 where "user_ro = flags_with (flags_with (flags_with 0 Present) User) NoExec"

definition encode_entry :: "u64 \<Rightarrow> u64 \<Rightarrow> u64" where
  "encode_entry pa fl = (pa AND FRAME_MASK) OR flags_as_u64 fl"

definition decode_entry :: "u64 \<Rightarrow> (u64 \<times> u64) option" where
  "decode_entry e = (if e AND 1 = 0 then None else Some (e AND FRAME_MASK, e AND 0xFFF))"

abbreviation present :: "u64 \<Rightarrow> bool" where "present e \<equiv> e AND flag_mask Present \<noteq> 0"
abbreviation user :: "u64 \<Rightarrow> bool" where "user e \<equiv> e AND flag_mask User \<noteq> 0"
abbreviation huge :: "u64 \<Rightarrow> bool" where "huge e \<equiv> e AND PDE_PS \<noteq> 0"

section \<open>State\<close>

definition PT_POOL_PAGES :: nat where "PT_POOL_PAGES = 512"

record mmu =
  tabs :: "u64 \<Rightarrow> nat \<Rightarrow> u64"
  pt_pool_base :: u64
  pt_pool_next :: nat
  kernel_cr3 :: u64
  cpu_cr3 :: u64
  pcid_next :: u16

definition tget :: "u64 \<Rightarrow> nat \<Rightarrow> mmu \<Rightarrow> u64" where
  "tget t i m = tabs m t i"

definition tset :: "u64 \<Rightarrow> nat \<Rightarrow> u64 \<Rightarrow> mmu \<Rightarrow> mmu" where
  "tset t i e m = m\<lparr>tabs := (tabs m)(t := (tabs m t)(i := e))\<rparr>"

text \<open>\<open>write_bytes\<close> and \<open>copy_nonoverlapping\<close> of a whole table.\<close>

definition tfill :: "u64 \<Rightarrow> (nat \<Rightarrow> u64) \<Rightarrow> mmu \<Rightarrow> mmu" where
  "tfill t f m = m\<lparr>tabs := (tabs m)(t := f)\<rparr>"

definition alloc_table_page :: "mmu \<Rightarrow> u64 option \<times> mmu" where
  "alloc_table_page m =
     (if pt_pool_next m \<ge> PT_POOL_PAGES then (None, m)
      else (Some (pt_pool_base m + of_nat (pt_pool_next m) * PAGE_SIZE_4K),
            m\<lparr>pt_pool_next := pt_pool_next m + 1\<rparr>))"

abbreviation table_flags :: u64 where
  "table_flags \<equiv> flags_with (flags_with (flags_with 0 Present) Writable) User"

text \<open>Taking a table from the pool, filling it with \<open>f\<close> and linking it at \<open>(t, i)\<close>.\<close>

definition link_filled :: "u64 \<Rightarrow> nat \<Rightarrow> (nat \<Rightarrow> u64) \<Rightarrow> mmu \<Rightarrow> u64 \<times> mmu" where
  "link_filled t i f m = (case alloc_table_page m of
     (None, m1) \<Rightarrow> (0, m1)
   | (Some c, m1) \<Rightarrow> (c, tset t i (encode_entry c table_flags) (tfill c f m1)))"

definition make_user :: "u64 \<Rightarrow> nat \<Rightarrow> u64 \<Rightarrow> mmu \<Rightarrow> mmu" where
  "make_user parent idx e m =
     (if e AND flag_mask User = 0 then tset parent idx (e OR flag_mask User) m else m)"

definition get_or_alloc_child :: "u64 \<Rightarrow> nat \<Rightarrow> mmu \<Rightarrow> u64 \<times> mmu" where
  "get_or_alloc_child parent idx m =
     (let e = tget parent idx m
      in if e AND flag_mask Present \<noteq> 0 then (e AND FRAME_MASK, make_user parent idx e m)
         else link_filled parent idx (\<lambda>_. 0) m)"

text \<open>The 2 MiB entries a 1 GiB page is split into.\<close>

definition split_1gb :: "u64 \<Rightarrow> nat \<Rightarrow> u64" where
  "split_1gb e j = (if j < ENTRY_COUNT
     then (((e AND PDPTE_1GB_FRAME_MASK) + of_nat j * PAGE_SIZE_2MB) AND PDE_2MB_FRAME_MASK) OR
       ((e AND 0xFFF) OR PDE_PS OR flag_mask User) else 0)"

definition get_or_alloc_pd :: "u64 \<Rightarrow> nat \<Rightarrow> mmu \<Rightarrow> u64 \<times> mmu" where
  "get_or_alloc_pd pdpt idx m =
     (let e = tget pdpt idx m
      in if e AND flag_mask Present = 0 then link_filled pdpt idx (\<lambda>_. 0) m
         else if e AND PDPTE_PS = 0 then (e AND FRAME_MASK, make_user pdpt idx e m)
         else link_filled pdpt idx (split_1gb e) m)"

text \<open>The 4 KiB entries a 2 MiB page is split into.\<close>

definition split_2mb :: "u64 \<Rightarrow> nat \<Rightarrow> u64" where
  "split_2mb e j = (if j < ENTRY_COUNT
     then (((e AND PDE_2MB_FRAME_MASK) + of_nat j * PAGE_SIZE_4K) AND FRAME_MASK) OR
       ((e AND 0xFFF AND NOT PDE_PS) OR flag_mask User) else 0)"

definition get_or_alloc_pt :: "u64 \<Rightarrow> nat \<Rightarrow> mmu \<Rightarrow> u64 \<times> mmu" where
  "get_or_alloc_pt pd idx m =
     (let e = tget pd idx m
      in if e AND flag_mask Present = 0 then link_filled pd idx (\<lambda>_. 0) m
         else if e AND PDE_PS = 0 then (e AND FRAME_MASK, make_user pd idx e m)
         else link_filled pd idx (split_2mb e) m)"

section \<open>Mapping\<close>

text \<open>The propagation of the user bit after each level.\<close>

definition propagate_user :: "u64 \<Rightarrow> u64 \<Rightarrow> nat \<Rightarrow> mmu \<Rightarrow> mmu" where
  "propagate_user flags t idx m =
     (if flags AND flag_mask User \<noteq> 0 then tset t idx (tget t idx m OR flag_mask User) m else m)"

definition map_page_into_space :: "u64 \<Rightarrow> u64 \<Rightarrow> u64 \<Rightarrow> u64 \<Rightarrow> mmu \<Rightarrow> bool \<times> mmu" where
  "map_page_into_space cr3 va pa flags m =
     (let pml4 = cr3 AND FRAME_MASK;
          (pdpt, m1) = get_or_alloc_child pml4 (pml4_index va) m
      in if pdpt = 0 then (False, m1)
         else let m2 = propagate_user flags pml4 (pml4_index va) m1;
                  (pd, m3) = get_or_alloc_pd pdpt (pdpt_index va) m2
              in if pd = 0 then (False, m3)
                 else let m4 = propagate_user flags pdpt (pdpt_index va) m3;
                          (pt, m5) = get_or_alloc_pt pd (pd_index va) m4
                      in if pt = 0 then (False, m5)
                         else let m6 = propagate_user flags pd (pd_index va) m5;
                                  entry = (pa AND FRAME_MASK) OR (flags AND NOT FRAME_MASK)
                              in (True, tset pt (pt_index va) entry m6))"

definition map_page_2mb_into_space :: "u64 \<Rightarrow> u64 \<Rightarrow> u64 \<Rightarrow> u64 \<Rightarrow> mmu \<Rightarrow> bool \<times> mmu" where
  "map_page_2mb_into_space cr3 va pa flags m =
     (if va AND (PAGE_SIZE_2MB - 1) \<noteq> 0 \<or> pa AND (PAGE_SIZE_2MB - 1) \<noteq> 0 then (False, m)
      else let pml4 = cr3 AND FRAME_MASK;
               (pdpt, m1) = get_or_alloc_child pml4 (pml4_index va) m
           in if pdpt = 0 then (False, m1)
              else let (pd, m2) = get_or_alloc_pd pdpt (pdpt_index va) m1
                   in if pd = 0 then (False, m2)
                      else let e = tget pd (pd_index va) m2
                           in if e AND flag_mask Present \<noteq> 0 \<and> e AND PDE_PS = 0 then (False, m2)
                              else (True, tset pd (pd_index va)
                                      ((pa AND PDE_2MB_FRAME_MASK) OR (flags AND NOT FRAME_MASK) OR PDE_PS) m2))"

definition map_page_1gb_into_space :: "u64 \<Rightarrow> u64 \<Rightarrow> u64 \<Rightarrow> u64 \<Rightarrow> mmu \<Rightarrow> bool \<times> mmu" where
  "map_page_1gb_into_space cr3 va pa flags m =
     (if va AND (PAGE_SIZE_1GB - 1) \<noteq> 0 \<or> pa AND (PAGE_SIZE_1GB - 1) \<noteq> 0 then (False, m)
      else let pml4 = cr3 AND FRAME_MASK;
               (pdpt, m1) = get_or_alloc_child pml4 (pml4_index va) m
           in if pdpt = 0 then (False, m1)
              else let e = tget pdpt (pdpt_index va) m1
                   in if e AND flag_mask Present \<noteq> 0 \<and> e AND PDPTE_PS = 0 then (False, m1)
                      else (True, tset pdpt (pdpt_index va)
                              ((pa AND PDPTE_1GB_FRAME_MASK) OR (flags AND NOT FRAME_MASK) OR PDPTE_PS) m1))"

text \<open>One half of \<open>relocate_tables_outside_2mb\<close>: move the table \<open>t\<close>, linked at \<open>(parent, idx)\<close>, to a
  fresh page if it lies in the 2 MiB page at \<open>base_pa\<close>.\<close>

definition relocate_one :: "u64 \<Rightarrow> nat \<Rightarrow> u64 \<Rightarrow> u64 \<Rightarrow> mmu \<Rightarrow> u64 \<times> mmu" where
  "relocate_one parent idx t base_pa m =
     (if t \<ge> base_pa \<and> t < base_pa + PAGE_SIZE_2MB then
        (case alloc_table_page m of
           (None, m1) \<Rightarrow> (t, m1)
         | (Some new, m1) \<Rightarrow>
             (new, tset parent idx ((new AND FRAME_MASK) OR flags_as_u64 table_flags)
                     (tfill new (\<lambda>i. if i < ENTRY_COUNT then tget t i m1 else 0) m1)))
      else (t, m))"

definition relocate_tables_outside_2mb :: "u64 \<Rightarrow> u64 \<Rightarrow> u64 \<Rightarrow> u64 \<Rightarrow> u64 \<Rightarrow> mmu \<Rightarrow> (u64 \<times> u64) \<times> mmu" where
  "relocate_tables_outside_2mb pml4 pdpt pd va base_pa m =
     (let (pdpt1, m1) = relocate_one pml4 (pml4_index va) pdpt base_pa m;
          (pd1, m2) = relocate_one pdpt1 (pdpt_index va) pd base_pa m1
      in ((pdpt1, pd1), m2))"

definition map_page :: "u64 \<Rightarrow> u64 \<Rightarrow> u64 \<Rightarrow> mmu \<Rightarrow> bool \<times> mmu" where
  "map_page va pa flags m =
     (let pml4 = cpu_cr3 m AND FRAME_MASK;
          (pdpt, m1) = get_or_alloc_child pml4 (pml4_index va) m
      in if pdpt = 0 then (False, m1)
         else let (pd, m2) = get_or_alloc_pd pdpt (pdpt_index va) m1
              in if pd = 0 then (False, m2)
                 else let e = tget pd (pd_index va) m2;
                          (pd2, m3) =
                            (if e AND flag_mask Present \<noteq> 0 \<and> e AND PDE_PS \<noteq> 0
                             then let ((_, p), m') = relocate_tables_outside_2mb pml4 pdpt pd va
                                                      (e AND PDE_2MB_FRAME_MASK) m2 in (p, m')
                             else (pd, m2));
                          (pt, m4) = get_or_alloc_pt pd2 (pd_index va) m3
                      in if pt = 0 then (False, m4)
                         else (True, tset pt (pt_index va) ((pa AND FRAME_MASK) OR (flags AND NOT FRAME_MASK)) m4))"

definition map_page_in_space :: "u64 \<Rightarrow> u64 \<Rightarrow> u64 \<Rightarrow> u64 \<Rightarrow> mmu \<Rightarrow> bool \<times> mmu" where
  "map_page_in_space cr3 va pa flags m =
     (let current = cpu_cr3 m;
          (ok, m1) = map_page va pa flags (m\<lparr>cpu_cr3 := cr3\<rparr>)
      in (ok, m1\<lparr>cpu_cr3 := current\<rparr>))"

definition unmap_page_in_space :: "u64 \<Rightarrow> u64 \<Rightarrow> mmu \<Rightarrow> mmu" where
  "unmap_page_in_space cr3 va m =
     (let e4 = tget (cr3 AND FRAME_MASK) (pml4_index va) m
      in if e4 AND flag_mask Present = 0 then m
         else let e3 = tget (e4 AND FRAME_MASK) (pdpt_index va) m
              in if e3 AND flag_mask Present = 0 then m
                 else let e2 = tget (e3 AND FRAME_MASK) (pd_index va) m
                      in if e2 AND flag_mask Present = 0 then m
                         else tset (e2 AND FRAME_MASK) (pt_index va) 0 m)"

definition unmap_page :: "u64 \<Rightarrow> mmu \<Rightarrow> mmu" where
  "unmap_page va m = unmap_page_in_space (cpu_cr3 m) va m"

section \<open>Address spaces\<close>

definition new_address_space :: "mmu \<Rightarrow> u64 \<times> mmu" where
  "new_address_space m =
     (case alloc_table_page m of
        (Some pa, m1) \<Rightarrow> (pa, tfill pa (\<lambda>_. 0) m1)
      | (None, m1) \<Rightarrow> (0, m1))"

definition alloc_pcid :: "mmu \<Rightarrow> u16 \<times> mmu" where
  "alloc_pcid m =
     (pcid_next m, m\<lparr>pcid_next := if pcid_next m \<ge> 4094 then 1 else pcid_next m + 1\<rparr>)"

text \<open>Steps 2 and 3 of \<open>create_process_cr3\<close>; \<open>False\<close> is the early return of 0.\<close>

definition copy_low_pd :: "u64 \<Rightarrow> u64 \<Rightarrow> mmu \<Rightarrow> bool \<times> mmu" where
  "copy_low_pd kernel_pdpt new_pdpt m =
     (let kpdpt_e0 = tget kernel_pdpt 0 m
      in if kpdpt_e0 AND flag_mask Present \<noteq> 0 \<and> kpdpt_e0 AND PDPTE_PS = 0 then
           let kernel_pd = kpdpt_e0 AND FRAME_MASK
           in case alloc_table_page m of
                (None, m1) \<Rightarrow> (False, m1)
              | (Some new_pd, m1) \<Rightarrow>
                  (True, tset new_pdpt 0 ((new_pd AND FRAME_MASK) OR (kpdpt_e0 AND NOT FRAME_MASK))
                           (tset new_pd 5 0 (tfill new_pd (tabs m1 kernel_pd) m1)))
         else (True, m))"

definition copy_low_pdpt :: "u64 \<Rightarrow> u64 \<Rightarrow> mmu \<Rightarrow> bool \<times> mmu" where
  "copy_low_pdpt kernel_pml4 new_pml4 m =
     (let kpml4_e0 = tget kernel_pml4 0 m
      in if kpml4_e0 AND flag_mask Present \<noteq> 0 then
           let kernel_pdpt = kpml4_e0 AND FRAME_MASK
           in case alloc_table_page m of
                (None, m1) \<Rightarrow> (False, m1)
              | (Some new_pdpt, m1) \<Rightarrow>
                  copy_low_pd kernel_pdpt new_pdpt
                    (tset new_pml4 0 ((new_pdpt AND FRAME_MASK) OR (kpml4_e0 AND NOT FRAME_MASK))
                      (tfill new_pdpt (tabs m1 kernel_pdpt) m1))
         else (True, m))"

definition create_process_cr3 :: "mmu \<Rightarrow> u64 \<times> mmu" where
  "create_process_cr3 m =
     (if kernel_cr3 m = 0 then (cpu_cr3 m, m)
      else let kernel_pml4 = kernel_cr3 m AND FRAME_MASK
           in case alloc_table_page m of
                (None, m1) \<Rightarrow> (0, m1)
              | (Some new_pml4, m1) \<Rightarrow>
                  (case copy_low_pdpt kernel_pml4 new_pml4 (tfill new_pml4 (tabs m1 kernel_pml4) m1) of
                     (False, m2) \<Rightarrow> (0, m2)
                   | (True, m2) \<Rightarrow> (new_pml4, tset new_pml4 255 0 m2)))"

section \<open>Walks\<close>

definition walk_pte :: "u64 \<Rightarrow> u64 \<Rightarrow> mmu \<Rightarrow> u64 option" where
  "walk_pte cr3 va m =
     (let e4 = tget (cr3 AND FRAME_MASK) (pml4_index va) m
      in if e4 AND flag_mask Present = 0 then None
         else let e3 = tget (e4 AND FRAME_MASK) (pdpt_index va) m
              in if e3 AND flag_mask Present = 0 then None
                 else if e3 AND PDPTE_PS \<noteq> 0 then Some e3
                 else let e2 = tget (e3 AND FRAME_MASK) (pd_index va) m
                      in if e2 AND flag_mask Present = 0 then None
                         else if e2 AND PDE_PS \<noteq> 0 then Some e2
                         else let e1 = tget (e2 AND FRAME_MASK) (pt_index va) m
                              in if e1 AND flag_mask Present = 0 then None else Some e1)"

definition translate_in_space :: "u64 \<Rightarrow> u64 \<Rightarrow> mmu \<Rightarrow> u64 option" where
  "translate_in_space cr3 va m =
     (let e4 = tget (cr3 AND FRAME_MASK) (pml4_index va) m
      in if e4 AND flag_mask Present = 0 then None
         else let e3 = tget (e4 AND FRAME_MASK) (pdpt_index va) m
              in if e3 AND flag_mask Present = 0 then None
                 else if e3 AND PDPTE_PS \<noteq> 0 then Some ((e3 AND PDPTE_1GB_FRAME_MASK) + (va AND 0x3FFFFFFF))
                 else let e2 = tget (e3 AND FRAME_MASK) (pd_index va) m
                      in if e2 AND flag_mask Present = 0 then None
                         else if e2 AND PDE_PS \<noteq> 0 then Some ((e2 AND PDE_2MB_FRAME_MASK) + (va AND 0x1FFFFF))
                         else let e1 = tget (e2 AND FRAME_MASK) (pt_index va) m
                              in if e1 AND flag_mask Present = 0 then None
                                 else Some ((e1 AND FRAME_MASK) + (va AND 0xFFF)))"

definition translate :: "u64 \<Rightarrow> mmu \<Rightarrow> u64 option" where
  "translate va m = translate_in_space (cpu_cr3 m) va m"

section \<open>Bits of entries\<close>

lemma present_iff: "e AND flag_mask Present = 0 \<longleftrightarrow> \<not> bit e 0"
  using and_power2_eq_0_iff [of e 0] by (simp add: flag_mask.simps)

lemma user_iff: "e AND flag_mask User = 0 \<longleftrightarrow> \<not> bit e 2"
  using and_power2_eq_0_iff [of e 2] by (simp add: flag_mask.simps)

lemma huge_iff: "e AND PDE_PS = 0 \<longleftrightarrow> \<not> bit e 7" "e AND PDPTE_PS = 0 \<longleftrightarrow> \<not> bit e 7"
  using and_power2_eq_0_iff [of e 7] by (simp_all add: PDE_PS_def PDPTE_PS_def)

lemma FRAME_MASK_eq: "FRAME_MASK = push_bit 12 (mask 40)"
  by (simp add: FRAME_MASK_def mask_eq_exp_minus_1)

lemma PDE_2MB_FRAME_MASK_eq: "PDE_2MB_FRAME_MASK = push_bit 21 (mask 39)"
  by (simp add: PDE_2MB_FRAME_MASK_def mask_eq_exp_minus_1)

lemma PDPTE_1GB_FRAME_MASK_eq: "PDPTE_1GB_FRAME_MASK = push_bit 30 (mask 22)"
  by (simp add: PDPTE_1GB_FRAME_MASK_def mask_eq_exp_minus_1)

lemma bit_frame_masks [simp]:
  "bit FRAME_MASK n \<longleftrightarrow> 12 \<le> n \<and> n < 52"
  "bit PDE_2MB_FRAME_MASK n \<longleftrightarrow> 21 \<le> n \<and> n < 60"
  "bit PDPTE_1GB_FRAME_MASK n \<longleftrightarrow> 30 \<le> n \<and> n < 52"
  by (auto simp: FRAME_MASK_eq PDE_2MB_FRAME_MASK_eq PDPTE_1GB_FRAME_MASK_eq bit_push_bit_iff bit_mask_iff)

lemma low_masks:
  "(0x1FF :: u64) = mask 9" "(0xFFF :: u64) = mask 12" "(0x1FFFFF :: u64) = mask 21" "(0x3FFFFFFF :: u64) = mask 30"
  by (simp_all add: mask_eq_exp_minus_1)

lemma bit_table_flags: "bit (flags_as_u64 table_flags) n \<longleftrightarrow> n < 3"
proof -
  have "flags_as_u64 table_flags = mask 3"
    by (simp add: flags_as_u64_def flags_with_def flag_mask.simps VALID_MASK_def mask_eq_exp_minus_1)
  then show ?thesis by (auto simp: bit_mask_iff)
qed

lemma frame_of_entry:
  assumes "\<And>n. bit f n \<Longrightarrow> n < 12 \<or> 52 \<le> n"
  shows "((a AND FRAME_MASK) OR f) AND FRAME_MASK = a AND FRAME_MASK"
  by (rule bit_word_eqI) (use assms in \<open>force simp: bit_and_iff bit_or_iff\<close>)

text \<open>Page frames below \<open>2 ^ 52\<close>, by number.\<close>

definition frame_addr :: "nat \<Rightarrow> u64" where
  "frame_addr n = push_bit 12 (of_nat n)"

lemma bit_small_nat: "n < 2 ^ k \<Longrightarrow> bit (of_nat n :: u64) j \<Longrightarrow> j < k"
proof -
  assume "n < 2 ^ k" "bit (of_nat n :: u64) j"
  then have "bit n j" "take_bit k n = n" by (simp_all add: bit_of_nat_iff take_bit_nat_eq_self)
  then show "j < k" by (metis bit_take_bit_iff)
qed

lemma frame_addr_masked: "n < 2 ^ 40 \<Longrightarrow> frame_addr n AND FRAME_MASK = frame_addr n"
  using bit_small_nat [of n 40]
  by (intro bit_word_eqI) (force simp: frame_addr_def bit_and_iff bit_push_bit_iff)

lemma frame_addr_eq: "frame_addr n = of_nat (n * 4096)"
  by (simp add: frame_addr_def push_bit_eq_mult)

lemma frame_addr_unat: "n < 2 ^ 40 \<Longrightarrow> unat (frame_addr n) = n * 4096"
  unfolding frame_addr_eq by (simp add: unat_of_nat take_bit_nat_eq_self del: of_nat_mult)

lemma frame_addr_inject: "a < 2 ^ 40 \<Longrightarrow> b < 2 ^ 40 \<Longrightarrow> frame_addr a = frame_addr b \<longleftrightarrow> a = b"
  by (metis frame_addr_unat mult_right_cancel zero_neq_numeral)

lemma frame_addr_0_iff: "a < 2 ^ 40 \<Longrightarrow> frame_addr a = 0 \<longleftrightarrow> a = 0"
  using frame_addr_inject [of a 0] by (simp add: frame_addr_def)

section \<open>Walks by depth\<close>

text \<open>The indices a walk uses, from the PML4 down; \<open>tr d t va\<close> continues the walk at depth \<open>d\<close> in the
  table \<open>t\<close>.\<close>

definition path :: "u64 \<Rightarrow> nat list" where
  "path va = [pml4_index va, pdpt_index va, pd_index va, pt_index va]"

lemma length_path [simp]: "length (path va) = 4" by (simp add: path_def)

lemma index_bounds [simp]: "pml4_index va < 512" "pdpt_index va < 512" "pd_index va < 512" "pt_index va < 512"
proof -
  have "unat (w AND 0x1FF) < 512" for w :: u64
  proof -
    have "w AND 0x1FF \<le> 0x1FF" by (rule word_and_le1)
    then show ?thesis by (simp add: word_le_nat_alt)
  qed
  then show "pml4_index va < 512" "pdpt_index va < 512" "pd_index va < 512" "pt_index va < 512"
    by (simp_all add: pml4_index_def pdpt_index_def pd_index_def pt_index_def)
qed

function tr :: "nat \<Rightarrow> u64 \<Rightarrow> u64 \<Rightarrow> mmu \<Rightarrow> u64 option" where
  "tr d t va m =
     (let e = tabs m t (path va ! d)
      in if \<not> bit e 0 then None
         else if d \<ge> 3 then Some ((e AND FRAME_MASK) + (va AND 0xFFF))
         else if d = 2 \<and> bit e 7 then Some ((e AND PDE_2MB_FRAME_MASK) + (va AND 0x1FFFFF))
         else if d = 1 \<and> bit e 7 then Some ((e AND PDPTE_1GB_FRAME_MASK) + (va AND 0x3FFFFFFF))
         else tr (d + 1) (e AND FRAME_MASK) va m)"
  by pat_completeness auto
termination
  by (relation "measure (\<lambda>(d, t, va, m). 3 - d)") auto

declare tr.simps [simp del]

lemma tr_0: "tr 0 t va m = (let e = tabs m t (pml4_index va) in
    if \<not> bit e 0 then None else tr 1 (e AND FRAME_MASK) va m)"
  by (subst tr.simps) (simp add: path_def Let_def)

lemma tr_1: "tr 1 t va m = (let e = tabs m t (pdpt_index va) in
    if \<not> bit e 0 then None
    else if bit e 7 then Some ((e AND PDPTE_1GB_FRAME_MASK) + (va AND 0x3FFFFFFF))
    else tr 2 (e AND FRAME_MASK) va m)"
  by (subst tr.simps) (simp add: path_def Let_def numeral_2_eq_2)

lemma tr_2: "tr 2 t va m = (let e = tabs m t (pd_index va) in
    if \<not> bit e 0 then None
    else if bit e 7 then Some ((e AND PDE_2MB_FRAME_MASK) + (va AND 0x1FFFFF))
    else tr 3 (e AND FRAME_MASK) va m)"
  by (subst tr.simps) (simp add: path_def Let_def)

lemma tr_3: "tr 3 t va m = (let e = tabs m t (pt_index va) in
    if \<not> bit e 0 then None else Some ((e AND FRAME_MASK) + (va AND 0xFFF)))"
  by (subst tr.simps) (simp add: path_def Let_def)

lemmas tr_levels = tr_0 tr_1 tr_2 tr_3

lemma translate_eq_tr: "translate_in_space cr3 va m = tr 0 (cr3 AND FRAME_MASK) va m"
  unfolding translate_in_space_def tget_def present_iff huge_iff tr_levels Let_def by simp

section \<open>Typing of tables\<close>

text \<open>\<open>P t = Some p\<close> says that \<open>t\<close> is the table reached by the indices \<open>p\<close>. The tables may be shared
  between address spaces, but only at the same place. Entries that are present and not a leaf point
  to the table of the extended path; a leaf for a large page has a base below \<open>2 ^ 52\<close>; the pages of
  the pool that are still free are no tables.\<close>

definition pool_frame :: "mmu \<Rightarrow> nat \<Rightarrow> bool" where
  "pool_frame m n \<longleftrightarrow> pt_pool_base m = frame_addr n \<and> 0 < n \<and> n + PT_POOL_PAGES < 2 ^ 40"

definition is_leaf :: "nat \<Rightarrow> u64 \<Rightarrow> bool" where
  "is_leaf d e \<longleftrightarrow> d \<ge> 3 \<or> (d \<ge> 1 \<and> bit e 7)"

definition leaf_pa :: "nat \<Rightarrow> u64 \<Rightarrow> u64 \<Rightarrow> u64" where
  "leaf_pa d e va =
     (if d \<ge> 3 then (e AND FRAME_MASK) + (va AND 0xFFF)
      else if d = 2 then (e AND PDE_2MB_FRAME_MASK) + (va AND 0x1FFFFF)
      else (e AND PDPTE_1GB_FRAME_MASK) + (va AND 0x3FFFFFFF))"

lemma tr_step:
  "tr d t va m = (let e = tabs m t (path va ! d) in
     if \<not> bit e 0 then None else if is_leaf d e then Some (leaf_pa d e va)
     else tr (d + 1) (e AND FRAME_MASK) va m)"
proof -
  define e where "e = tabs m t (path va ! d)"
  have "is_leaf d e \<longleftrightarrow> d \<ge> 3 \<or> d = 2 \<and> bit e 7 \<or> d = 1 \<and> bit e 7" by (auto simp: is_leaf_def)
  then show ?thesis
    unfolding tr.simps [of d t va m] e_def [symmetric] Let_def by (auto simp: leaf_pa_def)
qed

definition entry_ok :: "(u64 \<rightharpoonup> nat list) \<Rightarrow> nat list \<Rightarrow> nat \<Rightarrow> u64 \<Rightarrow> bool" where
  "entry_ok P p i e \<longleftrightarrow> bit e 0 \<longrightarrow>
     (if is_leaf (length p) e then length p < 3 \<longrightarrow> (\<forall>n. 52 \<le> n \<and> n < 60 \<longrightarrow> \<not> bit e n)
      else P (e AND FRAME_MASK) = Some (p @ [i]))"

definition wt :: "mmu \<Rightarrow> (u64 \<rightharpoonup> nat list) \<Rightarrow> bool" where
  "wt m P \<longleftrightarrow> (\<exists>n. pool_frame m n) \<and>
     (\<forall>k. pt_pool_next m \<le> k \<and> k < PT_POOL_PAGES \<longrightarrow> P (pt_pool_base m + of_nat k * PAGE_SIZE_4K) = None) \<and>
     (\<forall>t p. P t = Some p \<longrightarrow> length p \<le> 3 \<and> (\<forall>i. entry_ok P p i (tabs m t i)))"

lemma pool_page_eq: "pool_frame m n \<Longrightarrow> pt_pool_base m + of_nat k * PAGE_SIZE_4K = frame_addr (n + k)"
  by (simp add: pool_frame_def frame_addr_eq PAGE_SIZE_4K_def algebra_simps)

text \<open>A page taken from the pool: not yet a table, page aligned, not null, never handed out again.\<close>

lemma alloc_table_page_Some:
  assumes "wt m P" "alloc_table_page m = (Some c, m1)"
  shows "P c = None" "c AND FRAME_MASK = c" "c \<noteq> 0" "m1 = m\<lparr>pt_pool_next := pt_pool_next m + 1\<rparr>"
    "\<forall>k. pt_pool_next m1 \<le> k \<and> k < PT_POOL_PAGES \<longrightarrow> pt_pool_base m + of_nat k * PAGE_SIZE_4K \<noteq> c"
proof -
  from assms(1) obtain n where n: "pool_frame m n" by (auto simp: wt_def)
  from assms(2) have nx: "pt_pool_next m < PT_POOL_PAGES"
    and c: "c = pt_pool_base m + of_nat (pt_pool_next m) * PAGE_SIZE_4K"
    and m1: "m1 = m\<lparr>pt_pool_next := pt_pool_next m + 1\<rparr>"
    by (auto simp: alloc_table_page_def split: if_splits)
  show "P c = None" using assms(1) nx c by (simp add: wt_def)
  have b: "n + k < 2 ^ 40" if "k < PT_POOL_PAGES" for k using n that by (simp add: pool_frame_def)
  have ce: "c = frame_addr (n + pt_pool_next m)" using c pool_page_eq [OF n] by simp
  show "c AND FRAME_MASK = c" unfolding ce by (rule frame_addr_masked [OF b [OF nx]])
  show "c \<noteq> 0" unfolding ce frame_addr_0_iff [OF b [OF nx]] using n by (simp add: pool_frame_def)
  show "m1 = m\<lparr>pt_pool_next := pt_pool_next m + 1\<rparr>" by (rule m1)
  show "\<forall>k. pt_pool_next m1 \<le> k \<and> k < PT_POOL_PAGES \<longrightarrow> pt_pool_base m + of_nat k * PAGE_SIZE_4K \<noteq> c"
    unfolding ce pool_page_eq [OF n] using frame_addr_inject [OF b b [OF nx]] m1 by auto
qed

definition same_tr :: "mmu \<Rightarrow> mmu \<Rightarrow> (u64 \<rightharpoonup> nat list) \<Rightarrow> bool" where
  "same_tr m m' P \<longleftrightarrow> (\<forall>d t va. d \<le> 3 \<longrightarrow> P t = Some (take d (path va)) \<longrightarrow> tr d t va m' = tr d t va m)"

lemma same_trD:
  "same_tr m m' P \<Longrightarrow> P (cr3 AND FRAME_MASK) = Some [] \<Longrightarrow>
   translate_in_space cr3 va m' = translate_in_space cr3 va m"
  unfolding same_tr_def translate_eq_tr by (metis le0 take0)

lemma same_tr_refl [simp]: "same_tr m m P" by (simp add: same_tr_def)

lemma map_le_Some: "P \<subseteq>\<^sub>m Q \<Longrightarrow> P t = Some x \<Longrightarrow> Q t = Some x"
  by (metis domI map_le_def)

lemma same_tr_trans: "same_tr m m1 P \<Longrightarrow> same_tr m1 m2 P' \<Longrightarrow> P \<subseteq>\<^sub>m P' \<Longrightarrow> same_tr m m2 P"
  unfolding same_tr_def by (metis map_le_Some)

text \<open>The walk depends only on the entries it reads; a change at one place of the tree is seen only by
  the walks that pass there.\<close>

definition changed_at :: "u64 \<Rightarrow> nat \<Rightarrow> mmu \<Rightarrow> mmu \<Rightarrow> (u64 \<rightharpoonup> nat list) \<Rightarrow> bool" where
  "changed_at t i m m' P \<longleftrightarrow> (\<forall>t' j. P t' \<noteq> None \<longrightarrow> (t', j) \<noteq> (t, i) \<longrightarrow> tabs m' t' j = tabs m t' j)"

lemma tr_elsewhere:
  assumes wt: "wt m P" and ch: "changed_at t i m m' P" and t: "P t = Some p"
    and d: "d \<le> 3" and t': "P t' = Some (take d (path va))"
    and off: "take (Suc (length p)) (path va) \<noteq> p @ [i] \<or>
      (\<forall>u. take (Suc (length p)) (path u) = p @ [i] \<longrightarrow> tr (length p) t u m' = tr (length p) t u m)"
  shows "tr d t' va m' = tr d t' va m"
  using d t'
proof (induction "3 - d" arbitrary: d t' rule: less_induct)
  case less
  let ?e = "tabs m t' (path va ! d)"
  have tk: "take (Suc d) (path va) = take d (path va) @ [path va ! d]"
    using less.prems(1) by (simp add: take_Suc_conv_app_nth)
  show ?case
  proof (cases "t' = t \<and> path va ! d = i")
    case True
    then have p: "p = take d (path va)" using t less.prems(2) by simp
    then have lp: "length p = d" using less.prems(1) by simp
    have "take (Suc (length p)) (path va) = p @ [i]" unfolding lp tk using True p by simp
    with off have "tr (length p) t va m' = tr (length p) t va m" by blast
    then show ?thesis using True lp by simp
  next
    case False
    have e: "tabs m' t' (path va ! d) = ?e"
      using ch False less.prems(2) by (simp add: changed_at_def)
    have ok: "entry_ok P (take d (path va)) (path va ! d) ?e" using wt less.prems(2) by (simp add: wt_def)
    have "tr (d + 1) (?e AND FRAME_MASK) va m' = tr (d + 1) (?e AND FRAME_MASK) va m"
      if "bit ?e 0" "\<not> is_leaf d ?e"
    proof (rule less.hyps)
      have "d < 3" using that(2) by (simp add: is_leaf_def)
      then show "3 - (d + 1) < 3 - d" "d + 1 \<le> 3" by simp_all
      show "P (?e AND FRAME_MASK) = Some (take (d + 1) (path va))"
        using ok that tk less.prems(1) by (simp add: entry_ok_def)
    qed
    then show ?thesis
      unfolding tr_step [of d t' va m'] tr_step [of d t' va m] e Let_def by simp
  qed
qed

lemma tr_deeper:
  assumes wt: "wt m P" and ch: "changed_at t i m m' P" and t: "P t = Some p"
    and d: "d \<le> 3" "length p < d" and t': "P t' = Some (take d (path va))"
  shows "tr d t' va m' = tr d t' va m"
  using d t'
proof (induction "3 - d" arbitrary: d t' rule: less_induct)
  case less
  let ?e = "tabs m t' (path va ! d)"
  have tk: "take (Suc d) (path va) = take d (path va) @ [path va ! d]"
    using less.prems(1) by (simp add: take_Suc_conv_app_nth)
  have "t' \<noteq> t" using t less.prems by auto
  then have e: "tabs m' t' (path va ! d) = ?e" using ch less.prems(3) by (simp add: changed_at_def)
  have ok: "entry_ok P (take d (path va)) (path va ! d) ?e" using wt less.prems(3) by (simp add: wt_def)
  have "tr (d + 1) (?e AND FRAME_MASK) va m' = tr (d + 1) (?e AND FRAME_MASK) va m"
    if "bit ?e 0" "\<not> is_leaf d ?e"
  proof (rule less.hyps)
    have "d < 3" using that(2) by (simp add: is_leaf_def)
    then show "3 - (d + 1) < 3 - d" "d + 1 \<le> 3" by simp_all
    show "length p < d + 1" using less.prems by simp
    show "P (?e AND FRAME_MASK) = Some (take (d + 1) (path va))"
      using ok that tk less.prems(1) by (simp add: entry_ok_def)
  qed
  then show ?case unfolding tr_step [of d t' va m'] tr_step [of d t' va m] e Let_def by simp
qed

lemma same_tr_local:
  assumes "wt m P" "changed_at t i m m' P" "P t = Some p"
    "\<forall>u. take (Suc (length p)) (path u) = p @ [i] \<longrightarrow> tr (length p) t u m' = tr (length p) t u m"
  shows "same_tr m m' P"
  unfolding same_tr_def using tr_elsewhere [OF assms(1-3)] assms(4) by blast

section \<open>Splitting large pages\<close>

lemma add_disjoint: "(\<And>n. bit a n \<Longrightarrow> \<not> bit b n) \<Longrightarrow> a + b = a OR b" for a b :: u64
  by (rule disjunctive_add) blast

lemma of_nat_pd_index: "(of_nat (pd_index va) :: u64) = drop_bit 21 va AND mask 9"
  by (simp add: pd_index_def low_masks)

lemma of_nat_pt_index: "(of_nat (pt_index va) :: u64) = drop_bit 12 va AND mask 9"
  by (simp add: pt_index_def low_masks)

text \<open>Every table index is the index of some address.\<close>

lemma pd_index_surj: "j < 512 \<Longrightarrow> \<exists>va. pd_index va = j"
proof -
  assume j: "j < 512"
  have "drop_bit 21 (push_bit 21 (of_nat j :: u64)) AND mask 9 = of_nat j"
    using bit_small_nat [of j 9] j
    by (intro bit_word_eqI) (force simp: bit_and_iff bit_drop_bit_eq bit_push_bit_iff bit_mask_iff)
  then have "pd_index (push_bit 21 (of_nat j)) = unat (of_nat j :: u64)"
    by (simp add: pd_index_def low_masks)
  also have "\<dots> = j" using j by (simp add: unat_of_nat take_bit_nat_eq_self)
  finally show ?thesis by blast
qed

lemma bit_index_shifted:
  "bit (of_nat (pd_index va) * PAGE_SIZE_2MB) n \<longleftrightarrow> 21 \<le> n \<and> n < 30 \<and> bit va n"
  "bit (of_nat (pt_index va) * PAGE_SIZE_4K) n \<longleftrightarrow> 12 \<le> n \<and> n < 21 \<and> bit va n"
proof -
  have "of_nat (pd_index va) * PAGE_SIZE_2MB = push_bit 21 (drop_bit 21 va AND mask 9)"
    unfolding of_nat_pd_index by (simp add: PAGE_SIZE_2MB_def push_bit_eq_mult)
  then show "bit (of_nat (pd_index va) * PAGE_SIZE_2MB) n \<longleftrightarrow> 21 \<le> n \<and> n < 30 \<and> bit va n"
    by (auto simp: bit_push_bit_iff bit_and_iff bit_drop_bit_eq bit_mask_iff)
  have "of_nat (pt_index va) * PAGE_SIZE_4K = push_bit 12 (drop_bit 12 va AND mask 9)"
    unfolding of_nat_pt_index by (simp add: PAGE_SIZE_4K_def push_bit_eq_mult)
  then show "bit (of_nat (pt_index va) * PAGE_SIZE_4K) n \<longleftrightarrow> 12 \<le> n \<and> n < 21 \<and> bit va n"
    by (auto simp: bit_push_bit_iff bit_and_iff bit_drop_bit_eq bit_mask_iff)
qed

text \<open>The address a walk finds in the split page is the one it found in the large page.\<close>

lemma split_1gb_pa:
  assumes "\<And>n. bit fl n \<Longrightarrow> n < 12"
  shows "((((e AND PDPTE_1GB_FRAME_MASK) + of_nat (pd_index va) * PAGE_SIZE_2MB) AND PDE_2MB_FRAME_MASK) OR fl)
      AND PDE_2MB_FRAME_MASK = (e AND PDPTE_1GB_FRAME_MASK) + of_nat (pd_index va) * PAGE_SIZE_2MB"
    "(e AND PDPTE_1GB_FRAME_MASK) + of_nat (pd_index va) * PAGE_SIZE_2MB + (va AND 0x1FFFFF)
      = (e AND PDPTE_1GB_FRAME_MASK) + (va AND 0x3FFFFFFF)"
proof -
  let ?b = "e AND PDPTE_1GB_FRAME_MASK" and ?j = "of_nat (pd_index va) * PAGE_SIZE_2MB"
  have o: "?b + ?j = ?b OR ?j"
    by (rule add_disjoint) (auto simp: bit_and_iff bit_index_shifted)
  show "(((?b + ?j) AND PDE_2MB_FRAME_MASK) OR fl) AND PDE_2MB_FRAME_MASK = ?b + ?j"
    unfolding o using assms
    by (intro bit_word_eqI) (force simp: bit_and_iff bit_or_iff bit_index_shifted)
  have "?b + ?j + (va AND 0x1FFFFF) = (?b OR ?j) OR (va AND 0x1FFFFF)"
    unfolding o by (rule add_disjoint) (auto simp: bit_and_iff bit_or_iff bit_index_shifted low_masks bit_mask_iff)
  moreover have "?b + (va AND 0x3FFFFFFF) = ?b OR (va AND 0x3FFFFFFF)"
    by (rule add_disjoint) (auto simp: bit_and_iff low_masks bit_mask_iff)
  moreover have "(?b OR ?j) OR (va AND 0x1FFFFF) = ?b OR (va AND 0x3FFFFFFF)"
    by (rule bit_word_eqI) (auto simp: bit_and_iff bit_or_iff bit_index_shifted low_masks bit_mask_iff)
  ultimately show "?b + ?j + (va AND 0x1FFFFF) = ?b + (va AND 0x3FFFFFFF)" by simp
qed

lemma split_2mb_pa:
  assumes "\<And>n. bit fl n \<Longrightarrow> n < 12" "\<And>n. 52 \<le> n \<Longrightarrow> n < 60 \<Longrightarrow> \<not> bit e n"
  shows "((((e AND PDE_2MB_FRAME_MASK) + of_nat (pt_index va) * PAGE_SIZE_4K) AND FRAME_MASK) OR fl)
      AND FRAME_MASK = (e AND PDE_2MB_FRAME_MASK) + of_nat (pt_index va) * PAGE_SIZE_4K"
    "(e AND PDE_2MB_FRAME_MASK) + of_nat (pt_index va) * PAGE_SIZE_4K + (va AND 0xFFF)
      = (e AND PDE_2MB_FRAME_MASK) + (va AND 0x1FFFFF)"
proof -
  let ?b = "e AND PDE_2MB_FRAME_MASK" and ?j = "of_nat (pt_index va) * PAGE_SIZE_4K"
  have o: "?b + ?j = ?b OR ?j"
    by (rule add_disjoint) (auto simp: bit_and_iff bit_index_shifted)
  have hi: "bit ?b n \<longleftrightarrow> 21 \<le> n \<and> n < 52 \<and> bit e n" for n
    using assms(2) [of n] by (cases "n < 52") (auto simp: bit_and_iff)
  show "(((?b + ?j) AND FRAME_MASK) OR fl) AND FRAME_MASK = ?b + ?j"
    unfolding o using assms(1)
    by (intro bit_word_eqI) (force simp: bit_and_iff [of _ FRAME_MASK] bit_or_iff bit_index_shifted hi)
  have "?b + ?j + (va AND 0xFFF) = (?b OR ?j) OR (va AND 0xFFF)"
    unfolding o by (rule add_disjoint) (auto simp: bit_and_iff bit_or_iff bit_index_shifted low_masks bit_mask_iff)
  moreover have "?b + (va AND 0x1FFFFF) = ?b OR (va AND 0x1FFFFF)"
    by (rule add_disjoint) (auto simp: bit_and_iff low_masks bit_mask_iff)
  moreover have "(?b OR ?j) OR (va AND 0xFFF) = ?b OR (va AND 0x1FFFFF)"
    by (rule bit_word_eqI) (auto simp: bit_and_iff bit_or_iff bit_index_shifted low_masks bit_mask_iff)
  ultimately show "?b + ?j + (va AND 0xFFF) = ?b + (va AND 0x1FFFFF)" by simp
qed

section \<open>Steps on the tree\<close>

text \<open>What every step of the mapper guarantees: the tree stays well typed, translations of all address
  spaces stay, only the entry \<open>(t, i)\<close> of the known tables changes.\<close>

definition step_ok :: "u64 \<Rightarrow> nat \<Rightarrow> mmu \<Rightarrow> mmu \<Rightarrow> (u64 \<rightharpoonup> nat list) \<Rightarrow> (u64 \<rightharpoonup> nat list) \<Rightarrow> bool" where
  "step_ok t i m m' P P' \<longleftrightarrow> wt m' P' \<and> P \<subseteq>\<^sub>m P' \<and> P' 0 = P 0 \<and> same_tr m m' P \<and> changed_at t i m m' P \<and>
     cpu_cr3 m' = cpu_cr3 m \<and> kernel_cr3 m' = kernel_cr3 m"

lemma step_ok_refl: "wt m P \<Longrightarrow> step_ok t i m m P P"
  by (simp add: step_ok_def changed_at_def)

text \<open>\<open>(t, i)\<close> links to the table \<open>c\<close> at depth \<open>d\<close>.\<close>

definition linked :: "mmu \<Rightarrow> nat \<Rightarrow> u64 \<Rightarrow> nat \<Rightarrow> u64 \<Rightarrow> bool" where
  "linked m d t i c \<longleftrightarrow> bit (tabs m t i) 0 \<and> \<not> is_leaf d (tabs m t i) \<and> tabs m t i AND FRAME_MASK = c"

lemma tr_linked: "linked m d t (path u ! d) c \<Longrightarrow> tr d t u m = tr (d + 1) c u m"
  by (subst tr_step) (simp add: linked_def Let_def)

lemma path_at: "take (Suc (length p)) (path u) = p @ [i] \<Longrightarrow> length p \<le> 3 \<Longrightarrow> path u ! length p = i"
  by (simp add: take_Suc_conv_app_nth)

lemma wt_pool_mono:
  "wt m P \<Longrightarrow> wt (m\<lparr>pt_pool_next := pt_pool_next m + 1\<rparr>) P"
  by (simp add: wt_def pool_frame_def)

text \<open>A step that changes one entry in place.\<close>

lemma step_tset:
  assumes "wt m P" "P t = Some p" "entry_ok P p i e"
    "\<forall>u. take (Suc (length p)) (path u) = p @ [i] \<longrightarrow> tr (length p) t u (tset t i e m) = tr (length p) t u m"
  shows "step_ok t i m (tset t i e m) P P"
proof -
  have ch: "changed_at t i m (tset t i e m) P" by (auto simp: changed_at_def tset_def)
  have "wt (tset t i e m) P"
    using assms(1-3) unfolding wt_def by (auto simp: tset_def pool_frame_def)
  then show ?thesis
    using same_tr_local [OF assms(1) ch assms(2,4)] ch by (simp add: step_ok_def tset_def)
qed

lemma bit_user_mask: "bit (flag_mask User) n \<longleftrightarrow> n = 2"
  using bit_power2_word [of 2 n, where 'a = 64] by (auto simp: flag_mask.simps)

lemma bit_ps: "bit PDE_PS n \<longleftrightarrow> n = 7"
  using bit_power2_word [of 7 n, where 'a = 64] by (auto simp: PDE_PS_def)

lemma user_bit_frames [simp]:
  "(e OR flag_mask User) AND FRAME_MASK = e AND FRAME_MASK"
  "(e OR flag_mask User) AND PDE_2MB_FRAME_MASK = e AND PDE_2MB_FRAME_MASK"
  "(e OR flag_mask User) AND PDPTE_1GB_FRAME_MASK = e AND PDPTE_1GB_FRAME_MASK"
  by (rule bit_word_eqI, auto simp: bit_and_iff bit_or_iff bit_user_mask)+

lemma user_bit_keeps [simp]:
  "bit (e OR flag_mask User) 0 = bit e 0" "is_leaf d (e OR flag_mask User) = is_leaf d e"
  "leaf_pa d (e OR flag_mask User) va = leaf_pa d e va"
  by (simp_all add: is_leaf_def leaf_pa_def bit_or_iff bit_user_mask)

lemma user_entry_ok: "entry_ok P p i e \<Longrightarrow> entry_ok P p i (e OR flag_mask User)"
  by (auto simp: entry_ok_def bit_or_iff bit_user_mask)

text \<open>Setting the user bit of an entry changes no translation.\<close>

lemma step_user:
  assumes "wt m P" "P t = Some p"
  shows "step_ok t i m (tset t i (tabs m t i OR flag_mask User) m) P P"
proof (rule step_tset [OF assms])
  let ?e = "tabs m t i" and ?m = "tset t i (tabs m t i OR flag_mask User) m"
  have ok: "entry_ok P p i ?e" and lp: "length p \<le> 3" using assms by (auto simp: wt_def)
  from ok show "entry_ok P p i (?e OR flag_mask User)" by (rule user_entry_ok)
  have ch: "changed_at t i m ?m P" by (auto simp: changed_at_def tset_def)
  show "\<forall>u. take (Suc (length p)) (path u) = p @ [i] \<longrightarrow> tr (length p) t u ?m = tr (length p) t u m"
  proof (intro allI impI)
    fix u assume u: "take (Suc (length p)) (path u) = p @ [i]"
    have i: "path u ! length p = i" using path_at [OF u lp] .
    have e': "tabs ?m t i = ?e OR flag_mask User" by (simp add: tset_def)
    have "tr (length p + 1) (?e AND FRAME_MASK) u ?m = tr (length p + 1) (?e AND FRAME_MASK) u m"
      if "bit ?e 0" "\<not> is_leaf (length p) ?e"
      using that ok u lp by (intro tr_deeper [OF assms(1) ch assms(2)]) (auto simp: entry_ok_def is_leaf_def)
    then show "tr (length p) t u ?m = tr (length p) t u m"
      unfolding tr_step [of "length p" t u ?m] tr_step [of "length p" t u m] i e' Let_def by simp
  qed
qed

text \<open>A step that links a fresh table, filled with \<open>f\<close>.\<close>

lemma step_fresh:
  assumes wt: "wt m P" and t: "P t = Some p" "length p < 3" and al: "alloc_table_page m = (Some c, m1)"
    and fl: "bit fl 0" "\<not> bit fl 7" "\<And>n. bit fl n \<Longrightarrow> n < 12 \<or> 52 \<le> n"
    and f: "\<And>j. entry_ok P (p @ [i]) j (f j)"
    and eq: "\<And>u. path u ! length p = i \<Longrightarrow> take (Suc (length p)) (path u) = p @ [i] \<Longrightarrow>
      tr (Suc (length p)) c u (tset t i ((c AND FRAME_MASK) OR fl) (tfill c f m1)) = tr (length p) t u m"
  defines "m' \<equiv> tset t i ((c AND FRAME_MASK) OR fl) (tfill c f m1)"
  shows "step_ok t i m m' P (P(c \<mapsto> p @ [i]))" "linked m' (length p) t i c"
proof -
  let ?P = "P(c \<mapsto> p @ [i])" and ?e = "(c AND FRAME_MASK) OR fl"
  note c = alloc_table_page_Some [OF wt al]
  have ct: "c \<noteq> t" using c(1) t by auto
  have e: "bit ?e 0" "\<not> bit ?e 7" "?e AND FRAME_MASK = c"
  proof -
    show "bit ?e 0" "\<not> bit ?e 7" using fl(1,2) by (simp_all add: bit_or_iff bit_and_iff)
    have "?e AND FRAME_MASK = c AND FRAME_MASK" by (rule frame_of_entry) (rule fl(3))
    with c(2) show "?e AND FRAME_MASK = c" by simp
  qed
  have tabs: "tabs m' t' j = (if t' = t \<and> j = i then ?e else if t' = c then f j else tabs m t' j)" for t' j
    using ct by (simp add: m'_def tset_def tfill_def c(4))
  show "linked m' (length p) t i c" using e t(2) by (simp add: linked_def tabs is_leaf_def)
  have ext: "entry_ok P q j x \<Longrightarrow> entry_ok ?P q j x" for q j x using c(1) by (auto simp: entry_ok_def)
  have "wt m' ?P"
    unfolding wt_def
  proof (intro conjI allI impI)
    show "\<exists>n. pool_frame m' n" using wt by (auto simp: wt_def pool_frame_def m'_def tset_def tfill_def c(4))
    fix k assume "pt_pool_next m' \<le> k \<and> k < PT_POOL_PAGES"
    then show "?P (pt_pool_base m' + of_nat k * PAGE_SIZE_4K) = None"
      using c(4,5) wt by (auto simp: wt_def m'_def tset_def tfill_def)
  next
    fix t' q assume q: "?P t' = Some q"
    then show "length q \<le> 3" using t(2) wt by (auto simp: wt_def split: if_splits)
    fix j
    show "entry_ok ?P q j (tabs m' t' j)"
    proof (cases "t' = c")
      case True
      with q ct f ext show ?thesis by (auto simp: tabs)
    next
      case False
      with q have q': "P t' = Some q" by simp
      show ?thesis
      proof (cases "t' = t \<and> j = i")
        case True
        with q' t have "q = p" by simp
        with True t(2) e show ?thesis by (simp add: tabs entry_ok_def is_leaf_def)
      next
        case other: False
        have "tabs m' t' j = tabs m t' j" using False other by (auto simp: tabs)
        with ext q' wt show ?thesis by (simp add: wt_def)
      qed
    qed
  qed
  moreover have ch: "changed_at t i m m' P" using c(1) by (auto simp: changed_at_def tabs)
  moreover have "same_tr m m' P"
  proof (rule same_tr_local [OF wt ch t(1)], intro allI impI)
    fix u assume u: "take (Suc (length p)) (path u) = p @ [i]"
    then have i: "path u ! length p = i" using path_at t(2) by simp
    have "tr (length p) t u m' = tr (length p + 1) c u m'"
      using \<open>linked m' (length p) t i c\<close> i by (intro tr_linked) simp
    then show "tr (length p) t u m' = tr (length p) t u m" using eq [OF i u] by (simp add: m'_def)
  qed
  moreover have "P \<subseteq>\<^sub>m ?P" using c(1) by (auto simp: map_le_def)
  ultimately show "step_ok t i m m' P ?P"
    using c(3) by (simp add: step_ok_def m'_def tset_def tfill_def c(4))
qed

section \<open>The three descents\<close>

lemma table_flags_bits:
  "bit (flags_as_u64 table_flags) 0" "\<not> bit (flags_as_u64 table_flags) 7"
  "bit (flags_as_u64 table_flags) n \<Longrightarrow> n < 12 \<or> 52 \<le> n"
  by (auto simp: bit_table_flags)

definition descent_ok :: "u64 \<Rightarrow> nat \<Rightarrow> mmu \<Rightarrow> (u64 \<rightharpoonup> nat list) \<Rightarrow> nat list \<Rightarrow> u64 \<times> mmu \<Rightarrow> bool" where
  "descent_ok t i m P p r \<longleftrightarrow> (\<exists>P'. step_ok t i m (snd r) P P' \<and>
     (fst r \<noteq> 0 \<longrightarrow> P' (fst r) = Some (p @ [i]) \<and> linked (snd r) (length p) t i (fst r)))"

lemma link_filled_ok:
  assumes wt: "wt m P" and t: "P t = Some p" "length p < 3" and f: "\<And>j. entry_ok P (p @ [i]) j (f j)"
    and eq: "\<And>u c m2. path u ! length p = i \<Longrightarrow> take (Suc (length p)) (path u) = p @ [i] \<Longrightarrow> P c = None \<Longrightarrow>
      (\<And>j. tabs m2 c j = f j) \<Longrightarrow> changed_at t i m m2 P \<Longrightarrow> tr (Suc (length p)) c u m2 = tr (length p) t u m"
  shows "descent_ok t i m P p (link_filled t i f m)"
proof (cases "alloc_table_page m")
  case (Pair a m1)
  show ?thesis
  proof (cases a)
    case None
    then have "link_filled t i f m = (0, m)"
      using Pair by (auto simp: link_filled_def alloc_table_page_def split: if_splits)
    then show ?thesis using step_ok_refl [OF wt] by (auto simp: descent_ok_def)
  next
    case (Some ch)
    let ?m = "tset t i ((ch AND FRAME_MASK) OR flags_as_u64 table_flags) (tfill ch f m1)"
    have al: "alloc_table_page m = (Some ch, m1)" using Pair Some by simp
    note c = alloc_table_page_Some [OF wt al]
    have "ch \<noteq> t" using c(1) t by auto
    then have z: "tabs ?m ch j = f j" for j by (simp add: tset_def tfill_def)
    have "changed_at t i m ?m P" using c(1,4) by (auto simp: changed_at_def tset_def tfill_def)
    then have "tr (Suc (length p)) ch u ?m = tr (length p) t u m"
      if "path u ! length p = i" "take (Suc (length p)) (path u) = p @ [i]" for u
      using eq [OF that c(1) z] by simp
    then have "step_ok t i m ?m P (P(ch \<mapsto> p @ [i]))" "linked ?m (length p) t i ch"
      using step_fresh [OF wt t al table_flags_bits(1,2), where f = f] table_flags_bits(3) f by blast+
    then show ?thesis
      using al unfolding descent_ok_def link_filled_def encode_entry_def by (intro exI [of _ "P(ch \<mapsto> p @ [i])"]) simp
  qed
qed

lemma link_new_table_ok:
  assumes wt: "wt m P" and t: "P t = Some p" "length p < 3" and e: "\<not> bit (tabs m t i) 0"
  shows "descent_ok t i m P p (link_filled t i (\<lambda>_. 0) m)"
  using e by (intro link_filled_ok [OF wt t])
    (simp_all add: entry_ok_def tr_step [of "Suc (length p)"] tr_step [of "length p"] Let_def)

lemma make_user_ok:
  assumes "wt m P" "P t = Some p" "length p < 3" "bit (tabs m t i) 0" "\<not> is_leaf (length p) (tabs m t i)"
  shows "descent_ok t i m P p (tabs m t i AND FRAME_MASK, make_user t i (tabs m t i) m)"
proof -
  have "step_ok t i m (make_user t i (tabs m t i) m) P P"
    using step_user [OF assms(1,2)] step_ok_refl [OF assms(1)] by (simp add: make_user_def)
  moreover have "entry_ok P p i (tabs m t i)" using assms(1,2) by (simp add: wt_def)
  then have "P (tabs m t i AND FRAME_MASK) = Some (p @ [i])" using assms(4,5) by (simp add: entry_ok_def)
  moreover have "linked (make_user t i (tabs m t i) m) (length p) t i (tabs m t i AND FRAME_MASK)"
    using assms(4,5) by (simp add: linked_def make_user_def tset_def)
  ultimately show ?thesis unfolding descent_ok_def by auto
qed

lemma child_descends:
  assumes wt: "wt m P" and t: "P t = Some []"
  shows "descent_ok t i m P [] (get_or_alloc_child t i m)"
proof (cases "bit (tabs m t i) 0")
  case True
  then have "\<not> is_leaf 0 (tabs m t i)" by (simp add: is_leaf_def)
  with make_user_ok [OF wt t _ True] True show ?thesis
    by (simp add: get_or_alloc_child_def tget_def present_iff Let_def)
next
  case False
  with link_new_table_ok [OF wt t] show ?thesis
    by (simp add: get_or_alloc_child_def tget_def present_iff Let_def)
qed

lemma leaf_flags_low: "bit ((e AND 0xFFF) OR PDE_PS OR flag_mask User) n \<Longrightarrow> n < 12"
  by (auto simp: bit_or_iff bit_and_iff low_masks bit_mask_iff bit_user_mask bit_ps)

lemma split_1gb_bits:
  assumes "j < 512"
  shows "bit e 0 \<Longrightarrow> bit (split_1gb e j) 0" "bit (split_1gb e j) 7" "52 \<le> n \<Longrightarrow> n < 60 \<Longrightarrow> \<not> bit (split_1gb e j) n"
proof -
  show "bit e 0 \<Longrightarrow> bit (split_1gb e j) 0" "bit (split_1gb e j) 7"
    using assms by (auto simp: split_1gb_def ENTRY_COUNT_def bit_or_iff bit_and_iff low_masks bit_mask_iff bit_ps)
  obtain va where va: "pd_index va = j" using pd_index_surj [OF assms] by blast
  have "(e AND PDPTE_1GB_FRAME_MASK) + of_nat (pd_index va) * PAGE_SIZE_2MB
      = (e AND PDPTE_1GB_FRAME_MASK) OR of_nat (pd_index va) * PAGE_SIZE_2MB"
    by (rule add_disjoint) (auto simp: bit_and_iff bit_index_shifted)
  with va leaf_flags_low [of e n] show "52 \<le> n \<Longrightarrow> n < 60 \<Longrightarrow> \<not> bit (split_1gb e j) n"
    by (auto simp: split_1gb_def bit_or_iff bit_and_iff bit_index_shifted)
qed

lemma split_1gb_ok:
  assumes wt: "wt m P" and t: "P t = Some p" "length p = 1" and e: "bit (tabs m t i) 0" "bit (tabs m t i) 7"
  shows "descent_ok t i m P p (link_filled t i (split_1gb (tabs m t i)) m)"
proof (rule link_filled_ok [OF wt t(1)])
  let ?e = "tabs m t i"
  show "length p < 3" using t(2) by simp
  fix j
  show "entry_ok P (p @ [i]) j (split_1gb ?e j)"
  proof (cases "j < 512")
    case True
    then show ?thesis using split_1gb_bits [OF True, where e = ?e] e t(2) by (simp add: entry_ok_def is_leaf_def)
  next
    case False
    then show ?thesis by (simp add: entry_ok_def split_1gb_def ENTRY_COUNT_def)
  qed
next
  let ?e = "tabs m t i"
  fix u c and m2 :: mmu assume "path u ! length p = i" and z: "\<And>j. tabs m2 c j = split_1gb ?e j"
  then have i: "pdpt_index u = i" using t(2) by (simp add: path_def)
  let ?x = "split_1gb ?e (pd_index u)"
  have "?x AND PDE_2MB_FRAME_MASK = (?e AND PDPTE_1GB_FRAME_MASK) + of_nat (pd_index u) * PAGE_SIZE_2MB"
    using split_1gb_pa(1) [of "(?e AND 0xFFF) OR PDE_PS OR flag_mask User" ?e u, OF leaf_flags_low] by (simp add: split_1gb_def ENTRY_COUNT_def)
  then have pa: "(?x AND PDE_2MB_FRAME_MASK) + (u AND 0x1FFFFF) = (?e AND PDPTE_1GB_FRAME_MASK) + (u AND 0x3FFFFFFF)"
    using split_1gb_pa(2) [of "(?e AND 0xFFF) OR PDE_PS OR flag_mask User" ?e u, OF leaf_flags_low] by simp
  have "tr 2 c u m2 = Some ((?x AND PDE_2MB_FRAME_MASK) + (u AND 0x1FFFFF))"
    unfolding tr_2 Let_def z using split_1gb_bits [where j = "pd_index u" and e = ?e] e by simp
  moreover have "tr 1 t u m = Some ((?e AND PDPTE_1GB_FRAME_MASK) + (u AND 0x3FFFFFFF))"
    unfolding tr_1 Let_def i using e by simp
  ultimately show "tr (Suc (length p)) c u m2 = tr (length p) t u m"
    unfolding t(2) using pa by (simp add: numeral_2_eq_2)
qed

lemma get_or_alloc_pd_cases:
  "get_or_alloc_pd t i m = (let e = tabs m t i in
     if \<not> bit e 0 then link_filled t i (\<lambda>_. 0) m
     else if \<not> bit e 7 then (e AND FRAME_MASK, make_user t i e m)
     else link_filled t i (split_1gb e) m)"
  by (simp add: get_or_alloc_pd_def tget_def present_iff huge_iff Let_def)

lemma pd_descends:
  assumes wt: "wt m P" and t: "P t = Some p" "length p = 1"
  shows "descent_ok t i m P p (get_or_alloc_pd t i m)"
  unfolding get_or_alloc_pd_cases Let_def
  using link_new_table_ok [OF wt t(1)] make_user_ok [OF wt t(1)] split_1gb_ok [OF wt t] t(2)
  by (simp add: is_leaf_def)

lemma pte_flags_low: "bit ((e AND 0xFFF AND NOT PDE_PS) OR flag_mask User) n \<Longrightarrow> n < 12"
  by (auto simp: bit_or_iff bit_and_iff low_masks bit_mask_iff bit_user_mask)

lemma split_2mb_ok:
  assumes wt: "wt m P" and t: "P t = Some p" "length p = 2" and e: "bit (tabs m t i) 0" "bit (tabs m t i) 7"
  shows "descent_ok t i m P p (link_filled t i (split_2mb (tabs m t i)) m)"
proof (rule link_filled_ok [OF wt t(1)])
  let ?e = "tabs m t i"
  show "length p < 3" using t(2) by simp
  show "entry_ok P (p @ [i]) j (split_2mb ?e j)" for j using t(2) by (simp add: entry_ok_def is_leaf_def)
  have hi: "52 \<le> n \<Longrightarrow> n < 60 \<Longrightarrow> \<not> bit ?e n" for n
    using wt t e by (auto simp: wt_def entry_ok_def is_leaf_def)
  fix u c and m2 :: mmu assume "path u ! length p = i" and z: "\<And>j. tabs m2 c j = split_2mb ?e j"
  then have i: "pd_index u = i" using t(2) by (simp add: path_def numeral_2_eq_2)
  let ?x = "split_2mb ?e (pt_index u)"
  have "?x AND FRAME_MASK = (?e AND PDE_2MB_FRAME_MASK) + of_nat (pt_index u) * PAGE_SIZE_4K"
    using split_2mb_pa(1) [of "(?e AND 0xFFF AND NOT PDE_PS) OR flag_mask User" ?e u, OF pte_flags_low hi] by (simp add: split_2mb_def ENTRY_COUNT_def)
  then have pa: "(?x AND FRAME_MASK) + (u AND 0xFFF) = (?e AND PDE_2MB_FRAME_MASK) + (u AND 0x1FFFFF)"
    using split_2mb_pa(2) [of "(?e AND 0xFFF AND NOT PDE_PS) OR flag_mask User" ?e u, OF pte_flags_low hi] by simp
  have "bit ?x 0"
    using e by (simp add: split_2mb_def ENTRY_COUNT_def bit_or_iff bit_and_iff low_masks bit_mask_iff bit_not_iff bit_ps)
  then have "tr 3 c u m2 = Some ((?x AND FRAME_MASK) + (u AND 0xFFF))" unfolding tr_3 Let_def z by simp
  moreover have "tr 2 t u m = Some ((?e AND PDE_2MB_FRAME_MASK) + (u AND 0x1FFFFF))"
    unfolding tr_2 Let_def i using e by simp
  ultimately show "tr (Suc (length p)) c u m2 = tr (length p) t u m"
    unfolding t(2) using pa by (simp add: numeral_3_eq_3)
qed

lemma get_or_alloc_pt_cases:
  "get_or_alloc_pt t i m = (let e = tabs m t i in
     if \<not> bit e 0 then link_filled t i (\<lambda>_. 0) m
     else if \<not> bit e 7 then (e AND FRAME_MASK, make_user t i e m)
     else link_filled t i (split_2mb e) m)"
  by (simp add: get_or_alloc_pt_def tget_def present_iff huge_iff Let_def)

lemma pt_descends:
  assumes wt: "wt m P" and t: "P t = Some p" "length p = 2"
  shows "descent_ok t i m P p (get_or_alloc_pt t i m)"
  unfolding get_or_alloc_pt_cases Let_def
  using link_new_table_ok [OF wt t(1)] make_user_ok [OF wt t(1)] split_2mb_ok [OF wt t] t(2)
  by (simp add: is_leaf_def)

section \<open>Mapping a page\<close>

definition evolves :: "mmu \<Rightarrow> mmu \<Rightarrow> (u64 \<rightharpoonup> nat list) \<Rightarrow> (u64 \<rightharpoonup> nat list) \<Rightarrow> bool" where
  "evolves m m' P P' \<longleftrightarrow> wt m' P' \<and> P \<subseteq>\<^sub>m P' \<and> P' 0 = P 0 \<and> same_tr m m' P \<and>
     cpu_cr3 m' = cpu_cr3 m \<and> kernel_cr3 m' = kernel_cr3 m"

lemma step_evolves: "step_ok t i m m' P P' \<Longrightarrow> evolves m m' P P'"
  by (simp add: step_ok_def evolves_def)

lemma evolves_trans: "evolves m m1 P P1 \<Longrightarrow> evolves m1 m2 P1 P2 \<Longrightarrow> evolves m m2 P P2"
  unfolding evolves_def by (auto intro: same_tr_trans map_le_trans)

lemma evolves_wt: "evolves m m' P P' \<Longrightarrow> wt m' P'" by (simp add: evolves_def)

lemma linked_frame:
  "step_ok t i m m' P P' \<Longrightarrow> P t' = Some q \<Longrightarrow> t' \<noteq> t \<Longrightarrow> linked m d t' j c \<Longrightarrow> linked m' d t' j c"
  by (simp add: step_ok_def changed_at_def linked_def)

lemma propagate_user_ok:
  assumes "wt m P" "P t = Some p" "linked m d t i c"
  shows "step_ok t i m (propagate_user fl t i m) P P" "linked (propagate_user fl t i m) d t i c"
  using assms step_user [OF assms(1,2)] step_ok_refl [OF assms(1)]
  by (auto simp: propagate_user_def tget_def linked_def tset_def)

text \<open>The tables on the way to an address, down to depth 1, 2 and 3.\<close>

definition on1 :: "mmu \<Rightarrow> (u64 \<rightharpoonup> nat list) \<Rightarrow> u64 \<Rightarrow> u64 \<Rightarrow> u64 \<Rightarrow> bool" where
  "on1 m P va pml4 pdpt \<longleftrightarrow> P pml4 = Some [] \<and> P pdpt = Some [pml4_index va] \<and> linked m 0 pml4 (pml4_index va) pdpt"

definition on2 :: "mmu \<Rightarrow> (u64 \<rightharpoonup> nat list) \<Rightarrow> u64 \<Rightarrow> u64 \<Rightarrow> u64 \<Rightarrow> u64 \<Rightarrow> bool" where
  "on2 m P va pml4 pdpt pd \<longleftrightarrow> on1 m P va pml4 pdpt \<and> P pd = Some [pml4_index va, pdpt_index va] \<and>
     linked m 1 pdpt (pdpt_index va) pd"

definition on3 :: "mmu \<Rightarrow> (u64 \<rightharpoonup> nat list) \<Rightarrow> u64 \<Rightarrow> u64 \<Rightarrow> u64 \<Rightarrow> u64 \<Rightarrow> u64 \<Rightarrow> bool" where
  "on3 m P va pml4 pdpt pd pt \<longleftrightarrow> on2 m P va pml4 pdpt pd \<and>
     P pt = Some [pml4_index va, pdpt_index va, pd_index va] \<and> linked m 2 pd (pd_index va) pt"

lemmas on_defs = on1_def on2_def on3_def

lemma on1_frame: "on1 m P va pml4 pdpt \<Longrightarrow> step_ok t i m m' P P' \<Longrightarrow> t \<noteq> pml4 \<Longrightarrow> on1 m' P' va pml4 pdpt"
  unfolding on1_def using linked_frame map_le_Some by (metis step_ok_def)

lemma on2_frame:
  "on2 m P va pml4 pdpt pd \<Longrightarrow> step_ok t i m m' P P' \<Longrightarrow> t \<noteq> pml4 \<Longrightarrow> t \<noteq> pdpt \<Longrightarrow> on2 m' P' va pml4 pdpt pd"
  unfolding on2_def using on1_frame linked_frame map_le_Some by (metis step_ok_def on1_def)

lemma on1_user:
  assumes "wt m P" "on1 m P va pml4 pdpt"
  shows "evolves m (propagate_user fl pml4 (pml4_index va) m) P P"
    "on1 (propagate_user fl pml4 (pml4_index va) m) P va pml4 pdpt"
  using assms propagate_user_ok [OF assms(1), of pml4 "[]" 0 "pml4_index va" pdpt fl]
  by (auto simp: on1_def intro: step_evolves)

lemma on2_user:
  assumes "wt m P" "on2 m P va pml4 pdpt pd"
  shows "evolves m (propagate_user fl pdpt (pdpt_index va) m) P P"
    "on2 (propagate_user fl pdpt (pdpt_index va) m) P va pml4 pdpt pd"
proof -
  have o: "on1 m P va pml4 pdpt" and p: "P pdpt = Some [pml4_index va]" "pdpt \<noteq> pml4"
    and l: "linked m 1 pdpt (pdpt_index va) pd" using assms(2) by (auto simp: on_defs)
  note u = propagate_user_ok [OF assms(1) p(1) l, of fl]
  show "evolves m (propagate_user fl pdpt (pdpt_index va) m) P P" by (rule step_evolves [OF u(1)])
  show "on2 (propagate_user fl pdpt (pdpt_index va) m) P va pml4 pdpt pd"
    using on1_frame [OF o u(1) p(2)] u(2) assms(2) by (simp add: on2_def)
qed

lemma on3_user:
  assumes "wt m P" "on3 m P va pml4 pdpt pd pt"
  shows "evolves m (propagate_user fl pd (pd_index va) m) P P"
    "on3 (propagate_user fl pd (pd_index va) m) P va pml4 pdpt pd pt"
proof -
  have o: "on2 m P va pml4 pdpt pd" and p: "P pd = Some [pml4_index va, pdpt_index va]" "pd \<noteq> pml4" "pd \<noteq> pdpt"
    and l: "linked m 2 pd (pd_index va) pt" using assms(2) by (auto simp: on_defs)
  note u = propagate_user_ok [OF assms(1) p(1) l, of fl]
  show "evolves m (propagate_user fl pd (pd_index va) m) P P" by (rule step_evolves [OF u(1)])
  show "on3 (propagate_user fl pd (pd_index va) m) P va pml4 pdpt pd pt"
    using on2_frame [OF o u(1) p(2,3)] u(2) assms(2) by (simp add: on3_def)
qed

lemma to_level1:
  assumes "wt m P" "P pml4 = Some []" "get_or_alloc_child pml4 (pml4_index va) m = (pdpt, m')"
  shows "\<exists>P'. evolves m m' P P' \<and> (pdpt \<noteq> 0 \<longrightarrow> on1 m' P' va pml4 pdpt)"
proof -
  from child_descends [OF assms(1,2), of "pml4_index va"] assms(3) obtain P' where
    s: "step_ok pml4 (pml4_index va) m m' P P'"
    and l: "pdpt \<noteq> 0 \<longrightarrow> P' pdpt = Some [pml4_index va] \<and> linked m' 0 pml4 (pml4_index va) pdpt"
    by (auto simp: descent_ok_def)
  have "P' pml4 = Some []" using s assms(2) map_le_Some by (auto simp: step_ok_def)
  then show ?thesis using l step_evolves [OF s] by (auto simp: on1_def)
qed

lemma to_level2:
  assumes "wt m P" "on1 m P va pml4 pdpt" "get_or_alloc_pd pdpt (pdpt_index va) m = (pd, m')"
  shows "\<exists>P'. evolves m m' P P' \<and> (pd \<noteq> 0 \<longrightarrow> on2 m' P' va pml4 pdpt pd)"
proof -
  have p: "P pdpt = Some [pml4_index va]" "pdpt \<noteq> pml4" using assms(2) by (auto simp: on1_def)
  from pd_descends [OF assms(1) p(1), of "pdpt_index va"] assms(3) obtain P' where
    s: "step_ok pdpt (pdpt_index va) m m' P P'"
    and l: "pd \<noteq> 0 \<longrightarrow> P' pd = Some [pml4_index va, pdpt_index va] \<and> linked m' 1 pdpt (pdpt_index va) pd"
    by (auto simp: descent_ok_def)
  show ?thesis using l step_evolves [OF s] on1_frame [OF assms(2) s p(2)] by (auto simp: on2_def)
qed

lemma to_level3:
  assumes "wt m P" "on2 m P va pml4 pdpt pd" "get_or_alloc_pt pd (pd_index va) m = (pt, m')"
  shows "\<exists>P'. evolves m m' P P' \<and> (pt \<noteq> 0 \<longrightarrow> on3 m' P' va pml4 pdpt pd pt)"
proof -
  have p: "P pd = Some [pml4_index va, pdpt_index va]" "pd \<noteq> pml4" "pd \<noteq> pdpt" using assms(2) by (auto simp: on_defs)
  from pt_descends [OF assms(1) p(1), of "pd_index va"] assms(3) obtain P' where
    s: "step_ok pd (pd_index va) m m' P P'"
    and l: "pt \<noteq> 0 \<longrightarrow> P' pt = Some [pml4_index va, pdpt_index va, pd_index va] \<and> linked m' 2 pd (pd_index va) pt"
    by (auto simp: descent_ok_def numeral_2_eq_2)
  show ?thesis using l step_evolves [OF s] on2_frame [OF assms(2) s p(2,3)] by (auto simp: on3_def)
qed

text \<open>What a write to the last entry does.\<close>

lemma on3_tr:
  assumes "on3 m P va pml4 pdpt pd pt" "path u = path va"
  shows "tr 0 pml4 u m = tr 3 pt u m"
proof -
  have idx: "path u ! 0 = pml4_index va" "path u ! 1 = pdpt_index va" "path u ! 2 = pd_index va"
    using assms(2) by (simp_all add: path_def)
  have "tr 0 pml4 u m = tr 1 pdpt u m" using assms(1) idx tr_linked [of m 0 pml4 u pdpt] by (simp add: on_defs)
  also have "\<dots> = tr 2 pd u m" using assms(1) idx tr_linked [of m 1 pdpt u pd] by (simp add: on_defs numeral_2_eq_2)
  also have "\<dots> = tr 3 pt u m" using assms(1) idx tr_linked [of m 2 pd u pt] by (simp add: on_defs numeral_3_eq_3)
  finally show ?thesis .
qed

lemma leaf_write_wt:
  "wt m P \<Longrightarrow> P pt = Some p \<Longrightarrow> length p = 3 \<Longrightarrow> wt (tset pt i e m) P"
  unfolding wt_def by (auto simp: tset_def pool_frame_def entry_ok_def is_leaf_def)

lemma leaf_write_other:
  assumes wt: "wt m P" and ch: "on3 m P va pml4 pdpt pd pt"
    and root: "P (cr3 AND FRAME_MASK) = Some []" and u: "path u \<noteq> path va"
  shows "translate_in_space cr3 u (tset pt (pt_index va) e m) = translate_in_space cr3 u m"
proof -
  let ?p = "[pml4_index va, pdpt_index va, pd_index va]" and ?m = "tset pt (pt_index va) e m"
  have pt: "P pt = Some ?p" using ch by (simp add: on3_def)
  have cat: "changed_at pt (pt_index va) m ?m P" by (auto simp: changed_at_def tset_def)
  have "take (Suc (length ?p)) (path u) \<noteq> ?p @ [pt_index va]" using u by (simp add: path_def)
  then show ?thesis
    unfolding translate_eq_tr using tr_elsewhere [OF wt cat pt, of 0 "cr3 AND FRAME_MASK" u] root by simp
qed

lemma leaf_write_same:
  assumes ch: "on3 m P va pml4 pdpt pd pt" and u: "path u = path va"
  shows "tr 0 pml4 u (tset pt (pt_index va) e m)
    = (if bit e 0 then Some ((e AND FRAME_MASK) + (u AND 0xFFF)) else None)"
proof -
  have "pml4 \<noteq> pt" "pdpt \<noteq> pt" "pd \<noteq> pt" using ch by (auto simp: on_defs)
  then have "on3 (tset pt (pt_index va) e m) P va pml4 pdpt pd pt"
    using ch by (simp add: on_defs linked_def tset_def)
  from on3_tr [OF this u] u show ?thesis by (simp add: tr_3 tset_def Let_def path_def)
qed

text \<open>Mapping a page, as a whole.\<close>

lemma map_page_into_space_cases:
  assumes wt: "wt m P" and root: "P (cr3 AND FRAME_MASK) = Some []"
    and r: "map_page_into_space cr3 va pa flags m = (ok, m')"
  shows "\<exists>P'. if ok
    then \<exists>m6 pdpt pd pt. evolves m m6 P P' \<and> on3 m6 P' va (cr3 AND FRAME_MASK) pdpt pd pt \<and>
      m' = tset pt (pt_index va) ((pa AND FRAME_MASK) OR (flags AND NOT FRAME_MASK)) m6
    else evolves m m' P P'"
proof -
  let ?pml4 = "cr3 AND FRAME_MASK"
  obtain pdpt m1 where r1: "get_or_alloc_child ?pml4 (pml4_index va) m = (pdpt, m1)" by fastforce
  define m2 where "m2 = propagate_user flags ?pml4 (pml4_index va) m1"
  obtain pd m3 where r2: "get_or_alloc_pd pdpt (pdpt_index va) m2 = (pd, m3)" by fastforce
  define m4 where "m4 = propagate_user flags pdpt (pdpt_index va) m3"
  obtain pt m5 where r3: "get_or_alloc_pt pd (pd_index va) m4 = (pt, m5)" by fastforce
  define m6 where "m6 = propagate_user flags pd (pd_index va) m5"
  have res: "(ok, m') = (if pdpt = 0 then (False, m1) else if pd = 0 then (False, m3) else if pt = 0 then (False, m5)
      else (True, tset pt (pt_index va) ((pa AND FRAME_MASK) OR (flags AND NOT FRAME_MASK)) m6))"
    using r r1 r2 r3 unfolding m2_def m4_def m6_def
    by (cases "pdpt = 0"; cases "pd = 0"; cases "pt = 0") (simp_all add: map_page_into_space_def Let_def)
  obtain P1 where e1: "evolves m m1 P P1" and l1: "pdpt \<noteq> 0 \<longrightarrow> on1 m1 P1 va ?pml4 pdpt"
    using to_level1 [OF wt root r1] by blast
  show ?thesis
  proof (cases "pdpt = 0")
    case True
    then show ?thesis using res e1 by (intro exI [of _ P1]) simp
  next
    case n1: False
    have o1: "on1 m2 P1 va ?pml4 pdpt" and e2: "evolves m m2 P P1"
      using on1_user [OF evolves_wt [OF e1], of va ?pml4 pdpt flags] l1 n1 evolves_trans [OF e1]
      by (auto simp: m2_def)
    from to_level2 [OF evolves_wt [OF e2] o1 r2] obtain P2 where e3: "evolves m m3 P P2"
      and l2: "pd \<noteq> 0 \<longrightarrow> on2 m3 P2 va ?pml4 pdpt pd" using evolves_trans [OF e2] by blast
    show ?thesis
    proof (cases "pd = 0")
      case True
      then show ?thesis using res n1 e3 by (intro exI [of _ P2]) simp
    next
      case n2: False
      have o2: "on2 m4 P2 va ?pml4 pdpt pd" and e4: "evolves m m4 P P2"
        using on2_user [OF evolves_wt [OF e3], of va ?pml4 pdpt pd flags] l2 n2 evolves_trans [OF e3]
        by (auto simp: m4_def)
      from to_level3 [OF evolves_wt [OF e4] o2 r3] obtain P3 where e5: "evolves m m5 P P3"
        and l3: "pt \<noteq> 0 \<longrightarrow> on3 m5 P3 va ?pml4 pdpt pd pt" using evolves_trans [OF e4] by blast
      show ?thesis
      proof (cases "pt = 0")
        case True
        then show ?thesis using res n1 n2 e5 by (intro exI [of _ P3]) simp
      next
        case n3: False
        have "on3 m6 P3 va ?pml4 pdpt pd pt" "evolves m m6 P P3"
          using on3_user [OF evolves_wt [OF e5], of va ?pml4 pdpt pd pt flags] l3 n3 evolves_trans [OF e5]
          by (auto simp: m6_def)
        then show ?thesis using res n1 n2 n3 by (intro exI [of _ P3]) auto
      qed
    qed
  qed
qed

section \<open>Enough table pages\<close>

lemma link_filled_room:
  assumes "wt m P" "link_filled t i f m = (c, m')"
  shows "pt_pool_next m' \<le> pt_pool_next m + 1" "pt_pool_next m < PT_POOL_PAGES \<Longrightarrow> c \<noteq> 0"
proof -
  show "pt_pool_next m' \<le> pt_pool_next m + 1"
    using assms(2) by (auto simp: link_filled_def alloc_table_page_def tset_def tfill_def split: if_splits)
  assume "pt_pool_next m < PT_POOL_PAGES"
  then obtain ch m1 where al: "alloc_table_page m = (Some ch, m1)" by (auto simp: alloc_table_page_def)
  then show "c \<noteq> 0" using alloc_table_page_Some(3) [OF assms(1) al] assms(2) by (auto simp: link_filled_def)
qed

lemma child_nonzero:
  "wt m P \<Longrightarrow> P 0 = None \<Longrightarrow> P t = Some p \<Longrightarrow> bit (tabs m t i) 0 \<Longrightarrow> \<not> is_leaf (length p) (tabs m t i) \<Longrightarrow>
   tabs m t i AND FRAME_MASK \<noteq> 0"
  unfolding wt_def entry_ok_def by fastforce

lemma make_user_pool [simp]: "pt_pool_next (make_user t i e m) = pt_pool_next m"
  by (simp add: make_user_def tset_def)

lemma propagate_user_pool [simp]: "pt_pool_next (propagate_user fl t i m) = pt_pool_next m"
  by (simp add: propagate_user_def tset_def)

lemma child_room:
  assumes "wt m P" "P 0 = None" "P t = Some []" "get_or_alloc_child t i m = (c, m')"
  shows "pt_pool_next m' \<le> pt_pool_next m + 1" "pt_pool_next m < PT_POOL_PAGES \<Longrightarrow> c \<noteq> 0"
  using assms(4) link_filled_room [OF assms(1), of t i "\<lambda>_. 0" c m'] child_nonzero [OF assms(1-3), of i]
  by (auto simp: get_or_alloc_child_def tget_def present_iff Let_def is_leaf_def split: if_splits)

lemma pd_room:
  assumes "wt m P" "P 0 = None" "P t = Some p" "length p = 1" "get_or_alloc_pd t i m = (c, m')"
  shows "pt_pool_next m' \<le> pt_pool_next m + 1" "pt_pool_next m < PT_POOL_PAGES \<Longrightarrow> c \<noteq> 0"
  using assms(5) link_filled_room [OF assms(1), of t i "\<lambda>_. 0" c m']
    link_filled_room [OF assms(1), of t i "split_1gb (tabs m t i)" c m'] child_nonzero [OF assms(1-3), of i] assms(4)
  by (auto simp: get_or_alloc_pd_cases Let_def is_leaf_def split: if_splits)

lemma pt_room:
  assumes "wt m P" "P 0 = None" "P t = Some p" "length p = 2" "get_or_alloc_pt t i m = (c, m')"
  shows "pt_pool_next m < PT_POOL_PAGES \<Longrightarrow> c \<noteq> 0"
  using assms(5) link_filled_room [OF assms(1), of t i "\<lambda>_. 0" c m']
    link_filled_room [OF assms(1), of t i "split_2mb (tabs m t i)" c m'] child_nonzero [OF assms(1-3), of i] assms(4)
  by (auto simp: get_or_alloc_pt_cases Let_def is_leaf_def split: if_splits)

text \<open>With three free table pages a mapping cannot fail.\<close>

lemma map_page_into_space_succeeds:
  assumes wt: "wt m P" and root: "P (cr3 AND FRAME_MASK) = Some []" "P 0 = None"
    and room: "pt_pool_next m + 3 \<le> PT_POOL_PAGES"
  shows "fst (map_page_into_space cr3 va pa flags m)"
proof -
  let ?pml4 = "cr3 AND FRAME_MASK"
  obtain pdpt m1 where r1: "get_or_alloc_child ?pml4 (pml4_index va) m = (pdpt, m1)" by fastforce
  have q1: "pt_pool_next m1 \<le> pt_pool_next m + 1" "pdpt \<noteq> 0"
    using child_room [OF wt root(2,1) r1] room by auto
  define m2 where "m2 = propagate_user flags ?pml4 (pml4_index va) m1"
  obtain P1 where e1: "evolves m m1 P P1" and l1: "on1 m1 P1 va ?pml4 pdpt"
    using to_level1 [OF wt root(1) r1] q1 by blast
  note u1 = on1_user [OF evolves_wt [OF e1] l1, of flags, folded m2_def]
  obtain pd m3 where r2: "get_or_alloc_pd pdpt (pdpt_index va) m2 = (pd, m3)" by fastforce
  have z1: "P1 0 = None" using e1 root(2) by (simp add: evolves_def)
  have p1: "P1 pdpt = Some [pml4_index va]" using l1 by (simp add: on1_def)
  have q2: "pt_pool_next m3 \<le> pt_pool_next m + 2" "pd \<noteq> 0"
    using pd_room [OF evolves_wt [OF u1(1)] z1 p1 _ r2] q1 room by (auto simp: m2_def)
  obtain P2 where e2: "evolves m2 m3 P1 P2" and l2: "on2 m3 P2 va ?pml4 pdpt pd"
    using to_level2 [OF evolves_wt [OF u1(1)] u1(2) r2] q2 by blast
  define m4 where "m4 = propagate_user flags pdpt (pdpt_index va) m3"
  note u2 = on2_user [OF evolves_wt [OF e2] l2, of flags, folded m4_def]
  obtain pt m5 where r3: "get_or_alloc_pt pd (pd_index va) m4 = (pt, m5)" by fastforce
  have z2: "P2 0 = None" using e2 z1 by (simp add: evolves_def)
  have p2: "P2 pd = Some [pml4_index va, pdpt_index va]" using l2 by (simp add: on2_def)
  have "pt \<noteq> 0" using pt_room [OF evolves_wt [OF u2(1)] z2 p2 _ r3] q2 room by (simp add: m4_def)
  with q1 q2 r1 r2 r3 show ?thesis by (simp add: map_page_into_space_def Let_def m2_def m4_def)
qed

section \<open>Address spaces\<close>

lemma tr_agree:
  assumes wt: "wt m P" and ag: "\<And>t. P t \<noteq> None \<Longrightarrow> tabs m' t = tabs m t"
    and d: "d \<le> 3" and t: "P t = Some (take d (path va))"
  shows "tr d t va m' = tr d t va m"
  using d t
proof (induction "3 - d" arbitrary: d t rule: less_induct)
  case less
  let ?e = "tabs m t (path va ! d)"
  have e: "tabs m' t (path va ! d) = ?e" using ag less.prems(2) by simp
  have ok: "entry_ok P (take d (path va)) (path va ! d) ?e" using wt less.prems(2) by (simp add: wt_def)
  have "tr (d + 1) (?e AND FRAME_MASK) va m' = tr (d + 1) (?e AND FRAME_MASK) va m"
    if "bit ?e 0" "\<not> is_leaf d ?e"
  proof (rule less.hyps)
    have "d < 3" using that(2) by (simp add: is_leaf_def)
    then show "3 - (d + 1) < 3 - d" "d + 1 \<le> 3" by simp_all
    then show "P (?e AND FRAME_MASK) = Some (take (d + 1) (path va))"
      using ok that by (simp add: entry_ok_def take_Suc_conv_app_nth)
  qed
  then show ?case unfolding tr_step [of d t va m'] tr_step [of d t va m] e Let_def by simp
qed

text \<open>A fresh table at path \<open>p\<close> with entries that fit there extends the typing.\<close>

lemma fresh_table:
  assumes wt: "wt m P" and al: "alloc_table_page m = (Some c, m1)" and f: "\<And>i. entry_ok P p i (f i)" "length p \<le> 3"
  shows "wt (tfill c f m1) (P(c \<mapsto> p))" "P \<subseteq>\<^sub>m P(c \<mapsto> p)" "\<And>t. P t \<noteq> None \<Longrightarrow> tabs (tfill c f m1) t = tabs m t"
    "tabs (tfill c f m1) c = f" "kernel_cr3 (tfill c f m1) = kernel_cr3 m"
proof -
  note c = alloc_table_page_Some [OF wt al]
  have ext: "entry_ok P q j x \<Longrightarrow> entry_ok (P(c \<mapsto> p)) q j x" for q j x using c(1) by (auto simp: entry_ok_def)
  show "\<And>t. P t \<noteq> None \<Longrightarrow> tabs (tfill c f m1) t = tabs m t" using c by (auto simp: tfill_def)
  show "P \<subseteq>\<^sub>m P(c \<mapsto> p)" using c(1) by (auto simp: map_le_def)
  show "tabs (tfill c f m1) c = f" "kernel_cr3 (tfill c f m1) = kernel_cr3 m" by (simp_all add: tfill_def c(4))
  show "wt (tfill c f m1) (P(c \<mapsto> p))"
    unfolding wt_def
  proof (intro conjI allI impI)
    show "\<exists>n. pool_frame (tfill c f m1) n" using wt by (auto simp: wt_def pool_frame_def tfill_def c(4))
    fix k assume "pt_pool_next (tfill c f m1) \<le> k \<and> k < PT_POOL_PAGES"
    then show "(P(c \<mapsto> p)) (pt_pool_base (tfill c f m1) + of_nat k * PAGE_SIZE_4K) = None"
      using c(4,5) wt by (auto simp: wt_def tfill_def)
  next
    fix t q assume q: "(P(c \<mapsto> p)) t = Some q"
    then show "length q \<le> 3" using f(2) wt by (auto simp: wt_def split: if_splits)
    fix j
    show "entry_ok (P(c \<mapsto> p)) q j (tabs (tfill c f m1) t j)"
      using q f(1) ext wt by (auto simp: tfill_def c(4) wt_def split: if_splits)
  qed
qed

lemma wt_tset:
  "wt m P \<Longrightarrow> P t = Some p \<Longrightarrow> entry_ok P p i e \<Longrightarrow> wt (tset t i e m) P"
  unfolding wt_def by (auto simp: tset_def pool_frame_def)

lemma new_address_space_ok:
  assumes "wt m P" "new_address_space m = (cr3, m')" "cr3 \<noteq> 0"
  shows "\<exists>P'. wt m' P' \<and> P \<subseteq>\<^sub>m P' \<and> P' (cr3 AND FRAME_MASK) = Some [] \<and> P' 0 = P 0 \<and> same_tr m m' P \<and>
    (\<forall>va. translate_in_space cr3 va m' = None)"
proof (cases "alloc_table_page m")
  case (Pair a m1)
  with assms(2,3) obtain c where a: "a = Some c" by (cases a) (auto simp: new_address_space_def)
  with Pair have al: "alloc_table_page m = (Some c, m1)" by simp
  with assms(2) have eq: "cr3 = c" "m' = tfill c (\<lambda>_. 0) m1" by (auto simp: new_address_space_def)
  note c = alloc_table_page_Some [OF assms(1) al]
  note f = fresh_table [OF assms(1) al, of "[]" "\<lambda>_. 0"]
  have "same_tr m m' P" unfolding same_tr_def eq using tr_agree [OF assms(1) f(3)] by (simp add: entry_ok_def)
  moreover have "translate_in_space cr3 va m' = None" for va
    unfolding translate_eq_tr eq c(2) tr_0 by (simp add: tfill_def)
  ultimately show ?thesis
    using f(1,2) c(2,3) eq by (intro exI [of _ "P(c \<mapsto> [])"]) (simp add: entry_ok_def)
qed

lemma copy_low_pd_room: "pt_pool_next m < PT_POOL_PAGES \<Longrightarrow> fst (copy_low_pd kt new m)"
  by (auto simp: copy_low_pd_def alloc_table_page_def Let_def)

lemma copy_low_pdpt_room: "pt_pool_next m + 1 < PT_POOL_PAGES \<Longrightarrow> fst (copy_low_pdpt kt new m)"
  using copy_low_pd_room
  by (auto simp: copy_low_pdpt_def alloc_table_page_def Let_def tset_def tfill_def)

text \<open>With three free table pages the creation of an address space succeeds.\<close>

lemma create_process_cr3_room:
  assumes "wt m P" "kernel_cr3 m \<noteq> 0" "pt_pool_next m + 2 < PT_POOL_PAGES"
  shows "fst (create_process_cr3 m) \<noteq> 0"
proof -
  from assms(3) obtain c m1 where al: "alloc_table_page m = (Some c, m1)" by (auto simp: alloc_table_page_def)
  note c = alloc_table_page_Some [OF assms(1) al]
  let ?r = "copy_low_pdpt (kernel_cr3 m AND FRAME_MASK) c (tfill c (tabs m1 (kernel_cr3 m AND FRAME_MASK)) m1)"
  have "fst ?r" using assms(3) by (intro copy_low_pdpt_room) (simp add: tfill_def c(4))
  then obtain m2 where "?r = (True, m2)" by (cases ?r) auto
  then show ?thesis using assms(2) al c(3) by (simp add: create_process_cr3_def Let_def)
qed

text \<open>The initial state: an empty pool at a page-aligned address, no tables.\<close>

definition mmu_boot :: "u64 \<Rightarrow> mmu" where
  "mmu_boot base = \<lparr>tabs = (\<lambda>_ _. 0), pt_pool_base = base, pt_pool_next = 0, kernel_cr3 = 0, cpu_cr3 = 0, pcid_next = 1\<rparr>"

lemma mmu_boot_wt: "0 < n \<Longrightarrow> n + PT_POOL_PAGES < 2 ^ 40 \<Longrightarrow> wt (mmu_boot (frame_addr n)) Map.empty"
  by (auto simp: wt_def mmu_boot_def pool_frame_def)

section \<open>Unmapping and process address spaces\<close>

lemma on3_of_entries:
  fixes va :: u64
  assumes wt: "wt m P" and root: "P pml4 = Some []"
  defines "e4 \<equiv> tabs m pml4 (pml4_index va)"
  defines "e3 \<equiv> tabs m (e4 AND FRAME_MASK) (pdpt_index va)"
  defines "e2 \<equiv> tabs m (e3 AND FRAME_MASK) (pd_index va)"
  assumes "bit e4 0" "bit e3 0" "\<not> bit e3 7" "bit e2 0" "\<not> bit e2 7"
  shows "on3 m P va pml4 (e4 AND FRAME_MASK) (e3 AND FRAME_MASK) (e2 AND FRAME_MASK)"
proof -
  have ok: "P t = Some p \<Longrightarrow> entry_ok P p i (tabs m t i)" for t p i using wt by (simp add: wt_def)
  have l4: "P (e4 AND FRAME_MASK) = Some [pml4_index va]"
    using ok [OF root, of "pml4_index va"] assms(6) by (simp add: entry_ok_def is_leaf_def e4_def)
  have l3: "P (e3 AND FRAME_MASK) = Some [pml4_index va, pdpt_index va]"
    using ok [OF l4, of "pdpt_index va"] assms(7,8) by (simp add: entry_ok_def is_leaf_def e3_def)
  have l2: "P (e2 AND FRAME_MASK) = Some [pml4_index va, pdpt_index va, pd_index va]"
    using ok [OF l3, of "pd_index va"] assms(9,10) by (simp add: entry_ok_def is_leaf_def e2_def)
  show ?thesis
    using root l4 l3 l2 assms(6-10) by (simp add: on_defs linked_def is_leaf_def e4_def e3_def e2_def)
qed

text \<open>The walk for \<open>va\<close> meets a large page.\<close>

definition large_page :: "u64 \<Rightarrow> u64 \<Rightarrow> mmu \<Rightarrow> bool" where
  "large_page cr3 va m \<longleftrightarrow>
     (let e4 = tabs m (cr3 AND FRAME_MASK) (pml4_index va);
          e3 = tabs m (e4 AND FRAME_MASK) (pdpt_index va);
          e2 = tabs m (e3 AND FRAME_MASK) (pd_index va)
      in bit e4 0 \<and> bit e3 0 \<and> (bit e3 7 \<or> (bit e2 0 \<and> bit e2 7)))"

lemma unmap_small:
  assumes wt: "wt m P" and root: "P (cr3 AND FRAME_MASK) = Some []" and small: "\<not> large_page cr3 va m"
  shows "wt (unmap_page_in_space cr3 va m) P \<and>
    (path u = path va \<longrightarrow> translate_in_space cr3 u (unmap_page_in_space cr3 va m) = None) \<and>
    (P (cr3' AND FRAME_MASK) = Some [] \<longrightarrow> path u \<noteq> path va \<longrightarrow>
      translate_in_space cr3' u (unmap_page_in_space cr3 va m) = translate_in_space cr3' u m)"
proof -
  let ?pml4 = "cr3 AND FRAME_MASK"
  let ?e4 = "tabs m ?pml4 (pml4_index va)"
  let ?e3 = "tabs m (?e4 AND FRAME_MASK) (pdpt_index va)"
  let ?e2 = "tabs m (?e3 AND FRAME_MASK) (pd_index va)"
  have un: "unmap_page_in_space cr3 va m =
      (if \<not> bit ?e4 0 \<or> \<not> bit ?e3 0 \<or> \<not> bit ?e2 0 then m else tset (?e2 AND FRAME_MASK) (pt_index va) 0 m)"
    by (simp add: unmap_page_in_space_def tget_def present_iff Let_def)
  show ?thesis
  proof (cases "\<not> bit ?e4 0 \<or> \<not> bit ?e3 0 \<or> \<not> bit ?e2 0")
    case True
    have "translate_in_space cr3 u m = None" if "path u = path va"
      using True small that unfolding translate_eq_tr tr_levels Let_def large_page_def path_def by auto
    with True wt show ?thesis unfolding un by simp
  next
    case False
    then have o: "on3 m P va ?pml4 (?e4 AND FRAME_MASK) (?e3 AND FRAME_MASK) (?e2 AND FRAME_MASK)"
      using small by (intro on3_of_entries [OF wt root]) (auto simp: large_page_def Let_def)
    then have "wt (tset (?e2 AND FRAME_MASK) (pt_index va) 0 m) P"
      by (intro leaf_write_wt [OF wt]) (auto simp: on3_def)
    with False show ?thesis
      using leaf_write_same [OF o, of u 0] leaf_write_other [OF wt o, of cr3' u 0]
      unfolding un by (simp add: translate_eq_tr)
  qed
qed

text \<open>The copies \<open>create_process_cr3\<close> makes.\<close>

lemma entry_copy: "wt m P \<Longrightarrow> P t = Some p \<Longrightarrow> entry_ok P p i (tabs m t i)"
  by (simp add: wt_def)

lemma relinked_frame:
  "(x AND FRAME_MASK OR (e AND NOT FRAME_MASK)) AND FRAME_MASK = x AND FRAME_MASK"
  "bit (x AND FRAME_MASK OR (e AND NOT FRAME_MASK)) 0 = bit e 0"
  "bit (x AND FRAME_MASK OR (e AND NOT FRAME_MASK)) 7 = bit e 7"
proof -
  show "(x AND FRAME_MASK OR (e AND NOT FRAME_MASK)) AND FRAME_MASK = x AND FRAME_MASK"
    by (rule bit_word_eqI) (auto simp: bit_or_iff bit_and_iff bit_not_iff)
qed (simp_all add: bit_or_iff bit_and_iff bit_not_iff)

lemma relinked_ok:
  "P c = Some (p @ [i]) \<Longrightarrow> c AND FRAME_MASK = c \<Longrightarrow> length p < 3 \<Longrightarrow> \<not> is_leaf (length p) e \<Longrightarrow>
   entry_ok P p i ((c AND FRAME_MASK) OR (e AND NOT FRAME_MASK))"
  unfolding entry_ok_def is_leaf_def relinked_frame by auto

text \<open>A walk through an entry that is the same in two tables, below which nothing changed.\<close>

lemma tr_same_entry:
  assumes wt: "wt m P" and ch: "changed_at t0 i0 m m' P" and t0: "P t0 = Some p" "length p \<le> d"
    and kt: "P kt = Some (take d (path va))" "d \<le> 3"
    and e: "tabs m' t (path va ! d) = tabs m kt (path va ! d)"
  shows "tr d t va m' = tr d kt va m"
proof -
  let ?e = "tabs m kt (path va ! d)"
  have "tr (d + 1) (?e AND FRAME_MASK) va m' = tr (d + 1) (?e AND FRAME_MASK) va m"
    if "bit ?e 0" "\<not> is_leaf d ?e"
  proof (rule tr_deeper [OF wt ch t0(1)])
    show "d + 1 \<le> 3" "length p < d + 1" using that(2) t0(2) by (auto simp: is_leaf_def)
    show "P (?e AND FRAME_MASK) = Some (take (d + 1) (path va))"
      using entry_copy [OF wt kt(1), of "path va ! d"] that kt(2)
      by (simp add: entry_ok_def take_Suc_conv_app_nth)
  qed
  then show ?thesis unfolding tr_step [of d t va m'] tr_step [of d kt va m] e Let_def by simp
qed

lemma copy_low_pd_ok:
  assumes wt: "wt m P" and n: "P new = Some [0]" and k: "P kt = Some [0]" and cp: "tabs m new = tabs m kt"
    and r: "copy_low_pd kt new m = (True, m')"
  shows "\<exists>P'. wt m' P' \<and> P \<subseteq>\<^sub>m P' \<and> changed_at new 0 m m' P \<and> kernel_cr3 m' = kernel_cr3 m \<and>
    (\<forall>va. pml4_index va = 0 \<longrightarrow> tr 1 new va m' =
       (if pdpt_index va = 0 \<and> pd_index va = 5 \<and> bit (tabs m kt 0) 0 \<and> \<not> bit (tabs m kt 0) 7 then None
        else tr 1 kt va m))"
proof (cases "bit (tabs m kt 0) 0 \<and> \<not> bit (tabs m kt 0) 7")
  case False
  then have "m' = m" using r by (simp add: copy_low_pd_def tget_def present_iff huge_iff Let_def split: if_splits)
  moreover have "tr 1 new va m = tr 1 kt va m" for va unfolding tr_1 cp ..
  ultimately show ?thesis using wt False by (intro exI [of _ P]) (auto simp: changed_at_def)
next
  case True
  let ?e = "tabs m kt 0"
  let ?kpd = "?e AND FRAME_MASK"
  from r True obtain c m1 where al: "alloc_table_page m = (Some c, m1)"
    by (auto simp: copy_low_pd_def tget_def present_iff huge_iff Let_def split: if_splits prod.splits option.splits)
  note c = alloc_table_page_Some [OF wt al]
  let ?f = "(tabs m ?kpd)(5 := 0)"
  let ?m2 = "tfill c ?f m1" and ?x = "(c AND FRAME_MASK) OR (?e AND NOT FRAME_MASK)"
  have kpd: "P ?kpd = Some [0, 0]" using entry_copy [OF wt k, of 0] True by (simp add: entry_ok_def is_leaf_def)
  have cn: "c \<noteq> new" "new \<noteq> c" using c(1) n by auto
  have m': "m' = tset new 0 ?x ?m2"
    using r True al cn
    by (simp add: copy_low_pd_def tget_def present_iff huge_iff Let_def tset_def tfill_def c(4))
  have ok: "entry_ok P [0, 0] i (?f i)" for i using entry_copy [OF wt kpd, of i] by (simp add: entry_ok_def)
  have le: "length [0 :: nat, 0] \<le> 3" by simp
  note f = fresh_table [OF wt al, where f = ?f, OF ok le]
  let ?P = "P(c \<mapsto> [0, 0])"
  have "entry_ok ?P [0] 0 ?x"
    using True c(2) by (intro relinked_ok) (simp_all add: is_leaf_def)
  then have "wt m' ?P" unfolding m' using f(1) n cn by (intro wt_tset) simp_all
  moreover have ch: "changed_at new 0 m m' P"
    unfolding changed_at_def m' using f(3) cn by (auto simp: tset_def)
  moreover have "tr 1 new va m' = (if pdpt_index va = 0 \<and> pd_index va = 5 then None else tr 1 kt va m)"
    if z: "pml4_index va = 0" for va
  proof (cases "pdpt_index va = 0")
    case False
    then have "tabs m' new (path va ! 1) = tabs m kt (path va ! 1)"
      using f(3) n cp by (simp add: m' tset_def path_def)
    from tr_same_entry [OF wt ch n _ _ _ this] k z False show ?thesis by (simp add: path_def)
  next
    case True1: True
    have xb: "bit ?x 0" "\<not> bit ?x 7" "?x AND FRAME_MASK = c"
      unfolding relinked_frame using True c(2) by auto
    have "tabs m' new 0 = ?x" by (simp add: m' tset_def)
    then have n2: "tr 1 new va m' = tr 2 c va m'" unfolding tr_1 Let_def True1 using xb by simp
    have k2: "tr 1 kt va m = tr 2 ?kpd va m" unfolding tr_1 Let_def True1 using True by simp
    have ct: "tabs m' c = ?f" using f(4) cn by (simp add: m' tset_def)
    show ?thesis
    proof (cases "pd_index va = 5")
      case True
      then have "tr 2 c va m' = None" unfolding tr_2 Let_def ct by simp
      with True1 True n2 show ?thesis by simp
    next
      case False
      then have "tabs m' c (path va ! 2) = tabs m ?kpd (path va ! 2)" by (simp add: ct path_def)
      from tr_same_entry [OF wt ch n _ _ _ this] kpd z True1 have "tr 2 c va m' = tr 2 ?kpd va m"
        by (simp add: path_def)
      with False n2 k2 show ?thesis by simp
    qed
  qed
  ultimately show ?thesis
    using f(2) f(5) True by (intro exI [of _ ?P]) (simp add: m' tset_def)
qed

lemma copy_low_pdpt_ok:
  assumes wt: "wt m P" and n: "P new = Some []" and k: "P kt = Some []" and cp: "tabs m new = tabs m kt"
    and r: "copy_low_pdpt kt new m = (True, m')"
  defines "e3 \<equiv> tabs m (tabs m kt 0 AND FRAME_MASK) 0"
  shows "\<exists>P'. wt m' P' \<and> P \<subseteq>\<^sub>m P' \<and> changed_at new 0 m m' P \<and>
    (\<forall>va. tr 0 new va m' =
       (if pml4_index va = 0 \<and> pdpt_index va = 0 \<and> pd_index va = 5 \<and> bit (tabs m kt 0) 0 \<and> bit e3 0 \<and> \<not> bit e3 7
        then None else tr 0 kt va m))"
proof (cases "bit (tabs m kt 0) 0")
  case False
  then have "m' = m" using r by (simp add: copy_low_pdpt_def tget_def present_iff Let_def split: if_splits)
  moreover have "tr 0 new va m = tr 0 kt va m" for va unfolding tr_0 cp ..
  ultimately show ?thesis using wt False by (intro exI [of _ P]) (auto simp: changed_at_def)
next
  case True
  let ?e = "tabs m kt 0"
  let ?kpdpt = "?e AND FRAME_MASK"
  from r True obtain c m1 where al: "alloc_table_page m = (Some c, m1)"
    by (auto simp: copy_low_pdpt_def tget_def present_iff Let_def split: if_splits prod.splits option.splits)
  note c = alloc_table_page_Some [OF wt al]
  let ?x = "(c AND FRAME_MASK) OR (?e AND NOT FRAME_MASK)"
  define ma where "ma = tset new 0 ?x (tfill c (tabs m ?kpdpt) m1)"
  have kp: "P ?kpdpt = Some [0]" using entry_copy [OF wt k, of 0] True by (simp add: entry_ok_def is_leaf_def)
  have cn: "c \<noteq> new" "new \<noteq> c" "?kpdpt \<noteq> c" "?kpdpt \<noteq> new" using c(1) n kp by auto
  have r2: "copy_low_pd ?kpdpt c ma = (True, m')"
    using r True al by (simp add: copy_low_pdpt_def tget_def present_iff Let_def ma_def c(4))
  have ok: "entry_ok P [0] i (tabs m ?kpdpt i)" for i by (rule entry_copy [OF wt kp])
  have le: "length [0 :: nat] \<le> 3" by simp
  note f = fresh_table [OF wt al, where f = "tabs m ?kpdpt", OF ok le]
  let ?P = "P(c \<mapsto> [0])"
  have "entry_ok ?P [] 0 ?x" using c(2) by (intro relinked_ok) (simp_all add: is_leaf_def)
  then have wta: "wt ma ?P" unfolding ma_def using f(1) n cn by (intro wt_tset) simp_all
  have cha: "changed_at new 0 m ma P" unfolding changed_at_def ma_def using f(3) cn by (auto simp: tset_def)
  have tabsa: "tabs ma c = tabs ma ?kpdpt" "tabs ma ?kpdpt = tabs m ?kpdpt"
    using f(3) [of ?kpdpt] f(4) kp cn by (simp_all add: ma_def tset_def)
  have kpa: "?P ?kpdpt = Some [0]" using kp cn by simp
  have cc: "?P c = Some [0]" by simp
  from copy_low_pd_ok [OF wta cc kpa tabsa(1) r2, unfolded tabsa(2) e3_def [symmetric]]
  obtain P' where P': "wt m' P'" "?P \<subseteq>\<^sub>m P'"
    "changed_at c 0 ma m' ?P"
    "\<forall>va. pml4_index va = 0 \<longrightarrow> tr 1 c va m' =
       (if pdpt_index va = 0 \<and> pd_index va = 5 \<and> bit e3 0 \<and> \<not> bit e3 7 then None else tr 1 ?kpdpt va ma)"
    by blast
  have ch: "changed_at new 0 m m' P"
    using cha P'(3) c(1) unfolding changed_at_def by (metis (no_types, lifting) fun_upd_apply option.distinct(1) prod.inject)
  have "tr 0 new va m' =
       (if pml4_index va = 0 \<and> pdpt_index va = 0 \<and> pd_index va = 5 \<and> bit e3 0 \<and> \<not> bit e3 7
        then None else tr 0 kt va m)" for va
  proof (cases "pml4_index va = 0")
    case False
    have "tabs m' new (path va ! 0) = tabs m kt (path va ! 0)"
      using ch n False cp by (simp add: changed_at_def path_def)
    from tr_same_entry [OF wt ch n _ _ _ this] k False show ?thesis by simp
  next
    case True0: True
    have "tabs m' new 0 = ?x"
      using P'(3) n cn by (simp add: changed_at_def ma_def tset_def)
    moreover have "bit ?x 0" "?x AND FRAME_MASK = c" unfolding relinked_frame using True c(2) by auto
    ultimately have "tr 0 new va m' = tr 1 c va m'" unfolding tr_0 Let_def True0 by simp
    moreover have "tr 0 kt va m = tr 1 ?kpdpt va m" unfolding tr_0 Let_def True0 using True by simp
    moreover have "tr 1 ?kpdpt va ma = tr 1 ?kpdpt va m"
      using tr_deeper [OF wt cha n, of 1 ?kpdpt va] kp True0 by (simp add: path_def)
    ultimately show ?thesis using P'(4) True0 by simp
  qed
  moreover have "P \<subseteq>\<^sub>m P'" using f(2) P'(2) map_le_trans by blast
  ultimately show ?thesis using P'(1) ch True by (intro exI [of _ P']) simp
qed

text \<open>The kernel maps its lowest gigabyte through a page directory.\<close>

definition low_pd :: "mmu \<Rightarrow> bool" where
  "low_pd m \<longleftrightarrow> (let e4 = tabs m (kernel_cr3 m AND FRAME_MASK) 0; e3 = tabs m (e4 AND FRAME_MASK) 0
     in bit e4 0 \<and> bit e3 0 \<and> \<not> bit e3 7)"

lemma tr_0_clear:
  assumes wt: "wt m P" and t: "P t = Some []"
  shows "tr 0 t va (tset t 255 0 m) = (if pml4_index va = 255 then None else tr 0 t va m)"
proof (cases "pml4_index va = 255")
  case True
  then show ?thesis by (simp add: tr_0 tset_def)
next
  case False
  have ch: "changed_at t 255 m (tset t 255 0 m) P" by (auto simp: changed_at_def tset_def)
  have "tabs (tset t 255 0 m) t (path va ! 0) = tabs m t (path va ! 0)"
    using False by (simp add: tset_def path_def)
  from tr_same_entry [OF wt ch t _ _ _ this] t False show ?thesis by simp
qed

lemma create_process_cr3_ok:
  assumes wt: "wt m P" and k: "P (kernel_cr3 m AND FRAME_MASK) = Some []" "kernel_cr3 m \<noteq> 0"
    and r: "create_process_cr3 m = (cr3, m')" and ok: "cr3 \<noteq> 0"
  shows "\<exists>P'. wt m' P' \<and> P \<subseteq>\<^sub>m P' \<and> P' (cr3 AND FRAME_MASK) = Some [] \<and> P cr3 = None \<and> same_tr m m' P \<and>
    (\<forall>va. translate_in_space cr3 va m' =
       (if pml4_index va = 255 \<or> (pml4_index va = 0 \<and> pdpt_index va = 0 \<and> pd_index va = 5 \<and> low_pd m)
        then None else translate_in_space (kernel_cr3 m) va m))"
proof -
  let ?k = "kernel_cr3 m AND FRAME_MASK"
  from r k(2) ok obtain c m1 where al: "alloc_table_page m = (Some c, m1)"
    by (auto simp: create_process_cr3_def Let_def split: prod.splits option.splits)
  note c = alloc_table_page_Some [OF wt al]
  define ma where "ma = tfill c (tabs m1 ?k) m1"
  have "tabs m1 ?k = tabs m ?k" by (simp add: c(4))
  obtain b m2 where r2: "copy_low_pdpt ?k c ma = (b, m2)" by fastforce
  then have b: "b" "cr3 = c" "m' = tset c 255 0 m2"
    using r k(2) ok al by (auto simp: create_process_cr3_def Let_def ma_def split: bool.splits)
  have e: "entry_ok P [] i (tabs m1 ?k i)" for i using entry_copy [OF wt k(1), of i] by (simp add: c(4))
  have le: "length ([] :: nat list) \<le> 3" by simp
  note f = fresh_table [OF wt al, where f = "tabs m1 ?k", OF e le, folded ma_def]
  let ?P = "P(c \<mapsto> [])"
  have kc: "?k \<noteq> c" using k c(1) by auto
  have ka: "?P ?k = Some []" "?P c = Some []" using k kc by auto
  have tk: "tabs ma ?k = tabs m ?k" using f(3) k by simp
  have cp: "tabs ma c = tabs ma ?k" using f(4) tk by (simp add: c(4))
  have r3: "copy_low_pdpt ?k c ma = (True, m2)" using r2 b(1) by simp
  from copy_low_pdpt_ok [OF f(1) ka(2,1) cp r3] obtain P' where P': "wt m2 P'" "?P \<subseteq>\<^sub>m P'"
    "changed_at c 0 ma m2 ?P"
    "\<forall>va. tr 0 c va m2 = (if pml4_index va = 0 \<and> pdpt_index va = 0 \<and> pd_index va = 5 \<and> bit (tabs ma ?k 0) 0 \<and>
        bit (tabs ma (tabs ma ?k 0 AND FRAME_MASK) 0) 0 \<and> \<not> bit (tabs ma (tabs ma ?k 0 AND FRAME_MASK) 0) 7
        then None else tr 0 ?k va ma)" by blast
  have pc: "P' c = Some []" using map_le_Some [OF P'(2)] by simp
  have ag: "tabs m' t = tabs m t" if "P t \<noteq> None" for t
  proof -
    have "t \<noteq> c" using that c(1) by auto
    then have "tabs m' t j = tabs m t j" for j
      using P'(3) f(3) [OF that] that by (simp add: changed_at_def b(3) tset_def)
    then show ?thesis by blast
  qed
  have st: "same_tr m m' P" unfolding same_tr_def using tr_agree [OF wt ag] by blast
  have low: "bit (tabs ma ?k 0) 0 \<and> bit (tabs ma (tabs ma ?k 0 AND FRAME_MASK) 0) 0 \<and>
      \<not> bit (tabs ma (tabs ma ?k 0 AND FRAME_MASK) 0) 7 \<longleftrightarrow> low_pd m"
  proof (cases "bit (tabs m ?k 0) 0")
    case True
    then have "P (tabs m ?k 0 AND FRAME_MASK) = Some [0]"
      using entry_copy [OF wt k(1), of 0] by (simp add: entry_ok_def is_leaf_def)
    then have "tabs ma (tabs m ?k 0 AND FRAME_MASK) = tabs m (tabs m ?k 0 AND FRAME_MASK)" by (intro f(3)) simp
    then show ?thesis by (simp add: low_pd_def Let_def tk)
  qed (simp add: low_pd_def Let_def tk)
  have kt: "tr 0 ?k va ma = tr 0 ?k va m" for va
    using tr_agree [OF wt f(3), of 0 ?k va] k(1) by simp
  have "translate_in_space cr3 va m' =
       (if pml4_index va = 255 \<or> (pml4_index va = 0 \<and> pdpt_index va = 0 \<and> pd_index va = 5 \<and> low_pd m)
        then None else translate_in_space (kernel_cr3 m) va m)" for va
    using tr_0_clear [OF P'(1) pc, of va] P'(4) kt low by (simp add: translate_eq_tr b c(2))
  moreover have "wt m' P'" unfolding b using P'(1) pc by (intro wt_tset) (auto simp: entry_ok_def)
  moreover have "P \<subseteq>\<^sub>m P'" using f(2) P'(2) map_le_trans by blast
  ultimately show ?thesis using st pc b(2) c(1,2) by (intro exI [of _ P']) simp
qed

text \<open>The two outcomes of mapping a page.\<close>

lemma map_page_into_space_effect:
  assumes "wt m P" "P (cr3 AND FRAME_MASK) = Some []" "map_page_into_space cr3 va pa flags m = (ok, m')"
  shows "(\<exists>P'. wt m' P' \<and> P \<subseteq>\<^sub>m P') \<and> (P 0 = None \<and> pt_pool_next m + 3 \<le> PT_POOL_PAGES \<longrightarrow> ok) \<and>
    (\<forall>cr3' u. P (cr3' AND FRAME_MASK) = Some [] \<longrightarrow> path u \<noteq> path va \<or> \<not> ok \<longrightarrow>
       translate_in_space cr3' u m' = translate_in_space cr3' u m) \<and>
    (ok \<longrightarrow> (\<forall>u. path u = path va \<longrightarrow> translate_in_space cr3 u m' =
       (if bit flags 0 then Some ((pa AND FRAME_MASK) + (u AND 0xFFF)) else None)))"
proof (cases ok)
  case False
  with map_page_into_space_cases [OF assms] obtain P' where e: "evolves m m' P P'" by auto
  have "\<not> (P 0 = None \<and> pt_pool_next m + 3 \<le> PT_POOL_PAGES)"
    using False map_page_into_space_succeeds [OF assms(1,2), of va pa flags] unfolding assms(3) by auto
  moreover have "wt m' P'" "P \<subseteq>\<^sub>m P'" "same_tr m m' P" using e by (auto simp: evolves_def)
  ultimately show ?thesis using False same_trD by blast
next
  case True
  let ?e = "(pa AND FRAME_MASK) OR (flags AND NOT FRAME_MASK)"
  from True map_page_into_space_cases [OF assms] obtain P' m6 pdpt pd pt where e: "evolves m m6 P P'"
    and o: "on3 m6 P' va (cr3 AND FRAME_MASK) pdpt pd pt" and m': "m' = tset pt (pt_index va) ?e m6" by auto
  have "P' pt = Some [pml4_index va, pdpt_index va, pd_index va]" using o by (simp add: on3_def)
  then have "wt m' P'" unfolding m' using leaf_write_wt [OF evolves_wt [OF e]] by simp
  moreover have le: "P \<subseteq>\<^sub>m P'" and st: "same_tr m m6 P" using e by (auto simp: evolves_def)
  moreover have "translate_in_space cr3' u m' = translate_in_space cr3' u m"
    if "P (cr3' AND FRAME_MASK) = Some []" "path u \<noteq> path va" for cr3' u
    using leaf_write_other [OF evolves_wt [OF e] o map_le_Some [OF le that(1)] that(2)] same_trD [OF st that(1)]
    by (simp add: m')
  moreover have "bit ?e 0 = bit flags 0" by (simp add: bit_or_iff bit_and_iff bit_not_iff)
  moreover have "?e AND FRAME_MASK = pa AND FRAME_MASK"
    by (rule bit_word_eqI) (auto simp: bit_or_iff bit_and_iff bit_not_iff)
  moreover have "translate_in_space cr3 u m' = (if bit flags 0 then Some ((pa AND FRAME_MASK) + (u AND 0xFFF)) else None)"
    if "path u = path va" for u
    using leaf_write_same [OF o that, of ?e] calculation(5,6) by (simp add: translate_eq_tr m')
  ultimately show ?thesis using True by blast
qed

section \<open>Properties\<close>

text \<open>C7: mapping a page works and disturbs nothing. If \<open>map_page_into_space\<close> succeeds on a well-typed
  set of tables, every address of the page translates to the given frame (if the flags have the
  present bit, and to nothing otherwise), every other address translates in every address space as
  before, even when a 1 GiB or 2 MiB page had to be split on the way; if it fails, all translations
  are as before. The tables stay well typed, and with three free table pages it does not fail.\<close>

theorem map_page_into_space_correct:
  assumes "wt m P" "P (cr3 AND FRAME_MASK) = Some []" "map_page_into_space cr3 va pa flags m = (ok, m')"
  shows "(\<exists>P'. wt m' P' \<and> P \<subseteq>\<^sub>m P') \<and> (P 0 = None \<and> pt_pool_next m + 3 \<le> PT_POOL_PAGES \<longrightarrow> ok) \<and>
    (\<forall>cr3' u. P (cr3' AND FRAME_MASK) = Some [] \<longrightarrow> path u \<noteq> path va \<or> \<not> ok \<longrightarrow>
       translate_in_space cr3' u m' = translate_in_space cr3' u m) \<and>
    (ok \<longrightarrow> (\<forall>u. path u = path va \<longrightarrow> translate_in_space cr3 u m' =
       (if bit flags 0 then Some ((pa AND FRAME_MASK) + (u AND 0xFFF)) else None)))"
  using assms by (rule map_page_into_space_effect)

text \<open>A new, empty address space and one mapping in it.\<close>

definition demo_mmu :: mmu where
  "demo_mmu = snd (new_address_space (mmu_boot 0x200000))"

lemma demo_wt: "\<exists>P. wt demo_mmu P \<and> P (0x200000 AND FRAME_MASK) = Some [] \<and> P 0 = None"
proof -
  have f: "(0x200000 :: u64) = frame_addr 512" by (simp add: frame_addr_eq)
  have "wt (mmu_boot 0x200000) Map.empty" unfolding f by (rule mmu_boot_wt) (simp_all add: PT_POOL_PAGES_def)
  moreover have "new_address_space (mmu_boot 0x200000) = (0x200000, demo_mmu)"
    by (simp add: demo_mmu_def new_address_space_def alloc_table_page_def mmu_boot_def PT_POOL_PAGES_def)
  ultimately show ?thesis using new_address_space_ok [of "mmu_boot 0x200000" Map.empty] by fastforce
qed

lemma demo_pool: "pt_pool_next demo_mmu + 3 \<le> PT_POOL_PAGES"
  by (simp add: demo_mmu_def new_address_space_def alloc_table_page_def mmu_boot_def PT_POOL_PAGES_def tfill_def)

theorem map_page_into_space_correct_witness:
  "\<exists>m'. map_page_into_space 0x200000 0xA00000 0x1234000 7 demo_mmu = (True, m') \<and>
     translate_in_space 0x200000 0xA00123 m' = Some 0x1234123"
proof -
  obtain P where P: "wt demo_mmu P" "P (0x200000 AND FRAME_MASK) = Some []" "P 0 = None" using demo_wt by blast
  obtain ok m' where r: "map_page_into_space 0x200000 0xA00000 0x1234000 7 demo_mmu = (ok, m')" by fastforce
  have "path 0xA00123 = path 0xA00000"
    by (simp add: path_def pml4_index_def pdpt_index_def pd_index_def pt_index_def)
  then show ?thesis
    using map_page_into_space_correct [OF P(1,2) r] r P(3) demo_pool by (simp add: FRAME_MASK_def)
qed

text \<open>unmapping a page that is mapped by a 4 KiB entry (or not at all) makes every address of the
  page untranslated and leaves all other pages of all address spaces as they were.\<close>

theorem unmap_page_correct:
  assumes "wt m P" "P (cr3 AND FRAME_MASK) = Some []" "\<not> large_page cr3 va m"
  shows "wt (unmap_page_in_space cr3 va m) P \<and>
    (path u = path va \<longrightarrow> translate_in_space cr3 u (unmap_page_in_space cr3 va m) = None) \<and>
    (P (cr3' AND FRAME_MASK) = Some [] \<longrightarrow> path u \<noteq> path va \<longrightarrow>
      translate_in_space cr3' u (unmap_page_in_space cr3 va m) = translate_in_space cr3' u m)"
  using assms by (rule unmap_small)

theorem unmap_page_correct_witness:
  "translate_in_space 0x200000 0xA00123 (unmap_page_in_space 0x200000 0xA00000 demo_mmu) = None"
proof -
  obtain P where P: "wt demo_mmu P" "P (0x200000 AND FRAME_MASK) = Some []" using demo_wt by blast
  have "\<not> large_page 0x200000 0xA00000 demo_mmu"
    by (simp add: large_page_def Let_def demo_mmu_def new_address_space_def alloc_table_page_def mmu_boot_def
        PT_POOL_PAGES_def tfill_def)
  moreover have "path 0xA00123 = path 0xA00000"
    by (simp add: path_def pml4_index_def pdpt_index_def pd_index_def pt_index_def)
  ultimately show ?thesis using unmap_page_correct [OF P, of "0xA00000" "0xA00123"] by simp
qed

text \<open>unmapping ignores the page-size bit. Where a 2 MiB page is mapped, the call takes the page
  itself for a page table: it overwrites a word of it with zero, and the address stays mapped.\<close>

theorem unmap_large_page_writes_into_it:
  assumes "wt m P" "P (cr3 AND FRAME_MASK) = Some []"
    "tabs m (cr3 AND FRAME_MASK) (pml4_index va) = e4" "bit e4 0"
    "tabs m (e4 AND FRAME_MASK) (pdpt_index va) = e3" "bit e3 0" "\<not> bit e3 7"
    "tabs m (e3 AND FRAME_MASK) (pd_index va) = e2" "bit e2 0" "bit e2 7" "P (e2 AND FRAME_MASK) = None"
  shows "tabs (unmap_page_in_space cr3 va m) (e2 AND FRAME_MASK) (pt_index va) = 0 \<and>
    translate_in_space cr3 va (unmap_page_in_space cr3 va m) = Some ((e2 AND PDE_2MB_FRAME_MASK) + (va AND 0x1FFFFF))"
proof -
  have un: "unmap_page_in_space cr3 va m = tset (e2 AND FRAME_MASK) (pt_index va) 0 m"
    using assms(3-10) by (simp add: unmap_page_in_space_def tget_def present_iff Let_def)
  have "tabs (unmap_page_in_space cr3 va m) t = tabs m t" if "P t \<noteq> None" for t
    using that assms(11) by (auto simp: un tset_def)
  from tr_agree [OF assms(1) this, of 0 "cr3 AND FRAME_MASK" va] assms(2)
  have "translate_in_space cr3 va (unmap_page_in_space cr3 va m) = translate_in_space cr3 va m"
    by (simp add: translate_eq_tr)
  also have "\<dots> = Some ((e2 AND PDE_2MB_FRAME_MASK) + (va AND 0x1FFFFF))"
    using assms(3-10) unfolding translate_eq_tr tr_0 tr_1 tr_2 Let_def by simp
  finally show ?thesis by (simp add: un tset_def)
qed

text \<open>Three tables that map one 2 MiB page at \<open>0x40000000\<close>.\<close>

definition large_demo :: mmu where
  "large_demo = (mmu_boot 0x400000)\<lparr>tabs := (\<lambda>_ _. 0)
     (0x1000 := (\<lambda>_. 0)(0 := 0x2003), 0x2000 := (\<lambda>_. 0)(1 := 0x3003), 0x3000 := (\<lambda>_. 0)(0 := 0x600083))\<rparr>"

lemma large_demo_wt: "wt large_demo [0x1000 \<mapsto> [], 0x2000 \<mapsto> [0], 0x3000 \<mapsto> [0, 1]]"
proof -
  have f: "(0x400000 :: u64) = frame_addr 1024" by (simp add: frame_addr_eq)
  have pf: "pool_frame large_demo 1024" by (simp add: pool_frame_def large_demo_def mmu_boot_def f PT_POOL_PAGES_def)
  have ne: "frame_addr (1024 + k) \<notin> {0x1000, 0x2000, 0x3000}" if "k < PT_POOL_PAGES" for k
  proof -
    have "unat (frame_addr (1024 + k)) = (1024 + k) * 4096" using that by (intro frame_addr_unat) (simp add: PT_POOL_PAGES_def)
    then show ?thesis by auto
  qed
  have hi: "\<not> bit (0x600083 :: u64) n" if "52 \<le> n" for n
    using bit_small_nat [of "0x600083" 23 n] that by auto
  let ?P = "[0x1000 \<mapsto> [], 0x2000 \<mapsto> [0], 0x3000 \<mapsto> [0, 1]] :: u64 \<rightharpoonup> nat list"
  have "?P (pt_pool_base large_demo + of_nat k * PAGE_SIZE_4K) = None" if "k < PT_POOL_PAGES" for k
    unfolding pool_page_eq [OF pf] using ne [OF that] by auto
  moreover have "length p \<le> 3 \<and> (\<forall>i. entry_ok ?P p i (tabs large_demo t i))" if "?P t = Some p" for t p
    using that hi
    by (auto simp: large_demo_def mmu_boot_def entry_ok_def is_leaf_def FRAME_MASK_def split: if_splits)
  ultimately show ?thesis unfolding wt_def using pf by blast
qed

theorem unmap_large_page_writes_into_it_witness:
  "translate_in_space 0x1000 0x40001234 (unmap_page_in_space 0x1000 0x40001234 large_demo) = Some 0x601234"
proof -
  have "tabs large_demo (0x1000 AND FRAME_MASK) (pml4_index 0x40001234) = 0x2003"
    "tabs large_demo (0x2003 AND FRAME_MASK) (pdpt_index 0x40001234) = 0x3003"
    "tabs large_demo (0x3003 AND FRAME_MASK) (pd_index 0x40001234) = 0x600083"
    by (simp_all add: large_demo_def mmu_boot_def FRAME_MASK_def pml4_index_def pdpt_index_def pd_index_def)
  note e = this
  have root: "[0x1000 \<mapsto> [], 0x2000 \<mapsto> [0], 0x3000 \<mapsto> [0, 1]] ((0x1000 :: u64) AND FRAME_MASK) = Some []"
    "[0x1000 \<mapsto> [], 0x2000 \<mapsto> [0], 0x3000 \<mapsto> [0, 1]] ((0x600083 :: u64) AND FRAME_MASK) = None"
    by (simp_all add: FRAME_MASK_def)
  show ?thesis
    using unmap_large_page_writes_into_it [OF large_demo_wt root(1) e(1) _ e(2) _ _ e(3) _ _ root(2)]
    by (simp add: PDE_2MB_FRAME_MASK_def)
qed

text \<open>C27: a new process address space sees exactly the kernel's mappings, except that the window for
  user stacks (PML4 slot 255) and the 2 MiB at the user load address are empty; creating it changes
  no translation of any existing address space.\<close>

theorem create_process_cr3_correct:
  assumes "wt m P" "P (kernel_cr3 m AND FRAME_MASK) = Some []" "kernel_cr3 m \<noteq> 0"
    "create_process_cr3 m = (cr3, m')" "cr3 \<noteq> 0"
  shows "(\<exists>P'. wt m' P' \<and> P \<subseteq>\<^sub>m P' \<and> P' (cr3 AND FRAME_MASK) = Some []) \<and>
    (\<forall>cr3' u. P (cr3' AND FRAME_MASK) = Some [] \<longrightarrow> translate_in_space cr3' u m' = translate_in_space cr3' u m) \<and>
    (\<forall>va. translate_in_space cr3 va m' =
       (if pml4_index va = 255 \<or> (pml4_index va = 0 \<and> pdpt_index va = 0 \<and> pd_index va = 5 \<and> low_pd m)
        then None else translate_in_space (kernel_cr3 m) va m))"
proof -
  from create_process_cr3_ok [OF assms] obtain P' where P': "wt m' P'" "P \<subseteq>\<^sub>m P'" "P' (cr3 AND FRAME_MASK) = Some []"
    "same_tr m m' P"
    "\<forall>va. translate_in_space cr3 va m' =
       (if pml4_index va = 255 \<or> (pml4_index va = 0 \<and> pdpt_index va = 0 \<and> pd_index va = 5 \<and> low_pd m)
        then None else translate_in_space (kernel_cr3 m) va m)" by blast
  moreover have "\<forall>cr3' u. P (cr3' AND FRAME_MASK) = Some [] \<longrightarrow> translate_in_space cr3' u m' = translate_in_space cr3' u m"
    using same_trD [OF P'(4)] by blast
  ultimately show ?thesis by blast
qed

theorem create_process_cr3_correct_witness:
  "\<exists>cr3 m'. create_process_cr3 (large_demo\<lparr>kernel_cr3 := 0x1000\<rparr>) = (cr3, m') \<and>
     translate_in_space cr3 0x40001234 m' = Some 0x601234"
proof -
  let ?m = "large_demo\<lparr>kernel_cr3 := 0x1000\<rparr>" and ?P = "[0x1000 \<mapsto> [], 0x2000 \<mapsto> [0], 0x3000 \<mapsto> [0, 1]] :: u64 \<rightharpoonup> nat list"
  have wt: "wt ?m ?P" using large_demo_wt by (simp add: wt_def pool_frame_def)
  have root: "?P (kernel_cr3 ?m AND FRAME_MASK) = Some []" by (simp add: FRAME_MASK_def)
  obtain cr3 m' where r: "create_process_cr3 ?m = (cr3, m')" by fastforce
  have "cr3 \<noteq> 0"
    using create_process_cr3_room [OF wt] r by (simp add: large_demo_def mmu_boot_def PT_POOL_PAGES_def)
  from create_process_cr3_correct [OF wt root _ r this]
  have "translate_in_space cr3 0x40001234 m' = translate_in_space 0x1000 0x40001234 ?m"
    by (simp add: pml4_index_def pdpt_index_def)
  also have "\<dots> = Some 0x601234"
    by (simp add: translate_in_space_def tget_def Let_def large_demo_def mmu_boot_def FRAME_MASK_def flag_mask.simps
        PDE_PS_def PDPTE_PS_def pml4_index_def pdpt_index_def pd_index_def PDE_2MB_FRAME_MASK_def)
  finally show ?thesis using r by blast
qed

end
