(* ===== verification/Address_Space.thy ===== *)
theory Address_Space
  imports Paging
begin

text \<open>
  Virtual memory areas and address spaces (\<open>kernel/memory/virtual\<close>): \<open>region.rs\<close>, \<open>address_space.rs\<close>
  and \<open>mapping.rs\<close>. \<open>map_range\<close> joins the page allocator and the page tables; the theorem about it
  rests on the contract of the allocator (locale \<open>frame_source\<close>) and on the mapping theorem.
\<close>

section \<open>Areas\<close>

record vm_area =
  vma_start :: u64
  vma_end :: u64
  vma_flags :: u64

definition vma_len :: "vm_area \<Rightarrow> u64" where
  "vma_len a = word_ssub (vma_end a) (vma_start a)"

definition is_page_aligned :: "vm_area \<Rightarrow> bool" where
  "is_page_aligned a \<longleftrightarrow> vma_start a AND (PAGE_SIZE_4K - 1) = 0 \<and> vma_end a AND (PAGE_SIZE_4K - 1) = 0"

definition vma_overlaps :: "vm_area \<Rightarrow> vm_area \<Rightarrow> bool" where
  "vma_overlaps a b \<longleftrightarrow> vma_start a < vma_end b \<and> vma_start b < vma_end a"

definition MAX_REGIONS :: nat where "MAX_REGIONS = 32"

record address_space =
  as_cr3 :: u64
  as_regions :: "vm_area option list"
  as_len :: nat

definition address_space_new :: "u64 \<Rightarrow> address_space" where
  "address_space_new cr3 = \<lparr>as_cr3 = cr3, as_regions = replicate MAX_REGIONS None, as_len = 0\<rparr>"

definition add_region :: "vm_area \<Rightarrow> address_space \<Rightarrow> bool \<times> address_space" where
  "add_region area s =
     (if \<not> is_page_aligned area then (False, s)
      else if list_ex (\<lambda>r. case r of Some b \<Rightarrow> vma_overlaps area b | None \<Rightarrow> False) (take (as_len s) (as_regions s))
      then (False, s)
      else if as_len s \<ge> MAX_REGIONS then (False, s)
      else (True, s\<lparr>as_regions := (as_regions s)[as_len s := Some area], as_len := as_len s + 1\<rparr>))"

definition as_areas :: "address_space \<Rightarrow> vm_area list" where
  "as_areas s = map the (take (as_len s) (as_regions s))"

definition as_inv :: "address_space \<Rightarrow> bool" where
  "as_inv s \<longleftrightarrow> length (as_regions s) = MAX_REGIONS \<and> as_len s \<le> MAX_REGIONS \<and>
     None \<notin> set (take (as_len s) (as_regions s)) \<and> (\<forall>a \<in> set (as_areas s). is_page_aligned a) \<and>
     sorted_wrt (\<lambda>a b. \<not> vma_overlaps a b) (as_areas s)"

lemma vma_overlaps_sym: "vma_overlaps a b = vma_overlaps b a"
  by (auto simp: vma_overlaps_def)

lemma address_space_new_inv: "as_inv (address_space_new cr3)"
  by (simp add: as_inv_def address_space_new_def as_areas_def)

lemma add_region_clash:
  assumes "as_inv s"
  shows "list_ex (\<lambda>r. case r of Some b \<Rightarrow> vma_overlaps area b | None \<Rightarrow> False) (take (as_len s) (as_regions s))
    \<longleftrightarrow> (\<exists>b \<in> set (as_areas s). vma_overlaps area b)"
proof -
  have "\<exists>b. r = Some b" if "r \<in> set (take (as_len s) (as_regions s))" for r
    using assms that by (cases r) (auto simp: as_inv_def)
  then have "(case r of Some b \<Rightarrow> vma_overlaps area b | None \<Rightarrow> False) \<longleftrightarrow> vma_overlaps area (the r)"
    if "r \<in> set (take (as_len s) (as_regions s))" for r using that by fastforce
  then show ?thesis unfolding list_ex_iff as_areas_def by simp
qed

lemma add_region_areas:
  assumes "as_inv s" "add_region area s = (ok, s')"
  shows "as_areas s' = (if ok then as_areas s @ [area] else as_areas s)"
    "ok \<longleftrightarrow> is_page_aligned area \<and> (\<forall>b \<in> set (as_areas s). \<not> vma_overlaps area b) \<and> length (as_areas s) < MAX_REGIONS"
    "as_inv s'"
proof -
  have len: "length (as_areas s) = as_len s" using assms(1) by (simp add: as_inv_def as_areas_def)
  show ok: "ok \<longleftrightarrow> is_page_aligned area \<and> (\<forall>b \<in> set (as_areas s). \<not> vma_overlaps area b) \<and> length (as_areas s) < MAX_REGIONS"
    using assms len by (auto simp: add_region_def add_region_clash split: if_splits)
  have s': "ok \<Longrightarrow> s' = s\<lparr>as_regions := (as_regions s)[as_len s := Some area], as_len := as_len s + 1\<rparr>" "\<not> ok \<Longrightarrow> s' = s"
    using assms(2) by (auto simp: add_region_def split: if_splits)
  have tk: "take (as_len s + 1) ((as_regions s)[as_len s := Some area]) = take (as_len s) (as_regions s) @ [Some area]"
    if ok
    using ok that len assms(1) by (simp add: as_inv_def take_Suc_conv_app_nth)
  show ar: "as_areas s' = (if ok then as_areas s @ [area] else as_areas s)"
    using s' tk by (cases ok) (simp_all add: as_areas_def)
  show "as_inv s'"
  proof (cases ok)
    case True
    with assms(1) ok ar s' tk len show ?thesis
      by (auto simp: as_inv_def sorted_wrt_append vma_overlaps_sym)
  qed (use s' assms(1) in simp)
qed

section \<open>Mapping a range\<close>

text \<open>\<open>None\<close>: a free-list walk that does not end; \<open>Halted\<close>: the kernel stopped.\<close>

fun map_range :: "u64 \<Rightarrow> u64 \<Rightarrow> nat \<Rightarrow> u64 \<Rightarrow> buddy \<times> mmu \<Rightarrow> (bool \<times> buddy \<times> mmu) halting option" where
  "map_range cr3 va 0 flags (b, m) = Some (Done (True, b, m))"
| "map_range cr3 va (Suc n) flags (b, m) =
     (case alloc_frame b of
        Inl r \<Rightarrow> Some (Inl r)
      | Inr (None, b1) \<Rightarrow> Some (Done (False, b1, m))
      | Inr (Some pa, b1) \<Rightarrow>
          (case map_page_into_space cr3 va (of_nat pa) flags m of
             (True, m1) \<Rightarrow> map_range cr3 (va + PAGE_SIZE_4K) n flags (b1, m1)
           | (False, m1) \<Rightarrow>
               (case free_frame pa b1 of
                  None \<Rightarrow> None
                | Some (Inl r) \<Rightarrow> Some (Inl r)
                | Some (Inr b2) \<Rightarrow> Some (Done (False, b2, m1)))))"

section \<open>Distinct pages\<close>

lemma index_words:
  "(of_nat (pml4_index va) :: u64) = drop_bit 39 va AND mask 9"
  "(of_nat (pdpt_index va) :: u64) = drop_bit 30 va AND mask 9"
  by (simp_all add: pml4_index_def pdpt_index_def low_masks)

lemma bit_field_eq:
  fixes u v :: u64
  assumes "drop_bit s u AND mask 9 = drop_bit s v AND mask 9" "k < 9"
  shows "bit u (s + k) = bit v (s + k)"
proof -
  have "bit (drop_bit s u AND mask 9) k = bit (drop_bit s v AND mask 9) k" using assms(1) by simp
  then show ?thesis using assms(2) by (simp add: bit_and_iff bit_drop_bit_eq bit_mask_iff)
qed

lemma path_eq_bits:
  assumes "path u = path v" "12 \<le> n" "n < 48"
  shows "bit u n = bit v n"
proof -
  have f: "drop_bit 39 u AND mask 9 = drop_bit 39 v AND mask 9" "drop_bit 30 u AND mask 9 = drop_bit 30 v AND mask 9"
    "drop_bit 21 u AND mask 9 = drop_bit 21 v AND mask 9" "drop_bit 12 u AND mask 9 = drop_bit 12 v AND mask 9"
    using assms(1) unfolding index_words [symmetric] of_nat_pd_index [symmetric] of_nat_pt_index [symmetric]
    by (simp_all add: path_def)
  consider "n < 21" | "21 \<le> n" "n < 30" | "30 \<le> n" "n < 39" | "39 \<le> n" using assms by linarith
  then show ?thesis
  proof cases
    case 1
    then show ?thesis using bit_field_eq [OF f(4), of "n - 12"] assms(2) by simp
  next
    case 2
    then show ?thesis using bit_field_eq [OF f(3), of "n - 21"] by simp
  next
    case 3
    then show ?thesis using bit_field_eq [OF f(2), of "n - 30"] by simp
  next
    case 4
    then show ?thesis using bit_field_eq [OF f(1), of "n - 39"] assms(3) by simp
  qed
qed

lemma path_eq_page:
  assumes "path u = path v"
  shows "unat u div 4096 mod 2 ^ 36 = unat v div 4096 mod 2 ^ 36"
proof -
  have "take_bit 36 (drop_bit 12 u) = take_bit 36 (drop_bit 12 v)"
  proof (rule bit_word_eqI)
    fix n
    show "bit (take_bit 36 (drop_bit 12 u)) n = bit (take_bit 36 (drop_bit 12 v)) n"
      using path_eq_bits [OF assms, of "12 + n"] by (auto simp: bit_take_bit_iff bit_drop_bit_eq)
  qed
  then have "unat (take_bit 36 (drop_bit 12 u)) = unat (take_bit 36 (drop_bit 12 v))" by simp
  moreover have "unat (take_bit 36 (drop_bit 12 w)) = unat w div 4096 mod 2 ^ 36" for w :: u64
    unfolding unsigned_take_bit_eq unsigned_drop_bit_eq
    using unsigned_less [of w, where 'a = nat] by (simp add: take_bit_eq_mod drop_bit_eq_div)
  ultimately show ?thesis by simp
qed

lemma unat_page:
  assumes "unat va + n * 4096 \<le> 2 ^ 64" "k < n"
  shows "unat (va + of_nat k * PAGE_SIZE_4K) = unat va + k * 4096"
proof -
  have e: "va + of_nat k * PAGE_SIZE_4K = of_nat (unat va + k * 4096)" by (simp add: PAGE_SIZE_4K_def)
  have "unat va + k * 4096 < 2 ^ 64" using assms by linarith
  then show ?thesis unfolding e by (simp add: unat_of_nat take_bit_nat_eq_self del: of_nat_add of_nat_mult)
qed

lemma pages_distinct:
  assumes "unat va + n * 4096 \<le> 2 ^ 64" "n \<le> 2 ^ 36" "i < n" "j < n"
    "path (va + of_nat i * PAGE_SIZE_4K) = path (va + of_nat j * PAGE_SIZE_4K)"
  shows "i = j"
proof (rule ring_index_inj)
  show "(unat va div 4096 + i) mod 2 ^ 36 = (unat va div 4096 + j) mod 2 ^ 36"
    using path_eq_page [OF assms(5)] unfolding unat_page [OF assms(1,3)] unat_page [OF assms(1,4)]
    by (simp add: add.commute)
qed (use assms in simp_all)

section \<open>Frames of a mapped range\<close>

text \<open>The frames of the region are below \<open>2 ^ 52\<close>, so that an entry can hold them.\<close>

definition region_fits :: "buddy \<Rightarrow> bool" where
  "region_fits b \<longleftrightarrow> region_start b mod PAGE_SIZE = 0 \<and> region_start b + region_pages b * PAGE_SIZE \<le> 2 ^ 52"

lemma frame_in_entry:
  assumes "pa mod PAGE_SIZE = 0" "pa < 2 ^ 52"
  shows "(of_nat pa :: u64) AND FRAME_MASK = of_nat pa"
proof -
  have "pa = pa div 4096 * 4096" using assms(1) by (simp add: PAGE_SIZE_def mod_eq_0_iff_dvd)
  then have "(of_nat pa :: u64) = frame_addr (pa div 4096)" unfolding frame_addr_eq by simp
  moreover have "pa div 4096 < 2 ^ 40" using assms(2) by (simp add: less_mult_imp_div_less)
  ultimately show ?thesis using frame_addr_masked by simp
qed

lemma free_frame_bound:
  assumes "buddy_ok b" "region_fits b" "blk b 0 pa"
  shows "pa < 2 ^ 52" "pa mod PAGE_SIZE = 0"
proof -
  have "geometry b" using assms(1) by (simp add: buddy_ok_def buddy_inv_def)
  from blk_bounds(2) [OF this assms(3)] assms(2) show "pa < 2 ^ 52"
    by (simp add: region_fits_def PAGE_SIZE_def)
  show "pa mod PAGE_SIZE = 0" using assms(2,3) by (auto simp: region_fits_def blk_def)
qed

lemma next_page_at: "va + PAGE_SIZE_4K + of_nat i * PAGE_SIZE_4K = va + of_nat (Suc i) * PAGE_SIZE_4K"
  by (simp add: algebra_simps)

text \<open>What a mapped range looks like: the frame of each page, and that other pages are untouched.\<close>

definition range_mapped :: "u64 \<Rightarrow> u64 \<Rightarrow> nat list \<Rightarrow> mmu \<Rightarrow> mmu \<Rightarrow> bool" where
  "range_mapped cr3 va fs m m' \<longleftrightarrow>
     (\<forall>i < length fs. \<forall>u. path u = path (va + of_nat i * PAGE_SIZE_4K) \<longrightarrow>
        translate_in_space cr3 u m' = Some (of_nat (fs ! i) + (u AND 0xFFF))) \<and>
     (\<forall>u. (\<forall>i < length fs. path u \<noteq> path (va + of_nat i * PAGE_SIZE_4K)) \<longrightarrow>
        translate_in_space cr3 u m' = translate_in_space cr3 u m)"

lemma range_mapped_Cons:
  assumes one: "\<And>u. path u = path va \<Longrightarrow> translate_in_space cr3 u m1 = Some (of_nat pa + (u AND 0xFFF))"
    and other: "\<And>u. path u \<noteq> path va \<Longrightarrow> translate_in_space cr3 u m1 = translate_in_space cr3 u m"
    and rest: "range_mapped cr3 (va + PAGE_SIZE_4K) fs m1 m'"
    and fit: "unat va + Suc (length fs) * 4096 \<le> 2 ^ 64" "Suc (length fs) \<le> 2 ^ 36"
  shows "range_mapped cr3 va (pa # fs) m m'"
proof -
  have ne: "path va \<noteq> path (va + of_nat (Suc i) * PAGE_SIZE_4K)" if "i < length fs" for i
    using pages_distinct [OF fit, of 0 "Suc i"] that by auto
  have r: "\<forall>i < length fs. \<forall>u. path u = path (va + of_nat (Suc i) * PAGE_SIZE_4K) \<longrightarrow>
      translate_in_space cr3 u m' = Some (of_nat (fs ! i) + (u AND 0xFFF))"
    "\<forall>u. (\<forall>i < length fs. path u \<noteq> path (va + of_nat (Suc i) * PAGE_SIZE_4K)) \<longrightarrow>
      translate_in_space cr3 u m' = translate_in_space cr3 u m1"
    using rest unfolding range_mapped_def next_page_at by blast+
  have first: "translate_in_space cr3 u m' = Some (of_nat pa + (u AND 0xFFF))" if "path u = path va" for u
    using r(2) ne one that by metis
  have "translate_in_space cr3 u m' = Some (of_nat ((pa # fs) ! i) + (u AND 0xFFF))"
    if "i < length (pa # fs)" "path u = path (va + of_nat i * PAGE_SIZE_4K)" for i u
    using r(1) that first by (cases i) auto
  moreover have "translate_in_space cr3 u m' = translate_in_space cr3 u m"
    if u: "\<forall>i < length (pa # fs). path u \<noteq> path (va + of_nat i * PAGE_SIZE_4K)" for u
  proof -
    have "path u \<noteq> path va" using u [rule_format, of 0] by simp
    moreover have "\<forall>i < length fs. path u \<noteq> path (va + of_nat (Suc i) * PAGE_SIZE_4K)"
      using u by (metis length_Cons Suc_less_eq)
    ultimately show ?thesis using r(2) other by simp
  qed
  ultimately show ?thesis unfolding range_mapped_def by blast
qed

lemma map_range_frames:
  assumes "buddy_ok b" "region_fits b" "wt m P" "P (cr3 AND FRAME_MASK) = Some []" "bit flags 0"
    "unat va + n * 4096 \<le> 2 ^ 64" "n \<le> 2 ^ 36" "map_range cr3 va n flags (b, m) = Some (Done (True, b', m'))"
  shows "\<exists>fs. length fs = n \<and> distinct fs \<and> set fs \<subseteq> free_frames b \<and> free_frames b' = free_frames b - set fs \<and>
    buddy_ok b' \<and> (\<exists>P'. wt m' P' \<and> P \<subseteq>\<^sub>m P') \<and> range_mapped cr3 va fs m m'"
  using assms
proof (induction n arbitrary: va b m P)
  case 0
  then show ?case by (auto simp: range_mapped_def)
next
  case (Suc n)
  from Suc.prems(8) obtain pa b1 m1 where al: "alloc_frame b = Done (Some pa, b1)"
    and mp: "map_page_into_space cr3 va (of_nat pa) flags m = (True, m1)"
    and rest: "map_range cr3 (va + PAGE_SIZE_4K) n flags (b1, m1) = Some (Done (True, b', m'))"
    by (auto split: sum.splits prod.splits option.splits bool.splits)
  from alloc_frame_cases [OF Suc.prems(1)] al have b1: "buddy_ok b1" "same_region b b1" "blk b 0 pa"
    "pa \<in> free_frames b" "free_frames b1 = free_frames b - {pa}" by auto
  have rf: "region_fits b1" using b1(2) Suc.prems(2) by (simp add: region_fits_def same_region_def)
  note pab = free_frame_bound [OF Suc.prems(1,2) b1(3)]
  have cor: "(\<exists>P'. wt m1 P' \<and> P \<subseteq>\<^sub>m P') \<and> (\<forall>u. path u \<noteq> path va \<longrightarrow> translate_in_space cr3 u m1 = translate_in_space cr3 u m)
      \<and> (\<forall>u. path u = path va \<longrightarrow> translate_in_space cr3 u m1 = Some (of_nat pa + (u AND 0xFFF)))"
  proof -
    have "of_nat pa AND FRAME_MASK = (of_nat pa :: u64)" by (rule frame_in_entry [OF pab(2,1)])
    then show ?thesis using map_page_into_space_effect [OF Suc.prems(3,4) mp] Suc.prems(4,5) by simp
  qed
  then obtain P1 where P1: "wt m1 P1" "P \<subseteq>\<^sub>m P1" by blast
  show ?case
  proof (cases "n = 0")
    case True
    with rest cor b1 P1 Suc.prems(6,7) show ?thesis
      by (intro exI [of _ "[pa]"]) (auto simp: range_mapped_def)
  next
    case False
    have "unat (va + PAGE_SIZE_4K) = unat va + 4096"
      using unat_page [of va "Suc n" 1] Suc.prems(6) False by simp
    then have fit: "unat (va + PAGE_SIZE_4K) + n * 4096 \<le> 2 ^ 64" "n \<le> 2 ^ 36" using Suc.prems(6,7) by simp_all
    from Suc.IH [OF b1(1) rf P1(1) map_le_Some [OF P1(2) Suc.prems(4)] Suc.prems(5) fit rest]
    obtain fs P' where fs: "length fs = n" "distinct fs" "set fs \<subseteq> free_frames b1" "free_frames b' = free_frames b1 - set fs"
      "buddy_ok b'" "wt m' P'" "P1 \<subseteq>\<^sub>m P'" "range_mapped cr3 (va + PAGE_SIZE_4K) fs m1 m'" by blast
    have "range_mapped cr3 va (pa # fs) m m'"
      using cor fs(1,8) Suc.prems(6,7) by (intro range_mapped_Cons) auto
    moreover have "P \<subseteq>\<^sub>m P'" using P1(2) fs(7) map_le_trans by blast
    ultimately show ?thesis
      using fs(1-6) b1(4,5) by (intro exI [of _ "pa # fs"]) auto
  qed
qed

section \<open>Enough frames and table pages\<close>

lemma link_filled_pool: "pt_pool_next (snd (link_filled t i f m)) \<le> pt_pool_next m + 1"
  by (auto simp: link_filled_def alloc_table_page_def tset_def tfill_def)

lemma level_pool:
  "pt_pool_next (snd (get_or_alloc_child t i m)) \<le> pt_pool_next m + 1"
  "pt_pool_next (snd (get_or_alloc_pd t i m)) \<le> pt_pool_next m + 1"
  "pt_pool_next (snd (get_or_alloc_pt t i m)) \<le> pt_pool_next m + 1"
  using link_filled_pool [of t i "\<lambda>_. 0" m] link_filled_pool [of t i "split_1gb (tabs m t i)" m]
    link_filled_pool [of t i "split_2mb (tabs m t i)" m]
  by (auto simp: get_or_alloc_child_def get_or_alloc_pd_cases get_or_alloc_pt_cases tget_def Let_def)

lemma map_page_into_space_pool:
  "pt_pool_next (snd (map_page_into_space cr3 va pa flags m)) \<le> pt_pool_next m + 3"
proof -
  let ?pml4 = "cr3 AND FRAME_MASK"
  obtain pdpt m1 where r1: "get_or_alloc_child ?pml4 (pml4_index va) m = (pdpt, m1)" by fastforce
  define m2 where "m2 = propagate_user flags ?pml4 (pml4_index va) m1"
  obtain pd m3 where r2: "get_or_alloc_pd pdpt (pdpt_index va) m2 = (pd, m3)" by fastforce
  define m4 where "m4 = propagate_user flags pdpt (pdpt_index va) m3"
  obtain pt m5 where r3: "get_or_alloc_pt pd (pd_index va) m4 = (pt, m5)" by fastforce
  have "pt_pool_next m1 \<le> pt_pool_next m + 1" "pt_pool_next m3 \<le> pt_pool_next m1 + 1" "pt_pool_next m5 \<le> pt_pool_next m3 + 1"
    using level_pool(1) [of ?pml4 "pml4_index va" m] level_pool(2) [of pdpt "pdpt_index va" m2]
      level_pool(3) [of pd "pd_index va" m4] r1 r2 r3 unfolding m2_def m4_def by simp_all
  with r1 r2 r3 show ?thesis
    unfolding m2_def m4_def
    by (cases "pdpt = 0"; cases "pd = 0"; cases "pt = 0") (simp_all add: map_page_into_space_def Let_def tset_def)
qed

lemma map_page_into_space_keeps:
  assumes "wt m P" "P (cr3 AND FRAME_MASK) = Some []" "map_page_into_space cr3 va pa flags m = (True, m1)"
  shows "\<exists>P1. wt m1 P1 \<and> P1 (cr3 AND FRAME_MASK) = Some [] \<and> P1 0 = P 0"
proof -
  from map_page_into_space_cases [OF assms] obtain P' m6 pdpt pd pt e where e: "evolves m m6 P P'"
    and o: "on3 m6 P' va (cr3 AND FRAME_MASK) pdpt pd pt" and m1: "m1 = tset pt (pt_index va) e m6" by auto
  have "P' pt = Some [pml4_index va, pdpt_index va, pd_index va]" using o by (simp add: on3_def)
  then have "wt m1 P'" unfolding m1 using leaf_write_wt [OF evolves_wt [OF e]] by simp
  moreover have "P' (cr3 AND FRAME_MASK) = Some []" "P' 0 = P 0" using e assms(2)
    by (auto simp: evolves_def intro: map_le_Some)
  ultimately show ?thesis by blast
qed

lemma free_frames_finite: "finite (free_frames b)"
  by (simp add: free_frames_def free_set_def free_pages_def pages_of_def)

lemma map_range_succeeds:
  assumes "buddy_ok b" "wt m P" "P (cr3 AND FRAME_MASK) = Some []" "P 0 = None"
    "n \<le> card (free_frames b)" "pt_pool_next m + 3 * n \<le> PT_POOL_PAGES"
  shows "\<exists>b' m'. map_range cr3 va n flags (b, m) = Some (Done (True, b', m'))"
  using assms
proof (induction n arbitrary: va b m P)
  case (Suc n)
  have "free_frames b \<noteq> {}" using Suc.prems(5) by force
  with alloc_frame_cases [OF Suc.prems(1)] obtain pa b1 where al: "alloc_frame b = Done (Some pa, b1)"
    "buddy_ok b1" "pa \<in> free_frames b" "free_frames b1 = free_frames b - {pa}"
    by (auto split: option.splits)
  have "fst (map_page_into_space cr3 va (of_nat pa) flags m)"
    by (rule map_page_into_space_succeeds [OF Suc.prems(2-4)]) (use Suc.prems(6) in simp)
  then obtain m1 where mp: "map_page_into_space cr3 va (of_nat pa) flags m = (True, m1)"
    by (cases "map_page_into_space cr3 va (of_nat pa) flags m") auto
  then have pool: "pt_pool_next m1 + 3 * n \<le> PT_POOL_PAGES"
    using map_page_into_space_pool [of cr3 va "of_nat pa" flags m] Suc.prems(6) by simp
  obtain P1 where "wt m1 P1" "P1 (cr3 AND FRAME_MASK) = Some []" "P1 0 = None"
    using map_page_into_space_keeps [OF Suc.prems(2,3) mp] Suc.prems(4) by auto
  from Suc.IH [OF al(2) this _ pool, of "va + PAGE_SIZE_4K"] al Suc.prems(5) free_frames_finite mp show ?case by simp
qed simp

section \<open>Properties\<close>

text \<open>an address space never holds overlapping areas. Starting from a new address space, whatever
  areas are offered to \<open>add_region\<close> in whatever order, the areas it holds are page aligned, pairwise
  disjoint and at most 32, and one more area is accepted exactly if it is aligned, overlaps none of
  them and there is room, in which case it is appended.\<close>

theorem areas_stay_disjoint:
  assumes "s = fold (\<lambda>a s. snd (add_region a s)) offers (address_space_new cr3)"
  shows "(\<forall>a \<in> set (as_areas s). is_page_aligned a) \<and> sorted_wrt (\<lambda>a b. \<not> vma_overlaps a b) (as_areas s) \<and>
    length (as_areas s) \<le> MAX_REGIONS \<and>
    (\<exists>s'. add_region a s =
       (is_page_aligned a \<and> (\<forall>b \<in> set (as_areas s). \<not> vma_overlaps a b) \<and> length (as_areas s) < MAX_REGIONS, s') \<and>
       as_areas s' = (if is_page_aligned a \<and> (\<forall>b \<in> set (as_areas s). \<not> vma_overlaps a b) \<and>
         length (as_areas s) < MAX_REGIONS then as_areas s @ [a] else as_areas s))"
proof -
  have inv: "as_inv (fold (\<lambda>a s. snd (add_region a s)) xs t)" if "as_inv t" for xs t
    using that
  proof (induction xs arbitrary: t)
    case (Cons x xs)
    then show ?case using add_region_areas(3) [of t x] by (metis fold_simps(2) prod.collapse)
  qed simp
  have i: "as_inv s" unfolding assms by (rule inv [OF address_space_new_inv])
  obtain ok s' where r: "add_region a s = (ok, s')" by fastforce
  from add_region_areas(1,2) [OF i r] r show ?thesis using i by (simp add: as_inv_def as_areas_def)
qed

definition demo_offers :: "vm_area list" where
  "demo_offers = [\<lparr>vma_start = 0x1000, vma_end = 0x3000, vma_flags = 7\<rparr>, \<lparr>vma_start = 0x2000, vma_end = 0x4000, vma_flags = 7\<rparr>]"

theorem areas_stay_disjoint_witness:
  "fst (add_region \<lparr>vma_start = 0x3000, vma_end = 0x5000, vma_flags = 7\<rparr>
     (fold (\<lambda>a s. snd (add_region a s)) demo_offers (address_space_new 0)))"
proof -
  have "as_areas (fold (\<lambda>a s. snd (add_region a s)) demo_offers (address_space_new 0)) =
    [\<lparr>vma_start = 0x1000, vma_end = 0x3000, vma_flags = 7\<rparr>]" by code_simp
  then show ?thesis
    using areas_stay_disjoint [OF refl, of demo_offers 0 "\<lparr>vma_start = 0x3000, vma_end = 0x5000, vma_flags = 7\<rparr>"]
    by (auto simp: is_page_aligned_def vma_overlaps_def MAX_REGIONS_def PAGE_SIZE_4K_def)
qed

text \<open>\<open>map_range\<close> backs every page of the range with its own fresh frame. If it reports success, the
  pages of the range translate to pairwise distinct frames which were free before and are not free
  any more, exactly these frames left the free set, no other page of the address space changed, and
  the allocator and the page tables are still well formed. It succeeds whenever the allocator has
  enough frames and the table pool three pages per mapped page.\<close>

theorem map_range_correct:
  assumes "buddy_ok b" "region_fits b" "wt m P" "P (cr3 AND FRAME_MASK) = Some []" "bit flags 0"
    "unat va + n * 4096 \<le> 2 ^ 64" "n \<le> 2 ^ 36"
  shows "(P 0 = None \<and> n \<le> card (free_frames b) \<and> pt_pool_next m + 3 * n \<le> PT_POOL_PAGES \<longrightarrow>
      (\<exists>b' m'. map_range cr3 va n flags (b, m) = Some (Done (True, b', m')))) \<and>
    (\<forall>b' m'. map_range cr3 va n flags (b, m) = Some (Done (True, b', m')) \<longrightarrow>
      (\<exists>fs. length fs = n \<and> distinct fs \<and> set fs \<subseteq> free_frames b \<and> free_frames b' = free_frames b - set fs \<and>
         buddy_ok b' \<and> (\<exists>P'. wt m' P' \<and> P \<subseteq>\<^sub>m P') \<and> range_mapped cr3 va fs m m'))"
  using map_range_succeeds [OF assms(1,3,4), of n va flags] map_range_frames [OF assms] by blast

lemma booted_fits: "region_fits booted" "free_frames booted \<noteq> {}"
proof -
  show "region_fits booted"
    by (simp add: region_fits_def booted_inv FRAME_REGION_BASE_def FRAME_REGION_PAGES_def PAGE_SIZE_def)
  have "0 \<in> pages_of booted 11 FRAME_REGION_BASE" by (simp add: pages_of_def page_index_def booted_inv)
  moreover have "FRAME_REGION_BASE \<in> set (fls_of booted 11)" "11 \<le> MAX_ORDER"
    using booted_fls [of 11] by (simp_all add: MAX_ORDER_def)
  ultimately show "free_frames booted \<noteq> {}" unfolding free_frames_def free_set_def free_pages_def by blast
qed

theorem map_range_correct_witness:
  "\<exists>b' m' pa. map_range 0x200000 0xA00000 1 7 (booted, demo_mmu) = Some (Done (True, b', m')) \<and>
     pa \<in> free_frames booted - free_frames b' \<and> translate_in_space 0x200000 0xA00000 m' = Some (of_nat pa)"
proof -
  obtain P where P: "wt demo_mmu P" "P (0x200000 AND FRAME_MASK) = Some []" "P 0 = None" using demo_wt by blast
  have one: "1 \<le> card (free_frames booted)" using booted_fits(2) free_frames_finite by (simp add: Suc_le_eq card_gt_0_iff)
  have c: "(\<exists>b' m'. map_range 0x200000 0xA00000 1 7 (booted, demo_mmu) = Some (Done (True, b', m'))) \<and>
    (\<forall>b' m'. map_range 0x200000 0xA00000 1 7 (booted, demo_mmu) = Some (Done (True, b', m')) \<longrightarrow>
      (\<exists>fs. length fs = 1 \<and> distinct fs \<and> set fs \<subseteq> free_frames booted \<and> free_frames b' = free_frames booted - set fs \<and>
         buddy_ok b' \<and> (\<exists>P'. wt m' P' \<and> P \<subseteq>\<^sub>m P') \<and> range_mapped 0x200000 0xA00000 fs demo_mmu m'))"
    using map_range_correct [OF booted_ok booted_fits(1) P(1,2), of 7 "0xA00000" 1] P(3) one demo_pool by simp
  then obtain b' m' where r: "map_range 0x200000 0xA00000 1 7 (booted, demo_mmu) = Some (Done (True, b', m'))" by blast
  with c obtain fs where fs: "length fs = 1" "set fs \<subseteq> free_frames booted" "free_frames b' = free_frames booted - set fs"
    "range_mapped 0x200000 0xA00000 fs demo_mmu m'" by blast
  obtain pa where "fs = [pa]" using fs(1) by (cases fs) auto
  with fs r show ?thesis by (intro exI [of _ b'] exI [of _ m'] exI [of _ pa]) (simp add: range_mapped_def)
qed

end
