(* ===== verification/Simple_FS.thy ===== *)
theory Simple_FS
  imports Prelude
begin

text \<open>
  The on-disk file system (\<open>kernel/fs/simple_fs.rs\<close>): a volume header in block 0, a table of 64 file
  records in block 1, file data from block 2 on. All structures are read from and written to the
  bytes of a block at the offsets the \<open>repr(C)\<close> structs have.

  The block device below it (\<open>BlockDevice\<close>) is a function from block numbers to the 4096 bytes of the
  block, with a script \<open>fs_faults\<close> of the completion status of the coming transfers: \<open>True\<close> is a
  failed transfer, which moves no bytes; when the script is empty transfers succeed.
\<close>

section \<open>Little-endian fields of a byte list\<close>

definition get32 :: "nat \<Rightarrow> u8 list \<Rightarrow> u32" where
  "get32 o1 bs = of_nat (le_bytes 4 (\<lambda>i. bs ! i) o1)"

definition put32 :: "nat \<Rightarrow> u32 \<Rightarrow> u8 list \<Rightarrow> u8 list" where
  "put32 o1 v bs = bs[o1 := ucast v, o1 + 1 := ucast (drop_bit 8 v), o1 + 2 := ucast (drop_bit 16 v),
     o1 + 3 := ucast (drop_bit 24 v)]"

section \<open>State\<close>

definition BLOCK_SIZE :: nat where "BLOCK_SIZE = 4096"
definition FS_MAGIC :: u32 where "FS_MAGIC = 0x53494D46"
definition FILE_TABLE_BLOCK :: u32 where "FILE_TABLE_BLOCK = 1"
definition DATA_START_BLOCK :: u32 where "DATA_START_BLOCK = 2"
definition MAX_FILE_RECORDS :: nat where "MAX_FILE_RECORDS = 64"
definition FILE_RECORD_SIZE :: nat where "FILE_RECORD_SIZE = 64"
definition NAME_MAX :: nat where "NAME_MAX = 32"

record fsys =
  fs_dev_ready :: bool
  fs_disk :: "u32 \<Rightarrow> u8 list"
  fs_faults :: "bool list"
  ROOT_MOUNTED :: bool
  NEXT_FREE_BLOCK :: u32
  VOLUME_HEADER_DIRTY :: bool

text \<open>The state of the kernel before the root is mounted.\<close>

definition fsys_boot :: "(u32 \<Rightarrow> u8 list) \<Rightarrow> fsys" where
  "fsys_boot disk = \<lparr>fs_dev_ready = True, fs_disk = disk, fs_faults = [], ROOT_MOUNTED = False,
     NEXT_FREE_BLOCK = DATA_START_BLOCK, VOLUME_HEADER_DIRTY = False\<rparr>"

definition read_block :: "u32 \<Rightarrow> fsys \<Rightarrow> u8 list option \<times> fsys" where
  "read_block b s =
     (if \<not> fs_dev_ready s then (None, s)
      else case fs_faults s of
             [] \<Rightarrow> (Some (fs_disk s b), s)
           | f # fs \<Rightarrow> (if f then None else Some (fs_disk s b), s\<lparr>fs_faults := fs\<rparr>))"

definition write_block :: "u32 \<Rightarrow> u8 list \<Rightarrow> fsys \<Rightarrow> bool \<times> fsys" where
  "write_block b buf s =
     (if \<not> fs_dev_ready s then (False, s)
      else case fs_faults s of
             [] \<Rightarrow> (True, s\<lparr>fs_disk := (fs_disk s)(b := buf)\<rparr>)
           | f # fs \<Rightarrow> (if f then (False, s\<lparr>fs_faults := fs\<rparr>)
               else (True, s\<lparr>fs_disk := (fs_disk s)(b := buf), fs_faults := fs\<rparr>)))"

section \<open>Volume header\<close>

definition mount_root :: "fsys \<Rightarrow> bool \<times> fsys" where
  "mount_root s =
     (case read_block 0 s of
        (None, s1) \<Rightarrow> (False, s1)
      | (Some block, s1) \<Rightarrow>
          if get32 0 block \<noteq> FS_MAGIC then
            (case write_block 0 (put32 16 (of_nat MAX_FILE_RECORDS) (put32 12 FILE_TABLE_BLOCK
                    (put32 8 DATA_START_BLOCK (put32 4 DATA_START_BLOCK (put32 0 FS_MAGIC (replicate BLOCK_SIZE 0)))))) s1 of
               (False, s2) \<Rightarrow> (False, s2)
             | (True, s2) \<Rightarrow> (True, s2\<lparr>NEXT_FREE_BLOCK := DATA_START_BLOCK, ROOT_MOUNTED := True\<rparr>))
          else (True, s1\<lparr>NEXT_FREE_BLOCK := get32 8 block, ROOT_MOUNTED := True\<rparr>))"

definition flush_volume_header :: "fsys \<Rightarrow> bool \<times> fsys" where
  "flush_volume_header s =
     (if \<not> VOLUME_HEADER_DIRTY s then (True, s)
      else case read_block 0 s of
        (None, s1) \<Rightarrow> (False, s1)
      | (Some block, s1) \<Rightarrow>
          (case write_block 0 (put32 8 (NEXT_FREE_BLOCK s1) block) s1 of
             (False, s2) \<Rightarrow> (False, s2)
           | (True, s2) \<Rightarrow> (True, s2\<lparr>VOLUME_HEADER_DIRTY := False\<rparr>)))"

section \<open>File records\<close>

definition rec_name :: "u8 list \<Rightarrow> nat \<Rightarrow> u8 list" where
  "rec_name blk i = take NAME_MAX (drop (i * FILE_RECORD_SIZE) blk)"

definition rec_size :: "u8 list \<Rightarrow> nat \<Rightarrow> u32" where
  "rec_size blk i = get32 (i * FILE_RECORD_SIZE + 32) blk"

definition rec_start :: "u8 list \<Rightarrow> nat \<Rightarrow> u32" where
  "rec_start blk i = get32 (i * FILE_RECORD_SIZE + 36) blk"

definition set_name :: "nat \<Rightarrow> u8 list \<Rightarrow> u8 list \<Rightarrow> u8 list" where
  "set_name i name blk = take (i * FILE_RECORD_SIZE) blk @ name @ replicate (NAME_MAX - length name) 0
     @ drop (i * FILE_RECORD_SIZE + NAME_MAX) blk"

definition set_size :: "nat \<Rightarrow> u32 \<Rightarrow> u8 list \<Rightarrow> u8 list" where
  "set_size i v = put32 (i * FILE_RECORD_SIZE + 32) v"

definition set_start :: "nat \<Rightarrow> u32 \<Rightarrow> u8 list \<Rightarrow> u8 list" where
  "set_start i v = put32 (i * FILE_RECORD_SIZE + 36) v"

definition set_reserved :: "nat \<Rightarrow> u32 \<Rightarrow> u8 list \<Rightarrow> u8 list" where
  "set_reserved i v = put32 (i * FILE_RECORD_SIZE + 40) v"

text \<open>The loop over \<open>j\<close> in \<open>find_file_by_name\<close>, and the length of a record's name.\<close>

definition match_length :: "u8 list \<Rightarrow> u8 list \<Rightarrow> nat" where
  "match_length rname name =
     length (takeWhile (\<lambda>j. j < length name \<and> name ! j \<noteq> 0 \<and> rname ! j = name ! j) [0..<NAME_MAX])"

definition rec_name_len :: "u8 list \<Rightarrow> nat" where
  "rec_name_len rname = length (takeWhile (\<lambda>k. rname ! k \<noteq> 0) [0..<NAME_MAX])"

definition name_matches :: "u8 list \<Rightarrow> u8 list \<Rightarrow> bool" where
  "name_matches rname name =
     (let m = match_length rname name
      in (m = length name \<or> (m > 0 \<and> m < length name \<and> name ! m = 0)) \<and> rec_name_len rname = m)"

definition find_file_by_name :: "u8 list \<Rightarrow> fsys \<Rightarrow> nat option \<times> fsys" where
  "find_file_by_name name s =
     (if \<not> ROOT_MOUNTED s then (None, s)
      else case read_block FILE_TABLE_BLOCK s of
        (None, s1) \<Rightarrow> (None, s1)
      | (Some block, s1) \<Rightarrow>
          (List.find (\<lambda>i. rec_start block i \<noteq> 0 \<and> name_matches (rec_name block i) name) [0..<MAX_FILE_RECORDS], s1))"

definition alloc_file_record :: "u8 list \<Rightarrow> fsys \<Rightarrow> nat option \<times> fsys" where
  "alloc_file_record name s =
     (if \<not> ROOT_MOUNTED s \<or> length name > NAME_MAX then (None, s)
      else case read_block FILE_TABLE_BLOCK s of
        (None, s1) \<Rightarrow> (None, s1)
      | (Some block, s1) \<Rightarrow>
          (case List.find (\<lambda>i. rec_start block i = 0) [0..<MAX_FILE_RECORDS] of
             None \<Rightarrow> (None, s1)
           | Some i \<Rightarrow>
               (let block1 = set_reserved i 0 (set_start i (NEXT_FREE_BLOCK s1) (set_size i 0 (set_name i name block)));
                    s2 = s1\<lparr>NEXT_FREE_BLOCK := NEXT_FREE_BLOCK s1 + 1, VOLUME_HEADER_DIRTY := True\<rparr>
                in case write_block FILE_TABLE_BLOCK block1 s2 of
                     (False, s3) \<Rightarrow> (None, s3)
                   | (True, s3) \<Rightarrow> (Some i, s3))))"

definition get_file_record_info :: "nat \<Rightarrow> fsys \<Rightarrow> (u32 \<times> u32) option \<times> fsys" where
  "get_file_record_info i s =
     (if \<not> ROOT_MOUNTED s \<or> i \<ge> MAX_FILE_RECORDS then (None, s)
      else case read_block FILE_TABLE_BLOCK s of
        (None, s1) \<Rightarrow> (None, s1)
      | (Some block, s1) \<Rightarrow>
          (if rec_start block i = 0 then None else Some (rec_size block i, rec_start block i), s1))"

definition extend_file_blocks :: "nat \<Rightarrow> u32 \<Rightarrow> fsys \<Rightarrow> bool \<times> fsys" where
  "extend_file_blocks i num_blocks s =
     (if \<not> ROOT_MOUNTED s \<or> i \<ge> MAX_FILE_RECORDS \<or> num_blocks = 0 then (False, s)
      else case read_block FILE_TABLE_BLOCK s of
        (None, s1) \<Rightarrow> (False, s1)
      | (Some block, s1) \<Rightarrow>
          (if rec_start block i = 0 then (False, s1)
           else write_block FILE_TABLE_BLOCK
                  (set_size i (word_sadd (rec_size block i) (num_blocks * of_nat BLOCK_SIZE)) block)
                  (s1\<lparr>NEXT_FREE_BLOCK := NEXT_FREE_BLOCK s1 + num_blocks, VOLUME_HEADER_DIRTY := True\<rparr>)))"

section \<open>File data\<close>

text \<open>The loops advance by at least one byte since \<open>in_block_off\<close> is below the block size, which is the
  only case in which they are entered; the second guard makes the functions total.\<close>

function read_loop :: "u32 \<Rightarrow> nat \<Rightarrow> nat \<Rightarrow> nat \<Rightarrow> fsys \<Rightarrow> u8 list \<times> fsys" where
  "read_loop start_block block_off in_block_off remaining s =
     (if remaining = 0 \<or> BLOCK_SIZE \<le> in_block_off then ([], s)
      else case read_block (start_block + of_nat block_off) s of
             (None, s1) \<Rightarrow> ([], s1)
           | (Some buf, s1) \<Rightarrow>
               (let copy = min (BLOCK_SIZE - in_block_off) remaining;
                    (rest, s2) = read_loop start_block (block_off + 1) 0 (remaining - copy) s1
                in (take copy (drop in_block_off buf) @ rest, s2)))"
  by pat_completeness auto
termination by (relation "measure (\<lambda>(_, _, _, r, _). r)") (auto simp: BLOCK_SIZE_def)

definition read_file_data :: "nat \<Rightarrow> u32 \<Rightarrow> nat \<Rightarrow> fsys \<Rightarrow> u8 list \<times> fsys" where
  "read_file_data i off buf_len s =
     (case get_file_record_info i s of
        (None, s1) \<Rightarrow> ([], s1)
      | (Some (sz, start_block), s1) \<Rightarrow>
          (if off \<ge> sz then ([], s1)
           else read_loop start_block (unat off div BLOCK_SIZE) (unat off mod BLOCK_SIZE)
                  (unat (min (sz - off) (of_nat buf_len))) s1))"

text \<open>\<open>block_buf\<close> keeps the bytes of the previous block when a read fails.\<close>

function write_loop :: "u32 \<Rightarrow> nat \<Rightarrow> nat \<Rightarrow> u8 list \<Rightarrow> u8 list \<Rightarrow> fsys \<Rightarrow> nat \<times> fsys" where
  "write_loop start_block block_off in_block_off data buf s =
     (if data = [] \<or> BLOCK_SIZE \<le> in_block_off then (0, s)
      else (let (r, s1) = read_block (start_block + of_nat block_off) s;
                buf1 = (case r of None \<Rightarrow> buf | Some b \<Rightarrow> b);
                copy = min (BLOCK_SIZE - in_block_off) (length data);
                buf2 = take in_block_off buf1 @ take copy data @ drop (in_block_off + copy) buf1
            in case write_block (start_block + of_nat block_off) buf2 s1 of
                 (False, s2) \<Rightarrow> (0, s2)
               | (True, s2) \<Rightarrow>
                   (let (n, s3) = write_loop start_block (block_off + 1) 0 (drop copy data) buf2 s2
                    in (copy + n, s3))))"
  by pat_completeness auto
termination by (relation "measure (\<lambda>(_, _, _, d, _, _). length d)") (auto simp: BLOCK_SIZE_def)

declare read_loop.simps [simp del] write_loop.simps [simp del]

definition blocks_for :: "u32 \<Rightarrow> nat" where
  "blocks_for n = (unat n + BLOCK_SIZE - 1) div BLOCK_SIZE"

text \<open>The first part of \<open>write_file_data\<close>: reserve the blocks that the write needs.\<close>

definition grow_for_write :: "nat \<Rightarrow> u32 \<Rightarrow> u32 \<Rightarrow> fsys \<Rightarrow> bool \<times> fsys" where
  "grow_for_write i sz end_off s =
     (if blocks_for end_off > blocks_for sz
      then extend_file_blocks i (of_nat (blocks_for end_off - blocks_for sz)) s else (True, s))"

text \<open>Its last part: record the new size.\<close>

definition update_size :: "nat \<Rightarrow> u32 \<Rightarrow> fsys \<Rightarrow> fsys" where
  "update_size i end_off s =
     (let (info, s1) = get_file_record_info i s;
          new_size = (case info of None \<Rightarrow> 0 | Some (sz, _) \<Rightarrow> sz)
      in case read_block FILE_TABLE_BLOCK s1 of
           (None, s2) \<Rightarrow> s2
         | (Some block, s2) \<Rightarrow>
             (if end_off > new_size then snd (write_block FILE_TABLE_BLOCK (set_size i end_off block) s2) else s2))"

definition write_file_data :: "nat \<Rightarrow> u32 \<Rightarrow> u8 list \<Rightarrow> fsys \<Rightarrow> nat \<times> fsys" where
  "write_file_data i off data s =
     (case get_file_record_info i s of
        (None, s1) \<Rightarrow> (0, s1)
      | (Some (sz, start_block), s1) \<Rightarrow>
          if data = [] then (0, s1)
          else let end_off = word_sadd off (of_nat (length data))
               in case grow_for_write i sz end_off s1 of
                    (False, s2) \<Rightarrow> (0, s2)
                  | (True, s2) \<Rightarrow>
                      (let (written, s3) = write_loop start_block (unat off div BLOCK_SIZE) (unat off mod BLOCK_SIZE)
                             data (replicate BLOCK_SIZE 0) s2
                       in (written, if written > 0 then update_size i end_off s3 else s3)))"

definition free_file_record :: "nat \<Rightarrow> fsys \<Rightarrow> bool \<times> fsys" where
  "free_file_record i s =
     (if \<not> ROOT_MOUNTED s \<or> i \<ge> MAX_FILE_RECORDS then (False, s)
      else case read_block FILE_TABLE_BLOCK s of
        (None, s1) \<Rightarrow> (False, s1)
      | (Some block, s1) \<Rightarrow> write_block FILE_TABLE_BLOCK (set_size i 0 (set_start i 0 block)) s1)"

text \<open>Listing: the loop over the records, with the bytes written so far.\<close>

fun list_loop :: "u8 list \<Rightarrow> nat list \<Rightarrow> nat \<Rightarrow> u8 list \<Rightarrow> u8 list" where
  "list_loop block [] cap out = out"
| "list_loop block (i # is) cap out =
     (if rec_start block i = 0 then list_loop block is cap out
      else let nl = rec_name_len (rec_name block i)
           in if nl = 0 then list_loop block is cap out
              else if length out + nl + 1 > cap then out
              else list_loop block is cap (out @ take nl (rec_name block i) @ [10]))"

definition list_root :: "nat \<Rightarrow> fsys \<Rightarrow> u8 list \<times> fsys" where
  "list_root cap s =
     (if \<not> ROOT_MOUNTED s \<or> cap = 0 then ([], s)
      else case read_block FILE_TABLE_BLOCK s of
        (None, s1) \<Rightarrow> ([], s1)
      | (Some block, s1) \<Rightarrow> (list_loop block [0..<MAX_FILE_RECORDS] cap [], s1))"

section \<open>Fields\<close>

lemma unat_bytes:
  fixes v :: u32
  shows "unat (ucast v :: u8) = unat v mod 256"
    "unat (ucast (drop_bit 8 v) :: u8) = unat v div 256 mod 256"
    "unat (ucast (drop_bit 16 v) :: u8) = unat v div 65536 mod 256"
    "unat (ucast (drop_bit 24 v) :: u8) = unat v div 16777216 mod 256"
proof -
  have "unat (drop_bit k v) = unat v div 2 ^ k" for k
    unfolding unsigned_drop_bit_eq using unsigned_less [of v, where 'a = nat] by (simp add: take_bit_eq_mod drop_bit_eq_div)
  moreover have "unat (ucast w :: u8) = unat w mod 256" for w :: u32
    unfolding unsigned_ucast_eq by (simp add: take_bit_eq_mod)
  ultimately show "unat (ucast v :: u8) = unat v mod 256"
    "unat (ucast (drop_bit 8 v) :: u8) = unat v div 256 mod 256"
    "unat (ucast (drop_bit 16 v) :: u8) = unat v div 65536 mod 256"
    "unat (ucast (drop_bit 24 v) :: u8) = unat v div 16777216 mod 256" by simp_all
qed

lemma byte_sum:
  fixes n :: nat
  assumes "n < 2 ^ 32"
  shows "n mod 256 + 256 * (n div 256 mod 256 + 256 * (n div 65536 mod 256 + 256 * (n div 16777216 mod 256))) = n"
proof -
  have "n div 65536 = n div 256 div 256" "n div 16777216 = n div 256 div 256 div 256"
    by (simp_all add: div_mult2_eq [symmetric])
  moreover have "n div 256 div 256 div 256 < 256" using assms by (simp add: div_mult2_eq [symmetric] less_mult_imp_div_less)
  ultimately show ?thesis by (simp add: mult_mod_right [symmetric] algebra_simps)
qed

lemma length_put32 [simp]: "length (put32 i v bs) = length bs"
  by (simp add: put32_def)

lemma nth_put32_other: "j < i \<or> i + 4 \<le> j \<Longrightarrow> put32 i v bs ! j = bs ! j"
  by (auto simp: put32_def)

lemma le_bytes_4:
  "le_bytes 4 f i = unat (f i) + 256 * (unat (f (i + 1)) + 256 * (unat (f (i + 2)) + 256 * unat (f (i + 3))))"
  by (simp add: le_bytes_numeral add.commute numeral_3_eq_3)

lemma get32_put32 [simp]: "i + 4 \<le> length bs \<Longrightarrow> get32 i (put32 i v bs) = v"
proof -
  have lt: "unat v < 2 ^ 32" using unsigned_less [of v, where 'a = nat] by simp
  assume "i + 4 \<le> length bs"
  then have "put32 i v bs ! i = ucast v" "put32 i v bs ! (i + 1) = ucast (drop_bit 8 v)"
    "put32 i v bs ! (i + 2) = ucast (drop_bit 16 v)" "put32 i v bs ! (i + 3) = ucast (drop_bit 24 v)"
    by (simp_all add: put32_def)
  then have "le_bytes 4 (\<lambda>k. put32 i v bs ! k) i = unat v"
    unfolding le_bytes_4 using byte_sum [OF lt, folded unat_bytes] by (simp only:)
  then show ?thesis by (simp add: get32_def)
qed

lemma get32_cong: "(\<And>k. k < 4 \<Longrightarrow> bs ! (i + k) = bs' ! (i + k)) \<Longrightarrow> get32 i bs = get32 i bs'"
  unfolding get32_def by (metis (no_types, lifting) le_bytes_cong)

lemma get32_put32_other: "i + 4 \<le> j \<or> j + 4 \<le> i \<Longrightarrow> get32 i (put32 j v bs) = get32 i bs"
  by (intro get32_cong nth_put32_other) auto

section \<open>Transfers without faults\<close>

definition calm :: "fsys \<Rightarrow> bool" where
  "calm s \<longleftrightarrow> fs_dev_ready s \<and> fs_faults s = [] \<and> (\<forall>b. length (fs_disk s b) = BLOCK_SIZE)"

lemma read_block_calm: "calm s \<Longrightarrow> read_block b s = (Some (fs_disk s b), s)"
  by (simp add: calm_def read_block_def)

lemma write_block_calm: "calm s \<Longrightarrow> write_block b buf s = (True, s\<lparr>fs_disk := (fs_disk s)(b := buf)\<rparr>)"
  by (simp add: calm_def write_block_def)

lemma calm_upd [simp]:
  "length buf = BLOCK_SIZE \<Longrightarrow> calm s \<Longrightarrow> calm (s\<lparr>fs_disk := (fs_disk s)(b := buf)\<rparr>)"
  "calm (s\<lparr>NEXT_FREE_BLOCK := n, VOLUME_HEADER_DIRTY := d\<rparr>) = calm s"
  by (auto simp: calm_def)

lemma calm_length: "calm s \<Longrightarrow> length (fs_disk s b) = BLOCK_SIZE"
  by (simp add: calm_def)

text \<open>The bytes of a file whose first block is \<open>st\<close>, by position.\<close>

definition fbyte :: "fsys \<Rightarrow> u32 \<Rightarrow> nat \<Rightarrow> u8" where
  "fbyte s st p = fs_disk s (st + of_nat (p div BLOCK_SIZE)) ! (p mod BLOCK_SIZE)"

lemma of_nat_u32_inj: "a < 2 ^ 32 \<Longrightarrow> b < 2 ^ 32 \<Longrightarrow> (of_nat a :: u32) = of_nat b \<longleftrightarrow> a = b"
  by (auto simp: of_nat_eq_iff take_bit_nat_eq_self word_of_nat_eq_iff)

lemma fbyte_upd:
  assumes "p < 2 ^ 44" "bo < 2 ^ 32"
  shows "fbyte (s\<lparr>fs_disk := (fs_disk s)(st + of_nat bo := buf)\<rparr>) st p =
    (if p div BLOCK_SIZE = bo then buf ! (p mod BLOCK_SIZE) else fbyte s st p)"
proof -
  have "p div BLOCK_SIZE < 2 ^ 32" using assms(1) by (simp add: BLOCK_SIZE_def less_mult_imp_div_less)
  then show ?thesis using of_nat_u32_inj [OF _ assms(2), of "p div BLOCK_SIZE"] by (simp add: fbyte_def)
qed

lemma read_loop_calm:
  assumes "calm s" "ibo < BLOCK_SIZE"
  shows "read_loop st bo ibo n s = (map (fbyte s st) [bo * BLOCK_SIZE + ibo..<bo * BLOCK_SIZE + ibo + n], s)"
  using assms
proof (induction n arbitrary: bo ibo rule: less_induct)
  case (less n)
  let ?c = "min (BLOCK_SIZE - ibo) n" and ?p = "bo * BLOCK_SIZE + ibo"
  have fb: "fbyte s st (?p + k) = fs_disk s (st + of_nat bo) ! (ibo + k)" if "k < ?c" for k
  proof -
    have "?p + k = bo * BLOCK_SIZE + (ibo + k)" "ibo + k < BLOCK_SIZE" using that by auto
    then show ?thesis unfolding fbyte_def by (metis (no_types) div_mult_self3 add.commute div_less add_0_right mod_mult_self3 mod_less bot_nat_0.not_eq_extremum not_less0)
  qed
  have first: "take ?c (drop ibo (fs_disk s (st + of_nat bo))) = map (fbyte s st) [?p..<?p + ?c]"
    using fb calm_length [OF less.prems(1), of "st + of_nat bo"] less.prems(2) by (intro nth_equalityI) auto
  show ?case
  proof (cases "n = 0")
    case True
    then show ?thesis by (simp add: read_loop.simps)
  next
    case False
    have rec: "read_loop st (bo + 1) 0 (n - ?c) s = (map (fbyte s st) [(bo + 1) * BLOCK_SIZE..<(bo + 1) * BLOCK_SIZE + (n - ?c)], s)"
      using less.IH [of "n - ?c" 0 "bo + 1"] less.prems False by (simp add: BLOCK_SIZE_def)
    have "[?p..<?p + ?c] @ [(bo + 1) * BLOCK_SIZE..<(bo + 1) * BLOCK_SIZE + (n - ?c)] = [?p..<?p + n]"
    proof (cases "n \<le> BLOCK_SIZE - ibo")
      case False
      then have "?p + ?c = (bo + 1) * BLOCK_SIZE" "(bo + 1) * BLOCK_SIZE + (n - ?c) = ?p + n" using less.prems(2) by auto
      then show ?thesis using upt_add_eq_append [of ?p "?p + ?c" "n - ?c"] by (simp add: ac_simps)
    qed simp
    then show ?thesis
      using False less.prems first rec by (subst read_loop.simps) (simp add: read_block_calm Let_def flip: map_append)
  qed
qed

text \<open>The effect of one iteration of the write loop, and of the whole loop.\<close>

lemma nth_splice:
  assumes "length old = BLOCK_SIZE" "ibo + length new \<le> BLOCK_SIZE" "k < BLOCK_SIZE"
  shows "(take ibo old @ new @ drop (ibo + length new) old) ! k =
    (if ibo \<le> k \<and> k < ibo + length new then new ! (k - ibo) else old ! k)"
  using assms by (auto simp: nth_append)

lemma block_of_position:
  assumes "ibo < BLOCK_SIZE" "ibo + n \<le> BLOCK_SIZE"
  shows "p div BLOCK_SIZE = bo \<and> ibo \<le> p mod BLOCK_SIZE \<and> p mod BLOCK_SIZE < ibo + n \<longleftrightarrow>
    bo * BLOCK_SIZE + ibo \<le> p \<and> p < bo * BLOCK_SIZE + ibo + n"
proof
  assume "p div BLOCK_SIZE = bo \<and> ibo \<le> p mod BLOCK_SIZE \<and> p mod BLOCK_SIZE < ibo + n"
  then show "bo * BLOCK_SIZE + ibo \<le> p \<and> p < bo * BLOCK_SIZE + ibo + n" using div_mult_mod_eq [of p BLOCK_SIZE] by auto
next
  assume h: "bo * BLOCK_SIZE + ibo \<le> p \<and> p < bo * BLOCK_SIZE + ibo + n"
  define k where "k = p - bo * BLOCK_SIZE"
  have k: "p = bo * BLOCK_SIZE + k" "ibo \<le> k" "k < ibo + n" using h by (auto simp: k_def)
  then have "k < BLOCK_SIZE" using assms by linarith
  then have "p div BLOCK_SIZE = bo" "p mod BLOCK_SIZE = k" by (simp_all add: k(1))
  with k show "p div BLOCK_SIZE = bo \<and> ibo \<le> p mod BLOCK_SIZE \<and> p mod BLOCK_SIZE < ibo + n" by simp
qed

definition written :: "u32 \<Rightarrow> nat \<Rightarrow> u8 list \<Rightarrow> fsys \<Rightarrow> fsys \<Rightarrow> bool" where
  "written st pos data s s' \<longleftrightarrow> calm s' \<and> s' = s\<lparr>fs_disk := fs_disk s'\<rparr> \<and>
     (\<forall>p < 2 ^ 44. fbyte s' st p = (if pos \<le> p \<and> p < pos + length data then data ! (p - pos) else fbyte s st p)) \<and>
     (\<forall>b. (\<forall>k. k * BLOCK_SIZE < pos + length data \<longrightarrow> b \<noteq> st + of_nat k) \<longrightarrow> fs_disk s' b = fs_disk s b)"

lemma written_step:
  assumes "calm s" "ibo < BLOCK_SIZE" "bo < 2 ^ 32" "new \<noteq> []" "ibo + length new \<le> BLOCK_SIZE"
  shows "written st (bo * BLOCK_SIZE + ibo) new s (s\<lparr>fs_disk := (fs_disk s)(st + of_nat bo :=
    take ibo (fs_disk s (st + of_nat bo)) @ new @ drop (ibo + length new) (fs_disk s (st + of_nat bo)))\<rparr>)"
proof -
  let ?old = "fs_disk s (st + of_nat bo)"
  let ?buf = "take ibo ?old @ new @ drop (ibo + length new) ?old" and ?pos = "bo * BLOCK_SIZE + ibo"
  let ?s = "s\<lparr>fs_disk := (fs_disk s)(st + of_nat bo := ?buf)\<rparr>"
  have old: "length ?old = BLOCK_SIZE" by (rule calm_length [OF assms(1)])
  then have len: "length ?buf = BLOCK_SIZE" using assms(5) by simp
  have "fbyte ?s st p = (if ?pos \<le> p \<and> p < ?pos + length new then new ! (p - ?pos) else fbyte s st p)" if "p < 2 ^ 44" for p
  proof -
    have m: "p mod BLOCK_SIZE < BLOCK_SIZE" by (simp add: BLOCK_SIZE_def)
    have "new ! (p mod BLOCK_SIZE - ibo) = new ! (p - ?pos)" if "p div BLOCK_SIZE = bo"
      using that div_mult_mod_eq [of p BLOCK_SIZE] by (metis diff_diff_left add_diff_cancel_left')
    then show ?thesis
      unfolding fbyte_upd [OF that assms(3)] nth_splice [OF old assms(5) m]
      using block_of_position [OF assms(2,5), of p bo] by (auto simp: fbyte_def)
  qed
  moreover have "fs_disk ?s b = fs_disk s b" if "\<forall>k. k * BLOCK_SIZE < ?pos + length new \<longrightarrow> b \<noteq> st + of_nat k" for b
    using that [rule_format, of bo] assms(4) by auto
  ultimately show ?thesis using assms(1) len by (simp add: written_def)
qed

lemma written_trans:
  assumes "written st pos d1 s s1" "written st (pos + length d1) d2 s1 s2"
  shows "written st pos (d1 @ d2) s s2"
proof -
  have "fbyte s2 st p = (if pos \<le> p \<and> p < pos + length (d1 @ d2) then (d1 @ d2) ! (p - pos) else fbyte s st p)"
    if "p < 2 ^ 44" for p
    using assms that unfolding written_def by (auto simp: nth_append)
  moreover have "fs_disk s2 b = fs_disk s b"
    if "\<forall>k. k * BLOCK_SIZE < pos + length (d1 @ d2) \<longrightarrow> b \<noteq> st + of_nat k" for b
  proof -
    have "\<forall>k. k * BLOCK_SIZE < pos + length d1 \<longrightarrow> b \<noteq> st + of_nat k" using that by auto
    then show ?thesis using assms that unfolding written_def by (simp add: add.assoc)
  qed
  moreover have "s1 = s\<lparr>fs_disk := fs_disk s1\<rparr>" "s2 = s1\<lparr>fs_disk := fs_disk s2\<rparr>" "calm s2" using assms by (auto simp: written_def)
  moreover from this have "s2 = s\<lparr>fs_disk := fs_disk s2\<rparr>" by (metis fsys.fold_congs(2) fsys.update_convs(2) fsys.surjective)
  ultimately show ?thesis unfolding written_def by blast
qed

lemma written_Nil: "calm s \<Longrightarrow> written st pos [] s s" by (auto simp: written_def)

lemma write_loop_calm:
  assumes "calm s" "ibo < BLOCK_SIZE" "bo * BLOCK_SIZE + ibo + length data \<le> 2 ^ 44"
  shows "\<exists>s'. write_loop st bo ibo data buf s = (length data, s') \<and> written st (bo * BLOCK_SIZE + ibo) data s s'"
  using assms
proof (induction "length data" arbitrary: data bo ibo buf s rule: less_induct)
  case less
  show ?case
  proof (cases "data = []")
    case True
    then show ?thesis using less.prems by (simp add: write_loop.simps written_Nil)
  next
    case False
    let ?c = "min (BLOCK_SIZE - ibo) (length data)" and ?b = "st + of_nat bo"
    let ?new = "take ?c data"
    let ?buf = "take ibo (fs_disk s ?b) @ ?new @ drop (ibo + ?c) (fs_disk s ?b)"
    let ?s1 = "s\<lparr>fs_disk := (fs_disk s)(?b := ?buf)\<rparr>"
    have c: "length ?new = ?c" "0 < ?c" "ibo + ?c \<le> BLOCK_SIZE" using False less.prems(2) by auto
    have "0 < length data" using False by simp
    then have bo: "bo < 2 ^ 32" using less.prems(3) by (simp add: BLOCK_SIZE_def del: length_greater_0_conv)
    have w1: "written st (bo * BLOCK_SIZE + ibo) ?new s ?s1"
      using written_step [OF less.prems(1,2) bo, of ?new st] c False by (auto simp: min_def)
    then have calm1: "calm ?s1" by (simp add: written_def)
    obtain s' where r: "write_loop st (bo + 1) 0 (drop ?c data) ?buf ?s1 = (length (drop ?c data), s')"
      and w2: "written st (bo * BLOCK_SIZE + ibo + ?c) (drop ?c data) ?s1 s'"
    proof (cases "BLOCK_SIZE - ibo \<le> length data")
      case True
      then have e: "(bo + 1) * BLOCK_SIZE = bo * BLOCK_SIZE + ibo + ?c" using less.prems(2) by auto
      have "\<exists>s'. write_loop st (bo + 1) 0 (drop ?c data) ?buf ?s1 = (length (drop ?c data), s') \<and>
          written st ((bo + 1) * BLOCK_SIZE + 0) (drop ?c data) ?s1 s'"
        using c(2) False less.prems(3) e calm1 by (intro less.hyps) (auto simp: BLOCK_SIZE_def)
      then show ?thesis using that e by (metis add_0_right)
    next
      case False
      then have "drop ?c data = []" by simp
      then show ?thesis using that calm1 by (simp add: write_loop.simps written_Nil)
    qed
    have "write_loop st bo ibo data buf s = (length data, s')"
      using False less.prems c r
      by (subst write_loop.simps) (simp add: read_block_calm write_block_calm Let_def not_le)
    moreover have "written st (bo * BLOCK_SIZE + ibo) data s s'"
      using written_trans [OF w1, of "drop ?c data"] w2 c(1) by simp
    ultimately show ?thesis by blast
  qed
qed

section \<open>The file table\<close>

lemma record_fits: "i < MAX_FILE_RECORDS \<Longrightarrow> i * FILE_RECORD_SIZE + 64 \<le> BLOCK_SIZE"
  by (simp add: MAX_FILE_RECORDS_def FILE_RECORD_SIZE_def BLOCK_SIZE_def)

lemma record_apart:
  "i \<noteq> j \<Longrightarrow> i * FILE_RECORD_SIZE + 64 \<le> j * FILE_RECORD_SIZE \<or> j * FILE_RECORD_SIZE + 64 \<le> i * FILE_RECORD_SIZE"
  unfolding FILE_RECORD_SIZE_def by (cases i j rule: linorder_cases) auto

lemma set_fields_length [simp]:
  "length (set_size i v blk) = length blk" "length (set_start i v blk) = length blk" "length (set_reserved i v blk) = length blk"
  by (simp_all add: set_size_def set_start_def set_reserved_def)

lemma rec_name_eq:
  assumes "length blk = BLOCK_SIZE" "j < MAX_FILE_RECORDS" "length blk' = BLOCK_SIZE"
    "\<And>k. k < 32 \<Longrightarrow> blk' ! (j * FILE_RECORD_SIZE + k) = blk ! (j * FILE_RECORD_SIZE + k)"
  shows "rec_name blk' j = rec_name blk j"
  using record_fits [OF assms(2)] assms by (intro nth_equalityI) (simp_all add: rec_name_def NAME_MAX_def)

lemma put32_name:
  assumes "length blk = BLOCK_SIZE" "j < MAX_FILE_RECORDS" "32 \<le> d" "d \<le> 60"
  shows "rec_name (put32 (i * FILE_RECORD_SIZE + d) v blk) j = rec_name blk j"
proof (rule rec_name_eq)
  fix k assume k: "k < (32::nat)"
  have "j * FILE_RECORD_SIZE + k < i * FILE_RECORD_SIZE + d \<or> i * FILE_RECORD_SIZE + d + 4 \<le> j * FILE_RECORD_SIZE + k"
    using record_apart [of i j] assms(3,4) k by (cases "i = j") auto
  then show "put32 (i * FILE_RECORD_SIZE + d) v blk ! (j * FILE_RECORD_SIZE + k) = blk ! (j * FILE_RECORD_SIZE + k)"
    by (rule nth_put32_other)
qed (use assms in simp_all)

lemma put32_field:
  assumes "d + 4 \<le> d' \<or> d' + 4 \<le> d \<or> i \<noteq> j" "d \<le> 60" "d' \<le> 60"
  shows "get32 (j * FILE_RECORD_SIZE + d') (put32 (i * FILE_RECORD_SIZE + d) v blk) = get32 (j * FILE_RECORD_SIZE + d') blk"
  using record_apart [of i j] assms by (intro get32_put32_other) (cases "i = j"; auto)

lemma set_fields:
  assumes "length blk = BLOCK_SIZE" "i < MAX_FILE_RECORDS" "j < MAX_FILE_RECORDS"
  shows "rec_size (set_size i v blk) j = (if i = j then v else rec_size blk j)"
    "rec_start (set_size i v blk) j = rec_start blk j" "rec_name (set_size i v blk) j = rec_name blk j"
    "rec_start (set_start i v blk) j = (if i = j then v else rec_start blk j)"
    "rec_size (set_start i v blk) j = rec_size blk j" "rec_name (set_start i v blk) j = rec_name blk j"
    "rec_size (set_reserved i v blk) j = rec_size blk j" "rec_start (set_reserved i v blk) j = rec_start blk j"
    "rec_name (set_reserved i v blk) j = rec_name blk j"
  using record_fits [OF assms(2)] assms(1) put32_field [of 32 32 i j v blk] put32_field [of 32 36 i j v blk]
    put32_field [of 36 36 i j v blk] put32_field [of 36 32 i j v blk] put32_field [of 40 36 i j v blk] put32_field [of 40 32 i j v blk]
    put32_name [OF assms(1,3), of 32 i v] put32_name [OF assms(1,3), of 36 i v] put32_name [OF assms(1,3), of 40 i v]
  by (auto simp: set_size_def set_start_def set_reserved_def rec_size_def rec_start_def)

abbreviation table :: "fsys \<Rightarrow> u8 list" where
  "table s \<equiv> fs_disk s FILE_TABLE_BLOCK"

lemma get_info_calm:
  "calm s \<Longrightarrow> ROOT_MOUNTED s \<Longrightarrow> i < MAX_FILE_RECORDS \<Longrightarrow> get_file_record_info i s =
   (if rec_start (table s) i = 0 then None else Some (rec_size (table s) i, rec_start (table s) i), s)"
  by (simp add: get_file_record_info_def read_block_calm)

text \<open>A change of the file table in which only the size of record \<open>i\<close> may differ.\<close>

definition resized :: "nat \<Rightarrow> fsys \<Rightarrow> fsys \<Rightarrow> bool" where
  "resized i s s' \<longleftrightarrow> calm s' \<and> ROOT_MOUNTED s' = ROOT_MOUNTED s \<and> (\<forall>b. b \<noteq> FILE_TABLE_BLOCK \<longrightarrow> fs_disk s' b = fs_disk s b) \<and>
     (\<forall>j < MAX_FILE_RECORDS. rec_start (table s') j = rec_start (table s) j \<and> rec_name (table s') j = rec_name (table s) j \<and>
        (j \<noteq> i \<longrightarrow> rec_size (table s') j = rec_size (table s) j))"

lemma resized_refl: "calm s \<Longrightarrow> resized i s s" by (simp add: resized_def)

lemma resized_set_size:
  assumes "calm s" "i < MAX_FILE_RECORDS"
  shows "resized i s (s\<lparr>fs_disk := (fs_disk s)(FILE_TABLE_BLOCK := set_size i v (table s))\<rparr>)"
    "resized i s (s\<lparr>NEXT_FREE_BLOCK := n, VOLUME_HEADER_DIRTY := d, fs_disk := (fs_disk s)(FILE_TABLE_BLOCK := set_size i v (table s))\<rparr>)"
  using assms calm_length [OF assms(1), of FILE_TABLE_BLOCK] set_fields [of "table s" i]
  by (auto simp: resized_def calm_def)

lemma grow_calm:
  assumes "calm s" "ROOT_MOUNTED s" "i < MAX_FILE_RECORDS" "rec_start (table s) i \<noteq> 0"
  shows "\<exists>s2. grow_for_write i sz e s = (True, s2) \<and> resized i s s2"
proof (cases "blocks_for sz < blocks_for e")
  case True
  have "blocks_for e < 2 ^ 32"
    using unsigned_less [of e, where 'a = nat] by (simp add: blocks_for_def BLOCK_SIZE_def less_mult_imp_div_less)
  then have "(of_nat (blocks_for e - blocks_for sz) :: u32) \<noteq> 0"
    using True of_nat_u32_inj [of "blocks_for e - blocks_for sz" 0] by simp
  with True assms resized_set_size(2) [OF assms(1,3)] show ?thesis
    by (auto simp: grow_for_write_def extend_file_blocks_def read_block_calm write_block_calm)
next
  case False
  then show ?thesis using resized_refl [OF assms(1)] by (simp add: grow_for_write_def)
qed

lemma update_size_calm:
  assumes "calm s" "ROOT_MOUNTED s" "i < MAX_FILE_RECORDS" "rec_start (table s) i \<noteq> 0"
  shows "resized i s (update_size i e s) \<and> e \<le> rec_size (table (update_size i e s)) i"
proof (cases "rec_size (table s) i < e")
  case True
  then show ?thesis
    using assms resized_set_size(1) [OF assms(1,3), of e] set_fields(1) [OF calm_length [OF assms(1)] assms(3,3)]
    by (simp add: update_size_def get_info_calm read_block_calm write_block_calm)
next
  case False
  then show ?thesis
    using assms resized_refl [OF assms(1)] by (auto simp: update_size_def get_info_calm read_block_calm)
qed

section \<open>Writing a file\<close>

text \<open>The blocks of the positions below \<open>e\<close> of a file that starts at block \<open>st\<close> come after the file
  table and do not wrap.\<close>

definition data_blocks_ok :: "u32 \<Rightarrow> nat \<Rightarrow> bool" where
  "data_blocks_ok st e \<longleftrightarrow> 2 \<le> unat st \<and> unat st + e div BLOCK_SIZE < 2 ^ 32"

lemma data_block_not_table:
  assumes "data_blocks_ok st e" "k * BLOCK_SIZE \<le> e"
  shows "st + of_nat k \<noteq> FILE_TABLE_BLOCK"
proof -
  have "k \<le> e div BLOCK_SIZE" using assms(2) by (simp add: BLOCK_SIZE_def less_eq_div_iff_mult_less_eq)
  then have b: "unat st + k < 2 ^ 32" "2 \<le> unat st" using assms(1) by (auto simp: data_blocks_ok_def)
  then have "unat (st + of_nat k) = unat st + k" by (simp add: unat_word_ariths unat_of_nat)
  then have "unat (st + of_nat k) \<noteq> unat FILE_TABLE_BLOCK" using b(2) by (simp add: FILE_TABLE_BLOCK_def)
  then show ?thesis by metis
qed

lemma resized_fbyte:
  assumes "resized i s s'" "data_blocks_ok st e" "p \<le> e"
  shows "fbyte s' st p = fbyte s st p"
proof -
  have "p div BLOCK_SIZE * BLOCK_SIZE \<le> e" using assms(3) div_times_less_eq_dividend [of p BLOCK_SIZE] by linarith
  from data_block_not_table [OF assms(2) this] assms(1) show ?thesis by (simp add: fbyte_def resized_def)
qed

lemma written_table:
  assumes "written st pos data s s'" "data_blocks_ok st (pos + length data)"
  shows "table s' = table s" "ROOT_MOUNTED s' = ROOT_MOUNTED s" "calm s'"
proof -
  show "table s' = table s" using assms data_block_not_table [OF assms(2)] unfolding written_def
    by (metis less_imp_le_nat)
  have "s' = s\<lparr>fs_disk := fs_disk s'\<rparr>" using assms(1) by (simp add: written_def)
  then show "ROOT_MOUNTED s' = ROOT_MOUNTED s" by (metis fsys.select_convs(4) fsys.surjective fsys.update_convs(2))
  show "calm s'" using assms(1) by (simp add: written_def)
qed

lemma sadd_end:
  assumes "unat (off :: u32) + n < 2 ^ 32"
  shows "unat (word_sadd off (of_nat n)) = unat off + n"
  using assms by (simp add: unat_word_sadd unat_of_nat)

text \<open>The whole operation, step by step: \<open>s2\<close> after the reservation, \<open>s3\<close> after the data, \<open>s'\<close> at the end.\<close>

lemma write_file_data_steps:
  assumes "calm s" "ROOT_MOUNTED s" "i < MAX_FILE_RECORDS" "get_file_record_info i s = (Some (sz, st), s)"
    "data \<noteq> []" "unat off + length data < 2 ^ 32" "data_blocks_ok st (unat off + length data)"
  shows "\<exists>s2 s3 s'. write_file_data i off data s = (length data, s') \<and> resized i s s2 \<and> written st (unat off) data s2 s3 \<and>
    resized i s3 s' \<and> rec_start (table s') i = st \<and> unat off + length data \<le> unat (rec_size (table s') i)"
proof -
  have st: "rec_start (table s) i = st" "st \<noteq> 0" using assms(1-4) by (auto simp: get_info_calm split: if_splits)
  let ?e = "word_sadd off (of_nat (length data))"
  obtain s2 where g: "grow_for_write i sz ?e s = (True, s2)" "resized i s s2"
    using grow_calm [OF assms(1-3)] st by auto
  then have c2: "calm s2" "ROOT_MOUNTED s2" "rec_start (table s2) i = st" using assms(2,3) st by (auto simp: resized_def)
  have "unat off div BLOCK_SIZE * BLOCK_SIZE + unat off mod BLOCK_SIZE = unat off" by simp
  with write_loop_calm [OF c2(1), of "unat off mod BLOCK_SIZE" "unat off div BLOCK_SIZE" data st "replicate BLOCK_SIZE 0"] assms(6)
  obtain s3 where w: "write_loop st (unat off div BLOCK_SIZE) (unat off mod BLOCK_SIZE) data (replicate BLOCK_SIZE 0) s2 =
      (length data, s3)" "written st (unat off) data s2 s3" by (auto simp: BLOCK_SIZE_def)
  note t3 = written_table [OF w(2) assms(7)]
  have u: "resized i s3 (update_size i ?e s3)" "?e \<le> rec_size (table (update_size i ?e s3)) i"
    using update_size_calm [of s3 i ?e] t3 c2 st assms(3) by auto
  have "write_file_data i off data s = (length data, update_size i ?e s3)"
    using assms(4,5) g w by (simp add: write_file_data_def)
  moreover have "rec_start (table (update_size i ?e s3)) i = st" using u(1) t3 c2(3) assms(3) by (simp add: resized_def)
  ultimately show ?thesis using g(2) w(2) u sadd_end [OF assms(6)] by (metis word_le_nat_alt)
qed

lemma read_file_data_calm:
  assumes "calm s" "ROOT_MOUNTED s" "i < MAX_FILE_RECORDS" "rec_start (table s) i = st" "st \<noteq> 0"
    "unat off + n \<le> unat (rec_size (table s) i)" "0 < n"
  shows "read_file_data i off n s = (map (fbyte s st) [unat off..<unat off + n], s)"
proof -
  let ?sz = "rec_size (table s) i"
  have lt: "off < ?sz" using assms(6,7) by (simp add: word_less_nat_alt)
  have n: "n < 2 ^ 32" using assms(6) unsigned_less [of ?sz, where 'a = nat] by simp
  have "unat (?sz - off) = unat ?sz - unat off" using lt by (simp add: unat_sub less_imp_le)
  then have "(of_nat n :: u32) \<le> ?sz - off" using assms(6) n by (simp add: word_le_nat_alt unat_of_nat)
  then have m: "unat (min (?sz - off) (of_nat n)) = n" using n by (simp add: min_def unat_of_nat)
  have "read_loop st (unat off div BLOCK_SIZE) (unat off mod BLOCK_SIZE) n s = (map (fbyte s st) [unat off..<unat off + n], s)"
    using read_loop_calm [OF assms(1), of "unat off mod BLOCK_SIZE" st "unat off div BLOCK_SIZE" n] by (simp add: BLOCK_SIZE_def)
  then show ?thesis using lt m assms(1-5) by (simp add: read_file_data_def get_info_calm not_le)
qed

lemma write_file_roundtrip:
  assumes "calm s" "ROOT_MOUNTED s" "i < MAX_FILE_RECORDS" "get_file_record_info i s = (Some (sz, st), s)"
    "data \<noteq> []" "unat off + length data < 2 ^ 32" "data_blocks_ok st (unat off + length data)"
  shows "\<exists>s' sz'. write_file_data i off data s = (length data, s') \<and> read_file_data i off (length data) s' = (data, s') \<and>
    get_file_record_info i s' = (Some (sz', st), s') \<and>
    (\<forall>p \<le> unat off + length data. p < unat off \<or> unat off + length data \<le> p \<longrightarrow> fbyte s' st p = fbyte s st p) \<and>
    (\<forall>j < MAX_FILE_RECORDS. j \<noteq> i \<longrightarrow> fst (get_file_record_info j s') = fst (get_file_record_info j s)) \<and>
    (\<forall>b. b \<noteq> FILE_TABLE_BLOCK \<and> (\<forall>k. k * BLOCK_SIZE < unat off + length data \<longrightarrow> b \<noteq> st + of_nat k) \<longrightarrow>
       fs_disk s' b = fs_disk s b)"
proof -
  let ?e = "unat off + length data"
  from write_file_data_steps [OF assms] obtain s2 s3 s' where
    w: "write_file_data i off data s = (length data, s')" and r2: "resized i s s2" and wr: "written st (unat off) data s2 s3"
    and r': "resized i s3 s'" and st: "rec_start (table s') i = st" and sz: "?e \<le> unat (rec_size (table s') i)" by blast
  have st0: "st \<noteq> 0" using assms(7) by (auto simp: data_blocks_ok_def)
  have m: "calm s'" "ROOT_MOUNTED s'" "calm s2" "ROOT_MOUNTED s2" and t3: "table s3 = table s2"
    using r2 r' written_table [OF wr assms(7)] assms(2) by (auto simp: resized_def)
  have fb: "fbyte s' st p = (if unat off \<le> p \<and> p < ?e then data ! (p - unat off) else fbyte s st p)" if "p \<le> ?e" for p
    using resized_fbyte [OF r2 assms(7) that] resized_fbyte [OF r' assms(7) that] wr that assms(6) by (simp add: written_def)
  have "read_file_data i off (length data) s' = (map (fbyte s' st) [unat off..<?e], s')"
    using m st st0 sz assms(3,5) by (intro read_file_data_calm) auto
  also have "map (fbyte s' st) [unat off..<?e] = data" using fb by (intro nth_equalityI) auto
  finally have rd: "read_file_data i off (length data) s' = (data, s')" .
  have "get_file_record_info i s' = (Some (rec_size (table s') i, st), s')" using m st st0 assms(3) by (simp add: get_info_calm)
  moreover have "fst (get_file_record_info j s') = fst (get_file_record_info j s)" if "j < MAX_FILE_RECORDS" "j \<noteq> i" for j
    using that m assms(1,2) r2 r' t3 by (simp add: get_info_calm resized_def)
  moreover have "fs_disk s' b = fs_disk s b"
    if "b \<noteq> FILE_TABLE_BLOCK" "\<forall>k. k * BLOCK_SIZE < ?e \<longrightarrow> b \<noteq> st + of_nat k" for b
    using that r2 r' wr by (simp add: resized_def written_def)
  ultimately show ?thesis using w rd fb by (intro exI [of _ s'] exI [of _ "rec_size (table s') i"]) auto
qed

section \<open>Creating a file\<close>

lemma set_name_nth:
  assumes "length blk = BLOCK_SIZE" "i < MAX_FILE_RECORDS" "length name \<le> NAME_MAX"
  shows "length (set_name i name blk) = BLOCK_SIZE"
    "k < i * FILE_RECORD_SIZE \<or> i * FILE_RECORD_SIZE + 32 \<le> k \<Longrightarrow> k < BLOCK_SIZE \<Longrightarrow> set_name i name blk ! k = blk ! k"
    "rec_name (set_name i name blk) i = name @ replicate (NAME_MAX - length name) 0"
proof -
  note f = record_fits [OF assms(2)]
  show "length (set_name i name blk) = BLOCK_SIZE" using f assms by (simp add: set_name_def NAME_MAX_def)
  show "set_name i name blk ! k = blk ! k" if "k < i * FILE_RECORD_SIZE \<or> i * FILE_RECORD_SIZE + 32 \<le> k" "k < BLOCK_SIZE"
    using that f assms by (auto simp: set_name_def NAME_MAX_def nth_append)
  show "rec_name (set_name i name blk) i = name @ replicate (NAME_MAX - length name) 0"
    using f assms by (simp add: rec_name_def set_name_def NAME_MAX_def)
qed

lemma set_name_other:
  assumes "length blk = BLOCK_SIZE" "i < MAX_FILE_RECORDS" "length name \<le> NAME_MAX" "j < MAX_FILE_RECORDS"
  shows "j \<noteq> i \<Longrightarrow> rec_name (set_name i name blk) j = rec_name blk j"
    "rec_size (set_name i name blk) j = rec_size blk j" "rec_start (set_name i name blk) j = rec_start blk j"
proof -
  note f = record_fits [OF assms(4)] and sn = set_name_nth(1,2) [OF assms(1-3)]
  have out: "j * FILE_RECORD_SIZE + k < i * FILE_RECORD_SIZE \<or> i * FILE_RECORD_SIZE + 32 \<le> j * FILE_RECORD_SIZE + k"
    if "k < 64" "i \<noteq> j \<or> 32 \<le> k" for k
    using record_apart [of i j] that by (cases "i = j") auto
  show "rec_name (set_name i name blk) j = rec_name blk j" if "j \<noteq> i"
  proof (rule rec_name_eq [OF assms(1,4) sn(1)])
    fix k :: nat assume "k < 32"
    then show "set_name i name blk ! (j * FILE_RECORD_SIZE + k) = blk ! (j * FILE_RECORD_SIZE + k)"
      using out [of k] that f by (intro sn(2)) auto
  qed
  have "get32 (j * FILE_RECORD_SIZE + d) (set_name i name blk) = get32 (j * FILE_RECORD_SIZE + d) blk" if "32 \<le> d" "d \<le> 60" for d
  proof (rule get32_cong)
    fix k :: nat assume "k < 4"
    then show "set_name i name blk ! (j * FILE_RECORD_SIZE + d + k) = blk ! (j * FILE_RECORD_SIZE + d + k)"
      using out [of "d + k"] that f by (intro sn(2)) (auto simp: add.assoc)
  qed
  then show "rec_size (set_name i name blk) j = rec_size blk j" "rec_start (set_name i name blk) j = rec_start blk j"
    by (simp_all add: rec_size_def rec_start_def)
qed

text \<open>What a successful creation does.\<close>

lemma alloc_file_record_calm:
  assumes "calm s" "alloc_file_record name s = (Some i, s1)"
  shows "calm s1" "ROOT_MOUNTED s1" "i < MAX_FILE_RECORDS" "length name \<le> NAME_MAX" "rec_start (table s) i = 0"
    "NEXT_FREE_BLOCK s1 = NEXT_FREE_BLOCK s + 1" "\<forall>b. b \<noteq> FILE_TABLE_BLOCK \<longrightarrow> fs_disk s1 b = fs_disk s b"
    "rec_name (table s1) i = name @ replicate (NAME_MAX - length name) 0" "rec_size (table s1) i = 0"
    "rec_start (table s1) i = NEXT_FREE_BLOCK s"
    "\<forall>j < MAX_FILE_RECORDS. j \<noteq> i \<longrightarrow> rec_name (table s1) j = rec_name (table s) j \<and>
       rec_size (table s1) j = rec_size (table s) j \<and> rec_start (table s1) j = rec_start (table s) j"
proof -
  let ?b = "set_name i name (table s)"
  let ?t = "set_reserved i 0 (set_start i (NEXT_FREE_BLOCK s) (set_size i 0 ?b))"
  have f: "List.find (\<lambda>i. rec_start (table s) i = 0) [0..<MAX_FILE_RECORDS] = Some i"
    and m: "ROOT_MOUNTED s" and n: "length name \<le> NAME_MAX"
    and s1: "s1 = s\<lparr>NEXT_FREE_BLOCK := NEXT_FREE_BLOCK s + 1, VOLUME_HEADER_DIRTY := True, fs_disk := (fs_disk s)(FILE_TABLE_BLOCK := ?t)\<rparr>"
    using assms by (auto simp: alloc_file_record_def read_block_calm write_block_calm Let_def split: if_splits option.splits)
  from f show i: "i < MAX_FILE_RECORDS" and "rec_start (table s) i = 0" by (auto simp: find_Some_iff)
  note len = calm_length [OF assms(1), of FILE_TABLE_BLOCK]
  note sn = set_name_nth [OF len i n] and so = set_name_other [OF len i n]
  show "calm s1" using assms(1) sn(1) by (auto simp: s1 calm_def)
  show "ROOT_MOUNTED s1" "length name \<le> NAME_MAX" "NEXT_FREE_BLOCK s1 = NEXT_FREE_BLOCK s + 1"
    "\<forall>b. b \<noteq> FILE_TABLE_BLOCK \<longrightarrow> fs_disk s1 b = fs_disk s b" using m n by (simp_all add: s1)
  have fs: "rec_name ?t j = rec_name ?b j" "rec_size ?t j = (if i = j then 0 else rec_size ?b j)"
    "rec_start ?t j = (if i = j then NEXT_FREE_BLOCK s else rec_start ?b j)" if "j < MAX_FILE_RECORDS" for j
    using that i sn(1) by (simp_all add: set_fields)
  then show "rec_name (table s1) i = name @ replicate (NAME_MAX - length name) 0" "rec_size (table s1) i = 0"
    "rec_start (table s1) i = NEXT_FREE_BLOCK s" using i sn(3) by (simp_all add: s1)
  show "\<forall>j < MAX_FILE_RECORDS. j \<noteq> i \<longrightarrow> rec_name (table s1) j = rec_name (table s) j \<and>
       rec_size (table s1) j = rec_size (table s) j \<and> rec_start (table s1) j = rec_start (table s) j"
    using fs so by (simp add: s1)
qed

section \<open>Names\<close>

lemma length_takeWhile_upt:
  "length (takeWhile P [0..<n]) = m \<longleftrightarrow> m \<le> n \<and> (\<forall>j < m. P j) \<and> (m < n \<longrightarrow> \<not> P m)"
proof -
  let ?l = "length (takeWhile P [0..<n])"
  have l1: "?l \<le> n" using length_takeWhile_le [of P "[0..<n]"] by simp
  have l2: "?l < n \<longrightarrow> \<not> P ?l" using nth_length_takeWhile [of P "[0..<n]"] by simp
  have l3: "P j" if "j < ?l" for j
    using takeWhile_nth [OF that] nth_mem [OF that] set_takeWhileD that l1 by fastforce
  note l = l1 l2 l3
  show ?thesis
  proof
    assume h: "m \<le> n \<and> (\<forall>j < m. P j) \<and> (m < n \<longrightarrow> \<not> P m)"
    show "?l = m"
    proof (rule ccontr)
      assume "?l \<noteq> m"
      then consider "?l < m" | "m < ?l" by linarith
      then show False using h l by cases auto
    qed
  qed (use l in auto)
qed

text \<open>Names without a zero byte match exactly the record that stores them.\<close>

lemma name_matches_padded:
  assumes "length name \<le> NAME_MAX" "0 \<notin> set name" "length n \<le> NAME_MAX" "0 \<notin> set n"
  shows "name_matches (name @ replicate (NAME_MAX - length name) 0) n \<longleftrightarrow> n = name"
proof -
  let ?r = "name @ replicate (NAME_MAX - length name) 0"
  have nz: "n ! j \<noteq> 0" if "j < length n" for j using assms(4) that nth_mem by metis
  have nz': "name ! j \<noteq> 0" if "j < length name" for j using assms(2) that nth_mem by metis
  have rl: "rec_name_len ?r = length name"
    unfolding rec_name_len_def length_takeWhile_upt using assms(1) nz' by (auto simp: nth_append)
  have ml: "match_length ?r n = length n \<longleftrightarrow> (\<forall>j < length n. ?r ! j = n ! j)"
    unfolding match_length_def length_takeWhile_upt using assms(3) nz by auto
  have "match_length ?r n \<le> length n" using length_takeWhile_upt [of _ NAME_MAX "match_length ?r n"]
    unfolding match_length_def by (metis (no_types, lifting) linorder_not_less order.refl)
  then have "name_matches ?r n \<longleftrightarrow> match_length ?r n = length n \<and> length name = length n"
    unfolding name_matches_def Let_def rl using nz by auto
  also have "\<dots> \<longleftrightarrow> n = name" unfolding ml by (auto simp: nth_append list_eq_iff_nth_eq)
  finally show ?thesis .
qed

section \<open>Properties\<close>


text \<open>a created file can be found. If no record matches the name, creating the file makes the lookup
  of the name return the new record, which is empty and starts at the next free block; the lookup
  of every other name, and every other record, is as before.\<close>

theorem created_file_is_found:
  assumes "calm s" "find_file_by_name name s = (None, s)" "0 \<notin> set name" "NEXT_FREE_BLOCK s \<noteq> 0"
    "alloc_file_record name s = (Some i, s1)" "n \<noteq> name" "length n \<le> NAME_MAX" "0 \<notin> set n"
  shows "find_file_by_name name s1 = (Some i, s1) \<and> get_file_record_info i s1 = (Some (0, NEXT_FREE_BLOCK s), s1) \<and>
    fst (find_file_by_name n s1) = fst (find_file_by_name n s) \<and>
    (\<forall>j < MAX_FILE_RECORDS. j \<noteq> i \<longrightarrow> fst (get_file_record_info j s1) = fst (get_file_record_info j s))"
proof -
  note a = alloc_file_record_calm [OF assms(1,5)]
  have mt: "ROOT_MOUNTED s" using assms(5) by (auto simp: alloc_file_record_def split: if_splits)
  let ?Q = "\<lambda>n t j. rec_start (table t) j \<noteq> 0 \<and> name_matches (rec_name (table t) j) n"
  have old: "\<not> ?Q name s j" if "j < MAX_FILE_RECORDS" for j
    using assms(1,2) mt that by (auto simp: find_file_by_name_def read_block_calm find_None_iff)
  have new: "?Q name s1 j \<longleftrightarrow> j = i" if "j < MAX_FILE_RECORDS" for j
    using that old [OF that] a(8,10,11) name_matches_padded [OF a(4) assms(3) a(4) assms(3)] assms(4) by (cases "j = i") auto
  have other: "?Q n s1 j \<longleftrightarrow> ?Q n s j" if "j < MAX_FILE_RECORDS" for j
    using that a(5,8,11) name_matches_padded [OF a(4) assms(3,7,8)] assms(6) by (cases "j = i") auto
  have "List.find (?Q name s1) [0..<MAX_FILE_RECORDS] = Some i"
    using new [OF a(3)] new a(3) unfolding find_Some_iff by (intro exI [of _ i]) auto
  moreover have "List.find (?Q n s1) [0..<MAX_FILE_RECORDS] = List.find (?Q n s) [0..<MAX_FILE_RECORDS]"
    using other by (intro find_cong) auto
  ultimately show ?thesis
    using a mt assms(1,4) by (simp add: find_file_by_name_def read_block_calm get_info_calm)
qed

text \<open>growing a file overwrites its neighbour. If two files are created one after the other, then
  writing more than one block to the first one replaces the contents of the second: its bytes
  are those of the tail of the data.\<close>

theorem growth_overwrites_next_file:
  assumes "calm s" "2 \<le> unat (NEXT_FREE_BLOCK s)" "unat (NEXT_FREE_BLOCK s) < 2 ^ 31"
    "alloc_file_record a s = (Some i, s1)" "alloc_file_record b s1 = (Some j, s2)"
    "BLOCK_SIZE < length data" "length data \<le> 2 * BLOCK_SIZE"
  shows "\<exists>s3 st. write_file_data i 0 data s2 = (length data, s3) \<and> get_file_record_info j s2 = (Some (0, st), s2) \<and>
    fst (get_file_record_info j s3) = Some (0, st) \<and> take (length data - BLOCK_SIZE) (fs_disk s3 st) = drop BLOCK_SIZE data"
proof -
  let ?st = "NEXT_FREE_BLOCK s"
  note a = alloc_file_record_calm [OF assms(1,4)]
  note b = alloc_file_record_calm [OF a(1) assms(5)]
  have ne: "j \<noteq> i" using a(10) b(5) assms(2) by auto
  have info: "get_file_record_info i s2 = (Some (0, ?st), s2)" "get_file_record_info j s2 = (Some (0, ?st + 1), s2)"
  proof -
    have "unat (?st + 1) = unat ?st + 1" using assms(3) by (simp add: unat_word_ariths)
    then have "?st + 1 \<noteq> 0" by (metis add_is_0 one_neq_zero unat_0)
    then show "get_file_record_info i s2 = (Some (0, ?st), s2)" "get_file_record_info j s2 = (Some (0, ?st + 1), s2)"
      using a b ne assms(2) by (auto simp: get_info_calm)
  qed
  have ok: "data_blocks_ok ?st (unat (0::u32) + length data)"
    using assms(2,3,7) div_le_mono [OF assms(7), of BLOCK_SIZE] by (simp add: data_blocks_ok_def BLOCK_SIZE_def)
  have nz: "data \<noteq> []" and lt: "unat (0::u32) + length data < 2 ^ 32" using assms(6,7) by (auto simp: BLOCK_SIZE_def)
  from write_file_data_steps [OF b(1,2) a(3) info(1) nz lt ok] obtain s3' s3'' s3 where
    w: "write_file_data i 0 data s2 = (length data, s3)" and r2: "resized i s2 s3'" and wr: "written ?st (unat (0::u32)) data s3' s3''"
    and r': "resized i s3'' s3" by auto
  note t3 = written_table [OF wr ok]
  have "fst (get_file_record_info j s3) = fst (get_file_record_info j s2)"
    using ne b(1-3) r2 r' t3 by (auto simp: get_info_calm resized_def)
  moreover have "fs_disk s3 (?st + 1) ! k = data ! (BLOCK_SIZE + k)" if "k < length data - BLOCK_SIZE" for k
  proof -
    have k: "BLOCK_SIZE + k < length data" "k < BLOCK_SIZE" using that assms(7) by auto
    then have "fbyte s3 ?st (BLOCK_SIZE + k) = fbyte s3'' ?st (BLOCK_SIZE + k)"
      using resized_fbyte [OF r' ok, of "BLOCK_SIZE + k"] by simp
    also have "\<dots> = data ! (BLOCK_SIZE + k)" using wr k assms(7) by (simp add: written_def BLOCK_SIZE_def)
    finally show ?thesis using k(2) div_add_self1 [of BLOCK_SIZE k] by (simp add: fbyte_def)
  qed
  moreover have "length (fs_disk s3 (?st + 1)) = BLOCK_SIZE" using r' by (simp add: resized_def calm_def)
  ultimately show ?thesis
    using w info(2) assms(6,7) by (intro exI [of _ s3] exI [of _ "?st + 1"]) (auto intro!: nth_equalityI)
qed

text \<open>A blank disk, mounted, and two files created on it.\<close>

definition blank :: fsys where
  "blank = snd (mount_root (fsys_boot (\<lambda>_. replicate BLOCK_SIZE 0)))"

lemma get32_zero: "i + 4 \<le> n \<Longrightarrow> get32 i (replicate n 0) = 0"
  by (simp add: get32_def le_bytes_4)

lemma blank_state:
  "calm blank" "ROOT_MOUNTED blank" "NEXT_FREE_BLOCK blank = 2" "table blank = replicate BLOCK_SIZE 0"
proof -
  have c: "calm (fsys_boot (\<lambda>_. replicate BLOCK_SIZE 0))" by (simp add: calm_def fsys_boot_def)
  have "get32 0 (replicate BLOCK_SIZE 0) \<noteq> FS_MAGIC" by (simp add: get32_zero BLOCK_SIZE_def FS_MAGIC_def)
  then show "calm blank" "ROOT_MOUNTED blank" "NEXT_FREE_BLOCK blank = 2" "table blank = replicate BLOCK_SIZE 0"
    by (simp_all add: blank_def mount_root_def read_block_calm [OF c] write_block_calm [OF c])
      (simp_all add: fsys_boot_def calm_def DATA_START_BLOCK_def FILE_TABLE_BLOCK_def)
qed

lemma blank_free: "i < MAX_FILE_RECORDS \<Longrightarrow> rec_start (table blank) i = 0"
  using record_fits [of i] by (simp add: blank_state rec_start_def get32_zero)

lemma alloc_finds_free:
  assumes "calm s" "ROOT_MOUNTED s" "length name \<le> NAME_MAX" "i < MAX_FILE_RECORDS" "rec_start (table s) i = 0"
  shows "\<exists>j s1. alloc_file_record name s = (Some j, s1)"
proof -
  from assms(4,5) obtain j where "List.find (\<lambda>i. rec_start (table s) i = 0) [0..<MAX_FILE_RECORDS] = Some j"
    by (cases "List.find (\<lambda>i. rec_start (table s) i = 0) [0..<MAX_FILE_RECORDS]") (auto simp: find_None_iff)
  with assms(1-3) show ?thesis
    by (simp add: alloc_file_record_def read_block_calm write_block_calm Let_def)
qed

lemma blank_two_files:
  "\<exists>i j s1 s2. alloc_file_record [97] blank = (Some i, s1) \<and> alloc_file_record [98] s1 = (Some j, s2)"
proof -
  have m: "0 < MAX_FILE_RECORDS" "1 < MAX_FILE_RECORDS" "length [97 :: u8] \<le> NAME_MAX" "length [98 :: u8] \<le> NAME_MAX"
    by (simp_all add: MAX_FILE_RECORDS_def NAME_MAX_def)
  obtain i s1 where a: "alloc_file_record [97] blank = (Some i, s1)"
    using alloc_finds_free [OF blank_state(1,2) m(3,1) blank_free [OF m(1)]] by blast
  note s1 = alloc_file_record_calm [OF blank_state(1) a]
  obtain k where "k < MAX_FILE_RECORDS" "k \<noteq> i" using m by (metis zero_neq_one)
  then show ?thesis using alloc_finds_free [OF s1(1,2) m(4), of k] a s1(11) blank_free by auto
qed

theorem growth_overwrites_next_file_witness:
  "\<exists>i s1 j s2 s3 st. alloc_file_record [97] blank = (Some i, s1) \<and> alloc_file_record [98] s1 = (Some j, s2) \<and>
     write_file_data i 0 (replicate 5000 7) s2 = (5000, s3) \<and> get_file_record_info j s2 = (Some (0, st), s2) \<and>
     take 904 (fs_disk s3 st) = replicate 904 7"
proof -
  obtain i j s1 s2 where a: "alloc_file_record [97] blank = (Some i, s1)" "alloc_file_record [98] s1 = (Some j, s2)"
    using blank_two_files by blast
  with growth_overwrites_next_file [OF blank_state(1) _ _ a, of "replicate 5000 7"] show ?thesis
    by (fastforce simp: blank_state BLOCK_SIZE_def)
qed

theorem created_file_is_found_witness:
  "\<exists>i s1. alloc_file_record [97] blank = (Some i, s1) \<and> find_file_by_name [97] s1 = (Some i, s1) \<and>
     find_file_by_name [98] s1 = (None, s1)"
proof -
  obtain i s1 where a: "alloc_file_record [97] blank = (Some i, s1)" using blank_two_files by blast
  have f: "find_file_by_name n blank = (None, blank)" for n
    using blank_free by (auto simp: find_file_by_name_def blank_state read_block_calm find_None_iff)
  have c: "calm s1" "ROOT_MOUNTED s1" using alloc_file_record_calm [OF blank_state(1) a] by auto
  from created_file_is_found [OF blank_state(1) f _ _ a, of "[98]"] f [of "[98]"] a c show ?thesis
    by (auto simp: blank_state NAME_MAX_def find_file_by_name_def read_block_calm)
qed


end
