(* ===== verification/Vfs.thy ===== *)
theory Vfs
  imports Simple_FS
begin

text \<open>
  The file descriptor layer (\<open>kernel/fs/vfs.rs\<close>): a table of eight open files shared by all processes,
  over the file system of \<open>Simple_FS\<close>. Descriptors 0 to 2 belong to the console and never reach it.
\<close>

section \<open>State\<close>

definition MAX_OPEN :: nat where "MAX_OPEN = 8"
definition FIRST_FD :: u32 where "FIRST_FD = 3"
definition O_CREAT :: u32 where "O_CREAT = 0x40"

record fd_entry =
  file_index :: "nat option"
  fd_offset :: u32
  owner_pid :: "u32 option"

record vfs =
  vfs_fs :: fsys
  FD_TABLE :: "fd_entry list"

definition fd_closed :: fd_entry where
  "fd_closed = \<lparr>file_index = None, fd_offset = 0, owner_pid = None\<rparr>"

definition vfs_boot :: "fsys \<Rightarrow> vfs" where
  "vfs_boot f = \<lparr>vfs_fs = f, FD_TABLE = replicate MAX_OPEN fd_closed\<rparr>"

definition fd_to_slot :: "u32 \<Rightarrow> nat option" where
  "fd_to_slot fd = (if fd < FIRST_FD \<or> fd \<ge> FIRST_FD + of_nat MAX_OPEN then None else Some (unat (fd - FIRST_FD)))"

section \<open>Operations\<close>

definition vfs_open :: "u8 list \<Rightarrow> u32 \<Rightarrow> u32 \<Rightarrow> vfs \<Rightarrow> u32 option \<times> vfs" where
  "vfs_open path flags pid v =
     (if \<not> ROOT_MOUNTED (vfs_fs v) then (None, v)
      else case first_index (\<lambda>e. file_index e = None) (FD_TABLE v) of
        None \<Rightarrow> (None, v)
      | Some slot \<Rightarrow>
          if 47 \<in> set path then (None, v)
          else let (found, f1) = find_file_by_name path (vfs_fs v);
                   (r, f2) = (case found of
                                Some i \<Rightarrow> (Some i, f1)
                              | None \<Rightarrow> if flags AND O_CREAT \<noteq> 0 then alloc_file_record path f1 else (None, f1))
               in case r of
                    None \<Rightarrow> (None, v\<lparr>vfs_fs := f2\<rparr>)
                  | Some i \<Rightarrow>
                      (Some (FIRST_FD + of_nat slot),
                       v\<lparr>vfs_fs := f2, FD_TABLE := (FD_TABLE v)[slot := \<lparr>file_index = Some i, fd_offset = 0,
                            owner_pid = (if pid \<noteq> 0 then Some pid else None)\<rparr>]\<rparr>))"

definition vfs_close :: "u32 \<Rightarrow> vfs \<Rightarrow> bool \<times> vfs" where
  "vfs_close fd v =
     (case fd_to_slot fd of
        None \<Rightarrow> (False, v)
      | Some slot \<Rightarrow>
          let e = FD_TABLE v ! slot
          in (file_index e \<noteq> None, v\<lparr>FD_TABLE := (FD_TABLE v)[slot := e\<lparr>file_index := None, owner_pid := None\<rparr>]\<rparr>))"

definition close_fds_for_process :: "u32 \<Rightarrow> vfs \<Rightarrow> vfs" where
  "close_fds_for_process pid v =
     (if pid = 0 then v
      else v\<lparr>FD_TABLE := map (\<lambda>e. if owner_pid e = Some pid then e\<lparr>file_index := None, owner_pid := None\<rparr> else e) (FD_TABLE v)\<rparr>)"

definition read_file :: "u32 \<Rightarrow> nat \<Rightarrow> vfs \<Rightarrow> u8 list \<times> vfs" where
  "read_file fd buf_len v =
     (case fd_to_slot fd of
        None \<Rightarrow> ([], v)
      | Some slot \<Rightarrow>
          (let e = FD_TABLE v ! slot
           in case file_index e of
                None \<Rightarrow> ([], v)
              | Some i \<Rightarrow>
                  (let (bs, f1) = read_file_data i (fd_offset e) buf_len (vfs_fs v)
                   in (bs, v\<lparr>vfs_fs := f1, FD_TABLE := (FD_TABLE v)[slot := e\<lparr>fd_offset := fd_offset e + of_nat (length bs)\<rparr>]\<rparr>))))"

definition write_file :: "u32 \<Rightarrow> u8 list \<Rightarrow> vfs \<Rightarrow> nat \<times> vfs" where
  "write_file fd data v =
     (case fd_to_slot fd of
        None \<Rightarrow> (0, v)
      | Some slot \<Rightarrow>
          (let e = FD_TABLE v ! slot
           in case file_index e of
                None \<Rightarrow> (0, v)
              | Some i \<Rightarrow>
                  (let (n, f1) = write_file_data i (fd_offset e) data (vfs_fs v)
                   in (n, v\<lparr>vfs_fs := f1, FD_TABLE := (FD_TABLE v)[slot := e\<lparr>fd_offset := fd_offset e + of_nat n\<rparr>]\<rparr>))))"

text \<open>\<open>x.max(0) as u32\<close> for an \<open>i64\<close> value, kept as a 64-bit word.\<close>

definition clamp_u32 :: "u64 \<Rightarrow> u32" where
  "clamp_u32 x = (if sint x < 0 then 0 else ucast x)"

definition vfs_seek :: "u32 \<Rightarrow> u64 \<Rightarrow> u32 \<Rightarrow> vfs \<Rightarrow> u32 option \<times> vfs" where
  "vfs_seek fd off whence v =
     (case fd_to_slot fd of
        None \<Rightarrow> (None, v)
      | Some slot \<Rightarrow>
          (let e = FD_TABLE v ! slot
           in case file_index e of
                None \<Rightarrow> (None, v)
              | Some i \<Rightarrow>
                  (case get_file_record_info i (vfs_fs v) of
                     (None, f1) \<Rightarrow> (None, v\<lparr>vfs_fs := f1\<rparr>)
                   | (Some (sz, _), f1) \<Rightarrow>
                       if whence > 2 then (None, v\<lparr>vfs_fs := f1\<rparr>)
                       else let new_off = (if whence = 0 then clamp_u32 off
                                           else if whence = 1 then clamp_u32 (ucast (fd_offset e) + off)
                                           else clamp_u32 (ucast sz + off))
                            in (Some new_off, v\<lparr>vfs_fs := f1, FD_TABLE := (FD_TABLE v)[slot := e\<lparr>fd_offset := new_off\<rparr>]\<rparr>))))"

definition vfs_fsync :: "u32 \<Rightarrow> vfs \<Rightarrow> bool \<times> vfs" where
  "vfs_fsync fd v =
     (if fd_to_slot fd = None then (False, v)
      else let (ok, f1) = flush_volume_header (vfs_fs v) in (ok, v\<lparr>vfs_fs := f1\<rparr>))"

definition vfs_unlink :: "u8 list \<Rightarrow> vfs \<Rightarrow> bool \<times> vfs" where
  "vfs_unlink path v =
     (if \<not> ROOT_MOUNTED (vfs_fs v) then (False, v)
      else case find_file_by_name path (vfs_fs v) of
        (None, f1) \<Rightarrow> (False, v\<lparr>vfs_fs := f1\<rparr>)
      | (Some i, f1) \<Rightarrow> let (ok, f2) = free_file_record i f1 in (ok, v\<lparr>vfs_fs := f2\<rparr>))"

section \<open>Slots\<close>

lemma fd_to_slot_of: "k < MAX_OPEN \<Longrightarrow> fd_to_slot (FIRST_FD + of_nat k) = Some k"
proof -
  assume "k < MAX_OPEN"
  then have "unat (FIRST_FD + of_nat k) = 3 + k" "k < 8"
    by (simp_all add: FIRST_FD_def MAX_OPEN_def unat_word_ariths unat_of_nat)
  then show ?thesis
    by (simp add: fd_to_slot_def FIRST_FD_def MAX_OPEN_def word_less_nat_alt word_le_nat_alt unat_of_nat)
qed

lemma fd_to_slot_bound: "fd_to_slot fd = Some k \<Longrightarrow> k < MAX_OPEN \<and> fd = FIRST_FD + of_nat k"
proof -
  assume h: "fd_to_slot fd = Some k"
  then have b: "3 \<le> unat fd" "unat fd < 11" "k = unat (fd - 3)"
    by (auto simp: fd_to_slot_def FIRST_FD_def MAX_OPEN_def word_less_nat_alt word_le_nat_alt split: if_splits)
  then have "unat (fd - 3) = unat fd - 3" by (simp add: unat_sub word_le_nat_alt)
  with b show ?thesis by (simp add: MAX_OPEN_def FIRST_FD_def)
qed

definition vfs_ok :: "vfs \<Rightarrow> bool" where
  "vfs_ok v \<longleftrightarrow> length (FD_TABLE v) = MAX_OPEN \<and> calm (vfs_fs v) \<and> ROOT_MOUNTED (vfs_fs v) \<and>
     (\<forall>e \<in> set (FD_TABLE v). \<forall>i. file_index e = Some i \<longrightarrow> i < MAX_FILE_RECORDS)"

text \<open>The open file behind a descriptor.\<close>

definition fd_entry_of :: "u32 \<Rightarrow> vfs \<Rightarrow> fd_entry option" where
  "fd_entry_of fd v = (case fd_to_slot fd of None \<Rightarrow> None | Some k \<Rightarrow>
     if file_index (FD_TABLE v ! k) = None then None else Some (FD_TABLE v ! k))"

lemma find_calm:
  "calm s \<Longrightarrow> snd (find_file_by_name name s) = s"
  "calm s \<Longrightarrow> find_file_by_name name s = (Some i, s') \<Longrightarrow> i < MAX_FILE_RECORDS \<and> rec_start (table s) i \<noteq> 0"
  by (auto simp: find_file_by_name_def read_block_calm find_Some_iff split: if_splits)

lemma vfs_open_Some:
  assumes "vfs_ok v" "vfs_open path flags pid v = (Some fd, v1)"
  shows "\<exists>k i. k < MAX_OPEN \<and> fd = FIRST_FD + of_nat k \<and> file_index (FD_TABLE v ! k) = None \<and> i < MAX_FILE_RECORDS \<and>
    FD_TABLE v1 = (FD_TABLE v)[k := \<lparr>file_index = Some i, fd_offset = 0, owner_pid = (if pid \<noteq> 0 then Some pid else None)\<rparr>] \<and>
    vfs_ok v1 \<and> (find_file_by_name path (vfs_fs v) = (Some i, vfs_fs v) \<and> vfs_fs v1 = vfs_fs v \<or>
      fst (find_file_by_name path (vfs_fs v)) = None \<and> alloc_file_record path (vfs_fs v) = (Some i, vfs_fs v1))"
proof -
  have ok: "length (FD_TABLE v) = MAX_OPEN" "calm (vfs_fs v)" using assms(1) by (auto simp: vfs_ok_def)
  obtain r where fr: "find_file_by_name path (vfs_fs v) = (r, vfs_fs v)" using find_calm(1) [OF ok(2), of path] by (metis prod.collapse)
  obtain k where k: "first_index (\<lambda>e. file_index e = None) (FD_TABLE v) = Some k"
    using assms(2) by (auto simp: vfs_open_def split: if_splits option.splits)
  note kb = first_index_SomeD [OF k]
  let ?e = "\<lambda>i. \<lparr>file_index = Some i, fd_offset = 0, owner_pid = (if pid \<noteq> 0 then Some pid else None)\<rparr>"
  have fd: "fd = FIRST_FD + of_nat k" and i: "\<exists>i. FD_TABLE v1 = (FD_TABLE v)[k := ?e i] \<and>
      (r = Some i \<and> vfs_fs v1 = vfs_fs v \<or> r = None \<and> alloc_file_record path (vfs_fs v) = (Some i, vfs_fs v1))"
    using assms(2) fr k by (auto simp: vfs_open_def Let_def split: if_splits option.splits prod.splits)
  then obtain i where i: "FD_TABLE v1 = (FD_TABLE v)[k := ?e i]"
    "r = Some i \<and> vfs_fs v1 = vfs_fs v \<or> r = None \<and> alloc_file_record path (vfs_fs v) = (Some i, vfs_fs v1)" by blast
  have im: "i < MAX_FILE_RECORDS \<and> calm (vfs_fs v1) \<and> ROOT_MOUNTED (vfs_fs v1)"
    using i(2) fr find_calm(2) [OF ok(2)] alloc_file_record_calm [OF ok(2)] assms(1) by (auto simp: vfs_ok_def)
  then have "vfs_ok v1" using assms(1) i(1) by (auto simp: vfs_ok_def dest!: set_update_subset_insert [THEN subsetD])
  then show ?thesis using kb ok(1) fd i fr im by (intro exI [of _ k] exI [of _ i]) auto
qed

lemma fd_entry_of_upd:
  assumes "length (FD_TABLE v) = MAX_OPEN" "k < MAX_OPEN" "FD_TABLE v' = (FD_TABLE v)[k := e]"
  shows "fd_entry_of fd v' = (if fd = FIRST_FD + of_nat k then (if file_index e = None then None else Some e) else fd_entry_of fd v)"
proof (cases "fd_to_slot fd")
  case None
  then have "fd \<noteq> FIRST_FD + of_nat k" using fd_to_slot_of [OF assms(2)] by auto
  with None show ?thesis by (simp add: fd_entry_of_def)
next
  case (Some j)
  then have j: "fd = FIRST_FD + of_nat j" "j < MAX_OPEN" using fd_to_slot_bound by auto
  have jk: "fd = FIRST_FD + of_nat k \<longleftrightarrow> j = k" using Some j(1) fd_to_slot_of [OF assms(2)] by (metis option.inject)
  have "(FD_TABLE v)[k := e] ! j = (if j = k then e else FD_TABLE v ! j)" using assms(1,2) by simp
  then show ?thesis unfolding fd_entry_of_def Some option.case jk assms(3) by presburger
qed

lemma fd_entry_of_slot:
  assumes "k < MAX_OPEN"
  shows "fd_entry_of (FIRST_FD + of_nat k) v =
    (if file_index (FD_TABLE v ! k) = None then None else Some (FD_TABLE v ! k))"
  using assms by (simp add: fd_entry_of_def fd_to_slot_of)

lemma alloc_lowest:
  assumes "calm s" "alloc_file_record name s = (Some i', s1)" "i < MAX_FILE_RECORDS" "rec_start (table s) i = 0"
    "\<And>j. j < i \<Longrightarrow> rec_start (table s) j \<noteq> 0"
  shows "i' = i"
proof -
  have "List.find (\<lambda>i. rec_start (table s) i = 0) [0..<MAX_FILE_RECORDS] = Some i'"
    using assms(1,2) by (auto simp: alloc_file_record_def read_block_calm write_block_calm Let_def split: if_splits option.splits)
  moreover have "List.find (\<lambda>i. rec_start (table s) i = 0) [0..<MAX_FILE_RECORDS] = Some i"
    unfolding find_Some_iff using assms(3-5) by (intro exI [of _ i]) auto
  ultimately show ?thesis by simp
qed

section \<open>Properties\<close>

text \<open>a write through a descriptor is read back through it. After opening (or creating) a file whose
  data blocks do not wrap, writing data, seeking to the start and reading as many bytes returns the
  data, and no other descriptor is touched by the whole session.\<close>

theorem vfs_session:
  assumes "vfs_ok v" "vfs_open path flags pid v = (Some fd, v1)" "fd_entry_of fd v1 = Some e"
    "get_file_record_info (the (file_index e)) (vfs_fs v1) = (Some (sz, st), vfs_fs v1)"
    "data \<noteq> []" "length data < 2 ^ 32" "data_blocks_ok st (length data)"
  shows "\<exists>v2 v3 v4. write_file fd data v1 = (length data, v2) \<and> vfs_seek fd 0 0 v2 = (Some 0, v3) \<and>
    read_file fd (length data) v3 = (data, v4) \<and>
    (\<forall>fd'. fd' \<noteq> fd \<longrightarrow> fd_entry_of fd' v4 = fd_entry_of fd' v)"
proof -
  from vfs_open_Some [OF assms(1,2)] obtain k i where k: "k < MAX_OPEN" "fd = FIRST_FD + of_nat k" "i < MAX_FILE_RECORDS"
    "FD_TABLE v1 = (FD_TABLE v)[k := \<lparr>file_index = Some i, fd_offset = 0, owner_pid = (if pid \<noteq> 0 then Some pid else None)\<rparr>]"
    "vfs_ok v1" by blast
  have len: "length (FD_TABLE v) = MAX_OPEN" and c: "calm (vfs_fs v1)" "ROOT_MOUNTED (vfs_fs v1)"
    using assms(1) k(5) by (auto simp: vfs_ok_def)
  have e: "FD_TABLE v1 ! k = e" "file_index e = Some i" "fd_offset e = 0"
    using assms(3) fd_entry_of_upd [OF len k(1,4), of fd] k len by auto
  have slot: "fd_to_slot fd = Some k" using k(1,2) fd_to_slot_of by simp
  have lt: "unat (0 :: u32) + length data < 2 ^ 32" using assms(6) by simp
  have info: "get_file_record_info i (vfs_fs v1) = (Some (sz, st), vfs_fs v1)" using assms(4) e(2) by simp
  from write_file_roundtrip [OF c k(3) info assms(5) lt] assms(7)
  obtain f sz' where f: "write_file_data i 0 data (vfs_fs v1) = (length data, f)"
    "read_file_data i 0 (length data) f = (data, f)" "get_file_record_info i f = (Some (sz', st), f)" by auto
  let ?n = "of_nat (length data) :: u32"
  have e0: "e\<lparr>fd_offset := 0\<rparr> = e" using e(3) by (cases e) simp
  define v2 where "v2 = v1\<lparr>vfs_fs := f, FD_TABLE := (FD_TABLE v1)[k := e\<lparr>fd_offset := ?n\<rparr>]\<rparr>"
  define v3 where "v3 = v2\<lparr>FD_TABLE := (FD_TABLE v2)[k := e]\<rparr>"
  define v4 where "v4 = v3\<lparr>FD_TABLE := (FD_TABLE v3)[k := e\<lparr>fd_offset := ?n\<rparr>]\<rparr>"
  have tk: "FD_TABLE v2 ! k = e\<lparr>fd_offset := ?n\<rparr>" "FD_TABLE v3 ! k = e" "vfs_fs v2 = f" "vfs_fs v3 = f"
    using k len by (simp_all add: v2_def v3_def)
  have "write_file fd data v1 = (length data, v2)" using slot e f by (simp add: write_file_def v2_def)
  moreover have "vfs_seek fd 0 0 v2 = (Some 0, v3)" using slot e f tk by (simp add: vfs_seek_def clamp_u32_def v3_def v2_def e0)
  moreover have "read_file fd (length data) v3 = (data, v4)" using slot e f tk by (simp add: read_file_def v4_def v3_def v2_def)
  moreover have "fd_entry_of fd' v4 = fd_entry_of fd' v" if "fd' \<noteq> fd" for fd'
  proof -
    have "FD_TABLE v4 = (FD_TABLE v)[k := e\<lparr>fd_offset := ?n\<rparr>]" by (simp add: v4_def v3_def v2_def k(4))
    from fd_entry_of_upd [OF len k(1) this, of fd'] that k(2) show ?thesis by simp
  qed
  ultimately show ?thesis by blast
qed

text \<open>descriptors belong to the process that opened them. Opening returns a descriptor that was not
  in use, bound to the process with offset 0, and leaves all others alone; when a process exits,
  exactly its descriptors are closed.\<close>

theorem descriptors_follow_their_process:
  assumes "vfs_ok v" "vfs_open path flags pid v = (Some fd, v1)" "pid \<noteq> 0"
  shows "fd_entry_of fd v = None \<and> (\<exists>e. fd_entry_of fd v1 = Some e \<and> owner_pid e = Some pid \<and> fd_offset e = 0) \<and>
    (\<forall>fd'. fd' \<noteq> fd \<longrightarrow> fd_entry_of fd' v1 = fd_entry_of fd' v) \<and>
    (\<forall>q fd'. q \<noteq> 0 \<longrightarrow> fd_entry_of fd' (close_fds_for_process q v1) =
      (case fd_entry_of fd' v1 of Some e \<Rightarrow> if owner_pid e = Some q then None else Some e | None \<Rightarrow> None))"
proof -
  from vfs_open_Some [OF assms(1,2)] obtain k i where k: "k < MAX_OPEN" "fd = FIRST_FD + of_nat k" "file_index (FD_TABLE v ! k) = None"
    "FD_TABLE v1 = (FD_TABLE v)[k := \<lparr>file_index = Some i, fd_offset = 0, owner_pid = (if pid \<noteq> 0 then Some pid else None)\<rparr>]"
    "vfs_ok v1" by blast
  have len: "length (FD_TABLE v) = MAX_OPEN" "length (FD_TABLE v1) = MAX_OPEN" using assms(1) k(5) by (auto simp: vfs_ok_def)
  note up = fd_entry_of_upd [OF len(1) k(1,4)]
  have "fd_entry_of fd' (close_fds_for_process q v1) =
      (case fd_entry_of fd' v1 of Some e \<Rightarrow> if owner_pid e = Some q then None else Some e | None \<Rightarrow> None)" if "q \<noteq> 0" for q fd'
    using that len(2) fd_to_slot_bound [of fd'] by (auto simp: fd_entry_of_def close_fds_for_process_def split: option.splits)
  then show ?thesis using up k assms(3) fd_entry_of_slot [OF k(1), of v] by simp
qed

text \<open>an open descriptor survives the deletion of its file and is handed the next one. If a file is
  opened, deleted while open, and the next file is created while all records below are in use, the
  old descriptor refers to the new file.\<close>

theorem stale_descriptor:
  assumes "vfs_ok v" "vfs_open a flags pid v = (Some fd, v1)" "fd_entry_of fd v1 = Some e"
    "find_file_by_name a (vfs_fs v1) = (file_index e, vfs_fs v1)"
    "\<forall>j < the (file_index e). rec_start (table (vfs_fs v1)) j \<noteq> 0"
    "vfs_unlink a v1 = (True, v2)" "vfs_open b O_CREAT q v2 = (Some fd', v3)" "fst (find_file_by_name b (vfs_fs v2)) = None"
  shows "fd' \<noteq> fd \<and> fd_entry_of fd v3 = Some e \<and> (\<exists>e'. fd_entry_of fd' v3 = Some e' \<and> file_index e' = file_index e)"
proof -
  from vfs_open_Some [OF assms(1,2)] obtain k i where k: "k < MAX_OPEN" "fd = FIRST_FD + of_nat k" "i < MAX_FILE_RECORDS"
    "FD_TABLE v1 = (FD_TABLE v)[k := \<lparr>file_index = Some i, fd_offset = 0, owner_pid = (if pid \<noteq> 0 then Some pid else None)\<rparr>]"
    "vfs_ok v1" by blast
  have len: "length (FD_TABLE v) = MAX_OPEN" "length (FD_TABLE v1) = MAX_OPEN" and c: "calm (vfs_fs v1)" "ROOT_MOUNTED (vfs_fs v1)"
    using assms(1) k(5) by (auto simp: vfs_ok_def)
  have e: "file_index e = Some i" using assms(3) fd_entry_of_upd [OF len(1) k(1,4), of fd] k by auto
  let ?t = "set_size i 0 (set_start i 0 (table (vfs_fs v1)))"
  have v2: "v2 = v1\<lparr>vfs_fs := (vfs_fs v1)\<lparr>fs_disk := (fs_disk (vfs_fs v1))(FILE_TABLE_BLOCK := ?t)\<rparr>\<rparr>"
    using assms(4,6) e c k(3) by (simp add: vfs_unlink_def free_file_record_def read_block_calm write_block_calm)
  have tl: "length (table (vfs_fs v1)) = BLOCK_SIZE" by (rule calm_length [OF c(1)])
  have c2: "calm (vfs_fs v2)" using c(1) tl by (simp add: v2)
  have ok2: "vfs_ok v2" using k(5) c2 by (simp add: vfs_ok_def v2)
  have tab2: "FD_TABLE v2 = FD_TABLE v1" by (simp add: v2)
  have st2: "rec_start (table (vfs_fs v2)) j = (if j = i then 0 else rec_start (table (vfs_fs v1)) j)" if "j < MAX_FILE_RECORDS" for j
    using that k(3) tl by (simp add: v2 set_fields)
  from vfs_open_Some [OF ok2 assms(7)] assms(8) obtain k' i' where k': "k' < MAX_OPEN" "fd' = FIRST_FD + of_nat k'"
    "file_index (FD_TABLE v2 ! k') = None" "i' < MAX_FILE_RECORDS"
    "FD_TABLE v3 = (FD_TABLE v2)[k' := \<lparr>file_index = Some i', fd_offset = 0, owner_pid = (if q \<noteq> 0 then Some q else None)\<rparr>]"
    "alloc_file_record b (vfs_fs v2) = (Some i', vfs_fs v3)" by auto
  have "i' = i"
  proof (rule alloc_lowest [OF c2 k'(6) k(3)])
    show "rec_start (table (vfs_fs v2)) i = 0" using st2 [OF k(3)] by simp
    fix j assume "j < i"
    then show "rec_start (table (vfs_fs v2)) j \<noteq> 0" using st2 [of j] assms(5) e k(3) by simp
  qed
  have ne: "fd' \<noteq> fd"
    using k' assms(3) tab2 fd_entry_of_slot [OF k'(1), of v1] by auto
  have l2: "length (FD_TABLE v2) = MAX_OPEN" using len(2) tab2 by simp
  note up = fd_entry_of_upd [OF l2 k'(1,5)]
  have "fd_entry_of fd v2 = Some e" using assms(3) unfolding fd_entry_of_def tab2 .
  then show ?thesis using up [of fd] up [of fd'] ne k'(2) \<open>i' = i\<close> e by simp
qed

text \<open>A session on the blank disk of \<open>Simple_FS\<close>.\<close>

definition blank_vfs :: vfs where "blank_vfs = vfs_boot blank"

lemma blank_vfs_ok: "vfs_ok blank_vfs" "vfs_fs blank_vfs = blank" "FD_TABLE blank_vfs = replicate MAX_OPEN fd_closed"
  using blank_state by (auto simp: blank_vfs_def vfs_boot_def vfs_ok_def fd_closed_def)

lemma blank_find: "find_file_by_name n blank = (None, blank)"
  using blank_free by (auto simp: find_file_by_name_def blank_state read_block_calm find_None_iff)

lemma blank_open:
  "\<exists>s1. alloc_file_record [97] blank = (Some 0, s1) \<and>
     vfs_open [97] O_CREAT 5 blank_vfs = (Some 3, \<lparr>vfs_fs = s1,
       FD_TABLE = (replicate MAX_OPEN fd_closed)[0 := \<lparr>file_index = Some 0, fd_offset = 0, owner_pid = Some 5\<rparr>]\<rparr>)"
proof -
  obtain i s1 where a: "alloc_file_record [97] blank = (Some i, s1)" using blank_two_files by blast
  have z: "0 < MAX_FILE_RECORDS" by (simp add: MAX_FILE_RECORDS_def)
  have "i = 0" by (rule alloc_lowest [OF blank_state(1) a z blank_free [OF z]]) simp
  moreover have "first_index (\<lambda>e. file_index e = None) (replicate MAX_OPEN fd_closed) = Some 0"
    by (simp add: MAX_OPEN_def fd_closed_def numeral_eq_Suc)
  ultimately show ?thesis
    using a blank_state(2) by (simp add: vfs_open_def blank_vfs_def vfs_boot_def blank_find O_CREAT_def FIRST_FD_def)
qed

theorem descriptors_follow_their_process_witness:
  "\<exists>v1. vfs_open [97] O_CREAT 5 blank_vfs = (Some 3, v1) \<and> fd_entry_of 3 blank_vfs = None \<and>
     fd_entry_of 3 v1 \<noteq> None \<and> fd_entry_of 3 (close_fds_for_process 5 v1) = None"
proof -
  obtain v1 where v1: "vfs_open [97] O_CREAT 5 blank_vfs = (Some 3, v1)" using blank_open by blast
  from descriptors_follow_their_process [OF blank_vfs_ok(1) v1] v1 show ?thesis by auto
qed

theorem vfs_session_witness:
  "\<exists>v1 v2 v3 v4. vfs_open [97] O_CREAT 5 blank_vfs = (Some 3, v1) \<and> write_file 3 (replicate 5000 7) v1 = (5000, v2) \<and>
     vfs_seek 3 0 0 v2 = (Some 0, v3) \<and> read_file 3 5000 v3 = (replicate 5000 7, v4)"
proof -
  obtain s1 where a: "alloc_file_record [97] blank = (Some 0, s1)"
    and v1: "vfs_open [97] O_CREAT 5 blank_vfs = (Some 3, \<lparr>vfs_fs = s1,
       FD_TABLE = (replicate MAX_OPEN fd_closed)[0 := \<lparr>file_index = Some 0, fd_offset = 0, owner_pid = Some 5\<rparr>]\<rparr>)"
    (is "_ = (_, ?v1)") using blank_open by blast
  note s1 = alloc_file_record_calm [OF blank_state(1) a]
  have e: "fd_entry_of 3 ?v1 = Some \<lparr>file_index = Some 0, fd_offset = 0, owner_pid = Some 5\<rparr>"
    using fd_entry_of_slot [of 0 ?v1] by (simp add: MAX_OPEN_def FIRST_FD_def)
  have "get_file_record_info 0 s1 = (Some (0, 2), s1)" using s1 by (simp add: get_info_calm blank_state)
  with vfs_session [OF blank_vfs_ok(1) v1 e, of 0 2 "replicate 5000 7"] v1 show ?thesis
    by (auto simp: data_blocks_ok_def BLOCK_SIZE_def)
qed

text \<open>For the stale descriptor: delete the file just opened and create another one.\<close>

theorem stale_descriptor_witness:
  "\<exists>v1 v2 v3 e. vfs_open [97] O_CREAT 5 blank_vfs = (Some 3, v1) \<and> vfs_unlink [97] v1 = (True, v2) \<and>
     vfs_open [98] O_CREAT 6 v2 = (Some 4, v3) \<and> fd_entry_of 3 v3 = Some e \<and> file_index e = Some 0"
proof -
  let ?e = "\<lparr>file_index = Some 0, fd_offset = 0, owner_pid = Some 5\<rparr>"
  obtain s1 where a: "alloc_file_record [97] blank = (Some 0, s1)"
    and v1: "vfs_open [97] O_CREAT 5 blank_vfs = (Some 3, \<lparr>vfs_fs = s1, FD_TABLE = (replicate MAX_OPEN fd_closed)[0 := ?e]\<rparr>)"
    (is "_ = (_, ?v1)") using blank_open by blast
  note s1 = alloc_file_record_calm [OF blank_state(1) a]
  have e: "fd_entry_of 3 ?v1 = Some ?e"
    using fd_entry_of_slot [of 0 ?v1] by (simp add: MAX_OPEN_def FIRST_FD_def)
  have st: "rec_start (table s1) j = (if j = 0 then 2 else 0)" if "j < MAX_FILE_RECORDS" for j
    using that s1(10,11) blank_free blank_state(3) by (cases "j = 0") auto
  have "name_matches (rec_name (table s1) 0) [97]"
    using name_matches_padded [of "[97]" "[97]"] s1(8) by (simp add: NAME_MAX_def)
  then have f: "find_file_by_name [97] s1 = (Some 0, s1)"
    using s1(1,2) st by (auto simp: find_file_by_name_def read_block_calm find_Some_iff MAX_FILE_RECORDS_def intro!: exI [of _ 0])
  let ?t = "set_size 0 0 (set_start 0 0 (table s1))"
  let ?s2 = "s1\<lparr>fs_disk := (fs_disk s1)(FILE_TABLE_BLOCK := ?t)\<rparr>"
  have u: "vfs_unlink [97] ?v1 = (True, ?v1\<lparr>vfs_fs := ?s2\<rparr>)" (is "_ = (_, ?v2)")
    using f s1(1-3) by (simp add: vfs_unlink_def free_file_record_def read_block_calm write_block_calm)
  have tl: "length (table s1) = BLOCK_SIZE" by (rule calm_length [OF s1(1)])
  have c2: "calm ?s2" "ROOT_MOUNTED ?s2" using s1(1,2) tl by simp_all
  have st2: "rec_start (table ?s2) j = 0" if "j < MAX_FILE_RECORDS" for j using that s1(3) tl st by (simp add: set_fields)
  then have f2: "find_file_by_name [98] ?s2 = (None, ?s2)" using c2 by (auto simp: find_file_by_name_def read_block_calm find_None_iff)
  obtain i s3 where al: "alloc_file_record [98] ?s2 = (Some i, s3)"
    using alloc_finds_free [OF c2, of "[98]" 0] st2 s1(3) by (auto simp: NAME_MAX_def)
  have "first_index (\<lambda>e. file_index e = None) ((replicate MAX_OPEN fd_closed)[0 := ?e]) = Some 1"
    by (simp add: MAX_OPEN_def fd_closed_def numeral_eq_Suc)
  then obtain v3 where o: "vfs_open [98] O_CREAT 6 ?v2 = (Some 4, v3)"
    using f2 al c2(2) by (simp add: vfs_open_def O_CREAT_def FIRST_FD_def)
  from stale_descriptor [OF blank_vfs_ok(1) v1 e _ _ u o] f f2 v1 u o show ?thesis by auto
qed

end
