(* ===== verification/Heap.thy ===== *)
theory Heap
  imports Prelude
begin

text \<open>
  The kernel heap (\<open>kernel/memory/heap\<close>: \<open>allocator.rs\<close>, \<open>cache.rs\<close>, \<open>slab.rs\<close>, \<open>kmalloc.rs\<close>) and the object
  caches with canaries above it (\<open>kernel/memory/slab/mod.rs\<close>). The heap owns a static pool of 256
  pages. Free pages and the free objects of eight size classes are lists threaded through the free
  memory; every allocation carries a 16-byte header with its base and total size.

  \<open>hmem\<close> is the memory of the pool in words of eight bytes, by address; all accesses of the allocator
  are to addresses that are multiples of eight. A null pointer is the address 0.
\<close>

section \<open>State\<close>

definition HEAP_PAGE_SIZE :: nat where "HEAP_PAGE_SIZE = 4096"
definition NUM_PAGES :: nat where "NUM_PAGES = 256"
definition POOL_SIZE :: nat where "POOL_SIZE = NUM_PAGES * HEAP_PAGE_SIZE"

record heap =
  hmem :: "nat \<Rightarrow> nat"
  POOL :: nat
  PAGE_FREE_HEAD :: nat
  INITED :: bool
  free_head :: "nat \<Rightarrow> nat"

definition heap_boot :: "nat \<Rightarrow> heap" where
  "heap_boot pool = \<lparr>hmem = (\<lambda>_. 0), POOL = pool, PAGE_FREE_HEAD = 0, INITED = False, free_head = (\<lambda>_. 0)\<rparr>"

section \<open>Pages\<close>

definition link_page :: "nat \<Rightarrow> heap \<Rightarrow> heap" where
  "link_page i h =
     (let page = POOL h + i * HEAP_PAGE_SIZE
      in h\<lparr>hmem := (hmem h)(page := PAGE_FREE_HEAD h), PAGE_FREE_HEAD := page\<rparr>)"

definition heap_init :: "heap \<Rightarrow> heap" where
  "heap_init h = (if INITED h then h else (fold link_page (rev [0..<NUM_PAGES]) h)\<lparr>INITED := True\<rparr>)"

definition ensure_inited :: "heap \<Rightarrow> heap" where
  "ensure_inited h = (if \<not> INITED h then heap_init h else h)"

definition alloc_page :: "heap \<Rightarrow> nat \<times> heap" where
  "alloc_page h =
     (let h1 = ensure_inited h; head = PAGE_FREE_HEAD h1
      in if head = 0 then (0, h1) else (head, h1\<lparr>PAGE_FREE_HEAD := hmem h1 head\<rparr>))"

definition free_page :: "nat \<Rightarrow> heap \<Rightarrow> heap" where
  "free_page p h = (if p = 0 then h else h\<lparr>hmem := (hmem h)(p := PAGE_FREE_HEAD h), PAGE_FREE_HEAD := p\<rparr>)"

section \<open>Slabs and caches\<close>

text \<open>\<open>(a + align - 1) & !(align - 1)\<close>; addresses stay far below \<open>2 ^ 64\<close>.\<close>

definition align_up :: "nat \<Rightarrow> nat \<Rightarrow> nat" where
  "align_up a align = nat (int (a + align - 1) AND NOT (int (align - 1)))"

lemma align_up_split:
  "align_up a align + nat (int (a + align - 1) AND int (align - 1)) = a + align - 1"
proof -
  let ?x = "int (a + align - 1)" and ?m = "int (align - 1)"
  have "(?x AND NOT ?m) + (?x AND ?m) = (?x AND NOT ?m) OR (?x AND ?m)"
    by (rule disjunctive_add) (auto simp: bit_and_iff bit_not_iff)
  also have "\<dots> = ?x" by (rule bit_eqI) (auto simp: bit_or_iff bit_and_iff bit_not_iff)
  finally have "(?x AND NOT ?m) + (?x AND ?m) = ?x" .
  moreover have "0 \<le> (?x AND NOT ?m)" "0 \<le> (?x AND ?m)" by simp_all
  ultimately show ?thesis unfolding align_up_def by linarith
qed

lemma align_up_ge: "a \<le> align_up a align + 1"
proof -
  have "nat (int (a + align - 1) AND int (align - 1)) \<le> align - 1"
    using AND_upper2 [of "int (align - 1)" "int (a + align - 1)"] by linarith
  then show ?thesis using align_up_split [of a align] by linarith
qed

function partition_loop :: "nat \<Rightarrow> nat \<Rightarrow> nat \<Rightarrow> nat \<Rightarrow> nat \<Rightarrow> (nat \<Rightarrow> nat) \<Rightarrow> nat \<times> (nat \<Rightarrow> nat)" where
  "partition_loop object_size object_align end_addr addr head m =
     (let sz = max object_size 8
      in if addr + sz \<le> end_addr then
           (let aligned = align_up addr object_align
            in if aligned + sz > end_addr then (head, m)
               else partition_loop object_size object_align end_addr (aligned + sz) aligned (m(aligned := head)))
         else (head, m))"
  by pat_completeness auto
termination
proof (relation "measure (\<lambda>(_, _, e, a, _, _). e - a)", goal_cases)
  case (2 object_size object_align end_addr addr head m sz aligned)
  then show ?case using align_up_ge [of addr object_align] by (auto simp: max_def split: if_splits)
qed simp

declare partition_loop.simps [simp del]

definition partition_page_into_list :: "nat \<Rightarrow> nat \<Rightarrow> nat \<Rightarrow> (nat \<Rightarrow> nat) \<Rightarrow> nat \<times> (nat \<Rightarrow> nat)" where
  "partition_page_into_list page object_size object_align m =
     partition_loop object_size object_align (page + HEAP_PAGE_SIZE) page 0 m"

text \<open>The cache of class \<open>c\<close> is \<open>Cache::new(c, 8)\<close>; its free list starts at \<open>free_head h c\<close>.\<close>

definition cache_alloc :: "nat \<Rightarrow> heap \<Rightarrow> nat \<times> heap" where
  "cache_alloc c h =
     (let head = free_head h c
      in if head \<noteq> 0 then (head, h\<lparr>free_head := (free_head h)(c := hmem h head)\<rparr>)
         else let (page, h1) = alloc_page h
              in if page = 0 then (0, h1)
                 else let (lst, m) = partition_page_into_list page c 8 (hmem h1); h2 = h1\<lparr>hmem := m\<rparr>
                      in if lst = 0 then (0, free_page page h2)
                         else (lst, h2\<lparr>free_head := (free_head h2)(c := hmem h2 lst)\<rparr>))"

definition cache_free :: "nat \<Rightarrow> nat \<Rightarrow> heap \<Rightarrow> heap" where
  "cache_free c p h =
     (if p = 0 then h else h\<lparr>hmem := (hmem h)(p := free_head h c), free_head := (free_head h)(c := p)\<rparr>)"

definition SIZE_CLASSES :: "nat list" where
  "SIZE_CLASSES = [8, 16, 32, 64, 128, 256, 512, 1024]"

definition size_to_class :: "nat \<Rightarrow> nat" where
  "size_to_class n = (case List.find (\<lambda>c. n \<le> c) SIZE_CLASSES of None \<Rightarrow> 0 | Some c \<Rightarrow> c)"

definition HEADER_SIZE :: nat where "HEADER_SIZE = 16"

definition alloc_raw :: "nat \<Rightarrow> heap \<Rightarrow> nat \<times> heap" where
  "alloc_raw tot h = (let c = size_to_class tot in if c \<noteq> 0 then cache_alloc c h else alloc_page h)"

definition free_raw :: "nat \<Rightarrow> nat \<Rightarrow> heap \<Rightarrow> heap" where
  "free_raw base tot h = (let c = size_to_class tot in if c \<noteq> 0 then cache_free c base h else free_page base h)"

definition alloc_with_header :: "nat \<Rightarrow> nat \<Rightarrow> heap \<Rightarrow> nat \<times> heap" where
  "alloc_with_header n align0 h =
     (let align = max align0 8; tot = wadd (wadd n align) HEADER_SIZE; (base, h1) = alloc_raw tot h
      in if base = 0 then (0, h1)
         else let p = align_up (base + HEADER_SIZE) align
              in (p, h1\<lparr>hmem := (hmem h1)(p - 16 := base, p - 8 := tot)\<rparr>))"

definition free_with_header :: "nat \<Rightarrow> heap \<Rightarrow> heap" where
  "free_with_header p h = (if p = 0 then h else free_raw (hmem h (p - 16)) (hmem h (p - 8)) h)"

definition kmalloc :: "nat \<Rightarrow> heap \<Rightarrow> nat \<times> heap" where
  "kmalloc n = alloc_with_header n 8"

definition kfree :: "nat \<Rightarrow> heap \<Rightarrow> heap" where
  "kfree = free_with_header"

section \<open>Object caches with canaries\<close>

definition LIVE_CANARY :: nat where "LIVE_CANARY = 0xC0FFEE00CAFEBABE"
definition FREE_CANARY :: nat where "FREE_CANARY = 0xDEADDEADBADC0DE5"

record slab_cache =
  object_size :: nat
  object_align :: nat
  slab_head :: nat

definition slab_new :: "nat \<Rightarrow> nat \<Rightarrow> slab_cache" where
  "slab_new sz al = \<lparr>object_size = sz, object_align = al, slab_head = 0\<rparr>"

text \<open>\<open>Layout::from_size_align\<close> fails unless the alignment is a power of two and the rounded size fits.\<close>

definition layout_ok :: "nat \<Rightarrow> nat \<Rightarrow> bool" where
  "layout_ok sz al \<longleftrightarrow> (al \<noteq> 0 \<and> int al AND (int al - 1) = 0) \<and> sz + al \<le> 2 ^ 63"

definition slab_alloc :: "slab_cache \<times> heap \<Rightarrow> (nat \<times> slab_cache \<times> heap) halting" where
  "slab_alloc sh =
     (let (s, h) = sh; head = slab_head s
      in if head \<noteq> 0 then
           (if object_size s \<ge> 8 then
              (let cp = head + (object_size s - 8)
               in if hmem h cp \<noteq> FREE_CANARY then Halted ''slab_canary_corrupt_on_alloc''
                  else let h1 = h\<lparr>hmem := (hmem h)(cp := LIVE_CANARY)\<rparr>
                       in Done (head, s\<lparr>slab_head := hmem h1 head\<rparr>, h1))
            else Done (head, s\<lparr>slab_head := hmem h head\<rparr>, h))
         else if \<not> layout_ok (max (object_size s) 8) (object_align s) then Halted ''slab_layout_invalid''
         else let (p, h1) = alloc_with_header (max (object_size s) 8) (object_align s) h
              in if p = 0 then Done (0, s, h1)
                 else if object_size s \<ge> 8
                 then Done (p, s, h1\<lparr>hmem := (hmem h1)(p + (object_size s - 8) := LIVE_CANARY)\<rparr>)
                 else Done (p, s, h1))"

definition slab_free :: "nat \<Rightarrow> slab_cache \<times> heap \<Rightarrow> (slab_cache \<times> heap) halting" where
  "slab_free p sh =
     (let (s, h) = sh
      in if p = 0 then Done (s, h)
         else bind_halt
           (if object_size s \<ge> 8 then
              (let cp = p + (object_size s - 8)
               in if hmem h cp \<noteq> LIVE_CANARY then Halted ''slab_canary_corrupt_on_free''
                  else Done (h\<lparr>hmem := (hmem h)(cp := FREE_CANARY)\<rparr>))
            else Done h)
           (\<lambda>h1. Done (s\<lparr>slab_head := p\<rparr>, h1\<lparr>hmem := (hmem h1)(p := slab_head s)\<rparr>)))"

section \<open>Invariant\<close>

text \<open>The heap has nine free lists: one per size class, and the pages. They are indexed by the size of
  their members; \<open>fl k\<close> is the list of size \<open>k\<close> as a list of addresses.\<close>

definition SIZES :: "nat set" where
  "SIZES = insert HEAP_PAGE_SIZE (set SIZE_CLASSES)"

definition head_of :: "heap \<Rightarrow> nat \<Rightarrow> nat" where
  "head_of h k = (if k = HEAP_PAGE_SIZE then PAGE_FREE_HEAD h else free_head h k)"

definition set_head :: "nat \<Rightarrow> nat \<Rightarrow> heap \<Rightarrow> heap" where
  "set_head k v h = (if k = HEAP_PAGE_SIZE then h\<lparr>PAGE_FREE_HEAD := v\<rparr> else h\<lparr>free_head := (free_head h)(k := v)\<rparr>)"

definition pool_span :: "heap \<Rightarrow> nat set" where
  "pool_span h = {POOL h..<POOL h + POOL_SIZE}"

definition span :: "nat \<times> nat \<Rightarrow> nat set" where
  "span x = {fst x..<fst x + snd x}"

definition chunks :: "(nat \<Rightarrow> nat list) \<Rightarrow> (nat \<times> nat) set" where
  "chunks fl = {(a, k). k \<in> SIZES \<and> a \<in> set (fl k)}"

definition free_bytes :: "(nat \<Rightarrow> nat list) \<Rightarrow> nat set" where
  "free_bytes fl = (\<Union>x \<in> chunks fl. span x)"

definition fits :: "heap \<Rightarrow> nat \<times> nat \<Rightarrow> bool" where
  "fits h x \<longleftrightarrow> span x \<subseteq> pool_span h \<and> 8 dvd fst x"

definition pool_ok :: "heap \<Rightarrow> bool" where
  "pool_ok h \<longleftrightarrow> 0 < POOL h \<and> HEAP_PAGE_SIZE dvd POOL h"

definition heap_inv :: "heap \<Rightarrow> (nat \<Rightarrow> nat list) \<Rightarrow> bool" where
  "heap_inv h fl \<longleftrightarrow> pool_ok h \<and> (\<forall>k \<in> SIZES. chain (hmem h) (head_of h k) (fl k) \<and> distinct (fl k)) \<and>
     (\<forall>x \<in> chunks fl. fits h x) \<and> (\<forall>x \<in> chunks fl. \<forall>y \<in> chunks fl. x \<noteq> y \<longrightarrow> span x \<inter> span y = {})"

lemma sizes: "k \<in> SIZES \<Longrightarrow> 8 \<le> k \<and> k dvd HEAP_PAGE_SIZE"
  by (auto simp: SIZES_def SIZE_CLASSES_def HEAP_PAGE_SIZE_def)

lemma in_sizes [simp]: "HEAP_PAGE_SIZE \<in> SIZES" "c \<in> set SIZE_CLASSES \<Longrightarrow> c \<in> SIZES"
  "c \<in> set SIZE_CLASSES \<Longrightarrow> c \<noteq> HEAP_PAGE_SIZE"
  by (auto simp: SIZES_def SIZE_CLASSES_def HEAP_PAGE_SIZE_def)

lemma head_set_head [simp]:
  "head_of (set_head k v h) j = (if j = k then v else head_of h j)" "hmem (set_head k v h) = hmem h"
  "POOL (set_head k v h) = POOL h" "INITED (set_head k v h) = INITED h" "pool_span (set_head k v h) = pool_span h"
  "fits (set_head k v h) x = fits h x" "pool_ok (set_head k v h) = pool_ok h"
  by (auto simp: head_of_def set_head_def pool_span_def fits_def pool_ok_def)

lemma hmem_upd [simp]:
  "head_of (h\<lparr>hmem := m\<rparr>) j = head_of h j" "pool_span (h\<lparr>hmem := m\<rparr>) = pool_span h"
  "fits (h\<lparr>hmem := m\<rparr>) x = fits h x" "pool_ok (h\<lparr>hmem := m\<rparr>) = pool_ok h"
  by (auto simp: head_of_def pool_span_def fits_def pool_ok_def)

lemma span_start: "k \<in> SIZES \<Longrightarrow> a \<in> span (a, k)"
  using sizes [of k] by (simp add: span_def)

lemma chunks_push: "k \<in> SIZES \<Longrightarrow> chunks (fl(k := a # fl k)) = insert (a, k) (chunks fl)"
  by (auto simp: chunks_def split: if_splits)

lemma free_bytes_push: "k \<in> SIZES \<Longrightarrow> free_bytes (fl(k := a # fl k)) = span (a, k) \<union> free_bytes fl"
  by (simp add: free_bytes_def chunks_push)

lemma head_in_free: "k \<in> SIZES \<Longrightarrow> a \<in> set (fl k) \<Longrightarrow> a \<in> free_bytes fl"
  using span_start [of k a] by (fastforce simp: free_bytes_def chunks_def)

text \<open>Putting a chunk on a list and taking the first one off.\<close>

definition push :: "nat \<Rightarrow> nat \<Rightarrow> heap \<Rightarrow> heap" where
  "push k a h = set_head k a (h\<lparr>hmem := (hmem h)(a := head_of h k)\<rparr>)"

lemma push_inv:
  assumes "heap_inv h fl" "k \<in> SIZES" "fits h (a, k)" "span (a, k) \<inter> free_bytes fl = {}"
  shows "heap_inv (push k a h) (fl(k := a # fl k))" "free_bytes (fl(k := a # fl k)) = span (a, k) \<union> free_bytes fl"
proof -
  have nin: "a \<notin> set (fl j)" if "j \<in> SIZES" for j
    using head_in_free [OF that, of a fl] span_start [OF assms(2), of a] assms(4) by blast
  have "a \<in> pool_span h" using assms(3) span_start [OF assms(2), of a] by (auto simp: fits_def)
  then have nz: "a \<noteq> 0" using assms(1) by (auto simp: pool_span_def heap_inv_def pool_ok_def)
  have ch: "chain (hmem (push k a h)) (head_of (push k a h) j) ((fl(k := a # fl k)) j) \<and> distinct ((fl(k := a # fl k)) j)"
    if "j \<in> SIZES" for j
    using assms(1,2) that nz nin by (auto simp: heap_inv_def push_def chain_frame)
  have dis: "span x \<inter> span (a, k) = {}" if "x \<in> chunks fl" for x using assms(4) that by (auto simp: free_bytes_def)
  have sep: "\<forall>x \<in> insert (a, k) (chunks fl). \<forall>y \<in> insert (a, k) (chunks fl). x \<noteq> y \<longrightarrow> span x \<inter> span y = {}"
    using assms(1) dis unfolding heap_inv_def by (metis inf_commute insertE)
  have "\<forall>x \<in> insert (a, k) (chunks fl). fits (push k a h) x" using assms(1,3) by (auto simp: heap_inv_def push_def)
  then show "heap_inv (push k a h) (fl(k := a # fl k))"
    using ch sep assms(1) unfolding heap_inv_def chunks_push [OF assms(2)] by (simp add: push_def)
qed (simp add: free_bytes_push assms(2))

lemma pop_inv:
  assumes "heap_inv h fl" "k \<in> SIZES" "fl k = a # as"
  shows "heap_inv (set_head k (hmem h a) h) (fl(k := as))" "free_bytes (fl(k := as)) = free_bytes fl - span (a, k)"
    "span (a, k) \<subseteq> free_bytes fl" "fits h (a, k)" "head_of h k = a" "a \<noteq> 0"
proof -
  have fl: "fl = (fl(k := as))(k := a # (fl(k := as)) k)" using assms(3) by auto
  have cs: "chunks fl = insert (a, k) (chunks (fl(k := as)))" by (subst fl) (rule chunks_push [OF assms(2)])
  have c: "chain (hmem h) (head_of h k) (a # as)" "distinct (a # as)" using assms by (auto simp: heap_inv_def)
  then show "head_of h k = a" "a \<noteq> 0" by auto
  have "(a, k) \<notin> chunks (fl(k := as))" using c(2) by (simp add: chunks_def)
  then have dis: "span x \<inter> span (a, k) = {}" if "x \<in> chunks (fl(k := as))" for x
    using assms(1) that cs unfolding heap_inv_def by (metis insertCI)
  show "free_bytes (fl(k := as)) = free_bytes fl - span (a, k)" "span (a, k) \<subseteq> free_bytes fl"
    using dis unfolding free_bytes_def cs by auto
  show "fits h (a, k)" using assms(1) cs by (simp add: heap_inv_def)
  have "chain (hmem h) (head_of (set_head k (hmem h a) h) j) ((fl(k := as)) j) \<and> distinct ((fl(k := as)) j)" if "j \<in> SIZES" for j
    using that c assms(1) by (auto simp: heap_inv_def)
  moreover have "\<forall>x \<in> chunks (fl(k := as)). \<forall>y \<in> chunks (fl(k := as)). x \<noteq> y \<longrightarrow> span x \<inter> span y = {}"
    "\<forall>x \<in> chunks (fl(k := as)). fits h x" using assms(1) cs unfolding heap_inv_def by blast+
  ultimately show "heap_inv (set_head k (hmem h a) h) (fl(k := as))"
    using assms(1) unfolding heap_inv_def by simp
qed

section \<open>Initialisation\<close>

text \<open>\<open>heap_rep h S\<close>: the heap is well formed and \<open>S\<close> is its free memory. Before the first use this is
  the whole pool.\<close>

definition heap_rep :: "heap \<Rightarrow> nat set \<Rightarrow> bool" where
  "heap_rep h S \<longleftrightarrow> (if INITED h then \<exists>fl. heap_inv h fl \<and> S = free_bytes fl
     else pool_ok h \<and> PAGE_FREE_HEAD h = 0 \<and> (\<forall>c. free_head h c = 0) \<and> S = pool_span h)"

text \<open>What an operation leaves alone: the place of the pool, and memory outside \<open>S\<close>.\<close>

definition frame :: "nat set \<Rightarrow> heap \<Rightarrow> heap \<Rightarrow> bool" where
  "frame S h h' \<longleftrightarrow> POOL h' = POOL h \<and> (\<forall>a. a \<notin> S \<longrightarrow> hmem h' a = hmem h a)"

lemma frame_refl [simp]: "frame S h h" by (simp add: frame_def)

lemma frame_trans: "frame S h h1 \<Longrightarrow> frame S h1 h2 \<Longrightarrow> frame S h h2"
  by (simp add: frame_def)

lemma frame_mono: "frame S h h' \<Longrightarrow> S \<subseteq> T \<Longrightarrow> frame T h h'"
  by (auto simp: frame_def)

abbreviation page_span :: "heap \<Rightarrow> nat \<Rightarrow> nat set" where
  "page_span h i \<equiv> span (POOL h + i * HEAP_PAGE_SIZE, HEAP_PAGE_SIZE)"

lemma link_page_push: "link_page i h = push HEAP_PAGE_SIZE (POOL h + i * HEAP_PAGE_SIZE) h"
  by (simp add: link_page_def push_def set_head_def head_of_def Let_def)

lemma push_frame: "frame {a} h (push k a h)" "INITED (push k a h) = INITED h"
  by (simp_all add: push_def frame_def)

lemma page_fits: "pool_ok h \<Longrightarrow> i < NUM_PAGES \<Longrightarrow> fits h (POOL h + i * HEAP_PAGE_SIZE, HEAP_PAGE_SIZE)"
proof -
  assume h: "pool_ok h" "i < NUM_PAGES"
  then have "i * HEAP_PAGE_SIZE + HEAP_PAGE_SIZE \<le> POOL_SIZE" by (simp add: POOL_SIZE_def HEAP_PAGE_SIZE_def NUM_PAGES_def)
  moreover have "(8 :: nat) dvd HEAP_PAGE_SIZE" by (simp add: HEAP_PAGE_SIZE_def)
  then have "8 dvd POOL h + i * HEAP_PAGE_SIZE" using h(1) by (auto simp: pool_ok_def intro: dvd_trans)
  ultimately show ?thesis by (auto simp: fits_def span_def pool_span_def)
qed

lemma page_spans_disjoint: "i \<noteq> j \<Longrightarrow> page_span h i \<inter> page_span h j = {}"
  by (cases i j rule: linorder_cases) (auto simp: span_def HEAP_PAGE_SIZE_def)

lemma link_pages:
  assumes "heap_inv h fl" "distinct is" "\<forall>i \<in> set is. i < NUM_PAGES \<and> page_span h i \<inter> free_bytes fl = {}"
  shows "\<exists>fl'. heap_inv (fold link_page is h) fl' \<and> free_bytes fl' = free_bytes fl \<union> (\<Union>i \<in> set is. page_span h i) \<and>
    frame (\<Union>i \<in> set is. page_span h i) h (fold link_page is h) \<and> INITED (fold link_page is h) = INITED h"
  using assms
proof (induction "is" arbitrary: h fl)
  case (Cons i "is")
  let ?h = "link_page i h" and ?fl = "fl(HEAP_PAGE_SIZE := (POOL h + i * HEAP_PAGE_SIZE) # fl HEAP_PAGE_SIZE)"
  have ok: "pool_ok h" using Cons.prems(1) by (simp add: heap_inv_def)
  note p = push_inv [OF Cons.prems(1) in_sizes(1) page_fits [OF ok], of i, folded link_page_push]
  have h1: "heap_inv ?h ?fl" "free_bytes ?fl = page_span h i \<union> free_bytes fl" using p Cons.prems(3) by simp_all
  have po: "POOL ?h = POOL h" by (simp add: link_page_def Let_def)
  have "\<forall>j \<in> set is. j < NUM_PAGES \<and> page_span ?h j \<inter> free_bytes ?fl = {}"
  proof
    fix j assume j: "j \<in> set is"
    then have "i \<noteq> j" using Cons.prems(2) by auto
    from page_spans_disjoint [OF this, of h] j Cons.prems(3) show "j < NUM_PAGES \<and> page_span ?h j \<inter> free_bytes ?fl = {}"
      unfolding h1(2) po by auto
  qed
  have d: "distinct is" using Cons.prems(2) by simp
  from Cons.IH [OF h1(1) d \<open>\<forall>j \<in> set is. _\<close>, unfolded po] obtain fl' where fl': "heap_inv (fold link_page is ?h) fl'"
    "free_bytes fl' = free_bytes ?fl \<union> (\<Union>i \<in> set is. page_span h i)"
    "frame (\<Union>i \<in> set is. page_span h i) ?h (fold link_page is ?h)" "INITED (fold link_page is ?h) = INITED ?h"
    by blast
  have "frame (page_span h i) h ?h" unfolding link_page_push
    using push_frame(1) [of "POOL h + i * HEAP_PAGE_SIZE" h HEAP_PAGE_SIZE] by (auto simp: frame_def span_def HEAP_PAGE_SIZE_def)
  then have "frame (\<Union>i \<in> set (i # is). page_span h i) h (fold link_page is ?h)"
    using fl'(3) by (auto intro: frame_trans elim!: frame_mono)
  moreover have "INITED ?h = INITED h" by (simp add: link_page_def Let_def)
  ultimately show ?case using fl' h1(2) by (intro exI [of _ fl']) auto
qed (auto intro: frame_refl)

lemma pages_cover: "(\<Union>i \<in> {0..<NUM_PAGES}. page_span h i) = pool_span h"
proof (intro equalityI subsetI)
  fix a assume "a \<in> pool_span h"
  then have a: "POOL h \<le> a" "a - POOL h < NUM_PAGES * HEAP_PAGE_SIZE" by (auto simp: pool_span_def POOL_SIZE_def)
  define i where "i = (a - POOL h) div HEAP_PAGE_SIZE"
  have "i < NUM_PAGES" unfolding i_def using a(2) by (simp add: less_mult_imp_div_less)
  moreover have "i * HEAP_PAGE_SIZE \<le> a - POOL h" "a - POOL h < i * HEAP_PAGE_SIZE + HEAP_PAGE_SIZE"
    unfolding i_def using dividend_less_div_times [of HEAP_PAGE_SIZE "a - POOL h"]
    by (simp_all add: HEAP_PAGE_SIZE_def)
  then have "a \<in> page_span h i" using a(1) by (auto simp: span_def)
  ultimately show "a \<in> (\<Union>i \<in> {0..<NUM_PAGES}. page_span h i)" by auto
next
  fix a assume "a \<in> (\<Union>i \<in> {0..<NUM_PAGES}. page_span h i)"
  then obtain i where "i < NUM_PAGES" "a \<in> page_span h i" by auto
  moreover have "i * HEAP_PAGE_SIZE + HEAP_PAGE_SIZE \<le> POOL_SIZE" if "i < NUM_PAGES"
    using that by (simp add: POOL_SIZE_def HEAP_PAGE_SIZE_def NUM_PAGES_def)
  ultimately show "a \<in> pool_span h" by (auto simp: span_def pool_span_def)
qed

lemma ensure_inited_rep:
  assumes "heap_rep h S"
  shows "heap_rep (ensure_inited h) S" "INITED (ensure_inited h)" "frame S h (ensure_inited h)"
proof -
  have "heap_rep (ensure_inited h) S \<and> INITED (ensure_inited h) \<and> frame S h (ensure_inited h)"
  proof (cases "INITED h")
    case True
    then show ?thesis using assms by (simp add: ensure_inited_def)
  next
    case False
    with assms have r: "pool_ok h" "PAGE_FREE_HEAD h = 0" "\<forall>c. free_head h c = 0" "S = pool_span h" by (auto simp: heap_rep_def)
    then have "heap_inv h (\<lambda>_. [])" by (simp add: heap_inv_def chunks_def head_of_def)
    from link_pages [OF this, of "rev [0..<NUM_PAGES]"] obtain fl' where
      fl': "heap_inv (fold link_page (rev [0..<NUM_PAGES]) h) fl'" "free_bytes fl' = pool_span h"
      "frame (pool_span h) h (fold link_page (rev [0..<NUM_PAGES]) h)"
      using pages_cover [of h] by (auto simp: free_bytes_def chunks_def)
    have upd: "heap_inv (g\<lparr>INITED := b\<rparr>) fl = heap_inv g fl" for g b fl
      by (simp add: heap_inv_def pool_ok_def head_of_def fits_def pool_span_def)
    show ?thesis
      using fl' r(4) False by (auto simp: ensure_inited_def heap_init_def heap_rep_def upd frame_def)
  qed
  then show "heap_rep (ensure_inited h) S" "INITED (ensure_inited h)" "frame S h (ensure_inited h)" by auto
qed

section \<open>Allocation\<close>

lemma alloc_page_rep:
  assumes "heap_rep h S" "alloc_page h = (p, h')"
  shows "if p = 0 then heap_rep h' S \<and> frame S h h'
    else heap_rep h' (S - span (p, HEAP_PAGE_SIZE)) \<and> span (p, HEAP_PAGE_SIZE) \<subseteq> S \<and> fits h' (p, HEAP_PAGE_SIZE) \<and> frame S h h' \<and>
      free_head h' = free_head (ensure_inited h)"
proof -
  let ?h = "ensure_inited h"
  note e = ensure_inited_rep [OF assms(1)]
  then obtain fl where fl: "heap_inv ?h fl" "S = free_bytes fl" by (auto simp: heap_rep_def)
  have c: "chain (hmem ?h) (PAGE_FREE_HEAD ?h) (fl HEAP_PAGE_SIZE)" using fl(1) by (auto simp: heap_inv_def head_of_def dest!: bspec [OF _ in_sizes(1)])
  show ?thesis
  proof (cases "fl HEAP_PAGE_SIZE")
    case Nil
    then have "p = 0" "h' = ?h" using assms(2) c by (auto simp: alloc_page_def Let_def)
    then show ?thesis using e by simp
  next
    case (Cons a as)
    note q = pop_inv [OF fl(1) in_sizes(1) Cons]
    have h': "p = a" "h' = set_head HEAP_PAGE_SIZE (hmem ?h a) ?h"
      using assms(2) q(5,6) by (auto simp: alloc_page_def Let_def set_head_def head_of_def)
    then have "heap_rep h' (S - span (p, HEAP_PAGE_SIZE))" using q(1,2) fl(2) e(2) by (auto simp: heap_rep_def)
    moreover have "frame S h h'" using e(3) by (simp add: frame_def h')
    moreover have "free_head h' = free_head ?h" by (simp add: h' set_head_def)
    ultimately show ?thesis using q h' fl(2) by simp
  qed
qed

lemma align_up_id: "8 dvd a \<Longrightarrow> align_up a 8 = a"
proof -
  assume "8 dvd a"
  have "int (a + 7) AND 7 = int (a + 7) mod 8" using take_bit_eq_mask [of 3 "int (a + 7)"] by (simp add: mask_eq_exp_minus_1 take_bit_eq_mod)
  also have "\<dots> = 7" using \<open>8 dvd a\<close> by (auto elim!: dvdE)
  finally show ?thesis using align_up_split [of a 8] by (simp add: add.commute)
qed

lemma partition_loop_step:
  assumes "8 \<le> c" "8 dvd addr" "addr + c \<le> e"
  shows "partition_loop c 8 e addr v m = partition_loop c 8 e (addr + c) addr (m(addr := v))"
  using assms align_up_id [OF assms(2)] by (subst partition_loop.simps) (simp add: max_absorb1)

text \<open>Cutting a range into objects is pushing them one by one.\<close>

lemma partition_loop_inv:
  assumes "c \<in> set SIZE_CLASSES" "heap_inv h fl" "8 dvd addr" "{addr..<addr + r * c} \<inter> free_bytes fl = {}"
    "{addr..<addr + r * c} \<subseteq> pool_span h"
  shows "\<exists>fl' hd m. partition_loop c 8 (addr + r * c) addr (head_of h c) (hmem h) = (hd, m) \<and>
    heap_inv (set_head c hd (h\<lparr>hmem := m\<rparr>)) fl' \<and> free_bytes fl' = free_bytes fl \<union> {addr..<addr + r * c} \<and>
    (\<forall>a. a \<notin> {addr..<addr + r * c} \<longrightarrow> m a = hmem h a) \<and> (0 < r \<longrightarrow> fl' c \<noteq> [])"
  using assms(2-5)
proof (induction r arbitrary: addr h fl)
  case 0
  have "8 \<le> c" using sizes [OF in_sizes(2) [OF assms(1)]] by simp
  then have "partition_loop c 8 (addr + 0 * c) addr (head_of h c) (hmem h) = (head_of h c, hmem h)"
    by (simp add: partition_loop.simps)
  moreover have "set_head c (head_of h c) (h\<lparr>hmem := hmem h\<rparr>) = h"
    using in_sizes(3) [OF assms(1)] by (simp add: set_head_def head_of_def)
  ultimately show ?case using "0.prems" by auto
next
  case (Suc r)
  have c: "c \<in> SIZES" "8 \<le> c" "8 dvd c" "c \<noteq> HEAP_PAGE_SIZE"
    using assms(1) sizes [OF in_sizes(2) [OF assms(1)]] by (auto simp: SIZE_CLASSES_def HEAP_PAGE_SIZE_def)
  have sp: "span (addr, c) \<subseteq> {addr..<addr + Suc r * c}" by (auto simp: span_def)
  have f: "fits h (addr, c)" "span (addr, c) \<inter> free_bytes fl = {}"
    using Suc.prems sp by (auto simp: fits_def)
  note p = push_inv [OF Suc.prems(1) c(1) f]
  let ?h = "push c addr h" and ?fl = "fl(c := addr # fl c)"
  have i1: "8 dvd addr + c" using Suc.prems(2) c(3) by simp
  have "{addr + c..<addr + c + r * c} \<subseteq> {addr..<addr + Suc r * c}" by auto
  then have i2: "{addr + c..<addr + c + r * c} \<inter> free_bytes ?fl = {}" using Suc.prems(3) unfolding p(2) by (fastforce simp: span_def)
  have i3: "{addr + c..<addr + c + r * c} \<subseteq> pool_span ?h" using Suc.prems(4) by (auto simp: push_def pool_span_def)
  obtain fl' hd m where r: "partition_loop c 8 (addr + c + r * c) (addr + c) (head_of ?h c) (hmem ?h) = (hd, m)"
    "heap_inv (set_head c hd (?h\<lparr>hmem := m\<rparr>)) fl'" "free_bytes fl' = free_bytes ?fl \<union> {addr + c..<addr + c + r * c}"
    "\<forall>a. a \<notin> {addr + c..<addr + c + r * c} \<longrightarrow> m a = hmem ?h a" "0 < r \<longrightarrow> fl' c \<noteq> []"
    using Suc.IH [OF p(1) i1 i2 i3] by blast
  have st: "set_head c hd (?h\<lparr>hmem := m\<rparr>) = set_head c hd (h\<lparr>hmem := m\<rparr>)" using c(4) by (simp add: push_def set_head_def)
  have "partition_loop c 8 (addr + Suc r * c) addr (head_of h c) (hmem h) = (hd, m)"
  proof -
    have e: "addr + Suc r * c = addr + c + r * c" and le: "addr + c \<le> addr + c + r * c" by simp_all
    have "head_of ?h c = addr" "hmem ?h = (hmem h)(addr := head_of h c)" by (simp_all add: push_def)
    then show ?thesis
      unfolding e partition_loop_step [OF c(2) Suc.prems(2) le, of "head_of h c" "hmem h"] using r(1) by (simp only:)
  qed
  moreover have "span (addr, c) \<union> {addr + c..<addr + c + r * c} = {addr..<addr + Suc r * c}"
    using ivl_disj_un_two(3) [of addr "addr + c" "addr + c + r * c"] by (simp add: span_def add.assoc)
  then have "free_bytes fl' = free_bytes fl \<union> {addr..<addr + Suc r * c}" using r(3) unfolding p(2) by blast
  moreover have "\<forall>a. a \<notin> {addr..<addr + Suc r * c} \<longrightarrow> m a = hmem h a" using r(4) c(2) by (auto simp: push_def)
  moreover have "fl' c \<noteq> []"
  proof -
    have "addr \<in> free_bytes fl'" using r(3) span_start [OF c(1), of addr] unfolding p(2) by blast
    show ?thesis
    proof (cases "r = 0")
      case True
      then have "partition_loop c 8 (addr + c) (addr + c) addr (hmem ?h) = (hd, m)" using r(1) by (simp add: push_def)
      then have "hd = addr" using c(2) by (subst (asm) partition_loop.simps) simp
      moreover have "chain m hd (fl' c)" using r(2) c(1) by (auto simp: heap_inv_def)
      moreover have "addr \<noteq> 0" using Suc.prems(1,4) c(2) by (auto simp: heap_inv_def pool_ok_def pool_span_def)
      ultimately show ?thesis by auto
    qed (use r(5) in simp)
  qed
  ultimately show ?case using r(2) unfolding st by (intro exI [of _ fl'] exI [of _ hd] exI [of _ m]) simp
qed

text \<open>The chunk a request is served from: \<open>chunk_size tot\<close> bytes.\<close>

definition chunk_size :: "nat \<Rightarrow> nat" where
  "chunk_size tot = (if size_to_class tot \<noteq> 0 then size_to_class tot else HEAP_PAGE_SIZE)"

definition served :: "heap \<Rightarrow> nat set \<Rightarrow> nat \<Rightarrow> nat \<Rightarrow> heap \<Rightarrow> bool" where
  "served h S k p h' \<longleftrightarrow> frame S h h' \<and> INITED h' \<and> (if p = 0 then heap_rep h' S
     else heap_rep h' (S - span (p, k)) \<and> span (p, k) \<subseteq> S \<and> fits h' (p, k))"

lemma size_to_class_cases: "size_to_class n = 0 \<and> 1024 < n \<or> size_to_class n \<in> set SIZE_CLASSES \<and> n \<le> size_to_class n"
  by (auto simp: size_to_class_def SIZE_CLASSES_def)

lemma rep_uninit_head: "heap_rep h S \<Longrightarrow> \<not> INITED h \<Longrightarrow> free_head h c = 0"
  by (simp add: heap_rep_def)

lemma inited_id: "INITED h \<Longrightarrow> ensure_inited h = h"
  by (simp add: ensure_inited_def)

lemma link_pages_heads: "free_head (fold link_page is h) = free_head h"
  by (induction "is" arbitrary: h) (simp_all add: link_page_def Let_def)

lemma ensure_inited_heads: "free_head (ensure_inited h) = free_head h"
  by (simp add: ensure_inited_def heap_init_def link_pages_heads)

lemma alloc_page_inited: "heap_rep h S \<Longrightarrow> alloc_page h = (p, h') \<Longrightarrow> INITED h'"
  using ensure_inited_rep(2) [of h S] by (auto simp: alloc_page_def Let_def split: if_splits)

lemma cache_alloc_serves:
  assumes rep: "heap_rep h S" and c: "c \<in> set SIZE_CLASSES" and r: "cache_alloc c h = (p, h')"
  shows "served h S c p h'"
proof (cases "free_head h c = 0")
  case False
  then have i: "INITED h" using rep_uninit_head [OF rep, of c] by auto
  then obtain fl where fl: "heap_inv h fl" "S = free_bytes fl" using rep by (auto simp: heap_rep_def)
  have "chain (hmem h) (free_head h c) (fl c)" using fl(1) c by (auto simp: heap_inv_def head_of_def dest!: bspec [OF _ in_sizes(2)])
  then obtain a as where Cons: "fl c = a # as" using False by (cases "fl c") auto
  note q = pop_inv [OF fl(1) in_sizes(2) [OF c] Cons]
  have "p = a" "h' = set_head c (hmem h a) h"
    using r False q(5) in_sizes(3) [OF c] by (auto simp: cache_alloc_def Let_def set_head_def head_of_def)
  then show ?thesis using q fl(2) i by (auto simp: served_def heap_rep_def frame_def)
next
  case empty: True
  obtain page h1 where a: "alloc_page h = (page, h1)" by fastforce
  show ?thesis
  proof (cases "page = 0")
    case True
    then show ?thesis using alloc_page_rep [OF rep a] alloc_page_inited [OF rep a] r empty a by (simp add: cache_alloc_def served_def)
  next
    case False
    let ?sp = "span (page, HEAP_PAGE_SIZE)"
    from alloc_page_rep [OF rep a] False have h1: "heap_rep h1 (S - ?sp)" "?sp \<subseteq> S" "fits h1 (page, HEAP_PAGE_SIZE)" "frame S h h1"
      and hd1: "free_head h1 = free_head h" by (auto simp: ensure_inited_heads)
    have i: "INITED h1" by (rule alloc_page_inited [OF rep a])
    then obtain fl where fl: "heap_inv h1 fl" "S - ?sp = free_bytes fl" using h1(1) by (auto simp: heap_rep_def)
    have cs: "c \<in> SIZES" "c \<noteq> HEAP_PAGE_SIZE" "c dvd HEAP_PAGE_SIZE" "8 \<le> c" using c sizes [OF in_sizes(2) [OF c]] by auto
    then obtain n where n: "HEAP_PAGE_SIZE = n * c" "0 < n" by (metis dvd_def mult.commute HEAP_PAGE_SIZE_def gr0I mult_0 zero_neq_numeral)
    have h0: "head_of h1 c = 0" using empty hd1 cs(2) by (simp add: head_of_def)
    have "8 dvd page" "{page..<page + n * c} \<inter> free_bytes fl = {}" "{page..<page + n * c} \<subseteq> pool_span h1"
      using h1(3) fl(2) n(1) by (auto simp: fits_def span_def)
    from partition_loop_inv [OF c fl(1) this] obtain fl' lst m where
      pl: "partition_page_into_list page c 8 (hmem h1) = (lst, m)" "heap_inv (set_head c lst (h1\<lparr>hmem := m\<rparr>)) fl'"
      "free_bytes fl' = free_bytes fl \<union> ?sp" "\<forall>a. a \<notin> ?sp \<longrightarrow> m a = hmem h1 a" "fl' c \<noteq> []"
      using n unfolding h0 by (auto simp: partition_page_into_list_def span_def)
    let ?h2 = "set_head c lst (h1\<lparr>hmem := m\<rparr>)"
    obtain x as where Cons: "fl' c = x # as" using pl(5) by (cases "fl' c") auto
    note q = pop_inv [OF pl(2) cs(1) Cons]
    have S: "free_bytes fl' = S" using pl(3) fl(2) h1(2) by auto
    have "lst = x" using q(5) by simp
    then have p: "p = x" and h': "h' = set_head c (hmem ?h2 x) ?h2"
      using r empty a False pl(1) q(6) cs(2) by (auto simp: cache_alloc_def Let_def set_head_def)
    have "frame S h h'" using h1(2,4) pl(4) by (auto simp: frame_def h')
    then show ?thesis using q S i p h' by (auto simp: served_def heap_rep_def)
  qed
qed

lemma alloc_raw_serves:
  assumes "heap_rep h S" "alloc_raw tot h = (p, h')"
  shows "served h S (chunk_size tot) p h'"
proof (cases "size_to_class tot = 0")
  case True
  then show ?thesis using alloc_page_rep [OF assms(1), of p h'] alloc_page_inited [OF assms(1), of p h'] assms(2)
    by (cases "p = 0") (simp_all add: alloc_raw_def chunk_size_def served_def)
next
  case False
  then have "size_to_class tot \<in> set SIZE_CLASSES" using size_to_class_cases [of tot] by auto
  from cache_alloc_serves [OF assms(1) this] assms(2) False show ?thesis by (simp add: alloc_raw_def chunk_size_def)
qed

lemma free_raw_push: "base \<noteq> 0 \<Longrightarrow> free_raw base tot h = push (chunk_size tot) base h"
  using size_to_class_cases [of tot] in_sizes(3) [of "size_to_class tot"]
  by (auto simp: free_raw_def chunk_size_def cache_free_def free_page_def push_def set_head_def head_of_def Let_def)

lemma chunk_size_in: "chunk_size tot \<in> SIZES" "tot \<le> HEAP_PAGE_SIZE \<Longrightarrow> tot \<le> chunk_size tot"
  using size_to_class_cases [of tot] by (auto simp: chunk_size_def)

lemma free_raw_rep:
  assumes "heap_rep h S" "INITED h" "fits h (base, chunk_size tot)" "span (base, chunk_size tot) \<inter> S = {}" "base \<noteq> 0"
  shows "heap_rep (free_raw base tot h) (S \<union> span (base, chunk_size tot))" "frame {base} h (free_raw base tot h)"
proof -
  obtain fl where fl: "heap_inv h fl" "S = free_bytes fl" using assms(1,2) by (auto simp: heap_rep_def)
  note q = push_inv [OF fl(1) chunk_size_in(1) assms(3)] assms(4)
  show "heap_rep (free_raw base tot h) (S \<union> span (base, chunk_size tot))"
    unfolding free_raw_push [OF assms(5)] using q fl(2) assms(2) by (auto simp: heap_rep_def push_frame)
  show "frame {base} h (free_raw base tot h)" unfolding free_raw_push [OF assms(5)] by (rule push_frame)
qed

section \<open>Headers\<close>

lemma align_up_pow2:
  assumes "align = 2 ^ k"
  shows "align dvd align_up a align" "a \<le> align_up a align" "align_up a align < a + align"
proof -
  let ?x = "a + align - 1"
  have m: "int (align - 1) = mask k" using assms by (simp add: mask_eq_exp_minus_1 of_nat_diff)
  have "int ?x AND int (align - 1) = int ?x mod 2 ^ k" unfolding m take_bit_eq_mask [symmetric] take_bit_eq_mod ..
  also have "\<dots> = int (?x mod align)" by (simp add: assms zmod_int)
  finally have s: "align_up a align + ?x mod align = ?x" using align_up_split [of a align] by simp
  have pos: "0 < align" using assms by simp
  have "align_up a align = ?x div align * align" using s div_mult_mod_eq [of ?x align] by linarith
  then show "align dvd align_up a align" by simp
  show "a \<le> align_up a align" "align_up a align < a + align" using s pos mod_less_divisor [OF pos, of ?x] by linarith+
qed

lemma heap_rep_write:
  assumes "heap_rep h S" "INITED h" "\<And>a. a \<in> S \<Longrightarrow> m a = hmem h a"
  shows "heap_rep (h\<lparr>hmem := m\<rparr>) S"
proof -
  obtain fl where fl: "heap_inv h fl" "S = free_bytes fl" using assms(1,2) by (auto simp: heap_rep_def)
  have "chain m (head_of h k) (fl k)" if "k \<in> SIZES" for k
    using chain_cong [of "fl k" m "hmem h"] fl that head_in_free [OF that] assms(3) by (auto simp: heap_inv_def)
  then have "heap_inv (h\<lparr>hmem := m\<rparr>) fl" using fl(1) by (simp add: heap_inv_def)
  then show ?thesis using fl(2) assms(2) by (auto simp: heap_rep_def)
qed

definition request_ok :: "nat \<Rightarrow> nat \<Rightarrow> bool" where
  "request_ok n align \<longleftrightarrow> (\<exists>k \<ge> 3. align = 2 ^ k) \<and> n + align + HEADER_SIZE \<le> HEAP_PAGE_SIZE"

lemma request_facts:
  assumes "request_ok n align"
  shows "8 \<le> align" "n + align + HEADER_SIZE \<le> HEAP_PAGE_SIZE"
    "alloc_raw (n + align + HEADER_SIZE) h = (base, h1) \<Longrightarrow> alloc_with_header n align h =
      (if base = 0 then (0, h1) else let p = align_up (base + HEADER_SIZE) align
       in (p, h1\<lparr>hmem := (hmem h1)(p - 16 := base, p - 8 := n + align + HEADER_SIZE)\<rparr>))"
proof -
  obtain k where k: "3 \<le> k" "align = 2 ^ k" using assms by (auto simp: request_ok_def)
  have "(2::nat) ^ 3 \<le> 2 ^ k" using k(1) by (intro power_increasing) auto
  then show a8: "8 \<le> align" using k(2) by simp
  show lt: "n + align + HEADER_SIZE \<le> HEAP_PAGE_SIZE" using assms by (simp add: request_ok_def)
  then have tot: "wadd (wadd n align) HEADER_SIZE = n + align + HEADER_SIZE" by (simp add: wadd_def HEAP_PAGE_SIZE_def HEADER_SIZE_def)
  show "alloc_with_header n align h =
      (if base = 0 then (0, h1) else let p = align_up (base + HEADER_SIZE) align
       in (p, h1\<lparr>hmem := (hmem h1)(p - 16 := base, p - 8 := n + align + HEADER_SIZE)\<rparr>))"
    if "alloc_raw (n + align + HEADER_SIZE) h = (base, h1)"
    using that a8 by (simp add: alloc_with_header_def tot Let_def max_absorb1)
qed

text \<open>A served request: the user region and its header lie in the chunk.\<close>

lemma alloc_with_header_ok:
  assumes "heap_rep h S" "request_ok n align" "alloc_with_header n align h = (p, h')" "p \<noteq> 0"
  shows "\<exists>base. hmem h' (p - 16) = base \<and> hmem h' (p - 8) = n + align + HEADER_SIZE \<and> base \<noteq> 0 \<and> align dvd p \<and>
    base + 16 \<le> p \<and> p + n \<le> base + chunk_size (n + align + HEADER_SIZE) \<and>
    span (base, chunk_size (n + align + HEADER_SIZE)) \<subseteq> S \<and> fits h' (base, chunk_size (n + align + HEADER_SIZE)) \<and>
    heap_rep h' (S - span (base, chunk_size (n + align + HEADER_SIZE))) \<and> INITED h' \<and> frame S h h'"
proof -
  let ?tot = "n + align + HEADER_SIZE"
  obtain k where k: "align = 2 ^ k" using assms(2) by (auto simp: request_ok_def)
  note rf = request_facts [OF assms(2)]
  obtain base h1 where r: "alloc_raw ?tot h = (base, h1)" by fastforce
  have b0: "base \<noteq> 0" using assms(3,4) rf(3) [OF r] by (auto split: if_splits)
  let ?p = "align_up (base + HEADER_SIZE) align"
  have p: "p = ?p" and h': "h' = h1\<lparr>hmem := (hmem h1)(p - 16 := base, p - 8 := ?tot)\<rparr>"
    using assms(3) rf(3) [OF r] b0 by (auto simp: Let_def)
  note al = align_up_pow2 [OF k, of "base + HEADER_SIZE", folded p]
  have sv: "served h S (chunk_size ?tot) base h1" by (rule alloc_raw_serves [OF assms(1) r])
  have ck: "?tot \<le> chunk_size ?tot" by (rule chunk_size_in(2) [OF rf(2)])
  have bd: "base + 16 \<le> p" "p + n \<le> base + chunk_size ?tot" using al ck by (simp_all add: HEADER_SIZE_def)
  have in_chunk: "p - 16 \<in> span (base, chunk_size ?tot)" "p - 8 \<in> span (base, chunk_size ?tot)"
    using bd al(3) ck rf(1) by (auto simp: span_def HEADER_SIZE_def)
  have sub: "span (base, chunk_size ?tot) \<subseteq> S" "heap_rep h1 (S - span (base, chunk_size ?tot))" "fits h1 (base, chunk_size ?tot)" "frame S h h1"
    using sv b0 by (auto simp: served_def)
  have i: "INITED h1" using sv by (simp add: served_def)
  have "heap_rep h' (S - span (base, chunk_size ?tot))"
    unfolding h' using in_chunk by (intro heap_rep_write sub(2) i) auto
  moreover have "frame S h h'" using sub(1,4) in_chunk by (auto simp: frame_def h')
  moreover have "p - 16 \<noteq> p - 8" using bd by linarith
  ultimately show ?thesis using bd al(1) b0 sub i by (intro exI [of _ base]) (auto simp: h')
qed

section \<open>Large requests\<close>

lemma boot_pages:
  assumes "INITED g = False" "POOL g = pool"
  shows "PAGE_FREE_HEAD (ensure_inited g) = pool" "hmem (ensure_inited g) pool = pool + HEAP_PAGE_SIZE"
    "hmem (ensure_inited g) (pool + HEAP_PAGE_SIZE) = pool + 2 * HEAP_PAGE_SIZE" "INITED (ensure_inited g)"
proof -
  have "[0..<NUM_PAGES] = [0, 1, 2] @ [3..<NUM_PAGES]" by (simp add: NUM_PAGES_def upt_rec)
  then have r: "rev [0..<NUM_PAGES] = rev [3..<NUM_PAGES] @ [2, 1, 0]" by simp
  have "POOL (fold link_page is g) = POOL g" for "is" by (induction "is" arbitrary: g) (simp_all add: link_page_def Let_def)
  then show "PAGE_FREE_HEAD (ensure_inited g) = pool" "hmem (ensure_inited g) pool = pool + HEAP_PAGE_SIZE"
    "hmem (ensure_inited g) (pool + HEAP_PAGE_SIZE) = pool + 2 * HEAP_PAGE_SIZE" "INITED (ensure_inited g)"
    using assms by (simp_all add: ensure_inited_def heap_init_def r link_page_def Let_def HEAP_PAGE_SIZE_def)
qed

lemma kmalloc_page:
  assumes "HEAP_PAGE_SIZE \<le> n" "n + 24 < 2 ^ 64" "PAGE_FREE_HEAD (ensure_inited g) = page" "page \<noteq> 0" "8 dvd page"
  shows "kmalloc n g = (page + 16, (ensure_inited g)\<lparr>PAGE_FREE_HEAD := hmem (ensure_inited g) page,
    hmem := (hmem (ensure_inited g))(page := page, page + 8 := n + 24)\<rparr>)"
proof -
  have "wadd (wadd n 8) HEADER_SIZE = n + 24" using assms(2) by (simp add: wadd_def HEADER_SIZE_def)
  moreover have "size_to_class (n + 24) = 0" using assms(1) size_to_class_cases [of "n + 24"]
    by (auto simp: HEAP_PAGE_SIZE_def SIZE_CLASSES_def)
  moreover have "8 dvd page + HEADER_SIZE" using assms(5) by (simp add: HEADER_SIZE_def)
  ultimately show ?thesis
    using assms(3,4) by (simp add: kmalloc_def alloc_with_header_def alloc_raw_def alloc_page_def align_up_id Let_def HEADER_SIZE_def add.commute)
qed

section \<open>Properties\<close>

text \<open>C28: allocation from the kernel heap is safe for requests that fit in a page with their header. The
  user region is aligned and was free memory before, the memory that is free afterwards is
  disjoint from it and from its header, nothing outside the free memory was written, and the heap
  stays well formed; a failing request only may initialise the heap.\<close>

theorem heap_allocation_is_fresh:
  assumes "heap_rep h S" "request_ok n align" "alloc_with_header n align h = (p, h')"
  shows "frame S h h' \<and> (if p = 0 then heap_rep h' S
    else align dvd p \<and> {p - 16..<p + n} \<subseteq> S \<and> (\<exists>S'. heap_rep h' S' \<and> S' \<subseteq> S \<and> S' \<inter> {p - 16..<p + n} = {}))"
proof (cases "p = 0")
  case True
  obtain base h1 where r: "alloc_raw (n + align + HEADER_SIZE) h = (base, h1)" by fastforce
  obtain k where "align = 2 ^ k" using assms(2) by (auto simp: request_ok_def)
  from align_up_pow2(2) [OF this, of "base + HEADER_SIZE"] have "base = 0 \<and> h' = h1"
    using assms(3) True request_facts(3) [OF assms(2) r] by (auto simp: Let_def HEADER_SIZE_def split: if_splits)
  then show ?thesis using alloc_raw_serves [OF assms(1) r] True by (simp add: served_def)
next
  case False
  let ?c = "chunk_size (n + align + HEADER_SIZE)"
  from alloc_with_header_ok [OF assms False] obtain base where b: "align dvd p" "base + 16 \<le> p" "p + n \<le> base + ?c"
    "span (base, ?c) \<subseteq> S" "heap_rep h' (S - span (base, ?c))" "frame S h h'" by auto
  moreover have "{p - 16..<p + n} \<subseteq> span (base, ?c)" using b(2,3) by (auto simp: span_def)
  ultimately show ?thesis using False by auto
qed

text \<open>freeing gives back exactly what allocation took. After an allocation, whatever the owner writes
  into its region, \<open>kfree\<close> restores the free memory to what it was.\<close>

theorem kfree_restores:
  assumes "heap_rep h S" "request_ok n align" "alloc_with_header n align h = (p, h')" "p \<noteq> 0"
    "\<forall>a. a \<notin> {p..<p + n} \<longrightarrow> m a = hmem h' a"
  shows "heap_rep (free_with_header p (h'\<lparr>hmem := m\<rparr>)) S"
proof -
  let ?t = "n + align + HEADER_SIZE" and ?h = "h'\<lparr>hmem := m\<rparr>"
  from alloc_with_header_ok [OF assms(1-4)] obtain base where b: "hmem h' (p - 16) = base" "hmem h' (p - 8) = ?t" "base \<noteq> 0"
    "base + 16 \<le> p" "p + n \<le> base + chunk_size ?t" "span (base, chunk_size ?t) \<subseteq> S" "fits h' (base, chunk_size ?t)"
    "heap_rep h' (S - span (base, chunk_size ?t))" "INITED h'" by auto
  have "{p..<p + n} \<subseteq> span (base, chunk_size ?t)" using b(4,5) by (auto simp: span_def)
  then have rep: "heap_rep ?h (S - span (base, chunk_size ?t))"
    using assms(5) by (intro heap_rep_write b(8,9)) blast
  have hd: "m (p - 16) = base" "m (p - 8) = ?t" using assms(4,5) b(1,2,4) by auto
  have fits: "fits ?h (base, chunk_size ?t)" using b(7) by simp
  have "heap_rep (free_raw base ?t ?h) (S - span (base, chunk_size ?t) \<union> span (base, chunk_size ?t))"
    using free_raw_rep(1) [OF rep _ fits] b(3,9) by auto
  then show ?thesis using hd assms(4) b(6) by (simp add: free_with_header_def Un_absorb2)
qed

text \<open>requests of a page or more get one page. On a fresh heap two such requests are answered with
  regions that overlap: the header of the second lies inside the region of the first.\<close>

theorem large_requests_overlap:
  assumes "pool_ok (heap_boot pool)" "HEAP_PAGE_SIZE \<le> n" "n + 24 < 2 ^ 64"
  shows "\<exists>p q h1 h2. kmalloc n (heap_boot pool) = (p, h1) \<and> kmalloc n h1 = (q, h2) \<and> p < q - 16 \<and> q - 16 < p + n"
proof -
  let ?g = "ensure_inited (heap_boot pool)" and ?q = "pool + HEAP_PAGE_SIZE"
  have "HEAP_PAGE_SIZE dvd pool" "pool \<noteq> 0" using assms(1) by (auto simp: pool_ok_def heap_boot_def)
  moreover have "(8::nat) dvd HEAP_PAGE_SIZE" by (simp add: HEAP_PAGE_SIZE_def)
  ultimately have d: "pool \<noteq> 0" "8 dvd pool" "8 dvd ?q" "?q \<noteq> 0" by (auto intro: dvd_trans)
  have b: "PAGE_FREE_HEAD ?g = pool" "hmem ?g pool = ?q" "INITED ?g"
    using boot_pages [of "heap_boot pool" pool] by (simp_all add: heap_boot_def)
  let ?h1 = "?g\<lparr>PAGE_FREE_HEAD := ?q, hmem := (hmem ?g)(pool := pool, pool + 8 := n + 24)\<rparr>"
  have "kmalloc n (heap_boot pool) = (pool + 16, ?h1)" using kmalloc_page [OF assms(2,3) b(1) d(1,2)] by (simp add: b(2))
  moreover have "\<exists>h2. kmalloc n ?h1 = (?q + 16, h2)"
    using kmalloc_page [OF assms(2,3) _ d(4,3), of ?h1] b(3) by (simp add: inited_id)
  ultimately show ?thesis using assms(2) by (fastforce simp: HEAP_PAGE_SIZE_def)
qed

text \<open>an object cache hands out the object freed last, with its live mark restored, and stops the
  machine if an object is freed twice.\<close>

theorem slab_reuse_and_double_free:
  assumes "16 \<le> object_size s" "p \<noteq> 0" "slab_free p (s, h) = Done (s', h')"
  shows "slab_free p (s', h') = Halted ''slab_canary_corrupt_on_free'' \<and>
    (\<exists>h''. slab_alloc (s', h') = Done (p, s, h'') \<and> (\<forall>a. a \<noteq> p \<longrightarrow> hmem h'' a = hmem h a))"
  using assms
  by (auto simp: slab_free_def slab_alloc_def Let_def LIVE_CANARY_def FREE_CANARY_def bind_halt_eq_Inr_iff split: if_splits)

text \<open>A heap whose pool is at 1 MiB.\<close>

lemma boot_rep: "heap_rep (heap_boot 0x100000) {0x100000..<0x200000}" "pool_ok (heap_boot 0x100000)"
  by (simp_all add: heap_rep_def heap_boot_def pool_ok_def pool_span_def POOL_SIZE_def NUM_PAGES_def HEAP_PAGE_SIZE_def)

lemma small_request: "request_ok 100 16"
  by (auto simp: request_ok_def HEADER_SIZE_def HEAP_PAGE_SIZE_def intro!: exI [of _ 4])

lemma boot_serves: "fst (alloc_with_header 100 16 (heap_boot 0x100000)) \<noteq> 0"
proof -
  let ?g = "ensure_inited (heap_boot 0x100000)"
  have b: "PAGE_FREE_HEAD ?g = 0x100000" "INITED ?g" "free_head ?g = (\<lambda>_. 0)"
    using boot_pages [of "heap_boot 0x100000" "0x100000"] by (simp_all add: heap_boot_def ensure_inited_heads)
  obtain base h1 where r: "alloc_raw (100 + 16 + HEADER_SIZE) (heap_boot 0x100000) = (base, h1)" by fastforce
  have c: "size_to_class (100 + 16 + HEADER_SIZE) = 256" by (simp add: size_to_class_def SIZE_CLASSES_def HEADER_SIZE_def)
  have "base \<noteq> 0"
  proof -
    have "alloc_page (heap_boot 0x100000) = (0x100000, ?g\<lparr>PAGE_FREE_HEAD := hmem ?g 0x100000\<rparr>)"
      using b by (simp add: alloc_page_def Let_def)
    moreover have "partition_page_into_list 0x100000 256 8 m \<noteq> (0, x)" for m x
    proof -
      have "fst (partition_loop 256 8 e a v m) \<noteq> 0" if "8 dvd a" "a \<noteq> 0" "a + 256 \<le> e \<or> v \<noteq> 0" for e a v m
        using that
      proof (induction "e - a" arbitrary: a v m rule: less_induct)
        case less
        show ?case
        proof (cases "a + 256 \<le> e")
          case True
          have "fst (partition_loop 256 8 e (a + 256) a (m(a := v))) \<noteq> 0" using less.prems True by (intro less.hyps) auto
          then show ?thesis using partition_loop_step [of 256 a e v m] less.prems(1) True by simp
        next
          case False
          then show ?thesis using less.prems(3) by (subst partition_loop.simps) simp
        qed
      qed
      then have "fst (partition_page_into_list 0x100000 256 8 m) \<noteq> 0" by (simp add: partition_page_into_list_def HEAP_PAGE_SIZE_def)
      then show ?thesis by auto
    qed
    ultimately show ?thesis
      using r c by (auto simp: alloc_raw_def cache_alloc_def Let_def heap_boot_def split: prod.splits if_splits)
  qed
  then show ?thesis
    using request_facts(3) [OF small_request r] align_up_ge [of "base + HEADER_SIZE" 16] by (simp add: Let_def HEADER_SIZE_def)
qed

theorem heap_allocation_is_fresh_witness:
  "\<exists>p h'. alloc_with_header 100 16 (heap_boot 0x100000) = (p, h') \<and> 16 dvd p \<and> {p - 16..<p + 100} \<subseteq> {0x100000..<0x200000}"
proof -
  obtain p h' where r: "alloc_with_header 100 16 (heap_boot 0x100000) = (p, h')" by fastforce
  with boot_serves heap_allocation_is_fresh [OF boot_rep(1) small_request r] show ?thesis by simp
qed

theorem kfree_restores_witness:
  "\<exists>p h'. alloc_with_header 100 16 (heap_boot 0x100000) = (p, h') \<and>
     heap_rep (free_with_header p (h'\<lparr>hmem := (hmem h')(p := 7)\<rparr>)) {0x100000..<0x200000}"
proof -
  obtain p h' where r: "alloc_with_header 100 16 (heap_boot 0x100000) = (p, h')" by fastforce
  with boot_serves kfree_restores [OF boot_rep(1) small_request r, of "(hmem h')(p := 7)"] show ?thesis by auto
qed

theorem large_requests_overlap_witness:
  "\<exists>p q h1 h2. kmalloc 5000 (heap_boot 0x100000) = (p, h1) \<and> kmalloc 5000 h1 = (q, h2) \<and> p < q - 16 \<and> q - 16 < p + 5000"
  by (rule large_requests_overlap [OF boot_rep(2)]) (simp_all add: HEAP_PAGE_SIZE_def)

theorem slab_reuse_and_double_free_witness:
  "let h = (heap_boot 0x100000)\<lparr>hmem := (\<lambda>_. 0)(0x100038 := LIVE_CANARY)\<rparr>
   in case slab_free 0x100000 (slab_new 64 8, h) of
        Inr (s', h') \<Rightarrow> slab_free 0x100000 (s', h') = Halted ''slab_canary_corrupt_on_free'' | Inl _ \<Rightarrow> False"
proof -
  let ?h = "(heap_boot 0x100000)\<lparr>hmem := (\<lambda>_. 0)(0x100038 := LIVE_CANARY)\<rparr>"
  obtain s' h' where f: "slab_free 0x100000 (slab_new 64 8, ?h) = Done (s', h')"
    by (simp add: slab_free_def slab_new_def Let_def)
  with slab_reuse_and_double_free [OF _ _ f] show ?thesis by (simp add: slab_new_def)
qed

end
