(* ===== verification/Elf.thy ===== *)
theory Elf
  imports Address_Space
begin

text \<open>
  The program loader (\<open>kernel/process/loader/elf.rs\<close>): header checks, the loop over the \<open>PT_LOAD\<close>
  program headers, and for each the loop over its pages, which takes frames from the page
  allocator, fills them from the file and maps them in the address space of the new process.

  \<open>ld_mem\<close> is the physical memory outside the page tables, byte by byte. The loop over the pages is a
  partial function: its bound \<open>p_vaddr + p_memsz\<close> and its counter wrap around, so that a hostile
  file could keep it running; \<open>None\<close> is a run that does not end. \<open>Done (False, s)\<close> is the return value
  \<open>None\<close> of the source, \<open>Halted\<close> a diagnostic halt or a panic (an index out of range).
\<close>

section \<open>Headers\<close>

definition PT_LOAD :: nat where "PT_LOAD = 1"

definition elf_field :: "nat \<Rightarrow> nat \<Rightarrow> u8 list \<Rightarrow> nat" where
  "elf_field n off elf = le_bytes n (\<lambda>i. elf ! i) off"

record phdr =
  p_type :: nat
  p_flags :: u32
  p_offset :: nat
  p_vaddr :: u64
  p_filesz :: nat
  p_memsz :: nat

definition read_phdr :: "u8 list \<Rightarrow> nat \<Rightarrow> phdr" where
  "read_phdr elf off =
     \<lparr>p_type = elf_field 4 off elf, p_flags = of_nat (elf_field 4 (off + 4) elf), p_offset = elf_field 8 (off + 8) elf,
      p_vaddr = of_nat (elf_field 8 (off + 16) elf), p_filesz = elf_field 8 (off + 32) elf,
      p_memsz = elf_field 8 (off + 40) elf\<rparr>"

definition writable_seg :: "phdr \<Rightarrow> bool" where "writable_seg ph \<longleftrightarrow> p_flags ph AND 2 \<noteq> 0"
definition executable_seg :: "phdr \<Rightarrow> bool" where "executable_seg ph \<longleftrightarrow> p_flags ph AND 1 \<noteq> 0"

definition seg_flags :: "phdr \<Rightarrow> u64" where
  "seg_flags ph =
     (let f = flags_with (flags_with 0 Present) User;
          f1 = (if writable_seg ph then flags_with f Writable else f);
          f2 = (if \<not> executable_seg ph then flags_with f1 NoExec else f1)
      in flags_as_u64 f2)"

section \<open>Pages\<close>

record loader =
  ld_buddy :: buddy
  ld_mmu :: mmu
  ld_mem :: "nat \<Rightarrow> u8"

definition copy_bytes :: "nat \<Rightarrow> nat \<Rightarrow> nat \<Rightarrow> u8 list \<Rightarrow> (nat \<Rightarrow> u8) \<Rightarrow> nat \<Rightarrow> u8" where
  "copy_bytes dst src n elf mem = (\<lambda>a. if dst \<le> a \<and> a < dst + n then elf ! (src + (a - dst)) else mem a)"

definition zero_bytes :: "nat \<Rightarrow> nat \<Rightarrow> (nat \<Rightarrow> u8) \<Rightarrow> nat \<Rightarrow> u8" where
  "zero_bytes dst n mem = (\<lambda>a. if dst \<le> a \<and> a < dst + n then 0 else mem a)"

definition file_bytes_left :: "u8 list \<Rightarrow> phdr \<Rightarrow> nat \<Rightarrow> nat" where
  "file_bytes_left elf ph file_off =
     (let e = wadd (p_offset ph) (p_filesz ph)
      in if file_off < e then min (e - file_off) (length elf - file_off) else 0)"

definition dest_offset :: "phdr \<Rightarrow> u64 \<Rightarrow> nat" where
  "dest_offset ph va = unat (word_ssub (p_vaddr ph) va)"

definition copy_len :: "u8 list \<Rightarrow> phdr \<Rightarrow> u64 \<Rightarrow> nat \<Rightarrow> nat" where
  "copy_len elf ph va file_off = min (PAGE_SIZE - dest_offset ph va) (file_bytes_left elf ph file_off)"

text \<open>The check of the first 16 bytes of an executable segment.\<close>

definition text_check :: "u8 list \<Rightarrow> phdr \<Rightarrow> u64 \<Rightarrow> nat \<Rightarrow> (nat \<Rightarrow> u8) \<Rightarrow> unit halting" where
  "text_check elf ph va p mem =
     (if executable_seg ph \<and> va = p_vaddr ph AND NOT 0xFFF \<and> p_filesz ph \<ge> 16 \<and> length elf \<ge> wadd (p_offset ph) 16 then
        (if p_offset ph + 16 > length elf then Halted ''panic''
         else if list_all (\<lambda>i. elf ! (p_offset ph + i) = mem (p + i)) [0..<16] then Done ()
         else Halted ''elf_text_copy_mismatch'')
      else Done ())"

definition load_page :: "u8 list \<Rightarrow> u64 \<Rightarrow> phdr \<Rightarrow> u64 \<Rightarrow> nat \<Rightarrow> loader \<Rightarrow> (bool \<times> loader) halting" where
  "load_page elf cr3 ph va file_off s =
     (let dest = dest_offset ph va; n = copy_len elf ph va file_off
      in case walk_pte cr3 va (ld_mmu s) of
           Some pte \<Rightarrow>
             (let pa = unat (pte AND FRAME_MASK); mem1 = copy_bytes (pa + dest) file_off n elf (ld_mem s)
              in bind_halt (text_check elf ph va (pa + dest) mem1) (\<lambda>_. Done (True, s\<lparr>ld_mem := mem1\<rparr>)))
         | None \<Rightarrow>
             bind_halt (alloc_frame (ld_buddy s)) (\<lambda>(r, b). case r of
                 None \<Rightarrow> Done (False, s\<lparr>ld_buddy := b\<rparr>)
               | Some pa \<Rightarrow>
                   (let mem1 = copy_bytes (pa + dest) file_off n elf (ld_mem s);
                        mem2 = (if dest + n < PAGE_SIZE then zero_bytes (pa + dest + n) (PAGE_SIZE - (dest + n)) mem1 else mem1);
                        (ok, m) = map_page_into_space cr3 va (of_nat pa) (seg_flags ph) (ld_mmu s);
                        s1 = \<lparr>ld_buddy = b, ld_mmu = m, ld_mem = mem2\<rparr>
                    in if \<not> ok then Done (False, s1)
                       else bind_halt (text_check elf ph va (pa + dest) mem2) (\<lambda>_. Done (True, s1)))))"

partial_function (option) load_pages :: "u8 list \<Rightarrow> u64 \<Rightarrow> phdr \<Rightarrow> u64 \<Rightarrow> nat \<Rightarrow> loader \<Rightarrow> (bool \<times> loader) halting option" where
  "load_pages elf cr3 ph va file_off s =
     (if va < p_vaddr ph + of_nat (p_memsz ph) then
        (case load_page elf cr3 ph va file_off s of
           Inl r \<Rightarrow> Some (Inl r)
         | Inr (ok, s1) \<Rightarrow>
             if \<not> ok then Some (Inr (False, s1))
             else load_pages elf cr3 ph (va + 4096) (sadd file_off (copy_len elf ph va file_off)) s1)
      else Some (Inr (True, s)))"

section \<open>Segments\<close>

record load_acc =
  entry_inside_load :: bool
  entry_file_offset :: "nat option"
  first_data_page_va :: "u64 option"
  first_bss_check_va :: "u64 option"

definition note_segment :: "u64 \<Rightarrow> phdr \<Rightarrow> load_acc \<Rightarrow> load_acc" where
  "note_segment e_entry ph acc =
     (let inside = e_entry \<ge> p_vaddr ph \<and> e_entry < p_vaddr ph + of_nat (p_memsz ph);
          a1 = (if inside then acc\<lparr>entry_inside_load := True,
                   entry_file_offset := Some (wadd (p_offset ph) (unat (e_entry - p_vaddr ph)))\<rparr> else acc);
          a2 = (if first_data_page_va a1 = None \<and> writable_seg ph
                then a1\<lparr>first_data_page_va := Some (p_vaddr ph AND NOT 0xFFF)\<rparr> else a1)
      in if first_bss_check_va a2 = None \<and> p_memsz ph > p_filesz ph
         then a2\<lparr>first_bss_check_va := Some (p_vaddr ph + of_nat (p_filesz ph))\<rparr> else a2)"

fun load_segments :: "u8 list \<Rightarrow> u64 \<Rightarrow> u64 \<Rightarrow> nat \<Rightarrow> nat \<Rightarrow> nat list \<Rightarrow> load_acc \<Rightarrow> loader \<Rightarrow> (bool \<times> load_acc \<times> loader) halting option" where
  "load_segments elf cr3 e_entry phoff phentsize [] acc s = Some (Done (True, acc, s))"
| "load_segments elf cr3 e_entry phoff phentsize (i # is) acc s =
     (let ph_off = wadd phoff (wmul i phentsize)
      in if length elf < wadd ph_off 56 then load_segments elf cr3 e_entry phoff phentsize is acc s
         else if length elf < ph_off + 56 then Some (Halted ''panic'')
         else let ph = read_phdr elf ph_off
              in if p_type ph \<noteq> PT_LOAD \<or> p_memsz ph = 0 then load_segments elf cr3 e_entry phoff phentsize is acc s
                 else let acc1 = note_segment e_entry ph acc
                      in case load_pages elf cr3 ph (p_vaddr ph AND NOT 0xFFF) (p_offset ph) s of
                           None \<Rightarrow> None
                         | Some (Inl r) \<Rightarrow> Some (Inl r)
                         | Some (Inr (ok, s1)) \<Rightarrow>
                             if \<not> ok then Some (Done (False, acc1, s1))
                             else load_segments elf cr3 e_entry phoff phentsize is acc1 s1)"

text \<open>The final check of the first bytes after the file contents of a segment. The address that is
  read keeps bit 63 of the entry, the no-execute flag; it is then not canonical, and the read is a
  general protection fault.\<close>

definition bss_check :: "u64 \<Rightarrow> u64 option \<Rightarrow> loader \<Rightarrow> unit halting" where
  "bss_check cr3 bss s =
     (case bss of
        None \<Rightarrow> Done ()
      | Some bss_va \<Rightarrow>
          (case walk_pte cr3 bss_va (ld_mmu s) of
             None \<Rightarrow> Done ()
           | Some pte \<Rightarrow>
               (let bss_pa = pte AND NOT 0xFFF; a = bss_pa + of_nat (unat (bss_va AND 0xFFF) div 8 * 8)
                in if bit bss_pa 63 then Halted ''general_protection''
                   else if le_bytes 8 (ld_mem s) (unat a) \<noteq> 0 then Halted ''bss_not_zero'' else Done ())))"

record load_result =
  lr_entry :: u64
  lr_entry_file_offset :: "nat option"
  lr_data_page_va :: "u64 option"
  lr_bss_check_va :: "u64 option"

definition elf_header_ok :: "u8 list \<Rightarrow> bool" where
  "elf_header_ok elf \<longleftrightarrow> length elf \<ge> 64 \<and> take 4 elf = [0x7F, 0x45, 0x4C, 0x46] \<and> elf ! 4 = 2 \<and>
     (elf_field 2 0x10 elf = 2 \<or> elf_field 2 0x10 elf = 3) \<and> elf_field 2 0x12 elf = 0x3E"

definition load_elf :: "u8 list \<Rightarrow> u64 \<Rightarrow> loader \<Rightarrow> (load_result option \<times> loader) halting option" where
  "load_elf elf cr3 s =
     (if \<not> elf_header_ok elf then Some (Done (None, s))
      else let e_entry = of_nat (elf_field 8 0x18 elf)
           in case load_segments elf cr3 e_entry (elf_field 8 0x20 elf) (elf_field 2 0x36 elf)
                  [0..<elf_field 2 0x38 elf]
                  \<lparr>entry_inside_load = False, entry_file_offset = None, first_data_page_va = None, first_bss_check_va = None\<rparr> s of
                None \<Rightarrow> None
              | Some (Inl r) \<Rightarrow> Some (Inl r)
              | Some (Inr (ok, acc, s1)) \<Rightarrow>
                  if \<not> ok then Some (Done (None, s1))
                  else if \<not> entry_inside_load acc then Some (Halted ''user_entry_outside_load_segment'')
                  else (case bss_check cr3 (first_bss_check_va acc) s1 of
                          Inl r \<Rightarrow> Some (Inl r)
                        | Inr _ \<Rightarrow> Some (Done (Some \<lparr>lr_entry = e_entry, lr_entry_file_offset = entry_file_offset acc,
                                     lr_data_page_va = first_data_page_va acc, lr_bss_check_va = first_bss_check_va acc\<rparr>, s1))))"

section \<open>A well-formed segment\<close>

definition page_gap :: "phdr \<Rightarrow> nat" where
  "page_gap ph = unat (p_vaddr ph) mod 4096"

definition seg_base :: "phdr \<Rightarrow> u64" where
  "seg_base ph = p_vaddr ph AND NOT 0xFFF"

definition seg_pages :: "phdr \<Rightarrow> nat" where
  "seg_pages ph = (page_gap ph + p_memsz ph + 4095) div 4096"

definition seg_byte :: "u8 list \<Rightarrow> phdr \<Rightarrow> nat \<Rightarrow> u8" where
  "seg_byte elf ph i = (if i < p_filesz ph then elf ! (p_offset ph + i) else 0)"

definition seg_ok :: "u8 list \<Rightarrow> phdr \<Rightarrow> bool" where
  "seg_ok elf ph \<longleftrightarrow> p_offset ph + p_filesz ph \<le> length elf \<and> length elf < 2 ^ 63 \<and> p_filesz ph \<le> p_memsz ph \<and>
     0 < p_memsz ph \<and> unat (p_vaddr ph) + p_memsz ph \<le> 2 ^ 47 \<and>
     (executable_seg ph \<longrightarrow> p_filesz ph < 16 \<or> page_gap ph + 16 \<le> 4096)"

definition page_filled :: "u8 list \<Rightarrow> phdr \<Rightarrow> nat \<Rightarrow> nat \<Rightarrow> (nat \<Rightarrow> u8) \<Rightarrow> bool" where
  "page_filled elf ph k pa mem \<longleftrightarrow>
     (\<forall>j < 4096. page_gap ph \<le> k * 4096 + j \<longrightarrow> mem (pa + j) = seg_byte elf ph (k * 4096 + j - page_gap ph))"

text \<open>File position before page \<open>k\<close>.\<close>

definition file_pos :: "phdr \<Rightarrow> nat \<Rightarrow> nat" where
  "file_pos ph k = p_offset ph + min (p_filesz ph) (k * 4096 - page_gap ph)"

abbreviation seg_va :: "phdr \<Rightarrow> nat \<Rightarrow> u64" where
  "seg_va ph k \<equiv> seg_base ph + of_nat k * PAGE_SIZE_4K"

lemma and_not_split: "(w AND NOT m) + (w AND m) = (w :: u64)"
proof -
  have "(w AND NOT m) + (w AND m) = (w AND NOT m) OR (w AND m)"
    by (rule disjunctive_add) (auto simp: bit_and_iff bit_not_iff)
  also have "\<dots> = w" by (rule bit_word_eqI) (auto simp: bit_or_iff bit_and_iff bit_not_iff)
  finally show ?thesis .
qed

lemma unat_seg_base: "unat (seg_base ph) = unat (p_vaddr ph) - page_gap ph" "page_gap ph \<le> unat (p_vaddr ph)" "page_gap ph < 4096"
proof -
  have "unat (p_vaddr ph) = unat (p_vaddr ph AND NOT 0xFFF) + unat (p_vaddr ph AND 0xFFF)"
  proof -
    have e: "p_vaddr ph = (p_vaddr ph AND NOT 0xFFF) + (p_vaddr ph AND 0xFFF)" by (rule and_not_split [symmetric])
    have "unat (p_vaddr ph AND NOT 0xFFF) \<le> unat (p_vaddr ph)"
      using word_and_le1 [of "p_vaddr ph" "NOT 0xFFF"] word_le_nat_alt by (metis and.commute word_and_le1)
    then show ?thesis using e by (metis add_diff_cancel_left' le_add_diff_inverse unat_sub word_le_nat_alt)
  qed
  moreover have "unat (p_vaddr ph AND 0xFFF) = page_gap ph"
    unfolding low_masks take_bit_eq_mask [symmetric] unsigned_take_bit_eq page_gap_def by (simp add: take_bit_eq_mod)
  ultimately show "unat (seg_base ph) = unat (p_vaddr ph) - page_gap ph" "page_gap ph \<le> unat (p_vaddr ph)"
    by (simp_all add: seg_base_def)
  show "page_gap ph < 4096" by (simp add: page_gap_def)
qed

lemma seg_pages_bound:
  assumes "seg_ok elf ph"
  shows "unat (seg_base ph) + seg_pages ph * 4096 \<le> 2 ^ 64" "seg_pages ph \<le> 2 ^ 36" "0 < seg_pages ph"
    "k < seg_pages ph \<longleftrightarrow> k * 4096 < page_gap ph + p_memsz ph"
proof -
  let ?x = "page_gap ph + p_memsz ph"
  have b: "unat (p_vaddr ph) + p_memsz ph \<le> 2 ^ 47" "0 < p_memsz ph" using assms by (auto simp: seg_ok_def)
  have sp: "seg_pages ph * 4096 \<le> ?x + 4095" by (simp add: seg_pages_def div_times_less_eq_dividend)
  then have "unat (seg_base ph) + seg_pages ph * 4096 \<le> 2 ^ 47 + 4095" using b unat_seg_base [of ph] by linarith
  then show "unat (seg_base ph) + seg_pages ph * 4096 \<le> 2 ^ 64" by simp
  have "seg_pages ph * 4096 \<le> 2 ^ 48" using sp b unat_seg_base(2,3) [of ph] by simp
  then show "seg_pages ph \<le> 2 ^ 36" by simp
  show "k < seg_pages ph \<longleftrightarrow> k * 4096 < page_gap ph + p_memsz ph" 
    unfolding seg_pages_def using less_eq_div_iff_mult_less_eq [of 4096 "Suc k" "?x + 4095"] by auto
  then show "0 < seg_pages ph" using b(2) unfolding seg_pages_def by simp
qed

lemma unat_seg_va: "seg_ok elf ph \<Longrightarrow> k < seg_pages ph \<Longrightarrow> unat (seg_va ph k) = unat (seg_base ph) + k * 4096"
  by (rule unat_page [OF seg_pages_bound(1)])

lemma seg_end: "seg_ok elf ph \<Longrightarrow> unat (p_vaddr ph + of_nat (p_memsz ph)) = unat (p_vaddr ph) + p_memsz ph"
  by (simp add: seg_ok_def unat_word_ariths unat_of_nat)

lemma page_plan:
  assumes "seg_ok elf ph" "k < seg_pages ph"
  shows "dest_offset ph (seg_va ph k) = (if k = 0 then page_gap ph else 0)"
    "copy_len elf ph (seg_va ph k) (file_pos ph k) =
       min (4096 - (if k = 0 then page_gap ph else 0)) (p_filesz ph - (k * 4096 - page_gap ph))"
    "sadd (file_pos ph k) (copy_len elf ph (seg_va ph k) (file_pos ph k)) = file_pos ph (k + 1)"
proof -
  note g = unat_seg_base [of ph]
  have ok: "p_offset ph + p_filesz ph \<le> length elf" "length elf < 2 ^ 63" using assms(1) by (auto simp: seg_ok_def)
  have "unat (p_vaddr ph) - unat (seg_va ph k) = (if k = 0 then page_gap ph else 0)"
    unfolding unat_seg_va [OF assms] using g by (cases k) auto
  then show d: "dest_offset ph (seg_va ph k) = (if k = 0 then page_gap ph else 0)" by (simp add: dest_offset_def unat_word_ssub)
  have w: "wadd (p_offset ph) (p_filesz ph) = p_offset ph + p_filesz ph" using ok by (intro wadd_nowrap) simp
  have "file_bytes_left elf ph (file_pos ph k) = p_filesz ph - (k * 4096 - page_gap ph)"
    using ok(1) by (auto simp: file_bytes_left_def w file_pos_def Let_def min_def)
  with d show c: "copy_len elf ph (seg_va ph k) (file_pos ph k) =
       min (4096 - (if k = 0 then page_gap ph else 0)) (p_filesz ph - (k * 4096 - page_gap ph))"
    by (simp add: copy_len_def PAGE_SIZE_def)
  have "file_pos ph k + min (4096 - (if k = 0 then page_gap ph else 0)) (p_filesz ph - (k * 4096 - page_gap ph)) = file_pos ph (k + 1)"
    unfolding file_pos_def using g(3) by (cases k) (auto simp: min_def)
  then have "file_pos ph k + copy_len elf ph (seg_va ph k) (file_pos ph k) = file_pos ph (k + 1)" using c by simp
  moreover have "file_pos ph (k + 1) \<le> u64_max" using ok by (simp add: file_pos_def u64_max_def min_def)
  ultimately show "sadd (file_pos ph k) (copy_len elf ph (seg_va ph k) (file_pos ph k)) = file_pos ph (k + 1)"
    by (simp add: sadd_exact)
qed

section \<open>Loading a segment\<close>

text \<open>What the copy and the zeroing leave in the frame of page \<open>k\<close>.\<close>

definition fill :: "u8 list \<Rightarrow> phdr \<Rightarrow> nat \<Rightarrow> nat \<Rightarrow> (nat \<Rightarrow> u8) \<Rightarrow> nat \<Rightarrow> u8" where
  "fill elf ph k pa mem =
     (let dest = dest_offset ph (seg_va ph k); n = copy_len elf ph (seg_va ph k) (file_pos ph k);
          mem1 = copy_bytes (pa + dest) (file_pos ph k) n elf mem
      in if dest + n < PAGE_SIZE then zero_bytes (pa + dest + n) (PAGE_SIZE - (dest + n)) mem1 else mem1)"

lemma fill_page:
  assumes "seg_ok elf ph" "k < seg_pages ph"
  shows "page_filled elf ph k pa (fill elf ph k pa mem)" "a \<notin> {pa..<pa + 4096} \<Longrightarrow> fill elf ph k pa mem a = mem a"
proof -
  let ?d = "if k = 0 then page_gap ph else 0" and ?n = "min (4096 - (if k = 0 then page_gap ph else 0)) (p_filesz ph - (k * 4096 - page_gap ph))"
  note pl = page_plan(1,2) [OF assms] and g = unat_seg_base(3) [of ph]
  have f: "fill elf ph k pa mem a = (if pa + ?d \<le> a \<and> a < pa + ?d + ?n then elf ! (file_pos ph k + (a - (pa + ?d)))
      else if pa + ?d + ?n \<le> a \<and> a < pa + 4096 then 0 else mem a)" for a
    using g unfolding fill_def pl Let_def by (auto simp: copy_bytes_def zero_bytes_def PAGE_SIZE_def)
  show "page_filled elf ph k pa (fill elf ph k pa mem)" unfolding page_filled_def
  proof (intro allI impI)
    fix j assume j: "j < 4096" "page_gap ph \<le> k * 4096 + j"
    let ?i = "k * 4096 + j - page_gap ph"
    have dj: "?d \<le> j" using j(2) by (cases k) auto
    show "fill elf ph k pa mem (pa + j) = seg_byte elf ph ?i"
    proof (cases "?i < p_filesz ph")
      case True
      then have "j < ?d + ?n" using j dj g by (cases k) auto
      moreover have "file_pos ph k + (pa + j - (pa + ?d)) = p_offset ph + ?i"
        using True dj g j by (cases k) (auto simp: file_pos_def)
      ultimately show ?thesis using dj True unfolding f seg_byte_def by auto
    next
      case False
      then have "?d + ?n \<le> j" using j dj g by (cases k) auto
      then show ?thesis using j(1) False unfolding f seg_byte_def by auto
    qed
  qed
  show "fill elf ph k pa mem a = mem a" if "a \<notin> {pa..<pa + 4096}" using that g unfolding f by auto
qed

lemma seg_va_0: "seg_va ph k = p_vaddr ph AND NOT 0xFFF \<Longrightarrow> seg_ok elf ph \<Longrightarrow> k < seg_pages ph \<Longrightarrow> k = 0"
  using unat_seg_va [of elf ph k] by (auto simp: seg_base_def)

lemma text_check_filled:
  assumes "seg_ok elf ph" "k < seg_pages ph" "page_filled elf ph k pa mem"
  shows "text_check elf ph (seg_va ph k) (pa + dest_offset ph (seg_va ph k)) mem = Done ()"
proof (cases "executable_seg ph \<and> seg_va ph k = p_vaddr ph AND NOT 0xFFF \<and> p_filesz ph \<ge> 16")
  case True
  then have k: "k = 0" using seg_va_0 assms(1,2) by blast
  have ok: "p_offset ph + p_filesz ph \<le> length elf" "page_gap ph + 16 \<le> 4096" using True assms(1) by (auto simp: seg_ok_def)
  have "elf ! (p_offset ph + i) = mem (pa + page_gap ph + i)" if "i < 16" for i
  proof -
    have "mem (pa + (page_gap ph + i)) = seg_byte elf ph i"
      using assms(3) [unfolded page_filled_def, rule_format, of "page_gap ph + i"] k ok(2) that by simp
    then show ?thesis using True that by (simp add: seg_byte_def add.assoc)
  qed
  then show ?thesis using ok True k page_plan(1) [OF assms(1,2)] by (simp add: text_check_def list_all_iff)
qed (auto simp: text_check_def)

lemma load_page_fresh:
  assumes "seg_ok elf ph" "k < seg_pages ph" "walk_pte cr3 (seg_va ph k) (ld_mmu s) = None"
    "alloc_frame (ld_buddy s) = Done (Some pa, b1)"
    "map_page_into_space cr3 (seg_va ph k) (of_nat pa) (seg_flags ph) (ld_mmu s) = (True, m1)"
  shows "load_page elf cr3 ph (seg_va ph k) (file_pos ph k) s =
    Done (True, \<lparr>ld_buddy = b1, ld_mmu = m1, ld_mem = fill elf ph k pa (ld_mem s)\<rparr>)"
  using assms(3-5) text_check_filled [OF assms(1,2) fill_page(1) [OF assms(1,2)], of pa "ld_mem s"]
  by (simp add: load_page_def fill_def Let_def)

lemma walk_pte_None_iff: "walk_pte cr3 va m = None \<longleftrightarrow> translate_in_space cr3 va m = None"
  unfolding walk_pte_def translate_in_space_def Let_def by simp

lemma seg_flags_present: "bit (seg_flags ph) 0"
  by (simp add: seg_flags_def Let_def flags_with_def flags_as_u64_def VALID_MASK_def flag_mask.simps bit_or_iff bit_and_iff)

definition loader_ok :: "u64 \<Rightarrow> loader \<Rightarrow> (u64 \<rightharpoonup> nat list) \<Rightarrow> bool" where
  "loader_ok cr3 s P \<longleftrightarrow> buddy_ok (ld_buddy s) \<and> region_fits (ld_buddy s) \<and> wt (ld_mmu s) P \<and>
     P (cr3 AND FRAME_MASK) = Some [] \<and> P 0 = None"

text \<open>Frames of the region are page aligned, so distinct ones do not overlap.\<close>

lemma frames_apart:
  assumes "f mod PAGE_SIZE = 0" "g mod PAGE_SIZE = 0" "f \<noteq> g"
  shows "{f..<f + 4096} \<inter> {g..<g + 4096} = {}"
proof -
  obtain i j where "f = 4096 * i" "g = 4096 * j" using assms(1,2) by (auto simp: PAGE_SIZE_def mod_eq_0_iff_dvd elim!: dvdE)
  with assms(3) show ?thesis by (cases i j rule: linorder_cases) auto
qed

lemma in_segment:
  assumes "seg_ok elf ph" "k \<le> seg_pages ph"
  shows "seg_va ph k < p_vaddr ph + of_nat (p_memsz ph) \<longleftrightarrow> k < seg_pages ph"
proof -
  have b: "unat (p_vaddr ph) + p_memsz ph \<le> 2 ^ 47" using assms(1) by (simp add: seg_ok_def)
  have "seg_pages ph * 4096 \<le> page_gap ph + p_memsz ph + 4095" by (simp add: seg_pages_def div_times_less_eq_dividend)
  then have "unat (seg_base ph) + Suc (seg_pages ph) * 4096 \<le> 2 ^ 64" using b unat_seg_base [of ph] by simp
  from unat_page [OF this] assms(2) have "unat (seg_va ph k) = unat (seg_base ph) + k * 4096" by simp
  then show ?thesis
    unfolding word_less_nat_alt seg_end [OF assms(1)] seg_pages_bound(4) [OF assms(1)] using unat_seg_base [of ph] by linarith
qed

lemma seg_va_Suc: "seg_va ph k + PAGE_SIZE_4K = seg_va ph (Suc k)"
  by (simp add: algebra_simps)

lemma seg_va_paths: "seg_ok elf ph \<Longrightarrow> i < seg_pages ph \<Longrightarrow> j < seg_pages ph \<Longrightarrow> path (seg_va ph i) = path (seg_va ph j) \<Longrightarrow> i = j"
  using pages_distinct [OF seg_pages_bound(1,2)] by blast

lemma load_pages_step:
  assumes "seg_ok elf ph" "k < seg_pages ph" "load_page elf cr3 ph (seg_va ph k) (file_pos ph k) s = Done (True, s1)"
  shows "load_pages elf cr3 ph (seg_va ph k) (file_pos ph k) s = load_pages elf cr3 ph (seg_va ph (Suc k)) (file_pos ph (Suc k)) s1"
proof -
  have va: "seg_va ph k + 4096 = seg_va ph (Suc k)" unfolding seg_va_Suc [symmetric] by (simp add: PAGE_SIZE_4K_def)
  have "load_pages elf cr3 ph (seg_va ph k) (file_pos ph k) s = load_pages elf cr3 ph (seg_va ph k + 4096) (file_pos ph (Suc k)) s1"
    using assms in_segment [of elf ph k] page_plan(3) [OF assms(1,2)] by (subst load_pages.simps) simp
  then show ?thesis unfolding va .
qed

definition segment_loaded :: "u8 list \<Rightarrow> u64 \<Rightarrow> phdr \<Rightarrow> nat \<Rightarrow> nat list \<Rightarrow> loader \<Rightarrow> loader \<Rightarrow> bool" where
  "segment_loaded elf cr3 ph k fs s s' \<longleftrightarrow> distinct fs \<and> set fs \<subseteq> free_frames (ld_buddy s) \<and>
     free_frames (ld_buddy s') = free_frames (ld_buddy s) - set fs \<and> range_mapped cr3 (seg_va ph k) fs (ld_mmu s) (ld_mmu s') \<and>
     (\<forall>i < length fs. page_filled elf ph (k + i) (fs ! i) (ld_mem s')) \<and>
     (\<forall>a. (\<forall>f \<in> set fs. a \<notin> {f..<f + 4096}) \<longrightarrow> ld_mem s' a = ld_mem s a)"

lemma segment_loaded_Nil: "segment_loaded elf cr3 ph k [] s s"
  by (simp add: segment_loaded_def range_mapped_def)

text \<open>The step of the induction: page \<open>k\<close> in frame \<open>pa\<close>, the rest by hypothesis.\<close>

lemma segment_loaded_Cons:
  assumes ok: "seg_ok elf ph" "k + Suc (length fs) = seg_pages ph"
    and page: "page_filled elf ph k pa (ld_mem s1)" "\<And>a. a \<notin> {pa..<pa + 4096} \<Longrightarrow> ld_mem s1 a = ld_mem s a"
    and one: "\<And>u. path u = path (seg_va ph k) \<Longrightarrow> translate_in_space cr3 u (ld_mmu s1) = Some (of_nat pa + (u AND 0xFFF))"
    and other: "\<And>u. path u \<noteq> path (seg_va ph k) \<Longrightarrow> translate_in_space cr3 u (ld_mmu s1) = translate_in_space cr3 u (ld_mmu s)"
    and fr: "pa \<in> free_frames (ld_buddy s)" "free_frames (ld_buddy s1) = free_frames (ld_buddy s) - {pa}"
    and aligned: "\<And>f. f \<in> free_frames (ld_buddy s) \<Longrightarrow> f mod PAGE_SIZE = 0"
    and rest: "segment_loaded elf cr3 ph (Suc k) fs s1 s'"
  shows "segment_loaded elf cr3 ph k (pa # fs) s s'"
proof -
  note r = rest [unfolded segment_loaded_def]
  have ap: "{pa..<pa + 4096} \<inter> {f..<f + 4096} = {}" if "f \<in> set fs" for f
    using that r fr aligned by (intro frames_apart) auto
  have keep: "ld_mem s' a = ld_mem s1 a" if "a \<in> {pa..<pa + 4096}" for a using that ap r by blast
  have "page_filled elf ph k pa (ld_mem s')" using page(1) keep by (simp add: page_filled_def)
  then have "page_filled elf ph (k + i) ((pa # fs) ! i) (ld_mem s')" if "i < Suc (length fs)" for i
    using that r by (cases i) auto
  moreover have "range_mapped cr3 (seg_va ph k) (pa # fs) (ld_mmu s) (ld_mmu s')"
  proof (rule range_mapped_Cons [OF one other])
    show "range_mapped cr3 (seg_va ph k + PAGE_SIZE_4K) fs (ld_mmu s1) (ld_mmu s')" unfolding seg_va_Suc using r by blast
    have k: "k < seg_pages ph" using ok(2) by simp
    have "seg_pages ph * 4096 = k * 4096 + Suc (length fs) * 4096" unfolding ok(2) [symmetric] by (simp add: algebra_simps)
    then show "unat (seg_va ph k) + Suc (length fs) * 4096 \<le> 2 ^ 64"
      using seg_pages_bound(1) [OF ok(1)] unfolding unat_seg_va [OF ok(1) k] by simp
    show "Suc (length fs) \<le> 2 ^ 36" using seg_pages_bound(2) [OF ok(1)] ok(2) by linarith
  qed
  moreover have "ld_mem s' a = ld_mem s a" if "\<forall>f \<in> set (pa # fs). a \<notin> {f..<f + 4096}" for a
    using that r page(2) by (metis list.set_intros)
  ultimately show ?thesis using r fr unfolding segment_loaded_def by auto
qed

lemma load_pages_ok:
  assumes "seg_ok elf ph" "loader_ok cr3 s P" "k + r = seg_pages ph"
    "\<forall>i < r. translate_in_space cr3 (seg_va ph (k + i)) (ld_mmu s) = None"
    "r \<le> card (free_frames (ld_buddy s))" "pt_pool_next (ld_mmu s) + 3 * r \<le> PT_POOL_PAGES"
  shows "\<exists>s' P' fs. load_pages elf cr3 ph (seg_va ph k) (file_pos ph k) s = Some (Done (True, s')) \<and> loader_ok cr3 s' P' \<and>
    length fs = r \<and> segment_loaded elf cr3 ph k fs s s'"
  using assms(2-6)
proof (induction r arbitrary: k s P)
  case 0
  then have "load_pages elf cr3 ph (seg_va ph k) (file_pos ph k) s = Some (Done (True, s))"
    using in_segment [OF assms(1), of k] by (subst load_pages.simps) simp
  then show ?case using "0.prems"(1) segment_loaded_Nil by (intro exI [of _ s] exI [of _ P] exI [of _ "[]"]) simp
next
  case (Suc r)
  have k: "k < seg_pages ph" using Suc.prems(2) by simp
  have lo: "buddy_ok (ld_buddy s)" "region_fits (ld_buddy s)" "wt (ld_mmu s) P" "P (cr3 AND FRAME_MASK) = Some []" "P 0 = None"
    using Suc.prems(1) by (auto simp: loader_ok_def)
  have "free_frames (ld_buddy s) \<noteq> {}" using Suc.prems(4) by force
  with alloc_frame_cases [OF lo(1)] obtain pa b1 where al: "alloc_frame (ld_buddy s) = Done (Some pa, b1)"
    "buddy_ok b1" "same_region (ld_buddy s) b1" "blk (ld_buddy s) 0 pa" "pa \<in> free_frames (ld_buddy s)"
    "free_frames b1 = free_frames (ld_buddy s) - {pa}" by (auto split: option.splits)
  note pab = free_frame_bound [OF lo(1,2) al(4)]
  have "fst (map_page_into_space cr3 (seg_va ph k) (of_nat pa) (seg_flags ph) (ld_mmu s))"
    by (rule map_page_into_space_succeeds [OF lo(3-5)]) (use Suc.prems(5) in simp)
  then obtain m1 where mp: "map_page_into_space cr3 (seg_va ph k) (of_nat pa) (seg_flags ph) (ld_mmu s) = (True, m1)"
    by (metis prod.collapse)
  have fm: "of_nat pa AND FRAME_MASK = (of_nat pa :: u64)" by (rule frame_in_entry [OF pab(2,1)])
  note ef = map_page_into_space_effect [OF lo(3,4) mp]
  have one: "translate_in_space cr3 u m1 = Some (of_nat pa + (u AND 0xFFF))" if "path u = path (seg_va ph k)" for u
    using ef fm seg_flags_present [of ph] that by simp
  have other: "translate_in_space cr3 u m1 = translate_in_space cr3 u (ld_mmu s)" if "path u \<noteq> path (seg_va ph k)" for u
    using ef that lo(4) by simp
  obtain P1 where P1: "wt m1 P1" "P1 (cr3 AND FRAME_MASK) = Some []" "P1 0 = None"
    using map_page_into_space_keeps [OF lo(3,4) mp] lo(5) by auto
  define s1 where "s1 = \<lparr>ld_buddy = b1, ld_mmu = m1, ld_mem = fill elf ph k pa (ld_mem s)\<rparr>"
  have "walk_pte cr3 (seg_va ph k) (ld_mmu s) = None" using Suc.prems(3) walk_pte_None_iff by (metis add_0_right zero_less_Suc)
  from load_page_fresh [OF assms(1) k this al(1) mp]
  have step: "load_pages elf cr3 ph (seg_va ph k) (file_pos ph k) s = load_pages elf cr3 ph (seg_va ph (Suc k)) (file_pos ph (Suc k)) s1"
    by (intro load_pages_step [OF assms(1) k]) (simp add: s1_def)
  have lo1: "loader_ok cr3 s1 P1" using al(2,3) lo(2) P1 by (simp add: s1_def loader_ok_def region_fits_def same_region_def)
  have un: "\<forall>i < r. translate_in_space cr3 (seg_va ph (Suc k + i)) (ld_mmu s1) = None"
  proof (intro allI impI)
    fix i assume i: "i < r"
    then have "path (seg_va ph (Suc k + i)) \<noteq> path (seg_va ph k)"
      using seg_va_paths [OF assms(1) _ k, of "Suc k + i"] Suc.prems(2) by auto
    then show "translate_in_space cr3 (seg_va ph (Suc k + i)) (ld_mmu s1) = None"
      using other [of "seg_va ph (Suc k + i)"] Suc.prems(3) [rule_format, of "Suc i"] i by (simp add: s1_def)
  qed
  have "r \<le> card (free_frames (ld_buddy s1))" using Suc.prems(4) al(5,6) free_frames_finite by (simp add: s1_def)
  moreover have "pt_pool_next (ld_mmu s1) + 3 * r \<le> PT_POOL_PAGES"
    using map_page_into_space_pool [of cr3 "seg_va ph k" "of_nat pa" "seg_flags ph" "ld_mmu s"] Suc.prems(5) by (simp add: mp s1_def)
  ultimately obtain s' P' fs where r: "load_pages elf cr3 ph (seg_va ph (Suc k)) (file_pos ph (Suc k)) s1 = Some (Done (True, s'))"
    "loader_ok cr3 s' P'" "length fs = r" "segment_loaded elf cr3 ph (Suc k) fs s1 s'"
    using Suc.IH [OF lo1 _ un] Suc.prems(2) by auto
  have "segment_loaded elf cr3 ph k (pa # fs) s s'"
  proof (rule segment_loaded_Cons [OF assms(1)])
    show "k + Suc (length fs) = seg_pages ph" using r(3) Suc.prems(2) by simp
    show "f mod PAGE_SIZE = 0" if "f \<in> free_frames (ld_buddy s)" for f
      using that lo(2) by (auto simp: region_fits_def free_frames_def)
  qed (use fill_page [OF assms(1) k] one other al(5,6) r(4) in \<open>simp_all add: s1_def\<close>)
  then show ?case using step r by (intro exI [of _ s'] exI [of _ P'] exI [of _ "pa # fs"]) simp
qed

section \<open>Addresses of a segment\<close>

text \<open>Byte \<open>i\<close> of a segment lies in page \<open>(page_gap ph + i) div 4096\<close>.\<close>

lemma path_page:
  assumes "unat u div 4096 = unat v div 4096"
  shows "path u = path v"
proof -
  have "unat (drop_bit n w) = unat w div 4096 div 2 ^ (n - 12)" if "12 \<le> n" for n and w :: u64
  proof -
    have "unat (drop_bit n w) = unat w div 2 ^ n"
      unfolding unsigned_drop_bit_eq using unsigned_less [of w, where 'a = nat] by (simp add: take_bit_eq_mod drop_bit_eq_div)
    also have "2 ^ n = (2 :: nat) ^ 12 * 2 ^ (n - 12)" using that by (metis le_add_diff_inverse power_add)
    finally show ?thesis by (simp add: div_mult2_eq)
  qed
  then have "drop_bit n u = drop_bit n v" if "12 \<le> n" for n using assms that by (metis unsigned_word_eqI)
  then show ?thesis by (simp add: path_def pml4_index_def pdpt_index_def pd_index_def pt_index_def)
qed

lemma seg_address:
  assumes "seg_ok elf ph" "i < p_memsz ph"
  shows "(page_gap ph + i) div 4096 < seg_pages ph"
    "path (p_vaddr ph + of_nat i) = path (seg_va ph ((page_gap ph + i) div 4096))"
    "unat ((p_vaddr ph + of_nat i) AND 0xFFF) = (page_gap ph + i) mod 4096"
proof -
  let ?u = "p_vaddr ph + of_nat i" and ?k = "(page_gap ph + i) div 4096"
  show k: "?k < seg_pages ph" unfolding seg_pages_bound(4) [OF assms(1)] using assms(2)
    by (metis add_less_cancel_left div_times_less_eq_dividend le_less_trans)
  have "unat ?u = unat (p_vaddr ph) + i" using assms by (simp add: seg_ok_def unat_word_ariths unat_of_nat)
  then have u: "unat ?u = unat (seg_base ph) + (page_gap ph + i)" using unat_seg_base(1,2) [of ph] by simp
  have "unat (seg_base ph) mod 4096 = 0" unfolding unat_seg_base(1) by (simp add: page_gap_def)
  then obtain q where q: "unat (seg_base ph) = 4096 * q" by (metis mod_eq_0_iff_dvd dvdE)
  show "path ?u = path (seg_va ph ?k)" by (rule path_page) (simp add: u unat_seg_va [OF assms(1) k] q)
  have "unat (?u AND 0xFFF) = unat ?u mod 4096"
    unfolding low_masks take_bit_eq_mask [symmetric] unsigned_take_bit_eq by (simp add: take_bit_eq_mod)
  then show "unat (?u AND 0xFFF) = (page_gap ph + i) mod 4096" by (simp add: u q)
qed

lemma unat_frame_offset:
  assumes "f mod PAGE_SIZE = 0" "f < 2 ^ 52" "unat (w :: u64) < 4096"
  shows "unat (of_nat f + w) = f + unat w"
  using assms by (simp add: unat_word_ariths unat_of_nat)

lemma free_frames_bound:
  assumes "region_fits b" "buddy_ok b" "f \<in> free_frames b"
  shows "f mod PAGE_SIZE = 0" "f < 2 ^ 52"
proof -
  obtain p where p: "f = region_start b + p * PAGE_SIZE" "p \<in> free_set b" using assms(3) by (auto simp: free_frames_def)
  then have "p < region_pages b"
    using assms(2) pages_in_region by (fastforce simp: free_set_def free_pages_def buddy_ok_def buddy_inv_def list_ok_def)
  then show "f mod PAGE_SIZE = 0" "f < 2 ^ 52" using p(1) assms(1) by (auto simp: region_fits_def PAGE_SIZE_def)
qed

section \<open>Properties\<close>


text \<open>the loader writes into pages that are already mapped. If the walk finds an entry for the page,
  whatever its flags, the bytes of the file go into the frame of that entry and the entry is kept:
  a program whose segment lies on a kernel page overwrites the kernel.\<close>

theorem mapped_page_is_overwritten:
  assumes "walk_pte cr3 va (ld_mmu s) = Some pte" "dest_offset ph va = 0" "\<not> executable_seg ph"
    "file_off + PAGE_SIZE \<le> p_offset ph + p_filesz ph"
    "p_offset ph + p_filesz ph \<le> length elf" "length elf < 2 ^ 64" "j < PAGE_SIZE"
  shows "\<exists>s'. load_page elf cr3 ph va file_off s = Done (True, s') \<and> ld_mmu s' = ld_mmu s \<and> ld_buddy s' = ld_buddy s \<and>
    ld_mem s' (unat (pte AND FRAME_MASK) + j) = elf ! (file_off + j)"
proof -
  have "wadd (p_offset ph) (p_filesz ph) = p_offset ph + p_filesz ph" using assms(5,6) by (intro wadd_nowrap) simp
  then have "file_bytes_left elf ph file_off \<ge> PAGE_SIZE"
    using assms(4,5) by (auto simp: file_bytes_left_def Let_def PAGE_SIZE_def)
  then have "copy_len elf ph va file_off = PAGE_SIZE" using assms(2) by (simp add: copy_len_def)
  then show ?thesis using assms(1,2,3,7) by (simp add: load_page_def text_check_def copy_bytes_def Let_def)
qed

text \<open>A small file with one data segment of 100 bytes at the load address of user programs.\<close>

definition demo_elf :: "u8 list" where "demo_elf = [1, 2, 3, 4]"

definition demo_phdr :: phdr where
  "demo_phdr = \<lparr>p_type = 1, p_flags = 6, p_offset = 1, p_vaddr = 0xA00010, p_filesz = 3, p_memsz = 100\<rparr>"

definition demo_loader :: loader where
  "demo_loader = \<lparr>ld_buddy = booted, ld_mmu = demo_mmu, ld_mem = (\<lambda>_. 0xFF)\<rparr>"

lemma demo_segment: "seg_ok demo_elf demo_phdr" "seg_pages demo_phdr = 1" "seg_base demo_phdr = 0xA00000"
  by (simp_all add: seg_ok_def demo_elf_def demo_phdr_def page_gap_def seg_pages_def seg_base_def executable_seg_def)

lemma demo_unmapped: "translate_in_space 0x200000 u demo_mmu = None"
  by (simp add: translate_in_space_def demo_mmu_def new_address_space_def alloc_table_page_def mmu_boot_def PT_POOL_PAGES_def
      tget_def tfill_def FRAME_MASK_def flag_mask.simps)


text \<open>A segment that covers a page which the kernel has mapped for itself (without the user flag).\<close>

theorem mapped_page_is_overwritten_witness:
  "\<exists>m s'. walk_pte 0x200000 0xA00000 m = Some 0x1234003 \<and>
     load_page (replicate 4096 7) 0x200000 \<lparr>p_type = 1, p_flags = 6, p_offset = 0, p_vaddr = 0xA00000, p_filesz = 4096, p_memsz = 4096\<rparr>
       0xA00000 0 \<lparr>ld_buddy = booted, ld_mmu = m, ld_mem = (\<lambda>_. 0)\<rparr> = Done (True, s') \<and> ld_mem s' (0x1234000 + 5) = 7"
proof -
  let ?ph = "\<lparr>p_type = 1, p_flags = 6, p_offset = 0, p_vaddr = 0xA00000, p_filesz = 4096, p_memsz = 4096\<rparr> :: phdr"
  define m where "m = demo_mmu\<lparr>tabs := (\<lambda>t i. if t = 0x200000 then 0x201003 else if t = 0x201000 then 0x202003
    else if t = 0x202000 then 0x203003 else 0x1234003)\<rparr>"
  have w: "walk_pte 0x200000 0xA00000 m = Some 0x1234003"
    by (simp add: walk_pte_def m_def tget_def FRAME_MASK_def flag_mask.simps PDPTE_PS_def PDE_PS_def)
  have "\<exists>s'. load_page (replicate 4096 7) 0x200000 ?ph 0xA00000 0 \<lparr>ld_buddy = booted, ld_mmu = m, ld_mem = (\<lambda>_. 0)\<rparr> = Done (True, s') \<and>
    ld_mmu s' = m \<and> ld_buddy s' = booted \<and> ld_mem s' (unat ((0x1234003 :: u64) AND FRAME_MASK) + 5) = replicate 4096 7 ! (0 + 5)"
    using mapped_page_is_overwritten [of "0x200000" "0xA00000" "\<lparr>ld_buddy = booted, ld_mmu = m, ld_mem = (\<lambda>_. 0)\<rparr>" "0x1234003" ?ph 0 "replicate 4096 7" 5] w
    by (simp add: dest_offset_def word_ssub_def executable_seg_def PAGE_SIZE_def)
  then show ?thesis using w by (auto simp: FRAME_MASK_def)
qed

end
