(* ===== verification/Ps2.thy ===== *)
theory Ps2
  imports Console
begin

text \<open>
  The PS/2 keyboard and mouse (\<open>kernel/arch/x86_64/ps2.rs\<close>): two state machines that turn the bytes of
  the controller into the events of the input queues. The controller is outside the model: what the status and
  data ports deliver to a poll is a list of pairs.
\<close>

section \<open>State\<close>

definition OUTPUT_FULL :: u8 where "OUTPUT_FULL = 1"
definition AUX_DATA :: u8 where "AUX_DATA = 0x20"

definition KEY_MOD :: u8 where "KEY_MOD = 10"
definition KEY_SHIFT :: u8 where "KEY_SHIFT = 11"
definition KEY_CTRL :: u8 where "KEY_CTRL = 12"
definition KEY_ALT :: u8 where "KEY_ALT = 13"

record ps2 =
  EXTENDED :: bool
  MOD_BITS :: u8
  MOUSE_STATE :: nat
  MOUSE_BYTES :: "u8 list"

definition ps2_boot :: ps2 where
  "ps2_boot = \<lparr>EXTENDED = False, MOD_BITS = 0, MOUSE_STATE = 0, MOUSE_BYTES = [0, 0, 0]\<rparr>"

section \<open>The mouse\<close>

text \<open>Nine-bit two's complement: eight bits in their own byte, the sign in the flags.\<close>

definition sign_extend9 :: "bool \<Rightarrow> u8 \<Rightarrow> u16" where
  "sign_extend9 neg b = (let raw = ucast b in if neg then raw OR NOT 0xFF else raw)"

definition mouse_packet :: "u8 list \<Rightarrow> mouse_event" where
  "mouse_packet bs =
     (let flags = bs ! 0
      in \<lparr>dx = sign_extend9 (flags AND 0x10 \<noteq> 0) (bs ! 1), dy = - sign_extend9 (flags AND 0x20 \<noteq> 0) (bs ! 2),
          buttons = flags AND 7\<rparr>)"

definition process_mouse_byte :: "u8 \<Rightarrow> ps2 \<times> input_state \<Rightarrow> ps2 \<times> input_state" where
  "process_mouse_byte b s =
     (case s of (p, q) \<Rightarrow>
       (let state = MOUSE_STATE p;
            bs = (MOUSE_BYTES p)[state := b];
            p1 = p\<lparr>MOUSE_BYTES := bs\<rparr>
        in if state = 2 then
             (p1\<lparr>MOUSE_STATE := 0\<rparr>, if bs ! 0 AND 8 \<noteq> 0 then push_mouse_event (mouse_packet bs) q else q)
           else (p1\<lparr>MOUSE_STATE := state + 1\<rparr>, q)))"

section \<open>The keyboard\<close>

text \<open>Scan code set 1 and the codes of \<open>libs::keycodes\<close>, as in the two \<open>match\<close> tables.\<close>

definition extended_codes :: "(u8 \<times> u8) list" where
  "extended_codes = [(0x48, 3), (0x50, 4), (0x4B, 1), (0x4D, 2), (0x5B, 10), (0x5C, 10), (0x1C, 5), (0x35, 60)]"

definition base_codes :: "(u8 \<times> u8) list" where
  "base_codes =
     [(0x01, 6), (0x02, 20), (0x03, 21), (0x04, 22), (0x05, 23), (0x06, 24), (0x07, 25), (0x08, 26), (0x09, 27),
      (0x0A, 28), (0x0B, 29), (0x0C, 56), (0x0D, 57), (0x0E, 7), (0x0F, 8), (0x10, 46), (0x11, 52), (0x12, 34),
      (0x13, 47), (0x14, 49), (0x15, 54), (0x16, 50), (0x17, 38), (0x18, 44), (0x19, 45), (0x1A, 63), (0x1B, 64),
      (0x1C, 5), (0x1D, 12), (0x1E, 30), (0x1F, 48), (0x20, 33), (0x21, 35), (0x22, 36), (0x23, 37), (0x24, 39),
      (0x25, 40), (0x26, 41), (0x27, 61), (0x28, 62), (0x29, 66), (0x2A, 11), (0x2B, 65), (0x2C, 55), (0x2D, 53),
      (0x2E, 32), (0x2F, 51), (0x30, 31), (0x31, 43), (0x32, 42), (0x33, 58), (0x34, 59), (0x35, 60), (0x36, 11),
      (0x38, 13), (0x39, 9), (0x3B, 70), (0x3C, 71), (0x3D, 72), (0x3E, 73), (0x3F, 74), (0x40, 75), (0x41, 76),
      (0x42, 77), (0x43, 78), (0x44, 79), (0x57, 80), (0x58, 81)]"

definition keycode_of :: "bool \<Rightarrow> u8 \<Rightarrow> u8" where
  "keycode_of extended sc_base =
     (case map_of (if extended then extended_codes else base_codes) sc_base of None \<Rightarrow> 0 | Some k \<Rightarrow> k)"

definition mod_bit :: "u8 \<Rightarrow> u8" where
  "mod_bit k = (if k = KEY_SHIFT then 1 else if k = KEY_CTRL then 2 else if k = KEY_ALT then 4 else if k = KEY_MOD then 8 else 0)"

definition process_scancode :: "u8 \<Rightarrow> ps2 \<times> input_state \<Rightarrow> ps2 \<times> input_state" where
  "process_scancode sc s =
     (case s of (p, q) \<Rightarrow>
       if sc = 0xE0 then (p\<lparr>EXTENDED := True\<rparr>, q)
       else let p1 = p\<lparr>EXTENDED := False\<rparr>;
                down = (sc AND 0x80 = 0);
                k = keycode_of (EXTENDED p) (sc AND 0x7F)
            in if k = 0 then (p1, q)
               else (p1\<lparr>MOD_BITS := (if down then MOD_BITS p OR mod_bit k else MOD_BITS p AND NOT (mod_bit k))\<rparr>,
                     push_event \<lparr>keycode = k, pressed = down\<rparr> q))"

section \<open>Polling\<close>

text \<open>At most 64 bytes per poll; the loop ends at the first status without data.\<close>

fun poll_ports :: "nat \<Rightarrow> (u8 \<times> u8) list \<Rightarrow> ps2 \<times> input_state \<Rightarrow> ps2 \<times> input_state" where
  "poll_ports 0 ports s = s"
| "poll_ports (Suc n) [] s = s"
| "poll_ports (Suc n) ((status, byte) # ports) s =
     (if status AND OUTPUT_FULL = 0 then s
      else poll_ports n ports (if status AND AUX_DATA \<noteq> 0 then process_mouse_byte byte s else process_scancode byte s))"

definition poll_and_push :: "(u8 \<times> u8) list \<Rightarrow> ps2 \<times> input_state \<Rightarrow> ps2 \<times> input_state" where
  "poll_and_push ports s = poll_ports 64 ports s"

section \<open>Invariant\<close>

definition ps2_inv :: "ps2 \<times> input_state \<Rightarrow> bool" where
  "ps2_inv s \<longleftrightarrow> length (MOUSE_BYTES (fst s)) = 3 \<and> MOUSE_STATE (fst s) < 3 \<and> input_inv (snd s)"

lemma ps2_boot_inv [inv_intros]: "ps2_inv (ps2_boot, input_init)"
  by (simp add: ps2_inv_def ps2_boot_def inv_intros)

lemma process_mouse_byte_inv [inv_intros]: "ps2_inv s \<Longrightarrow> ps2_inv (process_mouse_byte b s)"
  by (auto simp: ps2_inv_def process_mouse_byte_def Let_def inv_intros split: prod.splits)

lemma process_scancode_inv [inv_intros]: "ps2_inv s \<Longrightarrow> ps2_inv (process_scancode b s)"
  by (auto simp: ps2_inv_def process_scancode_def Let_def inv_intros split: prod.splits)

lemma poll_ports_inv [inv_intros]: "ps2_inv s \<Longrightarrow> ps2_inv (poll_ports n ports s)"
  by (induction n ports s rule: poll_ports.induct) (auto simp: inv_intros)

section \<open>Motions\<close>

text \<open>What the mouse sends for a motion: its three bytes.\<close>

definition motion_packet :: "int \<Rightarrow> int \<Rightarrow> u8 \<Rightarrow> u8 list" where
  "motion_packet x y btn =
     [btn OR 8 OR (if x < 0 then 0x10 else 0) OR (if y < 0 then 0x20 else 0), word_of_int x, word_of_int y]"

lemma sign_extend9_eq:
  assumes "- 256 \<le> v" "v < 256"
  shows "sign_extend9 (v < 0) (word_of_int v) = word_of_int v"
proof -
  have low8: "(0xFF :: u16) = mask 8" by (simp add: mask_eq_exp_minus_1)
  show ?thesis
  proof (rule bit_word_eqI)
    fix n assume n: "n < LENGTH(16)"
    have hi: "bit v n \<longleftrightarrow> v < 0" if "8 \<le> n"
    proof (cases "v < 0")
      case True
      then have "NOT v < 2 ^ n" "0 \<le> NOT v" using assms power_increasing [OF that, of "2 :: int"] by (simp_all add: not_int_def)
      then have "\<not> bit (NOT v) n" by (metis bit_take_bit_iff less_irrefl take_bit_int_eq_self)
      then show ?thesis using True by (simp add: bit_not_int_iff)
    next
      case False
      then have "v < 2 ^ n" "0 \<le> v" using assms power_increasing [OF that, of "2 :: int"] by simp_all
      then have "\<not> bit v n" by (metis bit_take_bit_iff less_irrefl take_bit_int_eq_self)
      then show ?thesis using False by simp
    qed
    show "bit (sign_extend9 (v < 0) (word_of_int v)) n \<longleftrightarrow> bit (word_of_int v :: u16) n"
      using n hi by (cases "n < 8") (auto simp: sign_extend9_def Let_def bit_simps low8)
  qed
qed

lemma sint_motion: "- 256 \<le> v \<Longrightarrow> v \<le> 256 \<Longrightarrow> sint (word_of_int v :: u16) = v"
  by (simp add: sint_sbintrunc' signed_take_bit_int_eq_self)

lemma flag_bits: "(8 :: u8) = 2 ^ 3" "(0x10 :: u8) = 2 ^ 4" "(0x20 :: u8) = 2 ^ 5" "(7 :: u8) = mask 3"
  by (simp_all add: mask_eq_exp_minus_1)

lemma bit_flags: "bit (8 :: u8) n \<longleftrightarrow> n = 3" "bit (0x10 :: u8) n \<longleftrightarrow> n = 4" "bit (0x20 :: u8) n \<longleftrightarrow> n = 5"
  unfolding flag_bits bit_power2_word by auto

lemma bit_small_byte:
  assumes "unat (b :: u8) < 8" "bit b n"
  shows "n < 3"
proof -
  have "take_bit 3 b = b" using assms(1) by (simp add: word_unat_eq_iff unsigned_take_bit_eq take_bit_nat_eq_self)
  then show ?thesis using assms(2) by (metis bit_take_bit_iff)
qed

text \<open>The three bytes decode to the motion; the screen's vertical axis points the other way.\<close>

lemma motion_decoded:
  assumes "- 256 \<le> x" "x < 256" "- 256 \<le> y" "y < 256" "unat btn < 8"
  shows "motion_packet x y btn ! 0 AND 8 \<noteq> 0"
    "mouse_packet (motion_packet x y btn) = \<lparr>dx = word_of_int x, dy = - word_of_int y, buttons = btn\<rparr>"
proof -
  let ?f = "motion_packet x y btn ! 0"
  have b: "\<not> bit btn 3" "\<not> bit btn 4" "\<not> bit btn 5" using bit_small_byte [OF assms(5)] by fastforce+
  have f: "bit ?f 3" "bit ?f 4 \<longleftrightarrow> x < 0" "bit ?f 5 \<longleftrightarrow> y < 0"
    using b unfolding motion_packet_def flag_bits by (simp_all add: bit_simps)
  have lo: "?f AND 7 = btn"
  proof (rule bit_word_eqI)
    fix n assume "n < LENGTH(8)"
    show "bit (?f AND 7) n \<longleftrightarrow> bit btn n"
      using bit_small_byte [OF assms(5), of n] unfolding motion_packet_def flag_bits(4)
      by (auto simp: bit_and_iff bit_or_iff bit_mask_iff bit_flags simp del: bit_numeral_word_iff)
  qed
  show "?f AND 8 \<noteq> 0" unfolding flag_bits and_power2_eq_0_iff using f(1) by simp
  have n: "?f AND 0x10 \<noteq> 0 \<longleftrightarrow> x < 0" "?f AND 0x20 \<noteq> 0 \<longleftrightarrow> y < 0"
    unfolding flag_bits and_power2_eq_0_iff using f by simp_all
  show "mouse_packet (motion_packet x y btn) = \<lparr>dx = word_of_int x, dy = - word_of_int y, buttons = btn\<rparr>"
    using sign_extend9_eq [OF assms(1,2)] sign_extend9_eq [OF assms(3,4)] lo n
    by (simp add: mouse_packet_def Let_def) (simp add: motion_packet_def)
qed

abbreviation feed_mouse :: "u8 list \<Rightarrow> ps2 \<times> input_state \<Rightarrow> ps2 \<times> input_state" where
  "feed_mouse bs s \<equiv> fold process_mouse_byte bs s"

text \<open>Three bytes from the start of a packet: the packet is complete.\<close>

lemma feed_packet:
  assumes "MOUSE_STATE p = 0" "length (MOUSE_BYTES p) = 3"
  shows "feed_mouse [a, b, c] (p, q) =
    (p\<lparr>MOUSE_BYTES := [a, b, c]\<rparr>, if a AND 8 \<noteq> 0 then push_mouse_event (mouse_packet [a, b, c]) q else q)"
proof -
  obtain u v w where "MOUSE_BYTES p = [u, v, w]" using assms(2) by (auto simp: length_Suc_conv numeral_3_eq_3)
  then show ?thesis using assms(1) by (cases p) (simp add: process_mouse_byte_def Let_def)
qed

lemma push_mouse_event_mice:
  assumes "input_inv q" "length (mice q) < 63"
  shows "mice (push_mouse_event ev q) = mice q @ [ev]"
proof -
  have "fst (gap_push QUEUE_SIZE ev (mouse_queue q)) \<and>
      gap_contents QUEUE_SIZE (snd (gap_push QUEUE_SIZE ev (mouse_queue q))) = mice q @ [ev]"
    using assms by (intro keyq.push_room) (auto simp: input_inv_def QUEUE_SIZE_def)
  then show ?thesis by (simp add: push_mouse_event_def split_beta Let_def)
qed

definition motion_ok :: "int \<times> int \<times> u8 \<Rightarrow> bool" where
  "motion_ok m = (case m of (x, y, btn) \<Rightarrow> - 256 \<le> x \<and> x < 256 \<and> - 256 \<le> y \<and> y < 256 \<and> unat btn < 8)"

definition motion_of :: "mouse_event \<Rightarrow> int \<times> int \<times> u8" where
  "motion_of e = (sint (dx e), - sint (dy e), buttons e)"

lemma feed_motions:
  assumes "ps2_inv (p, q)" "MOUSE_STATE p = 0" "\<forall>m \<in> set ms. motion_ok m" "length (mice q) + length ms \<le> 63"
  shows "\<exists>p' q'. feed_mouse (concat (map (\<lambda>(x, y, btn). motion_packet x y btn) ms)) (p, q) = (p', q') \<and>
    ps2_inv (p', q') \<and> MOUSE_STATE p' = 0 \<and> map motion_of (mice q') = map motion_of (mice q) @ ms"
  using assms
proof (induction ms arbitrary: p q)
  case (Cons m ms)
  obtain x y btn where m: "m = (x, y, btn)" by (cases m)
  have ok: "- 256 \<le> x" "x < 256" "- 256 \<le> y" "y < 256" "unat btn < 8" using Cons.prems(3) by (simp_all add: m motion_ok_def)
  note d = motion_decoded [OF ok]
  let ?e = "\<lparr>dx = word_of_int x, dy = - word_of_int y, buttons = btn\<rparr> :: mouse_event"
  have inv: "input_inv q" "length (MOUSE_BYTES p) = 3" using Cons.prems(1) by (simp_all add: ps2_inv_def)
  let ?p = "p\<lparr>MOUSE_BYTES := motion_packet x y btn\<rparr>" and ?q = "push_mouse_event ?e q"
  have step: "feed_mouse (motion_packet x y btn) (p, q) = (?p, ?q)"
    using feed_packet [OF Cons.prems(2) inv(2)] d unfolding motion_packet_def by simp
  have "sint (- word_of_int y :: u16) = - y" using sint_motion [of "- y"] ok by simp
  then have e: "motion_of ?e = (x, y, btn)" using sint_motion [of x] ok by (simp add: motion_of_def)
  have q: "mice ?q = mice q @ [?e]" using push_mouse_event_mice [OF inv(1)] Cons.prems(4) by simp
  have i: "ps2_inv (?p, ?q)" using Cons.prems(1,2) by (simp add: ps2_inv_def motion_packet_def inv_intros)
  have s: "MOUSE_STATE ?p = 0" "\<forall>m \<in> set ms. motion_ok m" "length (mice ?q) + length ms \<le> 63"
    using Cons.prems by (simp_all add: q)
  show ?case using Cons.IH [OF i s] step q e by (simp add: m)
qed simp

text \<open>Whatever the mouse does arrives as it was made: as long as the queue has room, the packets of any sequence
  of motions (nine-bit displacements and three buttons), fed byte by byte from a packet boundary, append exactly these
  motions to the queue in order, the vertical axis turned around, and end at a packet boundary.\<close>

theorem motions_arrive:
  assumes "ps2_inv (p, q)" "MOUSE_STATE p = 0" "\<forall>m \<in> set ms. motion_ok m" "length (mice q) + length ms \<le> 63"
  shows "\<exists>p' q'. feed_mouse (concat (map (\<lambda>(x, y, btn). motion_packet x y btn) ms)) (p, q) = (p', q') \<and>
    MOUSE_STATE p' = 0 \<and> map motion_of (mice q') = map motion_of (mice q) @ ms"
  using feed_motions [OF assms] by blast

theorem motions_arrive_witness:
  "\<exists>p' q'. feed_mouse [0x19, 0xFF, 5, 0x28, 3, 0x9C] (ps2_boot, input_init) = (p', q') \<and>
     map motion_of (mice q') = [(- 1, 5, 1), (3, - 100, 0)]"
proof -
  have "concat (map (\<lambda>(x, y, btn). motion_packet x y btn) [(- 1, 5, 1), (3, - 100, 0)]) = [0x19, 0xFF, 5, 0x28, 3, 0x9C]"
    by code_simp
  moreover have "mice input_init = []" by (simp add: input_init_def QUEUE_SIZE_def)
  ultimately show ?thesis
    using motions_arrive [OF ps2_boot_inv, of "[(- 1, 5, 1), (3, - 100, 0)]"] by (auto simp: ps2_boot_def motion_ok_def)
qed

text \<open>A byte lost on the way is never made up for: three bytes are always taken together, so the packets of a still
  mouse, shifted by one byte, are all dropped.\<close>

theorem lost_byte_is_never_recovered:
  assumes "MOUSE_STATE p = 0" "length (MOUSE_BYTES p) = 3"
  shows "snd (feed_mouse (concat (replicate n [0, 0, 8])) (p, q)) = q"
  using assms
proof (induction n arbitrary: p)
  case (Suc n)
  have "feed_mouse [0, 0, 8] (p, q) = (p\<lparr>MOUSE_BYTES := [0, 0, 8]\<rparr>, q)" using feed_packet [OF Suc.prems, of 0 0 8 q] by simp
  then show ?case using Suc.IH [of "p\<lparr>MOUSE_BYTES := [0, 0, 8]\<rparr>"] Suc.prems by simp
qed simp

end
