(* ===== verification/Framebuffer.thy ===== *)
theory Framebuffer
  imports Paging
begin

text \<open>
  The linear framebuffer (\<open>kernel/drivers/framebuffer.rs\<close>): fills and copies of rectangles of 32-bit
  pixels. Memory is a function from addresses to bytes, as the running address space shows it; a row is
  copied at once, as \<open>copy_nonoverlapping\<close> does. Rust's \<open>u32\<close> arithmetic wraps (the release profile),
  an out-of-range slice panics.
\<close>

section \<open>Memory\<close>

type_synonym memory = "nat \<Rightarrow> u8"

definition copy_mem :: "nat \<Rightarrow> nat \<Rightarrow> nat \<Rightarrow> memory \<Rightarrow> memory" where
  "copy_mem dst src n mem = (\<lambda>a. if dst \<le> a \<and> a < dst + n then mem (src + (a - dst)) else mem a)"

definition byte_of :: "u32 \<Rightarrow> nat \<Rightarrow> u8" where
  "byte_of c k = ucast (drop_bit (8 * k) c)"

definition store32 :: "nat \<Rightarrow> u32 \<Rightarrow> memory \<Rightarrow> memory" where
  "store32 p c mem = (\<lambda>a. if p \<le> a \<and> a < p + 4 then byte_of c (a - p) else mem a)"

definition load32 :: "nat \<Rightarrow> memory \<Rightarrow> u32" where
  "load32 p mem = of_nat (le_bytes 4 mem p)"

section \<open>Fills and copies in RAM\<close>

definition fill_row :: "nat \<Rightarrow> nat \<Rightarrow> u32 \<Rightarrow> memory \<Rightarrow> memory" where
  "fill_row row_ptr w color = fold (\<lambda>col. store32 (row_ptr + col * 4) color) [0..<w]"

definition fill_rect_ram :: "nat \<Rightarrow> u32 \<Rightarrow> u32 \<Rightarrow> u32 \<Rightarrow> u32 \<Rightarrow> u32 \<Rightarrow> u32 \<Rightarrow> u32 \<Rightarrow> u32 \<Rightarrow> memory \<Rightarrow> memory" where
  "fill_rect_ram dst dst_stride dst_w dst_h x y w h color mem =
     (if dst = 0 \<or> w = 0 \<or> h = 0 then mem
      else if x \<ge> dst_w \<or> y \<ge> dst_h then mem
      else let w' = min w (dst_w - x);
               h' = min h (dst_h - y)
           in fold (\<lambda>row. fill_row (dst + (unat y + row) * unat dst_stride + unat x * 4) (unat w') color)
                [0..<unat h'] mem)"

definition blit_ram :: "nat \<Rightarrow> u32 \<Rightarrow> u32 \<Rightarrow> u32 \<Rightarrow> u32 \<Rightarrow> u32 \<Rightarrow> nat \<Rightarrow> u32 \<Rightarrow> u32 \<Rightarrow> u32 \<Rightarrow> memory \<Rightarrow> memory" where
  "blit_ram dst dst_x dst_y dst_stride dst_w dst_h src src_stride w h mem =
     (if dst = 0 \<or> src = 0 \<or> w = 0 \<or> h = 0 then mem
      else if dst_x \<ge> dst_w \<or> dst_y \<ge> dst_h then mem
      else let w' = min w (dst_w - dst_x);
               h' = min h (dst_h - dst_y);
               row_bytes = unat w' * 4
           in fold (\<lambda>row. copy_mem (dst + (unat dst_y + row) * unat dst_stride + unat dst_x * 4)
                              (src + row * unat src_stride) row_bytes)
                [0..<unat h'] mem)"

section \<open>The hardware framebuffer\<close>

definition FB_WIDTH :: u32 where "FB_WIDTH = 1920"
definition FB_HEIGHT :: u32 where "FB_HEIGHT = 1080"

record fb_info =
  base_virt :: nat
  fb_bytes :: nat
  fb_width :: u32
  fb_height :: u32
  fb_stride :: u32
  fb_bpp :: u32

text \<open>The pages \<open>init_from_boot_info\<close> maps: from the framebuffer's first page to its rounded-up end.\<close>

definition fb_pages :: "u64 \<Rightarrow> u64 \<Rightarrow> u64 list" where
  "fb_pages fb_phys nbytes =
     (let start = fb_phys AND NOT (PAGE_SIZE_4K - 1);
          stop = (fb_phys + nbytes + PAGE_SIZE_4K - 1) AND NOT (PAGE_SIZE_4K - 1)
      in map (\<lambda>k. start + of_nat k * PAGE_SIZE_4K) [0..<(unat stop - unat start) div 4096])"

fun map_identity_all :: "u64 list \<Rightarrow> mmu \<Rightarrow> bool \<times> mmu" where
  "map_identity_all [] m = (True, m)"
| "map_identity_all (pa # pas) m =
     (case map_page pa pa (flags_as_u64 kernel_rw) m of
        (False, m1) \<Rightarrow> (False, m1)
      | (True, m1) \<Rightarrow> map_identity_all pas m1)"

definition fb_init :: "u64 \<Rightarrow> u64 \<Rightarrow> u32 \<Rightarrow> u32 \<Rightarrow> u32 \<Rightarrow> u32 \<Rightarrow> fb_info option \<Rightarrow> mmu \<Rightarrow> bool \<times> fb_info option \<times> mmu" where
  "fb_init fb_base nbytes width height stride bpp info m =
     (if fb_base = 0 \<or> nbytes = 0 then (False, info, m)
      else case map_identity_all (fb_pages fb_base nbytes) m of
             (False, m1) \<Rightarrow> (False, info, m1)
           | (True, m1) \<Rightarrow>
               (True, Some \<lparr>base_virt = unat fb_base, fb_bytes = unat nbytes, fb_width = width,
                            fb_height = height, fb_stride = stride, fb_bpp = bpp\<rparr>, m1))"

definition dimensions :: "fb_info option \<Rightarrow> (u32 \<times> u32 \<times> u32) option" where
  "dimensions info = map_option (\<lambda>i. (fb_width i, fb_height i, fb_stride i * 4)) info"

definition fb_clear :: "u32 \<Rightarrow> fb_info option \<Rightarrow> memory \<Rightarrow> memory" where
  "fb_clear color info mem =
     (case info of
        None \<Rightarrow> mem
      | Some i \<Rightarrow>
          if base_virt i = 0 \<or> fb_bpp i \<noteq> 32 \<or> fb_bytes i = 0 then mem
          else if fb_stride i = 0 \<or> fb_width i = 0 \<or> fb_height i = 0 then mem
          else fill_row (base_virt i) (fb_bytes i div 4) color mem)"

text \<open>One row is prepared in a stack buffer of 1920 pixels; \<open>row_buf[..rw]\<close> panics beyond it.\<close>

definition fb_fill_rect :: "u32 \<Rightarrow> u32 \<Rightarrow> u32 \<Rightarrow> u32 \<Rightarrow> u32 \<Rightarrow> fb_info option \<Rightarrow> memory \<Rightarrow> memory halting" where
  "fb_fill_rect x y w h color info mem =
     (case info of
        None \<Rightarrow> Done mem
      | Some i \<Rightarrow>
          if base_virt i = 0 \<or> fb_bpp i \<noteq> 32 \<or> w = 0 \<or> h = 0 then Done mem
          else if fb_stride i = 0 \<or> fb_width i = 0 \<or> fb_height i = 0 then Done mem
          else if x \<ge> fb_width i \<or> y \<ge> fb_height i then Done mem
          else let w0 = (if x + w > fb_width i then fb_width i - x else w);
                   h0 = (if y + h > fb_height i then fb_height i - y else h)
               in if unat w0 > 1920 then Halted ''range end index out of range''
                  else Done (fold (\<lambda>row. fill_row (base_virt i + ((unat y + row) * unat (fb_stride i) + unat x) * 4)
                                           (unat w0) color) [0..<unat h0] mem))"

definition fb_blit :: "u32 \<Rightarrow> u32 \<Rightarrow> u32 \<Rightarrow> u32 \<Rightarrow> u32 \<Rightarrow> nat \<Rightarrow> fb_info option \<Rightarrow> memory \<Rightarrow> memory" where
  "fb_blit dst_x dst_y w h src_stride src info mem =
     (case info of
        None \<Rightarrow> mem
      | Some i \<Rightarrow>
          if base_virt i = 0 \<or> fb_bpp i \<noteq> 32 \<or> src = 0 then mem
          else let w' = min w (word_ssub (fb_width i) dst_x);
                   h' = min h (word_ssub (fb_height i) dst_y)
               in if w' = 0 \<or> h' = 0 then mem
                  else fold (\<lambda>row. copy_mem (base_virt i + ((unat dst_y + row) * unat (fb_stride i) + unat dst_x) * 4)
                                      (src + row * (unat src_stride div 4) * 4) (unat w' * 4))
                         [0..<unat h'] mem)"

text \<open>The colour of row \<open>row\<close> of the gradient band.\<close>

definition band_color :: "u32 \<Rightarrow> u32 \<Rightarrow> u32" where
  "band_color band_h row =
     (let t = row * 255 div max band_h 1 in 0xFF000000 OR push_bit 16 (255 - t) OR t)"

definition draw_test_pattern :: "fb_info option \<Rightarrow> memory \<Rightarrow> memory halting" where
  "draw_test_pattern info mem =
     (case info of
        None \<Rightarrow> Done mem
      | Some i \<Rightarrow>
          if base_virt i = 0 \<or> fb_bpp i \<noteq> 32 \<or> fb_width i = 0 \<or> fb_height i = 0 then Done mem
          else let band_h = min 80 (fb_height i);
                   rw = min 200 (word_ssub (fb_width i) 40);
                   rh = min 120 (word_ssub (fb_height i) 40);
                   rx = word_ssub (fb_width i div 2) (rw div 2);
                   ry = word_ssub (fb_height i div 2) (rh div 2)
               in bind_halt
                    (fold (\<lambda>row r. bind_halt r (fb_fill_rect 0 (of_nat row) (fb_width i) 1 (band_color band_h (of_nat row)) info))
                       [0..<unat band_h] (Done (fb_clear 0xFF0000FF info mem)))
                    (fb_fill_rect rx ry rw rh 0xFF00FF00 info))"

section \<open>Rows of a buffer\<close>

text \<open>The reference for every loop over rows: of the buffer at \<open>dst\<close> with rows of \<open>s\<close> bytes, byte \<open>c\<close> of
  row \<open>r\<close> becomes \<open>g (r - y) (c - x)\<close> when it lies in rows \<open>y ..< y + n\<close> and columns \<open>x ..< x + len\<close>.\<close>

definition paint :: "nat \<Rightarrow> nat \<Rightarrow> nat \<Rightarrow> nat \<Rightarrow> nat \<Rightarrow> (nat \<Rightarrow> nat \<Rightarrow> u8) \<Rightarrow> nat \<Rightarrow> memory \<Rightarrow> memory" where
  "paint dst s x len y g n mem =
     (\<lambda>a. let r = (a - dst) div s; c = (a - dst) mod s
          in if dst \<le> a \<and> y \<le> r \<and> r < y + n \<and> x \<le> c \<and> c < x + len then g (r - y) (c - x) else mem a)"

lemma in_row:
  fixes a :: nat
  assumes "x + len \<le> s"
  shows "dst + R * s + x \<le> a \<and> a < dst + R * s + x + len \<longleftrightarrow>
    dst \<le> a \<and> (a - dst) div s = R \<and> x \<le> (a - dst) mod s \<and> (a - dst) mod s < x + len" (is "?L = ?R")
proof
  assume ?L
  then obtain k where k: "a = dst + R * s + (x + k)" "k < len"
    by (metis add.assoc le_Suc_ex nat_add_left_cancel_less)
  then have "a - dst = (x + k) + R * s" "x + k < s" using assms by auto
  then have "(a - dst) div s = R" "(a - dst) mod s = x + k" by simp_all
  then show ?R using k by simp
next
  assume R: ?R
  then have "a = dst + (R * s + (a - dst) mod s)" using div_mult_mod_eq [of "a - dst" s] by simp
  then show ?L using R by linarith
qed

lemma paint_Suc:
  assumes "x + len \<le> s"
  shows "paint dst s x len y g (Suc n) mem =
    (\<lambda>a. if dst + (y + n) * s + x \<le> a \<and> a < dst + (y + n) * s + x + len
         then g n (a - (dst + (y + n) * s + x)) else paint dst s x len y g n mem a)"
proof (rule ext, goal_cases)
  case (1 a)
  have off: "a - (dst + (y + n) * s + x) = (a - dst) mod s - x" if "(a - dst) div s = y + n"
    using that div_mult_mod_eq [of "a - dst" s] by simp
  show ?case unfolding in_row [OF assms] using off by (auto simp: paint_def Let_def)
qed

lemma paint_0 [simp]: "paint dst s x len y g 0 mem = mem"
  by (rule ext) (auto simp: paint_def Let_def)

lemma fold_rows:
  assumes "x + len \<le> s"
    and "\<And>row m. f row m = (\<lambda>a. if dst + (y + row) * s + x \<le> a \<and> a < dst + (y + row) * s + x + len
       then g row (a - (dst + (y + row) * s + x)) else m a)"
  shows "fold f [0..<n] mem = paint dst s x len y g n mem"
proof (induction n)
  case (Suc n)
  have "fold f [0..<Suc n] mem = f n (paint dst s x len y g n mem)" using Suc.IH by simp
  then show ?case unfolding assms(2) [of n "paint dst s x len y g n mem"] paint_Suc [OF assms(1)] .
qed simp

lemma fill_row_eq:
  "fill_row p w color mem = (\<lambda>a. if p \<le> a \<and> a < p + w * 4 then byte_of color ((a - p) mod 4) else mem a)"
proof -
  have "fill_row p w color mem = paint p 4 0 4 0 (\<lambda>_. byte_of color) w mem"
    unfolding fill_row_def by (rule fold_rows) (auto simp: store32_def fun_eq_iff)
  also have "\<dots> = (\<lambda>a. if p \<le> a \<and> a < p + w * 4 then byte_of color ((a - p) mod 4) else mem a)"
    by (rule ext) (auto simp: paint_def Let_def div_less_iff_less_mult)
  finally show ?thesis .
qed

text \<open>A copy loop whose source is not in the rows it writes reads the memory it started with.\<close>

lemma fold_copy_rows:
  assumes "x + len \<le> s" "\<And>row c. row < n \<Longrightarrow> c < len \<Longrightarrow> src + row * ss + c \<notin> {dst..<dst + (y + n) * s}"
  shows "fold (\<lambda>row. copy_mem (dst + (y + row) * s + x) (src + row * ss) len) [0..<n] mem =
    paint dst s x len y (\<lambda>row c. mem (src + row * ss + c)) n mem"
  using assms(2)
proof (induction n)
  case 0
  then show ?case by simp
next
  case (Suc n)
  have out: "src + row * ss + c \<notin> {dst..<dst + (y + n) * s}" if "row < Suc n" "c < len" for row c
    using Suc.prems [OF that] by (auto simp: algebra_simps)
  have IH: "fold (\<lambda>row. copy_mem (dst + (y + row) * s + x) (src + row * ss) len) [0..<n] mem =
    paint dst s x len y (\<lambda>row c. mem (src + row * ss + c)) n mem"
    by (rule Suc.IH) (use out in auto)
  have same: "paint dst s x len y (\<lambda>row c. mem (src + row * ss + c)) n mem (src + n * ss + c) = mem (src + n * ss + c)"
    if c: "c < len" for c
  proof -
    let ?a = "src + n * ss + c"
    have "\<not> (dst \<le> ?a \<and> (?a - dst) div s < y + n)"
      using out [OF lessI c] assms(1) c by (auto simp: div_less_iff_less_mult)
    then show ?thesis by (auto simp: paint_def Let_def)
  qed
  let ?m = "paint dst s x len y (\<lambda>row c. mem (src + row * ss + c)) n mem"
  have "fold (\<lambda>row. copy_mem (dst + (y + row) * s + x) (src + row * ss) len) [0..<Suc n] mem =
    copy_mem (dst + (y + n) * s + x) (src + n * ss) len ?m" using IH by simp
  also have "\<dots> = paint dst s x len y (\<lambda>row c. mem (src + row * ss + c)) (Suc n) mem"
  proof (rule ext, goal_cases)
    case (1 a)
    have "?m (src + n * ss + (a - (dst + (y + n) * s + x))) = mem (src + n * ss + (a - (dst + (y + n) * s + x)))"
      if "dst + (y + n) * s + x \<le> a" "a < dst + (y + n) * s + x + len"
      by (rule same) (use that in linarith)
    then show ?case unfolding paint_Suc [OF assms(1)] copy_mem_def by auto
  qed
  finally show ?case .
qed

section \<open>Pixels\<close>

definition pixel :: "nat \<Rightarrow> nat \<Rightarrow> nat \<Rightarrow> nat \<Rightarrow> memory \<Rightarrow> u32" where
  "pixel dst stride cx cy mem = load32 (dst + cy * stride + cx * 4) mem"

lemma load32_eq:
  "load32 a mem = of_nat (unat (mem a) + 256 * (unat (mem (a + 1)) + 256 * (unat (mem (a + 2)) + 256 * unat (mem (a + 3)))))"
proof -
  have "le_bytes (Suc (Suc (Suc (Suc 0)))) mem a =
    unat (mem a) + 256 * (unat (mem (a + 1)) + 256 * (unat (mem (a + 1 + 1)) + 256 * unat (mem (a + 1 + 1 + 1))))"
    by (simp only: le_bytes.simps mult_0_right add_0_right)
  moreover have "Suc (Suc (Suc (Suc 0))) = 4" "a + 1 + 1 = a + 2" "a + 1 + 1 + 1 = a + 3" by simp_all
  ultimately show ?thesis unfolding load32_def by metis
qed

lemma load32_cong: "(\<And>i. i < 4 \<Longrightarrow> m (a + i) = m' (b + i)) \<Longrightarrow> load32 a m = load32 b m'"
proof -
  assume eq: "\<And>i. i < 4 \<Longrightarrow> m (a + i) = m' (b + i)"
  have "m a = m' b" "m (a + 1) = m' (b + 1)" "m (a + 2) = m' (b + 2)" "m (a + 3) = m' (b + 3)"
    using eq [of 0] eq [of 1] eq [of 2] eq [of 3] by simp_all
  then show ?thesis by (simp only: load32_eq)
qed

lemma load32_byte_of:
  assumes "\<And>i. i < 4 \<Longrightarrow> mem (a + i) = byte_of c i"
  shows "load32 a mem = c"
proof -
  have b: "unat (byte_of c k) = unat c div 2 ^ (8 * k) mod 256" for k
  proof -
    have "unat (byte_of c k) = take_bit 8 (drop_bit (8 * k) (unat c))"
      by (simp add: byte_of_def unsigned_ucast_eq unat_drop_bit_eq)
    then show ?thesis by (simp add: drop_bit_eq_div take_bit_eq_mod)
  qed
  let ?n = "unat c"
  have n: "?n < 2 ^ 32" using unsigned_less [of c, where 'a = nat] by simp
  have "unat (mem a) + 256 * (unat (mem (a + 1)) + 256 * (unat (mem (a + 2)) + 256 * unat (mem (a + 3)))) =
    ?n mod 256 + 256 * (?n div 256 mod 256 + 256 * (?n div 65536 mod 256 + 256 * (?n div 16777216 mod 256)))"
    using assms [of 0] assms [of 1] assms [of 2] assms [of 3] by (simp add: b)
  also have "\<dots> = ?n"
  proof -
    have d: "?n div 65536 = ?n div 256 div 256" "?n div 16777216 = ?n div 256 div 256 div 256"
      by (simp_all add: div_mult2_eq [symmetric])
    have "?n div 256 div 256 div 256 < 256" using n by (simp add: div_mult2_eq [symmetric] less_mult_imp_div_less)
    then show ?thesis unfolding d by (simp add: mod_mult_div_eq)
  qed
  finally show ?thesis by (simp only: load32_eq) simp
qed

lemma pixel_painted:
  assumes "x + len \<le> s" "cx * 4 + 4 \<le> s"
    and inside: "y \<le> cy" "cy < y + n" "x \<le> cx * 4" "cx * 4 + 4 \<le> x + len"
  shows "pixel dst s cx cy (paint dst s x len y g n mem) =
    load32 0 (\<lambda>k. g (cy - y) (cx * 4 - x + k))"
  unfolding pixel_def
proof (rule load32_cong)
  fix i :: nat assume "i < 4"
  then have "(cy * s + cx * 4 + i) div s = cy" "(cy * s + cx * 4 + i) mod s = cx * 4 + i"
    using assms(2) by (simp_all add: add.assoc)
  then show "paint dst s x len y g n mem (dst + cy * s + cx * 4 + i) = g (cy - y) (cx * 4 - x + (0 + i))"
    using inside \<open>i < 4\<close> by (simp add: paint_def Let_def add.assoc)
qed

lemma pixel_unpainted:
  assumes "x + len \<le> s" "cx * 4 + 4 \<le> s"
    and outside: "cy < y \<or> y + n \<le> cy \<or> cx * 4 + 4 \<le> x \<or> x + len \<le> cx * 4"
  shows "pixel dst s cx cy (paint dst s x len y g n mem) = pixel dst s cx cy mem"
  unfolding pixel_def
proof (rule load32_cong)
  fix i :: nat assume "i < 4"
  then have "(cy * s + cx * 4 + i) div s = cy" "(cy * s + cx * 4 + i) mod s = cx * 4 + i"
    using assms(2) by (simp_all add: add.assoc)
  then show "paint dst s x len y g n mem (dst + cy * s + cx * 4 + i) = mem (dst + cy * s + cx * 4 + i)"
    using outside \<open>i < 4\<close> by (auto simp: paint_def Let_def add.assoc)
qed

lemma paint_outside:
  assumes "a < dst \<or> dst + (y + n) * s \<le> a" "0 < s"
  shows "paint dst s x len y g n mem a = mem a"
  using assms by (auto simp: paint_def Let_def div_less_iff_less_mult)

text \<open>A rectangle clipped to a buffer of \<open>W\<close> by \<open>H\<close> pixels.\<close>

definition in_clip :: "u32 \<Rightarrow> u32 \<Rightarrow> u32 \<Rightarrow> u32 \<Rightarrow> nat \<Rightarrow> nat \<Rightarrow> bool" where
  "in_clip x y w h cx cy \<longleftrightarrow> unat x \<le> cx \<and> cx < unat x + unat w \<and> unat y \<le> cy \<and> cy < unat y + unat h"

lemma unat_clip: "x < W \<Longrightarrow> unat (min w (W - x)) = min (unat w) (unat W - unat x)" for x :: u32
  by (auto simp: min_def word_le_nat_alt unat_sub word_less_nat_alt)

lemma fill_rect_ram_paint:
  assumes "unat W * 4 \<le> unat s" "dst \<noteq> 0" "w \<noteq> 0" "h \<noteq> 0" "x < W" "y < H"
  shows "fill_rect_ram dst s W H x y w h color mem =
    paint dst (unat s) (unat x * 4) (min (unat w) (unat W - unat x) * 4) (unat y) (\<lambda>_ c. byte_of color (c mod 4))
      (min (unat h) (unat H - unat y)) mem"
proof -
  have lim: "unat x * 4 + min (unat w) (unat W - unat x) * 4 \<le> unat s"
    using assms(1,5) by (simp add: word_less_nat_alt)
  have "fold (\<lambda>row. fill_row (dst + (unat y + row) * unat s + unat x * 4) (min (unat w) (unat W - unat x)) color) [0..<k] mem =
    paint dst (unat s) (unat x * 4) (min (unat w) (unat W - unat x) * 4) (unat y) (\<lambda>_ c. byte_of color (c mod 4)) k mem" for k
    by (rule fold_rows [OF lim]) (simp add: fill_row_eq)
  then show ?thesis using assms by (simp add: fill_rect_ram_def unat_clip not_le)
qed

lemma blit_ram_paint:
  assumes "unat W * 4 \<le> unat s" "dst \<noteq> 0" "src \<noteq> 0" "w \<noteq> 0" "h \<noteq> 0" "x < W" "y < H"
    and apart: "\<And>row c. row < unat h \<Longrightarrow> c < unat w * 4 \<Longrightarrow> src + row * unat ss + c \<notin> {dst..<dst + unat H * unat s}"
  shows "blit_ram dst x y s W H src ss w h mem =
    paint dst (unat s) (unat x * 4) (min (unat w) (unat W - unat x) * 4) (unat y) (\<lambda>row c. mem (src + row * unat ss + c))
      (min (unat h) (unat H - unat y)) mem"
proof -
  have lim: "unat x * 4 + min (unat w) (unat W - unat x) * 4 \<le> unat s"
    using assms(1,6) by (simp add: word_less_nat_alt)
  have "fold (\<lambda>row. copy_mem (dst + (unat y + row) * unat s + unat x * 4) (src + row * unat ss) (min (unat w) (unat W - unat x) * 4))
     [0..<min (unat h) (unat H - unat y)] mem =
    paint dst (unat s) (unat x * 4) (min (unat w) (unat W - unat x) * 4) (unat y) (\<lambda>row c. mem (src + row * unat ss + c))
      (min (unat h) (unat H - unat y)) mem"
  proof (rule fold_copy_rows [OF lim])
    fix row c assume r: "row < min (unat h) (unat H - unat y)" "c < min (unat w) (unat W - unat x) * 4"
    have "(unat y + min (unat h) (unat H - unat y)) * unat s \<le> unat H * unat s"
      using assms(7) by (intro mult_le_mono1) (simp add: word_less_nat_alt)
    then show "src + row * unat ss + c \<notin> {dst..<dst + (unat y + min (unat h) (unat H - unat y)) * unat s}"
      using apart [of row c] r unfolding atLeastLessThan_iff by linarith
  qed
  then show ?thesis using assms by (simp add: blit_ram_def unat_clip not_le)
qed

lemma load32_color: "load32 0 (\<lambda>k. byte_of color ((n * 4 + k) mod 4)) = color"
  by (rule load32_byte_of) simp

text \<open>Filling a rectangle of a RAM buffer whose rows hold at least its width of 32-bit pixels never writes
  outside the buffer, sets every pixel of the rectangle that lies in the buffer to the colour, and leaves every
  other pixel as it was; rectangles that reach or lie beyond the edge are clipped.\<close>

theorem fill_rect_is_clipped:
  assumes "unat W * 4 \<le> unat s" "dst \<noteq> 0"
  shows "(\<forall>a. a < dst \<or> dst + unat H * unat s \<le> a \<longrightarrow> fill_rect_ram dst s W H x y w h color mem a = mem a) \<and>
    (\<forall>cx cy. cx < unat W \<and> cy < unat H \<longrightarrow>
       pixel dst (unat s) cx cy (fill_rect_ram dst s W H x y w h color mem) =
         (if in_clip x y w h cx cy then color else pixel dst (unat s) cx cy mem))"
proof (cases "w = 0 \<or> h = 0 \<or> \<not> x < W \<or> \<not> y < H")
  case True
  then show ?thesis
    by (auto simp: fill_rect_ram_def in_clip_def not_less word_le_nat_alt)
next
  case False
  let ?w = "min (unat w) (unat W - unat x)" and ?h = "min (unat h) (unat H - unat y)"
  have p: "fill_rect_ram dst s W H x y w h color mem =
    paint dst (unat s) (unat x * 4) (?w * 4) (unat y) (\<lambda>_ c. byte_of color (c mod 4)) ?h mem"
    by (rule fill_rect_ram_paint) (use assms False in auto)
  have lim: "unat x * 4 + ?w * 4 \<le> unat s" "0 < unat s" using assms(1) False by (auto simp: word_less_nat_alt)
  have rows: "(unat y + ?h) * unat s \<le> unat H * unat s" by (intro mult_le_mono1) (use False in \<open>auto simp: word_less_nat_alt\<close>)
  show ?thesis
  proof (intro conjI allI impI)
    fix a assume "a < dst \<or> dst + unat H * unat s \<le> a"
    then show "fill_rect_ram dst s W H x y w h color mem a = mem a"
      unfolding p using rows by (intro paint_outside [OF _ lim(2)]) linarith
  next
    fix cx cy assume c: "cx < unat W \<and> cy < unat H"
    then have cx: "cx * 4 + 4 \<le> unat s" using assms(1) by linarith
    show "pixel dst (unat s) cx cy (fill_rect_ram dst s W H x y w h color mem) =
         (if in_clip x y w h cx cy then color else pixel dst (unat s) cx cy mem)"
    proof (cases "in_clip x y w h cx cy")
      case True
      then have i: "unat y \<le> cy" "cy < unat y + ?h" "unat x * 4 \<le> cx * 4" "cx * 4 + 4 \<le> unat x * 4 + ?w * 4"
        using c by (auto simp: in_clip_def)
      show ?thesis unfolding p pixel_painted [OF lim(1) cx i]
        using True load32_color [of color "cx - unat x"] by (simp add: diff_mult_distrib)
    next
      case False
      then have "cy < unat y \<or> unat y + ?h \<le> cy \<or> cx * 4 + 4 \<le> unat x * 4 \<or> unat x * 4 + ?w * 4 \<le> cx * 4"
        using c by (auto simp: in_clip_def)
      then show ?thesis unfolding p using False by (simp add: pixel_unpainted [OF lim(1) cx])
    qed
  qed
qed

theorem fill_rect_is_clipped_witness:
  "pixel 0x1000 40 2 1 (fill_rect_ram 0x1000 40 10 4 1 1 0xFFFFFFFF 1 7 (\<lambda>_. 0)) = 7 \<and>
   fill_rect_ram 0x1000 40 10 4 1 1 0xFFFFFFFF 1 7 (\<lambda>_. 0) 0x10A0 = 0"
  using fill_rect_is_clipped [of 10 40 "0x1000" 4 1 1 "0xFFFFFFFF" 1 7 "\<lambda>_. 0"]
  by (simp add: in_clip_def)

text \<open>The fill of the hardware framebuffer panics when the sum of position and width wraps around \<open>u32\<close>, and
  when more than 1920 pixels of a row are filled. So one system call stops a machine with any framebuffer, and
  the test pattern stops a machine with a mode wider than 1920 pixels.\<close>

theorem fill_rect_panics:
  assumes "info = Some i" "base_virt i \<noteq> 0" "fb_bpp i = 32" "fb_stride i \<noteq> 0" "fb_height i \<noteq> 0" "1 < fb_width i"
  shows "fb_fill_rect 1 0 0xFFFFFFFF 1 color info mem = Halted ''range end index out of range'' \<and>
    (1920 < fb_width i \<longrightarrow> draw_test_pattern info mem = Halted ''range end index out of range'')"
proof (intro conjI impI)
  have wrap: "(4294967296 :: u32) = 0" by code_simp
  have "fb_width i \<noteq> 0" "0 < fb_height i" using assms(5,6) by (auto simp: word_gt_0)
  then show "fb_fill_rect 1 0 0xFFFFFFFF 1 color info mem = Halted ''range end index out of range''"
    using assms by (simp add: fb_fill_rect_def not_le wrap)
  assume wide: "1920 < fb_width i"
  then have w: "1920 < unat (fb_width i)" by (simp add: word_less_nat_alt)
  have row0: "fb_fill_rect 0 0 (fb_width i) 1 c (Some i) m = Halted ''range end index out of range''" for c m
    using assms w \<open>0 < fb_height i\<close> \<open>fb_width i \<noteq> 0\<close> by (simp add: fb_fill_rect_def not_le word_gt_0)
  have stuck: "fold (\<lambda>row r. bind_halt r (f row)) ks (Halted e) = Halted e" for f :: "nat \<Rightarrow> memory \<Rightarrow> memory halting" and ks e
    by (induction ks) (simp_all add: bind_halt_def)
  have "0 < unat (min 80 (fb_height i))" using \<open>0 < fb_height i\<close> by (simp add: min_def unat_gt_0 word_gt_0)
  then have "[0..<unat (min 80 (fb_height i))] = 0 # [1..<unat (min 80 (fb_height i))]" by (simp add: upt_conv_Cons)
  then show "draw_test_pattern info mem = Halted ''range end index out of range''"
    using assms \<open>fb_width i \<noteq> 0\<close> by (simp add: draw_test_pattern_def Let_def row0 stuck)
qed

theorem fill_rect_panics_witness:
  "fb_fill_rect 1 0 0xFFFFFFFF 1 0 (Some \<lparr>base_virt = 0x80000000, fb_bytes = 0x7E9000, fb_width = 1920, fb_height = 1080,
     fb_stride = 1920, fb_bpp = 32\<rparr>) (\<lambda>_. 0) = Halted ''range end index out of range''"
  by (rule fill_rect_panics [THEN conjunct1, OF refl]) simp_all

end
