(* ===== verification/Display.thy ===== *)
theory Display
  imports Framebuffer "HOL-Library.Multiset"
begin

text \<open>
  The display server (\<open>kernel/display/display_server/mod.rs\<close>), the kernel's tiling
  (\<open>kernel/display/compositor/mod.rs\<close>) and the backbuffer part of \<open>kernel/syscall/dispatcher/gfx.rs\<close>:
  surfaces with an attached pixel buffer, one compositor process, and composition in z-order into a RAM
  backbuffer (or straight to the hardware framebuffer while there is none).
\<close>

section \<open>State\<close>

definition MAX_SURFACES :: nat where "MAX_SURFACES = 16"

record surface_slot =
  surf_id :: u32
  surf_owner :: u32
  surf_buffer :: "(nat \<times> u32 \<times> u32 \<times> u32) option"
  surf_z :: u8

definition slot_empty :: surface_slot where
  "slot_empty = \<lparr>surf_id = 0, surf_owner = 0, surf_buffer = None, surf_z = 0\<rparr>"

record backbuffer =
  bb_base :: nat
  bb_width :: u32
  bb_height :: u32
  bb_stride :: u32

record display =
  FB_INFO :: "fb_info option"
  BACKBUFFER :: "backbuffer option"
  COMPOSITOR_PID :: "u32 option"
  SLOTS :: "surface_slot list"
  NEXT_ID :: u32
  dmem :: memory

definition display_boot :: "memory \<Rightarrow> display" where
  "display_boot mem = \<lparr>FB_INFO = None, BACKBUFFER = None, COMPOSITOR_PID = None,
     SLOTS = replicate MAX_SURFACES slot_empty, NEXT_ID = 1, dmem = mem\<rparr>"

section \<open>The compositor process\<close>

definition claim_compositor :: "u32 \<Rightarrow> display \<Rightarrow> bool \<times> display" where
  "claim_compositor pid d =
     (if COMPOSITOR_PID d = None then (True, d\<lparr>COMPOSITOR_PID := Some pid\<rparr>) else (False, d))"

definition release_compositor :: "u32 \<Rightarrow> display \<Rightarrow> display" where
  "release_compositor pid d =
     (if COMPOSITOR_PID d = Some pid then d\<lparr>COMPOSITOR_PID := None\<rparr> else d)"

text \<open>\<open>write_bytes(base, 0, n)\<close>.\<close>

definition clear_mem :: "nat \<Rightarrow> nat \<Rightarrow> memory \<Rightarrow> memory" where
  "clear_mem p n mem = (\<lambda>a. if p \<le> a \<and> a < p + n then 0 else mem a)"

definition on_compositor_exit :: "u32 \<Rightarrow> display \<Rightarrow> display" where
  "on_compositor_exit pid d =
     (if COMPOSITOR_PID d \<noteq> Some pid then d
      else let d1 = (case BACKBUFFER d of
                       None \<Rightarrow> d
                     | Some bb \<Rightarrow> d\<lparr>dmem := clear_mem (bb_base bb) (smul (unat (bb_stride bb)) (unat (bb_height bb))) (dmem d)\<rparr>)
           in release_compositor pid (d1\<lparr>BACKBUFFER := None\<rparr>))"

section \<open>Drawing\<close>

definition backbuffer_blit :: "u32 \<Rightarrow> u32 \<Rightarrow> u32 \<Rightarrow> u32 \<Rightarrow> u32 \<Rightarrow> nat \<Rightarrow> display \<Rightarrow> display" where
  "backbuffer_blit dst_x dst_y w h src_stride src d =
     (case BACKBUFFER d of
        Some bb \<Rightarrow> d\<lparr>dmem := blit_ram (bb_base bb) dst_x dst_y (bb_stride bb) (bb_width bb) (bb_height bb)
                             src src_stride w h (dmem d)\<rparr>
      | None \<Rightarrow> d\<lparr>dmem := fb_blit dst_x dst_y w h src_stride src (FB_INFO d) (dmem d)\<rparr>)"

definition backbuffer_fill_rect :: "u32 \<Rightarrow> u32 \<Rightarrow> u32 \<Rightarrow> u32 \<Rightarrow> u32 \<Rightarrow> display \<Rightarrow> display halting" where
  "backbuffer_fill_rect x y w h color d =
     (case BACKBUFFER d of
        Some bb \<Rightarrow> Done (d\<lparr>dmem := fill_rect_ram (bb_base bb) (bb_stride bb) (bb_width bb) (bb_height bb)
                                    x y w h color (dmem d)\<rparr>)
      | None \<Rightarrow> bind_halt (fb_fill_rect x y w h color (FB_INFO d) (dmem d)) (\<lambda>m. Done (d\<lparr>dmem := m\<rparr>)))"

definition sys_fb_clear :: "u32 \<Rightarrow> display \<Rightarrow> display" where
  "sys_fb_clear color d =
     (case BACKBUFFER d of
        Some bb \<Rightarrow> d\<lparr>dmem := fill_rect_ram (bb_base bb) (bb_stride bb) (bb_width bb) (bb_height bb)
                             0 0 (bb_width bb) (bb_height bb) color (dmem d)\<rparr>
      | None \<Rightarrow> d\<lparr>dmem := fb_clear color (FB_INFO d) (dmem d)\<rparr>)"

definition sys_fb_fill_rect :: "u32 \<Rightarrow> u32 \<Rightarrow> u32 \<Rightarrow> u32 \<Rightarrow> u32 \<Rightarrow> display \<Rightarrow> display halting" where
  "sys_fb_fill_rect x y w h color d =
     (case BACKBUFFER d of
        Some bb \<Rightarrow> Done (d\<lparr>dmem := fill_rect_ram (bb_base bb) (bb_stride bb) (bb_width bb) (bb_height bb)
                                    x y w h color (dmem d)\<rparr>)
      | None \<Rightarrow> bind_halt (fb_fill_rect x y w h color (FB_INFO d) (dmem d)) (\<lambda>m. Done (d\<lparr>dmem := m\<rparr>)))"

definition sys_fb_flush :: "u32 \<Rightarrow> display \<Rightarrow> display" where
  "sys_fb_flush caller d =
     (if COMPOSITOR_PID d = Some caller then
        (case BACKBUFFER d of
           Some bb \<Rightarrow> d\<lparr>dmem := fb_blit 0 0 (bb_width bb) (bb_height bb) (bb_stride bb) (bb_base bb) (FB_INFO d) (dmem d)\<rparr>
         | None \<Rightarrow> d)
      else d)"

section \<open>Surfaces\<close>

definition has_id :: "u32 \<Rightarrow> surface_slot \<Rightarrow> bool" where
  "has_id i s \<longleftrightarrow> surf_id s = i"

definition surface_create :: "u32 \<Rightarrow> display \<Rightarrow> u32 option \<times> display" where
  "surface_create owner d =
     (case first_index (has_id 0) (SLOTS d) of
        None \<Rightarrow> (None, d)
      | Some k \<Rightarrow>
          (let n = NEXT_ID d + 1
           in (Some (NEXT_ID d),
               d\<lparr>NEXT_ID := (if n = 0 then 1 else n),
                 SLOTS := (SLOTS d)[k := \<lparr>surf_id = NEXT_ID d, surf_owner = owner, surf_buffer = None, surf_z = 0\<rparr>]\<rparr>)))"

definition surface_destroy :: "u32 \<Rightarrow> display \<Rightarrow> display" where
  "surface_destroy i d =
     (case first_index (has_id i) (SLOTS d) of
        None \<Rightarrow> d
      | Some k \<Rightarrow> d\<lparr>SLOTS := (SLOTS d)[k := slot_empty]\<rparr>)"

definition surface_attach :: "u32 \<Rightarrow> nat \<Rightarrow> u32 \<Rightarrow> u32 \<Rightarrow> u32 \<Rightarrow> u32 \<Rightarrow> display \<Rightarrow> bool \<times> display" where
  "surface_attach i ptr w h stride caller d =
     (if ptr = 0 \<or> w = 0 \<or> h = 0 \<or> stride < w * 4 then (False, d)
      else case first_index (has_id i) (SLOTS d) of
        None \<Rightarrow> (False, d)
      | Some k \<Rightarrow>
          (let s = SLOTS d ! k
           in if surf_owner s \<noteq> 0 \<and> surf_owner s \<noteq> caller then (False, d)
              else (True, d\<lparr>SLOTS := (SLOTS d)[k := s\<lparr>surf_buffer := Some (ptr, w, h, stride)\<rparr>]\<rparr>)))"

definition surface_commit :: "u32 \<Rightarrow> u32 \<Rightarrow> u32 \<Rightarrow> u32 \<Rightarrow> display \<Rightarrow> bool \<times> display" where
  "surface_commit i dst_x dst_y caller d =
     (if COMPOSITOR_PID d \<noteq> None \<and> COMPOSITOR_PID d \<noteq> Some caller then (False, d)
      else case first_index (has_id i) (SLOTS d) of
        None \<Rightarrow> (False, d)
      | Some k \<Rightarrow>
          (case surf_buffer (SLOTS d ! k) of
             None \<Rightarrow> (False, d)
           | Some (ptr, w, h, stride) \<Rightarrow>
               if ptr = 0 then (False, d) else (True, backbuffer_blit dst_x dst_y w h stride ptr d)))"

definition surface_set_z :: "u32 \<Rightarrow> u8 \<Rightarrow> display \<Rightarrow> display" where
  "surface_set_z i z d =
     (case first_index (has_id i) (SLOTS d) of
        None \<Rightarrow> d
      | Some k \<Rightarrow> d\<lparr>SLOTS := (SLOTS d)[k := (SLOTS d ! k)\<lparr>surf_z := z\<rparr>]\<rparr>)"

definition surface_count :: "display \<Rightarrow> nat" where
  "surface_count d = length (filter (\<lambda>s. surf_id s \<noteq> 0) (SLOTS d))"

text \<open>\<open>composite_all\<close>: the shown slots in table order, the insertion sort on \<open>z\<close> by swaps, and one copy of
  each buffer at the origin.\<close>

definition shown :: "surface_slot \<Rightarrow> bool" where
  "shown s \<longleftrightarrow> surf_id s \<noteq> 0 \<and> surf_buffer s \<noteq> None"

fun sift :: "(nat \<Rightarrow> u8) \<Rightarrow> nat \<Rightarrow> nat list \<Rightarrow> nat list" where
  "sift z 0 ord = ord"
| "sift z (Suc j) ord =
     (if z (ord ! j) > z (ord ! Suc j) then sift z j (ord[j := ord ! Suc j, Suc j := ord ! j]) else ord)"

definition z_sort :: "(nat \<Rightarrow> u8) \<Rightarrow> nat list \<Rightarrow> nat list" where
  "z_sort z ord = fold (sift z) [1..<length ord] ord"

definition draw_surface :: "surface_slot \<Rightarrow> display \<Rightarrow> display" where
  "draw_surface s d =
     (case surf_buffer s of
        None \<Rightarrow> d
      | Some (ptr, w, h, stride) \<Rightarrow> if ptr = 0 then d else backbuffer_blit 0 0 w h stride ptr d)"

definition composite_all :: "display \<Rightarrow> display" where
  "composite_all d =
     (let order = z_sort (\<lambda>i. surf_z (SLOTS d ! i)) (filter (\<lambda>i. shown (SLOTS d ! i)) [0..<length (SLOTS d)])
      in fold (\<lambda>i. draw_surface (SLOTS d ! i)) order d)"

definition sys_claim_compositor :: "u32 option \<Rightarrow> display \<Rightarrow> bool \<times> display" where
  "sys_claim_compositor cur d = claim_compositor (case cur of None \<Rightarrow> 0 | Some p \<Rightarrow> p) d"

definition sys_composite_all :: "u32 \<Rightarrow> display \<Rightarrow> bool \<times> display" where
  "sys_composite_all pid d =
     (case COMPOSITOR_PID d of
        Some c \<Rightarrow> if c \<noteq> pid then (False, d) else (True, composite_all d)
      | None \<Rightarrow> (True, composite_all d))"

section \<open>The kernel's tiling\<close>

definition tile_layout :: "u32 \<Rightarrow> u32 \<Rightarrow> nat \<Rightarrow> (u32 \<times> u32 \<times> u32 \<times> u32) list" where
  "tile_layout screen_w screen_h num =
     (let out = replicate 8 (0, 0, 0, 0)
      in if num = 0 then out
         else if num = 1 then out[0 := (0, 0, screen_w, screen_h)]
         else if num = 2 then
           (let w = screen_w div 2
            in out[0 := (0, 0, w, screen_h), 1 := (w, 0, screen_w - w, screen_h)])
         else let n = min num 8;
                  tile_w = screen_w div of_nat n
              in fold (\<lambda>i out. let x = of_nat i * tile_w;
                                   w = (if i + 1 = n then word_ssub screen_w x else tile_w)
                               in out[i := (x, 0, w, screen_h)]) [0..<n] out)"

section \<open>The sort\<close>

text \<open>One pass moves the element behind the sorted part to its place: after every element that is not
  greater, so equal ones keep their order.\<close>

lemma sift_eq:
  "sorted (map z xs) \<Longrightarrow> sift z (length xs) (xs @ x # rest) =
     filter (\<lambda>y. z y \<le> z x) xs @ x # filter (\<lambda>y. z x < z y) xs @ rest"
proof (induction xs arbitrary: rest rule: rev_induct)
  case Nil
  then show ?case by simp
next
  case (snoc y ys)
  then have srt: "sorted (map z ys)" and le: "\<forall>v \<in> set ys. z v \<le> z y"
    by (auto simp: sorted_append)
  show ?case
  proof (cases "z x < z y")
    case True
    have "sift z (length (ys @ [y])) ((ys @ [y]) @ x # rest) = sift z (length ys) (ys @ x # y # rest)"
      using True by (simp add: nth_append list_update_append)
    then show ?thesis using True snoc.IH [OF srt, of "y # rest"] by simp
  next
    case False
    then have "\<forall>v \<in> set ys. z v \<le> z x" using le by fastforce
    then have "filter (\<lambda>v. z v \<le> z x) ys = ys" "filter (\<lambda>v. z x < z v) ys = []"
      by (auto simp: filter_empty_conv not_less intro: filter_True)
    then show ?thesis using False by (simp add: nth_append)
  qed
qed

lemma sort_key_snoc:
  "sort_key f (xs @ [x]) =
     filter (\<lambda>y. f y \<le> f x) (sort_key f xs) @ x # filter (\<lambda>y. f x < f y) (sort_key f xs)" for f :: "'a \<Rightarrow> 'b::linorder"
proof (rule properties_for_sort_key)
  let ?s = "sort_key f xs"
  have p: "mset (filter (\<lambda>y. f y \<le> f x) ?s) + mset (filter (\<lambda>y. f x < f y) ?s) = mset xs"
    using multiset_partition [of "mset xs" "\<lambda>y. f y \<le> f x"] by (simp add: not_le)
  then show "mset (filter (\<lambda>y. f y \<le> f x) ?s @ x # filter (\<lambda>y. f x < f y) ?s) = mset (xs @ [x])"
    by simp
  show "sorted (map f (filter (\<lambda>y. f y \<le> f x) ?s @ x # filter (\<lambda>y. f x < f y) ?s))"
    by (auto simp: sorted_append sorted_filter)
  fix k
  have st: "filter (\<lambda>y. f k = f y) ?s = filter (\<lambda>y. f k = f y) xs"
    using sort_key_stable [of f "f k" xs] by (simp add: eq_commute)
  show "filter (\<lambda>y. f k = f y) (filter (\<lambda>y. f y \<le> f x) ?s @ x # filter (\<lambda>y. f x < f y) ?s) =
      filter (\<lambda>y. f k = f y) (xs @ [x])"
  proof (cases "f k = f x")
    case True
    then have "filter (\<lambda>y. f k = f y) (filter (\<lambda>y. f y \<le> f x) ?s) = filter (\<lambda>y. f k = f y) ?s"
      by (auto simp: intro: filter_cong)
    moreover have "filter (\<lambda>y. f k = f y) (filter (\<lambda>y. f x < f y) ?s) = []"
      using True by (auto simp: filter_empty_conv)
    ultimately show ?thesis using True st by simp
  next
    case False
    have "filter (\<lambda>y. f y \<le> f x \<and> f k = f y) ?s = (if f k \<le> f x then filter (\<lambda>y. f k = f y) ?s else [])"
      "filter (\<lambda>y. f x < f y \<and> f k = f y) ?s = (if f k \<le> f x then [] else filter (\<lambda>y. f k = f y) ?s)"
      by (auto simp: filter_empty_conv intro!: filter_cong)
    then show ?thesis using False st by simp
  qed
qed

lemma z_sort_prefix:
  "0 < k \<Longrightarrow> k \<le> length ord \<Longrightarrow> fold (sift z) [1..<k] ord = sort_key z (take k ord) @ drop k ord"
proof (induction k)
  case 0
  then show ?case by simp
next
  case (Suc k)
  show ?case
  proof (cases "k = 0")
    case True
    then show ?thesis using Suc.prems by (cases ord) simp_all
  next
    case False
    let ?s = "sort_key z (take k ord)"
    have k: "k < length ord" using Suc.prems by simp
    have "fold (sift z) [1..<Suc k] ord = sift z k (?s @ drop k ord)"
      using Suc.IH Suc.prems False by simp
    also have "\<dots> = sift z (length ?s) (?s @ ord ! k # drop (Suc k) ord)"
      using k by (simp add: Cons_nth_drop_Suc)
    also have "\<dots> = sort_key z (take k ord @ [ord ! k]) @ drop (Suc k) ord"
      unfolding sift_eq [OF sorted_sort_key] sort_key_snoc by simp
    finally show ?thesis using k by (simp add: take_Suc_conv_app_nth)
  qed
qed

lemma z_sort_eq: "z_sort z ord = sort_key z ord"
proof (cases ord)
  case (Cons a l)
  then show ?thesis unfolding z_sort_def using z_sort_prefix [of "length ord" ord z] by simp
qed (simp add: z_sort_def)

lemma map_sort_key: "map g (sort_key (\<lambda>i. f (g i)) xs) = sort_key f (map g xs)"
proof -
  have "map g (insort_key (\<lambda>i. f (g i)) x ys) = insort_key f (g x) (map g ys)" for x ys
    by (induction ys) auto
  then show ?thesis by (induction xs) simp_all
qed

lemma map_nth_filter: "map ((!) xs) (filter (\<lambda>i. P (xs ! i)) [0..<length xs]) = filter P xs"
  using filter_map [of P "(!) xs" "[0..<length xs]"] by (simp add: comp_def map_nth)

lemma composite_all_eq:
  "composite_all d = fold draw_surface (sort_key surf_z (filter shown (SLOTS d))) d"
proof -
  let ?o = "sort_key (\<lambda>i. surf_z (SLOTS d ! i)) (filter (\<lambda>i. shown (SLOTS d ! i)) [0..<length (SLOTS d)])"
  have "fold (\<lambda>i. draw_surface (SLOTS d ! i)) ?o d = fold draw_surface (map ((!) (SLOTS d)) ?o) d"
    by (simp add: fold_map comp_def)
  then show ?thesis by (simp add: composite_all_def z_sort_eq map_sort_key map_nth_filter)
qed

section \<open>Composition\<close>

definition covers :: "nat \<Rightarrow> nat \<Rightarrow> surface_slot \<Rightarrow> bool" where
  "covers cx cy s \<longleftrightarrow> (case surf_buffer s of None \<Rightarrow> False
     | Some (ptr, w, h, stride) \<Rightarrow> ptr \<noteq> 0 \<and> cx < unat w \<and> cy < unat h)"

definition src_pixel :: "nat \<Rightarrow> nat \<Rightarrow> memory \<Rightarrow> surface_slot \<Rightarrow> u32" where
  "src_pixel cx cy mem s = (case surf_buffer s of None \<Rightarrow> 0
     | Some (ptr, w, h, stride) \<Rightarrow> pixel ptr (unat stride) cx cy mem)"

abbreviation bb_pixel :: "backbuffer \<Rightarrow> nat \<Rightarrow> nat \<Rightarrow> memory \<Rightarrow> u32" where
  "bb_pixel bb \<equiv> pixel (bb_base bb) (unat (bb_stride bb))"

abbreviation bb_span :: "backbuffer \<Rightarrow> nat set" where
  "bb_span bb \<equiv> {bb_base bb..<bb_base bb + unat (bb_height bb) * unat (bb_stride bb)}"

definition bb_ok :: "backbuffer \<Rightarrow> bool" where
  "bb_ok bb \<longleftrightarrow> bb_base bb \<noteq> 0 \<and> unat (bb_width bb) * 4 \<le> unat (bb_stride bb)"

definition apart_from :: "backbuffer \<Rightarrow> surface_slot \<Rightarrow> bool" where
  "apart_from bb s \<longleftrightarrow> (case surf_buffer s of None \<Rightarrow> True
     | Some (ptr, w, h, stride) \<Rightarrow> \<forall>row c. row < unat h \<longrightarrow> c < unat w * 4 \<longrightarrow> ptr + row * unat stride + c \<notin> bb_span bb)"

lemma draw_surface_fields [simp]:
  "SLOTS (draw_surface s d) = SLOTS d" "BACKBUFFER (draw_surface s d) = BACKBUFFER d"
  by (simp_all add: draw_surface_def backbuffer_blit_def split: option.splits prod.splits)

text \<open>A buffer that is not drawn at all covers no pixel; one that is drawn is a rectangle at the origin.\<close>

lemma draw_surface_paint:
  assumes "BACKBUFFER d = Some bb" "bb_ok bb" "apart_from bb s" "surf_buffer s = Some (ptr, w, h, stride)"
    "ptr \<noteq> 0" "w \<noteq> 0" "h \<noteq> 0" "0 < bb_width bb" "0 < bb_height bb"
  shows "dmem (draw_surface s d) = paint (bb_base bb) (unat (bb_stride bb)) 0 (min (unat w) (unat (bb_width bb)) * 4) 0
     (\<lambda>row c. dmem d (ptr + row * unat stride + c)) (min (unat h) (unat (bb_height bb))) (dmem d)"
  using assms blit_ram_paint [of "bb_width bb" "bb_stride bb" "bb_base bb" ptr w h 0 0 "bb_height bb" stride "dmem d"]
  by (simp add: draw_surface_def backbuffer_blit_def bb_ok_def apart_from_def)

lemma draw_surface_nothing:
  assumes "BACKBUFFER d = Some bb" "surf_buffer s = None \<or> bb_width bb = 0 \<or> bb_height bb = 0 \<or>
    (\<exists>ptr w h stride. surf_buffer s = Some (ptr, w, h, stride) \<and> (ptr = 0 \<or> w = 0 \<or> h = 0))"
  shows "dmem (draw_surface s d) = dmem d"
  using assms by (auto simp: draw_surface_def backbuffer_blit_def blit_ram_def split: option.splits)

lemma draw_surface_outside:
  assumes "BACKBUFFER d = Some bb" "bb_ok bb" "apart_from bb s" "a \<notin> bb_span bb"
  shows "dmem (draw_surface s d) a = dmem d a"
proof (cases "surf_buffer s = None \<or> bb_width bb = 0 \<or> bb_height bb = 0 \<or>
    (\<exists>ptr w h stride. surf_buffer s = Some (ptr, w, h, stride) \<and> (ptr = 0 \<or> w = 0 \<or> h = 0))")
  case True
  then show ?thesis using draw_surface_nothing [OF assms(1)] by simp
next
  case False
  then obtain ptr w h stride where b: "surf_buffer s = Some (ptr, w, h, stride)" by (cases "surf_buffer s") auto
  let ?h = "min (unat h) (unat (bb_height bb))"
  have "0 < unat (bb_width bb)" using False by (simp add: unat_gt_0)
  then have s: "0 < unat (bb_stride bb)" using assms(2) unfolding bb_ok_def by linarith
  have "?h * unat (bb_stride bb) \<le> unat (bb_height bb) * unat (bb_stride bb)" by (intro mult_le_mono1) simp
  then have "a < bb_base bb \<or> bb_base bb + (0 + ?h) * unat (bb_stride bb) \<le> a"
    using assms(4) unfolding atLeastLessThan_iff de_Morgan_conj not_le not_less add_0 by linarith
  then show ?thesis using False b draw_surface_paint [OF assms(1-3) b] paint_outside [OF _ s]
    by (auto simp: word_gt_0)
qed

lemma draw_surface_pixel:
  assumes "BACKBUFFER d = Some bb" "bb_ok bb" "apart_from bb s" "cx < unat (bb_width bb)" "cy < unat (bb_height bb)"
  shows "bb_pixel bb cx cy (dmem (draw_surface s d)) =
    (if covers cx cy s then src_pixel cx cy (dmem d) s else bb_pixel bb cx cy (dmem d))"
proof (cases "surf_buffer s = None \<or> bb_width bb = 0 \<or> bb_height bb = 0 \<or>
    (\<exists>ptr w h stride. surf_buffer s = Some (ptr, w, h, stride) \<and> (ptr = 0 \<or> w = 0 \<or> h = 0))")
  case True
  then have "\<not> covers cx cy s" using assms(4,5) by (auto simp: covers_def)
  then show ?thesis using draw_surface_nothing [OF assms(1) True] by simp
next
  case False
  then obtain ptr w h stride where b: "surf_buffer s = Some (ptr, w, h, stride)" "ptr \<noteq> 0" "w \<noteq> 0" "h \<noteq> 0"
    by (cases "surf_buffer s") auto
  let ?w = "min (unat w) (unat (bb_width bb))" and ?h = "min (unat h) (unat (bb_height bb))"
  have lim: "0 + ?w * 4 \<le> unat (bb_stride bb)" "cx * 4 + 4 \<le> unat (bb_stride bb)" using assms(2,4) by (auto simp: bb_ok_def)
  have p: "dmem (draw_surface s d) = paint (bb_base bb) (unat (bb_stride bb)) 0 (?w * 4) 0
     (\<lambda>row c. dmem d (ptr + row * unat stride + c)) ?h (dmem d)"
    using draw_surface_paint [OF assms(1-3) b] False by (auto simp: word_gt_0)
  show ?thesis
  proof (cases "covers cx cy s")
    case True
    then have i: "0 \<le> cy" "cy < 0 + ?h" "0 \<le> cx * 4" "cx * 4 + 4 \<le> 0 + ?w * 4"
      using assms(4,5) b(1) by (auto simp: covers_def)
    have "load32 0 (\<lambda>k. dmem d (ptr + (cy - 0) * unat stride + (cx * 4 - 0 + k))) = pixel ptr (unat stride) cx cy (dmem d)"
      unfolding pixel_def by (rule load32_cong) (simp add: add.assoc)
    then show ?thesis unfolding p pixel_painted [OF lim i] using True b(1) by (simp add: src_pixel_def)
  next
    case False
    then have o: "cy < 0 \<or> 0 + ?h \<le> cy \<or> cx * 4 + 4 \<le> 0 \<or> 0 + ?w * 4 \<le> cx * 4"
      using assms(4,5) b by (auto simp: covers_def)
    show ?thesis unfolding p pixel_unpainted [OF lim o] using False by simp
  qed
qed

lemma src_pixel_outside:
  assumes "apart_from bb s" "covers cx cy s" "\<And>a. a \<notin> bb_span bb \<Longrightarrow> m' a = m a"
  shows "src_pixel cx cy m' s = src_pixel cx cy m s"
proof -
  obtain ptr w h stride where b: "surf_buffer s = Some (ptr, w, h, stride)" and c: "cx < unat w" "cy < unat h"
    using assms(2) by (auto simp: covers_def split: option.splits)
  have "m' (ptr + cy * unat stride + cx * 4 + i) = m (ptr + cy * unat stride + cx * 4 + i)" if "i < 4" for i
  proof -
    have "cx * 4 + i < unat w * 4" using c(1) that by linarith
    then have "ptr + cy * unat stride + (cx * 4 + i) \<notin> bb_span bb"
      using assms(1) b c(2) unfolding apart_from_def by (auto simp del: atLeastLessThan_iff)
    then show ?thesis using assms(3) by (simp add: add.assoc)
  qed
  then show ?thesis using b by (auto simp: src_pixel_def pixel_def intro: load32_cong)
qed

lemma draw_all:
  assumes "BACKBUFFER d = Some bb" "bb_ok bb" "\<forall>s \<in> set xs. apart_from bb s" "cx < unat (bb_width bb)" "cy < unat (bb_height bb)"
  shows "bb_pixel bb cx cy (dmem (fold draw_surface xs d)) =
      (case List.find (covers cx cy) (rev xs) of None \<Rightarrow> bb_pixel bb cx cy (dmem d)
       | Some s \<Rightarrow> src_pixel cx cy (dmem d) s) \<and>
    (\<forall>a. a \<notin> bb_span bb \<longrightarrow> dmem (fold draw_surface xs d) a = dmem d a) \<and>
    BACKBUFFER (fold draw_surface xs d) = Some bb"
  using assms(3)
proof (induction xs rule: rev_induct)
  case Nil
  then show ?case using assms(1) by simp
next
  case (snoc s xs)
  let ?d = "fold draw_surface xs d"
  have IH: "BACKBUFFER ?d = Some bb" "\<And>a. a \<notin> bb_span bb \<Longrightarrow> dmem ?d a = dmem d a"
    "bb_pixel bb cx cy (dmem ?d) = (case List.find (covers cx cy) (rev xs) of None \<Rightarrow> bb_pixel bb cx cy (dmem d)
       | Some s \<Rightarrow> src_pixel cx cy (dmem d) s)" using snoc by auto
  have ap: "apart_from bb s" using snoc.prems by simp
  have "dmem (draw_surface s ?d) a = dmem d a" if "a \<notin> bb_span bb" for a
    using draw_surface_outside [OF IH(1) assms(2) ap that] IH(2) [OF that] by (simp only:)
  moreover have "covers cx cy s \<Longrightarrow> src_pixel cx cy (dmem ?d) s = src_pixel cx cy (dmem d) s"
    by (rule src_pixel_outside [OF ap _ IH(2)])
  ultimately show ?case
    using draw_surface_pixel [OF IH(1) assms(2) ap assms(4,5)] IH(1,3) by (simp del: atLeastLessThan_iff)
qed

text \<open>C32: Composing the surfaces paints them in ascending z-order, surfaces with the same z in the order of their
  slots: every pixel of the backbuffer shows the last surface in that order that covers it, or keeps its colour
  when none does, and no byte outside the backbuffer changes.\<close>

theorem composite_all_paints_in_z_order:
  assumes "BACKBUFFER d = Some bb" "bb_ok bb" "\<forall>s \<in> set (SLOTS d). apart_from bb s"
    and "cx < unat (bb_width bb)" "cy < unat (bb_height bb)"
  shows "bb_pixel bb cx cy (dmem (composite_all d)) =
      (case List.find (covers cx cy) (rev (sort_key surf_z (filter shown (SLOTS d)))) of
         None \<Rightarrow> bb_pixel bb cx cy (dmem d)
       | Some s \<Rightarrow> src_pixel cx cy (dmem d) s) \<and>
    (\<forall>a. a \<notin> bb_span bb \<longrightarrow> dmem (composite_all d) a = dmem d a)"
  using draw_all [OF assms(1,2) _ assms(4,5), of "sort_key surf_z (filter shown (SLOTS d))"] assms(3)
  by (simp add: composite_all_eq del: atLeastLessThan_iff)

definition demo_surface :: "u32 \<Rightarrow> nat \<Rightarrow> u8 \<Rightarrow> surface_slot" where
  "demo_surface i ptr z = \<lparr>surf_id = i, surf_owner = 5, surf_buffer = Some (ptr, 2, 2, 8), surf_z = z\<rparr>"

definition demo_display :: display where
  "demo_display = \<lparr>FB_INFO = None, BACKBUFFER = Some \<lparr>bb_base = 0x1000, bb_width = 4, bb_height = 4, bb_stride = 16\<rparr>,
     COMPOSITOR_PID = Some 5, SLOTS = [demo_surface 1 0x2000 9, demo_surface 2 0x3000 3], NEXT_ID = 3,
     dmem = (\<lambda>a. if a = 0x2000 then 7 else 0)\<rparr>"

theorem composite_all_paints_in_z_order_witness:
  "bb_pixel \<lparr>bb_base = 0x1000, bb_width = 4, bb_height = 4, bb_stride = 16\<rparr> 0 0 (dmem (composite_all demo_display)) = 7"
proof -
  have s: "sort_key surf_z (filter shown (SLOTS demo_display)) = [demo_surface 2 0x3000 3, demo_surface 1 0x2000 9]"
    by (simp add: demo_display_def demo_surface_def shown_def)
  have a: "\<forall>s \<in> set (SLOTS demo_display). apart_from \<lparr>bb_base = 0x1000, bb_width = 4, bb_height = 4, bb_stride = 16\<rparr> s"
    by (auto simp: demo_display_def demo_surface_def apart_from_def)
  have f: "src_pixel 0 0 (dmem demo_display) (demo_surface 1 0x2000 9) = 7"
    by (simp add: src_pixel_def demo_surface_def demo_display_def pixel_def load32_eq)
  have c: "covers 0 0 (demo_surface 1 0x2000 9)" by (simp add: covers_def demo_surface_def)
  have b: "BACKBUFFER demo_display = Some \<lparr>bb_base = 0x1000, bb_width = 4, bb_height = 4, bb_stride = 16\<rparr>"
    "bb_ok \<lparr>bb_base = 0x1000, bb_width = 4, bb_height = 4, bb_stride = 16\<rparr>" by (simp_all add: demo_display_def bb_ok_def)
  show ?thesis
    using composite_all_paints_in_z_order [OF b a, of 0 0, THEN conjunct1] unfolding s by (simp add: f c)
qed

section \<open>Tiles\<close>

lemma fold_updates: "n \<le> length xs \<Longrightarrow> fold (\<lambda>i out. out[i := f i]) [0..<n] xs = map f [0..<n] @ drop n xs"
proof (induction n)
  case (Suc n)
  then show ?case by (simp add: list_update_append Cons_nth_drop_Suc [symmetric])
qed simp

lemma tile_width:
  assumes "0 < n" "n \<le> 8" "i \<le> n"
  shows "unat (of_nat i * (W div of_nat n) :: u32) = i * (unat W div n)"
proof -
  have W: "unat W < 2 ^ 32" using unsigned_less [of W, where 'a = nat] by simp
  have n: "unat (of_nat n :: u32) = n" "unat (of_nat i :: u32) = i" using assms by (simp_all add: unat_of_nat take_bit_nat_eq_self)
  have "i * (unat W div n) \<le> n * (unat W div n)" using assms by simp
  also have "\<dots> \<le> unat W" by simp
  finally have "i * (unat W div n) < 2 ^ 32" using W by linarith
  moreover have "unat W div n < 2 ^ 32" using W by (meson div_le_dividend le_less_trans)
  ultimately show ?thesis by (simp add: unat_word_ariths unat_div_distrib n)
qed

text \<open>The kernel's tiling of one to eight windows cuts the screen into full-height columns without a gap or an
  overlap: the first starts at the left edge, each starts where the one before it ends, and the last ends at the
  right edge.\<close>

theorem tiles_cover_the_screen:
  assumes "0 < num" "num \<le> 8" "i < num"
  shows "\<exists>x w. tile_layout W H num ! i = (x, 0, w, H) \<and> (i = 0 \<longrightarrow> x = 0) \<and>
    (if i + 1 = num then unat x + unat w = unat W
     else \<exists>w'. tile_layout W H num ! (i + 1) = (x + w, 0, w', H) \<and> unat x + unat w = unat (x + w))"
proof -
  have half: "unat (W div 2) \<le> unat W" "unat (W - W div 2) = unat W - unat (W div 2)"
    by (simp_all add: unat_div_distrib unat_sub word_le_nat_alt)
  consider "num = 1" | "num = 2" | "2 < num" using assms(1) by linarith
  then show ?thesis
  proof cases
    case 1
    then show ?thesis using assms by (simp add: tile_layout_def)
  next
    case 2
    then have "i = 0 \<or> i = 1" using assms by linarith
    then show ?thesis using 2 half by (auto simp: tile_layout_def Let_def)
  next
    case 3
    let ?t = "W div of_nat num"
    let ?f = "\<lambda>i. (of_nat i * ?t, 0 :: u32, if i + 1 = num then word_ssub W (of_nat i * ?t) else ?t, H)"
    have "tile_layout W H num = map ?f [0..<num] @ drop num (replicate 8 (0, 0, 0, 0))"
      using 3 assms(2) fold_updates [of num "replicate 8 (0, 0, 0, 0)" ?f] by (simp add: tile_layout_def Let_def)
    then have nth: "tile_layout W H num ! j = ?f j" if "j < num" for j
      using that by (simp add: nth_append)
    have tw: "unat (of_nat j * ?t) = j * (unat W div num)" if "j \<le> num" for j
      by (rule tile_width) (use assms that in auto)
    have below: "j * (unat W div num) \<le> unat W" if "j \<le> num" for j
      using that by (meson div_times_less_eq_dividend le_trans mult_le_mono1 times_div_less_eq_dividend)
    show ?thesis
    proof (cases "i + 1 = num")
      case True
      have "of_nat i * ?t \<le> W" using tw [of i] below [of i] assms by (simp add: word_le_nat_alt)
      then show ?thesis using True nth [of i] assms(3)
        by (auto simp: word_ssub_def not_less unat_sub word_le_nat_alt word_less_nat_alt)
    next
      case False
      then have j: "i + 1 < num" using assms(3) by simp
      have "of_nat (i + 1) * ?t = of_nat i * ?t + ?t" by (simp add: algebra_simps)
      then show ?thesis using False nth [of i] nth [OF j] assms(3) tw [of i] tw [of 1] tw [of "i + 1"] j
        by (auto simp: algebra_simps)
    qed
  qed
qed

theorem tiles_cover_the_screen_witness:
  "\<exists>x w. tile_layout 1920 1080 7 ! 6 = (x, 0, w, 1080) \<and> unat x + unat w = 1920"
  using tiles_cover_the_screen [of 7 6 1920 1080] by auto

end
