(* ===== verification/Perf.thy ===== *)
theory Perf
  imports Prelude
begin

text \<open>
  Performance counters (\<open>kernel/arch/x86_64/perf.rs\<close>): six hardware counters handed out by slot. The
  model-specific registers are a function from register number to value; the CPU advances the counters
  between operations.
\<close>

section \<open>Events\<close>

definition MAX_COUNTERS :: nat where "MAX_COUNTERS = 6"
definition PERF_CTL_BASE :: u32 where "PERF_CTL_BASE = 0xC0010200"
definition PERF_CTR_BASE :: u32 where "PERF_CTR_BASE = 0xC0010201"

datatype perf_event = Cycles | Instructions | L1dAccess | L1dMiss | L2Access | L2Miss
  | BranchRetired | BranchMispred | IcacheMiss | StallCycles

fun event_select_umask :: "perf_event \<Rightarrow> u8 \<times> u8" where
  "event_select_umask Cycles = (0x76, 0x00)"
| "event_select_umask Instructions = (0xC0, 0x00)"
| "event_select_umask L1dAccess = (0x40, 0xFF)"
| "event_select_umask L1dMiss = (0x41, 0xFF)"
| "event_select_umask L2Access = (0x43, 0xFF)"
| "event_select_umask L2Miss = (0x45, 0xFF)"
| "event_select_umask BranchRetired = (0xC2, 0x00)"
| "event_select_umask BranchMispred = (0xC3, 0x00)"
| "event_select_umask IcacheMiss = (0x81, 0x00)"
| "event_select_umask StallCycles = (0x87, 0x00)"

definition perf_event_from_u32 :: "u32 \<Rightarrow> perf_event option" where
  "perf_event_from_u32 v =
     (let evs = [Cycles, Instructions, L1dAccess, L1dMiss, L2Access, L2Miss, BranchRetired, BranchMispred,
                 IcacheMiss, StallCycles]
      in if v < 10 then Some (evs ! unat v) else None)"

definition build_ctl :: "u8 \<Rightarrow> u8 \<Rightarrow> u64" where
  "build_ctl event umask =
     (let os_bit = push_bit 17 1; user_bit = push_bit 16 1; en_bit = push_bit 22 1;
          evsel_lo = ucast event AND 0xFF; umask_f = push_bit 8 (ucast umask)
      in evsel_lo OR umask_f OR os_bit OR user_bit OR en_bit)"

section \<open>Counters\<close>

record counter_slot =
  cs_occupied :: bool
  cs_hw_idx :: nat
  cs_proc_idx :: nat

record perf =
  perf_slots :: "counter_slot list"
  msr :: "u32 \<Rightarrow> u64"

definition perf_boot :: perf where
  "perf_boot = \<lparr>perf_slots = replicate MAX_COUNTERS \<lparr>cs_occupied = False, cs_hw_idx = 0, cs_proc_idx = 0\<rparr>, msr = (\<lambda>_. 0)\<rparr>"

definition ctl_msr :: "nat \<Rightarrow> u32" where "ctl_msr i = PERF_CTL_BASE + of_nat i * 2"
definition ctr_msr :: "nat \<Rightarrow> u32" where "ctr_msr i = PERF_CTR_BASE + of_nat i * 2"

definition write_msr :: "u32 \<Rightarrow> u64 \<Rightarrow> perf \<Rightarrow> perf" where
  "write_msr r v p = p\<lparr>msr := (msr p)(r := v)\<rparr>"

definition perf_open :: "u32 \<Rightarrow> nat \<Rightarrow> perf \<Rightarrow> u32 option \<times> perf" where
  "perf_open event_id proc_idx p =
     (case perf_event_from_u32 event_id of
        None \<Rightarrow> (None, p)
      | Some ev \<Rightarrow>
          let (evsel, umask) = event_select_umask ev
          in case first_index (\<lambda>s. \<not> cs_occupied s) (perf_slots p) of
               None \<Rightarrow> (None, p)
             | Some i \<Rightarrow>
                 let p1 = p\<lparr>perf_slots := (perf_slots p)[i := \<lparr>cs_occupied = True, cs_hw_idx = i, cs_proc_idx = proc_idx\<rparr>]\<rparr>;
                     p2 = write_msr (ctr_msr i) 0 p1
                 in (Some (of_nat i), write_msr (ctl_msr i) (build_ctl evsel umask) p2))"

definition perf_read :: "u32 \<Rightarrow> perf \<Rightarrow> u64 option" where
  "perf_read handle p =
     (let h = unat handle
      in if h \<ge> MAX_COUNTERS then None
         else if \<not> cs_occupied (perf_slots p ! h) then None
         else Some (msr p (ctr_msr h) AND 0x0000FFFFFFFFFFFF))"

definition perf_release :: "nat \<Rightarrow> perf \<Rightarrow> perf" where
  "perf_release i p =
     (let p1 = write_msr (ctl_msr i) 0 p
      in p1\<lparr>perf_slots := (perf_slots p1)[i := (perf_slots p1 ! i)\<lparr>cs_occupied := False\<rparr>]\<rparr>)"

definition perf_close :: "u32 \<Rightarrow> perf \<Rightarrow> bool \<times> perf" where
  "perf_close handle p =
     (let h = unat handle
      in if h \<ge> MAX_COUNTERS then (False, p)
         else if \<not> cs_occupied (perf_slots p ! h) then (False, p)
         else (True, perf_release h p))"

definition perf_close_for_process :: "nat \<Rightarrow> perf \<Rightarrow> perf" where
  "perf_close_for_process proc_idx p =
     fold (\<lambda>i p. if cs_occupied (perf_slots p ! i) \<and> cs_proc_idx (perf_slots p ! i) = proc_idx
                 then perf_release i p else p) [0..<MAX_COUNTERS] p"

section \<open>Ownership\<close>

definition perf_inv :: "perf \<Rightarrow> bool" where
  "perf_inv p \<longleftrightarrow> length (perf_slots p) = MAX_COUNTERS \<and>
     (\<forall>i < MAX_COUNTERS. cs_occupied (perf_slots p ! i) \<longrightarrow> cs_hw_idx (perf_slots p ! i) = i \<and> msr p (ctl_msr i) \<noteq> 0) \<and>
     (\<forall>i < MAX_COUNTERS. \<not> cs_occupied (perf_slots p ! i) \<longrightarrow> msr p (ctl_msr i) = 0)"

text \<open>The counters a process holds.\<close>

definition counters_of :: "nat \<Rightarrow> perf \<Rightarrow> nat set" where
  "counters_of proc p = {i. i < MAX_COUNTERS \<and> cs_occupied (perf_slots p ! i) \<and> cs_proc_idx (perf_slots p ! i) = proc}"

lemma build_ctl_enabled: "build_ctl e u \<noteq> 0"
proof -
  have "bit (build_ctl e u) 22" by (simp add: build_ctl_def Let_def bit_simps)
  then show ?thesis by auto
qed

lemma unat_msr:
  assumes "i < MAX_COUNTERS"
  shows "unat (ctl_msr i) = 0xC0010200 + 2 * i" "unat (ctr_msr i) = 0xC0010201 + 2 * i"
proof -
  have "i = 0 \<or> i = 1 \<or> i = 2 \<or> i = 3 \<or> i = 4 \<or> i = 5" using assms unfolding MAX_COUNTERS_def by arith
  then show "unat (ctl_msr i) = 0xC0010200 + 2 * i" "unat (ctr_msr i) = 0xC0010201 + 2 * i"
    by (auto simp: ctl_msr_def ctr_msr_def PERF_CTL_BASE_def PERF_CTR_BASE_def)
qed

lemma msr_distinct:
  assumes "i < MAX_COUNTERS" "j < MAX_COUNTERS"
  shows "ctl_msr i = ctl_msr j \<longleftrightarrow> i = j" "ctr_msr i \<noteq> ctl_msr j"
proof -
  show "ctl_msr i = ctl_msr j \<longleftrightarrow> i = j" using unat_msr(1) assms by (metis add_left_cancel mult_left_cancel zero_neq_numeral)
  have "odd (unat (ctr_msr i))" "even (unat (ctl_msr j))" using unat_msr [of i] unat_msr [of j] assms by simp_all
  then show "ctr_msr i \<noteq> ctl_msr j" by metis
qed

text \<open>Releasing every counter of a process, slot by slot.\<close>

definition released :: "nat \<Rightarrow> nat \<Rightarrow> perf \<Rightarrow> perf \<Rightarrow> bool" where
  "released proc k p p' \<longleftrightarrow> length (perf_slots p') = length (perf_slots p) \<and>
     (\<forall>i < MAX_COUNTERS. if i < k \<and> i \<in> counters_of proc p
        then perf_slots p' ! i = (perf_slots p ! i)\<lparr>cs_occupied := False\<rparr> \<and> msr p' (ctl_msr i) = 0
        else perf_slots p' ! i = perf_slots p ! i \<and> msr p' (ctl_msr i) = msr p (ctl_msr i))"

lemma released_loop:
  assumes "perf_inv p" "k \<le> MAX_COUNTERS"
  shows "released proc k p (fold (\<lambda>i p. if cs_occupied (perf_slots p ! i) \<and> cs_proc_idx (perf_slots p ! i) = proc
     then perf_release i p else p) [0..<k] p)"
  using assms(2)
proof (induction k)
  case 0
  then show ?case by (simp add: released_def)
next
  case (Suc k)
  let ?f = "\<lambda>i p. if cs_occupied (perf_slots p ! i) \<and> cs_proc_idx (perf_slots p ! i) = proc then perf_release i p else p"
  let ?p = "fold ?f [0..<k] p"
  have IH: "released proc k p ?p" and k: "k < MAX_COUNTERS" using Suc by simp_all
  have len: "length (perf_slots ?p) = MAX_COUNTERS" using IH assms(1) by (simp add: released_def perf_inv_def)
  have at_k: "perf_slots ?p ! k = perf_slots p ! k" using IH k by (auto simp: released_def)
  show ?case
  proof (cases "k \<in> counters_of proc p")
    case True
    then have step: "fold ?f [0..<Suc k] p = perf_release k ?p" using at_k by (simp add: counters_of_def)
    have "if i < Suc k \<and> i \<in> counters_of proc p
        then perf_slots (perf_release k ?p) ! i = (perf_slots p ! i)\<lparr>cs_occupied := False\<rparr> \<and> msr (perf_release k ?p) (ctl_msr i) = 0
        else perf_slots (perf_release k ?p) ! i = perf_slots p ! i \<and> msr (perf_release k ?p) (ctl_msr i) = msr p (ctl_msr i)"
      if i: "i < MAX_COUNTERS" for i
      using IH i k len at_k True msr_distinct(1) [OF i k]
      by (cases "i = k") (auto simp: released_def perf_release_def write_msr_def less_Suc_eq split: if_splits)
    moreover have "length (perf_slots (perf_release k ?p)) = length (perf_slots p)"
      using IH by (simp add: released_def perf_release_def write_msr_def)
    ultimately show ?thesis unfolding step released_def by blast
  next
    case False
    then have "fold ?f [0..<Suc k] p = ?p" using at_k k by (auto simp: counters_of_def)
    then show ?thesis using IH False by (auto simp: released_def less_Suc_eq)
  qed
qed

lemma perf_close_for_process_released: "perf_inv p \<Longrightarrow> released proc MAX_COUNTERS p (perf_close_for_process proc p)"
  unfolding perf_close_for_process_def by (rule released_loop) simp_all

lemma perf_close_for_process_inv: "perf_inv p \<Longrightarrow> perf_inv (perf_close_for_process proc p)"
  using perf_close_for_process_released [of p proc]
  by (auto simp: perf_inv_def released_def split: if_splits)

lemma counters_of_closed:
  assumes "perf_inv p"
  shows "counters_of q (perf_close_for_process proc p) = (if q = proc then {} else counters_of q p)"
proof -
  let ?p = "perf_close_for_process proc p"
  have "i \<in> counters_of q ?p \<longleftrightarrow> q \<noteq> proc \<and> i \<in> counters_of q p" if i: "i < MAX_COUNTERS" for i
  proof (cases "i \<in> counters_of proc p")
    case True
    then have "perf_slots ?p ! i = (perf_slots p ! i)\<lparr>cs_occupied := False\<rparr>"
      using perf_close_for_process_released [OF assms, of proc] i by (auto simp: released_def)
    then show ?thesis using True by (auto simp: counters_of_def)
  next
    case False
    then have "perf_slots ?p ! i = perf_slots p ! i"
      using perf_close_for_process_released [OF assms, of proc] i by (auto simp: released_def)
    then show ?thesis using False by (auto simp: counters_of_def)
  qed
  then show ?thesis by (auto simp: counters_of_def)
qed

lemma perf_open_fresh:
  assumes "perf_inv p" "perf_open ev proc p = (Some h, p')"
  shows "perf_inv p'" "counters_of proc p' = insert (unat h) (counters_of proc p)" "\<forall>q. unat h \<notin> counters_of q p"
    "perf_read h p' = Some 0"
proof -
  obtain e i where e: "perf_event_from_u32 ev = Some e" and i: "first_index (\<lambda>s. \<not> cs_occupied s) (perf_slots p) = Some i"
    and h: "h = of_nat i"
    and p': "p' = write_msr (ctl_msr i) (build_ctl (fst (event_select_umask e)) (snd (event_select_umask e)))
      (write_msr (ctr_msr i) 0 (p\<lparr>perf_slots := (perf_slots p)[i := \<lparr>cs_occupied = True, cs_hw_idx = i, cs_proc_idx = proc\<rparr>]\<rparr>))"
    using assms(2) by (auto simp: perf_open_def Let_def split: option.splits prod.splits)
  have len: "length (perf_slots p) = MAX_COUNTERS" using assms(1) by (simp add: perf_inv_def)
  have lt: "i < MAX_COUNTERS" and free: "\<not> cs_occupied (perf_slots p ! i)"
    using first_index_SomeD [OF i] len by auto
  have hi: "unat h = i" using lt by (simp add: h MAX_COUNTERS_def unat_of_nat take_bit_nat_eq_self)
  show "perf_inv p'"
    using assms(1) lt msr_distinct build_ctl_enabled msr_distinct(2) [symmetric]
    by (auto simp: perf_inv_def p' write_msr_def nth_list_update)
  show "counters_of proc p' = insert (unat h) (counters_of proc p)"
    using lt len by (auto simp: counters_of_def p' hi write_msr_def nth_list_update)
  show "\<forall>q. unat h \<notin> counters_of q p" using free by (simp add: hi counters_of_def)
  show "perf_read h p' = Some 0"
    using lt len msr_distinct [OF lt lt] by (simp add: perf_read_def hi p' write_msr_def)
qed

end
