(* ===== verification/Kernel.thy ===== *)
theory Kernel
  imports Ipc Ps2 Eevdf Vfs Elf Display Perf
begin

text \<open>
  The state of the whole kernel, one field per component, the access to user memory
  (\<open>kernel/syscall/user_ptr.rs\<close>), and the checks every system call makes: capabilities
  (\<open>kernel/capability/mod.rs\<close>) and information flow (\<open>kernel/iflow/mod.rs\<close>).
\<close>

section \<open>State\<close>

record kernel =
  k_pt :: ptable
  k_rq :: rq
  k_ipc :: ipc_queues
  k_vfs :: vfs
  k_tty :: tty
  k_journal :: journal
  k_buddy :: buddy
  k_mmu :: mmu
  k_mem :: memory
  k_display :: display
  k_perf :: perf
  k_debug_regs :: hw_bp_state
  k_anon :: "u64 list"
  k_programs :: "u8 list option list"
  k_input :: input_state
  k_ps2 :: ps2
  k_shm :: "(nat \<times> nat) option list"
  k_fb_owner :: "u32 option"
  k_fb_others :: u32

text \<open>\<open>write_dr\<close> leaves the status register \<open>dr6\<close> of the CPU alone; \<open>read_dr\<close> reads them all.\<close>

definition write_dr :: "hw_bp_state \<Rightarrow> hw_bp_state \<Rightarrow> hw_bp_state" where
  "write_dr st cpu = st\<lparr>dr6 := dr6 cpu\<rparr>"

lemma no_breakpoint_armed: "\<not> hw_bp_is_enabled (write_dr hw_bp_new cpu) j"
proof (cases "j < 4")
  case True
  have "bit (0x400 :: u64) (j * 2) \<longleftrightarrow> j * 2 = 10" by (auto simp: bit_simps)
  with True show ?thesis by (simp add: hw_bp_is_enabled_iff write_dr_def hw_bp_new_def)
qed (simp add: hw_bp_is_enabled_def MAX_HW_BREAKPOINTS_def)

section \<open>Errors\<close>

datatype sys_err = INVAL | NOENT | BADFD | MFILE | NOMEM | PERM | AGAIN

fun sys_err_code :: "sys_err \<Rightarrow> int" where
  "sys_err_code INVAL = - 1"
| "sys_err_code NOENT = - 2"
| "sys_err_code BADFD = - 3"
| "sys_err_code MFILE = - 4"
| "sys_err_code NOMEM = - 5"
| "sys_err_code PERM = - 6"
| "sys_err_code AGAIN = - 11"

type_synonym 'a sys_result = "sys_err + 'a"

abbreviation Err :: "sys_err \<Rightarrow> 'a sys_result" where
  "Err e \<equiv> Inl e"

abbreviation Ok :: "'a \<Rightarrow> 'a sys_result" where
  "Ok x \<equiv> Inr x"

definition result_to_rax :: "u64 sys_result \<Rightarrow> u64" where
  "result_to_rax r = (case r of Inr v \<Rightarrow> v | Inl e \<Rightarrow> word_of_int (sys_err_code e))"

section \<open>User pointers\<close>

definition MAX_USER_COPY :: nat where "MAX_USER_COPY = 4096"
definition USER_VA_MAX :: u64 where "USER_VA_MAX = 0x800000000000"

definition validate_user_ptr_large :: "u64 \<Rightarrow> nat \<Rightarrow> unit sys_result" where
  "validate_user_ptr_large ptr len =
     (if len = 0 then Ok ()
      else if ptr = 0 \<or> ptr \<ge> USER_VA_MAX then Err INVAL
      else let stop = word_sadd ptr (of_nat len)
           in if stop > USER_VA_MAX \<or> stop \<le> ptr then Err INVAL else Ok ())"

text \<open>The page loop; both bounds are below \<open>USER_VA_MAX\<close>, so the addition cannot wrap.\<close>

function validate_pages :: "u64 \<Rightarrow> nat \<Rightarrow> nat \<Rightarrow> mmu \<Rightarrow> bool" where
  "validate_pages cr3 page_va last_page m =
     (if page_va \<le> last_page then
        if translate_in_space cr3 (of_nat page_va) m = None then False
        else if page_va = last_page then True
        else validate_pages cr3 (page_va + 4096) last_page m
      else True)"
  by pat_completeness auto
termination
  by (relation "measure (\<lambda>(cr3, p, l, m). l + 1 - p)") auto

declare validate_pages.simps [simp del]

definition validate_user_range :: "u64 \<Rightarrow> u64 \<Rightarrow> nat \<Rightarrow> mmu \<Rightarrow> unit sys_result" where
  "validate_user_range cr3 ptr len m =
     (if len = 0 then Ok ()
      else if ptr \<ge> USER_VA_MAX then Err INVAL
      else let stop = word_sadd ptr (of_nat len)
           in if stop > USER_VA_MAX \<or> stop \<le> ptr then Err INVAL
              else if len > MAX_USER_COPY then Err INVAL
              else let page_va = ptr AND NOT (PAGE_SIZE_4K - 1);
                       last_page = (stop - 1) AND NOT (PAGE_SIZE_4K - 1)
                   in if validate_pages cr3 (unat page_va) (unat last_page) m then Ok () else Err INVAL)"

definition current_cr3 :: "kernel \<Rightarrow> u64 sys_result" where
  "current_cr3 k = (case current_descriptor (k_pt k) of None \<Rightarrow> Err INVAL | Some d \<Rightarrow> Ok (pcb_cr3 d))"

text \<open>Both steps of every handler that takes a pointer.\<close>

definition check_user_ptr :: "u64 \<Rightarrow> nat \<Rightarrow> kernel \<Rightarrow> unit sys_result" where
  "check_user_ptr ptr len k =
     (case current_cr3 k of
        Inl e \<Rightarrow> Err e
      | Inr cr3 \<Rightarrow> validate_user_range cr3 ptr len (k_mmu k))"

text \<open>Loads and stores of the kernel at a user address go through the page tables the CPU has loaded; an
  address without a translation would be a page fault.\<close>

definition uaddr :: "kernel \<Rightarrow> u64 \<Rightarrow> nat" where
  "uaddr k va = (case translate (va) (k_mmu k) of None \<Rightarrow> 0 | Some pa \<Rightarrow> unat pa)"

definition uload :: "kernel \<Rightarrow> u64 \<Rightarrow> nat \<Rightarrow> u8 list" where
  "uload k va n = map (\<lambda>i. k_mem k (uaddr k (va + of_nat i))) [0..<n]"

definition ustore :: "u64 \<Rightarrow> u8 list \<Rightarrow> kernel \<Rightarrow> kernel" where
  "ustore va bs k =
     k\<lparr>k_mem := fold (\<lambda>i mem. mem(uaddr k (va + of_nat i) := bs ! i)) [0..<length bs] (k_mem k)\<rparr>"

section \<open>Capability and flow checks\<close>

definition current_caps :: "kernel \<Rightarrow> capset" where
  "current_caps k = (case current_descriptor (k_pt k) of None \<Rightarrow> capset_none | Some d \<Rightarrow> pcb_caps d)"

definition require :: "u64 \<Rightarrow> kernel \<Rightarrow> unit sys_result" where
  "require required k = (if has (current_caps k) required then Ok () else Err PERM)"

definition current_label :: "kernel \<Rightarrow> iflow_label" where
  "current_label k = (case current_descriptor (k_pt k) of None \<Rightarrow> label_default_user | Some d \<Rightarrow> pcb_iflow d)"

definition label_of_index :: "nat \<Rightarrow> kernel \<Rightarrow> iflow_label option" where
  "label_of_index idx k = map_option pcb_iflow (get_descriptor idx (k_pt k))"

definition check_flow_to :: "iflow_label \<Rightarrow> kernel \<Rightarrow> unit sys_result" where
  "check_flow_to dst k = (if can_flow (current_label k) dst then Ok () else Err PERM)"

text \<open>\<open>current_pid().unwrap_or(0)\<close>.\<close>

definition caller_pid :: "kernel \<Rightarrow> u32" where
  "caller_pid k = (case current_pid (k_pt k) of None \<Rightarrow> 0 | Some p \<Rightarrow> p)"

section \<open>Validated ranges\<close>

lemma validate_pages_iff:
  "validate_pages cr3 p l m \<longleftrightarrow> (\<forall>k. p + k * 4096 \<le> l \<longrightarrow> translate_in_space cr3 (of_nat (p + k * 4096)) m \<noteq> None)"
proof (induction cr3 p l m rule: validate_pages.induct)
  case (1 cr3 p l m)
  let ?t = "\<lambda>k. translate_in_space cr3 (of_nat (p + k * 4096)) m"
  have shift: "(\<forall>k. p + k * 4096 \<le> l \<longrightarrow> ?t k \<noteq> None) \<longleftrightarrow>
      (p \<le> l \<longrightarrow> ?t 0 \<noteq> None) \<and> (\<forall>k. p + 4096 + k * 4096 \<le> l \<longrightarrow> translate_in_space cr3 (of_nat (p + 4096 + k * 4096)) m \<noteq> None)"
    (is "?L = ?R")
  proof
    assume L: ?L
    show ?R
    proof (intro conjI allI impI)
      show "?t 0 \<noteq> None" if "p \<le> l" using L that by (metis add_0_right mult_0)
      show "translate_in_space cr3 (of_nat (p + 4096 + k * 4096)) m \<noteq> None" if "p + 4096 + k * 4096 \<le> l" for k
        using L [rule_format, of "Suc k"] that by (simp add: ac_simps)
    qed
  next
    assume R: ?R
    show ?L
    proof (intro allI impI)
      fix k assume "p + k * 4096 \<le> l"
      then show "?t k \<noteq> None" using R by (cases k) (auto simp: ac_simps)
    qed
  qed
  consider "\<not> p \<le> l" | "p \<le> l" "?t 0 = None" | "p = l" "?t 0 \<noteq> None" | "p < l" "?t 0 \<noteq> None" by linarith
  then show ?case
  proof cases
    case 1
    then show ?thesis by (subst validate_pages.simps) auto
  next
    case 2
    then show ?thesis unfolding shift by (subst validate_pages.simps) simp
  next
    case 3
    then show ?thesis unfolding shift by (subst validate_pages.simps) simp
  next
    case 4
    then show ?thesis unfolding shift using "1.IH" by (subst validate_pages.simps) auto
  qed
qed

lemma unat_page_base: "unat (w AND NOT (PAGE_SIZE_4K - 1)) = unat w div 4096 * 4096" for w :: u64
proof -
  have "unat (w AND 0xFFF) = unat w mod 4096"
    unfolding low_masks take_bit_eq_mask [symmetric] unsigned_take_bit_eq by (simp add: take_bit_eq_mod)
  moreover have "unat w = unat (w AND NOT 0xFFF) + unat (w AND 0xFFF)"
  proof -
    have "unat (w AND NOT 0xFFF) \<le> unat w" using word_and_le2 [of w "NOT 0xFFF"] by (simp add: word_le_nat_alt)
    moreover have "w - (w AND NOT 0xFFF) = w AND 0xFFF" using and_not_split [of w "0xFFF"] by (metis add_diff_cancel_left')
    ultimately show ?thesis by (metis le_add_diff_inverse unat_sub word_le_nat_alt)
  qed
  ultimately show ?thesis
    using div_mult_mod_eq [of "unat w" 4096] by (simp add: PAGE_SIZE_4K_def)
qed

lemma translate_None_page:
  assumes "unat u div 4096 = unat v div 4096"
  shows "translate_in_space cr3 u m = None \<longleftrightarrow> translate_in_space cr3 v m = None"
proof -
  have "pml4_index u = pml4_index v" "pdpt_index u = pdpt_index v" "pd_index u = pd_index v" "pt_index u = pt_index v"
    using path_page [OF assms] by (simp_all add: path_def)
  then show ?thesis by (simp add: translate_in_space_def Let_def)
qed

lemma unat_add_of_nat: "unat a + n < 2 ^ 64 \<Longrightarrow> unat (a + of_nat n :: u64) = unat a + n"
  by (simp add: unat_word_ariths unat_of_nat take_bit_nat_eq_self take_bit_eq_mod)

text \<open>The pages of a range that ends before address \<open>2 ^ 64\<close> are those of its bytes.\<close>

lemma validate_pages_bytes:
  assumes "0 < len" "unat ptr + len < 2 ^ 64"
  shows "validate_pages cr3 (unat ptr div 4096 * 4096) ((unat ptr + len - 1) div 4096 * 4096) m \<longleftrightarrow>
    (\<forall>i < len. translate_in_space cr3 (ptr + of_nat i) m \<noteq> None)"
proof -
  let ?b = "unat ptr div 4096" and ?e = "(unat ptr + len - 1) div 4096"
  have pg: "unat (of_nat (q * 4096) :: u64) div 4096 = q" if "q \<le> ?e" for q
  proof -
    have "q * 4096 \<le> unat ptr + len - 1" using that by (metis div_times_less_eq_dividend le_trans mult_le_mono1)
    then have "unat (of_nat (q * 4096) :: u64) = q * 4096"
      using assms unfolding unat_of_nat by (intro mod_less) simp
    then show ?thesis by simp
  qed
  show ?thesis unfolding validate_pages_iff
  proof (intro iffI allI impI)
    fix i assume all: "\<forall>k. ?b * 4096 + k * 4096 \<le> ?e * 4096 \<longrightarrow> translate_in_space cr3 (of_nat (?b * 4096 + k * 4096)) m \<noteq> None"
      and i: "i < len"
    let ?q = "(unat ptr + i) div 4096"
    have q: "?b \<le> ?q" "?q \<le> ?e" using i by (auto intro!: div_le_mono)
    then have "?b * 4096 + (?q - ?b) * 4096 = ?q * 4096" by (simp add: diff_mult_distrib)
    then have "translate_in_space cr3 (of_nat (?q * 4096)) m \<noteq> None" using all [rule_format, of "?q - ?b"] q by simp
    moreover have "unat (ptr + of_nat i) div 4096 = unat (of_nat (?q * 4096) :: u64) div 4096"
      using pg [OF q(2)] unat_add_of_nat [of ptr i] i assms by simp
    ultimately show "translate_in_space cr3 (ptr + of_nat i) m \<noteq> None"
      using translate_None_page [of "ptr + of_nat i" "of_nat (?q * 4096)" cr3 m] by (simp only: not_False_eq_True)
  next
    fix k assume all: "\<forall>i < len. translate_in_space cr3 (ptr + of_nat i) m \<noteq> None" and k: "?b * 4096 + k * 4096 \<le> ?e * 4096"
    then have q: "?b + k \<le> ?e" by simp
    define i where "i = (?b + k) * 4096 - unat ptr"
    have low: "(?b + k) * 4096 \<le> unat ptr + len - 1"
      using q by (metis div_times_less_eq_dividend le_trans mult_le_mono1)
    have i: "i < len" "(unat ptr + i) div 4096 = ?b + k"
    proof -
      show "i < len" using low assms by (simp add: i_def)
      show "(unat ptr + i) div 4096 = ?b + k"
      proof (cases "unat ptr \<le> (?b + k) * 4096")
        case True
        then show ?thesis by (simp add: i_def)
      next
        case False
        then have "i = 0" "k = 0" using div_mult_mod_eq [of "unat ptr" 4096] by (auto simp: i_def)
        then show ?thesis by simp
      qed
    qed
    have "unat (ptr + of_nat i) div 4096 = unat (of_nat ((?b + k) * 4096) :: u64) div 4096"
      using pg [OF q] unat_add_of_nat [of ptr i] i assms by simp
    moreover have "translate_in_space cr3 (ptr + of_nat i) m \<noteq> None" using all i(1) by blast
    ultimately have "translate_in_space cr3 (of_nat ((?b + k) * 4096)) m \<noteq> None"
      using translate_None_page [of "ptr + of_nat i" "of_nat ((?b + k) * 4096)" cr3 m] by (simp only: not_False_eq_True)
    then show "translate_in_space cr3 (of_nat (?b * 4096 + k * 4096)) m \<noteq> None" by (simp only: add_mult_distrib not_False_eq_True)
  qed
qed

lemma validate_user_range_iff:
  assumes "0 < len" "len < 2 ^ 64"
  shows "validate_user_range cr3 ptr len m = Ok () \<longleftrightarrow>
    unat ptr + len \<le> 2 ^ 47 \<and> len \<le> 4096 \<and> (\<forall>i < len. translate_in_space cr3 (ptr + of_nat i) m \<noteq> None)"
proof -
  let ?s = "word_sadd ptr (of_nat len)"
  have max: "unat USER_VA_MAX = 2 ^ 47" by (simp add: USER_VA_MAX_def)
  have len: "unat (of_nat len :: u64) = len" using assms by (simp add: unat_of_nat take_bit_nat_eq_self)
  have s: "unat ?s = min (unat ptr + len) (2 ^ 64 - 1)" by (simp add: unat_word_sadd len)
  have bad: "ptr \<ge> USER_VA_MAX \<or> ?s > USER_VA_MAX \<or> ?s \<le> ptr \<longleftrightarrow> \<not> unat ptr + len \<le> 2 ^ 47"
    using assms max s unfolding word_le_nat_alt word_less_nat_alt by auto
  show ?thesis
  proof (cases "unat ptr + len \<le> 2 ^ 47")
    case True
    then have u: "unat ?s = unat ptr + len" using s by simp
    have last: "unat (?s - 1) = unat ptr + len - 1"
      using u assms by (metis One_nat_def Suc_leI add_gr_0 unat_1 unat_sub word_le_nat_alt)
    have "unat ptr + len < 2 ^ 64" using True by simp
    then show ?thesis using bad True assms validate_pages_bytes [of len ptr cr3 m]
      by (auto simp: validate_user_range_def Let_def last unat_page_base MAX_USER_COPY_def)
  next
    case False
    then show ?thesis using bad assms by (auto simp: validate_user_range_def Let_def)
  qed
qed

text \<open>C13: A range of user memory is accepted exactly if it lies below \<open>2 ^ 47\<close> without wrapping around, has at most
  4096 bytes, and the page of every byte in it is present; an accepted pointer can therefore be dereferenced over
  its whole length.\<close>

theorem validate_user_range_exact:
  assumes "0 < len" "len < 2 ^ 64"
  shows "validate_user_range cr3 ptr len m =
    (if unat ptr + len \<le> 2 ^ 47 \<and> len \<le> 4096 \<and> (\<forall>i < len. translate_in_space cr3 (ptr + of_nat i) m \<noteq> None)
     then Ok () else Err INVAL)"
proof -
  have "validate_user_range cr3 ptr len m = Ok () \<or> validate_user_range cr3 ptr len m = Err INVAL"
    by (simp add: validate_user_range_def Let_def)
  then show ?thesis using validate_user_range_iff [OF assms, of cr3 ptr m] by (auto split: if_splits)
qed

theorem validate_user_range_exact_witness:
  "validate_user_range 0x200000 0x7FFFFFFFFFF0 32 demo_mmu = Err INVAL"
  using validate_user_range_exact [of 32 "0x200000" "0x7FFFFFFFFFF0" demo_mmu] by simp

end
