(* ===== verification/Lifecycle.thy ===== *)
theory Lifecycle
  imports Kernel
begin

text \<open>
  The life of a process across the kernel's components (\<open>kernel/process/lifecycle.rs\<close>, the waiting and
  waking of \<open>kernel/process/pid.rs\<close> and the process calls of
  \<open>kernel/syscall/dispatcher/process.rs\<close>): creation from a program image, entry into user mode, exit with
  the release of everything the process held, and \<open>waitpid\<close>.
\<close>

definition USER_SS :: u64 where "USER_SS = 0x18"
definition USER_CS :: u64 where "USER_CS = 0x20"
definition WNOHANG :: u32 where "WNOHANG = 1"
definition ANON_BASE :: u64 where "ANON_BASE = 0x40000000"
definition ANON_LIMIT :: u64 where "ANON_LIMIT = 0x70000000"
definition MAX_PROGRAMS :: nat where "MAX_PROGRAMS = 14"

text \<open>How a call that may not come back to its caller ends: with a result, with another process in user mode,
  with the CPU halted for good (no process is runnable, or it was asked to), or with a reset of the machine.\<close>

datatype outcome = Return "u64 sys_result" | Resumed | Idle | Reset

section \<open>Creation\<close>

fun map_stack_pages :: "u64 \<Rightarrow> u64 list \<Rightarrow> mmu \<Rightarrow> bool \<times> mmu" where
  "map_stack_pages cr3 [] m = (True, m)"
| "map_stack_pages cr3 (va # vas) m =
     (case alloc_table_page m of
        (None, m1) \<Rightarrow> (False, m1)
      | (Some pa, m1) \<Rightarrow>
          (case map_page_in_space cr3 va pa (flags_as_u64 user_rw) m1 of
             (False, m2) \<Rightarrow> (False, m2)
           | (True, m2) \<Rightarrow> map_stack_pages cr3 vas m2))"

definition setup_user_stack :: "u64 \<Rightarrow> u32 \<Rightarrow> mmu \<Rightarrow> u64 option \<times> mmu" where
  "setup_user_stack cr3 pid m =
     (case map_stack_pages cr3 (map of_nat (user_stack_vas pid)) m of
        (True, m1) \<Rightarrow> (Some (of_nat (stack_top_for_pid pid)), m1)
      | (False, m1) \<Rightarrow> (None, m1))"

text \<open>The page of the entry point must be present, accessible to the user, executable and not writable.\<close>

definition entry_page_ok :: "u64 \<Rightarrow> u64 \<Rightarrow> mmu \<Rightarrow> bool" where
  "entry_page_ok cr3 entry m =
     (case walk_pte cr3 entry m of
        None \<Rightarrow> False
      | Some pte \<Rightarrow> pte AND flag_mask Present \<noteq> 0 \<and> pte AND flag_mask User \<noteq> 0 \<and>
                    pte AND flag_mask NoExec = 0 \<and> pte AND flag_mask Writable = 0)"

definition data_page_ok :: "u64 \<Rightarrow> u64 option \<Rightarrow> mmu \<Rightarrow> bool" where
  "data_page_ok cr3 data_va m =
     (case data_va of
        None \<Rightarrow> True
      | Some va \<Rightarrow>
          (case walk_pte cr3 (va AND NOT (PAGE_SIZE_4K - 1)) m of
             None \<Rightarrow> True
           | Some pte \<Rightarrow> pte AND flag_mask Writable \<noteq> 0))"

definition initial_frame :: "u64 \<Rightarrow> u64 \<Rightarrow> trap_frame" where
  "initial_frame entry user_rsp =
     \<lparr>tf_rip = entry, tf_cs = USER_CS OR 3, tf_rflags = 0x202, tf_rsp = user_rsp, tf_ss = USER_SS OR 3\<rparr>"

text \<open>The end of \<open>create_user_process\<close>, once the image is loaded and the stack is mapped.\<close>

definition finish_process :: "nat \<Rightarrow> u32 \<Rightarrow> u64 \<Rightarrow> u64 \<Rightarrow> u64 \<Rightarrow> capset \<Rightarrow> iflow_label \<Rightarrow> kernel \<Rightarrow> (nat option \<times> kernel) halting" where
  "finish_process idx pid cr3 entry user_rsp caps lab k =
     (case alloc_kernel_stack idx (k_pt k) of
        (None, pt1) \<Rightarrow> Done (None, k\<lparr>k_pt := pt1\<rparr>)
      | (Some kstack, pt1) \<Rightarrow>
          let (pcid, m1) = alloc_pcid (k_mmu k);
              pcb = (pcb_new pid Runnable cr3 kstack (initial_frame entry user_rsp))
                      \<lparr>pcb_caps := caps, pcb_iflow := lab, pcb_pcid := pcid\<rparr>;
              pt2 = put_descriptor idx pcb pt1
          in bind_halt (enqueue_runqueue idx (nice_of pt2 idx) (k_rq k))
               (\<lambda>q. Done (Some idx, k\<lparr>k_pt := pt2, k_mmu := m1, k_rq := q\<rparr>)))"

definition create_user_process :: "u8 list \<Rightarrow> capset \<Rightarrow> iflow_label \<Rightarrow> kernel \<Rightarrow> (nat option \<times> kernel) halting option" where
  "create_user_process elf caps lab k =
     (case allocate_process_slot (k_pt k) of
        (None, pt0) \<Rightarrow> Some (Done (None, k\<lparr>k_pt := pt0\<rparr>))
      | (Some (idx, pid), pt0) \<Rightarrow>
          let (cr3, m0) = create_process_cr3 (k_mmu k);
              fail = (\<lambda>k'. Some (Done (None, k'\<lparr>k_pt := release_slot idx (k_pt k')\<rparr>)));
              k0 = k\<lparr>k_pt := pt0, k_mmu := m0\<rparr>
          in if cr3 = 0 then fail k0
             else case load_elf elf cr3 \<lparr>ld_buddy = k_buddy k0, ld_mmu = m0, ld_mem = k_mem k0\<rparr> of
                    None \<Rightarrow> None
                  | Some (Inl r) \<Rightarrow> Some (Halted r)
                  | Some (Inr (res, ld)) \<Rightarrow>
                      let k1 = k0\<lparr>k_buddy := ld_buddy ld, k_mmu := ld_mmu ld, k_mem := ld_mem ld\<rparr>
                      in case res of
                           None \<Rightarrow> fail k1
                         | Some load \<Rightarrow>
                             if \<not> entry_page_ok cr3 (lr_entry load) (k_mmu k1) then fail k1
                             else if \<not> data_page_ok cr3 (lr_data_page_va load) (k_mmu k1) then fail k1
                             else case setup_user_stack cr3 pid (k_mmu k1) of
                                    (None, m2) \<Rightarrow> fail (k1\<lparr>k_mmu := m2\<rparr>)
                                  | (Some user_rsp, m2) \<Rightarrow>
                                      Some (finish_process idx pid cr3 (lr_entry load) user_rsp caps lab (k1\<lparr>k_mmu := m2\<rparr>)))"

definition get_elf :: "u32 \<Rightarrow> kernel \<Rightarrow> u8 list option" where
  "get_elf program_id k = (if unat program_id \<ge> MAX_PROGRAMS then None else k_programs k ! unat program_id)"

definition spawn_by_program_id :: "u32 \<Rightarrow> u64 \<Rightarrow> kernel \<Rightarrow> (u32 option \<times> kernel) halting option" where
  "spawn_by_program_id program_id cap_mask k =
     (case get_elf program_id k of
        None \<Rightarrow> Some (Done (None, k))
      | Some elf \<Rightarrow>
          if length elf < 4 \<or> take 4 elf \<noteq> [0x7f, 0x45, 0x4C, 0x46] then Some (Done (None, k))
          else case create_user_process elf (child_caps (current_caps k) cap_mask) (child_label (current_label k)) k of
                 None \<Rightarrow> None
               | Some (Inl r) \<Rightarrow> Some (Halted r)
               | Some (Inr (None, k1)) \<Rightarrow> Some (Done (None, k1))
               | Some (Inr (Some idx, k1)) \<Rightarrow> Some (Done (map_option pcb_pid (get_descriptor idx (k_pt k1)), k1)))"

definition sys_spawn :: "u64 \<Rightarrow> u64 \<Rightarrow> kernel \<Rightarrow> (u64 sys_result \<times> kernel) halting option" where
  "sys_spawn program_id cap_mask k =
     (case require cap_SPAWN k of
        Inl e \<Rightarrow> Some (Done (Err e, k))
      | Inr _ \<Rightarrow>
          (case spawn_by_program_id (ucast program_id) cap_mask k of
             None \<Rightarrow> None
           | Some (Inl r) \<Rightarrow> Some (Halted r)
           | Some (Inr (Some pid, k1)) \<Rightarrow> Some (Done (Ok (ucast pid), k1))
           | Some (Inr (None, k1)) \<Rightarrow> Some (Done (Err NOENT, k1))))"

section \<open>Entering user mode\<close>

text \<open>The stack checks of \<open>run_first_process\<close>, in their order.\<close>

definition check_user_stack :: "u64 \<Rightarrow> trap_frame \<Rightarrow> mmu \<Rightarrow> unit halting" where
  "check_user_stack cr3 frame m =
     (if tf_rsp frame > of_nat USER_STACK_TOP then Halted ''user_rsp_invalid''
      else if tf_rsp frame mod 16 \<noteq> 0 then Halted ''user_rsp_unaligned''
      else case walk_pte cr3 (word_ssub (tf_rsp frame) 8) m of
             None \<Rightarrow> Halted ''user_stack_unmapped''
           | Some pte \<Rightarrow>
               if pte AND flag_mask Present = 0 then Halted ''user_stack_not_present''
               else if pte AND flag_mask User = 0 then Halted ''user_stack_not_user''
               else if pte AND flag_mask Writable = 0 then Halted ''user_stack_not_writable''
               else Done ())"

text \<open>\<open>enter_user\<close> loads the address space of the process; the general registers are not restored.\<close>

definition run_first_process :: "nat \<Rightarrow> kernel \<Rightarrow> kernel halting" where
  "run_first_process idx k =
     (case get_descriptor idx (k_pt k) of
        None \<Rightarrow> Halted ''run_first_invalid_index''
      | Some slot \<Rightarrow>
          bind_halt (set_current (Some idx) (k_pt k)) (\<lambda>pt1.
          bind_halt (check_user_stack (pcb_cr3 slot) (pcb_trap_frame slot) (k_mmu k)) (\<lambda>_.
            Done (k\<lparr>k_pt := update_descriptor idx (\<lambda>p. p\<lparr>pcb_state := Running\<rparr>) pt1,
                    k_mmu := (k_mmu k)\<lparr>cpu_cr3 := pcb_cr3 slot\<rparr>\<rparr>))))"

text \<open>\<open>dequeue_runqueue\<close> followed by \<open>run_first_process\<close>, or the halt loop.\<close>

definition schedule_next :: "kernel \<Rightarrow> (outcome \<times> kernel) halting" where
  "schedule_next k =
     (case dequeue_runqueue (k_rq k) of
        (None, q) \<Rightarrow> Done (Idle, k\<lparr>k_rq := q\<rparr>)
      | (Some next_idx, q) \<Rightarrow> bind_halt (run_first_process next_idx (k\<lparr>k_rq := q\<rparr>)) (\<lambda>k1. Done (Resumed, k1)))"

section \<open>Exit\<close>

definition waits_for :: "u32 \<Rightarrow> pcb \<Rightarrow> bool" where
  "waits_for dead_pid p \<longleftrightarrow> pcb_state p = Blocked \<and>
     (case pcb_waiting_for p of None \<Rightarrow> False | Some w \<Rightarrow> w = dead_pid \<or> w = - 1)"

definition wake_one :: "u32 \<Rightarrow> nat \<Rightarrow> ptable \<times> rq \<Rightarrow> (ptable \<times> rq) halting" where
  "wake_one dead_pid i s =
     (case s of (pt, q) \<Rightarrow>
       (case get_descriptor i pt of
          None \<Rightarrow> Done (pt, q)
        | Some p \<Rightarrow>
            if waits_for dead_pid p then
              (let pt1 = update_descriptor i (\<lambda>p. p\<lparr>pcb_state := Runnable, pcb_waiting_for := None\<rparr>) pt
               in bind_halt (enqueue_runqueue i (nice_of pt1 i) q) (\<lambda>q1. Done (pt1, q1)))
            else Done (pt, q)))"

definition wake_waiters_for :: "u32 \<Rightarrow> ptable \<times> rq \<Rightarrow> (ptable \<times> rq) halting" where
  "wake_waiters_for dead_pid s = fold (\<lambda>i r. bind_halt r (wake_one dead_pid i)) [0..<MAX_PROCESSES] (Done s)"

definition reset_anon_for_slot :: "nat \<Rightarrow> kernel \<Rightarrow> kernel" where
  "reset_anon_for_slot slot k = (if slot < MAX_PROCESSES then k\<lparr>k_anon := (k_anon k)[slot := ANON_BASE]\<rparr> else k)"

text \<open>Everything \<open>exit_current_and_schedule\<close> does before it looks for the next process. The display server
  clears the backbuffer in memory when the compositor exits.\<close>

definition exit_cleanup :: "int option \<Rightarrow> nat \<Rightarrow> kernel \<Rightarrow> kernel halting" where
  "exit_cleanup exit_status idx k =
     (let pid = (case get_descriptor idx (k_pt k) of None \<Rightarrow> 0 | Some p \<Rightarrow> pcb_pid p);
          k1 = reset_anon_for_slot idx (k\<lparr>k_vfs := close_fds_for_process pid (k_vfs k)\<rparr>);
          d = on_compositor_exit pid ((k_display k1)\<lparr>dmem := k_mem k1\<rparr>);
          k2 = k1\<lparr>k_display := d, k_mem := dmem d, k_perf := perf_close_for_process idx (k_perf k1),
                  k_debug_regs := write_dr hw_bp_new (k_debug_regs k1), k_ipc := ipc_clear idx (k_ipc k1)\<rparr>;
          pt1 = update_descriptor idx (\<lambda>p. p\<lparr>pcb_state := Dead, pcb_exit_status := exit_status\<rparr>) (k_pt k2);
          q1 = remove_from_runqueue idx (k_rq k2)
      in bind_halt (wake_waiters_for pid (pt1, q1)) (\<lambda>(pt2, q2).
         bind_halt (set_current None pt2) (\<lambda>pt3. Done (k2\<lparr>k_pt := pt3, k_rq := q2\<rparr>))))"

definition exit_current_and_schedule :: "int option \<Rightarrow> kernel \<Rightarrow> (outcome \<times> kernel) halting" where
  "exit_current_and_schedule exit_status k =
     (case current_index (k_pt k) of
        None \<Rightarrow> Done (Idle, k)
      | Some idx \<Rightarrow> bind_halt (exit_cleanup exit_status idx k) schedule_next)"

section \<open>Waiting\<close>

text \<open>The bytes of an exit status, \<open>-1\<close> when there is none.\<close>

definition status_bytes :: "int option \<Rightarrow> u8 list" where
  "status_bytes st = (let w = (word_of_int (case st of None \<Rightarrow> - 1 | Some s \<Rightarrow> s) :: u32) in map (byte_of w) [0..<4])"

definition save_restart_frame :: "u64 \<Rightarrow> u64 \<Rightarrow> u64 \<Rightarrow> u32 \<Rightarrow> pcb \<Rightarrow> pcb" where
  "save_restart_frame user_rip user_rflags user_rsp pid p =
     p\<lparr>pcb_trap_frame := \<lparr>tf_rip = word_ssub user_rip 2, tf_cs = USER_CS OR 3, tf_rflags = user_rflags OR 0x200,
                          tf_rsp = user_rsp, tf_ss = USER_SS OR 3\<rparr>,
       pcb_state := Blocked, pcb_waiting_for := Some pid\<rparr>"

definition sys_waitpid :: "u32 \<Rightarrow> u64 \<Rightarrow> u32 \<Rightarrow> u64 \<Rightarrow> u64 \<Rightarrow> u64 \<Rightarrow> kernel \<Rightarrow> (outcome \<times> kernel) halting" where
  "sys_waitpid pid status_ptr options user_rip user_rflags user_rsp k =
     (case reap_dead pid (k_pt k) of
        (Some (reaped, st), pt1) \<Rightarrow>
          (let k1 = k\<lparr>k_pt := pt1\<rparr>
           in if status_ptr = 0 then Done (Return (Ok (ucast reaped)), k1)
              else case check_user_ptr status_ptr 4 k1 of
                     Inl e \<Rightarrow> Done (Return (Err e), k1)
                   | Inr _ \<Rightarrow> Done (Return (Ok (ucast reaped)), ustore status_ptr (status_bytes st) k1))
      | (None, pt1) \<Rightarrow>
          if options AND WNOHANG \<noteq> 0 then Done (Return (Err AGAIN), k)
          else case current_index (k_pt k) of
                 None \<Rightarrow> Done (Return (Err INVAL), k)
               | Some idx \<Rightarrow>
                   (case get_descriptor idx (k_pt k) of
                      None \<Rightarrow> Done (Return (Err INVAL), k)
                    | Some _ \<Rightarrow>
                        (let pt2 = update_descriptor idx (save_restart_frame user_rip user_rflags user_rsp pid) (k_pt k);
                             q = remove_from_runqueue idx (k_rq k)
                         in bind_halt (set_current None pt2) (\<lambda>pt3. schedule_next (k\<lparr>k_pt := pt3, k_rq := q\<rparr>)))))"

section \<open>The run queue and the process states\<close>

text \<open>Every runnable process is queued, nothing is queued twice, and whatever is queued is a live process that is
  runnable or (the very first process, which the boot code runs without dequeuing it) running.\<close>

definition queue_ok :: "ptable \<Rightarrow> rq \<Rightarrow> bool" where
  "queue_ok pt q \<longleftrightarrow> ptable_wf pt \<and> rq_inv q \<and> (\<forall>i. count (rq_procs q) i \<le> 1) \<and>
     (\<forall>i. i \<in># rq_procs q \<longrightarrow> (\<exists>p. live pt i p \<and> pcb_state p \<in> {Runnable, Running})) \<and>
     (\<forall>i p. live pt i p \<longrightarrow> pcb_state p = Runnable \<longrightarrow> i \<in># rq_procs q)"

lemma queue_okD:
  assumes "queue_ok pt q"
  shows "ptable_wf pt" "rq_inv q" "count (rq_procs q) i \<le> 1"
    "i \<in># rq_procs q \<Longrightarrow> \<exists>p. live pt i p \<and> pcb_state p \<in> {Runnable, Running}"
    "live pt i p \<Longrightarrow> pcb_state p = Runnable \<Longrightarrow> i \<in># rq_procs q"
  using assms by (auto simp: queue_ok_def)

lemma queue_room:
  assumes "queue_ok pt q" "i < MAX_PROCESSES" "i \<notin># rq_procs q"
  shows "size (rq_procs q) \<noteq> MAX_RUNNABLE"
proof -
  let ?S = "set_mset (rq_procs q)"
  have "count (rq_procs q) j = (if j \<in># rq_procs q then 1 else 0)" for j
    using queue_okD(3) [OF assms(1), of j] count_greater_zero_iff [of "rq_procs q" j] by (cases "j \<in># rq_procs q") (auto simp: not_in_iff simp del: count_greater_zero_iff)
  then have "rq_procs q = mset_set ?S" by (intro multiset_eqI) simp
  then have "size (rq_procs q) = card ?S" by (metis size_mset_set)
  also have "\<dots> \<le> card ({..<MAX_PROCESSES} - {i})"
    using queue_okD(4) [OF assms(1)] assms(3) by (intro card_mono) (auto simp: live_def)
  also have "\<dots> < MAX_PROCESSES" using assms(2) by (simp add: MAX_PROCESSES_def)
  finally show ?thesis by (simp add: MAX_PROCESSES_def MAX_RUNNABLE_def)
qed

text \<open>The three things that happen to the queue: a process that was not queued becomes runnable, one stops being
  runnable, and one is taken to run.\<close>

lemma queue_add:
  assumes "queue_ok pt q" "i < MAX_PROCESSES" "i \<notin># rq_procs q"
    and "ptable_wf pt'" "live pt' i p" "pcb_state p = Runnable" "\<And>j r. j \<noteq> i \<Longrightarrow> live pt' j r = live pt j r"
  shows "\<exists>q'. enqueue_runqueue i n q = Done q' \<and> queue_ok pt' q' \<and> rq_procs q' = add_mset i (rq_procs q)"
proof -
  obtain q' where q': "enqueue_runqueue i n q = Inr q'" "rq_inv q'" "rq_procs q' = add_mset i (rq_procs q)"
    using rqbag.enq_room [OF queue_okD(2) [OF assms(1)] queue_room [OF assms(1-3)]] by blast
  have "count (rq_procs q) i = 0" using assms(3) by (simp add: not_in_iff)
  then have "queue_ok pt' q'"
    unfolding queue_ok_def q'(3) using assms(4-7) queue_okD [OF assms(1)] q'(2) live_unique
    by (auto split: if_splits) metis+
  then show ?thesis using q' by blast
qed

lemma queue_remove:
  assumes "queue_ok pt q" "ptable_wf pt'" "\<And>p. live pt' i p \<Longrightarrow> pcb_state p \<noteq> Runnable"
    and "\<And>j r. j \<noteq> i \<Longrightarrow> live pt' j r = live pt j r"
  shows "queue_ok pt' (remove_from_runqueue i q)" "rq_procs (remove_from_runqueue i q) = rq_procs q - {#i#}"
proof -
  have r: "rq_inv (remove_from_runqueue i q)" "rq_procs (remove_from_runqueue i q) = rq_procs q - {#i#}"
    using rqbag.remove_one [OF queue_okD(2) [OF assms(1)]] by auto
  have "i \<notin># rq_procs q - {#i#}" using queue_okD(3) [OF assms(1), of i] by (simp add: not_in_iff)
  moreover have "j \<in># rq_procs q - {#i#} \<longleftrightarrow> j \<in># rq_procs q" if "j \<noteq> i" for j
    using that by (simp add: in_diff_count not_in_iff)
  moreover have "count (rq_procs q - {#i#}) j \<le> 1" for j using queue_okD(3) [OF assms(1), of j] by simp
  ultimately show "queue_ok pt' (remove_from_runqueue i q)"
    unfolding queue_ok_def r(2) using r(1) assms(2-4) queue_okD(4,5) [OF assms(1)] by metis
  show "rq_procs (remove_from_runqueue i q) = rq_procs q - {#i#}" by (rule r(2))
qed

lemma queue_take:
  assumes "queue_ok pt q" "dequeue_runqueue q = (r, q')"
  shows "r = None \<longleftrightarrow> rq_procs q = {#}" "r = None \<Longrightarrow> queue_ok pt q'"
    and "r = Some i \<Longrightarrow> \<exists>p. live pt i p \<and> pcb_state p \<in> {Runnable, Running}"
    and "r = Some i \<Longrightarrow> ptable_wf pt' \<Longrightarrow> live pt' i p \<Longrightarrow> pcb_state p = Running \<Longrightarrow>
      (\<And>j r. j \<noteq> i \<Longrightarrow> live pt' j r = live pt j r) \<Longrightarrow> queue_ok pt' q'"
proof -
  note d = rqbag.deq_result [OF queue_okD(2) [OF assms(1)] assms(2)]
  show "r = None \<longleftrightarrow> rq_procs q = {#}" by (rule d(3))
  show "queue_ok pt q'" if "r = None"
  proof -
    have "rq_procs q = {#}" using d(3) that by simp
    moreover obtain q2 where "dequeue_runqueue q = (None, q2)" "rq_inv q2" "rq_procs q2 = {#}"
      using rqbag.deq_none [OF queue_okD(2) [OF assms(1)]] calculation by blast
    ultimately show ?thesis using assms unfolding queue_ok_def by auto
  qed
  show "\<exists>p. live pt i p \<and> pcb_state p \<in> {Runnable, Running}" if "r = Some i"
    using d(2) that queue_okD(4) [OF assms(1), of i] by simp
  show "queue_ok pt' q'" if r: "r = Some i" and pt': "ptable_wf pt'" "live pt' i p" "pcb_state p = Running"
    "\<And>j r. j \<noteq> i \<Longrightarrow> live pt' j r = live pt j r"
  proof -
    have m: "rq_procs q = add_mset i (rq_procs q')" using d(2) r by simp
    then have ni: "i \<notin># rq_procs q'" using queue_okD(3) [OF assms(1), of i] by (simp add: not_in_iff)
    have c: "count (rq_procs q') j \<le> 1" for j using queue_okD(3) [OF assms(1), of j] unfolding m by (simp split: if_splits)
    have "\<exists>p. live pt' j p \<and> pcb_state p \<in> {Runnable, Running}" if "j \<in># rq_procs q'" for j
      using queue_okD(4) [OF assms(1), of j] that ni pt'(4) [of j] unfolding m by (metis insertI1 insert_iff set_mset_add_mset_insert)
    moreover have "j \<in># rq_procs q'" if j: "live pt' j p'" "pcb_state p' = Runnable" for j p'
    proof -
      have "j \<noteq> i" using j pt'(2,3) live_unique by fastforce
      then show ?thesis using queue_okD(5) [OF assms(1), of j p'] j pt'(4) unfolding m by simp
    qed
    ultimately show ?thesis unfolding queue_ok_def using pt'(1) d(1) c by blast
  qed
qed

section \<open>Waking\<close>

definition woken :: "u32 \<Rightarrow> pcb \<Rightarrow> pcb" where
  "woken dead_pid p = (if waits_for dead_pid p then p\<lparr>pcb_state := Runnable, pcb_waiting_for := None\<rparr> else p)"

lemma not_queued: "queue_ok pt q \<Longrightarrow> live pt i p \<Longrightarrow> pcb_state p \<notin> {Runnable, Running} \<Longrightarrow> i \<notin># rq_procs q"
  using queue_okD(4) live_unique by blast

lemma live_bound: "live pt i p \<Longrightarrow> i < MAX_PROCESSES"
  by (simp add: live_def)

lemma live_neq: "live pt i p \<Longrightarrow> live pt j q \<Longrightarrow> pcb_state p \<noteq> pcb_state q \<Longrightarrow> i \<noteq> j"
  by (metis live_unique)

definition woken_upto :: "u32 \<Rightarrow> nat \<Rightarrow> ptable \<Rightarrow> ptable \<Rightarrow> bool" where
  "woken_upto dead_pid n pt pt' \<longleftrightarrow> current_index pt' = current_index pt \<and>
     (\<forall>j p. live pt' j p \<longleftrightarrow> (\<exists>p0. live pt j p0 \<and> p = (if j < n then woken dead_pid p0 else p0)))"

lemma wake_one_ok:
  assumes "queue_ok pt q"
  shows "\<exists>pt' q'. wake_one dead_pid i (pt, q) = Done (pt', q') \<and> queue_ok pt' q' \<and>
    current_index pt' = current_index pt \<and>
    (\<forall>j p. live pt' j p \<longleftrightarrow> (\<exists>p0. live pt j p0 \<and> p = (if j = i then woken dead_pid p0 else p0)))"
proof (cases "\<exists>p. live pt i p \<and> waits_for dead_pid p")
  case True
  then obtain p where p: "live pt i p" "waits_for dead_pid p" by blast
  let ?f = "\<lambda>p. p\<lparr>pcb_state := Runnable, pcb_waiting_for := None\<rparr>"
  let ?pt = "update_descriptor i ?f pt"
  note wf = queue_okD(1) [OF assms]
  have l: "live ?pt j r \<longleftrightarrow> (if j = i then r = ?f p else live pt j r)" for j r
    using live_update_descriptor [OF wf] p(1) live_unique by (auto; metis)
  have "pcb_state p \<notin> {Runnable, Running}" using p(2) by (simp add: waits_for_def)
  then have nq: "i \<notin># rq_procs q" by (rule not_queued [OF assms p(1)])
  obtain q' where q': "enqueue_runqueue i (nice_of ?pt i) q = Done q'" "queue_ok ?pt q'"
    using queue_add [OF assms live_bound [OF p(1)] nq update_descriptor_wf [OF wf], of i ?f "?f p" "nice_of ?pt i"] l by auto
  have "wake_one dead_pid i (pt, q) = Done (?pt, q')"
    using p q'(1) by (simp add: wake_one_def get_descriptor_eq_Some_iff [symmetric])
  moreover have "live ?pt j r \<longleftrightarrow> (\<exists>p0. live pt j p0 \<and> r = (if j = i then woken dead_pid p0 else p0))" for j r
    using l p live_unique by (auto simp: woken_def; metis)
  ultimately show ?thesis using q'(2) by auto
next
  case False
  then have "wake_one dead_pid i (pt, q) = Done (pt, q)"
    by (auto simp: wake_one_def table_simps split: option.splits)
  moreover have "live pt j p \<longleftrightarrow> (\<exists>p0. live pt j p0 \<and> p = (if j = i then woken dead_pid p0 else p0))" for j p
    using False by (auto simp: woken_def)
  ultimately show ?thesis using assms by blast
qed

lemma wake_loop:
  assumes "queue_ok pt q"
  shows "\<exists>pt' q'. fold (\<lambda>i r. bind_halt r (wake_one dead_pid i)) [0..<n] (Done (pt, q)) = Done (pt', q') \<and>
    queue_ok pt' q' \<and> woken_upto dead_pid n pt pt'"
proof (induction n)
  case 0
  then show ?case using assms by (auto simp: woken_upto_def)
next
  case (Suc n)
  then obtain pt1 q1 where 1: "fold (\<lambda>i r. bind_halt r (wake_one dead_pid i)) [0..<n] (Done (pt, q)) = Done (pt1, q1)"
    "queue_ok pt1 q1" "woken_upto dead_pid n pt pt1" by blast
  obtain pt2 q2 where 2: "wake_one dead_pid n (pt1, q1) = Done (pt2, q2)" "queue_ok pt2 q2" "current_index pt2 = current_index pt1"
    "\<And>j p. live pt2 j p \<longleftrightarrow> (\<exists>p0. live pt1 j p0 \<and> p = (if j = n then woken dead_pid p0 else p0))"
    using wake_one_ok [OF 1(2), of dead_pid n] by blast
  have "woken_upto dead_pid (Suc n) pt pt2"
    using 1(3) 2(3) unfolding woken_upto_def 2(4) by (auto simp: less_Suc_eq)
  then show ?case using 1 2 by simp
qed

lemma wake_waiters_ok:
  assumes "queue_ok pt q"
  shows "\<exists>pt' q'. wake_waiters_for dead_pid (pt, q) = Done (pt', q') \<and> queue_ok pt' q' \<and>
    current_index pt' = current_index pt \<and> (\<forall>j p. live pt' j p \<longleftrightarrow> (\<exists>p0. live pt j p0 \<and> p = woken dead_pid p0))"
proof -
  obtain pt' q' where "fold (\<lambda>i r. bind_halt r (wake_one dead_pid i)) [0..<MAX_PROCESSES] (Done (pt, q)) = Done (pt', q')"
    "queue_ok pt' q'" and w: "woken_upto dead_pid MAX_PROCESSES pt pt'"
    using wake_loop [OF assms] by blast
  moreover have "live pt' j p \<longleftrightarrow> (\<exists>p0. live pt j p0 \<and> p = woken dead_pid p0)" for j p
    using w live_bound unfolding woken_upto_def by metis
  ultimately show ?thesis using w unfolding wake_waiters_for_def woken_upto_def by blast
qed

section \<open>Scheduling\<close>

text \<open>At most one process is running, and it is the current one.\<close>

definition sched_inv :: "kernel \<Rightarrow> bool" where
  "sched_inv k \<longleftrightarrow> queue_ok (k_pt k) (k_rq k) \<and>
     (\<forall>i p. live (k_pt k) i p \<longrightarrow> pcb_state p = Running \<longrightarrow> current_index (k_pt k) = Some i) \<and>
     (\<forall>i. current_index (k_pt k) = Some i \<longrightarrow> (\<exists>p. live (k_pt k) i p \<and> pcb_state p = Running))"

lemma sched_invI:
  assumes "queue_ok (k_pt k) (k_rq k)" "\<And>i p. live (k_pt k) i p \<Longrightarrow> pcb_state p = Running \<Longrightarrow> current_index (k_pt k) = Some i"
    "\<And>i. current_index (k_pt k) = Some i \<Longrightarrow> \<exists>p. live (k_pt k) i p \<and> pcb_state p = Running"
  shows "sched_inv k"
  using assms by (simp add: sched_inv_def)

lemma sched_invD:
  assumes "sched_inv k"
  shows "queue_ok (k_pt k) (k_rq k)" "live (k_pt k) i p \<Longrightarrow> pcb_state p = Running \<Longrightarrow> current_index (k_pt k) = Some i"
    "current_index (k_pt k) = Some i \<Longrightarrow> \<exists>p. live (k_pt k) i p \<and> pcb_state p = Running"
  using assms by (simp_all add: sched_inv_def)

definition no_running :: "ptable \<Rightarrow> bool" where
  "no_running pt \<longleftrightarrow> current_index pt = None \<and> (\<forall>i p. live pt i p \<longrightarrow> pcb_state p \<noteq> Running)"

lemma live_set_current [simp]:
  "live (pt\<lparr>current_index := a, current_pid := b\<rparr>) i p = live pt i p"
  "ptable_wf (pt\<lparr>current_index := a, current_pid := b\<rparr>) = ptable_wf pt"
  by (simp_all add: live_def ptable_wf_def)

lemma queue_ok_current [simp]:
  "queue_ok (pt\<lparr>current_index := a, current_pid := b\<rparr>) q = queue_ok pt q"
  by (simp add: queue_ok_def)

lemma no_running_sched: "queue_ok (k_pt k) (k_rq k) \<Longrightarrow> no_running (k_pt k) \<Longrightarrow> sched_inv k"
  by (auto simp: sched_inv_def no_running_def)

lemma run_first_effect:
  assumes "run_first_process i k = Done k'" "ptable_wf (k_pt k)"
  obtains p where "live (k_pt k) i p" "k_rq k' = k_rq k" "current_index (k_pt k') = Some i" "ptable_wf (k_pt k')"
    "\<And>j r. live (k_pt k') j r \<longleftrightarrow> (if j = i then r = p\<lparr>pcb_state := Running\<rparr> else live (k_pt k) j r)"
    "cpu_cr3 (k_mmu k') = pcb_cr3 p"
proof -
  obtain p where p: "live (k_pt k) i p"
    using assms(1) by (auto simp: run_first_process_def table_simps split: option.splits)
  let ?pt = "(k_pt k)\<lparr>current_index := Some i, current_pid := map_option pcb_pid (process_table (k_pt k) ! i)\<rparr>"
  have k': "k' = k\<lparr>k_pt := update_descriptor i (\<lambda>p. p\<lparr>pcb_state := Running\<rparr>) ?pt, k_mmu := (k_mmu k)\<lparr>cpu_cr3 := pcb_cr3 p\<rparr>\<rparr>"
    using assms(1) p live_bound [OF p]
    by (auto simp: run_first_process_def get_descriptor_eq_Some_iff [symmetric] set_current_def bind_halt_eq_Inr_iff split: if_splits)
  have wf: "ptable_wf ?pt" using assms(2) by simp
  have "live (k_pt k') j r \<longleftrightarrow> (if j = i then r = p\<lparr>pcb_state := Running\<rparr> else live (k_pt k) j r)" for j r
    using live_update_descriptor [OF wf, of i "\<lambda>p. p\<lparr>pcb_state := Running\<rparr>" j r] p live_unique
    by (auto simp: k' split: if_splits; metis)
  then show ?thesis using that [OF p] wf update_descriptor_wf [OF wf] by (simp add: k')
qed

lemma schedule_next_ok:
  assumes "queue_ok (k_pt k) (k_rq k)" "no_running (k_pt k)" "schedule_next k = Done (res, k')"
  shows "sched_inv k'" "res = Idle \<longleftrightarrow> (\<nexists>i p. live (k_pt k) i p \<and> pcb_state p = Runnable)" "res = Idle \<or> res = Resumed"
proof -
  obtain r q where d: "dequeue_runqueue (k_rq k) = (r, q)" by (cases "dequeue_runqueue (k_rq k)") auto
  note t = queue_take [OF assms(1) d]
  have runnable: "(\<exists>i p. live (k_pt k) i p \<and> pcb_state p = Runnable) \<longleftrightarrow> r \<noteq> None"
    using t(1) t(3) queue_okD(5) [OF assms(1)] assms(2) unfolding no_running_def by (cases r) fastforce+
  show "sched_inv k'"
  proof (cases r)
    case None
    then have "k' = k\<lparr>k_rq := q\<rparr>" using assms(3) d by (simp add: schedule_next_def)
    then show ?thesis using no_running_sched [of k'] t(2) [OF None] assms(2) by simp
  next
    case (Some i)
    then have run: "run_first_process i (k\<lparr>k_rq := q\<rparr>) = Done k'"
      using assms(3) d by (auto simp: schedule_next_def bind_halt_eq_Inr_iff)
    obtain p where p: "live (k_pt k) i p" "k_rq k' = q" "current_index (k_pt k') = Some i" "ptable_wf (k_pt k')"
      "\<And>j r. live (k_pt k') j r \<longleftrightarrow> (if j = i then r = p\<lparr>pcb_state := Running\<rparr> else live (k_pt k) j r)"
      by (rule run_first_effect [OF run]) (use queue_okD(1) [OF assms(1)] in auto)
    have "queue_ok (k_pt k') q" by (rule t(4) [OF Some p(4), of "p\<lparr>pcb_state := Running\<rparr>"]) (simp_all add: p(5))
    then show ?thesis unfolding sched_inv_def p(2,5) using p(3) assms(2) by (auto simp: no_running_def)
  qed
  show "res = Idle \<longleftrightarrow> (\<nexists>i p. live (k_pt k) i p \<and> pcb_state p = Runnable)" "res = Idle \<or> res = Resumed"
    using assms(3) d runnable by (auto simp: schedule_next_def bind_halt_eq_Inr_iff split: option.splits)
qed

lemma exit_cleanup_ok:
  assumes "sched_inv k" "current_index (k_pt k) = Some i" "live (k_pt k) i p"
  shows "\<exists>k'. exit_cleanup st i k = Done k' \<and> queue_ok (k_pt k') (k_rq k') \<and> no_running (k_pt k') \<and>
    (\<forall>j r. live (k_pt k') j r \<longleftrightarrow> (if j = i then r = p\<lparr>pcb_state := Dead, pcb_exit_status := st\<rparr>
       else \<exists>p0. live (k_pt k) j p0 \<and> r = woken (pcb_pid p) p0)) \<and>
    k_vfs k' = close_fds_for_process (pcb_pid p) (k_vfs k) \<and> k_anon k' = (k_anon k)[i := ANON_BASE] \<and>
    COMPOSITOR_PID (k_display k') = (if COMPOSITOR_PID (k_display k) = Some (pcb_pid p) then None else COMPOSITOR_PID (k_display k)) \<and>
    k_perf k' = perf_close_for_process i (k_perf k) \<and> k_debug_regs k' = write_dr hw_bp_new (k_debug_regs k) \<and> k_ipc k' = ipc_clear i (k_ipc k)"
proof -
  let ?f = "\<lambda>p. p\<lparr>pcb_state := Dead, pcb_exit_status := st\<rparr>"
  let ?pt = "update_descriptor i ?f (k_pt k)" and ?q = "remove_from_runqueue i (k_rq k)"
  have q0: "queue_ok (k_pt k) (k_rq k)" using assms(1) by (simp add: sched_inv_def)
  note wf = queue_okD(1) [OF q0]
  have l: "live ?pt j r \<longleftrightarrow> (if j = i then r = ?f p else live (k_pt k) j r)" for j r
    using live_update_descriptor [OF wf] assms(3) live_unique by (auto; metis)
  have q1: "queue_ok ?pt ?q"
    by (rule queue_remove(1) [OF q0 update_descriptor_wf [OF wf]]) (auto simp: l split: if_splits)
  obtain pt2 q2 where w: "wake_waiters_for (pcb_pid p) (?pt, ?q) = Done (pt2, q2)" "queue_ok pt2 q2"
    "\<And>j r. live pt2 j r \<longleftrightarrow> (\<exists>p0. live ?pt j p0 \<and> r = woken (pcb_pid p) p0)"
    using wake_waiters_ok [OF q1, of "pcb_pid p"] by blast
  have dead: "woken (pcb_pid p) (?f p) = ?f p" by (simp add: woken_def waits_for_def)
  have l2: "live pt2 j r \<longleftrightarrow> (if j = i then r = ?f p else \<exists>p0. live (k_pt k) j p0 \<and> r = woken (pcb_pid p) p0)" for j r
    unfolding w(3) l using dead by auto
  have run: "pcb_state (woken d r) = Running \<longleftrightarrow> pcb_state r = Running" for d r
    by (auto simp: woken_def waits_for_def)
  have "pcb_state p0 \<noteq> Running" if "live (k_pt k) j p0" "j \<noteq> i" for j p0
    using assms(1,2) that by (auto simp: sched_inv_def)
  then have nr: "pcb_state r \<noteq> Running" if "live pt2 j r" for j r
    using that unfolding l2 by (auto simp: run split: if_splits)
  have i: "i < MAX_PROCESSES" by (rule live_bound [OF assms(3)])
  have gd: "get_descriptor i (k_pt k) = Some p" using assms(3) by (simp add: get_descriptor_eq_Some_iff)
  have d: "COMPOSITOR_PID (on_compositor_exit d (dd\<lparr>dmem := m\<rparr>)) = (if COMPOSITOR_PID dd = Some d then None else COMPOSITOR_PID dd)" for d dd m
    by (simp add: on_compositor_exit_def release_compositor_def split: option.splits)
  show ?thesis
    using w(2) l2 nr by (simp add: exit_cleanup_def gd w(1) i reset_anon_for_slot_def Let_def set_current_def d no_running_def)
qed

lemma exit_cleanupE:
  assumes "sched_inv k" "current_index (k_pt k) = Some i" "live (k_pt k) i p"
  obtains k' where "exit_cleanup st i k = Done k'" "queue_ok (k_pt k') (k_rq k')" "no_running (k_pt k')"
    "\<forall>j r. live (k_pt k') j r \<longleftrightarrow> (if j = i then r = p\<lparr>pcb_state := Dead, pcb_exit_status := st\<rparr>
       else \<exists>p0. live (k_pt k) j p0 \<and> r = woken (pcb_pid p) p0)"
    "k_vfs k' = close_fds_for_process (pcb_pid p) (k_vfs k)" "k_anon k' = (k_anon k)[i := ANON_BASE]"
    "COMPOSITOR_PID (k_display k') = (if COMPOSITOR_PID (k_display k) = Some (pcb_pid p) then None else COMPOSITOR_PID (k_display k))"
    "k_perf k' = perf_close_for_process i (k_perf k)" "k_debug_regs k' = write_dr hw_bp_new (k_debug_regs k)" "k_ipc k' = ipc_clear i (k_ipc k)"
  using exit_cleanup_ok [OF assms, of st] by (elim exE conjE) (rule that, assumption+)

lemma set_current_NoneD: "set_current None pt = Done pt' \<longleftrightarrow> pt' = pt\<lparr>current_index := None, current_pid := None\<rparr>"
  by (auto simp: set_current_def)

lemma reap_dead_effect:
  assumes "reap_dead pid pt = (Some r, pt')" "ptable_wf pt"
  obtains i p where "live pt i p" "pcb_state p = Dead" "ptable_wf pt'" "current_index pt' = current_index pt"
    "\<And>j q. live pt' j q \<longleftrightarrow> j \<noteq> i \<and> live pt j q" "r = (pcb_pid p, pcb_exit_status p)"
proof -
  obtain i where i: "first_index (reapable pid) (process_table pt) = Some i"
    using assms(1) by (auto simp: reap_dead_def split: option.splits)
  have lt: "i < MAX_PROCESSES" and "reapable pid (process_table pt ! i)"
    using first_index_SomeD [OF i] assms(2) by (auto simp: ptable_wf_def)
  then obtain p where p: "process_table pt ! i = Some p" "pcb_state p = Dead"
    by (auto simp: reapable_def split: option.splits)
  have pt': "pt' = release_slot i pt" "r = (pcb_pid p, pcb_exit_status p)" using assms(1) i p by (auto simp: reap_dead_def)
  show ?thesis
  proof (rule that [of i p])
    show "live pt i p" using lt p by (simp add: live_def)
    show "live pt' j q \<longleftrightarrow> j \<noteq> i \<and> live pt j q" for j q
      using lt assms(2) by (auto simp: pt' release_slot_def live_def ptable_wf_def nth_list_update)
  qed (use lt p assms(2) in \<open>auto simp: pt' release_slot_def ptable_wf_def\<close>)
qed

lemma reap_sched:
  assumes "sched_inv k" "reap_dead pid (k_pt k) = (Some r, pt')"
  shows "sched_inv (k\<lparr>k_pt := pt'\<rparr>)"
proof -
  have q: "queue_ok (k_pt k) (k_rq k)" using assms(1) by (simp add: sched_inv_def)
  obtain i p where i: "live (k_pt k) i p" "pcb_state p = Dead" "ptable_wf pt'" "current_index pt' = current_index (k_pt k)"
    "\<And>j q. live pt' j q \<longleftrightarrow> j \<noteq> i \<and> live (k_pt k) j q" "r = (pcb_pid p, pcb_exit_status p)"
    by (rule reap_dead_effect [OF assms(2) queue_okD(1) [OF q]]) (rule that)
  have "i \<notin># rq_procs (k_rq k)" by (rule not_queued [OF q i(1)]) (simp add: i(2))
  then have qo: "queue_ok pt' (k_rq k)"
    unfolding queue_ok_def i(5) using i(3) queue_okD [OF q] by metis
  have ne: "current_index (k_pt k) \<noteq> Some i" using sched_invD(3) [OF assms(1), of i] i(1,2) live_unique by fastforce
  show ?thesis
  proof (rule sched_invI)
    fix j r assume "live (k_pt (k\<lparr>k_pt := pt'\<rparr>)) j r" "pcb_state r = Running"
    then show "current_index (k_pt (k\<lparr>k_pt := pt'\<rparr>)) = Some j"
      using sched_invD(2) [OF assms(1), of j r] by (simp add: i(4,5))
  next
    fix j assume "current_index (k_pt (k\<lparr>k_pt := pt'\<rparr>)) = Some j"
    then show "\<exists>p. live (k_pt (k\<lparr>k_pt := pt'\<rparr>)) j p \<and> pcb_state p = Running"
      using sched_invD(3) [OF assms(1), of j] ne by (auto simp: i(4,5))
  qed (simp add: qo)
qed

lemma ustore_fields [simp]: "k_pt (ustore va bs k) = k_pt k" "k_rq (ustore va bs k) = k_rq k"
  by (simp_all add: ustore_def)

lemma sched_inv_cong: "k_pt k' = k_pt k \<Longrightarrow> k_rq k' = k_rq k \<Longrightarrow> sched_inv k' = sched_inv k"
  by (simp add: sched_inv_def)

lemma waitpid_sched:
  assumes "sched_inv k" "sys_waitpid pid status_ptr options rip rflags rsp k = Done (res, k')"
  shows "sched_inv k'"
proof (cases "reap_dead pid (k_pt k)")
  case (Pair r pt1)
  show ?thesis
  proof (cases r)
    case (Some rs)
    then have "sched_inv (k\<lparr>k_pt := pt1\<rparr>)" using reap_sched [OF assms(1)] Pair by simp
    moreover have "k_pt k' = pt1 \<and> k_rq k' = k_rq k"
      using assms(2) Pair Some by (auto simp: sys_waitpid_def Let_def split: prod.splits if_splits sum.splits)
    ultimately show ?thesis using sched_inv_cong [of k' "k\<lparr>k_pt := pt1\<rparr>"] by simp
  next
    case None
    show ?thesis
    proof (cases "options AND WNOHANG \<noteq> 0 \<or> current_index (k_pt k) = None \<or> current_descriptor (k_pt k) = None")
      case True
      then have "k' = k"
        using assms(2) Pair None by (auto simp: sys_waitpid_def current_descriptor_def split: option.splits if_splits)
      then show ?thesis using assms(1) by simp
    next
      case False
      then obtain i p where i: "current_index (k_pt k) = Some i" "get_descriptor i (k_pt k) = Some p"
        by (auto simp: current_descriptor_def split: option.splits)
      let ?f = "save_restart_frame rip rflags rsp pid"
      let ?pt = "update_descriptor i ?f (k_pt k)" and ?q = "remove_from_runqueue i (k_rq k)"
      let ?k = "k\<lparr>k_pt := ?pt\<lparr>current_index := None, current_pid := None\<rparr>, k_rq := ?q\<rparr>"
      have s: "schedule_next ?k = Done (res, k')"
        using assms(2) Pair None False i by (simp add: sys_waitpid_def Let_def set_current_def)
      have q: "queue_ok (k_pt k) (k_rq k)" using assms(1) by (simp add: sched_inv_def)
      have l: "live ?pt j r \<longleftrightarrow> (if j = i then r = ?f p else live (k_pt k) j r)" for j r
        using live_update_descriptor [OF queue_okD(1) [OF q]] i(2) live_unique by (auto simp: table_simps; metis)
      have blocked: "pcb_state (?f p) = Blocked" by (simp add: save_restart_frame_def)
      have "queue_ok ?pt ?q"
        by (rule queue_remove(1) [OF q update_descriptor_wf [OF queue_okD(1) [OF q]]]) (auto simp: l blocked split: if_splits)
      moreover have "no_running (k_pt ?k)"
        using assms(1) i(1) blocked by (auto simp: no_running_def l sched_inv_def split: if_splits)
      ultimately show ?thesis using schedule_next_ok(1) [OF _ _ s] by simp
    qed
  qed
qed

lemma exit_sched:
  assumes "sched_inv k" "exit_current_and_schedule st k = Done (res, k')"
  shows "sched_inv k'"
proof (cases "current_index (k_pt k)")
  case None
  then show ?thesis using assms by (simp add: exit_current_and_schedule_def)
next
  case (Some i)
  then obtain p where p: "live (k_pt k) i p" using assms(1) by (auto simp: sched_inv_def)
  obtain k1 where k1: "exit_cleanup st i k = Done k1" "queue_ok (k_pt k1) (k_rq k1)" "no_running (k_pt k1)"
    using exit_cleanup_ok [OF assms(1) Some p] by blast
  then show ?thesis using schedule_next_ok(1) [OF k1(2,3)] assms(2) Some by (simp add: exit_current_and_schedule_def)
qed

lemma allocate_slot_effect:
  assumes "allocate_process_slot pt = (Some (i, pid), pt')" "ptable_wf pt"
  shows "i < MAX_PROCESSES" "process_table pt ! i = None" "pid = next_pid pt" "pt' = pt\<lparr>next_pid := next_pid pt + 1\<rparr>"
  using assms first_index_SomeD [of "\<lambda>slot. slot = None" "process_table pt" i]
  by (auto simp: allocate_process_slot_def ptable_wf_def split: option.splits)

lemma sched_inv_same:
  assumes "sched_inv k" "process_table (k_pt k') = process_table (k_pt k)" "current_index (k_pt k') = current_index (k_pt k)"
    "length (kernel_stack_used (k_pt k')) = MAX_PROCESSES" "length (kernel_stack_canaries (k_pt k')) = MAX_PROCESSES"
    "k_rq k' = k_rq k"
  shows "sched_inv k'"
proof -
  have l: "live (k_pt k') = live (k_pt k)" using assms(2) by (simp add: live_def fun_eq_iff)
  have "ptable_wf (k_pt k')" using assms by (simp add: sched_inv_def queue_ok_def ptable_wf_def)
  then show ?thesis using assms(1) unfolding sched_inv_def queue_ok_def l assms(3,6) by blast
qed

lemma install_sched:
  assumes "sched_inv k" "i < MAX_PROCESSES" "process_table (k_pt k) ! i = None"
    "finish_process i pid cr3 entry user_rsp caps lab k = Done (res, k')"
  shows "sched_inv k'"
proof (cases "alloc_kernel_stack i (k_pt k)")
  case (Pair ks pt1)
  have wf: "ptable_wf (k_pt k)" and q: "queue_ok (k_pt k) (k_rq k)" using assms(1) by (auto simp: sched_inv_def queue_ok_def)
  have pt1: "process_table pt1 = process_table (k_pt k)" "current_index pt1 = current_index (k_pt k)" "ptable_wf pt1"
    using Pair wf assms(2) by (auto simp: alloc_kernel_stack_def ptable_wf_def split: if_splits)
  show ?thesis
  proof (cases ks)
    case None
    then have "k' = k\<lparr>k_pt := pt1\<rparr>" using assms(4) Pair by (simp add: finish_process_def)
    then show ?thesis using sched_inv_same [OF assms(1), of k'] pt1 by (simp add: ptable_wf_def)
  next
    case (Some kstack)
    obtain pcid m1 where m1: "alloc_pcid (k_mmu k) = (pcid, m1)" by (cases "alloc_pcid (k_mmu k)") auto
    let ?p = "(pcb_new pid Runnable cr3 kstack (initial_frame entry user_rsp))\<lparr>pcb_caps := caps, pcb_iflow := lab, pcb_pcid := pcid\<rparr>"
    let ?pt = "put_descriptor i ?p pt1"
    have pt2: "ptable_wf ?pt" "current_index ?pt = current_index (k_pt k)"
      using assms(2) pt1 by (auto simp: put_descriptor_def ptable_wf_def)
    have l: "live ?pt j r \<longleftrightarrow> (if j = i then r = ?p else live (k_pt k) j r)" for j r
      using assms(2) pt1 wf by (auto simp: put_descriptor_def live_def ptable_wf_def nth_list_update)
    have nq: "i \<notin># rq_procs (k_rq k)" using queue_okD(4) [OF q, of i] assms(3) by (auto simp: live_def)
    have st: "pcb_state ?p = Runnable" by (simp add: pcb_new_def)
    have "\<exists>q'. enqueue_runqueue i (nice_of ?pt i) (k_rq k) = Done q' \<and> queue_ok ?pt q' \<and> rq_procs q' = add_mset i (rq_procs (k_rq k))"
      by (rule queue_add [OF q assms(2) nq pt2(1) _ st]) (simp_all add: l)
    then obtain q' where q': "enqueue_runqueue i (nice_of ?pt i) (k_rq k) = Done q'" "queue_ok ?pt q'" by blast
    have "k' = k\<lparr>k_pt := ?pt, k_mmu := m1, k_rq := q'\<rparr>"
      using assms(4) Pair Some m1 q'(1) by (simp add: finish_process_def Let_def)
    then have k': "k_pt k' = ?pt" "k_rq k' = q'" by simp_all
    have ne: "current_index (k_pt k) \<noteq> Some i" using sched_invD(3) [OF assms(1), of i] assms(3) by (auto simp: live_def)
    show ?thesis
    proof (rule sched_invI)
      fix j r assume "live (k_pt k') j r" "pcb_state r = Running"
      then show "current_index (k_pt k') = Some j"
        using sched_invD(2) [OF assms(1)] st unfolding k' l pt2(2) by (metis process_state.distinct(9))
    next
      fix j assume "current_index (k_pt k') = Some j"
      then show "\<exists>p. live (k_pt k') j p \<and> pcb_state p = Running"
        using sched_invD(3) [OF assms(1), of j] ne unfolding k' l pt2(2) by auto
    qed (simp add: k' q'(2))
  qed
qed

lemma create_sched:
  assumes "sched_inv k" "create_user_process elf caps lab k = Some (Done (res, k'))"
  shows "sched_inv k'"
proof (cases "allocate_process_slot (k_pt k)")
  case (Pair r pt0)
  have wf: "ptable_wf (k_pt k)" using assms(1) by (auto simp: sched_inv_def queue_ok_def)
  show ?thesis
  proof (cases r)
    case None
    then have "k' = k" using assms(2) Pair by (auto simp: create_user_process_def allocate_process_slot_def split: option.splits)
    then show ?thesis using assms(1) by simp
  next
    case (Some ip)
    then obtain i pid where ip: "r = Some (i, pid)" by (cases ip) auto
    note a = allocate_slot_effect [OF Pair [unfolded ip] wf]
    have same: "sched_inv k1" if "k_pt k1 = pt0" "k_rq k1 = k_rq k" for k1
      using sched_inv_same [OF assms(1), of k1] that wf by (simp add: a(4) ptable_wf_def)
    have fail: "sched_inv k1" if "k_pt k1 = release_slot i pt0" "k_rq k1 = k_rq k" for k1
    proof (rule sched_inv_same [OF assms(1)])
      have "(process_table (k_pt k))[i := None] = process_table (k_pt k)" using a(2) by (metis list_update_id)
      then show "process_table (k_pt k1) = process_table (k_pt k)" using that a by (simp add: release_slot_def)
    qed (use that a wf in \<open>auto simp: release_slot_def ptable_wf_def\<close>)
    have inst: "sched_inv k2" if "k_pt k1 = pt0" "k_rq k1 = k_rq k" "finish_process i pid c3 en ur cs lb k1 = Done (rs, k2)"
      for k1 k2 c3 en ur cs lb rs
      using install_sched [OF same [OF that(1,2)] a(1) _ that(3)] a(2) that(1) by (simp add: a(4))
    obtain cr3 m0 where c: "create_process_cr3 (k_mmu k) = (cr3, m0)" by (cases "create_process_cr3 (k_mmu k)") auto
    show ?thesis
      using assms(2)
      by (auto simp: create_user_process_def Pair ip c Let_def split: if_splits option.splits sum.splits prod.splits intro: fail inst [rotated 2])
  qed
qed

lemma spawn_sched:
  assumes "sched_inv k" "sys_spawn program_id cap_mask k = Some (Done (res, k'))"
  shows "sched_inv k'"
  using assms create_sched [OF assms(1)]
  by (auto simp: sys_spawn_def spawn_by_program_id_def split: sum.splits option.splits prod.splits if_splits)

section \<open>The boot state\<close>

lemma boot_run_sched:
  assumes "sched_inv k" "current_index (k_pt k) = None" "live (k_pt k) i p" "pcb_state p = Runnable" "run_first_process i k = Done k'"
  shows "sched_inv k'"
proof -
  note q = sched_invD(1) [OF assms(1)]
  obtain p' where "live (k_pt k) i p'" and k': "k_rq k' = k_rq k" "current_index (k_pt k') = Some i" "ptable_wf (k_pt k')"
    and l: "\<And>j r. live (k_pt k') j r \<longleftrightarrow> (if j = i then r = p'\<lparr>pcb_state := Running\<rparr> else live (k_pt k) j r)"
    by (rule run_first_effect [OF assms(5) queue_okD(1) [OF q]]) (rule that)
  then have [simp]: "p' = p" using assms(3) live_unique by blast
  have run: "pcb_state r \<noteq> Running" if "live (k_pt k) j r" for j r using sched_invD(2) [OF assms(1) that] assms(2) by auto
  have "queue_ok (k_pt k') (k_rq k')"
    unfolding queue_ok_def k' l
  proof (intro conjI allI impI)
    fix j assume "j \<in># rq_procs (k_rq k)"
    then show "\<exists>r. (if j = i then r = p'\<lparr>pcb_state := Running\<rparr> else live (k_pt k) j r) \<and> pcb_state r \<in> {Runnable, Running}"
      using queue_okD(4) [OF q, of j] by (cases "j = i") auto
  next
    fix j r assume "if j = i then r = p'\<lparr>pcb_state := Running\<rparr> else live (k_pt k) j r" "pcb_state r = Runnable"
    then show "j \<in># rq_procs (k_rq k)" using queue_okD(5) [OF q, of j r] by (auto split: if_splits)
  qed (use k'(3) queue_okD [OF q] in auto)
  then show ?thesis by (rule sched_invI) (use run in \<open>auto simp: l k' split: if_splits\<close>)
qed

definition kernel_boot :: "u64 \<Rightarrow> mmu \<Rightarrow> buddy \<Rightarrow> memory \<Rightarrow> fsys \<Rightarrow> u8 list option list \<Rightarrow> kernel" where
  "kernel_boot stacks m b mem fs programs =
     \<lparr>k_pt = ptable_init stacks, k_rq = rq_init, k_ipc = ipc_queues_init, k_vfs = vfs_boot fs, k_tty = tty_boot,
      k_journal = journal_init, k_buddy = b, k_mmu = m, k_mem = mem, k_display = display_boot mem, k_perf = perf_boot,
      k_debug_regs = hw_bp_new, k_anon = replicate MAX_PROCESSES ANON_BASE, k_programs = programs,
      k_input = input_init, k_ps2 = ps2_boot, k_shm = replicate 8 None, k_fb_owner = None, k_fb_others = 0\<rparr>"

lemma kernel_boot_sched: "sched_inv (kernel_boot stacks m b mem fs programs)"
proof -
  have "rq_procs rq_init = {#}" by (simp add: rq_procs_def rq_init_def eevdf_task_empty_def)
  then show ?thesis
    by (auto simp: sched_inv_def queue_ok_def kernel_boot_def ptable_init_def ptable_wf_def live_def rq_init_inv)
qed

lemma dead_is_reapable:
  assumes "live pt i p" "pcb_state p = Dead" "ptable_wf pt" "pid = 0 \<or> pid = - 1 \<or> pid = pcb_pid p"
  shows "fst (reap_dead pid pt) \<noteq> None"
proof -
  have i: "i < length (process_table pt)" "process_table pt ! i = Some p" using assms(1,3) by (auto simp: live_def ptable_wf_def)
  then have "reapable pid (process_table pt ! i)" using assms(2,4) by (auto simp: reapable_def)
  then obtain k where "first_index (reapable pid) (process_table pt) = Some k" using first_index_exists [OF i(1)] by blast
  moreover from first_index_SomeD [OF this] have "process_table pt ! k \<noteq> None" by (auto simp: reapable_def split: option.splits)
  ultimately show ?thesis by (auto simp: reap_dead_def)
qed


text \<open>A process that called \<open>waitpid(0)\<close>, which means any child, and went to sleep is not woken when a child
  exits, although that child could be collected with the same argument.\<close>

theorem waitpid_zero_is_not_woken:
  assumes "sched_inv k" "current_index (k_pt k) = Some i" "get_descriptor i (k_pt k) = Some p" "pcb_pid p \<noteq> 0"
    and "get_descriptor j (k_pt k) = Some w" "pcb_state w = Blocked" "pcb_waiting_for w = Some 0"
  shows "\<exists>k'. exit_cleanup st i k = Done k' \<and> get_descriptor j (k_pt k') = Some w \<and> j \<notin># rq_procs (k_rq k') \<and>
    fst (reap_dead 0 (k_pt k')) \<noteq> None"
proof -
  have p: "live (k_pt k) i p" and w: "live (k_pt k) j w" using assms(3,5) by (auto simp: get_descriptor_eq_Some_iff)
  have "pcb_state p = Running" using sched_invD(3) [OF assms(1,2)] p live_unique by blast
  then have ji: "j \<noteq> i" using live_neq [OF w p] assms(6) by simp
  obtain k' where k': "exit_cleanup st i k = Done k'" and q: "queue_ok (k_pt k') (k_rq k')"
    and l: "\<forall>j r. live (k_pt k') j r \<longleftrightarrow> (if j = i then r = p\<lparr>pcb_state := Dead, pcb_exit_status := st\<rparr>
       else \<exists>p0. live (k_pt k) j p0 \<and> r = woken (pcb_pid p) p0)"
    by (rule exit_cleanupE [OF assms(1,2) p, of st]) (rule that)
  note l = l [rule_format]
  have "woken (pcb_pid p) w = w" using assms(4,7) by (simp add: woken_def waits_for_def)
  then have w': "live (k_pt k') j w" using w ji unfolding l by metis
  moreover have "j \<notin># rq_procs (k_rq k')" by (rule not_queued [OF q w']) (simp add: assms(6))
  moreover have "fst (reap_dead 0 (k_pt k')) \<noteq> None"
    by (rule dead_is_reapable [of _ i "p\<lparr>pcb_state := Dead, pcb_exit_status := st\<rparr>"]) (simp_all add: l queue_okD(1) [OF q])
  ultimately show ?thesis using k' by (auto simp: get_descriptor_eq_Some_iff)
qed


section \<open>Examples\<close>

text \<open>A running child (pid 2, slot 0) and its parent (pid 1, slot 1), which is blocked in \<open>waitpid\<close>.\<close>

definition demo_pcb :: "u32 \<Rightarrow> process_state \<Rightarrow> u32 option \<Rightarrow> pcb" where
  "demo_pcb pid st w = (pcb_new pid st 0x200000 0 (initial_frame 0xA00000 0x7ffffffff000))\<lparr>pcb_waiting_for := w\<rparr>"

definition demo_kernel :: "u32 \<Rightarrow> kernel" where
  "demo_kernel w = (kernel_boot 0 demo_mmu booted (\<lambda>_. 0) (vfs_fs blank_vfs) [])
     \<lparr>k_pt := (ptable_init 0)\<lparr>process_table := (replicate MAX_PROCESSES None)
        [0 := Some (demo_pcb 2 Running None), 1 := Some (demo_pcb 1 Blocked (Some w))],
        current_index := Some 0, current_pid := Some 2\<rparr>\<rparr>"

lemma demo_live: "live (k_pt (demo_kernel w)) i p \<longleftrightarrow>
    i = 0 \<and> p = demo_pcb 2 Running None \<or> i = 1 \<and> p = demo_pcb 1 Blocked (Some w)"
  by (auto simp: live_def demo_kernel_def nth_list_update MAX_PROCESSES_def)

lemma demo_pcb_fields [simp]:
  "pcb_state (demo_pcb pid st w) = st" "pcb_pid (demo_pcb pid st w) = pid" "pcb_waiting_for (demo_pcb pid st w) = w"
  by (simp_all add: demo_pcb_def pcb_new_def)

lemma demo_sched: "sched_inv (demo_kernel w)"
proof (rule sched_invI)
  have "k_rq (demo_kernel w) = rq_init" "ptable_wf (k_pt (demo_kernel w))"
    by (simp_all add: demo_kernel_def kernel_boot_def ptable_wf_def ptable_init_def)
  moreover have "rq_procs rq_init = {#}" by (simp add: rq_procs_def rq_init_def eevdf_task_empty_def)
  ultimately show "queue_ok (k_pt (demo_kernel w)) (k_rq (demo_kernel w))"
    unfolding queue_ok_def demo_live by (auto simp: rq_init_inv)
qed (auto simp: demo_live, auto simp: demo_kernel_def)

lemma demo_descriptors:
  "current_index (k_pt (demo_kernel w)) = Some 0"
  "get_descriptor 0 (k_pt (demo_kernel w)) = Some (demo_pcb 2 Running None)"
  "get_descriptor 1 (k_pt (demo_kernel w)) = Some (demo_pcb 1 Blocked (Some w))"
  unfolding get_descriptor_eq_Some_iff demo_live by (simp_all add: demo_kernel_def)


theorem waitpid_zero_is_not_woken_witness:
  "\<exists>k'. exit_cleanup (Some 7) 0 (demo_kernel 0) = Done k' \<and> 1 \<notin># rq_procs (k_rq k')"
  using waitpid_zero_is_not_woken [OF demo_sched [of 0] demo_descriptors(1,2) _ demo_descriptors(3), of "Some 7"] by auto


end
