(* ===== verification/Syscalls.thy ===== *)
theory Syscalls
  imports Lifecycle Address_Space
begin

text \<open>
  The system calls (\<open>kernel/syscall/dispatcher/\<close>): messages, capabilities, the restart journal, information flow,
  anonymous memory, files and the console, breakpoints, counters, the clock and the scheduler. Each handler is a
  function from its arguments and the kernel to its result and the new kernel.
\<close>

section \<open>Messages\<close>

definition IPC_NONBLOCK :: u32 where "IPC_NONBLOCK = 1"

text \<open>The 64 bytes of a message in memory (\<open>repr(C)\<close>, little endian).\<close>

definition encode_msg :: "rwm_msg \<Rightarrow> u8 list" where
  "encode_msg m = [msg_type m, msg_flags m, ucast (msg_seq m), ucast (drop_bit 8 (msg_seq m))] @
     map (byte_of (sender_pid m)) [0..<4] @ payload m"

definition decode_msg :: "u8 list \<Rightarrow> rwm_msg" where
  "decode_msg bs =
     \<lparr>msg_type = bs ! 0, msg_flags = bs ! 1, msg_seq = ucast (bs ! 2) OR push_bit 8 (ucast (bs ! 3)),
      sender_pid = load32 4 (\<lambda>i. bs ! i), payload = take 56 (drop 8 bs)\<rparr>"

definition sys_ipc_send :: "u32 \<Rightarrow> u64 \<Rightarrow> kernel \<Rightarrow> u64 sys_result \<times> kernel" where
  "sys_ipc_send target_pid msg_ptr k =
     (case check_user_ptr msg_ptr 64 k of
        Inl e \<Rightarrow> (Err e, k)
      | Inr _ \<Rightarrow>
          let msg = (decode_msg (uload k msg_ptr 64))\<lparr>sender_pid := caller_pid k\<rparr>
          in case index_of_pid target_pid (k_pt k) of
               None \<Rightarrow> (Err NOENT, k)
             | Some target_idx \<Rightarrow>
                 (case ipc_enqueue target_idx msg (k_ipc k) of
                    (True, qs) \<Rightarrow> (Ok 0, k\<lparr>k_ipc := qs\<rparr>)
                  | (False, qs) \<Rightarrow> (Err NOMEM, k\<lparr>k_ipc := qs\<rparr>)))"

definition sys_ipc_recv :: "u64 \<Rightarrow> u32 \<Rightarrow> kernel \<Rightarrow> u64 sys_result \<times> kernel" where
  "sys_ipc_recv out_ptr flags k =
     (case check_user_ptr out_ptr 64 k of
        Inl e \<Rightarrow> (Err e, k)
      | Inr _ \<Rightarrow>
          (case current_index (k_pt k) of
             None \<Rightarrow> (Err INVAL, k)
           | Some idx \<Rightarrow>
               (case ipc_dequeue idx (k_ipc k) of
                  (Some msg, qs) \<Rightarrow> (Ok 0, ustore out_ptr (encode_msg msg) (k\<lparr>k_ipc := qs\<rparr>))
                | (None, qs) \<Rightarrow> (Err AGAIN, k\<lparr>k_ipc := qs\<rparr>))))"

text \<open>The arms of the dispatcher: the capability, then (for sending) the flow from the caller to the receiver.\<close>

definition call_ipc_send :: "u64 \<Rightarrow> u64 \<Rightarrow> kernel \<Rightarrow> u64 sys_result \<times> kernel" where
  "call_ipc_send a1 a2 k =
     (case require cap_IPC_SEND k of
        Inl e \<Rightarrow> (Err e, k)
      | Inr _ \<Rightarrow>
          let target_pid = ucast a1
          in case index_of_pid target_pid (k_pt k) of
               None \<Rightarrow> sys_ipc_send target_pid a2 k
             | Some dst_idx \<Rightarrow>
                 (case label_of_index dst_idx k of
                    None \<Rightarrow> sys_ipc_send target_pid a2 k
                  | Some dst_label \<Rightarrow>
                      (case check_flow_to dst_label k of
                         Inl e \<Rightarrow> (Err e, k)
                       | Inr _ \<Rightarrow> sys_ipc_send target_pid a2 k)))"

definition call_ipc_recv :: "u64 \<Rightarrow> u64 \<Rightarrow> kernel \<Rightarrow> u64 sys_result \<times> kernel" where
  "call_ipc_recv a1 a2 k =
     (case require cap_IPC_RECV k of Inl e \<Rightarrow> (Err e, k) | Inr _ \<Rightarrow> sys_ipc_recv a1 (ucast a2) k)"

section \<open>Processes\<close>

definition sys_getpid :: "kernel \<Rightarrow> u64 sys_result" where
  "sys_getpid k = (case current_pid (k_pt k) of None \<Rightarrow> Err INVAL | Some p \<Rightarrow> Ok (ucast p))"

text \<open>A \<open>ProcInfo\<close> is a pid, a state byte and three bytes of padding, which the assignment leaves unspecified;
  they are written as zero here.\<close>

definition proc_info_bytes :: "u32 \<times> u8 \<Rightarrow> u8 list" where
  "proc_info_bytes e = map (byte_of (fst e)) [0..<4] @ [snd e, 0, 0, 0]"

definition sys_get_proc_info :: "u64 \<Rightarrow> u32 \<Rightarrow> kernel \<Rightarrow> u64 sys_result \<times> kernel" where
  "sys_get_proc_info buf capacity k =
     (if buf = 0 \<or> capacity = 0 then (Err INVAL, k)
      else case check_user_ptr buf (unat capacity * 8) k of
             Inl e \<Rightarrow> (Err e, k)
           | Inr _ \<Rightarrow>
               (let es = get_proc_info_snapshot (unat capacity) (k_pt k)
                in (Ok (of_nat (length es)), ustore buf (concat (map proc_info_bytes es)) k)))"

definition sys_set_nice :: "u64 \<Rightarrow> kernel \<Rightarrow> u64 sys_result \<times> kernel" where
  "sys_set_nice a1 k =
     (let nice = sint a1
      in if nice < - 20 \<or> nice > 19 then (Err INVAL, k)
         else case current_index (k_pt k) of
                None \<Rightarrow> (Ok 0, k)
              | Some idx \<Rightarrow> (Ok 0, k\<lparr>k_rq := set_nice idx nice (k_rq k),
                                    k_pt := update_descriptor idx (\<lambda>p. p\<lparr>pcb_nice := nice\<rparr>) (k_pt k)\<rparr>))"

section \<open>Capabilities and the journal\<close>

definition sys_cap_grant :: "u64 \<Rightarrow> u64 \<Rightarrow> kernel \<Rightarrow> u64 sys_result \<times> kernel" where
  "sys_cap_grant target_pid_raw cap_bits k =
     (case require cap_GRANT k of
        Inl e \<Rightarrow> (Err e, k)
      | Inr _ \<Rightarrow>
          let safe_bits = bits (current_caps k) AND cap_bits
          in case index_of_pid (ucast target_pid_raw) (k_pt k) of
               None \<Rightarrow> (Err NOENT, k)
             | Some i \<Rightarrow> (Ok safe_bits, k\<lparr>k_pt := update_descriptor i (\<lambda>p. p\<lparr>pcb_caps := grant (pcb_caps p) safe_bits\<rparr>) (k_pt k)\<rparr>))"

definition sys_cap_revoke :: "u64 \<Rightarrow> u64 \<Rightarrow> kernel \<Rightarrow> u64 sys_result \<times> kernel" where
  "sys_cap_revoke target_pid_raw cap_bits k =
     (case require cap_GRANT k of
        Inl e \<Rightarrow> (Err e, k)
      | Inr _ \<Rightarrow>
          (case index_of_pid (ucast target_pid_raw) (k_pt k) of
             None \<Rightarrow> (Err NOENT, k)
           | Some i \<Rightarrow> (Ok 0, k\<lparr>k_pt := update_descriptor i (\<lambda>p. p\<lparr>pcb_caps := revoke (pcb_caps p) cap_bits\<rparr>) (k_pt k)\<rparr>)))"

definition sys_cap_query :: "kernel \<Rightarrow> u64 sys_result" where
  "sys_cap_query k = Ok (bits (current_caps k))"

definition sys_journal_write :: "u64 \<Rightarrow> u64 \<Rightarrow> kernel \<Rightarrow> u64 sys_result \<times> kernel" where
  "sys_journal_write ptr len k =
     (case require cap_JOURNAL k of
        Inl e \<Rightarrow> (Err e, k)
      | Inr _ \<Rightarrow>
          let n = unat len
          in if n = 0 \<or> n > JOURNAL_SIZE then (Err INVAL, k)
             else case check_user_ptr ptr n k of
                    Inl e \<Rightarrow> (Err e, k)
                  | Inr _ \<Rightarrow>
                      (let (written, j) = journal_write (uload k ptr n) (caller_pid k) (k_journal k)
                       in (if written = 0 then Err INVAL else Ok (of_nat written), k\<lparr>k_journal := j\<rparr>)))"

definition sys_journal_read :: "u64 \<Rightarrow> u64 \<Rightarrow> kernel \<Rightarrow> u64 sys_result \<times> kernel" where
  "sys_journal_read ptr cap k =
     (case require cap_JOURNAL k of
        Inl e \<Rightarrow> (Err e, k)
      | Inr _ \<Rightarrow>
          let n = unat cap
          in if n = 0 then (Ok 0, k)
             else case check_user_ptr ptr n k of
                    Inl e \<Rightarrow> (Err e, k)
                  | Inr _ \<Rightarrow>
                      (let (copied, bs) = journal_read (uload k ptr n) (k_journal k)
                       in (Ok (of_nat copied), ustore ptr bs k)))"

section \<open>Information flow\<close>

definition u64_bytes :: "u64 \<Rightarrow> u8 list" where
  "u64_bytes w = map (\<lambda>i. ucast (drop_bit (8 * i) w)) [0..<8]"

definition sys_iflow_get :: "u32 \<Rightarrow> u64 \<Rightarrow> u64 \<Rightarrow> kernel \<Rightarrow> u64 sys_result \<times> kernel" where
  "sys_iflow_get pid out_sec out_int k =
     (case check_user_ptr out_sec 8 k of
        Inl e \<Rightarrow> (Err e, k)
      | Inr _ \<Rightarrow>
          (case check_user_ptr out_int 8 k of
             Inl e \<Rightarrow> (Err e, k)
           | Inr _ \<Rightarrow>
               (case index_of_pid pid (k_pt k) of
                  None \<Rightarrow> (Err NOENT, k)
                | Some idx \<Rightarrow>
                    (case label_of_index idx k of
                       None \<Rightarrow> (Err NOENT, k)
                     | Some l \<Rightarrow> (Ok 0, ustore out_int (u64_bytes (integrity l)) (ustore out_sec (u64_bytes (secrecy l)) k))))))"

definition sys_iflow_taint :: "u64 \<Rightarrow> u64 \<Rightarrow> kernel \<Rightarrow> u64 sys_result \<times> kernel" where
  "sys_iflow_taint add_secrecy remove_integrity k =
     (case current_index (k_pt k) of
        None \<Rightarrow> (Err INVAL, k)
      | Some idx \<Rightarrow> (Ok 0, k\<lparr>k_pt := update_descriptor idx (\<lambda>p. p\<lparr>pcb_iflow := taint (pcb_iflow p) add_secrecy remove_integrity\<rparr>) (k_pt k)\<rparr>))"

definition sys_iflow_declassify :: "u64 \<Rightarrow> kernel \<Rightarrow> u64 sys_result \<times> kernel" where
  "sys_iflow_declassify remove_secrecy k =
     (case require cap_DECLASSIFY k of
        Inl e \<Rightarrow> (Err e, k)
      | Inr _ \<Rightarrow>
          (case current_index (k_pt k) of
             None \<Rightarrow> (Err INVAL, k)
           | Some idx \<Rightarrow> (Ok 0, k\<lparr>k_pt := update_descriptor idx (\<lambda>p. p\<lparr>pcb_iflow := declassify (pcb_iflow p) remove_secrecy\<rparr>) (k_pt k)\<rparr>)))"

definition sys_iflow_endorse :: "u32 \<Rightarrow> u64 \<Rightarrow> kernel \<Rightarrow> u64 sys_result \<times> kernel" where
  "sys_iflow_endorse target_pid add_integrity k =
     (case require cap_ENDORSE k of
        Inl e \<Rightarrow> (Err e, k)
      | Inr _ \<Rightarrow>
          (case index_of_pid target_pid (k_pt k) of
             None \<Rightarrow> (Err NOENT, k)
           | Some idx \<Rightarrow> (Ok 0, k\<lparr>k_pt := update_descriptor idx (\<lambda>p. p\<lparr>pcb_iflow := endorse (pcb_iflow p) add_integrity\<rparr>) (k_pt k)\<rparr>)))"

section \<open>Anonymous memory\<close>

definition prot_WRITE :: u32 where "prot_WRITE = 2"
definition prot_EXEC :: u32 where "prot_EXEC = 4"

definition mmap_flags :: "u32 \<Rightarrow> u64" where
  "mmap_flags prot =
     (let f0 = flags_with (flags_with 0 Present) User;
          f1 = (if prot AND prot_WRITE \<noteq> 0 then flags_with f0 Writable else f0);
          f2 = (if prot AND prot_EXEC = 0 then flags_with f1 NoExec else f1)
      in flags_as_u64 f2)"

text \<open>The loop over \<open>n\<close> pages from \<open>va\<close>: on failure the frames and mappings made so far stay.\<close>

fun mmap_pages :: "u64 \<Rightarrow> u64 \<Rightarrow> nat \<Rightarrow> u64 \<Rightarrow> kernel \<Rightarrow> (bool \<times> kernel) halting" where
  "mmap_pages cr3 flags 0 va k = Done (True, k)"
| "mmap_pages cr3 flags (Suc n) va k =
     bind_halt (alloc_frame (k_buddy k)) (\<lambda>(r, b).
       case r of
         None \<Rightarrow> Done (False, k\<lparr>k_buddy := b\<rparr>)
       | Some pa \<Rightarrow>
           (let k1 = k\<lparr>k_buddy := b, k_mem := zero_bytes pa PAGE_SIZE (k_mem k)\<rparr>
            in case map_page_into_space cr3 va (of_nat pa) flags (k_mmu k1) of
                 (False, m) \<Rightarrow> Done (False, k1\<lparr>k_mmu := m\<rparr>)
               | (True, m) \<Rightarrow> mmap_pages cr3 flags n (va + PAGE_SIZE_4K) (k1\<lparr>k_mmu := m\<rparr>)))"

definition sys_mmap :: "u64 \<Rightarrow> u64 \<Rightarrow> kernel \<Rightarrow> (u64 sys_result \<times> kernel) halting" where
  "sys_mmap pages_raw prot_raw k =
     (let pages = unat pages_raw
      in if pages = 0 \<or> pages > 1024 then Done (Err INVAL, k)
         else case current_index (k_pt k) of
                None \<Rightarrow> Done (Err INVAL, k)
              | Some idx \<Rightarrow>
                  (case current_descriptor (k_pt k) of
                     None \<Rightarrow> Done (Err INVAL, k)
                   | Some d \<Rightarrow>
                       (let va_start = k_anon k ! idx;
                            va_end = va_start + of_nat pages * PAGE_SIZE_4K
                        in if va_end > ANON_LIMIT then Done (Err NOMEM, k)
                           else bind_halt (mmap_pages (pcb_cr3 d) (mmap_flags (ucast prot_raw)) pages va_start k) (\<lambda>(ok, k1).
                                  if \<not> ok then Done (Err NOMEM, k1)
                                  else Done (Ok va_start, k1\<lparr>k_anon := (k_anon k1)[idx := va_end]\<rparr>)))))"

definition sys_munmap :: "u64 \<Rightarrow> u64 \<Rightarrow> kernel \<Rightarrow> u64 sys_result \<times> kernel" where
  "sys_munmap va pages_raw k =
     (let pages = unat pages_raw
      in if pages = 0 \<or> va < ANON_BASE \<or> va \<ge> ANON_LIMIT then (Err INVAL, k)
         else case current_descriptor (k_pt k) of
                None \<Rightarrow> (Err INVAL, k)
              | Some d \<Rightarrow>
                  (Ok 0, k\<lparr>k_mmu := fold (\<lambda>i. unmap_page_in_space (pcb_cr3 d) (va + of_nat i * PAGE_SIZE_4K)) [0..<pages] (k_mmu k)\<rparr>))"

section \<open>The bytes of a message\<close>

lemma byte_of_load32: "i < 4 \<Longrightarrow> byte_of (load32 a m) i = m (a + i)"
proof -
  assume i: "i < 4"
  let ?b = "\<lambda>j. unat (m (a + j))"
  have lt: "?b j < 256" for j using unsigned_less [of "m (a + j)", where 'a = nat] by simp
  let ?n = "?b 0 + 256 * (?b 1 + 256 * (?b 2 + 256 * ?b 3))"
  have n: "?n < 2 ^ 32" using lt [of 0] lt [of 1] lt [of 2] lt [of 3] by simp
  have w: "unat (load32 a m) = ?n"
    unfolding load32_eq using n by (simp add: unat_of_nat take_bit_nat_eq_self del: of_nat_add of_nat_mult)
  have "unat (byte_of (load32 a m) i) = take_bit 8 (drop_bit (8 * i) ?n)"
    using w by (simp add: byte_of_def unsigned_ucast_eq unat_drop_bit_eq)
  also have "\<dots> = ?n div 2 ^ (8 * i) mod 256" by (simp add: take_bit_eq_mod drop_bit_eq_div)
  also have "\<dots> = ?b i"
  proof -
    have d: "(b + 256 * x) div 256 = x" "(b + 256 * x) mod 256 = b" if "b < 256" for b x :: nat using that by auto
    have n1: "?n div 256 = ?b 1 + 256 * (?b 2 + 256 * ?b 3)" by (rule d(1) [OF lt])
    then have n2: "?n div 256 div 256 = ?b 2 + 256 * ?b 3" by (simp only: d(1) [OF lt])
    then have n3: "?n div 256 div 256 div 256 = ?b 3" by (simp only: d(1) [OF lt])
    have p: "n div 2 ^ 8 = n div 256" "n div 2 ^ 16 = n div 256 div 256" "n div 2 ^ 24 = n div 256 div 256 div 256" for n :: nat
      by (simp_all add: div_mult2_eq [symmetric])
    have "?n mod 256 = ?b 0" "?n div 2 ^ 8 mod 256 = ?b 1" "?n div 2 ^ 16 mod 256 = ?b 2" "?n div 2 ^ 24 mod 256 = ?b 3"
      unfolding p n3 n2 n1 by (simp_all only: d [OF lt] mod_less [OF lt])
    moreover have "i = 0 \<or> i = 1 \<or> i = 2 \<or> i = 3" using i by arith
    ultimately show ?thesis by (elim disjE) (simp_all only: mult_0_right mult_1_right power_0 div_by_1, simp_all)
  qed
  finally show ?thesis by (simp add: word_unat_eq_iff)
qed

lemma u16_bytes: "ucast (ucast a OR push_bit 8 (ucast b) :: u16) = (a :: u8)" "ucast (drop_bit 8 (ucast a OR push_bit 8 (ucast b) :: u16)) = (b :: u8)"
  by (rule bit_word_eqI; auto simp: bit_simps dest: bit_imp_le_length)+

lemma list_split8:
  assumes "length bs = 64"
  shows "[bs ! 0, bs ! 1, bs ! 2, bs ! 3] = take 4 bs"
  using assms by (intro nth_equalityI) (auto simp: less_Suc_eq numeral_eq_Suc)

text \<open>What the receiver finds in its buffer: the bytes that were sent, with the sender field overwritten.\<close>

lemma encode_stamped:
  assumes "length bs = 64"
  shows "encode_msg ((decode_msg bs)\<lparr>sender_pid := pid\<rparr>) = take 4 bs @ map (byte_of pid) [0..<4] @ drop 8 bs"
proof -
  have "ucast (msg_seq (decode_msg bs)) = bs ! 2" "ucast (drop_bit 8 (msg_seq (decode_msg bs))) = bs ! 3"
    by (simp_all only: decode_msg_def rwm_msg.simps u16_bytes)
  moreover have "msg_type (decode_msg bs) = bs ! 0" "msg_flags (decode_msg bs) = bs ! 1" "payload (decode_msg bs) = drop 8 bs"
    using assms by (simp_all add: decode_msg_def)
  ultimately show ?thesis using list_split8 [OF assms] by (simp add: encode_msg_def)
qed

lemma length_encode_msg: "length (payload m) = 56 \<Longrightarrow> length (encode_msg m) = 64"
  by (simp add: encode_msg_def)

lemma length_uload [simp]: "length (uload k va n) = n"
  by (simp add: uload_def)

lemma fold_store_nth:
  assumes "inj_on f {..<n}" "i < n"
  shows "fold (\<lambda>i mem. mem(f i := bs ! i)) [0..<n] mem (f i) = (bs ! i :: u8)"
  using assms
proof (induction n)
  case (Suc n)
  have inj: "inj_on f {..<n}" using Suc.prems(1) by (rule inj_on_subset) auto
  show ?case
  proof (cases "i = n")
    case False
    then have "f i \<noteq> f n" using Suc.prems by (metis inj_on_eq_iff lessI lessThan_iff)
    then show ?thesis using False Suc.IH [OF inj] Suc.prems(2) by simp
  qed simp
qed simp

lemma uload_ustore:
  assumes "inj_on (\<lambda>i. uaddr k (va + of_nat i)) {..<length bs}"
  shows "uload (ustore va bs k) va (length bs) = bs"
proof (rule nth_equalityI)
  fix i assume "i < length (uload (ustore va bs k) va (length bs))"
  then have i: "i < length bs" by simp
  have "uaddr (ustore va bs k) = uaddr k" by (simp add: uaddr_def ustore_def fun_eq_iff)
  then show "uload (ustore va bs k) va (length bs) ! i = bs ! i"
    using i fold_store_nth [OF assms i] by (simp add: uload_def ustore_def)
qed simp

section \<open>Sending\<close>

text \<open>The message is in the queue of a process the caller's label may flow to, and nothing else has changed.\<close>

definition delivered :: "u32 \<Rightarrow> rwm_msg \<Rightarrow> kernel \<Rightarrow> kernel \<Rightarrow> bool" where
  "delivered pid msg k k' \<longleftrightarrow>
     (\<exists>dst p. index_of_pid pid (k_pt k) = Some dst \<and> get_descriptor dst (k_pt k) = Some p \<and> pcb_pid p = pid \<and>
        can_flow (current_label k) (pcb_iflow p) \<and>
        ipc_contents (k_ipc k' ! dst) = ipc_contents (k_ipc k ! dst) @ [msg] \<and>
        (\<forall>j. j \<noteq> dst \<longrightarrow> k_ipc k' ! j = k_ipc k ! j) \<and> k' = k\<lparr>k_ipc := k_ipc k'\<rparr>)"

lemma index_of_pid_live:
  assumes "index_of_pid pid pt = Some i" "ptable_wf pt"
  obtains p where "live pt i p" "pcb_pid p = pid"
  using first_index_SomeD [OF assms(1) [unfolded index_of_pid_def]] assms(2)
  by (auto simp: has_pid_def live_def ptable_wf_def split: option.splits)

lemma ipc_enqueue_result:
  assumes "ipc_inv qs" "i < MAX_PROCESSES" "ipc_enqueue i m qs = (ok, qs')"
  shows "ok \<longleftrightarrow> length (ipc_contents (qs ! i)) < IPC_QUEUE_DEPTH"
    "ok \<Longrightarrow> ipc_contents (qs' ! i) = ipc_contents (qs ! i) @ [m]" "j \<noteq> i \<Longrightarrow> qs' ! j = qs ! j"
proof -
  note r = ipc_inv_nth [OF assms(1,2)] and a = ipc_enqueue_at [OF assms(1,2), of m]
  have len: "i < length qs" using assms(1,2) by (simp add: ipc_inv_def)
  show "ok \<longleftrightarrow> length (ipc_contents (qs ! i)) < IPC_QUEUE_DEPTH"
    using ipcq.push_room [OF r] ipcq.push_full [OF r] ipcq.bounded [OF r] a assms(3)
    by (metis fst_conv linorder_neqE_nat not_le)
  then show "ipc_contents (qs' ! i) = ipc_contents (qs ! i) @ [m]" if ok
    using that ipcq.push_room [OF r] a assms(3) len by auto
  show "qs' ! j = qs ! j" if "j \<noteq> i" using ipc_enqueue_other [OF that, of m qs] assms(3) by simp
qed

lemma ipc_dequeue_first:
  assumes "ipc_inv qs" "i < MAX_PROCESSES" "ipc_contents (qs ! i) = m # ms"
  obtains qs' where "ipc_dequeue i qs = (Some m, qs')"
proof -
  have "fst (ipc_dequeue i qs) = Some m"
    using ipcq.pop_some [OF ipc_inv_nth [OF assms(1,2)] assms(3)] assms(2) by (auto simp: ipc_dequeue_def split_beta)
  then show ?thesis using that by (metis prod.collapse)
qed

text \<open>C3: A send that succeeds was permitted: the caller holds the capability and its label may flow to the label of
  the receiver. It appends one message to the queue of that receiver, stamped with the true pid of the caller and
  otherwise as it was in the caller's memory, and changes nothing else. A send without the capability, or
  against the labels, is refused and changes nothing at all.\<close>

theorem ipc_send_respects_flow:
  assumes "ptable_wf (k_pt k)" "ipc_inv (k_ipc k)" "call_ipc_send a1 a2 k = (r, k')"
  shows "(r = Ok v \<longrightarrow> has (current_caps k) cap_IPC_SEND \<and>
      delivered (ucast a1) ((decode_msg (uload k a2 64))\<lparr>sender_pid := caller_pid k\<rparr>) k k') \<and>
    (\<not> has (current_caps k) cap_IPC_SEND \<longrightarrow> r = Err PERM \<and> k' = k) \<and>
    (\<forall>dst p. index_of_pid (ucast a1) (k_pt k) = Some dst \<and> get_descriptor dst (k_pt k) = Some p \<and>
       \<not> can_flow (current_label k) (pcb_iflow p) \<longrightarrow> r = Err PERM \<and> k' = k)"
proof (rule conjI [OF impI conjI [OF impI]])
  show "r = Err PERM \<and> k' = k" if "\<not> has (current_caps k) cap_IPC_SEND"
    using assms(3) that by (simp add: call_ipc_send_def require_def)
  show "\<forall>dst p. index_of_pid (ucast a1) (k_pt k) = Some dst \<and> get_descriptor dst (k_pt k) = Some p \<and>
       \<not> can_flow (current_label k) (pcb_iflow p) \<longrightarrow> r = Err PERM \<and> k' = k"
    using assms(3) by (auto simp: call_ipc_send_def require_def label_of_index_def check_flow_to_def split: if_splits)
next
  assume ok: "r = Ok v"
  then have has: "has (current_caps k) cap_IPC_SEND" using assms(3) by (auto simp: call_ipc_send_def require_def split: if_splits)
  have "delivered (ucast a1) ((decode_msg (uload k a2 64))\<lparr>sender_pid := caller_pid k\<rparr>) k k'"
  proof (cases "index_of_pid (ucast a1) (k_pt k)")
    case None
    then have "fst (call_ipc_send a1 a2 k) \<noteq> Ok v"
      using has by (simp add: call_ipc_send_def require_def sys_ipc_send_def split: sum.splits)
    then show ?thesis using ok assms(3) by simp
  next
    case (Some dst)
    obtain p where p: "live (k_pt k) dst p" "pcb_pid p = ucast a1" using index_of_pid_live [OF Some assms(1)] .
    have gd: "get_descriptor dst (k_pt k) = Some p" using p(1) by (simp add: get_descriptor_eq_Some_iff)
    let ?m = "(decode_msg (uload k a2 64))\<lparr>sender_pid := caller_pid k\<rparr>"
    obtain b qs where e: "ipc_enqueue dst ?m (k_ipc k) = (b, qs)" by fastforce
    note eq = ipc_enqueue_result [OF assms(2) live_bound [OF p(1)] e]
    have flow: "can_flow (current_label k) (pcb_iflow p)" and send: "sys_ipc_send (ucast a1) a2 k = (Ok v, k')"
      using assms(3) ok has Some gd by (auto simp: call_ipc_send_def require_def label_of_index_def check_flow_to_def split: if_splits)
    have "b" "k' = k\<lparr>k_ipc := qs\<rparr>" using send Some e by (auto simp: sys_ipc_send_def split: sum.splits bool.splits)
    then show ?thesis unfolding delivered_def using Some gd p(2) flow eq by (intro exI [of _ dst] exI [of _ p]) simp
  qed
  with has show "has (current_caps k) cap_IPC_SEND \<and>
      delivered (ucast a1) ((decode_msg (uload k a2 64))\<lparr>sender_pid := caller_pid k\<rparr>) k k'" by blast
qed

text \<open>C9: A message arrives byte for byte: whatever 64 bytes the sender had in memory, the receiver, once it runs and
  calls receive on an otherwise empty queue, finds the same bytes in its buffer, except that the sender field
  holds the pid of the sender, whatever was written there.\<close>

theorem message_bytes_arrive:
  assumes "ptable_wf (k_pt k)" "ipc_inv (k_ipc k)" "sys_ipc_send pid ptr k = (Ok 0, k1)"
    and "index_of_pid pid (k_pt k) = Some dst" "ipc_contents (k_ipc k ! dst) = []"
    and "k_ipc k2 = k_ipc k1" "current_index (k_pt k2) = Some dst" "sys_ipc_recv out flags k2 = (Ok 0, k3)"
    and "inj_on (\<lambda>i. uaddr k2 (out + of_nat i)) {..<64}"
  shows "uload k3 out 64 = take 4 (uload k ptr 64) @ map (byte_of (caller_pid k)) [0..<4] @ drop 8 (uload k ptr 64)"
proof -
  let ?m = "(decode_msg (uload k ptr 64))\<lparr>sender_pid := caller_pid k\<rparr>"
  obtain p where "live (k_pt k) dst p" using index_of_pid_live [OF assms(4,1)] .
  note dst = live_bound [OF this]
  obtain b qs where e: "ipc_enqueue dst ?m (k_ipc k) = (b, qs)" by fastforce
  have b: "b" and k1: "k_ipc k1 = qs"
    using assms(3,4) e by (auto simp: sys_ipc_send_def split: sum.splits bool.splits)
  have inv: "ipc_inv qs" using ipc_enqueue_inv [OF assms(2), of dst ?m] e by simp
  have c: "ipc_contents (qs ! dst) = [?m]" using ipc_enqueue_result(2) [OF assms(2) dst e b] assms(5) by simp
  obtain qs' where d: "ipc_dequeue dst (k_ipc k2) = (Some ?m, qs')"
    using ipc_dequeue_first [OF inv dst c] assms(6) k1 by metis
  have k3: "k3 = ustore out (encode_msg ?m) (k2\<lparr>k_ipc := qs'\<rparr>)"
    using assms(7,8) d by (auto simp: sys_ipc_recv_def split: sum.splits)
  have ua: "uaddr (k2\<lparr>k_ipc := qs'\<rparr>) = uaddr k2" by (simp add: uaddr_def fun_eq_iff)
  have len: "length (encode_msg ?m) = 64" by (rule length_encode_msg) (simp add: decode_msg_def)
  have "uload k3 out 64 = encode_msg ?m"
    unfolding k3 using uload_ustore [of "k2\<lparr>k_ipc := qs'\<rparr>" out "encode_msg ?m"] assms(9) len ua by simp
  then show ?thesis using encode_stamped [of "uload k ptr 64"] by simp
qed

section \<open>Witnesses\<close>

text \<open>Process 2 (slot 0, running) and process 1 (slot 1), with every capability; all addresses of their address
  space fall into the frame at \<open>0x1234000\<close>.\<close>

definition talk_mmu :: mmu where
  "talk_mmu = demo_mmu\<lparr>cpu_cr3 := 0x200000, tabs := (\<lambda>t i. if t = 0x200000 then 0x201007 else if t = 0x201000 then 0x202007
     else if t = 0x202000 then 0x203007 else 0x1234007)\<rparr>"

definition talk_kernel :: kernel where
  "talk_kernel = (demo_kernel 2)\<lparr>k_mmu := talk_mmu, k_mem := (\<lambda>a. of_nat (a mod 64)),
     k_pt := (k_pt (demo_kernel 2))\<lparr>process_table := (replicate MAX_PROCESSES None)
        [0 := Some ((demo_pcb 2 Running None)\<lparr>pcb_caps := capset_all\<rparr>), 1 := Some ((demo_pcb 1 Runnable None)\<lparr>pcb_caps := capset_all\<rparr>)],
        kernel_stack_canaries := replicate MAX_PROCESSES KSTACK_CANARY\<rparr>\<rparr>"

lemma talk_translate: "translate_in_space 0x200000 va talk_mmu = Some (0x1234000 + (va AND 0xFFF))"
  by (simp add: translate_in_space_def talk_mmu_def tget_def FRAME_MASK_def flag_mask.simps PDPTE_PS_def PDE_PS_def)

lemma talk_current: "current_index (k_pt talk_kernel) = Some 0" "current_pid (k_pt talk_kernel) = Some 2"
  "get_descriptor 0 (k_pt talk_kernel) = Some ((demo_pcb 2 Running None)\<lparr>pcb_caps := capset_all\<rparr>)"
  "get_descriptor 1 (k_pt talk_kernel) = Some ((demo_pcb 1 Runnable None)\<lparr>pcb_caps := capset_all\<rparr>)"
  "k_mmu talk_kernel = talk_mmu" "cpu_cr3 talk_mmu = 0x200000" "k_ipc talk_kernel = ipc_queues_init"
  by (simp_all add: talk_kernel_def talk_mmu_def demo_kernel_def kernel_boot_def get_descriptor_def MAX_PROCESSES_def)

lemma talk_wf: "ptable_wf (k_pt talk_kernel)" "ipc_inv (k_ipc talk_kernel)"
  by (simp_all add: talk_kernel_def demo_kernel_def kernel_boot_def ptable_wf_def ptable_init_def inv_intros)

lemma talk_index: "index_of_pid 1 (k_pt talk_kernel) = Some 1"
  unfolding index_of_pid_def first_index_eq_Some_iff by (simp add: talk_kernel_def MAX_PROCESSES_def has_pid_def)

lemma talk_range:
  assumes "0 < n" "n \<le> 4096" "unat ptr + n \<le> 2 ^ 47"
  shows "validate_user_range 0x200000 ptr n talk_mmu = Ok ()"
  using assms by (subst validate_user_range_iff) (simp_all add: talk_translate)

theorem ipc_send_respects_flow_witness:
  "call_ipc_send 1 0xA00000 (demo_kernel 2) = (Err PERM, demo_kernel 2)"
proof -
  have "current_caps (demo_kernel 2) = capset_none"
    using demo_descriptors [of 2] by (simp add: current_caps_def current_descriptor_def demo_pcb_def pcb_new_def)
  moreover have "ptable_wf (k_pt (demo_kernel 2))" "ipc_inv (k_ipc (demo_kernel 2))"
    by (simp_all add: demo_kernel_def kernel_boot_def ptable_wf_def ptable_init_def inv_intros)
  moreover have "\<not> has capset_none cap_IPC_SEND" by code_simp
  ultimately show ?thesis
    using ipc_send_respects_flow [of "demo_kernel 2" 1 "0xA00000"] by (metis prod.collapse)
qed

lemma talk_uaddr:
  assumes "cpu_cr3 (k_mmu k) = 0x200000" "k_mmu k = talk_mmu" "b \<in> {0, 0x800}" "i < 64"
  shows "uaddr k (0xA00000 + b + of_nat i) = 0x1234000 + unat b + i"
proof -
  let ?v = "0xA00000 + b + of_nat i :: u64"
  have b: "unat b = 0 \<or> unat b = 0x800" using assms(3) by auto
  have v: "unat ?v = 0xA00000 + unat b + i"
    using b assms(3,4) unat_add_of_nat [of "0xA00000 + b" i] by auto
  have "unat (?v AND 0xFFF) = unat ?v mod 4096"
    unfolding low_masks take_bit_eq_mask [symmetric] unsigned_take_bit_eq by (simp add: take_bit_eq_mod)
  moreover have "(0xA00000 + unat b + i) mod 4096 = unat b + i"
  proof -
    have "(0xA00000 + unat b + i) = 2560 * 4096 + (unat b + i)" by simp
    also have "\<dots> mod 4096 = unat b + i" using b assms(4) by (subst mod_mult_self3) (elim disjE; simp)
    finally show ?thesis .
  qed
  ultimately have low: "unat (?v AND 0xFFF) = unat b + i" unfolding v by simp
  have "unat b \<le> 0x800" using b by (elim disjE) simp_all
  then have "unat (0x1234000 + (?v AND 0xFFF)) = 0x1234000 + unat b + i"
    using low assms(4) by (subst unat_plus_if') simp
  then show ?thesis using assms(1,2) by (simp add: uaddr_def translate_def talk_translate)
qed

text \<open>Process 2 sends the bytes 0 to 63 to process 1, which receives them after a context switch.\<close>

theorem message_bytes_arrive_witness:
  "\<exists>k1 k3. sys_ipc_send 1 0xA00000 talk_kernel = (Ok 0, k1) \<and>
     sys_ipc_recv 0xA00800 0 (k1\<lparr>k_pt := (k_pt k1)\<lparr>current_index := Some 1, current_pid := Some 1\<rparr>\<rparr>) = (Ok 0, k3) \<and>
     uload k3 0xA00800 64 = [0, 1, 2, 3, 2, 0, 0, 0] @ map of_nat [8..<64]"
proof -
  let ?sw = "\<lambda>k :: kernel. k\<lparr>k_pt := (k_pt k)\<lparr>current_index := Some 1, current_pid := Some 1\<rparr>\<rparr>"
  let ?m = "(decode_msg (uload talk_kernel 0xA00000 64))\<lparr>sender_pid := caller_pid talk_kernel\<rparr>"
  have r: "validate_user_range 0x200000 0xA00000 64 talk_mmu = Ok ()" "validate_user_range 0x200000 0xA00800 64 talk_mmu = Ok ()"
    by (rule talk_range; simp)+
  have cd: "current_descriptor (k_pt talk_kernel) = Some ((demo_pcb 2 Running None)\<lparr>pcb_caps := capset_all\<rparr>)"
    by (simp add: current_descriptor_def talk_current)
  have empty: "ipc_contents (ipc_queues_init ! 1) = []"
    by (simp add: ipc_queues_init_def ipc_contents_def ipc_ring_new_def MAX_PROCESSES_def ring_list_def)
  obtain b qs where e: "ipc_enqueue 1 ?m (k_ipc talk_kernel) = (b, qs)" by fastforce
  note enq = ipc_enqueue_result [OF talk_wf(2) _ e]
  have b: b using enq(1) by (simp add: MAX_PROCESSES_def talk_current ipc_queues_init_def ipc_ring_new_def)
  have inv: "ipc_inv qs" using ipc_enqueue_inv [OF talk_wf(2), of 1 ?m] e by simp
  have "ipc_contents (qs ! 1) = ?m # []" using enq(2) b empty by (simp add: MAX_PROCESSES_def talk_current)
  then obtain qs' where d: "ipc_dequeue 1 qs = (Some ?m, qs')"
    using ipc_dequeue_first [OF inv] by (metis MAX_PROCESSES_def one_less_numeral_iff semiring_norm(76))
  let ?k1 = "talk_kernel\<lparr>k_ipc := qs\<rparr>"
  let ?k3 = "ustore 0xA00800 (encode_msg ?m) ((?sw ?k1)\<lparr>k_ipc := qs'\<rparr>)"
  have send: "sys_ipc_send 1 0xA00000 talk_kernel = (Ok 0, ?k1)"
    using e b r cd by (simp add: sys_ipc_send_def check_user_ptr_def current_cr3_def talk_current talk_index demo_pcb_def pcb_new_def)
  have cd1: "current_descriptor (k_pt (?sw ?k1)) = Some ((demo_pcb 1 Runnable None)\<lparr>pcb_caps := capset_all\<rparr>)"
    using talk_current(4) by (simp add: current_descriptor_def get_descriptor_def MAX_PROCESSES_def)
  have recv: "sys_ipc_recv 0xA00800 0 (?sw ?k1) = (Ok 0, ?k3)"
    using d r cd1 by (simp add: sys_ipc_recv_def check_user_ptr_def current_cr3_def talk_current demo_pcb_def pcb_new_def)
  have ua: "uaddr (?sw ?k1) (0xA00800 + of_nat i) = 0x1234800 + i" "uaddr talk_kernel (0xA00000 + of_nat i) = 0x1234000 + i" if "i < 64" for i
    using talk_uaddr [of "?sw ?k1" "0x800" i] talk_uaddr [of talk_kernel 0 i] that by (simp_all add: talk_current)
  have inj: "inj_on (\<lambda>i. uaddr (?sw ?k1) (0xA00800 + of_nat i)) {..<64}" by (rule inj_onI) (simp only: ua lessThan_iff add_left_cancel)
  have low: "(0x1234000 + i) mod 64 = i" if "i < 64" for i :: nat
    using that mod_mult_self3 [of 298240 64 i] by simp
  have bytes: "uload talk_kernel 0xA00000 64 = map of_nat [0..<64]"
    by (rule nth_equalityI) (simp_all add: uload_def ua, simp add: talk_kernel_def low)
  have "uload ?k3 0xA00800 64 = take 4 (map of_nat [0..<64]) @ map (byte_of 2) [0..<4] @ drop 8 (map of_nat [0..<64])"
    using message_bytes_arrive [OF talk_wf send talk_index _ _ _ recv inj] empty talk_current bytes
    by (simp add: caller_pid_def)
  also have "\<dots> = [0, 1, 2, 3, 2, 0, 0, 0] @ map of_nat [8..<64]" by code_simp
  finally show ?thesis using send recv by blast
qed

end
