(* ===== verification/Anon_Memory.thy ===== *)
theory Anon_Memory
  imports Syscalls
begin

text \<open>
  What \<open>sys_mmap\<close> promises (\<open>kernel/syscall/dispatcher/mmap.rs\<close>), from the page allocator through the
  page tables to the bytes of memory: fresh frames, mapped where the caller was told, cleared.
\<close>

section \<open>The page loop\<close>

text \<open>As far as frames and tables go, a successful loop is \<open>map_range\<close>.\<close>

lemma mmap_pages_range:
  "mmap_pages cr3 flags n va k = Done (True, k') \<Longrightarrow>
   map_range cr3 va n flags (k_buddy k, k_mmu k) = Some (Done (True, k_buddy k', k_mmu k'))"
proof (induction n arbitrary: va k)
  case (Suc n)
  obtain x b where a: "alloc_frame (k_buddy k) = Done (x, b)" using Suc.prems by (auto simp: bind_halt_eq_Inr_iff)
  show ?case
  proof (cases x)
    case (Some pa)
    obtain ok m where "map_page_into_space cr3 va (of_nat pa) flags (k_mmu k) = (ok, m)" by fastforce
    then show ?thesis
      using Suc.prems Suc.IH [of _ "k\<lparr>k_buddy := b, k_mem := zero_bytes pa PAGE_SIZE (k_mem k), k_mmu := m\<rparr>"] a Some
      by (cases ok) (auto simp: Let_def)
  qed (use Suc.prems a in auto)
qed simp

lemma range_mmap_pages:
  "map_range cr3 va n flags (k_buddy k, k_mmu k) = Some (Done (True, b', m')) \<Longrightarrow> \<exists>k'. mmap_pages cr3 flags n va k = Done (True, k')"
proof (induction n arbitrary: va k)
  case (Suc n)
  obtain pa b m where a: "alloc_frame (k_buddy k) = Done (Some pa, b)" "map_page_into_space cr3 va (of_nat pa) flags (k_mmu k) = (True, m)"
    and r: "map_range cr3 (va + PAGE_SIZE_4K) n flags (b, m) = Some (Done (True, b', m'))"
    using Suc.prems by (auto split: sum.splits prod.splits option.splits bool.splits)
  let ?k = "k\<lparr>k_buddy := b, k_mem := zero_bytes pa PAGE_SIZE (k_mem k), k_mmu := m\<rparr>"
  show ?case using Suc.IH [of "va + PAGE_SIZE_4K" ?k] r a by (simp add: Let_def)
qed simp

text \<open>Exactly the frames taken from the allocator are cleared.\<close>

definition cleared :: "nat set \<Rightarrow> memory \<Rightarrow> memory \<Rightarrow> bool" where
  "cleared F mem mem' \<longleftrightarrow> (\<forall>a. mem' a = (if \<exists>f \<in> F. f \<le> a \<and> a < f + PAGE_SIZE then 0 else mem a))"

lemma cleared_step: "cleared F (zero_bytes pa PAGE_SIZE mem) mem' \<Longrightarrow> cleared (insert pa F) mem mem'"
  by (auto simp: cleared_def zero_bytes_def)

lemma mmap_pages_clears:
  assumes "buddy_ok (k_buddy k)" "mmap_pages cr3 flags n va k = Done (True, k')"
  shows "cleared (free_frames (k_buddy k) - free_frames (k_buddy k')) (k_mem k) (k_mem k') \<and>
    free_frames (k_buddy k') \<subseteq> free_frames (k_buddy k) \<and> k' = k\<lparr>k_buddy := k_buddy k', k_mmu := k_mmu k', k_mem := k_mem k'\<rparr>"
  using assms
proof (induction n arbitrary: va k)
  case 0
  then show ?case by (simp add: cleared_def)
next
  case (Suc n)
  obtain x b where a: "alloc_frame (k_buddy k) = Done (x, b)" using Suc.prems(2) by (auto simp: bind_halt_eq_Inr_iff)
  obtain pa where x: "x = Some pa" using Suc.prems(2) a by (cases x) auto
  obtain m where m: "map_page_into_space cr3 va (of_nat pa) flags (k_mmu k) = (True, m)"
    using Suc.prems(2) a x by (auto simp: Let_def split: prod.splits bool.splits)
  let ?k = "k\<lparr>k_buddy := b, k_mem := zero_bytes pa PAGE_SIZE (k_mem k), k_mmu := m\<rparr>"
  have r: "mmap_pages cr3 flags n (va + PAGE_SIZE_4K) ?k = Done (True, k')" using Suc.prems(2) a x m by (simp add: Let_def)
  from alloc_frame_cases [OF Suc.prems(1)] a x have b: "buddy_ok b" "pa \<in> free_frames (k_buddy k)"
    "free_frames b = free_frames (k_buddy k) - {pa}" by auto
  note ih = Suc.IH [of ?k, OF _ r]
  have sub: "free_frames (k_buddy k') \<subseteq> free_frames b" using ih b(1) by simp
  then have "insert pa (free_frames b - free_frames (k_buddy k')) = free_frames (k_buddy k) - free_frames (k_buddy k')"
    using b(2,3) by auto
  moreover have "cleared (free_frames b - free_frames (k_buddy k')) (zero_bytes pa PAGE_SIZE (k_mem k)) (k_mem k')"
    using ih b(1) by simp
  ultimately have c: "cleared (free_frames (k_buddy k) - free_frames (k_buddy k')) (k_mem k) (k_mem k')"
    using cleared_step by metis
  have "k' = ?k\<lparr>k_buddy := k_buddy k', k_mmu := k_mmu k', k_mem := k_mem k'\<rparr>" using ih b(1) by simp
  then have "k' = k\<lparr>k_buddy := k_buddy k', k_mmu := k_mmu k', k_mem := k_mem k'\<rparr>" by (cases k) simp
  then show ?case using c sub b(3) by blast
qed

lemma mmap_flags_present: "bit (mmap_flags prot) 0"
  by (simp add: mmap_flags_def Let_def flags_with_def flags_as_u64_def flag_mask.simps VALID_MASK_def bit_simps)

section \<open>The call\<close>

lemma unat_mmap_end:
  assumes "va \<le> ANON_LIMIT" "unat n \<le> 1024"
  shows "unat (va + n * PAGE_SIZE_4K) = unat va + unat n * 4096" "unat va + unat n * 4096 \<le> 2 ^ 64"
proof -
  have v: "unat va \<le> 0x70000000" using assms(1) by (simp add: ANON_LIMIT_def word_le_nat_alt)
  show "unat va + unat n * 4096 \<le> 2 ^ 64" using v assms(2) by simp
  have "n * PAGE_SIZE_4K = of_nat (unat n * 4096)" by (simp add: PAGE_SIZE_4K_def)
  then show "unat (va + n * PAGE_SIZE_4K) = unat va + unat n * 4096"
    using unat_add_of_nat [of va "unat n * 4096"] v assms(2) by simp
qed

lemma sys_mmap_run:
  assumes "current_index (k_pt k) = Some idx" "current_descriptor (k_pt k) = Some d"
    and "0 < unat pages" "unat pages \<le> 1024" "k_anon k ! idx \<le> ANON_LIMIT"
    and "unat (k_anon k ! idx) + unat pages * 4096 \<le> unat ANON_LIMIT"
  shows "sys_mmap pages prot k =
    bind_halt (mmap_pages (pcb_cr3 d) (mmap_flags (ucast prot)) (unat pages) (k_anon k ! idx) k) (\<lambda>(ok, k1).
      if \<not> ok then Done (Err NOMEM, k1)
      else Done (Ok (k_anon k ! idx), k1\<lparr>k_anon := (k_anon k1)[idx := k_anon k ! idx + pages * PAGE_SIZE_4K]\<rparr>))"
proof -
  have "\<not> k_anon k ! idx + pages * PAGE_SIZE_4K > ANON_LIMIT"
    unfolding word_less_nat_alt unat_mmap_end(1) [OF assms(5,4)] using assms(6) by simp
  then show ?thesis using assms(1-4) by (simp add: sys_mmap_def Let_def)
qed

text \<open>The state after a successful call that took the frames \<open>fs\<close>.\<close>

definition mapped_afresh :: "u64 \<Rightarrow> u64 \<Rightarrow> nat list \<Rightarrow> kernel \<Rightarrow> kernel \<Rightarrow> bool" where
  "mapped_afresh cr3 va fs k k' \<longleftrightarrow> distinct fs \<and> set fs \<subseteq> free_frames (k_buddy k) \<and>
     free_frames (k_buddy k') = free_frames (k_buddy k) - set fs \<and> range_mapped cr3 va fs (k_mmu k) (k_mmu k') \<and>
     cleared (set fs) (k_mem k) (k_mem k')"

lemma sys_mmap_success:
  assumes ok: "buddy_ok (k_buddy k)" "region_fits (k_buddy k)" "wt (k_mmu k) P" "P (pcb_cr3 d AND FRAME_MASK) = Some []"
    and cur: "current_index (k_pt k) = Some idx" "current_descriptor (k_pt k) = Some d"
    and n: "0 < unat pages" "unat pages \<le> 1024" "k_anon k ! idx \<le> ANON_LIMIT"
      "unat (k_anon k ! idx) + unat pages * 4096 \<le> unat ANON_LIMIT"
    and run: "sys_mmap pages prot k = Done (Ok va, k')"
  shows "va = k_anon k ! idx \<and> k_anon k' = (k_anon k)[idx := va + pages * PAGE_SIZE_4K] \<and>
    (\<exists>fs. length fs = unat pages \<and> mapped_afresh (pcb_cr3 d) va fs k k')"
proof -
  let ?va = "k_anon k ! idx"
  obtain ok k1 where m': "mmap_pages (pcb_cr3 d) (mmap_flags (ucast prot)) (unat pages) ?va k = Done (ok, k1)"
    using run [unfolded sys_mmap_run [OF cur n]] unfolding bind_halt_eq_Inr_iff by (metis prod.collapse)
  have ok': "ok" and r: "va = ?va" "k' = k1\<lparr>k_anon := (k_anon k1)[idx := ?va + pages * PAGE_SIZE_4K]\<rparr>"
    using run [unfolded sys_mmap_run [OF cur n] m'] by (cases ok; simp)+
  note m = m' [unfolded eqTrueI [OF ok']]
  note c = mmap_pages_clears [OF ok(1) m]
  have an: "k_anon k1 = k_anon (k\<lparr>k_buddy := k_buddy k1, k_mmu := k_mmu k1, k_mem := k_mem k1\<rparr>)"
    by (rule arg_cong) (use c in blast)
  have "unat pages \<le> 2 ^ 36" using n(2) by simp
  from map_range_frames [OF ok mmap_flags_present unat_mmap_end(2) [OF n(3,2)] this mmap_pages_range [OF m]]
  obtain fs where fs: "length fs = unat pages" "distinct fs" "set fs \<subseteq> free_frames (k_buddy k)"
    "free_frames (k_buddy k1) = free_frames (k_buddy k) - set fs" "range_mapped (pcb_cr3 d) ?va fs (k_mmu k) (k_mmu k1)" by blast
  then have "free_frames (k_buddy k) - free_frames (k_buddy k1) = set fs" by blast
  then have "mapped_afresh (pcb_cr3 d) va fs k k'" using fs c r by (simp add: mapped_afresh_def)
  then show ?thesis using r an fs(1) by auto
qed

lemma sys_mmap_succeeds:
  assumes ok: "buddy_ok (k_buddy k)" "wt (k_mmu k) P" "P (pcb_cr3 d AND FRAME_MASK) = Some []" "P 0 = None"
    and cur: "current_index (k_pt k) = Some idx" "current_descriptor (k_pt k) = Some d"
    and n: "0 < unat pages" "unat pages \<le> 1024" "k_anon k ! idx \<le> ANON_LIMIT"
      "unat (k_anon k ! idx) + unat pages * 4096 \<le> unat ANON_LIMIT"
    and room: "unat pages \<le> card (free_frames (k_buddy k))" "pt_pool_next (k_mmu k) + 3 * unat pages \<le> PT_POOL_PAGES"
  shows "\<exists>va k'. sys_mmap pages prot k = Done (Ok va, k')"
proof -
  let ?fl = "mmap_flags (ucast prot)"
  obtain b' m' where "map_range (pcb_cr3 d) (k_anon k ! idx) (unat pages) ?fl (k_buddy k, k_mmu k) = Some (Done (True, b', m'))"
    using map_range_succeeds [OF ok room, of "k_anon k ! idx" ?fl] by blast
  then obtain k1 where "mmap_pages (pcb_cr3 d) ?fl (unat pages) (k_anon k ! idx) k = Done (True, k1)"
    using range_mmap_pages by blast
  then show ?thesis unfolding sys_mmap_run [OF cur n] by simp
qed

text \<open>Seen through the page tables, every byte of the new area is zero.\<close>

lemma afresh_reads_zero:
  assumes ma: "mapped_afresh cr3 va fs k k'" and b: "buddy_ok (k_buddy k)" "region_fits (k_buddy k)"
    and va: "unat va mod 4096 = 0" "unat va + length fs * 4096 < 2 ^ 64" and j: "j < length fs * 4096"
  shows "\<exists>pa. translate_in_space cr3 (va + of_nat j) (k_mmu k') = Some pa \<and> k_mem k' (unat pa) = 0"
proof -
  let ?i = "j div 4096" and ?u = "va + of_nat j :: u64"
  have i: "?i < length fs" using j by (simp add: less_mult_imp_div_less)
  have u: "unat ?u = unat va + j" using unat_add_of_nat [of va j] va(2) j by simp
  have w: "unat (va + of_nat ?i * PAGE_SIZE_4K) = unat va + ?i * 4096"
  proof -
    have "of_nat ?i * PAGE_SIZE_4K = of_nat (?i * 4096)" by (simp add: PAGE_SIZE_4K_def)
    then show ?thesis using unat_add_of_nat [of va "?i * 4096"] va(2) i by simp
  qed
  obtain q where q: "unat va = q * 4096" using va(1) by (metis mod_0_imp_dvd dvd_def mult.commute)
  have "unat ?u div 4096 = q + ?i" "unat (va + of_nat ?i * PAGE_SIZE_4K) div 4096 = q + ?i"
    unfolding u w q by simp_all
  then have p: "path ?u = path (va + of_nat ?i * PAGE_SIZE_4K)" using path_page [of ?u "va + of_nat ?i * PAGE_SIZE_4K"] by simp
  have f: "fs ! ?i \<in> free_frames (k_buddy k)" "fs ! ?i \<in> set fs" using ma i by (auto simp: mapped_afresh_def)
  note fb = free_frames_bound [OF b(2,1) f(1)]
  have off: "unat (?u AND 0xFFF) = j mod 4096"
  proof -
    have "unat (?u AND 0xFFF) = unat ?u mod 4096"
      unfolding low_masks take_bit_eq_mask [symmetric] unsigned_take_bit_eq by (simp add: take_bit_eq_mod)
    then show ?thesis unfolding u q by simp
  qed
  have tr: "translate_in_space cr3 ?u (k_mmu k') = Some (of_nat (fs ! ?i) + (?u AND 0xFFF))"
    using ma p i unfolding mapped_afresh_def range_mapped_def by blast
  have pa: "unat (of_nat (fs ! ?i) + (?u AND 0xFFF) :: u64) = fs ! ?i + j mod 4096"
    using unat_frame_offset [OF fb] off by simp
  have "k_mem k' (fs ! ?i + j mod 4096) = 0"
    using ma f(2) unfolding mapped_afresh_def cleared_def by (auto simp: PAGE_SIZE_def)
  then show ?thesis using tr pa by auto
qed

text \<open>C4: Anonymous memory is fresh and clean. A call to \<open>sys_mmap\<close> for up to 1024 pages that fit below the limit returns
  the next address of the process and advances it by the size of the area; every page of the area gets its own frame
  that was free before, exactly these frames leave the free set, no other page changes its translation, every byte of the
  area reads as zero and no other byte of memory changes. The call succeeds whenever there are enough frames and table
  pages.\<close>

theorem mmap_is_fresh_and_clean:
  assumes ok: "buddy_ok (k_buddy k)" "region_fits (k_buddy k)" "wt (k_mmu k) P" "P (pcb_cr3 d AND FRAME_MASK) = Some []"
    and cur: "current_index (k_pt k) = Some idx" "current_descriptor (k_pt k) = Some d"
    and n: "0 < unat pages" "unat pages \<le> 1024" "unat (k_anon k ! idx) mod 4096 = 0"
      "unat (k_anon k ! idx) + unat pages * 4096 \<le> unat ANON_LIMIT"
  shows "(P 0 = None \<and> unat pages \<le> card (free_frames (k_buddy k)) \<and> pt_pool_next (k_mmu k) + 3 * unat pages \<le> PT_POOL_PAGES \<longrightarrow>
      (\<exists>va k'. sys_mmap pages prot k = Done (Ok va, k'))) \<and>
    (\<forall>va k'. sys_mmap pages prot k = Done (Ok va, k') \<longrightarrow>
      va = k_anon k ! idx \<and> k_anon k' = (k_anon k)[idx := va + pages * PAGE_SIZE_4K] \<and>
      (\<exists>fs. length fs = unat pages \<and> mapped_afresh (pcb_cr3 d) va fs k k') \<and>
      (\<forall>j < unat pages * 4096. \<exists>pa. translate_in_space (pcb_cr3 d) (va + of_nat j) (k_mmu k') = Some pa \<and> k_mem k' (unat pa) = 0))"
proof (rule conjI)
  have lim: "k_anon k ! idx \<le> ANON_LIMIT" using n(4) by (simp add: word_le_nat_alt)
  show "P 0 = None \<and> unat pages \<le> card (free_frames (k_buddy k)) \<and> pt_pool_next (k_mmu k) + 3 * unat pages \<le> PT_POOL_PAGES \<longrightarrow>
      (\<exists>va k'. sys_mmap pages prot k = Done (Ok va, k'))"
    using sys_mmap_succeeds [OF ok(1,3,4) _ cur n(1,2) lim n(4)] by blast
  show "\<forall>va k'. sys_mmap pages prot k = Done (Ok va, k') \<longrightarrow>
      va = k_anon k ! idx \<and> k_anon k' = (k_anon k)[idx := va + pages * PAGE_SIZE_4K] \<and>
      (\<exists>fs. length fs = unat pages \<and> mapped_afresh (pcb_cr3 d) va fs k k') \<and>
      (\<forall>j < unat pages * 4096. \<exists>pa. translate_in_space (pcb_cr3 d) (va + of_nat j) (k_mmu k') = Some pa \<and> k_mem k' (unat pa) = 0)"
  proof (intro allI impI)
    fix va k' assume run: "sys_mmap pages prot k = Done (Ok va, k')"
    note r = sys_mmap_success [OF ok cur n(1,2) lim n(4) run]
    obtain fs where fs: "length fs = unat pages" "mapped_afresh (pcb_cr3 d) va fs k k'" using r by blast
    have v: "unat va mod 4096 = 0" "unat va + length fs * 4096 < 2 ^ 64"
      using r n(3,4) fs(1) by (simp_all add: ANON_LIMIT_def)
    show "va = k_anon k ! idx \<and> k_anon k' = (k_anon k)[idx := va + pages * PAGE_SIZE_4K] \<and>
      (\<exists>fs. length fs = unat pages \<and> mapped_afresh (pcb_cr3 d) va fs k k') \<and>
      (\<forall>j < unat pages * 4096. \<exists>pa. translate_in_space (pcb_cr3 d) (va + of_nat j) (k_mmu k') = Some pa \<and> k_mem k' (unat pa) = 0)"
      using r afresh_reads_zero [OF fs(2) ok(1,2) v, unfolded fs(1)] by blast
  qed
qed

theorem mmap_is_fresh_and_clean_witness:
  "\<exists>k' pa. sys_mmap 1 2 (demo_kernel 2) = Done (Ok ANON_BASE, k') \<and>
     translate_in_space 0x200000 (ANON_BASE + 5) (k_mmu k') = Some pa \<and> k_mem k' (unat pa) = 0"
proof -
  obtain P where P: "wt demo_mmu P" "P (0x200000 AND FRAME_MASK) = Some []" "P 0 = None" using demo_wt by blast
  have one: "1 \<le> card (free_frames booted)" using booted_fits(2) free_frames_finite by (simp add: Suc_le_eq card_gt_0_iff)
  have k: "k_buddy (demo_kernel 2) = booted" "k_mmu (demo_kernel 2) = demo_mmu" "k_anon (demo_kernel 2) = replicate MAX_PROCESSES ANON_BASE"
    by (simp_all add: demo_kernel_def kernel_boot_def)
  have d: "current_descriptor (k_pt (demo_kernel 2)) = Some (demo_pcb 2 Running None)" "pcb_cr3 (demo_pcb 2 Running None) = 0x200000"
    by (simp_all add: current_descriptor_def demo_descriptors) (simp add: demo_pcb_def pcb_new_def)
  have a: "k_anon (demo_kernel 2) ! 0 = ANON_BASE" by (simp add: k MAX_PROCESSES_def)
  have n: "0 < unat (1 :: u64)" "unat (1 :: u64) \<le> 1024" "unat (k_anon (demo_kernel 2) ! 0) mod 4096 = 0"
    "unat (k_anon (demo_kernel 2) ! 0) + unat (1 :: u64) * 4096 \<le> unat ANON_LIMIT"
    by (simp_all add: a ANON_BASE_def ANON_LIMIT_def)
  note t = mmap_is_fresh_and_clean [of "demo_kernel 2" P "demo_pcb 2 Running None" 0 1 2, unfolded k d(2),
      OF booted_ok booted_fits(1) P(1,2) demo_descriptors(1) d(1) n [unfolded k]]
  obtain va k' where r: "sys_mmap 1 2 (demo_kernel 2) = Done (Ok va, k')" using t P(3) one demo_pool by auto
  with t have v: "va = ANON_BASE"
    and z: "\<forall>j < unat (1 :: u64) * 4096. \<exists>pa. translate_in_space 0x200000 (va + of_nat j) (k_mmu k') = Some pa \<and> k_mem k' (unat pa) = 0"
    using a k by (metis, blast)
  show ?thesis using r z [rule_format, of 5] unfolding v by simp
qed

end
