(* ===== verification/Device_Calls.thy ===== *)
theory Device_Calls
  imports Syscalls
begin

text \<open>
  The system calls on devices (\<open>kernel/syscall/dispatcher/\<close>, files \<open>io.rs\<close>, \<open>gfx.rs\<close>,
  \<open>debug.rs\<close>, \<open>perf.rs\<close> and \<open>misc.rs\<close>): files and the console, input events, surfaces and the
  framebuffer, shared memory, breakpoints, performance counters and the clock. What the hardware delivers during a
  call is an argument.
\<close>

section \<open>Files and the console\<close>

definition PATH_MAX :: nat where "PATH_MAX = 256"

text \<open>The last component of a path: trailing slashes and zero bytes are dropped, then everything up to the last slash.\<close>

definition path_name :: "u8 list \<Rightarrow> u8 list" where
  "path_name bs = rev (takeWhile (\<lambda>b. b \<noteq> 0x2F) (dropWhile (\<lambda>b. b = 0x2F \<or> b = 0) (rev bs)))"

definition copy_path_from_user :: "u64 \<Rightarrow> nat \<Rightarrow> kernel \<Rightarrow> u8 list sys_result" where
  "copy_path_from_user ptr len k =
     (let copy_len = (if len = 0 then PATH_MAX else min len PATH_MAX)
      in case check_user_ptr ptr copy_len k of
           Inl e \<Rightarrow> Err e
         | Inr _ \<Rightarrow>
             if ptr = 0 then Err INVAL
             else let bs = uload k ptr copy_len;
                      n = (if len = 0 then length (takeWhile (\<lambda>b. b \<noteq> 0) bs) else copy_len)
                  in if n = 0 \<or> n \<ge> PATH_MAX then Err INVAL
                     else let name = path_name (take n bs)
                          in if name = [] \<or> length name > 31 then Err INVAL else Ok name)"

text \<open>The blocking read of the console. Each element of the feed is what the serial port delivers to one poll; after
  the feed the port is silent, and a read that still has no byte then waits for ever (\<open>None\<close>).\<close>

function read_console :: "u64 \<Rightarrow> nat \<Rightarrow> nat \<Rightarrow> u8 list list \<Rightarrow> kernel \<Rightarrow> (nat \<times> kernel) option" where
  "read_console buf cnt n feed k =
     (case getchar (case feed of [] \<Rightarrow> [] | bs # _ \<Rightarrow> bs) (k_tty k) of
        (None, t) \<Rightarrow>
          if n > 0 then Some (n, k\<lparr>k_tty := t\<rparr>)
          else if feed = [] then None
          else read_console buf cnt n (tl feed) (k\<lparr>k_tty := t\<rparr>)
      | (Some b, t) \<Rightarrow>
          let k1 = ustore (buf + of_nat n) [b] (k\<lparr>k_tty := t\<rparr>)
          in if b = NL \<or> b = CR \<or> n + 1 \<ge> cnt then Some (n + 1, k1)
             else read_console buf cnt (n + 1) (tl feed) k1)"
  by pat_completeness auto
termination
  by (relation "measure (\<lambda>(buf, cnt, n, feed, k). length feed + (cnt - n))") (auto simp: less_Suc_eq_le)

declare read_console.simps [simp del]

definition sys_read :: "u8 list list \<Rightarrow> u32 \<Rightarrow> u64 \<Rightarrow> nat \<Rightarrow> kernel \<Rightarrow> (u64 sys_result \<times> kernel) option" where
  "sys_read feed fd buf cnt k =
     (if buf = 0 \<or> cnt = 0 then Some (Ok 0, k)
      else case check_user_ptr buf cnt k of
             Inl e \<Rightarrow> Some (Err e, k)
           | Inr _ \<Rightarrow>
               if fd = 0 then map_option (\<lambda>(n, k1). (Ok (of_nat n), k1)) (read_console buf cnt 0 feed k)
               else if fd \<ge> 3 then
                 (let (bs, v) = read_file fd cnt (k_vfs k)
                  in Some (Ok (of_nat (length bs)), ustore buf bs (k\<lparr>k_vfs := v\<rparr>)))
               else Some (Err INVAL, k))"

definition sys_write :: "u32 \<Rightarrow> u64 \<Rightarrow> nat \<Rightarrow> kernel \<Rightarrow> u64 sys_result \<times> kernel" where
  "sys_write fd buf cnt k =
     (if buf = 0 \<or> cnt = 0 then (Ok 0, k)
      else case check_user_ptr buf cnt k of
             Inl e \<Rightarrow> (Err e, k)
           | Inr _ \<Rightarrow>
               if fd = 1 \<or> fd = 2 then (Ok (of_nat cnt), k\<lparr>k_tty := tty_write (uload k buf cnt) (k_tty k)\<rparr>)
               else if fd \<ge> 3 then
                 (let (n, v) = write_file fd (uload k buf cnt) (k_vfs k) in (Ok (of_nat n), k\<lparr>k_vfs := v\<rparr>))
               else (Err INVAL, k))"

definition sys_open :: "u64 \<Rightarrow> nat \<Rightarrow> u32 \<Rightarrow> kernel \<Rightarrow> u64 sys_result \<times> kernel" where
  "sys_open path_ptr path_len flags k =
     (case copy_path_from_user path_ptr path_len k of
        Inl e \<Rightarrow> (Err e, k)
      | Inr name \<Rightarrow>
          (case vfs_open name flags (caller_pid k) (k_vfs k) of
             (Some fd, v) \<Rightarrow> (Ok (ucast fd), k\<lparr>k_vfs := v\<rparr>)
           | (None, v) \<Rightarrow> (Err MFILE, k\<lparr>k_vfs := v\<rparr>)))"

definition sys_close :: "u32 \<Rightarrow> kernel \<Rightarrow> u64 sys_result \<times> kernel" where
  "sys_close fd k =
     (if fd < 3 then (Err BADFD, k)
      else let (ok, v) = vfs_close fd (k_vfs k) in (if ok then Ok 0 else Err BADFD, k\<lparr>k_vfs := v\<rparr>))"

definition sys_lseek :: "u32 \<Rightarrow> u64 \<Rightarrow> u32 \<Rightarrow> kernel \<Rightarrow> u64 sys_result \<times> kernel" where
  "sys_lseek fd offset whence k =
     (if fd < 3 then (Err BADFD, k)
      else case vfs_seek fd offset whence (k_vfs k) of
             (Some off, v) \<Rightarrow> (Ok (ucast off), k\<lparr>k_vfs := v\<rparr>)
           | (None, v) \<Rightarrow> (Err INVAL, k\<lparr>k_vfs := v\<rparr>))"

definition sys_unlink :: "u64 \<Rightarrow> nat \<Rightarrow> kernel \<Rightarrow> u64 sys_result \<times> kernel" where
  "sys_unlink path_ptr path_len k =
     (case copy_path_from_user path_ptr path_len k of
        Inl e \<Rightarrow> (Err e, k)
      | Inr name \<Rightarrow> (let (ok, v) = vfs_unlink name (k_vfs k) in (if ok then Ok 0 else Err NOENT, k\<lparr>k_vfs := v\<rparr>)))"

definition sys_fsync :: "u32 \<Rightarrow> kernel \<Rightarrow> u64 sys_result \<times> kernel" where
  "sys_fsync fd k =
     (if fd < 3 then (Err BADFD, k)
      else let (ok, v) = vfs_fsync fd (k_vfs k) in (if ok then Ok 0 else Err INVAL, k\<lparr>k_vfs := v\<rparr>))"

definition sys_list_root :: "u64 \<Rightarrow> nat \<Rightarrow> kernel \<Rightarrow> u64 sys_result \<times> kernel" where
  "sys_list_root buf capacity k =
     (if buf = 0 \<or> capacity = 0 then (Err INVAL, k)
      else case check_user_ptr buf capacity k of
             Inl e \<Rightarrow> (Err e, k)
           | Inr _ \<Rightarrow>
               (let (bs, f) = list_root capacity (vfs_fs (k_vfs k))
                in (Ok (of_nat (length bs)), ustore buf bs (k\<lparr>k_vfs := (k_vfs k)\<lparr>vfs_fs := f\<rparr>\<rparr>))))"

section \<open>Input\<close>

definition poll_input :: "(u8 \<times> u8) list \<Rightarrow> kernel \<Rightarrow> kernel" where
  "poll_input ports k = (let (p, q) = poll_and_push ports (k_ps2 k, k_input k) in k\<lparr>k_ps2 := p, k_input := q\<rparr>)"

definition sys_poll_input :: "(u8 \<times> u8) list \<Rightarrow> u64 \<Rightarrow> kernel \<Rightarrow> u64 sys_result \<times> kernel" where
  "sys_poll_input ports ev_ptr k =
     (if ev_ptr = 0 then (Err INVAL, k)
      else case check_user_ptr ev_ptr 2 k of
             Inl e \<Rightarrow> (Err e, k)
           | Inr _ \<Rightarrow>
               (let k1 = poll_input ports k
                in case pop_event (k_input k1) of
                     (Some ev, q) \<Rightarrow> (Ok 1, ustore ev_ptr [keycode ev, if pressed ev then 1 else 0] (k1\<lparr>k_input := q\<rparr>))
                   | (None, q) \<Rightarrow> (Ok 0, k1\<lparr>k_input := q\<rparr>)))"

text \<open>A mouse event has six bytes, the last one padding.\<close>

definition mouse_event_bytes :: "mouse_event \<Rightarrow> u8 list" where
  "mouse_event_bytes ev = [ucast (dx ev), ucast (drop_bit 8 (dx ev)), ucast (dy ev), ucast (drop_bit 8 (dy ev)), buttons ev]"

definition sys_poll_mouse :: "(u8 \<times> u8) list \<Rightarrow> u64 \<Rightarrow> kernel \<Rightarrow> u64 sys_result \<times> kernel" where
  "sys_poll_mouse ports ev_ptr k =
     (if ev_ptr = 0 then (Err INVAL, k)
      else case check_user_ptr ev_ptr 6 k of
             Inl e \<Rightarrow> (Err e, k)
           | Inr _ \<Rightarrow>
               (let k1 = poll_input ports k
                in case pop_mouse_event (k_input k1) of
                     (Some ev, q) \<Rightarrow> (Ok 1, ustore ev_ptr (mouse_event_bytes ev) (k1\<lparr>k_input := q\<rparr>))
                   | (None, q) \<Rightarrow> (Ok 0, k1\<lparr>k_input := q\<rparr>)))"

section \<open>Drawing\<close>

text \<open>The drawing operations see memory as the loaded address space shows it. What they write is the framebuffer or
  the backbuffer, whose addresses the kernel maps to themselves, so exactly the bytes that changed are carried back.\<close>

definition user_view :: "kernel \<Rightarrow> display" where
  "user_view k = (k_display k)\<lparr>dmem := (\<lambda>a. k_mem k (uaddr k (of_nat a)))\<rparr>"

definition put_display :: "display \<Rightarrow> kernel \<Rightarrow> kernel" where
  "put_display d k =
     (let v = dmem (user_view k)
      in k\<lparr>k_display := d, k_mem := (\<lambda>a. if dmem d a \<noteq> v a then dmem d a else k_mem k a)\<rparr>)"

definition check_fb_owner :: "kernel \<Rightarrow> kernel" where
  "check_fb_owner k =
     (let pid = caller_pid k
      in case k_fb_owner k of
           None \<Rightarrow> k\<lparr>k_fb_owner := Some pid\<rparr>
         | Some owner \<Rightarrow> if owner \<noteq> pid then k\<lparr>k_fb_others := word_sadd (k_fb_others k) 1\<rparr> else k)"

definition call_fb_clear :: "u32 \<Rightarrow> kernel \<Rightarrow> u64 sys_result \<times> kernel" where
  "call_fb_clear color k = (Ok 0, put_display (sys_fb_clear color (user_view k)) k)"

definition call_fb_fill_rect :: "u32 \<Rightarrow> u32 \<Rightarrow> u32 \<Rightarrow> u32 \<Rightarrow> u32 \<Rightarrow> kernel \<Rightarrow> (u64 sys_result \<times> kernel) halting" where
  "call_fb_fill_rect x y w h color k =
     bind_halt (sys_fb_fill_rect x y w h color (user_view k)) (\<lambda>d. Done (Ok 0, put_display d k))"

definition call_fb_flush :: "kernel \<Rightarrow> u64 sys_result \<times> kernel" where
  "call_fb_flush k = (Ok 0, put_display (sys_fb_flush (caller_pid k) (user_view k)) k)"

definition sys_fb_blit :: "u32 \<Rightarrow> u32 \<Rightarrow> u32 \<Rightarrow> u32 \<Rightarrow> u32 \<Rightarrow> u64 \<Rightarrow> kernel \<Rightarrow> u64 sys_result \<times> kernel" where
  "sys_fb_blit dst_x dst_y w h stride ptr k =
     (if ptr = 0 \<or> w = 0 \<or> h = 0 \<or> stride < w * 4 then (Err INVAL, k)
      else case validate_user_ptr_large ptr (smul (unat stride) (unat h)) of
             Inl e \<Rightarrow> (Err e, k)
           | Inr _ \<Rightarrow>
               (let d = user_view k
                in (Ok 0, put_display (d\<lparr>dmem := fb_blit dst_x dst_y w h stride (unat ptr) (FB_INFO d) (dmem d)\<rparr>) k)))"

definition call_claim_compositor :: "kernel \<Rightarrow> u64 sys_result \<times> kernel" where
  "call_claim_compositor k =
     (let (ok, d) = sys_claim_compositor (current_pid (k_pt k)) (k_display k)
      in (if ok then Ok 0 else Err PERM, k\<lparr>k_display := d\<rparr>))"

definition sys_get_compositor_pid :: "kernel \<Rightarrow> u64 sys_result" where
  "sys_get_compositor_pid k = (case COMPOSITOR_PID (k_display k) of Some pid \<Rightarrow> Ok (ucast pid) | None \<Rightarrow> Err NOENT)"

definition call_composite_all :: "kernel \<Rightarrow> u64 sys_result \<times> kernel" where
  "call_composite_all k =
     (let (ok, d) = sys_composite_all (caller_pid k) (user_view k)
      in (if ok then Ok 0 else Err PERM, put_display d k))"

definition sys_surface_create :: "kernel \<Rightarrow> u64 sys_result \<times> kernel" where
  "sys_surface_create k =
     (case surface_create (caller_pid k) (k_display k) of
        (Some sid, d) \<Rightarrow> (Ok (ucast sid), k\<lparr>k_display := d\<rparr>)
      | (None, d) \<Rightarrow> (Err NOMEM, k\<lparr>k_display := d\<rparr>))"

definition sys_surface_destroy :: "u32 \<Rightarrow> kernel \<Rightarrow> u64 sys_result \<times> kernel" where
  "sys_surface_destroy sid k = (Ok 0, k\<lparr>k_display := surface_destroy sid (k_display k)\<rparr>)"

definition sys_surface_attach :: "u32 \<Rightarrow> u64 \<Rightarrow> u32 \<Rightarrow> u32 \<Rightarrow> u32 \<Rightarrow> kernel \<Rightarrow> u64 sys_result \<times> kernel" where
  "sys_surface_attach sid ptr w h stride k =
     (if ptr = 0 \<or> w = 0 \<or> h = 0 \<or> stride < w * 4 then (Err INVAL, k)
      else case validate_user_ptr_large ptr (smul (unat stride) (unat h)) of
             Inl e \<Rightarrow> (Err e, k)
           | Inr _ \<Rightarrow>
               (let (ok, d) = surface_attach sid (unat ptr) w h stride (caller_pid k) (k_display k)
                in (if ok then Ok 0 else Err PERM, k\<lparr>k_display := d\<rparr>)))"

definition sys_surface_commit :: "u32 \<Rightarrow> u32 \<Rightarrow> u32 \<Rightarrow> kernel \<Rightarrow> u64 sys_result \<times> kernel" where
  "sys_surface_commit sid dst_x dst_y k =
     (let (ok, d) = surface_commit sid dst_x dst_y (caller_pid k) (user_view k)
      in (if ok then Ok 0 else Err PERM, put_display d k))"

definition sys_surface_set_z :: "u32 \<Rightarrow> u8 \<Rightarrow> kernel \<Rightarrow> u64 sys_result \<times> kernel" where
  "sys_surface_set_z sid z k = (Ok 0, k\<lparr>k_display := surface_set_z sid z (k_display k)\<rparr>)"

definition u32_bytes :: "u32 \<Rightarrow> u8 list" where
  "u32_bytes w = map (byte_of w) [0..<4]"

definition sys_screen_size :: "u64 \<Rightarrow> u64 \<Rightarrow> kernel \<Rightarrow> u64 sys_result \<times> kernel" where
  "sys_screen_size out_w out_h k =
     (if out_w = 0 \<or> out_h = 0 then (Err INVAL, k)
      else case check_user_ptr out_w 4 k of
             Inl e \<Rightarrow> (Err e, k)
           | Inr _ \<Rightarrow>
               (case check_user_ptr out_h 4 k of
                  Inl e \<Rightarrow> (Err e, k)
                | Inr _ \<Rightarrow> (Ok 0, ustore out_h (u32_bytes FB_HEIGHT) (ustore out_w (u32_bytes FB_WIDTH) k))))"

text \<open>The backbuffer is allocated on the first call: whole pages, one contiguous block, cleared.\<close>

definition alloc_backbuffer :: "kernel \<Rightarrow> (backbuffer sys_result \<times> kernel) halting" where
  "alloc_backbuffer k =
     (case dimensions (FB_INFO (k_display k)) of
        None \<Rightarrow> Done (Err NOENT, k)
      | Some (width, height, stride_bytes) \<Rightarrow>
          (let nbytes = smul (unat stride_bytes) (unat height);
               pages = wadd nbytes 4095 div 4096
           in bind_halt (alloc_contiguous pages (k_buddy k)) (\<lambda>(base, b).
                if base = 0 then Done (Err NOMEM, k\<lparr>k_buddy := b\<rparr>)
                else let bb = \<lparr>bb_base = base, bb_width = width, bb_height = height, bb_stride = stride_bytes\<rparr>
                     in Done (Ok bb, k\<lparr>k_buddy := b, k_mem := clear_mem base nbytes (k_mem k),
                                       k_display := (k_display k)\<lparr>BACKBUFFER := Some bb\<rparr>\<rparr>))))"

definition sys_map_framebuffer :: "u64 \<Rightarrow> u64 \<Rightarrow> u64 \<Rightarrow> u64 \<Rightarrow> kernel \<Rightarrow> (u64 sys_result \<times> kernel) halting" where
  "sys_map_framebuffer out_ptr out_w out_h out_stride k =
     (if out_ptr = 0 \<or> out_w = 0 \<or> out_h = 0 \<or> out_stride = 0 then Done (Err INVAL, k)
      else if COMPOSITOR_PID (k_display k) \<noteq> Some (caller_pid k) then Done (Err PERM, k)
      else if check_user_ptr out_ptr 8 k \<noteq> Ok () \<or> check_user_ptr out_w 4 k \<noteq> Ok () \<or> check_user_ptr out_h 4 k \<noteq> Ok () \<or>
        check_user_ptr out_stride 4 k \<noteq> Ok () then Done (Err INVAL, k)
      else bind_halt (case BACKBUFFER (k_display k) of Some bb \<Rightarrow> Done (Ok bb, k) | None \<Rightarrow> alloc_backbuffer k) (\<lambda>(r, k1).
             case r of
               Inl e \<Rightarrow> Done (Err e, k1)
             | Inr bb \<Rightarrow>
                 Done (Ok 0, ustore out_stride (u32_bytes (bb_stride bb)) (ustore out_h (u32_bytes (bb_height bb))
                   (ustore out_w (u32_bytes (bb_width bb)) (ustore out_ptr (u64_bytes (of_nat (bb_base bb))) k1))))))"

section \<open>Shared memory\<close>

definition SHM_MAX_SLOTS :: nat where "SHM_MAX_SLOTS = 8"
definition SHM_MAX_PAGES :: nat where "SHM_MAX_PAGES = 512"

text \<open>Frames taken and forgotten: only the first one is recorded.\<close>

fun take_frames :: "nat \<Rightarrow> buddy \<Rightarrow> buddy halting" where
  "take_frames 0 b = Done b"
| "take_frames (Suc n) b = bind_halt (alloc_frame b) (\<lambda>(_, b1). take_frames n b1)"

definition sys_shm_create :: "u64 \<Rightarrow> kernel \<Rightarrow> (u64 sys_result \<times> kernel) halting" where
  "sys_shm_create nbytes k =
     (if nbytes = 0 \<or> unat nbytes > SHM_MAX_PAGES * 4096 then Done (Err INVAL, k)
      else let pages = (unat nbytes + 4095) div 4096
           in case first_index (\<lambda>s. s = None) (k_shm k) of
                None \<Rightarrow> Done (Err NOMEM, k)
              | Some slot_idx \<Rightarrow>
                  bind_halt (alloc_frame (k_buddy k)) (\<lambda>(r, b).
                    case r of
                      None \<Rightarrow> Done (Err NOMEM, k\<lparr>k_buddy := b\<rparr>)
                    | Some base \<Rightarrow>
                        bind_halt (take_frames (pages - 1) b) (\<lambda>b1.
                          Done (Ok (push_bit 32 (of_nat slot_idx) OR ucast (of_nat base :: u32)),
                            k\<lparr>k_buddy := b1, k_shm := (k_shm k)[slot_idx := Some (base, pages)]\<rparr>))))"

definition sys_shm_destroy :: "u32 \<Rightarrow> kernel \<Rightarrow> (u64 sys_result \<times> kernel) halting option" where
  "sys_shm_destroy shm_id k =
     (let idx = unat shm_id
      in if idx \<ge> SHM_MAX_SLOTS then Some (Done (Err INVAL, k))
         else let k1 = k\<lparr>k_shm := (k_shm k)[idx := None]\<rparr>
              in case k_shm k ! idx of
                   None \<Rightarrow> Some (Done (Ok 0, k1))
                 | Some (base, pages) \<Rightarrow>
                     map_option (\<lambda>h. bind_halt h (\<lambda>b. Done (Ok 0, k1\<lparr>k_buddy := b\<rparr>))) (free_frame base (k_buddy k)))"

section \<open>Breakpoints and counters\<close>

definition condition_of :: "u64 \<Rightarrow> bp_condition option" where
  "condition_of c = (if c = 0 then Some Execute else if c = 1 then Some Write else if c = 2 then Some IoRw
     else if c = 3 then Some ReadWrite else None)"

definition length_of :: "u64 \<Rightarrow> bp_len option" where
  "length_of l = (if l = 0 then Some Byte else if l = 1 then Some Word else if l = 2 then Some Qword
     else if l = 3 then Some Dword else None)"

text \<open>The current descriptor's image is changed and loaded into the CPU.\<close>

definition update_hw_bp :: "(hw_bp_state \<Rightarrow> hw_bp_state) \<Rightarrow> kernel \<Rightarrow> u64 sys_result \<times> kernel" where
  "update_hw_bp f k =
     (case current_index (k_pt k) of
        None \<Rightarrow> (Err INVAL, k)
      | Some i \<Rightarrow>
          (case get_descriptor i (k_pt k) of
             None \<Rightarrow> (Err INVAL, k)
           | Some p \<Rightarrow> (Ok 0, k\<lparr>k_pt := update_descriptor i (\<lambda>p. p\<lparr>pcb_hw_bp := f (pcb_hw_bp p)\<rparr>) (k_pt k),
                                 k_debug_regs := write_dr (f (pcb_hw_bp p)) (k_debug_regs k)\<rparr>)))"

definition sys_hw_bp_set :: "u64 \<Rightarrow> u64 \<Rightarrow> u64 \<Rightarrow> u64 \<Rightarrow> kernel \<Rightarrow> u64 sys_result \<times> kernel" where
  "sys_hw_bp_set slot addr cond len k =
     (if unat slot \<ge> MAX_HW_BREAKPOINTS then (Err INVAL, k)
      else if addr \<ge> 0x800000000000 then (Err INVAL, k)
      else case condition_of cond of
             None \<Rightarrow> (Err INVAL, k)
           | Some condition \<Rightarrow>
               (case length_of len of
                  None \<Rightarrow> (Err INVAL, k)
                | Some l \<Rightarrow>
                    (let l1 = (if condition = Execute then Byte else l)
                     in update_hw_bp (\<lambda>s. hw_bp_set s (unat slot) addr condition l1) k)))"

definition sys_hw_bp_clear :: "u64 \<Rightarrow> kernel \<Rightarrow> u64 sys_result \<times> kernel" where
  "sys_hw_bp_clear slot k =
     (if slot = 0xFF then update_hw_bp (\<lambda>s. fold (\<lambda>i s. hw_bp_clear s i) [0..<MAX_HW_BREAKPOINTS] s) k
      else if unat slot \<ge> MAX_HW_BREAKPOINTS then (Err INVAL, k)
      else update_hw_bp (\<lambda>s. hw_bp_clear s (unat slot)) k)"

definition hw_bp_info_bytes :: "hw_bp_state \<Rightarrow> u8 list" where
  "hw_bp_info_bytes s =
     concat (map u64_bytes [dr0 s, dr1 s, dr2 s, dr3 s, dr6 s, dr7 s]) @
     map (\<lambda>i. if hw_bp_is_enabled s i then 1 else 0) [0..<4] @ [0, 0, 0, 0]"

text \<open>The image is refreshed from the CPU before the pointer is validated.\<close>

definition sys_hw_bp_query :: "u64 \<Rightarrow> kernel \<Rightarrow> u64 sys_result \<times> kernel" where
  "sys_hw_bp_query out_ptr k =
     (if out_ptr = 0 then (Err INVAL, k)
      else case current_index (k_pt k) of
             None \<Rightarrow> (Err INVAL, k)
           | Some i \<Rightarrow>
               (case get_descriptor i (k_pt k) of
                  None \<Rightarrow> (Err INVAL, k)
                | Some _ \<Rightarrow>
                    (let k1 = k\<lparr>k_pt := update_descriptor i (\<lambda>p. p\<lparr>pcb_hw_bp := k_debug_regs k\<rparr>) (k_pt k)\<rparr>
                     in case check_user_ptr out_ptr 56 k1 of
                          Inl e \<Rightarrow> (Err e, k1)
                        | Inr _ \<Rightarrow> (Ok 0, ustore out_ptr (hw_bp_info_bytes (k_debug_regs k)) k1))))"

definition sys_perf_open :: "u64 \<Rightarrow> kernel \<Rightarrow> u64 sys_result \<times> kernel" where
  "sys_perf_open event_id k =
     (case current_index (k_pt k) of
        None \<Rightarrow> (Err INVAL, k)
      | Some i \<Rightarrow>
          (case perf_open (ucast event_id) i (k_perf k) of
             (Some h, p) \<Rightarrow> (Ok (ucast h), k\<lparr>k_perf := p\<rparr>)
           | (None, p) \<Rightarrow> (Err NOMEM, k\<lparr>k_perf := p\<rparr>)))"

definition sys_perf_read :: "u64 \<Rightarrow> u64 \<Rightarrow> kernel \<Rightarrow> u64 sys_result \<times> kernel" where
  "sys_perf_read handle out_ptr k =
     (if out_ptr = 0 then (Err INVAL, k)
      else case check_user_ptr out_ptr 8 k of
             Inl e \<Rightarrow> (Err e, k)
           | Inr _ \<Rightarrow>
               (case perf_read (ucast handle) (k_perf k) of
                  None \<Rightarrow> (Err INVAL, k)
                | Some v \<Rightarrow> (Ok 0, ustore out_ptr (u64_bytes v) k)))"

definition sys_perf_close :: "u64 \<Rightarrow> kernel \<Rightarrow> u64 sys_result \<times> kernel" where
  "sys_perf_close handle k =
     (let (ok, p) = perf_close (ucast handle) (k_perf k) in (if ok then Ok 0 else Err INVAL, k\<lparr>k_perf := p\<rparr>))"

section \<open>Clock and power\<close>

definition bcd_to_bin :: "u8 \<Rightarrow> u8" where
  "bcd_to_bin v = (v AND 0x0F) + drop_bit 4 v * 10"

text \<open>The registers of the clock as they read once no update is in progress.\<close>

definition packed_time :: "(u8 \<Rightarrow> u8) \<Rightarrow> u64" where
  "packed_time rtc =
     (let is_bin = (rtc 0x0B AND 4 \<noteq> 0);
          conv = (\<lambda>v. if is_bin then v else bcd_to_bin v);
          secs = conv (rtc 0x00); mins = conv (rtc 0x02);
          hrs = (if is_bin then rtc 0x04 else bcd_to_bin (rtc 0x04 AND 0x7F));
          day = conv (rtc 0x07); month = conv (rtc 0x08); yr_2 = conv (rtc 0x09);
          cent = (if rtc 0x32 \<noteq> 0 then conv (rtc 0x32) else 20);
          year = (ucast cent :: u32) * 100 + ucast yr_2
      in push_bit 40 (ucast year) OR push_bit 32 (ucast month) OR push_bit 24 (ucast day) OR
         push_bit 16 (ucast hrs) OR push_bit 8 (ucast mins) OR ucast secs)"

definition sys_gettime :: "(u8 \<Rightarrow> u8) \<Rightarrow> u64 \<Rightarrow> kernel \<Rightarrow> u64 sys_result \<times> kernel" where
  "sys_gettime rtc out k =
     (if out = 0 then (Ok (packed_time rtc), k)
      else case check_user_ptr out 8 k of
             Inl e \<Rightarrow> (Err e, k)
           | Inr _ \<Rightarrow> (Ok (packed_time rtc), ustore out (u64_bytes (packed_time rtc)) k))"

definition sys_reboot :: "u32 \<Rightarrow> kernel \<Rightarrow> outcome \<times> kernel" where
  "sys_reboot mode k =
     (let k1 = k\<lparr>k_vfs := (k_vfs k)\<lparr>vfs_fs := snd (flush_volume_header (vfs_fs (k_vfs k)))\<rparr>\<rparr>
      in (if mode = 0 then Idle else if mode = 1 then Reset else Return (Err INVAL), k1))"

definition sys_debug_dump_ptes :: "kernel \<Rightarrow> u64 sys_result" where
  "sys_debug_dump_ptes k = (case current_cr3 k of Inl e \<Rightarrow> Err e | Inr _ \<Rightarrow> Ok 0)"

end
