(* ===== verification/Dispatch.thy ===== *)
theory Dispatch
  imports Device_Calls
begin

text \<open>
  The system call dispatcher (\<open>kernel/syscall/dispatcher/mod.rs\<close>): every call by its number, with the
  capability its arm requires, and what holds of all calls together: no call gives a process authority that neither
  it nor its caller had.
\<close>

section \<open>Numbers\<close>

definition SYS_READ :: u64 where "SYS_READ = 0x100"
definition SYS_WRITE :: u64 where "SYS_WRITE = 0x101"
definition SYS_OPEN :: u64 where "SYS_OPEN = 0x102"
definition SYS_CLOSE :: u64 where "SYS_CLOSE = 0x103"
definition SYS_LSEEK :: u64 where "SYS_LSEEK = 0x104"
definition SYS_UNLINK :: u64 where "SYS_UNLINK = 0x105"
definition SYS_FSYNC :: u64 where "SYS_FSYNC = 0x106"
definition SYS_LIST_ROOT :: u64 where "SYS_LIST_ROOT = 0x107"
definition SYS_REBOOT :: u64 where "SYS_REBOOT = 0x108"
definition SYS_EXIT :: u64 where "SYS_EXIT = 0x109"
definition SYS_POLL_INPUT :: u64 where "SYS_POLL_INPUT = 0x200"
definition SYS_FB_CLEAR :: u64 where "SYS_FB_CLEAR = 0x201"
definition SYS_FB_FILL_RECT :: u64 where "SYS_FB_FILL_RECT = 0x202"
definition SYS_FB_FLUSH :: u64 where "SYS_FB_FLUSH = 0x203"
definition SYS_POLL_MOUSE :: u64 where "SYS_POLL_MOUSE = 0x204"
definition SYS_SURFACE_CREATE :: u64 where "SYS_SURFACE_CREATE = 0x210"
definition SYS_SURFACE_DESTROY :: u64 where "SYS_SURFACE_DESTROY = 0x211"
definition SYS_SURFACE_ATTACH :: u64 where "SYS_SURFACE_ATTACH = 0x212"
definition SYS_SURFACE_COMMIT :: u64 where "SYS_SURFACE_COMMIT = 0x213"
definition SYS_SCREEN_SIZE :: u64 where "SYS_SCREEN_SIZE = 0x214"
definition SYS_FB_BLIT :: u64 where "SYS_FB_BLIT = 0x215"
definition SYS_CLAIM_COMPOSITOR :: u64 where "SYS_CLAIM_COMPOSITOR = 0x216"
definition SYS_COMPOSITE_ALL :: u64 where "SYS_COMPOSITE_ALL = 0x217"
definition SYS_GET_COMPOSITOR_PID :: u64 where "SYS_GET_COMPOSITOR_PID = 0x218"
definition SYS_SURFACE_SET_Z :: u64 where "SYS_SURFACE_SET_Z = 0x219"
definition SYS_SHM_CREATE :: u64 where "SYS_SHM_CREATE = 0x21A"
definition SYS_SHM_DESTROY :: u64 where "SYS_SHM_DESTROY = 0x21B"
definition SYS_MAP_FRAMEBUFFER :: u64 where "SYS_MAP_FRAMEBUFFER = 0x21C"
definition SYS_IPC_SEND :: u64 where "SYS_IPC_SEND = 0x320"
definition SYS_IPC_RECV :: u64 where "SYS_IPC_RECV = 0x321"
definition SYS_HW_BP_SET :: u64 where "SYS_HW_BP_SET = 0x400"
definition SYS_HW_BP_CLEAR :: u64 where "SYS_HW_BP_CLEAR = 0x401"
definition SYS_HW_BP_QUERY :: u64 where "SYS_HW_BP_QUERY = 0x402"
definition SYS_PERF_OPEN :: u64 where "SYS_PERF_OPEN = 0x410"
definition SYS_PERF_READ :: u64 where "SYS_PERF_READ = 0x411"
definition SYS_PERF_CLOSE :: u64 where "SYS_PERF_CLOSE = 0x412"
definition SYS_SET_NICE :: u64 where "SYS_SET_NICE = 0x420"
definition SYS_GETTIME :: u64 where "SYS_GETTIME = 0x421"
definition SYS_MMAP :: u64 where "SYS_MMAP = 0x430"
definition SYS_MUNMAP :: u64 where "SYS_MUNMAP = 0x431"
definition SYS_CAP_GRANT :: u64 where "SYS_CAP_GRANT = 0x500"
definition SYS_CAP_REVOKE :: u64 where "SYS_CAP_REVOKE = 0x501"
definition SYS_CAP_QUERY :: u64 where "SYS_CAP_QUERY = 0x502"
definition SYS_JOURNAL_WRITE :: u64 where "SYS_JOURNAL_WRITE = 0x510"
definition SYS_JOURNAL_READ :: u64 where "SYS_JOURNAL_READ = 0x511"
definition SYS_IFLOW_GET :: u64 where "SYS_IFLOW_GET = 0x520"
definition SYS_IFLOW_TAINT :: u64 where "SYS_IFLOW_TAINT = 0x521"
definition SYS_IFLOW_DECLASSIFY :: u64 where "SYS_IFLOW_DECLASSIFY = 0x522"
definition SYS_IFLOW_ENDORSE :: u64 where "SYS_IFLOW_ENDORSE = 0x523"
definition SYS_DEBUG_DUMP_PTES :: u64 where "SYS_DEBUG_DUMP_PTES = 0x300"
definition SYS_SPAWN :: u64 where "SYS_SPAWN = 0x301"
definition SYS_GET_PROC_INFO :: u64 where "SYS_GET_PROC_INFO = 0x302"
definition SYS_GETPID :: u64 where "SYS_GETPID = 0x303"
definition SYS_WAITPID :: u64 where "SYS_WAITPID = 0x304"

lemmas sys_numbers =
  SYS_READ_def SYS_WRITE_def SYS_OPEN_def SYS_CLOSE_def SYS_LSEEK_def SYS_UNLINK_def
  SYS_FSYNC_def SYS_LIST_ROOT_def SYS_REBOOT_def SYS_EXIT_def SYS_POLL_INPUT_def SYS_FB_CLEAR_def
  SYS_FB_FILL_RECT_def SYS_FB_FLUSH_def SYS_POLL_MOUSE_def SYS_SURFACE_CREATE_def SYS_SURFACE_DESTROY_def SYS_SURFACE_ATTACH_def
  SYS_SURFACE_COMMIT_def SYS_SCREEN_SIZE_def SYS_FB_BLIT_def SYS_CLAIM_COMPOSITOR_def SYS_COMPOSITE_ALL_def SYS_GET_COMPOSITOR_PID_def
  SYS_SURFACE_SET_Z_def SYS_SHM_CREATE_def SYS_SHM_DESTROY_def SYS_MAP_FRAMEBUFFER_def SYS_IPC_SEND_def SYS_IPC_RECV_def
  SYS_HW_BP_SET_def SYS_HW_BP_CLEAR_def SYS_HW_BP_QUERY_def SYS_PERF_OPEN_def SYS_PERF_READ_def SYS_PERF_CLOSE_def
  SYS_SET_NICE_def SYS_GETTIME_def SYS_MMAP_def SYS_MUNMAP_def SYS_CAP_GRANT_def SYS_CAP_REVOKE_def
  SYS_CAP_QUERY_def SYS_JOURNAL_WRITE_def SYS_JOURNAL_READ_def SYS_IFLOW_GET_def SYS_IFLOW_TAINT_def SYS_IFLOW_DECLASSIFY_def
  SYS_IFLOW_ENDORSE_def SYS_DEBUG_DUMP_PTES_def SYS_SPAWN_def SYS_GET_PROC_INFO_def SYS_GETPID_def SYS_WAITPID_def

text \<open>What the hardware delivers during one call: the bytes of the PS/2 ports, the serial bytes per console poll, the
  clock registers, and the user registers that \<open>SYSCALL\<close> saved.\<close>

record hw =
  hw_ps2 :: "(u8 \<times> u8) list"
  hw_serial :: "u8 list list"
  hw_rtc :: "u8 \<Rightarrow> u8"
  hw_rip :: u64
  hw_rflags :: u64
  hw_rsp :: u64

text \<open>How a call ends: \<open>None\<close> if it never does, \<open>Halted\<close> if the kernel stops with a diagnostic, otherwise an outcome
  and the new state.\<close>

type_synonym call_result = "(outcome \<times> kernel) halting option"

definition ret :: "u64 sys_result \<times> kernel \<Rightarrow> call_result" where
  "ret rk = Some (Done (Return (fst rk), snd rk))"

definition ret_halting :: "(u64 sys_result \<times> kernel) halting \<Rightarrow> call_result" where
  "ret_halting h = Some (bind_halt h (\<lambda>(r, k). Done (Return r, k)))"

definition ret_option :: "(u64 sys_result \<times> kernel) halting option \<Rightarrow> call_result" where
  "ret_option x = (case x of None \<Rightarrow> None | Some h \<Rightarrow> ret_halting h)"

text \<open>\<open>if let Err(e) = capability::require(..) { return e.0 as u64; }\<close>\<close>

definition guarded :: "u64 \<Rightarrow> kernel \<Rightarrow> call_result \<Rightarrow> call_result" where
  "guarded c k body = (case require c k of Inl e \<Rightarrow> ret (Err e, k) | Inr _ \<Rightarrow> body)"

section \<open>Dispatch\<close>

definition io_call :: "hw \<Rightarrow> u64 \<Rightarrow> u64 \<Rightarrow> u64 \<Rightarrow> u64 \<Rightarrow> kernel \<Rightarrow> call_result option" where
  "io_call h num a1 a2 a3 k =
     (if num = SYS_READ then
        Some (case sys_read (hw_serial h) (ucast a1) a2 (unat a3) k of None \<Rightarrow> None | Some rk \<Rightarrow> ret rk)
      else if num = SYS_WRITE then Some (ret (sys_write (ucast a1) a2 (unat a3) k))
      else if num = SYS_OPEN then Some (ret (sys_open a1 (unat a2) (ucast a3) k))
      else if num = SYS_CLOSE then Some (ret (sys_close (ucast a1) k))
      else if num = SYS_LSEEK then Some (ret (sys_lseek (ucast a1) a2 (ucast a3) k))
      else if num = SYS_UNLINK then Some (ret (sys_unlink a1 (unat a2) k))
      else if num = SYS_FSYNC then Some (ret (sys_fsync (ucast a1) k))
      else if num = SYS_LIST_ROOT then Some (ret (sys_list_root a1 (unat a2) k))
      else if num = SYS_REBOOT then Some (guarded cap_REBOOT k (Some (Done (sys_reboot (ucast a1) k))))
      else None)"

definition process_call :: "hw \<Rightarrow> u64 \<Rightarrow> u64 \<Rightarrow> u64 \<Rightarrow> u64 \<Rightarrow> kernel \<Rightarrow> call_result option" where
  "process_call h num a1 a2 a3 k =
     (if num = SYS_EXIT then Some (Some (exit_current_and_schedule (Some (sint (ucast a1 :: u32))) k))
      else if num = SYS_DEBUG_DUMP_PTES then Some (guarded cap_PROC_INFO k (ret (sys_debug_dump_ptes k, k)))
      else if num = SYS_SPAWN then Some (ret_option (sys_spawn a1 a2 k))
      else if num = SYS_GET_PROC_INFO then Some (guarded cap_PROC_INFO k (ret (sys_get_proc_info a1 (ucast a2) k)))
      else if num = SYS_GETPID then Some (ret (sys_getpid k, k))
      else if num = SYS_WAITPID then
        Some (Some (sys_waitpid (ucast a1) a2 (ucast a3) (hw_rip h) (hw_rflags h) (hw_rsp h) k))
      else if num = SYS_IPC_SEND then Some (ret (call_ipc_send a1 a2 k))
      else if num = SYS_IPC_RECV then Some (ret (call_ipc_recv a1 a2 k))
      else if num = SYS_SET_NICE then Some (ret (sys_set_nice a1 k))
      else None)"

definition graphics_call :: "hw \<Rightarrow> u64 \<Rightarrow> u64 \<Rightarrow> u64 \<Rightarrow> u64 \<Rightarrow> u64 \<Rightarrow> u64 \<Rightarrow> u64 \<Rightarrow> kernel \<Rightarrow> call_result option" where
  "graphics_call h num a1 a2 a3 a4 a5 a6 k =
     (if num = SYS_POLL_INPUT then Some (guarded cap_INPUT k (ret (sys_poll_input (hw_ps2 h) a1 k)))
      else if num = SYS_POLL_MOUSE then Some (guarded cap_INPUT k (ret (sys_poll_mouse (hw_ps2 h) a1 k)))
      else if num = SYS_FB_CLEAR then Some (guarded cap_DISPLAY k (ret (call_fb_clear (ucast a1) (check_fb_owner k))))
      else if num = SYS_FB_FILL_RECT then
        Some (guarded cap_DISPLAY k (ret_halting (call_fb_fill_rect (ucast a1) (ucast a2) (ucast a3) (ucast a4) (ucast a5) (check_fb_owner k))))
      else if num = SYS_FB_FLUSH then Some (guarded cap_DISPLAY k (ret (call_fb_flush (check_fb_owner k))))
      else if num = SYS_SURFACE_CREATE then Some (guarded cap_DISPLAY k (ret (sys_surface_create k)))
      else if num = SYS_SURFACE_DESTROY then Some (guarded cap_DISPLAY k (ret (sys_surface_destroy (ucast a1) k)))
      else if num = SYS_SURFACE_ATTACH then
        Some (guarded cap_DISPLAY k (ret (sys_surface_attach (ucast a1) a2 (ucast a3) (ucast a4) (ucast a5) k)))
      else if num = SYS_SURFACE_COMMIT then
        Some (guarded cap_DISPLAY k (ret (sys_surface_commit (ucast a1) (ucast a2) (ucast a3) k)))
      else if num = SYS_SCREEN_SIZE then Some (ret (sys_screen_size a1 a2 k))
      else if num = SYS_FB_BLIT then
        Some (guarded cap_DISPLAY k (ret (sys_fb_blit (ucast a1) (ucast a2) (ucast a3) (ucast a4) (ucast a5) a6 k)))
      else if num = SYS_CLAIM_COMPOSITOR then Some (guarded cap_COMPOSITOR k (ret (call_claim_compositor k)))
      else if num = SYS_COMPOSITE_ALL then Some (guarded cap_COMPOSITOR k (ret (call_composite_all k)))
      else if num = SYS_GET_COMPOSITOR_PID then Some (ret (sys_get_compositor_pid k, k))
      else if num = SYS_SURFACE_SET_Z then Some (guarded cap_DISPLAY k (ret (sys_surface_set_z (ucast a1) (ucast a2) k)))
      else if num = SYS_SHM_CREATE then Some (guarded cap_SHM k (ret_halting (sys_shm_create a1 k)))
      else if num = SYS_SHM_DESTROY then Some (guarded cap_SHM k (ret_option (sys_shm_destroy (ucast a1) k)))
      else if num = SYS_MAP_FRAMEBUFFER then Some (ret_halting (sys_map_framebuffer a1 a2 a3 a4 k))
      else None)"

definition machine_call :: "hw \<Rightarrow> u64 \<Rightarrow> u64 \<Rightarrow> u64 \<Rightarrow> u64 \<Rightarrow> u64 \<Rightarrow> kernel \<Rightarrow> call_result option" where
  "machine_call h num a1 a2 a3 a4 k =
     (if num = SYS_HW_BP_SET then Some (ret (sys_hw_bp_set a1 a2 a3 a4 k))
      else if num = SYS_HW_BP_CLEAR then Some (ret (sys_hw_bp_clear a1 k))
      else if num = SYS_HW_BP_QUERY then Some (ret (sys_hw_bp_query a1 k))
      else if num = SYS_PERF_OPEN then Some (ret (sys_perf_open a1 k))
      else if num = SYS_PERF_READ then Some (ret (sys_perf_read a1 a2 k))
      else if num = SYS_PERF_CLOSE then Some (ret (sys_perf_close a1 k))
      else if num = SYS_GETTIME then Some (ret (sys_gettime (hw_rtc h) a1 k))
      else if num = SYS_MMAP then Some (ret_halting (sys_mmap a1 a2 k))
      else if num = SYS_MUNMAP then Some (ret (sys_munmap a1 a2 k))
      else None)"

definition security_call :: "u64 \<Rightarrow> u64 \<Rightarrow> u64 \<Rightarrow> u64 \<Rightarrow> kernel \<Rightarrow> call_result option" where
  "security_call num a1 a2 a3 k =
     (if num = SYS_CAP_GRANT then Some (ret (sys_cap_grant a1 a2 k))
      else if num = SYS_CAP_REVOKE then Some (ret (sys_cap_revoke a1 a2 k))
      else if num = SYS_CAP_QUERY then Some (ret (sys_cap_query k, k))
      else if num = SYS_JOURNAL_WRITE then Some (ret (sys_journal_write a1 a2 k))
      else if num = SYS_JOURNAL_READ then Some (ret (sys_journal_read a1 a2 k))
      else if num = SYS_IFLOW_GET then Some (ret (sys_iflow_get (ucast a1) a2 a3 k))
      else if num = SYS_IFLOW_TAINT then Some (ret (sys_iflow_taint a1 a2 k))
      else if num = SYS_IFLOW_DECLASSIFY then Some (ret (sys_iflow_declassify a1 k))
      else if num = SYS_IFLOW_ENDORSE then Some (ret (sys_iflow_endorse (ucast a1) a2 k))
      else None)"

text \<open>The arms of the \<open>match\<close> in groups; an unknown number is an invalid argument.\<close>

definition dispatch_arm :: "hw \<Rightarrow> u64 \<Rightarrow> u64 \<Rightarrow> u64 \<Rightarrow> u64 \<Rightarrow> u64 \<Rightarrow> u64 \<Rightarrow> u64 \<Rightarrow> kernel \<Rightarrow> call_result" where
  "dispatch_arm h num a1 a2 a3 a4 a5 a6 k =
     (case io_call h num a1 a2 a3 k of Some r \<Rightarrow> r
      | None \<Rightarrow> (case process_call h num a1 a2 a3 k of Some r \<Rightarrow> r
      | None \<Rightarrow> (case graphics_call h num a1 a2 a3 a4 a5 a6 k of Some r \<Rightarrow> r
      | None \<Rightarrow> (case machine_call h num a1 a2 a3 a4 k of Some r \<Rightarrow> r
      | None \<Rightarrow> (case security_call num a1 a2 a3 k of Some r \<Rightarrow> r
      | None \<Rightarrow> ret (Err INVAL, k))))))"

definition syscall_dispatch :: "hw \<Rightarrow> u64 \<Rightarrow> u64 \<Rightarrow> u64 \<Rightarrow> u64 \<Rightarrow> u64 \<Rightarrow> u64 \<Rightarrow> u64 \<Rightarrow> kernel \<Rightarrow> call_result" where
  "syscall_dispatch h num a1 a2 a3 a4 a5 a6 k =
     (if (case current_descriptor (k_pt k) of None \<Rightarrow> False | Some d \<Rightarrow> pcb_canary d \<noteq> PROCESS_CANARY)
      then Some (Halted ''process_descriptor_canary_corrupt'')
      else case check_kernel_stack_canary (k_pt k) of
             Inl r \<Rightarrow> Some (Halted r)
           | Inr _ \<Rightarrow> dispatch_arm h num a1 a2 a3 a4 a5 a6 k)"


section \<open>Tables with the same authority\<close>

text \<open>Every process of the second table was there in the first one, in the same slot and with the same pid, capabilities
  and label.\<close>

definition same_authority :: "ptable \<Rightarrow> ptable \<Rightarrow> bool" where
  "same_authority pt pt' \<longleftrightarrow> (\<forall>i p'. live pt' i p' \<longrightarrow>
     (\<exists>p. live pt i p \<and> pcb_pid p' = pcb_pid p \<and> pcb_caps p' = pcb_caps p \<and> pcb_iflow p' = pcb_iflow p))"

lemma same_authority_refl [simp]: "same_authority pt pt"
  by (auto simp: same_authority_def)

lemma same_authority_trans: "same_authority pt pt1 \<Longrightarrow> same_authority pt1 pt2 \<Longrightarrow> same_authority pt pt2"
  unfolding same_authority_def by metis

lemma live_update_cases:
  assumes "live (update_descriptor i f pt) j q"
  obtains "live pt j q" | p where "j = i" "live pt i p" "q = f p"
proof (cases "get_descriptor i pt")
  case None
  then show ?thesis using that(1) assms by (simp add: update_descriptor_def)
next
  case (Some p)
  then have t: "process_table (update_descriptor i f pt) = (process_table pt)[i := Some (f p)]" by (simp add: update_descriptor_def)
  show ?thesis
  proof (cases "j = i \<and> i < length (process_table pt)")
    case True
    then have "q = f p" using assms by (simp add: live_def t)
    then show ?thesis using that(2) True Some by (simp add: get_descriptor_eq_Some_iff)
  next
    case False
    then have "live pt j q" using assms by (auto simp: live_def t list_update_beyond nth_list_update_neq)
    then show ?thesis by (rule that(1))
  qed
qed

lemma same_authority_update:
  assumes "\<And>p. pcb_pid (f p) = pcb_pid p" "\<And>p. pcb_caps (f p) = pcb_caps p" "\<And>p. pcb_iflow (f p) = pcb_iflow p"
  shows "same_authority pt (update_descriptor i f pt)"
  unfolding same_authority_def using assms by (metis live_update_cases)

lemma same_authority_table: "process_table pt' = process_table pt \<Longrightarrow> same_authority pt pt'"
  by (auto simp: same_authority_def live_def)

lemma same_authority_release: "same_authority pt (release_slot i pt)"
proof -
  have "live pt j p" if "live (release_slot i pt) j p" for j p
    using that by (cases "j = i \<and> i < length (process_table pt)")
      (auto simp: live_def release_slot_def list_update_beyond nth_list_update_neq split: if_splits)
  then show ?thesis by (auto simp: same_authority_def)
qed

lemma same_authority_reap: "reap_dead pid pt = (r, pt') \<Longrightarrow> same_authority pt pt'"
  by (auto simp: reap_dead_def same_authority_release split: option.splits)

lemma same_authority_set_current: "set_current i pt = Done pt' \<Longrightarrow> same_authority pt pt'"
  by (rule same_authority_table) (auto simp: set_current_def split: option.splits if_splits)

lemma same_authority_wake_one: "wake_one pid i (pt, q) = Done (pt', q') \<Longrightarrow> same_authority pt pt'"
  by (auto simp: wake_one_def Let_def bind_halt_eq_Inr_iff intro!: same_authority_update split: option.splits if_splits)

lemma same_authority_wake_loop:
  "fold (\<lambda>i r. bind_halt r (wake_one pid i)) is (Done (pt, q)) = Done (pt', q') \<Longrightarrow> same_authority pt pt'"
proof (induction "is" arbitrary: pt q)
  case (Cons i "is")
  show ?case
  proof (cases "wake_one pid i (pt, q)")
    case (Inl r)
    have "fold (\<lambda>i r. bind_halt r (wake_one pid i)) is (Halted r) = Halted r" by (induction "is") simp_all
    then show ?thesis using Cons.prems Inl by simp
  next
    case (Inr s)
    obtain pt1 q1 where s: "s = (pt1, q1)" by (cases s)
    show ?thesis using same_authority_trans [OF same_authority_wake_one [OF Inr [unfolded s]] Cons.IH] Cons.prems Inr s by simp
  qed
qed simp

lemma same_authority_run: "run_first_process i k = Done k' \<Longrightarrow> same_authority (k_pt k) (k_pt k')"
  by (auto simp: run_first_process_def bind_halt_eq_Inr_iff split: option.splits
      intro!: same_authority_trans [OF same_authority_set_current same_authority_update])

lemma same_authority_schedule: "schedule_next k = Done (r, k') \<Longrightarrow> same_authority (k_pt k) (k_pt k')"
  by (auto simp: schedule_next_def bind_halt_eq_Inr_iff split: option.splits prod.splits dest!: same_authority_run)

lemma same_authority_exit_cleanup:
  assumes "exit_cleanup st i k = Done k'"
  shows "same_authority (k_pt k) (k_pt k')"
proof -
  let ?f = "\<lambda>p. p\<lparr>pcb_state := Dead, pcb_exit_status := st\<rparr>"
  let ?pid = "case get_descriptor i (k_pt k) of None \<Rightarrow> 0 | Some p \<Rightarrow> pcb_pid p"
  have "k_pt (reset_anon_for_slot i k0) = k_pt k0" "k_rq (reset_anon_for_slot i k0) = k_rq k0" for k0
    by (simp_all add: reset_anon_for_slot_def)
  then obtain pt2 q2 where w: "wake_waiters_for ?pid (update_descriptor i ?f (k_pt k), remove_from_runqueue i (k_rq k)) = Done (pt2, q2)"
    and c: "set_current None pt2 = Done (k_pt k')"
    using assms by (auto simp: exit_cleanup_def Let_def bind_halt_eq_Inr_iff split_beta)
  have "same_authority (k_pt k) (update_descriptor i ?f (k_pt k))" by (rule same_authority_update) simp_all
  then show ?thesis
    using same_authority_wake_loop [OF w [unfolded wake_waiters_for_def]] same_authority_set_current [OF c]
    by (blast intro: same_authority_trans)
qed

lemma same_authority_exit: "exit_current_and_schedule st k = Done (r, k') \<Longrightarrow> same_authority (k_pt k) (k_pt k')"
  by (auto simp: exit_current_and_schedule_def bind_halt_eq_Inr_iff split: option.splits
      intro: same_authority_trans [OF same_authority_exit_cleanup same_authority_schedule])

lemma same_authority_waitpid:
  assumes "sys_waitpid pid sp opts rip rfl rsp k = Done (r, k')"
  shows "same_authority (k_pt k) (k_pt k')"
proof (cases "reap_dead pid (k_pt k)")
  case (Pair x pt1)
  note reap = same_authority_reap [OF Pair]
  show ?thesis
  proof (cases x)
    case (Some z)
    then show ?thesis using assms Pair reap
      by (auto simp: sys_waitpid_def Let_def ustore_def split: if_splits sum.splits prod.splits)
  next
    case None
    let ?pt = "\<lambda>i. update_descriptor i (save_restart_frame rip rfl rsp pid) (k_pt k)"
    have u: "same_authority (k_pt k) (?pt i)" for i by (rule same_authority_update) (simp_all add: save_restart_frame_def)
    show ?thesis using assms Pair None u
      by (auto simp: sys_waitpid_def Let_def bind_halt_eq_Inr_iff split: if_splits option.splits
          dest!: same_authority_schedule same_authority_set_current intro: same_authority_trans [OF same_authority_trans [OF u]])
  qed
qed

text \<open>A spawn either leaves the authority as it was, or fills an empty slot.\<close>

definition spawned :: "capset \<Rightarrow> iflow_label \<Rightarrow> kernel \<Rightarrow> kernel \<Rightarrow> bool" where
  "spawned caps lab k k' \<longleftrightarrow> (\<forall>i p'. live (k_pt k') i p' \<longrightarrow>
     live (k_pt k) i p' \<or> get_descriptor i (k_pt k) = None \<and> pcb_caps p' = caps \<and> pcb_iflow p' = lab)"

lemma spawned_same: "process_table (k_pt k') = process_table (k_pt k) \<Longrightarrow> spawned caps lab k k'"
  by (auto simp: spawned_def live_def)

lemma spawned_finish:
  assumes "finish_process i pid cr3 en rsp caps lab k1 = Done (r, k')"
    and "process_table (k_pt k1) = process_table (k_pt k)" "get_descriptor i (k_pt k) = None"
  shows "spawned caps lab k k'"
proof (cases "alloc_kernel_stack i (k_pt k1)")
  case (Pair x pt1)
  have t1: "process_table pt1 = process_table (k_pt k)" using Pair assms(2) by (auto simp: alloc_kernel_stack_def split: if_splits)
  show ?thesis
  proof (cases x)
    case None
    then show ?thesis using assms(1) Pair t1 by (auto simp: finish_process_def intro: spawned_same)
  next
    case (Some st)
    obtain pcid m1 where pc: "alloc_pcid (k_mmu k1) = (pcid, m1)" by fastforce
    let ?p = "(pcb_new pid Runnable cr3 st (initial_frame en rsp))\<lparr>pcb_caps := caps, pcb_iflow := lab, pcb_pcid := pcid\<rparr>"
    have k': "k_pt k' = put_descriptor i ?p pt1"
      using assms(1) Pair Some pc by (auto simp: finish_process_def bind_halt_eq_Inr_iff Let_def)
    have "live (k_pt k) j p' \<or> get_descriptor j (k_pt k) = None \<and> pcb_caps p' = caps \<and> pcb_iflow p' = lab"
      if "live (k_pt k') j p'" for j p'
    proof (cases "j = i \<and> i < length (process_table pt1)")
      case True
      then have "p' = ?p" using that by (auto simp: k' live_def put_descriptor_def split: if_splits)
      then show ?thesis using True assms(3) by simp
    next
      case False
      then show ?thesis using that t1 by (auto simp: k' live_def put_descriptor_def list_update_beyond nth_list_update_neq split: if_splits)
    qed
    then show ?thesis by (simp add: spawned_def)
  qed
qed

lemma spawned_create:
  assumes "create_user_process elf caps lab k = Some (Done (r, k'))"
  shows "spawned caps lab k k'"
proof (cases "allocate_process_slot (k_pt k)")
  case (Pair x pt0)
  have t0: "process_table pt0 = process_table (k_pt k)"
    using Pair by (auto simp: allocate_process_slot_def split: option.splits)
  show ?thesis
  proof (cases x)
    case None
    then show ?thesis using assms Pair t0 by (auto simp: create_user_process_def intro: spawned_same)
  next
    case (Some ip)
    obtain i pid where ip: "ip = (i, pid)" by (cases ip)
    have none: "process_table (k_pt k) ! i = None"
      using Pair Some ip by (auto simp: allocate_process_slot_def dest!: first_index_SomeD split: option.splits)
    then have gd: "get_descriptor i (k_pt k) = None" by (simp add: get_descriptor_def)
    have fail: "spawned caps lab k k1" if "k_pt k1 = release_slot i pt0" for k1
      using none t0 list_update_id [of "process_table (k_pt k)" i] by (intro spawned_same) (simp add: that release_slot_def)
    have inst: "spawned caps lab k k2" if "k_pt k1 = pt0" "finish_process i pid c3 en ur caps lab k1 = Done (rs, k2)"
      for k1 k2 c3 en ur rs
      using spawned_finish [OF that(2)] that(1) t0 gd by simp
    obtain cr3 m0 where c: "create_process_cr3 (k_mmu k) = (cr3, m0)" by (cases "create_process_cr3 (k_mmu k)") auto
    show ?thesis
      using assms
      by (auto simp: create_user_process_def Pair Some ip c Let_def split: if_splits option.splits sum.splits prod.splits
          intro: fail inst [rotated])
  qed
qed

lemma spawned_spawn:
  assumes "sys_spawn prog msk k = Some (Done (r, k'))"
  shows "spawned (child_caps (current_caps k) msk) (child_label (current_label k)) k k' \<and>
    (k_pt k' = k_pt k \<or> has (current_caps k) cap_SPAWN)"
  using assms
  by (auto simp: sys_spawn_def spawn_by_program_id_def require_def spawned_same
      split: sum.splits option.splits prod.splits if_splits dest: spawned_create)

section \<open>Calls that leave the process table alone\<close>

lemma pt_read_console: "read_console buf cnt n feed k = Some (m, k') \<Longrightarrow> k_pt k' = k_pt k \<and> k_rq k' = k_rq k"
proof (induction buf cnt n feed k rule: read_console.induct)
  case (1 buf cnt n feed k)
  obtain r t where g: "getchar (case feed of [] \<Rightarrow> [] | bs # _ \<Rightarrow> bs) (k_tty k) = (r, t)" by fastforce
  show ?case
  proof (cases r)
    case None
    then show ?thesis using "1.IH"(1) [OF g [symmetric] None] "1.prems" g
      by (subst (asm) read_console.simps) (auto split: if_splits)
  next
    case (Some b)
    then show ?thesis using "1.IH"(2) [OF g [symmetric] Some] "1.prems" g
      by (subst (asm) read_console.simps) (auto simp: Let_def ustore_def split: if_splits)
  qed
qed

lemma pt_io_call: "io_call h num a1 a2 a3 k = Some (Some (Done (r, k'))) \<Longrightarrow> k_pt k' = k_pt k \<and> k_rq k' = k_rq k"
  by (auto simp: io_call_def ret_def guarded_def sys_read_def sys_write_def sys_open_def sys_close_def sys_lseek_def
      sys_unlink_def sys_fsync_def sys_list_root_def sys_reboot_def Let_def ustore_def
      split: if_splits option.splits sum.splits prod.splits dest: pt_read_console)

lemma pt_poll_input [simp]: "k_pt (poll_input ports k) = k_pt k" "k_rq (poll_input ports k) = k_rq k"
  by (simp_all add: poll_input_def split_beta)

lemma pt_put_display [simp]: "k_pt (put_display d k) = k_pt k" "k_rq (put_display d k) = k_rq k"
  by (simp_all add: put_display_def Let_def)

lemma pt_check_fb_owner [simp]: "k_pt (check_fb_owner k) = k_pt k" "k_rq (check_fb_owner k) = k_rq k"
  by (simp_all add: check_fb_owner_def Let_def split: option.split)

lemma pt_alloc_backbuffer: "alloc_backbuffer k = Done (r, k') \<Longrightarrow> k_pt k' = k_pt k \<and> k_rq k' = k_rq k"
  by (auto simp: alloc_backbuffer_def Let_def bind_halt_eq_Inr_iff split: option.splits if_splits prod.splits)

lemma pt_map_framebuffer:
  assumes "sys_map_framebuffer p w h s k = Done (r, k')"
  shows "k_pt k' = k_pt k \<and> k_rq k' = k_rq k"
proof (cases "k' = k")
  case False
  let ?get = "case BACKBUFFER (k_display k) of Some bb \<Rightarrow> Done (Ok bb, k) | None \<Rightarrow> alloc_backbuffer k"
  obtain r1 k1 where g: "?get = Done (r1, k1)" and f: "(case r1 of Inl e \<Rightarrow> Done (Err e, k1) | Inr bb \<Rightarrow>
      Done (Ok 0, ustore s (u32_bytes (bb_stride bb)) (ustore h (u32_bytes (bb_height bb))
        (ustore w (u32_bytes (bb_width bb)) (ustore p (u64_bytes (of_nat (bb_base bb))) k1))))) = Done (r, k')"
    using assms False by (auto simp: sys_map_framebuffer_def bind_halt_eq_Inr_iff split: if_splits)
  have "k_pt k1 = k_pt k" "k_rq k1 = k_rq k" using g by (auto split: option.splits dest: pt_alloc_backbuffer)
  then show ?thesis using f by (auto split: sum.splits)
qed simp

lemma pt_graphics_call: "graphics_call h num a1 a2 a3 a4 a5 a6 k = Some (Some (Done (r, k'))) \<Longrightarrow> k_pt k' = k_pt k \<and> k_rq k' = k_rq k"
  by (auto simp: graphics_call_def ret_def ret_halting_def ret_option_def guarded_def sys_poll_input_def sys_poll_mouse_def
      call_fb_clear_def call_fb_fill_rect_def call_fb_flush_def sys_surface_create_def sys_surface_destroy_def
      sys_surface_attach_def sys_surface_commit_def sys_screen_size_def sys_fb_blit_def call_claim_compositor_def
      call_composite_all_def sys_surface_set_z_def sys_shm_create_def sys_shm_destroy_def Let_def bind_halt_eq_Inr_iff
      split: if_splits option.splits sum.splits prod.splits dest: pt_map_framebuffer)

lemma pt_mmap_pages: "mmap_pages cr3 flags n va k = Done (r, k') \<Longrightarrow> k_pt k' = k_pt k \<and> k_rq k' = k_rq k"
proof (induction n arbitrary: va k)
  case (Suc n)
  obtain x b where a: "alloc_frame (k_buddy k) = Done (x, b)" using Suc.prems by (auto simp: bind_halt_eq_Inr_iff)
  show ?case
  proof (cases x)
    case (Some pa)
    obtain ok m where "map_page_into_space cr3 va (of_nat pa) flags (k_mmu k) = (ok, m)" by fastforce
    then show ?thesis using Suc a Some by (cases ok) (auto simp: Let_def)
  qed (use Suc.prems a in auto)
qed simp

lemma same_authority_update_hw_bp: "same_authority (k_pt k) (k_pt (snd (update_hw_bp f k)))"
  by (auto simp: update_hw_bp_def intro!: same_authority_update split: option.split)

lemma same_authority_machine_call:
  "machine_call h num a1 a2 a3 a4 k = Some (Some (Done (r, k'))) \<Longrightarrow> same_authority (k_pt k) (k_pt k')"
  by (auto simp: machine_call_def ret_def ret_halting_def sys_hw_bp_set_def sys_hw_bp_clear_def sys_hw_bp_query_def
      sys_perf_open_def sys_perf_read_def sys_perf_close_def sys_gettime_def sys_mmap_def sys_munmap_def Let_def
      bind_halt_eq_Inr_iff same_authority_update_hw_bp intro!: same_authority_update
      split: if_splits option.splits sum.splits prod.splits dest!: pt_mmap_pages)

section \<open>Authority\<close>

text \<open>What a call may have made of a process, given the state in which it was made. An existing process keeps its pid,
  and its capabilities can only shrink, or grow by what the caller itself holds if the caller may grant; its label
  can only move up, unless the caller may declassify and is that process, or may endorse. A new process is in a slot
  that was empty, if the caller may spawn; it has no more capabilities than the caller, and the caller's label.\<close>

definition lawful :: "kernel \<Rightarrow> nat \<Rightarrow> pcb \<Rightarrow> bool" where
  "lawful k i p' \<longleftrightarrow>
     (\<exists>p. live (k_pt k) i p \<and> pcb_pid p' = pcb_pid p \<and>
        (caps_le (pcb_caps p') (pcb_caps p) \<or>
         has (current_caps k) cap_GRANT \<and> submask (bits (pcb_caps p')) (bits (pcb_caps p) OR bits (current_caps k))) \<and>
        (can_flow (pcb_iflow p) (pcb_iflow p') \<or>
         has (current_caps k) cap_DECLASSIFY \<and> current_index (k_pt k) = Some i \<and> integrity (pcb_iflow p') = integrity (pcb_iflow p) \<or>
         has (current_caps k) cap_ENDORSE \<and> secrecy (pcb_iflow p') = secrecy (pcb_iflow p))) \<or>
     get_descriptor i (k_pt k) = None \<and> has (current_caps k) cap_SPAWN \<and>
       caps_le (pcb_caps p') (current_caps k) \<and> pcb_iflow p' = child_label (current_label k)"

lemma lawful_same:
  assumes "same_authority (k_pt k) pt'" "live pt' i p'"
  shows "lawful k i p'"
proof -
  obtain p where "live (k_pt k) i p" "pcb_pid p' = pcb_pid p" "pcb_caps p' = pcb_caps p" "pcb_iflow p' = pcb_iflow p"
    using assms unfolding same_authority_def by blast
  then show ?thesis by (auto simp: lawful_def can_flow_iff)
qed

text \<open>An update of one descriptor that is allowed for the caller.\<close>

lemma lawful_update:
  assumes "live (update_descriptor j f (k_pt k)) i p'"
    and "\<And>p. live (k_pt k) j p \<Longrightarrow> lawful k j (f p)"
  shows "lawful k i p'"
  using assms(1)
proof (cases rule: live_update_cases)
  case 1
  then show ?thesis by (rule lawful_same [OF same_authority_refl])
next
  case (2 p)
  then show ?thesis using assms(2) by simp
qed

lemma lawful_spawned:
  assumes "spawned (child_caps (current_caps k) msk) (child_label (current_label k)) k k'"
    and "has (current_caps k) cap_SPAWN" "live (k_pt k') i p'"
  shows "lawful k i p'"
proof (cases "live (k_pt k) i p'")
  case True
  then show ?thesis by (rule lawful_same [OF same_authority_refl])
next
  case False
  then have "get_descriptor i (k_pt k) = None" "pcb_caps p' = child_caps (current_caps k) msk"
    "pcb_iflow p' = child_label (current_label k)"
    using assms(1,3) unfolding spawned_def by blast+
  then show ?thesis using assms(2) by (simp add: lawful_def)
qed

lemma lawful_process_call:
  assumes "process_call h num a1 a2 a3 k = Some (Some (Done (r, k')))" "live (k_pt k') i p'"
  shows "lawful k i p'"
proof (cases "num = SYS_SPAWN")
  case True
  then have "ret_option (sys_spawn a1 a2 k) = Some (Done (r, k'))"
    using assms(1) by (simp add: process_call_def SYS_SPAWN_def SYS_EXIT_def SYS_DEBUG_DUMP_PTES_def)
  then obtain r' where "sys_spawn a1 a2 k = Some (Done (r', k'))"
    by (auto simp: ret_option_def ret_halting_def bind_halt_eq_Inr_iff split: option.splits)
  from spawned_spawn [OF this] show ?thesis using lawful_spawned assms(2) lawful_same [of k "k_pt k'"] by (metis same_authority_refl)
next
  case False
  have "same_authority (k_pt k) (k_pt (snd (sys_set_nice a k)))" for a
    by (auto simp: sys_set_nice_def Let_def intro!: same_authority_update split: option.split)
  moreover have "k_pt (snd (call_ipc_send a b k)) = k_pt k" "k_pt (snd (call_ipc_recv a b k)) = k_pt k" for a b
    by (auto simp: call_ipc_send_def call_ipc_recv_def sys_ipc_send_def sys_ipc_recv_def Let_def
        split: sum.split option.split prod.split bool.split)
  moreover have "k_pt (snd (sys_get_proc_info a b k)) = k_pt k" for a b
    by (auto simp: sys_get_proc_info_def Let_def split: sum.split)
  ultimately have "same_authority (k_pt k) (k_pt k')"
    using assms(1) False same_authority_exit same_authority_waitpid
    by (auto simp: process_call_def ret_def guarded_def split: if_splits sum.splits)
  then show ?thesis using assms(2) by (rule lawful_same)
qed

lemma lawfulI:
  assumes "live (k_pt k) i p" "pcb_pid p' = pcb_pid p"
    and "caps_le (pcb_caps p') (pcb_caps p) \<or>
      has (current_caps k) cap_GRANT \<and> submask (bits (pcb_caps p')) (bits (pcb_caps p) OR bits (current_caps k))"
    and "can_flow (pcb_iflow p) (pcb_iflow p') \<or>
      has (current_caps k) cap_DECLASSIFY \<and> current_index (k_pt k) = Some i \<and> integrity (pcb_iflow p') = integrity (pcb_iflow p) \<or>
      has (current_caps k) cap_ENDORSE \<and> secrecy (pcb_iflow p') = secrecy (pcb_iflow p)"
  shows "lawful k i p'"
  unfolding lawful_def using assms by blast

lemma lawful_grant: "live (k_pt (snd (sys_cap_grant t c k))) i p' \<Longrightarrow> lawful k i p'"
  by (auto simp: sys_cap_grant_def require_def Let_def split: if_splits option.splits
      elim!: lawful_update lawful_same [OF same_authority_refl]
      intro!: lawfulI simp: can_flow_iff grant_def submask_iff_bits bit_simps)

lemma lawful_revoke: "live (k_pt (snd (sys_cap_revoke t c k))) i p' \<Longrightarrow> lawful k i p'"
  by (auto simp: sys_cap_revoke_def require_def can_flow_iff split: if_splits option.splits
      elim!: lawful_update lawful_same [OF same_authority_refl] intro!: lawfulI)

lemma lawful_taint: "live (k_pt (snd (sys_iflow_taint a b k))) i p' \<Longrightarrow> lawful k i p'"
  by (auto simp: sys_iflow_taint_def can_flow_iff taint_def split: option.splits
      elim!: lawful_update lawful_same [OF same_authority_refl] intro!: lawfulI)

lemma lawful_declassify: "live (k_pt (snd (sys_iflow_declassify a k))) i p' \<Longrightarrow> lawful k i p'"
  by (auto simp: sys_iflow_declassify_def require_def declassify_def split: if_splits option.splits
      elim!: lawful_update lawful_same [OF same_authority_refl] intro!: lawfulI)

lemma lawful_endorse: "live (k_pt (snd (sys_iflow_endorse t a k))) i p' \<Longrightarrow> lawful k i p'"
  by (auto simp: sys_iflow_endorse_def require_def endorse_def split: if_splits option.splits
      elim!: lawful_update lawful_same [OF same_authority_refl] intro!: lawfulI)

lemma lawful_security_call:
  assumes "security_call num a1 a2 a3 k = Some (Some (Done (r, k')))" "live (k_pt k') i p'"
  shows "lawful k i p'"
proof -
  have pt: "k_pt (snd (sys_journal_write a b k)) = k_pt k" "k_pt (snd (sys_journal_read a b k)) = k_pt k"
    "k_pt (snd (sys_iflow_get c a b k)) = k_pt k" for a b c
    by (auto simp: sys_journal_write_def sys_journal_read_def sys_iflow_get_def Let_def split: sum.split prod.split option.split)
  show ?thesis
    using assms lawful_same [OF same_authority_refl, of k]
    by (auto simp: security_call_def ret_def pt split: if_splits
        dest: lawful_grant lawful_revoke lawful_taint lawful_declassify lawful_endorse)
qed

lemma dispatch_lawful:
  assumes "syscall_dispatch h num a1 a2 a3 a4 a5 a6 k = Some (Done (r, k'))" "live (k_pt k') i p'"
  shows "lawful k i p'"
proof -
  have d: "dispatch_arm h num a1 a2 a3 a4 a5 a6 k = Some (Done (r, k'))"
    using assms(1) by (auto simp: syscall_dispatch_def split: if_splits sum.splits)
  have same: "lawful k i p'" if "same_authority (k_pt k) (k_pt k')" by (rule lawful_same [OF that assms(2)])
  have eq: "lawful k i p'" if "k_pt k' = k_pt k" using same that by simp
  note arms = pt_io_call [of h num a1 a2 a3 k r k'] lawful_process_call [of h num a1 a2 a3 k r k', OF _ assms(2)]
    pt_graphics_call [of h num a1 a2 a3 a4 a5 a6 k r k'] same_authority_machine_call [of h num a1 a2 a3 a4 k r k']
    lawful_security_call [of num a1 a2 a3 k r k', OF _ assms(2)]
  show ?thesis using d arms same eq unfolding dispatch_arm_def ret_def by (simp split: option.splits)
qed


definition quiet_hw :: hw where
  "quiet_hw = \<lparr>hw_ps2 = [], hw_serial = [], hw_rtc = (\<lambda>_. 0), hw_rip = 0, hw_rflags = 0, hw_rsp = 0\<rparr>"

lemma talk_enters:
  "syscall_dispatch h num a1 a2 a3 a4 a5 a6 talk_kernel = dispatch_arm h num a1 a2 a3 a4 a5 a6 talk_kernel"
  "current_caps talk_kernel = capset_all"
proof -
  have d: "current_descriptor (k_pt talk_kernel) = Some ((demo_pcb 2 Running None)\<lparr>pcb_caps := capset_all\<rparr>)"
    by (simp add: current_descriptor_def talk_current)
  have "check_kernel_stack_canary (k_pt talk_kernel) = Done ()"
    by (simp add: check_kernel_stack_canary_def talk_current) (simp add: talk_kernel_def MAX_PROCESSES_def)
  then show "syscall_dispatch h num a1 a2 a3 a4 a5 a6 talk_kernel = dispatch_arm h num a1 a2 a3 a4 a5 a6 talk_kernel"
    by (simp add: syscall_dispatch_def d demo_pcb_def pcb_new_def)
  show "current_caps talk_kernel = capset_all" by (simp add: current_caps_def d)
qed

text \<open>Process 2, which holds every capability, takes the right to spawn from process 1.\<close>

lemma talk_revoke:
  "syscall_dispatch quiet_hw SYS_CAP_REVOKE 1 cap_SPAWN 0 0 0 0 talk_kernel = Some (Done (Return (Ok 0),
     talk_kernel\<lparr>k_pt := update_descriptor 1 (\<lambda>p. p\<lparr>pcb_caps := revoke (pcb_caps p) cap_SPAWN\<rparr>) (k_pt talk_kernel)\<rparr>))"
proof -
  have "sys_cap_revoke 1 cap_SPAWN talk_kernel =
      (Ok 0, talk_kernel\<lparr>k_pt := update_descriptor 1 (\<lambda>p. p\<lparr>pcb_caps := revoke (pcb_caps p) cap_SPAWN\<rparr>) (k_pt talk_kernel)\<rparr>)"
    by (simp add: sys_cap_revoke_def require_def talk_enters talk_index has_all)
  then show ?thesis
    by (simp add: talk_enters dispatch_arm_def io_call_def process_call_def graphics_call_def machine_call_def
        security_call_def ret_def sys_numbers)
qed


section \<open>Required capabilities\<close>

text \<open>The capability each call needs, by its number; the other calls need none.\<close>

definition required_caps :: "(u64 \<times> u64) list" where
  "required_caps =
     [(SYS_REBOOT, cap_REBOOT), (SYS_SPAWN, cap_SPAWN), (SYS_GET_PROC_INFO, cap_PROC_INFO), (SYS_DEBUG_DUMP_PTES, cap_PROC_INFO),
      (SYS_IPC_SEND, cap_IPC_SEND), (SYS_IPC_RECV, cap_IPC_RECV), (SYS_POLL_INPUT, cap_INPUT), (SYS_POLL_MOUSE, cap_INPUT),
      (SYS_FB_CLEAR, cap_DISPLAY), (SYS_FB_FILL_RECT, cap_DISPLAY), (SYS_FB_FLUSH, cap_DISPLAY), (SYS_FB_BLIT, cap_DISPLAY),
      (SYS_SURFACE_CREATE, cap_DISPLAY), (SYS_SURFACE_DESTROY, cap_DISPLAY), (SYS_SURFACE_ATTACH, cap_DISPLAY),
      (SYS_SURFACE_COMMIT, cap_DISPLAY), (SYS_SURFACE_SET_Z, cap_DISPLAY), (SYS_CLAIM_COMPOSITOR, cap_COMPOSITOR),
      (SYS_COMPOSITE_ALL, cap_COMPOSITOR), (SYS_SHM_CREATE, cap_SHM), (SYS_SHM_DESTROY, cap_SHM),
      (SYS_CAP_GRANT, cap_GRANT), (SYS_CAP_REVOKE, cap_GRANT), (SYS_JOURNAL_WRITE, cap_JOURNAL), (SYS_JOURNAL_READ, cap_JOURNAL),
      (SYS_IFLOW_DECLASSIFY, cap_DECLASSIFY), (SYS_IFLOW_ENDORSE, cap_ENDORSE)]"

lemma guarded_refused: "\<not> has (current_caps k) c \<Longrightarrow> guarded c k body = ret (Err PERM, k)"
  by (simp add: guarded_def require_def)

lemma handlers_refused:
  "\<not> has (current_caps k) cap_SPAWN \<Longrightarrow> sys_spawn a b k = Some (Done (Err PERM, k))"
  "\<not> has (current_caps k) cap_IPC_SEND \<Longrightarrow> call_ipc_send a b k = (Err PERM, k)"
  "\<not> has (current_caps k) cap_IPC_RECV \<Longrightarrow> call_ipc_recv a b k = (Err PERM, k)"
  "\<not> has (current_caps k) cap_GRANT \<Longrightarrow> sys_cap_grant a b k = (Err PERM, k)"
  "\<not> has (current_caps k) cap_GRANT \<Longrightarrow> sys_cap_revoke a b k = (Err PERM, k)"
  "\<not> has (current_caps k) cap_JOURNAL \<Longrightarrow> sys_journal_write a b k = (Err PERM, k)"
  "\<not> has (current_caps k) cap_JOURNAL \<Longrightarrow> sys_journal_read a b k = (Err PERM, k)"
  "\<not> has (current_caps k) cap_DECLASSIFY \<Longrightarrow> sys_iflow_declassify a k = (Err PERM, k)"
  "\<not> has (current_caps k) cap_ENDORSE \<Longrightarrow> sys_iflow_endorse t a k = (Err PERM, k)"
  by (simp_all add: sys_spawn_def call_ipc_send_def call_ipc_recv_def sys_cap_grant_def sys_cap_revoke_def sys_journal_write_def
      sys_journal_read_def sys_iflow_declassify_def sys_iflow_endorse_def require_def)

lemma arm_refused:
  assumes "(num, c) \<in> set required_caps" "\<not> has (current_caps k) c"
  shows "dispatch_arm h num a1 a2 a3 a4 a5 a6 k = ret (Err PERM, k)"
proof -
  note arms = dispatch_arm_def io_call_def process_call_def graphics_call_def machine_call_def security_call_def
  have "list_all (\<lambda>(num, c). \<not> has (current_caps k) c \<longrightarrow> dispatch_arm h num a1 a2 a3 a4 a5 a6 k = ret (Err PERM, k)) required_caps"
    unfolding required_caps_def list.pred_inject prod.case
    by (intro conjI impI TrueI)
      (simp add: arms sys_numbers guarded_refused handlers_refused ret_option_def ret_halting_def ret_def)+
  then show ?thesis using assms unfolding list_all_iff by blast
qed

text \<open>C6: A call that needs a capability the caller lacks is refused with the permission error and changes nothing,
  whatever its arguments: the table lists every call the kernel protects.\<close>

theorem protected_calls_are_refused:
  assumes "(num, c) \<in> set required_caps" "\<not> has (current_caps k) c"
    and "syscall_dispatch h num a1 a2 a3 a4 a5 a6 k = Some (Done (r, k'))"
  shows "r = Return (Err PERM) \<and> k' = k"
  using arm_refused [OF assms(1,2), of h a1 a2 a3 a4 a5 a6] assms(3)
  by (auto simp: syscall_dispatch_def ret_def split: if_splits sum.splits)

section \<open>Histories of calls\<close>

inductive call_step :: "kernel \<Rightarrow> kernel \<Rightarrow> bool" where
  "syscall_dispatch h num a1 a2 a3 a4 a5 a6 k = Some (Done (r, k')) \<Longrightarrow> call_step k k'"

definition held :: "nat \<Rightarrow> kernel \<Rightarrow> bool" where
  "held n k \<longleftrightarrow> (\<exists>i p. live (k_pt k) i p \<and> bit (bits (pcb_caps p)) n)"

lemma held_by_current: "bit (bits (current_caps k)) n \<Longrightarrow> held n k"
  by (auto simp: current_caps_def current_descriptor_def capset_none_def cap_NONE_def held_def get_descriptor_eq_Some_iff
      split: option.splits)

lemma lawful_held: "lawful k i p' \<Longrightarrow> bit (bits (pcb_caps p')) n \<Longrightarrow> held n k"
  using held_by_current [of k n]
  by (auto simp: lawful_def caps_le_def submask_iff_bits bit_simps held_def)


text \<open>Two processes without capabilities; one of them changes its priority.\<close>

definition bare_kernel :: kernel where
  "bare_kernel = (demo_kernel 2)\<lparr>k_pt := (k_pt (demo_kernel 2))\<lparr>kernel_stack_canaries := replicate MAX_PROCESSES KSTACK_CANARY\<rparr>\<rparr>"

lemma bare_live: "live (k_pt bare_kernel) i p \<longleftrightarrow> live (k_pt (demo_kernel 2)) i p"
  by (simp add: live_def bare_kernel_def)

lemma bare_enters:
  "syscall_dispatch h num a1 a2 a3 a4 a5 a6 bare_kernel = dispatch_arm h num a1 a2 a3 a4 a5 a6 bare_kernel"
  "current_caps bare_kernel = capset_none" "current_index (k_pt bare_kernel) = Some 0"
proof -
  show cur: "current_index (k_pt bare_kernel) = Some 0" by (simp add: bare_kernel_def demo_descriptors)
  have d: "current_descriptor (k_pt bare_kernel) = Some (demo_pcb 2 Running None)"
    using cur bare_live [of 0] demo_live [of 2 0] by (simp add: current_descriptor_def get_descriptor_eq_Some_iff)
  have c: "check_kernel_stack_canary (k_pt bare_kernel) = Done ()"
    by (simp add: check_kernel_stack_canary_def cur) (simp add: bare_kernel_def MAX_PROCESSES_def)
  show "syscall_dispatch h num a1 a2 a3 a4 a5 a6 bare_kernel = dispatch_arm h num a1 a2 a3 a4 a5 a6 bare_kernel"
    by (simp add: syscall_dispatch_def d c) (simp add: demo_pcb_def pcb_new_def)
  show "current_caps bare_kernel = capset_none" by (simp add: current_caps_def d demo_pcb_def pcb_new_def)
qed

theorem protected_calls_are_refused_witness:
  "\<exists>r k'. syscall_dispatch quiet_hw SYS_SHM_CREATE 4096 0 0 0 0 0 bare_kernel = Some (Done (r, k')) \<and>
     r = Return (Err PERM) \<and> k' = bare_kernel"
proof -
  have "(SYS_SHM_CREATE, cap_SHM) \<in> set required_caps" by (simp add: required_caps_def)
  moreover have n: "\<not> has (current_caps bare_kernel) cap_SHM" unfolding bare_enters by code_simp
  moreover have "syscall_dispatch quiet_hw SYS_SHM_CREATE 4096 0 0 0 0 0 bare_kernel = Some (Done (Return (Err PERM), bare_kernel))"
    by (simp add: bare_enters dispatch_arm_def io_call_def process_call_def graphics_call_def guarded_refused [OF n] ret_def sys_numbers)
  ultimately show ?thesis using protected_calls_are_refused by blast
qed


end
