(* ===== verification/Histories.thy ===== *)
theory Histories
  imports Dispatch
begin

text \<open>
  Histories of the whole kernel: the boot code creates and enters processes, after that everything happens in system
  calls. The run queue and the process table stay consistent throughout.
\<close>

section \<open>Calls and the scheduler\<close>

text \<open>The queue is untouched, and at most one descriptor has changed, but not its state.\<close>

definition steady :: "kernel \<Rightarrow> kernel \<Rightarrow> bool" where
  "steady k k' \<longleftrightarrow> k_rq k' = k_rq k \<and>
     (k_pt k' = k_pt k \<or> (\<exists>i f. k_pt k' = update_descriptor i f (k_pt k) \<and> (\<forall>p. pcb_state (f p) = pcb_state p)))"

lemma steady_refl: "k_pt k' = k_pt k \<Longrightarrow> k_rq k' = k_rq k \<Longrightarrow> steady k k'"
  by (simp add: steady_def)

lemma steady_update:
  "k_pt k' = update_descriptor i f (k_pt k) \<Longrightarrow> (\<And>p. pcb_state (f p) = pcb_state p) \<Longrightarrow> k_rq k' = k_rq k \<Longrightarrow> steady k k'"
  by (auto simp: steady_def)

lemma sched_update:
  assumes "sched_inv k" "k_pt k' = update_descriptor i f (k_pt k)" "\<And>p. pcb_state (f p) = pcb_state p"
    and "rq_inv (k_rq k')" "rq_procs (k_rq k') = rq_procs (k_rq k)"
  shows "sched_inv k'"
proof (rule sched_invI)
  note q = sched_invD(1) [OF assms(1)]
  note wf = queue_okD(1) [OF q]
  have l: "live (k_pt k') j r \<longleftrightarrow> (if j = i then \<exists>p. live (k_pt k) i p \<and> r = f p else live (k_pt k) j r)" for j r
    unfolding assms(2) by (rule live_update_descriptor [OF wf])
  have fwd: "\<exists>r. live (k_pt k') j r \<and> pcb_state r = pcb_state p" if "live (k_pt k) j p" for j p
    using that assms(3) unfolding l by (cases "j = i") auto
  have bwd: "\<exists>p. live (k_pt k) j p \<and> pcb_state r = pcb_state p" if "live (k_pt k') j r" for j r
    using that assms(3) unfolding l by (cases "j = i") auto
  have c: "current_index (k_pt k') = current_index (k_pt k)" by (simp add: assms(2))
  show "queue_ok (k_pt k') (k_rq k')"
    unfolding queue_ok_def assms(5)
  proof (intro conjI allI impI)
    show "ptable_wf (k_pt k')" unfolding assms(2) by (rule update_descriptor_wf [OF wf])
    show "rq_inv (k_rq k')" by (rule assms(4))
    show "count (rq_procs (k_rq k)) j \<le> 1" for j by (rule queue_okD(3) [OF q])
    show "\<exists>p. live (k_pt k') j p \<and> pcb_state p \<in> {Runnable, Running}" if "j \<in># rq_procs (k_rq k)" for j
      using queue_okD(4) [OF q that] fwd by metis
    show "j \<in># rq_procs (k_rq k)" if "live (k_pt k') j r" "pcb_state r = Runnable" for j r
      using bwd [OF that(1)] queue_okD(5) [OF q] that(2) by metis
  qed
  show "current_index (k_pt k') = Some j" if "live (k_pt k') j r" "pcb_state r = Running" for j r
    using bwd [OF that(1)] sched_invD(2) [OF assms(1)] that(2) unfolding c by metis
  show "\<exists>p. live (k_pt k') j p \<and> pcb_state p = Running" if "current_index (k_pt k') = Some j" for j
    using sched_invD(3) [OF assms(1)] that fwd unfolding c by metis
qed

lemma steady_sched: "steady k k' \<Longrightarrow> sched_inv k \<Longrightarrow> sched_inv k'"
  unfolding steady_def
  using sched_update [of k k'] sched_inv_cong [of k' k] queue_okD(2) [OF sched_invD(1)] by metis

lemma set_nice_sched: "sched_inv k \<Longrightarrow> sched_inv (snd (sys_set_nice a k))"
proof -
  assume inv: "sched_inv k"
  note s = set_nice_spec [OF queue_okD(2) [OF sched_invD(1) [OF inv]]]
  show ?thesis
  proof (cases "current_index (k_pt k)")
    case None
    then show ?thesis using inv by (simp add: sys_set_nice_def Let_def)
  next
    case (Some i)
    have "sched_inv (k\<lparr>k_rq := set_nice i n (k_rq k), k_pt := update_descriptor i (\<lambda>p. p\<lparr>pcb_nice := n\<rparr>) (k_pt k)\<rparr>)" for n
      by (rule sched_update [OF inv, of _ i "\<lambda>p. p\<lparr>pcb_nice := n\<rparr>"]) (simp_all add: s)
    then show ?thesis using inv Some by (simp add: sys_set_nice_def Let_def)
  qed
qed

lemma steady_update_hw_bp: "steady k (snd (update_hw_bp f k))"
  by (auto simp: update_hw_bp_def intro: steady_refl steady_update split: option.split)

lemma steady_hw_bp_query: "steady k (snd (sys_hw_bp_query p k))"
  by (auto simp: sys_hw_bp_query_def Let_def intro: steady_refl steady_update split: option.split sum.split)

lemma steady_machine_call:
  "machine_call h num a1 a2 a3 a4 k = Some (Some (Done (r, k'))) \<Longrightarrow> steady k k'"
  using steady_hw_bp_query [of k a1]
  by (auto simp: machine_call_def ret_def ret_halting_def sys_hw_bp_set_def sys_hw_bp_clear_def
      sys_perf_open_def sys_perf_read_def sys_perf_close_def sys_gettime_def sys_mmap_def sys_munmap_def Let_def
      bind_halt_eq_Inr_iff steady_update_hw_bp intro: steady_refl
      split: if_splits option.splits sum.splits prod.splits dest!: pt_mmap_pages)

lemma steady_security_call:
  assumes "security_call num a1 a2 a3 k = Some (Some (Done (r, k')))"
  shows "steady k k'"
proof -
  have "steady k (snd (sys_cap_grant a b k))" "steady k (snd (sys_cap_revoke a b k))" "steady k (snd (sys_iflow_taint a b k))"
    "steady k (snd (sys_iflow_declassify a k))" "steady k (snd (sys_iflow_endorse c a k))" for a b c
    by (auto simp: sys_cap_grant_def sys_cap_revoke_def sys_iflow_taint_def sys_iflow_declassify_def sys_iflow_endorse_def
        require_def Let_def intro: steady_refl steady_update split: option.split)
  moreover have "steady k (snd (sys_journal_write a b k))" "steady k (snd (sys_journal_read a b k))"
    "steady k (snd (sys_iflow_get c a b k))" for a b c
    by (auto simp: sys_journal_write_def sys_journal_read_def sys_iflow_get_def Let_def intro!: steady_refl
        split: sum.split prod.split option.split)
  ultimately show ?thesis using assms by (auto simp: security_call_def ret_def intro: steady_refl split: if_splits)
qed

lemma process_call_sched:
  assumes "process_call h num a1 a2 a3 k = Some (Some (Done (r, k')))" "sched_inv k"
  shows "sched_inv k'"
proof -
  have "steady k (snd (call_ipc_send a b k))" "steady k (snd (call_ipc_recv a b k))" for a b
    by (auto simp: call_ipc_send_def call_ipc_recv_def sys_ipc_send_def sys_ipc_recv_def Let_def intro!: steady_refl
        split: sum.split option.split prod.split bool.split)
  moreover have "steady k (snd (sys_get_proc_info a b k))" for a b
    by (auto simp: sys_get_proc_info_def Let_def intro!: steady_refl split: sum.split)
  ultimately have q: "sched_inv (snd (call_ipc_send a b k))" "sched_inv (snd (call_ipc_recv a b k))"
    "sched_inv (snd (sys_get_proc_info a c k))" for a b c
    using steady_sched assms(2) by blast+
  have sp: "sched_inv k'" if "ret_option (sys_spawn a b k) = Some (Done (r, k'))" for a b
    using that spawn_sched [OF assms(2)] by (auto simp: ret_option_def ret_halting_def bind_halt_eq_Inr_iff split: option.splits)
  show ?thesis
    using assms
    by (auto simp: process_call_def ret_def guarded_def q set_nice_sched split: if_splits sum.splits
        dest: sp exit_sched [OF assms(2)] waitpid_sched [OF assms(2)])
qed

lemma call_sched: "call_step k k' \<Longrightarrow> sched_inv k \<Longrightarrow> sched_inv k'"
proof (induction rule: call_step.induct)
  case (1 h num a1 a2 a3 a4 a5 a6 k r k')
  have d: "dispatch_arm h num a1 a2 a3 a4 a5 a6 k = Some (Done (r, k'))"
    using "1.hyps" by (auto simp: syscall_dispatch_def split: if_splits sum.splits)
  note arms = pt_io_call [of h num a1 a2 a3 k r k'] process_call_sched [of h num a1 a2 a3 k r k', OF _ "1.prems"]
    pt_graphics_call [of h num a1 a2 a3 a4 a5 a6 k r k'] steady_machine_call [of h num a1 a2 a3 a4 k r k']
    steady_security_call [of num a1 a2 a3 k r k']
  have "sched_inv k'" if "steady k k'" by (rule steady_sched [OF that "1.prems"])
  then show ?case using d arms steady_refl [of k' k] "1.prems" unfolding dispatch_arm_def ret_def by (auto split: option.splits)
qed

section \<open>From boot\<close>

inductive kernel_step :: "kernel \<Rightarrow> kernel \<Rightarrow> bool" where
  boot_spawn: "create_user_process elf caps lab k = Some (Done (idx, k')) \<Longrightarrow> kernel_step k k'"
| boot_run: "current_index (k_pt k) = None \<Longrightarrow> get_descriptor i (k_pt k) = Some p \<Longrightarrow> pcb_state p = Runnable \<Longrightarrow>
    run_first_process i k = Done k' \<Longrightarrow> kernel_step k k'"
| call: "call_step k k' \<Longrightarrow> kernel_step k k'"

lemma kernel_step_sched: "kernel_step k k' \<Longrightarrow> sched_inv k \<Longrightarrow> sched_inv k'"
  by (induction rule: kernel_step.induct) (auto simp: table_simps intro: create_sched boot_run_sched call_sched)



end
