(* ===== verification/Faults.thy ===== *)
theory Faults
  imports Lifecycle
begin

text \<open>
  The exception handlers of the kernel: page faults (\<open>kernel/memory/paging/fault.rs\<close>) and the faults that stop the machine
  (\<open>kernel/arch/x86_64/exceptions.rs\<close>). What they print on the serial line is a list of texts and numbers; a handler ends by
  running another process or by stopping for good.
\<close>

section \<open>Page faults\<close>

datatype log_item = LStr string | LHex u64

definition PF_P :: u64 where "PF_P = push_bit 0 1"
definition PF_W :: u64 where "PF_W = push_bit 1 1"
definition PF_U :: u64 where "PF_U = push_bit 2 1"
definition PF_R :: u64 where "PF_R = push_bit 3 1"
definition PF_I :: u64 where "PF_I = push_bit 4 1"
definition NULL_PAGE_THRESHOLD :: u64 where "NULL_PAGE_THRESHOLD = 4096"

lemmas pf_bits = PF_P_def PF_W_def PF_U_def PF_R_def PF_I_def

definition flag_text :: "u64 \<Rightarrow> u64 \<Rightarrow> log_item" where
  "flag_text err b = LStr (if err AND b \<noteq> 0 then ''1'' else ''0'')"

definition decode_err :: "u64 \<Rightarrow> log_item list" where
  "decode_err err =
     [LStr '' P='', flag_text err PF_P, LStr '' W='', flag_text err PF_W, LStr '' U='', flag_text err PF_U,
      LStr '' R='', flag_text err PF_R, LStr '' I='', flag_text err PF_I]"

definition dump_pte_for_va :: "u64 \<Rightarrow> mmu \<Rightarrow> u64 \<Rightarrow> log_item list" where
  "dump_pte_for_va cr3 m va =
     [LStr '' va='', LHex va] @
     (case walk_pte cr3 va m of
        Some pte \<Rightarrow>
          [LStr '' pte_pa='', LHex (pte AND FRAME_MASK), LStr '' fl='', LHex (pte AND 0xFFF),
           LStr (if pte AND flag_mask Present \<noteq> 0 then '' P'' else ''''), LStr (if pte AND flag_mask Writable \<noteq> 0 then '' W'' else ''''),
           LStr (if pte AND flag_mask User \<noteq> 0 then '' U'' else ''''), LStr (if pte AND flag_mask NoExec \<noteq> 0 then '' NX'' else '''')]
      | None \<Rightarrow> [LStr '' not_mapped'']) @ [LStr (CHR 0x0D # CHR 0x0A # [])]"

definition fault_report :: "u64 \<Rightarrow> u64 \<Rightarrow> u64 \<Rightarrow> u64 \<Rightarrow> u64 \<Rightarrow> u64 \<Rightarrow> log_item list" where
  "fault_report error_code rip cs cr2 cr3 pid =
     [LStr ''[PF] CPL='', LHex (cs AND 3), LStr '' CS='', LHex cs, LStr '' RIP='', LHex rip, LStr '' CR2='', LHex cr2, LStr '' err='', LHex error_code, LStr '' '',
      LStr (if error_code AND PF_U \<noteq> 0 then ''user '' else ''kernel '')] @
     (if cr2 < NULL_PAGE_THRESHOLD then [LStr ''null_access ''] else []) @
     (if error_code AND PF_P = 0 then [LStr ''not_present ''] else []) @
     decode_err error_code @ [LStr '' cr3='', LHex cr3, LStr '' pid='', LHex pid, LStr (CHR 0x0D # CHR 0x0A # [])]"

text \<open>The entries around the address are printed, where adding or subtracting pages does not leave the address space below zero.\<close>

definition nearby :: "u64 \<Rightarrow> u64 list" where
  "nearby cr2 = [cr2] @ (if cr2 \<ge> 4096 then [cr2 - 4096] else []) @ [cr2 + 4096] @ (if cr2 \<ge> 2 * 4096 then [cr2 - 2 * 4096] else []) @ [cr2 + 2 * 4096]"

text \<open>\<open>current_pid\<close> is registered as the function that reads the current process for the report.\<close>

definition page_fault_handler :: "u64 \<Rightarrow> u64 \<Rightarrow> u64 \<Rightarrow> u64 \<Rightarrow> u64 \<Rightarrow> kernel \<Rightarrow> log_item list \<times> (outcome \<times> kernel) halting" where
  "page_fault_handler error_code rip cs cr2 cr3 k =
     (let is_user = error_code AND PF_U \<noteq> 0; is_null = cr2 < NULL_PAGE_THRESHOLD; not_present = error_code AND PF_P = 0;
          pid = (case current_pid (k_pt k) of None \<Rightarrow> 0 | Some p \<Rightarrow> ucast p);
          o1 = fault_report error_code rip cs cr2 cr3 pid
      in if is_user \<and> (is_null \<or> not_present)
         then (o1 @ [LStr ''[PF] killing process (user null/invalid)'', LStr (CHR 0x0D # CHR 0x0A # [])], exit_current_and_schedule None k)
         else (o1 @ [LStr ''[PF] nearby PTEs:'', LStr (CHR 0x0D # CHR 0x0A # [])] @ concat (map (dump_pte_for_va cr3 (k_mmu k)) (nearby cr2)),
               Halted ''page_fault_unhandled''))"

text \<open>The stub for vector 14 passes the error code and what the CPU pushed above it.\<close>

definition page_fault_stub :: "(nat \<Rightarrow> u64) \<Rightarrow> u64 \<Rightarrow> u64 \<Rightarrow> kernel \<Rightarrow> log_item list \<times> (outcome \<times> kernel) halting" where
  "page_fault_stub stack cr2 cr3 k = page_fault_handler (stack 0) (stack 1) (stack 2) cr2 cr3 k"

section \<open>Faults that stop the machine\<close>

definition log_fault :: "string \<Rightarrow> u64 \<Rightarrow> log_item list" where
  "log_fault name vec = [LStr ''[FAULT] '', LStr name, LStr '' vec='', LHex vec, LStr (CHR 0x0D # CHR 0x0A # [])]"

definition gp_fault_handler :: "u64 \<Rightarrow> u64 \<Rightarrow> u64 \<Rightarrow> kernel \<Rightarrow> log_item list \<times> outcome \<times> kernel" where
  "gp_fault_handler error_code rip cs k =
     ([LStr ''[FAULT] GP vec=13 CPL='', LHex (cs AND 3), LStr '' CS='', LHex cs, LStr '' RIP='', LHex rip, LStr '' err='', LHex error_code,
       LStr (CHR 0x0D # CHR 0x0A # [])], Idle, k)"

definition double_fault_handler :: "kernel \<Rightarrow> log_item list \<times> outcome \<times> kernel" where
  "double_fault_handler k = (log_fault ''DF'' 8, Idle, k)"

definition ud_fault_handler :: "kernel \<Rightarrow> log_item list \<times> outcome \<times> kernel" where
  "ud_fault_handler k = (log_fault ''UD'' 6, Idle, k)"

section \<open>Containment\<close>



end
