(* ===== verification/Multiboot.thy ===== *)
theory Multiboot
  imports Memmap
begin

text \<open>
  The entry from a Multiboot2 boot loader (\<open>kernel/arch/x86_64/multiboot2_parser.rs\<close>): the tags of the information structure are read
  from physical memory, the memory map is converted to UEFI-like descriptors at \<open>0x9000\<close> and the boot information is filled in.
  Memory is threaded through, since the conversion writes it while tags are still read. The \<open>u64\<close> arithmetic wraps where it can.
\<close>

section \<open>Constants and memory\<close>

definition CONVERTED_MAP_ADDR :: nat where "CONVERTED_MAP_ADDR = 0x9000"
definition CONVERTED_MAP_MAX_BYTES :: nat where "CONVERTED_MAP_MAX_BYTES = 0x1000"
definition MB2_TAG_END :: nat where "MB2_TAG_END = 0"
definition MB2_TAG_MMAP :: nat where "MB2_TAG_MMAP = 6"
definition MB2_TAG_FRAMEBUFFER :: nat where "MB2_TAG_FRAMEBUFFER = 8"
definition MB2_TAG_ACPI_OLD :: nat where "MB2_TAG_ACPI_OLD = 14"
definition MB2_TAG_ACPI_NEW :: nat where "MB2_TAG_ACPI_NEW = 15"
definition MB2_MMAP_AVAILABLE :: nat where "MB2_MMAP_AVAILABLE = 1"

lemmas mb2_consts = CONVERTED_MAP_ADDR_def CONVERTED_MAP_MAX_BYTES_def MB2_TAG_END_def MB2_TAG_MMAP_def MB2_TAG_FRAMEBUFFER_def
  MB2_TAG_ACPI_OLD_def MB2_TAG_ACPI_NEW_def MB2_MMAP_AVAILABLE_def

definition max_entries :: nat where "max_entries = CONVERTED_MAP_MAX_BYTES div MEMORY_DESCRIPTOR_SIZE"

definition write_le :: "nat \<Rightarrow> nat \<Rightarrow> nat \<Rightarrow> (nat \<Rightarrow> u8) \<Rightarrow> nat \<Rightarrow> u8" where
  "write_le n p v mem = (\<lambda>a. if p \<le> a \<and> a < p + n then of_nat (v div 256 ^ (a - p)) else mem a)"

definition write_desc :: "nat \<Rightarrow> nat \<times> nat \<times> nat \<Rightarrow> (nat \<Rightarrow> u8) \<Rightarrow> nat \<Rightarrow> u8" where
  "write_desc p d mem = (case d of (ty, phys_start, page_count) \<Rightarrow>
     write_le 8 (p + 32) 0 (write_le 8 (p + 24) page_count (write_le 8 (p + 16) 0 (write_le 8 (p + 8) phys_start
       (write_le 4 (p + 4) 0 (write_le 4 p ty mem))))))"

text \<open>\<open>(x + 7) & !7\<close>\<close>

definition align8 :: "nat \<Rightarrow> nat" where
  "align8 n = (n + 7) div 8 * 8"

section \<open>Tags\<close>

definition convert_entry :: "(nat \<Rightarrow> u8) \<Rightarrow> nat \<Rightarrow> nat \<times> nat \<times> nat" where
  "convert_entry mem p =
     (let base = le_bytes 8 mem p; len = le_bytes 8 mem (p + 8); ty = le_bytes 4 mem (p + 16);
          page_count = wadd len (PAGE_SIZE - 1) div PAGE_SIZE
      in (if ty = MB2_MMAP_AVAILABLE then EFI_CONVENTIONAL_MEMORY else 0, base, page_count))"

text \<open>The loop over the entries; it stops when the converted map is full, so the bound on the number of entries is the smaller one.\<close>

definition convert_map :: "nat \<Rightarrow> nat \<Rightarrow> nat \<Rightarrow> (nat \<Rightarrow> u8) \<Rightarrow> nat \<Rightarrow> u8" where
  "convert_map entries_start entry_size n mem =
     fold (\<lambda>i m. write_desc (CONVERTED_MAP_ADDR + i * MEMORY_DESCRIPTOR_SIZE) (convert_entry m (entries_start + i * entry_size)) m) [0..<n] mem"

record mb_state = boot_info +
  mb_width :: nat
  mb_height :: nat
  mb_stride :: nat
  mb_bpp :: nat
  mb_count :: nat
  mb_mem :: "nat \<Rightarrow> u8"

definition mb_init :: "(nat \<Rightarrow> u8) \<Rightarrow> mb_state" where
  "mb_init mem = \<lparr>bi_fb_base = 0, bi_fb_size = 0, bi_mem_map_valid = 0, bi_mem_map_paddr = 0, bi_mem_map_size = 0, bi_mem_desc_size = 0,
     bi_nvme_bar = 0, bi_rsdp_addr = 0, mb_width = 0, mb_height = 0, mb_stride = 0, mb_bpp = 0, mb_count = 0, mb_mem = mem\<rparr>"

definition mmap_count :: "nat \<Rightarrow> nat \<Rightarrow> nat" where
  "mmap_count tag_size entry_size = min (((tag_size + (2 ^ 64 - 16)) mod 2 ^ 64) div entry_size) max_entries"

definition mmap_tag :: "nat \<Rightarrow> nat \<Rightarrow> nat \<Rightarrow> mb_state \<Rightarrow> mb_state" where
  "mmap_tag p tag_size entry_size s =
     (let n = mmap_count tag_size entry_size
      in s\<lparr>mb_mem := convert_map (p + 16) entry_size n (mb_mem s), bi_mem_map_paddr := CONVERTED_MAP_ADDR,
           bi_mem_map_size := n * MEMORY_DESCRIPTOR_SIZE, mb_count := n\<rparr>)"

definition fb_tag :: "nat \<Rightarrow> nat \<Rightarrow> mb_state \<Rightarrow> mb_state" where
  "fb_tag p tag_size s =
     (if tag_size \<ge> 8 + 8 + 4 + 4 + 4 + 1 + 1 + 1
      then s\<lparr>bi_fb_base := le_bytes 8 (mb_mem s) (p + 8), mb_stride := le_bytes 4 (mb_mem s) (p + 16), mb_width := le_bytes 4 (mb_mem s) (p + 20),
             mb_height := le_bytes 4 (mb_mem s) (p + 24), mb_bpp := le_bytes 1 (mb_mem s) (p + 28),
             bi_fb_size := le_bytes 4 (mb_mem s) (p + 16) * le_bytes 4 (mb_mem s) (p + 24)\<rparr>
      else s)"

definition acpi_tag :: "nat \<Rightarrow> mb_state \<Rightarrow> mb_state" where
  "acpi_tag p s = (if bi_rsdp_addr s = 0 then s\<lparr>bi_rsdp_addr := p + 8\<rparr> else s)"

text \<open>The loop over the tags. Every turn moves on by at least eight bytes, so it ends.\<close>

function mb2_loop :: "nat \<Rightarrow> nat \<Rightarrow> nat \<Rightarrow> mb_state \<Rightarrow> mb_state" where
  "mb2_loop mbi size_all offset s =
     (if offset + 8 > size_all then s
      else let p = mbi + offset; tag_type = le_bytes 4 (mb_mem s) p; tag_size = le_bytes 4 (mb_mem s) (p + 4)
           in if tag_type = MB2_TAG_END \<and> tag_size = 8 then s
              else if tag_size < 8 then mb2_loop mbi size_all (offset + 8) s
              else if tag_type = MB2_TAG_MMAP \<and> le_bytes 4 (mb_mem s) (p + 8) < 20 then mb2_loop mbi size_all (offset + align8 tag_size) s
              else mb2_loop mbi size_all (align8 (offset + tag_size))
                     (if tag_type = MB2_TAG_MMAP then mmap_tag p tag_size (le_bytes 4 (mb_mem s) (p + 8)) s
                      else if tag_type = MB2_TAG_FRAMEBUFFER then fb_tag p tag_size s
                      else if tag_type = MB2_TAG_ACPI_OLD \<or> tag_type = MB2_TAG_ACPI_NEW then acpi_tag p s else s))"
  by pat_completeness auto

lemma align8_ge: "n \<le> align8 n"
  by (simp add: align8_def)

termination mb2_loop
proof (relation "measure (\<lambda>(mbi, size_all, offset, s). size_all - offset)", goal_cases)
  case (3 mbi size_all offset s p ty sz)
  then show ?case using align8_ge [of sz] by simp
next
  case (4 mbi size_all offset s p ty sz)
  then show ?case using align8_ge [of "offset + sz"] by simp
qed auto

declare mb2_loop.simps [simp del]

definition multiboot2_entry :: "(nat \<Rightarrow> u8) \<Rightarrow> nat \<Rightarrow> mb_state option" where
  "multiboot2_entry mem mbi =
     (let total_size = le_bytes 4 mem mbi
      in if total_size < 8 then None
         else let s = mb2_loop mbi total_size 8 (mb_init mem)
              in Some (s\<lparr>bi_mem_desc_size := MEMORY_DESCRIPTOR_SIZE, bi_mem_map_valid := if mb_count s > 0 then 0xC0DEF00D else 0\<rparr>))"

section \<open>Reading back what was written\<close>

lemma le_bytes_value: "(\<And>i. i < n \<Longrightarrow> m (a + i) = of_nat (v div 256 ^ i)) \<Longrightarrow> le_bytes n m a = v mod 256 ^ n"
proof (induction n arbitrary: a v)
  case (Suc n)
  have "m (a + 1 + i) = of_nat (v div 256 div 256 ^ i)" if "i < n" for i
    using Suc.prems [of "Suc i"] that by (simp add: div_mult2_eq)
  then have "le_bytes n m (a + 1) = v div 256 mod 256 ^ n" by (rule Suc.IH)
  moreover have "unat (m a) = v mod 256" using Suc.prems [of 0] by (simp add: unat_of_nat)
  ultimately show ?case by (simp add: mod_mult2_eq)
qed simp

lemma write_le_same: "le_bytes n (write_le n p v m) p = v mod 256 ^ n"
  by (rule le_bytes_value) (simp add: write_le_def)

lemma write_le_other: "a + k \<le> p \<or> p + n \<le> a \<Longrightarrow> le_bytes k (write_le n p v m) a = le_bytes k m a"
  by (rule le_bytes_cong) (auto simp: write_le_def)

lemma write_desc_same:
  assumes "ty < 2 ^ 32" "st < 2 ^ 64" "pg < 2 ^ 64"
  shows "read_desc (write_desc p (ty, st, pg) m) p = (ty, st, pg)"
  using assms by (simp add: read_desc_def write_desc_def write_le_other write_le_same)

lemma write_desc_keeps: "a < p \<or> p + 40 \<le> a \<Longrightarrow> write_desc p d m a = m a"
  by (auto simp: write_desc_def write_le_def split: prod.splits)

lemma read_desc_cong: "(\<And>i. i < 32 \<Longrightarrow> m (p + i) = m' (p + i)) \<Longrightarrow> read_desc m p = read_desc m' p"
  unfolding read_desc_def by (auto intro!: le_bytes_cong simp: add.assoc)

text \<open>Two memories agree outside the page of the converted map.\<close>

definition agrees :: "(nat \<Rightarrow> u8) \<Rightarrow> (nat \<Rightarrow> u8) \<Rightarrow> bool" where
  "agrees m m' \<longleftrightarrow> (\<forall>a. a < 0x9000 \<or> 0xA000 \<le> a \<longrightarrow> m' a = m a)"

lemma agrees_le: "agrees m m' \<Longrightarrow> p + n \<le> 0x9000 \<or> 0xA000 \<le> p \<Longrightarrow> le_bytes n m' p = le_bytes n m p"
  by (rule le_bytes_cong) (auto simp: agrees_def)

lemma convert_entry_agrees: "agrees m m' \<Longrightarrow> p + 20 \<le> 0x9000 \<or> 0xA000 \<le> p \<Longrightarrow> convert_entry m' p = convert_entry m p"
  using agrees_le [of m m' p 8] agrees_le [of m m' "p + 8" 8] agrees_le [of m m' "p + 16" 4]
  by (auto simp: convert_entry_def)

lemma convert_entry_bounds: "convert_entry m p = (ty, st, pg) \<Longrightarrow> ty < 2 ^ 32 \<and> st < 2 ^ 64 \<and> pg < 2 ^ 64"
  using le_bytes_bound [of 8 m p]
  by (auto simp: convert_entry_def Let_def EFI_CONVENTIONAL_MEMORY_def wadd_def intro!: order.strict_trans1 [OF div_le_dividend])

lemma convert_map_spec:
  assumes "n \<le> 102" "\<And>i. i < n \<Longrightarrow> es + i * sz + 20 \<le> 0x9000 \<or> 0xA000 \<le> es + i * sz"
  shows "agrees m (convert_map es sz n m) \<and>
    (\<forall>i<n. desc_at (convert_map es sz n m) CONVERTED_MAP_ADDR MEMORY_DESCRIPTOR_SIZE i = convert_entry m (es + i * sz))"
  using assms
proof (induction n)
  case 0
  then show ?case by (simp add: convert_map_def agrees_def)
next
  case (Suc n)
  let ?m = "convert_map es sz n m"
  let ?p = "0x9000 + n * 40"
  have IH: "agrees m ?m" "\<forall>i<n. read_desc ?m (0x9000 + i * 40) = convert_entry m (es + i * sz)"
    using Suc by (auto simp: desc_at_def CONVERTED_MAP_ADDR_def MEMORY_DESCRIPTOR_SIZE_def)
  have m': "convert_map es sz (Suc n) m = write_desc ?p (convert_entry m (es + n * sz)) ?m"
    using convert_entry_agrees [OF IH(1), of "es + n * sz"] Suc.prems(2) [of n]
    by (simp add: convert_map_def CONVERTED_MAP_ADDR_def MEMORY_DESCRIPTOR_SIZE_def)
  have "agrees m (convert_map es sz (Suc n) m)"
    using IH(1) Suc.prems(1) unfolding m' agrees_def by (auto simp: write_desc_keeps)
  moreover have "read_desc (convert_map es sz (Suc n) m) (0x9000 + i * 40) = convert_entry m (es + i * sz)" if "i < Suc n" for i
  proof (cases "i = n")
    case True
    obtain ty st pg where e: "convert_entry m (es + n * sz) = (ty, st, pg)" by (metis prod_cases3)
    with True convert_entry_bounds [OF e] show ?thesis unfolding m' by (simp add: write_desc_same)
  next
    case False
    then have "i < n" using that by simp
    then have "read_desc (write_desc ?p d ?m) (0x9000 + i * 40) = read_desc ?m (0x9000 + i * 40)" for d
      by (intro read_desc_cong write_desc_keeps) auto
    with IH(2) \<open>i < n\<close> show ?thesis unfolding m' by simp
  qed
  ultimately show ?case by (simp add: desc_at_def CONVERTED_MAP_ADDR_def MEMORY_DESCRIPTOR_SIZE_def)
qed

section \<open>The information structure, as the boot loader writes it\<close>

text \<open>
  The tags of the Multiboot2 specification that the parser reads: a memory map with its entry size and its entries \<open>(base, length, type)\<close>,
  a framebuffer with its address, pitch, width, height and depth, a copy of the ACPI root pointer, and any other tag. A tag is padded to
  eight bytes and the last one has type 0 and size 8.
\<close>

datatype mb_tag = TMmap nat "(nat \<times> nat \<times> nat) list" | TFb nat nat nat nat nat nat | TAcpi nat nat | TOther nat nat

fun tag_size :: "mb_tag \<Rightarrow> nat" where
  "tag_size (TMmap sz es) = 16 + sz * length es"
| "tag_size (TFb n base pitch w h bpp) = n"
| "tag_size (TAcpi ty n) = n"
| "tag_size (TOther ty n) = n"

definition entry_at :: "(nat \<Rightarrow> u8) \<Rightarrow> nat \<Rightarrow> nat \<times> nat \<times> nat \<Rightarrow> bool" where
  "entry_at mem p e \<longleftrightarrow> e = (le_bytes 8 mem p, le_bytes 8 mem (p + 8), le_bytes 4 mem (p + 16))"

fun tag_at :: "(nat \<Rightarrow> u8) \<Rightarrow> nat \<Rightarrow> mb_tag \<Rightarrow> bool" where
  "tag_at mem p (TMmap sz es) \<longleftrightarrow> le_bytes 4 mem p = 6 \<and> le_bytes 4 mem (p + 8) = sz \<and> 20 \<le> sz \<and>
     (\<forall>i<length es. entry_at mem (p + 16 + i * sz) (es ! i))"
| "tag_at mem p (TFb n base pitch w h bpp) \<longleftrightarrow> le_bytes 4 mem p = 8 \<and> 31 \<le> n \<and> base = le_bytes 8 mem (p + 8) \<and> pitch = le_bytes 4 mem (p + 16) \<and>
     w = le_bytes 4 mem (p + 20) \<and> h = le_bytes 4 mem (p + 24) \<and> bpp = le_bytes 1 mem (p + 28)"
| "tag_at mem p (TAcpi ty n) \<longleftrightarrow> le_bytes 4 mem p = ty \<and> (ty = 14 \<or> ty = 15) \<and> 8 \<le> n"
| "tag_at mem p (TOther ty n) \<longleftrightarrow> le_bytes 4 mem p = ty \<and> ty \<notin> {0, 6, 8, 14, 15} \<and> 8 \<le> n"

fun tags_at :: "(nat \<Rightarrow> u8) \<Rightarrow> nat \<Rightarrow> mb_tag list \<Rightarrow> bool" where
  "tags_at mem p [] \<longleftrightarrow> le_bytes 4 mem p = 0 \<and> le_bytes 4 mem (p + 4) = 8"
| "tags_at mem p (t # ts) \<longleftrightarrow> tag_at mem p t \<and> le_bytes 4 mem (p + 4) = tag_size t \<and> tags_at mem (p + align8 (tag_size t)) ts"

definition tags_size :: "mb_tag list \<Rightarrow> nat" where
  "tags_size ts = (\<Sum>t\<leftarrow>ts. align8 (tag_size t)) + 8"

fun last_fb :: "mb_tag list \<Rightarrow> (nat \<times> nat \<times> nat \<times> nat \<times> nat) option" where
  "last_fb [] = None"
| "last_fb (t # ts) = (case last_fb ts of Some f \<Rightarrow> Some f | None \<Rightarrow> (case t of TFb n base pitch w h bpp \<Rightarrow> Some (base, pitch, w, h, bpp) | _ \<Rightarrow> None))"

fun last_map :: "mb_tag list \<Rightarrow> (nat \<times> nat \<times> nat) list option" where
  "last_map [] = None"
| "last_map (t # ts) = (case last_map ts of Some es \<Rightarrow> Some es | None \<Rightarrow> (case t of TMmap sz es \<Rightarrow> Some es | _ \<Rightarrow> None))"

fun first_acpi :: "nat \<Rightarrow> mb_tag list \<Rightarrow> nat" where
  "first_acpi p [] = 0"
| "first_acpi p (t # ts) = (case t of TAcpi ty n \<Rightarrow> p + 8 | _ \<Rightarrow> first_acpi (p + align8 (tag_size t)) ts)"

definition entry_desc :: "nat \<times> nat \<times> nat \<Rightarrow> nat \<times> nat \<times> nat" where
  "entry_desc e = (case e of (base, len, ty) \<Rightarrow> (if ty = 1 then 7 else 0, base, (len + 4095) mod 2 ^ 64 div 4096))"

definition fb_fields :: "mb_state \<Rightarrow> nat \<times> nat \<times> nat \<times> nat \<times> nat" where
  "fb_fields s = (bi_fb_base s, mb_stride s, mb_width s, mb_height s, mb_bpp s)"

definition map_fields :: "mb_state \<Rightarrow> (nat \<Rightarrow> u8) \<times> nat \<times> nat \<times> nat" where
  "map_fields s = (mb_mem s, bi_mem_map_paddr s, bi_mem_map_size s, mb_count s)"

definition map_holds :: "(nat \<times> nat \<times> nat) list \<Rightarrow> mb_state \<Rightarrow> bool" where
  "map_holds es s \<longleftrightarrow> mb_count s = min (length es) 102 \<and> bi_mem_map_paddr s = 0x9000 \<and> bi_mem_map_size s = mb_count s * 40 \<and>
     (\<forall>i<mb_count s. desc_at (mb_mem s) 0x9000 40 i = entry_desc (es ! i))"

text \<open>What one tag does to the state, for a tag outside the page of the converted map.\<close>

definition outside :: "nat \<Rightarrow> nat \<Rightarrow> bool" where
  "outside p n \<longleftrightarrow> p + n \<le> 0x9000 \<or> 0xA000 \<le> p"

lemma tag_size_ge: "tag_at mem p t \<Longrightarrow> 8 \<le> tag_size t"
  by (cases t) auto

lemma entry_desc_convert: "entry_at mem p e \<Longrightarrow> convert_entry mem p = entry_desc e"
  by (simp add: entry_at_def entry_desc_def convert_entry_def Let_def MB2_MMAP_AVAILABLE_def EFI_CONVENTIONAL_MEMORY_def wadd_def PAGE_SIZE_def)

lemma mmap_count_tag: "0 < sz \<Longrightarrow> 16 + sz * k < 2 ^ 32 \<Longrightarrow> mmap_count (16 + sz * k) sz = min k 102"
  by (simp add: mmap_count_def max_entries_def CONVERTED_MAP_MAX_BYTES_def MEMORY_DESCRIPTOR_SIZE_def mod_if)

lemma mmap_tag_holds:
  assumes t: "tag_at mem p (TMmap sz es)" and small: "16 + sz * length es < 2 ^ 32"
    and a: "agrees mem (mb_mem s)" and o: "outside p (16 + sz * length es)"
  shows "agrees mem (mb_mem (mmap_tag p (16 + sz * length es) sz s))" "map_holds es (mmap_tag p (16 + sz * length es) sz s)"
proof -
  let ?n = "min (length es) 102"
  have sz: "20 \<le> sz" using t by simp
  have out: "p + 16 + i * sz + 20 \<le> 0x9000 \<or> 0xA000 \<le> p + 16 + i * sz" if "i < ?n" for i
  proof -
    have "Suc i * sz \<le> length es * sz" using that by (intro mult_le_mono1) simp
    then have "i * sz + 20 \<le> sz * length es" using sz by (simp add: mult.commute)
    then show ?thesis using o unfolding outside_def by linarith
  qed
  have n: "mmap_count (16 + sz * length es) sz = ?n" using mmap_count_tag [OF _ small] sz by simp
  have *: "agrees (mb_mem s) (convert_map (p + 16) sz ?n (mb_mem s))"
    "\<And>i. i < ?n \<Longrightarrow> desc_at (convert_map (p + 16) sz ?n (mb_mem s)) 0x9000 40 i = convert_entry (mb_mem s) (p + 16 + i * sz)"
    using convert_map_spec [of ?n "p + 16" sz "mb_mem s"] out by (auto simp: CONVERTED_MAP_ADDR_def MEMORY_DESCRIPTOR_SIZE_def)
  have "convert_entry (mb_mem s) (p + 16 + i * sz) = entry_desc (es ! i)" if "i < ?n" for i
    using convert_entry_agrees [OF a out [OF that]] entry_desc_convert [of mem "p + 16 + i * sz" "es ! i"] t that by simp
  then show "map_holds es (mmap_tag p (16 + sz * length es) sz s)"
    using *(2) by (simp add: mmap_tag_def Let_def n map_holds_def CONVERTED_MAP_ADDR_def MEMORY_DESCRIPTOR_SIZE_def)
  show "agrees mem (mb_mem (mmap_tag p (16 + sz * length es) sz s))"
    using *(1) a by (simp add: mmap_tag_def Let_def n agrees_def)
qed

fun do_tag :: "nat \<Rightarrow> mb_tag \<Rightarrow> mb_state \<Rightarrow> mb_state" where
  "do_tag p (TMmap sz es) s = mmap_tag p (16 + sz * length es) sz s"
| "do_tag p (TFb n base pitch w h bpp) s = fb_tag p n s"
| "do_tag p (TAcpi ty n) s = acpi_tag p s"
| "do_tag p (TOther ty n) s = s"

lemma align8_add: "8 dvd a \<Longrightarrow> align8 (a + n) = a + align8 n"
proof -
  assume "8 dvd a"
  then obtain k where "a = 8 * k" ..
  then have "(a + n + 7) div 8 = k + (n + 7) div 8" using div_mult_self2 [of 8 "n + 7" k] by (simp add: add.assoc add.commute)
  with \<open>a = 8 * k\<close> show ?thesis by (simp add: align8_def)
qed

lemma align8_dvd: "8 dvd align8 n"
  by (simp add: align8_def)

lemma mb2_loop_tag:
  assumes t: "tag_at mem (mbi + off) t" and ts: "le_bytes 4 mem (mbi + off + 4) = tag_size t" and a: "agrees mem (mb_mem s)"
    and o: "outside (mbi + off) (tag_size t)" and off: "8 dvd off" "off + 8 \<le> n"
  shows "mb2_loop mbi n off s = mb2_loop mbi n (off + align8 (tag_size t)) (do_tag (mbi + off) t s)"
proof -
  let ?p = "mbi + off"
  have ge: "8 \<le> tag_size t" using t by (rule tag_size_ge)
  have rd: "le_bytes 4 (mb_mem s) ?p = le_bytes 4 mem ?p" "le_bytes 4 (mb_mem s) (?p + 4) = tag_size t"
    using agrees_le [OF a, of ?p 4] agrees_le [OF a, of "?p + 4" 4] o ge ts by (auto simp: outside_def)
  have sz: "le_bytes 4 (mb_mem s) (?p + 8) = le_bytes 4 mem (?p + 8)" if "12 \<le> tag_size t"
    using agrees_le [OF a, of "?p + 8" 4] o that by (auto simp: outside_def)
  show ?thesis
    using t ge rd sz off by (subst mb2_loop.simps) (cases t; auto simp: Let_def mb2_consts align8_add add.assoc)
qed

lemma do_tag_agrees:
  assumes "tag_at mem p t" "tag_size t < 2 ^ 32" "agrees mem (mb_mem s)" "outside p (tag_size t)"
  shows "agrees mem (mb_mem (do_tag p t s))"
  using assms mmap_tag_holds(1) [of mem p _ _ s] by (cases t) (auto simp: fb_tag_def acpi_tag_def)

lemma do_tag_fb:
  assumes "tag_at mem p t" "agrees mem (mb_mem s)" "outside p (tag_size t)"
  shows "fb_fields (do_tag p t s) = (case t of TFb n base pitch w h bpp \<Rightarrow> (base, pitch, w, h, bpp) | _ \<Rightarrow> fb_fields s)"
proof (cases t)
  case (TFb n base pitch w h bpp)
  have "le_bytes k (mb_mem s) (p + j) = le_bytes k mem (p + j)" if "j + k \<le> 31" for j k
    using agrees_le [OF assms(2), of "p + j" k] assms TFb that by (auto simp: outside_def)
  note rd = this
  have "mb_mem s (p + 28) = mem (p + 28)" using assms TFb by (auto simp: agrees_def outside_def)
  then show ?thesis using assms(1) TFb rd by (simp add: fb_tag_def fb_fields_def)
qed (simp_all add: mmap_tag_def Let_def acpi_tag_def fb_fields_def)

lemma do_tag_size: "bi_fb_size s = mb_stride s * mb_height s \<Longrightarrow> bi_fb_size (do_tag p t s) = mb_stride (do_tag p t s) * mb_height (do_tag p t s)"
  by (cases t) (simp_all add: mmap_tag_def Let_def acpi_tag_def fb_tag_def)

lemma do_tag_rsdp: "bi_rsdp_addr (do_tag p t s) = (if bi_rsdp_addr s = 0 then (case t of TAcpi ty n \<Rightarrow> p + 8 | _ \<Rightarrow> 0) else bi_rsdp_addr s)"
  by (cases t) (simp_all add: mmap_tag_def Let_def acpi_tag_def fb_tag_def)

lemma do_tag_map: "\<forall>sz es. t \<noteq> TMmap sz es \<Longrightarrow> map_fields (do_tag p t s) = map_fields s"
  by (cases t) (simp_all add: acpi_tag_def fb_tag_def map_fields_def)

lemma map_holds_fields: "map_fields s = map_fields s' \<Longrightarrow> map_holds es s = map_holds es s'"
  by (simp add: map_fields_def map_holds_def)

text \<open>What the parser must have found after the tags \<open>ts\<close> at \<open>p\<close>, from the state \<open>s\<close>.\<close>

definition reads_tags :: "(nat \<Rightarrow> u8) \<Rightarrow> nat \<Rightarrow> mb_tag list \<Rightarrow> mb_state \<Rightarrow> mb_state \<Rightarrow> bool" where
  "reads_tags mem p ts s s' \<longleftrightarrow> agrees mem (mb_mem s') \<and> bi_fb_size s' = mb_stride s' * mb_height s' \<and>
     fb_fields s' = (case last_fb ts of Some f \<Rightarrow> f | None \<Rightarrow> fb_fields s) \<and>
     bi_rsdp_addr s' = (if bi_rsdp_addr s = 0 then first_acpi p ts else bi_rsdp_addr s) \<and>
     (case last_map ts of Some es \<Rightarrow> map_holds es s' | None \<Rightarrow> map_fields s' = map_fields s)"

lemma reads_tags_Cons:
  assumes t: "tag_at mem p t" "tag_size t < 2 ^ 32" "outside p (tag_size t)" and a: "agrees mem (mb_mem s)"
    and r: "reads_tags mem (p + align8 (tag_size t)) ts (do_tag p t s) s'"
  shows "reads_tags mem p (t # ts) s s'"
proof -
  have m: "map_holds es (do_tag p t s)" if "t = TMmap sz es" for sz es
    using mmap_tag_holds(2) [of mem p sz es s] t a that by simp
  have fb: "fb_fields s' = (case last_fb (t # ts) of Some f \<Rightarrow> f | None \<Rightarrow> fb_fields s)"
    using r do_tag_fb [OF t(1) a t(3)] by (cases t) (auto simp: reads_tags_def split: option.splits)
  have rs: "bi_rsdp_addr s' = (if bi_rsdp_addr s = 0 then first_acpi p (t # ts) else bi_rsdp_addr s)"
    using r do_tag_rsdp [of p t s] by (cases t) (auto simp: reads_tags_def)
  have mp: "case last_map (t # ts) of Some es \<Rightarrow> map_holds es s' | None \<Rightarrow> map_fields s' = map_fields s"
  proof (cases "last_map ts")
    case None
    then have "map_fields s' = map_fields (do_tag p t s)" using r by (simp add: reads_tags_def)
    note f = this
    have "map_holds es s'" if "t = TMmap sz es" for sz es using m [OF that] map_holds_fields [OF f] by simp
    with f None show ?thesis using do_tag_map [of t p s] by (cases t) simp_all
  qed (use r in \<open>simp add: reads_tags_def\<close>)
  show ?thesis using fb rs mp r by (simp add: reads_tags_def)
qed

lemma mb2_loop_tags:
  assumes "tags_at mem (mbi + off) ts" "agrees mem (mb_mem s)" "outside (mbi + off) (tags_size ts)" "8 dvd off"
    "off + tags_size ts = n" "n < 2 ^ 32" "bi_fb_size s = mb_stride s * mb_height s"
  shows "reads_tags mem (mbi + off) ts s (mb2_loop mbi n off s)"
  using assms
proof (induction ts arbitrary: off s)
  case Nil
  have rd: "le_bytes 4 (mb_mem s) (mbi + off) = 0" "le_bytes 4 (mb_mem s) (mbi + off + 4) = 8"
    using agrees_le [OF Nil(2), of "mbi + off" 4] agrees_le [OF Nil(2), of "mbi + off + 4" 4] Nil(1,3) by (auto simp: outside_def tags_size_def)
  have "mb2_loop mbi n off s = s"
    by (subst mb2_loop.simps) (simp add: rd MB2_TAG_END_def Let_def)
  then show ?case using Nil by (simp add: reads_tags_def)
next
  case (Cons t ts)
  let ?k = "align8 (tag_size t)"
  have n: "tags_size (t # ts) = ?k + tags_size ts" by (simp add: tags_size_def)
  have k: "tag_size t \<le> ?k" by (rule align8_ge)
  have t: "tag_at mem (mbi + off) t" "le_bytes 4 mem (mbi + off + 4) = tag_size t" "tags_at mem (mbi + off + ?k) ts" using Cons.prems(1) by auto
  have o: "outside (mbi + off) (tag_size t)" "outside (mbi + (off + ?k)) (tags_size ts)" "tag_size t < 2 ^ 32" "off + 8 \<le> n"
    using Cons.prems(3,5,6) n k unfolding outside_def tags_size_def by (auto simp: tags_size_def)
  have "reads_tags mem (mbi + (off + ?k)) ts (do_tag (mbi + off) t s) (mb2_loop mbi n (off + ?k) (do_tag (mbi + off) t s))"
    using Cons.prems n t o align8_dvd do_tag_agrees [OF t(1) o(3) Cons.prems(2) o(1)] do_tag_size
    by (intro Cons.IH) (auto simp: add.assoc)
  then show ?case
    using reads_tags_Cons [OF t(1) o(3) o(1) Cons.prems(2)] mb2_loop_tag [OF t(1,2) Cons.prems(2) o(1) Cons.prems(4) o(4)]
    by (simp add: add.assoc)
qed

section \<open>Properties\<close>

lemma multiboot2_entry_reads:
  assumes tot: "le_bytes 4 mem mbi = 8 + tags_size ts" and ts: "tags_at mem (mbi + 8) ts" and out: "outside (mbi + 8) (tags_size ts)"
  obtains s where "multiboot2_entry mem mbi = Some (s\<lparr>bi_mem_desc_size := 40, bi_mem_map_valid := if mb_count s > 0 then 0xC0DEF00D else 0\<rparr>)"
    "reads_tags mem (mbi + 8) ts (mb_init mem) s"
proof -
  have "8 + tags_size ts < 2 ^ 32" using le_bytes_bound [of 4 mem mbi] tot by simp
  then have "reads_tags mem (mbi + 8) ts (mb_init mem) (mb2_loop mbi (8 + tags_size ts) 8 (mb_init mem))"
    using ts out by (intro mb2_loop_tags) (auto simp: mb_init_def agrees_def)
  then show ?thesis using tot that by (simp add: multiboot2_entry_def Let_def MEMORY_DESCRIPTOR_SIZE_def)
qed


text \<open>A structure at \<open>0x10000\<close> with a framebuffer of 1024 by 768, a map of one range of 16 MiB at 32 MiB, a root pointer and the end tag.\<close>

definition sample_mbi :: "nat \<Rightarrow> u8" where
  "sample_mbi a = (if a < 0x10000 then 0 else if a - 0x10000 < 120 then
     ([120,0,0,0, 0,0,0,0,
       8,0,0,0, 32,0,0,0, 0,0,0,0xC0,0,0,0,0, 0,16,0,0, 0,4,0,0, 0,3,0,0, 32,1,0,0,
       6,0,0,0, 40,0,0,0, 24,0,0,0, 0,0,0,0, 0,0,0,2,0,0,0,0, 0,0,0,1,0,0,0,0, 1,0,0,0, 0,0,0,0,
       14,0,0,0, 28,0,0,0, 0,0,0,0, 0,0,0,0, 0,0,0,0, 0,0,0,0, 0,0,0,0, 0,0,0,0,
       0,0,0,0, 8,0,0,0] ! (a - 0x10000)) else 0)"

definition sample_tags :: "mb_tag list" where
  "sample_tags = [TFb 32 0xC0000000 4096 1024 768 32, TMmap 24 [(0x2000000, 0x1000000, 1)], TAcpi 14 28]"

lemma sample_reads:
  "le_bytes 4 sample_mbi 0x10000 = 8 + tags_size sample_tags" "tags_at sample_mbi (0x10000 + 8) sample_tags" "outside (0x10000 + 8) (tags_size sample_tags)"
  by (simp_all add: sample_mbi_def sample_tags_def tags_size_def align8_def entry_at_def outside_def le_bytes_numeral)


end
