(* ===== verification/Display_Protocol.thy ===== *)
theory Display_Protocol
  imports Ps2 Syscalls "HOL-Library.Signed_Division"
begin

text \<open>
  What the programs of the desktop share: the key codes and the display-protocol payload of
  \<open>lib/src/lib.rs\<close>, \<open>i32\<close> arithmetic, and the system calls a program makes, as values. A program is
  modelled as a function on its own state that also returns the calls it makes, in order; results the program
  looks at are arguments.
\<close>

section \<open>Signed 32-bit arithmetic\<close>

text \<open>\<open>i32\<close> values are integers; \<open>i32\<close> reduces a result to the range of the type. Since it is a ring homomorphism it
  is applied where a value is stored, compared or divided.\<close>

definition i32 :: "int \<Rightarrow> int" where
  "i32 k = signed_take_bit 31 k"

lemma i32_id: "- (2 ^ 31) \<le> k \<Longrightarrow> k < 2 ^ 31 \<Longrightarrow> i32 k = k"
  unfolding i32_def by (rule signed_take_bit_int_eq_self)

lemma i32_small: "\<bar>k\<bar> < 1000000000 \<Longrightarrow> i32 k = k"
  by (rule i32_id) auto

lemma i32_pos: "0 \<le> k \<Longrightarrow> k < 1000000000 \<Longrightarrow> i32 k = k"
  by (rule i32_small) auto

lemma i32_bounds: "- 2147483648 \<le> i32 k" "i32 k < 2147483648"
  using signed_take_bit_int_greater_eq_minus_exp [of 31 k] signed_take_bit_int_less_exp [of 31 k]
  by (simp_all add: i32_def)

text \<open>\<open>a / b\<close> truncates towards zero; on the positive numbers of the layouts it is \<open>div\<close>.\<close>

lemma sdiv_pos: "0 \<le> a \<Longrightarrow> 0 < b \<Longrightarrow> a sdiv b = a div (b :: int)"
  by (cases "a = 0") (simp_all add: signed_divide_int_def sgn_if)

section \<open>Key codes\<close>

definition KEY_ENTER :: u8 where "KEY_ENTER = 5"
definition KEY_ESC :: u8 where "KEY_ESC = 6"
definition KEY_BACKSPACE :: u8 where "KEY_BACKSPACE = 7"
definition KEY_TAB :: u8 where "KEY_TAB = 8"
definition KEY_SPACE :: u8 where "KEY_SPACE = 9"
definition KEY_1 :: u8 where "KEY_1 = 20"
definition KEY_9 :: u8 where "KEY_9 = 28"
definition KEY_0 :: u8 where "KEY_0 = 29"
definition KEY_A :: u8 where "KEY_A = 30"
definition KEY_B :: u8 where "KEY_B = 31"
definition KEY_C :: u8 where "KEY_C = 32"
definition KEY_D :: u8 where "KEY_D = 33"
definition KEY_E :: u8 where "KEY_E = 34"
definition KEY_F :: u8 where "KEY_F = 35"
definition KEY_G :: u8 where "KEY_G = 36"
definition KEY_H :: u8 where "KEY_H = 37"
definition KEY_J :: u8 where "KEY_J = 39"
definition KEY_K :: u8 where "KEY_K = 40"
definition KEY_L :: u8 where "KEY_L = 41"
definition KEY_Q :: u8 where "KEY_Q = 46"
definition KEY_T :: u8 where "KEY_T = 49"
definition KEY_V :: u8 where "KEY_V = 51"
definition KEY_Z :: u8 where "KEY_Z = 55"
definition KEY_MINUS :: u8 where "KEY_MINUS = 56"
definition KEY_EQUAL :: u8 where "KEY_EQUAL = 57"
definition KEY_COMMA :: u8 where "KEY_COMMA = 58"
definition KEY_PERIOD :: u8 where "KEY_PERIOD = 59"
definition KEY_SLASH :: u8 where "KEY_SLASH = 60"
definition KEY_SEMI :: u8 where "KEY_SEMI = 61"
definition KEY_QUOTE :: u8 where "KEY_QUOTE = 62"
definition KEY_LBRACE :: u8 where "KEY_LBRACE = 63"
definition KEY_RBRACE :: u8 where "KEY_RBRACE = 64"
definition KEY_BSLASH :: u8 where "KEY_BSLASH = 65"
definition KEY_GRAVE :: u8 where "KEY_GRAVE = 66"

lemmas key_codes = KEY_ENTER_def KEY_ESC_def KEY_BACKSPACE_def KEY_TAB_def KEY_SPACE_def KEY_1_def KEY_9_def KEY_0_def
  KEY_A_def KEY_B_def KEY_C_def KEY_D_def KEY_E_def KEY_F_def KEY_G_def KEY_H_def KEY_J_def KEY_K_def KEY_L_def KEY_Q_def
  KEY_T_def KEY_V_def KEY_Z_def KEY_MINUS_def KEY_EQUAL_def KEY_COMMA_def KEY_PERIOD_def KEY_SLASH_def KEY_SEMI_def
  KEY_QUOTE_def KEY_LBRACE_def KEY_RBRACE_def KEY_BSLASH_def KEY_GRAVE_def KEY_MOD_def KEY_SHIFT_def KEY_CTRL_def

section \<open>The payload of display messages\<close>

definition RDP_CONNECT :: u8 where "RDP_CONNECT = 0x50"
definition RDP_GRANT :: u8 where "RDP_GRANT = 0x51"
definition RDP_COMMIT :: u8 where "RDP_COMMIT = 0x52"
definition RDP_RESIZE :: u8 where "RDP_RESIZE = 0x53"
definition RDP_KEY :: u8 where "RDP_KEY = 0x54"
definition RDP_FOCUS :: u8 where "RDP_FOCUS = 0x55"
definition RDP_CLOSE :: u8 where "RDP_CLOSE = 0x56"
definition RDP_DISCONNECT :: u8 where "RDP_DISCONNECT = 0x57"
definition RDP_PRESENT_DONE :: u8 where "RDP_PRESENT_DONE = 0x58"

lemmas rdp_types = RDP_CONNECT_def RDP_GRANT_def RDP_COMMIT_def RDP_RESIZE_def RDP_KEY_def RDP_FOCUS_def
  RDP_CLOSE_def RDP_DISCONNECT_def RDP_PRESENT_DONE_def

text \<open>\<open>x\<close> and \<open>y\<close> are \<open>i32\<close>, kept here as the words that are transmitted.\<close>

record payload_rdp =
  rdp_surface_id :: u32
  rdp_x :: u32
  rdp_y :: u32
  rdp_width :: u32
  rdp_height :: u32
  rdp_flags :: u32
  rdp_key_code :: u32
  rdp_key_state :: u32
  rdp_title :: "u8 list"

definition payload_rdp_zero :: payload_rdp where
  "payload_rdp_zero = \<lparr>rdp_surface_id = 0, rdp_x = 0, rdp_y = 0, rdp_width = 0, rdp_height = 0, rdp_flags = 0,
     rdp_key_code = 0, rdp_key_state = 0, rdp_title = replicate 24 0\<rparr>"

definition u32_bytes :: "u32 \<Rightarrow> u8 list" where
  "u32_bytes v = map (byte_of v) [0..<4]"

definition encode_rdp :: "payload_rdp \<Rightarrow> u8 list" where
  "encode_rdp r = u32_bytes (rdp_surface_id r) @ u32_bytes (rdp_x r) @ u32_bytes (rdp_y r) @ u32_bytes (rdp_width r) @
     u32_bytes (rdp_height r) @ u32_bytes (rdp_flags r) @ u32_bytes (rdp_key_code r) @ u32_bytes (rdp_key_state r) @
     rdp_title r"

definition decode_rdp :: "u8 list \<Rightarrow> payload_rdp" where
  "decode_rdp bs =
     (let word = \<lambda>off. load32 off (\<lambda>i. bs ! i)
      in \<lparr>rdp_surface_id = word 0, rdp_x = word 4, rdp_y = word 8, rdp_width = word 12, rdp_height = word 16,
          rdp_flags = word 20, rdp_key_code = word 24, rdp_key_state = word 28, rdp_title = take 24 (drop 32 bs)\<rparr>)"

definition rdp_msg :: "u8 \<Rightarrow> u16 \<Rightarrow> payload_rdp \<Rightarrow> rwm_msg" where
  "rdp_msg ty sq p = RwmMsg_ZERO\<lparr>msg_type := ty, msg_seq := sq, payload := encode_rdp p\<rparr>"

text \<open>\<open>title[..n].copy_from_slice(&s[..n])\<close> on a zeroed title, \<open>n = s.len().min(23)\<close>.\<close>

definition title_bytes :: "u8 list \<Rightarrow> u8 list" where
  "title_bytes s = take 23 s @ replicate (24 - length (take 23 s)) 0"

definition title_of :: "u8 list \<Rightarrow> u8 list" where
  "title_of t = takeWhile (\<lambda>b. b \<noteq> 0) t"

lemma length_title_bytes [simp]: "length (title_bytes s) = 24"
  by (simp add: title_bytes_def)

lemma title_of_title_bytes: "0 \<notin> set s \<Longrightarrow> title_of (title_bytes s) = take 23 s"
  unfolding title_of_def title_bytes_def
  by (subst takeWhile_append2) (auto dest: in_set_takeD simp: takeWhile_eq_Nil_iff)

lemma length_u32_bytes [simp]: "length (u32_bytes v) = 4"
  by (simp add: u32_bytes_def)

lemma length_encode_rdp [simp]: "length (rdp_title r) = 24 \<Longrightarrow> length (encode_rdp r) = 56"
  by (simp add: encode_rdp_def)

lemma nth_u32_bytes [simp]: "i < 4 \<Longrightarrow> u32_bytes v ! i = byte_of v i"
  by (simp add: u32_bytes_def)

lemma load32_u32_bytes:
  "length pre = a \<Longrightarrow> load32 a (\<lambda>i. (pre @ u32_bytes v @ post) ! i) = v"
  by (rule load32_byte_of) (simp add: nth_append)

lemma decode_encode_rdp: "length (rdp_title r) = 24 \<Longrightarrow> decode_rdp (encode_rdp r) = r"
proof -
  let ?a = "u32_bytes (rdp_surface_id r)" and ?b = "u32_bytes (rdp_x r)" and ?c = "u32_bytes (rdp_y r)"
    and ?d = "u32_bytes (rdp_width r)" and ?e = "u32_bytes (rdp_height r)" and ?f = "u32_bytes (rdp_flags r)"
    and ?g = "u32_bytes (rdp_key_code r)" and ?h = "u32_bytes (rdp_key_state r)" and ?t = "rdp_title r"
  assume "length ?t = 24"
  then show ?thesis
    using load32_u32_bytes [of "[]" 0 "rdp_surface_id r" "?b @ ?c @ ?d @ ?e @ ?f @ ?g @ ?h @ ?t"]
      load32_u32_bytes [of ?a 4 "rdp_x r" "?c @ ?d @ ?e @ ?f @ ?g @ ?h @ ?t"]
      load32_u32_bytes [of "?a @ ?b" 8 "rdp_y r" "?d @ ?e @ ?f @ ?g @ ?h @ ?t"]
      load32_u32_bytes [of "?a @ ?b @ ?c" 12 "rdp_width r" "?e @ ?f @ ?g @ ?h @ ?t"]
      load32_u32_bytes [of "?a @ ?b @ ?c @ ?d" 16 "rdp_height r" "?f @ ?g @ ?h @ ?t"]
      load32_u32_bytes [of "?a @ ?b @ ?c @ ?d @ ?e" 20 "rdp_flags r" "?g @ ?h @ ?t"]
      load32_u32_bytes [of "?a @ ?b @ ?c @ ?d @ ?e @ ?f" 24 "rdp_key_code r" "?h @ ?t"]
      load32_u32_bytes [of "?a @ ?b @ ?c @ ?d @ ?e @ ?f @ ?g" 28 "rdp_key_state r" ?t]
    by (simp add: decode_rdp_def encode_rdp_def Let_def)
qed

lemma decode_rdp_msg: "length (rdp_title p) = 24 \<Longrightarrow> decode_rdp (payload (rdp_msg ty sq p)) = p"
  by (simp add: rdp_msg_def decode_encode_rdp)

section \<open>System calls made by a program\<close>

datatype ucall =
    FbClear u32
  | FbFillRect u32 u32 u32 u32 u32
  | FbFlush
  | SurfaceCommit u32 u32 u32
  | SurfaceSetZ u32 u8
  | SurfaceCreate
  | SurfaceDestroy u32
  | SurfaceAttach u32 u64 u32 u32 u32
  | IpcSend u32 rwm_msg
  | WriteLog "u8 list"
  | GetCompositorPid
  | Spawn u32
  | Reboot u64
  | Exit u64

text \<open>Bytes of a string literal.\<close>

definition bytes :: "string \<Rightarrow> u8 list" where
  "bytes s = map of_char s"

section \<open>The pixel font\<close>

text \<open>Glyphs of the characters from 0x20 to 0x7E, six rows of four pixels in 24 bits; the table is the same in
  \<open>wm.rs\<close> and \<open>terminal.rs\<close>.\<close>

definition FONT :: "u32 list" where
  "FONT = [
    0x000000, 0x020222, 0x00000A, 0x0AFAFA, 0x07861E, 0x094B26, 0x0D6664, 0x000002,
    0x042112, 0x021224, 0x000A5A, 0x002720, 0x012000, 0x000600, 0x020000, 0x001248,
    0x69BD96, 0x4C444E, 0x69124F, 0xE1611E, 0x26AF22, 0xF8E11E, 0x68E996, 0xF12244,
    0x696996, 0x697116, 0x006060, 0x012060, 0x042124, 0x00F0F0, 0x042412, 0x020210,
    0x69BB86, 0x099F96, 0x079797, 0x0E111E, 0x079997, 0x0F171F, 0x01171F, 0x0E9D1E,
    0x099F99, 0x072227, 0x06544E, 0x095359, 0x0F1111, 0x0999F9, 0x099DB9, 0x069996,
    0x011797, 0x0ED996, 0x095797, 0x07861E, 0x02222F, 0x069999, 0x066999, 0x06F999,
    0x096669, 0x022269, 0x0F124F, 0x644446, 0x884211, 0x622226, 0x000096, 0x0F0000,
    0x000004, 0x099F96, 0x079797, 0x0E111E, 0x079997, 0x0F171F, 0x01171F, 0x0E9D1E,
    0x099F99, 0x072227, 0x06544E, 0x095359, 0x0F1111, 0x0999F9, 0x099DB9, 0x069996,
    0x011797, 0x0ED996, 0x095797, 0x07861E, 0x02222F, 0x069999, 0x066999, 0x06F999,
    0x096669, 0x022269, 0x0F124F, 0x026226, 0x444444, 0x064426, 0x00050A]"

definition FONT_W :: nat where "FONT_W = 4"
definition FONT_H :: nat where "FONT_H = 6"

definition glyph_bits :: "u8 \<Rightarrow> u32" where
  "glyph_bits ch = (if ch < 0x20 \<or> ch > 0x7E then 0 else FONT ! unat (ch - 0x20))"

text \<open>\<open>while col < FONT_W && (row_bits >> col) & 1 == 1 { col += 1; }\<close>\<close>

function run_end :: "u32 \<Rightarrow> nat \<Rightarrow> nat" where
  "run_end row_bits col =
     (if col < FONT_W \<and> drop_bit col row_bits AND 1 = 1 then run_end row_bits (col + 1) else col)"
  by auto
termination by (relation "measure (\<lambda>(_, col). FONT_W - col)") auto

declare run_end.simps [simp del]

lemma run_end_ge: "col \<le> run_end row_bits col"
proof (induction row_bits col rule: run_end.induct)
  case (1 row_bits col)
  then show ?case using run_end.simps [of row_bits col] by auto
qed

lemma run_end_gt: "col < FONT_W \<Longrightarrow> drop_bit col row_bits AND 1 = 1 \<Longrightarrow> col < run_end row_bits col"
  using run_end.simps [of row_bits col] run_end_ge [of "col + 1" row_bits] by auto

text \<open>The runs of set pixels of a row: first column and width.\<close>

function row_runs :: "u32 \<Rightarrow> nat \<Rightarrow> (nat \<times> nat) list" where
  "row_runs row_bits col =
     (if col < FONT_W then
        (if drop_bit col row_bits AND 1 = 1 then
           (col, run_end row_bits col - col) # row_runs row_bits (run_end row_bits col)
         else row_runs row_bits (col + 1))
      else [])"
  by auto
termination
proof (relation "measure (\<lambda>(_, col). FONT_W - col)", goal_cases)
  case (2 row_bits col)
  then show ?case using run_end_gt [of col row_bits] by auto
qed auto

declare row_runs.simps [simp del]

end
