(* ===== verification/Wm.thy ===== *)
theory Wm
  imports Display_Protocol
begin

text \<open>
  The window manager \<open>userland/src/bin/wm.rs\<close>: the table of windows, tags, focus and the seven layouts. The state
  is the record \<open>wm\<close>, the methods of \<open>Wm\<close> are functions on it. A layout computes a list of placements, in the
  order in which the loops of the source write them, and \<open>arrange\<close> writes them into the table.
\<close>

section \<open>State\<close>

definition SCREEN_W :: u32 where "SCREEN_W = 1920"
definition SCREEN_H :: u32 where "SCREEN_H = 1080"
definition BAR_H :: u32 where "BAR_H = 22"
definition BORDER :: u32 where "BORDER = 2"
definition TITLE_H :: u32 where "TITLE_H = 14"
definition GAP :: int where "GAP = 6"
definition MAX_WIN :: nat where "MAX_WIN = 16"
definition TAG_CNT :: nat where "TAG_CNT = 9"

datatype layout = Tile | Monocle | Grid | BStack | Spiral | Dwindle | CenteredMaster

fun symbol :: "layout \<Rightarrow> u8 list" where
  "symbol Tile = bytes ''[]=''"
| "symbol Monocle = bytes ''[M]''"
| "symbol Grid = bytes ''HHH''"
| "symbol BStack = bytes ''TTT''"
| "symbol Spiral = bytes ''[@]''"
| "symbol Dwindle = [0x5B, 0x5C, 0x5D]"
| "symbol CenteredMaster = bytes ''|M|''"

fun next_layout :: "layout \<Rightarrow> layout" where
  "next_layout Tile = Monocle"
| "next_layout Monocle = Grid"
| "next_layout Grid = BStack"
| "next_layout BStack = Spiral"
| "next_layout Spiral = Dwindle"
| "next_layout Dwindle = CenteredMaster"
| "next_layout CenteredMaster = Tile"

fun prev_layout_of :: "layout \<Rightarrow> layout" where
  "prev_layout_of Tile = CenteredMaster"
| "prev_layout_of Monocle = Tile"
| "prev_layout_of Grid = Monocle"
| "prev_layout_of BStack = Grid"
| "prev_layout_of Spiral = BStack"
| "prev_layout_of Dwindle = Spiral"
| "prev_layout_of CenteredMaster = Dwindle"

text \<open>\<open>x\<close> and \<open>y\<close> are \<open>i32\<close>, the sizes \<open>u32\<close>.\<close>

record client =
  c_alive :: bool
  c_tags :: u32
  c_x :: int
  c_y :: int
  c_w :: u32
  c_h :: u32
  c_floating :: bool
  c_fullscreen :: bool
  c_saved_x :: int
  c_saved_y :: int
  c_saved_w :: u32
  c_saved_h :: u32
  c_prog_id :: u8
  c_pid :: u32
  c_surface_id :: u32
  c_title :: "u8 list"
  c_title_len :: nat
  c_notified_cw :: u32
  c_notified_ch :: u32

definition client_empty :: client where
  "client_empty = \<lparr>c_alive = False, c_tags = 0, c_x = 0, c_y = 0, c_w = 0, c_h = 0, c_floating = False,
     c_fullscreen = False, c_saved_x = 0, c_saved_y = 0, c_saved_w = 0, c_saved_h = 0, c_prog_id = 0, c_pid = 0,
     c_surface_id = 0, c_title = replicate 20 0, c_title_len = 0, c_notified_cw = 0, c_notified_ch = 0\<rparr>"

definition set_title :: "u8 list \<Rightarrow> client \<Rightarrow> client" where
  "set_title s c =
     (let n = min (length s) (length (c_title c))
      in c\<lparr>c_title := take n s @ drop n (c_title c), c_title_len := n\<rparr>)"

definition shown_title :: "client \<Rightarrow> u8 list" where
  "shown_title c = take (c_title_len c) (c_title c)"

record wm =
  clients :: "client list"
  wm_n :: nat
  focused :: nat
  tagset :: "u32 list"
  sel_tags_idx :: nat
  wm_layout :: layout
  prev_layout :: layout
  nmaster :: nat
  mfact :: nat
  gaps_on :: bool
  show_bar :: bool
  wm_sw :: u32
  wm_sh :: u32
  mod_dn :: bool
  shift_dn :: bool
  ctrl_dn :: bool
  dirty :: bool
  mouse_x :: int
  mouse_y :: int
  mouse_btn :: u8
  drag_idx :: "nat option"
  drag_ox :: int
  drag_oy :: int

definition wm_new :: wm where
  "wm_new = \<lparr>clients = replicate MAX_WIN client_empty, wm_n = 0, focused = 0, tagset = [1, 1], sel_tags_idx = 0,
     wm_layout = Tile, prev_layout = Tile, nmaster = 1, mfact = 55, gaps_on = True, show_bar = True,
     wm_sw = SCREEN_W, wm_sh = SCREEN_H, mod_dn = False, shift_dn = False, ctrl_dn = False, dirty = True,
     mouse_x = 0, mouse_y = 0, mouse_btn = 0, drag_idx = None, drag_ox = 0, drag_oy = 0\<rparr>"

definition sel_tags :: "wm \<Rightarrow> u32" where
  "sel_tags s = tagset s ! sel_tags_idx s"

definition upd_client :: "nat \<Rightarrow> (client \<Rightarrow> client) \<Rightarrow> wm \<Rightarrow> wm" where
  "upd_client i f s = s\<lparr>clients := (clients s)[i := f (clients s ! i)]\<rparr>"

section \<open>Windows\<close>

definition new_client :: "u32 \<Rightarrow> u8 \<Rightarrow> u8 list \<Rightarrow> client" where
  "new_client tags prog_id title =
     set_title title (client_empty\<lparr>c_alive := True, c_tags := tags, c_prog_id := prog_id\<rparr>)"

fun find_index :: "('a \<Rightarrow> bool) \<Rightarrow> 'a list \<Rightarrow> nat option" where
  "find_index P [] = None"
| "find_index P (x # xs) = (if P x then Some 0 else map_option Suc (find_index P xs))"

definition add_client :: "u8 \<Rightarrow> u8 list \<Rightarrow> wm \<Rightarrow> nat \<times> wm" where
  "add_client prog_id title s =
     (let c = new_client (sel_tags s) prog_id title
      in case find_index (\<lambda>c. \<not> c_alive c) (clients s) of
           Some i \<Rightarrow> (i, s\<lparr>clients := (clients s)[i := c], wm_n := wm_n s + 1\<rparr>)
         | None \<Rightarrow>
             (let fallback = (focused s + 1) mod MAX_WIN
              in (fallback, s\<lparr>clients := (clients s)[fallback := c]\<rparr>)))"

definition is_visible :: "wm \<Rightarrow> nat \<Rightarrow> bool" where
  "is_visible s i \<longleftrightarrow> c_alive (clients s ! i) \<and> c_tags (clients s ! i) AND sel_tags s \<noteq> 0"

definition visible_count :: "wm \<Rightarrow> nat" where
  "visible_count s = length (filter (is_visible s) [0..<MAX_WIN])"

definition visible_tiled :: "wm \<Rightarrow> nat list" where
  "visible_tiled s = filter (\<lambda>i. is_visible s i \<and> \<not> c_floating (clients s ! i) \<and> \<not> c_fullscreen (clients s ! i))
     [0..<MAX_WIN]"

definition next_visible :: "wm \<Rightarrow> nat \<Rightarrow> nat" where
  "next_visible s from =
     (let start = (from + 1) mod MAX_WIN
      in case List.find (is_visible s) (map (\<lambda>off. (start + off) mod MAX_WIN) [0..<MAX_WIN]) of
           Some i \<Rightarrow> i | None \<Rightarrow> from)"

definition prev_visible :: "wm \<Rightarrow> nat \<Rightarrow> nat" where
  "prev_visible s from =
     (case List.find (is_visible s) (map (\<lambda>off. (from + MAX_WIN - off) mod MAX_WIN) [1..<MAX_WIN + 1]) of
        Some i \<Rightarrow> i | None \<Rightarrow> from)"

definition remove_client :: "nat \<Rightarrow> wm \<Rightarrow> wm" where
  "remove_client idx s =
     (if idx \<ge> MAX_WIN \<or> \<not> c_alive (clients s ! idx) then s
      else let s1 = s\<lparr>clients := (clients s)[idx := client_empty], wm_n := (if wm_n s > 0 then wm_n s - 1 else wm_n s)\<rparr>
           in if focused s1 = idx then s1\<lparr>focused := next_visible s1 idx\<rparr> else s1)"

section \<open>Focus, tags and toggles\<close>

definition focus_next :: "wm \<Rightarrow> wm" where
  "focus_next s = s\<lparr>focused := next_visible s (focused s)\<rparr>"

definition focus_prev :: "wm \<Rightarrow> wm" where
  "focus_prev s = s\<lparr>focused := prev_visible s (focused s)\<rparr>"

definition zoom :: "wm \<Rightarrow> wm" where
  "zoom s =
     (let tiled = visible_tiled s
      in if length tiled < 2 then s
         else let (master_idx, other_idx) = (if tiled ! 0 = focused s then (tiled ! 1, tiled ! 0) else (focused s, tiled ! 0));
                  tmp = c_tags (clients s ! master_idx);
                  s1 = upd_client master_idx (\<lambda>c. c\<lparr>c_tags := c_tags (clients s ! other_idx)\<rparr>) s;
                  s2 = upd_client other_idx (\<lambda>c. c\<lparr>c_tags := tmp\<rparr>) s1;
                  ta = clients s2 ! master_idx;
                  tb = clients s2 ! other_idx
              in s2\<lparr>clients := ((clients s2)[master_idx := tb])[other_idx := ta], focused := other_idx\<rparr>)"

definition refocus :: "wm \<Rightarrow> wm" where
  "refocus s = (if \<not> is_visible s (focused s) then s\<lparr>focused := next_visible s (focused s)\<rparr> else s)"

definition other_idx :: "nat \<Rightarrow> nat" where
  "other_idx i = (if i = 0 then 1 else 0)"

definition view_tag :: "u32 \<Rightarrow> wm \<Rightarrow> wm" where
  "view_tag tag_bit s =
     (let i = other_idx (sel_tags_idx s)
      in refocus (s\<lparr>sel_tags_idx := i, tagset := (tagset s)[i := tag_bit]\<rparr>))"

definition toggle_view :: "u32 \<Rightarrow> wm \<Rightarrow> wm" where
  "toggle_view tag_bit s =
     (let new_tags = sel_tags s XOR tag_bit
      in refocus (if new_tags \<noteq> 0 then s\<lparr>tagset := (tagset s)[sel_tags_idx s := new_tags]\<rparr> else s))"

definition view_prev_tag :: "wm \<Rightarrow> wm" where
  "view_prev_tag s = refocus (s\<lparr>sel_tags_idx := other_idx (sel_tags_idx s)\<rparr>)"

definition toggle_client_tag :: "nat \<Rightarrow> u32 \<Rightarrow> wm \<Rightarrow> wm" where
  "toggle_client_tag idx tag_bit s =
     (if idx < MAX_WIN \<and> c_alive (clients s ! idx) then
        (let new_tags = c_tags (clients s ! idx) XOR tag_bit
         in if new_tags \<noteq> 0 then upd_client idx (\<lambda>c. c\<lparr>c_tags := new_tags\<rparr>) s else s)
      else s)"

definition move_to_tag :: "nat \<Rightarrow> u32 \<Rightarrow> wm \<Rightarrow> wm" where
  "move_to_tag idx tag_bit s =
     (if idx < MAX_WIN \<and> c_alive (clients s ! idx) then upd_client idx (\<lambda>c. c\<lparr>c_tags := tag_bit\<rparr>) s else s)"

definition toggle_layout :: "wm \<Rightarrow> wm" where
  "toggle_layout s = s\<lparr>wm_layout := prev_layout s, prev_layout := wm_layout s\<rparr>"

definition toggle_fullscreen :: "nat \<Rightarrow> wm \<Rightarrow> wm" where
  "toggle_fullscreen idx s =
     (if \<not> c_alive (clients s ! idx) then s
      else upd_client idx (\<lambda>c.
        let c1 = (if \<not> c_fullscreen c
                  then c\<lparr>c_saved_x := c_x c, c_saved_y := c_y c, c_saved_w := c_w c, c_saved_h := c_h c,
                         c_x := 0, c_y := 0, c_w := wm_sw s, c_h := wm_sh s\<rparr>
                  else c\<lparr>c_x := c_saved_x c, c_y := c_saved_y c, c_w := c_saved_w c, c_h := c_saved_h c\<rparr>)
        in c1\<lparr>c_fullscreen := \<not> c_fullscreen c\<rparr>) s)"

definition toggle_floating :: "nat \<Rightarrow> wm \<Rightarrow> wm" where
  "toggle_floating idx s = (if idx < MAX_WIN then upd_client idx (\<lambda>c. c\<lparr>c_floating := \<not> c_floating c\<rparr>) s else s)"

section \<open>Layouts\<close>

text \<open>A window with its new position and size: \<open>c.x = x; c.y = y; c.w = w.max(1) as u32; c.h = h.max(1) as u32\<close>.\<close>

datatype placement = Place (target: nat) (px: int) (py: int) (pw: int) (ph: int)

definition place :: "placement \<Rightarrow> client list \<Rightarrow> client list" where
  "place p cs = cs[target p := (cs ! target p)\<lparr>c_x := px p, c_y := py p,
     c_w := word_of_int (max 1 (pw p)), c_h := word_of_int (max 1 (ph p))\<rparr>]"

text \<open>\<open>(total - gap * (n - 1)) / n\<close>, and zero for no windows.\<close>

definition each :: "int \<Rightarrow> int \<Rightarrow> nat \<Rightarrow> int" where
  "each len gap n = (if n > 0 then i32 (i32 (len - gap * (int n - 1)) sdiv int n) else 0)"

text \<open>The loop over the windows of a column from top to bottom; the last one takes what is left.\<close>

fun column :: "int \<Rightarrow> int \<Rightarrow> int \<Rightarrow> int \<Rightarrow> int \<Rightarrow> int \<Rightarrow> nat list \<Rightarrow> placement list" where
  "column x w h_each stop gap my [] = []"
| "column x w h_each stop gap my (ci # t) =
     (let h = (if t = [] then i32 (stop - my) else h_each)
      in Place ci x my w h # column x w h_each stop gap (i32 (my + h + gap)) t)"

fun row :: "int \<Rightarrow> int \<Rightarrow> int \<Rightarrow> int \<Rightarrow> int \<Rightarrow> int \<Rightarrow> nat list \<Rightarrow> placement list" where
  "row y h w_each stop gap mx [] = []"
| "row y h w_each stop gap mx (ci # t) =
     (let w = (if t = [] then i32 (stop - mx) else w_each)
      in Place ci mx y w h # row y h w_each stop gap (i32 (mx + w + gap)) t)"

definition arrange_tile :: "nat \<Rightarrow> nat \<Rightarrow> nat list \<Rightarrow> int \<Rightarrow> int \<Rightarrow> int \<Rightarrow> int \<Rightarrow> int \<Rightarrow> placement list" where
  "arrange_tile nmast mf t wx wy ww wh gap =
     (let n = length t; nm = min nmast n; ns = n - nm;
          mw = (if nm = 0 \<or> ns = 0 then ww else i32 (ww * i32 (int mf)) sdiv 100);
          sw = (if ns > 0 then i32 (ww - mw - gap) else 0)
      in column wx mw (each wh gap nm) (i32 (wy + wh)) gap wy (take nm t) @
         column (i32 (wx + mw + gap)) sw (each wh gap ns) (i32 (wy + wh)) gap wy (drop nm t))"

definition arrange_monocle :: "nat list \<Rightarrow> int \<Rightarrow> int \<Rightarrow> int \<Rightarrow> int \<Rightarrow> placement list" where
  "arrange_monocle t wx wy ww wh = map (\<lambda>ci. Place ci wx wy ww wh) t"

text \<open>\<open>while cols * cols < n { cols += 1; }\<close>\<close>

function grid_cols :: "nat \<Rightarrow> nat \<Rightarrow> nat" where
  "grid_cols cols n = (if cols * cols < n then grid_cols (cols + 1) n else cols)"
  by auto
termination
proof (relation "measure (\<lambda>(cols, n). n - cols)")
  fix cols n :: nat
  assume "cols * cols < n"
  then have "cols < n" using le_square [of cols] by linarith
  then show "((cols + 1, n), cols, n) \<in> measure (\<lambda>(cols, n). n - cols)" by auto
qed simp

declare grid_cols.simps [simp del]

definition arrange_grid :: "nat list \<Rightarrow> int \<Rightarrow> int \<Rightarrow> int \<Rightarrow> int \<Rightarrow> int \<Rightarrow> placement list" where
  "arrange_grid t wx wy ww wh gap =
     (let n = length t; cols = grid_cols 1 n; rows = (n + cols - 1) div cols;
          cw = i32 (ww - gap * (int cols - 1)) sdiv int cols;
          ch = i32 (wh - gap * (int rows - 1)) sdiv int rows
      in map (\<lambda>(i, ci). Place ci (i32 (wx + int (i mod cols) * (cw + gap))) (i32 (wy + int (i div cols) * (ch + gap))) cw ch)
           (zip [0..<n] t))"

definition arrange_bstack :: "nat \<Rightarrow> nat \<Rightarrow> nat list \<Rightarrow> int \<Rightarrow> int \<Rightarrow> int \<Rightarrow> int \<Rightarrow> int \<Rightarrow> placement list" where
  "arrange_bstack nmast mf t wx wy ww wh gap =
     (let n = length t; nm = min nmast n; ns = n - nm;
          mh = (if nm = 0 \<or> ns = 0 then wh else i32 (wh * i32 (int mf)) sdiv 100);
          sh = (if ns > 0 then i32 (wh - mh - gap) else 0)
      in row wy mh (each ww gap nm) (i32 (wx + ww)) gap wx (take nm t) @
         row (i32 (wy + mh + gap)) sh (each ww gap ns) (i32 (wx + ww)) gap wx (drop nm t))"

text \<open>The index \<open>i\<close> of the loop decides the direction of the split.\<close>

fun spiral :: "nat \<Rightarrow> nat list \<Rightarrow> int \<Rightarrow> int \<Rightarrow> int \<Rightarrow> int \<Rightarrow> int \<Rightarrow> placement list" where
  "spiral i [] cx cy cw ch gap = []"
| "spiral i [ci] cx cy cw ch gap = [Place ci cx cy cw ch]"
| "spiral i (ci # t) cx cy cw ch gap =
     (if even i then
        (let half = i32 (ch - gap) sdiv 2
         in Place ci cx cy cw half # spiral (i + 1) t cx (i32 (cy + half + gap)) cw (i32 (ch - (half + gap))) gap)
      else
        (let half = i32 (cw - gap) sdiv 2
         in Place ci cx cy half ch # spiral (i + 1) t (i32 (cx + half + gap)) cy (i32 (cw - (half + gap))) ch gap))"

fun dwindle :: "nat \<Rightarrow> nat list \<Rightarrow> int \<Rightarrow> int \<Rightarrow> int \<Rightarrow> int \<Rightarrow> int \<Rightarrow> placement list" where
  "dwindle i [] cx cy cw ch gap = []"
| "dwindle i [ci] cx cy cw ch gap = [Place ci cx cy cw ch]"
| "dwindle i (ci # t) cx cy cw ch gap =
     (if even i then
        (let half = i32 (ch - gap) sdiv 2
         in Place ci cx (i32 (cy + half + gap)) cw (i32 (ch - half - gap)) # dwindle (i + 1) t cx cy cw half gap)
      else
        (let half = i32 (cw - gap) sdiv 2
         in Place ci (i32 (cx + half + gap)) cy (i32 (cw - half - gap)) ch # dwindle (i + 1) t cx cy half ch gap))"

text \<open>The loop over the stack of the centred layout; even positions go to the left, odd ones to the right.\<close>

fun both_sides :: "int \<Rightarrow> int \<Rightarrow> int \<Rightarrow> int \<Rightarrow> int \<Rightarrow> int \<Rightarrow> int \<Rightarrow> nat \<Rightarrow> nat \<Rightarrow>
    bool \<Rightarrow> int \<Rightarrow> nat \<Rightarrow> int \<Rightarrow> nat \<Rightarrow> nat list \<Rightarrow> placement list" where
  "both_sides lx rx w lh rh stop gap left_n right_n left ly li ry ri [] = []"
| "both_sides lx rx w lh rh stop gap left_n right_n left ly li ry ri (ci # t) =
     (if left then
        (let h = (if li + 1 = left_n then i32 (stop - ly) else lh)
         in Place ci lx ly w h # both_sides lx rx w lh rh stop gap left_n right_n False (i32 (ly + h + gap)) (li + 1) ry ri t)
      else
        (let h = (if ri + 1 = right_n then i32 (stop - ry) else rh)
         in Place ci rx ry w h # both_sides lx rx w lh rh stop gap left_n right_n True ly li (i32 (ry + h + gap)) (ri + 1) t))"

definition arrange_centeredmaster :: "nat \<Rightarrow> nat \<Rightarrow> nat list \<Rightarrow> int \<Rightarrow> int \<Rightarrow> int \<Rightarrow> int \<Rightarrow> int \<Rightarrow> placement list" where
  "arrange_centeredmaster nmast mf t wx wy ww wh gap =
     (let n = length t; nm = min nmast n; ns = n - nm
      in if ns = 0 then arrange_tile nmast mf t wx wy ww wh gap
         else let mw = i32 (ww * i32 (int mf)) sdiv 100;
                  side_w = i32 (ww - mw - gap * 2) sdiv 2;
                  mx = i32 (wx + side_w + gap);
                  left_n = (ns + 1) div 2; right_n = ns div 2
              in column mx mw (each wh gap nm) (i32 (wy + wh)) gap wy (take nm t) @
                 both_sides wx (i32 (mx + mw + gap)) side_w (each wh gap left_n) (each wh gap right_n) (i32 (wy + wh)) gap
                   left_n right_n True wy 0 wy 0 (drop nm t))"

text \<open>The work area: the screen without the bar and the outer gap.\<close>

definition wm_gap :: "wm \<Rightarrow> int" where
  "wm_gap s = (if gaps_on s then GAP else 0)"

definition bar_offset :: "wm \<Rightarrow> int" where
  "bar_offset s = (if show_bar s then sint BAR_H else 0)"

definition placements :: "wm \<Rightarrow> placement list" where
  "placements s =
     (let t = visible_tiled s; gap = wm_gap s;
          wx = gap; wy = i32 (bar_offset s + gap);
          ww = i32 (sint (wm_sw s) - gap * 2); wh = i32 (sint (wm_sh s) - bar_offset s - gap * 2)
      in if t = [] then []
         else case wm_layout s of
                Tile \<Rightarrow> arrange_tile (nmaster s) (mfact s) t wx wy ww wh gap
              | Monocle \<Rightarrow> arrange_monocle t wx wy ww wh
              | Grid \<Rightarrow> arrange_grid t wx wy ww wh gap
              | BStack \<Rightarrow> arrange_bstack (nmaster s) (mfact s) t wx wy ww wh gap
              | Spiral \<Rightarrow> spiral 0 t wx wy ww wh gap
              | Dwindle \<Rightarrow> dwindle 0 t wx wy ww wh gap
              | CenteredMaster \<Rightarrow> arrange_centeredmaster (nmaster s) (mfact s) t wx wy ww wh gap)"

definition arrange :: "wm \<Rightarrow> wm" where
  "arrange s = s\<lparr>clients := fold place (placements s) (clients s)\<rparr>"

end
