(* ===== verification/Wm_Layout.thy ===== *)
theory Wm_Layout
  imports Wm
begin

text \<open>
  Geometry of the layouts: the windows of a layout lie inside the work area and do not overlap. The loops over
  columns and rows are treated once; the layouts are put together from them.
\<close>

section \<open>Rectangles\<close>

definition inside :: "int \<Rightarrow> int \<Rightarrow> int \<Rightarrow> int \<Rightarrow> placement \<Rightarrow> bool" where
  "inside x y w h p \<longleftrightarrow> x \<le> px p \<and> px p + pw p \<le> x + w \<and> y \<le> py p \<and> py p + ph p \<le> y + h \<and> 1 \<le> pw p \<and> 1 \<le> ph p"

definition apart :: "placement \<Rightarrow> placement \<Rightarrow> bool" where
  "apart p q \<longleftrightarrow> px p + pw p \<le> px q \<or> px q + pw q \<le> px p \<or> py p + ph p \<le> py q \<or> py q + ph q \<le> py p"

definition tiles :: "int \<Rightarrow> int \<Rightarrow> int \<Rightarrow> int \<Rightarrow> placement list \<Rightarrow> bool" where
  "tiles x y w h ps \<longleftrightarrow> (\<forall>p\<in>set ps. inside x y w h p) \<and> (\<forall>p\<in>set ps. \<forall>q\<in>set ps. target p \<noteq> target q \<longrightarrow> apart p q)"

definition flip :: "placement \<Rightarrow> placement" where
  "flip p = Place (target p) (py p) (px p) (ph p) (pw p)"

text \<open>The shares of a spiral stay at least one pixel wide and high.\<close>

fun spiral_fits :: "nat \<Rightarrow> nat \<Rightarrow> int \<Rightarrow> int \<Rightarrow> int \<Rightarrow> bool" where
  "spiral_fits i 0 cw ch gap = True"
| "spiral_fits i (Suc 0) cw ch gap = (1 \<le> cw \<and> 1 \<le> ch)"
| "spiral_fits i (Suc (Suc n)) cw ch gap =
     (if even i then (let half = (ch - gap) div 2 in 1 \<le> half \<and> spiral_fits (i + 1) (Suc n) cw (ch - (half + gap)) gap)
      else (let half = (cw - gap) div 2 in 1 \<le> half \<and> spiral_fits (i + 1) (Suc n) (cw - (half + gap)) ch gap))"

fun dwindle_fits :: "nat \<Rightarrow> nat \<Rightarrow> int \<Rightarrow> int \<Rightarrow> int \<Rightarrow> bool" where
  "dwindle_fits i 0 cw ch gap = True"
| "dwindle_fits i (Suc 0) cw ch gap = (1 \<le> cw \<and> 1 \<le> ch)"
| "dwindle_fits i (Suc (Suc n)) cw ch gap =
     (if even i then (let half = (ch - gap) div 2 in 1 \<le> half \<and> dwindle_fits (i + 1) (Suc n) cw half gap)
      else (let half = (cw - gap) div 2 in 1 \<le> half \<and> dwindle_fits (i + 1) (Suc n) half ch gap))"

fun alternate :: "bool \<Rightarrow> 'a list \<Rightarrow> 'a list" where
  "alternate b [] = []"
| "alternate b (x # xs) = (if b then x # alternate False xs else alternate True xs)"

lemma apart_sym: "apart p q \<longleftrightarrow> apart q p"
  by (auto simp: apart_def)

lemma apart_flip [simp]: "apart (flip p) (flip q) \<longleftrightarrow> apart p q"
  by (auto simp: apart_def flip_def)

lemma inside_flip [simp]: "inside x y w h (flip p) \<longleftrightarrow> inside y x h w p"
  by (auto simp: inside_def flip_def)

lemma target_flip [simp]: "target (flip p) = target p"
  by (simp add: flip_def)

lemma tiles_flip [simp]: "tiles x y w h (map flip ps) \<longleftrightarrow> tiles y x h w ps"
  by (auto simp: tiles_def)

lemma tiles_cong: "set ps = set qs \<Longrightarrow> tiles x y w h ps \<longleftrightarrow> tiles x y w h qs"
  by (simp add: tiles_def)

lemma tiles_Nil [simp]: "tiles x y w h []"
  by (simp add: tiles_def)

lemma inside_mono:
  "inside x y w h p \<Longrightarrow> x' \<le> x \<Longrightarrow> x + w \<le> x' + w' \<Longrightarrow> y' \<le> y \<Longrightarrow> y + h \<le> y' + h' \<Longrightarrow> inside x' y' w' h' p"
  by (auto simp: inside_def)

lemma tiles_mono:
  "tiles x y w h ps \<Longrightarrow> x' \<le> x \<Longrightarrow> x + w \<le> x' + w' \<Longrightarrow> y' \<le> y \<Longrightarrow> y + h \<le> y' + h' \<Longrightarrow> tiles x' y' w' h' ps"
  unfolding tiles_def by (meson inside_mono)

text \<open>Two tiled areas next to each other.\<close>

lemma tiles_beside:
  assumes "tiles x y w h ps" "tiles x' y h' k qs" "x + w \<le> x'"
  shows "p \<in> set ps \<Longrightarrow> q \<in> set qs \<Longrightarrow> apart p q"
  using assms by (fastforce simp: tiles_def inside_def apart_def)

lemma tiles_append:
  assumes "tiles x y w h ps" "tiles x y w h qs" "\<And>p q. p \<in> set ps \<Longrightarrow> q \<in> set qs \<Longrightarrow> apart p q"
  shows "tiles x y w h (ps @ qs)"
  using assms apart_sym by (auto simp: tiles_def)

lemma tiles_Cons:
  assumes "inside x y w h p" "tiles x y w h qs" "\<And>q. q \<in> set qs \<Longrightarrow> apart p q"
  shows "tiles x y w h (p # qs)"
  using assms apart_sym by (auto simp: tiles_def)

lemma tiles_single [simp]: "1 \<le> w \<Longrightarrow> 1 \<le> h \<Longrightarrow> tiles x y w h [Place c x y w h]"
  by (simp add: tiles_def inside_def)

section \<open>Columns and rows\<close>

lemma each_ok:
  assumes "0 < n" "0 \<le> gap" "int n + gap * (int n - 1) \<le> len" "len < 100000000"
  shows "1 \<le> each len gap n" "int n * each len gap n + (int n - 1) * gap \<le> len" "each len gap n \<le> len"
proof -
  let ?r = "len - gap * (int n - 1)"
  have g: "0 \<le> gap * (int n - 1)" using assms by (intro mult_nonneg_nonneg) auto
  have r: "int n \<le> ?r" "?r \<le> len" using assms(3) g by auto
  have q: "1 \<le> ?r div int n" using r assms(1) zdiv_mono1 [of "int n" ?r "int n"] by simp
  have m: "int n * (?r div int n) \<le> ?r" using mult_div_mod_eq [of "int n" ?r] pos_mod_sign [of "int n" ?r] assms(1) by linarith
  have "1 * (?r div int n) \<le> int n * (?r div int n)" using q assms(1) by (intro mult_right_mono) auto
  with m have d: "?r div int n \<le> ?r" by simp
  have "i32 ?r = ?r" by (rule i32_pos) (use r g assms in linarith)+
  moreover have "i32 (?r div int n) = ?r div int n" by (rule i32_pos) (use r d q assms in linarith)+
  ultimately have e: "each len gap n = ?r div int n" using assms(1) r by (simp add: each_def sdiv_pos)
  show "1 \<le> each len gap n" unfolding e by (rule q)
  show "int n * each len gap n + (int n - 1) * gap \<le> len" unfolding e using m by (simp add: algebra_simps)
  show "each len gap n \<le> len" unfolding e using d r by simp
qed

lemma column_bounds:
  assumes "0 \<le> gap" "1 \<le> e" "0 \<le> my" "stop < 100000000" "gap < 1000" "1 \<le> w"
    and "my + int (length t) * e + (int (length t) - 1) * gap \<le> stop"
  shows "tiles x my w (stop - my) (column x w e stop gap my t)"
  using assms(3,7)
proof (induction t arbitrary: my)
  case (Cons c t)
  show ?case
  proof (cases "t = []")
    case True
    with Cons.prems assms have "i32 (stop - my) = stop - my" by (intro i32_small) auto
    with True Cons.prems assms show ?thesis by (auto simp: tiles_def inside_def)
  next
    case False
    then obtain k where k: "length t = Suc k" by (cases t) auto
    have le: "0 \<le> int k * e" "0 \<le> int k * gap" using assms by auto
    have room: "my + e + gap + int (length t) * e + (int (length t) - 1) * gap \<le> stop"
      using Cons.prems(2) by (simp add: algebra_simps)
    then have room': "my + e + gap + (e + int k * e + int k * gap) \<le> stop" using k by (simp add: algebra_simps)
    with le assms Cons.prems(1) have "\<bar>my + e + gap\<bar> < 1000000000" by linarith
    then have i: "i32 (my + e + gap) = my + e + gap" by (rule i32_small)
    have "tiles x (my + e + gap) w (stop - (my + e + gap)) (column x w e stop gap (my + e + gap) t)"
      using Cons.IH [of "my + e + gap"] Cons.prems(1) room assms by simp
    note below = this
    have "my + e \<le> stop" using room' le assms by linarith
    with assms have "inside x my w (stop - my) (Place c x my w e)" by (simp add: inside_def)
    moreover have "tiles x my w (stop - my) (column x w e stop gap (my + e + gap) t)"
      by (rule tiles_mono [OF below]) (use assms in auto)
    moreover have "apart (Place c x my w e) q" if "q \<in> set (column x w e stop gap (my + e + gap) t)" for q
      using that below assms by (fastforce simp: tiles_def inside_def apart_def)
    ultimately show ?thesis using False i by (simp add: tiles_Cons)
  qed
qed simp

lemma column_tiles:
  assumes "0 \<le> gap" "gap < 1000" "0 \<le> y" "1 \<le> w" "y + h < 100000000" "t \<noteq> [] \<Longrightarrow> int (length t) + gap * (int (length t) - 1) \<le> h"
    and "n = length t"
  shows "tiles x y w h (column x w (each h gap n) (y + h) gap y t)"
proof (cases "t = []")
  case False
  with assms have n: "0 < n" by simp
  note e = each_ok [OF n assms(1), of h]
  have "h < 100000000" using assms by simp
  with assms False have "1 \<le> each h gap n" "int n * each h gap n + (int n - 1) * gap \<le> h" using e by auto
  then show ?thesis using column_bounds [of gap "each h gap n" y "y + h" w t x] assms by auto
qed simp

lemma row_flip: "row y h e stop gap mx t = map flip (column y h e stop gap mx t)"
  by (induction t arbitrary: mx) (simp_all add: flip_def Let_def)

lemma row_tiles:
  assumes "0 \<le> gap" "gap < 1000" "0 \<le> x" "1 \<le> h" "x + w < 100000000" "t \<noteq> [] \<Longrightarrow> int (length t) + gap * (int (length t) - 1) \<le> w"
    and "n = length t"
  shows "tiles x y w h (row y h (each w gap n) (x + w) gap x t)"
  using column_tiles [OF assms] by (simp add: row_flip)

lemma column_targets [simp]: "map target (column x w e stop gap my t) = t"
  by (induction t arbitrary: my) (simp_all add: Let_def)

lemma row_targets [simp]: "map target (row y h e stop gap mx t) = t"
  by (simp add: row_flip comp_def)

section \<open>The layouts\<close>

text \<open>\<open>ww * mfact / 100\<close>: a share of at least a pixel that leaves at least a tenth.\<close>

lemma master_share:
  assumes "100 \<le> len" "len \<le> 1000000" "10 \<le> mf" "mf \<le> 90"
  defines "m \<equiv> i32 (len * i32 (int mf)) sdiv 100"
  shows "1 \<le> m" "10 * m \<le> 9 * len"
proof -
  have "len * 10 \<le> len * int mf" "len * int mf \<le> len * 90" using assms by (intro mult_left_mono; simp)+
  moreover have "i32 (int mf) = int mf" using assms by (intro i32_small) simp
  moreover have "i32 (len * int mf) = len * int mf" by (rule i32_pos) (use calculation(1,2) assms in linarith)+
  ultimately have "m = len * int mf div 100" using assms by (simp add: m_def sdiv_pos)
  with \<open>len * 10 \<le> len * int mf\<close> \<open>len * int mf \<le> len * 90\<close> assms show "1 \<le> m" "10 * m \<le> 9 * len" by linarith+
qed

lemma tile_tiles:
  assumes "0 \<le> wx" "0 \<le> wy" "100 \<le> ww" "wx + ww \<le> 1000000" "wy + wh \<le> 1000000" "0 \<le> gap" "gap \<le> 9"
    and "10 \<le> mf" "mf \<le> 90" "0 < nmast" "int (length t) * (gap + 1) \<le> wh"
  shows "tiles wx wy ww wh (arrange_tile nmast mf t wx wy ww wh gap)"
proof -
  let ?nm = "min nmast (length t)"
  let ?ns = "length t - ?nm"
  have fit: "int k + gap * (int k - 1) \<le> wh" if "k \<le> length t" for k
  proof -
    have "int k * (gap + 1) \<le> int (length t) * (gap + 1)" using that assms by (intro mult_right_mono) auto
    with assms show ?thesis by (simp add: algebra_simps)
  qed
  have stop: "i32 (wy + wh) = wy + wh" using assms fit [of 0] by (intro i32_small) simp
  show ?thesis
  proof (cases "?ns = 0 \<or> t = []")
    case True
    then have "?ns = 0" "take ?nm t = t" "drop ?nm t = []" by (auto simp: min_def)
    with stop assms fit show ?thesis
      by (auto simp: arrange_tile_def Let_def intro!: column_tiles)
  next
    case False
    define mw where "mw = i32 (ww * i32 (int mf)) sdiv 100"
    have m: "1 \<le> mw" "10 * mw \<le> 9 * ww" unfolding mw_def using assms by (auto intro!: master_share)
    have nm: "?nm \<noteq> 0" using False assms(10) by simp
    have i: "i32 (ww - mw - gap) = ww - mw - gap" "i32 (wx + mw + gap) = wx + mw + gap"
      using m assms by (auto intro!: i32_small)
    let ?l = "column wx mw (each wh gap ?nm) (wy + wh) gap wy (take ?nm t)"
    let ?r = "column (wx + mw + gap) (ww - mw - gap) (each wh gap ?ns) (wy + wh) gap wy (drop ?nm t)"
    have eq: "arrange_tile nmast mf t wx wy ww wh gap = ?l @ ?r"
      using nm False stop i by (simp add: arrange_tile_def Let_def flip: mw_def)
    have l: "tiles wx wy mw wh ?l" using assms m fit by (intro column_tiles) auto
    have r: "tiles (wx + mw + gap) wy (ww - mw - gap) wh ?r" using assms m fit [of ?ns] by (intro column_tiles) auto
    show ?thesis unfolding eq
    proof (rule tiles_append)
      show "tiles wx wy ww wh ?l" by (rule tiles_mono [OF l]) (use m assms in auto)
      show "tiles wx wy ww wh ?r" by (rule tiles_mono [OF r]) (use m assms in auto)
      show "apart p q" if "p \<in> set ?l" "q \<in> set ?r" for p q
        by (rule tiles_beside [OF l r _ that]) (use assms in auto)
    qed
  qed
qed

lemma bstack_flip:
  "arrange_bstack nmast mf t wx wy ww wh gap = map flip (arrange_tile nmast mf t wy wx wh ww gap)"
  by (simp add: arrange_bstack_def arrange_tile_def Let_def row_flip add.commute)

lemma bstack_tiles:
  assumes "0 \<le> wx" "0 \<le> wy" "100 \<le> wh" "wx + ww \<le> 1000000" "wy + wh \<le> 1000000" "0 \<le> gap" "gap \<le> 9"
    and "10 \<le> mf" "mf \<le> 90" "0 < nmast" "int (length t) * (gap + 1) \<le> ww"
  shows "tiles wx wy ww wh (arrange_bstack nmast mf t wx wy ww wh gap)"
  using assms by (simp add: bstack_flip tile_tiles)

lemma tile_targets [simp]: "map target (arrange_tile nmast mf t wx wy ww wh gap) = t"
  by (simp add: arrange_tile_def Let_def)

lemma bstack_targets [simp]: "map target (arrange_bstack nmast mf t wx wy ww wh gap) = t"
  by (simp add: bstack_flip comp_def)

lemma grid_cols_ge: "n \<le> grid_cols c n * grid_cols c n \<and> c \<le> grid_cols c n"
proof (induction c n rule: grid_cols.induct)
  case (1 c n)
  then show ?case using grid_cols.simps [of c n] by (cases "c * c < n") auto
qed

lemma grid_cols_le: "1 \<le> c \<Longrightarrow> c \<le> n \<Longrightarrow> grid_cols c n \<le> n"
proof (induction c n rule: grid_cols.induct)
  case (1 c n)
  then have "c < n" if "c * c < n" using that by (metis le_square linorder_not_le order.trans)
  with 1 show ?case by (subst grid_cols.simps) auto
qed

lemma cell_bounds:
  fixes len gap :: int
  assumes "0 < k" "int k * (gap + 1) \<le> len" "len < 1000000" "0 \<le> gap"
  defines "c \<equiv> i32 (len - gap * (int k - 1)) sdiv int k"
  shows "1 \<le> c" "int k * (c + gap) \<le> len + gap"
proof -
  have r: "int k + gap * (int k - 1) \<le> len" using assms by (simp add: algebra_simps)
  have "each len gap k = i32 c" using assms by (simp add: each_def)
  moreover have e: "1 \<le> each len gap k" "int k * each len gap k + (int k - 1) * gap \<le> len" "each len gap k \<le> len"
    using each_ok [of k gap len] assms r by auto
  moreover have "c = i32 c"
  proof -
    have "0 \<le> gap * (int k - 1)" using assms by (intro mult_nonneg_nonneg) auto
    then have i: "i32 (len - gap * (int k - 1)) = len - gap * (int k - 1)" using r assms by (intro i32_pos) linarith+
    have c: "c = (len - gap * (int k - 1)) div int k" unfolding c_def i using assms r by (intro sdiv_pos) linarith+
    have "(len - gap * (int k - 1)) div int k \<le> (len - gap * (int k - 1)) div 1"
      using assms r by (intro zdiv_mono2) linarith+
    then have "c \<le> len - gap * (int k - 1)" using c by simp
    then have "c < 1000000000" using assms(3) \<open>0 \<le> gap * (int k - 1)\<close> by linarith
    moreover have "0 \<le> c" unfolding c using assms r by (simp add: pos_imp_zdiv_nonneg_iff)
    ultimately show ?thesis by (simp add: i32_pos)
  qed
  ultimately show "1 \<le> c" "int k * (c + gap) \<le> len + gap" by (simp_all add: algebra_simps)
qed

text \<open>Positions in one dimension: the \<open>i\<close>-th of \<open>k\<close> cells.\<close>

lemma cell_position:
  fixes c gap :: int
  assumes "int k * (c + gap) \<le> len + gap" "1 \<le> c" "0 \<le> gap" "i < k" "0 \<le> o1" "o1 + len \<le> 1000000"
  shows "i32 (o1 + int i * (c + gap)) = o1 + int i * (c + gap)"
    "o1 \<le> o1 + int i * (c + gap)" "o1 + int i * (c + gap) + c \<le> o1 + len"
proof -
  have a: "0 \<le> int i * (c + gap)" using assms by simp
  have "(int i + 1) * (c + gap) \<le> int k * (c + gap)" using assms by (intro mult_right_mono) auto
  then have b: "int i * (c + gap) + c \<le> len" using assms by (simp add: algebra_simps)
  show "i32 (o1 + int i * (c + gap)) = o1 + int i * (c + gap)" by (rule i32_pos) (use a b assms in linarith)+
  show "o1 \<le> o1 + int i * (c + gap)" "o1 + int i * (c + gap) + c \<le> o1 + len" using a b by auto
qed

lemma cells_apart: "i < j \<Longrightarrow> 0 \<le> c + gap \<Longrightarrow> 0 \<le> gap \<Longrightarrow> (o1 :: int) + int i * (c + gap) + c \<le> o1 + int j * (c + gap)"
proof -
  assume a: "i < j" "0 \<le> c + gap" "0 \<le> gap"
  then have "(int i + 1) * (c + gap) \<le> int j * (c + gap)" by (intro mult_right_mono) auto
  with a show ?thesis by (simp add: algebra_simps)
qed

lemma grid_tiles:
  assumes "0 \<le> wx" "0 \<le> wy" "wx + ww \<le> 900000" "wy + wh \<le> 900000" "0 \<le> gap" "t \<noteq> []"
    and "int (length t) * (gap + 1) \<le> ww" "int (length t) * (gap + 1) \<le> wh"
  shows "tiles wx wy ww wh (arrange_grid t wx wy ww wh gap)"
proof -
  define n where "n = length t"
  define cols where "cols = grid_cols 1 n"
  define rows where "rows = (n + cols - 1) div cols"
  have n: "0 < n" using assms by (simp add: n_def)
  have c: "1 \<le> cols" "cols \<le> n" "n \<le> cols * cols"
    using grid_cols_ge [of n 1] grid_cols_le [of 1 n] n by (simp_all add: cols_def)
  have r: "1 \<le> rows" "rows \<le> cols"
  proof -
    have "cols \<le> n + cols - 1" using n by simp
    then show "1 \<le> rows" unfolding rows_def using c by (simp add: Suc_leI div_greater_zero_iff)
    have "n + cols - 1 < (cols + 1) * cols" using c by (simp add: algebra_simps)
    then show "rows \<le> cols" unfolding rows_def using less_mult_imp_div_less [of "n + cols - 1" "cols + 1" cols] by simp
  qed
  have idx: "i div cols < rows" if "i < n" for i
  proof -
    have "i div cols * cols \<le> i" by simp
    then have "(i div cols + 1) * cols \<le> n + cols - 1" using that c(1) unfolding add_mult_distrib by linarith
    then show ?thesis unfolding rows_def using c by (simp add: less_eq_div_iff_mult_less_eq flip: Suc_le_eq)
  qed
  define cw where "cw = i32 (ww - gap * (int cols - 1)) sdiv int cols"
  define ch where "ch = i32 (wh - gap * (int rows - 1)) sdiv int rows"
  have "int cols * (gap + 1) \<le> int n * (gap + 1)" "int rows * (gap + 1) \<le> int n * (gap + 1)"
    using c r assms by (intro mult_right_mono; simp)+
  then have fit: "int cols * (gap + 1) \<le> ww" "int rows * (gap + 1) \<le> wh" using assms unfolding n_def by linarith+
  have w: "1 \<le> cw" "int cols * (cw + gap) \<le> ww + gap" and h: "1 \<le> ch" "int rows * (ch + gap) \<le> wh + gap"
    using cell_bounds [of cols gap ww] cell_bounds [of rows gap wh] c r fit assms by (simp_all add: cw_def ch_def)
  let ?x = "\<lambda>i. wx + int (i mod cols) * (cw + gap)" and ?y = "\<lambda>i. wy + int (i div cols) * (ch + gap)"
  have X: "i32 (?x i) = ?x i" "wx \<le> ?x i" "?x i + cw \<le> wx + ww" for i
    using cell_position [OF w(2,1) assms(5), of "i mod cols" wx] c assms by auto
  have Y: "i32 (?y i) = ?y i" "wy \<le> ?y i" "?y i + ch \<le> wy + wh" if "i < n" for i
    using cell_position [OF h(2,1) assms(5) idx [OF that], of wy] assms by auto
  have eq: "arrange_grid t wx wy ww wh gap = map (\<lambda>i. Place (t ! i) (?x i) (?y i) cw ch) [0..<n]"
  proof -
    have "arrange_grid t wx wy ww wh gap = map (\<lambda>(i, ci). Place ci (i32 (?x i)) (i32 (?y i)) cw ch) (zip [0..<n] t)"
      by (simp only: arrange_grid_def Let_def cw_def ch_def cols_def rows_def n_def)
    also have "\<dots> = map (\<lambda>i. Place (t ! i) (?x i) (?y i) cw ch) [0..<n]"
      by (rule nth_equalityI) (simp_all add: X(1) Y(1), simp_all add: n_def)
    finally show ?thesis .
  qed
  have sep: "apart (Place a (?x i) (?y i) cw ch) (Place b (?x j) (?y j) cw ch)" if "i \<noteq> j" for a b i j
  proof (cases "i mod cols = j mod cols")
    case True
    with that have "i div cols \<noteq> j div cols" by (metis div_mult_mod_eq)
    then show ?thesis using cells_apart [of "i div cols" "j div cols" ch gap wy] cells_apart [of "j div cols" "i div cols" ch gap wy]
        assms h by (auto simp: apart_def neq_iff)
  next
    case False
    then show ?thesis using cells_apart [of "i mod cols" "j mod cols" cw gap wx] cells_apart [of "j mod cols" "i mod cols" cw gap wx]
        assms w by (auto simp: apart_def neq_iff)
  qed
  show ?thesis unfolding eq tiles_def using X Y w h by (auto simp: inside_def intro!: sep)
qed

lemma grid_targets [simp]: "map target (arrange_grid t wx wy ww wh gap) = t"
  by (rule nth_equalityI) (simp_all add: arrange_grid_def Let_def)

section \<open>Spirals\<close>

lemma half_bounds: "1 \<le> (len - gap :: int) div 2 \<Longrightarrow> len < 1000000 \<Longrightarrow> 0 \<le> gap \<Longrightarrow>
  i32 (len - gap) = len - gap \<and> i32 (len - gap) sdiv 2 = (len - gap) div 2 \<and> 2 * ((len - gap) div 2) + gap \<le> len"
proof -
  assume a: "1 \<le> (len - gap) div 2" "len < 1000000" "0 \<le> gap"
  then have "2 \<le> len - gap" by linarith
  with a have "i32 (len - gap) = len - gap" by (intro i32_pos) linarith+
  with \<open>2 \<le> len - gap\<close> show ?thesis by (simp add: sdiv_pos)
qed

lemma spiral_fits_pos: "spiral_fits i (Suc n) cw ch gap \<Longrightarrow> 0 \<le> gap \<Longrightarrow> 1 \<le> cw \<and> 1 \<le> ch"
  by (induction n arbitrary: i cw ch) (fastforce simp: Let_def split: if_splits)+

lemma spiral_tiles:
  "spiral_fits i (length t) cw ch gap \<Longrightarrow> 0 \<le> gap \<Longrightarrow> 0 \<le> cx \<Longrightarrow> 0 \<le> cy \<Longrightarrow> cx + cw < 1000000 \<Longrightarrow> cy + ch < 1000000 \<Longrightarrow>
   tiles cx cy cw ch (spiral i t cx cy cw ch gap)"
proof (induction i t cx cy cw ch gap rule: spiral.induct)
  case (2 i ci cx cy cw ch gap)
  then show ?case by (simp add: tiles_def inside_def)
next
  case (3 i ci d t cx cy cw ch gap)
  have pos: "1 \<le> cw" "1 \<le> ch" using spiral_fits_pos [of i "Suc (length t)" cw ch gap] "3.prems" by auto
  show ?case
  proof (cases "even i")
    case True
    define half where "half = (ch - gap) div 2"
    have h: "1 \<le> half" "spiral_fits (i + 1) (length (d # t)) cw (ch - (half + gap)) gap"
      using "3.prems"(1) True by (simp_all add: Let_def half_def)
    have e: "i32 (ch - gap) sdiv 2 = half" "2 * half + gap \<le> ch" using half_bounds [of ch gap] h "3.prems" by (auto simp: half_def)
    have i: "i32 (cy + half + gap) = cy + half + gap" "i32 (ch - (half + gap)) = ch - (half + gap)"
      by (rule i32_pos; use e h "3.prems" in linarith)+
    have t: "tiles cx (cy + half + gap) cw (ch - (half + gap)) (spiral (i + 1) (d # t) cx (cy + half + gap) cw (ch - (half + gap)) gap)"
      using "3.IH"(1) [OF True] h "3.prems" e i by (simp add: half_def)
    have "inside cx cy cw ch (Place ci cx cy cw half)" using e h pos "3.prems" by (auto simp: inside_def)
    moreover have "tiles cx cy cw ch (spiral (i + 1) (d # t) cx (cy + half + gap) cw (ch - (half + gap)) gap)"
      by (rule tiles_mono [OF t]) (use e h "3.prems" in auto)
    ultimately show ?thesis using True e i t "3.prems"
      by (auto simp: Let_def tiles_def inside_def apart_def intro!: tiles_Cons)
  next
    case False
    define half where "half = (cw - gap) div 2"
    have h: "1 \<le> half" "spiral_fits (i + 1) (length (d # t)) (cw - (half + gap)) ch gap"
      using "3.prems"(1) False by (simp_all add: Let_def half_def)
    have e: "i32 (cw - gap) sdiv 2 = half" "2 * half + gap \<le> cw" using half_bounds [of cw gap] h "3.prems" by (auto simp: half_def)
    have i: "i32 (cx + half + gap) = cx + half + gap" "i32 (cw - (half + gap)) = cw - (half + gap)"
      by (rule i32_pos; use e h "3.prems" in linarith)+
    have t: "tiles (cx + half + gap) cy (cw - (half + gap)) ch (spiral (i + 1) (d # t) (cx + half + gap) cy (cw - (half + gap)) ch gap)"
      using "3.IH"(2) [OF False] h "3.prems" e i by (simp add: half_def)
    have "inside cx cy cw ch (Place ci cx cy half ch)" using e h pos "3.prems" by (auto simp: inside_def)
    moreover have "tiles cx cy cw ch (spiral (i + 1) (d # t) (cx + half + gap) cy (cw - (half + gap)) ch gap)"
      by (rule tiles_mono [OF t]) (use e h "3.prems" in auto)
    ultimately show ?thesis using False e i t "3.prems"
      by (auto simp: Let_def tiles_def inside_def apart_def intro!: tiles_Cons)
  qed
qed simp

lemma spiral_targets [simp]: "map target (spiral i t cx cy cw ch gap) = t"
  by (induction i t cx cy cw ch gap rule: spiral.induct) (auto simp: Let_def)

lemma dwindle_targets [simp]: "map target (dwindle i t cx cy cw ch gap) = t"
  by (induction i t cx cy cw ch gap rule: dwindle.induct) (auto simp: Let_def)

lemma dwindle_fits_pos: "dwindle_fits i (Suc n) cw ch gap \<Longrightarrow> 0 \<le> gap \<Longrightarrow> 1 \<le> cw \<and> 1 \<le> ch"
proof (induction n arbitrary: i cw ch)
  case (Suc n)
  show ?case
  proof (cases "even i")
    case True
    with Suc have "1 \<le> (ch - gap) div 2" "1 \<le> cw" by (auto simp: Let_def)
    with Suc.prems show ?thesis by linarith
  next
    case False
    with Suc have "1 \<le> (cw - gap) div 2" "1 \<le> ch" by (auto simp: Let_def)
    with Suc.prems show ?thesis by linarith
  qed
qed simp

lemma dwindle_tiles:
  "dwindle_fits i (length t) cw ch gap \<Longrightarrow> 0 \<le> gap \<Longrightarrow> 0 \<le> cx \<Longrightarrow> 0 \<le> cy \<Longrightarrow> cx + cw < 1000000 \<Longrightarrow> cy + ch < 1000000 \<Longrightarrow>
   tiles cx cy cw ch (dwindle i t cx cy cw ch gap)"
proof (induction i t cx cy cw ch gap rule: dwindle.induct)
  case (2 i ci cx cy cw ch gap)
  then show ?case by (simp add: tiles_def inside_def)
next
  case (3 i ci d t cx cy cw ch gap)
  have pos: "1 \<le> cw" "1 \<le> ch" using dwindle_fits_pos [of i "Suc (length t)" cw ch gap] "3.prems" by auto
  show ?case
  proof (cases "even i")
    case True
    define half where "half = (ch - gap) div 2"
    have h: "1 \<le> half" "dwindle_fits (i + 1) (length (d # t)) cw half gap"
      using "3.prems"(1) True by (simp_all add: Let_def half_def)
    have e: "i32 (ch - gap) sdiv 2 = half" "2 * half + gap \<le> ch" using half_bounds [of ch gap] h "3.prems" by (auto simp: half_def)
    have i: "i32 (cy + half + gap) = cy + half + gap" "i32 (ch - half - gap) = ch - half - gap"
      by (rule i32_pos; use e h "3.prems" in linarith)+
    have t: "tiles cx cy cw half (dwindle (i + 1) (d # t) cx cy cw half gap)"
      using "3.IH"(1) [OF True] h "3.prems" e by (simp add: half_def)
    have "inside cx cy cw ch (Place ci cx (cy + half + gap) cw (ch - half - gap))" using e h pos "3.prems" by (auto simp: inside_def)
    moreover have "tiles cx cy cw ch (dwindle (i + 1) (d # t) cx cy cw half gap)"
      by (rule tiles_mono [OF t]) (use e h "3.prems" in auto)
    ultimately show ?thesis using True e i t "3.prems"
      by (auto simp: Let_def tiles_def inside_def apart_def intro!: tiles_Cons)
  next
    case False
    define half where "half = (cw - gap) div 2"
    have h: "1 \<le> half" "dwindle_fits (i + 1) (length (d # t)) half ch gap"
      using "3.prems"(1) False by (simp_all add: Let_def half_def)
    have e: "i32 (cw - gap) sdiv 2 = half" "2 * half + gap \<le> cw" using half_bounds [of cw gap] h "3.prems" by (auto simp: half_def)
    have i: "i32 (cx + half + gap) = cx + half + gap" "i32 (cw - half - gap) = cw - half - gap"
      by (rule i32_pos; use e h "3.prems" in linarith)+
    have t: "tiles cx cy half ch (dwindle (i + 1) (d # t) cx cy half ch gap)"
      using "3.IH"(2) [OF False] h "3.prems" e by (simp add: half_def)
    have "inside cx cy cw ch (Place ci (cx + half + gap) cy (cw - half - gap) ch)" using e h pos "3.prems" by (auto simp: inside_def)
    moreover have "tiles cx cy cw ch (dwindle (i + 1) (d # t) cx cy half ch gap)"
      by (rule tiles_mono [OF t]) (use e h "3.prems" in auto)
    ultimately show ?thesis using False e i t "3.prems"
      by (auto simp: Let_def tiles_def inside_def apart_def intro!: tiles_Cons)
  qed
qed simp

section \<open>Centred master\<close>

lemma both_sides_set:
  assumes "left_n = li + length (alternate left t)" "right_n = ri + length (alternate (\<not> left) t)"
  shows "set (both_sides lx rx w lh rh stop gap left_n right_n left ly li ry ri t) =
     set (column lx w lh stop gap ly (alternate left t)) \<union> set (column rx w rh stop gap ry (alternate (\<not> left) t))"
  using assms
proof (induction t arbitrary: left ly li ry ri)
  case (Cons c t)
  show ?case
  proof (cases left)
    case True
    let ?h = "if li + 1 = left_n then i32 (stop - ly) else lh"
    have "li + 1 = left_n \<longleftrightarrow> alternate False t = []" using Cons.prems True by simp
    then show ?thesis using Cons.IH [of "Suc li" False ri "i32 (ly + ?h + gap)" ry] Cons.prems True by (simp add: Let_def)
  next
    case False
    let ?h = "if ri + 1 = right_n then i32 (stop - ry) else rh"
    have "ri + 1 = right_n \<longleftrightarrow> alternate False t = []" using Cons.prems False by simp
    then show ?thesis using Cons.IH [of li True "Suc ri" ly "i32 (ry + ?h + gap)"] Cons.prems False by (simp add: Let_def)
  qed
qed simp

lemma length_alternate: "length (alternate b t) = (if b then (length t + 1) div 2 else length t div 2)"
  by (induction t arbitrary: b) auto

lemma both_sides_targets [simp]: "map target (both_sides lx rx w lh rh stop gap ln rn left ly li ry ri t) = t"
  by (induction t arbitrary: left ly li ry ri) (auto simp: Let_def)

lemma centered_targets [simp]: "map target (arrange_centeredmaster nmast mf t wx wy ww wh gap) = t"
  by (simp add: arrange_centeredmaster_def Let_def)

lemma centered_tiles:
  assumes "0 \<le> wx" "0 \<le> wy" "200 \<le> ww" "wx + ww \<le> 1000000" "wy + wh \<le> 1000000" "0 \<le> gap" "gap \<le> 9"
    and "10 \<le> mf" "mf \<le> 90" "int (length t) * (gap + 1) \<le> wh"
  shows "tiles wx wy ww wh (arrange_centeredmaster nmast mf t wx wy ww wh gap)"
proof -
  let ?nm = "min nmast (length t)"
  let ?ns = "length t - ?nm"
  have fit: "int k + gap * (int k - 1) \<le> wh" if "k \<le> length t" for k
  proof -
    have "int k * (gap + 1) \<le> int (length t) * (gap + 1)" using that assms by (intro mult_right_mono) auto
    with assms show ?thesis by (simp add: algebra_simps)
  qed
  show ?thesis
  proof (cases "?ns = 0")
    case True
    then have "0 < nmast \<or> t = []" by (cases t) auto
    then show ?thesis
    proof
      assume "0 < nmast"
      with True assms show ?thesis by (simp add: arrange_centeredmaster_def Let_def tile_tiles)
    qed (simp add: arrange_centeredmaster_def arrange_tile_def Let_def)
  next
    case False
    define mw where "mw = i32 (ww * i32 (int mf)) sdiv 100"
    have m: "1 \<le> mw" "10 * mw \<le> 9 * ww" unfolding mw_def using assms by (auto intro!: master_share)
    define sw where "sw = (ww - mw - gap * 2) div 2"
    have "i32 (ww - mw - gap * 2) = ww - mw - gap * 2" by (rule i32_pos) (use m assms in linarith)+
    then have sw: "i32 (ww - mw - gap * 2) sdiv 2 = sw" unfolding sw_def using m assms by (simp add: sdiv_pos)
    have w: "1 \<le> sw" "2 * sw + mw + gap * 2 \<le> ww" unfolding sw_def using m assms by linarith+
    have stop: "i32 (wy + wh) = wy + wh" using assms fit [of 0] by (intro i32_small) simp
    have i: "i32 (wx + sw + gap) = wx + sw + gap" "i32 (wx + sw + gap + mw + gap) = wx + sw + gap + mw + gap"
      by (rule i32_pos; use w m assms in linarith)+
    let ?l = "alternate True (drop ?nm t)" and ?r = "alternate False (drop ?nm t)"
    let ?L = "column wx sw (each wh gap (length ?l)) (wy + wh) gap wy ?l"
    let ?M = "column (wx + sw + gap) mw (each wh gap ?nm) (wy + wh) gap wy (take ?nm t)"
    let ?R = "column (wx + sw + gap + mw + gap) sw (each wh gap (length ?r)) (wy + wh) gap wy ?r"
    have eq: "set (arrange_centeredmaster nmast mf t wx wy ww wh gap) = set ((?L @ ?M) @ ?R)"
      using False stop i sw by (auto simp: arrange_centeredmaster_def Let_def both_sides_set length_alternate simp flip: mw_def)
    have L: "tiles wx wy sw wh ?L" and R: "tiles (wx + sw + gap + mw + gap) wy sw wh ?R"
      using assms w fit [of "length ?l"] fit [of "length ?r"] by (auto intro!: column_tiles simp: length_alternate)
    have M: "tiles (wx + sw + gap) wy mw wh ?M" using assms m w fit [of ?nm] by (intro column_tiles) auto
    have LM: "tiles wx wy (sw + gap + mw) wh (?L @ ?M)"
    proof (rule tiles_append)
      show "tiles wx wy (sw + gap + mw) wh ?L" by (rule tiles_mono [OF L]) (use m assms in auto)
      show "tiles wx wy (sw + gap + mw) wh ?M" by (rule tiles_mono [OF M]) (use w assms in auto)
      show "apart p q" if "p \<in> set ?L" "q \<in> set ?M" for p q by (rule tiles_beside [OF L M _ that]) (use assms in auto)
    qed
    show ?thesis unfolding tiles_cong [OF eq]
    proof (rule tiles_append)
      show "tiles wx wy ww wh (?L @ ?M)" by (rule tiles_mono [OF LM]) (use w assms in auto)
      show "tiles wx wy ww wh ?R" by (rule tiles_mono [OF R]) (use w m assms in auto)
      show "apart p q" if "p \<in> set (?L @ ?M)" "q \<in> set ?R" for p q by (rule tiles_beside [OF LM R _ that]) (use assms in auto)
    qed
  qed
qed

section \<open>The screen\<close>

definition screen_ok :: "wm \<Rightarrow> bool" where
  "screen_ok s \<longleftrightarrow> length (clients s) = MAX_WIN \<and> wm_sw s = SCREEN_W \<and> wm_sh s = SCREEN_H \<and> 10 \<le> mfact s \<and> mfact s \<le> 90"

text \<open>Left, top, width and height of the work area.\<close>

definition work_area :: "wm \<Rightarrow> int \<times> int \<times> int \<times> int" where
  "work_area s = (wm_gap s, bar_offset s + wm_gap s, sint (wm_sw s) - 2 * wm_gap s,
     sint (wm_sh s) - bar_offset s - 2 * wm_gap s)"

definition layout_fits :: "wm \<Rightarrow> bool" where
  "layout_fits s \<longleftrightarrow>
     (case wm_layout s of
        Tile \<Rightarrow> 0 < nmaster s
      | BStack \<Rightarrow> 0 < nmaster s
      | Monocle \<Rightarrow> length (visible_tiled s) \<le> 1
      | Spiral \<Rightarrow> gaps_on s \<longrightarrow> length (visible_tiled s) \<le> 15
      | Dwindle \<Rightarrow> gaps_on s \<longrightarrow> length (visible_tiled s) \<le> 15
      | _ \<Rightarrow> True)"

lemma length_visible_tiled: "length (visible_tiled s) \<le> 16"
  unfolding visible_tiled_def using length_filter_le by (metis MAX_WIN_def diff_zero length_upt)

lemma area_cases:
  assumes "screen_ok s"
  shows "work_area s = (0, 0, 1920, 1080) \<and> wm_gap s = 0 \<and> \<not> gaps_on s \<or> work_area s = (0, 22, 1920, 1058) \<and> wm_gap s = 0 \<and> \<not> gaps_on s \<or>
    work_area s = (6, 6, 1908, 1068) \<and> wm_gap s = 6 \<and> gaps_on s \<or> work_area s = (6, 28, 1908, 1046) \<and> wm_gap s = 6 \<and> gaps_on s"
  using assms by (simp add: screen_ok_def work_area_def wm_gap_def bar_offset_def SCREEN_W_def SCREEN_H_def BAR_H_def GAP_def)

lemma spiral_fits_screen:
  "n \<le> 16 \<Longrightarrow> spiral_fits 0 n 1920 1080 0 \<and> spiral_fits 0 n 1920 1058 0 \<and> dwindle_fits 0 n 1920 1080 0 \<and> dwindle_fits 0 n 1920 1058 0"
  "n \<le> 15 \<Longrightarrow> spiral_fits 0 n 1908 1068 6 \<and> spiral_fits 0 n 1908 1046 6 \<and> dwindle_fits 0 n 1908 1068 6 \<and> dwindle_fits 0 n 1908 1046 6"
proof -
  have *: "\<forall>n\<in>set [0..<17]. spiral_fits 0 n 1920 1080 0 \<and> spiral_fits 0 n 1920 1058 0 \<and> dwindle_fits 0 n 1920 1080 0 \<and> dwindle_fits 0 n 1920 1058 0"
    "\<forall>n\<in>set [0..<16]. spiral_fits 0 n 1908 1068 6 \<and> spiral_fits 0 n 1908 1046 6 \<and> dwindle_fits 0 n 1908 1068 6 \<and> dwindle_fits 0 n 1908 1046 6"
    by code_simp+
  show "n \<le> 16 \<Longrightarrow> spiral_fits 0 n 1920 1080 0 \<and> spiral_fits 0 n 1920 1058 0 \<and> dwindle_fits 0 n 1920 1080 0 \<and> dwindle_fits 0 n 1920 1058 0"
    using bspec [OF *(1), of n] by simp
  show "n \<le> 15 \<Longrightarrow> spiral_fits 0 n 1908 1068 6 \<and> spiral_fits 0 n 1908 1046 6 \<and> dwindle_fits 0 n 1908 1068 6 \<and> dwindle_fits 0 n 1908 1046 6"
    using bspec [OF *(2), of n] by simp
qed

lemma placements_targets: "map target (placements s) = visible_tiled s"
  by (cases "wm_layout s") (simp_all add: placements_def Let_def arrange_monocle_def comp_def)

lemma placements_tiles:
  assumes "screen_ok s" "layout_fits s" "work_area s = (x, y, w, h)"
  shows "tiles x y w h (placements s)"
proof -
  define g where "g = wm_gap s"
  define t where "t = visible_tiled s"
  have n: "length t \<le> 16" unfolding t_def by (rule length_visible_tiled)
  have mf: "10 \<le> mfact s" "mfact s \<le> 90" using assms by (auto simp: screen_ok_def)
  have area: "0 \<le> x" "0 \<le> y" "1908 \<le> w" "1046 \<le> h" "x + w \<le> 1920" "y + h \<le> 1080" "0 \<le> g" "g \<le> 6"
    using area_cases [OF assms(1)] assms(3) by (auto simp: g_def)
  have ng: "int (length t) * (g + 1) \<le> 16 * 7" using n area by (intro mult_mono) auto
  have fits: "spiral_fits 0 (length t) w h g \<and> dwindle_fits 0 (length t) w h g" if "wm_layout s \<in> {Spiral, Dwindle}"
    using that area_cases [OF assms(1)] assms(2,3) n spiral_fits_screen [of "length t"]
    by (auto simp: g_def layout_fits_def simp flip: t_def)
  have wa: "x = g" "i32 (bar_offset s + g) = y" "i32 (sint (wm_sw s) - g * 2) = w" "i32 (sint (wm_sh s) - bar_offset s - g * 2) = h"
    using assms(3) area by (auto simp: work_area_def g_def mult.commute intro!: i32_pos)
  show ?thesis
  proof (cases "t = []")
    case False
    then show ?thesis
      unfolding placements_def Let_def g_def [symmetric] t_def [symmetric] wa(2-4)
      unfolding wa(1) [symmetric]
      using assms(2) area ng mf fits
      by (cases "wm_layout s")
        (auto simp: layout_fits_def t_def [symmetric] wa(1) [symmetric] arrange_monocle_def length_Suc_conv le_Suc_eq
          intro: tile_tiles grid_tiles bstack_tiles spiral_tiles dwindle_tiles centered_tiles)
  qed (simp add: placements_def Let_def t_def)
qed

section \<open>Writing the placements\<close>

definition win_rect :: "client \<Rightarrow> (int \<times> int) set" where
  "win_rect c = {c_x c ..< c_x c + uint (c_w c)} \<times> {c_y c ..< c_y c + uint (c_h c)}"

definition area_rect :: "wm \<Rightarrow> (int \<times> int) set" where
  "area_rect s = (case work_area s of (x, y, w, h) \<Rightarrow> {x ..< x + w} \<times> {y ..< y + h})"

lemma length_place [simp]: "length (place p cs) = length cs"
  by (simp add: place_def)

lemma length_fold_place [simp]: "length (fold place ps cs) = length cs"
  by (induction ps arbitrary: cs) simp_all

lemma fold_place_other: "i \<notin> target ` set ps \<Longrightarrow> fold place ps cs ! i = cs ! i"
  by (induction ps arbitrary: cs) (auto simp: place_def)

lemma fold_place_target:
  "p \<in> set ps \<Longrightarrow> distinct (map target ps) \<Longrightarrow> target p < length cs \<Longrightarrow>
   fold place ps cs ! target p = (cs ! target p)\<lparr>c_x := px p, c_y := py p,
     c_w := word_of_int (max 1 (pw p)), c_h := word_of_int (max 1 (ph p))\<rparr>"
proof (induction ps arbitrary: cs)
  case (Cons q ps)
  show ?case
  proof (cases "p = q")
    case True
    with Cons.prems show ?thesis by (simp add: fold_place_other) (simp add: place_def)
  next
    case False
    with Cons.prems have "target p \<noteq> target q" by (metis distinct.simps(2) imageI list.set_map list.simps(9) set_ConsD)
    with False Cons show ?thesis by (simp add: place_def)
  qed
qed simp

lemma uint_size: "1 \<le> k \<Longrightarrow> k < 1000000 \<Longrightarrow> uint (word_of_int k :: u32) = k"
  by (simp add: unsigned_of_int take_bit_int_eq_self)

lemma distinct_visible_tiled [simp]: "distinct (visible_tiled s)"
  by (simp add: visible_tiled_def)

lemma visible_tiled_less: "i \<in> set (visible_tiled s) \<Longrightarrow> i < MAX_WIN"
  by (simp add: visible_tiled_def)

lemma arranged_window:
  assumes "length (clients s) = MAX_WIN" "i \<in> set (visible_tiled s)"
  obtains p where "p \<in> set (placements s)" "target p = i"
    "clients (arrange s) ! i = (clients s ! i)\<lparr>c_x := px p, c_y := py p,
       c_w := word_of_int (max 1 (pw p)), c_h := word_of_int (max 1 (ph p))\<rparr>"
proof -
  obtain p where p: "p \<in> set (placements s)" "target p = i"
    using assms(2) placements_targets [of s] by (metis imageE set_map)
  with assms visible_tiled_less fold_place_target [OF p(1), of "clients s"] show ?thesis
    by (intro that [OF p]) (auto simp: arrange_def placements_targets)
qed

lemma arranged_other: "i \<notin> set (visible_tiled s) \<Longrightarrow> clients (arrange s) ! i = clients s ! i"
  using placements_targets [of s] by (auto simp: arrange_def intro!: fold_place_other) (metis imageI set_map)

lemma windows_tile_area:
  assumes "screen_ok s" "layout_fits s" "i \<in> set (visible_tiled s)"
  shows "win_rect (clients (arrange s) ! i) \<noteq> {}" "win_rect (clients (arrange s) ! i) \<subseteq> area_rect s"
    "j \<in> set (visible_tiled s) \<Longrightarrow> i \<noteq> j \<Longrightarrow> win_rect (clients (arrange s) ! i) \<inter> win_rect (clients (arrange s) ! j) = {}"
proof -
  obtain x y w h where a: "work_area s = (x, y, w, h)" by (cases "work_area s") auto
  note t = placements_tiles [OF assms(1,2) a]
  have len: "length (clients s) = MAX_WIN" using assms by (simp add: screen_ok_def)
  have wh: "w \<le> 1920" "h \<le> 1080" using area_cases [OF assms(1)] a by auto
  have rect: "win_rect (clients (arrange s) ! target p) = {px p ..< px p + pw p} \<times> {py p ..< py p + ph p}"
    if "p \<in> set (placements s)" for p
  proof -
    have d: "distinct (map target (placements s))" by (simp add: placements_targets)
    have "target p \<in> set (visible_tiled s)" using that placements_targets [of s] by (metis imageI set_map)
    then have "target p < length (clients s)" using len visible_tiled_less by simp
    note eq = fold_place_target [OF that d this]
    have "inside x y w h p" using that t by (simp add: tiles_def)
    then have "1 \<le> pw p" "pw p < 1000000" "1 \<le> ph p" "ph p < 1000000" using wh by (auto simp: inside_def)
    with eq show ?thesis by (simp add: win_rect_def arrange_def uint_size)
  qed
  obtain p where p: "p \<in> set (placements s)" "target p = i" using arranged_window [OF len assms(3)] by blast
  with t have ins: "inside x y w h p" by (auto simp: tiles_def)
  with rect [OF p(1)] p(2) a show "win_rect (clients (arrange s) ! i) \<noteq> {}" "win_rect (clients (arrange s) ! i) \<subseteq> area_rect s"
    by (auto simp: inside_def area_rect_def)
  assume j: "j \<in> set (visible_tiled s)" "i \<noteq> j"
  obtain q where q: "q \<in> set (placements s)" "target q = j" using arranged_window [OF len j(1)] by blast
  with p j t have "apart p q" by (auto simp: tiles_def)
  with rect [OF p(1)] rect [OF q(1)] p(2) q(2) show "win_rect (clients (arrange s) ! i) \<inter> win_rect (clients (arrange s) ! j) = {}"
    by (auto simp: apart_def)
qed

end
