(* ===== verification/Wm_Events.thy ===== *)
theory Wm_Events
  imports Wm_Layout
begin

text \<open>
  The event handlers of the window manager (\<open>userland/src/bin/wm.rs\<close>): display-protocol messages, keys, the mouse,
  the drawing of the scene, and one turn of the main loop. Handlers return the new state and the system calls they make.
\<close>

section \<open>Drawing\<close>

definition C_BG :: u32 where "C_BG = 0xFF1A1B26"
definition C_BAR_BG :: u32 where "C_BAR_BG = 0xFF16171F"
definition C_WIN_BG :: u32 where "C_WIN_BG = 0xFF1F202E"
definition C_WIN_ACT :: u32 where "C_WIN_ACT = 0xFF24283D"
definition C_BORDER_ACT :: u32 where "C_BORDER_ACT = 0xFF7AA2F7"
definition C_BORDER_IN :: u32 where "C_BORDER_IN = 0xFF292E42"
definition C_TAG_ACT :: u32 where "C_TAG_ACT = 0xFF7AA2F7"
definition C_TAG_OCC :: u32 where "C_TAG_OCC = 0xFF565F89"
definition C_TAG_IN :: u32 where "C_TAG_IN = 0xFF2A2B3D"
definition C_LAYOUT_SYM :: u32 where "C_LAYOUT_SYM = 0xFFBB9AF7"
definition C_TITLE :: u32 where "C_TITLE = 0xFFC0CAF5"
definition C_STATUS :: u32 where "C_STATUS = 0xFF73DAFA"
definition C_FLOAT_MARK :: u32 where "C_FLOAT_MARK = 0xFFFF9E64"

definition draw_char :: "u32 \<Rightarrow> u32 \<Rightarrow> u8 \<Rightarrow> u32 \<Rightarrow> ucall list" where
  "draw_char x0 y0 ch color =
     (let bits = glyph_bits ch
      in if bits = 0 then []
         else concat (map (\<lambda>row.
           let row_bits = drop_bit ((FONT_H - 1 - row) * FONT_W) bits AND 0xF
           in map (\<lambda>(start, len). FbFillRect (x0 + of_nat start) (y0 + of_nat row) (of_nat len) 1 color)
                (row_runs row_bits 0)) [0..<FONT_H]))"

fun draw_text :: "u32 \<Rightarrow> u32 \<Rightarrow> u8 list \<Rightarrow> u32 \<Rightarrow> ucall list" where
  "draw_text x0 y0 [] color = []"
| "draw_text x0 y0 (ch # s) color = draw_char x0 y0 ch color @ draw_text (x0 + of_nat (FONT_W + 1)) y0 s color"

definition text_width :: "u8 list \<Rightarrow> u32" where
  "text_width s = of_nat (length s) * of_nat (FONT_W + 1)"

definition tag_colors :: "bool \<Rightarrow> bool \<Rightarrow> u32 \<times> u32" where
  "tag_colors is_sel is_occ =
     (if is_sel then C_TAG_ACT else if is_occ then C_TAG_OCC else C_TAG_IN, if is_sel then C_BAR_BG else 0xFFFFFFFF)"

definition draw_tag :: "wm \<Rightarrow> nat \<Rightarrow> ucall list" where
  "draw_tag s t =
     (let text_y = (BAR_H - of_nat FONT_H) div 2;
          tag_bit = push_bit t 1;
          tx = of_nat t * BAR_H;
          is_sel = (sel_tags s AND tag_bit \<noteq> 0);
          is_occ = list_ex (\<lambda>i. c_alive (clients s ! i) \<and> c_tags (clients s ! i) AND tag_bit \<noteq> 0) [0..<MAX_WIN];
          (bg_col, fg_col) = tag_colors is_sel is_occ;
          cx = tx + (BAR_H - of_nat FONT_W) div 2
      in FbFillRect tx 0 BAR_H BAR_H bg_col # draw_char cx text_y (0x31 + of_nat t) fg_col @
         (if is_occ \<and> \<not> is_sel then [FbFillRect (tx + BAR_H - 4) (BAR_H - 4) 2 2 C_STATUS] else []))"

definition clock_text :: "u64 \<Rightarrow> u8 list" where
  "clock_text packed =
     (let hours = ucast (drop_bit 16 packed AND 0xFF); mins = ucast (drop_bit 8 packed AND 0xFF)
      in [0x30 + hours div 10, 0x30 + hours mod 10, 0x3A, 0x30 + mins div 10, 0x30 + mins mod 10])"

definition draw_bar :: "u64 \<Rightarrow> wm \<Rightarrow> ucall list" where
  "draw_bar packed s =
     (let text_y = (BAR_H - of_nat FONT_H) div 2;
          lx = of_nat TAG_CNT * BAR_H + 6;
          sym_end = lx + text_width (symbol (wm_layout s)) + 10;
          title_x = wm_sw s div 2;
          c = clients s ! focused s;
          ts = shown_title c;
          tw = text_width ts;
          tx = (if title_x > tw div 2 then title_x - tw div 2 else sym_end);
          clock = clock_text packed;
          rx = word_ssub (wm_sw s) (text_width clock + 6)
      in FbFillRect 0 0 (wm_sw s) BAR_H C_BAR_BG # concat (map (draw_tag s) [0..<TAG_CNT]) @
         draw_text lx text_y (symbol (wm_layout s)) C_LAYOUT_SYM @
         (if is_visible s (focused s) then
            draw_text tx text_y ts C_TITLE @
            (if c_floating c then [FbFillRect (tx + tw + 4) (text_y + 1) 3 3 C_FLOAT_MARK] else [])
          else []) @
         draw_text rx text_y clock C_STATUS @ [FbFillRect 0 (BAR_H - 1) (wm_sw s) 1 0xFF292E42])"

section \<open>Messages to the windows\<close>

definition content_dims :: "u32 \<Rightarrow> u32 \<Rightarrow> u32 \<times> u32" where
  "content_dims w h = (word_ssub w (BORDER * 2), word_ssub h (BORDER * 2 + TITLE_H))"

definition content_origin :: "int \<Rightarrow> int \<Rightarrow> u32 \<times> u32" where
  "content_origin x y = (word_of_int x + BORDER, word_of_int y + BORDER + TITLE_H)"

definition send_kdp_grant :: "u32 \<Rightarrow> u32 \<Rightarrow> int \<Rightarrow> int \<Rightarrow> u32 \<Rightarrow> u32 \<Rightarrow> u8 list \<Rightarrow> ucall" where
  "send_kdp_grant pid sid x y w h title =
     (let (cw, ch) = content_dims w h
      in IpcSend pid (rdp_msg RDP_GRANT 0 (payload_rdp_zero\<lparr>rdp_surface_id := sid, rdp_x := word_of_int x, rdp_y := word_of_int y,
           rdp_width := cw, rdp_height := ch, rdp_title := title_bytes title\<rparr>)))"

definition send_kdp_resize :: "u32 \<Rightarrow> u32 \<Rightarrow> u32 \<Rightarrow> u32 \<Rightarrow> ucall" where
  "send_kdp_resize pid sid w h =
     (let (cw, ch) = content_dims w h
      in IpcSend pid (rdp_msg RDP_RESIZE 0 (payload_rdp_zero\<lparr>rdp_surface_id := sid, rdp_width := cw, rdp_height := ch\<rparr>)))"

definition send_rdp_present_done :: "u32 \<Rightarrow> u32 \<Rightarrow> u16 \<Rightarrow> ucall" where
  "send_rdp_present_done pid sid ack_seq = IpcSend pid (rdp_msg RDP_PRESENT_DONE ack_seq (payload_rdp_zero\<lparr>rdp_surface_id := sid\<rparr>))"

definition send_kdp_key :: "u32 \<Rightarrow> u8 \<Rightarrow> bool \<Rightarrow> ucall" where
  "send_kdp_key pid kc down =
     IpcSend pid (rdp_msg RDP_KEY 0 (payload_rdp_zero\<lparr>rdp_key_code := ucast kc, rdp_key_state := (if down then 1 else 0)\<rparr>))"

definition send_kdp_focus :: "u32 \<Rightarrow> bool \<Rightarrow> ucall" where
  "send_kdp_focus pid foc = IpcSend pid (rdp_msg RDP_FOCUS 0 (payload_rdp_zero\<lparr>rdp_flags := (if foc then 1 else 0)\<rparr>))"

definition send_kdp_close :: "u32 \<Rightarrow> u32 \<Rightarrow> ucall" where
  "send_kdp_close pid sid = IpcSend pid (rdp_msg RDP_CLOSE 0 (payload_rdp_zero\<lparr>rdp_surface_id := sid\<rparr>))"

text \<open>A window of a program that speaks the protocol.\<close>

definition rdp_client :: "client \<Rightarrow> bool" where
  "rdp_client c \<longleftrightarrow> c_alive c \<and> c_pid c \<noteq> 0 \<and> c_surface_id c \<noteq> 0"

definition notify_one :: "nat \<Rightarrow> wm \<times> ucall list \<Rightarrow> wm \<times> ucall list" where
  "notify_one i r =
     (case r of (s, out) \<Rightarrow>
       let c = clients s ! i
       in if \<not> rdp_client c then (s, out)
          else let (cw, ch) = content_dims (c_w c) (c_h c)
               in if cw \<noteq> c_notified_cw c \<or> ch \<noteq> c_notified_ch c then
                    (upd_client i (\<lambda>c. c\<lparr>c_notified_cw := cw, c_notified_ch := ch\<rparr>) s,
                     out @ [send_kdp_resize (c_pid c) (c_surface_id c) (c_w c) (c_h c),
                       WriteLog (bytes ''[WM] Pardon me, sir - resizing '' @ [0x27]), WriteLog (shown_title c),
                       WriteLog (0x27 # bytes '' to fit the new arrangement.'' @ [0x0D, 0x0A])])
                  else (s, out))"

definition notify_layout_changes :: "wm \<Rightarrow> wm \<times> ucall list" where
  "notify_layout_changes s = fold notify_one [0..<MAX_WIN] (s, [])"

definition update_z_order :: "wm \<Rightarrow> ucall list" where
  "update_z_order s =
     map (\<lambda>i. SurfaceSetZ (c_surface_id (clients s ! i)) (if i = focused s then 255 else of_nat i))
       (filter (\<lambda>i. c_alive (clients s ! i) \<and> c_surface_id (clients s ! i) \<noteq> 0) [0..<MAX_WIN])"

section \<open>Messages from the windows\<close>

text \<open>The slot of the window that sent a message.\<close>

definition sender_slot :: "wm \<Rightarrow> u32 \<Rightarrow> u32 \<Rightarrow> nat option" where
  "sender_slot s sender sid =
     List.find (\<lambda>i. c_alive (clients s ! i) \<and> c_pid (clients s ! i) = sender \<and> c_surface_id (clients s ! i) = sid) [0..<MAX_WIN]"

definition handle_connect :: "u32 \<Rightarrow> u32 \<Rightarrow> u8 list \<Rightarrow> wm \<Rightarrow> wm \<times> ucall list" where
  "handle_connect sender sid title s =
     (let (idx, s1) = add_client 0xFF title s;
          s2 = upd_client idx (\<lambda>c. c\<lparr>c_pid := sender, c_surface_id := sid\<rparr>) s1;
          s3 = arrange (s2\<lparr>focused := idx\<rparr>);
          c = clients s3 ! idx;
          (cw, ch) = content_dims (c_w c) (c_h c);
          s4 = upd_client idx (\<lambda>c. c\<lparr>c_notified_cw := cw, c_notified_ch := ch\<rparr>) s3
      in (s4, send_kdp_grant sender sid (c_x c) (c_y c) (c_w c) (c_h c) title # update_z_order s4 @
            [WriteLog (bytes ''[WM] Good to have you, sir. Window '' @ [0x27]), WriteLog title,
             WriteLog (0x27 # bytes '' has joined the workspace.'' @ [0x0D, 0x0A])]))"

definition handle_ipc_msg :: "rwm_msg \<Rightarrow> wm \<Rightarrow> bool \<times> wm \<times> ucall list" where
  "handle_ipc_msg msg s =
     (let sender = sender_pid msg; kdp = decode_rdp (payload msg); sid = rdp_surface_id kdp
      in if msg_type msg = RDP_CONNECT then (True, handle_connect sender sid (title_of (rdp_title kdp)) s)
         else if msg_type msg = RDP_COMMIT then
           (True, s, case sender_slot s sender sid of
                       None \<Rightarrow> []
                     | Some i \<Rightarrow>
                         (let (ox, oy) = content_origin (c_x (clients s ! i)) (c_y (clients s ! i))
                          in SurfaceCommit sid ox oy # update_z_order s @ [send_rdp_present_done sender sid (msg_seq msg)]))
         else if msg_type msg = RDP_DISCONNECT then
           (case sender_slot s sender sid of
              None \<Rightarrow> (True, s, [])
            | Some i \<Rightarrow>
                (True, remove_client i s,
                 [WriteLog (bytes ''[WM] Window '' @ [0x27]), WriteLog (shown_title (clients s ! i)),
                  WriteLog (0x27 # bytes '' has taken its leave, sir.'' @ [0x0D, 0x0A]), SurfaceDestroy sid]))
         else (False, s, []))"

section \<open>The scene\<close>

definition draw_window_content :: "wm \<Rightarrow> nat \<Rightarrow> bool \<Rightarrow> ucall list" where
  "draw_window_content s idx foc =
     (let c = clients s ! idx;
          ix = word_of_int (c_x c) + BORDER + 4;
          iy = word_of_int (c_y c) + BORDER + 6;
          iw = (word_of_int (max 0 (i32 (sint (c_w c) - sint BORDER * 2 - 8))) :: u32);
          ih = (word_of_int (max 0 (i32 (sint (c_h c) - sint BORDER * 2 - 12))) :: u32);
          tint = (if c_prog_id c = 0 then 0xFF20253A else if c_prog_id c = 2 then 0xFF203A25
                  else if c_prog_id c = 3 then 0xFF3A2025 else 0xFF282838);
          fg = (if foc then C_TITLE else C_TAG_OCC)
      in if iw = 0 \<or> ih = 0 then []
         else FbFillRect ix iy iw ih tint #
           (if iw \<ge> of_nat (FONT_W + 1) \<and> ih \<ge> of_nat FONT_H then draw_text (ix + 4) (iy + 4) (shown_title c) fg else []) @
           (if foc \<and> iw > 10 \<and> ih > of_nat FONT_H + 8
            then [FbFillRect (ix + 4) (iy + of_nat FONT_H + 8) 2 (of_nat FONT_H) C_STATUS] else []))"

definition draw_window :: "wm \<Rightarrow> nat \<Rightarrow> ucall list" where
  "draw_window s i =
     (let c = clients s ! i; foc = (i = focused s); x = word_of_int (c_x c); y = word_of_int (c_y c); w = c_w c; h = c_h c
      in if w = 0 \<or> h = 0 then []
         else FbFillRect x y w h (if foc then C_BORDER_ACT else C_BORDER_IN) #
           (if w \<le> BORDER * 2 \<or> h \<le> BORDER * 2 then []
            else let inner_x = x + BORDER; inner_y = y + BORDER; inner_w = w - BORDER * 2; inner_h = h - BORDER * 2;
                     tb_h = min TITLE_H inner_h;
                     ts = shown_title c; tw = text_width ts;
                     cy = inner_y + tb_h; ch = inner_h - tb_h
                 in FbFillRect inner_x inner_y inner_w tb_h (if foc then C_BORDER_ACT else 0xFF1E2030) #
                   (if tb_h \<ge> of_nat FONT_H
                    then draw_text (if inner_w > tw then inner_x + (inner_w - tw) div 2 else inner_x + 2)
                           (inner_y + (tb_h - of_nat FONT_H) div 2) ts (if foc then 0xFFFFFFFF else C_TAG_OCC)
                    else []) @
                   (if c_floating c then [FbFillRect (inner_x + 2) (inner_y + (tb_h - 3) div 2) 8 3 C_FLOAT_MARK] else []) @
                   (if inner_h > tb_h
                    then FbFillRect inner_x cy inner_w ch (if foc then C_WIN_ACT else C_WIN_BG) #
                      (if c_surface_id c \<noteq> 0 then [SurfaceCommit (c_surface_id c) inner_x cy]
                       else if inner_w > 8 \<and> ch > 8 then draw_window_content s i foc else [])
                    else [])))"

text \<open>Windows without the focus first, then the one that has it.\<close>

definition draw_windows :: "wm \<Rightarrow> ucall list" where
  "draw_windows s =
     concat (map (draw_window s) (filter (\<lambda>i. is_visible s i \<and> i \<noteq> focused s) [0..<MAX_WIN])) @
     concat (map (draw_window s) (filter (\<lambda>i. is_visible s i \<and> i = focused s) [0..<MAX_WIN]))"

definition draw_scene :: "u64 \<Rightarrow> wm \<Rightarrow> wm \<times> ucall list" where
  "draw_scene packed s =
     (let (s1, out) = notify_layout_changes (arrange s)
      in (s1, out @ update_z_order s1 @ FbClear C_BG # (if show_bar s1 then draw_bar packed s1 else []) @
            draw_windows s1 @ [FbFlush]))"

section \<open>Keys\<close>

definition PROG_EDITOR :: u32 where "PROG_EDITOR = 2"
definition PROG_VIEWER :: u32 where "PROG_VIEWER = 3"
definition PROG_TERMINAL :: u32 where "PROG_TERMINAL = 12"

definition forward_key :: "wm \<Rightarrow> u8 \<Rightarrow> bool \<Rightarrow> ucall list" where
  "forward_key s key down =
     (let idx = focused s
      in if idx < MAX_WIN \<and> rdp_client (clients s ! idx) then [send_kdp_key (c_pid (clients s ! idx)) key down] else [])"

text \<open>\<open>ret\<close> is the result of \<open>sys_spawn\<close>, an \<open>isize\<close>.\<close>

definition spawn_window :: "u64 \<Rightarrow> u32 \<Rightarrow> u8 list \<Rightarrow> wm \<Rightarrow> wm \<times> ucall list" where
  "spawn_window ret prog title s =
     (if sint ret > 0 then
        (let (idx, s1) = add_client (ucast prog) title s
         in ((upd_client idx (\<lambda>c. c\<lparr>c_pid := ucast ret\<rparr>) s1)\<lparr>focused := idx\<rparr>, [Spawn prog]))
      else (s, [Spawn prog]))"

definition tag_of_key :: "u8 \<Rightarrow> u32" where
  "tag_of_key k = push_bit (unat (k - KEY_1)) 1"

definition is_tag_key :: "u8 \<Rightarrow> bool" where
  "is_tag_key k \<longleftrightarrow> KEY_1 \<le> k \<and> k \<le> KEY_9"

text \<open>The bindings with \<open>Mod\<close> alone; \<open>None\<close> if the key has none.\<close>

definition mod_binding :: "u64 \<Rightarrow> u8 \<Rightarrow> wm \<Rightarrow> (wm \<times> ucall list) option" where
  "mod_binding ret key s =
     (if is_tag_key key then Some (view_tag (tag_of_key key) s, [])
      else if key = KEY_0 then Some (view_tag (push_bit TAG_CNT 1 - 1) s, [])
      else if key = KEY_B then Some (s\<lparr>show_bar := \<not> show_bar s\<rparr>, [])
      else if key = KEY_TAB then Some (view_prev_tag s, [])
      else if key = KEY_J then Some (focus_next s, [])
      else if key = KEY_K then Some (focus_prev s, [])
      else if key = KEY_H then Some (if mfact s > 10 then s\<lparr>mfact := mfact s - 5\<rparr> else s, [])
      else if key = KEY_L then Some (if mfact s < 90 then s\<lparr>mfact := mfact s + 5\<rparr> else s, [])
      else if key = KEY_COMMA then Some (if nmaster s > 0 then s\<lparr>nmaster := nmaster s - 1\<rparr> else s, [])
      else if key = KEY_PERIOD then Some (s\<lparr>nmaster := wadd (nmaster s) 1\<rparr>, [])
      else if key = KEY_SPACE then Some (s\<lparr>prev_layout := wm_layout s, wm_layout := next_layout (wm_layout s)\<rparr>, [])
      else if key = KEY_ENTER then Some (zoom s, [])
      else if key = KEY_D then Some (spawn_window ret PROG_TERMINAL (bytes ''terminal'') s)
      else if key = KEY_E then Some (spawn_window ret PROG_EDITOR (bytes ''editor'') s)
      else if key = KEY_V then Some (spawn_window ret PROG_VIEWER (bytes ''viewer'') s)
      else if key = KEY_F then Some (toggle_fullscreen (focused s) s, [])
      else if key = KEY_T then Some (toggle_floating (focused s) s, [])
      else if key = KEY_G then Some (s\<lparr>gaps_on := \<not> gaps_on s\<rparr>, [])
      else None)"

definition close_focused :: "wm \<Rightarrow> wm \<times> ucall list" where
  "close_focused s =
     (let idx = focused s
      in if idx < MAX_WIN \<and> c_alive (clients s ! idx) then
           (if c_pid (clients s ! idx) \<noteq> 0 \<and> c_surface_id (clients s ! idx) \<noteq> 0
            then (s, [send_kdp_close (c_pid (clients s ! idx)) (c_surface_id (clients s ! idx))])
            else (remove_client idx s, []))
         else (s, []))"

datatype key_outcome = Key (redraw: bool) (new_state: wm) (key_calls: "ucall list") | Quit "ucall list"

definition handle_key :: "u64 \<Rightarrow> u8 \<Rightarrow> bool \<Rightarrow> wm \<Rightarrow> key_outcome" where
  "handle_key ret key down s =
     (if \<not> down then Key False s (forward_key s key False)
      else case (if mod_dn s \<and> \<not> shift_dn s then mod_binding ret key s else None) of
             Some (s1, out) \<Rightarrow> Key True s1 out
           | None \<Rightarrow>
               if mod_dn s \<and> ctrl_dn s \<and> \<not> shift_dn s \<and> is_tag_key key then Key True (toggle_view (tag_of_key key) s) []
               else if mod_dn s \<and> shift_dn s \<and> ctrl_dn s \<and> is_tag_key key
                    then Key True (toggle_client_tag (focused s) (tag_of_key key) s) []
               else if mod_dn s \<and> shift_dn s \<and> \<not> ctrl_dn s \<and> is_tag_key key
                    then Key True (move_to_tag (focused s) (tag_of_key key) s) []
               else if mod_dn s \<and> shift_dn s \<and> \<not> ctrl_dn s \<and> key = KEY_SPACE
                    then Key True (s\<lparr>prev_layout := wm_layout s, wm_layout := prev_layout_of (wm_layout s)\<rparr>) []
               else if mod_dn s \<and> shift_dn s \<and> \<not> ctrl_dn s \<and> key = KEY_C
                    then (case close_focused s of (s1, out) \<Rightarrow> Key True s1 out)
               else if mod_dn s \<and> shift_dn s \<and> \<not> ctrl_dn s \<and> key = KEY_Q
                    then Quit [WriteLog (bytes ''[Cogman] Reboot requested, sir. Tidying up and restarting presently.'' @ [0x0D, 0x0A]),
                               Reboot 1, Exit 0]
               else Key False s (forward_key s key True))"

section \<open>The mouse\<close>

definition clamp :: "int \<Rightarrow> int \<Rightarrow> int \<Rightarrow> int" where
  "clamp k lo hi = (if k < lo then lo else if k > hi then hi else k)"

definition under_cursor :: "wm \<Rightarrow> nat \<Rightarrow> bool" where
  "under_cursor s i \<longleftrightarrow>
     (let c = clients s ! i
      in c_alive c \<and> c_floating c \<and> c_tags c AND sel_tags s \<noteq> 0 \<and>
         c_x c \<le> mouse_x s \<and> mouse_x s < i32 (c_x c + sint (c_w c)) \<and>
         c_y c \<le> mouse_y s \<and> mouse_y s < i32 (c_y c + sint (c_h c)))"

definition handle_mouse :: "mouse_event \<Rightarrow> wm \<Rightarrow> bool \<times> wm" where
  "handle_mouse ev s =
     (let s1 = s\<lparr>mouse_x := clamp (i32 (mouse_x s + sint (dx ev))) 0 (i32 (sint (wm_sw s) - 1)),
                 mouse_y := clamp (i32 (mouse_y s + sint (dy ev))) 0 (i32 (sint (wm_sh s) - 1)),
                 mouse_btn := buttons ev\<rparr>;
          left_down = (buttons ev AND 1 \<noteq> 0);
          was_down = (mouse_btn s AND 1 \<noteq> 0)
      in if \<not> left_down \<and> was_down then (False, s1\<lparr>drag_idx := None\<rparr>)
         else if left_down \<and> \<not> was_down then
           (case List.find (under_cursor s1) [0..<MAX_WIN] of
              Some i \<Rightarrow> (True, s1\<lparr>drag_idx := Some i, drag_ox := i32 (mouse_x s1 - c_x (clients s1 ! i)),
                              drag_oy := i32 (mouse_y s1 - c_y (clients s1 ! i)), focused := i\<rparr>)
            | None \<Rightarrow> (False, s1))
         else if left_down then
           (case drag_idx s1 of
              Some idx \<Rightarrow> (True, upd_client idx (\<lambda>c. c\<lparr>c_x := i32 (mouse_x s1 - drag_ox s1), c_y := i32 (mouse_y s1 - drag_oy s1)\<rparr>) s1)
            | None \<Rightarrow> (False, s1))
         else (False, s1))"

section \<open>The main loop\<close>

definition wm_start :: "u64 \<Rightarrow> wm \<times> ucall list" where
  "wm_start packed =
     (let (idx, s1) = add_client 0xFF (bytes ''welcome'') wm_new
      in draw_scene packed ((upd_client idx (\<lambda>c. c\<lparr>c_tags := 1\<rparr>) s1)\<lparr>focused := idx\<rparr>))"

fun drain_ipc :: "rwm_msg list \<Rightarrow> wm \<Rightarrow> bool \<times> wm \<times> ucall list" where
  "drain_ipc [] s = (False, s, [])"
| "drain_ipc (m # ms) s =
     (case handle_ipc_msg m s of (changed, s1, out) \<Rightarrow>
        (case drain_ipc ms s1 of (changed', s2, out') \<Rightarrow> (changed \<or> changed', s2, out @ out')))"

definition key_turn :: "u64 \<Rightarrow> key_event \<Rightarrow> wm \<Rightarrow> key_outcome" where
  "key_turn ret ev s =
     (if keycode ev = KEY_MOD then Key False (s\<lparr>mod_dn := pressed ev\<rparr>) []
      else if keycode ev = KEY_SHIFT then Key False (s\<lparr>shift_dn := pressed ev\<rparr>) []
      else if keycode ev = KEY_CTRL then Key False (s\<lparr>ctrl_dn := pressed ev\<rparr>) []
      else handle_key ret (keycode ev) (pressed ev) s)"

text \<open>What one turn of the loop gets from the kernel: the waiting messages, a key, a mouse event, the result of
  \<open>sys_spawn\<close> if it is called, and the clock.\<close>

record wm_input =
  in_msgs :: "rwm_msg list"
  in_key :: "key_event option"
  in_mouse :: "mouse_event option"
  in_spawn :: u64
  in_clock :: u64

definition wm_turn :: "u32 \<Rightarrow> wm_input \<Rightarrow> wm \<Rightarrow> (u32 \<times> wm) option \<times> ucall list" where
  "wm_turn idle_ticks inp s =
     (let ticks = idle_ticks + 1;
          (ipc_changed, s1, out1) = drain_ipc (in_msgs inp) s
      in case (case in_key inp of None \<Rightarrow> Key False s1 [] | Some ev \<Rightarrow> key_turn (in_spawn inp) ev s1) of
           Quit out2 \<Rightarrow> (None, out1 @ out2)
         | Key key_changed s2 out2 \<Rightarrow>
             (let (mouse_changed, s3) = (case in_mouse inp of None \<Rightarrow> (False, s2) | Some ev \<Rightarrow> handle_mouse ev s2);
                  s4 = (if ticks mod 100000 = 0 then s3\<lparr>dirty := True\<rparr> else s3);
                  (s5, out3) = (if ipc_changed \<or> key_changed \<or> mouse_changed \<or> dirty s4
                                then (case draw_scene (in_clock inp) s4 of (s', out) \<Rightarrow> (s'\<lparr>dirty := False\<rparr>, out))
                                else (s4, []));
                  out4 = (if ticks mod 200000 = 0 then [WriteLog (bytes ''[Cogman] All quiet on the desktop, sir.'' @ [0x0D, 0x0A])] else [])
              in (Some (ticks, s5), out1 @ out2 @ out3 @ out4)))"

text \<open>The states the window manager can be in at the start of a turn.\<close>

inductive wm_reachable :: "u32 \<times> wm \<Rightarrow> bool" where
  start: "wm_reachable (0, fst (wm_start packed))"
| turn: "wm_reachable (k, s) \<Longrightarrow> wm_turn k inp s = (Some r, out) \<Longrightarrow> wm_reachable r"

end
