(* ===== verification/Wm_Safety.thy ===== *)
theory Wm_Safety
  imports Wm_Events
begin

text \<open>
  Properties of the window manager: the invariant of its state, kept by every handler and so by every turn of the main
  loop; tiled windows never overlap; focus moves around all visible windows; every window learns its size; characters
  are drawn pixel by pixel as the font has them.
\<close>

section \<open>The invariant\<close>

definition client_ok :: "client \<Rightarrow> bool" where
  "client_ok c \<longleftrightarrow> length (c_title c) = 20 \<and> c_title_len c \<le> 20 \<and> (c_alive c \<longrightarrow> c_tags c \<noteq> 0)"

text \<open>Someone has the focus as long as there is a window to see.\<close>

definition focus_ok :: "wm \<Rightarrow> bool" where
  "focus_ok s \<longleftrightarrow> c_alive (clients s ! focused s) \<or> (\<forall>i<MAX_WIN. \<not> is_visible s i)"

definition wm_base :: "wm \<Rightarrow> bool" where
  "wm_base s \<longleftrightarrow> screen_ok s \<and> list_all client_ok (clients s) \<and> wm_n s = length (filter c_alive (clients s)) \<and>
     focused s < MAX_WIN \<and> length (tagset s) = 2 \<and> sel_tags_idx s < 2 \<and> 0 \<notin> set (tagset s) \<and> 5 dvd mfact s \<and>
     (\<forall>i. drag_idx s = Some i \<longrightarrow> i < MAX_WIN) \<and> mouse_x s \<in> {0..<1920} \<and> mouse_y s \<in> {0..<1080}"

definition wm_inv :: "wm \<Rightarrow> bool" where
  "wm_inv s \<longleftrightarrow> wm_base s \<and> focus_ok s"

text \<open>What visibility depends on.\<close>

definition presence :: "wm \<Rightarrow> (bool \<times> u32) list" where
  "presence s = map (\<lambda>c. (c_alive c, c_tags c)) (clients s)"

lemma presence_nth:
  assumes "presence s' = presence s" "i < length (clients s)"
  shows "c_alive (clients s' ! i) = c_alive (clients s ! i)" "c_tags (clients s' ! i) = c_tags (clients s ! i)"
proof -
  have "length (clients s') = length (clients s)" using arg_cong [OF assms(1), of length] by (simp add: presence_def)
  then have "presence s' ! i = (c_alive (clients s' ! i), c_tags (clients s' ! i))" "presence s ! i = (c_alive (clients s ! i), c_tags (clients s ! i))"
    using assms(2) by (simp_all add: presence_def)
  with assms(1) show "c_alive (clients s' ! i) = c_alive (clients s ! i)" "c_tags (clients s' ! i) = c_tags (clients s ! i)" by auto
qed

lemma presence_length: "presence s' = presence s \<Longrightarrow> length (clients s') = length (clients s)"
  by (drule arg_cong [of _ _ length]) (simp add: presence_def)

lemma presence_count: "presence s' = presence s \<Longrightarrow> length (filter c_alive (clients s')) = length (filter c_alive (clients s))"
proof -
  have "length (filter c_alive (clients s)) = length (filter fst (presence s))" for s
    by (simp add: presence_def filter_map comp_def)
  then show "presence s' = presence s \<Longrightarrow> ?thesis" by simp
qed

lemma visible_cong:
  "presence s' = presence s \<Longrightarrow> tagset s' = tagset s \<Longrightarrow> sel_tags_idx s' = sel_tags_idx s \<Longrightarrow> i < length (clients s) \<Longrightarrow>
   is_visible s' i = is_visible s i"
  using presence_nth [of s' s i] by (simp add: is_visible_def sel_tags_def)

lemma inv_frame:
  assumes "wm_inv s" "presence s' = presence s" "list_all client_ok (clients s')"
    "wm_n s' = wm_n s" "focused s' = focused s" "tagset s' = tagset s" "sel_tags_idx s' = sel_tags_idx s"
    "wm_sw s' = wm_sw s" "wm_sh s' = wm_sh s" "mfact s' = mfact s"
    "drag_idx s' = drag_idx s" "mouse_x s' = mouse_x s" "mouse_y s' = mouse_y s"
  shows "wm_inv s'"
proof -
  have len: "length (clients s) = MAX_WIN" "focused s < MAX_WIN" using assms(1) by (auto simp: wm_inv_def wm_base_def screen_ok_def)
  have "focus_ok s'"
    using assms(1) presence_nth [OF assms(2), of "focused s"] visible_cong [OF assms(2,6,7)] len assms(5)
    by (auto simp: wm_inv_def focus_ok_def)
  then show ?thesis using assms(1,3-13) presence_length [OF assms(2)] presence_count [OF assms(2)]
    by (simp add: wm_inv_def wm_base_def screen_ok_def)
qed

lemma list_all_update: "list_all P xs \<Longrightarrow> P x \<Longrightarrow> list_all P (xs[i := x])"
  by (cases "i < length xs") (simp_all add: list_all_length nth_list_update list_update_beyond)

lemma presence_upd:
  "c_alive (f (clients s ! i)) = c_alive (clients s ! i) \<Longrightarrow> c_tags (f (clients s ! i)) = c_tags (clients s ! i) \<Longrightarrow>
   presence (upd_client i f s) = presence s"
  unfolding presence_def upd_client_def
  by (cases "i < length (clients s)") (auto intro!: nth_equalityI simp: nth_list_update list_update_beyond)

lemma inv_client: "wm_inv s \<Longrightarrow> i < MAX_WIN \<Longrightarrow> client_ok (clients s ! i)"
  by (auto simp: wm_inv_def wm_base_def screen_ok_def list_all_length)

lemma inv_bounds: "wm_inv s \<Longrightarrow> focused s < MAX_WIN" "wm_inv s \<Longrightarrow> length (clients s) = MAX_WIN"
  by (auto simp: wm_inv_def wm_base_def screen_ok_def)

lemma upd_client_fields [simp]:
  "wm_n (upd_client i f s) = wm_n s" "focused (upd_client i f s) = focused s" "tagset (upd_client i f s) = tagset s"
  "sel_tags_idx (upd_client i f s) = sel_tags_idx s" "wm_sw (upd_client i f s) = wm_sw s" "wm_sh (upd_client i f s) = wm_sh s"
  "mfact (upd_client i f s) = mfact s" "drag_idx (upd_client i f s) = drag_idx s" "mouse_x (upd_client i f s) = mouse_x s"
  "mouse_y (upd_client i f s) = mouse_y s" "sel_tags (upd_client i f s) = sel_tags s"
  "length (clients (upd_client i f s)) = length (clients s)"
  by (simp_all add: upd_client_def sel_tags_def)

text \<open>Changes of a window that leave its life and its tags alone.\<close>

lemma inv_upd:
  assumes "wm_inv s" "i < MAX_WIN" "c_alive (f (clients s ! i)) = c_alive (clients s ! i)" "c_tags (f (clients s ! i)) = c_tags (clients s ! i)"
    "c_title (f (clients s ! i)) = c_title (clients s ! i)" "c_title_len (f (clients s ! i)) = c_title_len (clients s ! i)"
  shows "wm_inv (upd_client i f s)"
proof (rule inv_frame [OF assms(1)])
  show "presence (upd_client i f s) = presence s" by (rule presence_upd) (use assms in auto)
  have "client_ok (f (clients s ! i))" using inv_client [OF assms(1,2)] assms by (simp add: client_ok_def)
  then show "list_all client_ok (clients (upd_client i f s))"
    using assms(1) by (simp add: upd_client_def wm_inv_def wm_base_def list_all_update)
qed simp_all

lemma find_SomeD: "List.find P xs = Some x \<Longrightarrow> P x \<and> x \<in> set xs"
  by (auto simp: find_Some_iff dest: nth_mem)

lemma next_visible_cases:
  "from < MAX_WIN \<Longrightarrow> next_visible s from < MAX_WIN \<and> (is_visible s (next_visible s from) \<or>
     next_visible s from = from \<and> (\<forall>i<MAX_WIN. \<not> is_visible s i))"
proof -
  assume f: "from < MAX_WIN"
  let ?l = "map (\<lambda>off. ((from + 1) mod MAX_WIN + off) mod MAX_WIN) [0..<MAX_WIN]"
  have all: "i \<in> set ?l" if "i < MAX_WIN" for i
  proof -
    let ?a = "(from + 1) mod MAX_WIN"
    have "(?a + (i + MAX_WIN - ?a) mod MAX_WIN) mod MAX_WIN = i"
      using that by (simp add: MAX_WIN_def mod_add_right_eq)
    then show ?thesis using that by (auto intro!: image_eqI [of _ _ "(i + MAX_WIN - ?a) mod MAX_WIN"] simp: MAX_WIN_def)
  qed
  show ?thesis
  proof (cases "List.find (is_visible s) ?l")
    case None
    then have "next_visible s from = from" by (simp add: next_visible_def Let_def)
    moreover have "\<forall>i<MAX_WIN. \<not> is_visible s i" using None all by (metis find_None_iff)
    ultimately show ?thesis using f by simp
  next
    case (Some i)
    then have "is_visible s i" "i < MAX_WIN" by (auto dest!: find_SomeD simp: MAX_WIN_def)
    with Some show ?thesis by (simp add: next_visible_def Let_def)
  qed
qed

lemma prev_visible_cases:
  "from < MAX_WIN \<Longrightarrow> prev_visible s from < MAX_WIN \<and> (is_visible s (prev_visible s from) \<or>
     prev_visible s from = from \<and> (\<forall>i<MAX_WIN. \<not> is_visible s i))"
proof -
  assume f: "from < MAX_WIN"
  let ?l = "map (\<lambda>off. (from + MAX_WIN - off) mod MAX_WIN) [1..<MAX_WIN + 1]"
  have all: "i \<in> set ?l" if "i < MAX_WIN" for i
  proof (cases "i < from")
    case True
    then have "(from + MAX_WIN - (from - i)) mod MAX_WIN = i" "from - i \<in> set [1..<MAX_WIN + 1]" using f that by auto
    then show ?thesis by (metis (no_types, lifting) image_eqI set_map)
  next
    case False
    then have "(from + MAX_WIN - (from + MAX_WIN - i)) mod MAX_WIN = i" "from + MAX_WIN - i \<in> set [1..<MAX_WIN + 1]" using f that by auto
    then show ?thesis by (metis (no_types, lifting) image_eqI set_map)
  qed
  show ?thesis
  proof (cases "List.find (is_visible s) ?l")
    case None
    then have "prev_visible s from = from" unfolding prev_visible_def by (simp only: option.case)
    moreover have "\<forall>i<MAX_WIN. \<not> is_visible s i" using None all by (metis find_None_iff)
    ultimately show ?thesis using f by simp
  next
    case (Some i)
    then have "is_visible s i" "i < MAX_WIN" by (auto dest!: find_SomeD simp: MAX_WIN_def)
    with Some show ?thesis unfolding prev_visible_def by (simp only: option.case simp_thms)
  qed
qed

section \<open>Every operation keeps the invariant\<close>

lemma visible_alive: "is_visible s i \<Longrightarrow> c_alive (clients s ! i)"
  by (simp add: is_visible_def)

lemma is_visible_focused [simp]: "is_visible (s\<lparr>focused := f\<rparr>) i = is_visible s i"
  by (simp add: is_visible_def sel_tags_def)

lemma inv_focus_alive: "wm_base s \<Longrightarrow> i < MAX_WIN \<Longrightarrow> c_alive (clients s ! i) \<Longrightarrow> wm_inv (s\<lparr>focused := i\<rparr>)"
  by (auto simp: wm_inv_def wm_base_def focus_ok_def screen_ok_def)

lemma inv_next_visible: "wm_base s \<Longrightarrow> i < MAX_WIN \<Longrightarrow> wm_inv (s\<lparr>focused := next_visible s i\<rparr>)"
  using next_visible_cases [of i s] visible_alive [of s "next_visible s i"]
  by (auto simp: wm_inv_def wm_base_def focus_ok_def screen_ok_def)

lemma inv_prev_visible: "wm_base s \<Longrightarrow> i < MAX_WIN \<Longrightarrow> wm_inv (s\<lparr>focused := prev_visible s i\<rparr>)"
  using prev_visible_cases [of i s] visible_alive [of s "prev_visible s i"]
  by (auto simp: wm_inv_def wm_base_def focus_ok_def screen_ok_def)

lemma inv_base: "wm_inv s \<Longrightarrow> wm_base s"
  by (simp add: wm_inv_def)

lemma base_focused: "wm_base s \<Longrightarrow> focused s < MAX_WIN"
  by (simp add: wm_base_def)

lemma refocus_inv: "wm_base s \<Longrightarrow> wm_inv (refocus s)"
  using inv_next_visible [of s "focused s"] visible_alive [of s "focused s"]
  by (auto simp: refocus_def base_focused wm_inv_def focus_ok_def)

lemma focus_next_inv [inv_intros]: "wm_inv s \<Longrightarrow> wm_inv (focus_next s)"
  by (simp add: focus_next_def inv_next_visible inv_base base_focused)

lemma focus_prev_inv [inv_intros]: "wm_inv s \<Longrightarrow> wm_inv (focus_prev s)"
  by (simp add: focus_prev_def inv_prev_visible inv_base base_focused)

lemma base_tagset:
  assumes "wm_base s" "i < 2" "t \<noteq> 0"
  shows "wm_base (s\<lparr>sel_tags_idx := i, tagset := (tagset s)[j := t]\<rparr>)"
proof -
  have "0 \<notin> set ((tagset s)[j := t])"
    using assms set_update_subset_insert [of "tagset s" j t] by (auto simp: wm_base_def)
  with assms show ?thesis by (simp add: wm_base_def screen_ok_def)
qed

lemma view_tag_inv [inv_intros]: "wm_inv s \<Longrightarrow> t \<noteq> 0 \<Longrightarrow> wm_inv (view_tag t s)"
  unfolding view_tag_def Let_def by (rule refocus_inv, rule base_tagset) (simp_all add: inv_base other_idx_def)

lemma toggle_view_inv [inv_intros]: "wm_inv s \<Longrightarrow> wm_inv (toggle_view t s)"
proof -
  assume i: "wm_inv s"
  have "wm_base (s\<lparr>tagset := (tagset s)[sel_tags_idx s := u]\<rparr>)" if "u \<noteq> 0" for u
    using base_tagset [of s "sel_tags_idx s" u "sel_tags_idx s"] inv_base [OF i] that by (simp add: wm_base_def)
  with i show ?thesis by (auto simp: toggle_view_def Let_def intro!: refocus_inv dest: inv_base)
qed

lemma view_prev_tag_inv [inv_intros]: "wm_inv s \<Longrightarrow> wm_inv (view_prev_tag s)"
  unfolding view_prev_tag_def
  by (rule refocus_inv) (simp add: wm_inv_def wm_base_def screen_ok_def other_idx_def)

lemma find_index_Some: "find_index P xs = Some i \<Longrightarrow> i < length xs \<and> P (xs ! i)"
  by (induction xs arbitrary: i) (auto split: if_splits)

lemma find_index_None: "find_index P xs = None \<longleftrightarrow> (\<forall>x\<in>set xs. \<not> P x)"
  by (induction xs) auto

lemma count_alive_update:
  "i < length cs \<Longrightarrow> length (filter c_alive (cs[i := c])) + of_bool (c_alive (cs ! i)) =
   length (filter c_alive cs) + of_bool (c_alive c)"
proof (induction cs arbitrary: i)
  case (Cons a cs)
  then show ?case by (cases i) auto
qed simp

lemma new_client_ok: "tags \<noteq> 0 \<Longrightarrow> client_ok (new_client tags pr title)"
  by (simp add: client_ok_def new_client_def set_title_def client_empty_def Let_def)

lemma new_client_alive [simp]: "c_alive (new_client tags pr title)" "c_tags (new_client tags pr title) = tags"
  "\<not> c_floating (new_client tags pr title)" "\<not> c_fullscreen (new_client tags pr title)"
  by (simp_all add: new_client_def set_title_def client_empty_def Let_def)

lemma sel_tags_nonzero: "wm_base s \<Longrightarrow> sel_tags s \<noteq> 0"
  by (metis sel_tags_def wm_base_def nth_mem)

lemma add_client_inv:
  assumes "wm_base s" "add_client pr title s = (i, s')"
  shows "i < MAX_WIN" "wm_base s'" "clients s' ! i = new_client (sel_tags s) pr title" "sel_tags s' = sel_tags s"
proof -
  let ?c = "new_client (sel_tags s) pr title"
  have ok: "client_ok ?c" "list_all client_ok (clients s)" "length (clients s) = MAX_WIN"
    using assms(1) sel_tags_nonzero [OF assms(1)] by (auto simp: new_client_ok wm_base_def screen_ok_def)
  have "i < MAX_WIN \<and> wm_base s' \<and> clients s' ! i = ?c \<and> sel_tags s' = sel_tags s"
  proof (cases "find_index (\<lambda>c. \<not> c_alive c) (clients s)")
    case (Some j)
    then have j: "j < MAX_WIN" "\<not> c_alive (clients s ! j)" using find_index_Some ok(3) by fastforce+
    with count_alive_update [of j "clients s" ?c] ok Some assms show ?thesis
      by (auto simp: add_client_def Let_def wm_base_def screen_ok_def list_all_update sel_tags_def)
  next
    case None
    let ?j = "(focused s + 1) mod MAX_WIN"
    have j: "?j < MAX_WIN" by (simp add: MAX_WIN_def)
    then have "c_alive (clients s ! ?j)" using None ok(3) by (simp add: find_index_None)
    with count_alive_update [of ?j "clients s" ?c] ok None assms j show ?thesis
      by (auto simp: add_client_def Let_def wm_base_def screen_ok_def list_all_update sel_tags_def)
  qed
  then show "i < MAX_WIN" "wm_base s'" "clients s' ! i = ?c" "sel_tags s' = sel_tags s" by auto
qed

lemma remove_client_inv [inv_intros]:
  assumes "wm_inv s"
  shows "wm_inv (remove_client i s)"
proof (cases "i \<ge> MAX_WIN \<or> \<not> c_alive (clients s ! i)")
  case False
  let ?s = "s\<lparr>clients := (clients s)[i := client_empty], wm_n := (if wm_n s > 0 then wm_n s - 1 else wm_n s)\<rparr>"
  have len: "length (clients s) = MAX_WIN" using inv_bounds(2) [OF assms] .
  have e: "client_ok client_empty" "\<not> c_alive client_empty" by (simp_all add: client_ok_def client_empty_def)
  have base: "wm_base ?s"
    using assms False count_alive_update [of i "clients s" client_empty] e len
    by (auto simp: wm_inv_def wm_base_def screen_ok_def list_all_update)
  show ?thesis
  proof (cases "focused s = i")
    case True
    then show ?thesis using False base inv_next_visible [OF base, of i] by (simp add: remove_client_def Let_def)
  next
    case other: False
    have "is_visible ?s j \<Longrightarrow> j < MAX_WIN \<Longrightarrow> is_visible s j" for j
      using e len by (cases "j = i") (auto simp: is_visible_def sel_tags_def nth_list_update)
    then have "focus_ok ?s" using assms other False len by (auto simp: wm_inv_def focus_ok_def)
    with False other base show ?thesis by (simp add: remove_client_def Let_def wm_inv_def)
  qed
qed (use assms in \<open>simp add: remove_client_def\<close>)

lemma toggle_floating_inv [inv_intros]: "wm_inv s \<Longrightarrow> wm_inv (toggle_floating i s)"
  by (auto simp: toggle_floating_def intro!: inv_upd)

lemma toggle_fullscreen_inv [inv_intros]: "wm_inv s \<Longrightarrow> i < MAX_WIN \<Longrightarrow> wm_inv (toggle_fullscreen i s)"
  by (auto simp: toggle_fullscreen_def Let_def intro!: inv_upd)

text \<open>New tags for a live window that has the focus.\<close>

lemma inv_retag:
  assumes "wm_inv s" "c_alive (clients s ! focused s)" "t \<noteq> 0"
  shows "wm_inv (upd_client (focused s) (\<lambda>c. c\<lparr>c_tags := t\<rparr>) s)"
proof -
  have f: "focused s < MAX_WIN" "length (clients s) = MAX_WIN" using inv_bounds [OF assms(1)] by auto
  have "client_ok ((clients s ! focused s)\<lparr>c_tags := t\<rparr>)" using inv_client [OF assms(1) f(1)] assms(3) by (simp add: client_ok_def)
  then show ?thesis
    using assms f count_alive_update [of "focused s" "clients s" "(clients s ! focused s)\<lparr>c_tags := t\<rparr>"]
    by (auto simp: wm_inv_def wm_base_def screen_ok_def focus_ok_def upd_client_def list_all_update)
qed

lemma toggle_client_tag_inv [inv_intros]: "wm_inv s \<Longrightarrow> wm_inv (toggle_client_tag (focused s) t s)"
  by (auto simp: toggle_client_tag_def Let_def intro!: inv_retag)

lemma move_to_tag_inv [inv_intros]: "wm_inv s \<Longrightarrow> t \<noteq> 0 \<Longrightarrow> wm_inv (move_to_tag (focused s) t s)"
  by (auto simp: move_to_tag_def intro!: inv_retag)

lemma tiled_visible: "i \<in> set (visible_tiled s) \<Longrightarrow> i < MAX_WIN \<and> is_visible s i"
  by (simp add: visible_tiled_def)

lemma zoom_inv [inv_intros]:
  assumes "wm_inv s"
  shows "wm_inv (zoom s)"
proof (cases "length (visible_tiled s) < 2")
  case False
  let ?t = "visible_tiled s"
  define m where "m = (if ?t ! 0 = focused s then ?t ! 1 else focused s)"
  let ?o = "?t ! 0"
  have t: "?t ! 0 \<in> set ?t" "?t ! 1 \<in> set ?t" using False by (auto intro!: nth_mem)
  have "?t \<noteq> []" using False by auto
  then have d: "?t ! 0 \<noteq> ?t ! 1" using False nth_eq_iff_index_eq [OF distinct_visible_tiled, of 0 s 1] by (simp add: not_less)
  have o: "?o < MAX_WIN" "c_alive (clients s ! ?o)" using tiled_visible [OF t(1)] visible_alive by auto
  have "c_alive (clients s ! focused s)" using assms tiled_visible [OF t(1)] by (auto simp: wm_inv_def focus_ok_def)
  then have m: "m < MAX_WIN" "c_alive (clients s ! m)" "m \<noteq> ?o"
    using tiled_visible [OF t(2)] visible_alive inv_bounds(1) [OF assms] d by (auto simp: m_def)
  have len: "length (clients s) = MAX_WIN" using inv_bounds(2) [OF assms] .
  let ?A = "(clients s ! m)\<lparr>c_tags := c_tags (clients s ! ?o)\<rparr>" and ?B = "(clients s ! ?o)\<lparr>c_tags := c_tags (clients s ! m)\<rparr>"
  have eq: "zoom s = s\<lparr>clients := (clients s)[m := ?B, ?o := ?A], focused := ?o\<rparr>"
  proof -
    have "(if ?o = focused s then (?t ! 1, ?o) else (focused s, ?o)) = (m, ?o)" by (simp add: m_def)
    then have "zoom s = s\<lparr>clients := (clients s)[m := ?A, ?o := ?B, m := ?B, ?o := ?A], focused := ?o\<rparr>"
      unfolding zoom_def Let_def using False m len o by (simp add: upd_client_def)
    moreover have "(clients s)[m := ?A, ?o := ?B, m := ?B, ?o := ?A] = (clients s)[m := ?B, ?o := ?A]"
      by (rule nth_equalityI) (simp_all add: nth_list_update m o len)
    ultimately show ?thesis by simp
  qed
  have "client_ok ?A" "client_ok ?B" using inv_client [OF assms m(1)] inv_client [OF assms o(1)] m(2) o(2) by (auto simp: client_ok_def)
  moreover have "length (filter c_alive ((clients s)[m := ?B, ?o := ?A])) = length (filter c_alive (clients s))"
    using count_alive_update [of m "clients s" ?B] count_alive_update [of ?o "(clients s)[m := ?B]" ?A] m o len by simp
  ultimately show ?thesis unfolding eq using assms m o len
    by (auto simp: wm_inv_def wm_base_def screen_ok_def focus_ok_def list_all_update)
qed (use assms in \<open>simp add: zoom_def\<close>)

lemma arrange_fields [simp]:
  "wm_n (arrange s) = wm_n s" "focused (arrange s) = focused s" "tagset (arrange s) = tagset s"
  "sel_tags_idx (arrange s) = sel_tags_idx s" "wm_sw (arrange s) = wm_sw s" "wm_sh (arrange s) = wm_sh s"
  "mfact (arrange s) = mfact s" "drag_idx (arrange s) = drag_idx s" "mouse_x (arrange s) = mouse_x s" "mouse_y (arrange s) = mouse_y s"
  "length (clients (arrange s)) = length (clients s)" "sel_tags (arrange s) = sel_tags s"
  by (simp_all add: arrange_def sel_tags_def)

lemma arranged_geometry:
  assumes "length (clients s) = MAX_WIN"
  obtains x y w h where "clients (arrange s) ! i = (clients s ! i)\<lparr>c_x := x, c_y := y, c_w := w, c_h := h\<rparr>"
proof (cases "i \<in> set (visible_tiled s)")
  case True
  then show ?thesis using arranged_window [OF assms True] that by metis
next
  case False
  show ?thesis
    by (rule that [where x = "c_x (clients s ! i)" and y = "c_y (clients s ! i)" and w = "c_w (clients s ! i)" and h = "c_h (clients s ! i)"])
      (simp add: arranged_other [OF False])
qed

lemma arranged_same:
  assumes "length (clients s) = MAX_WIN"
  shows "c_alive (clients (arrange s) ! i) = c_alive (clients s ! i)" "c_tags (clients (arrange s) ! i) = c_tags (clients s ! i)"
    "c_title (clients (arrange s) ! i) = c_title (clients s ! i)" "c_title_len (clients (arrange s) ! i) = c_title_len (clients s ! i)"
    "c_pid (clients (arrange s) ! i) = c_pid (clients s ! i)" "c_surface_id (clients (arrange s) ! i) = c_surface_id (clients s ! i)"
    "c_notified_cw (clients (arrange s) ! i) = c_notified_cw (clients s ! i)" "c_notified_ch (clients (arrange s) ! i) = c_notified_ch (clients s ! i)"
  by (rule arranged_geometry [OF assms, of i]; simp)+

lemma arrange_inv [inv_intros]:
  assumes "wm_inv s"
  shows "wm_inv (arrange s)"
proof (rule inv_frame [OF assms])
  have len: "length (clients s) = MAX_WIN" using inv_bounds(2) [OF assms] .
  show "presence (arrange s) = presence s"
    unfolding presence_def by (rule nth_equalityI) (simp_all add: arranged_same [OF len])
  show "list_all client_ok (clients (arrange s))"
    using inv_client [OF assms] by (simp add: list_all_length client_ok_def arranged_same [OF len] len)
qed simp_all

lemma notify_one_cases:
  obtains "notify_one i (s, out) = (s, out)" "\<not> rdp_client (clients s ! i) \<or>
      (c_notified_cw (clients s ! i), c_notified_ch (clients s ! i)) = content_dims (c_w (clients s ! i)) (c_h (clients s ! i))"
  | cw ch logs where "notify_one i (s, out) = (upd_client i (\<lambda>c. c\<lparr>c_notified_cw := cw, c_notified_ch := ch\<rparr>) s,
        out @ send_kdp_resize (c_pid (clients s ! i)) (c_surface_id (clients s ! i)) (c_w (clients s ! i)) (c_h (clients s ! i)) # map WriteLog logs)"
      "rdp_client (clients s ! i)" "(cw, ch) = content_dims (c_w (clients s ! i)) (c_h (clients s ! i))"
      "(c_notified_cw (clients s ! i), c_notified_ch (clients s ! i)) \<noteq> (cw, ch)"
proof -
  let ?c = "clients s ! i"
  obtain cw ch where d: "content_dims (c_w ?c) (c_h ?c) = (cw, ch)" by (cases "content_dims (c_w ?c) (c_h ?c)") auto
  show ?thesis
  proof (cases "rdp_client ?c \<and> (cw \<noteq> c_notified_cw ?c \<or> ch \<noteq> c_notified_ch ?c)")
    case True
    show ?thesis
      by (rule that(2) [where cw = cw and ch = ch and logs = "[bytes ''[WM] Pardon me, sir - resizing '' @ [0x27], shown_title ?c,
           0x27 # bytes '' to fit the new arrangement.'' @ [0x0D, 0x0A]]"])
        (use True d in \<open>auto simp: notify_one_def Let_def\<close>)
  next
    case False
    then show ?thesis using d by (intro that(1)) (auto simp: notify_one_def Let_def)
  qed
qed

lemma notify_one_inv: "wm_inv (fst r) \<Longrightarrow> i < MAX_WIN \<Longrightarrow> wm_inv (fst (notify_one i r))"
  by (cases r, rule notify_one_cases [of i "fst r" "snd r"]) (auto intro!: inv_upd)

lemma fold_notify_inv: "wm_inv (fst r) \<Longrightarrow> set is \<subseteq> {..<MAX_WIN} \<Longrightarrow> wm_inv (fst (fold notify_one is r))"
proof (induction "is" arbitrary: r)
  case (Cons i "is")
  then show ?case using notify_one_inv [of r i] Cons.IH [of "notify_one i r"] by simp
qed simp

lemma notify_inv [inv_intros]: "wm_inv s \<Longrightarrow> wm_inv (fst (notify_layout_changes s))"
  unfolding notify_layout_changes_def by (rule fold_notify_inv) auto

lemma draw_scene_inv [inv_intros]: "wm_inv s \<Longrightarrow> wm_inv (fst (draw_scene packed s))"
  using notify_inv [OF arrange_inv] by (simp add: draw_scene_def split: prod.splits) force

lemma client_update_same [simp]: "i < length (clients s) \<Longrightarrow> clients (upd_client i f s) ! i = f (clients s ! i)"
  by (simp add: upd_client_def)

lemma upd_client_focused: "upd_client i f (s\<lparr>focused := j\<rparr>) = (upd_client i f s)\<lparr>focused := j\<rparr>"
  by (cases s) (simp add: upd_client_def)

lemma inv_add_focus:
  assumes "wm_inv s" "add_client pr title s = (i, s1)"
    and that: "\<And>c. c_alive (f c) = c_alive c" "\<And>c. c_tags (f c) = c_tags c" "\<And>c. c_title (f c) = c_title c" "\<And>c. c_title_len (f c) = c_title_len c"
  shows "wm_inv ((upd_client i f s1)\<lparr>focused := i\<rparr>)"
proof -
  note a = add_client_inv [OF inv_base [OF assms(1)] assms(2)]
  have "wm_inv (s1\<lparr>focused := i\<rparr>)" using a by (intro inv_focus_alive) auto
  then have "wm_inv (upd_client i f (s1\<lparr>focused := i\<rparr>))" using a(1) that by (intro inv_upd) auto
  then show ?thesis by (simp add: upd_client_focused)
qed

lemma handle_connect_inv [inv_intros]: "wm_inv s \<Longrightarrow> wm_inv (fst (handle_connect sender sid title s))"
proof -
  assume i: "wm_inv s"
  obtain idx s1 where a: "add_client 0xFF title s = (idx, s1)" by fastforce
  let ?s = "arrange ((upd_client idx (\<lambda>c. c\<lparr>c_pid := sender, c_surface_id := sid\<rparr>) s1)\<lparr>focused := idx\<rparr>)"
  have "wm_inv ?s" by (intro arrange_inv inv_add_focus [OF i a]) auto
  moreover have "idx < MAX_WIN" using add_client_inv(1) [OF inv_base [OF i] a] .
  ultimately have "wm_inv (upd_client idx (\<lambda>c. c\<lparr>c_notified_cw := cw, c_notified_ch := ch\<rparr>) ?s)" for cw ch
    by (intro inv_upd) auto
  then show ?thesis by (simp add: handle_connect_def a Let_def split_beta)
qed

lemma handle_ipc_inv [inv_intros]: "wm_inv s \<Longrightarrow> wm_inv (fst (snd (handle_ipc_msg m s)))"
  by (auto simp: handle_ipc_msg_def Let_def split: option.splits intro: inv_intros)

lemma drain_ipc_inv: "wm_inv s \<Longrightarrow> wm_inv (fst (snd (drain_ipc ms s)))"
proof (induction ms arbitrary: s)
  case (Cons m ms)
  then show ?case using handle_ipc_inv [of s m] by (auto split: prod.splits) (metis fst_conv snd_conv)
qed simp

lemma inv_frame_fields:
  assumes "wm_inv s"
  shows "wm_inv (s\<lparr>show_bar := b\<rparr>)" "wm_inv (s\<lparr>nmaster := k\<rparr>)" "wm_inv (s\<lparr>prev_layout := l, wm_layout := l'\<rparr>)" "wm_inv (s\<lparr>gaps_on := b\<rparr>)"
    "wm_inv (s\<lparr>mod_dn := b\<rparr>)" "wm_inv (s\<lparr>shift_dn := b\<rparr>)" "wm_inv (s\<lparr>ctrl_dn := b\<rparr>)" "wm_inv (s\<lparr>dirty := b\<rparr>)"
proof -
  have l: "list_all client_ok (clients s)" using assms by (simp add: wm_inv_def wm_base_def)
  show "wm_inv (s\<lparr>show_bar := b\<rparr>)" "wm_inv (s\<lparr>nmaster := k\<rparr>)" "wm_inv (s\<lparr>prev_layout := l, wm_layout := l'\<rparr>)" "wm_inv (s\<lparr>gaps_on := b\<rparr>)"
    "wm_inv (s\<lparr>mod_dn := b\<rparr>)" "wm_inv (s\<lparr>shift_dn := b\<rparr>)" "wm_inv (s\<lparr>ctrl_dn := b\<rparr>)" "wm_inv (s\<lparr>dirty := b\<rparr>)"
    by (rule inv_frame [OF assms]; simp add: presence_def l)+
qed

lemma inv_mfact:
  assumes "wm_inv s"
  shows "mfact s > 10 \<Longrightarrow> wm_inv (s\<lparr>mfact := mfact s - 5\<rparr>)" "mfact s < 90 \<Longrightarrow> wm_inv (s\<lparr>mfact := mfact s + 5\<rparr>)"
proof -
  have v: "is_visible (s\<lparr>mfact := k\<rparr>) i = is_visible s i" for k i by (simp add: is_visible_def sel_tags_def)
  have d: "5 dvd mfact s" using assms by (simp add: wm_inv_def wm_base_def)
  then obtain q where q: "mfact s = 5 * q" ..
  show "mfact s > 10 \<Longrightarrow> wm_inv (s\<lparr>mfact := mfact s - 5\<rparr>)" "mfact s < 90 \<Longrightarrow> wm_inv (s\<lparr>mfact := mfact s + 5\<rparr>)"
    using assms q v by (auto simp: wm_inv_def wm_base_def screen_ok_def focus_ok_def intro: dvd_diff_nat)
qed

lemma tag_of_key_nonzero: "is_tag_key k \<Longrightarrow> tag_of_key k \<noteq> 0"
proof -
  assume k: "is_tag_key k"
  have "unat (k - KEY_1) = unat k - unat KEY_1" using k by (intro unat_sub) (simp add: is_tag_key_def)
  then have "unat (k - KEY_1) < 32" using k by (auto simp: is_tag_key_def key_codes word_le_nat_alt)
  then show ?thesis by (simp add: tag_of_key_def push_bit_eq_0_iff)
qed

lemma tag_key_inv [inv_intros]:
  "is_tag_key k \<Longrightarrow> wm_inv s \<Longrightarrow> wm_inv (view_tag (tag_of_key k) s)"
  "is_tag_key k \<Longrightarrow> wm_inv s \<Longrightarrow> wm_inv (move_to_tag (focused s) (tag_of_key k) s)"
  by (simp_all add: view_tag_inv move_to_tag_inv tag_of_key_nonzero)

lemma view_all_inv: "wm_inv s \<Longrightarrow> wm_inv (view_tag (push_bit TAG_CNT 1 - 1) s)"
  by (rule view_tag_inv) (simp_all add: TAG_CNT_def)

lemma spawn_window_inv [inv_intros]: "wm_inv s \<Longrightarrow> wm_inv (fst (spawn_window ret pr title s))"
  by (auto simp: spawn_window_def split_beta intro!: inv_add_focus simp: prod_eq_iff)

lemma mod_binding_inv: "mod_binding ret key s = Some (s', out) \<Longrightarrow> wm_inv s \<Longrightarrow> wm_inv s'"
proof -
  have all: "wm_inv s \<Longrightarrow> wm_inv (view_tag (2 ^ TAG_CNT - 1) s)" using view_all_inv [of s] by simp
  have sp: "spawn_window ret pr t s = (s', out) \<Longrightarrow> wm_inv s \<Longrightarrow> wm_inv s'" for pr t
    using spawn_window_inv [of s ret pr t] by simp
  show "mod_binding ret key s = Some (s', out) \<Longrightarrow> wm_inv s \<Longrightarrow> wm_inv s'"
    unfolding mod_binding_def
    by (auto split: if_splits intro: inv_intros inv_frame_fields inv_mfact sp all inv_bounds(1))
qed

lemma close_focused_inv: "wm_inv s \<Longrightarrow> wm_inv (fst (close_focused s))"
  by (auto simp: close_focused_def Let_def intro: inv_intros)

lemma handle_key_inv: "handle_key ret key down s = Key r s' out \<Longrightarrow> wm_inv s \<Longrightarrow> wm_inv s'"
  using close_focused_inv [of s]
  by (auto simp: handle_key_def split: if_splits option.splits prod.splits
      intro: mod_binding_inv inv_intros inv_frame_fields)

lemma key_turn_inv: "key_turn ret ev s = Key r s' out \<Longrightarrow> wm_inv s \<Longrightarrow> wm_inv s'"
  by (auto simp: key_turn_def split: if_splits intro: handle_key_inv inv_frame_fields)

lemma clamp_bounds: "lo \<le> hi \<Longrightarrow> clamp k lo hi \<in> {lo..hi}"
  by (auto simp: clamp_def)

lemma inv_mouse:
  assumes "wm_inv s" "x \<in> {0..<1920}" "y \<in> {0..<1080}" "\<And>i. d = Some i \<Longrightarrow> i < MAX_WIN"
  shows "wm_inv (s\<lparr>mouse_x := x, mouse_y := y, mouse_btn := b, drag_idx := d, drag_ox := ox, drag_oy := oy\<rparr>)"
proof -
  have "is_visible (s\<lparr>mouse_x := x, mouse_y := y, mouse_btn := b, drag_idx := d, drag_ox := ox, drag_oy := oy\<rparr>) i = is_visible s i" for i
    by (simp add: is_visible_def sel_tags_def)
  with assms show ?thesis by (simp add: wm_inv_def wm_base_def screen_ok_def focus_ok_def)
qed

lemma handle_mouse_inv:
  assumes "wm_inv s"
  shows "wm_inv (snd (handle_mouse ev s))"
proof -
  let ?x = "clamp (i32 (mouse_x s + sint (dx ev))) 0 (i32 (sint (wm_sw s) - 1))"
  let ?y = "clamp (i32 (mouse_y s + sint (dy ev))) 0 (i32 (sint (wm_sh s) - 1))"
  let ?s = "s\<lparr>mouse_x := ?x, mouse_y := ?y, mouse_btn := buttons ev\<rparr>"
  have scr: "wm_sw s = SCREEN_W" "wm_sh s = SCREEN_H" using assms by (auto simp: wm_inv_def wm_base_def screen_ok_def)
  have "i32 (sint (wm_sw s) - 1) = 1919" "i32 (sint (wm_sh s) - 1) = 1079"
    by (simp_all add: scr SCREEN_W_def SCREEN_H_def i32_small)
  then have xy: "?x \<in> {0..<1920}" "?y \<in> {0..<1080}" using clamp_bounds [of 0 1919 "i32 (mouse_x s + sint (dx ev))"] clamp_bounds [of 0 1079 "i32 (mouse_y s + sint (dy ev))"]
    by simp_all
  have d: "\<And>i. drag_idx s = Some i \<Longrightarrow> i < MAX_WIN" using assms by (simp add: wm_inv_def wm_base_def)
  have base: "wm_inv (s\<lparr>mouse_x := ?x, mouse_y := ?y, mouse_btn := buttons ev, drag_idx := dr, drag_ox := ox, drag_oy := oy\<rparr>)"
    if "\<And>i. dr = Some i \<Longrightarrow> i < MAX_WIN" for dr ox oy
    by (rule inv_mouse [OF assms xy]) (use that in auto)
  have s1: "wm_inv ?s" using base [where dr = "drag_idx s" and ox = "drag_ox s" and oy = "drag_oy s"] d by (cases s) simp
  have drop: "wm_inv (?s\<lparr>drag_idx := None\<rparr>)" using base [where dr = None and ox = "drag_ox s" and oy = "drag_oy s"] by (cases s) simp
  have grab: "wm_inv (?s\<lparr>drag_idx := Some i, drag_ox := ox, drag_oy := oy, focused := i\<rparr>)"
    if "List.find (under_cursor ?s) [0..<MAX_WIN] = Some i" for i ox oy
  proof -
    have "under_cursor ?s i" "i < MAX_WIN" using find_SomeD [OF that] by auto
    then show ?thesis using base [where dr = "Some i" and ox = ox and oy = oy]
      by (intro inv_focus_alive) (auto simp: under_cursor_def Let_def inv_base)
  qed
  have move: "wm_inv (upd_client i (\<lambda>c. c\<lparr>c_x := a, c_y := b\<rparr>) ?s)" if "drag_idx s = Some i" for i a b
    using s1 d [OF that] by (intro inv_upd) auto
  show ?thesis using s1 drop grab move
    by (auto simp: handle_mouse_def Let_def split: option.splits)
qed

section \<open>The desktop\<close>

lemma wm_new_base: "wm_base wm_new"
  by (simp add: wm_base_def wm_new_def screen_ok_def SCREEN_W_def SCREEN_H_def MAX_WIN_def client_ok_def client_empty_def
      list_all_length)

lemma wm_start_inv: "wm_inv (fst (wm_start packed))"
proof -
  obtain i s1 where a: "add_client 0xFF (bytes ''welcome'') wm_new = (i, s1)" by fastforce
  note c = add_client_inv [OF wm_new_base a]
  have "wm_inv (s1\<lparr>focused := i\<rparr>)" using c by (intro inv_focus_alive) auto
  then have "wm_inv (upd_client i (\<lambda>c. c\<lparr>c_tags := 1\<rparr>) (s1\<lparr>focused := i\<rparr>))"
    using inv_retag [of "s1\<lparr>focused := i\<rparr>" 1] c by simp
  then show ?thesis by (simp add: wm_start_def a draw_scene_inv upd_client_focused)
qed

lemma wm_turn_inv:
  assumes "wm_inv s" "wm_turn k inp s = (Some r, out)"
  shows "wm_inv (snd r)"
proof -
  obtain ch s1 out1 where d: "drain_ipc (in_msgs inp) s = (ch, s1, out1)" by (metis prod_cases3)
  have s1: "wm_inv s1" using drain_ipc_inv [OF assms(1), of "in_msgs inp"] d by simp
  let ?k = "case in_key inp of None \<Rightarrow> Key False s1 [] | Some ev \<Rightarrow> key_turn (in_spawn inp) ev s1"
  obtain kc s2 out2 where k: "?k = Key kc s2 out2" using assms(2) d by (auto simp: wm_turn_def Let_def split: key_outcome.splits)
  have s2: "wm_inv s2" using k s1 by (auto split: option.splits intro: key_turn_inv)
  obtain mc s3 where m: "(case in_mouse inp of None \<Rightarrow> (False, s2) | Some ev \<Rightarrow> handle_mouse ev s2) = (mc, s3)" by fastforce
  have s3: "wm_inv s3" using s2 handle_mouse_inv [OF s2] m by (auto split: option.splits) (metis snd_conv)
  define s4 where "s4 = (if (k + 1) mod 100000 = 0 then s3\<lparr>dirty := True\<rparr> else s3)"
  have s4: "wm_inv s4" using s3 inv_frame_fields(8) [OF s3] by (simp add: s4_def)
  have "snd r = s4 \<or> snd r = (fst (draw_scene (in_clock inp) s4))\<lparr>dirty := False\<rparr>"
    using assms(2) unfolding wm_turn_def Let_def d prod.case k key_outcome.case m s4_def [symmetric] by (auto simp: split_beta split: if_splits)
  then show ?thesis using s4 inv_frame_fields(8) [OF draw_scene_inv [OF s4]] by auto
qed

lemma reachable_inv: "wm_reachable r \<Longrightarrow> wm_inv (snd r)"
  by (induction rule: wm_reachable.induct) (auto simp: wm_start_inv intro: wm_turn_inv)

section \<open>Focus\<close>

text \<open>How many slots \<open>next_visible\<close> skips on the way from \<open>f\<close> to \<open>j\<close>.\<close>

definition ahead :: "nat \<Rightarrow> nat \<Rightarrow> nat" where
  "ahead f j = (if f < j then j - f - 1 else j + 15 - f)"

lemma ahead_pos: "f < 16 \<Longrightarrow> j < 16 \<Longrightarrow> ((f + 1) mod 16 + ahead f j) mod 16 = j \<and> ahead f j < 16"
proof -
  assume "f < 16" "j < 16"
  then have "(f + 1) + ahead f j = j \<or> (f + 1) + ahead f j = j + 16" "ahead f j < 16" by (auto simp: ahead_def)
  moreover from this(1) \<open>j < 16\<close> have "((f + 1) + ahead f j) mod 16 = j" by auto
  ultimately show ?thesis by (simp add: mod_add_left_eq)
qed

lemma ahead_at: "f < 16 \<Longrightarrow> k < 16 \<Longrightarrow> ahead f (((f + 1) mod 16 + k) mod 16) = k"
proof -
  assume a: "f < 16" "k < 16"
  then have "((f + 1) + k) mod 16 = (if f + 1 + k < 16 then f + 1 + k else f + 1 + k - 16)" by (simp add: mod_if)
  moreover have "((f + 1) mod 16 + k) mod 16 = ((f + 1) + k) mod 16" by (rule mod_add_left_eq)
  ultimately show ?thesis using a by (auto simp: ahead_def)
qed

lemma ahead_less: "f < 16 \<Longrightarrow> n < 16 \<Longrightarrow> j < 16 \<Longrightarrow> ahead f n \<le> ahead f j \<Longrightarrow> n \<noteq> j \<Longrightarrow> ahead n j < ahead f j"
  by (auto simp: ahead_def split: if_splits)

lemma next_visible_nearest:
  assumes "f < MAX_WIN" "j < MAX_WIN" "is_visible s j"
  shows "next_visible s f < MAX_WIN" "is_visible s (next_visible s f)" "ahead f (next_visible s f) \<le> ahead f j"
proof -
  let ?at = "\<lambda>off. ((f + 1) mod MAX_WIN + off) mod MAX_WIN"
  let ?n = "next_visible s f"
  show n: "?n < MAX_WIN" "is_visible s ?n" using next_visible_cases [OF assms(1), of s] assms by blast+
  have at: "?at (ahead f i) = i" "ahead f i < MAX_WIN" if "i < MAX_WIN" for i
    using ahead_pos [of f i] assms(1) that by (simp_all add: MAX_WIN_def)
  have "List.find (is_visible s) (map ?at [0..<MAX_WIN]) \<noteq> None"
    using assms(3) at [OF assms(2)] by (auto simp: find_None_iff intro!: bexI [of _ "ahead f j"])
  then obtain i where i: "List.find (is_visible s) (map ?at [0..<MAX_WIN]) = Some i" by blast
  then have "?n = i" unfolding next_visible_def Let_def by (simp only: option.case)
  with i obtain k where k: "k < MAX_WIN" "?n = ?at k" "\<And>m. m < k \<Longrightarrow> \<not> is_visible s (?at m)"
    by (auto simp: List.find_Some_iff)
  have "k \<le> ahead f j" using k(3) [of "ahead f j"] at [OF assms(2)] assms(3) by (metis not_le)
  moreover have "ahead f ?n = k" unfolding k(2) using ahead_at [of f k] assms(1) k(1) by (simp add: MAX_WIN_def)
  ultimately show "ahead f ?n \<le> ahead f j" by simp
qed

lemma prev_visible_nearest:
  assumes "n < MAX_WIN" "j < MAX_WIN" "is_visible s j"
  shows "prev_visible s n < MAX_WIN" "is_visible s (prev_visible s n)" "ahead (prev_visible s n) n \<le> ahead j n"
proof -
  let ?at = "\<lambda>off. (n + MAX_WIN - off) mod MAX_WIN"
  let ?p = "prev_visible s n"
  show p: "?p < MAX_WIN" "is_visible s ?p" using prev_visible_cases [OF assms(1), of s] assms by blast+
  have at: "?at (ahead i n + 1) = i" "ahead i n < MAX_WIN" if "i < MAX_WIN" for i
    using that assms(1) by (auto simp: ahead_def MAX_WIN_def)
  have bk: "ahead (?at (k + 1)) n = k" if "k < MAX_WIN" for k
  proof -
    have "?at (k + 1) = (if k < n then n - k - 1 else n + 15 - k)" using that assms(1) by (auto simp: MAX_WIN_def mod_if)
    then show ?thesis using that assms(1) by (auto simp: ahead_def MAX_WIN_def split: if_splits)
  qed
  let ?l = "map ?at [1..<MAX_WIN + 1]"
  have len: "length ?l = MAX_WIN" and nth: "?l ! k = ?at (k + 1)" if "k < MAX_WIN" for k using that by (simp_all del: upt_Suc)
  have "j \<in> set ?l" using at [OF assms(2)] by (auto intro!: image_eqI [of _ _ "ahead j n + 1"] simp del: upt_Suc)
  then obtain i where i: "List.find (is_visible s) ?l = Some i" using assms(3) by (metis find_None_iff option.exhaust)
  then have "?p = i" unfolding prev_visible_def by (simp only: option.case)
  with i obtain k where k: "k < MAX_WIN" "?p = ?at (k + 1)" "\<And>m. m < k \<Longrightarrow> \<not> is_visible s (?at (m + 1))"
    using len nth unfolding List.find_Some_iff by (metis (no_types, lifting) less_trans length_map length_upt add_diff_cancel_right')
  have "k \<le> ahead j n" using k(3) [of "ahead j n"] at [OF assms(2)] assms(3) by (metis not_le)
  then show "ahead ?p n \<le> ahead j n" unfolding k(2) bk [OF k(1)] .
qed

lemma focus_next_fields [simp]: "clients (focus_next s) = clients s" "sel_tags (focus_next s) = sel_tags s" "is_visible (focus_next s) i = is_visible s i"
  by (simp_all add: focus_next_def sel_tags_def is_visible_def)

lemma focus_next_reaches:
  "wm_inv s \<Longrightarrow> is_visible s j \<Longrightarrow> j < MAX_WIN \<Longrightarrow> \<exists>k. focused ((focus_next ^^ Suc k) s) = j"
proof (induction "ahead (focused s) j" arbitrary: s rule: less_induct)
  case less
  let ?n = "next_visible s (focused s)"
  have f: "focused s < MAX_WIN" using inv_bounds(1) [OF less.prems(1)] .
  note n = next_visible_nearest [OF f less.prems(3,2)]
  have step: "focused (focus_next s) = ?n" by (simp add: focus_next_def)
  show ?case
  proof (cases "?n = j")
    case True
    then show ?thesis by (intro exI [of _ 0]) (simp add: step)
  next
    case False
    have "ahead ?n j < ahead (focused s) j" using ahead_less [of "focused s" ?n j] n f less.prems(3) False by (simp add: MAX_WIN_def)
    then obtain k where "focused ((focus_next ^^ Suc k) (focus_next s)) = j"
      using less.hyps [of "focus_next s"] less.prems by (auto simp: step focus_next_inv)
    then show ?thesis by (intro exI [of _ "Suc k"]) (simp add: funpow_swap1)
  qed
qed

lemma focus_prev_next: "wm_inv s \<Longrightarrow> is_visible s (focused s) \<Longrightarrow> focus_prev (focus_next s) = s"
proof -
  assume i: "wm_inv s" "is_visible s (focused s)"
  let ?f = "focused s" and ?n = "next_visible s (focused s)"
  have f: "?f < MAX_WIN" using inv_bounds(1) [OF i(1)] .
  note n = next_visible_nearest [OF f f i(2)]
  let ?p = "prev_visible s ?n"
  note p = prev_visible_nearest [OF n(1) f i(2)]
  have "ahead ?f ?n \<le> ahead ?f ?p" using next_visible_nearest(3) [OF f p(1,2)] .
  with p n(1) f have "?p = ?f" by (auto simp: ahead_def MAX_WIN_def split: if_splits)
  moreover have "prev_visible (s\<lparr>focused := ?n\<rparr>) ?n = ?p"
    unfolding prev_visible_def by (simp only: ext [of "is_visible (s\<lparr>focused := ?n\<rparr>)", OF is_visible_focused])
  ultimately show ?thesis by (simp add: focus_prev_def focus_next_def)
qed

section \<open>Sizes\<close>

text \<open>A window whose program was last told another size, and the window after it has been told.\<close>

definition stale :: "client \<Rightarrow> bool" where
  "stale c \<longleftrightarrow> rdp_client c \<and> (c_notified_cw c, c_notified_ch c) \<noteq> content_dims (c_w c) (c_h c)"

definition told :: "client \<Rightarrow> client" where
  "told c = (if rdp_client c then c\<lparr>c_notified_cw := fst (content_dims (c_w c) (c_h c)), c_notified_ch := snd (content_dims (c_w c) (c_h c))\<rparr> else c)"

definition resize_calls :: "client \<Rightarrow> ucall list" where
  "resize_calls c = [send_kdp_resize (c_pid c) (c_surface_id c) (c_w c) (c_h c),
     WriteLog (bytes ''[WM] Pardon me, sir - resizing '' @ [0x27]), WriteLog (shown_title c),
     WriteLog (0x27 # bytes '' to fit the new arrangement.'' @ [0x0D, 0x0A])]"

fun is_send :: "ucall \<Rightarrow> bool" where
  "is_send (IpcSend pid m) = True"
| "is_send _ = False"

lemma told_id: "\<not> stale c \<Longrightarrow> told c = c"
proof (cases "rdp_client c")
  case True
  moreover assume "\<not> stale c"
  ultimately have "content_dims (c_w c) (c_h c) = (c_notified_cw c, c_notified_ch c)" by (simp add: stale_def)
  with True show ?thesis by (simp add: told_def)
qed (simp add: told_def)

lemma notify_one_eq: "i < length (clients s) \<Longrightarrow> notify_one i (s, out) =
   (s\<lparr>clients := (clients s)[i := told (clients s ! i)]\<rparr>, out @ (if stale (clients s ! i) then resize_calls (clients s ! i) else []))"
proof (cases "stale (clients s ! i)")
  case True
  then show ?thesis by (auto simp: notify_one_def stale_def told_def resize_calls_def upd_client_def Let_def split: prod.splits)
next
  case False
  then have "notify_one i (s, out) = (s, out)" by (auto simp: notify_one_def stale_def Let_def split: prod.splits)
  with False told_id [OF False] show ?thesis by (cases s) simp
qed

lemma fold_notify_eq:
  "n \<le> length (clients s) \<Longrightarrow> fold notify_one [0..<n] (s, out) =
   (s\<lparr>clients := map told (take n (clients s)) @ drop n (clients s)\<rparr>, out @ concat (map resize_calls (filter stale (take n (clients s)))))"
proof (induction n)
  case (Suc n)
  then have n: "n < length (clients s)" by simp
  let ?s = "s\<lparr>clients := map told (take n (clients s)) @ drop n (clients s)\<rparr>"
  have "clients ?s ! n = clients s ! n" using n by (simp add: nth_append)
  moreover have "(map told (take n (clients s)) @ drop n (clients s))[n := told (clients s ! n)] =
      map told (take (Suc n) (clients s)) @ drop (Suc n) (clients s)"
    using n by (simp add: list_update_append take_Suc_conv_app_nth Cons_nth_drop_Suc [symmetric])
  ultimately show ?case using Suc n by (simp add: notify_one_eq take_Suc_conv_app_nth)
qed simp

lemma notify_eq: "length (clients s) = MAX_WIN \<Longrightarrow> notify_layout_changes s =
    (s\<lparr>clients := map told (clients s)\<rparr>, concat (map resize_calls (filter stale (clients s))))"
  using fold_notify_eq [of MAX_WIN s "[]"] by (simp add: notify_layout_changes_def)

lemma draw_char_sends_nothing [simp]: "filter is_send (draw_char x y ch color) = []"
  by (auto simp: draw_char_def Let_def filter_empty_conv)

lemma draw_text_sends_nothing [simp]: "filter is_send (draw_text x y t color) = []"
  by (induction t arbitrary: x) simp_all

lemma z_order_sends_nothing [simp]: "filter is_send (update_z_order s) = []"
  by (simp add: update_z_order_def filter_empty_conv)

lemmas no_sends = if_distrib [of "filter is_send"] filter.simps filter_append is_send.simps if_False append_Nil if_cancel
  draw_char_sends_nothing draw_text_sends_nothing

lemma draw_bar_sends_nothing [simp]: "filter is_send (draw_bar packed s) = []"
proof -
  have "filter is_send (draw_tag s t) = []" for t
    unfolding draw_tag_def Let_def split_beta by (simp only: no_sends)
  then have "filter is_send (concat (map (draw_tag s) ts)) = []" for ts by (induction ts) simp_all
  then show ?thesis unfolding draw_bar_def Let_def by (simp only: no_sends)
qed

lemma draw_windows_send_nothing [simp]: "filter is_send (draw_windows s) = []"
proof -
  have "filter is_send (draw_window_content s i f) = []" for i f
    unfolding draw_window_content_def Let_def by (simp only: no_sends)
  then have "filter is_send (draw_window s i) = []" for i
    unfolding draw_window_def Let_def by (simp only: no_sends)
  then have "filter is_send (concat (map (draw_window s) is)) = []" for "is" by (induction "is") simp_all
  then show ?thesis by (simp add: draw_windows_def)
qed

lemma resize_calls_send [simp]:
  "filter is_send (resize_calls c) = [send_kdp_resize (c_pid c) (c_surface_id c) (c_w c) (c_h c)]"
  by (simp add: resize_calls_def send_kdp_resize_def split_beta)

lemma draw_scene_told:
  assumes "length (clients s) = MAX_WIN"
  shows "fst (draw_scene packed s) = (arrange s)\<lparr>clients := map told (clients (arrange s))\<rparr>"
    "filter is_send (snd (draw_scene packed s)) =
       map (\<lambda>c. send_kdp_resize (c_pid c) (c_surface_id c) (c_w c) (c_h c)) (filter stale (clients (arrange s)))"
  using notify_eq [of "arrange s"] assms
  by (simp_all add: draw_scene_def filter_concat comp_def concat_map_singleton)

lemma told_fields [simp]: "c_w (told c) = c_w c" "c_h (told c) = c_h c" "rdp_client (told c) = rdp_client c"
  by (simp_all add: told_def rdp_client_def)

section \<open>Glyphs\<close>

fun paints :: "ucall \<Rightarrow> (u32 \<times> u32) set" where
  "paints (FbFillRect x y w h color) = {(x + of_nat a, y + of_nat b) | a b. a < unat w \<and> b < unat h}"
| "paints _ = {}"

lemma pixel_bit: "drop_bit c r AND 1 = 1 \<longleftrightarrow> bit (r :: u32) c"
  by (simp add: and_one_eq bit_iff_odd_drop_bit odd_iff_mod_2_eq_one)

lemma run_end_bits: "col \<le> c \<Longrightarrow> c < run_end r col \<Longrightarrow> c < FONT_W \<and> bit r c"
proof (induction r col rule: run_end.induct)
  case (1 r col)
  then show ?case using run_end.simps [of r col] by (cases "c = col") (auto simp: pixel_bit split: if_splits)
qed

lemma row_runs_pixels: "(\<exists>(a, n)\<in>set (row_runs r col). a \<le> c \<and> c < a + n) \<longleftrightarrow> col \<le> c \<and> c < FONT_W \<and> bit r c"
proof (induction r col rule: row_runs.induct)
  case (1 r col)
  show ?case
  proof (cases "col < FONT_W \<and> drop_bit col r AND 1 = 1")
    case True
    let ?e = "run_end r col"
    have e: "col < ?e" using run_end_gt True by blast
    have "row_runs r col = (col, ?e - col) # row_runs r ?e" using True row_runs.simps [of r col] by simp
    with 1(1) True e run_end_bits [of col c r] show ?thesis by auto
  next
    case False
    then have skip: "row_runs r col = (if col < FONT_W then row_runs r (Suc col) else [])" using row_runs.simps [of r col] by simp
    have bits: "col \<le> c \<and> c < FONT_W \<and> bit r c \<longleftrightarrow> Suc col \<le> c \<and> c < FONT_W \<and> bit r c"
      using False by (cases "c = col") (auto simp: pixel_bit)
    show ?thesis
    proof (cases "col < FONT_W")
      case True
      then show ?thesis using 1(2) False unfolding bits by (simp add: skip)
    qed (auto simp: skip)
  qed
qed

lemma row_runs_width: "(a, n) \<in> set (row_runs r col) \<Longrightarrow> n < 5"
proof -
  assume m: "(a, n) \<in> set (row_runs r col)"
  show ?thesis
  proof (cases n)
    case (Suc k)
    with m have "\<exists>(a, n)\<in>set (row_runs r col). a \<le> a + k \<and> a + k < a + n" by auto
    with m Suc have "a + k < FONT_W" using row_runs_pixels [of r col "a + k"] by force
    then show ?thesis using Suc by (simp add: FONT_W_def)
  qed simp
qed

lemma glyph_pixels:
  "(\<Union>call\<in>set (draw_char x0 y0 ch color). paints call) =
   {(x0 + of_nat col, y0 + of_nat row) | col row. col < FONT_W \<and> row < FONT_H \<and> bit (glyph_bits ch) ((FONT_H - 1 - row) * FONT_W + col)}"
proof -
  let ?r = "\<lambda>row. drop_bit ((FONT_H - 1 - row) * FONT_W) (glyph_bits ch) AND 0xF"
  have bits: "bit (?r row) col \<longleftrightarrow> bit (glyph_bits ch) ((FONT_H - 1 - row) * FONT_W + col)" if "col < FONT_W" for row col
  proof -
    have "bit (0xF :: u32) col" using that by (auto simp: FONT_W_def less_Suc_eq numeral_eq_Suc)
    then show ?thesis by (simp add: bit_and_iff bit_drop_bit_eq)
  qed
  have row: "(\<Union>p\<in>set (row_runs (?r row) 0). paints (case p of (start, len) \<Rightarrow> FbFillRect (x0 + of_nat start) (y0 + of_nat row) (of_nat len) 1 color)) =
    {(x0 + of_nat col, y0 + of_nat row) | col. col < FONT_W \<and> bit (glyph_bits ch) ((FONT_H - 1 - row) * FONT_W + col)}" (is "?L row = ?R row") for row
  proof (rule set_eqI, clarify)
    fix u v
    have len: "unat (of_nat n :: u32) = n" if "(a, n) \<in> set (row_runs (?r row) 0)" for a n
      using row_runs_width [OF that] by (simp add: unsigned_of_nat take_bit_nat_eq_self)
    have "(u, v) \<in> ?L row \<longleftrightarrow> v = y0 + of_nat row \<and> (\<exists>c. u = x0 + of_nat c \<and> (\<exists>(a, n)\<in>set (row_runs (?r row) 0). a \<le> c \<and> c < a + n))" (is "_ \<longleftrightarrow> ?M")
    proof
      assume "(u, v) \<in> ?L row"
      then obtain a n k where "(a, n) \<in> set (row_runs (?r row) 0)" "k < n" "u = x0 + of_nat a + of_nat k" "v = y0 + of_nat row"
        using len by fastforce
      then show ?M by (intro conjI exI [of _ "a + k"] bexI [of _ "(a, n)"]) (auto simp: add.assoc)
    next
      assume ?M
      then obtain c a n where c: "u = x0 + of_nat c" "v = y0 + of_nat row" "(a, n) \<in> set (row_runs (?r row) 0)" "a \<le> c" "c < a + n" by auto
      then have "(u, v) = (x0 + of_nat a + of_nat (c - a), y0 + of_nat row + of_nat 0)" "c - a < n" by (auto simp: of_nat_diff)
      with c(3) len [OF c(3)] show "(u, v) \<in> ?L row" by (intro UN_I [OF c(3)]) auto
    qed
    also have "\<dots> \<longleftrightarrow> (u, v) \<in> ?R row" unfolding row_runs_pixels using bits by auto
    finally show "(u, v) \<in> ?L row \<longleftrightarrow> (u, v) \<in> ?R row" .
  qed
  show ?thesis
  proof (cases "glyph_bits ch = 0")
    case False
    then have "(\<Union>call\<in>set (draw_char x0 y0 ch color). paints call) = (\<Union>row\<in>{0..<FONT_H}. ?L row)"
      by (simp add: draw_char_def Let_def)
    also have "\<dots> = (\<Union>row\<in>{0..<FONT_H}. ?R row)" by (simp only: row)
    also have "\<dots> = {(x0 + of_nat col, y0 + of_nat row) | col row. col < FONT_W \<and> row < FONT_H \<and> bit (glyph_bits ch) ((FONT_H - 1 - row) * FONT_W + col)}" (is "?A = ?B")
    proof (intro equalityI subsetI)
      fix p assume "p \<in> ?A"
      then obtain row col where "row < FONT_H" "p = (x0 + of_nat col, y0 + of_nat row)" "col < FONT_W" "bit (glyph_bits ch) ((FONT_H - 1 - row) * FONT_W + col)"
        by auto
      then show "p \<in> ?B" by (intro CollectI exI [of _ col] exI [of _ row]) simp
    next
      fix p assume "p \<in> ?B"
      then obtain row col where "row < FONT_H" "p = (x0 + of_nat col, y0 + of_nat row)" "col < FONT_W" "bit (glyph_bits ch) ((FONT_H - 1 - row) * FONT_W + col)"
        by blast
      then show "p \<in> ?A" by (intro UN_I [of row] CollectI exI [of _ col]) simp_all
    qed
    finally show ?thesis .
  qed (simp add: draw_char_def)
qed

end
