(* ===== verification/Rdp.thy ===== *)
theory Rdp
  imports Wm_Safety
begin

text \<open>
  The client side of the display protocol (\<open>userland/src/rdp.rs\<close>): a program's window. The results of the receive
  calls are an argument, in the order in which they come in; a wait that uses up the list has not returned yet.
\<close>

record rdp_surface =
  compositor_pid :: u32
  sf_id :: u32
  sf_x :: u32
  sf_y :: u32
  sf_width :: u32
  sf_height :: u32
  sf_seq :: u16
  pending_w :: u32
  pending_h :: u32

text \<open>One result of \<open>sys_ipc_recv\<close>: the return value and the contents of the message buffer afterwards.\<close>

type_synonym receipt = "u64 \<times> rwm_msg"

datatype connection = NoWindow | Waiting | Window rdp_surface

fun wait_grant :: "receipt list \<Rightarrow> payload_rdp option" where
  "wait_grant [] = None"
| "wait_grant ((r, m) # rs) = (if r = 0 \<and> msg_type m = RDP_GRANT then Some (decode_rdp (payload m)) else wait_grant rs)"

definition connect_msg :: "u32 \<Rightarrow> u8 list \<Rightarrow> rwm_msg" where
  "connect_msg sid title = rdp_msg RDP_CONNECT 0 (payload_rdp_zero\<lparr>rdp_surface_id := sid, rdp_flags := 0, rdp_title := title_bytes title\<rparr>)"

definition connect :: "u8 list \<Rightarrow> u64 \<Rightarrow> u64 \<Rightarrow> u64 \<Rightarrow> receipt list \<Rightarrow> connection \<times> ucall list" where
  "connect title comp_r sid_r send_r rs =
     (if sint comp_r \<le> 0 then (NoWindow, [GetCompositorPid])
      else if sint sid_r \<le> 0 then (NoWindow, [GetCompositorPid, SurfaceCreate])
      else let pid = ucast comp_r; sid = ucast sid_r; out = [GetCompositorPid, SurfaceCreate, IpcSend pid (connect_msg sid title)]
           in if sint send_r < 0 then (NoWindow, out @ [SurfaceDestroy sid])
              else case wait_grant rs of
                     None \<Rightarrow> (Waiting, out)
                   | Some g \<Rightarrow> (Window \<lparr>compositor_pid = pid, sf_id = sid, sf_x = rdp_x g, sf_y = rdp_y g, sf_width = rdp_width g,
                       sf_height = rdp_height g, sf_seq = 1, pending_w = 0, pending_h = 0\<rparr>, out))"

definition buf_size :: "rdp_surface \<Rightarrow> u32" where
  "buf_size s = sf_width s * sf_height s * 4"

definition sf_stride :: "rdp_surface \<Rightarrow> u32" where
  "sf_stride s = sf_width s * 4"

definition apply_pending :: "rdp_surface \<Rightarrow> rdp_surface" where
  "apply_pending s = (if pending_w s \<noteq> 0 then s\<lparr>sf_width := pending_w s, sf_height := pending_h s, pending_w := 0, pending_h := 0\<rparr> else s)"

definition resized :: "payload_rdp \<Rightarrow> rdp_surface \<Rightarrow> rdp_surface" where
  "resized p s = s\<lparr>sf_width := rdp_width p, sf_height := rdp_height p, pending_w := rdp_width p, pending_h := rdp_height p\<rparr>"

text \<open>\<open>None\<close>: still waiting when the list ends.\<close>

fun wait_present_done :: "u16 \<Rightarrow> receipt list \<Rightarrow> rdp_surface \<Rightarrow> rdp_surface option" where
  "wait_present_done expected [] s = None"
| "wait_present_done expected ((r, m) # rs) s =
     (if sint r < 0 then Some s
      else if msg_type m = RDP_PRESENT_DONE then Some s
      else if msg_type m = RDP_RESIZE then wait_present_done expected rs (resized (decode_rdp (payload m)) s)
      else wait_present_done expected rs s)"

definition commit_calls :: "u64 \<Rightarrow> u32 \<Rightarrow> rdp_surface \<Rightarrow> ucall list" where
  "commit_calls buf stride s =
     [SurfaceAttach (sf_id s) buf (sf_width s) (sf_height s) stride,
      IpcSend (compositor_pid s) (rdp_msg RDP_COMMIT (sf_seq s) (payload_rdp_zero\<lparr>rdp_surface_id := sf_id s\<rparr>))]"

definition commit :: "u64 \<Rightarrow> u32 \<Rightarrow> receipt list \<Rightarrow> rdp_surface \<Rightarrow> rdp_surface option \<times> ucall list" where
  "commit buf stride rs s =
     (let s1 = apply_pending s
      in (wait_present_done (sf_seq s1) rs (s1\<lparr>sf_seq := sf_seq s1 + 1\<rparr>), commit_calls buf stride s1))"

definition commit_async :: "u64 \<Rightarrow> u32 \<Rightarrow> rdp_surface \<Rightarrow> rdp_surface \<times> ucall list" where
  "commit_async buf stride s = (let s1 = apply_pending s in (s1\<lparr>sf_seq := sf_seq s1 + 1\<rparr>, commit_calls buf stride s1))"

datatype rdp_event = EvKey u32 bool | EvFocus bool | EvResize u32 u32 | EvClose

definition poll_event :: "receipt \<Rightarrow> rdp_surface \<Rightarrow> rdp_event option \<times> rdp_surface" where
  "poll_event r s =
     (if sint (fst r) < 0 then (None, s)
      else let p = decode_rdp (payload (snd r)); t = msg_type (snd r)
           in if t = RDP_KEY then (Some (EvKey (rdp_key_code p) (rdp_key_state p \<noteq> 0)), s)
              else if t = RDP_FOCUS then (Some (EvFocus (rdp_flags p \<noteq> 0)), s)
              else if t = RDP_RESIZE then (Some (EvResize (rdp_width p) (rdp_height p)), resized p s)
              else if t = RDP_CLOSE then (Some EvClose, s)
              else (None, s))"

definition disconnect :: "rdp_surface \<Rightarrow> ucall list" where
  "disconnect s = [IpcSend (compositor_pid s) (rdp_msg RDP_DISCONNECT 0 (payload_rdp_zero\<lparr>rdp_surface_id := sf_id s\<rparr>)), SurfaceDestroy (sf_id s)]"

end
