(* ===== verification/Desktop.thy ===== *)
theory Desktop
  imports Rdp
begin

text \<open>
  Properties of the desktop: the window manager on its own, and together with the programs whose windows it manages.
\<close>



text \<open>A desktop with three windows on the current tag.\<close>

definition three_windows :: wm where
  "three_windows = snd (add_client 3 [] (snd (add_client 2 [] (snd (add_client 1 [] wm_new)))))"

lemma three_windows_base: "wm_base three_windows"
proof -
  have "wm_base (snd (add_client p t s))" if "wm_base s" for p t s
    using add_client_inv(2) [OF that, of p t] by (metis prod.collapse)
  then show ?thesis by (simp add: three_windows_def wm_new_base)
qed

lemma three_windows_eval:
  "visible_tiled three_windows = [0, 1, 2]" "c_alive (clients three_windows ! focused three_windows)"
  "wm_layout three_windows = Tile" "nmaster three_windows = 1"
  by code_simp+

lemma three_windows_inv: "wm_inv three_windows"
  by (simp add: wm_inv_def three_windows_base focus_ok_def three_windows_eval)

text \<open>C16: the windows a layout arranges do not overlap: each gets a non-empty rectangle inside the work area (the screen
  without the bar and the outer gap), any two are disjoint, and windows outside the layout stay where they are. This holds for
  up to 16 windows in the tiled, grid, bottom-stack and centred layouts, for 15 in the spiral layouts with gaps (16 without),
  and needs a master window in the tiled and bottom-stack layouts.\<close>

theorem windows_never_overlap:
  assumes "wm_inv s" "layout_fits s"
  shows "(\<forall>i\<in>set (visible_tiled s).
      win_rect (clients (arrange s) ! i) \<noteq> {} \<and> win_rect (clients (arrange s) ! i) \<subseteq> area_rect s \<and>
      (\<forall>j\<in>set (visible_tiled s). i \<noteq> j \<longrightarrow> win_rect (clients (arrange s) ! i) \<inter> win_rect (clients (arrange s) ! j) = {})) \<and>
    (\<forall>i. i \<notin> set (visible_tiled s) \<longrightarrow> clients (arrange s) ! i = clients s ! i)"
proof -
  have "screen_ok s" using assms by (simp add: wm_inv_def wm_base_def)
  then show ?thesis using windows_tile_area [of s] assms(2) arranged_other [of _ s] by blast
qed

theorem windows_never_overlap_witness:
  "visible_tiled three_windows = [0, 1, 2] \<and>
   win_rect (clients (arrange three_windows) ! 1) \<noteq> {} \<and>
   win_rect (clients (arrange three_windows) ! 1) \<inter> win_rect (clients (arrange three_windows) ! 2) = {} \<and>
   clients (arrange three_windows) ! 3 = clients three_windows ! 3"
proof -
  have "layout_fits three_windows" by (simp add: layout_fits_def three_windows_eval)
  then show ?thesis using windows_never_overlap [OF three_windows_inv] by (simp add: three_windows_eval)
qed

text \<open>from any window, moving the focus forward reaches every visible window, and moving it backward undoes a step
  forward.\<close>

theorem focus_visits_every_window:
  assumes "wm_inv s"
  shows "(\<forall>j<MAX_WIN. is_visible s j \<longrightarrow> (\<exists>k. focused ((focus_next ^^ Suc k) s) = j)) \<and>
    (is_visible s (focused s) \<longrightarrow> focus_prev (focus_next s) = s)"
  using focus_next_reaches [OF assms] focus_prev_next [OF assms] by blast

theorem focus_visits_every_window_witness:
  "(\<exists>k. focused ((focus_next ^^ Suc k) three_windows) = 2) \<and> focus_prev (focus_next three_windows) = three_windows"
proof -
  have "is_visible three_windows 2" "is_visible three_windows (focused three_windows)" "2 < MAX_WIN" by code_simp+
  then show ?thesis using focus_visits_every_window [OF three_windows_inv] by blast
qed

text \<open>drawing the scene leaves no program with an outdated window size: afterwards the size each program was last told is
  the content size of its window, and the messages sent are exactly one resize per window whose size had changed, in slot order,
  each carrying the new content size.\<close>

theorem scene_tells_sizes:
  assumes "wm_inv s" "draw_scene packed s = (s', out)"
  shows "(\<forall>c\<in>set (clients s'). rdp_client c \<longrightarrow> (c_notified_cw c, c_notified_ch c) = content_dims (c_w c) (c_h c)) \<and>
    filter is_send out = map (\<lambda>c. send_kdp_resize (c_pid c) (c_surface_id c) (c_w c) (c_h c)) (filter stale (clients (arrange s))) \<and>
    (\<forall>pid sid w h sf. \<exists>m. send_kdp_resize pid sid w h = IpcSend pid m \<and>
       poll_event (0, m) sf = (Some (EvResize (fst (content_dims w h)) (snd (content_dims w h))),
         sf\<lparr>sf_width := fst (content_dims w h), sf_height := snd (content_dims w h),
            pending_w := fst (content_dims w h), pending_h := snd (content_dims w h)\<rparr>))"
proof (intro conjI)
  note t = draw_scene_told [OF inv_bounds(2) [OF assms(1)], of packed]
  have s': "clients s' = map told (clients (arrange s))" using t(1) assms(2) by simp
  show "\<forall>c\<in>set (clients s'). rdp_client c \<longrightarrow> (c_notified_cw c, c_notified_ch c) = content_dims (c_w c) (c_h c)"
    unfolding s' by (auto simp: told_def)
  show "filter is_send out = map (\<lambda>c. send_kdp_resize (c_pid c) (c_surface_id c) (c_w c) (c_h c)) (filter stale (clients (arrange s)))"
    using t(2) assms(2) by simp
  show "\<forall>pid sid w h sf. \<exists>m. send_kdp_resize pid sid w h = IpcSend pid m \<and>
       poll_event (0, m) sf = (Some (EvResize (fst (content_dims w h)) (snd (content_dims w h))),
         sf\<lparr>sf_width := fst (content_dims w h), sf_height := snd (content_dims w h),
            pending_w := fst (content_dims w h), pending_h := snd (content_dims w h)\<rparr>)"
    by (simp add: send_kdp_resize_def split_beta poll_event_def Let_def decode_rdp_msg payload_rdp_zero_def resized_def)
      (simp add: rdp_msg_def rdp_types)
qed

theorem scene_tells_sizes_witness:
  "\<exists>s' out. draw_scene 0 three_windows = (s', out) \<and>
     filter is_send out = map (\<lambda>c. send_kdp_resize (c_pid c) (c_surface_id c) (c_w c) (c_h c)) (filter stale (clients (arrange three_windows)))"
proof -
  obtain s' out where d: "draw_scene 0 three_windows = (s', out)" by fastforce
  then show ?thesis using scene_tells_sizes [OF three_windows_inv d] by blast
qed

text \<open>C20: a program that connects gets a window of its own: the window manager answers with a grant, and the client library
  then holds the surface it announced and exactly the content size of the new window, which carries the announced title
  (its first 20 bytes) and has the focus.\<close>

theorem window_gets_its_size:
  assumes "wm_inv s" "0 \<notin> set title" "0 < sint comp_r" "0 < sint sid_r" "0 \<le> sint send_r"
    and "connect_msg (ucast sid_r) title = m" "handle_ipc_msg (m\<lparr>sender_pid := pid\<rparr>) s = (ch, s', out)"
  shows "\<exists>g rest c w. out = IpcSend pid g # rest \<and> c = clients s' ! focused s' \<and>
    c_alive c \<and> c_pid c = pid \<and> c_surface_id c = ucast sid_r \<and> shown_title c = take 20 title \<and>
    (c_notified_cw c, c_notified_ch c) = content_dims (c_w c) (c_h c) \<and>
    connect title comp_r sid_r send_r ((0, g) # rs) = (Window w, [GetCompositorPid, SurfaceCreate, IpcSend (ucast comp_r) m]) \<and>
    sf_id w = ucast sid_r \<and> (sf_width w, sf_height w) = content_dims (c_w c) (c_h c)"
proof -
  let ?sid = "ucast sid_r :: u32"
  have p: "decode_rdp (payload m) = payload_rdp_zero\<lparr>rdp_surface_id := ?sid, rdp_flags := 0, rdp_title := title_bytes title\<rparr>" "msg_type m = RDP_CONNECT"
    using assms(6) by (auto simp: connect_msg_def decode_rdp_msg) (auto simp: rdp_msg_def)
  let ?t = "take 23 title"
  have "handle_ipc_msg (m\<lparr>sender_pid := pid\<rparr>) s = (True, handle_connect pid ?sid ?t s)"
    using p by (simp add: handle_ipc_msg_def Let_def title_of_title_bytes [OF assms(2)])
  with assms(7) have h: "handle_connect pid ?sid ?t s = (s', out)" by simp
  obtain idx s1 where a: "add_client 0xFF ?t s = (idx, s1)" by fastforce
  note ai = add_client_inv [OF inv_base [OF assms(1)] a]
  let ?s2 = "(upd_client idx (\<lambda>c. c\<lparr>c_pid := pid, c_surface_id := ?sid\<rparr>) s1)\<lparr>focused := idx\<rparr>"
  define s3 where "s3 = arrange ?s2"
  let ?c = "clients s3 ! idx"
  obtain cw chh where d: "content_dims (c_w ?c) (c_h ?c) = (cw, chh)" by fastforce
  have len1: "length (clients s1) = MAX_WIN" using ai(2) by (simp add: wm_base_def screen_ok_def)
  then have len: "length (clients ?s2) = MAX_WIN" "length (clients s3) = MAX_WIN" by (simp_all add: s3_def)
  let ?s4 = "upd_client idx (\<lambda>c. c\<lparr>c_notified_cw := cw, c_notified_ch := chh\<rparr>) s3"
  define g where "g = rdp_msg RDP_GRANT 0 (payload_rdp_zero\<lparr>rdp_surface_id := ?sid, rdp_x := word_of_int (c_x ?c), rdp_y := word_of_int (c_y ?c),
    rdp_width := cw, rdp_height := chh, rdp_title := title_bytes ?t\<rparr>)"
  have s': "s' = ?s4" and out: "\<exists>rest. out = IpcSend pid g # rest"
    using h a d by (auto simp: handle_connect_def s3_def [symmetric] send_kdp_grant_def g_def Let_def)
  have f: "focused s' = idx" unfolding s' by (simp add: s3_def)
  have c': "clients s' ! idx = ?c\<lparr>c_notified_cw := cw, c_notified_ch := chh\<rparr>" unfolding s' using ai(1) len by simp
  have old: "clients ?s2 ! idx = (new_client (sel_tags s) 0xFF ?t)\<lparr>c_pid := pid, c_surface_id := ?sid\<rparr>" using ai len1 by simp
  have same: "c_alive ?c" "c_pid ?c = pid" "c_surface_id ?c = ?sid" "shown_title ?c = take 20 title"
    unfolding s3_def shown_title_def arranged_same [OF len(1)] old
    by (simp_all add: new_client_def set_title_def client_empty_def Let_def min_def)
  have wg: "wait_grant ((0, g) # rs) = Some (payload_rdp_zero\<lparr>rdp_surface_id := ?sid, rdp_x := word_of_int (c_x ?c), rdp_y := word_of_int (c_y ?c),
    rdp_width := cw, rdp_height := chh, rdp_title := title_bytes ?t\<rparr>)"
    by (simp add: g_def decode_rdp_msg) (simp add: rdp_msg_def)
  obtain rest where rest: "out = IpcSend pid g # rest" using out by blast
  show ?thesis
    by (intro exI [of _ g] exI [of _ rest] exI [of _ "clients s' ! idx"])
      (use assms(3-6) wg f c' same d rest in \<open>auto simp: connect_def shown_title_def Let_def\<close>)
qed

theorem window_gets_its_size_witness:
  "\<exists>g rest w. snd (snd (handle_ipc_msg ((connect_msg 7 [0x61])\<lparr>sender_pid := 9\<rparr>) three_windows)) = IpcSend 9 g # rest \<and>
     connect [0x61] 4 7 0 [(0, g)] = (Window w, [GetCompositorPid, SurfaceCreate, IpcSend 4 (connect_msg 7 [0x61])])"
proof -
  obtain ch s' out where "handle_ipc_msg ((connect_msg 7 [0x61])\<lparr>sender_pid := 9\<rparr>) three_windows = (ch, s', out)" by (metis prod_cases3)
  then show ?thesis
    using window_gets_its_size [OF three_windows_inv, of "[0x61]" 4 7 0 "connect_msg 7 [0x61]" 9 ch s' out "[]"] by auto
qed

text \<open>What ends the wait for a frame, and what a message received meanwhile does.\<close>

definition ends_wait :: "receipt \<Rightarrow> bool" where
  "ends_wait r \<longleftrightarrow> sint (fst r) < 0 \<or> msg_type (snd r) = RDP_PRESENT_DONE"

definition noticed :: "receipt \<Rightarrow> rdp_surface \<Rightarrow> rdp_surface" where
  "noticed r s = (if msg_type (snd r) = RDP_RESIZE then resized (decode_rdp (payload (snd r))) s else s)"

lemma wait_present_done_eq:
  "wait_present_done e rs s = (if list_ex ends_wait rs then Some (fold noticed (takeWhile (\<lambda>r. \<not> ends_wait r) rs) s) else None)"
proof (induction e rs s rule: wait_present_done.induct)
  case (2 e r m rs s)
  have e: "ends_wait (r, m) \<longleftrightarrow> sint r < 0 \<or> msg_type m = RDP_PRESENT_DONE" by (simp add: ends_wait_def)
  have n: "noticed (r, m) s = (if msg_type m = RDP_RESIZE then resized (decode_rdp (payload m)) s else s)" by (simp add: noticed_def)
  show ?case using 2 by (cases "ends_wait (r, m)") (auto simp: e n)
qed simp


text \<open>characters are drawn exactly: the runs of the font rows cover precisely the set pixels of the glyph, whatever the
  position, with the topmost row of the picture taken from the highest four bits.\<close>

theorem draw_char_paints_glyph:
  "(\<Union>call\<in>set (draw_char x0 y0 ch color). paints call) =
   {(x0 + of_nat col, y0 + of_nat row) | col row.
      col < FONT_W \<and> row < FONT_H \<and> bit (glyph_bits ch) ((FONT_H - 1 - row) * FONT_W + col)}"
  by (rule glyph_pixels)

text \<open>without a master window the tiled layout puts every window beyond the right edge: one pixel wide, at the
  column after the work area and the gap.\<close>

theorem tile_without_master_hides_windows:
  assumes "wm_inv s" "wm_layout s = Tile" "nmaster s = 0" "i \<in> set (visible_tiled s)"
  shows "win_rect (clients (arrange s) ! i) \<inter> area_rect s = {}"
proof -
  have ok: "screen_ok s" "length (clients s) = MAX_WIN" using assms(1) by (auto simp: wm_inv_def wm_base_def screen_ok_def)
  obtain x y w h where a: "work_area s = (x, y, w, h)" by (cases "work_area s") auto
  have g: "x = wm_gap s" "i32 (sint (wm_sw s) - wm_gap s * 2) = w" "0 \<le> x" "x \<le> 6" "0 \<le> w" "w \<le> 1920"
    using area_cases [OF ok(1)] a by (auto simp: work_area_def mult.commute intro!: i32_small)
  obtain p where p: "p \<in> set (placements s)" "target p = i"
    "clients (arrange s) ! i = (clients s ! i)\<lparr>c_x := px p, c_y := py p, c_w := word_of_int (max 1 (pw p)), c_h := word_of_int (max 1 (ph p))\<rparr>"
    by (rule arranged_window [OF ok(2) assms(4)])
  have "\<forall>q\<in>set (column cx cw e stop gp my t). px q = cx" for cx cw e stop gp my t
    by (induction t arbitrary: my) (auto simp: Let_def)
  then have "px p = i32 (x + w + x)"
    using p(1) assms(2,3) g(2) by (auto simp: placements_def Let_def arrange_tile_def g(1) [symmetric] split: if_splits)
  then have "px p = x + w + x" using g by (simp add: i32_small)
  with p(3) g a show ?thesis by (auto simp: win_rect_def area_rect_def)
qed

theorem tile_without_master_hides_windows_witness:
  "win_rect (clients (arrange (three_windows\<lparr>nmaster := 0\<rparr>)) ! 1) \<inter> area_rect (three_windows\<lparr>nmaster := 0\<rparr>) = {}"
proof (rule tile_without_master_hides_windows)
  show "wm_inv (three_windows\<lparr>nmaster := 0\<rparr>)" by (rule inv_frame_fields(2) [OF three_windows_inv])
  show "1 \<in> set (visible_tiled (three_windows\<lparr>nmaster := 0\<rparr>))" by code_simp
qed (simp_all add: three_windows_eval)

end
