(* ===== verification/Terminal.thy ===== *)
theory Terminal
  imports Rdp
begin

text \<open>
  The terminal (\<open>userland/src/bin/terminal.rs\<close>): a grid of characters, a line editor, built-in commands, and the
  rendering into a pixel buffer through raw pointers. The buffer is a function on pixel indices, so that a write beyond
  its end is a change at an index of at least \<open>PX_W * PX_H\<close>.
\<close>

section \<open>State\<close>

definition TERM_COLS :: nat where "TERM_COLS = 64"
definition TERM_ROWS :: nat where "TERM_ROWS = 24"
definition CHAR_W :: nat where "CHAR_W = FONT_W + 1"
definition CHAR_H :: nat where "CHAR_H = FONT_H + 2"
definition PAD :: nat where "PAD = 4"
definition PX_W :: nat where "PX_W = TERM_COLS * CHAR_W + PAD * 2"
definition PX_H :: nat where "PX_H = TERM_ROWS * CHAR_H + PAD * 2"
definition MAX_LINE :: nat where "MAX_LINE = TERM_COLS - 2"
definition TC_BG :: u32 where "TC_BG = 0xFF1A1B26"
definition TC_FG :: u32 where "TC_FG = 0xFFC0CAF5"
definition TC_CURSOR :: u32 where "TC_CURSOR = 0xFF7AA2F7"

lemmas term_consts = TERM_COLS_def TERM_ROWS_def CHAR_W_def CHAR_H_def PAD_def PX_W_def PX_H_def MAX_LINE_def FONT_W_def FONT_H_def

record terminal =
  PIXEL_BUF :: "nat \<Rightarrow> u32"
  CHAR_BUF :: "u8 list list"
  LINE_BUF :: "u8 list"
  LINE_LEN :: nat
  CUR_ROW :: nat

definition blank_row :: "u8 list" where
  "blank_row = replicate TERM_COLS 0x20"

definition terminal_init :: "(nat \<Rightarrow> u32) \<Rightarrow> terminal" where
  "terminal_init mem = \<lparr>PIXEL_BUF = mem, CHAR_BUF = replicate TERM_ROWS blank_row, LINE_BUF = replicate MAX_LINE 0, LINE_LEN = 0, CUR_ROW = 0\<rparr>"

section \<open>Pixels\<close>

definition fill_rect_px :: "nat \<Rightarrow> nat \<Rightarrow> nat \<Rightarrow> nat \<Rightarrow> u32 \<Rightarrow> (nat \<Rightarrow> u32) \<Rightarrow> nat \<Rightarrow> u32" where
  "fill_rect_px x y w h color buf =
     (if w = 0 \<or> h = 0 then buf
      else fold (\<lambda>row b. fold (\<lambda>col b. b((y + row) * PX_W + x + col := color)) [0..<w] b) [0..<h] buf)"

definition draw_char_px :: "nat \<Rightarrow> nat \<Rightarrow> u8 \<Rightarrow> u32 \<Rightarrow> (nat \<Rightarrow> u32) \<Rightarrow> nat \<Rightarrow> u32" where
  "draw_char_px x0 y0 ch color buf =
     (let bits = glyph_bits ch
      in if bits = 0 then buf
         else fold (\<lambda>row b.
                let row_bits = drop_bit (row * FONT_W) bits AND 0xF
                in fold (\<lambda>(start, len) b. fill_rect_px (x0 + start) (y0 + row) len 1 color b) (row_runs row_bits 0) b)
              [0..<FONT_H] buf)"

definition render :: "nat \<Rightarrow> terminal \<Rightarrow> terminal" where
  "render cursor_col t =
     (let b1 = fill_rect_px 0 0 PX_W PX_H TC_BG (PIXEL_BUF t);
          b2 = fold (\<lambda>row b. fold (\<lambda>col b. draw_char_px (PAD + col * CHAR_W) (PAD + row * CHAR_H) (CHAR_BUF t ! row ! col) TC_FG b)
                 [0..<TERM_COLS] b) [0..<TERM_ROWS] b1;
          cx = PAD + cursor_col * CHAR_W;
          cy = PAD + (TERM_ROWS - 1) * CHAR_H + FONT_H + 1
      in t\<lparr>PIXEL_BUF := fill_rect_px cx cy CHAR_W 1 TC_CURSOR b2\<rparr>)"

section \<open>Output\<close>

definition scroll_up :: "terminal \<Rightarrow> terminal" where
  "scroll_up t = t\<lparr>CHAR_BUF := map (\<lambda>r. if r < TERM_ROWS - 1 then CHAR_BUF t ! (r + 1) else blank_row) [0..<TERM_ROWS]\<rparr>"

definition line_row :: "u8 list \<Rightarrow> u8 list" where
  "line_row s = take TERM_COLS s @ replicate (TERM_COLS - min (length s) TERM_COLS) 0x20"

definition print_line :: "u8 list \<Rightarrow> terminal \<Rightarrow> terminal" where
  "print_line s t =
     (let t1 = (if CUR_ROW t \<ge> TERM_ROWS - 1 then (scroll_up t)\<lparr>CUR_ROW := TERM_ROWS - 2\<rparr> else t)
      in t1\<lparr>CHAR_BUF := (CHAR_BUF t1)[CUR_ROW t1 := line_row s, TERM_ROWS - 1 := blank_row], CUR_ROW := CUR_ROW t1 + 1\<rparr>)"

definition show_prompt :: "terminal \<Rightarrow> terminal" where
  "show_prompt t =
     (let n = min (LINE_LEN t) (TERM_COLS - 2)
      in t\<lparr>CHAR_BUF := (CHAR_BUF t)[TERM_ROWS - 1 := [0x3E, 0x20] @ take n (LINE_BUF t) @ replicate (TERM_COLS - (2 + n)) 0x20]\<rparr>)"

section \<open>Commands\<close>

text \<open>The decimal digits of a pid: at most the last five. The array is filled from index \<open>ti\<close> downwards.\<close>

fun pid_digits :: "nat \<Rightarrow> nat \<Rightarrow> u8 list \<Rightarrow> u8 list" where
  "pid_digits ti v acc =
     (let acc' = (0x30 + of_nat (v mod 10)) # acc; v' = v div 10
      in case ti of 0 \<Rightarrow> acc' | Suc ti' \<Rightarrow> if v' = 0 then acc' else pid_digits ti' v' acc')"

definition state_str :: "u32 \<Rightarrow> u8 list" where
  "state_str st = (if st = 0 then bytes ''empty'' else if st = 1 then bytes ''runnable'' else if st = 2 then bytes ''running''
     else if st = 3 then bytes ''blocked'' else if st = 4 then bytes ''dead'' else bytes ''?'')"

definition ps_line :: "u32 \<times> u32 \<Rightarrow> u8 list" where
  "ps_line p = (let d = pid_digits 4 (unat (fst p)) [] in d @ replicate (6 - length d) 0x20 @ state_str (snd p))"

text \<open>The loop that cuts the listing at line ends; \<open>start\<close> is the first byte not yet printed.\<close>

definition ls_step :: "u8 list \<Rightarrow> nat \<Rightarrow> nat \<times> terminal \<Rightarrow> nat \<times> terminal" where
  "ls_step buf i r =
     (case r of (start, t) \<Rightarrow>
       if buf ! i = 0x0A \<or> buf ! i = 0x0D
       then (i + 1, if i > start then print_line (take (i - start) (drop start buf)) t else t)
       else (start, t))"

definition ls_output :: "u8 list \<Rightarrow> nat \<Rightarrow> terminal \<Rightarrow> terminal" where
  "ls_output buf n t =
     (case fold (ls_step buf) [0..<n] (0, t) of (start, t1) \<Rightarrow>
        if n > start then print_line (take (n - start) (drop start buf)) t1 else t1)"

text \<open>What the kernel answers to \<open>sys_list_root\<close> and \<open>sys_get_proc_info\<close>.\<close>

record term_env =
  ls_ret :: u64
  ls_buf :: "u8 list"
  ps_ret :: u64
  ps_buf :: "(u32 \<times> u32) list"

datatype term_outcome = Running (running: terminal) | Exited | Panicked

definition run_command :: "term_env \<Rightarrow> u8 list \<Rightarrow> terminal \<Rightarrow> term_outcome" where
  "run_command env cmd t =
     (if cmd = bytes ''help'' \<or> cmd = bytes ''?'' then
        Running (fold print_line [bytes ''RogueOS Terminal v1.0'', bytes ''  help     show this message'',
          bytes ''  clear    clear screen'', bytes ''  ps       list processes'', bytes ''  ls       list root fs'',
          bytes ''  exit     close terminal''] t)
      else if cmd = bytes ''clear'' then
        Running (t\<lparr>CHAR_BUF := map (\<lambda>r. if r < TERM_ROWS - 1 then blank_row else CHAR_BUF t ! r) [0..<TERM_ROWS], CUR_ROW := 0\<rparr>)
      else if cmd = bytes ''ls'' then
        (if sint (ls_ret env) > 0
         then (if unat (ls_ret env) > 512 then Panicked else Running (ls_output (ls_buf env) (unat (ls_ret env)) t))
         else Running (print_line (bytes ''(empty or error)'') t))
      else if cmd = bytes ''ps'' then
        (if sint (ps_ret env) > 0
         then (if unat (ps_ret env) > 16 then Panicked
               else Running (fold print_line (map ps_line (take (unat (ps_ret env)) (ps_buf env))) (print_line (bytes ''PID  STATE'') t)))
         else Running (print_line (bytes ''(no process info)'') t))
      else if cmd = bytes ''exit'' then Exited
      else if cmd = [] then Running t
      else Running (print_line (bytes ''unknown: '' @ take (TERM_COLS - 9) cmd) t))"

section \<open>Keys\<close>

definition keycode_to_char :: "u8 \<Rightarrow> u8 option" where
  "keycode_to_char k =
     (if k = KEY_SPACE then Some 0x20 else if k = KEY_MINUS then Some 0x2D else if k = KEY_EQUAL then Some 0x3D
      else if k = KEY_COMMA then Some 0x2C else if k = KEY_PERIOD then Some 0x2E else if k = KEY_SLASH then Some 0x2F
      else if k = KEY_SEMI then Some 0x3B else if k = KEY_QUOTE then Some 0x27 else if k = KEY_LBRACE then Some 0x5B
      else if k = KEY_RBRACE then Some 0x5D else if k = KEY_BSLASH then Some 0x5C else if k = KEY_GRAVE then Some 0x60
      else if k = KEY_0 then Some 0x30 else if KEY_1 \<le> k \<and> k \<le> KEY_9 then Some (0x31 + (k - KEY_1))
      else if KEY_A \<le> k \<and> k \<le> KEY_Z then Some (0x61 + (k - KEY_A)) else None)"

definition term_disconnect :: "u32 \<Rightarrow> u32 \<Rightarrow> ucall list" where
  "term_disconnect wm_pid sid = [IpcSend wm_pid (rdp_msg RDP_DISCONNECT 0 (payload_rdp_zero\<lparr>rdp_surface_id := sid\<rparr>)), SurfaceDestroy sid, Exit 0]"

text \<open>Outcome, whether there is something new to show, and the calls made.\<close>

definition term_key :: "term_env \<Rightarrow> u32 \<Rightarrow> u32 \<Rightarrow> u8 \<Rightarrow> terminal \<Rightarrow> term_outcome \<times> bool \<times> ucall list" where
  "term_key env wm_pid sid key t =
     (if key = KEY_ENTER then
        (let cmd = take (LINE_LEN t) (LINE_BUF t);
             t1 = print_line ([0x3E, 0x20] @ cmd) (t\<lparr>LINE_LEN := 0\<rparr>)
         in case run_command env cmd t1 of
              Running t2 \<Rightarrow> (Running (render 2 (show_prompt t2)), True, [])
            | Exited \<Rightarrow> (Exited, False, [Exit 0])
            | Panicked \<Rightarrow> (Panicked, False, []))
      else if key = KEY_BACKSPACE then
        (if LINE_LEN t > 0 then
           (let t1 = show_prompt (t\<lparr>LINE_LEN := LINE_LEN t - 1\<rparr>) in (Running (render (LINE_LEN t1 + 2) t1), True, []))
         else (Running t, False, []))
      else if key = KEY_ESC then (Exited, False, term_disconnect wm_pid sid)
      else case keycode_to_char key of
             None \<Rightarrow> (Running t, False, [])
           | Some ch \<Rightarrow>
               if LINE_LEN t < MAX_LINE then
                 (let t1 = show_prompt (t\<lparr>LINE_BUF := (LINE_BUF t)[LINE_LEN t := ch], LINE_LEN := LINE_LEN t + 1\<rparr>)
                  in (Running (render (LINE_LEN t1 + 2) t1), True, []))
               else (Running t, False, []))"

section \<open>Start and main loop\<close>

definition term_log :: "string \<Rightarrow> ucall" where
  "term_log m = WriteLog (bytes m @ [0x0D, 0x0A])"

definition send_rdp :: "u32 \<Rightarrow> u8 \<Rightarrow> u32 \<Rightarrow> u8 list \<Rightarrow> ucall" where
  "send_rdp wm_pid ty sid title = IpcSend wm_pid (rdp_msg ty 0 (payload_rdp_zero\<lparr>rdp_surface_id := sid, rdp_title := title_bytes title\<rparr>))"

definition send_rdp_commit :: "u32 \<Rightarrow> u32 \<Rightarrow> u16 \<Rightarrow> ucall" where
  "send_rdp_commit wm_pid sid sq = IpcSend wm_pid (rdp_msg RDP_COMMIT sq (payload_rdp_zero\<lparr>rdp_surface_id := sid\<rparr>))"

definition attach_call :: "u32 \<Rightarrow> u64 \<Rightarrow> ucall" where
  "attach_call sid buf_ptr = SurfaceAttach sid buf_ptr (of_nat PX_W) (of_nat PX_H) (of_nat PX_W * 4)"

text \<open>The answers of the kernel during the start: the surface, up to three queries for the compositor, the messages
  received while waiting, the result of attaching the buffer, and the address of the pixel buffer.\<close>

record start_env =
  st_sid :: u64
  st_pid1 :: u64
  st_pid2 :: u64
  st_pid3 :: u64
  st_recv :: "receipt list"
  st_attach :: u64
  st_buf :: u64

definition got_grant :: "receipt list \<Rightarrow> bool" where
  "got_grant rs = list_ex (\<lambda>(r, m). r = 0 \<and> msg_type m = RDP_GRANT) (take 2000000 rs)"

record session =
  ss_wm :: u32
  ss_sid :: u32
  ss_buf :: u64
  ss_term :: terminal
  ss_seq :: u16
  ss_pending :: bool
  ss_dirty :: bool

definition find_wm :: "start_env \<Rightarrow> u32 option" where
  "find_wm e = (if sint (st_pid1 e) > 0 then Some (ucast (st_pid1 e))
     else if sint (st_pid2 e) \<le> 0 \<or> sint (st_pid3 e) \<le> 0 then None else Some (ucast (st_pid3 e)))"

definition find_wm_calls :: "u32 \<Rightarrow> start_env \<Rightarrow> ucall list" where
  "find_wm_calls sid e =
     GetCompositorPid #
     (if sint (st_pid1 e) > 0 then []
      else if sint (st_pid2 e) \<le> 0 then [GetCompositorPid, term_log ''[terminal] no compositor found'', SurfaceDestroy sid, Exit 1]
      else if sint (st_pid3 e) \<le> 0 then [GetCompositorPid, GetCompositorPid, SurfaceDestroy sid, Exit 1]
      else [GetCompositorPid, GetCompositorPid])"

definition greeting :: "u8 list" where
  "greeting = bytes ''RogueOS Terminal - type '' @ [0x27] @ bytes ''help'' @ [0x27] @ bytes '' for commands''"

definition first_screen :: "(nat \<Rightarrow> u32) \<Rightarrow> terminal" where
  "first_screen mem = (let t = show_prompt (print_line greeting (terminal_init mem)) in render (LINE_LEN t + 2) t)"

definition term_start :: "start_env \<Rightarrow> (nat \<Rightarrow> u32) \<Rightarrow> session option \<times> ucall list" where
  "term_start e mem =
     (let sid = ucast (st_sid e); c1 = [term_log ''[terminal] starting'', SurfaceCreate]
      in if sint (st_sid e) \<le> 0 then (None, c1 @ [term_log ''[terminal] surface_create failed'', Exit 1])
         else let c2 = c1 @ find_wm_calls sid e
              in case find_wm e of
                   None \<Rightarrow> (None, c2)
                 | Some wm_pid \<Rightarrow>
                     let c3 = c2 @ [term_log ''[terminal] connecting to WM'', send_rdp wm_pid RDP_CONNECT sid (bytes ''terminal'')]
                     in if \<not> got_grant (st_recv e) then (None, c3 @ [term_log ''[terminal] no grant from WM'', SurfaceDestroy sid, Exit 1])
                        else let c4 = c3 @ [attach_call sid (st_buf e)]
                             in if sint (st_attach e) < 0
                                then (None, c4 @ [term_log ''[terminal] surface_attach failed'', SurfaceDestroy sid, Exit 1])
                                else (Some \<lparr>ss_wm = wm_pid, ss_sid = sid, ss_buf = st_buf e, ss_term = first_screen mem,
                                        ss_seq = 0, ss_pending = True, ss_dirty = False\<rparr>,
                                      c4 @ [send_rdp_commit wm_pid sid 0]))"

definition next_frame :: "session \<Rightarrow> session \<times> ucall list" where
  "next_frame s =
     (s\<lparr>ss_dirty := False, ss_seq := ss_seq s + 1, ss_pending := True\<rparr>,
      [attach_call (ss_sid s) (ss_buf s), send_rdp_commit (ss_wm s) (ss_sid s) (ss_seq s + 1)])"

definition session_key :: "term_env \<Rightarrow> u8 \<Rightarrow> session \<Rightarrow> session option \<times> ucall list" where
  "session_key env key s =
     (case term_key env (ss_wm s) (ss_sid s) key (ss_term s) of
        (Running t, changed, out) \<Rightarrow> (Some (s\<lparr>ss_term := t, ss_dirty := ss_dirty s \<or> changed\<rparr>), out)
      | (_, _, out) \<Rightarrow> (None, out))"

definition session_msg :: "term_env \<Rightarrow> rwm_msg \<Rightarrow> session \<Rightarrow> session option \<times> ucall list" where
  "session_msg env m s =
     (if msg_type m = RDP_PRESENT_DONE then
        (let s1 = s\<lparr>ss_pending := False\<rparr>
         in if ss_dirty s1 then (case next_frame s1 of (s2, out) \<Rightarrow> (Some s2, out)) else (Some s1, []))
      else if msg_type m = RDP_KEY then
        (let kdp = decode_rdp (payload m)
         in if rdp_key_state kdp = 1 then session_key env (ucast (rdp_key_code kdp)) s else (Some s, []))
      else if msg_type m = RDP_CLOSE then (None, [SurfaceDestroy (ss_sid s), Exit 0])
      else (Some s, []))"

definition session_idle :: "session \<Rightarrow> session \<times> ucall list" where
  "session_idle s = (if ss_dirty s \<and> \<not> ss_pending s then next_frame s else (s, []))"

text \<open>One turn of the main loop: the messages waiting, a raw key press, and the commit of a changed frame. Each message and
  key comes with the answers the kernel gives to the command it may run.\<close>

fun term_drain :: "(term_env \<times> rwm_msg) list \<Rightarrow> session \<Rightarrow> session option \<times> ucall list" where
  "term_drain [] s = (Some s, [])"
| "term_drain ((env, m) # ms) s =
     (case session_msg env m s of
        (None, out) \<Rightarrow> (None, out)
      | (Some s', out) \<Rightarrow> case term_drain ms s' of (r, out') \<Rightarrow> (r, out @ out'))"

definition raw_key :: "(term_env \<times> u8) option \<Rightarrow> session \<Rightarrow> session option \<times> ucall list" where
  "raw_key k s = (case k of None \<Rightarrow> (Some s, []) | Some (env, key) \<Rightarrow> session_key env key s)"

definition term_turn :: "(term_env \<times> rwm_msg) list \<Rightarrow> (term_env \<times> u8) option \<Rightarrow> session \<Rightarrow> session option \<times> ucall list" where
  "term_turn ms k s =
     (case term_drain ms s of
        (None, out) \<Rightarrow> (None, out)
      | (Some s1, out1) \<Rightarrow> case raw_key k s1 of
            (None, out2) \<Rightarrow> (None, out1 @ out2)
          | (Some s2, out2) \<Rightarrow> case session_idle s2 of (s3, out3) \<Rightarrow> (Some s3, out1 @ out2 @ out3))"

section \<open>The screen shows the end of the output\<close>

text \<open>The lines a command prints; \<open>None\<close> clears the screen.\<close>

fun split_lines :: "u8 list \<Rightarrow> u8 list \<Rightarrow> u8 list list" where
  "split_lines acc [] = (if acc = [] then [] else [rev acc])"
| "split_lines acc (b # bs) =
     (if b = 0x0A \<or> b = 0x0D then (if acc = [] then [] else [rev acc]) @ split_lines [] bs else split_lines (b # acc) bs)"

definition shows_lines :: "u8 list list \<Rightarrow> terminal \<Rightarrow> bool" where
  "shows_lines ls t \<longleftrightarrow> length (CHAR_BUF t) = TERM_ROWS \<and> CUR_ROW t = min (length ls) (TERM_ROWS - 1) \<and>
     take (TERM_ROWS - 1) (CHAR_BUF t) =
       map line_row (drop (length ls - min (length ls) (TERM_ROWS - 1)) ls) @ replicate (TERM_ROWS - 1 - min (length ls) (TERM_ROWS - 1)) blank_row"

lemma init_shows: "shows_lines [] (terminal_init mem)"
  by (simp add: shows_lines_def terminal_init_def TERM_ROWS_def)

lemma prompt_shows [simp]: "shows_lines ls (show_prompt t) = shows_lines ls t"
  by (simp add: shows_lines_def show_prompt_def Let_def)

lemma render_shows [simp]: "shows_lines ls (render c t) = shows_lines ls t"
  by (simp add: shows_lines_def render_def Let_def)

lemma shows_line_fields [simp]: "shows_lines ls (t\<lparr>LINE_LEN := n\<rparr>) = shows_lines ls t" "shows_lines ls (t\<lparr>LINE_BUF := b\<rparr>) = shows_lines ls t"
  by (simp_all add: shows_lines_def)

lemma print_line_shows:
  assumes "shows_lines ls t"
  shows "shows_lines (ls @ [s]) (print_line s t)"
proof (cases "length ls < TERM_ROWS - 1")
  case True
  let ?n = "length ls"
  have c: "CUR_ROW t = ?n" "length (CHAR_BUF t) = TERM_ROWS"
    "take (TERM_ROWS - 1) (CHAR_BUF t) = map line_row ls @ replicate (TERM_ROWS - 1 - ?n) blank_row"
    using assms True by (simp_all add: shows_lines_def min_def)
  have "take (TERM_ROWS - 1) ((CHAR_BUF t)[?n := line_row s, TERM_ROWS - 1 := blank_row]) = (take (TERM_ROWS - 1) (CHAR_BUF t))[?n := line_row s]"
    by (simp add: take_update_swap list_update_beyond)
  also have "\<dots> = map line_row (ls @ [s]) @ replicate (TERM_ROWS - 1 - Suc ?n) blank_row"
  proof -
    obtain k where k: "TERM_ROWS - 1 - ?n = Suc k" using True by (metis Suc_diff_Suc)
    then have "TERM_ROWS - 1 - Suc ?n = k" by simp
    with k c(3) show ?thesis by (simp add: list_update_append)
  qed
  finally show ?thesis using True c by (simp add: shows_lines_def print_line_def Let_def min_def)
next
  case False
  let ?k = "length ls - (TERM_ROWS - 1)"
  have c: "CUR_ROW t = TERM_ROWS - 1" "length (CHAR_BUF t) = TERM_ROWS" "take (TERM_ROWS - 1) (CHAR_BUF t) = map line_row (drop ?k ls)"
    using assms False by (simp_all add: shows_lines_def min_def)
  let ?cb = "CHAR_BUF (scroll_up t)"
  have len: "length ?cb = TERM_ROWS" by (simp add: scroll_up_def)
  have "take (TERM_ROWS - 1) (?cb[TERM_ROWS - 2 := line_row s, TERM_ROWS - 1 := blank_row]) = map line_row (drop (Suc ?k) ls @ [s])"
  proof (rule nth_equalityI)
    show "length (take (TERM_ROWS - 1) (?cb[TERM_ROWS - 2 := line_row s, TERM_ROWS - 1 := blank_row])) = length (map line_row (drop (Suc ?k) ls @ [s]))"
      using False len by (simp add: TERM_ROWS_def)
  next
    fix i assume "i < length (take (TERM_ROWS - 1) (?cb[TERM_ROWS - 2 := line_row s, TERM_ROWS - 1 := blank_row]))"
    then have i: "i < TERM_ROWS - 1" using len by (simp add: TERM_ROWS_def)
    have row: "CHAR_BUF t ! (i + 1) = line_row (ls ! (?k + (i + 1)))" if "i + 1 < TERM_ROWS - 1"
    proof -
      have "CHAR_BUF t ! (i + 1) = take (TERM_ROWS - 1) (CHAR_BUF t) ! (i + 1)" using that by simp
      also have "\<dots> = line_row (ls ! (?k + (i + 1)))" using c(3) that False by simp
      finally show ?thesis .
    qed
    show "take (TERM_ROWS - 1) (?cb[TERM_ROWS - 2 := line_row s, TERM_ROWS - 1 := blank_row]) ! i = map line_row (drop (Suc ?k) ls @ [s]) ! i"
      using i row len False by (cases "i + 1 < TERM_ROWS - 1") (auto simp: scroll_up_def nth_list_update nth_append TERM_ROWS_def)
  qed
  moreover have "drop (Suc ?k) ls @ [s] = drop (length (ls @ [s]) - (TERM_ROWS - 1)) (ls @ [s])" 
  proof -
    have "Suc ?k = length (ls @ [s]) - (TERM_ROWS - 1)" "length (ls @ [s]) - (TERM_ROWS - 1) \<le> length ls" using False by (auto simp: TERM_ROWS_def)
    then show ?thesis by simp
  qed
  ultimately show ?thesis using False c len by (simp add: shows_lines_def print_line_def Let_def min_def TERM_ROWS_def)
qed

lemma fold_print_shows: "shows_lines ls t \<Longrightarrow> shows_lines (ls @ ss) (fold print_line ss t)"
proof (induction ss arbitrary: ls t)
  case (Cons s ss)
  then show ?case using Cons.IH [of "ls @ [s]" "print_line s t"] print_line_shows by simp
qed simp

lemma ls_loop:
  "i \<le> n \<Longrightarrow> n \<le> length buf \<Longrightarrow> start \<le> i \<Longrightarrow>
   (case fold (ls_step buf) [i..<n] (start, t) of (st, t1) \<Rightarrow> if n > st then print_line (take (n - st) (drop st buf)) t1 else t1) =
   fold print_line (split_lines (rev (take (i - start) (drop start buf))) (take (n - i) (drop i buf))) t"
proof (induction "n - i" arbitrary: i start t)
  case 0
  then show ?case by simp
next
  case (Suc k)
  then have i: "i < n" by simp
  then have up: "[i..<n] = i # [Suc i..<n]" by (simp add: upt_rec)
  have nth: "take (n - i) (drop i buf) = buf ! i # take (n - Suc i) (drop (Suc i) buf)"
    using i Suc.prems by (simp add: Cons_nth_drop_Suc [symmetric] take_Cons' Suc_diff_Suc)
  have len: "length (take (i - start) (drop start buf)) = i - start" using i Suc.prems by simp
  have snoc: "take (Suc i - start) (drop start buf) = take (i - start) (drop start buf) @ [buf ! i]"
    using i Suc.prems by (simp add: Suc_diff_le take_Suc_conv_app_nth)
  show ?case
  proof (cases "buf ! i = 0x0A \<or> buf ! i = 0x0D")
    case True
    have empty: "take (i - start) (drop start buf) = [] \<longleftrightarrow> \<not> start < i" using len by auto
    show ?thesis
      using Suc.hyps(1) [of "Suc i" "Suc i" "if i > start then print_line (take (i - start) (drop start buf)) t else t"] Suc.hyps(2) Suc.prems i True empty
      by (simp add: up nth ls_step_def)
  next
    case False
    then show ?thesis
      using Suc.hyps(1) [of "Suc i" start t] Suc.hyps(2) Suc.prems i by (simp add: up nth ls_step_def snoc)
  qed
qed

lemma ls_output_eq: "n \<le> length buf \<Longrightarrow> ls_output buf n t = fold print_line (split_lines [] (take n buf)) t"
  using ls_loop [of 0 n buf 0 t] by (simp add: ls_output_def)

text \<open>What a command adds to the output, and the output after a command.\<close>

definition reply :: "term_env \<Rightarrow> u8 list \<Rightarrow> u8 list list" where
  "reply env cmd =
     (if cmd = bytes ''help'' \<or> cmd = bytes ''?'' then
        [bytes ''RogueOS Terminal v1.0'', bytes ''  help     show this message'', bytes ''  clear    clear screen'',
         bytes ''  ps       list processes'', bytes ''  ls       list root fs'', bytes ''  exit     close terminal'']
      else if cmd = bytes ''ls'' then
        (if sint (ls_ret env) > 0 then split_lines [] (take (unat (ls_ret env)) (ls_buf env)) else [bytes ''(empty or error)''])
      else if cmd = bytes ''ps'' then
        (if sint (ps_ret env) > 0 then bytes ''PID  STATE'' # map ps_line (take (unat (ps_ret env)) (ps_buf env)) else [bytes ''(no process info)''])
      else if cmd = [] then [] else [bytes ''unknown: '' @ take (TERM_COLS - 9) cmd])"

definition output_after :: "term_env \<Rightarrow> u8 list \<Rightarrow> u8 list list \<Rightarrow> u8 list list" where
  "output_after env cmd ls = (if cmd = bytes ''clear'' then [] else (ls @ [[0x3E, 0x20] @ cmd]) @ reply env cmd)"

lemma clear_shows: "shows_lines ls t \<Longrightarrow>
  shows_lines [] (t\<lparr>CHAR_BUF := map (\<lambda>r. if r < TERM_ROWS - 1 then blank_row else CHAR_BUF t ! r) [0..<TERM_ROWS], CUR_ROW := 0\<rparr>)"
  by (auto simp: shows_lines_def TERM_ROWS_def intro!: nth_equalityI)

lemma distinct_commands [simp]: "bytes ''clear'' \<noteq> bytes ''help''" "bytes ''clear'' \<noteq> bytes ''?''" "bytes ''ls'' \<noteq> bytes ''clear''"
  "bytes ''ps'' \<noteq> bytes ''clear''" "bytes ''help'' \<noteq> bytes ''clear''" "bytes ''?'' \<noteq> bytes ''clear''" "bytes ''clear'' \<noteq> []"
  by (simp_all add: bytes_def)

lemma run_command_shows:
  assumes "run_command env cmd t = Running t'" "shows_lines (ls @ [[0x3E, 0x20] @ cmd]) t" "length (ls_buf env) = 512"
  shows "shows_lines (output_after env cmd ls) t'"
proof (cases "cmd = bytes ''clear''")
  case True
  with assms(1) have "t' = t\<lparr>CHAR_BUF := map (\<lambda>r. if r < TERM_ROWS - 1 then blank_row else CHAR_BUF t ! r) [0..<TERM_ROWS], CUR_ROW := 0\<rparr>"
    by (simp add: run_command_def)
  with True clear_shows [OF assms(2)] show ?thesis by (simp add: output_after_def)
next
  case False
  have "t' = fold print_line (reply env cmd) t"
  proof (cases "cmd = bytes ''help'' \<or> cmd = bytes ''?''")
    case True
    then have "run_command env cmd t = Running (fold print_line (reply env cmd) t)" unfolding run_command_def reply_def by (simp only: if_True)
    with assms(1) show ?thesis by simp
  next
    case F1: False
    show ?thesis
    proof (cases "cmd = bytes ''ls''")
      case True
      have "run_command env cmd t = Running t' \<Longrightarrow> ?thesis"
        unfolding run_command_def reply_def if_not_P [OF F1] if_not_P [OF False] if_P [OF True]
        by (cases "sint (ls_ret env) > 0"; cases "unat (ls_ret env) > 512") (simp_all add: ls_output_eq assms(3))
      with assms(1) show ?thesis by blast
    next
      case F2: False
      show ?thesis
        using assms(1) unfolding run_command_def reply_def if_not_P [OF F1] if_not_P [OF False] if_not_P [OF F2]
        by (simp split: if_splits)
    qed
  qed
  with False fold_print_shows [OF assms(2)] show ?thesis by (simp add: output_after_def)
qed

section \<open>The line editor\<close>

definition term_line :: "terminal \<Rightarrow> u8 list" where
  "term_line t = take (LINE_LEN t) (LINE_BUF t)"

definition term_ok :: "terminal \<Rightarrow> bool" where
  "term_ok t \<longleftrightarrow> length (LINE_BUF t) = MAX_LINE \<and> LINE_LEN t \<le> MAX_LINE"

lemma render_fields [simp]: "LINE_BUF (render c t) = LINE_BUF t" "LINE_LEN (render c t) = LINE_LEN t" "CHAR_BUF (render c t) = CHAR_BUF t"
  by (simp_all add: render_def Let_def)

lemma prompt_fields [simp]: "LINE_BUF (show_prompt t) = LINE_BUF t" "LINE_LEN (show_prompt t) = LINE_LEN t" "PIXEL_BUF (show_prompt t) = PIXEL_BUF t"
  by (simp_all add: show_prompt_def Let_def)

lemma print_fields [simp]: "LINE_BUF (print_line s t) = LINE_BUF t" "LINE_LEN (print_line s t) = LINE_LEN t" "PIXEL_BUF (print_line s t) = PIXEL_BUF t"
  by (simp_all add: print_line_def scroll_up_def Let_def)

lemma fold_print_fields [simp]: "LINE_BUF (fold print_line ss t) = LINE_BUF t" "LINE_LEN (fold print_line ss t) = LINE_LEN t" "PIXEL_BUF (fold print_line ss t) = PIXEL_BUF t"
  by (induction ss arbitrary: t) simp_all

lemma run_command_fields:
  "run_command env cmd t = Running t' \<Longrightarrow> length (ls_buf env) = 512 \<Longrightarrow> LINE_BUF t' = LINE_BUF t \<and> LINE_LEN t' = LINE_LEN t \<and> PIXEL_BUF t' = PIXEL_BUF t"
  by (auto simp: run_command_def ls_output_eq split: if_splits)

text \<open>The line after a key.\<close>

definition edited :: "u8 \<Rightarrow> u8 list \<Rightarrow> u8 list" where
  "edited key line =
     (if key = KEY_ENTER then [] else if key = KEY_BACKSPACE then butlast line
      else case keycode_to_char key of None \<Rightarrow> line | Some ch \<Rightarrow> if length line < MAX_LINE then line @ [ch] else line)"

lemma term_key_edits:
  assumes "term_ok t" "term_key env w sid key t = (Running t', ch, out)" "length (ls_buf env) = 512"
  shows "term_ok t'" "term_line t' = edited key (term_line t)"
proof -
  have len: "length (term_line t) = LINE_LEN t" using assms(1) by (simp add: term_line_def term_ok_def)
  have "term_ok t' \<and> term_line t' = edited key (term_line t)"
  proof (cases "key = KEY_ENTER")
    case True
    with assms show ?thesis
      by (auto simp: term_key_def Let_def term_ok_def term_line_def edited_def split: term_outcome.splits dest!: run_command_fields)
  next
    case enter: False
    show ?thesis
    proof (cases "key = KEY_BACKSPACE")
      case True
      with enter assms len show ?thesis
        by (auto simp: term_key_def Let_def term_ok_def term_line_def edited_def butlast_take split: if_splits)
    next
      case False
      with enter assms len show ?thesis
        by (auto simp: term_key_def Let_def term_ok_def term_line_def edited_def take_Suc_conv_app_nth split: if_splits option.splits)
    qed
  qed
  then show "term_ok t'" "term_line t' = edited key (term_line t)" by auto
qed

section \<open>Writes stay in the pixel buffer\<close>

lemma fold_keep: "(\<And>x b. x \<in> set xs \<Longrightarrow> f x b i = b i) \<Longrightarrow> fold f xs b i = b i"
  by (induction xs arbitrary: b) auto

lemma fill_keeps:
  assumes "(y + (h - 1)) * PX_W + x + w \<le> i"
  shows "fill_rect_px x y w h color buf i = buf i"
proof -
  have "fold (\<lambda>col b. b((y + row) * PX_W + x + col := color)) [0..<w] b i = b i" if "row < h" for row b
  proof (rule fold_keep)
    fix col and b :: "nat \<Rightarrow> u32" assume "col \<in> set [0..<w]"
    moreover have "(y + row) * PX_W \<le> (y + (h - 1)) * PX_W" using that by (intro mult_right_mono) auto
    ultimately have "i \<noteq> (y + row) * PX_W + x + col" using assms unfolding set_upt atLeastLessThan_iff by linarith
    then show "(b((y + row) * PX_W + x + col := color)) i = b i" by (rule fun_upd_other)
  qed
  then have "fold (\<lambda>row b. fold (\<lambda>col b. b((y + row) * PX_W + x + col := color)) [0..<w] b) [0..<h] buf i = buf i"
    by - (rule fold_keep, simp only: set_upt atLeastLessThan_iff)
  then show ?thesis by (simp add: fill_rect_px_def)
qed

lemma row_runs_end: "(a, n) \<in> set (row_runs r 0) \<Longrightarrow> n \<noteq> 0 \<Longrightarrow> a + n \<le> FONT_W"
proof -
  assume m: "(a, n) \<in> set (row_runs r 0)" "n \<noteq> 0"
  then have "\<exists>(a', n')\<in>set (row_runs r 0). a' \<le> a + (n - 1) \<and> a + (n - 1) < a' + n'" by (intro bexI [of _ "(a, n)"]) auto
  then have "a + (n - 1) < FONT_W" using row_runs_pixels [of r 0 "a + (n - 1)"] by simp
  with m(2) show ?thesis by simp
qed

lemma draw_char_keeps:
  assumes "(y0 + (FONT_H - 1)) * PX_W + x0 + FONT_W \<le> i"
  shows "draw_char_px x0 y0 ch color buf i = buf i"
proof -
  have "fill_rect_px (x0 + a) (y0 + row) n 1 color b i = b i" if "(a, n) \<in> set (row_runs r 0)" "row < FONT_H" for a n row r b
  proof (cases "n = 0")
    case False
    have "(y0 + row) * PX_W \<le> (y0 + (FONT_H - 1)) * PX_W" using that(2) by (intro mult_right_mono) auto
    then have "(y0 + row + (1 - 1)) * PX_W + (x0 + a) + n \<le> i" using row_runs_end [OF that(1) False] assms unfolding diff_self_eq_0 add_0_right by linarith
    then show ?thesis by (rule fill_keeps)
  qed (simp add: fill_rect_px_def)
  then have "fold (\<lambda>(start, len) b. fill_rect_px (x0 + start) (y0 + row) len 1 color b) (row_runs r 0) b i = b i" if "row < FONT_H" for row r b
    using that by (intro fold_keep) auto
  then have "fold (\<lambda>row. fold (\<lambda>(start, len). fill_rect_px (x0 + start) (y0 + row) len 1 color) (row_runs (drop_bit (row * FONT_W) (glyph_bits ch) AND 0xF) 0))
      [0..<FONT_H] buf i = buf i"
    by - (rule fold_keep, simp)
  then show ?thesis by (simp add: draw_char_px_def Let_def)
qed

lemma render_keeps:
  assumes "cursor_col \<le> TERM_COLS" "PX_W * PX_H \<le> i"
  shows "PIXEL_BUF (render cursor_col t) i = PIXEL_BUF t i"
proof -
  have N: "65600 \<le> i" using assms(2) by (simp add: term_consts)
  have "draw_char_px (PAD + col * CHAR_W) (PAD + row * CHAR_H) ch TC_FG b i = b i" if "row < TERM_ROWS" "col < TERM_COLS" for row col ch b
    using that N by (intro draw_char_keeps) (simp add: term_consts)
  then have "fold (\<lambda>col b. draw_char_px (PAD + col * CHAR_W) (PAD + row * CHAR_H) (CHAR_BUF t ! row ! col) TC_FG b) [0..<TERM_COLS] b i = b i"
    if "row < TERM_ROWS" for row b using that by (intro fold_keep) simp
  then have "fold (\<lambda>row b. fold (\<lambda>col b. draw_char_px (PAD + col * CHAR_W) (PAD + row * CHAR_H) (CHAR_BUF t ! row ! col) TC_FG b) [0..<TERM_COLS] b) [0..<TERM_ROWS] b i = b i" for b
    by - (rule fold_keep, simp)
  moreover have "fill_rect_px 0 0 PX_W PX_H TC_BG b i = b i" for b using N by (intro fill_keeps) (simp add: term_consts)
  moreover have "fill_rect_px (PAD + cursor_col * CHAR_W) (PAD + (TERM_ROWS - 1) * CHAR_H + FONT_H + 1) CHAR_W 1 TC_CURSOR b i = b i" for b
    using assms(1) N by (intro fill_keeps) (simp add: term_consts)
  ultimately show ?thesis by (simp add: render_def Let_def)
qed

lemma term_key_keeps:
  assumes "term_ok t" "term_key env w sid key t = (Running t', ch, out)" "length (ls_buf env) = 512" "PX_W * PX_H \<le> i"
  shows "PIXEL_BUF t' i = PIXEL_BUF t i"
proof (cases "key = KEY_ENTER")
  case True
  with assms show ?thesis
    by (auto simp: term_key_def Let_def render_keeps TERM_COLS_def split: term_outcome.splits dest!: run_command_fields)
next
  case False
  with assms show ?thesis
    by (auto simp: term_key_def Let_def render_keeps TERM_COLS_def term_ok_def MAX_LINE_def split: if_splits option.splits)
qed

lemma term_key_shows:
  assumes "shows_lines ls t" "term_key env w sid key t = (Running t', ch, out)" "length (ls_buf env) = 512"
  shows "shows_lines (if key = KEY_ENTER then output_after env (term_line t) ls else ls) t'"
proof (cases "key = KEY_ENTER")
  case True
  let ?cmd = "term_line t"
  obtain t2 where t2: "run_command env ?cmd (print_line ([0x3E, 0x20] @ ?cmd) (t\<lparr>LINE_LEN := 0\<rparr>)) = Running t2" "t' = render 2 (show_prompt t2)"
    using assms(2) True by (auto simp: term_key_def Let_def term_line_def split: term_outcome.splits)
  have "shows_lines (ls @ [[0x3E, 0x20] @ ?cmd]) (print_line ([0x3E, 0x20] @ ?cmd) (t\<lparr>LINE_LEN := 0\<rparr>))"
    by (rule print_line_shows) (simp add: assms(1))
  from run_command_shows [OF t2(1) this assms(3)] True t2(2) show ?thesis by simp
next
  case False
  with assms show ?thesis by (auto simp: term_key_def Let_def split: if_splits option.splits)
qed

lemma print_line_length: "length (CHAR_BUF t) = TERM_ROWS \<Longrightarrow> length (CHAR_BUF (print_line s t)) = TERM_ROWS"
  by (simp add: print_line_def scroll_up_def Let_def)

lemma fold_print_length: "length (CHAR_BUF t) = TERM_ROWS \<Longrightarrow> length (CHAR_BUF (fold print_line ss t)) = TERM_ROWS"
  by (induction ss arbitrary: t) (simp_all add: print_line_length)

lemma run_command_length:
  assumes "run_command env cmd t = Running t'" "length (ls_buf env) = 512" "length (CHAR_BUF t) = TERM_ROWS"
  shows "length (CHAR_BUF t') = TERM_ROWS"
  using assms by (auto simp: run_command_def ls_output_eq print_line_length fold_print_length split: if_splits)

lemma show_prompt_row:
  assumes "length (CHAR_BUF t) = TERM_ROWS" "term_ok t"
  shows "CHAR_BUF (show_prompt t) ! (TERM_ROWS - 1) = line_row ([0x3E, 0x20] @ term_line t)"
  using assms by (auto simp: term_ok_def show_prompt_def term_line_def line_row_def term_consts Let_def min_def)

lemma term_key_prompt:
  assumes "term_ok t" "length (CHAR_BUF t) = TERM_ROWS" "term_key env w sid key t = (Running t', True, out)" "length (ls_buf env) = 512"
  shows "CHAR_BUF t' ! (TERM_ROWS - 1) = line_row ([0x3E, 0x20] @ term_line t')"
proof -
  have "\<exists>t1 c. t' = render c (show_prompt t1) \<and> length (CHAR_BUF t1) = TERM_ROWS"
  proof (cases "key = KEY_ENTER")
    case True
    with assms show ?thesis
      by (auto simp: term_key_def Let_def print_line_length split: term_outcome.splits dest!: run_command_length)
  next
    case False
    with assms show ?thesis by (fastforce simp: term_key_def Let_def split: if_splits option.splits)
  qed
  then obtain t1 c where t1: "t' = render c (show_prompt t1)" "length (CHAR_BUF t1) = TERM_ROWS" by blast
  then have "term_ok t1" using term_key_edits(1) [OF assms(1,3,4)] by (simp add: term_ok_def)
  from show_prompt_row [OF t1(2) this] t1(1) show ?thesis by (simp add: term_line_def)
qed

section \<open>Sessions\<close>

text \<open>The output after a message or a key, and after a turn.\<close>

definition key_output :: "term_env \<Rightarrow> u8 \<Rightarrow> session \<Rightarrow> u8 list list \<Rightarrow> u8 list list" where
  "key_output env key s ls = (if key = KEY_ENTER then output_after env (term_line (ss_term s)) ls else ls)"

definition msg_output :: "term_env \<Rightarrow> rwm_msg \<Rightarrow> session \<Rightarrow> u8 list list \<Rightarrow> u8 list list" where
  "msg_output env m s ls = (let kdp = decode_rdp (payload m)
     in if msg_type m = RDP_KEY \<and> rdp_key_state kdp = 1 then key_output env (ucast (rdp_key_code kdp)) s ls else ls)"

text \<open>A run of the terminal: its start, then messages, raw keys and idle turns, with the output so far.\<close>

inductive term_run :: "u8 list list \<Rightarrow> session \<Rightarrow> bool" where
  run_start: "term_start e mem = (Some s, out) \<Longrightarrow> term_run [greeting] s"
| run_msg: "term_run ls s \<Longrightarrow> length (ls_buf env) = 512 \<Longrightarrow> session_msg env m s = (Some s', out) \<Longrightarrow> term_run (msg_output env m s ls) s'"
| run_raw: "term_run ls s \<Longrightarrow> length (ls_buf env) = 512 \<Longrightarrow> session_key env key s = (Some s', out) \<Longrightarrow> term_run (key_output env key s ls) s'"
| run_idle: "term_run ls s \<Longrightarrow> term_run ls (fst (session_idle s))"

lemma drain_run:
  "term_drain ms s = (Some s', out) \<Longrightarrow> (\<forall>(env, m)\<in>set ms. length (ls_buf env) = 512) \<Longrightarrow> term_run ls s \<Longrightarrow> \<exists>ls'. term_run ls' s'"
proof (induction ms s arbitrary: ls s' out rule: term_drain.induct)
  case (2 env m ms s)
  then obtain s1 o1 o2 where "session_msg env m s = (Some s1, o1)" "term_drain ms s1 = (Some s', o2)"
    by (auto split: prod.splits option.splits)
  with 2 run_msg [of ls s env m s1 o1] show ?case by auto
qed auto

lemma turn_run:
  assumes "term_turn ms k s = (Some s', out)" "term_run ls s" "\<forall>(env, m)\<in>set ms. length (ls_buf env) = 512"
    "\<forall>(env, key)\<in>set_option k. length (ls_buf env) = 512"
  shows "\<exists>ls'. term_run ls' s'"
proof -
  obtain s1 s2 o1 o2 where t: "term_drain ms s = (Some s1, o1)" "raw_key k s1 = (Some s2, o2)" "s' = fst (session_idle s2)"
    using assms(1) by (auto simp: term_turn_def split: prod.splits option.splits)
  from drain_run [OF t(1) assms(3,2)] obtain ls1 where "term_run ls1 s1" ..
  then have "\<exists>ls2. term_run ls2 s2"
    using t(2) assms(4) by (cases k) (auto simp: raw_key_def dest: run_raw)
  then show ?thesis using t(3) run_idle by blast
qed

lemma rdp_types_differ [simp]: "RDP_KEY \<noteq> RDP_PRESENT_DONE" "RDP_PRESENT_DONE \<noteq> RDP_KEY"
  by (simp_all add: rdp_types)

lemma next_frame_term [simp]: "ss_term (fst (next_frame s)) = ss_term s"
  by (simp add: next_frame_def)

lemma session_idle_term [simp]: "ss_term (fst (session_idle s)) = ss_term s"
  by (simp add: session_idle_def)

lemma session_key_term:
  assumes "session_key env key s = (Some s', out)"
  obtains ch out' where "term_key env (ss_wm s) (ss_sid s) key (ss_term s) = (Running (ss_term s'), ch, out')"
  using assms by (auto simp: session_key_def split: prod.splits term_outcome.splits)

lemma session_msg_cases:
  assumes "session_msg env m s = (Some s', out)"
  shows "if msg_type m = RDP_KEY \<and> rdp_key_state (decode_rdp (payload m)) = 1
    then session_key env (ucast (rdp_key_code (decode_rdp (payload m)))) s = (Some s', out) else ss_term s' = ss_term s"
  using assms by (auto simp: session_msg_def next_frame_def Let_def split: if_splits)

lemma term_start_term: "term_start e mem = (Some s, out) \<Longrightarrow> ss_term s = first_screen mem"
  by (auto simp: term_start_def Let_def split: if_splits option.splits)

lemma first_screen_ok: "shows_lines [greeting] (first_screen mem)" "term_ok (first_screen mem)"
  using print_line_shows [OF init_shows, of greeting mem] by (simp_all add: first_screen_def Let_def term_ok_def terminal_init_def)

lemma session_key_ok:
  assumes "session_key env key s = (Some s', out)" "length (ls_buf env) = 512" "term_ok (ss_term s)" "shows_lines ls (ss_term s)"
  shows "term_ok (ss_term s') \<and> shows_lines (key_output env key s ls) (ss_term s')"
proof -
  from assms(1) obtain ch out' where k: "term_key env (ss_wm s) (ss_sid s) key (ss_term s) = (Running (ss_term s'), ch, out')"
    by (rule session_key_term)
  from term_key_edits(1) [OF assms(3) k assms(2)] term_key_shows [OF assms(4) k assms(2)] show ?thesis
    unfolding key_output_def by blast
qed

lemma term_run_ok: "term_run ls s \<Longrightarrow> term_ok (ss_term s) \<and> shows_lines ls (ss_term s)"
proof (induction rule: term_run.induct)
  case (run_start e mem s out)
  then show ?case by (simp add: term_start_term first_screen_ok)
next
  case (run_msg ls s env m s' out)
  then show ?case
    using session_msg_cases [OF run_msg(3)] session_key_ok [OF _ run_msg(2)] by (auto simp: msg_output_def Let_def split: if_splits)
next
  case (run_raw ls s env key s' out)
  then show ?case using session_key_ok by blast
qed simp

text \<open>C19: The terminal keeps a transcript. In every run, the twenty-three upper rows of the character grid show the last
  twenty-three lines of the output (the greeting, each entered line after its prompt, and what each command printed),
  oldest first, cut at sixty-four columns and padded with blanks; \<open>clear\<close> empties it. The line being edited never
  outgrows its buffer.\<close>

theorem terminal_shows_transcript:
  assumes "term_run ls s"
  shows "term_ok (ss_term s) \<and>
    take 23 (CHAR_BUF (ss_term s)) = map line_row (drop (length ls - min (length ls) 23) ls) @ replicate (23 - min (length ls) 23) blank_row"
  using term_run_ok [OF assms] by (simp add: shows_lines_def TERM_ROWS_def)

definition sample_start :: start_env where
  "sample_start = \<lparr>st_sid = 1, st_pid1 = 3, st_pid2 = 0, st_pid3 = 0, st_recv = [(0, rdp_msg RDP_GRANT 0 payload_rdp_zero)], st_attach = 0, st_buf = 0\<rparr>"

definition sample_env :: term_env where
  "sample_env = \<lparr>ls_ret = 0, ls_buf = replicate 512 0, ps_ret = 0, ps_buf = []\<rparr>"

definition enter_msg :: rwm_msg where
  "enter_msg = rdp_msg RDP_KEY 0 (payload_rdp_zero\<lparr>rdp_key_code := ucast KEY_ENTER, rdp_key_state := 1\<rparr>)"

lemma sample_grant: "got_grant (st_recv sample_start)"
  by (simp add: got_grant_def sample_start_def rdp_msg_def)

lemma enter_msg_key: "msg_type enter_msg = RDP_KEY" "rdp_key_state (decode_rdp (payload enter_msg)) = 1"
  "ucast (rdp_key_code (decode_rdp (payload enter_msg))) = KEY_ENTER"
  by (simp_all add: enter_msg_def decode_rdp_msg payload_rdp_zero_def) (simp_all add: rdp_msg_def KEY_ENTER_def)

lemma sample_run: "\<exists>s. term_run [greeting, [0x3E, 0x20]] s"
proof -
  obtain s out where s: "term_start sample_start (\<lambda>_. 0) = (Some s, out)"
    using sample_grant by (auto simp: term_start_def find_wm_def sample_start_def Let_def)
  have len: "LINE_LEN (ss_term s) = 0"
    using term_start_term [OF s] by (simp add: first_screen_def Let_def terminal_init_def)
  then have line: "term_line (ss_term s) = []" by (simp add: term_line_def)
  obtain s' out' where "session_msg sample_env enter_msg s = (Some s', out')"
    using len by (auto simp: session_msg_def session_key_def term_key_def enter_msg_key run_command_def bytes_def Let_def)
  from run_msg [OF run_start [OF s] _ this] have "term_run (msg_output sample_env enter_msg s [greeting]) s'"
    by (simp add: sample_env_def)
  moreover have "msg_output sample_env enter_msg s [greeting] = [greeting, [0x3E, 0x20]]"
    using line by (simp add: msg_output_def key_output_def enter_msg_key output_after_def reply_def bytes_def)
  ultimately show ?thesis by metis
qed

theorem terminal_shows_transcript_witness:
  "\<exists>s. term_run [greeting, [0x3E, 0x20]] s \<and>
     take 23 (CHAR_BUF (ss_term s)) =
       [line_row (greeting), line_row [0x3E, 0x20]] @ replicate 21 blank_row"
proof -
  from sample_run obtain s where s: "term_run [greeting, [0x3E, 0x20]] s" by blast
  with terminal_shows_transcript [OF s] show ?thesis by auto
qed

text \<open>C39: A key pressed in the terminal edits its line: printable keys append their character while there is room for it,
  backspace removes the last one, enter empties the line. Unless the key is refused, the bottom row of the grid shows the prompt
  and the new line, and the pixels outside the buffer of \<open>PX_W * PX_H\<close> pixels, which is written through a raw pointer, are
  never touched.\<close>

theorem terminal_key_safe:
  assumes "term_ok t" "length (CHAR_BUF t) = TERM_ROWS" "length (ls_buf env) = 512" "term_key env w sid key t = (Running t', changed, out)"
  shows "term_line t' = edited key (term_line t) \<and> (\<forall>i. PX_W * PX_H \<le> i \<longrightarrow> PIXEL_BUF t' i = PIXEL_BUF t i) \<and>
    (changed \<longrightarrow> CHAR_BUF t' ! (TERM_ROWS - 1) = line_row ([0x3E, 0x20] @ term_line t'))"
proof -
  have "CHAR_BUF t' ! (TERM_ROWS - 1) = line_row ([0x3E, 0x20] @ term_line t')" if changed
    using term_key_prompt [OF assms(1,2) _ assms(3), of w sid key t' out] assms(4) that by simp
  with term_key_edits(2) [OF assms(1,4,3)] term_key_keeps [OF assms(1,4,3)] show ?thesis by blast
qed

theorem terminal_key_safe_witness:
  "\<exists>t' out. term_key sample_env 3 1 KEY_A (terminal_init (\<lambda>_. 7)) = (Running t', True, out) \<and>
     term_line t' = [0x61] \<and> PIXEL_BUF t' 65600 = 7 \<and> CHAR_BUF t' ! (TERM_ROWS - 1) = line_row [0x3E, 0x20, 0x61]"
proof -
  let ?t = "terminal_init (\<lambda>_. 7)"
  have ch: "keycode_to_char KEY_A = Some 0x61" "KEY_A \<noteq> KEY_ENTER" "KEY_A \<noteq> KEY_BACKSPACE" "KEY_A \<noteq> KEY_ESC"
    by (code_simp, code_simp, code_simp, code_simp)
  have ok: "term_ok ?t" "length (CHAR_BUF ?t) = TERM_ROWS" "length (ls_buf sample_env) = 512"
    by (simp_all add: term_ok_def terminal_init_def sample_env_def)
  obtain t' out where t': "term_key sample_env 3 1 KEY_A ?t = (Running t', True, out)"
    using ch by (simp add: term_key_def Let_def terminal_init_def term_consts)
  have "edited KEY_A (term_line ?t) = [0x61]" using ch by (simp add: edited_def term_line_def terminal_init_def term_consts)
  with terminal_key_safe [OF ok t'] t' show ?thesis by (auto simp: term_consts terminal_init_def)
qed

end
