(* ===== verification/User_Lib.thy ===== *)
theory User_Lib
  imports Dispatch Heap
begin

text \<open>
  The way from a program into the kernel and back: the wrappers of \<open>userland/src/lib.rs\<close>, each of which loads the call number and
  its arguments into registers and executes \<open>SYSCALL\<close>; the entry path of \<open>kernel/arch/x86_64/syscall_entry.rs\<close>, which saves
  the registers on the kernel stack of the process, calls the dispatcher and restores them; and the bump allocator that programs use.
\<close>

section \<open>Registers and the kernel stack\<close>

record regs =
  rax :: u64
  rdi :: u64
  rsi :: u64
  rdx :: u64
  r10 :: u64
  r8 :: u64
  r9 :: u64
  r11 :: u64
  rcx :: u64
  rsp :: u64
  rip :: u64
  rflags :: u64

text \<open>The statics of the entry path and the eight-byte cells of the kernel stack.\<close>

record entry =
  syscall_kernel_rsp :: u64
  syscall_user_rsp :: u64
  current_regs_ptr :: u64
  kstack :: "u64 \<Rightarrow> u64"

definition set_current_kernel_rsp :: "u64 \<Rightarrow> entry \<Rightarrow> entry" where
  "set_current_kernel_rsp sp e = e\<lparr>syscall_kernel_rsp := sp\<rparr>"

definition get_user_rsp :: "entry \<Rightarrow> u64" where
  "get_user_rsp e = syscall_user_rsp e"

definition get_user_rip :: "entry \<Rightarrow> u64" where
  "get_user_rip e = (if current_regs_ptr e = 0 then 0 else kstack e (current_regs_ptr e + 64))"

definition get_user_rflags :: "entry \<Rightarrow> u64" where
  "get_user_rflags e = (if current_regs_ptr e = 0 then 0x202 else kstack e (current_regs_ptr e + 56))"

text \<open>\<open>SYSCALL\<close> keeps the address of the next instruction in \<open>rcx\<close> and the flags in \<open>r11\<close>; \<open>SYSRETQ\<close> takes them from there.\<close>

definition syscall_insn :: "regs \<Rightarrow> regs" where
  "syscall_insn r = r\<lparr>rcx := rip r, r11 := rflags r\<rparr>"

definition sysretq :: "regs \<Rightarrow> regs" where
  "sysretq r = r\<lparr>rip := rcx r, rflags := r11 r\<rparr>"

text \<open>The instructions before the call: \<open>rdi\<close> points to the frame.\<close>

definition save_frame :: "regs \<Rightarrow> entry \<Rightarrow> regs \<times> entry" where
  "save_frame r e =
     (let sp = syscall_kernel_rsp e - 80
      in (r\<lparr>rsp := sp, rdi := sp\<rparr>,
          e\<lparr>syscall_user_rsp := rsp r,
            kstack := (kstack e)(sp := rax r, sp + 8 := rdi r, sp + 16 := rsi r, sp + 24 := rdx r, sp + 32 := r10 r,
              sp + 40 := r8 r, sp + 48 := r9 r, sp + 56 := r11 r, sp + 64 := rcx r)\<rparr>))"

definition syscall_entry_rust :: "hw \<Rightarrow> u64 \<Rightarrow> entry \<Rightarrow> kernel \<Rightarrow> entry \<times> call_result" where
  "syscall_entry_rust h p e k =
     (let e1 = e\<lparr>current_regs_ptr := p\<rparr>; m = kstack e
      in (e1, syscall_dispatch (h\<lparr>hw_rip := get_user_rip e1, hw_rflags := get_user_rflags e1, hw_rsp := get_user_rsp e1\<rparr>)
                (m p) (m (p + 8)) (m (p + 16)) (m (p + 24)) (m (p + 32)) (m (p + 40)) (m (p + 48)) k))"

definition pop_cell :: "entry \<Rightarrow> regs \<Rightarrow> u64 \<times> regs" where
  "pop_cell e r = (kstack e (rsp r), r\<lparr>rsp := rsp r + 8\<rparr>)"

text \<open>The instructions after the call. The compiled code behind the call may leave anything in the registers that it need not
  preserve; \<open>rsp\<close> points to the frame again.\<close>

definition restore_frame :: "regs \<Rightarrow> entry \<Rightarrow> regs \<times> entry" where
  "restore_frame r0 e0 =
     (let e = e0\<lparr>kstack := (kstack e0)(rsp r0 := rax r0)\<rparr>;
          (v, r) = pop_cell e r0; r = r\<lparr>rax := v\<rparr>;
          (v, r) = pop_cell e r; r = r\<lparr>rdi := v\<rparr>;
          (v, r) = pop_cell e r; r = r\<lparr>rsi := v\<rparr>;
          (v, r) = pop_cell e r; r = r\<lparr>rdx := v\<rparr>;
          (v, r) = pop_cell e r; r = r\<lparr>r10 := v\<rparr>;
          (v, r) = pop_cell e r; r = r\<lparr>r8 := v\<rparr>;
          (v, r) = pop_cell e r; r = r\<lparr>r9 := v\<rparr>;
          (v, r) = pop_cell e r; r = r\<lparr>r11 := v\<rparr>;
          (v, r) = pop_cell e r; r = r\<lparr>rcx := v\<rparr>
      in (sysretq (r\<lparr>rsp := syscall_user_rsp e\<rparr>), e))"

text \<open>What the dispatcher does for a program that executes \<open>SYSCALL\<close> with given registers.\<close>

definition user_call :: "hw \<Rightarrow> regs \<Rightarrow> entry \<Rightarrow> kernel \<Rightarrow> call_result" where
  "user_call h r e k = (case save_frame (syscall_insn r) e of (r1, e1) \<Rightarrow> snd (syscall_entry_rust h (rdi r1) e1 k))"

text \<open>The whole entry path when the call returns to its caller; \<open>junk\<close> are the registers after the compiled code.\<close>

definition syscall_entry :: "hw \<Rightarrow> regs \<Rightarrow> regs \<Rightarrow> entry \<Rightarrow> kernel \<Rightarrow> ((regs \<times> entry) option \<times> call_result)" where
  "syscall_entry h junk r e k =
     (case save_frame (syscall_insn r) e of (r1, e1) \<Rightarrow>
        case syscall_entry_rust h (rdi r1) e1 k of (e2, res) \<Rightarrow>
          (case res of
             Some (Done (Return v, k')) \<Rightarrow> Some (restore_frame (junk\<lparr>rsp := rsp r1, rax := result_to_rax v\<rparr>) e2)
           | _ \<Rightarrow> None, res))"

section \<open>The wrappers\<close>

text \<open>The registers at the \<open>SYSCALL\<close> instruction of each wrapper; those it does not name keep what they had. Pointers and slices are
  passed as addresses and lengths, signed numbers as their bit patterns.\<close>

definition user_sys_read :: "u32 \<Rightarrow> u64 \<Rightarrow> u64 \<Rightarrow> regs \<Rightarrow> regs" where
  "user_sys_read fd buf len r = r\<lparr>rax := SYS_READ, rdi := ucast fd, rsi := buf, rdx := len\<rparr>"

definition user_sys_write :: "u32 \<Rightarrow> u64 \<Rightarrow> u64 \<Rightarrow> regs \<Rightarrow> regs" where
  "user_sys_write fd buf len r = r\<lparr>rax := SYS_WRITE, rdi := ucast fd, rsi := buf, rdx := len\<rparr>"

definition user_sys_exit :: "u32 \<Rightarrow> regs \<Rightarrow> regs" where
  "user_sys_exit status r = r\<lparr>rax := SYS_EXIT, rdi := scast status\<rparr>"

definition user_sys_poll_input :: "u64 \<Rightarrow> regs \<Rightarrow> regs" where
  "user_sys_poll_input ev r = r\<lparr>rax := SYS_POLL_INPUT, rdi := ev\<rparr>"

definition user_sys_poll_mouse :: "u64 \<Rightarrow> regs \<Rightarrow> regs" where
  "user_sys_poll_mouse ev r = r\<lparr>rax := SYS_POLL_MOUSE, rdi := ev\<rparr>"

definition user_sys_gettime :: "regs \<Rightarrow> regs" where
  "user_sys_gettime r = r\<lparr>rax := SYS_GETTIME, rdi := 0\<rparr>"

definition user_sys_fb_clear :: "u32 \<Rightarrow> regs \<Rightarrow> regs" where
  "user_sys_fb_clear color r = r\<lparr>rax := SYS_FB_CLEAR, rdi := ucast color\<rparr>"

definition user_sys_fb_fill_rect :: "u32 \<Rightarrow> u32 \<Rightarrow> u32 \<Rightarrow> u32 \<Rightarrow> u32 \<Rightarrow> regs \<Rightarrow> regs" where
  "user_sys_fb_fill_rect x y w ht color r = r\<lparr>rax := SYS_FB_FILL_RECT, rdi := ucast x, rsi := ucast y, rdx := ucast w, r10 := ucast ht, r8 := ucast color\<rparr>"

definition user_sys_fb_flush :: "regs \<Rightarrow> regs" where
  "user_sys_fb_flush r = r\<lparr>rax := SYS_FB_FLUSH\<rparr>"

definition user_sys_open :: "u64 \<Rightarrow> u64 \<Rightarrow> u32 \<Rightarrow> regs \<Rightarrow> regs" where
  "user_sys_open pathp path_len flags r = r\<lparr>rax := SYS_OPEN, rdi := pathp, rsi := path_len, rdx := ucast flags\<rparr>"

definition user_sys_close :: "u32 \<Rightarrow> regs \<Rightarrow> regs" where
  "user_sys_close fd r = r\<lparr>rax := SYS_CLOSE, rdi := ucast fd\<rparr>"

definition user_sys_lseek :: "u32 \<Rightarrow> u64 \<Rightarrow> u32 \<Rightarrow> regs \<Rightarrow> regs" where
  "user_sys_lseek fd offset whence r = r\<lparr>rax := SYS_LSEEK, rdi := ucast fd, rsi := offset, rdx := ucast whence\<rparr>"

definition user_sys_unlink :: "u64 \<Rightarrow> u64 \<Rightarrow> regs \<Rightarrow> regs" where
  "user_sys_unlink pathp path_len r = r\<lparr>rax := SYS_UNLINK, rdi := pathp, rsi := path_len\<rparr>"

definition user_sys_fsync :: "u32 \<Rightarrow> regs \<Rightarrow> regs" where
  "user_sys_fsync fd r = r\<lparr>rax := SYS_FSYNC, rdi := ucast fd\<rparr>"

definition user_sys_spawn_capped :: "u32 \<Rightarrow> u64 \<Rightarrow> regs \<Rightarrow> regs" where
  "user_sys_spawn_capped program_id cap_mask r = r\<lparr>rax := SYS_SPAWN, rdi := ucast program_id, rsi := cap_mask\<rparr>"

definition user_sys_spawn :: "u32 \<Rightarrow> regs \<Rightarrow> regs" where
  "user_sys_spawn program_id r = user_sys_spawn_capped program_id 0 r"

definition user_sys_cap_grant :: "u32 \<Rightarrow> u64 \<Rightarrow> regs \<Rightarrow> regs" where
  "user_sys_cap_grant target_pid cap_bits r = r\<lparr>rax := SYS_CAP_GRANT, rdi := ucast target_pid, rsi := cap_bits\<rparr>"

definition user_sys_cap_revoke :: "u32 \<Rightarrow> u64 \<Rightarrow> regs \<Rightarrow> regs" where
  "user_sys_cap_revoke target_pid cap_bits r = r\<lparr>rax := SYS_CAP_REVOKE, rdi := ucast target_pid, rsi := cap_bits\<rparr>"

definition user_sys_cap_query :: "regs \<Rightarrow> regs" where
  "user_sys_cap_query r = r\<lparr>rax := SYS_CAP_QUERY\<rparr>"

definition user_sys_journal_write :: "u64 \<Rightarrow> u64 \<Rightarrow> regs \<Rightarrow> regs" where
  "user_sys_journal_write data_ptr data_len r = r\<lparr>rax := SYS_JOURNAL_WRITE, rdi := data_ptr, rsi := data_len\<rparr>"

definition user_sys_journal_read :: "u64 \<Rightarrow> u64 \<Rightarrow> regs \<Rightarrow> regs" where
  "user_sys_journal_read buf_ptr buf_len r = r\<lparr>rax := SYS_JOURNAL_READ, rdi := buf_ptr, rsi := buf_len\<rparr>"

definition user_sys_iflow_get :: "u32 \<Rightarrow> u64 \<Rightarrow> u64 \<Rightarrow> regs \<Rightarrow> regs" where
  "user_sys_iflow_get pid out_secrecy out_integrity r = r\<lparr>rax := SYS_IFLOW_GET, rdi := ucast pid, rsi := out_secrecy, rdx := out_integrity\<rparr>"

definition user_sys_iflow_taint :: "u64 \<Rightarrow> u64 \<Rightarrow> regs \<Rightarrow> regs" where
  "user_sys_iflow_taint add_secrecy remove_integrity r = r\<lparr>rax := SYS_IFLOW_TAINT, rdi := add_secrecy, rsi := remove_integrity\<rparr>"

definition user_sys_iflow_declassify :: "u64 \<Rightarrow> regs \<Rightarrow> regs" where
  "user_sys_iflow_declassify remove_secrecy r = r\<lparr>rax := SYS_IFLOW_DECLASSIFY, rdi := remove_secrecy\<rparr>"

definition user_sys_iflow_endorse :: "u32 \<Rightarrow> u64 \<Rightarrow> regs \<Rightarrow> regs" where
  "user_sys_iflow_endorse target_pid add_integrity r = r\<lparr>rax := SYS_IFLOW_ENDORSE, rdi := ucast target_pid, rsi := add_integrity\<rparr>"

definition user_sys_get_proc_info :: "u64 \<Rightarrow> u32 \<Rightarrow> regs \<Rightarrow> regs" where
  "user_sys_get_proc_info buf capacity r = r\<lparr>rax := SYS_GET_PROC_INFO, rdi := buf, rsi := ucast capacity\<rparr>"

definition user_sys_list_root :: "u64 \<Rightarrow> u64 \<Rightarrow> regs \<Rightarrow> regs" where
  "user_sys_list_root buf capacity r = r\<lparr>rax := SYS_LIST_ROOT, rdi := buf, rsi := capacity\<rparr>"

definition user_sys_getpid :: "regs \<Rightarrow> regs" where
  "user_sys_getpid r = r\<lparr>rax := SYS_GETPID\<rparr>"

definition user_sys_waitpid :: "u32 \<Rightarrow> u64 \<Rightarrow> u32 \<Rightarrow> regs \<Rightarrow> regs" where
  "user_sys_waitpid pid status_ptr options r = r\<lparr>rax := SYS_WAITPID, rdi := ucast pid, rsi := status_ptr, rdx := ucast options\<rparr>"

definition user_sys_surface_create :: "regs \<Rightarrow> regs" where
  "user_sys_surface_create r = r\<lparr>rax := SYS_SURFACE_CREATE\<rparr>"

definition user_sys_surface_destroy :: "u32 \<Rightarrow> regs \<Rightarrow> regs" where
  "user_sys_surface_destroy sid r = r\<lparr>rax := SYS_SURFACE_DESTROY, rdi := ucast sid\<rparr>"

definition user_sys_surface_attach :: "u32 \<Rightarrow> u64 \<Rightarrow> u32 \<Rightarrow> u32 \<Rightarrow> u32 \<Rightarrow> regs \<Rightarrow> regs" where
  "user_sys_surface_attach sid ptr width height stride r = r\<lparr>rax := SYS_SURFACE_ATTACH, rdi := ucast sid, rsi := ptr, rdx := ucast width, r10 := ucast height, r8 := ucast stride\<rparr>"

definition user_sys_surface_commit :: "u32 \<Rightarrow> u32 \<Rightarrow> u32 \<Rightarrow> regs \<Rightarrow> regs" where
  "user_sys_surface_commit sid dst_x dst_y r = r\<lparr>rax := SYS_SURFACE_COMMIT, rdi := ucast sid, rsi := ucast dst_x, rdx := ucast dst_y\<rparr>"

definition user_sys_screen_size :: "u64 \<Rightarrow> u64 \<Rightarrow> regs \<Rightarrow> regs" where
  "user_sys_screen_size w ht r = r\<lparr>rax := SYS_SCREEN_SIZE, rdi := w, rsi := ht\<rparr>"

definition user_sys_fb_blit :: "u32 \<Rightarrow> u32 \<Rightarrow> u32 \<Rightarrow> u32 \<Rightarrow> u32 \<Rightarrow> u64 \<Rightarrow> regs \<Rightarrow> regs" where
  "user_sys_fb_blit dst_x dst_y w ht stride ptr r = r\<lparr>rax := SYS_FB_BLIT, rdi := ucast dst_x, rsi := ucast dst_y, rdx := ucast w, r10 := ucast ht, r8 := ucast stride, r9 := ptr\<rparr>"

definition user_sys_ipc_send :: "u32 \<Rightarrow> u64 \<Rightarrow> u32 \<Rightarrow> regs \<Rightarrow> regs" where
  "user_sys_ipc_send target_pid msg flags r = r\<lparr>rax := SYS_IPC_SEND, rdi := ucast target_pid, rsi := msg, rdx := ucast flags\<rparr>"

definition user_sys_ipc_recv :: "u64 \<Rightarrow> u32 \<Rightarrow> regs \<Rightarrow> regs" where
  "user_sys_ipc_recv outp flags r = r\<lparr>rax := SYS_IPC_RECV, rdi := outp, rsi := ucast flags\<rparr>"

definition user_sys_claim_compositor :: "regs \<Rightarrow> regs" where
  "user_sys_claim_compositor r = r\<lparr>rax := SYS_CLAIM_COMPOSITOR\<rparr>"

definition user_sys_composite_all :: "regs \<Rightarrow> regs" where
  "user_sys_composite_all r = r\<lparr>rax := SYS_COMPOSITE_ALL\<rparr>"

definition user_sys_surface_set_z :: "u32 \<Rightarrow> u8 \<Rightarrow> regs \<Rightarrow> regs" where
  "user_sys_surface_set_z sid z r = r\<lparr>rax := SYS_SURFACE_SET_Z, rdi := ucast sid, rsi := ucast z\<rparr>"

definition user_sys_shm_create :: "u64 \<Rightarrow> regs \<Rightarrow> regs" where
  "user_sys_shm_create sz r = r\<lparr>rax := SYS_SHM_CREATE, rdi := sz\<rparr>"

definition user_sys_shm_destroy :: "u32 \<Rightarrow> regs \<Rightarrow> regs" where
  "user_sys_shm_destroy shm_id r = r\<lparr>rax := SYS_SHM_DESTROY, rdi := ucast shm_id\<rparr>"

definition user_sys_map_framebuffer :: "u64 \<Rightarrow> u64 \<Rightarrow> u64 \<Rightarrow> u64 \<Rightarrow> regs \<Rightarrow> regs" where
  "user_sys_map_framebuffer out_ptr out_w out_h out_stride r = r\<lparr>rax := SYS_MAP_FRAMEBUFFER, rdi := out_ptr, rsi := out_w, rdx := out_h, r10 := out_stride\<rparr>"

definition user_sys_get_compositor_pid :: "regs \<Rightarrow> regs" where
  "user_sys_get_compositor_pid r = r\<lparr>rax := SYS_GET_COMPOSITOR_PID\<rparr>"

definition user_sys_reboot :: "u32 \<Rightarrow> regs \<Rightarrow> regs" where
  "user_sys_reboot mode r = r\<lparr>rax := SYS_REBOOT, rdi := ucast mode\<rparr>"

definition getpid_result :: "u64 \<Rightarrow> u32" where
  "getpid_result v = (if sint v < 0 then 0 else ucast v)"

section \<open>Frames\<close>

lemma frame_cells [simp]:
  fixes p :: u64
  shows "p + 8 \<noteq> p" "p + 16 \<noteq> p" "p + 24 \<noteq> p" "p + 32 \<noteq> p" "p + 40 \<noteq> p" "p + 48 \<noteq> p" "p + 56 \<noteq> p" "p + 64 \<noteq> p"
  by simp_all

lemma user_call_eq:
  assumes "syscall_kernel_rsp e \<noteq> 80"
  shows "user_call h r e k = syscall_dispatch (h\<lparr>hw_rip := rip r, hw_rflags := rflags r, hw_rsp := rsp r\<rparr>)
    (rax r) (rdi r) (rsi r) (rdx r) (r10 r) (r8 r) (r9 r) k"
  using assms
  by (simp add: user_call_def save_frame_def syscall_insn_def syscall_entry_rust_def get_user_rip_def get_user_rflags_def get_user_rsp_def Let_def)

lemma restored:
  assumes "syscall_entry h junk r e k = (Some (r', e'), res)" 
  shows "\<exists>v k'. res = Some (Done (Return v, k')) \<and> r' = r\<lparr>rax := result_to_rax v, rcx := rip r, r11 := rflags r\<rparr>"
  using assms
  by (auto simp: syscall_entry_def save_frame_def syscall_insn_def syscall_entry_rust_def restore_frame_def pop_cell_def sysretq_def Let_def
      split: option.splits sum.splits prod.splits outcome.splits)

section \<open>What each wrapper asks for\<close>

text \<open>The checks the dispatcher makes before every call.\<close>

definition entered :: "kernel \<Rightarrow> call_result \<Rightarrow> call_result" where
  "entered k body =
     (if (case current_descriptor (k_pt k) of None \<Rightarrow> False | Some d \<Rightarrow> pcb_canary d \<noteq> PROCESS_CANARY)
      then Some (Halted ''process_descriptor_canary_corrupt'')
      else case check_kernel_stack_canary (k_pt k) of Inl d \<Rightarrow> Some (Halted d) | Inr _ \<Rightarrow> body)"

lemma dispatch_entered: "syscall_dispatch h n a1 a2 a3 a4 a5 a6 k = entered k (dispatch_arm h n a1 a2 a3 a4 a5 a6 k)"
  by (simp add: syscall_dispatch_def entered_def)

lemmas arm_simps = dispatch_arm_def io_call_def process_call_def graphics_call_def machine_call_def security_call_def sys_numbers

text \<open>The arguments of the wrappers arrive unchanged although the registers are wider.\<close>

lemma narrow_args [simp]:
  "ucast (ucast (x :: u32) :: u64) = x" "ucast (ucast (z :: u8) :: u64) = z" "ucast (scast x :: u64) = x"
  by (auto intro!: bit_word_eqI simp: bit_simps)

lemmas wrapper_defs =
  user_sys_read_def user_sys_write_def user_sys_exit_def user_sys_poll_input_def user_sys_poll_mouse_def
  user_sys_gettime_def user_sys_fb_clear_def user_sys_fb_fill_rect_def user_sys_fb_flush_def user_sys_open_def
  user_sys_close_def user_sys_lseek_def user_sys_unlink_def user_sys_fsync_def user_sys_spawn_capped_def
  user_sys_cap_grant_def user_sys_cap_revoke_def user_sys_cap_query_def user_sys_journal_write_def user_sys_journal_read_def
  user_sys_iflow_get_def user_sys_iflow_taint_def user_sys_iflow_declassify_def user_sys_iflow_endorse_def user_sys_get_proc_info_def
  user_sys_list_root_def user_sys_getpid_def user_sys_waitpid_def user_sys_surface_create_def user_sys_surface_destroy_def
  user_sys_surface_attach_def user_sys_surface_commit_def user_sys_screen_size_def user_sys_fb_blit_def user_sys_ipc_send_def
  user_sys_ipc_recv_def user_sys_claim_compositor_def user_sys_composite_all_def user_sys_surface_set_z_def user_sys_shm_create_def
  user_sys_shm_destroy_def user_sys_map_framebuffer_def user_sys_get_compositor_pid_def user_sys_reboot_def

text \<open>C24: Every wrapper of the user library reaches its handler. Whatever the registers held before, executing \<open>SYSCALL\<close> after the
  wrapper has loaded its registers runs, behind the checks made before every call, exactly the handler of that name with the wrapper's
  arguments, behind the capability the call needs. Numbers, order and widths of the arguments agree between the two sides.\<close>

theorem wrappers_reach_handlers:
  assumes "syscall_kernel_rsp e \<noteq> 80"
  shows "user_call h (user_sys_read fd buf len r) e k = entered k (case sys_read (hw_serial h) fd buf (unat len) k of None \<Rightarrow> None | Some rk \<Rightarrow> ret rk) \<and>
   user_call h (user_sys_write fd buf len r) e k = entered k (ret (sys_write fd buf (unat len) k)) \<and>
   user_call h (user_sys_exit status r) e k = entered k (Some (exit_current_and_schedule (Some (sint status)) k)) \<and>
   user_call h (user_sys_poll_input ev r) e k = entered k (guarded cap_INPUT k (ret (sys_poll_input (hw_ps2 h) ev k))) \<and>
   user_call h (user_sys_poll_mouse ev r) e k = entered k (guarded cap_INPUT k (ret (sys_poll_mouse (hw_ps2 h) ev k))) \<and>
   user_call h (user_sys_gettime r) e k = entered k (ret (sys_gettime (hw_rtc h) 0 k)) \<and>
   user_call h (user_sys_fb_clear color r) e k = entered k (guarded cap_DISPLAY k (ret (call_fb_clear color (check_fb_owner k)))) \<and>
   user_call h (user_sys_fb_fill_rect x y w ht color r) e k = entered k (guarded cap_DISPLAY k (ret_halting (call_fb_fill_rect x y w ht color (check_fb_owner k)))) \<and>
   user_call h (user_sys_fb_flush r) e k = entered k (guarded cap_DISPLAY k (ret (call_fb_flush (check_fb_owner k)))) \<and>
   user_call h (user_sys_open pathp path_len flags r) e k = entered k (ret (sys_open pathp (unat path_len) flags k)) \<and>
   user_call h (user_sys_close fd r) e k = entered k (ret (sys_close fd k)) \<and>
   user_call h (user_sys_lseek fd offset whence r) e k = entered k (ret (sys_lseek fd offset whence k)) \<and>
   user_call h (user_sys_unlink pathp path_len r) e k = entered k (ret (sys_unlink pathp (unat path_len) k)) \<and>
   user_call h (user_sys_fsync fd r) e k = entered k (ret (sys_fsync fd k)) \<and>
   user_call h (user_sys_spawn_capped program_id cap_mask r) e k = entered k (ret_option (sys_spawn (ucast program_id) cap_mask k)) \<and>
   user_call h (user_sys_cap_grant target_pid cap_bits r) e k = entered k (ret (sys_cap_grant (ucast target_pid) cap_bits k)) \<and>
   user_call h (user_sys_cap_revoke target_pid cap_bits r) e k = entered k (ret (sys_cap_revoke (ucast target_pid) cap_bits k)) \<and>
   user_call h (user_sys_cap_query r) e k = entered k (ret (sys_cap_query k, k)) \<and>
   user_call h (user_sys_journal_write data_ptr data_len r) e k = entered k (ret (sys_journal_write data_ptr data_len k)) \<and>
   user_call h (user_sys_journal_read buf_ptr buf_len r) e k = entered k (ret (sys_journal_read buf_ptr buf_len k)) \<and>
   user_call h (user_sys_iflow_get pid out_secrecy out_integrity r) e k = entered k (ret (sys_iflow_get pid out_secrecy out_integrity k)) \<and>
   user_call h (user_sys_iflow_taint add_secrecy remove_integrity r) e k = entered k (ret (sys_iflow_taint add_secrecy remove_integrity k)) \<and>
   user_call h (user_sys_iflow_declassify remove_secrecy r) e k = entered k (ret (sys_iflow_declassify remove_secrecy k)) \<and>
   user_call h (user_sys_iflow_endorse target_pid add_integrity r) e k = entered k (ret (sys_iflow_endorse target_pid add_integrity k)) \<and>
   user_call h (user_sys_get_proc_info buf capacity r) e k = entered k (guarded cap_PROC_INFO k (ret (sys_get_proc_info buf capacity k))) \<and>
   user_call h (user_sys_list_root buf room r) e k = entered k (ret (sys_list_root buf (unat room) k)) \<and>
   user_call h (user_sys_getpid r) e k = entered k (ret (sys_getpid k, k)) \<and>
   user_call h (user_sys_waitpid pid status_ptr options r) e k = entered k (Some (sys_waitpid pid status_ptr options (rip r) (rflags r) (rsp r) k)) \<and>
   user_call h (user_sys_surface_create r) e k = entered k (guarded cap_DISPLAY k (ret (sys_surface_create k))) \<and>
   user_call h (user_sys_surface_destroy sid r) e k = entered k (guarded cap_DISPLAY k (ret (sys_surface_destroy sid k))) \<and>
   user_call h (user_sys_surface_attach sid ptr width height stride r) e k = entered k (guarded cap_DISPLAY k (ret (sys_surface_attach sid ptr width height stride k))) \<and>
   user_call h (user_sys_surface_commit sid dst_x dst_y r) e k = entered k (guarded cap_DISPLAY k (ret (sys_surface_commit sid dst_x dst_y k))) \<and>
   user_call h (user_sys_screen_size w_ptr h_ptr r) e k = entered k (ret (sys_screen_size w_ptr h_ptr k)) \<and>
   user_call h (user_sys_fb_blit dst_x dst_y w ht stride ptr r) e k = entered k (guarded cap_DISPLAY k (ret (sys_fb_blit dst_x dst_y w ht stride ptr k))) \<and>
   user_call h (user_sys_ipc_send target_pid msg flags r) e k = entered k (ret (call_ipc_send (ucast target_pid) msg k)) \<and>
   user_call h (user_sys_ipc_recv outp flags r) e k = entered k (ret (call_ipc_recv outp (ucast flags) k)) \<and>
   user_call h (user_sys_claim_compositor r) e k = entered k (guarded cap_COMPOSITOR k (ret (call_claim_compositor k))) \<and>
   user_call h (user_sys_composite_all r) e k = entered k (guarded cap_COMPOSITOR k (ret (call_composite_all k))) \<and>
   user_call h (user_sys_surface_set_z sid z r) e k = entered k (guarded cap_DISPLAY k (ret (sys_surface_set_z sid z k))) \<and>
   user_call h (user_sys_shm_create sz r) e k = entered k (guarded cap_SHM k (ret_halting (sys_shm_create sz k))) \<and>
   user_call h (user_sys_shm_destroy shm_id r) e k = entered k (guarded cap_SHM k (ret_option (sys_shm_destroy shm_id k))) \<and>
   user_call h (user_sys_map_framebuffer out_ptr out_w out_h out_stride r) e k = entered k (ret_halting (sys_map_framebuffer out_ptr out_w out_h out_stride k)) \<and>
   user_call h (user_sys_get_compositor_pid r) e k = entered k (ret (sys_get_compositor_pid k, k)) \<and>
   user_call h (user_sys_reboot mode r) e k = entered k (guarded cap_REBOOT k (Some (Done (sys_reboot mode k))))"
  unfolding user_call_eq [OF assms] dispatch_entered
  by (intro conjI; intro arg_cong [where f = "entered k"]) (simp_all add: wrapper_defs arm_simps)

text \<open>A machine for the witnesses: no process is installed, the kernel stack ends at a fixed address.\<close>

definition sample_entry :: entry where
  "sample_entry = \<lparr>syscall_kernel_rsp = 0x9000, syscall_user_rsp = 0, current_regs_ptr = 0, kstack = (\<lambda>_. 0)\<rparr>"

theorem wrappers_reach_handlers_witness:
  "syscall_kernel_rsp sample_entry \<noteq> 80 \<and>
   (\<forall>h r k. user_call h (user_sys_ipc_send 4 0x5000 0 r) sample_entry k = entered k (ret (call_ipc_send (ucast (4 :: u32)) 0x5000 k)))"
proof (intro conjI allI)
  show e: "syscall_kernel_rsp sample_entry \<noteq> 80" by (simp add: sample_entry_def)
  fix h r k
  note w = wrappers_reach_handlers [OF e, where h = h and r = r and k = k and target_pid = 4 and msg = "0x5000"
    and fd = 0 and buf = 0 and len = 0 and status = 0 and ev = 0 and color = 0 and x = 0 and y = 0 and w = 0 and ht = 0 and pathp = 0
    and path_len = 0 and flags = 0 and offset = 0 and whence = 0 and program_id = 0 and cap_mask = 0 and cap_bits = 0
    and data_ptr = 0 and data_len = 0 and buf_ptr = 0 and buf_len = 0 and pid = 0 and out_secrecy = 0 and out_integrity = 0
    and add_secrecy = 0 and remove_integrity = 0 and remove_secrecy = 0 and add_integrity = 0 and capacity = 0 and room = 0
    and status_ptr = 0 and options = 0 and sid = 0 and ptr = 0 and width = 0 and height = 0 and stride = 0 and dst_x = 0
    and dst_y = 0 and w_ptr = 0 and h_ptr = 0 and outp = 0 and z = 0 and sz = 0 and shm_id = 0 and out_ptr = 0 and out_w = 0
    and out_h = 0 and out_stride = 0 and mode = 0]
  show "user_call h (user_sys_ipc_send 4 0x5000 0 r) sample_entry k = entered k (ret (call_ipc_send (ucast (4 :: u32)) 0x5000 k))"
    using w by (elim conjE) assumption
qed


definition zero_regs :: regs where
  "zero_regs = \<lparr>rax = 0, rdi = 0, rsi = 0, rdx = 0, r10 = 0, r8 = 0, r9 = 0, r11 = 0, rcx = 0, rsp = 0, rip = 0, rflags = 0\<rparr>"


section \<open>The allocator of programs\<close>

text \<open>One attempt of \<open>BumpAllocator::alloc\<close> from the loaded position: the block and the next position, or null. \<open>base\<close> is where the
  linker put the heap; addresses stay far below \<open>2 ^ 64\<close>.\<close>

definition USER_HEAP_SIZE :: nat where "USER_HEAP_SIZE = 1024 * 1024"

definition bump_alloc :: "nat \<Rightarrow> nat \<Rightarrow> nat \<Rightarrow> nat \<Rightarrow> (nat \<times> nat) option" where
  "bump_alloc base align sz cur =
     (let aligned = align_up (base + cur) align; offset = aligned - base; next = offset + sz
      in if next > USER_HEAP_SIZE then None else Some (aligned, next))"

text \<open>The loop as steps of several threads on the shared position: a thread loads the position, computes, and exchanges it if it has
  not changed, or loads it again. \<open>taken\<close> records the blocks handed out, newest first, with their alignment.\<close>

datatype bump_pc = Outside | Loaded (bp_align: nat) (bp_size: nat) (bp_cur: nat)

record bump =
  HEAP_NEXT :: nat
  bump_pcs :: "nat \<Rightarrow> bump_pc"
  taken :: "(nat \<times> nat \<times> nat) list"

definition bump_start :: bump where
  "bump_start = \<lparr>HEAP_NEXT = 0, bump_pcs = (\<lambda>_. Outside), taken = []\<rparr>"

inductive bump_step :: "nat \<Rightarrow> bump \<Rightarrow> bump \<Rightarrow> bool" for base where
  b_load: "bump_pcs s t = Outside \<Longrightarrow> align = 2 ^ j \<Longrightarrow>
    bump_step base s (s\<lparr>bump_pcs := (bump_pcs s)(t := Loaded align sz (HEAP_NEXT s))\<rparr>)"
| b_null: "bump_pcs s t = Loaded align sz cur \<Longrightarrow> bump_alloc base align sz cur = None \<Longrightarrow>
    bump_step base s (s\<lparr>bump_pcs := (bump_pcs s)(t := Outside)\<rparr>)"
| b_win: "bump_pcs s t = Loaded align sz cur \<Longrightarrow> bump_alloc base align sz cur = Some (a, next) \<Longrightarrow> HEAP_NEXT s = cur \<Longrightarrow>
    bump_step base s (s\<lparr>HEAP_NEXT := next, bump_pcs := (bump_pcs s)(t := Outside), taken := (a, sz, align) # taken s\<rparr>)"
| b_retry: "bump_pcs s t = Loaded align sz cur \<Longrightarrow> bump_alloc base align sz cur = Some (a, next) \<Longrightarrow> HEAP_NEXT s \<noteq> cur \<Longrightarrow>
    bump_step base s (s\<lparr>bump_pcs := (bump_pcs s)(t := Loaded align sz (HEAP_NEXT s))\<rparr>)"

definition bump_inv :: "nat \<Rightarrow> bump \<Rightarrow> bool" where
  "bump_inv base s \<longleftrightarrow> HEAP_NEXT s \<le> USER_HEAP_SIZE \<and> (\<forall>t align sz cur. bump_pcs s t = Loaded align sz cur \<longrightarrow> (\<exists>j. align = 2 ^ j)) \<and>
     (\<forall>(a, n, align)\<in>set (taken s). base \<le> a \<and> a + n \<le> base + HEAP_NEXT s \<and> align dvd a) \<and>
     sorted_wrt (\<lambda>(a, _, _) (b, m, _). b + m \<le> a) (taken s)"

lemma bump_alloc_bounds:
  assumes "bump_alloc base (2 ^ j) sz cur = Some (a, next)"
  shows "base + cur \<le> a" "a + sz = base + next" "next \<le> USER_HEAP_SIZE" "2 ^ j dvd a"
proof -
  have a: "a = align_up (base + cur) (2 ^ j)" "next = a - base + sz" "next \<le> USER_HEAP_SIZE"
    using assms by (auto simp: bump_alloc_def Let_def split: if_splits)
  note p = align_up_pow2 [of "2 ^ j" j "base + cur", OF refl]
  show "base + cur \<le> a" "2 ^ j dvd a" "next \<le> USER_HEAP_SIZE" using a p by auto
  then show "a + sz = base + next" using a(2) by simp
qed

lemma bump_step_inv: "bump_step base s s' \<Longrightarrow> bump_inv base s \<Longrightarrow> bump_inv base s'"
proof (induction rule: bump_step.induct)
  case (b_win s t align sz cur a "next")
  then obtain j where j: "align = 2 ^ j" unfolding bump_inv_def by blast
  note b = bump_alloc_bounds [OF b_win(2) [unfolded j]]
  have old: "base \<le> c \<and> c + n \<le> base + HEAP_NEXT s \<and> al dvd c" if "(c, n, al) \<in> set (taken s)" for c n al
    using b_win.prems that by (auto simp: bump_inv_def)
  have "c + n \<le> a" "c + n \<le> base + next" if "(c, n, al) \<in> set (taken s)" for c n al
    using old [OF that] b(1,2) b_win(3) by auto
  then show ?case using b_win.prems b old j by (fastforce simp: bump_inv_def)
next
  case (b_retry s t align sz cur a "next")
  then have "\<exists>j. align = 2 ^ j" unfolding bump_inv_def by blast
  with b_retry.prems show ?case by (auto simp: bump_inv_def)
qed (auto simp: bump_inv_def)

inductive bump_reachable :: "nat \<Rightarrow> bump \<Rightarrow> bool" for base where
  bump_first: "bump_reachable base bump_start"
| bump_more: "bump_reachable base s \<Longrightarrow> bump_step base s s' \<Longrightarrow> bump_reachable base s'"

lemma bump_reachable_inv: "bump_reachable base s \<Longrightarrow> bump_inv base s"
proof (induction rule: bump_reachable.induct)
  case bump_first
  then show ?case by (simp add: bump_inv_def bump_start_def)
qed (rule bump_step_inv)

text \<open>C26: The allocator of programs hands out disjoint blocks. However the steps of its threads interleave, the blocks returned lie inside
  the heap, are aligned as asked and no two of them overlap; a request is refused only if it does not fit behind the position it was
  computed from.\<close>

theorem bump_blocks_disjoint:
  assumes "bump_reachable base s" "i < j" "j < length (taken s)" "taken s ! i = (a, n, al)" "taken s ! j = (b, m, bl)"
  shows "{a..<a + n} \<inter> {b..<b + m} = {} \<and> {a..<a + n} \<union> {b..<b + m} \<subseteq> {base..<base + USER_HEAP_SIZE} \<and> al dvd a \<and> bl dvd b"
proof -
  note inv = bump_reachable_inv [OF assms(1), unfolded bump_inv_def]
  have "(a, n, al) \<in> set (taken s)" "(b, m, bl) \<in> set (taken s)" using assms(2-5) by (metis nth_mem order.strict_trans)+
  with inv have "base \<le> a \<and> a + n \<le> base + HEAP_NEXT s \<and> al dvd a" "base \<le> b \<and> b + m \<le> base + HEAP_NEXT s \<and> bl dvd b" by auto
  moreover have "b + m \<le> a" using sorted_wrt_nth_less [of _ "taken s" i j] inv assms(2-5) by fastforce
  ultimately show ?thesis using inv by auto
qed

theorem bump_blocks_disjoint_witness:
  "\<exists>s. bump_reachable 4096 s \<and> taken s = [(4112, 32, 16), (4096, 10, 8)] \<and> {4112..<4112 + 32} \<inter> {4096..<4096 + 10 :: nat} = {}"
proof -
  let ?pc = "\<lambda>t c. ((\<lambda>_. Outside) :: nat \<Rightarrow> bump_pc)(t := c)"
  let ?s1 = "bump_start\<lparr>bump_pcs := ?pc 0 (Loaded 8 10 0)\<rparr>"
  let ?s2 = "bump_start\<lparr>HEAP_NEXT := 10, bump_pcs := ?pc 0 Outside, taken := [(4096, 10, 8)]\<rparr>"
  let ?s3 = "?s2\<lparr>bump_pcs := (?pc 0 Outside)(1 := Loaded 16 32 10)\<rparr>"
  let ?s4 = "?s2\<lparr>HEAP_NEXT := 48, bump_pcs := (?pc 0 Outside)(1 := Outside), taken := [(4112, 32, 16), (4096, 10, 8)]\<rparr>"
  have al: "align_up 4096 8 = 4096" "align_up 4106 16 = 4112" by (code_simp, code_simp)
  have r1: "bump_reachable 4096 ?s1"
    using bump_more [OF bump_first b_load [of bump_start 0 8 3 4096 10]] by (simp add: bump_start_def)
  have r2: "bump_reachable 4096 ?s2"
    using bump_more [OF r1 b_win [of ?s1 0 8 10 0 4096 4096 10]] by (simp add: bump_start_def bump_alloc_def al USER_HEAP_SIZE_def)
  have r3: "bump_reachable 4096 ?s3"
    using bump_more [OF r2 b_load [of ?s2 1 16 4 4096 32]] by (simp add: bump_start_def)
  have r4: "bump_reachable 4096 ?s4"
    using bump_more [OF r3 b_win [of ?s3 1 16 32 10 4096 4112 48]] by (simp add: bump_start_def bump_alloc_def al USER_HEAP_SIZE_def)
  from bump_blocks_disjoint [OF r4, of 0 1 4112 32 16 4096 10 8] r4 show ?thesis by (intro exI [of _ ?s4]) simp
qed

end
