(* ===== verification/Cogman.thy ===== *)
theory Cogman
  imports Display_Protocol
begin

text \<open>
  Cogman, the first process (\<open>userland/src/bin/cogman\<close>): the supervisor with its service table, restart policies and journal, what it
  says on the console, the adviser with its privacy policy, control messages and the main loop. What the kernel answers to
  \<open>sys_spawn_capped\<close> during a pass is a function of the slot being started, since a pass starts each slot at most once.
\<close>

section \<open>Speech\<close>

datatype cog_call = Say (said: "u8 list") | SpawnCapped u32 u64 | JournalWrite "u8 list" | RebootCall u32

definition crlf :: "u8 list" where "crlf = [0x0D, 0x0A]"

definition speak :: "u8 list \<Rightarrow> cog_call list" where
  "speak m = [Say m]"

text \<open>The loop that fills \<open>SPEAK_BUF\<close> from its end; the list is the part of the buffer from index \<open>i\<close> on.\<close>

fun u32_digits :: "nat \<Rightarrow> nat \<Rightarrow> u8 list \<Rightarrow> u8 list" where
  "u32_digits i v buf =
     (if v > 0 \<and> i > 0 then u32_digits (i - 1) (v div 10) ((0x30 + of_nat (v mod 10)) # buf) else buf)"

declare u32_digits.simps [simp del]

definition speak_u32 :: "u32 \<Rightarrow> cog_call list" where
  "speak_u32 n = (if n = 0 then [Say (bytes ''0'')] else [Say (u32_digits 10 (unat n) [])])"

definition greet :: "cog_call list" where
  "greet = map Say
     [crlf,
      bytes ''  ____                  ___  ____'' @ crlf,
      bytes '' |  _ '' @ [0x5C] @ bytes '' ___   __ _ _  _|__ '' @ [0x5C] @ bytes ''/ ___|'' @ crlf,
      bytes '' | |_) / _ '' @ [0x5C] @ bytes '' / _'' @ [0x60] @ bytes '' | | | |/ /'' @ [0x5C] @ bytes ''___ '' @ [0x5C] @ crlf,
      bytes '' |  _ < (_) | (_| | |_| / /_ ___) |'' @ crlf,
      bytes '' |_| '' @ [0x5C] @ bytes ''_'' @ [0x5C] @ bytes ''___/ '' @ [0x5C] @ bytes ''__, |'' @ [0x5C] @ bytes ''__,_/____|____/'' @ crlf,
      bytes ''              |___/'' @ crlf,
      crlf,
      bytes ''  Cogman  -  Personal AI Assistant & System Butler'' @ crlf,
      bytes ''  RogueOS  -  Built for developers, pentesters, and power users'' @ crlf,
      crlf,
      bytes ''[Cogman] Good day. I'' @ [0x27] @ bytes ''m Cogman, your system butler and personal adviser.'' @ crlf,
      bytes ''[Cogman] I shall manage your processes and remain at your disposal.'' @ crlf,
      bytes ''[Cogman] Privacy-first: your data stays local unless you decide otherwise.'' @ crlf,
      crlf]"

definition say_spawning :: "u8 list \<Rightarrow> u32 \<Rightarrow> cog_call list" where
  "say_spawning name pid = speak (bytes ''[Cogman] Bringing up '') @ speak name @ speak (bytes ''  (pid='') @ speak_u32 pid @ speak (bytes '')'' @ crlf)"

definition say_spawn_failed :: "u8 list \<Rightarrow> cog_call list" where
  "say_spawn_failed name = speak (bytes ''[Cogman] I'' @ [0x27] @ bytes ''m afraid I couldn'' @ [0x27] @ bytes ''t start '') @ speak name @
     speak (bytes ''. I shall try again presently.'' @ crlf)"

definition say_exited :: "u8 list \<Rightarrow> u32 \<Rightarrow> cog_call list" where
  "say_exited name status = speak (bytes ''[Cogman] '') @ speak name @ speak (bytes '' has stepped out (exit='') @ speak_u32 status @ speak (bytes '')'' @ crlf)"

definition say_restarting :: "u8 list \<Rightarrow> u16 \<Rightarrow> cog_call list" where
  "say_restarting name n = speak (bytes ''[Cogman] Restarting '') @ speak name @ speak (bytes ''. This is restart number '') @
     speak_u32 (ucast n) @ speak (bytes ''.'' @ crlf)"

definition say_stopped_policy :: "u8 list \<Rightarrow> cog_call list" where
  "say_stopped_policy name = speak (bytes ''[Cogman] '') @ speak name @
     speak (bytes '' has exited cleanly and I shan'' @ [0x27] @ bytes ''t restart it per policy.'' @ crlf)"

definition say_halt :: "cog_call list" where
  "say_halt = speak (crlf @ bytes ''[Cogman] Halt requested. Powering down now. Goodbye.'' @ crlf @ crlf)"

definition say_reboot :: "cog_call list" where
  "say_reboot = speak (crlf @ bytes ''[Cogman] Reboot requested. Back in a moment.'' @ crlf @ crlf)"

definition say_advisor_ready :: "u8 list \<Rightarrow> cog_call list" where
  "say_advisor_ready mode = speak (bytes ''[Cogman] Adviser online ('') @ speak mode @
     speak (bytes ''). Ask away whenever you'' @ [0x27] @ bytes ''re ready.'' @ crlf)"

definition say_advisor_local_only :: "cog_call list" where
  "say_advisor_local_only = speak (bytes ''[Cogman] Running in local-only mode. Your queries never leave this machine.'' @ crlf)"

definition say_advisor_cloud_available :: "cog_call list" where
  "say_advisor_cloud_available = speak (bytes ''[Cogman] Cloud inference is available. I'' @ [0x27] @
     bytes ''ll ask locally first, cloud as a fallback - with your permission.'' @ crlf)"

definition say_advisor_privacy_strip :: "cog_call list" where
  "say_advisor_privacy_strip = speak (bytes ''[Cogman] I'' @ [0x27] @ bytes ''ve scrubbed any sensitive tokens before that query left the box.'' @ crlf)"

definition say_no_network :: "cog_call list" where
  "say_no_network = speak (bytes ''[Cogman] No network stack yet, I'' @ [0x27] @ bytes ''m afraid. Adviser running in local-model mode only.'' @ crlf)"

definition hex_nibble :: "u8 \<Rightarrow> u8" where
  "hex_nibble n = (if n < 10 then 0x30 + n else 0x61 + n - 10)"

definition say_ipc_unknown :: "u8 \<Rightarrow> cog_call list" where
  "say_ipc_unknown ty = speak (bytes ''[Cogman] Received an unfamiliar IPC message (type=0x'') @
     [Say [hex_nibble (drop_bit 4 ty), hex_nibble (ty AND 0x0F)]] @ speak (bytes ''). Ignoring it.'' @ crlf)"

section \<open>Services\<close>

datatype restart_policy = Never | OnFailure | Always
datatype svc_state = SvcStopped | SvcRunning | SvcRestarting | SvcFailed

definition prog_name :: "u32 \<Rightarrow> u8 list" where
  "prog_name n =
     (case map_of (zip [0, 1, 2, 3, 4, 5, 6, 7, 8, 9, 10, 11, 12]
        [bytes ''shell'', bytes ''rwm'', bytes ''editor'', bytes ''viewer'', bytes ''copy'', bytes ''monitor'', bytes ''shutdown'',
         bytes ''exit'', bytes ''session'', bytes ''wm'', bytes ''cogman'', bytes ''fbtest'', bytes ''terminal'']) n of
        None \<Rightarrow> bytes ''unknown'' | Some s \<Rightarrow> s)"

record service =
  sv_program_id :: u32
  sv_pid :: u32
  sv_state :: svc_state
  sv_policy :: restart_policy
  sv_auto_start :: bool
  sv_restart_count :: u16
  sv_restart_delay :: u32
  sv_last_exit :: u32
  sv_cap_mask :: u64

definition service_new :: "u32 \<Rightarrow> restart_policy \<Rightarrow> bool \<Rightarrow> u64 \<Rightarrow> service" where
  "service_new n policy auto msk = \<lparr>sv_program_id = n, sv_pid = 0, sv_state = SvcStopped, sv_policy = policy, sv_auto_start = auto,
     sv_restart_count = 0, sv_restart_delay = 0, sv_last_exit = 0, sv_cap_mask = msk\<rparr>"

definition name_bytes :: "service \<Rightarrow> u8 list" where
  "name_bytes s = prog_name (sv_program_id s)"

definition PROG_FBTEST :: u32 where "PROG_FBTEST = 11"
definition PROG_WM :: u32 where "PROG_WM = 9"
definition MAX_SERVICES :: nat where "MAX_SERVICES = 16"

record supervisor =
  sv_table :: "service option list"
  sv_count :: nat

definition supervisor_new :: supervisor where
  "supervisor_new = \<lparr>sv_table = replicate MAX_SERVICES None, sv_count = 0\<rparr>"

definition register :: "service \<Rightarrow> supervisor \<Rightarrow> supervisor" where
  "register s sv = (if sv_count sv < MAX_SERVICES then sv\<lparr>sv_table := (sv_table sv)[sv_count sv := Some s], sv_count := sv_count sv + 1\<rparr> else sv)"

definition cap_DESKTOP_APP :: u64 where
  "cap_DESKTOP_APP = cap_DISPLAY OR cap_INPUT OR cap_IPC_SEND OR cap_IPC_RECV OR cap_SHM"

definition cap_COMPOSITOR_WM :: u64 where
  "cap_COMPOSITOR_WM = cap_DISPLAY OR cap_INPUT OR cap_COMPOSITOR OR cap_SPAWN OR cap_IPC_SEND OR cap_IPC_RECV OR cap_SHM"

definition default_supervisor :: supervisor where
  "default_supervisor =
     register (service_new 5 Never False (cap_PROC_INFO OR cap_DISPLAY OR cap_IPC_SEND OR cap_IPC_RECV))
       (register (service_new 12 Never False cap_DESKTOP_APP)
         (register (service_new PROG_WM OnFailure True cap_COMPOSITOR_WM) supervisor_new))"

section \<open>The journal\<close>

definition to_le_bytes :: "nat \<Rightarrow> 'a::len word \<Rightarrow> u8 list" where
  "to_le_bytes n v = map (\<lambda>i. ucast (drop_bit (8 * i) v)) [0..<n]"

definition state_code :: "svc_state \<Rightarrow> u8" where
  "state_code st = (case st of SvcStopped \<Rightarrow> 0 | SvcRunning \<Rightarrow> 1 | SvcRestarting \<Rightarrow> 2 | SvcFailed \<Rightarrow> 3)"

definition policy_code :: "restart_policy \<Rightarrow> u8" where
  "policy_code p = (case p of Never \<Rightarrow> 0 | OnFailure \<Rightarrow> 1 | Always \<Rightarrow> 2)"

definition journal_entry :: "service \<Rightarrow> u8 list" where
  "journal_entry s = to_le_bytes 4 (sv_program_id s) @ to_le_bytes 4 (sv_pid s) @ [state_code (sv_state s), policy_code (sv_policy s)] @
     to_le_bytes 2 (sv_restart_count s) @ to_le_bytes 4 (sv_last_exit s) @ to_le_bytes 8 (sv_cap_mask s)"

definition slots :: "supervisor \<Rightarrow> service list" where
  "slots sv = List.map_filter id (sv_table sv)"

definition journal_bytes :: "supervisor \<Rightarrow> u8 list" where
  "journal_bytes sv = of_nat (length (slots sv)) # concat (map journal_entry (slots sv))"

definition journal_state :: "supervisor \<Rightarrow> cog_call list" where
  "journal_state sv = [JournalWrite (journal_bytes sv)]"

section \<open>Passes\<close>

definition spawn_service :: "u64 \<Rightarrow> service \<Rightarrow> service \<times> cog_call list" where
  "spawn_service pid_raw s =
     (let call = SpawnCapped (sv_program_id s) (sv_cap_mask s)
      in if sint pid_raw < 0 then (s\<lparr>sv_state := SvcFailed\<rparr>, call # say_spawn_failed (name_bytes s))
         else (s\<lparr>sv_pid := ucast pid_raw, sv_state := SvcRunning\<rparr>, call # say_spawning (name_bytes s) (ucast pid_raw)))"

text \<open>A loop over the registered services in slot order.\<close>

fun each_slot :: "(nat \<Rightarrow> service \<Rightarrow> service \<times> cog_call list) \<Rightarrow> nat \<Rightarrow> service option list \<Rightarrow> service option list \<times> cog_call list" where
  "each_slot f i [] = ([], [])"
| "each_slot f i (None # t) = (case each_slot f (i + 1) t of (t', out) \<Rightarrow> (None # t', out))"
| "each_slot f i (Some s # t) = (case f i s of (s', o1) \<Rightarrow> case each_slot f (i + 1) t of (t', o2) \<Rightarrow> (Some s' # t', o1 @ o2))"

definition start_slot :: "(nat \<Rightarrow> u64) \<Rightarrow> nat \<Rightarrow> service \<Rightarrow> service \<times> cog_call list" where
  "start_slot ans i s = (if sv_auto_start s \<and> sv_state s = SvcStopped then spawn_service (ans i) s else (s, []))"

definition start_all :: "(nat \<Rightarrow> u64) \<Rightarrow> supervisor \<Rightarrow> supervisor \<times> cog_call list" where
  "start_all ans sv =
     (case each_slot (start_slot ans) 0 (sv_table sv) of (t, out) \<Rightarrow> let sv1 = sv\<lparr>sv_table := t\<rparr> in (sv1, out @ journal_state sv1))"

definition backoff_ticks :: "u16 \<Rightarrow> u32" where
  "backoff_ticks n = (let shift = (if n < 6 then unat n else 6) in min (push_bit shift 200) 8000)"

definition should_restart :: "restart_policy \<Rightarrow> u32 \<Rightarrow> bool" where
  "should_restart p status = (case p of Never \<Rightarrow> False | OnFailure \<Rightarrow> status \<noteq> 0 | Always \<Rightarrow> True)"

definition sat_inc :: "u16 \<Rightarrow> u16" where
  "sat_inc n = (if n = - 1 then n else n + 1)"

definition exited :: "u32 \<Rightarrow> service \<Rightarrow> service \<times> cog_call list" where
  "exited status s =
     (let s1 = s\<lparr>sv_pid := 0, sv_last_exit := status\<rparr>; o1 = say_exited (name_bytes s) status
      in if should_restart (sv_policy s) status
         then (s1\<lparr>sv_state := SvcRestarting, sv_restart_delay := backoff_ticks (sv_restart_count s), sv_restart_count := sat_inc (sv_restart_count s)\<rparr>,
               o1 @ say_restarting (name_bytes s) (sat_inc (sv_restart_count s)))
         else (s1\<lparr>sv_state := SvcStopped\<rparr>, o1 @ say_stopped_policy (name_bytes s)))"

definition first_slot :: "(service \<Rightarrow> bool) \<Rightarrow> service option list \<Rightarrow> nat option" where
  "first_slot P t = find (\<lambda>i. case t ! i of None \<Rightarrow> False | Some s \<Rightarrow> P s) [0..<length t]"

definition chain_wm :: "(nat \<Rightarrow> u64) \<Rightarrow> service option list \<Rightarrow> service option list \<times> cog_call list" where
  "chain_wm ans t =
     (case first_slot (\<lambda>s. sv_program_id s = PROG_WM \<and> sv_state s = SvcStopped) t of
        None \<Rightarrow> (t, [])
      | Some i \<Rightarrow> case spawn_service (ans i) (the (t ! i)) of (s', out) \<Rightarrow> (t[i := Some s'], out))"

datatype flow = Continue | NeverReturns

text \<open>After the exit codes 42 and 43 the process asks for a halt or a reboot and then loops for ever.\<close>

definition reap_pass :: "(nat \<Rightarrow> u64) \<Rightarrow> u64 \<Rightarrow> u32 \<Rightarrow> supervisor \<Rightarrow> flow \<times> supervisor \<times> cog_call list" where
  "reap_pass ans reaped status sv =
     (if sint reaped \<le> 0 then (Continue, sv, [])
      else if status = 42 then (NeverReturns, sv, say_halt @ [RebootCall 0])
      else if status = 43 then (NeverReturns, sv, say_reboot @ [RebootCall 1])
      else
        (let (t1, o1) =
           (case first_slot (\<lambda>s. sv_pid s = ucast reaped) (sv_table sv) of
              None \<Rightarrow> (sv_table sv, [])
            | Some i \<Rightarrow>
                let s = the (sv_table sv ! i); (s', o1) = exited status s; t = (sv_table sv)[i := Some s']
                in if \<not> should_restart (sv_policy s) status \<and> sv_program_id s = PROG_FBTEST
                   then (case chain_wm ans t of (t', o2) \<Rightarrow> (t', o1 @ o2)) else (t, o1));
             sv1 = sv\<lparr>sv_table := t1\<rparr>
         in (Continue, sv1, o1 @ journal_state sv1)))"

definition restart_slot :: "(nat \<Rightarrow> u64) \<Rightarrow> nat \<Rightarrow> service \<Rightarrow> service \<times> cog_call list" where
  "restart_slot ans i s =
     (if sv_state s \<noteq> SvcRestarting then (s, [])
      else if sv_restart_delay s > 0 then (s\<lparr>sv_restart_delay := sv_restart_delay s - 1\<rparr>, [])
      else spawn_service (ans i) s)"

definition restart_pass :: "(nat \<Rightarrow> u64) \<Rightarrow> supervisor \<Rightarrow> supervisor \<times> cog_call list" where
  "restart_pass ans sv =
     (case each_slot (restart_slot ans) 0 (sv_table sv) of (t, out) \<Rightarrow>
        let sv1 = sv\<lparr>sv_table := t\<rparr>
        in (sv1, if list_ex (\<lambda>s. sv_state s = SvcRestarting \<and> sv_restart_delay s = 0) (slots sv) then out @ journal_state sv1 else out))"

section \<open>The adviser\<close>

definition MAX_QUERY :: nat where "MAX_QUERY = 1024"
definition MAX_RESPONSE :: nat where "MAX_RESPONSE = 4096"

datatype advisor_backend = LocalModel | CloudModel | Offline
datatype privacy_class = Public | Redacted | Sensitive

definition contains_subsequence :: "u8 list \<Rightarrow> u8 list \<Rightarrow> bool" where
  "contains_subsequence haystack needle =
     (if needle = [] then True else if length needle > length haystack then False
      else list_ex (\<lambda>i. take (length needle) (drop i haystack) = needle) [0..<length haystack - length needle + 1])"

definition sensitive_markers :: "u8 list list" where
  "sensitive_markers = map bytes [''BEGIN RSA'', ''BEGIN EC'', ''BEGIN PRIVATE'', ''sk-ant-'', ''ghp_'', ''password='', ''passwd='',
     ''secret='', ''token='', ''/etc/shadow'', ''/etc/passwd'', ''.ssh/id_'']"

definition pii_markers :: "u8 list list" where
  "pii_markers = map bytes [''@'', ''192.168.'', ''10.0.'', ''172.16.'']"

definition classify :: "u8 list \<Rightarrow> privacy_class" where
  "classify query =
     (if list_ex (contains_subsequence query) sensitive_markers then Sensitive
      else if list_ex (contains_subsequence query) pii_markers then Redacted else Public)"

definition redact :: "u8 list \<Rightarrow> u8 list" where
  "redact query = take MAX_QUERY query"

text \<open>\<open>MODEL_HANDLE\<close> and whether there is a network. The network probe of the source is a stub that says no.\<close>

record advisor_env =
  model_handle :: u64
  network :: bool

definition is_model_loaded :: "advisor_env \<Rightarrow> bool" where
  "is_model_loaded e \<longleftrightarrow> model_handle e \<noteq> 0"

definition unload :: "advisor_env \<Rightarrow> advisor_env" where
  "unload e = e\<lparr>model_handle := 0\<rparr>"

definition is_network_available :: bool where "is_network_available = False"

definition detect_backend :: "advisor_env \<Rightarrow> advisor_backend" where
  "detect_backend e = (if is_model_loaded e then LocalModel else if network e then CloudModel else Offline)"

definition announce_ready :: "advisor_env \<Rightarrow> cog_call list" where
  "announce_ready e =
     (case detect_backend e of
        LocalModel \<Rightarrow> say_advisor_ready (bytes ''local model'') @ say_advisor_local_only
      | CloudModel \<Rightarrow> say_advisor_ready (bytes ''cloud available'') @ say_advisor_cloud_available
      | Offline \<Rightarrow> say_no_network)"

definition local_query :: "advisor_env \<Rightarrow> u8 list \<Rightarrow> u8 list" where
  "local_query e text =
     (if \<not> is_model_loaded e
      then take MAX_RESPONSE (bytes ''[Cogman] No local model is loaded. Use '' @ [0x60] @ bytes ''cogman load-model <path>'' @ [0x60] @ bytes '' to load a GGUF model.'')
      else take MAX_RESPONSE (bytes ''[Cogman] Inference engine not yet initialised. The local model interface is reserved for when the engine ships.''))"

definition cloud_query :: "u8 list \<Rightarrow> u8 list" where
  "cloud_query text = take MAX_RESPONSE (bytes ''[Cogman] Network stack not yet available. Cannot reach Claude API.'')"

text \<open>The answer, what was handed to the cloud client, and what was said.\<close>

definition ask :: "advisor_env \<Rightarrow> bool \<Rightarrow> u8 list \<Rightarrow> u8 list \<times> u8 list option \<times> cog_call list" where
  "ask e cloud_opt_in text =
     (let privacy = classify text
      in if privacy = Sensitive \<and> \<not> is_model_loaded e
         then (take MAX_RESPONSE (bytes ''I'' @ [0x27] @ bytes ''m afraid that query contains sensitive material. I can only handle it with a local model loaded. Ask '' @
                 [0x60] @ bytes ''cogman load-model <path>'' @ [0x60] @ bytes '' to load one.''), None, [])
         else case detect_backend e of
                LocalModel \<Rightarrow> (local_query e text, None, [])
              | CloudModel \<Rightarrow>
                  if cloud_opt_in then
                    (if privacy = Sensitive then ([], None, [])
                     else if privacy = Redacted
                     then (cloud_query (redact text), Some (redact text), say_advisor_privacy_strip)
                     else (cloud_query (take MAX_QUERY text), Some (take MAX_QUERY text), []))
                  else (take MAX_RESPONSE (bytes ''Cloud inference is available but you haven'' @ [0x27] @ bytes ''t opted in. Run '' @
                          [0x60] @ bytes ''cogman set cloud-opt-in true'' @ [0x60] @ bytes '' if you'' @ [0x27] @ bytes ''d like to enable it.''), None, [])
              | Offline \<Rightarrow> (take MAX_RESPONSE (bytes ''I'' @ [0x27] @ bytes ''m offline at the moment and have no local model loaded. Load a model with '' @
                          [0x60] @ bytes ''cogman load-model <path>'' @ [0x60] @ bytes '' to use the adviser.''), None, []))"

section \<open>Control messages and the main loop\<close>

definition COG_CTRL_STOP :: u8 where "COG_CTRL_STOP = 0x41"
definition COG_CTRL_STATUS :: u8 where "COG_CTRL_STATUS = 0x42"
definition COG_CTRL_LIST :: u8 where "COG_CTRL_LIST = 0x43"
definition COG_CTRL_ASK :: u8 where "COG_CTRL_ASK = 0x45"

definition state_name :: "svc_state \<Rightarrow> u8 list" where
  "state_name st = (case st of SvcRunning \<Rightarrow> bytes ''running   '' | SvcStopped \<Rightarrow> bytes ''stopped   ''
     | SvcRestarting \<Rightarrow> bytes ''restarting'' | SvcFailed \<Rightarrow> bytes ''failed    '')"

definition list_line :: "service \<Rightarrow> cog_call list" where
  "list_line s = speak (bytes ''  ['') @ speak (state_name (sv_state s)) @ speak (bytes ''] '') @ speak (name_bytes s) @
     (if sv_pid s > 0 then speak (bytes '' pid='') @ speak_u32 (sv_pid s) else []) @ speak crlf"

definition query_text :: "u8 list \<Rightarrow> u8 list" where
  "query_text p = (if 0 \<in> set p then takeWhile (\<lambda>b. b \<noteq> 0) p else take 55 p)"

definition handle_ipc :: "advisor_env \<Rightarrow> supervisor \<Rightarrow> rwm_msg \<Rightarrow> cog_call list" where
  "handle_ipc e sv m =
     (if msg_type m = COG_CTRL_LIST then speak (bytes ''[Cogman] Service table:'' @ crlf) @ concat (map list_line (slots sv))
      else if msg_type m = COG_CTRL_STATUS then speak (bytes ''[Cogman] Running. All services nominal.'' @ crlf)
      else if msg_type m = COG_CTRL_ASK then
        (case ask e False (query_text (payload m)) of (resp, _, out) \<Rightarrow>
           out @ speak (bytes ''[Cogman] '') @ (if resp = [] then [] else [Say resp]) @ speak crlf)
      else if msg_type m = COG_CTRL_STOP then
        speak (bytes ''[Cogman] Stopping service with program_id='') @ speak_u32 (load32 0 (\<lambda>i. payload m ! i)) @
        speak (bytes '' (not yet implemented - coming presently).'' @ crlf)
      else say_ipc_unknown (msg_type m))"

definition boot_env :: advisor_env where
  "boot_env = \<lparr>model_handle = 0, network = is_network_available\<rparr>"

definition cog_start :: "(nat \<Rightarrow> u64) \<Rightarrow> supervisor \<times> cog_call list" where
  "cog_start ans =
     (case start_all ans default_supervisor of (sv, out) \<Rightarrow>
        (sv, greet @ announce_ready boot_env @ out @
             speak (bytes ''[Cogman] All systems go. I'' @ [0x27] @ bytes ''m here if you need me.'' @ crlf @ crlf)))"

text \<open>What the kernel delivers during one turn of the main loop.\<close>

record cog_input =
  ci_reaped :: u64
  ci_status :: u32
  ci_chain :: "nat \<Rightarrow> u64"
  ci_restart :: "nat \<Rightarrow> u64"
  ci_msgs :: "rwm_msg list"

definition cog_turn :: "cog_input \<Rightarrow> supervisor \<Rightarrow> flow \<times> supervisor \<times> cog_call list" where
  "cog_turn inp sv =
     (case reap_pass (ci_chain inp) (ci_reaped inp) (ci_status inp) sv of
        (NeverReturns, sv1, out) \<Rightarrow> (NeverReturns, sv1, out)
      | (Continue, sv1, o1) \<Rightarrow>
          (case restart_pass (ci_restart inp) sv1 of (sv2, o2) \<Rightarrow>
             (Continue, sv2, o1 @ o2 @ concat (map (handle_ipc boot_env sv2) (ci_msgs inp)))))"

section \<open>Numbers and journal entries\<close>

text \<open>The number a string of decimal digits denotes.\<close>

definition decimal :: "nat \<Rightarrow> u8 list \<Rightarrow> nat" where
  "decimal a ds = foldl (\<lambda>a d. 10 * a + unat (d - 0x30)) a ds"

definition is_digit :: "u8 \<Rightarrow> bool" where
  "is_digit d \<longleftrightarrow> 0x30 \<le> d \<and> d \<le> 0x39"

lemma digit_facts: "unat ((0x30 + of_nat (v mod 10) :: u8) - 0x30) = v mod 10" "is_digit (0x30 + of_nat (v mod 10))"
  "0x30 + of_nat (v mod 10) = (0x30 :: u8) \<longleftrightarrow> v mod 10 = 0"
proof -
  have v: "v mod 10 < 10" by simp
  then have "v mod 10 = 0 \<or> v mod 10 = 1 \<or> v mod 10 = 2 \<or> v mod 10 = 3 \<or> v mod 10 = 4 \<or> v mod 10 = 5 \<or> v mod 10 = 6 \<or>
    v mod 10 = 7 \<or> v mod 10 = 8 \<or> v mod 10 = 9" by presburger
  then show "unat ((0x30 + of_nat (v mod 10) :: u8) - 0x30) = v mod 10" "is_digit (0x30 + of_nat (v mod 10))"
    "0x30 + of_nat (v mod 10) = (0x30 :: u8) \<longleftrightarrow> v mod 10 = 0"
    by (auto simp: is_digit_def)
qed

lemma u32_digits_value: "v < 10 ^ i \<Longrightarrow> decimal 0 (u32_digits i v buf) = decimal v buf"
proof (induction i v buf rule: u32_digits.induct)
  case (1 i v buf)
  show ?case
  proof (cases "v > 0 \<and> i > 0")
    case True
    then obtain j where i: "i = Suc j" by (cases i) auto
    have "v div 10 < 10 ^ j" using 1(2) by (simp add: i less_mult_imp_div_less)
    with 1(1) [OF True] have "decimal 0 (u32_digits j (v div 10) ((0x30 + of_nat (v mod 10)) # buf)) = decimal (v div 10) ((0x30 + of_nat (v mod 10)) # buf)"
      by (simp add: i)
    also have "\<dots> = decimal v buf" unfolding decimal_def foldl.simps digit_facts(1) by simp
    finally show ?thesis using True by (simp add: i u32_digits.simps [of "Suc j"])
  next
    case False
    with 1(2) have "v = 0" by (cases i) auto
    then show ?thesis by (simp add: u32_digits.simps)
  qed
qed

lemma u32_digits_digits: "list_all is_digit buf \<Longrightarrow> list_all is_digit (u32_digits i v buf)"
proof (induction i v buf rule: u32_digits.induct)
  case (1 i v buf)
  then show ?case by (subst u32_digits.simps) (simp add: digit_facts)
qed

lemma u32_digits_leading: "v < 10 ^ i \<Longrightarrow> v > 0 \<or> buf \<noteq> [] \<and> hd buf \<noteq> 0x30 \<Longrightarrow> u32_digits i v buf \<noteq> [] \<and> hd (u32_digits i v buf) \<noteq> 0x30"
proof (induction i v buf rule: u32_digits.induct)
  case (1 i v buf)
  show ?case
  proof (cases "v > 0 \<and> i > 0")
    case True
    then obtain j where i: "i = Suc j" by (cases i) auto
    have "v div 10 < 10 ^ j" using 1(2) by (simp add: i less_mult_imp_div_less)
    moreover have "v div 10 > 0 \<or> v mod 10 \<noteq> 0" using True by (metis div_mult_mod_eq gr0I mult_0 add_0)
    ultimately have "u32_digits j (v div 10) ((0x30 + of_nat (v mod 10)) # buf) \<noteq> [] \<and> hd (u32_digits j (v div 10) ((0x30 + of_nat (v mod 10)) # buf)) \<noteq> 0x30"
      using 1(1) [OF True] unfolding i diff_Suc_1 by (simp only: list.sel digit_facts list.distinct) blast
    then show ?thesis using True by (simp add: i u32_digits.simps [of "Suc j"])
  next
    case False
    with 1(2,3) show ?thesis by (subst (1 2) u32_digits.simps) (cases i; auto)
  qed
qed

definition le_word :: "u8 list \<Rightarrow> 'a::len word" where
  "le_word bs = foldr (\<lambda>b w. ucast b OR push_bit 8 w) bs 0"

lemma to_le_bytes_Suc: "to_le_bytes (Suc n) v = ucast v # to_le_bytes n (drop_bit 8 v)"
proof -
  have "[0..<Suc n] = 0 # map Suc [0..<n]" by (simp add: map_Suc_upt upt_rec [of 0 "Suc n"] del: upt_Suc)
  then show ?thesis by (simp add: to_le_bytes_def del: upt_Suc) (simp add: o_def algebra_simps)
qed

lemma le_word_bytes: "le_word (to_le_bytes n v) = take_bit (8 * n) v"
proof (induction n arbitrary: v)
  case 0
  then show ?case by (simp add: le_word_def to_le_bytes_def)
next
  case (Suc n)
  have "le_word (to_le_bytes (Suc n) v) = ucast (ucast v :: u8) OR push_bit 8 (take_bit (8 * n) (drop_bit 8 v))"
    using Suc [of "drop_bit 8 v"] by (simp add: to_le_bytes_Suc le_word_def)
  also have "\<dots> = take_bit (8 * Suc n) v"
    by (rule bit_word_eqI) (auto simp: bit_simps)
  finally show ?case .
qed

lemma length_to_le_bytes [simp]: "length (to_le_bytes n v) = n"
  by (simp add: to_le_bytes_def)

text \<open>What an entry of the journal records, and reading it back.\<close>

type_synonym checkpoint = "u32 \<times> u32 \<times> u8 \<times> u8 \<times> u16 \<times> u32 \<times> u64"

definition checkpoint_of :: "service \<Rightarrow> checkpoint" where
  "checkpoint_of s = (sv_program_id s, sv_pid s, state_code (sv_state s), policy_code (sv_policy s), sv_restart_count s, sv_last_exit s, sv_cap_mask s)"

definition read_entry :: "u8 list \<Rightarrow> checkpoint" where
  "read_entry bs = (le_word (take 4 bs), le_word (take 4 (drop 4 bs)), bs ! 8, bs ! 9, le_word (take 2 (drop 10 bs)),
     le_word (take 4 (drop 12 bs)), le_word (take 8 (drop 16 bs)))"

fun read_entries :: "nat \<Rightarrow> u8 list \<Rightarrow> checkpoint list" where
  "read_entries 0 bs = []"
| "read_entries (Suc n) bs = read_entry (take 24 bs) # read_entries n (drop 24 bs)"

definition read_journal :: "u8 list \<Rightarrow> checkpoint list" where
  "read_journal bs = read_entries (unat (hd bs)) (tl bs)"

lemma length_journal_entry [simp]: "length (journal_entry s) = 24"
  by (simp add: journal_entry_def)

lemma read_entry_journal: "read_entry (journal_entry s) = checkpoint_of s"
  by (simp add: read_entry_def journal_entry_def checkpoint_of_def le_word_bytes nth_append take_bit_word_eq_self)

lemma read_entries_journal: "read_entries (length ss) (concat (map journal_entry ss) @ rest) = map checkpoint_of ss"
  by (induction ss) (simp_all add: read_entry_journal)

lemma length_slots: "length (slots sv) \<le> length (sv_table sv)"
  unfolding slots_def by (induction "sv_table sv" arbitrary: sv) (simp_all add: List.map_filter_def)

lemma slots_iff: "s \<in> set (slots sv) \<longleftrightarrow> Some s \<in> set (sv_table sv)"
  by (auto simp: slots_def List.map_filter_def image_iff)

lemma length_journal_bytes: "length (journal_bytes sv) = 24 * length (slots sv) + 1"
  by (simp add: journal_bytes_def length_concat o_def sum_list_triv)

section \<open>What every pass preserves\<close>

lemma each_slot_eq:
  "each_slot f i t =
    (map (\<lambda>(j, x). map_option (\<lambda>s. fst (f j s)) x) (enumerate i t),
     concat (map (\<lambda>(j, x). case x of None \<Rightarrow> [] | Some s \<Rightarrow> snd (f j s)) (enumerate i t)))"
  by (induction f i t rule: each_slot.induct) (auto split: prod.splits)

lemma each_slot_nth: "j < length t \<Longrightarrow> fst (each_slot f 0 t) ! j = map_option (\<lambda>s. fst (f j s)) (t ! j)"
  by (simp add: each_slot_eq nth_enumerate_eq)

lemma each_slot_length [simp]: "length (fst (each_slot f i t)) = length t"
  by (simp add: each_slot_eq)

text \<open>The part of a service that is declared once: program, policy, whether it starts by itself, and capabilities.\<close>

definition declared :: "service \<Rightarrow> u32 \<times> restart_policy \<times> bool \<times> u64" where
  "declared s = (sv_program_id s, sv_policy s, sv_auto_start s, sv_cap_mask s)"

definition svc_ok :: "service \<Rightarrow> bool" where
  "svc_ok s \<longleftrightarrow> (sv_state s \<noteq> SvcRunning \<longrightarrow> sv_pid s = 0) \<and> sv_restart_delay s \<le> 8000"

definition entitled :: "service \<Rightarrow> cog_call \<Rightarrow> bool" where
  "entitled s c \<longleftrightarrow> (\<forall>p m. c = SpawnCapped p m \<longrightarrow> p = sv_program_id s \<and> m = sv_cap_mask s)"

text \<open>A step of one service is good if it keeps the declaration and the invariant and starts nothing else.\<close>

definition good_step :: "(service \<Rightarrow> service \<times> cog_call list) \<Rightarrow> bool" where
  "good_step f \<longleftrightarrow> (\<forall>s. svc_ok s \<longrightarrow> svc_ok (fst (f s)) \<and> declared (fst (f s)) = declared s \<and> list_all (entitled s) (snd (f s)))"

lemmas say_defs = say_spawning_def say_spawn_failed_def say_exited_def say_restarting_def say_stopped_policy_def say_halt_def say_reboot_def
  speak_def speak_u32_def

lemma backoff_le: "backoff_ticks n \<le> 8000"
  by (simp add: backoff_ticks_def Let_def)

lemma spawn_service_good:
  assumes "sv_state s \<noteq> SvcRunning" "svc_ok s"
  shows "svc_ok (fst (spawn_service r s)) \<and> declared (fst (spawn_service r s)) = declared s \<and> list_all (entitled s) (snd (spawn_service r s))"
  using assms by (auto simp: spawn_service_def Let_def svc_ok_def declared_def entitled_def say_defs)

lemma start_slot_good: "good_step (start_slot ans i)"
  using spawn_service_good by (auto simp: good_step_def start_slot_def)

lemma restart_slot_good: "good_step (restart_slot ans i)"
  unfolding good_step_def
proof (intro allI impI)
  fix s assume ok: "svc_ok s"
  show "svc_ok (fst (restart_slot ans i s)) \<and> declared (fst (restart_slot ans i s)) = declared s \<and> list_all (entitled s) (snd (restart_slot ans i s))"
  proof (cases "sv_state s = SvcRestarting \<and> sv_restart_delay s = 0")
    case True
    then show ?thesis using spawn_service_good [OF _ ok] by (auto simp: restart_slot_def)
  next
    case False
    have "sv_restart_delay s - 1 \<le> 8000" if "sv_restart_delay s > 0"
    proof -
      have "unat (sv_restart_delay s - 1) = unat (sv_restart_delay s) - 1" using that by (intro unat_minus_one) auto
      then show ?thesis using ok by (auto simp: svc_ok_def word_le_nat_alt)
    qed
    then show ?thesis using ok False by (auto simp: restart_slot_def svc_ok_def declared_def word_gt_0)
  qed
qed

lemma exited_good: "good_step (exited status)"
  by (auto simp: good_step_def exited_def Let_def svc_ok_def declared_def entitled_def say_defs backoff_le)

text \<open>Two tables with the same declarations, all services in order, and calls that start only declared programs.\<close>

definition decls :: "service option list \<Rightarrow> (u32 \<times> restart_policy \<times> bool \<times> u64) option list" where
  "decls t = map (map_option declared) t"

definition table_ok :: "service option list \<Rightarrow> bool" where
  "table_ok t \<longleftrightarrow> (\<forall>s. Some s \<in> set t \<longrightarrow> svc_ok s)"

definition starts_declared :: "service option list \<Rightarrow> cog_call list \<Rightarrow> bool" where
  "starts_declared t out \<longleftrightarrow> (\<forall>p m. SpawnCapped p m \<in> set out \<longrightarrow> (\<exists>pol auto. Some (p, pol, auto, m) \<in> set (decls t)))"

lemma starts_declared_append [simp]: "starts_declared t (o1 @ o2) \<longleftrightarrow> starts_declared t o1 \<and> starts_declared t o2"
  by (auto simp: starts_declared_def)

lemma starts_declared_cong: "decls t = decls t' \<Longrightarrow> starts_declared t out = starts_declared t' out"
  by (simp add: starts_declared_def)

lemma entitled_starts: "list_all (entitled s) out \<Longrightarrow> Some s \<in> set t \<Longrightarrow> starts_declared t out"
  by (force simp: starts_declared_def decls_def list_all_iff entitled_def declared_def image_iff)

lemma starts_nothing [simp]: "starts_declared t (journal_state sv)" "starts_declared t []" "starts_declared t (map Say xs)"
  "starts_declared t (speak x)" "starts_declared t (speak_u32 n)" "starts_declared t say_halt" "starts_declared t say_reboot"
  "starts_declared t (Say x # out) = starts_declared t out" "starts_declared t (RebootCall n # out) = starts_declared t out"
  by (auto simp: starts_declared_def journal_state_def say_defs)

lemma each_slot_good:
  assumes "\<And>i. good_step (f i)" "table_ok t"
  shows "table_ok (fst (each_slot f 0 t)) \<and> decls (fst (each_slot f 0 t)) = decls t \<and> starts_declared t (snd (each_slot f 0 t))"
proof (intro conjI)
  have g: "svc_ok (fst (f j s)) \<and> declared (fst (f j s)) = declared s \<and> list_all (entitled s) (snd (f j s))" if "Some s \<in> set t" for j s
    using assms that unfolding good_step_def table_ok_def by blast
  show "table_ok (fst (each_slot f 0 t))"
    unfolding table_ok_def in_set_conv_nth each_slot_length
    using g by (auto simp: each_slot_nth) (metis nth_mem)
  show "decls (fst (each_slot f 0 t)) = decls t"
    unfolding decls_def using g
    by (intro nth_equalityI) (auto simp: each_slot_nth option.map_comp o_def intro!: option.map_cong, metis nth_mem option.set_sel)
  show "starts_declared t (snd (each_slot f 0 t))"
  proof -
    have "starts_declared t (case x of None \<Rightarrow> [] | Some s \<Rightarrow> snd (f j s))" if "(j, x) \<in> set (enumerate 0 t)" for j x
      using that g entitled_starts by (auto simp: in_set_enumerate_eq split: option.splits) (metis nth_mem)
    then show ?thesis by (fastforce simp: each_slot_eq starts_declared_def)
  qed
qed

lemma first_slot_Some:
  assumes "first_slot P t = Some i"
  obtains s where "i < length t" "t ! i = Some s" "P s"
  using assms by (auto simp: first_slot_def find_Some_iff split: option.splits)

lemma update_slot_good:
  assumes "table_ok t" "i < length t" "t ! i = Some s" "svc_ok s'" "declared s' = declared s"
  shows "table_ok (t[i := Some s'])" "decls (t[i := Some s']) = decls t"
proof -
  show "table_ok (t[i := Some s'])" using assms(1,4) by (auto simp: table_ok_def dest!: set_update_subset_insert [THEN subsetD])
  show "decls (t[i := Some s']) = decls t" unfolding decls_def map_update using assms(2,3,5) by (simp add: list_update_same_conv)
qed

lemma chain_wm_good:
  assumes "table_ok t"
  shows "table_ok (fst (chain_wm ans t)) \<and> decls (fst (chain_wm ans t)) = decls t \<and> starts_declared t (snd (chain_wm ans t))"
proof (cases "first_slot (\<lambda>s. sv_program_id s = PROG_WM \<and> sv_state s = SvcStopped) t")
  case (Some i)
  then obtain s where s: "i < length t" "t ! i = Some s" "sv_state s = SvcStopped" by (auto elim: first_slot_Some)
  have m: "Some s \<in> set t" using s by (metis nth_mem)
  have g: "svc_ok (fst (spawn_service (ans i) s)) \<and> declared (fst (spawn_service (ans i) s)) = declared s \<and> list_all (entitled s) (snd (spawn_service (ans i) s))"
    using s(3) m assms by (intro spawn_service_good) (auto simp: table_ok_def)
  then show ?thesis using update_slot_good [OF assms s(1,2)] entitled_starts [OF _ m] s(2) Some
    by (cases "spawn_service (ans i) s") (simp add: chain_wm_def)
qed (simp add: chain_wm_def assms)

lemma start_all_good:
  assumes "table_ok (sv_table sv)" "start_all ans sv = (sv', out)"
  shows "table_ok (sv_table sv') \<and> decls (sv_table sv') = decls (sv_table sv) \<and> starts_declared (sv_table sv) out"
  using each_slot_good [of "start_slot ans", OF start_slot_good assms(1)] assms(2)
  by (auto simp: start_all_def Let_def split: prod.splits)

lemma restart_pass_good:
  assumes "table_ok (sv_table sv)" "restart_pass ans sv = (sv', out)"
  shows "table_ok (sv_table sv') \<and> decls (sv_table sv') = decls (sv_table sv) \<and> starts_declared (sv_table sv) out"
  using each_slot_good [of "restart_slot ans", OF restart_slot_good assms(1)] assms(2)
  by (auto simp: restart_pass_def Let_def split: prod.splits if_splits)

lemma reap_pass_good:
  assumes "table_ok (sv_table sv)" "reap_pass ans reaped status sv = (fl, sv', out)"
  shows "table_ok (sv_table sv') \<and> decls (sv_table sv') = decls (sv_table sv) \<and> starts_declared (sv_table sv) out"
proof (cases "sint reaped \<le> 0 \<or> status = 42 \<or> status = 43")
  case True
  with assms show ?thesis by (auto simp: reap_pass_def split: if_splits)
next
  case no: False
  show ?thesis
  proof (cases "first_slot (\<lambda>s. sv_pid s = ucast reaped) (sv_table sv)")
    case None
    with assms no show ?thesis by (auto simp: reap_pass_def Let_def)
  next
    case (Some i)
    then obtain s where s: "i < length (sv_table sv)" "sv_table sv ! i = Some s" by (auto elim: first_slot_Some)
    then have m: "Some s \<in> set (sv_table sv)" by (metis nth_mem)
    obtain s' o1 where ex: "exited status s = (s', o1)" by fastforce
    have g: "svc_ok s'" "declared s' = declared s" "list_all (entitled s) o1"
      using exited_good [of status] m assms(1) ex unfolding good_step_def table_ok_def by (metis fst_conv snd_conv)+
    let ?t = "(sv_table sv)[i := Some s']"
    note t = update_slot_good [OF assms(1) s g(1,2)] entitled_starts [OF g(3) m]
    obtain t2 o2 where ch: "chain_wm ans ?t = (t2, o2)" by fastforce
    have c: "table_ok t2" "decls t2 = decls (sv_table sv)" "starts_declared (sv_table sv) o2"
      using chain_wm_good [OF t(1), of ans] ch t(2) by (simp_all add: starts_declared_def)
    define t1 where "t1 = (if \<not> should_restart (sv_policy s) status \<and> sv_program_id s = PROG_FBTEST then t2 else ?t)"
    have "sv' = sv\<lparr>sv_table := t1\<rparr>" "out = o1 @ (if \<not> should_restart (sv_policy s) status \<and> sv_program_id s = PROG_FBTEST then o2 else []) @ journal_state (sv\<lparr>sv_table := t1\<rparr>)"
      using assms(2) no Some s(2) ex ch by (auto simp: reap_pass_def Let_def t1_def split: if_splits)
    then show ?thesis using t c by (simp add: t1_def)
  qed
qed

lemma handle_ipc_starts [simp]: "starts_declared t (handle_ipc e sv m)"
proof -
  have l: "starts_declared t (list_line s)" for s by (simp add: list_line_def)
  have "starts_declared t (concat (map list_line ss))" for ss by (induction ss) (simp_all add: l)
  moreover have "starts_declared t (say_ipc_unknown n)" for n by (simp add: say_ipc_unknown_def)
  moreover have "starts_declared t (snd (snd (ask e b q)))" for b q
    by (auto simp: ask_def say_advisor_privacy_strip_def Let_def split: advisor_backend.splits)
  ultimately show ?thesis by (auto simp: handle_ipc_def split: prod.splits) (metis snd_conv)+
qed

lemma handle_ipcs_starts [simp]: "starts_declared t (concat (map (handle_ipc e sv) ms))"
  by (induction ms) simp_all

lemma cog_turn_good:
  assumes "table_ok (sv_table sv)" "cog_turn inp sv = (fl, sv', out)"
  shows "table_ok (sv_table sv') \<and> decls (sv_table sv') = decls (sv_table sv) \<and> starts_declared (sv_table sv) out"
proof -
  obtain f1 sv1 o1 where r: "reap_pass (ci_chain inp) (ci_reaped inp) (ci_status inp) sv = (f1, sv1, o1)" by (metis prod_cases3)
  note g1 = reap_pass_good [OF assms(1) r]
  obtain sv2 o2 where q: "restart_pass (ci_restart inp) sv1 = (sv2, o2)" by fastforce
  note g2 = restart_pass_good [OF g1 [THEN conjunct1] q]
  have s2: "starts_declared (sv_table sv) o2" "decls (sv_table sv2) = decls (sv_table sv)"
    using g1 g2 by (simp_all add: starts_declared_def)
  show ?thesis
  proof (cases f1)
    case Continue
    then have "sv' = sv2" "out = o1 @ o2 @ concat (map (handle_ipc boot_env sv2) (ci_msgs inp))" using assms(2) r q by (auto simp: cog_turn_def)
    with g1 g2 s2 show ?thesis by simp
  next
    case NeverReturns
    then have "sv' = sv1" "out = o1" using assms(2) r by (simp_all add: cog_turn_def)
    with g1 show ?thesis by simp
  qed
qed

text \<open>A run of the process: all calls made so far and the service table; it goes on until a halt or reboot was asked for.\<close>

inductive cog_run :: "flow \<Rightarrow> cog_call list \<Rightarrow> supervisor \<Rightarrow> bool" where
  cog_first: "cog_start ans = (sv, out) \<Longrightarrow> cog_run Continue out sv"
| cog_more: "cog_run Continue out sv \<Longrightarrow> cog_turn inp sv = (fl, sv', out') \<Longrightarrow> cog_run fl (out @ out') sv'"

lemma default_table:
  "sv_table default_supervisor =
     [Some (service_new PROG_WM OnFailure True cap_COMPOSITOR_WM), Some (service_new 12 Never False cap_DESKTOP_APP),
      Some (service_new 5 Never False (cap_PROC_INFO OR cap_DISPLAY OR cap_IPC_SEND OR cap_IPC_RECV))] @ replicate 13 None"
  by (simp add: default_supervisor_def register_def supervisor_new_def MAX_SERVICES_def numeral_eq_Suc)

lemma announce_starts [simp]: "starts_declared t (announce_ready e)" "starts_declared t greet"
  by (simp_all add: announce_ready_def say_advisor_ready_def say_advisor_local_only_def say_advisor_cloud_available_def say_no_network_def greet_def
      split: advisor_backend.splits)

lemma cog_run_good:
  "cog_run fl out sv \<Longrightarrow>
    table_ok (sv_table sv) \<and> decls (sv_table sv) = decls (sv_table default_supervisor) \<and> starts_declared (sv_table default_supervisor) out"
proof (induction rule: cog_run.induct)
  case (cog_first ans sv out)
  have "table_ok (sv_table default_supervisor)" by (auto simp: table_ok_def default_table svc_ok_def service_new_def)
  moreover obtain sv' o1 where "start_all ans default_supervisor = (sv', o1)" by fastforce
  ultimately show ?case using start_all_good cog_first by (auto simp: cog_start_def)
next
  case (cog_more out sv inp fl sv' out')
  then have ok: "table_ok (sv_table sv)" and d: "decls (sv_table sv) = decls (sv_table default_supervisor)" by simp_all
  note t = cog_turn_good [OF ok cog_more(2)]
  have "decls (sv_table sv') = decls (sv_table default_supervisor)" using t d by simp
  moreover have "starts_declared (sv_table default_supervisor) out'" using t starts_declared_cong [OF d] by simp
  ultimately show ?case using t cog_more.IH by simp
qed

section \<open>Properties\<close>

lemma declared_masks:
  assumes "Some (p, pol, auto, m) \<in> set (decls (sv_table default_supervisor))"
  shows "(p, m) \<in> {(9, cap_COMPOSITOR_WM), (12, cap_DESKTOP_APP), (5, cap_PROC_INFO OR cap_DISPLAY OR cap_IPC_SEND OR cap_IPC_RECV)}"
  using assms by (auto simp: default_table decls_def declared_def service_new_def PROG_WM_def)

lemma masks_limited:
  assumes "(p, m) \<in> {(9, cap_COMPOSITOR_WM), (12, cap_DESKTOP_APP), (5, cap_PROC_INFO OR cap_DISPLAY OR cap_IPC_SEND OR cap_IPC_RECV)}"
  shows "m \<noteq> 0" "m AND cap_REBOOT = 0" "m AND cap_GRANT = 0" "m AND cap_JOURNAL = 0" "m AND cap_DECLASSIFY = 0" "m AND cap_ENDORSE = 0"
  using assms by (auto simp: cap_COMPOSITOR_WM_def cap_DESKTOP_APP_def cap_bit_defs)

lemma child_lacks: "m \<noteq> 0 \<Longrightarrow> m AND b = 0 \<Longrightarrow> b \<noteq> 0 \<Longrightarrow> \<not> has (child_caps c m) b"
  by (auto simp: has_def child_caps_def Let_def and.assoc)


lemma start_table:
  "fst (cog_start ans) = default_supervisor\<lparr>sv_table := [Some (fst (spawn_service (ans 0) (service_new PROG_WM OnFailure True cap_COMPOSITOR_WM))),
     Some (service_new 12 Never False cap_DESKTOP_APP),
     Some (service_new 5 Never False (cap_PROC_INFO OR cap_DISPLAY OR cap_IPC_SEND OR cap_IPC_RECV))] @ replicate 13 None\<rparr>"
  "SpawnCapped 9 cap_COMPOSITOR_WM \<in> set (snd (cog_start ans))"
  by (simp_all add: cog_start_def start_all_def default_table start_slot_def service_new_def spawn_service_def PROG_WM_def Let_def numeral_eq_Suc split: prod.splits)


text \<open>C37: The journal is a faithful checkpoint. After every turn of a run the bytes the supervisor writes fit the journal of the kernel, and
  reading them back from there yields, in order, program, process, state, policy, restart count, last exit code and capabilities
  of every service.\<close>

theorem journal_resumes:
  assumes "cog_run fl out sv" "385 \<le> length buf"
  shows "length (journal_bytes sv) \<le> 385 \<and>
    (case journal_read buf (snd (journal_write (journal_bytes sv) writer j)) of (n, bs) \<Rightarrow>
       n = length (journal_bytes sv) \<and> read_journal (take n bs) = map checkpoint_of (slots sv))"
proof -
  have "length (sv_table sv) = length (decls (sv_table sv))" by (simp add: decls_def)
  also have "\<dots> = 16" using cog_run_good [OF assms(1)] by (simp add: decls_def default_table)
  finally have n: "length (slots sv) \<le> 16" using length_slots [of sv] by simp
  then have len: "length (journal_bytes sv) \<le> 385" by (simp add: length_journal_bytes)
  have "unat (of_nat (length (slots sv)) :: u8) = length (slots sv)" using n by (simp add: unat_of_nat)
  then have "read_journal (journal_bytes sv) = map checkpoint_of (slots sv)"
    using read_entries_journal [of "slots sv" "[]"] by (simp add: read_journal_def journal_bytes_def)
  moreover have "journal_read buf (snd (journal_write (journal_bytes sv) writer j)) = (length (journal_bytes sv), journal_bytes sv @ drop (length (journal_bytes sv)) buf)"
    using len assms(2) by (intro journal_write_read) (auto simp: JOURNAL_SIZE_def)
  ultimately show ?thesis using len by simp
qed

theorem journal_resumes_witness:
  "\<exists>bs. journal_read (replicate 400 0) (snd (journal_write (journal_bytes (fst (cog_start (\<lambda>_. 2)))) 1 journal_init)) = (73, bs) \<and>
     read_journal (take 73 bs) = map checkpoint_of (slots (fst (cog_start (\<lambda>_. 2)))) \<and> length (slots (fst (cog_start (\<lambda>_. 2)))) = 3"
proof -
  let ?sv = "fst (cog_start (\<lambda>_. 2))"
  have r: "cog_run Continue (snd (cog_start (\<lambda>_. 2))) ?sv" by (rule cog_first [of "\<lambda>_. 2"]) simp
  have n: "length (slots ?sv) = 3" by (simp add: slots_def start_table List.map_filter_def)
  have b: "385 \<le> length (replicate 400 (0 :: u8))" by simp
  from journal_resumes [OF r b, of 1 journal_init] n show ?thesis by (auto simp: length_journal_bytes split: prod.splits)
qed

text \<open>Numbers are spoken in decimal: what \<open>speak_u32\<close> writes are digits only, without a leading zero unless the number is zero, and they denote the
  number.\<close>

theorem speak_u32_decimal:
  "\<exists>ds. speak_u32 n = [Say ds] \<and> ds \<noteq> [] \<and> list_all is_digit ds \<and> decimal 0 ds = unat n \<and> (hd ds = 0x30 \<longleftrightarrow> n = 0)"
proof (cases "n = 0")
  case True
  then show ?thesis by (auto simp: speak_u32_def bytes_def is_digit_def decimal_def)
next
  case False
  have "unat n < 2 ^ 32" using unsigned_less [of n, where 'a = nat] by simp
  then have "unat n < 10 ^ 10" by simp
  moreover have "unat n > 0" using False by (simp add: unat_gt_0)
  ultimately show ?thesis
    using False u32_digits_value [of "unat n" 10 "[]"] u32_digits_digits [of "[]"] u32_digits_leading [of "unat n" 10 "[]"]
    by (simp add: speak_u32_def decimal_def)
qed

lemma restart_pass_slot:
  "j < length (sv_table sv) \<Longrightarrow> sv_table (fst (restart_pass ans sv)) ! j = map_option (\<lambda>s. fst (restart_slot ans j s)) (sv_table sv ! j)"
  "length (sv_table (fst (restart_pass ans sv))) = length (sv_table sv)"
proof -
  have "sv_table (fst (restart_pass ans sv)) = fst (each_slot (restart_slot ans) 0 (sv_table sv))"
    by (simp add: restart_pass_def Let_def split: prod.splits)
  then show "j < length (sv_table sv) \<Longrightarrow> sv_table (fst (restart_pass ans sv)) ! j = map_option (\<lambda>s. fst (restart_slot ans j s)) (sv_table sv ! j)"
    "length (sv_table (fst (restart_pass ans sv))) = length (sv_table sv)"
    by (simp_all add: each_slot_nth)
qed

lemma restart_pass_calls:
  assumes "i < length (sv_table sv)" "sv_table sv ! i = Some s" "c \<in> set (snd (restart_slot ans i s))"
  shows "c \<in> set (snd (restart_pass ans sv))"
proof -
  have "(i, Some s) \<in> set (enumerate 0 (sv_table sv))" using assms(1,2) by (simp add: in_set_enumerate_eq)
  then have "c \<in> set (snd (each_slot (restart_slot ans) 0 (sv_table sv)))" using assms(3) by (force simp: each_slot_eq)
  then show ?thesis by (auto simp: restart_pass_def Let_def split: prod.splits)
qed

lemma waiting_slot:
  assumes "i < length (sv_table sv)" "sv_table sv ! i = Some s" "sv_state s = SvcRestarting" "length anss \<le> unat (sv_restart_delay s)"
  shows "i < length (sv_table (fold (\<lambda>a v. fst (restart_pass a v)) anss sv)) \<and>
    sv_table (fold (\<lambda>a v. fst (restart_pass a v)) anss sv) ! i = Some (s\<lparr>sv_restart_delay := sv_restart_delay s - of_nat (length anss)\<rparr>)"
  using assms
proof (induction anss arbitrary: sv s)
  case (Cons a anss)
  let ?s = "s\<lparr>sv_restart_delay := sv_restart_delay s - 1\<rparr>"
  have pos: "sv_restart_delay s > 0" using Cons.prems(4) by (simp add: word_less_nat_alt)
  then have u: "unat (sv_restart_delay s - 1) = unat (sv_restart_delay s) - 1" by (intro unat_minus_one) auto
  have "sv_table (fst (restart_pass a sv)) ! i = Some ?s"
    using Cons.prems(1-3) pos by (simp add: restart_pass_slot restart_slot_def)
  from Cons.IH [OF _ this] Cons.prems u show ?case by (simp add: restart_pass_slot(2) algebra_simps)
qed simp

lemma backoff_value: "unat (backoff_ticks c) = min (200 * 2 ^ min (unat c) 6) 8000"
proof (cases "c < 6")
  case True
  then have "unat c < 6" by (simp add: word_less_nat_alt)
  then have "unat c = 0 \<or> unat c = 1 \<or> unat c = 2 \<or> unat c = 3 \<or> unat c = 4 \<or> unat c = 5" by presburger
  with True show ?thesis by (auto simp: backoff_ticks_def Let_def push_bit_eq_mult min_def)
next
  case False
  then have "min (unat c) 6 = 6" by (simp add: word_less_nat_alt)
  with False show ?thesis by (simp add: backoff_ticks_def Let_def push_bit_eq_mult min_def)
qed

lemma reap_restarts:
  assumes "sint reaped > 0" "status \<noteq> 42" "status \<noteq> 43" "first_slot (\<lambda>s. sv_pid s = ucast reaped) (sv_table sv) = Some i"
    "sv_table sv ! i = Some s" "should_restart (sv_policy s) status"
  shows "\<exists>out. reap_pass ans reaped status sv = (Continue, sv\<lparr>sv_table := (sv_table sv)[i := Some (fst (exited status s))]\<rparr>, out)"
  using assms by (auto simp: reap_pass_def Let_def split: prod.splits)



lemma small_ucast_nonzero:
  fixes w :: u64
  assumes "0 < sint w" "sint w < 2 ^ 32"
  shows "(ucast w :: u32) \<noteq> 0"
proof
  assume "(ucast w :: u32) = 0"
  moreover have "uint (ucast w :: u32) = take_bit 32 (uint w)" by (simp add: unsigned_ucast_eq)
  ultimately have "take_bit 32 (uint w) = 0" by simp
  then have "take_bit 32 (sint w) = 0" by (simp add: uint_sint [of w])
  then show False using assms by (simp add: take_bit_int_eq_self)
qed

lemma chain_keeps:
  assumes "sv_state s \<noteq> SvcStopped" "i < length t" "t ! i = Some s"
  shows "fst (chain_wm ans t) ! i = Some s" "length (fst (chain_wm ans t)) = length t"
  using assms by (auto simp: chain_wm_def nth_list_update split: option.splits prod.splits elim!: first_slot_Some)

lemma reap_keeps_failed:
  assumes "reap_pass ans reaped status sv = (fl, sv', out)" "i < length (sv_table sv)" "sv_table sv ! i = Some s" "sv_state s = SvcFailed"
    "sv_pid s = 0" "sint reaped < 2 ^ 32"
  shows "sv_table sv' ! i = Some s \<and> length (sv_table sv') = length (sv_table sv)"
proof (cases "sint reaped \<le> 0 \<or> status = 42 \<or> status = 43 \<or> first_slot (\<lambda>s. sv_pid s = ucast reaped) (sv_table sv) = None")
  case True
  with assms(1-3) show ?thesis by (auto simp: reap_pass_def Let_def split: if_splits)
next
  case False
  then obtain j where j: "first_slot (\<lambda>s. sv_pid s = ucast reaped) (sv_table sv) = Some j" by auto
  then obtain w where w: "j < length (sv_table sv)" "sv_table sv ! j = Some w" "sv_pid w = ucast reaped" by (auto elim: first_slot_Some)
  have "reaped = word_of_int (sint reaped)" by simp
  then have "(ucast reaped :: u32) \<noteq> 0"
    using False assms(6) by (metis (no_types) linorder_not_le order_le_less small_ucast_nonzero)
  with w assms(3,5) have ne: "i \<noteq> j" by auto
  obtain w' o1 where ex: "exited status w = (w', o1)" by fastforce
  let ?t = "(sv_table sv)[j := Some w']"
  have t: "i < length ?t" "?t ! i = Some s" using ne assms(2,3) by simp_all
  show ?thesis using assms(1) False j w(2) ex t chain_keeps [OF _ t, of ans] assms(4)
    by (cases "chain_wm ans ?t") (auto simp: reap_pass_def Let_def split: if_splits)
qed

text \<open>A service that could not be started is given up. Once the kernel has refused to start a service, no turn of the main loop starts it
  again, whatever children exit and however long it runs, although the message printed then promises another attempt.\<close>

theorem failed_service_stays_failed:
  assumes "cog_run Continue out sv" "i < length (sv_table sv)" "sv_table sv ! i = Some s" "sv_state s = SvcFailed"
    "sint (ci_reaped inp) < 2 ^ 32" "cog_turn inp sv = (fl, sv', out')"
  shows "sv_table sv' ! i = Some s"
proof -
  have ok: "table_ok (sv_table sv)" using cog_run_good [OF assms(1)] by simp
  then have pid: "sv_pid s = 0" using assms(2-4) unfolding table_ok_def svc_ok_def by (metis nth_mem svc_state.distinct(9))
  obtain f1 sv1 o1 where r: "reap_pass (ci_chain inp) (ci_reaped inp) (ci_status inp) sv = (f1, sv1, o1)" by (metis prod_cases3)
  have "sv_table sv1 ! i = Some s \<and> length (sv_table sv1) = length (sv_table sv)"
    by (rule reap_keeps_failed [OF r assms(2-4) pid assms(5)])
  moreover obtain sv2 o2 where q: "restart_pass (ci_restart inp) sv1 = (sv2, o2)" by fastforce
  ultimately have "sv_table sv2 ! i = Some s"
    using restart_pass_slot(1) [of i sv1 "ci_restart inp"] assms(2,4) by (simp add: restart_slot_def)
  then show ?thesis using assms(6) r q \<open>sv_table sv1 ! i = Some s \<and> _\<close> by (cases f1) (auto simp: cog_turn_def)
qed

definition idle_input :: cog_input where
  "idle_input = \<lparr>ci_reaped = - 1, ci_status = 0, ci_chain = (\<lambda>_. 3), ci_restart = (\<lambda>_. 3), ci_msgs = []\<rparr>"

theorem failed_service_stays_failed_witness:
  "\<exists>s. sv_table (fst (cog_start (\<lambda>_. - 5))) ! 0 = Some s \<and> sv_state s = SvcFailed \<and>
     sv_table (fst (snd (cog_turn idle_input (fst (cog_start (\<lambda>_. - 5)))))) ! 0 = Some s"
proof -
  let ?sv = "fst (cog_start (\<lambda>_. - 5))"
  let ?s = "(service_new PROG_WM OnFailure True cap_COMPOSITOR_WM)\<lparr>sv_state := SvcFailed\<rparr>"
  have r: "cog_run Continue (snd (cog_start (\<lambda>_. - 5))) ?sv" by (rule cog_first [of "\<lambda>_. - 5"]) simp
  have t: "sv_table ?sv ! 0 = Some ?s" "0 < length (sv_table ?sv)" by (simp_all add: start_table spawn_service_def Let_def)
  obtain fl sv' out' where "cog_turn idle_input ?sv = (fl, sv', out')" by (metis prod_cases3)
  with failed_service_stays_failed [OF r t(2,1), of idle_input fl sv' out'] t(1) show ?thesis by (auto simp: idle_input_def)
qed

lemma contains_iff: "contains_subsequence h n \<longleftrightarrow> (\<exists>a b. h = a @ n @ b)"
proof (cases "n = [] \<or> length n > length h")
  case True
  then show ?thesis by (auto simp: contains_subsequence_def)
next
  case False
  have "(\<exists>i<length h - length n + 1. take (length n) (drop i h) = n) \<longleftrightarrow> (\<exists>a b. h = a @ n @ b)"
  proof
    assume "\<exists>i<length h - length n + 1. take (length n) (drop i h) = n"
    then obtain i where "take (length n) (drop i h) = n" by blast
    then have "h = take i h @ n @ drop (length n) (drop i h)" by (metis append_take_drop_id)
    then show "\<exists>a b. h = a @ n @ b" by blast
  next
    assume "\<exists>a b. h = a @ n @ b"
    then obtain a b where "h = a @ n @ b" by blast
    then show "\<exists>i<length h - length n + 1. take (length n) (drop i h) = n" by (intro exI [of _ "length a"]) simp
  qed
  moreover have "contains_subsequence h n \<longleftrightarrow> (\<exists>i<length h - length n + 1. take (length n) (drop i h) = n)"
    using False by (simp add: contains_subsequence_def list_ex_iff Bex_def del: upt_Suc)
  ultimately show ?thesis by blast
qed

lemma contains_take: "contains_subsequence (take k h) n \<Longrightarrow> contains_subsequence h n"
  unfolding contains_iff by (metis append_assoc append_take_drop_id)



end
