(* ===== verification/Programs.thy ===== *)
theory Programs
  imports Cogman Device_Calls
begin

text \<open>
  The programs of the command line: the shell (\<open>userland/src/bin/shell.rs\<close>) and the programs it starts, \<open>editor.rs\<close>, \<open>viewer.rs\<close>,
  \<open>copy.rs\<close> and \<open>monitor.rs\<close>. They are run against the file layer of \<open>Vfs\<close>. A call on files is its handler in the kernel applied to the
  contents of the program's buffers; how the arguments get there is \<open>User_Lib\<close>. What the console delivers, and what the kernel answers to
  the calls on processes, are lists in the state; a program whose list is used up waits for ever, which is the value \<open>None\<close>.
\<close>

section \<open>System calls on files\<close>

record prog =
  pg_vfs :: vfs
  pg_pid :: u32
  pg_in :: "u8 list list"
  pg_out :: "u8 list"
  pg_kids :: "(u64 \<times> u32) list"
  pg_procs :: "(u32 \<times> u8) list option list"
  pg_spawned :: "u32 list"

text \<open>The name in a path argument, which the caller gives with its length or terminated by zero.\<close>

definition path_arg :: "u8 list \<Rightarrow> u8 list sys_result" where
  "path_arg bs =
     (if bs = [] \<or> length bs \<ge> PATH_MAX then Err INVAL
      else let name = path_name bs in if name = [] \<or> length name > 31 then Err INVAL else Ok name)"

definition file_open :: "u8 list \<Rightarrow> u32 \<Rightarrow> prog \<Rightarrow> u64 sys_result \<times> prog" where
  "file_open bs flags p =
     (case path_arg bs of
        Inl e \<Rightarrow> (Err e, p)
      | Inr name \<Rightarrow>
          (case vfs_open name flags (pg_pid p) (pg_vfs p) of
             (Some fd, v) \<Rightarrow> (Ok (ucast fd), p\<lparr>pg_vfs := v\<rparr>)
           | (None, v) \<Rightarrow> (Err MFILE, p\<lparr>pg_vfs := v\<rparr>)))"

definition file_read :: "u32 \<Rightarrow> nat \<Rightarrow> prog \<Rightarrow> u8 list \<times> prog" where
  "file_read fd n p = (case read_file fd n (pg_vfs p) of (bs, v) \<Rightarrow> (bs, p\<lparr>pg_vfs := v\<rparr>))"

definition out_write :: "u8 list \<Rightarrow> prog \<Rightarrow> prog" where
  "out_write bs p = p\<lparr>pg_out := pg_out p @ bs\<rparr>"

definition file_write :: "u32 \<Rightarrow> u8 list \<Rightarrow> prog \<Rightarrow> prog" where
  "file_write fd bs p = (if bs = [] then p else p\<lparr>pg_vfs := snd (write_file fd bs (pg_vfs p))\<rparr>)"

definition file_close :: "u32 \<Rightarrow> prog \<Rightarrow> prog" where
  "file_close fd p = (if fd < 3 then p else p\<lparr>pg_vfs := snd (vfs_close fd (pg_vfs p))\<rparr>)"

definition file_unlink :: "u8 list \<Rightarrow> prog \<Rightarrow> bool \<times> prog" where
  "file_unlink bs p =
     (case path_arg bs of
        Inl e \<Rightarrow> (False, p)
      | Inr name \<Rightarrow> (case vfs_unlink name (pg_vfs p) of (ok, v) \<Rightarrow> (ok, p\<lparr>pg_vfs := v\<rparr>)))"

text \<open>A read of the console delivers the next bytes that were typed, at most as many as fit.\<close>

definition line_read :: "nat \<Rightarrow> prog \<Rightarrow> (u8 list \<times> prog) option" where
  "line_read n p =
     (case pg_in p of
        [] \<Rightarrow> None
      | l # ls \<Rightarrow> Some (take n l, p\<lparr>pg_in := (if length l > n then drop n l # ls else ls)\<rparr>))"

text \<open>These are what the handlers of the kernel do, for buffers that the kernel accepts.\<close>

lemma file_open_handler:
  assumes "check_user_ptr ptr len k = Inr u" "ptr \<noteq> 0" "bs \<noteq> []" "length bs = len" "len < PATH_MAX" "uload k ptr len = bs" "pg_vfs p = k_vfs k" "pg_pid p = caller_pid k"
  shows "fst (sys_open ptr len flags k) = fst (file_open bs flags p) \<and> k_vfs (snd (sys_open ptr len flags k)) = pg_vfs (snd (file_open bs flags p))"
  using assms by (auto simp: sys_open_def copy_path_from_user_def file_open_def path_arg_def Let_def split: sum.splits option.splits prod.splits if_splits)

lemma file_read_handler:
  assumes "check_user_ptr buf n k = Inr u" "buf \<noteq> 0" "n \<noteq> 0" "3 \<le> fd" "pg_vfs p = k_vfs k" "file_read fd n p = (bs, p')"
  shows "sys_read feed fd buf n k = Some (Ok (of_nat (length bs)), ustore buf bs (k\<lparr>k_vfs := pg_vfs p'\<rparr>))"
  using assms by (auto simp: sys_read_def file_read_def split: prod.splits)

lemma file_write_handler:
  assumes "check_user_ptr buf n k = Inr u" "buf \<noteq> 0" "n \<noteq> 0" "3 \<le> fd" "pg_vfs p = k_vfs k" "uload k buf n = bs" "bs \<noteq> []"
  shows "snd (sys_write fd buf n k) = k\<lparr>k_vfs := pg_vfs (file_write fd bs p)\<rparr>"
proof -
  have "fd \<noteq> 1" "fd \<noteq> 2" using assms(4) by (auto simp: word_le_nat_alt)
  then show ?thesis using assms by (auto simp: sys_write_def file_write_def split: prod.splits)
qed

section \<open>The loop that reads a file to its end\<close>

text \<open>\<open>loop { let n = sys_read(..); if n <= 0 { break; } .. }\<close>, in the shell, the viewer and the copy program.\<close>

partial_function (option) drain :: "('s \<Rightarrow> u8 list \<times> 's) \<Rightarrow> (u8 list \<Rightarrow> 's \<Rightarrow> 's) \<Rightarrow> 's \<Rightarrow> 's option" where
  "drain fetch emit s = (case fetch s of (bs, s1) \<Rightarrow> if bs = [] then Some s1 else drain fetch emit (emit bs s1))"

section \<open>The shell\<close>

definition PROG_EDITOR :: u32 where "PROG_EDITOR = 2"
definition PROG_VIEWER :: u32 where "PROG_VIEWER = 3"
definition PROG_COPY :: u32 where "PROG_COPY = 4"
definition PROG_MONITOR :: u32 where "PROG_MONITOR = 5"
definition HALT_STATUS :: u32 where "HALT_STATUS = 42"
definition REBOOT_STATUS :: u32 where "REBOOT_STATUS = 43"
definition O_RDONLY :: u32 where "O_RDONLY = 0"
definition O_WRONLY :: u32 where "O_WRONLY = 1"
definition O_RDWR :: u32 where "O_RDWR = 2"
definition LINE :: nat where "LINE = 512"
definition READ_BUF :: nat where "READ_BUF = 4096"
definition LIST_BUF :: nat where "LIST_BUF = 2048"

definition u32_to_dec :: "u32 \<Rightarrow> u8 list" where
  "u32_to_dec n = (if n = 0 then [0x30] else u32_digits 12 (unat n) [])"

definition trim :: "u8 list \<Rightarrow> u8 list" where
  "trim line = rev (dropWhile (\<lambda>b. b = 0x20 \<or> b = 0x0D \<or> b = 0x0A) (rev (dropWhile (\<lambda>b. b = 0x20) line)))"

definition split_cmd :: "u8 list \<Rightarrow> u8 list \<times> u8 list" where
  "split_cmd line =
     (let i = length (takeWhile (\<lambda>b. b \<noteq> 0x20) line)
      in (take i line, if i < length line then trim (drop (i + 1) line) else []))"

definition parse_u32 :: "u8 list \<Rightarrow> u32 option" where
  "parse_u32 s =
     (if s = [] then None
      else fold (\<lambda>b r. case r of None \<Rightarrow> None | Some n \<Rightarrow> if b < 0x30 \<or> b > 0x39 then None else Some (n * 10 + ucast (b - 0x30))) s (Some 0))"

text \<open>\<open>run_program\<close>: the answers to \<open>sys_spawn\<close> and to the blocking \<open>sys_waitpid\<close>; its result is ignored by all callers.\<close>

definition run_program :: "u32 \<Rightarrow> prog \<Rightarrow> prog option" where
  "run_program n p =
     (case pg_kids p of
        [] \<Rightarrow> None
      | (pid, status) # ks \<Rightarrow>
          let p1 = p\<lparr>pg_kids := ks, pg_spawned := pg_spawned p @ [n]\<rparr>
          in Some (if sint pid < 0 then out_write (bytes ''shell: spawn failed'' @ crlf) p1 else p1))"

definition ps_state_name :: "u8 \<Rightarrow> u8 list" where
  "ps_state_name s =
     (if s = 0 then bytes ''empty    '' else if s = 1 then bytes ''runnable '' else if s = 2 then bytes ''running  ''
      else if s = 3 then bytes ''blocked  '' else if s = 4 then bytes ''dead     '' else bytes ''unknown  '')"

definition ps_row :: "u32 \<times> u8 \<Rightarrow> u8 list" where
  "ps_row q = (case q of (pid, st) \<Rightarrow>
     if pid = 0 then []
     else let pid_s = u32_to_dec pid in pid_s @ replicate (6 - length pid_s) 0x20 @ ps_state_name st @ crlf)"

definition cmd_ps :: "prog \<Rightarrow> prog option" where
  "cmd_ps p =
     (case pg_procs p of
        [] \<Rightarrow> None
      | r # rs \<Rightarrow>
          let p1 = p\<lparr>pg_procs := rs\<rparr>
          in Some (case r of
               None \<Rightarrow> out_write (bytes ''ps: error'' @ crlf) p1
             | Some infos \<Rightarrow> out_write (bytes ''PID   STATE'' @ crlf @ bytes ''----  -----'' @ crlf @ concat (map ps_row infos)) p1))"

definition cat_loop :: "u32 \<Rightarrow> prog \<Rightarrow> prog option" where
  "cat_loop fd = drain (file_read fd READ_BUF) out_write"

definition cmd_cat :: "u8 list \<Rightarrow> prog \<Rightarrow> prog option" where
  "cmd_cat name p =
     (if name = [] then Some (out_write (bytes ''usage: cat <file>'' @ crlf) p)
      else case file_open name O_RDONLY p of
             (Inl e, p1) \<Rightarrow> Some (out_write (bytes ''cat: cannot open file'' @ crlf) p1)
           | (Inr fd, p1) \<Rightarrow> Option.bind (cat_loop (ucast fd) p1) (\<lambda>p2. Some (file_close (ucast fd) (out_write crlf p2))))"

definition cmd_rm :: "u8 list \<Rightarrow> prog \<Rightarrow> prog" where
  "cmd_rm name p =
     (if name = [] then out_write (bytes ''usage: rm <file>'' @ crlf) p
      else case file_unlink name p of (ok, p1) \<Rightarrow> if ok then p1 else out_write (bytes ''rm: failed'' @ crlf) p1)"

definition cmd_ls :: "prog \<Rightarrow> prog" where
  "cmd_ls p =
     (case list_root LIST_BUF (vfs_fs (pg_vfs p)) of (bs, f) \<Rightarrow>
        out_write crlf (out_write bs (p\<lparr>pg_vfs := (pg_vfs p)\<lparr>vfs_fs := f\<rparr>\<rparr>)))"

definition cmd_help :: "prog \<Rightarrow> prog" where
  "cmd_help = out_write (concat
     [crlf @ bytes ''RogueOS shell commands:'' @ crlf @ crlf,
      bytes ''  help              -show this help'' @ crlf,
      bytes ''  ls                -list filesystem root'' @ crlf,
      bytes ''  cat <file>        -print file contents'' @ crlf,
      bytes ''  rm  <file>        -delete a file'' @ crlf,
      bytes ''  echo [text]       -print text'' @ crlf,
      bytes ''  ps                -show process table'' @ crlf,
      bytes ''  pwd               -print working directory'' @ crlf,
      bytes ''  clear             -clear the terminal'' @ crlf,
      bytes ''  editor [file]     -open text editor (id=2)'' @ crlf,
      bytes ''  viewer <file>     -view a file (id=3)'' @ crlf,
      bytes ''  copy <src> <dst>  -copy a file (id=4)'' @ crlf,
      bytes ''  monitor           -system monitor (id=5)'' @ crlf,
      bytes ''  run <id>          -spawn program by numeric id'' @ crlf,
      bytes ''  reboot            -reboot the system'' @ crlf,
      bytes ''  halt              -halt the system'' @ crlf,
      bytes ''  exit [code]       -exit shell'' @ crlf @ crlf])"

definition cmd_clear :: "prog \<Rightarrow> prog" where
  "cmd_clear = out_write ([0x1B] @ bytes ''[2J'' @ [0x1B] @ bytes ''[H'')"

text \<open>What a command does: the shell ends with a status, or goes on.\<close>

datatype sh_result = Exits u32 prog | GoesOn prog

definition goes_on :: "prog option \<Rightarrow> sh_result option" where
  "goes_on r = map_option GoesOn r"

definition sh_command :: "u8 list \<Rightarrow> u8 list \<Rightarrow> prog \<Rightarrow> sh_result option" where
  "sh_command cmd rest p =
     (if cmd = bytes ''exit'' then Some (Exits (case parse_u32 rest of None \<Rightarrow> 0 | Some n \<Rightarrow> n) p)
      else if cmd = bytes ''halt'' then Some (Exits HALT_STATUS (out_write (bytes ''Halting...'' @ crlf) p))
      else if cmd = bytes ''reboot'' then Some (Exits REBOOT_STATUS (out_write (bytes ''Rebooting...'' @ crlf) p))
      else goes_on
       (if cmd = bytes ''help'' then Some (cmd_help p)
        else if cmd = bytes ''clear'' then Some (cmd_clear p)
        else if cmd = bytes ''echo'' then Some (out_write crlf (out_write rest p))
        else if cmd = bytes ''pwd'' then Some (out_write (bytes ''/'' @ crlf) p)
        else if cmd = bytes ''ls'' then Some (cmd_ls p)
        else if cmd = bytes ''ps'' then cmd_ps p
        else if cmd = bytes ''cat'' then cmd_cat rest p
        else if cmd = bytes ''rm'' then Some (cmd_rm rest p)
        else if cmd = bytes ''editor'' \<or> cmd = bytes ''ed'' then run_program PROG_EDITOR p
        else if cmd = bytes ''viewer'' \<or> cmd = bytes ''view'' then run_program PROG_VIEWER p
        else if cmd = bytes ''copy'' \<or> cmd = bytes ''cp'' then run_program PROG_COPY p
        else if cmd = bytes ''monitor'' \<or> cmd = bytes ''top'' then run_program PROG_MONITOR p
        else if cmd = bytes ''run''
             then (case parse_u32 rest of
                     Some n \<Rightarrow> run_program n p
                   | None \<Rightarrow> Some (out_write (bytes ''run: usage: run <program_id>'' @ crlf) p))
        else Some (out_write (bytes ''shell: unknown command: '' @ cmd @ crlf @ bytes ''       (type '' @ [0x27] @ bytes ''help'' @ [0x27] @
               bytes '' for a list of commands)'' @ crlf) p)))"

definition sh_prompt :: "u8 list" where "sh_prompt = bytes ''/ $ ''"

definition sh_turn :: "prog \<Rightarrow> sh_result option" where
  "sh_turn p =
     Option.bind (line_read LINE (out_write sh_prompt p)) (\<lambda>(bs, p1).
       let line = trim bs
       in if bs = [] \<or> line = [] then Some (GoesOn p1) else case split_cmd line of (cmd, rest) \<Rightarrow> sh_command cmd rest p1)"

partial_function (option) sh_loop :: "prog \<Rightarrow> (u32 \<times> prog) option" where
  "sh_loop p = Option.bind (sh_turn p) (\<lambda>r. case r of Exits st p1 \<Rightarrow> Some (st, p1) | GoesOn p1 \<Rightarrow> sh_loop p1)"

definition sh_start :: "prog \<Rightarrow> (u32 \<times> prog) option" where
  "sh_start p = sh_loop (out_write (bytes ''RogueOS shell. Type '' @ [0x27] @ bytes ''help'' @ [0x27] @ bytes '' for commands.'' @ crlf @ crlf) (cmd_clear p))"

section \<open>Editor, viewer, copy and monitor\<close>

definition LINE_SIZE :: nat where "LINE_SIZE = 256"
definition BUF_SIZE :: nat where "BUF_SIZE = 512"

definition trim_crlf :: "u8 list \<Rightarrow> nat \<Rightarrow> nat" where
  "trim_crlf line len = length (dropWhile (\<lambda>b. b = 0x0D \<or> b = 0x0A) (rev (take len line)))"

text \<open>The name read after the prompt, cut at the first zero as the kernel reads it; \<open>Inl\<close> for a status to exit with.\<close>

definition ask_name :: "u8 list \<Rightarrow> prog \<Rightarrow> ((u32 + u8 list) \<times> prog) option" where
  "ask_name prompt p =
     Option.bind (line_read LINE_SIZE (out_write prompt p)) (\<lambda>(line, p1).
       if line = [] then Some (Inl 1, p1)
       else let len = trim_crlf line (length line)
            in if len = 0 \<or> len \<ge> 32 then Some (Inl 1, out_write (bytes ''name too long'' @ [0x0A]) p1)
               else Some (Inr (takeWhile (\<lambda>b. b \<noteq> 0) (take len line)), p1))"

definition viewer_loop :: "u32 \<Rightarrow> prog \<Rightarrow> prog option" where
  "viewer_loop fd = drain (file_read fd BUF_SIZE) out_write"

definition viewer_start :: "prog \<Rightarrow> (u32 \<times> prog) option" where
  "viewer_start p =
     Option.bind (ask_name (bytes ''file: '') p) (\<lambda>r. case r of
       (Inl st, p1) \<Rightarrow> Some (st, p1)
     | (Inr name, p1) \<Rightarrow>
         (case file_open name O_RDONLY p1 of
            (Inl e, p2) \<Rightarrow> Some (1, out_write (bytes ''open failed'' @ [0x0A]) p2)
          | (Inr fd, p2) \<Rightarrow> Option.bind (viewer_loop (ucast fd) p2) (\<lambda>p3. Some (0, file_close (ucast fd) p3))))"

partial_function (option) editor_loop :: "u32 \<Rightarrow> prog \<Rightarrow> prog option" where
  "editor_loop fd p =
     Option.bind (line_read LINE_SIZE (out_write (bytes ''> '') p)) (\<lambda>(line, p1).
       if line = [] then Some p1
       else let len = trim_crlf line (length line)
            in if len = 4 \<and> take 4 line = bytes ''exit'' then Some p1
               else editor_loop fd (file_write fd [0x0A] (file_write fd (take len line) p1)))"

definition editor_start :: "prog \<Rightarrow> (u32 \<times> prog) option" where
  "editor_start p =
     Option.bind (ask_name (bytes ''file: '') p) (\<lambda>r. case r of
       (Inl st, p1) \<Rightarrow> Some (st, p1)
     | (Inr name, p1) \<Rightarrow>
         (case file_open name (O_RDWR OR O_CREAT) p1 of
            (Inl e, p2) \<Rightarrow> Some (1, out_write (bytes ''open failed'' @ [0x0A]) p2)
          | (Inr fd, p2) \<Rightarrow> Option.bind (editor_loop (ucast fd) p2) (\<lambda>p3. Some (0, file_close (ucast fd) p3))))"

definition read_filename :: "u8 list \<Rightarrow> prog \<Rightarrow> (u8 list option \<times> prog) option" where
  "read_filename prompt p =
     Option.bind (line_read 256 (out_write prompt p)) (\<lambda>(line, p1).
       let len = trim_crlf line (length line)
       in Some (if line = [] \<or> len \<ge> 32 then None else Some (takeWhile (\<lambda>b. b \<noteq> 0) (take len line)), p1))"

definition copy_loop :: "u32 \<Rightarrow> u32 \<Rightarrow> prog \<Rightarrow> prog option" where
  "copy_loop src_fd dst_fd = drain (file_read src_fd BUF_SIZE) (file_write dst_fd)"

definition copy_files :: "u8 list \<Rightarrow> u8 list \<Rightarrow> prog \<Rightarrow> (u32 \<times> prog) option" where
  "copy_files src_name dst_name p =
     (case file_open src_name O_RDONLY p of
        (Inl e, p1) \<Rightarrow> Some (1, out_write (bytes ''open src failed'' @ [0x0A]) p1)
      | (Inr src_fd, p1) \<Rightarrow>
          (case file_open dst_name (O_WRONLY OR O_CREAT) p1 of
             (Inl e, p2) \<Rightarrow> Some (1, out_write (bytes ''open dst failed'' @ [0x0A]) (file_close (ucast src_fd) p2))
           | (Inr dst_fd, p2) \<Rightarrow>
               Option.bind (copy_loop (ucast src_fd) (ucast dst_fd) p2) (\<lambda>p3.
                 Some (0, file_close (ucast dst_fd) (file_close (ucast src_fd) p3)))))"

definition copy_start :: "prog \<Rightarrow> (u32 \<times> prog) option" where
  "copy_start p =
     Option.bind (read_filename (bytes ''src: '') p) (\<lambda>(src_name, p1).
       case src_name of
         None \<Rightarrow> Some (1, out_write (bytes ''bad input'' @ [0x0A]) p1)
       | Some src \<Rightarrow>
           Option.bind (read_filename (bytes ''dst: '') p1) (\<lambda>(dst_name, p2).
             case dst_name of
               None \<Rightarrow> Some (1, out_write (bytes ''bad input'' @ [0x0A]) p2)
             | Some dst \<Rightarrow> copy_files src dst p2))"

definition STATE_NAMES :: "u8 list list" where
  "STATE_NAMES = [bytes ''Empty'', bytes ''Runnable'', bytes ''Running'', bytes ''Blocked'', bytes ''Dead'']"

definition monitor_row :: "u32 \<times> u8 \<Rightarrow> u8 list" where
  "monitor_row q = (case q of (pid, st) \<Rightarrow>
     let name = (if unat st < 5 then STATE_NAMES ! unat st else bytes ''?'')
     in (if pid \<ge> 100 then [0x30 + ucast (pid div 100)] else []) @ (if pid \<ge> 10 then [0x30 + ucast (pid div 10 mod 10)] else []) @
        [0x30 + ucast (pid mod 10), 0x20, 0x20] @ name @ [0x0A])"

definition monitor_start :: "prog \<Rightarrow> (u32 \<times> prog) option" where
  "monitor_start p =
     (case pg_procs p of
        [] \<Rightarrow> None
      | r # rs \<Rightarrow>
          let p1 = p\<lparr>pg_procs := rs\<rparr>
          in Some (case r of
               None \<Rightarrow> (1, out_write (bytes ''get_proc_info failed'') p1)
             | Some infos \<Rightarrow> (0, out_write (bytes ''pid   state'' @ [0x0A] @ concat (map monitor_row infos)) p1)))"

section \<open>Emptying a source into a sink\<close>

text \<open>
  The contract under which \<open>drain\<close> moves everything: what a fetch delivers comes off the front of the rest of the source, and emitting it
  puts it behind what the sink has; nothing is delivered only at the end.
\<close>

locale pump =
  fixes fetch :: "'s \<Rightarrow> u8 list \<times> 's" and emit :: "u8 list \<Rightarrow> 's \<Rightarrow> 's" and ready :: "'s \<Rightarrow> bool"
    and rest got :: "'s \<Rightarrow> u8 list"
  assumes ends: "ready s \<Longrightarrow> fetch s = ([], s1) \<Longrightarrow> rest s = [] \<and> ready s1 \<and> got s1 = got s"
    and moves: "ready s \<Longrightarrow> fetch s = (bs, s1) \<Longrightarrow> bs \<noteq> [] \<Longrightarrow>
      ready (emit bs s1) \<and> rest s = bs @ rest (emit bs s1) \<and> got (emit bs s1) = got s @ bs"
begin

lemma pumped: "ready s \<Longrightarrow> \<exists>s'. drain fetch emit s = Some s' \<and> ready s' \<and> got s' = got s @ rest s"
proof (induction "length (rest s)" arbitrary: s rule: less_induct)
  case less
  obtain bs s1 where f: "fetch s = (bs, s1)" by fastforce
  show ?case
  proof (cases "bs = []")
    case True
    then show ?thesis using ends [OF less.prems] f by (subst drain.simps) simp
  next
    case False
    note m = moves [OF less.prems f False]
    have "length (rest (emit bs s1)) < length (rest s)" using m False by simp
    from less.hyps [OF this] m obtain s' where "drain fetch emit (emit bs s1) = Some s'" "ready s'" "got s' = got s @ rest s"
      by auto
    then show ?thesis using f False by (subst drain.simps) simp
  qed
qed

end

section \<open>Files by their contents\<close>

definition file_bytes :: "fsys \<Rightarrow> nat \<Rightarrow> u8 list" where
  "file_bytes f i = map (fbyte f (rec_start (table f) i)) [0..<unat (rec_size (table f) i)]"

definition content :: "u8 list \<Rightarrow> fsys \<Rightarrow> u8 list option" where
  "content name f = map_option (file_bytes f) (fst (find_file_by_name name f))"

text \<open>Slot \<open>k\<close> of the descriptor table has the file \<open>i\<close> open at position \<open>m\<close>.\<close>

definition open_at :: "nat \<Rightarrow> nat \<Rightarrow> nat \<Rightarrow> vfs \<Rightarrow> bool" where
  "open_at k i m v \<longleftrightarrow> k < MAX_OPEN \<and> length (FD_TABLE v) = MAX_OPEN \<and> calm (vfs_fs v) \<and> ROOT_MOUNTED (vfs_fs v) \<and> i < MAX_FILE_RECORDS \<and>
     rec_start (table (vfs_fs v)) i \<noteq> 0 \<and> file_index (FD_TABLE v ! k) = Some i \<and> fd_offset (FD_TABLE v ! k) = of_nat m \<and> m < 2 ^ 32"

definition moved_to :: "nat \<Rightarrow> nat \<Rightarrow> vfs \<Rightarrow> vfs" where
  "moved_to k m v = v\<lparr>FD_TABLE := (FD_TABLE v)[k := (FD_TABLE v ! k)\<lparr>fd_offset := of_nat m\<rparr>]\<rparr>"

lemma moved_to_open [simp]:
  "vfs_fs (moved_to k m v) = vfs_fs v" "length (FD_TABLE (moved_to k m v)) = length (FD_TABLE v)"
  "k < length (FD_TABLE v) \<Longrightarrow> FD_TABLE (moved_to k m v) ! j = (if j = k then (FD_TABLE v ! k)\<lparr>fd_offset := of_nat m\<rparr> else FD_TABLE v ! j)"
  by (auto simp: moved_to_def)

lemma length_file_bytes [simp]: "length (file_bytes f i) = unat (rec_size (table f) i)"
  by (simp add: file_bytes_def)

text \<open>A read delivers the next bytes of the file and moves the position behind them.\<close>

lemma read_file_open_at:
  assumes o: "open_at k i m v" and n: "0 < n" "n < 2 ^ 32" and m: "m \<le> length (file_bytes (vfs_fs v) i)"
  shows "read_file (FIRST_FD + of_nat k) n v =
    (take n (drop m (file_bytes (vfs_fs v) i)), moved_to k (m + length (take n (drop m (file_bytes (vfs_fs v) i)))) v)"
proof -
  let ?f = "vfs_fs v" and ?sz = "unat (rec_size (table (vfs_fs v)) i)" and ?st = "rec_start (table (vfs_fs v)) i"
  have ok: "calm ?f" "ROOT_MOUNTED ?f" "i < MAX_FILE_RECORDS" "?st \<noteq> 0" "m < 2 ^ 32" and slot: "fd_to_slot (FIRST_FD + of_nat k) = Some k"
    using o by (auto simp: open_at_def fd_to_slot_of)
  have um: "unat (of_nat m :: u32) = m" using ok(5) by (simp add: unat_of_nat)
  have "read_file_data i (of_nat m) n ?f = (take n (drop m (file_bytes ?f i)), ?f)"
  proof (cases "m < ?sz")
    case True
    let ?c = "min n (?sz - m)"
    have c: "read_file_data i (of_nat m) ?c ?f = (map (fbyte ?f ?st) [m..<m + ?c], ?f)"
      using read_file_data_calm [OF ok(1-3) refl ok(4), of "of_nat m" ?c] True n by (simp add: um)
    have "min (rec_size (table ?f) i - of_nat m) (of_nat n) = min (rec_size (table ?f) i - of_nat m) (of_nat ?c :: u32)"
    proof -
      have "unat (rec_size (table ?f) i - of_nat m) = ?sz - m" using True by (simp add: unat_sub word_le_nat_alt um)
      then show ?thesis using n by (auto simp: min_def word_le_nat_alt unat_of_nat word_unat_eq_iff)
    qed
    then have "read_file_data i (of_nat m) n ?f = read_file_data i (of_nat m) ?c ?f"
      using ok by (simp add: read_file_data_def get_info_calm)
    moreover have "map (fbyte ?f ?st) [m..<m + ?c] = take n (drop m (file_bytes ?f i))"
      using True by (intro nth_equalityI) (auto simp: file_bytes_def)
    ultimately show ?thesis using c by simp
  next
    case False
    then have "\<not> (of_nat m :: u32) < rec_size (table ?f) i" by (simp add: word_less_nat_alt um)
    then show ?thesis using ok False by (simp add: read_file_data_def get_info_calm not_less)
  qed
  then show ?thesis using o slot by (simp add: read_file_def open_at_def moved_to_def)
qed

text \<open>Showing a file: the file system \<open>f\<close> stays as it is while file \<open>i\<close> is read through slot \<open>k\<close>.\<close>

definition position :: "nat \<Rightarrow> prog \<Rightarrow> nat" where
  "position k p = unat (fd_offset (FD_TABLE (pg_vfs p) ! k))"

definition showing :: "nat \<Rightarrow> nat \<Rightarrow> nat \<Rightarrow> prog \<Rightarrow> prog \<Rightarrow> bool" where
  "showing n k i p0 p \<longleftrightarrow> 0 < n \<and> n < 2 ^ 32 \<and> open_at k i (position k p) (pg_vfs p) \<and> position k p \<le> length (file_bytes (vfs_fs (pg_vfs p)) i) \<and>
     p = p0\<lparr>pg_out := pg_out p, pg_vfs := moved_to k (position k p) (pg_vfs p0)\<rparr>"

lemma position_moved [simp]: "k < length (FD_TABLE v) \<Longrightarrow> m < 2 ^ 32 \<Longrightarrow> position k (p\<lparr>pg_vfs := moved_to k m v\<rparr>) = m"
  by (simp add: position_def unat_of_nat)

lemma open_at_moved: "open_at k i m v \<Longrightarrow> m' < 2 ^ 32 \<Longrightarrow> open_at k i m' (moved_to k m' v)"
  by (simp add: open_at_def)

lemma open_at_moved_other: "open_at k i m v \<Longrightarrow> k \<noteq> j \<Longrightarrow> j < MAX_OPEN \<Longrightarrow> open_at k i m (moved_to j m' v)"
  by (simp add: open_at_def)

lemma moved_to_twice [simp]: "k < length (FD_TABLE v) \<Longrightarrow> moved_to k m (moved_to k m' v) = moved_to k m v"
  by (simp add: moved_to_def)

lemma showing_read:
  assumes "showing n k i p0 p" "file_read (FIRST_FD + of_nat k) n p = (bs, p1)"
  defines "rest \<equiv> drop (position k p) (file_bytes (vfs_fs (pg_vfs p0)) i)"
  shows "bs = take n rest \<and> showing n k i p0 (out_write out p1) \<and> position k (out_write out p1) = position k p + length bs \<and> pg_out p1 = pg_out p"
proof -
  let ?m = "position k p"
  have o: "open_at k i ?m (pg_vfs p)" "?m \<le> length (file_bytes (vfs_fs (pg_vfs p)) i)" and n: "0 < n" "n < 2 ^ 32"
    and p: "p = p0\<lparr>pg_out := pg_out p, pg_vfs := moved_to k ?m (pg_vfs p0)\<rparr>" using assms(1) by (auto simp: showing_def)
  have v: "pg_vfs p = moved_to k ?m (pg_vfs p0)" by (subst p) simp
  have f: "vfs_fs (pg_vfs p) = vfs_fs (pg_vfs p0)" unfolding v by simp
  let ?m' = "?m + length (take n rest)"
  have b: "?m' \<le> length (file_bytes (vfs_fs (pg_vfs p)) i)" using o(2) by (simp add: rest_def f)
  then have lt: "?m' < 2 ^ 32" using unsigned_less [of "rec_size (table (vfs_fs (pg_vfs p))) i", where 'a = nat] by simp
  have k: "k < length (FD_TABLE (pg_vfs p))" using o(1) by (simp add: open_at_def)
  have r: "bs = take n rest" "p1 = p\<lparr>pg_vfs := moved_to k ?m' (pg_vfs p)\<rparr>"
    using assms(2) read_file_open_at [OF o(1) n o(2)] by (auto simp: file_read_def rest_def f)
  have pos: "position k (out_write out p1) = ?m'" using position_moved [OF k lt, of p] by (simp add: r(2) out_write_def position_def)
  have "out_write out p1 = p0\<lparr>pg_out := pg_out (out_write out p1), pg_vfs := moved_to k ?m' (pg_vfs p0)\<rparr>"
  proof -
    have "out_write out p1 = p\<lparr>pg_vfs := moved_to k ?m' (pg_vfs p0), pg_out := pg_out p @ out\<rparr>"
      using k by (simp add: r(2) out_write_def v)
    also have "\<dots> = p0\<lparr>pg_out := pg_out p @ out, pg_vfs := moved_to k ?m' (pg_vfs p0)\<rparr>" by (subst (1) p) simp
    finally show ?thesis by (simp add: out_write_def r(2))
  qed
  moreover have "pg_vfs (out_write out p1) = moved_to k ?m' (pg_vfs p)" by (simp add: r out_write_def)
  ultimately show ?thesis
    using pos n b r(1) open_at_moved [OF o(1) lt] by (simp add: showing_def r(2) f out_write_def)
qed

lemma taken_append: "bs = take n xs \<Longrightarrow> bs @ drop (length bs) xs = xs"
  by (cases "n \<le> length xs") simp_all

interpretation shown: pump "file_read (FIRST_FD + of_nat k) n" out_write "showing n k i p0"
    "\<lambda>p. drop (position k p) (file_bytes (vfs_fs (pg_vfs p0)) i)" pg_out for n k i p0
proof (unfold_locales, goal_cases)
  case (1 s s1)
  note r = showing_read [OF 1, where out = "[]"]
  have "0 < n" using 1(1) by (simp add: showing_def)
  moreover have "out_write [] s1 = s1" by (simp add: out_write_def)
  ultimately show ?case using r by auto
next
  case (2 s bs s1)
  note r = showing_read [OF 2(1,2), where out = bs]
  let ?R = "drop (position k s) (file_bytes (vfs_fs (pg_vfs p0)) i)"
  have "bs = take n ?R" using r by simp
  then have "bs @ drop (length bs) ?R = ?R" by (rule taken_append)
  moreover have "position k (out_write bs s1) = position k s + length bs" using r by blast
  then have "drop (length bs) ?R = drop (position k (out_write bs s1)) (file_bytes (vfs_fs (pg_vfs p0)) i)"
    by (simp only: drop_drop add.commute)
  moreover have "pg_out (out_write bs s1) = pg_out s @ bs" using r by (simp add: out_write_def)
  ultimately show ?case using r by metis
qed

text \<open>Opening an existing file, and the descriptor table after closing it again.\<close>

lemma path_arg_name: "path_arg bs = Ok name \<Longrightarrow> 47 \<notin> set name \<and> length name \<le> 31 \<and> name \<noteq> []"
  by (auto simp: path_arg_def path_name_def Let_def split: if_splits dest!: set_takeWhileD)

lemma file_open_existing:
  assumes ok: "vfs_ok (pg_vfs p)" and name: "path_arg bs = Ok name" and i: "fst (find_file_by_name name (vfs_fs (pg_vfs p))) = Some i"
    and free: "\<exists>k<MAX_OPEN. file_index (FD_TABLE (pg_vfs p) ! k) = None"
  obtains k p1 where "file_open bs flags p = (Ok (ucast (FIRST_FD + of_nat k :: u32)), p1)" "k < MAX_OPEN" "file_index (FD_TABLE (pg_vfs p) ! k) = None"
    "open_at k i 0 (pg_vfs p1)" "vfs_fs (pg_vfs p1) = vfs_fs (pg_vfs p)" "vfs_ok (pg_vfs p1)"
    "\<exists>e. p1 = p\<lparr>pg_vfs := (pg_vfs p)\<lparr>FD_TABLE := (FD_TABLE (pg_vfs p))[k := e]\<rparr>\<rparr>"
proof -
  let ?v = "pg_vfs p"
  have c: "calm (vfs_fs ?v)" "ROOT_MOUNTED (vfs_fs ?v)" "length (FD_TABLE ?v) = MAX_OPEN" using ok by (auto simp: vfs_ok_def)
  have f: "find_file_by_name name (vfs_fs ?v) = (Some i, vfs_fs ?v)" using find_calm(1) [OF c(1)] i by (metis prod.collapse)
  obtain k where k: "first_index (\<lambda>e. file_index e = None) (FD_TABLE ?v) = Some k"
    using free c(3) by (cases "first_index (\<lambda>e. file_index e = None) (FD_TABLE ?v)") (auto dest!: first_index_NoneD)
  note kd = first_index_SomeD [OF k]
  let ?e = "\<lparr>file_index = Some i, fd_offset = 0, owner_pid = (if pg_pid p \<noteq> 0 then Some (pg_pid p) else None)\<rparr>"
  have o: "vfs_open name flags (pg_pid p) ?v = (Some (FIRST_FD + of_nat k), ?v\<lparr>FD_TABLE := (FD_TABLE ?v)[k := ?e]\<rparr>)" (is "_ = (_, ?v1)")
    using c k f path_arg_name [OF name] by (simp add: vfs_open_def Let_def)
  note ib = find_calm(2) [OF c(1) f]
  have ok1: "vfs_ok ?v1" using vfs_open_Some [OF ok o] by blast
  show ?thesis
  proof (rule that)
    show "file_open bs flags p = (Ok (ucast (FIRST_FD + of_nat k :: u32)), p\<lparr>pg_vfs := ?v1\<rparr>)" using name o by (simp add: file_open_def)
    show "open_at k i 0 (pg_vfs (p\<lparr>pg_vfs := ?v1\<rparr>))" using c kd ib by (simp add: open_at_def)
    show "vfs_ok (pg_vfs (p\<lparr>pg_vfs := ?v1\<rparr>))" using ok1 by simp
  qed (use c kd in auto)
qed

lemma ucast_fd [simp]: "(ucast (ucast (fd :: u32) :: u64) :: u32) = fd"
  by (rule bit_word_eqI) (simp add: bit_simps)

text \<open>Closing the descriptor of slot \<open>k\<close>, which was free at first.\<close>

lemma close_restores:
  assumes "k < MAX_OPEN" "length (FD_TABLE v) = MAX_OPEN" "file_index (FD_TABLE v ! k) = None" "length (FD_TABLE w) = MAX_OPEN"
    "\<And>j. j < MAX_OPEN \<Longrightarrow> j \<noteq> k \<Longrightarrow> FD_TABLE w ! j = FD_TABLE v ! j \<or> file_index (FD_TABLE w ! j) = None \<and> file_index (FD_TABLE v ! j) = None"
  shows "fd_entry_of fd (snd (vfs_close (FIRST_FD + of_nat k) w)) = fd_entry_of fd v"
    "vfs_fs (snd (vfs_close (FIRST_FD + of_nat k) w)) = vfs_fs w"
proof -
  let ?w = "snd (vfs_close (FIRST_FD + of_nat k) w)"
  have t: "FD_TABLE ?w = (FD_TABLE w)[k := (FD_TABLE w ! k)\<lparr>file_index := None, owner_pid := None\<rparr>]" "vfs_fs ?w = vfs_fs w"
    using assms(1) by (simp_all add: vfs_close_def fd_to_slot_of Let_def)
  show "vfs_fs ?w = vfs_fs w" by fact
  show "fd_entry_of fd ?w = fd_entry_of fd v"
  proof (cases "fd_to_slot fd")
    case (Some j)
    then have "j < MAX_OPEN" using fd_to_slot_bound by blast
    then show ?thesis using assms(1-4) assms(5) [of j] Some t by (cases "j = k") (auto simp: fd_entry_of_def)
  qed (simp add: fd_entry_of_def)
qed

lemma fd_ge_3: "k < MAX_OPEN \<Longrightarrow> \<not> (FIRST_FD + of_nat k :: u32) < 3"
  by (auto simp: MAX_OPEN_def FIRST_FD_def word_less_nat_alt unat_word_ariths unat_of_nat)

lemma drain_shows:
  assumes "open_at k i 0 (pg_vfs p)" "0 < n" "n < 2 ^ 32"
  shows "\<exists>m. drain (file_read (FIRST_FD + of_nat k) n) out_write p =
    Some (p\<lparr>pg_out := pg_out p @ file_bytes (vfs_fs (pg_vfs p)) i, pg_vfs := moved_to k m (pg_vfs p)\<rparr>)"
proof -
  have z: "fd_offset (FD_TABLE (pg_vfs p) ! k) = 0" "k < length (FD_TABLE (pg_vfs p))" using assms(1) by (auto simp: open_at_def)
  have e: "(FD_TABLE (pg_vfs p) ! k)\<lparr>fd_offset := 0\<rparr> = FD_TABLE (pg_vfs p) ! k" using z(1) by (metis fd_entry.surjective fd_entry.update_convs(2))
  have pos: "position k p = 0" using z(1) by (simp add: position_def)
  have "moved_to k 0 (pg_vfs p) = pg_vfs p" using z(2) by (simp add: moved_to_def e)
  then have "showing n k i p p" using assms pos by (simp add: showing_def)
  from shown.pumped [OF this] pos obtain p' where p': "drain (file_read (FIRST_FD + of_nat k) n) out_write p = Some p'"
    "showing n k i p p'" "pg_out p' = pg_out p @ file_bytes (vfs_fs (pg_vfs p)) i" by auto
  then have "p' = p\<lparr>pg_out := pg_out p', pg_vfs := moved_to k (position k p') (pg_vfs p)\<rparr>" by (simp add: showing_def)
  then have "p' = p\<lparr>pg_out := pg_out p @ file_bytes (vfs_fs (pg_vfs p)) i, pg_vfs := moved_to k (position k p') (pg_vfs p)\<rparr>" unfolding p'(3) .
  then show ?thesis unfolding p'(1) option.inject ..
qed

section \<open>Showing a file\<close>

text \<open>A typed line: the name and the return key.\<close>

definition plain_name :: "u8 list \<Rightarrow> bool" where
  "plain_name bs \<longleftrightarrow> bs \<noteq> [] \<and> length bs < 32 \<and> (\<forall>b \<in> set bs. b \<noteq> 0 \<and> b \<noteq> 0x0A \<and> b \<noteq> 0x0D)"

lemma trim_crlf_line: "plain_name bs \<Longrightarrow> trim_crlf (bs @ [0x0D]) (length (bs @ [0x0D])) = length bs"
proof -
  assume "plain_name bs"
  then have "dropWhile (\<lambda>b. b = 0x0D \<or> b = 0x0A) (rev bs) = rev bs"
    by (cases "rev bs") (auto simp: plain_name_def)
  then show ?thesis by (simp add: trim_crlf_def)
qed

lemma plain_takeWhile: "plain_name bs \<Longrightarrow> takeWhile (\<lambda>b. b \<noteq> 0) bs = bs"
  by (auto simp: plain_name_def takeWhile_eq_all_conv)

lemma line_read_all: "pg_in p = l # ls \<Longrightarrow> length l \<le> n \<Longrightarrow> line_read n p = Some (l, p\<lparr>pg_in := ls\<rparr>)"
  by (simp add: line_read_def)

lemma ask_name_line:
  assumes "plain_name bs" "pg_in p = (bs @ [0x0D]) # ls"
  shows "ask_name prompt p = Some (Inr bs, out_write prompt (p\<lparr>pg_in := ls\<rparr>))"
  using assms trim_crlf_line [OF assms(1)] plain_takeWhile [OF assms(1)]
  by (auto simp: ask_name_def line_read_all out_write_def LINE_SIZE_def plain_name_def)

lemma content_index: "content name f = Some c \<Longrightarrow> \<exists>i. fst (find_file_by_name name f) = Some i \<and> c = file_bytes f i"
  by (auto simp: content_def)

text \<open>What a program that shows a file leaves behind: the output, and the files and descriptors as they were.\<close>

definition shown_and_closed :: "u8 list \<Rightarrow> prog \<Rightarrow> prog \<Rightarrow> bool" where
  "shown_and_closed bs p p' \<longleftrightarrow> pg_out p' = pg_out p @ bs \<and> vfs_fs (pg_vfs p') = vfs_fs (pg_vfs p) \<and>
     (\<forall>fd. fd_entry_of fd (pg_vfs p') = fd_entry_of fd (pg_vfs p))"

lemma show_session:
  assumes ok: "vfs_ok (pg_vfs p)" and name: "path_arg bs = Ok name" and c: "content name (vfs_fs (pg_vfs p)) = Some c"
    and free: "\<exists>k<MAX_OPEN. file_index (FD_TABLE (pg_vfs p) ! k) = None" and n: "0 < n" "n < 2 ^ 32"
  obtains fd p1 p2 where "file_open bs flags p = (Ok (ucast (fd :: u32)), p1)" "drain (file_read fd n) out_write p1 = Some p2"
    "\<And>after. shown_and_closed (c @ after) p (file_close fd (out_write after p2))"
proof -
  obtain i where i: "fst (find_file_by_name name (vfs_fs (pg_vfs p))) = Some i" "c = file_bytes (vfs_fs (pg_vfs p)) i"
    using content_index [OF c] by blast
  obtain k p1 e where o: "file_open bs flags p = (Ok (ucast (FIRST_FD + of_nat k :: u32)), p1)" "k < MAX_OPEN"
    "file_index (FD_TABLE (pg_vfs p) ! k) = None" "open_at k i 0 (pg_vfs p1)" "vfs_fs (pg_vfs p1) = vfs_fs (pg_vfs p)"
    "p1 = p\<lparr>pg_vfs := (pg_vfs p)\<lparr>FD_TABLE := (FD_TABLE (pg_vfs p))[k := e]\<rparr>\<rparr>"
    using file_open_existing [OF ok name i(1) free] by metis
  obtain m where m: "drain (file_read (FIRST_FD + of_nat k) n) out_write p1 =
      Some (p1\<lparr>pg_out := pg_out p1 @ c, pg_vfs := moved_to k m (pg_vfs p1)\<rparr>)" (is "_ = Some ?p2")
    using drain_shows [OF o(4) n] o(5) i(2) by auto
  have len: "length (FD_TABLE (pg_vfs p)) = MAX_OPEN" using ok by (simp add: vfs_ok_def)
  have r: "fd_entry_of fd (snd (vfs_close (FIRST_FD + of_nat k) (moved_to k m (pg_vfs p1)))) = fd_entry_of fd (pg_vfs p)"
    "vfs_fs (snd (vfs_close (FIRST_FD + of_nat k) (moved_to k m (pg_vfs p1)))) = vfs_fs (pg_vfs p)" for fd
    using close_restores [OF o(2) len o(3), of "moved_to k m (pg_vfs p1)"] o(2,5) len by (simp_all add: o(6))
  show ?thesis
  proof (rule that [OF o(1) m])
    fix after
    show "shown_and_closed (c @ after) p (file_close (FIRST_FD + of_nat k) (out_write after ?p2))"
      using r fd_ge_3 [OF o(2)] by (simp add: shown_and_closed_def file_close_def out_write_def o(6))
  qed
qed

text \<open>the shell's \<open>cat\<close> and the viewer show files. When a file of the given name exists and a descriptor is free, \<open>cat\<close> prints
  exactly the contents of the file and a line end, the viewer asks for the name and prints exactly the contents, both return, and
  leave the file system and the table of open files as they were.\<close>

theorem file_is_shown:
  assumes "vfs_ok (pg_vfs p)" "path_arg bs = Ok name" "content name (vfs_fs (pg_vfs p)) = Some c"
    "\<exists>k<MAX_OPEN. file_index (FD_TABLE (pg_vfs p) ! k) = None"
  shows "(\<exists>p'. cmd_cat bs p = Some p' \<and> shown_and_closed (c @ crlf) p p') \<and>
    (plain_name bs \<and> pg_in p = (bs @ [0x0D]) # ls \<longrightarrow>
       (\<exists>p'. viewer_start p = Some (0, p') \<and> shown_and_closed (bytes ''file: '' @ c) p p'))"
proof -
  have ne: "bs \<noteq> []" using assms(2) by (auto simp: path_arg_def)
  obtain fd p1 p2 where cat: "file_open bs O_RDONLY p = (Ok (ucast (fd :: u32)), p1)" "drain (file_read fd READ_BUF) out_write p1 = Some p2"
    "\<And>after. shown_and_closed (c @ after) p (file_close fd (out_write after p2))"
    by (rule show_session [OF assms, of READ_BUF O_RDONLY]) (auto simp: READ_BUF_def)
  have v: "\<exists>p'. viewer_start p = Some (0, p') \<and> shown_and_closed (bytes ''file: '' @ c) p p'"
    if l: "plain_name bs" "pg_in p = (bs @ [0x0D]) # ls"
  proof -
    let ?p = "out_write (bytes ''file: '') (p\<lparr>pg_in := ls\<rparr>)"
    have v: "pg_vfs ?p = pg_vfs p" by (simp add: out_write_def)
    obtain fd p1 p2 where vw: "file_open bs O_RDONLY ?p = (Ok (ucast (fd :: u32)), p1)" "drain (file_read fd BUF_SIZE) out_write p1 = Some p2"
      "\<And>after. shown_and_closed (c @ after) ?p (file_close fd (out_write after p2))"
      by (rule show_session [of ?p bs name c BUF_SIZE O_RDONLY]) (use assms v in \<open>auto simp: BUF_SIZE_def\<close>)
    have "viewer_start p = Some (0, file_close fd p2)"
      by (simp add: viewer_start_def ask_name_line [OF l] vw(1,2) viewer_loop_def)
    moreover have "shown_and_closed (bytes ''file: '' @ c) p (file_close fd p2)"
      using vw(3) [of "[]"] by (simp add: shown_and_closed_def out_write_def)
    ultimately show ?thesis by blast
  qed
  have "cmd_cat bs p = Some (file_close fd (out_write crlf p2))"
    using ne cat(1,2) by (simp add: cmd_cat_def cat_loop_def)
  then show ?thesis using cat(3) [of crlf] v by blast
qed

section \<open>Writing a file\<close>

text \<open>The records of two states agree in everything but the size of file \<open>j\<close>.\<close>

definition same_records :: "nat \<Rightarrow> fsys \<Rightarrow> fsys \<Rightarrow> bool" where
  "same_records j f f' \<longleftrightarrow> (\<forall>r<MAX_FILE_RECORDS. rec_name (table f') r = rec_name (table f) r \<and> rec_start (table f') r = rec_start (table f) r \<and>
     (r \<noteq> j \<longrightarrow> rec_size (table f') r = rec_size (table f) r))"

text \<open>Blocks that hold no byte of the first \<open>n\<close> of a file that starts at \<open>st\<close>, nor the table.\<close>

definition foreign :: "u32 \<Rightarrow> nat \<Rightarrow> u32 \<Rightarrow> bool" where
  "foreign st n b \<longleftrightarrow> b \<noteq> FILE_TABLE_BLOCK \<and> (\<forall>k. k * BLOCK_SIZE < n \<longrightarrow> b \<noteq> st + of_nat k)"

lemma same_records_trans: "same_records j f f1 \<Longrightarrow> same_records j f1 f2 \<Longrightarrow> same_records j f f2"
  by (simp add: same_records_def)

lemma foreign_mono: "foreign st n b \<Longrightarrow> m \<le> n \<Longrightarrow> foreign st m b"
  by (auto simp: foreign_def)

lemma write_file_data_effect:
  assumes "calm s" "ROOT_MOUNTED s" "i < MAX_FILE_RECORDS" "rec_start (table s) i = st" "st \<noteq> 0"
    "data \<noteq> []" "m + length data < 2 ^ 32" "data_blocks_ok st (m + length data)"
  shows "\<exists>s'. write_file_data i (of_nat m) data s = (length data, s') \<and> calm s' \<and> ROOT_MOUNTED s' \<and> same_records i s s' \<and>
    m + length data \<le> unat (rec_size (table s') i) \<and>
    (\<forall>p \<le> m + length data. fbyte s' st p = (if m \<le> p \<and> p < m + length data then data ! (p - m) else fbyte s st p)) \<and>
    (\<forall>b. foreign st (m + length data) b \<longrightarrow> fs_disk s' b = fs_disk s b)"
proof -
  have um: "unat (of_nat m :: u32) = m" using assms(7) by (simp add: unat_of_nat)
  have info: "get_file_record_info i s = (Some (rec_size (table s) i, st), s)" using assms(1-5) by (simp add: get_info_calm)
  from write_file_data_steps [OF assms(1-3) info assms(6), of "of_nat m"] assms(7,8) obtain s2 s3 s' where
    w: "write_file_data i (of_nat m) data s = (length data, s')" and r2: "resized i s s2" and wr: "written st m data s2 s3"
    and r': "resized i s3 s'" and sz: "m + length data \<le> unat (rec_size (table s') i)" by (auto simp: um)
  have t3: "table s3 = table s2" "ROOT_MOUNTED s3 = ROOT_MOUNTED s2" "calm s3" using written_table [OF wr assms(8)] by auto
  have fb: "fbyte s' st p = (if m \<le> p \<and> p < m + length data then data ! (p - m) else fbyte s st p)" if "p \<le> m + length data" for p
    using resized_fbyte [OF r2 assms(8) that] resized_fbyte [OF r' assms(8) that] wr that assms(7) by (simp add: written_def)
  have "fs_disk s' b = fs_disk s b" if "foreign st (m + length data) b" for b
    using that r2 r' wr by (simp add: resized_def written_def foreign_def)
  moreover have "calm s'" "ROOT_MOUNTED s'" "same_records i s s'"
    using r2 r' t3 assms(2) by (simp_all add: resized_def same_records_def)
  ultimately show ?thesis using w sz fb by blast
qed

text \<open>Slot \<open>d\<close> has file \<open>j\<close> open, which has been filled from its start with \<open>data\<close>.\<close>

definition holds :: "nat \<Rightarrow> nat \<Rightarrow> u8 list \<Rightarrow> vfs \<Rightarrow> bool" where
  "holds d j data v \<longleftrightarrow> open_at d j (length data) v \<and> length data \<le> length (file_bytes (vfs_fs v) j) \<and>
     take (length data) (file_bytes (vfs_fs v) j) = data"

lemma take_file_bytes: "n \<le> unat (rec_size (table f) j) \<Longrightarrow> take n (file_bytes f j) = map (fbyte f (rec_start (table f) j)) [0..<n]"
  by (simp add: file_bytes_def take_map)

lemma holds_write:
  assumes h: "holds d j data v" and n: "length (data @ bs) < 2 ^ 32" "data_blocks_ok (rec_start (table (vfs_fs v)) j) (length (data @ bs))"
    and v: "pg_vfs p = v"
  shows "\<exists>v'. file_write (FIRST_FD + of_nat d) bs p = p\<lparr>pg_vfs := v'\<rparr> \<and> holds d j (data @ bs) v' \<and> same_records j (vfs_fs v) (vfs_fs v') \<and>
    (\<forall>k<MAX_OPEN. k \<noteq> d \<longrightarrow> FD_TABLE v' ! k = FD_TABLE v ! k) \<and>
    (\<forall>b. foreign (rec_start (table (vfs_fs v)) j) (length (data @ bs)) b \<longrightarrow> fs_disk (vfs_fs v') b = fs_disk (vfs_fs v) b)"
proof (cases "bs = []")
  case True
  then show ?thesis using h v by (intro exI [of _ v]) (simp add: file_write_def same_records_def)
next
  case False
  let ?f = "vfs_fs v" and ?st = "rec_start (table (vfs_fs v)) j" and ?m = "length data"
  have o: "open_at d j ?m v" and pre: "?m \<le> unat (rec_size (table ?f) j)" "take ?m (file_bytes ?f j) = data" using h by (auto simp: holds_def)
  then have ok: "calm ?f" "ROOT_MOUNTED ?f" "j < MAX_FILE_RECORDS" "?st \<noteq> 0" by (auto simp: open_at_def)
  have dl: "d < MAX_OPEN" "length (FD_TABLE v) = MAX_OPEN" using o by (simp_all add: open_at_def)
  from write_file_data_effect [OF ok(1-3) refl ok(4) False, of ?m] n obtain s' where
    w: "write_file_data j (of_nat ?m) bs ?f = (length bs, s')" and s': "calm s'" "ROOT_MOUNTED s'" "same_records j ?f s'"
    "?m + length bs \<le> unat (rec_size (table s') j)"
    and fb: "\<forall>p \<le> ?m + length bs. fbyte s' ?st p = (if ?m \<le> p \<and> p < ?m + length bs then bs ! (p - ?m) else fbyte ?f ?st p)"
    and bl: "\<forall>b. foreign ?st (?m + length bs) b \<longrightarrow> fs_disk s' b = fs_disk ?f b" by auto
  let ?v = "(moved_to d (?m + length bs) v)\<lparr>vfs_fs := s'\<rparr>"
  have st: "rec_start (table s') j = ?st" using s'(3) ok(3) by (simp add: same_records_def)
  have "file_write (FIRST_FD + of_nat d) bs p = p\<lparr>pg_vfs := ?v\<rparr>"
    using o False v w dl by (simp add: file_write_def write_file_def open_at_def fd_to_slot_of moved_to_def)
  moreover have "open_at d j (?m + length bs) ?v" using o s' n(1) st ok dl by (simp add: open_at_def)
  moreover have "map (fbyte s' ?st) [0..<?m + length bs] = data @ bs"
  proof (rule nth_equalityI)
    fix x assume "x < length (map (fbyte s' ?st) [0..<?m + length bs])"
    then have x: "x < ?m + length bs" by simp
    have "fbyte ?f ?st x = data ! x" if "x < ?m"
      using that pre(1) arg_cong [OF pre(2), of "\<lambda>l. l ! x"] by (simp add: file_bytes_def)
    with fb x show "map (fbyte s' ?st) [0..<?m + length bs] ! x = (data @ bs) ! x" by (auto simp: nth_append)
  qed simp
  ultimately show ?thesis
    using s' bl dl take_file_bytes [OF s'(4)] by (intro exI [of _ ?v]) (simp add: holds_def st)
qed

section \<open>Copying a file\<close>

text \<open>File \<open>i\<close> with contents \<open>src\<close> is being copied through slot \<open>k\<close> to file \<open>j\<close> in slot \<open>d\<close>; no block of the one is a block of the other.\<close>

definition apart :: "fsys \<Rightarrow> nat \<Rightarrow> nat \<Rightarrow> nat \<Rightarrow> bool" where
  "apart f i j n \<longleftrightarrow> data_blocks_ok (rec_start (table f) j) n \<and>
     (\<forall>b. b * BLOCK_SIZE < n \<longrightarrow> foreign (rec_start (table f) j) n (rec_start (table f) i + of_nat b))"

definition copying :: "nat \<Rightarrow> nat \<Rightarrow> nat \<Rightarrow> nat \<Rightarrow> nat \<Rightarrow> u8 list \<Rightarrow> prog \<Rightarrow> prog \<Rightarrow> bool" where
  "copying n k d i j src p0 p \<longleftrightarrow> 0 < n \<and> n < 2 ^ 32 \<and> k \<noteq> d \<and> i \<noteq> j \<and> i < MAX_FILE_RECORDS \<and> j < MAX_FILE_RECORDS \<and>
     open_at k i (position k p) (pg_vfs p) \<and> file_bytes (vfs_fs (pg_vfs p)) i = src \<and> position k p \<le> length src \<and>
     holds d j (take (position k p) src) (pg_vfs p) \<and> apart (vfs_fs (pg_vfs p)) i j (length src) \<and>
     same_records j (vfs_fs (pg_vfs p0)) (vfs_fs (pg_vfs p)) \<and> (\<forall>x<MAX_OPEN. x \<noteq> k \<and> x \<noteq> d \<longrightarrow> FD_TABLE (pg_vfs p) ! x = FD_TABLE (pg_vfs p0) ! x) \<and>
     p = p0\<lparr>pg_vfs := pg_vfs p\<rparr>"

lemma apart_keeps:
  assumes "apart f i j n" "same_records j f f'" "i \<noteq> j" "i < MAX_FILE_RECORDS" "j < MAX_FILE_RECORDS" "n = length (file_bytes f i)"
    "m \<le> n" "\<forall>b. foreign (rec_start (table f) j) m b \<longrightarrow> fs_disk f' b = fs_disk f b"
  shows "file_bytes f' i = file_bytes f i" "apart f' i j n"
proof -
  have r: "rec_start (table f') i = rec_start (table f) i" "rec_size (table f') i = rec_size (table f) i" "rec_start (table f') j = rec_start (table f) j"
    using assms(2-5) by (simp_all add: same_records_def)
  have "fbyte f' (rec_start (table f) i) x = fbyte f (rec_start (table f) i) x" if "x < n" for x
  proof -
    have "x div BLOCK_SIZE * BLOCK_SIZE < n" using that div_times_less_eq_dividend [of x BLOCK_SIZE] by linarith
    then have "foreign (rec_start (table f) j) m (rec_start (table f) i + of_nat (x div BLOCK_SIZE))"
      using assms(1) by (intro foreign_mono [OF _ assms(7)]) (simp add: apart_def)
    then show ?thesis using assms(8) by (simp add: fbyte_def)
  qed
  then show "file_bytes f' i = file_bytes f i" using assms(6) by (simp add: file_bytes_def r)
  show "apart f' i j n" using assms(1) by (simp add: apart_def r)
qed

lemma copying_read:
  assumes c: "copying n k d i j src p0 p" and r: "file_read (FIRST_FD + of_nat k) n p = (bs, p1)"
  shows "bs = take n (drop (position k p) src)" "copying n k d i j src p0 (file_write (FIRST_FD + of_nat d) bs p1)"
    "position k (file_write (FIRST_FD + of_nat d) bs p1) = position k p + length bs"
proof -
  let ?m = "position k p" and ?v = "pg_vfs p"
  have n: "0 < n" "n < 2 ^ 32" and kd: "k \<noteq> d" "i \<noteq> j" "i < MAX_FILE_RECORDS" "j < MAX_FILE_RECORDS" and o: "open_at k i ?m ?v"
    and src: "file_bytes (vfs_fs ?v) i = src" "?m \<le> length src" and h: "holds d j (take ?m src) ?v" and ap: "apart (vfs_fs ?v) i j (length src)"
    and sr: "same_records j (vfs_fs (pg_vfs p0)) (vfs_fs ?v)" and fd: "\<forall>x<MAX_OPEN. x \<noteq> k \<and> x \<noteq> d \<longrightarrow> FD_TABLE ?v ! x = FD_TABLE (pg_vfs p0) ! x"
    and p: "p = p0\<lparr>pg_vfs := ?v\<rparr>" using c unfolding copying_def by blast+
  let ?m' = "?m + length bs" and ?data = "take ?m src"
  have slots: "k < MAX_OPEN" "d < MAX_OPEN" "length (FD_TABLE ?v) = MAX_OPEN" using o h by (auto simp: open_at_def holds_def)
  have rd: "bs = take n (drop ?m src)" "p1 = p\<lparr>pg_vfs := moved_to k ?m' ?v\<rparr>"
    using r read_file_open_at [OF o n] src by (auto simp: file_read_def)
  show "bs = take n (drop ?m src)" by fact
  have data: "?data @ bs = take ?m' src" "?m' \<le> length src"
    using src(2) by (auto simp: rd(1) take_add min_def)
  have lt: "length src < 2 ^ 32" using src(1) unsigned_less [of "rec_size (table (vfs_fs ?v)) i", where 'a = nat] by auto
  have h1: "holds d j ?data (moved_to k ?m' ?v)"
    using h kd(1) slots by (auto simp: holds_def open_at_def)
  let ?st = "rec_start (table (vfs_fs ?v)) j"
  have db: "data_blocks_ok ?st (length (?data @ bs))"
  proof -
    have "length (?data @ bs) div BLOCK_SIZE \<le> length src div BLOCK_SIZE" using data(2) src(2) by (intro div_le_mono) simp
    then show ?thesis using ap by (auto simp: apart_def data_blocks_ok_def)
  qed
  have lb: "length (?data @ bs) \<le> length src" using data src(2) by simp
  from holds_write [OF h1, of bs p1] lt lb db rd(2) obtain v' where v': "file_write (FIRST_FD + of_nat d) bs p1 = p1\<lparr>pg_vfs := v'\<rparr>"
    "holds d j (?data @ bs) v'" "same_records j (vfs_fs ?v) (vfs_fs v')" "\<forall>x<MAX_OPEN. x \<noteq> d \<longrightarrow> FD_TABLE v' ! x = FD_TABLE (moved_to k ?m' ?v) ! x"
    "\<forall>b. foreign ?st (length (?data @ bs)) b \<longrightarrow> fs_disk (vfs_fs v') b = fs_disk (vfs_fs ?v) b" by auto
  have keep: "file_bytes (vfs_fs v') i = src" "apart (vfs_fs v') i j (length src)"
    using apart_keeps [OF ap v'(3) kd(2-4) _ lb v'(5)] src(1) by simp_all
  have e: "FD_TABLE v' ! k = (FD_TABLE ?v ! k)\<lparr>fd_offset := of_nat ?m'\<rparr>" using v'(4) kd(1) slots by simp
  let ?p2 = "p1\<lparr>pg_vfs := v'\<rparr>"
  have um: "unat (of_nat x :: u32) = x" if "x \<le> length src" for x using that lt by (simp add: unat_of_nat)
  have pos: "position k ?p2 = ?m'" using e um [OF data(2)] by (simp add: position_def)
  then show "position k (file_write (FIRST_FD + of_nat d) bs p1) = position k p + length bs" by (simp add: v'(1))
  have st: "rec_start (table (vfs_fs v')) i \<noteq> 0" using v'(3) o kd(3) by (simp add: same_records_def open_at_def)
  have "open_at k i ?m' v'" using e o v'(2) st data(2) lt by (auto simp: open_at_def holds_def)
  moreover have "p\<lparr>pg_vfs := v'\<rparr> = p0\<lparr>pg_vfs := v'\<rparr>" by (subst p) simp
  moreover have "\<forall>x<MAX_OPEN. x \<noteq> k \<and> x \<noteq> d \<longrightarrow> FD_TABLE v' ! x = FD_TABLE (pg_vfs p0) ! x" using v'(4) fd slots by simp
  ultimately show "copying n k d i j src p0 (file_write (FIRST_FD + of_nat d) bs p1)"
    using n kd keep pos data v'(2) same_records_trans [OF sr v'(3)] unfolding v'(1) copying_def by (simp add: rd(2))
qed

interpretation copied: pump "file_read (FIRST_FD + of_nat k) n" "file_write (FIRST_FD + of_nat d)" "copying n k d i j src p0"
    "\<lambda>p. drop (position k p) src" "\<lambda>p. take (position k p) src" for n k d i j src p0
proof (unfold_locales, goal_cases)
  case (1 s s1)
  note r = copying_read [OF 1]
  have "file_write (FIRST_FD + of_nat d) [] s1 = s1" by (simp add: file_write_def)
  moreover have "0 < n" using 1(1) by (simp add: copying_def)
  ultimately show ?case using r by auto
next
  case (2 s bs s1)
  note r = copying_read [OF 2(1,2)]
  have "bs @ drop (length bs) (drop (position k s) src) = drop (position k s) src" by (rule taken_append [OF r(1)])
  moreover have "take (position k s + length bs) src = take (position k s) src @ bs"
    using r(1) by (simp add: take_add min_def)
  ultimately show ?case using r(2,3) by (simp add: add.commute)
qed

text \<open>Creating a file by opening it.\<close>

lemma path_arg_zero: "path_arg bs = Ok name \<Longrightarrow> 0 \<notin> set bs \<Longrightarrow> 0 \<notin> set name"
  by (auto simp: path_arg_def path_name_def Let_def split: if_splits dest!: set_takeWhileD set_dropWhileD)

lemma find_same_records:
  assumes "calm f" "calm f'" "ROOT_MOUNTED f" "ROOT_MOUNTED f'" "same_records j f f'"
  shows "fst (find_file_by_name name f') = fst (find_file_by_name name f)"
  using assms by (auto simp: find_file_by_name_def read_block_calm same_records_def intro!: find_cong)

lemma file_open_new:
  assumes ok: "vfs_ok (pg_vfs p)" and name: "path_arg bs = Ok name" and f: "fst (find_file_by_name name (vfs_fs (pg_vfs p))) = None"
    and free: "\<exists>k<MAX_OPEN. file_index (FD_TABLE (pg_vfs p) ! k) = None" and r: "\<exists>r<MAX_FILE_RECORDS. rec_start (table (vfs_fs (pg_vfs p))) r = 0"
    and nz: "NEXT_FREE_BLOCK (vfs_fs (pg_vfs p)) \<noteq> 0" and fl: "flags AND O_CREAT \<noteq> 0"
  obtains k j p1 where "file_open bs flags p = (Ok (ucast (FIRST_FD + of_nat k :: u32)), p1)" "k < MAX_OPEN" "file_index (FD_TABLE (pg_vfs p) ! k) = None"
    "open_at k j 0 (pg_vfs p1)" "alloc_file_record name (vfs_fs (pg_vfs p)) = (Some j, vfs_fs (pg_vfs p1))" "vfs_ok (pg_vfs p1)"
    "\<exists>e f. p1 = p\<lparr>pg_vfs := (pg_vfs p)\<lparr>vfs_fs := f, FD_TABLE := (FD_TABLE (pg_vfs p))[k := e]\<rparr>\<rparr>"
proof -
  let ?v = "pg_vfs p"
  have c: "calm (vfs_fs ?v)" "ROOT_MOUNTED (vfs_fs ?v)" "length (FD_TABLE ?v) = MAX_OPEN" using ok by (auto simp: vfs_ok_def)
  have f: "find_file_by_name name (vfs_fs ?v) = (None, vfs_fs ?v)" using find_calm(1) [OF c(1)] f by (metis prod.collapse)
  obtain k where k: "first_index (\<lambda>e. file_index e = None) (FD_TABLE ?v) = Some k"
    using free c(3) by (cases "first_index (\<lambda>e. file_index e = None) (FD_TABLE ?v)") (auto dest!: first_index_NoneD)
  note kd = first_index_SomeD [OF k]
  obtain j f1 where a: "alloc_file_record name (vfs_fs ?v) = (Some j, f1)"
    using alloc_finds_free [OF c(1,2)] r path_arg_name [OF name] by (fastforce simp: NAME_MAX_def)
  note al = alloc_file_record_calm [OF c(1) a]
  let ?e = "\<lparr>file_index = Some j, fd_offset = 0, owner_pid = (if pg_pid p \<noteq> 0 then Some (pg_pid p) else None)\<rparr>"
  have o: "vfs_open name flags (pg_pid p) ?v = (Some (FIRST_FD + of_nat k), ?v\<lparr>vfs_fs := f1, FD_TABLE := (FD_TABLE ?v)[k := ?e]\<rparr>)" (is "_ = (_, ?v1)")
    using c k f a fl path_arg_name [OF name] by (simp add: vfs_open_def Let_def)
  have ok1: "vfs_ok ?v1" using vfs_open_Some [OF ok o] by blast
  show ?thesis
  proof (rule that)
    show "file_open bs flags p = (Ok (ucast (FIRST_FD + of_nat k :: u32)), p\<lparr>pg_vfs := ?v1\<rparr>)" using name o by (simp add: file_open_def)
    show "open_at k j 0 (pg_vfs (p\<lparr>pg_vfs := ?v1\<rparr>))" using c kd al nz by (simp add: open_at_def)
    show "vfs_ok (pg_vfs (p\<lparr>pg_vfs := ?v1\<rparr>))" using ok1 by simp
    show "alloc_file_record name (vfs_fs ?v) = (Some j, vfs_fs (pg_vfs (p\<lparr>pg_vfs := ?v1\<rparr>)))" using a by simp
  qed (use c kd in auto)
qed

text \<open>The blocks of a file below the free ones are apart from those of a file that starts at the next free block.\<close>

lemma below_apart:
  assumes "2 \<le> unat a" "unat a + (n + 4095) div 4096 \<le> unat st" "unat st + n div 4096 < 2 ^ 32"
    "rec_start (table f) i = a" "rec_start (table f) j = st"
  shows "apart f i j n"
proof -
  have "foreign st n (a + of_nat b)" if "b * BLOCK_SIZE < n" for b
  proof -
    have ba: "b < (n + 4095) div 4096" using that by (simp add: BLOCK_SIZE_def)
    then have ua: "unat (a + of_nat b) = unat a + b" using assms(2) unsigned_less [of st, where 'a = nat] by (simp add: unat_word_ariths unat_of_nat)
    have "a + of_nat b \<noteq> st + of_nat x" if "x * BLOCK_SIZE < n" for x
    proof -
      have "x \<le> n div 4096" using that by (simp add: BLOCK_SIZE_def less_eq_div_iff_mult_less_eq)
      then have "unat (st + of_nat x) = unat st + x" using assms(3) by (simp add: unat_word_ariths unat_of_nat)
      moreover have "unat a + b < unat st + x" using ba assms(2) by linarith
      ultimately have "unat (a + of_nat b) < unat (st + of_nat x)" using ua by simp
      then show ?thesis by (rule contrapos_pn) simp
    qed
    moreover have "a + of_nat b \<noteq> FILE_TABLE_BLOCK" using ua assms(1) by (auto simp: FILE_TABLE_BLOCK_def)
    ultimately show ?thesis by (simp add: foreign_def)
  qed
  moreover have "data_blocks_ok st n" using assms(1-3) by (simp add: data_blocks_ok_def BLOCK_SIZE_def)
  ultimately show ?thesis using assms(4,5) by (simp add: apart_def)
qed

lemma read_filename_line:
  assumes "plain_name bs" "pg_in p = (bs @ [0x0D]) # ls"
  shows "read_filename prompt p = Some (Some bs, out_write prompt (p\<lparr>pg_in := ls\<rparr>))"
  using assms trim_crlf_line [OF assms(1)] plain_takeWhile [OF assms(1)]
  by (auto simp: read_filename_def line_read_all out_write_def plain_name_def)

text \<open>The source, found at record \<open>i\<close>, and a new file can be opened at once: their descriptors and contents at the start.\<close>

lemma copy_opens:
  assumes ok: "vfs_ok (pg_vfs p)" and names: "path_arg a = Ok src" "path_arg b = Ok dst" "0 \<notin> set src" "0 \<notin> set dst"
    and i: "fst (find_file_by_name src (vfs_fs (pg_vfs p))) = Some i" and n: "fst (find_file_by_name dst (vfs_fs (pg_vfs p))) = None"
    and free: "x < MAX_OPEN" "y < MAX_OPEN" "x \<noteq> y" "file_index (FD_TABLE (pg_vfs p) ! x) = None" "file_index (FD_TABLE (pg_vfs p) ! y) = None"
    and r: "\<exists>r<MAX_FILE_RECORDS. rec_start (table (vfs_fs (pg_vfs p))) r = 0" and nz: "NEXT_FREE_BLOCK (vfs_fs (pg_vfs p)) \<noteq> 0"
  obtains k d j p1 p2 where "file_open a O_RDONLY p = (Ok (ucast (FIRST_FD + of_nat k :: u32)), p1)"
    "file_open b (O_WRONLY OR O_CREAT) p1 = (Ok (ucast (FIRST_FD + of_nat d :: u32)), p2)" "k \<noteq> d"
    "open_at k i 0 (pg_vfs p2)" "open_at d j 0 (pg_vfs p2)" "i \<noteq> j" "file_index (FD_TABLE (pg_vfs p) ! k) = None" "file_index (FD_TABLE (pg_vfs p) ! d) = None"
    "\<forall>x<MAX_OPEN. x \<noteq> k \<and> x \<noteq> d \<longrightarrow> FD_TABLE (pg_vfs p2) ! x = FD_TABLE (pg_vfs p) ! x" "alloc_file_record dst (vfs_fs (pg_vfs p)) = (Some j, vfs_fs (pg_vfs p2))"
    "p2 = p\<lparr>pg_vfs := pg_vfs p2\<rparr>"
proof -
  have len: "length (FD_TABLE (pg_vfs p)) = MAX_OPEN" using ok by (simp add: vfs_ok_def)
  obtain k p1 e where o: "file_open a O_RDONLY p = (Ok (ucast (FIRST_FD + of_nat k :: u32)), p1)" "k < MAX_OPEN" "file_index (FD_TABLE (pg_vfs p) ! k) = None"
    "open_at k i 0 (pg_vfs p1)" "vfs_fs (pg_vfs p1) = vfs_fs (pg_vfs p)" "vfs_ok (pg_vfs p1)"
    "p1 = p\<lparr>pg_vfs := (pg_vfs p)\<lparr>FD_TABLE := (FD_TABLE (pg_vfs p))[k := e]\<rparr>\<rparr>"
    using file_open_existing [OF ok names(1) i] free(1,4) by metis
  define z where "z = (if x = k then y else x)"
  have z: "z < MAX_OPEN" "file_index (FD_TABLE (pg_vfs p1) ! z) = None" "z \<noteq> k" using free o(7) len by (auto simp: z_def)
  have n1: "fst (find_file_by_name dst (vfs_fs (pg_vfs p1))) = None" "\<exists>r<MAX_FILE_RECORDS. rec_start (table (vfs_fs (pg_vfs p1))) r = 0"
    "NEXT_FREE_BLOCK (vfs_fs (pg_vfs p1)) \<noteq> 0" using n r nz by (simp_all add: o(5))
  have fl: "(O_WRONLY OR O_CREAT) AND O_CREAT \<noteq> 0" by (simp add: O_WRONLY_def O_CREAT_def)
  obtain d j p2 e2 f2 where q: "file_open b (O_WRONLY OR O_CREAT) p1 = (Ok (ucast (FIRST_FD + of_nat d :: u32)), p2)" "d < MAX_OPEN"
    "file_index (FD_TABLE (pg_vfs p1) ! d) = None" "open_at d j 0 (pg_vfs p2)" "alloc_file_record dst (vfs_fs (pg_vfs p1)) = (Some j, vfs_fs (pg_vfs p2))"
    "p2 = p1\<lparr>pg_vfs := (pg_vfs p1)\<lparr>vfs_fs := f2, FD_TABLE := (FD_TABLE (pg_vfs p1))[d := e2]\<rparr>\<rparr>"
    using file_open_new [OF o(6) names(2), of "O_WRONLY OR O_CREAT"] n1 z(1,2) fl by metis
  have c: "calm (vfs_fs (pg_vfs p1))" using o(6) by (simp add: vfs_ok_def)
  note al = alloc_file_record_calm [OF c q(5)]
  have ij: "i \<noteq> j" using al(5) o(4) by (auto simp: open_at_def)
  have kd: "k \<noteq> d" using q(3) o(4) by (auto simp: open_at_def)
  have len1: "length (FD_TABLE (pg_vfs p1)) = MAX_OPEN" using o(4) by (simp add: open_at_def)
  have t: "FD_TABLE (pg_vfs p2) = (FD_TABLE (pg_vfs p1))[d := e2]" "FD_TABLE (pg_vfs p1) = (FD_TABLE (pg_vfs p))[k := e]" by (simp_all add: q(6) o(7))
  have oi: "open_at k i 0 (pg_vfs p2)" using o(4) al(1,2,11) ij kd t(1) by (simp add: open_at_def)
  have fd: "file_index (FD_TABLE (pg_vfs p) ! d) = None" using q(3) kd t(2) by simp
  have p2: "p2 = p\<lparr>pg_vfs := pg_vfs p2\<rparr>" by (simp add: q(6) o(7))
  show ?thesis
    by (rule that [OF o(1) q(1) kd oi q(4) ij o(3) fd _ _ p2]) (use t q(5) o(5) in auto)
qed

lemma close_both:
  assumes "k \<noteq> d" "k < MAX_OPEN" "d < MAX_OPEN" "length (FD_TABLE v) = MAX_OPEN" "file_index (FD_TABLE v ! k) = None" "file_index (FD_TABLE v ! d) = None"
    "length (FD_TABLE w) = MAX_OPEN" "\<forall>x<MAX_OPEN. x \<noteq> k \<and> x \<noteq> d \<longrightarrow> FD_TABLE w ! x = FD_TABLE v ! x"
  shows "fd_entry_of fd (snd (vfs_close (FIRST_FD + of_nat d) (snd (vfs_close (FIRST_FD + of_nat k) w)))) = fd_entry_of fd v"
    "vfs_fs (snd (vfs_close (FIRST_FD + of_nat d) (snd (vfs_close (FIRST_FD + of_nat k) w)))) = vfs_fs w"
proof -
  let ?w = "snd (vfs_close (FIRST_FD + of_nat k) w)"
  have t: "FD_TABLE ?w = (FD_TABLE w)[k := (FD_TABLE w ! k)\<lparr>file_index := None, owner_pid := None\<rparr>]" "vfs_fs ?w = vfs_fs w"
    using assms(2) by (simp_all add: vfs_close_def fd_to_slot_of Let_def)
  have "FD_TABLE ?w ! x = FD_TABLE v ! x \<or> file_index (FD_TABLE ?w ! x) = None \<and> file_index (FD_TABLE v ! x) = None" if "x < MAX_OPEN" "x \<noteq> d" for x
    using assms that t by (cases "x = k") auto
  note r = close_restores [OF assms(3,4,6) _ this]
  show "fd_entry_of fd (snd (vfs_close (FIRST_FD + of_nat d) ?w)) = fd_entry_of fd v" using r(1) t assms(7) by simp
  show "vfs_fs (snd (vfs_close (FIRST_FD + of_nat d) ?w)) = vfs_fs w" using r(2) t assms(7) by simp
qed

text \<open>What a file system must be like for a copy: the source is stored below the free blocks, and there is room behind them.\<close>

definition copy_fits :: "u8 list \<Rightarrow> fsys \<Rightarrow> bool" where
  "copy_fits src f = (case fst (find_file_by_name src f) of None \<Rightarrow> False | Some i \<Rightarrow>
     2 \<le> unat (rec_start (table f) i) \<and>
     unat (rec_start (table f) i) + (unat (rec_size (table f) i) + 4095) div 4096 \<le> unat (NEXT_FREE_BLOCK f) \<and>
     unat (NEXT_FREE_BLOCK f) + unat (rec_size (table f) i) div 4096 < 2 ^ 32 \<and>
     list_ex (\<lambda>r. rec_start (table f) r = 0) [0..<MAX_FILE_RECORDS])"

lemma copy_starts:
  assumes o: "k \<noteq> d" "open_at k i 0 (pg_vfs p2)" "open_at d j 0 (pg_vfs p2)" "i \<noteq> j" and al: "alloc_file_record dst f = (Some j, vfs_fs (pg_vfs p2))"
    and f: "calm f" and fits: "2 \<le> unat (rec_start (table f) i)"
      "unat (rec_start (table f) i) + (unat (rec_size (table f) i) + 4095) div 4096 \<le> unat (NEXT_FREE_BLOCK f)"
      "unat (NEXT_FREE_BLOCK f) + unat (rec_size (table f) i) div 4096 < 2 ^ 32"
  shows "copying BUF_SIZE k d i j (file_bytes f i) p2 p2" "position k p2 = 0"
proof -
  let ?f = "vfs_fs (pg_vfs p2)" and ?n = "length (file_bytes f i)"
  note a = alloc_file_record_calm [OF f al]
  have ib: "i < MAX_FILE_RECORDS" "j < MAX_FILE_RECORDS" using o(2,3) by (simp_all add: open_at_def)
  have ri: "rec_start (table ?f) i = rec_start (table f) i" "rec_size (table ?f) i = rec_size (table f) i" using a(11) o(4) ib by simp_all
  have ap: "apart ?f i j ?n" using fits by (intro below_apart [OF _ _ _ ri(1) a(10)]) simp_all
  have "fbyte ?f (rec_start (table f) i) x = fbyte f (rec_start (table f) i) x" if "x < ?n" for x
  proof -
    have "x div BLOCK_SIZE * BLOCK_SIZE < ?n" using that div_times_less_eq_dividend [of x BLOCK_SIZE] by linarith
    then have "rec_start (table f) i + of_nat (x div BLOCK_SIZE) \<noteq> FILE_TABLE_BLOCK" using ap ri(1) by (auto simp: apart_def foreign_def)
    then show ?thesis using a(7) by (simp add: fbyte_def)
  qed
  then have fb: "file_bytes ?f i = file_bytes f i" by (simp add: file_bytes_def ri)
  show pos: "position k p2 = 0" using o(2) by (simp add: position_def open_at_def)
  show "copying BUF_SIZE k d i j (file_bytes f i) p2 p2"
    using o ib ap fb pos by (simp add: copying_def holds_def same_records_def BUF_SIZE_def)
qed

lemma copy_files_copies:
  assumes ok: "vfs_ok (pg_vfs p)" and names: "path_arg a = Ok src" "path_arg b = Ok dst" "0 \<notin> set src" "0 \<notin> set dst"
    and c: "content src (vfs_fs (pg_vfs p)) = Some c" "content dst (vfs_fs (pg_vfs p)) = None" and fits: "copy_fits src (vfs_fs (pg_vfs p))"
    and free: "x < MAX_OPEN" "y < MAX_OPEN" "x \<noteq> y" "file_index (FD_TABLE (pg_vfs p) ! x) = None" "file_index (FD_TABLE (pg_vfs p) ! y) = None"
  shows "\<exists>p' more. copy_files a b p = Some (0, p') \<and> content src (vfs_fs (pg_vfs p')) = Some c \<and> content dst (vfs_fs (pg_vfs p')) = Some (c @ more) \<and>
    pg_out p' = pg_out p \<and> (\<forall>fd. fd_entry_of fd (pg_vfs p') = fd_entry_of fd (pg_vfs p))"
proof -
  let ?f = "vfs_fs (pg_vfs p)"
  have ca: "calm ?f" "ROOT_MOUNTED ?f" "length (FD_TABLE (pg_vfs p)) = MAX_OPEN" using ok by (auto simp: vfs_ok_def)
  obtain i where i: "fst (find_file_by_name src ?f) = Some i" "c = file_bytes ?f i" using content_index [OF c(1)] by blast
  have nd: "fst (find_file_by_name dst ?f) = None" using c(2) by (simp add: content_def)
  have r: "\<exists>r<MAX_FILE_RECORDS. rec_start (table ?f) r = 0" "NEXT_FREE_BLOCK ?f \<noteq> 0" and ft: "2 \<le> unat (rec_start (table ?f) i)"
      "unat (rec_start (table ?f) i) + (unat (rec_size (table ?f) i) + 4095) div 4096 \<le> unat (NEXT_FREE_BLOCK ?f)"
      "unat (NEXT_FREE_BLOCK ?f) + unat (rec_size (table ?f) i) div 4096 < 2 ^ 32"
    using fits i(1) by (auto simp: copy_fits_def list_ex_iff)
  obtain k d j p1 p2 where o: "file_open a O_RDONLY p = (Ok (ucast (FIRST_FD + of_nat k :: u32)), p1)"
    "file_open b (O_WRONLY OR O_CREAT) p1 = (Ok (ucast (FIRST_FD + of_nat d :: u32)), p2)" "k \<noteq> d"
    "open_at k i 0 (pg_vfs p2)" "open_at d j 0 (pg_vfs p2)" "i \<noteq> j" "file_index (FD_TABLE (pg_vfs p) ! k) = None" "file_index (FD_TABLE (pg_vfs p) ! d) = None"
    "\<forall>x<MAX_OPEN. x \<noteq> k \<and> x \<noteq> d \<longrightarrow> FD_TABLE (pg_vfs p2) ! x = FD_TABLE (pg_vfs p) ! x" "alloc_file_record dst ?f = (Some j, vfs_fs (pg_vfs p2))"
    "p2 = p\<lparr>pg_vfs := pg_vfs p2\<rparr>"
    by (rule copy_opens [OF ok names i(1) nd free r]) (rule that)
  note st = copy_starts [OF o(3-6,10) ca(1) ft]
  from copied.pumped [OF st(1)] st(2) i(2) obtain p3 where p3: "copy_loop (FIRST_FD + of_nat k) (FIRST_FD + of_nat d) p2 = Some p3"
    "copying BUF_SIZE k d i j c p2 p3" "take (position k p3) c = c" by (auto simp: copy_loop_def)
  let ?g = "vfs_fs (pg_vfs p3)" and ?f2 = "vfs_fs (pg_vfs p2)"
  have q: "file_bytes ?g i = c" "holds d j c (pg_vfs p3)" "same_records j ?f2 ?g" "p3 = p2\<lparr>pg_vfs := pg_vfs p3\<rparr>" "open_at k i (position k p3) (pg_vfs p3)"
    "\<forall>x<MAX_OPEN. x \<noteq> k \<and> x \<noteq> d \<longrightarrow> FD_TABLE (pg_vfs p3) ! x = FD_TABLE (pg_vfs p) ! x"
    using p3(2,3) o(9) by (auto simp: copying_def)
  have cg: "calm ?g" "ROOT_MOUNTED ?g" "length (FD_TABLE (pg_vfs p3)) = MAX_OPEN" "k < MAX_OPEN" "d < MAX_OPEN" using q(2,5) by (auto simp: open_at_def holds_def)
  note al = alloc_file_record_calm [OF ca(1) o(10)]
  have fdst: "find_file_by_name dst ?f = (None, ?f)" using nd find_calm(1) [OF ca(1)] by (metis prod.collapse)
  have ne: "src \<noteq> dst" using i(1) nd by auto
  have l: "length src \<le> NAME_MAX" using path_arg_name [OF names(1)] by (simp add: NAME_MAX_def)
  note cr = created_file_is_found [OF ca(1) fdst names(4) r(2) o(10) ne l names(3)]
  have fs: "fst (find_file_by_name src ?g) = Some i" "fst (find_file_by_name dst ?g) = Some j"
    using find_same_records [OF al(1) cg(1) al(2) cg(2) q(3)] cr i(1) by auto
  have "file_bytes ?g j = c @ drop (length c) (file_bytes ?g j)" using q(2) by (metis holds_def append_take_drop_id)
  then have cont: "content src ?g = Some c" "content dst ?g = Some (c @ drop (length c) (file_bytes ?g j))"
    using fs q(1) by (simp_all add: content_def)
  note cl = close_both [OF o(3) cg(4,5) ca(3) o(7,8) cg(3) q(6)]
  let ?p = "file_close (FIRST_FD + of_nat d) (file_close (FIRST_FD + of_nat k) p3)"
  have "copy_files a b p = Some (0, ?p)" by (simp add: copy_files_def o(1,2) p3(1))
  moreover have v: "pg_vfs ?p = snd (vfs_close (FIRST_FD + of_nat d) (snd (vfs_close (FIRST_FD + of_nat k) (pg_vfs p3))))"
    using fd_ge_3 cg(4,5) by (simp add: file_close_def)
  have "pg_out p3 = pg_out p" using q(4) o(11) by (metis prog.select_convs(4) prog.surjective prog.update_convs(1))
  then have "pg_out ?p = pg_out p" by (simp add: file_close_def)
  ultimately show ?thesis
    using cl cont by (intro exI [of _ ?p] exI [of _ "drop (length c) (file_bytes ?g j)"]) (simp add: v)
qed


section \<open>Editing a new file\<close>

text \<open>The lines typed at the editor before \<open>exit\<close>, each shorter than its buffer.\<close>

definition edit_line :: "u8 list \<Rightarrow> bool" where
  "edit_line l \<longleftrightarrow> length l < LINE_SIZE \<and> (\<forall>b \<in> set l. b \<noteq> 0x0A \<and> b \<noteq> 0x0D) \<and> l \<noteq> bytes ''exit''"

definition edit_text :: "u8 list list \<Rightarrow> u8 list" where
  "edit_text ls = concat (map (\<lambda>l. l @ [0x0A]) ls)"

lemma trim_crlf_edit: "\<forall>b \<in> set l. b \<noteq> 0x0A \<and> b \<noteq> 0x0D \<Longrightarrow> trim_crlf (l @ [0x0D]) (length (l @ [0x0D])) = length l"
proof -
  assume "\<forall>b \<in> set l. b \<noteq> 0x0A \<and> b \<noteq> 0x0D"
  then have "dropWhile (\<lambda>b. b = 0x0D \<or> b = 0x0A) (rev l) = rev l" by (cases l rule: rev_cases) auto
  then show ?thesis by (simp add: trim_crlf_def)
qed

lemma editor_loop_line:
  assumes "edit_line l" "pg_in p = (l @ [0x0D]) # ls"
  shows "editor_loop fd p = editor_loop fd (file_write fd [0x0A] (file_write fd l ((out_write (bytes ''> '') p)\<lparr>pg_in := ls\<rparr>)))"
proof -
  have "\<not> (length l = 4 \<and> take 4 (l @ [0x0D]) = bytes ''exit'')" using assms(1) by (auto simp: edit_line_def)
  then show ?thesis
    using assms trim_crlf_edit [of l]
    by (subst editor_loop.simps) (auto simp: edit_line_def line_read_all out_write_def LINE_SIZE_def Let_def)
qed

lemma editor_loop_exit:
  assumes "pg_in p = (bytes ''exit'' @ [0x0D]) # ls"
  shows "editor_loop fd p = Some ((out_write (bytes ''> '') p)\<lparr>pg_in := ls\<rparr>)"
proof -
  have t: "trim_crlf (bytes ''exit'' @ [0x0D]) (length (bytes ''exit'' @ [0x0D])) = 4"
    by (subst trim_crlf_edit) (auto simp: bytes_def)
  have l: "length (bytes ''exit'') = 4" by (simp add: bytes_def)
  show ?thesis
    using assms t l by (subst editor_loop.simps) (simp add: line_read_all out_write_def LINE_SIZE_def Let_def)
qed

lemma editor_loop_writes:
  assumes "holds d j data (pg_vfs p)" "\<forall>l \<in> set ls. edit_line l" "pg_in p = map (\<lambda>l. l @ [0x0D]) (ls @ [bytes ''exit'']) @ ms"
    "length (data @ edit_text ls) < 2 ^ 32" "data_blocks_ok (rec_start (table (vfs_fs (pg_vfs p))) j) (length (data @ edit_text ls))"
  shows "\<exists>p'. editor_loop (FIRST_FD + of_nat d) p = Some p' \<and> holds d j (data @ edit_text ls) (pg_vfs p') \<and>
    same_records j (vfs_fs (pg_vfs p)) (vfs_fs (pg_vfs p')) \<and> (\<forall>k<MAX_OPEN. k \<noteq> d \<longrightarrow> FD_TABLE (pg_vfs p') ! k = FD_TABLE (pg_vfs p) ! k)"
  using assms
proof (induction ls arbitrary: data p)
  case Nil
  then show ?case by (intro exI) (auto simp: editor_loop_exit out_write_def edit_text_def same_records_def)
next
  case (Cons l ls)
  let ?st = "\<lambda>p. rec_start (table (vfs_fs (pg_vfs p))) j"
  let ?ls = "map (\<lambda>l. l @ [0x0D]) (ls @ [bytes ''exit'']) @ ms"
  let ?p1 = "(out_write (bytes ''> '') p)\<lparr>pg_in := ?ls\<rparr>"
  have et: "edit_text (l # ls) = l @ [0x0A] @ edit_text ls" by (simp add: edit_text_def)
  have le: "length (data @ l) \<le> length (data @ edit_text (l # ls))" "length ((data @ l) @ [0x0A]) \<le> length (data @ edit_text (l # ls))" by (simp_all add: et)
  have db: "data_blocks_ok st n" if "data_blocks_ok st m" "n \<le> m" for st n m
    using that div_le_mono [OF that(2), of BLOCK_SIZE] by (auto simp: data_blocks_ok_def)
  have loop: "editor_loop (FIRST_FD + of_nat d) p = editor_loop (FIRST_FD + of_nat d) (file_write (FIRST_FD + of_nat d) [0x0A] (file_write (FIRST_FD + of_nat d) l ?p1))"
    using Cons.prems(2,3) by (intro editor_loop_line) simp_all
  from holds_write [OF Cons.prems(1), of l ?p1] Cons.prems(4) le(1) db [OF Cons.prems(5) le(1)] obtain v where
    v: "file_write (FIRST_FD + of_nat d) l ?p1 = ?p1\<lparr>pg_vfs := v\<rparr>" "holds d j (data @ l) v" "same_records j (vfs_fs (pg_vfs p)) (vfs_fs v)"
      "\<forall>k<MAX_OPEN. k \<noteq> d \<longrightarrow> FD_TABLE v ! k = FD_TABLE (pg_vfs p) ! k" by (auto simp: out_write_def)
  have jb: "j < MAX_FILE_RECORDS" using Cons.prems(1) by (simp add: holds_def open_at_def)
  have st: "rec_start (table (vfs_fs v)) j = ?st p" using v(3) jb by (simp add: same_records_def)
  from holds_write [OF v(2), of "[0x0A]" "?p1\<lparr>pg_vfs := v\<rparr>"] Cons.prems(4) le(2) db [OF Cons.prems(5) le(2)] obtain w where
    w: "file_write (FIRST_FD + of_nat d) [0x0A] (?p1\<lparr>pg_vfs := v\<rparr>) = ?p1\<lparr>pg_vfs := w\<rparr>" "holds d j ((data @ l) @ [0x0A]) w" "same_records j (vfs_fs v) (vfs_fs w)"
      "\<forall>k<MAX_OPEN. k \<noteq> d \<longrightarrow> FD_TABLE w ! k = FD_TABLE v ! k" by (auto simp: st)
  have sr: "same_records j (vfs_fs (pg_vfs p)) (vfs_fs w)" by (rule same_records_trans [OF v(3) w(3)])
  have stw: "rec_start (table (vfs_fs w)) j = ?st p" using sr jb by (simp add: same_records_def)
  from Cons.IH [of "(data @ l) @ [0x0A]" "?p1\<lparr>pg_vfs := w\<rparr>"] w(2) Cons.prems(2,4,5) obtain p' where
    "editor_loop (FIRST_FD + of_nat d) (?p1\<lparr>pg_vfs := w\<rparr>) = Some p'" "holds d j (data @ edit_text (l # ls)) (pg_vfs p')"
    "same_records j (vfs_fs w) (vfs_fs (pg_vfs p'))" "\<forall>k<MAX_OPEN. k \<noteq> d \<longrightarrow> FD_TABLE (pg_vfs p') ! k = FD_TABLE w ! k" by (auto simp: et stw)
  then show ?case using loop v(1,4) w(1,4) same_records_trans [OF sr] by auto
qed


section \<open>Numbers and the status of the shell\<close>

lemma parse_digits:
  "list_all is_digit ds \<Longrightarrow> fold (\<lambda>b r. case r of None \<Rightarrow> None | Some n \<Rightarrow> if b < 0x30 \<or> b > 0x39 then None else Some (n * 10 + ucast (b - 0x30))) ds (Some (of_nat a :: u32)) =
     Some (of_nat (decimal a ds))"
proof (induction ds arbitrary: a)
  case (Cons d ds)
  have "(of_nat a :: u32) * 10 + ucast (d - 0x30) = of_nat (10 * a + unat (d - 0x30))" by (simp add: mult.commute)
  moreover have "\<not> d < 0x30" "\<not> d > 0x39" using Cons.prems by (auto simp: is_digit_def)
  ultimately show ?case using Cons.IH [of "10 * a + unat (d - 0x30)"] Cons.prems by (simp add: decimal_def mult.commute [of "of_nat a" 10])
qed (simp add: decimal_def)

lemma u32_to_dec_digits: "list_all is_digit (u32_to_dec n) \<and> u32_to_dec n \<noteq> [] \<and> decimal 0 (u32_to_dec n) = unat n"
proof (cases "n = 0")
  case True
  then show ?thesis by (simp add: u32_to_dec_def is_digit_def decimal_def)
next
  case False
  have b: "unat n < 10 ^ 12" using unsigned_less [of n, where 'a = nat] by simp
  then show ?thesis
    using False u32_digits_value [OF b, of "[]"] u32_digits_digits [of "[]" 12 "unat n"] u32_digits_leading [OF b, of "[]"]
    by (simp add: u32_to_dec_def unat_gt_0 decimal_def)
qed

lemma parse_print: "parse_u32 (u32_to_dec n) = Some n"
  using u32_to_dec_digits [of n] parse_digits [of "u32_to_dec n" 0] by (simp add: parse_u32_def)

lemma length_u32_digits: "length (u32_digits i v buf) \<le> i + length buf"
proof (induction i v buf rule: u32_digits.induct)
  case (1 i v buf)
  then show ?case by (subst u32_digits.simps) (cases i; auto)
qed

lemma not_blank: "is_digit d \<Longrightarrow> d \<noteq> 0x20 \<and> d \<noteq> 0x0D \<and> d \<noteq> 0x0A"
  by (auto simp: is_digit_def)

lemma trim_word:
  assumes "w \<noteq> []" "hd w \<noteq> 0x20" "last w \<noteq> 0x20" "last w \<noteq> 0x0D" "last w \<noteq> 0x0A"
  shows "trim (w @ [0x0D]) = w" "trim w = w"
proof -
  obtain a u where w: "w = a # u" "a \<noteq> 0x20" using assms(1,2) by (cases w) auto
  obtain z l where z: "w = z @ [l]" using assms(1) by (cases w rule: rev_cases) auto
  have d: "dropWhile (\<lambda>b. b = 0x20) w = w" "dropWhile (\<lambda>b. b = 0x20) (w @ [0x0D]) = w @ [0x0D]" using w by simp_all
  have "dropWhile (\<lambda>b. b = 0x20 \<or> b = 0x0D \<or> b = 0x0A) (rev w) = rev w" using assms(3-5) z by simp
  then show "trim (w @ [0x0D]) = w" "trim w = w" by (simp_all add: trim_def d)
qed

text \<open>One turn of the shell on a line that begins with a word.\<close>

lemma sh_turn_line:
  assumes "pg_in p = (w @ [0x0D]) # ls" "length w < LINE" "w \<noteq> []" "hd w \<noteq> 0x20" "last w \<noteq> 0x20" "last w \<noteq> 0x0D" "last w \<noteq> 0x0A"
  shows "sh_turn p = (case split_cmd w of (cmd, rest) \<Rightarrow> sh_command cmd rest ((out_write sh_prompt p)\<lparr>pg_in := ls\<rparr>))"
proof -
  have "line_read LINE (out_write sh_prompt p) = Some (w @ [0x0D], (out_write sh_prompt p)\<lparr>pg_in := ls\<rparr>)"
    using assms(1,2) by (intro line_read_all) (auto simp: out_write_def)
  then show ?thesis using trim_word(1) [OF assms(3-7)] assms(3) by (simp add: sh_turn_def Let_def)
qed

lemma sh_loop_exits: "sh_turn p = Some (Exits st p') \<Longrightarrow> sh_loop p = Some (st, p')"
  by (subst sh_loop.simps) simp


section \<open>A volume with one file\<close>

text \<open>File \<open>a\<close> has one block of sevens in block 2; the next free block is 3. No descriptor is in use.\<close>

definition sample_table :: "u8 list" where
  "sample_table = set_start 0 2 (set_size 0 4096 (set_name 0 [97] (replicate BLOCK_SIZE 0)))"

definition sample_fs :: fsys where
  "sample_fs = blank\<lparr>fs_disk := (\<lambda>b. if b = FILE_TABLE_BLOCK then sample_table else replicate BLOCK_SIZE 7), NEXT_FREE_BLOCK := 3\<rparr>"

definition sample_prog :: "u8 list list \<Rightarrow> prog" where
  "sample_prog ls = \<lparr>pg_vfs = vfs_boot sample_fs, pg_pid = 5, pg_in = ls, pg_out = [], pg_kids = [], pg_procs = [], pg_spawned = []\<rparr>"

lemma sample_table_fields:
  "length sample_table = BLOCK_SIZE" "rec_name sample_table 0 = [97] @ replicate 31 0" "rec_size sample_table 0 = 4096"
  "j < MAX_FILE_RECORDS \<Longrightarrow> rec_start sample_table j = (if j = 0 then 2 else 0)"
proof -
  have z: "0 < MAX_FILE_RECORDS" by (simp add: MAX_FILE_RECORDS_def)
  have l: "length [97 :: u8] \<le> NAME_MAX" by (simp add: NAME_MAX_def)
  let ?b = "replicate BLOCK_SIZE 0 :: u8 list"
  have b: "length ?b = BLOCK_SIZE" by simp
  note n = set_name_nth [OF b z l] and o = set_name_other [OF b z l]
  have l1: "length (set_size 0 4096 (set_name 0 [97] ?b)) = BLOCK_SIZE" using n(1) by simp
  show "length sample_table = BLOCK_SIZE" using n(1) by (simp add: sample_table_def)
  show "rec_name sample_table 0 = [97] @ replicate 31 0" "rec_size sample_table 0 = 4096"
    using set_fields [OF l1 z z] set_fields [OF n(1) z z] n(3) by (simp_all add: sample_table_def NAME_MAX_def)
  show "rec_start sample_table j = (if j = 0 then 2 else 0)" if j: "j < MAX_FILE_RECORDS"
  proof -
    have "rec_start ?b j = 0" using record_fits [OF j] by (simp add: rec_start_def get32_zero)
    then show ?thesis using set_fields [OF l1 z j] set_fields [OF n(1) z j] o(3) [OF j] by (simp add: sample_table_def)
  qed
qed

lemma sample_fs_ok: "calm sample_fs" "ROOT_MOUNTED sample_fs" "NEXT_FREE_BLOCK sample_fs = 3" "table sample_fs = sample_table"
  using blank_state sample_table_fields(1) by (auto simp: sample_fs_def calm_def)

lemma sample_find:
  assumes "length n \<le> NAME_MAX" "0 \<notin> set n"
  shows "fst (find_file_by_name n sample_fs) = (if n = [97] then Some 0 else None)"
proof -
  have m: "rec_start sample_table j \<noteq> 0 \<and> name_matches (rec_name sample_table j) n \<longleftrightarrow> j = 0 \<and> n = [97]" if "j < MAX_FILE_RECORDS" for j
    using sample_table_fields(2) sample_table_fields(4) [OF that] name_matches_padded [of "[97]" n] assms by (auto simp: NAME_MAX_def)
  then have "List.find (\<lambda>j. rec_start sample_table j \<noteq> 0 \<and> name_matches (rec_name sample_table j) n) [0..<MAX_FILE_RECORDS] =
      List.find (\<lambda>j. j = 0 \<and> n = [97]) [0..<MAX_FILE_RECORDS]" by (intro find_cong) auto
  also have "\<dots> = (if n = [97] then Some 0 else None)" by (auto simp: MAX_FILE_RECORDS_def find_None_iff upt_rec)
  finally show ?thesis using sample_fs_ok by (simp add: find_file_by_name_def read_block_calm)
qed

lemma sample_prog_ok: "vfs_ok (pg_vfs (sample_prog ls))" "vfs_fs (pg_vfs (sample_prog ls)) = sample_fs" "k < MAX_OPEN \<Longrightarrow> file_index (FD_TABLE (pg_vfs (sample_prog ls)) ! k) = None"
  "pg_in (sample_prog ls) = ls"
  using sample_fs_ok by (auto simp: sample_prog_def vfs_boot_def vfs_ok_def fd_closed_def)

lemma sample_content: "content [97] sample_fs = Some (replicate 4096 7)" "content [98] sample_fs = None"
proof -
  have "file_bytes sample_fs 0 = replicate 4096 7"
    using sample_table_fields(3) sample_table_fields(4) [of 0]
    by (intro nth_equalityI) (auto simp: file_bytes_def fbyte_def sample_fs_ok(4) MAX_FILE_RECORDS_def, simp add: sample_fs_def FILE_TABLE_BLOCK_def BLOCK_SIZE_def)
  then show "content [97] sample_fs = Some (replicate 4096 7)" "content [98] sample_fs = None"
    using sample_find [of "[97]"] sample_find [of "[98]"] by (simp_all add: content_def NAME_MAX_def)
qed

lemma sample_names: "plain_name [97]" "plain_name [98]" "path_arg [97] = Ok [97]" "path_arg [98] = Ok [98]"
  by (simp_all add: plain_name_def path_arg_def path_name_def PATH_MAX_def)

theorem file_is_shown_witness:
  "\<exists>p1 p2. cmd_cat [97] (sample_prog []) = Some p1 \<and> pg_out p1 = replicate 4096 7 @ crlf \<and>
     viewer_start (sample_prog [[97, 0x0D]]) = Some (0, p2) \<and> pg_out p2 = bytes ''file: '' @ replicate 4096 7"
proof -
  have f: "\<exists>k<MAX_OPEN. file_index (FD_TABLE (pg_vfs (sample_prog ls)) ! k) = None" for ls
    using sample_prog_ok(3) [of 0] by (intro exI [of _ 0]) (simp add: MAX_OPEN_def)
  have c: "content [97] (vfs_fs (pg_vfs (sample_prog ls))) = Some (replicate 4096 7)" for ls by (simp add: sample_prog_ok sample_content)
  show ?thesis
    using file_is_shown [OF sample_prog_ok(1) sample_names(3) c f, of "[]"] file_is_shown [OF sample_prog_ok(1) sample_names(3) c f, of "[[97, 0x0D]]" "[]"]
      sample_names(1) sample_prog_ok(4)
    by (auto simp: shown_and_closed_def sample_prog_def)
qed




end
