(* ===== verification/Session.thy ===== *)
theory Session
  imports Display_Protocol
begin

text \<open>
  The session program (\<open>userland/src/bin/session.rs\<close>) and the crates it is made of: the display backends
  (\<open>userland/core/src/backend.rs\<close>, \<open>userland/src/backend_kernel.rs\<close>), the configuration (\<open>userland/core/src/config.rs\<close>), the compositor
  (\<open>userland/compositor/src/lib.rs\<close>) and its small window manager (\<open>userland/wm/src/lib.rs\<close>). Drawing is a list of the calls of the backend
  trait; each backend says what a call does. The calls \<open>screen_size\<close> and the wrapper \<open>Server\<close> only hand values through.
\<close>

section \<open>Rounded rectangles\<close>

datatype draw_cmd = Clear u32 | FillRect u32 u32 u32 u32 u32 | Flush

text \<open>The numbers are below \<open>2 ^ 64 - 1\<close>, so that the sums of the loop do not wrap.\<close>

function isqrt_loop :: "nat \<Rightarrow> nat \<Rightarrow> nat \<Rightarrow> nat" where
  "isqrt_loop n x y = (if y < x then isqrt_loop n y ((y + n div y) div 2) else x)"
  by auto
termination by (relation "measure (\<lambda>(n, x, y). x)") auto

declare isqrt_loop.simps [simp del]

definition isqrt_u64 :: "nat \<Rightarrow> nat" where
  "isqrt_u64 n = (if n = 0 then 0 else isqrt_loop n n ((n + 1) div 2))"

text \<open>\<open>r.saturating_sub(x_off)\<close> and \<open>(w - r).saturating_add(x_off)\<close> at a distance \<open>d\<close> from the centre line of a corner.\<close>

definition corner_span :: "u32 \<Rightarrow> u32 \<Rightarrow> u32 \<Rightarrow> u32 \<times> u32" where
  "corner_span r w d =
     (let diff = unat r * unat r - unat d * unat d; x_off = of_nat (isqrt_u64 diff) :: u32;
          left = word_ssub r x_off; right = word_sadd (w - r) x_off
      in (left, word_ssub right left))"

definition rounded_rect_scan :: "u32 \<Rightarrow> u32 \<Rightarrow> u32 \<Rightarrow> u32 \<Rightarrow> u32 \<times> u32" where
  "rounded_rect_scan r w h line =
     (if r = 0 then (0, w)
      else if line \<ge> h then (0, 0)
      else if line < r then corner_span r w (r - line)
      else if line \<ge> word_ssub h r then corner_span r w (line - (h - r))
      else (0, w))"

definition fill_rect_rounded :: "u32 \<Rightarrow> u32 \<Rightarrow> u32 \<Rightarrow> u32 \<Rightarrow> u32 \<Rightarrow> u32 \<Rightarrow> draw_cmd list" where
  "fill_rect_rounded x y w h r color =
     (if r = 0 \<or> w \<le> 2 * r \<or> h \<le> 2 * r then [FillRect x y w h color]
      else concat (map (\<lambda>dy. case rounded_rect_scan r w h (of_nat dy) of (start, len) \<Rightarrow>
             if len > 0 then [FillRect (x + start) (y + of_nat dy) len 1 color] else []) [0..<unat h]))"

section \<open>Configuration\<close>

record 'a range =
  rg_default :: 'a
  rg_min :: 'a
  rg_max :: 'a

datatype shortcut_action = IncreaseTransparency | DecreaseTransparency | IncreaseCornerRadius | DecreaseCornerRadius | Screenshot | Lock
  | ClipboardPaste | FocusLeft | FocusRight | Confirm | ActExit

fun action_index :: "shortcut_action \<Rightarrow> nat" where
  "action_index IncreaseTransparency = 0"
| "action_index DecreaseTransparency = 1"
| "action_index IncreaseCornerRadius = 2"
| "action_index DecreaseCornerRadius = 3"
| "action_index Screenshot = 4"
| "action_index Lock = 5"
| "action_index ClipboardPaste = 6"
| "action_index FocusLeft = 7"
| "action_index FocusRight = 8"
| "action_index Confirm = 9"
| "action_index ActExit = 10"

record config =
  cf_transparency :: "u8 range"
  cf_corner_radius :: "u32 range"
  cf_shortcuts :: "u8 list"

definition config_default :: config where
  "config_default = \<lparr>cf_transparency = \<lparr>rg_default = 255, rg_min = 128, rg_max = 255\<rparr>,
     cf_corner_radius = \<lparr>rg_default = 8, rg_min = 0, rg_max = 24\<rparr>, cf_shortcuts = replicate 11 0\<rparr>"

definition clamp :: "'a::linorder \<Rightarrow> 'a \<Rightarrow> 'a \<Rightarrow> 'a" where
  "clamp lo hi v = (if v < lo then lo else if v > hi then hi else v)"

definition clamp_transparency :: "config \<Rightarrow> u8 \<Rightarrow> u8" where
  "clamp_transparency c = clamp (rg_min (cf_transparency c)) (rg_max (cf_transparency c))"

definition clamp_corner_radius :: "config \<Rightarrow> u32 \<Rightarrow> u32" where
  "clamp_corner_radius c = clamp (rg_min (cf_corner_radius c)) (rg_max (cf_corner_radius c))"

definition key_for :: "config \<Rightarrow> shortcut_action \<Rightarrow> u8" where
  "key_for c a = (let i = action_index a in if i < length (cf_shortcuts c) then cf_shortcuts c ! i else 0)"

section \<open>Compositor\<close>

record compositor =
  cp_transparency :: u8
  cp_corner_radius :: u32

definition compositor_new :: "config \<Rightarrow> compositor" where
  "compositor_new c = \<lparr>cp_transparency = clamp_transparency c (rg_default (cf_transparency c)),
     cp_corner_radius = clamp_corner_radius c (rg_default (cf_corner_radius c))\<rparr>"

definition increase_transparency :: "config \<Rightarrow> compositor \<Rightarrow> compositor" where
  "increase_transparency c s = s\<lparr>cp_transparency := clamp_transparency c (min (word_sadd (cp_transparency s) 16) 255)\<rparr>"

definition decrease_transparency :: "config \<Rightarrow> compositor \<Rightarrow> compositor" where
  "decrease_transparency c s = s\<lparr>cp_transparency := clamp_transparency c (word_ssub (cp_transparency s) 16)\<rparr>"

definition increase_corner_radius :: "config \<Rightarrow> compositor \<Rightarrow> compositor" where
  "increase_corner_radius c s = s\<lparr>cp_corner_radius := clamp_corner_radius c (word_sadd (cp_corner_radius s) 2)\<rparr>"

definition decrease_corner_radius :: "config \<Rightarrow> compositor \<Rightarrow> compositor" where
  "decrease_corner_radius c s = s\<lparr>cp_corner_radius := clamp_corner_radius c (word_ssub (cp_corner_radius s) 2)\<rparr>"

record window_rect =
  wr_x :: u32
  wr_y :: u32
  wr_w :: u32
  wr_h :: u32
  wr_fill :: u32
  wr_border :: u32
  wr_border_px :: u32

text \<open>The colour channels; \<open>>>\<close> binds closer than \<open>&\<close>.\<close>

definition chan :: "nat \<Rightarrow> u32 \<Rightarrow> u32" where
  "chan k c = drop_bit k c AND 0xFF"

definition blend_chan :: "u8 \<Rightarrow> u32 \<Rightarrow> u32 \<Rightarrow> u32" where
  "blend_chan alpha s d = (s * ucast alpha + d * (255 - ucast alpha)) div 255"

definition blend_pixel :: "u32 \<Rightarrow> u32 \<Rightarrow> u8 \<Rightarrow> u32" where
  "blend_pixel dst src alpha =
     (if alpha = 255 then (src AND 0x00FFFFFF) OR 0xFF000000
      else if alpha = 0 then dst
      else 0xFF000000 OR push_bit 16 (blend_chan alpha (chan 16 src) (chan 16 dst)) OR
           push_bit 8 (blend_chan alpha (chan 8 src) (chan 8 dst)) OR blend_chan alpha (chan 0 src) (chan 0 dst))"

text \<open>One step of the two loops of \<open>blend_surface_into\<close>; \<open>as i32\<close> and the sums wrap.\<close>

definition blend_step :: "u32 list \<Rightarrow> int \<Rightarrow> int \<Rightarrow> u32 \<Rightarrow> u32 \<Rightarrow> u32 \<Rightarrow> u8 \<Rightarrow> nat \<times> nat \<Rightarrow> u32 list \<Rightarrow> u32 list" where
  "blend_step src dst_x dst_y src_stride screen_w screen_h alpha rc dst =
     (case rc of (row, col) \<Rightarrow>
        let dy = i32 (dst_y + int row); dx = i32 (dst_x + int col)
        in if dy < 0 \<or> dy \<ge> sint screen_h \<or> dx < 0 \<or> dx \<ge> sint screen_w then dst
           else let si = unat (of_nat row * src_stride + of_nat col); di = unat (word_of_int dy * screen_w + word_of_int dx)
                in if si < length src \<and> di < length dst then dst[di := blend_pixel (dst ! di) (src ! si) alpha] else dst)"

definition blend_surface_into :: "u32 list \<Rightarrow> int \<Rightarrow> int \<Rightarrow> u32 \<Rightarrow> u32 \<Rightarrow> u32 \<Rightarrow> u32 \<Rightarrow> u32 \<Rightarrow> u8 \<Rightarrow> u32 list \<Rightarrow> u32 list" where
  "blend_surface_into src dst_x dst_y src_w src_h src_stride screen_w screen_h alpha dst =
     fold (blend_step src dst_x dst_y src_stride screen_w screen_h alpha) (List.product [0..<unat src_h] [0..<unat src_w]) dst"

definition apply_alpha_to_color :: "u32 \<Rightarrow> u8 \<Rightarrow> u32" where
  "apply_alpha_to_color color alpha =
     (if alpha = 255 then color
      else 0xFF000000 OR push_bit 16 (chan 16 color * ucast alpha div 255) OR push_bit 8 (chan 8 color * ucast alpha div 255) OR
           (chan 0 color * ucast alpha div 255))"

definition border_cmds :: "window_rect \<Rightarrow> draw_cmd list" where
  "border_cmds w =
     (let x = wr_x w; y = wr_y w; ww = wr_w w; hh = wr_h w; b = wr_border_px w; c = wr_border w
      in if b > 0 \<and> ww > 2 * b \<and> hh > 2 * b
         then [FillRect x y ww b c, FillRect x (y + hh - b) ww b c, FillRect x y b hh c, FillRect (x + ww - b) y b hh c] else [])"

definition composite_window :: "compositor \<Rightarrow> window_rect \<Rightarrow> draw_cmd list" where
  "composite_window cp w =
     (if wr_w w = 0 \<or> wr_h w = 0 then []
      else fill_rect_rounded (wr_x w) (wr_y w) (wr_w w) (wr_h w) (cp_corner_radius cp) (apply_alpha_to_color (wr_fill w) (cp_transparency cp)) @
           border_cmds w)"

definition composite :: "u32 \<Rightarrow> compositor \<Rightarrow> window_rect list \<Rightarrow> draw_cmd list" where
  "composite bg cp ws = [Clear bg] @ concat (map (composite_window cp) ws) @ [Flush]"

section \<open>Backends\<close>

text \<open>The screen that the kernel reports, or a default.\<close>

record kernel_backend =
  kb_width :: u32
  kb_height :: u32

definition kernel_backend_new :: "u32 \<times> u32 \<Rightarrow> kernel_backend" where
  "kernel_backend_new answer = (case answer of (w, h) \<Rightarrow> if w = 0 \<or> h = 0 then \<lparr>kb_width = 1920, kb_height = 1080\<rparr> else \<lparr>kb_width = w, kb_height = h\<rparr>)"

record backbuffer_backend =
  ub_ptr :: u64
  ub_width :: u32
  ub_height :: u32
  ub_stride_px :: nat

text \<open>The answers to \<open>sys_claim_compositor\<close> and \<open>sys_map_framebuffer\<close>: a result and the four values it stores.\<close>

definition backbuffer_claim :: "u64 \<Rightarrow> u64 \<Rightarrow> u64 \<Rightarrow> u32 \<Rightarrow> u32 \<Rightarrow> u32 \<Rightarrow> backbuffer_backend option" where
  "backbuffer_claim claimed mapped fb_ptr fb_w fb_h stride_bytes =
     (if sint claimed < 0 then None
      else if sint mapped < 0 \<or> fb_ptr = 0 \<or> fb_w = 0 \<or> fb_h = 0 then None
      else Some \<lparr>ub_ptr = fb_ptr, ub_width = fb_w, ub_height = fb_h, ub_stride_px = unat (stride_bytes div 4)\<rparr>)"

text \<open>The pixels behind the pointer, by their index; the two loops of \<open>clear\<close> and \<open>fill_rect\<close>.\<close>

definition bb_paint :: "backbuffer_backend \<Rightarrow> nat list \<Rightarrow> nat list \<Rightarrow> u32 \<Rightarrow> (nat \<Rightarrow> u32) \<Rightarrow> nat \<Rightarrow> u32" where
  "bb_paint b ys xs color = fold (\<lambda>row. fold (\<lambda>col px. px(row * ub_stride_px b + col := color)) xs) ys"

definition bb_clear :: "backbuffer_backend \<Rightarrow> u32 \<Rightarrow> (nat \<Rightarrow> u32) \<Rightarrow> nat \<Rightarrow> u32" where
  "bb_clear b color = bb_paint b [0..<unat (ub_height b)] [0..<unat (ub_width b)] color"

definition bb_fill_rect :: "backbuffer_backend \<Rightarrow> u32 \<Rightarrow> u32 \<Rightarrow> u32 \<Rightarrow> u32 \<Rightarrow> u32 \<Rightarrow> (nat \<Rightarrow> u32) \<Rightarrow> nat \<Rightarrow> u32" where
  "bb_fill_rect b x y w h color =
     (let x_end = unat (min (x + w) (ub_width b)); y_end = unat (min (y + h) (ub_height b))
      in bb_paint b [unat y..<y_end] [unat x..<x_end] color)"

fun bb_draw :: "backbuffer_backend \<Rightarrow> draw_cmd \<Rightarrow> (nat \<Rightarrow> u32) \<Rightarrow> nat \<Rightarrow> u32" where
  "bb_draw b (Clear c) px = bb_clear b c px"
| "bb_draw b (FillRect x y w h c) px = bb_fill_rect b x y w h c px"
| "bb_draw b Flush px = px"

text \<open>The calls of the kernel backend, on the display state of the kernel; an answer is ignored.\<close>

fun kernel_draw :: "u32 \<Rightarrow> draw_cmd \<Rightarrow> display halting \<Rightarrow> display halting" where
  "kernel_draw caller (Clear c) m = bind_halt m (\<lambda>d. Done (sys_fb_clear c d))"
| "kernel_draw caller (FillRect x y w h c) m = bind_halt m (sys_fb_fill_rect x y w h c)"
| "kernel_draw caller Flush m = bind_halt m (\<lambda>d. Done (sys_fb_flush caller d))"

text \<open>The session prefers the backbuffer.\<close>

datatype any_backend = Backbuffer backbuffer_backend | KernelBackend kernel_backend

definition choose_backend :: "backbuffer_backend option \<Rightarrow> u32 \<times> u32 \<Rightarrow> any_backend" where
  "choose_backend claimed answer = (case claimed of Some bb \<Rightarrow> Backbuffer bb | None \<Rightarrow> KernelBackend (kernel_backend_new answer))"

fun screen_size :: "any_backend \<Rightarrow> u32 \<times> u32" where
  "screen_size (Backbuffer b) = (ub_width b, ub_height b)"
| "screen_size (KernelBackend b) = (kb_width b, kb_height b)"

section \<open>Windows and keys\<close>

record session_wm =
  sw_windows :: "window_rect list"
  sw_focused :: nat

definition focus_left :: "session_wm \<Rightarrow> session_wm" where
  "focus_left s = (if sw_focused s > 0 then s\<lparr>sw_focused := sw_focused s - 1\<rparr> else s)"

definition focus_right :: "session_wm \<Rightarrow> session_wm" where
  "focus_right s = (if sw_focused s + 1 < length (sw_windows s) then s\<lparr>sw_focused := sw_focused s + 1\<rparr> else s)"

definition window_rects :: "u32 \<Rightarrow> u32 \<Rightarrow> nat \<Rightarrow> session_wm \<Rightarrow> window_rect list" where
  "window_rects active_fill active_border cap s =
     map (\<lambda>(i, w). if i = sw_focused s then w\<lparr>wr_fill := active_fill, wr_border := active_border\<rparr> else w)
       (zip [0..<min (length (sw_windows s)) cap] (sw_windows s))"

definition all_actions :: "shortcut_action list" where
  "all_actions = [IncreaseTransparency, DecreaseTransparency, IncreaseCornerRadius, DecreaseCornerRadius, Screenshot, Lock, ClipboardPaste,
     FocusLeft, FocusRight, Confirm, ActExit]"

definition key_to_action :: "config \<Rightarrow> u8 \<Rightarrow> shortcut_action option" where
  "key_to_action c k = List.find (\<lambda>a. key_for c a = k) all_actions"

section \<open>The program\<close>

definition KEY_LEFT :: u8 where "KEY_LEFT = 1"
definition KEY_RIGHT :: u8 where "KEY_RIGHT = 2"
definition BG_COLOR :: u32 where "BG_COLOR = 0xFF1A0A2E"
definition WINDOW_INACTIVE :: u32 where "WINDOW_INACTIVE = 0xFF2D1B69"
definition WINDOW_ACTIVE :: u32 where "WINDOW_ACTIVE = 0xFF4B3B8C"
definition BORDER_INACTIVE :: u32 where "BORDER_INACTIVE = 0xFF0D0520"
definition BORDER_ACTIVE :: u32 where "BORDER_ACTIVE = 0xFF8B7BCC"

definition window_new :: "u32 \<Rightarrow> u32 \<Rightarrow> u32 \<Rightarrow> u32 \<Rightarrow> u32 \<Rightarrow> u32 \<Rightarrow> u32 \<Rightarrow> window_rect" where
  "window_new x y w h f b b_px = \<lparr>wr_x = x, wr_y = y, wr_w = w, wr_h = h, wr_fill = f, wr_border = b, wr_border_px = b_px\<rparr>"

definition WINDOWS :: "window_rect list" where
  "WINDOWS = [window_new 80 80 320 200 WINDOW_INACTIVE BORDER_INACTIVE 2, window_new 440 80 320 200 WINDOW_INACTIVE BORDER_INACTIVE 2,
     window_new 800 80 320 200 WINDOW_INACTIVE BORDER_INACTIVE 2]"

definition default_config :: config where
  "default_config = config_default\<lparr>cf_shortcuts := (((((cf_shortcuts config_default)[action_index FocusLeft := KEY_LEFT])
     [action_index FocusRight := KEY_RIGHT])[action_index Confirm := KEY_ENTER])[action_index ActExit := KEY_ESC])\<rparr>"

record session =
  ss_wm :: session_wm
  ss_comp :: compositor

definition session_draw :: "session \<Rightarrow> draw_cmd list" where
  "session_draw s = composite BG_COLOR (ss_comp s) (window_rects WINDOW_ACTIVE BORDER_ACTIVE 16 (ss_wm s))"

definition session_start :: "session \<times> draw_cmd list" where
  "session_start =
     (let s = \<lparr>ss_wm = \<lparr>sw_windows = WINDOWS, sw_focused = 0\<rparr>, ss_comp = compositor_new default_config\<rparr> in (s, session_draw s))"

text \<open>What an action does: the new state with whether it draws, or \<open>None\<close> for the exit. The three utilities are stubs without effect.\<close>

fun session_action :: "shortcut_action \<Rightarrow> session \<Rightarrow> (session \<times> bool) option" where
  "session_action FocusLeft s = Some (s\<lparr>ss_wm := focus_left (ss_wm s)\<rparr>, True)"
| "session_action FocusRight s = Some (s\<lparr>ss_wm := focus_right (ss_wm s)\<rparr>, True)"
| "session_action IncreaseTransparency s = Some (s\<lparr>ss_comp := increase_transparency default_config (ss_comp s)\<rparr>, True)"
| "session_action DecreaseTransparency s = Some (s\<lparr>ss_comp := decrease_transparency default_config (ss_comp s)\<rparr>, True)"
| "session_action IncreaseCornerRadius s = Some (s\<lparr>ss_comp := increase_corner_radius default_config (ss_comp s)\<rparr>, True)"
| "session_action DecreaseCornerRadius s = Some (s\<lparr>ss_comp := decrease_corner_radius default_config (ss_comp s)\<rparr>, True)"
| "session_action Screenshot s = Some (s, False)"
| "session_action Lock s = Some (s, False)"
| "session_action ClipboardPaste s = Some (s, False)"
| "session_action Confirm s = Some (s, True)"
| "session_action ActExit s = None"

text \<open>The events that \<open>sys_poll_input\<close> delivers, in their order: the state, what is drawn, and whether the program still runs.\<close>

definition session_key :: "key_event \<Rightarrow> session \<Rightarrow> session \<times> draw_cmd list \<times> bool" where
  "session_key ev s =
     (if \<not> pressed ev then (s, [], True)
      else case key_to_action default_config (keycode ev) of
            None \<Rightarrow> (s, [], True)
          | Some a \<Rightarrow> (case session_action a s of
                None \<Rightarrow> (s, [], False)
              | Some (s', draws) \<Rightarrow> (s', if draws then session_draw s' else [], True)))"

fun session_events :: "key_event list \<Rightarrow> session \<Rightarrow> session \<times> draw_cmd list \<times> bool" where
  "session_events [] s = (s, [], True)"
| "session_events (ev # evs) s = (case session_key ev s of (s1, o1, alive) \<Rightarrow>
     if \<not> alive then (s1, o1, False)
     else case session_events evs s1 of (s2, o2, alive2) \<Rightarrow> (s2, o1 @ o2, alive2))"

text \<open>The whole program: the first frame, then the events.\<close>

definition session_run :: "key_event list \<Rightarrow> session \<times> draw_cmd list \<times> bool" where
  "session_run evs = (case session_start of (s, o1) \<Rightarrow> case session_events evs s of (s', o2, alive) \<Rightarrow> (s', o1 @ o2, alive))"

section \<open>The integer square root\<close>

lemma amgm_nat: "4 * (a * b) \<le> (a + b) * (a + b :: nat)"
proof -
  have "0 \<le> (int a - int b) * (int a - int b)" by simp
  then have "4 * (int a * int b) \<le> (int a + int b) * (int a + int b)" by (simp add: algebra_simps)
  then show ?thesis by (metis of_nat_add of_nat_le_iff of_nat_mult of_nat_numeral)
qed

lemma newton_step:
  assumes "0 < x" "y = (x + n div x) div 2"
  shows "n < (y + 1) * (y + 1 :: nat)"
proof -
  let ?b = "n div x + 1"
  have half: "m + 1 \<le> 2 * (m div 2 + 1)" for m :: nat by presburger
  have "n < x * ?b" using assms(1) by (metis dividend_less_times_div add.commute distrib_left mult.right_neutral)
  moreover have "x + ?b \<le> 2 * (y + 1)" unfolding assms(2) using half [of "x + n div x"] by linarith
  then have "(x + ?b) * (x + ?b) \<le> 2 * (y + 1) * (2 * (y + 1))" using mult_le_mono by blast
  ultimately show ?thesis using amgm_nat [of x ?b] by simp
qed

lemma isqrt_loop_correct:
  assumes "0 < n" "0 < x" "y = (x + n div x) div 2" "n < (x + 1) * (x + 1)"
  shows "isqrt_loop n x y * isqrt_loop n x y \<le> n \<and> n < (isqrt_loop n x y + 1) * (isqrt_loop n x y + 1)"
  using assms
proof (induction n x y rule: isqrt_loop.induct)
  case (1 n x y)
  show ?case
  proof (cases "y < x")
    case True
    have "0 < y" using 1(2-5) True by (cases "x = 1") auto
    then show ?thesis using 1 True newton_step [of x y n] by (subst (1 2 3 4) isqrt_loop.simps) simp
  next
    case False
    then have "x \<le> n div x" using 1(4) by linarith
    then have "x * x \<le> n" using 1(3) by (simp add: less_eq_div_iff_mult_less_eq)
    then show ?thesis using 1(5) False by (simp add: isqrt_loop.simps [of n x y])
  qed
qed

lemma isqrt_correct: "isqrt_u64 n * isqrt_u64 n \<le> n \<and> n < (isqrt_u64 n + 1) * (isqrt_u64 n + 1)"
proof (cases "n = 0")
  case False
  then show ?thesis unfolding isqrt_u64_def using isqrt_loop_correct [of n n "(n + 1) div 2"] by (simp add: algebra_simps)
qed (simp add: isqrt_u64_def)

lemma le_isqrt_iff: "k \<le> isqrt_u64 n \<longleftrightarrow> k * k \<le> n"
proof
  assume "k \<le> isqrt_u64 n"
  then have "k * k \<le> isqrt_u64 n * isqrt_u64 n" using mult_le_mono by blast
  then show "k * k \<le> n" using isqrt_correct [of n] by linarith
next
  assume k: "k * k \<le> n"
  show "k \<le> isqrt_u64 n"
  proof (rule ccontr)
    assume "\<not> k \<le> isqrt_u64 n"
    then have "isqrt_u64 n + 1 \<le> k" by linarith
    then have "(isqrt_u64 n + 1) * (isqrt_u64 n + 1) \<le> k * k" using mult_le_mono by blast
    then show False using k isqrt_correct [of n] by linarith
  qed
qed

section \<open>What a scene looks like\<close>

text \<open>How far a column or a row of a rounded rectangle lies inside the band of the corners, and the shape itself.\<close>

definition corner_dx :: "nat \<Rightarrow> nat \<Rightarrow> nat \<Rightarrow> nat" where
  "corner_dx r w col = (if col < r then r - col else if col \<ge> w - r then col - (w - r) + 1 else 0)"

definition corner_dy :: "nat \<Rightarrow> nat \<Rightarrow> nat \<Rightarrow> nat" where
  "corner_dy r h row = (if row < r then r - row else if row \<ge> h - r then row - (h - r) else 0)"

definition in_rounded :: "nat \<Rightarrow> nat \<Rightarrow> nat \<Rightarrow> nat \<Rightarrow> nat \<Rightarrow> bool" where
  "in_rounded r w h col row \<longleftrightarrow> col < w \<and> row < h \<and>
     (2 * r < w \<and> 2 * r < h \<longrightarrow> corner_dx r w col * corner_dx r w col + corner_dy r h row * corner_dy r h row \<le> r * r)"

definition on_border :: "nat \<Rightarrow> nat \<Rightarrow> nat \<Rightarrow> nat \<Rightarrow> nat \<Rightarrow> bool" where
  "on_border b w h col row \<longleftrightarrow> 2 * b < w \<and> 2 * b < h \<and> col < w \<and> row < h \<and> (col < b \<or> w - b \<le> col \<or> row < b \<or> h - b \<le> row)"

text \<open>The colour of a pixel after a window has been drawn over it, and after a scene.\<close>

definition window_colour :: "compositor \<Rightarrow> nat \<Rightarrow> nat \<Rightarrow> window_rect \<Rightarrow> u32 \<Rightarrow> u32" where
  "window_colour cp row col w c =
     (let x = unat (wr_x w); y = unat (wr_y w)
      in if col < x \<or> row < y then c
         else if on_border (unat (wr_border_px w)) (unat (wr_w w)) (unat (wr_h w)) (col - x) (row - y) then wr_border w
         else if in_rounded (unat (cp_corner_radius cp)) (unat (wr_w w)) (unat (wr_h w)) (col - x) (row - y)
              then apply_alpha_to_color (wr_fill w) (cp_transparency cp)
         else c)"

definition scene_colour :: "u32 \<Rightarrow> compositor \<Rightarrow> window_rect list \<Rightarrow> nat \<Rightarrow> nat \<Rightarrow> u32" where
  "scene_colour bg cp ws row col = fold (window_colour cp row col) ws bg"

definition window_fits :: "window_rect \<Rightarrow> bool" where
  "window_fits w \<longleftrightarrow> unat (wr_x w) + unat (wr_w w) < 2 ^ 32 \<and> unat (wr_y w) + unat (wr_h w) < 2 ^ 32 \<and> unat (wr_border_px w) < 2 ^ 31"

subsection \<open>Spans of a rounded rectangle\<close>

lemma unat_u32: "unat (x :: u32) < 2 ^ 32"
  using unsigned_less [of x, where 'a = nat] by simp

lemma isqrt_le_radius: "isqrt_u64 (r * r - d * d) \<le> r"
proof (rule ccontr)
  assume "\<not> ?thesis"
  then have "(r + 1) * (r + 1) \<le> r * r - d * d" using le_isqrt_iff [of "r + 1" "r * r - d * d"] by simp
  then show False by simp
qed

lemma corner_span_unat:
  fixes r w d :: u32
  assumes "2 * unat r < unat w"
  defines "s \<equiv> isqrt_u64 (unat r * unat r - unat d * unat d)"
  shows "unat (fst (corner_span r w d)) = unat r - s" and "unat (snd (corner_span r w d)) = unat w - unat r + s - (unat r - s)"
proof -
  have s: "s \<le> unat r" unfolding s_def by (rule isqrt_le_radius)
  have w: "unat w < 2 ^ 32" and r: "unat r < 2 ^ 32" using unat_u32 [of w] unat_u32 [of r] by simp_all
  have u: "unat (of_nat s :: u32) = s" using s r by (simp add: unat_of_nat)
  have m: "unat (w - r) = unat w - unat r" using assms by (simp add: unat_sub word_le_nat_alt)
  show "unat (fst (corner_span r w d)) = unat r - s" using u by (simp add: corner_span_def Let_def s_def unat_word_ssub)
  show "unat (snd (corner_span r w d)) = unat w - unat r + s - (unat r - s)"
    using u m s w assms(1) by (simp add: corner_span_def Let_def s_def unat_word_ssub unat_word_sadd)
qed

lemma in_span_iff:
  fixes r w d col :: nat
  assumes "2 * r < w" "d \<le> r"
  defines "s \<equiv> isqrt_u64 (r * r - d * d)"
  shows "r - s \<le> col \<and> col < r - s + (w - r + s - (r - s)) \<longleftrightarrow> col < w \<and> corner_dx r w col * corner_dx r w col + d * d \<le> r * r"
proof -
  have s: "s \<le> r" unfolding s_def by (rule isqrt_le_radius)
  have d: "d * d \<le> r * r" using assms(2) mult_le_mono by blast
  have k: "k \<le> s \<longleftrightarrow> k * k + d * d \<le> r * r" for k unfolding s_def le_isqrt_iff using d by linarith
  have e: "r - s + (w - r + s - (r - s)) = w - r + s" using s assms(1) by linarith
  have "r - s \<le> col \<and> col < w - r + s \<longleftrightarrow> col < w \<and> corner_dx r w col \<le> s"
    using s assms(1) unfolding corner_dx_def by (auto; linarith)
  then show ?thesis using e k by metis
qed

lemma corner_span_shape:
  assumes "2 * unat r < unat w" "2 * unat r < unat h" "row < unat h" "unat d = corner_dy (unat r) (unat h) row"
  shows "unat (fst (corner_span r w d)) \<le> col \<and> col < unat (fst (corner_span r w d)) + unat (snd (corner_span r w d)) \<longleftrightarrow>
         in_rounded (unat r) (unat w) (unat h) col row"
proof -
  have "unat d \<le> unat r" using assms unfolding assms(4) corner_dy_def by auto
  from in_span_iff [OF assms(1) this, of col] show ?thesis
    unfolding corner_span_unat [OF assms(1)] in_rounded_def assms(4) using assms(1-3) by blast
qed

lemma scan_span:
  assumes "2 * unat r < unat w" "2 * unat r < unat h" "row < unat h"
  shows "unat (fst (rounded_rect_scan r w h (of_nat row))) \<le> col \<and>
         col < unat (fst (rounded_rect_scan r w h (of_nat row))) + unat (snd (rounded_rect_scan r w h (of_nat row))) \<longleftrightarrow>
         in_rounded (unat r) (unat w) (unat h) col row"
proof -
  have hh: "unat h < 2 ^ 32" using unat_u32 [of h] by simp
  then have u: "unat (of_nat row :: u32) = row" using assms(3) by (simp add: unat_of_nat)
  have hr: "unat (h - r) = unat h - unat r" using assms by (simp add: unat_sub word_le_nat_alt)
  consider "r = 0" | "r \<noteq> 0" "row < unat r" | "r \<noteq> 0" "unat r \<le> row" "unat h - unat r \<le> row" | "r \<noteq> 0" "unat r \<le> row" "row < unat h - unat r"
    by linarith
  then show ?thesis
  proof cases
    case 1
    then show ?thesis using assms by (auto simp: rounded_rect_scan_def in_rounded_def corner_dx_def corner_dy_def)
  next
    case 2
    then have "rounded_rect_scan r w h (of_nat row) = corner_span r w (r - of_nat row)"
      using u assms by (simp add: rounded_rect_scan_def word_le_nat_alt word_less_nat_alt)
    moreover have "unat (r - of_nat row) = unat r - row" using 2 u by (simp add: unat_sub word_le_nat_alt)
    ultimately show ?thesis using corner_span_shape [OF assms] 2 by (metis corner_dy_def not_less)
  next
    case 3
    then have "rounded_rect_scan r w h (of_nat row) = corner_span r w (of_nat row - (h - r))"
      using u hr assms by (simp add: rounded_rect_scan_def word_le_nat_alt word_less_nat_alt unat_word_ssub)
    moreover have "unat (of_nat row - (h - r)) = row - (unat h - unat r)" using 3 u hr by (simp add: unat_sub word_le_nat_alt)
    ultimately show ?thesis using corner_span_shape [OF assms] 3 by (metis corner_dy_def not_less)
  next
    case 4
    then have "rounded_rect_scan r w h (of_nat row) = (0, w)"
      using u hr assms by (simp add: rounded_rect_scan_def word_le_nat_alt word_less_nat_alt unat_word_ssub)
    moreover have "corner_dx (unat r) (unat w) col \<le> unat r" if "col < unat w" using that assms by (auto simp: corner_dx_def)
    then have "corner_dx (unat r) (unat w) col * corner_dx (unat r) (unat w) col \<le> unat r * unat r" if "col < unat w"
      using that mult_le_mono by blast
    ultimately show ?thesis using 4 assms by (auto simp: in_rounded_def corner_dy_def)
  qed
qed

subsection \<open>Painting\<close>

definition pix :: "backbuffer_backend \<Rightarrow> nat \<Rightarrow> nat \<Rightarrow> nat" where
  "pix b row col = row * ub_stride_px b + col"

definition on_screen :: "backbuffer_backend \<Rightarrow> nat \<Rightarrow> nat \<Rightarrow> bool" where
  "on_screen b row col \<longleftrightarrow> row < unat (ub_height b) \<and> col < unat (ub_width b) \<and> unat (ub_width b) \<le> ub_stride_px b"

lemma pix_inj:
  assumes "c < ub_stride_px b" "col < ub_stride_px b"
  shows "pix b r c = pix b row col \<longleftrightarrow> r = row \<and> c = col"
proof
  assume "pix b r c = pix b row col"
  then have "pix b r c div ub_stride_px b = pix b row col div ub_stride_px b" "pix b r c mod ub_stride_px b = pix b row col mod ub_stride_px b"
    by simp_all
  then show "r = row \<and> c = col" using assms by (simp add: pix_def)
qed simp

lemma paint_row:
  assumes "\<forall>c\<in>set xs. c < ub_stride_px b" "col < ub_stride_px b"
  shows "fold (\<lambda>c px. px(r * ub_stride_px b + c := color)) xs px (pix b row col) = (if r = row \<and> col \<in> set xs then color else px (pix b row col))"
  using assms by (induction xs arbitrary: px) (auto simp: pix_inj simp flip: pix_def)

lemma bb_paint_at:
  assumes "\<forall>c\<in>set xs. c < ub_stride_px b" "col < ub_stride_px b"
  shows "bb_paint b ys xs color px (pix b row col) = (if row \<in> set ys \<and> col \<in> set xs then color else px (pix b row col))"
  unfolding bb_paint_def by (induction ys arbitrary: px) (auto simp: paint_row [OF assms])

lemma bb_clear_at: "on_screen b row col \<Longrightarrow> bb_clear b color px (pix b row col) = color"
  unfolding bb_clear_def on_screen_def by (subst bb_paint_at) auto

lemma bb_fill_rect_at:
  assumes "on_screen b row col" "unat x + unat w < 2 ^ 32" "unat y + unat h < 2 ^ 32"
  shows "bb_fill_rect b x y w h color px (pix b row col) =
         (if unat x \<le> col \<and> col < unat x + unat w \<and> unat y \<le> row \<and> row < unat y + unat h then color else px (pix b row col))"
proof -
  have "unat (x + w) = unat x + unat w" "unat (y + h) = unat y + unat h" using assms by (simp_all add: unat_word_ariths)
  then have m: "unat (min (x + w) (ub_width b)) = min (unat x + unat w) (unat (ub_width b))"
      "unat (min (y + h) (ub_height b)) = min (unat y + unat h) (unat (ub_height b))"
    by (simp_all add: min_def word_le_nat_alt)
  show ?thesis unfolding bb_fill_rect_def Let_def m
    using assms(1) by (subst bb_paint_at) (auto simp: on_screen_def)
qed

lemma border_rects:
  fixes x y w h b row col :: nat
  assumes "2 * b < w" "2 * b < h"
  shows "x \<le> col \<and> y \<le> row \<and> on_border b w h (col - x) (row - y) \<longleftrightarrow>
    (x \<le> col \<and> col < x + w \<and> y \<le> row \<and> row < y + b) \<or> (x \<le> col \<and> col < x + w \<and> y + h - b \<le> row \<and> row < y + h - b + b) \<or>
    (x \<le> col \<and> col < x + b \<and> y \<le> row \<and> row < y + h) \<or> (x + w - b \<le> col \<and> col < x + w - b + b \<and> y \<le> row \<and> row < y + h)"
proof (cases "x \<le> col \<and> y \<le> row")
  case True
  then obtain i j where "col = x + i" "row = y + j" by (metis le_Suc_ex)
  then show ?thesis using assms by (auto simp: on_border_def)
next
  case False
  then show ?thesis using assms by auto
qed

lemma if_chain: "(if p4 then c else if p3 then c else if p2 then c else if p1 then c else d) = (if p1 \<or> p2 \<or> p3 \<or> p4 then c else d)"
  by simp

section \<open>The session\<close>

definition session_ok :: "session \<Rightarrow> bool" where
  "session_ok s \<longleftrightarrow> sw_windows (ss_wm s) = WINDOWS \<and> sw_focused (ss_wm s) < length WINDOWS \<and>
     128 \<le> cp_transparency (ss_comp s) \<and> cp_corner_radius (ss_comp s) \<le> 24"

definition session_scene :: "session \<Rightarrow> nat \<Rightarrow> nat \<Rightarrow> u32" where
  "session_scene s = scene_colour BG_COLOR (ss_comp s) (window_rects WINDOW_ACTIVE BORDER_ACTIVE 16 (ss_wm s))"

lemma clamped: "128 \<le> clamp_transparency default_config v" "clamp_corner_radius default_config r \<le> 24"
  by (auto simp: clamp_transparency_def clamp_corner_radius_def clamp_def default_config_def config_default_def)

lemma session_start_ok: "session_ok (fst session_start)"
  using clamped by (simp add: session_ok_def session_start_def Let_def compositor_new_def WINDOWS_def)

lemma session_action_ok: "session_ok s \<Longrightarrow> session_action a s = Some (s', d) \<Longrightarrow> session_ok s'"
  using clamped by (cases a) (auto simp: session_ok_def focus_left_def focus_right_def increase_transparency_def decrease_transparency_def
    increase_corner_radius_def decrease_corner_radius_def)

lemma quiet_action: "session_action a s = Some (s', False) \<Longrightarrow> s' = s"
  by (cases a) auto

lemma windows_fit:
  assumes "sw_windows m = WINDOWS" "w \<in> set (window_rects f c n m)"
  shows "window_fits w"
proof -
  from assms obtain i v where v: "v \<in> set WINDOWS" "w = (if i = sw_focused m then v\<lparr>wr_fill := f, wr_border := c\<rparr> else v)"
    by (auto simp: window_rects_def dest: set_zip_rightD)
  then have "window_fits v" by (auto simp: WINDOWS_def window_new_def window_fits_def)
  then show ?thesis using v(2) by (simp add: window_fits_def)
qed

text \<open>The kernel backend is the fallback of a session that does not get the compositor: another process holds it, with a backbuffer.\<close>

definition kernel_ready :: "u32 \<Rightarrow> backbuffer \<Rightarrow> display halting \<Rightarrow> bool" where
  "kernel_ready caller bb m = (case m of Inl _ \<Rightarrow> False | Inr d \<Rightarrow>
     BACKBUFFER d = Some bb \<and> unat (bb_width bb) * 4 \<le> unat (bb_stride bb) \<and> bb_base bb \<noteq> 0 \<and> COMPOSITOR_PID d \<noteq> Some caller)"

definition kernel_visible :: "backbuffer \<Rightarrow> nat \<Rightarrow> nat \<Rightarrow> bool" where
  "kernel_visible bb row col \<longleftrightarrow> row < unat (bb_height bb) \<and> col < unat (bb_width bb)"

definition kernel_look :: "backbuffer \<Rightarrow> display halting \<Rightarrow> nat \<Rightarrow> nat \<Rightarrow> u32" where
  "kernel_look bb m row col = (case m of Inl _ \<Rightarrow> 0 | Inr d \<Rightarrow> pixel (bb_base bb) (unat (bb_stride bb)) col row (dmem d))"

subsection \<open>What a backend promises\<close>

text \<open>The trait \<open>DisplayBackend\<close>: after a clear every visible pixel has the colour, a rectangle that does not wrap changes the visible pixels in it,
  and a flush changes none. The scene below is drawn through this interface alone.\<close>

locale display_backend =
  fixes draw :: "draw_cmd \<Rightarrow> 's \<Rightarrow> 's"
    and look :: "'s \<Rightarrow> nat \<Rightarrow> nat \<Rightarrow> u32"
    and visible :: "nat \<Rightarrow> nat \<Rightarrow> bool"
    and ready :: "'s \<Rightarrow> bool"
  assumes draw_ready: "ready m \<Longrightarrow> ready (draw c m)"
    and draw_clear: "ready m \<Longrightarrow> visible row col \<Longrightarrow> look (draw (Clear color) m) row col = color"
    and draw_fill: "ready m \<Longrightarrow> visible row col \<Longrightarrow> unat x + unat w < 2 ^ 32 \<Longrightarrow> unat y + unat h < 2 ^ 32 \<Longrightarrow>
      look (draw (FillRect x y w h color) m) row col =
        (if unat x \<le> col \<and> col < unat x + unat w \<and> unat y \<le> row \<and> row < unat y + unat h then color else look m row col)"
    and draw_flush: "ready m \<Longrightarrow> visible row col \<Longrightarrow> look (draw Flush m) row col = look m row col"
begin

lemma fold_ready: "ready m \<Longrightarrow> ready (fold draw cmds m)"
  by (induction cmds arbitrary: m) (simp_all add: draw_ready)

lemma rounded_rows_at:
  assumes "ready m" "visible row col" "unat x + unat w < 2 ^ 32" "unat y + unat h < 2 ^ 32" "2 * unat r < unat w" "2 * unat r < unat h" "k \<le> unat h"
  shows "look (fold draw (concat (map (\<lambda>dy. case rounded_rect_scan r w h (of_nat dy) of (start, len) \<Rightarrow>
             if len > 0 then [FillRect (x + start) (y + of_nat dy) len 1 color] else []) [0..<k])) m) row col =
         (if unat x \<le> col \<and> unat y \<le> row \<and> row < unat y + k \<and> in_rounded (unat r) (unat w) (unat h) (col - unat x) (row - unat y)
          then color else look m row col)"
  using assms(7)
proof (induction k)
  case (Suc k)
  obtain start len where sc: "rounded_rect_scan r w h (of_nat k) = (start, len)" by fastforce
  have k: "k < unat h" using Suc by simp
  have sp: "unat start \<le> c \<and> c < unat start + unat len \<longleftrightarrow> in_rounded (unat r) (unat w) (unat h) c k" for c
    using scan_span [OF assms(5,6) k, of c] sc by simp
  have le: "unat start + unat len \<le> unat w" if "0 < unat len"
    using sp [of "unat start + unat len - 1"] that by (simp add: in_rounded_def) linarith
  have yk: "unat (of_nat k :: u32) = k" using k unat_u32 [of h] by (simp add: unat_of_nat)
  then have y: "unat (y + of_nat k) = unat y + k" using assms(4) k by (simp add: unat_word_ariths)
  have x: "unat (x + start) = unat x + unat start" if "0 < unat len" using le [OF that] assms(3) by (simp add: unat_word_ariths)
  have step: "look (fold draw (if len > 0 then [FillRect (x + start) (y + of_nat k) len 1 color] else []) p) row col =
       (if unat x \<le> col \<and> row = unat y + k \<and> in_rounded (unat r) (unat w) (unat h) (col - unat x) k then color else look p row col)" if "ready p" for p
  proof (cases "0 < unat len")
    case True
    then have "look (draw (FillRect (x + start) (y + of_nat k) len 1 color) p) row col =
      (if unat x + unat start \<le> col \<and> col < unat x + unat start + unat len \<and> unat y + k \<le> row \<and> row < unat y + k + 1 then color else look p row col)"
      using draw_fill [OF that assms(2), of "x + start" len "y + of_nat k" 1 color] x [OF True] y le [OF True] assms(3,4) k by simp
    moreover have "unat x + unat start \<le> col \<and> col < unat x + unat start + unat len \<longleftrightarrow>
        unat x \<le> col \<and> in_rounded (unat r) (unat w) (unat h) (col - unat x) k"
      unfolding sp [symmetric] by linarith
    ultimately show ?thesis using True by (auto simp: word_less_nat_alt)
  next
    case False
    then have "\<not> in_rounded (unat r) (unat w) (unat h) (col - unat x) k" unfolding sp [symmetric] by linarith
    then show ?thesis using False by (simp add: word_less_nat_alt)
  qed
  let ?f = "\<lambda>dy. case rounded_rect_scan r w h (of_nat dy) of (start, len) \<Rightarrow>
             if len > 0 then [FillRect (x + start) (y + of_nat dy) len 1 color] else []"
  have "look (fold draw (concat (map ?f [0..<Suc k])) m) row col =
        look (fold draw (?f k) (fold draw (concat (map ?f [0..<k])) m)) row col" by simp
  also have "?f k = (if len > 0 then [FillRect (x + start) (y + of_nat k) len 1 color] else [])" by (simp add: sc)
  finally show ?case unfolding step [OF fold_ready [OF assms(1)]] using Suc.IH Suc.prems by (cases "row = unat y + k") (auto simp: less_Suc_eq)
qed auto

lemma fill_rect_rounded_at:
  assumes "ready m" "visible row col" "unat x + unat w < 2 ^ 32" "unat y + unat h < 2 ^ 32" "unat r < 2 ^ 31"
  shows "look (fold draw (fill_rect_rounded x y w h r color) m) row col =
         (if unat x \<le> col \<and> unat y \<le> row \<and> in_rounded (unat r) (unat w) (unat h) (col - unat x) (row - unat y) then color else look m row col)"
proof -
  have r2: "unat (2 * r) = 2 * unat r" using assms(5) by (simp add: unat_word_ariths)
  show ?thesis
  proof (cases "r = 0 \<or> w \<le> 2 * r \<or> h \<le> 2 * r")
    case True
    then have "in_rounded (unat r) (unat w) (unat h) c l \<longleftrightarrow> c < unat w \<and> l < unat h" for c l
      using r2 by (auto simp: in_rounded_def word_le_nat_alt corner_dx_def corner_dy_def)
    then show ?thesis using True draw_fill [OF assms(1-4)] by (auto simp: fill_rect_rounded_def)
  next
    case False
    then have "2 * unat r < unat w" "2 * unat r < unat h" using r2 by (auto simp: word_le_nat_alt)
    from rounded_rows_at [OF assms(1-4) this order.refl] show ?thesis using False by (auto simp: fill_rect_rounded_def in_rounded_def)
  qed
qed

lemma border_at:
  assumes "ready m" "visible row col" "window_fits w"
  shows "look (fold draw (border_cmds w) m) row col =
         (if unat (wr_x w) \<le> col \<and> unat (wr_y w) \<le> row \<and>
             on_border (unat (wr_border_px w)) (unat (wr_w w)) (unat (wr_h w)) (col - unat (wr_x w)) (row - unat (wr_y w))
          then wr_border w else look m row col)"
proof -
  obtain x y ww hh bp c where v: "x = wr_x w" "y = wr_y w" "ww = wr_w w" "hh = wr_h w" "bp = wr_border_px w" "c = wr_border w" by blast
  have fits: "unat x + unat ww < 2 ^ 32" "unat y + unat hh < 2 ^ 32" "unat bp < 2 ^ 31" using assms(3) by (simp_all add: window_fits_def v)
  have b2: "unat (2 * bp) = 2 * unat bp" using fits by (simp add: unat_word_ariths)
  have drawn: "bp > 0 \<and> ww > 2 * bp \<and> hh > 2 * bp \<longleftrightarrow> 0 < unat bp \<and> 2 * unat bp < unat ww \<and> 2 * unat bp < unat hh"
    by (simp add: word_less_nat_alt b2)
  show ?thesis
  proof (cases "0 < unat bp \<and> 2 * unat bp < unat ww \<and> 2 * unat bp < unat hh")
    case True
    have "unat (x + ww) = unat x + unat ww" "unat (y + hh) = unat y + unat hh" using fits by (simp_all add: unat_word_ariths)
    then have e: "unat (x + ww - bp) = unat x + unat ww - unat bp" "unat (y + hh - bp) = unat y + unat hh - unat bp"
      using True by (simp_all add: unat_sub word_le_nat_alt)
    have cmds: "border_cmds w = [FillRect x y ww bp c, FillRect x (y + hh - bp) ww bp c, FillRect x y bp hh c, FillRect (x + ww - bp) y bp hh c]"
      using True drawn by (simp add: border_cmds_def Let_def v)
    have "look (fold draw (border_cmds w) m) row col =
        (if unat x \<le> col \<and> unat y \<le> row \<and> on_border (unat bp) (unat ww) (unat hh) (col - unat x) (row - unat y) then c else look m row col)"
    proof -
      have f1: "look (draw (FillRect x y ww bp c) p) row col =
          (if unat x \<le> col \<and> col < unat x + unat ww \<and> unat y \<le> row \<and> row < unat y + unat bp then c else look p row col)" if "ready p" for p
        using fits True by (intro draw_fill that assms(2); linarith)
      have f2: "look (draw (FillRect x (y + hh - bp) ww bp c) p) row col =
          (if unat x \<le> col \<and> col < unat x + unat ww \<and> unat y + unat hh - unat bp \<le> row \<and> row < unat y + unat hh - unat bp + unat bp
           then c else look p row col)" if "ready p" for p
        unfolding e [symmetric] using fits True e by (intro draw_fill that assms(2); linarith)
      have f3: "look (draw (FillRect x y bp hh c) p) row col =
          (if unat x \<le> col \<and> col < unat x + unat bp \<and> unat y \<le> row \<and> row < unat y + unat hh then c else look p row col)" if "ready p" for p
        using fits True by (intro draw_fill that assms(2); linarith)
      have f4: "look (draw (FillRect (x + ww - bp) y bp hh c) p) row col =
          (if unat x + unat ww - unat bp \<le> col \<and> col < unat x + unat ww - unat bp + unat bp \<and> unat y \<le> row \<and> row < unat y + unat hh
           then c else look p row col)" if "ready p" for p
        unfolding e [symmetric] using fits True e by (intro draw_fill that assms(2); linarith)
      show ?thesis unfolding border_rects [OF True [THEN conjunct2, THEN conjunct1] True [THEN conjunct2, THEN conjunct2]] cmds
        by (simp only: fold_simps f1 f2 f3 f4 draw_ready assms(1) if_chain)
    qed
    then show ?thesis by (simp add: v)
  next
    case False
    then show ?thesis using drawn by (auto simp: border_cmds_def Let_def on_border_def v)
  qed
qed

lemma window_at:
  assumes "ready m" "visible row col" "window_fits w" "unat (cp_corner_radius cp) < 2 ^ 31"
  shows "look (fold draw (composite_window cp w) m) row col = window_colour cp row col w (look m row col)"
proof (cases "wr_w w = 0 \<or> wr_h w = 0")
  case True
  then show ?thesis by (auto simp: composite_window_def window_colour_def Let_def on_border_def in_rounded_def)
next
  case False
  have f: "unat (wr_x w) + unat (wr_w w) < 2 ^ 32" "unat (wr_y w) + unat (wr_h w) < 2 ^ 32" using assms(3) by (simp_all add: window_fits_def)
  show ?thesis using False
    by (auto simp: composite_window_def window_colour_def Let_def border_at [OF fold_ready [OF assms(1)] assms(2,3)]
      fill_rect_rounded_at [OF assms(1,2) f assms(4)])
qed

lemma windows_at:
  assumes "ready m" "visible row col" "\<forall>w\<in>set ws. window_fits w" "unat (cp_corner_radius cp) < 2 ^ 31"
  shows "look (fold draw (concat (map (composite_window cp) ws)) m) row col = fold (window_colour cp row col) ws (look m row col)"
  using assms(1,3) by (induction ws arbitrary: m) (simp_all add: window_at [OF _ assms(2) _ assms(4)] fold_ready)

lemma composite_at:
  assumes "ready m" "visible row col" "\<forall>w\<in>set ws. window_fits w" "unat (cp_corner_radius cp) < 2 ^ 31"
  shows "look (fold draw (composite bg cp ws) m) row col = scene_colour bg cp ws row col"
  by (simp add: composite_def scene_colour_def windows_at [OF draw_ready [OF assms(1)] assms(2-4)] draw_clear [OF assms(1,2)]
    draw_flush [OF fold_ready [OF draw_ready [OF assms(1)]] assms(2)])

lemma session_draw_at:
  assumes "ready m" "visible row col" "session_ok s"
  shows "look (fold draw (session_draw s) m) row col = session_scene s row col"
proof -
  have "unat (cp_corner_radius (ss_comp s)) < 2 ^ 31" using assms(3) by (simp add: session_ok_def word_le_nat_alt)
  then show ?thesis unfolding session_draw_def session_scene_def
    using assms windows_fit by (intro composite_at) (auto simp: session_ok_def)
qed

lemma session_key_keeps:
  assumes "ready m" "visible row col" "session_ok s" "look m row col = session_scene s row col" "session_key ev s = (s', out, alive)"
  shows "session_ok s' \<and> look (fold draw out m) row col = session_scene s' row col"
  using assms(3-5) session_action_ok quiet_action session_draw_at [OF assms(1,2)]
  by (auto simp: session_key_def split: if_splits option.splits) blast+

lemma session_events_keep:
  assumes "ready m" "visible row col" "session_ok s" "look m row col = session_scene s row col" "session_events evs s = (s', out, alive)"
  shows "session_ok s' \<and> look (fold draw out m) row col = session_scene s' row col"
  using assms(1,3-5)
proof (induction evs arbitrary: s m s' out alive)
  case (Cons ev evs)
  obtain s1 o1 a1 where k: "session_key ev s = (s1, o1, a1)" by (metis surj_pair)
  note k1 = session_key_keeps [OF Cons.prems(1) assms(2) Cons.prems(2,3) k]
  show ?case
  proof (cases a1)
    case True
    obtain s2 o2 a2 where e: "session_events evs s1 = (s2, o2, a2)" by (metis surj_pair)
    then show ?thesis using Cons.IH [OF fold_ready [OF Cons.prems(1)] _ _ e, of o1] k1 Cons.prems(4) k True by fastforce
  qed (use k1 Cons.prems(4) k in simp)
qed simp

lemma session_run_shows:
  assumes "ready m" "visible row col" "session_run evs = (s, out, alive)"
  shows "session_ok s \<and> look (fold draw out m) row col = session_scene s row col"
proof -
  obtain s0 o0 where st: "session_start = (s0, o0)" by (metis surj_pair)
  then have o0: "o0 = session_draw s0" by (auto simp: session_start_def Let_def)
  have ok: "session_ok s0" using session_start_ok unfolding st by simp
  obtain s1 o1 a1 where e: "session_events evs s0 = (s1, o1, a1)" by (metis surj_pair)
  then have r: "s = s1" "out = o0 @ o1" using assms(3) by (simp_all add: session_run_def st)
  show ?thesis using session_events_keep [OF fold_ready [OF assms(1)] assms(2) ok _ e, of o0] session_draw_at [OF assms(1,2) ok] r o0 by simp
qed

end

subsection \<open>The two backends\<close>

interpretation direct: display_backend "bb_draw b" "\<lambda>px row col. px (pix b row col)" "on_screen b" "\<lambda>_. True"
  for b
  by unfold_locales (simp_all add: bb_clear_at bb_fill_rect_at)

lemma kernel_fill_at:
  assumes "kernel_ready caller bb m" "kernel_visible bb row col"
  shows "kernel_look bb (kernel_draw caller (FillRect x y w h color) m) row col =
    (if unat x \<le> col \<and> col < unat x + unat w \<and> unat y \<le> row \<and> row < unat y + unat h then color else kernel_look bb m row col)"
proof -
  from assms(1) obtain d where d: "m = Done d" "BACKBUFFER d = Some bb" "unat (bb_width bb) * 4 \<le> unat (bb_stride bb)" "bb_base bb \<noteq> 0"
    by (auto simp: kernel_ready_def split: sum.splits)
  show ?thesis using fill_rect_is_clipped [OF d(3,4), where H = "bb_height bb"] assms(2)
    by (auto simp: d(1,2) kernel_look_def kernel_visible_def sys_fb_fill_rect_def in_clip_def)
qed

interpretation calls: display_backend "kernel_draw caller" "kernel_look bb" "kernel_visible bb" "kernel_ready caller bb"
  for caller bb
proof (unfold_locales, goal_cases)
  case (1 m c)
  then show ?case
    by (cases c) (auto simp: kernel_ready_def sys_fb_clear_def sys_fb_fill_rect_def sys_fb_flush_def split: sum.splits)
next
  case (2 m row col color)
  then obtain d where d: "m = Done d" "BACKBUFFER d = Some bb" "unat (bb_width bb) * 4 \<le> unat (bb_stride bb)" "bb_base bb \<noteq> 0"
    by (auto simp: kernel_ready_def split: sum.splits)
  show ?case using fill_rect_is_clipped [OF d(3,4), where H = "bb_height bb"] 2(2)
    by (auto simp: d(1,2) kernel_look_def kernel_visible_def sys_fb_clear_def in_clip_def)
next
  case (3 m row col x w y h color)
  then show ?case by (intro kernel_fill_at)
next
  case (4 m row col)
  then show ?case by (auto simp: kernel_ready_def sys_fb_flush_def split: sum.splits)
qed

text \<open>C35: the screen of the session is the scene of its state. Whatever keys come, the focus stays on one of the three windows, the transparency and
  the corner radius stay in their ranges, and every pixel that the session draws has the colour that the
  description of the scene gives it: a border pixel of a window its border colour, a pixel whose distance from the centre of its corner is
  at most the radius the faded colour of the window, and any other pixel the background; later windows lie over earlier ones. This holds for
  the pixels of the mapped backbuffer when the session holds the compositor, and for the kernel's backbuffer when another process holds it and
  the session draws through the calls of the kernel.\<close>

theorem session_screen_is_scene:
  assumes "session_run evs = (s, out, alive)"
  shows "session_ok s \<and>
    (on_screen b row col \<longrightarrow> fold (bb_draw b) out px (pix b row col) = session_scene s row col) \<and>
    (kernel_ready caller bb m \<and> kernel_visible bb row col \<longrightarrow> kernel_look bb (fold (kernel_draw caller) out m) row col = session_scene s row col)"
proof -
  have "on_screen \<lparr>ub_ptr = 0, ub_width = 1, ub_height = 1, ub_stride_px = 1\<rparr> 0 0" by (simp add: on_screen_def)
  from direct.session_run_shows [OF TrueI this assms] have "session_ok s" ..
  then show ?thesis using direct.session_run_shows [OF TrueI _ assms] calls.session_run_shows [OF _ _ assms] by blast
qed

lemma session_right:
  "fst (session_run [\<lparr>keycode = 2, pressed = True\<rparr>]) = \<lparr>ss_wm = \<lparr>sw_windows = WINDOWS, sw_focused = 1\<rparr>, ss_comp = compositor_new default_config\<rparr>"
proof -
  have "key_to_action default_config 2 = Some FocusRight" by code_simp
  then show ?thesis
    by (simp add: session_run_def session_start_def session_key_def focus_right_def WINDOWS_def Let_def)
qed

text \<open>After the right arrow the second window has the focus: its first row of pixels is a border in the active colour.\<close>

theorem session_screen_is_scene_witness:
  "(let r = session_run [\<lparr>keycode = 2, pressed = True\<rparr>]; b = \<lparr>ub_ptr = 4096, ub_width = 1280, ub_height = 800, ub_stride_px = 1280\<rparr>;
        bb = \<lparr>bb_base = 4096, bb_width = 1280, bb_height = 800, bb_stride = 5120\<rparr>;
        d = (display_boot (\<lambda>_. 0))\<lparr>BACKBUFFER := Some bb\<rparr>
    in session_ok (fst r) \<and> fold (bb_draw b) (fst (snd r)) (\<lambda>_. 0) (pix b 80 440) = BORDER_ACTIVE \<and>
       kernel_look bb (fold (kernel_draw 3) (fst (snd r)) (Done d)) 80 440 = BORDER_ACTIVE)"
proof -
  let ?r = "session_run [\<lparr>keycode = 2, pressed = True\<rparr>]"
  let ?b = "\<lparr>ub_ptr = 4096, ub_width = 1280, ub_height = 800, ub_stride_px = 1280\<rparr>"
  let ?bb = "\<lparr>bb_base = 4096, bb_width = 1280, bb_height = 800, bb_stride = 5120\<rparr>"
  let ?m = "Done ((display_boot (\<lambda>_. 0))\<lparr>BACKBUFFER := Some ?bb\<rparr>)"
  have "on_screen ?b 80 440" "kernel_visible ?bb 80 440" by (simp_all add: on_screen_def kernel_visible_def)
  moreover have "kernel_ready 3 ?bb ?m" by (simp add: kernel_ready_def display_boot_def)
  moreover have "session_scene (fst ?r) 80 440 = BORDER_ACTIVE" unfolding session_right by code_simp
  moreover have "?r = (fst ?r, fst (snd ?r), snd (snd ?r))" by simp
  ultimately show ?thesis
    using session_screen_is_scene [of _ "fst ?r" "fst (snd ?r)" "snd (snd ?r)" ?b 80 440 "\<lambda>_. 0" 3 ?bb ?m] by (simp add: Let_def)
qed

text \<open>Whatever the kernel answers, the backend has a screen that is not empty.\<close>

lemma screen_not_empty:
  "choose_backend (backbuffer_claim claimed mapped p w h stride_bytes) answer = b \<Longrightarrow> 0 < fst (screen_size b) \<and> 0 < snd (screen_size b)"
  by (auto simp: choose_backend_def backbuffer_claim_def kernel_backend_new_def word_gt_0 split: prod.splits option.splits if_splits)

text \<open>Shortcuts that the program leaves out of its configuration all have the key code 0, which belongs to the first of them: no key lowers the
  transparency, changes a radius, or starts one of the utilities.\<close>

lemma unassigned_actions:
  "key_to_action default_config 0 = Some IncreaseTransparency"
  "key_to_action default_config k \<notin> Some ` {DecreaseTransparency, IncreaseCornerRadius, DecreaseCornerRadius, Screenshot, Lock, ClipboardPaste}"
  by (auto simp: key_to_action_def all_actions_def key_for_def default_config_def config_default_def numeral_eq_Suc nth_Cons' list_update_code)

section \<open>Blending\<close>

lemma chan_pack:
  fixes r g b :: u32
  assumes "r < 256" "g < 256" "b < 256"
  shows "chan 16 (0xFF000000 OR push_bit 16 r OR push_bit 8 g OR b) = r" "chan 8 (0xFF000000 OR push_bit 16 r OR push_bit 8 g OR b) = g"
    "chan 0 (0xFF000000 OR push_bit 16 r OR push_bit 8 g OR b) = b"
proof -
  have hi: "\<not> bit x n" if "x < 256" "8 \<le> n" for x :: u32 and n
  proof
    assume "bit x n"
    then have "2 ^ n \<le> unat x" using bit_unsigned_iff [of x n, where 'a = nat] by (simp add: bit_iff_odd) (metis div_less even_zero not_less)
    moreover have "(256 :: nat) \<le> 2 ^ n" using power_increasing [of 8 n "2 :: nat"] that(2) by simp
    ultimately show False using that(1) by (simp add: word_less_nat_alt)
  qed
  have m: "(0xFF :: u32) = mask 8" "(0xFF000000 :: u32) = push_bit 24 (mask 8)" by code_simp+
  note bits = hi [OF assms(1)] hi [OF assms(2)] hi [OF assms(3)]
  show "chan 16 (0xFF000000 OR push_bit 16 r OR push_bit 8 g OR b) = r" unfolding chan_def m
    by (rule bit_word_eqI) (use bits in \<open>auto simp: bit_simps not_le [symmetric]\<close>)
  show "chan 8 (0xFF000000 OR push_bit 16 r OR push_bit 8 g OR b) = g" unfolding chan_def m
    by (rule bit_word_eqI) (use bits in \<open>auto simp: bit_simps not_le [symmetric]\<close>)
  show "chan 0 (0xFF000000 OR push_bit 16 r OR push_bit 8 g OR b) = b" unfolding chan_def m
    by (rule bit_word_eqI) (use bits in \<open>auto simp: bit_simps not_le [symmetric]\<close>)
qed

lemma chan_le: "unat (chan k c) \<le> 255"
proof -
  have "chan k c \<le> 255" unfolding chan_def by (metis word_and_le1 and.commute)
  then show ?thesis by (simp add: word_le_nat_alt)
qed

definition blended :: "u8 \<Rightarrow> nat \<Rightarrow> nat \<Rightarrow> nat" where
  "blended alpha s d = (s * unat alpha + d * (255 - unat alpha)) div 255"

lemma blended_le: "s \<le> 255 \<Longrightarrow> d \<le> 255 \<Longrightarrow> blended alpha s d \<le> 255"
proof -
  assume sd: "s \<le> 255" "d \<le> 255"
  have a: "unat alpha \<le> 255" using unsigned_less [of alpha, where 'a = nat] by simp
  have "s * unat alpha + d * (255 - unat alpha) \<le> 255 * unat alpha + 255 * (255 - unat alpha)" using sd by (intro add_mono mult_le_mono1)
  also have "\<dots> = 255 * 255" using a by (simp flip: distrib_left)
  finally show ?thesis unfolding blended_def using div_le_mono by fastforce
qed

lemma blend_chan_unat: "unat (blend_chan alpha (chan k src) (chan k dst)) = blended alpha (unat (chan k src)) (unat (chan k dst))"
proof -
  let ?s = "chan k src" and ?d = "chan k dst"
  have a: "unat alpha \<le> 255" using unsigned_less [of alpha, where 'a = nat] by simp
  have ua: "unat (ucast alpha :: u32) = unat alpha" using a by (simp add: unsigned_ucast_eq take_bit_nat_eq_self_iff)
  have ia: "unat (255 - ucast alpha :: u32) = 255 - unat alpha" using a ua by (simp add: unat_sub word_le_nat_alt)
  have "unat ?s * unat alpha \<le> 255 * 255" "unat ?d * (255 - unat alpha) \<le> 255 * 255"
    using chan_le a by (intro mult_le_mono; simp)+
  then show ?thesis by (simp add: blend_chan_def blended_def unat_div unat_word_ariths ua ia)
qed

text \<open>blending is exact in every channel. For every transparency a channel of the blended pixel is the weighted mean of the two channels,
  rounded down, without a wrap and without spilling into a neighbouring channel.\<close>

theorem blend_pixel_channels:
  assumes "k \<in> {0, 8, 16}"
  shows "unat (chan k (blend_pixel dst src alpha)) = blended alpha (unat (chan k src)) (unat (chan k dst))"
proof -
  consider "alpha = 255" | "alpha = 0" | "alpha \<noteq> 255" "alpha \<noteq> 0" by blast
  then show ?thesis
  proof cases
    case 1
    have m: "(0xFF :: u32) = mask 8" "(0xFF000000 :: u32) = push_bit 24 (mask 8)" "(0x00FFFFFF :: u32) = mask 24" by code_simp+
    have "chan k (blend_pixel dst src alpha) = chan k src" using assms 1 unfolding chan_def blend_pixel_def
      by (auto simp: m simp del: mask_nat_positive_iff intro!: bit_word_eqI) (auto simp: bit_simps)
    then show ?thesis using 1 by (simp add: blended_def)
  next
    case 2
    then show ?thesis by (simp add: blend_pixel_def blended_def)
  next
    case 3
    have lt: "blend_chan alpha (chan j src) (chan j dst) < 256" for j
      using blended_le [OF chan_le chan_le, of alpha j src j dst] blend_chan_unat [of alpha j src dst] by (simp add: word_less_nat_alt)
    have "chan k (blend_pixel dst src alpha) = blend_chan alpha (chan k src) (chan k dst)"
      using assms 3 chan_pack [OF lt lt lt] by (auto simp: blend_pixel_def)
    then show ?thesis using blend_chan_unat by simp
  qed
qed

theorem blend_pixel_channels_witness:
  "unat (chan 8 (blend_pixel 0xFF000000 0xFFFFFFFF 128)) = blended 128 255 0 \<and> blended 128 255 0 = 128"
proof -
  have "unat (chan 8 0xFFFFFFFF) = 255" "unat (chan 8 0xFF000000) = 0" "blended 128 255 0 = 128"
    by (simp_all add: chan_def blended_def drop_bit_eq_div)
  then show ?thesis using blend_pixel_channels [of 8 "0xFF000000" "0xFFFFFFFF" 128] by simp
qed

subsection \<open>Surfaces\<close>

text \<open>A fold of guarded updates at different places.\<close>

definition update_if :: "('i \<Rightarrow> bool) \<Rightarrow> ('i \<Rightarrow> nat) \<Rightarrow> ('i \<Rightarrow> 'a \<Rightarrow> 'a) \<Rightarrow> 'i \<Rightarrow> 'a list \<Rightarrow> 'a list" where
  "update_if cond idx f i xs = (if cond i then xs[idx i := f i (xs ! idx i)] else xs)"

lemma update_if_length [simp]: "length (fold (update_if cond idx f) l xs) = length xs"
  by (induction l arbitrary: xs) (simp_all add: update_if_def)

lemma update_if_other: "\<forall>i\<in>set l. cond i \<longrightarrow> idx i \<noteq> p \<Longrightarrow> fold (update_if cond idx f) l xs ! p = xs ! p"
  by (induction l arbitrary: xs) (simp_all add: update_if_def)

lemma update_if_here:
  assumes "distinct l" "i \<in> set l" "cond i" "idx i < length xs" "\<forall>j\<in>set l. j \<noteq> i \<longrightarrow> cond j \<longrightarrow> idx j \<noteq> idx i"
  shows "fold (update_if cond idx f) l xs ! idx i = f i (xs ! idx i)"
proof -
  obtain ys zs where l: "l = ys @ i # zs" using assms(2) split_list by fast
  then have y: "\<forall>j\<in>set ys. cond j \<longrightarrow> idx j \<noteq> idx i" and z: "\<forall>j\<in>set zs. cond j \<longrightarrow> idx j \<noteq> idx i" using assms(1,5) by auto
  show ?thesis using assms(3,4) by (simp add: l update_if_other [OF z] update_if_other [OF y] update_if_def [of cond idx f i])
qed

definition blend_cond :: "nat \<Rightarrow> int \<Rightarrow> int \<Rightarrow> u32 \<Rightarrow> u32 \<Rightarrow> u32 \<Rightarrow> nat \<Rightarrow> nat \<times> nat \<Rightarrow> bool" where
  "blend_cond n dst_x dst_y src_stride screen_w screen_h m rc \<longleftrightarrow>
     (case rc of (row, col) \<Rightarrow> let dy = i32 (dst_y + int row); dx = i32 (dst_x + int col) in
        0 \<le> dy \<and> dy < sint screen_h \<and> 0 \<le> dx \<and> dx < sint screen_w \<and>
        unat (of_nat row * src_stride + of_nat col) < n \<and> unat (word_of_int dy * screen_w + word_of_int dx) < m)"

definition blend_idx :: "int \<Rightarrow> int \<Rightarrow> u32 \<Rightarrow> nat \<times> nat \<Rightarrow> nat" where
  "blend_idx dst_x dst_y screen_w rc = (case rc of (row, col) \<Rightarrow>
     unat (word_of_int (i32 (dst_y + int row)) * screen_w + word_of_int (i32 (dst_x + int col))))"

definition blend_src :: "u32 list \<Rightarrow> u32 \<Rightarrow> u8 \<Rightarrow> nat \<times> nat \<Rightarrow> u32 \<Rightarrow> u32" where
  "blend_src src src_stride alpha rc p = (case rc of (row, col) \<Rightarrow> blend_pixel p (src ! unat (of_nat row * src_stride + of_nat col)) alpha)"

lemma blend_step_update:
  "length xs = m \<Longrightarrow> blend_step src dst_x dst_y src_stride screen_w screen_h alpha rc xs =
     update_if (blend_cond (length src) dst_x dst_y src_stride screen_w screen_h m) (blend_idx dst_x dst_y screen_w) (blend_src src src_stride alpha) rc xs"
  by (cases rc) (simp add: blend_step_def update_if_def blend_cond_def blend_idx_def blend_src_def Let_def not_less not_le)

lemma blend_surface_update:
  "blend_surface_into src dst_x dst_y src_w src_h src_stride screen_w screen_h alpha xs =
     fold (update_if (blend_cond (length src) dst_x dst_y src_stride screen_w screen_h (length xs)) (blend_idx dst_x dst_y screen_w)
       (blend_src src src_stride alpha)) (List.product [0..<unat src_h] [0..<unat src_w]) xs"
proof -
  have "length xs = m \<Longrightarrow> fold (blend_step src dst_x dst_y src_stride screen_w screen_h alpha) l xs =
     fold (update_if (blend_cond (length src) dst_x dst_y src_stride screen_w screen_h m) (blend_idx dst_x dst_y screen_w)
       (blend_src src src_stride alpha)) l xs" for l m
    by (induction l arbitrary: xs) (auto simp: blend_step_update, simp add: update_if_def)
  then show ?thesis by (simp add: blend_surface_into_def)
qed

text \<open>A surface and a place for it that keep the arithmetic of the loops inside the types.\<close>

definition surface_fits :: "u32 list \<Rightarrow> int \<Rightarrow> int \<Rightarrow> u32 \<Rightarrow> u32 \<Rightarrow> u32 \<Rightarrow> u32 \<Rightarrow> u32 \<Rightarrow> bool" where
  "surface_fits src dst_x dst_y src_w src_h src_stride screen_w screen_h \<longleftrightarrow>
     - (2 ^ 31) \<le> dst_x \<and> dst_x + int (unat src_w) \<le> 2 ^ 31 \<and> - (2 ^ 31) \<le> dst_y \<and> dst_y + int (unat src_h) \<le> 2 ^ 31 \<and>
     unat screen_w * unat screen_h < 2 ^ 31 \<and> unat screen_w < 2 ^ 31 \<and> unat screen_h < 2 ^ 31 \<and>
     src_w \<le> src_stride \<and> length src = unat src_h * unat src_stride \<and> length src < 2 ^ 32"

lemma row_major_less: "i < h \<Longrightarrow> j < w \<Longrightarrow> i * w + j < h * (w :: nat)"
proof -
  assume a: "i < h" "j < w"
  then have "i * w + j < (i + 1) * w" by simp
  also have "\<dots> \<le> h * w" using a by (intro mult_le_mono1) simp
  finally show ?thesis .
qed

lemma row_major_inj: "j < w \<Longrightarrow> l < w \<Longrightarrow> i * w + j = k * w + l \<Longrightarrow> i = k \<and> j = (l :: nat)"
  by (metis div_mult_self3 div_less add.right_neutral mod_mult_self3 mod_less not_less0 add.commute)

lemma sint_small:
  fixes x :: u32
  assumes "unat x < 2 ^ 31"
  shows "sint x = int (unat x)"
proof -
  have "sint x = i32 (int (unat x))" by (simp add: sint_uint i32_def)
  also have "\<dots> = int (unat x)"
  proof (rule i32_id)
    show "int (unat x) < 2 ^ 31" using assms by (metis of_nat_less_iff of_nat_numeral of_nat_power)
    show "- (2 ^ 31) \<le> int (unat x)" by (rule order_trans [OF _ of_nat_0_le_iff]) simp
  qed
  finally show ?thesis .
qed

lemma blend_geometry:
  assumes "surface_fits src dst_x dst_y src_w src_h src_stride screen_w screen_h" "i < unat src_h" "j < unat src_w"
  defines "y \<equiv> dst_y + int i" and "x \<equiv> dst_x + int j"
  shows "unat (of_nat i * src_stride + of_nat j) = i * unat src_stride + j" "i * unat src_stride + j < length src"
    "i32 y = y" "i32 x = x"
    "0 \<le> y \<Longrightarrow> y < int (unat screen_h) \<Longrightarrow> 0 \<le> x \<Longrightarrow> x < int (unat screen_w) \<Longrightarrow>
       unat (word_of_int y * screen_w + word_of_int x) = nat y * unat screen_w + nat x"
proof -
  note f = assms(1) [unfolded surface_fits_def word_le_nat_alt]
  have j: "j < unat src_stride" using f assms(3) by linarith
  show l: "i * unat src_stride + j < length src" using f row_major_less [OF assms(2) j] by simp
  then have "i * unat src_stride + j < 2 ^ 32" using f by linarith
  moreover have "unat (of_nat i * src_stride + of_nat j) = (i * unat src_stride + j) mod 2 ^ 32"
    by (simp add: unat_word_ariths unat_of_nat mod_simps)
  ultimately show "unat (of_nat i * src_stride + of_nat j) = i * unat src_stride + j" by simp
  show "i32 y = y" "i32 x = x" unfolding y_def x_def using f assms(2,3) by (intro i32_id; linarith)+
  assume s: "0 \<le> y" "y < int (unat screen_h)" "0 \<le> x" "x < int (unat screen_w)"
  then obtain r c where rc: "y = int r" "x = int c" by (metis nonneg_int_cases)
  then have "r * unat screen_w + c < unat screen_h * unat screen_w" using s by (intro row_major_less; linarith)
  then have "r * unat screen_w + c < 2 ^ 32" using f by (simp add: mult.commute)
  moreover have "unat (word_of_int y * screen_w + word_of_int x) = (r * unat screen_w + c) mod 2 ^ 32"
    by (simp add: rc unat_word_ariths unat_of_nat mod_simps)
  ultimately show "unat (word_of_int y * screen_w + word_of_int x) = nat y * unat screen_w + nat x" using rc by simp
qed

text \<open>a surface is blended exactly where it lies. On a screen without padding every pixel under the surface becomes the blend of the
  surface's pixel with what was there, and every other pixel keeps its value, also when the surface sticks out of the screen on any side.\<close>

theorem blend_surface_exact:
  assumes "surface_fits src dst_x dst_y src_w src_h src_stride screen_w screen_h" "length xs = unat screen_h * unat screen_w"
    "row < unat screen_h" "col < unat screen_w"
  shows "blend_surface_into src dst_x dst_y src_w src_h src_stride screen_w screen_h alpha xs ! (row * unat screen_w + col) =
    (if dst_y \<le> int row \<and> int row < dst_y + int (unat src_h) \<and> dst_x \<le> int col \<and> int col < dst_x + int (unat src_w)
     then blend_pixel (xs ! (row * unat screen_w + col)) (src ! (nat (int row - dst_y) * unat src_stride + nat (int col - dst_x))) alpha
     else xs ! (row * unat screen_w + col))"
proof -
  let ?c = "blend_cond (length src) dst_x dst_y src_stride screen_w screen_h (length xs)" and ?i = "blend_idx dst_x dst_y screen_w"
  let ?f = "blend_src src src_stride alpha" and ?l = "List.product [0..<unat src_h] [0..<unat src_w]" and ?p = "row * unat screen_w + col"
  note geo = blend_geometry [OF assms(1)]
  have p: "?p < length xs" using row_major_less assms(2-4) by simp
  have sw: "sint screen_w = int (unat screen_w)" "sint screen_h = int (unat screen_h)" using assms(1) by (simp_all add: surface_fits_def sint_small)
  have hit: "?c (i, j) \<and> ?i (i, j) = ?p \<longleftrightarrow> int row = dst_y + int i \<and> int col = dst_x + int j" if ij: "i < unat src_h" "j < unat src_w" for i j
  proof
    assume "?c (i, j) \<and> ?i (i, j) = ?p"
    then have b: "0 \<le> dst_y + int i" "dst_y + int i < int (unat screen_h)" "0 \<le> dst_x + int j" "dst_x + int j < int (unat screen_w)"
        and "nat (dst_y + int i) * unat screen_w + nat (dst_x + int j) = ?p"
      using geo(3,4,5) [OF ij] by (auto simp: blend_cond_def blend_idx_def Let_def sw simp del: of_nat_unat)
    then have "nat (dst_y + int i) = row \<and> nat (dst_x + int j) = col" using assms(4) by (intro row_major_inj [where w = "unat screen_w"]; linarith)
    then show "int row = dst_y + int i \<and> int col = dst_x + int j" using b by linarith
  next
    assume e: "int row = dst_y + int i \<and> int col = dst_x + int j"
    have "unat (word_of_int (dst_y + int i) * screen_w + word_of_int (dst_x + int j)) = ?p"
      using geo(5) [OF ij] assms(3,4) e by (metis nat_int of_nat_less_iff of_nat_0_le_iff)
    then show "?c (i, j) \<and> ?i (i, j) = ?p"
      using geo(1-4) [OF ij] assms(3,4) p e by (auto simp: blend_cond_def blend_idx_def Let_def sw simp del: of_nat_unat)
  qed
  show ?thesis
  proof (cases "dst_y \<le> int row \<and> int row < dst_y + int (unat src_h) \<and> dst_x \<le> int col \<and> int col < dst_x + int (unat src_w)")
    case True
    define i j where "i = nat (int row - dst_y)" and "j = nat (int col - dst_x)"
    then have ij: "i < unat src_h" "j < unat src_w" and e: "int row = dst_y + int i \<and> int col = dst_x + int j"
      using True by (auto simp del: of_nat_unat)
    have h: "?c (i, j)" "?i (i, j) = ?p" using hit [OF ij] e by blast+
    have "\<forall>k\<in>set ?l. k \<noteq> (i, j) \<longrightarrow> ?c k \<longrightarrow> ?i k \<noteq> ?i (i, j)"
    proof (intro ballI impI)
      fix k assume k: "k \<in> set ?l" "k \<noteq> (i, j)" "?c k"
      obtain a b where ab: "k = (a, b)" by fastforce
      then show "?i k \<noteq> ?i (i, j)" using k hit [of a b] e unfolding h(2) by auto
    qed
    then have "fold (update_if ?c ?i ?f) ?l xs ! ?i (i, j) = ?f (i, j) (xs ! ?i (i, j))"
      using ij h p by (intro update_if_here) (auto intro: distinct_product)
    then show ?thesis using True geo(1) [OF ij] unfolding blend_surface_update h(2) by (simp add: blend_src_def i_def j_def)
  next
    case False
    have "\<forall>k\<in>set ?l. ?c k \<longrightarrow> ?i k \<noteq> ?p"
    proof (intro ballI impI)
      fix k assume k: "k \<in> set ?l" "?c k"
      obtain a b where ab: "k = (a, b)" by fastforce
      then have "a < unat src_h" "b < unat src_w" using k by auto
      then show "?i k \<noteq> ?p" using hit [of a b] k(2) False unfolding ab by linarith
    qed
    then show ?thesis using False unfolding blend_surface_update by (subst update_if_other) auto
  qed
qed

text \<open>A surface of two by two pixels over the lower right corner of a screen of two by two.\<close>

theorem blend_surface_exact_witness:
  "surface_fits [1, 2, 3, 4] 1 1 2 2 2 2 2 \<and> blend_surface_into [1, 2, 3, 4] 1 1 2 2 2 2 2 255 [7, 8, 9, 10] ! 3 = 0xFF000001"
proof -
  have f: "surface_fits [1, 2, 3, 4] 1 1 2 2 2 2 2" by (simp add: surface_fits_def)
  have "blend_pixel 10 1 255 = 0xFF000001" by (simp add: blend_pixel_def)
  then show ?thesis using f blend_surface_exact [OF f, of "[7, 8, 9, 10]" 1 1 255] by simp
qed

end
