(* ===== verification/F32.thy ===== *)
theory F32
  imports Complex_Main Prelude "HOL-Library.Log_Nat"
begin

text \<open>
  Single-precision numbers (\<open>f32\<close>) as the layouts of \<open>rwm-core\<close> use them: a value is the rational it stands for, and every operation rounds its
  exact result to the nearest number with 24 significant bits, to the even one on a tie. Values are far below \<open>2 ^ 128\<close>, so infinities and
  values that are not numbers do not occur; subnormal numbers are covered by the lower bound of the exponent.
\<close>

section \<open>Rounding\<close>

definition round_even :: "rat \<Rightarrow> int" where
  "round_even x = (let f = \<lfloor>x\<rfloor>; d = x - of_int f in if d < 1 / 2 \<or> d = 1 / 2 \<and> even f then f else f + 1)"

text \<open>The exponent of the power of two below a positive number.\<close>

definition binade :: "rat \<Rightarrow> int" where
  "binade x = (case quotient_of x of (p, q) \<Rightarrow> let d = bitlen p - bitlen q in if x < 2 powi d then d - 1 else d)"

definition last_bit :: "rat \<Rightarrow> int" where
  "last_bit x = max (binade x) (- 126) - 23"

definition f32_pos :: "rat \<Rightarrow> rat" where
  "f32_pos x = (if x = 0 then 0 else of_int (round_even (x / 2 powi last_bit x)) * 2 powi last_bit x)"

definition f32 :: "rat \<Rightarrow> rat" where
  "f32 x = (if x < 0 then - f32_pos (- x) else f32_pos x)"

text \<open>\<open>x as i32\<close>: towards zero, and to the ends of the range beyond it.\<close>

definition f32_to_i32 :: "rat \<Rightarrow> int" where
  "f32_to_i32 x = max (- (2 ^ 31)) (min (2 ^ 31 - 1) (if x < 0 then \<lceil>x\<rceil> else \<lfloor>x\<rfloor>))"

definition f32_add :: "rat \<Rightarrow> rat \<Rightarrow> rat" where "f32_add x y = f32 (x + y)"
definition f32_mul :: "rat \<Rightarrow> rat \<Rightarrow> rat" where "f32_mul x y = f32 (x * y)"
definition f32_div :: "rat \<Rightarrow> rat \<Rightarrow> rat" where "f32_div x y = f32 (x / y)"
definition i32_to_f32 :: "int \<Rightarrow> rat" where "i32_to_f32 n = f32 (of_int n)"

section \<open>Rounding to an integer\<close>

lemma round_even_bounds: "\<lfloor>x\<rfloor> \<le> round_even x" "round_even x \<le> \<lfloor>x\<rfloor> + 1"
  by (auto simp: round_even_def Let_def)

lemma round_even_of_int [simp]: "round_even (of_int n) = n"
  by (simp add: round_even_def)

lemma round_even_error: "\<bar>of_int (round_even x) - x\<bar> \<le> 1 / 2"
proof -
  have "round_even x = \<lfloor>x\<rfloor> \<and> x - of_int \<lfloor>x\<rfloor> \<le> 1 / 2 \<or> round_even x = \<lfloor>x\<rfloor> + 1 \<and> 1 / 2 \<le> x - of_int \<lfloor>x\<rfloor>"
    by (auto simp: round_even_def Let_def)
  then show ?thesis by (elim disjE conjE; simp only: of_int_add of_int_1; linarith)
qed

lemma round_even_mono: "x \<le> y \<Longrightarrow> round_even x \<le> round_even y"
proof -
  assume xy: "x \<le> y"
  then have f: "\<lfloor>x\<rfloor> \<le> \<lfloor>y\<rfloor>" by (rule floor_mono)
  show ?thesis
  proof (cases "\<lfloor>x\<rfloor> = \<lfloor>y\<rfloor>")
    case True
    then show ?thesis using xy by (auto simp: round_even_def Let_def)
  next
    case False
    then show ?thesis using f round_even_bounds [of x] round_even_bounds [of y] by linarith
  qed
qed

lemma round_even_le: "x \<le> of_int n \<Longrightarrow> round_even x \<le> n" and round_even_ge: "of_int n \<le> x \<Longrightarrow> n \<le> round_even x"
  using round_even_mono [of x "of_int n"] round_even_mono [of "of_int n" x] by simp_all

section \<open>The binade\<close>

lemma powi_pos [simp]: "0 < (2 :: rat) powi n"
  by simp

lemma bitlen_powi:
  assumes "0 < p"
  shows "2 powi (bitlen p - 1) \<le> (of_int p :: rat)" "(of_int p :: rat) < 2 powi bitlen p"
proof -
  have b: "1 \<le> bitlen p" using assms by (simp add: compute_bitlen [of p] bitlen_nonneg)
  have "(2 ^ nat (bitlen p - 1) :: int) \<le> p" "p < 2 ^ nat (bitlen p)" using bitlen_bounds [OF assms] by auto
  then have "(of_int (2 ^ nat (bitlen p - 1)) :: rat) \<le> of_int p" "(of_int p :: rat) < of_int (2 ^ nat (bitlen p))"
    by (simp_all only: of_int_le_iff of_int_less_iff)
  then show "2 powi (bitlen p - 1) \<le> (of_int p :: rat)" "(of_int p :: rat) < 2 powi bitlen p"
    using b by (simp_all add: power_int_nonneg_exp)
qed

lemma binade_bounds:
  assumes "0 < x"
  shows "2 powi binade x \<le> x" "x < 2 powi (binade x + 1)"
proof -
  obtain p q where pq: "quotient_of x = (p, q)" by fastforce
  have q: "0 < q" and x: "x = of_int p / of_int q" using quotient_of_denom_pos [OF pq] quotient_of_div [OF pq] by simp_all
  have p: "0 < p" using assms q unfolding x by (simp add: zero_less_divide_iff)
  let ?d = "bitlen p - bitlen q"
  have "2 powi (?d - 1) * of_int q < 2 powi (?d - 1) * (2 powi bitlen q :: rat)" using bitlen_powi(2) [OF q] by simp
  also have "\<dots> = 2 powi (bitlen p - 1)" by (simp flip: power_int_add)
  also have "\<dots> \<le> of_int p" by (rule bitlen_powi(1) [OF p])
  finally have lo: "2 powi (?d - 1) \<le> x" using q by (simp add: x pos_le_divide_eq)
  have "of_int p < (2 powi bitlen p :: rat)" by (rule bitlen_powi(2) [OF p])
  also have "\<dots> = 2 powi (?d + 1) * 2 powi (bitlen q - 1)" by (simp flip: power_int_add)
  also have "\<dots> \<le> 2 powi (?d + 1) * of_int q" using bitlen_powi(1) [OF q] by simp
  finally have hi: "x < 2 powi (?d + 1)" using q by (simp add: x pos_divide_less_eq)
  show "2 powi binade x \<le> x" "x < 2 powi (binade x + 1)" using lo hi by (auto simp: binade_def pq Let_def not_less)
qed

lemma binade_mono:
  assumes "0 < x" "x \<le> y"
  shows "binade x \<le> binade y"
proof (rule ccontr)
  assume "\<not> binade x \<le> binade y"
  then have "(2 :: rat) powi (binade y + 1) \<le> 2 powi binade x" by (intro power_int_increasing) auto
  then show False using binade_bounds [OF assms(1)] binade_bounds [of y] assms by linarith
qed

section \<open>Rounding to 24 bits\<close>

lemma scaled:
  assumes "0 < x"
  shows "x / 2 powi last_bit x < 2 ^ 24" "binade x \<ge> - 126 \<Longrightarrow> 2 ^ 23 \<le> x / 2 powi last_bit x"
proof -
  have "x < 2 powi (binade x + 1)" by (rule binade_bounds(2) [OF assms])
  also have "\<dots> \<le> 2 powi (last_bit x + 24)" by (intro power_int_increasing) (auto simp: last_bit_def)
  also have "\<dots> = 2 powi last_bit x * 2 ^ 24" by (simp add: power_int_add)
  finally show "x / 2 powi last_bit x < 2 ^ 24" by (simp add: pos_divide_less_eq mult.commute)
  assume "binade x \<ge> - 126"
  then have "2 powi (last_bit x + 23) \<le> x" using binade_bounds(1) [OF assms] by (simp add: last_bit_def)
  then show "2 ^ 23 \<le> x / 2 powi last_bit x" by (simp add: pos_le_divide_eq power_int_add mult.commute)
qed

lemma f32_pos_mono:
  assumes "0 \<le> x" "x \<le> y"
  shows "f32_pos x \<le> f32_pos y"
proof (cases "x = 0")
  case True
  have "0 \<le> round_even (y / 2 powi last_bit y)" using assms by (intro round_even_ge) simp
  then show ?thesis using True by (simp add: f32_pos_def)
next
  case False
  then have x: "0 < x" "0 < y" using assms by auto
  let ?r = "\<lambda>x. round_even (x / 2 powi last_bit x)"
  show ?thesis
  proof (cases "last_bit x = last_bit y")
    case True
    have "?r x \<le> ?r y" unfolding True using assms(2) by (intro round_even_mono divide_right_mono) auto
    then show ?thesis using x True by (simp add: f32_pos_def)
  next
    case ne: False
    then have l: "last_bit x + 1 \<le> last_bit y" "binade y \<ge> - 126" using binade_mono [OF x(1) assms(2)] by (auto simp: last_bit_def)
    have "?r x \<le> 2 ^ 24" using scaled(1) [OF x(1)] by (intro round_even_le) simp
    then have "of_int (?r x) \<le> (of_int (2 ^ 24) :: rat)" by (simp only: of_int_le_iff)
    then have "f32_pos x \<le> 2 ^ 24 * 2 powi last_bit x" using x by (simp add: f32_pos_def)
    also have "\<dots> = 2 ^ 23 * 2 powi (last_bit x + 1)" by (simp add: power_int_add)
    also have "\<dots> \<le> 2 ^ 23 * 2 powi last_bit y" using l(1) by (intro mult_left_mono power_int_increasing) auto
    also have "\<dots> \<le> f32_pos y"
    proof -
      have "2 ^ 23 \<le> ?r y" using scaled(2) [OF x(2) l(2)] by (intro round_even_ge) simp
      then have "(of_int (2 ^ 23) :: rat) \<le> of_int (?r y)" by (simp only: of_int_le_iff)
      then show ?thesis using x by (simp add: f32_pos_def)
    qed
    finally show ?thesis .
  qed
qed

lemma powi_nonpos: "l \<le> 0 \<Longrightarrow> (2 :: rat) powi l = 1 / 2 ^ nat (- l)"
  by (cases "l = 0") (simp_all add: power_int_def inverse_eq_divide power_one_over)

lemma f32_pos_exact:
  assumes "0 \<le> n" "n \<le> 2 ^ 24"
  shows "f32_pos (of_int n) = of_int n"
proof (cases "n = 0")
  case False
  then have n: "0 < (of_int n :: rat)" using assms by simp
  have "binade (of_int n) \<le> 24"
  proof (rule ccontr)
    assume "\<not> ?thesis"
    then have "(2 :: rat) powi 25 \<le> 2 powi binade (of_int n)" by (intro power_int_increasing) auto
    also have "\<dots> \<le> of_int n" by (rule binade_bounds(1) [OF n])
    also have "\<dots> \<le> of_int (2 ^ 24)" using assms(2) by (simp only: of_int_le_iff)
    finally show False by simp
  qed
  then consider "last_bit (of_int n) \<le> 0" | "last_bit (of_int n) = 1" "binade (of_int n) = 24" by (fastforce simp: last_bit_def)
  then show ?thesis
  proof cases
    case 1
    define k where "k = nat (- last_bit (of_int n))"
    have p: "(2 :: rat) powi last_bit (of_int n) = 1 / 2 ^ k" unfolding k_def by (rule powi_nonpos [OF 1])
    have e: "(of_int n :: rat) / (1 / 2 ^ k) = of_int (n * 2 ^ k)" by simp
    have "f32_pos (of_int n) = of_int (n * 2 ^ k) * (1 / 2 ^ k)" using n unfolding f32_pos_def p e round_even_of_int by simp
    then show ?thesis by simp
  next
    case 2
    then have "(2 :: rat) powi 24 \<le> of_int n" using binade_bounds(1) [OF n] by simp
    then have "n = 2 ^ 24" using assms(2) by simp
    then show ?thesis using 2 round_even_of_int [of "2 ^ 23"] by (simp add: f32_pos_def)
  qed
qed (simp add: f32_pos_def)

lemma f32_exact: "0 \<le> n \<Longrightarrow> n \<le> 2 ^ 24 \<Longrightarrow> f32 (of_int n) = of_int n"
  using f32_pos_exact by (simp add: f32_def)

lemma f32_mono: "0 \<le> x \<Longrightarrow> x \<le> y \<Longrightarrow> f32 x \<le> f32 y"
  using f32_pos_mono by (simp add: f32_def)

lemma f32_nonneg: "0 \<le> x \<Longrightarrow> 0 \<le> f32 x"
  using f32_mono [of 0 x] f32_exact [of 0] by simp

text \<open>The relative error of rounding a number that is not subnormal.\<close>

lemma f32_error:
  assumes "2 powi (- 126) \<le> x"
  shows "\<bar>f32 x - x\<bar> \<le> x / 2 ^ 24"
proof -
  have x: "0 < x" using assms powi_pos [of "- 126"] by linarith
  have b: "- 126 \<le> binade x"
  proof (rule ccontr)
    assume "\<not> ?thesis"
    then have "(2 :: rat) powi (binade x + 1) \<le> 2 powi (- 126)" by (intro power_int_increasing) auto
    then show False using binade_bounds(2) [OF x] assms by linarith
  qed
  let ?u = "2 powi last_bit x :: rat" and ?r = "of_int (round_even (x / 2 powi last_bit x)) :: rat"
  have "f32 x - x = (?r - x / ?u) * ?u" using x by (simp add: f32_def f32_pos_def algebra_simps)
  then have "\<bar>f32 x - x\<bar> = \<bar>?r - x / ?u\<bar> * ?u" by (simp add: abs_mult)
  also have "\<dots> \<le> 1 / 2 * ?u" using round_even_error by (intro mult_right_mono) auto
  also have "\<dots> \<le> x / 2 ^ 24" using scaled(2) [OF x b] by (simp add: pos_le_divide_eq field_simps)
  finally show ?thesis .
qed

section \<open>Shares\<close>

text \<open>The part of a length that a factor between zero and one gives.\<close>

lemma f32_part:
  assumes "0 \<le> n" "n \<le> 2 ^ 24" "0 \<le> m" "m \<le> 1"
  shows "0 \<le> f32_to_i32 (f32_mul (i32_to_f32 n) m)" "f32_to_i32 (f32_mul (i32_to_f32 n) m) \<le> n"
    "f32_to_i32 (f32_mul (i32_to_f32 n) m) = \<lfloor>f32 (of_int n * m)\<rfloor>"
proof -
  have e: "i32_to_f32 n = of_int n" using f32_exact assms by (simp add: i32_to_f32_def)
  have p: "0 \<le> of_int n * m" "of_int n * m \<le> of_int n" using assms by (auto intro: mult_left_le)
  have hi: "f32 (of_int n * m) \<le> of_int n" using f32_mono [OF p] f32_exact assms by simp
  then have f: "0 \<le> \<lfloor>f32 (of_int n * m)\<rfloor>" "\<lfloor>f32 (of_int n * m)\<rfloor> \<le> n" using f32_nonneg [OF p(1)] by (auto simp: floor_le_iff)
  then show *: "f32_to_i32 (f32_mul (i32_to_f32 n) m) = \<lfloor>f32 (of_int n * m)\<rfloor>"
    using e f32_nonneg [OF p(1)] assms(2) by (simp add: f32_to_i32_def f32_mul_def)
  show "0 \<le> f32_to_i32 (f32_mul (i32_to_f32 n) m)" "f32_to_i32 (f32_mul (i32_to_f32 n) m) \<le> n" unfolding * using f by simp_all
qed

text \<open>An equal share of a length: it is within a fifth of a pixel of the exact one before it is cut.\<close>

lemma f32_share:
  fixes n len :: int
  assumes "1 \<le> n" "2 * n \<le> len" "len \<le> 2 ^ 20"
  defines "s \<equiv> f32_to_i32 (f32_mul (f32_div 1 (of_int n)) (i32_to_f32 len))"
  shows "1 \<le> s" "(n - 1) * s + 1 \<le> len"
proof -
  define r c y :: rat where "r = of_int len / of_int n" and "c = f32 (1 / of_int n)" and "y = f32 (c * of_int len)"
  have n: "0 < (of_int n :: rat)" "(of_int n :: rat) \<le> 2 ^ 20" using assms by (auto simp flip: of_int_le_iff)
  have len: "0 < len" "(of_int len :: rat) \<le> 2 ^ 20" using assms by (auto simp flip: of_int_le_iff)
  have r: "2 \<le> r" "of_int n * r = of_int len" "r \<le> of_int len" using assms n unfolding r_def by (auto simp: pos_le_divide_eq pos_divide_le_eq simp flip: of_int_le_iff)
  have small: "(2 :: rat) powi (- 126) \<le> 1 / 2 ^ 20" by (simp add: powi_nonpos)
  have "1 / 2 ^ 20 \<le> 1 / (of_int n :: rat)" using n by (intro divide_left_mono) auto
  then have "\<bar>c - 1 / of_int n\<bar> \<le> 1 / of_int n / 2 ^ 24" unfolding c_def by (intro f32_error) (use small in linarith)
  then have "\<bar>c - 1 / of_int n\<bar> * of_int len \<le> 1 / of_int n / 2 ^ 24 * of_int len" using len by (intro mult_right_mono) auto
  moreover have "c * of_int len - r = (c - 1 / of_int n) * of_int len" by (simp add: r_def left_diff_distrib)
  then have "\<bar>c - 1 / of_int n\<bar> * of_int len = \<bar>c * of_int len - r\<bar>" using len by (simp add: abs_mult)
  ultimately have e1: "\<bar>c * of_int len - r\<bar> \<le> r / 2 ^ 24" by (simp add: r_def)
  define z where "z = c * of_int len"
  have z: "z \<le> r + r / 2 ^ 24" "r - r / 2 ^ 24 \<le> z" using e1 unfolding z_def abs_le_iff by linarith+
  then have cl: "1 \<le> z" "z \<le> 2 * r" using r(1) by (simp_all add: field_simps)
  then have "\<bar>y - z\<bar> \<le> z / 2 ^ 24" unfolding y_def z_def [symmetric] by (intro f32_error) (use small in simp)
  then have yz: "y \<le> z + z / 2 ^ 24" "z - z / 2 ^ 24 \<le> y" unfolding abs_le_iff by linarith+
  have y: "1 \<le> y" "y \<le> 2 ^ 22" "y \<le> r + 3 * r / 2 ^ 24" using yz z cl r(1,3) len by (simp_all add: field_simps)
  then have s: "s = \<lfloor>y\<rfloor>"
    using len assms(3) f32_exact [of len] by (simp add: s_def y_def c_def f32_to_i32_def f32_mul_def f32_div_def i32_to_f32_def min_def max_def floor_le_iff le_floor_iff)
  show "1 \<le> s" unfolding s using y by (simp add: le_floor_iff)
  have "(of_int s :: rat) \<le> r + 3 * r / 2 ^ 24" using s y(3) of_int_floor_le [of y] by linarith
  then have "(of_int n - 1) * of_int s \<le> (of_int n - 1) * (r + 3 * r / 2 ^ 24)" using assms(1) by (intro mult_left_mono) (auto simp flip: of_int_le_iff)
  also have "\<dots> = (of_int n * r - r) + 3 * (of_int n * r - r) / 2 ^ 24" by (simp add: field_simps)
  also have "\<dots> = of_int len - r + 3 * (of_int len - r) / 2 ^ 24" unfolding r(2) ..
  also have "\<dots> \<le> of_int len - 1" using r len by (simp add: field_simps)
  finally have "(of_int ((n - 1) * s + 1) :: rat) \<le> of_int len" by simp
  then show "(n - 1) * s + 1 \<le> len" by (simp only: of_int_le_iff)
qed

end
