(* ===== verification/Rwm_Core.thy ===== *)
theory Rwm_Core
  imports F32 Session Wm_Layout "HOL-Library.Multiset"
begin

text \<open>
  The library of the tiling window manager RogueWM (\<open>userland/rwm-core\<close>): rectangles, clients, monitors, the layouts, the event bus and the
  operations of its state. A client identifier is a key of the third-party slot map that holds the clients; a new key is an argument, and so is
  the order in which the slot map goes through its keys.
\<close>

section \<open>Rectangles and tags\<close>

record rect =
  rt_x :: int
  rt_y :: int
  rt_w :: u32
  rt_h :: u32

definition rect_new :: "int \<Rightarrow> int \<Rightarrow> u32 \<Rightarrow> u32 \<Rightarrow> rect" where
  "rect_new x y w h = \<lparr>rt_x = x, rt_y = y, rt_w = w, rt_h = h\<rparr>"

definition overlap :: "int \<Rightarrow> u32 \<Rightarrow> int \<Rightarrow> u32 \<Rightarrow> int" where
  "overlap x w x' w' = max 0 (i32 (min (i32 (x + sint w)) (i32 (x' + sint w')) - max x x'))"

definition intersect_area :: "rect \<Rightarrow> rect \<Rightarrow> int" where
  "intersect_area a b = overlap (rt_x a) (rt_w a) (rt_x b) (rt_w b) * overlap (rt_y a) (rt_h a) (rt_y b) (rt_h b)"

definition inset :: "rect \<Rightarrow> int \<Rightarrow> int \<Rightarrow> int \<Rightarrow> int \<Rightarrow> rect" where
  "inset r t rgt b l = \<lparr>rt_x = i32 (rt_x r + l), rt_y = i32 (rt_y r + t), rt_w = word_of_int (max 1 (i32 (sint (rt_w r) - l - rgt))),
     rt_h = word_of_int (max 1 (i32 (sint (rt_h r) - t - b)))\<rparr>"

definition TAG_COUNT :: nat where "TAG_COUNT = 9"
definition TAGMASK :: u32 where "TAGMASK = push_bit TAG_COUNT 1 - 1"
definition SCRATCHTAG :: u32 where "SCRATCHTAG = push_bit TAG_COUNT 1"

definition tags_visible :: "u32 \<Rightarrow> u32 \<Rightarrow> bool" where
  "tags_visible client_tags view_tags \<longleftrightarrow> client_tags AND view_tags \<noteq> 0"

section \<open>Clients\<close>

type_synonym client_id = nat

record rclient =
  rc_win :: u32
  rc_name :: string
  rc_tags :: u32
  rc_geom :: rect
  rc_old_geom :: rect
  rc_border_width :: u32
  rc_old_border_width :: u32
  rc_base_w :: int
  rc_base_h :: int
  rc_inc_w :: int
  rc_inc_h :: int
  rc_max_w :: int
  rc_max_h :: int
  rc_min_w :: int
  rc_min_h :: int
  rc_min_aspect :: rat
  rc_max_aspect :: rat
  rc_hints_valid :: bool
  rc_is_floating :: bool
  rc_is_fullscreen :: bool
  rc_is_urgent :: bool
  rc_is_fixed :: bool
  rc_never_focus :: bool
  rc_old_state_floating :: bool
  rc_cfact :: rat
  rc_mon_id :: nat

definition rclient_new :: "u32 \<Rightarrow> rect \<Rightarrow> nat \<Rightarrow> rclient" where
  "rclient_new win geom mon =
     \<lparr>rc_win = win, rc_name = '''', rc_tags = 0, rc_geom = geom, rc_old_geom = geom, rc_border_width = 0, rc_old_border_width = 0,
      rc_base_w = 0, rc_base_h = 0, rc_inc_w = 0, rc_inc_h = 0, rc_max_w = 0, rc_max_h = 0, rc_min_w = 0, rc_min_h = 0,
      rc_min_aspect = 0, rc_max_aspect = 0, rc_hints_valid = False, rc_is_floating = False, rc_is_fullscreen = False, rc_is_urgent = False,
      rc_is_fixed = False, rc_never_focus = False, rc_old_state_floating = False, rc_cfact = 1, rc_mon_id = mon\<rparr>"

definition full_width :: "rclient \<Rightarrow> u32" where
  "full_width c = rt_w (rc_geom c) + 2 * rc_border_width c"

definition full_height :: "rclient \<Rightarrow> u32" where
  "full_height c = rt_h (rc_geom c) + 2 * rc_border_width c"

section \<open>Monitors\<close>

text \<open>The pairs for toggling are lists of two; an index selects one of them.\<close>

record rmonitor =
  rm_id :: nat
  rm_geom :: rect
  rm_window_area :: rect
  rm_tagset :: "u32 list"
  rm_sel_tags :: nat
  rm_layout :: "nat list"
  rm_sel_layout :: nat
  rm_layout_symbol :: string
  rm_mfact :: rat
  rm_nmaster :: u32
  rm_gap_inner_h :: int
  rm_gap_inner_v :: int
  rm_gap_outer_h :: int
  rm_gap_outer_v :: int
  rm_bar_win :: u32
  rm_bar_y :: int
  rm_show_bar :: bool
  rm_top_bar :: bool
  rm_clients :: "client_id list"
  rm_stack :: "client_id list"
  rm_focused :: "client_id option"

definition rmonitor_new :: "nat \<Rightarrow> rect \<Rightarrow> rmonitor" where
  "rmonitor_new i geom =
     \<lparr>rm_id = i, rm_geom = geom, rm_window_area = geom, rm_tagset = [1, 1], rm_sel_tags = 0, rm_layout = [0, 0], rm_sel_layout = 0,
      rm_layout_symbol = ''[]='', rm_mfact = f32 (55 / 100), rm_nmaster = 1, rm_gap_inner_h = 4, rm_gap_inner_v = 4, rm_gap_outer_h = 4,
      rm_gap_outer_v = 4, rm_bar_win = 0, rm_bar_y = 0, rm_show_bar = True, rm_top_bar = True, rm_clients = [], rm_stack = [], rm_focused = None\<rparr>"

definition current_tags :: "rmonitor \<Rightarrow> u32" where
  "current_tags m = rm_tagset m ! rm_sel_tags m"

definition monitor_layout :: "rmonitor \<Rightarrow> nat" where
  "monitor_layout m = rm_layout m ! rm_sel_layout m"

definition update_bar_pos :: "u32 \<Rightarrow> rmonitor \<Rightarrow> rmonitor" where
  "update_bar_pos bar_height m =
     (if rm_show_bar m then
        (let g = rm_geom m;
             area = \<lparr>rt_x = rt_x g, rt_y = (if rm_top_bar m then i32 (rt_y g + sint bar_height) else rt_y g), rt_w = rt_w g, rt_h = rt_h g - bar_height\<rparr>
         in m\<lparr>rm_window_area := area, rm_bar_y := (if rm_top_bar m then rt_y g else i32 (rt_y g + sint (rt_h area)))\<rparr>)
      else m\<lparr>rm_window_area := rm_geom m, rm_bar_y := i32 (- sint bar_height)\<rparr>)"

definition raise_in_stack :: "client_id \<Rightarrow> rmonitor \<Rightarrow> rmonitor" where
  "raise_in_stack cid m = m\<lparr>rm_stack := cid # filter (\<lambda>i. i \<noteq> cid) (rm_stack m)\<rparr>"

section \<open>Layouts\<close>

type_synonym arrangement = "(client_id \<times> rect) list"

datatype rlayout = TileLayout bool | MonocleLayout | SpiralLayout bool | DwindleLayout bool | BStackLayout bool | GridLayout bool | CenteredMasterLayout bool

fun layout_name :: "rlayout \<Rightarrow> string" where
  "layout_name (TileLayout _) = ''tile''"
| "layout_name MonocleLayout = ''monocle''"
| "layout_name (SpiralLayout _) = ''spiral''"
| "layout_name (DwindleLayout _) = ''dwindle''"
| "layout_name (BStackLayout _) = ''bstack''"
| "layout_name (GridLayout _) = ''grid''"
| "layout_name (CenteredMasterLayout _) = ''centeredmaster''"

fun symbol :: "rlayout \<Rightarrow> string" where
  "symbol (TileLayout _) = ''[]=''"
| "symbol MonocleLayout = ''[M]''"
| "symbol (SpiralLayout _) = ''[@]''"
| "symbol (DwindleLayout _) = [CHR ''['', CHR 0x5C, CHR '']'']"
| "symbol (BStackLayout _) = ''TTT''"
| "symbol (GridLayout _) = ''HHH''"
| "symbol (CenteredMasterLayout _) = ''|M|''"

text \<open>The outer gaps above and at the sides, then the inner ones.\<close>

definition effective_gaps :: "rmonitor \<Rightarrow> nat \<Rightarrow> bool \<Rightarrow> int \<times> int \<times> int \<times> int" where
  "effective_gaps m n smart =
     (if n = 0 then (0, 0, 0, 0)
      else if smart \<and> n = 1 then (0, 0, 0, 0)
      else (rm_gap_outer_h m, rm_gap_outer_v m, rm_gap_inner_h m, rm_gap_inner_v m))"

text \<open>The loop of \<open>cfact_sizes\<close>; the last client takes the rest.\<close>

fun cfact_loop :: "rat \<Rightarrow> int \<Rightarrow> int \<Rightarrow> rclient list \<Rightarrow> int list" where
  "cfact_loop total_cfact len used [] = []"
| "cfact_loop total_cfact len used [c] = [i32 (len - used)]"
| "cfact_loop total_cfact len used (c # cs) =
     (let s = f32_to_i32 (f32_mul (f32_div (rc_cfact c) total_cfact) (i32_to_f32 len)) in s # cfact_loop total_cfact len (i32 (used + s)) cs)"

definition cfact_sizes :: "rclient list \<Rightarrow> int \<Rightarrow> int list" where
  "cfact_sizes cs len =
     (if cs = [] then []
      else let total_cfact = foldl (\<lambda>s c. f32_add s (rc_cfact c)) 0 cs
           in if total_cfact \<le> 0 then replicate (length cs) (len sdiv int (length cs))
              else cfact_loop total_cfact len 0 cs)"

text \<open>The loops that stack clients of given sizes from top to bottom and from left to right. A placement has the sizes before \<open>max(1)\<close>.\<close>

fun sized_column :: "int \<Rightarrow> int \<Rightarrow> int \<Rightarrow> int \<Rightarrow> (client_id \<times> int) list \<Rightarrow> placement list" where
  "sized_column x w gap y [] = []"
| "sized_column x w gap y ((c, h) # t) = Place c x y w h # sized_column x w gap (i32 (y + h + gap)) t"

fun sized_row :: "int \<Rightarrow> int \<Rightarrow> int \<Rightarrow> int \<Rightarrow> (client_id \<times> int) list \<Rightarrow> placement list" where
  "sized_row y h gap x [] = []"
| "sized_row y h gap x ((c, w) # t) = Place c x y w h # sized_row y h gap (i32 (x + w + gap)) t"

definition with_sizes :: "(client_id \<times> rclient) list \<Rightarrow> int \<Rightarrow> int \<Rightarrow> (client_id \<times> int) list" where
  "with_sizes cs len gap = zip (map fst cs) (cfact_sizes (map snd cs) (i32 (len - gap * max 0 (int (length cs) - 1))))"

definition share :: "int \<Rightarrow> rat \<Rightarrow> int" where
  "share len f = f32_to_i32 (f32_mul (i32_to_f32 len) f)"

definition layout_tile :: "rmonitor \<Rightarrow> (client_id \<times> rclient) list \<Rightarrow> bool \<Rightarrow> rect \<Rightarrow> placement list" where
  "layout_tile m cs smart area =
     (let n = length cs in if n = 0 then [] else
      case effective_gaps m n smart of (oh, ov, ih, iv) \<Rightarrow>
      let nm = min (unat (rm_nmaster m)) n; ns = n - nm;
          ax = i32 (rt_x area + ov); ay = i32 (rt_y area + oh);
          aw = i32 (sint (rt_w area) - 2 * ov); ah = i32 (sint (rt_h area) - 2 * oh);
          mw = (if nm = 0 \<or> ns = 0 then aw else share aw (rm_mfact m));
          sw = i32 (aw - mw - (if ns > 0 \<and> nm > 0 then iv else 0));
          sx = i32 (ax + mw + (if nm > 0 then iv else 0))
      in sized_column ax mw ih ay (with_sizes (take nm cs) ah ih) @
         (if ns > 0 then sized_column sx sw ih ay (with_sizes (drop nm cs) ah ih) else []))"

definition layout_bstack :: "rmonitor \<Rightarrow> (client_id \<times> rclient) list \<Rightarrow> bool \<Rightarrow> rect \<Rightarrow> placement list" where
  "layout_bstack m cs smart area =
     (let n = length cs in if n = 0 then [] else
      case effective_gaps m n smart of (oh, ov, ih, iv) \<Rightarrow>
      let nm = min (unat (rm_nmaster m)) n; ns = n - nm;
          ax = i32 (rt_x area + ov); ay = i32 (rt_y area + oh);
          aw = i32 (sint (rt_w area) - 2 * ov); ah = i32 (sint (rt_h area) - 2 * oh);
          mh = (if nm = 0 \<or> ns = 0 then ah else share ah (rm_mfact m));
          sh = i32 (ah - mh - (if ns > 0 \<and> nm > 0 then ih else 0));
          sy = i32 (ay + mh + (if nm > 0 then ih else 0))
      in sized_row ay mh iv ax (with_sizes (take nm cs) aw iv) @
         (if ns > 0 then sized_row sy sh iv ax (with_sizes (drop nm cs) aw iv) else []))"

definition layout_monocle :: "(client_id \<times> rclient) list \<Rightarrow> rect \<Rightarrow> arrangement" where
  "layout_monocle cs area = map (\<lambda>(cid, _). (cid, area)) cs"

fun fibonacci_loop :: "bool \<Rightarrow> int \<Rightarrow> int \<Rightarrow> nat \<Rightarrow> int \<Rightarrow> int \<Rightarrow> int \<Rightarrow> int \<Rightarrow> client_id list \<Rightarrow> placement list" where
  "fibonacci_loop dw ih iv i cx cy cw ch [] = []"
| "fibonacci_loop dw ih iv i cx cy cw ch [cid] = [Place cid cx cy cw ch]"
| "fibonacci_loop dw ih iv i cx cy cw ch (cid # t) =
     (if (if dw then i else i + 1) mod 2 = 0 then
        (let half = i32 (ch - ih) sdiv 2
         in Place cid cx cy cw half # fibonacci_loop dw ih iv (i + 1) cx (i32 (cy + half + ih)) cw (i32 (ch - (half + ih))) t)
      else
        (let half = i32 (cw - iv) sdiv 2
         in Place cid cx cy half ch # fibonacci_loop dw ih iv (i + 1) (i32 (cx + half + iv)) cy (i32 (cw - (half + iv))) ch t))"

definition fibonacci_arrange :: "rmonitor \<Rightarrow> (client_id \<times> rclient) list \<Rightarrow> rect \<Rightarrow> bool \<Rightarrow> bool \<Rightarrow> placement list" where
  "fibonacci_arrange m cs area dw smart =
     (if cs = [] then []
      else case effective_gaps m (length cs) smart of (oh, ov, ih, iv) \<Rightarrow>
        fibonacci_loop dw ih iv 0 (i32 (rt_x area + ov)) (i32 (rt_y area + oh)) (i32 (sint (rt_w area) - 2 * ov))
          (i32 (sint (rt_h area) - 2 * oh)) (map fst cs))"

definition layout_grid :: "rmonitor \<Rightarrow> (client_id \<times> rclient) list \<Rightarrow> bool \<Rightarrow> rect \<Rightarrow> placement list" where
  "layout_grid m cs smart area =
     (let n = length cs in if n = 0 then [] else
      case effective_gaps m n smart of (oh, ov, ih, iv) \<Rightarrow>
      let rows = grid_cols 1 n; cols = (if rows > 0 then (n + rows - 1) div rows else 1);
          ax = i32 (rt_x area + ov); ay = i32 (rt_y area + oh);
          aw = i32 (sint (rt_w area) - 2 * ov); ah = i32 (sint (rt_h area) - 2 * oh);
          cw = i32 (aw - iv * (int cols - 1)) sdiv int cols;
          ch = i32 (ah - ih * (int rows - 1)) sdiv int rows
      in map (\<lambda>(i, cid). Place cid (i32 (ax + int (i mod cols) * (cw + iv))) (i32 (ay + int (i div cols) * (ch + ih))) cw ch)
           (zip [0..<n] (map fst cs)))"

definition layout_centeredmaster :: "rmonitor \<Rightarrow> (client_id \<times> rclient) list \<Rightarrow> bool \<Rightarrow> rect \<Rightarrow> placement list" where
  "layout_centeredmaster m cs smart area =
     (let n = length cs in if n = 0 then [] else
      case effective_gaps m n smart of (oh, ov, ih, iv) \<Rightarrow>
      let nm = min (unat (rm_nmaster m)) n; ns = n - nm;
          ax = i32 (rt_x area + ov); ay = i32 (rt_y area + oh);
          aw = i32 (sint (rt_w area) - 2 * ov); ah = i32 (sint (rt_h area) - 2 * oh)
      in if ns = 0 then sized_column ax aw ih ay (with_sizes cs ah ih)
         else let mw = share aw (rm_mfact m);
                  side_w = i32 (aw - mw - 2 * iv) sdiv 2;
                  mx = i32 (ax + side_w + iv);
                  stack = drop nm cs
              in sized_column mx mw ih ay (with_sizes (take nm cs) ah ih) @
                 sized_column ax side_w ih ay (with_sizes (alternate True stack) ah ih) @
                 sized_column (i32 (mx + mw + iv)) side_w ih ay (with_sizes (alternate False stack) ah ih))"

definition placed :: "placement \<Rightarrow> client_id \<times> rect" where
  "placed p = (target p, rect_new (px p) (py p) (word_of_int (max 1 (pw p))) (word_of_int (max 1 (ph p))))"

fun layout_arrange :: "rlayout \<Rightarrow> rmonitor \<Rightarrow> (client_id \<times> rclient) list \<Rightarrow> rect \<Rightarrow> arrangement" where
  "layout_arrange (TileLayout g) m cs area = map placed (layout_tile m cs g area)"
| "layout_arrange MonocleLayout m cs area = layout_monocle cs area"
| "layout_arrange (SpiralLayout g) m cs area = map placed (fibonacci_arrange m cs area False g)"
| "layout_arrange (DwindleLayout g) m cs area = map placed (fibonacci_arrange m cs area True g)"
| "layout_arrange (BStackLayout g) m cs area = map placed (layout_bstack m cs g area)"
| "layout_arrange (GridLayout g) m cs area = map placed (layout_grid m cs g area)"
| "layout_arrange (CenteredMasterLayout g) m cs area = map placed (layout_centeredmaster m cs g area)"

definition builtin_layouts :: "bool \<Rightarrow> rlayout list" where
  "builtin_layouts smart = [TileLayout smart, MonocleLayout, SpiralLayout smart, DwindleLayout smart, BStackLayout smart, GridLayout smart,
     CenteredMasterLayout smart]"

section \<open>Events\<close>

datatype wm_event =
  ClientCreated client_id u32 string string
| ClientDestroyed client_id u32
| ClientFocused client_id
| ClientUnfocused client_id
| TagSwitched nat u32 u32
| LayoutChanged nat string
| BarClick nat int u32
| Startup
| Shutdown
| ConfigReloaded

text \<open>A hook has a name and changes the world of its plugin.\<close>

type_synonym 'w event_bus = "(string \<times> (wm_event \<Rightarrow> 'w \<Rightarrow> 'w)) list"

definition subscribe :: "string \<Rightarrow> (wm_event \<Rightarrow> 'w \<Rightarrow> 'w) \<Rightarrow> 'w event_bus \<Rightarrow> 'w event_bus" where
  "subscribe nm hook bus = bus @ [(nm, hook)]"

definition unsubscribe_prefix :: "string \<Rightarrow> 'w event_bus \<Rightarrow> 'w event_bus" where
  "unsubscribe_prefix p bus = filter (\<lambda>(nm, _). take (length p) nm \<noteq> p) bus"

definition emit :: "wm_event \<Rightarrow> 'w event_bus \<Rightarrow> 'w \<Rightarrow> 'w" where
  "emit ev bus = fold (\<lambda>(_, hook). hook ev) bus"

section \<open>State\<close>

text \<open>The fields of \<open>WmState\<close>, without its bus. An index beyond the monitors panics (\<open>None\<close>), except where the code asks with \<open>get\<close>.\<close>

record rwm_state =
  rs_clients :: "client_id \<rightharpoonup> rclient"
  rs_monitors :: "rmonitor list"
  rs_sel_mon :: nat
  rs_layouts :: "rlayout list"
  rs_bar_height :: u32
  rs_status_text :: string
  rs_running :: bool
  rs_screen_w :: u32
  rs_screen_h :: u32

definition rwm_state_new :: rwm_state where
  "rwm_state_new = \<lparr>rs_clients = Map.empty, rs_monitors = [], rs_sel_mon = 0, rs_layouts = [], rs_bar_height = 0, rs_status_text = '''',
     rs_running = True, rs_screen_w = 0, rs_screen_h = 0\<rparr>"

definition monitor_at :: "nat \<Rightarrow> rwm_state \<Rightarrow> rmonitor option" where
  "monitor_at i s = (if i < length (rs_monitors s) then Some (rs_monitors s ! i) else None)"

definition on_monitor :: "nat \<Rightarrow> (rmonitor \<Rightarrow> rmonitor) \<Rightarrow> rwm_state \<Rightarrow> rwm_state" where
  "on_monitor i f s = s\<lparr>rs_monitors := (rs_monitors s)[i := f (rs_monitors s ! i)]\<rparr>"

definition selected_monitor :: "rwm_state \<Rightarrow> rmonitor option" where
  "selected_monitor s = monitor_at (rs_sel_mon s) s"

text \<open>\<open>max_by_key\<close> returns the last of several maxima.\<close>

definition rect_to_monitor :: "rect \<Rightarrow> rwm_state \<Rightarrow> nat" where
  "rect_to_monitor r s =
     (case foldl (\<lambda>best i. case best of None \<Rightarrow> Some i
            | Some b \<Rightarrow> if intersect_area (rm_geom (rs_monitors s ! i)) r \<ge> intersect_area (rm_geom (rs_monitors s ! b)) r then Some i else Some b)
          None [0..<length (rs_monitors s)] of None \<Rightarrow> 0 | Some i \<Rightarrow> i)"

definition rwm_add_client :: "client_id \<Rightarrow> rclient \<Rightarrow> nat \<Rightarrow> rwm_state \<Rightarrow> rwm_state" where
  "rwm_add_client cid c mon s =
     (let s1 = s\<lparr>rs_clients := (rs_clients s)(cid \<mapsto> c\<lparr>rc_mon_id := mon\<rparr>)\<rparr>
      in if mon < length (rs_monitors s1)
         then on_monitor mon (\<lambda>m. m\<lparr>rm_clients := rm_clients m @ [cid], rm_stack := cid # rm_stack m\<rparr>) s1 else s1)"

definition forget_client :: "client_id \<Rightarrow> rmonitor \<Rightarrow> rmonitor" where
  "forget_client cid m =
     (let m1 = m\<lparr>rm_clients := filter (\<lambda>i. i \<noteq> cid) (rm_clients m), rm_stack := filter (\<lambda>i. i \<noteq> cid) (rm_stack m)\<rparr>
      in if rm_focused m1 = Some cid then m1\<lparr>rm_focused := (case rm_stack m1 of [] \<Rightarrow> None | i # _ \<Rightarrow> Some i)\<rparr> else m1)"

definition rwm_remove_client :: "client_id \<Rightarrow> rwm_state \<Rightarrow> rwm_state" where
  "rwm_remove_client cid s =
     (case rs_clients s cid of
        None \<Rightarrow> s
      | Some c \<Rightarrow> (let s1 = s\<lparr>rs_clients := (rs_clients s)(cid := None)\<rparr>
                  in if rc_mon_id c < length (rs_monitors s1) then on_monitor (rc_mon_id c) (forget_client cid) s1 else s1))"

definition clients_where :: "(rclient \<Rightarrow> bool) \<Rightarrow> rmonitor \<Rightarrow> rwm_state \<Rightarrow> (client_id \<times> rclient) list" where
  "clients_where q m s = List.map_filter (\<lambda>cid. case rs_clients s cid of Some c \<Rightarrow> if q c then Some (cid, c) else None | None \<Rightarrow> None) (rm_clients m)"

definition monitor_tiled :: "nat \<Rightarrow> rwm_state \<Rightarrow> (client_id \<times> rclient) list option" where
  "monitor_tiled mon s = map_option (\<lambda>m.
     clients_where (\<lambda>c. tags_visible (rc_tags c) (current_tags m) \<and> \<not> rc_is_floating c \<and> \<not> rc_is_fullscreen c) m s) (monitor_at mon s)"

definition client_by_window :: "client_id list \<Rightarrow> u32 \<Rightarrow> rwm_state \<Rightarrow> client_id option" where
  "client_by_window order win s = List.find (\<lambda>cid. case rs_clients s cid of Some c \<Rightarrow> rc_win c = win | None \<Rightarrow> False) order"

definition clients_on_tag :: "nat \<Rightarrow> u32 \<Rightarrow> rwm_state \<Rightarrow> nat option" where
  "clients_on_tag mon tag_bit s = map_option (\<lambda>m. length (clients_where (\<lambda>c. rc_tags c AND tag_bit \<noteq> 0) m s)) (monitor_at mon s)"

definition layout_of :: "nat \<Rightarrow> rwm_state \<Rightarrow> rlayout option option" where
  "layout_of mon s = map_option (\<lambda>m. if monitor_layout m < length (rs_layouts s) then Some (rs_layouts s ! monitor_layout m) else None) (monitor_at mon s)"

definition layout_symbol :: "nat \<Rightarrow> rwm_state \<Rightarrow> string option" where
  "layout_symbol mon s = map_option (\<lambda>l. case l of Some l \<Rightarrow> symbol l | None \<Rightarrow> ''???'') (layout_of mon s)"

definition set_view :: "u32 \<Rightarrow> rmonitor \<Rightarrow> rmonitor" where
  "set_view new_tags m = m\<lparr>rm_tagset := (rm_tagset m)[rm_sel_tags m := new_tags]\<rparr>"

definition view_tags :: "nat \<Rightarrow> u32 \<Rightarrow> rwm_state \<Rightarrow> rwm_state option" where
  "view_tags mon tags s =
     map_option (\<lambda>m. let new_tags = tags AND TAGMASK in
        if new_tags = current_tags m then s
        else on_monitor mon (\<lambda>m. let m1 = m\<lparr>rm_sel_tags := rm_sel_tags m XOR 1\<rparr> in if new_tags \<noteq> 0 then set_view new_tags m1 else m1) s)
       (monitor_at mon s)"

definition toggle_view :: "nat \<Rightarrow> u32 \<Rightarrow> rwm_state \<Rightarrow> rwm_state option" where
  "toggle_view mon tag_bit s =
     map_option (\<lambda>m. let new_tags = current_tags m XOR (tag_bit AND TAGMASK) in
        if new_tags \<noteq> 0 then on_monitor mon (set_view new_tags) s else s) (monitor_at mon s)"

definition set_tags :: "client_id \<Rightarrow> (u32 \<Rightarrow> u32) \<Rightarrow> rwm_state \<Rightarrow> rwm_state" where
  "set_tags cid f s =
     (case rs_clients s cid of
        None \<Rightarrow> s
      | Some c \<Rightarrow> if f (rc_tags c) \<noteq> 0 then s\<lparr>rs_clients := (rs_clients s)(cid \<mapsto> c\<lparr>rc_tags := f (rc_tags c)\<rparr>)\<rparr> else s)"

definition tag_client :: "client_id \<Rightarrow> u32 \<Rightarrow> rwm_state \<Rightarrow> rwm_state" where
  "tag_client cid tags s = set_tags cid (\<lambda>_. tags AND TAGMASK) s"

definition toggle_client_tag :: "client_id \<Rightarrow> u32 \<Rightarrow> rwm_state \<Rightarrow> rwm_state" where
  "toggle_client_tag cid tag_bit s = set_tags cid (\<lambda>t. t XOR (tag_bit AND TAGMASK)) s"

definition toggle_scratchpad :: "nat \<Rightarrow> rwm_state \<Rightarrow> (client_id option \<times> rwm_state) option" where
  "toggle_scratchpad mon s =
     map_option (\<lambda>m. case List.find (\<lambda>cid. case rs_clients s cid of Some c \<Rightarrow> rc_tags c AND SCRATCHTAG \<noteq> 0 | None \<Rightarrow> False) (rm_clients m) of
         Some cid \<Rightarrow> (Some cid, on_monitor mon (\<lambda>m. set_view (current_tags m XOR SCRATCHTAG) m) s)
       | None \<Rightarrow> (None, s)) (monitor_at mon s)"

section \<open>Sizes\<close>

text \<open>Clients whose factor has its initial value; nothing in the program changes it.\<close>

definition plain :: "rclient list \<Rightarrow> bool" where
  "plain cs \<longleftrightarrow> (\<forall>c\<in>set cs. rc_cfact c = 1)"

lemma total_cfact:
  assumes "plain cs" "k + int (length cs) \<le> 2 ^ 24" "0 \<le> k"
  shows "foldl (\<lambda>s c. f32_add s (rc_cfact c)) (of_int k) cs = of_int (k + int (length cs))"
  using assms
proof (induction cs arbitrary: k)
  case (Cons c cs)
  have "f32_add (of_int k) (rc_cfact c) = f32 (of_int (k + 1))" using Cons.prems(1) by (simp add: f32_add_def plain_def)
  also have "\<dots> = of_int (k + 1)" using Cons.prems by (intro f32_exact) auto
  finally show ?case using Cons.IH [of "k + 1"] Cons.prems by (simp add: plain_def algebra_simps)
qed simp

lemma cfact_loop_ok:
  assumes "\<And>c. c \<in> set cs \<Longrightarrow> f32_to_i32 (f32_mul (f32_div (rc_cfact c) total_cfact) (i32_to_f32 len)) = s" "1 \<le> s"
    "0 \<le> used" "used + (int (length cs) - 1) * s + 1 \<le> len" "len \<le> 2 ^ 20" "cs \<noteq> []"
  shows "length (cfact_loop total_cfact len used cs) = length cs \<and> (\<forall>v\<in>set (cfact_loop total_cfact len used cs). 1 \<le> v) \<and>
         sum_list (cfact_loop total_cfact len used cs) = len - used"
  using assms
proof (induction total_cfact len used cs rule: cfact_loop.induct)
  case (2 total_cfact len used c)
  then show ?case by (simp add: i32_pos)
next
  case (3 total_cfact len used c d cs)
  have "0 \<le> int (length cs) * s" using 3(3) by simp
  moreover have e: "(int (length (c # d # cs)) - 1) * s = s + int (length cs) * s" by (simp add: algebra_simps)
  ultimately have "0 \<le> used + s" "used + s < 1000000000" using 3(3-6) by (simp_all, linarith)
  then have i: "i32 (used + s) = used + s" by (rule i32_pos)
  have "used + s + (int (length (d # cs)) - 1) * s + 1 \<le> len" using 3(5) e by simp
  then show ?case using 3(1) [OF refl] 3(2-6) i by (simp add: algebra_simps)
qed simp

lemma cfact_sizes_ok:
  assumes "plain cs" "cs \<noteq> []" "2 * int (length cs) \<le> len" "len \<le> 2 ^ 20"
  shows "length (cfact_sizes cs len) = length cs \<and> (\<forall>v\<in>set (cfact_sizes cs len). 1 \<le> v) \<and> sum_list (cfact_sizes cs len) = len"
proof -
  let ?n = "int (length cs)"
  have n: "1 \<le> ?n" using assms(2) by (cases cs) auto
  have t: "foldl (\<lambda>s c. f32_add s (rc_cfact c)) 0 cs = of_int ?n" using total_cfact [of cs 0] assms by simp
  note sh = f32_share [OF n assms(3,4)]
  have "cfact_sizes cs len = cfact_loop (of_int ?n) len 0 cs" using assms(2) n by (simp add: cfact_sizes_def t)
  then show ?thesis
    using cfact_loop_ok [of cs "of_int ?n" len "f32_to_i32 (f32_mul (f32_div 1 (of_int ?n)) (i32_to_f32 len))" 0] assms sh
    by (simp add: plain_def)
qed

lemma sized_column_tiles:
  assumes "0 \<le> gap" "gap < 1000" "1 \<le> w" "0 \<le> y" "stop < 100000000" "\<forall>v\<in>set (map snd t). 1 \<le> v"
    and "y + sum_list (map snd t) + gap * (int (length t) - 1) \<le> stop"
  shows "tiles x y w (stop - y) (sized_column x w gap y t)"
  using assms(4,6,7)
proof (induction t arbitrary: y)
  case (Cons a t)
  obtain c h where a: "a = (c, h)" by fastforce
  have h: "1 \<le> h" using Cons.prems a by simp
  have sum: "int (length t) \<le> sum_list (map snd t)" if "\<forall>v\<in>set (map snd t). (1 :: int) \<le> v" for t :: "(client_id \<times> int) list"
    using that by (induction t) auto
  have g: "0 \<le> gap * int (length t)" using assms(1) by simp
  have room: "y + h + gap * int (length t) + sum_list (map snd t) \<le> stop" using Cons.prems(3) a by (simp add: algebra_simps)
  then have yh: "y + h \<le> stop" using sum [of t] Cons.prems(2) g by simp
  have i: "i32 (y + h + gap) = y + h + gap" using yh h Cons.prems(1) assms by (intro i32_pos) auto
  show ?case
  proof (cases "t = []")
    case True
    then show ?thesis using a h yh assms by (simp add: tiles_def inside_def)
  next
    case False
    have "y + h + gap + sum_list (map snd t) + gap * (int (length t) - 1) \<le> stop" using room by (simp add: algebra_simps)
    then have below: "tiles x (y + h + gap) w (stop - (y + h + gap)) (sized_column x w gap (y + h + gap) t)"
      using Cons.IH [of "y + h + gap"] Cons.prems h assms(1) by simp
    have "inside x y w (stop - y) (Place c x y w h)" using yh h assms by (simp add: inside_def)
    moreover have "tiles x y w (stop - y) (sized_column x w gap (y + h + gap) t)" by (rule tiles_mono [OF below]) (use h assms in auto)
    moreover have "apart (Place c x y w h) q" if "q \<in> set (sized_column x w gap (y + h + gap) t)" for q
      using that below assms by (fastforce simp: tiles_def inside_def apart_def)
    ultimately show ?thesis using i by (simp add: a tiles_Cons)
  qed
qed simp

lemma sized_row_flip: "sized_row y h gap x t = map flip (sized_column y h gap x t)"
  by (induction t arbitrary: x rule: list.induct) (auto simp: flip_def)

lemma sized_column_targets [simp]: "map target (sized_column x w gap y t) = map fst t"
  by (induction t arbitrary: y) auto

section \<open>The layouts\<close>

text \<open>A share of a length by a factor between nine and ninety-one hundredths.\<close>

definition factor_ok :: "rat \<Rightarrow> bool" where
  "factor_ok f \<longleftrightarrow> 9 / 100 \<le> f \<and> f \<le> 91 / 100"

lemma share_ok:
  assumes "230 \<le> len" "len \<le> 2 ^ 20" "factor_ok f"
  shows "1 \<le> share len f" "share len f + 20 \<le> len"
proof -
  have f: "9 / 100 \<le> f" "f \<le> 91 / 100" using assms(3) by (simp_all add: factor_ok_def)
  have len: "230 \<le> (of_int len :: rat)" using assms(1) by (simp flip: of_int_le_iff)
  define p where "p = of_int len * f"
  have p: "of_int len * (9 / 100) \<le> p" "p \<le> of_int len * (91 / 100)" unfolding p_def using f len by (auto intro!: mult_left_mono)
  have "(2 :: rat) powi (- 126) \<le> 1" by (simp add: powi_nonpos)
  then have "2 powi (- 126) \<le> p" using p(1) len by linarith
  from f32_error [OF this] have e: "f32 p \<le> p + p / 2 ^ 24" "p - p / 2 ^ 24 \<le> f32 p" unfolding abs_le_iff by linarith+
  have s: "share len f = \<lfloor>f32 p\<rfloor>" using f32_part(3) [of len f] assms f by (simp add: share_def p_def)
  have "1 \<le> f32 p" using e(2) p(1) len by (simp add: field_simps)
  then show "1 \<le> share len f" unfolding s by (simp add: le_floor_iff)
  have "f32 p + 20 \<le> of_int len" using e(1) p(2) len by (simp add: field_simps)
  then have "(of_int \<lfloor>f32 p\<rfloor> :: rat) + 20 \<le> of_int len" using of_int_floor_le [of "f32 p"] by linarith
  then have "(of_int (\<lfloor>f32 p\<rfloor> + 20) :: rat) \<le> of_int len" by simp
  then show "share len f + 20 \<le> len" unfolding s by (simp only: of_int_le_iff)
qed

lemma with_sizes_ok:
  assumes "plain (map snd cs)" "0 \<le> gap" "gap \<le> 9" "11 * int (length cs) \<le> h" "h \<le> 900000"
  shows "map fst (with_sizes cs h gap) = map fst cs" "\<forall>v\<in>set (map snd (with_sizes cs h gap)). 1 \<le> v"
    "cs \<noteq> [] \<Longrightarrow> sum_list (map snd (with_sizes cs h gap)) + gap * (int (length cs) - 1) = h"
proof -
  let ?len = "h - gap * max 0 (int (length cs) - 1)"
  have all: "map fst (with_sizes cs h gap) = map fst cs \<and> (\<forall>v\<in>set (map snd (with_sizes cs h gap)). 1 \<le> v) \<and>
      sum_list (map snd (with_sizes cs h gap)) + gap * (int (length cs) - 1) = h" if ne: "cs \<noteq> []"
  proof -
    have n: "1 \<le> int (length cs)" using ne by (cases cs) auto
    have "gap * (int (length cs) - 1) \<le> 9 * (int (length cs) - 1)" "0 \<le> gap * (int (length cs) - 1)" using assms n by (intro mult_right_mono mult_nonneg_nonneg; linarith)+
    then have l: "2 * int (length cs) \<le> ?len" "?len \<le> 900000" using assms n by auto
    then have i: "i32 ?len = ?len" by (intro i32_pos) auto
    note sz = cfact_sizes_ok [OF assms(1), of ?len]
    have "with_sizes cs h gap = zip (map fst cs) (cfact_sizes (map snd cs) ?len)" by (simp add: with_sizes_def i)
    then show ?thesis using sz l ne n by simp
  qed
  show "map fst (with_sizes cs h gap) = map fst cs" "\<forall>v\<in>set (map snd (with_sizes cs h gap)). 1 \<le> v"
    using all by (cases "cs = []"; simp add: with_sizes_def cfact_sizes_def)+
  show "cs \<noteq> [] \<Longrightarrow> sum_list (map snd (with_sizes cs h gap)) + gap * (int (length cs) - 1) = h" using all by blast
qed

lemma strip_tiles:
  assumes "plain (map snd cs)" "0 \<le> gap" "gap \<le> 9" "11 * int (length cs) \<le> h" "0 \<le> y" "y + h \<le> 900000" "1 \<le> w"
  shows "tiles x y w h (sized_column x w gap y (with_sizes cs h gap))"
proof (cases "cs = []")
  case False
  have h: "h \<le> 900000" using assms by simp
  note ws = with_sizes_ok [OF assms(1-4) h]
  have "length (with_sizes cs h gap) = length cs" using ws(1) by (metis length_map)
  then have "y + sum_list (map snd (with_sizes cs h gap)) + gap * (int (length (with_sizes cs h gap)) - 1) \<le> y + h" using ws(3) [OF False] by simp
  from sized_column_tiles [OF assms(2) _ assms(7,5) _ ws(2) this, of x] show ?thesis using assms by simp
qed (simp add: with_sizes_def cfact_sizes_def)

lemma strip_targets:
  "plain (map snd cs) \<Longrightarrow> 0 \<le> gap \<Longrightarrow> gap \<le> 9 \<Longrightarrow> 11 * int (length cs) \<le> h \<Longrightarrow> h \<le> 900000 \<Longrightarrow>
   map target (sized_column x w gap y (with_sizes cs h gap)) = map fst cs"
  using with_sizes_ok(1) by simp

lemma plain_take: "plain (map snd cs) \<Longrightarrow> plain (map snd (take k cs))" and plain_drop: "plain (map snd cs) \<Longrightarrow> plain (map snd (drop k cs))"
  by (auto simp: plain_def dest: in_set_takeD in_set_dropD)

text \<open>Room for the clients of a layout: the gaps of the monitor are small, the area is not too small, and all coordinates are.\<close>

definition roomy :: "rmonitor \<Rightarrow> nat \<Rightarrow> rect \<Rightarrow> bool" where
  "roomy m n area \<longleftrightarrow> (\<forall>g\<in>{rm_gap_outer_h m, rm_gap_outer_v m, rm_gap_inner_h m, rm_gap_inner_v m}. 0 \<le> g \<and> g \<le> 9) \<and>
     0 \<le> rt_x area \<and> 0 \<le> rt_y area \<and> rt_x area + sint (rt_w area) \<le> 900000 \<and> rt_y area + sint (rt_h area) \<le> 900000 \<and>
     11 * int n + 250 \<le> sint (rt_w area) \<and> 11 * int n + 250 \<le> sint (rt_h area)"

lemma roomy_area:
  assumes "roomy m n area" "effective_gaps m n g = (oh, ov, ih, iv)"
  defines "x \<equiv> rt_x area + ov" and "y \<equiv> rt_y area + oh" and "w \<equiv> sint (rt_w area) - 2 * ov" and "h \<equiv> sint (rt_h area) - 2 * oh"
  shows "i32 x = x" "i32 y = y" "i32 w = w" "i32 h = h" "0 \<le> ih" "ih \<le> 9" "0 \<le> iv" "iv \<le> 9" "0 \<le> x" "0 \<le> y" "x + w \<le> 900000" "y + h \<le> 900000"
    "11 * int n + 230 \<le> w" "11 * int n + 230 \<le> h" "rt_x area \<le> x" "rt_y area \<le> y"
    "x + w \<le> rt_x area + sint (rt_w area)" "y + h \<le> rt_y area + sint (rt_h area)"
proof -
  have o1: "0 \<le> oh" "oh \<le> 9" "0 \<le> ov" "ov \<le> 9" and i1: "0 \<le> ih" "ih \<le> 9" "0 \<le> iv" "iv \<le> 9"
    using assms(1,2) by (auto simp: roomy_def effective_gaps_def split: if_splits)
  note r = assms(1) [unfolded roomy_def]
  show "0 \<le> ih" "ih \<le> 9" "0 \<le> iv" "iv \<le> 9" by (rule i1)+
  show "i32 x = x" "i32 y = y" "i32 w = w" "i32 h = h" unfolding x_def y_def w_def h_def by (rule i32_pos; use r o1 in linarith)+
  show "0 \<le> x" "0 \<le> y" "x + w \<le> 900000" "y + h \<le> 900000" "11 * int n + 230 \<le> w" "11 * int n + 230 \<le> h" "rt_x area \<le> x" "rt_y area \<le> y"
    "x + w \<le> rt_x area + sint (rt_w area)" "y + h \<le> rt_y area + sint (rt_h area)"
    unfolding x_def y_def w_def h_def using r o1 by linarith+
qed

text \<open>The master column beside the stack, in an area whose gaps have been taken off.\<close>

definition two_strips :: "nat \<Rightarrow> rat \<Rightarrow> int \<Rightarrow> int \<Rightarrow> (client_id \<times> rclient) list \<Rightarrow> int \<Rightarrow> int \<Rightarrow> int \<Rightarrow> int \<Rightarrow> placement list" where
  "two_strips k f ih iv cs x y w h =
     (let n = length cs; nm = min k n; ns = n - nm;
          mw = (if nm = 0 \<or> ns = 0 then w else share w f)
      in sized_column x mw ih y (with_sizes (take nm cs) h ih) @
         (if ns > 0 then sized_column (i32 (x + mw + (if nm > 0 then iv else 0))) (i32 (w - mw - (if ns > 0 \<and> nm > 0 then iv else 0))) ih y
            (with_sizes (drop nm cs) h ih) else []))"

lemma two_strips_tiles:
  assumes "plain (map snd cs)" "0 \<le> ih" "ih \<le> 9" "0 \<le> iv" "iv \<le> 9" "0 \<le> x" "0 \<le> y" "x + w \<le> 900000" "y + h \<le> 900000"
    "11 * int (length cs) + 230 \<le> w" "11 * int (length cs) + 230 \<le> h" "factor_ok f" "0 < k"
  shows "tiles x y w h (two_strips k f ih iv cs x y w h) \<and> map target (two_strips k f ih iv cs x y w h) = map fst cs"
proof -
  let ?nm = "min k (length cs)"
  have h: "h \<le> 900000" using assms by simp
  have fit: "11 * int (length (take ?nm cs)) \<le> h" "11 * int (length (drop ?nm cs)) \<le> h" using assms(11) by auto
  note tg = strip_targets [OF plain_take [OF assms(1)] assms(2,3) fit(1) h] strip_targets [OF plain_drop [OF assms(1)] assms(2,3) fit(2) h]
  show ?thesis
  proof (cases "length cs \<le> k")
    case True
    then have "two_strips k f ih iv cs x y w h = sized_column x w ih y (with_sizes cs h ih)" by (simp add: two_strips_def Let_def min_absorb2)
    then show ?thesis using strip_tiles [OF assms(1-3) _ assms(7,9), of w x] strip_targets [OF assms(1-3) _ h] assms by simp
  next
    case False
    define mw where "mw = share w f"
    have m: "1 \<le> mw" "mw + 20 \<le> w" unfolding mw_def using assms by (auto intro!: share_ok)
    have i: "i32 (x + mw + iv) = x + mw + iv" "i32 (w - mw - iv) = w - mw - iv" by (rule i32_pos; use m assms in linarith)+
    let ?l = "sized_column x mw ih y (with_sizes (take ?nm cs) h ih)"
    let ?r = "sized_column (x + mw + iv) (w - mw - iv) ih y (with_sizes (drop ?nm cs) h ih)"
    have eq: "two_strips k f ih iv cs x y w h = ?l @ ?r" using False assms(13) i by (simp add: two_strips_def Let_def flip: mw_def)
    have l: "tiles x y mw h ?l" using strip_tiles [OF plain_take [OF assms(1)] assms(2,3) fit(1) assms(7,9) m(1)] .
    have r: "tiles (x + mw + iv) y (w - mw - iv) h ?r" using strip_tiles [OF plain_drop [OF assms(1)] assms(2,3) fit(2) assms(7,9)] m assms by simp
    have "tiles x y w h (?l @ ?r)"
    proof (rule tiles_append)
      show "tiles x y w h ?l" by (rule tiles_mono [OF l]) (use m assms in auto)
      show "tiles x y w h ?r" by (rule tiles_mono [OF r]) (use m assms in auto)
      show "apart p q" if "p \<in> set ?l" "q \<in> set ?r" for p q by (rule tiles_beside [OF l r _ that]) (use assms in auto)
    qed
    moreover have "map target (?l @ ?r) = map fst cs" unfolding map_append tg by (metis append_take_drop_id map_append)
    ultimately show ?thesis unfolding eq by blast
  qed
qed

lemma tile_layout_tiles:
  assumes "roomy m (length cs) area" "plain (map snd cs)" "factor_ok (rm_mfact m)" "rm_nmaster m \<noteq> 0"
  shows "tiles (rt_x area) (rt_y area) (sint (rt_w area)) (sint (rt_h area)) (layout_tile m cs g area) \<and> map target (layout_tile m cs g area) = map fst cs"
proof (cases "cs = []")
  case False
  obtain oh ov ih iv where g: "effective_gaps m (length cs) g = (oh, ov, ih, iv)" by (metis surj_pair)
  note a = roomy_area [OF assms(1) g]
  have k: "0 < unat (rm_nmaster m)" using assms(4) by (simp add: unat_gt_0)
  let ?x = "rt_x area + ov" and ?y = "rt_y area + oh" and ?w = "sint (rt_w area) - 2 * ov" and ?h = "sint (rt_h area) - 2 * oh"
  have eq: "layout_tile m cs g area = two_strips (unat (rm_nmaster m)) (rm_mfact m) ih iv cs ?x ?y ?w ?h"
    using False by (simp add: layout_tile_def two_strips_def g a(1-4) Let_def)
  from two_strips_tiles [OF assms(2) a(5-14) assms(3) k] show ?thesis
    unfolding eq using tiles_mono a(15-18) by blast
qed (simp add: layout_tile_def)

lemma bstack_two_strips:
  assumes "cs \<noteq> []" "effective_gaps m (length cs) g = (oh, ov, ih, iv)"
  shows "layout_bstack m cs g area = map flip (two_strips (unat (rm_nmaster m)) (rm_mfact m) iv ih cs (i32 (rt_y area + oh)) (i32 (rt_x area + ov))
    (i32 (sint (rt_h area) - 2 * oh)) (i32 (sint (rt_w area) - 2 * ov)))"
  using assms by (simp add: layout_bstack_def two_strips_def sized_row_flip Let_def)

lemma bstack_layout_tiles:
  assumes "roomy m (length cs) area" "plain (map snd cs)" "factor_ok (rm_mfact m)" "rm_nmaster m \<noteq> 0"
  shows "tiles (rt_x area) (rt_y area) (sint (rt_w area)) (sint (rt_h area)) (layout_bstack m cs g area) \<and> map target (layout_bstack m cs g area) = map fst cs"
proof (cases "cs = []")
  case False
  obtain oh ov ih iv where g: "effective_gaps m (length cs) g = (oh, ov, ih, iv)" by (metis surj_pair)
  note a = roomy_area [OF assms(1) g]
  have k: "0 < unat (rm_nmaster m)" using assms(4) by (simp add: unat_gt_0)
  note t = two_strips_tiles [OF assms(2) a(7,8,5,6,10,9,12,11,14,13) assms(3) k]
  from tiles_mono [OF t [THEN conjunct1] a(16,18,15,17)] t show ?thesis
    unfolding bstack_two_strips [OF False g] a(1-4) by (simp add: comp_def)
qed (simp add: layout_bstack_def)

text \<open>Cells in rows and columns.\<close>

lemma cells_tile:
  fixes cw ch iv ih x y w h :: int
  assumes "0 < cols" "\<And>i. i < length t \<Longrightarrow> i div cols < rows" "1 \<le> cw" "1 \<le> ch" "0 \<le> iv" "0 \<le> ih" "0 \<le> x" "0 \<le> y" "x + w \<le> 900000" "y + h \<le> 900000"
    "int cols * (cw + iv) \<le> w + iv" "int rows * (ch + ih) \<le> h + ih"
  defines "ps \<equiv> map (\<lambda>(i, c). Place c (i32 (x + int (i mod cols) * (cw + iv))) (i32 (y + int (i div cols) * (ch + ih))) cw ch) (zip [0..<length t] t)"
  shows "tiles x y w h ps \<and> map target ps = t"
proof -
  let ?x = "\<lambda>i. x + int (i mod cols) * (cw + iv)" and ?y = "\<lambda>i. y + int (i div cols) * (ch + ih)"
  have X: "i32 (?x i) = ?x i" "x \<le> ?x i" "?x i + cw \<le> x + w" for i
    using cell_position [OF assms(11,3,5), of "i mod cols" x] assms by auto
  have Y: "i32 (?y i) = ?y i" "y \<le> ?y i" "?y i + ch \<le> y + h" if "i < length t" for i
    using cell_position [OF assms(12,4,6) assms(2) [OF that], of y] assms by auto
  have eq: "ps = map (\<lambda>i. Place (t ! i) (?x i) (?y i) cw ch) [0..<length t]"
    unfolding ps_def by (rule nth_equalityI) (simp_all add: X(1) Y(1))
  have sep: "apart (Place a (?x i) (?y i) cw ch) (Place b (?x j) (?y j) cw ch)" if "i \<noteq> j" for a b i j
  proof (cases "i mod cols = j mod cols")
    case True
    with that have "i div cols \<noteq> j div cols" by (metis div_mult_mod_eq)
    then show ?thesis using cells_apart [of "i div cols" "j div cols" ch ih y] cells_apart [of "j div cols" "i div cols" ch ih y]
        assms by (auto simp: apart_def neq_iff)
  next
    case False
    then show ?thesis using cells_apart [of "i mod cols" "j mod cols" cw iv x] cells_apart [of "j mod cols" "i mod cols" cw iv x]
        assms by (auto simp: apart_def neq_iff)
  qed
  have "tiles x y w h ps" unfolding eq tiles_def using X Y assms(3,4) by (auto simp: inside_def intro!: sep)
  moreover have "map target ps = t" unfolding eq by (simp add: comp_def map_nth)
  ultimately show ?thesis ..
qed

lemma grid_layout_tiles:
  assumes "roomy m (length cs) area"
  shows "tiles (rt_x area) (rt_y area) (sint (rt_w area)) (sint (rt_h area)) (layout_grid m cs g area) \<and> map target (layout_grid m cs g area) = map fst cs"
proof (cases "cs = []")
  case False
  obtain oh ov ih iv where g: "effective_gaps m (length cs) g = (oh, ov, ih, iv)" by (metis surj_pair)
  note a = roomy_area [OF assms(1) g]
  define n rows cols where "n = length cs" and "rows = grid_cols 1 n" and "cols = (n + rows - 1) div rows"
  have n: "0 < n" using False by (simp add: n_def)
  have r: "1 \<le> rows" "rows \<le> n" using grid_cols_ge [of n 1] grid_cols_le [of 1 n] n by (simp_all add: rows_def)
  have c: "1 \<le> cols" "cols \<le> n"
  proof -
    show "1 \<le> cols" unfolding cols_def using r n by (simp add: Suc_leI div_greater_zero_iff)
    have "n + rows - 1 < (n + 1) * rows" using r n by (cases rows) auto
    then show "cols \<le> n" unfolding cols_def using less_mult_imp_div_less [of "n + rows - 1" "n + 1" rows] by simp
  qed
  have nn: "n \<le> cols * rows"
  proof -
    have "(n + rows - 1) mod rows < rows" using r by simp
    moreover have "(n + rows - 1) div rows * rows + (n + rows - 1) mod rows = n + rows - 1" by simp
    ultimately show ?thesis unfolding cols_def by linarith
  qed
  have idx: "i div cols < rows" if "i < length (map fst cs)" for i
    using that nn c by (intro less_mult_imp_div_less) (simp add: n_def mult.commute)
  define cw where "cw = i32 (sint (rt_w area) - 2 * ov - iv * (int cols - 1)) sdiv int cols"
  define ch where "ch = i32 (sint (rt_h area) - 2 * oh - ih * (int rows - 1)) sdiv int rows"
  have "int cols * (iv + 1) \<le> int n * 10" "int rows * (ih + 1) \<le> int n * 10" using c r a(5-8) by (intro mult_mono; simp)+
  then have fit: "int cols * (iv + 1) \<le> sint (rt_w area) - 2 * ov" "int rows * (ih + 1) \<le> sint (rt_h area) - 2 * oh"
    using a(13,14) unfolding n_def by linarith+
  have w: "1 \<le> cw" "int cols * (cw + iv) \<le> sint (rt_w area) - 2 * ov + iv"
    unfolding cw_def by (rule cell_bounds; use fit c a in linarith)+
  have h: "1 \<le> ch" "int rows * (ch + ih) \<le> sint (rt_h area) - 2 * oh + ih"
    unfolding ch_def by (rule cell_bounds; use fit r a in linarith)+
  have eq: "layout_grid m cs g area = map (\<lambda>(i, c). Place c (i32 (rt_x area + ov + int (i mod cols) * (cw + iv)))
      (i32 (rt_y area + oh + int (i div cols) * (ch + ih))) cw ch) (zip [0..<length (map fst cs)] (map fst cs))"
    using False r by (simp add: layout_grid_def g a(1-4) Let_def cw_def ch_def cols_def rows_def n_def)
  have "0 < cols" using c by simp
  from cells_tile [OF this idx w(1) h(1) a(7,5,9,10,11,12) w(2) h(2)] show ?thesis unfolding eq using tiles_mono a(15-18) by blast
qed (simp add: layout_grid_def)

text \<open>The loop of the spiral and of the dwindle: every split halves what is left in one direction.\<close>

lemma half_step:
  fixes len gap :: int
  assumes "(gap + 1) * 2 ^ Suc a \<le> len + gap" "0 \<le> gap" "len < 1000000"
  defines "half \<equiv> i32 (len - gap) sdiv 2"
  shows "1 \<le> half" "2 * half + gap \<le> len" "(gap + 1) * 2 ^ a \<le> len - (half + gap) + gap" "1 \<le> len - (half + gap)"
proof -
  have "2 ^ 1 \<le> (2 :: int) ^ Suc a" by (intro power_increasing) auto
  then have "(gap + 1) * 2 \<le> (gap + 1) * 2 ^ Suc a" using assms(2) by (intro mult_left_mono) auto
  then have "1 \<le> (len - gap) div 2" using assms(1) by (simp add: algebra_simps)
  then have e: "half = (len - gap) div 2" "2 * ((len - gap) div 2) + gap \<le> len" using half_bounds [of len gap] assms by auto
  then show "1 \<le> half" "2 * half + gap \<le> len" using \<open>1 \<le> (len - gap) div 2\<close> by simp_all
  have "2 * ((gap + 1) * 2 ^ a) \<le> 2 * (len - half)" using assms(1) e(2) unfolding e(1) by simp
  then show "(gap + 1) * 2 ^ a \<le> len - (half + gap) + gap" by simp
  show "1 \<le> len - (half + gap)" using e(2) \<open>1 \<le> half\<close> unfolding e(1) by linarith
qed

lemma fibonacci_tiles:
  assumes "0 \<le> ih" "0 \<le> iv" "0 \<le> cx" "0 \<le> cy" "cx + cw < 1000000" "cy + ch < 1000000" "1 \<le> cw" "1 \<le> ch"
    and "(iv + 1) * 2 ^ a \<le> cw + iv" "(ih + 1) * 2 ^ b \<le> ch + ih"
    and "if (if dw then i else i + 1) mod 2 = 0 then (length t - 1) div 2 \<le> a \<and> length t div 2 \<le> b
         else length t div 2 \<le> a \<and> (length t - 1) div 2 \<le> b"
  shows "tiles cx cy cw ch (fibonacci_loop dw ih iv i cx cy cw ch t)"
  using assms
proof (induction dw ih iv i cx cy cw ch t arbitrary: a b rule: fibonacci_loop.induct)
  case (2 dw ih iv i cx cy cw ch cid)
  then show ?case by (simp add: tiles_def inside_def)
next
  case (3 dw ih iv i cx cy cw ch cid d t)
  let ?h = "(if dw then i else i + 1) mod 2 = 0"
  have flip: "((if dw then i + 1 else i + 1 + 1) mod 2 = 0) = (\<not> ?h)" by (cases dw; simp only: if_True if_False; presburger)
  show ?case
  proof (cases ?h)
    case True
    then obtain b' where b: "b = Suc b'" "length t div 2 \<le> b'" "Suc (length t) div 2 \<le> a" using "3.prems"(11) by (cases b) auto
    define half where "half = i32 (ch - ih) sdiv 2"
    note hs = half_step [OF "3.prems"(10) [unfolded b(1)] "3.prems"(1), folded half_def]
    have lt: "ch < 1000000" using "3.prems" by linarith
    have i: "i32 (cy + half + ih) = cy + half + ih" "i32 (ch - (half + ih)) = ch - (half + ih)"
      by (rule i32_pos; use hs [OF lt] "3.prems" in linarith)+
    let ?t = "fibonacci_loop dw ih iv (i + 1) cx (cy + half + ih) cw (ch - (half + ih)) (d # t)"
    have t: "tiles cx (cy + half + ih) cw (ch - (half + ih)) ?t"
      using "3.IH"(1) [OF True half_def, of a b'] i hs [OF lt] b flip True "3.prems" by simp
    have "inside cx cy cw ch (Place cid cx cy cw half)" using hs [OF lt] "3.prems" by (auto simp: inside_def)
    moreover have "tiles cx cy cw ch ?t" by (rule tiles_mono [OF t]) (use hs [OF lt] "3.prems" in auto)
    moreover have "apart (Place cid cx cy cw half) q" if "q \<in> set ?t" for q using that t "3.prems"(1) by (fastforce simp: tiles_def inside_def apart_def)
    ultimately show ?thesis using True i by (simp add: Let_def tiles_Cons flip: half_def)
  next
    case False
    then obtain a' where a: "a = Suc a'" "length t div 2 \<le> a'" "Suc (length t) div 2 \<le> b" using "3.prems"(11) by (cases a) auto
    define half where "half = i32 (cw - iv) sdiv 2"
    note hs = half_step [OF "3.prems"(9) [unfolded a(1)] "3.prems"(2), folded half_def]
    have lt: "cw < 1000000" using "3.prems" by linarith
    have i: "i32 (cx + half + iv) = cx + half + iv" "i32 (cw - (half + iv)) = cw - (half + iv)"
      by (rule i32_pos; use hs [OF lt] "3.prems" in linarith)+
    let ?t = "fibonacci_loop dw ih iv (i + 1) (cx + half + iv) cy (cw - (half + iv)) ch (d # t)"
    have t: "tiles (cx + half + iv) cy (cw - (half + iv)) ch ?t"
      using "3.IH"(2) [OF False half_def, of a' b] i hs [OF lt] a flip False "3.prems" by simp
    have "inside cx cy cw ch (Place cid cx cy half ch)" using hs [OF lt] "3.prems" by (auto simp: inside_def)
    moreover have "tiles cx cy cw ch ?t" by (rule tiles_mono [OF t]) (use hs [OF lt] "3.prems" in auto)
    moreover have "apart (Place cid cx cy half ch) q" if "q \<in> set ?t" for q using that t "3.prems"(2) by (fastforce simp: tiles_def inside_def apart_def)
    ultimately show ?thesis using False i by (simp add: Let_def tiles_Cons flip: half_def)
  qed
qed simp

lemma fibonacci_targets [simp]: "map target (fibonacci_loop dw ih iv i cx cy cw ch t) = t"
  by (induction dw ih iv i cx cy cw ch t rule: fibonacci_loop.induct) (simp_all add: Let_def)

lemma fibonacci_layout_tiles:
  assumes "roomy m (length cs) area" "length cs \<le> 9"
  shows "tiles (rt_x area) (rt_y area) (sint (rt_w area)) (sint (rt_h area)) (fibonacci_arrange m cs area dw g) \<and>
    map target (fibonacci_arrange m cs area dw g) = map fst cs"
proof (cases "cs = []")
  case False
  obtain oh ov ih iv where g: "effective_gaps m (length cs) g = (oh, ov, ih, iv)" by (metis surj_pair)
  note a = roomy_area [OF assms(1) g]
  let ?x = "rt_x area + ov" and ?y = "rt_y area + oh" and ?w = "sint (rt_w area) - 2 * ov" and ?h = "sint (rt_h area) - 2 * oh"
  have eq: "fibonacci_arrange m cs area dw g = fibonacci_loop dw ih iv 0 ?x ?y ?w ?h (map fst cs)"
    using False by (simp add: fibonacci_arrange_def g a(1-4))
  have "tiles ?x ?y ?w ?h (fibonacci_loop dw ih iv 0 ?x ?y ?w ?h (map fst cs))"
    by (rule fibonacci_tiles [where a = 4 and b = 4]) (use a assms(2) in auto)
  then show ?thesis unfolding eq using tiles_mono a(15-18) fibonacci_targets by blast
qed (simp add: fibonacci_arrange_def)

lemma plain_alternate: "plain (map snd cs) \<Longrightarrow> plain (map snd (alternate b cs))"
proof -
  have "set (alternate b cs) \<subseteq> set cs" by (induction b cs rule: alternate.induct) auto
  then show "plain (map snd cs) \<Longrightarrow> plain (map snd (alternate b cs))" by (auto simp: plain_def)
qed

lemma alternate_both: "mset (alternate b xs) + mset (alternate (\<not> b) xs) = mset xs"
  by (induction b xs rule: alternate.induct) auto

text \<open>The master column between the two halves of the stack.\<close>

lemma three_strips_tiles:
  fixes k :: nat
  assumes "plain (map snd cs)" "0 \<le> ih" "ih \<le> 9" "0 \<le> iv" "iv \<le> 9" "0 \<le> x" "0 \<le> y" "x + w \<le> 900000" "y + h \<le> 900000"
    "11 * int (length cs) + 230 \<le> w" "11 * int (length cs) + 230 \<le> h" "factor_ok f"
  defines "mw \<equiv> share w f"
  defines "sw \<equiv> i32 (w - mw - 2 * iv) sdiv 2"
  defines "mx \<equiv> i32 (x + sw + iv)"
  defines "ps \<equiv> sized_column mx mw ih y (with_sizes (take k cs) h ih) @ sized_column x sw ih y (with_sizes (alternate True (drop k cs)) h ih) @
    sized_column (i32 (mx + mw + iv)) sw ih y (with_sizes (alternate False (drop k cs)) h ih)"
  shows "tiles x y w h ps \<and> mset (map target ps) = mset (map fst cs)"
proof -
  have h: "h \<le> 900000" using assms by simp
  let ?l = "alternate True (drop k cs)" and ?r = "alternate False (drop k cs)"
  have len: "length ?l \<le> length cs" "length ?r \<le> length cs" "length (take k cs) \<le> length cs" by (simp_all add: length_alternate)
  have fit: "11 * int (length (take k cs)) \<le> h" "11 * int (length ?l) \<le> h" "11 * int (length ?r) \<le> h" using assms(11) len by linarith+
  have m: "1 \<le> mw" "mw + 20 \<le> w" unfolding mw_def using assms by (auto intro!: share_ok)
  have "i32 (w - mw - 2 * iv) = w - mw - 2 * iv" by (rule i32_pos) (use m assms in linarith)+
  then have "sw = (w - mw - 2 * iv) div 2" unfolding sw_def using m assms by (simp add: sdiv_pos)
  then have sw: "1 \<le> sw" "2 * sw + mw + 2 * iv \<le> w" using m assms by linarith+
  have mx: "mx = x + sw + iv" unfolding mx_def by (rule i32_pos) (use sw m assms in linarith)+
  have rx: "i32 (mx + mw + iv) = x + sw + iv + mw + iv" unfolding mx by (rule i32_pos) (use sw m assms in linarith)+
  let ?M = "sized_column mx mw ih y (with_sizes (take k cs) h ih)" and ?L = "sized_column x sw ih y (with_sizes ?l h ih)"
  let ?R = "sized_column (x + sw + iv + mw + iv) sw ih y (with_sizes ?r h ih)"
  note pl = plain_take [OF assms(1), of k] plain_alternate [OF plain_drop [OF assms(1), of k], of True] plain_alternate [OF plain_drop [OF assms(1), of k], of False]
  have M: "tiles (x + sw + iv) y mw h ?M" unfolding mx [symmetric] by (rule strip_tiles [OF pl(1) assms(2,3) fit(1) assms(7,9) m(1)])
  have L: "tiles x y sw h ?L" by (rule strip_tiles [OF pl(2) assms(2,3) fit(2) assms(7,9) sw(1)])
  have R: "tiles (x + sw + iv + mw + iv) y sw h ?R" by (rule strip_tiles [OF pl(3) assms(2,3) fit(3) assms(7,9) sw(1)])
  have LM: "tiles x y (sw + iv + mw) h (?L @ ?M)"
  proof (rule tiles_append)
    show "tiles x y (sw + iv + mw) h ?L" by (rule tiles_mono [OF L]) (use m assms in auto)
    show "tiles x y (sw + iv + mw) h ?M" by (rule tiles_mono [OF M]) (use sw assms in auto)
    show "apart p q" if "p \<in> set ?L" "q \<in> set ?M" for p q by (rule tiles_beside [OF L M _ that]) (use assms in auto)
  qed
  have "tiles x y w h ((?L @ ?M) @ ?R)"
  proof (rule tiles_append)
    show "tiles x y w h (?L @ ?M)" by (rule tiles_mono [OF LM]) (use sw assms in auto)
    show "tiles x y w h ?R" by (rule tiles_mono [OF R]) (use sw m assms in auto)
    show "apart p q" if "p \<in> set (?L @ ?M)" "q \<in> set ?R" for p q by (rule tiles_beside [OF LM R _ that]) (use assms in auto)
  qed
  moreover have "set ps = set ((?L @ ?M) @ ?R)" unfolding ps_def rx by auto
  ultimately have t: "tiles x y w h ps" using tiles_cong by blast
  have "map target ps = map fst (take k cs @ ?l @ ?r)"
    unfolding ps_def map_append strip_targets [OF pl(1) assms(2,3) fit(1) h] strip_targets [OF pl(2) assms(2,3) fit(2) h] strip_targets [OF pl(3) assms(2,3) fit(3) h] ..
  moreover have "mset (take k cs @ ?l @ ?r) = mset cs" using alternate_both [of True "drop k cs"] by simp (metis append_take_drop_id mset_append)
  ultimately show ?thesis using t by (metis mset_map)
qed

lemma centered_layout_tiles:
  assumes "roomy m (length cs) area" "plain (map snd cs)" "factor_ok (rm_mfact m)"
  shows "tiles (rt_x area) (rt_y area) (sint (rt_w area)) (sint (rt_h area)) (layout_centeredmaster m cs g area) \<and>
    mset (map target (layout_centeredmaster m cs g area)) = mset (map fst cs)"
proof (cases "cs = []")
  case False
  obtain oh ov ih iv where g: "effective_gaps m (length cs) g = (oh, ov, ih, iv)" by (metis surj_pair)
  note a = roomy_area [OF assms(1) g]
  let ?k = "min (unat (rm_nmaster m)) (length cs)"
  show ?thesis
  proof (cases "length cs - ?k = 0")
    case True
    then have eq: "layout_centeredmaster m cs g area = sized_column (rt_x area + ov) (sint (rt_w area) - 2 * ov) ih (rt_y area + oh)
        (with_sizes cs (sint (rt_h area) - 2 * oh) ih)" using False by (simp add: layout_centeredmaster_def g a(1-4) Let_def)
    have f: "11 * int (length cs) \<le> sint (rt_h area) - 2 * oh" "sint (rt_h area) - 2 * oh \<le> 900000" "1 \<le> sint (rt_w area) - 2 * ov" using a by linarith+
    note t = strip_tiles [OF assms(2) a(5,6) f(1) a(10,12) f(3)]
    from tiles_mono [OF t a(15,17,16,18)] show ?thesis unfolding eq strip_targets [OF assms(2) a(5,6) f(1,2)] by simp
  next
    case False2: False
    note t = three_strips_tiles [OF assms(2) a(5-14) assms(3), of ?k]
    from tiles_mono [OF t [THEN conjunct1] a(15,17,16,18)] t [THEN conjunct2] show ?thesis
      using False False2 by (simp add: layout_centeredmaster_def g a(1-4) Let_def)
  qed
qed (simp add: layout_centeredmaster_def)

lemma layouts_tile:
  assumes "roomy m (length cs) area" "length cs \<le> 9" "plain (map snd cs)" "factor_ok (rm_mfact m)" "rm_nmaster m \<noteq> 0" "l \<noteq> MonocleLayout"
  obtains ps where "layout_arrange l m cs area = map placed ps" "tiles (rt_x area) (rt_y area) (sint (rt_w area)) (sint (rt_h area)) ps"
    "mset (map target ps) = mset (map fst cs)"
proof (cases l)
  case (TileLayout g)
  then show thesis using that [of "layout_tile m cs g area"] tile_layout_tiles [OF assms(1,3-5), of g] by simp
next
  case (SpiralLayout g)
  then show thesis using that [of "fibonacci_arrange m cs area False g"] fibonacci_layout_tiles [OF assms(1,2), of False g] by simp
next
  case (DwindleLayout g)
  then show thesis using that [of "fibonacci_arrange m cs area True g"] fibonacci_layout_tiles [OF assms(1,2), of True g] by simp
next
  case (BStackLayout g)
  then show thesis using that [of "layout_bstack m cs g area"] bstack_layout_tiles [OF assms(1,3-5), of g] by simp
next
  case (GridLayout g)
  then show thesis using that [of "layout_grid m cs g area"] grid_layout_tiles [OF assms(1), of g] by simp
next
  case (CenteredMasterLayout g)
  then show thesis using that [of "layout_centeredmaster m cs g area"] centered_layout_tiles [OF assms(1,3,4), of g] by simp
qed (use assms(6) in simp)

text \<open>The points of a rectangle.\<close>

definition cells :: "rect \<Rightarrow> (int \<times> int) set" where
  "cells r = {(x, y). rt_x r \<le> x \<and> x < rt_x r + uint (rt_w r) \<and> rt_y r \<le> y \<and> y < rt_y r + uint (rt_h r)}"

definition tiled :: "rect \<Rightarrow> (client_id \<times> rclient) list \<Rightarrow> arrangement \<Rightarrow> bool" where
  "tiled area cs arr \<longleftrightarrow> mset (map fst arr) = mset (map fst cs) \<and>
     (\<forall>(c, r)\<in>set arr. cells r \<noteq> {} \<and> cells r \<subseteq> cells area) \<and>
     (\<forall>(c, r)\<in>set arr. \<forall>(d, q)\<in>set arr. c \<noteq> d \<longrightarrow> cells r \<inter> cells q = {})"

lemma placed_cells:
  assumes "inside x y w h p" "x + w \<le> 900000" "y + h \<le> 900000" "0 \<le> x" "0 \<le> y"
  shows "cells (snd (placed p)) = {(i, j). px p \<le> i \<and> i < px p + pw p \<and> py p \<le> j \<and> j < py p + ph p}"
proof -
  have "1 \<le> pw p" "pw p < 1000000" "1 \<le> ph p" "ph p < 1000000" using assms by (auto simp: inside_def)
  then show ?thesis using uint_size [of "pw p"] uint_size [of "ph p"] by (simp add: cells_def placed_def rect_new_def max_def)
qed

lemma arrange_tiled:
  assumes "roomy m (length cs) area" "length cs \<le> 9" "plain (map snd cs)" "factor_ok (rm_mfact m)" "rm_nmaster m \<noteq> 0" "l \<noteq> MonocleLayout"
  shows "tiled area cs (layout_arrange l m cs area)"
proof -
  obtain ps where ps: "layout_arrange l m cs area = map placed ps" and t: "tiles (rt_x area) (rt_y area) (sint (rt_w area)) (sint (rt_h area)) ps"
      and tg: "mset (map target ps) = mset (map fst cs)" using layouts_tile [OF assms] by blast
  note r = assms(1) [unfolded roomy_def]
  have pos: "0 \<le> sint (rt_w area)" "0 \<le> sint (rt_h area)" using r by linarith+
  have u: "uint (rt_w area) = sint (rt_w area)" "uint (rt_h area) = sint (rt_h area)"
    using pos r by (simp_all add: uint_sint take_bit_int_eq_self)
  have c2: "inside (rt_x area) (rt_y area) (sint (rt_w area)) (sint (rt_h area)) p" if "p \<in> set ps" for p using that t by (auto simp: tiles_def)
  have c1: "cells (snd (placed p)) = {(i, j). px p \<le> i \<and> i < px p + pw p \<and> py p \<le> j \<and> j < py p + ph p}" if "p \<in> set ps" for p
    by (rule placed_cells [OF c2 [OF that]]) (use r in linarith)+
  note c = c1 c2
  have "mset (map fst (map placed ps)) = mset (map fst cs)" using tg by (simp add: comp_def placed_def)
  moreover have "cells (snd (placed p)) \<noteq> {} \<and> cells (snd (placed p)) \<subseteq> cells area" if "p \<in> set ps" for p
  proof
    have "(px p, py p) \<in> cells (snd (placed p))" using c [OF that] by (auto simp: inside_def)
    then show "cells (snd (placed p)) \<noteq> {}" by blast
    show "cells (snd (placed p)) \<subseteq> cells area" unfolding c(1) [OF that] using c(2) [OF that] by (auto simp: cells_def inside_def u)
  qed
  moreover have "cells (snd (placed p)) \<inter> cells (snd (placed q)) = {}" if "p \<in> set ps" "q \<in> set ps" "target p \<noteq> target q" for p q
  proof -
    have "apart p q" using that t by (auto simp: tiles_def)
    then show ?thesis unfolding c(1) [OF that(1)] c(1) [OF that(2)] by (auto simp: apart_def)
  qed
  ultimately show ?thesis unfolding tiled_def ps by (auto simp: placed_def)
qed

section \<open>The state under its operations\<close>

text \<open>A monitor lists its clients once, the focus stack holds the same clients, every one of them exists and belongs to the monitor, and so does
  the client in focus.\<close>

definition monitor_ok :: "(client_id \<rightharpoonup> rclient) \<Rightarrow> nat \<Rightarrow> rmonitor \<Rightarrow> bool" where
  "monitor_ok cs i m \<longleftrightarrow> distinct (rm_clients m) \<and> mset (rm_stack m) = mset (rm_clients m) \<and>
     (\<forall>c\<in>set (rm_clients m). \<exists>cl. cs c = Some cl \<and> rc_mon_id cl = i) \<and>
     (\<forall>c. rm_focused m = Some c \<longrightarrow> c \<in> set (rm_clients m)) \<and> length (rm_tagset m) = 2 \<and> rm_sel_tags m < 2"

definition core_ok :: "rwm_state \<Rightarrow> bool" where
  "core_ok s \<longleftrightarrow> (\<forall>i<length (rs_monitors s). monitor_ok (rs_clients s) i (rs_monitors s ! i))"

inductive core_step :: "rwm_state \<Rightarrow> rwm_state \<Rightarrow> bool" where
  step_add: "cid \<notin> dom (rs_clients s) \<Longrightarrow> core_step s (rwm_add_client cid c mon s)"
| step_remove: "core_step s (rwm_remove_client cid s)"
| step_view: "view_tags mon t s = Some s' \<Longrightarrow> core_step s s'"
| step_toggle: "toggle_view mon t s = Some s' \<Longrightarrow> core_step s s'"
| step_tag: "core_step s (tag_client cid t s)"
| step_toggle_tag: "core_step s (toggle_client_tag cid t s)"
| step_scratch: "toggle_scratchpad mon s = Some (c, s') \<Longrightarrow> core_step s s'"

text \<open>Changes of one monitor, and of one client, that keep what the others need.\<close>

lemma on_monitor_ok:
  assumes "core_ok s" "i < length (rs_monitors s) \<Longrightarrow> monitor_ok (rs_clients s) i (f (rs_monitors s ! i))"
  shows "core_ok (on_monitor i f s)"
proof -
  have "monitor_ok (rs_clients s) j ((rs_monitors s)[i := f (rs_monitors s ! i)] ! j)" if "j < length (rs_monitors s)" for j
    using that assms by (cases "i = j") (simp_all add: core_ok_def)
  then show ?thesis by (simp add: core_ok_def on_monitor_def)
qed

lemma set_view_ok: "monitor_ok cs i m \<Longrightarrow> monitor_ok cs i (set_view t m)"
  by (simp add: monitor_ok_def set_view_def)

lemma flip_view_ok: "monitor_ok cs i m \<Longrightarrow> monitor_ok cs i (m\<lparr>rm_sel_tags := rm_sel_tags m XOR Suc 0\<rparr>)"
  by (auto simp: monitor_ok_def less_2_cases_iff)

lemma client_change_ok: "monitor_ok cs i m \<Longrightarrow> cs cid = Some c \<Longrightarrow> rc_mon_id c' = rc_mon_id c \<Longrightarrow> monitor_ok (cs(cid \<mapsto> c')) i m"
  by (auto simp: monitor_ok_def)

lemma set_tags_ok:
  assumes "core_ok s"
  shows "core_ok (set_tags cid f s)"
proof (cases "rs_clients s cid")
  case (Some c)
  then show ?thesis using assms client_change_ok [where cs = "rs_clients s", OF _ Some] by (simp add: set_tags_def core_ok_def)
qed (use assms in \<open>simp add: set_tags_def\<close>)

lemma add_client_ok:
  assumes "core_ok s" "cid \<notin> dom (rs_clients s)"
  shows "core_ok (rwm_add_client cid c mon s)"
proof -
  let ?s = "s\<lparr>rs_clients := (rs_clients s)(cid \<mapsto> c\<lparr>rc_mon_id := mon\<rparr>)\<rparr>"
  have fresh: "cid \<notin> set (rm_clients (rs_monitors s ! i))" if "i < length (rs_monitors s)" for i
    using assms that unfolding core_ok_def monitor_ok_def by (metis domIff option.distinct(1))
  have s: "core_ok ?s" using assms(1) fresh by (auto simp: core_ok_def monitor_ok_def)
  show ?thesis
  proof (cases "mon < length (rs_monitors s)")
    case True
    have "core_ok (on_monitor mon (\<lambda>m. m\<lparr>rm_clients := rm_clients m @ [cid], rm_stack := cid # rm_stack m\<rparr>) ?s)"
      by (rule on_monitor_ok [OF s]) (use s fresh True in \<open>auto simp: core_ok_def monitor_ok_def\<close>)
    then show ?thesis using True by (simp add: rwm_add_client_def Let_def)
  qed (use s in \<open>simp add: rwm_add_client_def Let_def\<close>)
qed

lemma without_client_ok:
  assumes "monitor_ok cs i m" "\<And>c. foc = Some c \<Longrightarrow> c \<in> set (rm_clients m) \<and> c \<noteq> cid"
  shows "monitor_ok (cs(cid := None)) i
    (m\<lparr>rm_clients := filter (\<lambda>i. i \<noteq> cid) (rm_clients m), rm_stack := filter (\<lambda>i. i \<noteq> cid) (rm_stack m), rm_focused := foc\<rparr>)"
  using assms by (simp add: monitor_ok_def mset_filter)

lemma forget_client_ok:
  assumes "monitor_ok cs i m"
  shows "monitor_ok (cs(cid := None)) i (forget_client cid m)"
proof -
  let ?f = "\<lambda>xs. filter (\<lambda>i. i \<noteq> cid) xs"
  have st: "set (rm_stack m) = set (rm_clients m)" using assms by (metis monitor_ok_def set_mset_mset)
  show ?thesis
  proof (cases "rm_focused m = Some cid")
    case True
    define foc where "foc = (case ?f (rm_stack m) of [] \<Rightarrow> None | i # _ \<Rightarrow> Some i)"
    have "c \<in> set (rm_clients m) \<and> c \<noteq> cid" if "foc = Some c" for c
    proof -
      obtain xs where "?f (rm_stack m) = c # xs" using \<open>foc = Some c\<close> by (auto simp: foc_def split: list.splits)
      then have "c \<in> set (?f (rm_stack m))" by simp
      then show ?thesis using st by simp
    qed
    from without_client_ok [OF assms this] show ?thesis using True by (simp add: forget_client_def Let_def foc_def)
  next
    case False
    have "c \<in> set (rm_clients m) \<and> c \<noteq> cid" if "rm_focused m = Some c" for c using that False assms by (auto simp: monitor_ok_def)
    from without_client_ok [where foc = "rm_focused m", OF assms this] show ?thesis using False by (cases m) (simp add: forget_client_def Let_def)
  qed
qed

lemma remove_client_ok:
  assumes "core_ok s"
  shows "core_ok (rwm_remove_client cid s)"
proof (cases "rs_clients s cid")
  case (Some c)
  let ?s = "s\<lparr>rs_clients := (rs_clients s)(cid := None)\<rparr>"
  have other: "monitor_ok ((rs_clients s)(cid := None)) i (rs_monitors s ! i)" if "i < length (rs_monitors s)" "i \<noteq> rc_mon_id c" for i
    using that assms Some by (fastforce simp: core_ok_def monitor_ok_def)
  show ?thesis
  proof (cases "rc_mon_id c < length (rs_monitors s)")
    case True
    then have "monitor_ok (rs_clients s) (rc_mon_id c) (rs_monitors s ! rc_mon_id c)" using assms by (simp add: core_ok_def)
    from forget_client_ok [OF this] show ?thesis using other True Some
      by (auto simp: rwm_remove_client_def core_ok_def on_monitor_def nth_list_update)
  next
    case False
    then show ?thesis using other Some by (auto simp: rwm_remove_client_def core_ok_def)
  qed
qed (use assms in \<open>simp add: rwm_remove_client_def\<close>)



text \<open>The two fibonacci layouts differ only in the direction of their first split: the rest always goes below or to the right.\<close>

lemma spiral_is_dwindle: "fibonacci_loop False ih iv (i + 1) cx cy cw ch t = fibonacci_loop True ih iv i cx cy cw ch t"
proof (induction True ih iv i cx cy cw ch t rule: fibonacci_loop.induct)
  case (3 ih iv i cx cy cw ch cid d t)
  then show ?case by (auto simp: Let_def)
qed simp_all

text \<open>With the scratchpad on view, the last tag can be taken off the view; hiding the scratchpad then leaves nothing on view.\<close>

lemma view_becomes_empty:
  assumes "monitor_at 0 s = Some m" "rm_tagset m = [1, 1]" "rm_sel_tags m = 0" "rm_clients m = [c]" "rs_clients s c = Some cl" "rc_tags cl = SCRATCHTAG"
  shows "\<exists>s1 s2 s3. toggle_scratchpad 0 s = Some (Some c, s1) \<and> toggle_view 0 1 s1 = Some s2 \<and> toggle_scratchpad 0 s2 = Some (Some c, s3) \<and>
    map_option current_tags (monitor_at 0 s3) = Some 0"
proof -
  obtain ms where ms: "rs_monitors s = m # ms" using assms(1) by (cases "rs_monitors s") (auto simp: monitor_at_def)
  have t: "SCRATCHTAG = 512" "TAGMASK = 511" by (simp_all add: SCRATCHTAG_def TAGMASK_def TAG_COUNT_def)
  show ?thesis using assms(2-6)
    by (simp add: toggle_scratchpad_def toggle_view_def monitor_at_def on_monitor_def set_view_def current_tags_def ms t Let_def)
qed

end
