(* ===== verification/Rwm.thy ===== *)
theory Rwm
  imports Rwm_Core
begin

text \<open>
  RogueWM (\<open>userland/src/bin/rwm.rs\<close>): the window manager that runs the library on one monitor with nine clients, one for each tag. The keys
  of the slot map for the nine clients are an argument. Its monitor exists from the start on, so the model reads \<open>monitors[0]\<close> directly.
\<close>

section \<open>Drawing\<close>

definition COLOR_VOID :: u32 where "COLOR_VOID = 0xFF050505"
definition COLOR_PANEL :: u32 where "COLOR_PANEL = 0xFF111111"
definition COLOR_ROGUE_RED :: u32 where "COLOR_ROGUE_RED = 0xFFFF0000"
definition COLOR_BORDER_NRM :: u32 where "COLOR_BORDER_NRM = 0xFF111111"
definition COLOR_BORDER_SEL :: u32 where "COLOR_BORDER_SEL = 0xFFFF0000"
definition COLOR_WIN_SEL :: u32 where "COLOR_WIN_SEL = 0xFF222228"
definition RWM_BAR_H :: u32 where "RWM_BAR_H = 20"
definition TAG_W :: u32 where "TAG_W = 18"
definition TAG_PAD :: u32 where "TAG_PAD = 2"
definition BORDER :: u32 where "BORDER = 2"
definition MFACT_STEP :: rat where "MFACT_STEP = f32 (5 / 100)"

definition CLIENT_COLORS :: "u32 list" where
  "CLIENT_COLORS = [0xFF1A1A2E, 0xFF16213E, 0xFF0F3460, 0xFF1B1B2F, 0xFF161C2E, 0xFF1E1E24, 0xFF1A1A1A, 0xFF0D0D0D, 0xFF1E1E1E]"

abbreviation mon0 :: "rwm_state \<Rightarrow> rmonitor" where
  "mon0 s \<equiv> rs_monitors s ! 0"

definition tag_button :: "rwm_state \<Rightarrow> u32 \<Rightarrow> draw_cmd" where
  "tag_button s i =
     (let tag_bit = push_bit (unat i) 1; active = current_tags (mon0 s) AND tag_bit \<noteq> 0;
          occupied = (case clients_on_tag 0 tag_bit s of Some n \<Rightarrow> n > 0 | None \<Rightarrow> False);
          color = (if active then COLOR_ROGUE_RED else if occupied then 0xFF333333 else 0xFF1A1A1A)
      in FillRect (TAG_PAD + i * (TAG_W + TAG_PAD)) ((RWM_BAR_H - (RWM_BAR_H - 4)) div 2) TAG_W (RWM_BAR_H - 4) color)"

definition rwm_draw_bar :: "u32 \<Rightarrow> rwm_state \<Rightarrow> draw_cmd list" where
  "rwm_draw_bar sw s =
     (let sym_x = 9 * (TAG_W + TAG_PAD) + TAG_PAD + 4
      in [FillRect 0 0 sw RWM_BAR_H COLOR_PANEL] @ map (\<lambda>i. tag_button s (of_nat i)) [0..<9] @
         [FillRect sym_x 4 24 (RWM_BAR_H - 8) 0xFF2A2A2A, FillRect (sym_x + 26) 4 1 (RWM_BAR_H - 8) 0xFF333333])"

definition to_window_rect :: "rect \<Rightarrow> bool \<Rightarrow> u32 \<Rightarrow> window_rect" where
  "to_window_rect r sel client_color =
     \<lparr>wr_x = word_of_int (max 0 (rt_x r)), wr_y = word_of_int (max 0 (rt_y r)), wr_w = rt_w r, wr_h = rt_h r,
      wr_fill = (if sel then COLOR_WIN_SEL else client_color), wr_border = (if sel then COLOR_BORDER_SEL else COLOR_BORDER_NRM),
      wr_border_px = BORDER\<rparr>"

definition rwm_visible :: "rwm_state \<Rightarrow> (client_id \<times> rclient) list" where
  "rwm_visible s = (case monitor_tiled 0 s of Some v \<Rightarrow> v | None \<Rightarrow> [])"

definition rwm_arrangement :: "rwm_state \<Rightarrow> arrangement" where
  "rwm_arrangement s =
     (case layout_of 0 s of
        Some (Some l) \<Rightarrow> layout_arrange l (mon0 s) (rwm_visible s) (rm_window_area (mon0 s))
      | _ \<Rightarrow> map (\<lambda>(cid, _). (cid, rm_window_area (mon0 s))) (rwm_visible s))"

definition rwm_rects :: "rwm_state \<Rightarrow> window_rect list" where
  "rwm_rects s = map (\<lambda>(cid, geom).
     let win = (case rs_clients s cid of Some c \<Rightarrow> unat (rc_win c) | None \<Rightarrow> 0)
     in to_window_rect geom (Some cid = rm_focused (mon0 s)) (CLIENT_COLORS ! (win mod length CLIENT_COLORS))) (take 16 (rwm_arrangement s))"

definition rwm_window :: "u32 \<Rightarrow> window_rect \<Rightarrow> draw_cmd list" where
  "rwm_window r w = (if wr_w w > 0 \<and> wr_h w > 0 then fill_rect_rounded (wr_x w) (wr_y w) (wr_w w) (wr_h w) r (wr_fill w) @ border_cmds w else [])"

definition rwm_redraw :: "compositor \<Rightarrow> u32 \<Rightarrow> rwm_state \<Rightarrow> draw_cmd list" where
  "rwm_redraw cp sw s = [Clear COLOR_VOID] @ concat (map (rwm_window (cp_corner_radius cp)) (rwm_rects s)) @ rwm_draw_bar sw s @ [Flush]"

section \<open>Actions\<close>

definition set_mon0 :: "(rmonitor \<Rightarrow> rmonitor) \<Rightarrow> rwm_state \<Rightarrow> rwm_state" where
  "set_mon0 f s = on_monitor 0 f s"

definition on_view :: "rwm_state \<Rightarrow> client_id \<Rightarrow> bool" where
  "on_view s cid = (case rs_clients s cid of Some c \<Rightarrow> tags_visible (rc_tags c) (current_tags (mon0 s)) | None \<Rightarrow> False)"

text \<open>The index of the first element, as \<open>position\<close> gives it, or zero.\<close>

definition position_or_0 :: "client_id option \<Rightarrow> client_id list \<Rightarrow> nat" where
  "position_or_0 cur xs = (case cur of None \<Rightarrow> 0 | Some c \<Rightarrow> (case first_index (\<lambda>i. i = c) xs of Some p \<Rightarrow> p | None \<Rightarrow> 0))"

definition focus_stack :: "int \<Rightarrow> rwm_state \<Rightarrow> rwm_state" where
  "focus_stack dir s =
     (let vis = filter (on_view s) (rm_clients (mon0 s))
      in if vis = [] then s
         else let p = position_or_0 (rm_focused (mon0 s)) vis;
                  n = (if dir > 0 then (p + 1) mod length vis else (p + length vis - 1) mod length vis);
                  cid = vis ! n
              in set_mon0 (raise_in_stack cid) (set_mon0 (\<lambda>m. m\<lparr>rm_focused := Some cid\<rparr>) s))"

definition tag_bit :: "u32 \<Rightarrow> u32" where
  "tag_bit tag = push_bit (unat (word_ssub tag 1)) 1"

definition refocus :: "rwm_state \<Rightarrow> rwm_state" where
  "refocus s = set_mon0 (\<lambda>m. m\<lparr>rm_focused := List.find (on_view s) (rm_clients m)\<rparr>) s"

definition rwm_view_tag :: "u32 \<Rightarrow> rwm_state \<Rightarrow> rwm_state" where
  "rwm_view_tag tag s = (case view_tags 0 (tag_bit tag) s of Some s1 \<Rightarrow> refocus s1 | None \<Rightarrow> s)"

definition rwm_move_to_tag :: "u32 \<Rightarrow> rwm_state \<Rightarrow> rwm_state" where
  "rwm_move_to_tag tag s = (case rm_focused (mon0 s) of Some cid \<Rightarrow> refocus (tag_client cid (tag_bit tag) s) | None \<Rightarrow> s)"

definition rwm_set_layout :: "string \<Rightarrow> rwm_state \<Rightarrow> rwm_state" where
  "rwm_set_layout nm s =
     (case first_index (\<lambda>l. layout_name l = nm) (rs_layouts s) of
        Some idx \<Rightarrow> set_mon0 (\<lambda>m. m\<lparr>rm_layout := (rm_layout m)[rm_sel_layout m := idx], rm_layout_symbol := symbol (rs_layouts s ! idx)\<rparr>) s
      | None \<Rightarrow> s)"

definition adjust_mfact :: "rat \<Rightarrow> rwm_state \<Rightarrow> rwm_state" where
  "adjust_mfact delta s = set_mon0 (\<lambda>m. m\<lparr>rm_mfact := clamp (f32 (1 / 10)) (f32 (9 / 10)) (f32_add (rm_mfact m) delta)\<rparr>) s"

section \<open>The program\<close>

text \<open>The state before the first frame: one monitor below the bar, a client for every tag, and the first of them in focus.\<close>

definition start_client :: "nat \<Rightarrow> rclient" where
  "start_client i = (rclient_new (of_nat i) (rect_new 0 0 100 100) 0)\<lparr>rc_tags := push_bit i 1, rc_border_width := BORDER\<rparr>"

definition start_monitor :: "u32 \<Rightarrow> u32 \<Rightarrow> rmonitor" where
  "start_monitor sw sh = (update_bar_pos RWM_BAR_H (rmonitor_new 0 (rect_new 0 0 sw sh)))\<lparr>rm_mfact := f32 (55 / 100), rm_nmaster := 1\<rparr>"

definition start_add :: "nat \<times> client_id \<Rightarrow> rwm_state \<Rightarrow> rwm_state" where
  "start_add ic s = (case ic of (i, cid) \<Rightarrow>
     let s1 = rwm_add_client cid (start_client i) 0 s in if i = 0 then set_mon0 (\<lambda>m. m\<lparr>rm_focused := Some cid\<rparr>) s1 else s1)"

definition rwm_start :: "client_id list \<Rightarrow> u32 \<Rightarrow> u32 \<Rightarrow> rwm_state" where
  "rwm_start ids sw sh =
     (let s0 = rwm_state_new\<lparr>rs_screen_w := sw, rs_screen_h := sh, rs_bar_height := RWM_BAR_H, rs_layouts := builtin_layouts True,
                 rs_monitors := [start_monitor sw sh], rs_sel_mon := 0\<rparr>
      in fold start_add (zip [0..<9] ids) s0)"

datatype rwm_command = ViewTag u32 | MoveToTag u32 | FocusDir int | Mfact rat | SetLayout string | SpawnShell | Quit

definition KEY_M :: u8 where "KEY_M = 42"

definition rwm_binding :: "bool \<Rightarrow> u8 \<Rightarrow> rwm_command option" where
  "rwm_binding shift kc =
     (if KEY_1 \<le> kc \<and> kc \<le> KEY_9 then Some (if shift then MoveToTag (ucast (kc - KEY_1 + 1)) else ViewTag (ucast (kc - KEY_1 + 1)))
      else if kc = KEY_J then Some (FocusDir 1)
      else if kc = KEY_K then Some (FocusDir (- 1))
      else if kc = KEY_H then Some (Mfact (- MFACT_STEP))
      else if kc = KEY_L then Some (Mfact MFACT_STEP)
      else if kc = KEY_T then Some (SetLayout ''tile'')
      else if kc = KEY_M then Some (SetLayout ''monocle'')
      else if kc = KEY_F then Some (SetLayout ''spiral'')
      else if kc = KEY_G then Some (SetLayout ''grid'')
      else if kc = KEY_B then Some (SetLayout ''bstack'')
      else if kc = KEY_C then Some (SetLayout ''centeredmaster'')
      else if kc = KEY_ENTER then Some SpawnShell
      else if kc = KEY_Q \<and> shift then Some Quit
      else None)"

record rwm_loop =
  rl_state :: rwm_state
  rl_mod_held :: bool
  rl_shift_held :: bool
  rl_needs_redraw :: bool
  rl_spawned :: nat

text \<open>A command: the loop goes on with its state, or \<open>None\<close> for \<open>sys_exit\<close>.\<close>

fun rwm_do :: "rwm_command \<Rightarrow> rwm_loop \<Rightarrow> rwm_loop option" where
  "rwm_do (ViewTag n) l = Some (l\<lparr>rl_state := rwm_view_tag n (rl_state l), rl_needs_redraw := True\<rparr>)"
| "rwm_do (MoveToTag n) l = Some (l\<lparr>rl_state := rwm_move_to_tag n (rl_state l), rl_needs_redraw := True\<rparr>)"
| "rwm_do (FocusDir d) l = Some (l\<lparr>rl_state := focus_stack d (rl_state l), rl_needs_redraw := True\<rparr>)"
| "rwm_do (Mfact d) l = Some (l\<lparr>rl_state := adjust_mfact d (rl_state l), rl_needs_redraw := True\<rparr>)"
| "rwm_do (SetLayout nm) l = Some (l\<lparr>rl_state := rwm_set_layout nm (rl_state l), rl_needs_redraw := True\<rparr>)"
| "rwm_do SpawnShell l = Some (l\<lparr>rl_spawned := rl_spawned l + 1\<rparr>)"
| "rwm_do Quit l = None"

text \<open>A redraw when one is due.\<close>

definition rwm_flush :: "compositor \<Rightarrow> u32 \<Rightarrow> rwm_loop \<Rightarrow> rwm_loop \<times> draw_cmd list" where
  "rwm_flush cp sw l = (if rl_needs_redraw l then (l\<lparr>rl_needs_redraw := False\<rparr>, rwm_redraw cp sw (rl_state l)) else (l, []))"

text \<open>One round of the loop: the answer of \<open>sys_poll_input\<close> is an event or none. The result is the new state, what is drawn, and whether it runs on.\<close>

definition rwm_turn :: "compositor \<Rightarrow> u32 \<Rightarrow> key_event option \<Rightarrow> rwm_loop \<Rightarrow> rwm_loop \<times> draw_cmd list \<times> bool" where
  "rwm_turn cp sw ev l =
     (case ev of
        None \<Rightarrow> (case rwm_flush cp sw l of (l', d) \<Rightarrow> (l', d, True))
      | Some e \<Rightarrow>
          if keycode e = KEY_MOD then (l\<lparr>rl_mod_held := pressed e\<rparr>, [], True)
          else if keycode e = KEY_SHIFT then (l\<lparr>rl_shift_held := pressed e\<rparr>, [], True)
          else if \<not> pressed e then (l, [], True)
          else if rl_mod_held l then
            (case rwm_binding (rl_shift_held l) (keycode e) of
               None \<Rightarrow> (case rwm_flush cp sw l of (l', d) \<Rightarrow> (l', d, True))
             | Some c \<Rightarrow> (case rwm_do c l of
                   None \<Rightarrow> (l, [], False)
                 | Some l1 \<Rightarrow> (case rwm_flush cp sw l1 of (l', d) \<Rightarrow> (l', d, True))))
          else (case rwm_flush cp sw l of (l', d) \<Rightarrow> (l', d, True)))"

fun rwm_events :: "compositor \<Rightarrow> u32 \<Rightarrow> key_event option list \<Rightarrow> rwm_loop \<Rightarrow> rwm_loop \<times> draw_cmd list \<times> bool" where
  "rwm_events cp sw [] l = (l, [], True)"
| "rwm_events cp sw (ev # evs) l =
     (case rwm_turn cp sw ev l of (l1, d1, alive) \<Rightarrow>
        if \<not> alive then (l1, d1, False) else case rwm_events cp sw evs l1 of (l2, d2, alive2) \<Rightarrow> (l2, d1 @ d2, alive2))"

definition rwm_run :: "client_id list \<Rightarrow> u32 \<Rightarrow> u32 \<Rightarrow> key_event option list \<Rightarrow> rwm_loop \<times> draw_cmd list \<times> bool" where
  "rwm_run ids sw sh evs =
     (let cp = compositor_new config_default; s = rwm_start ids sw sh;
          l = \<lparr>rl_state = s, rl_mod_held = False, rl_shift_held = False, rl_needs_redraw = False, rl_spawned = 0\<rparr>
      in case rwm_events cp sw evs l of (l', d, alive) \<Rightarrow> (l', rwm_redraw cp sw s @ d, alive))"

section \<open>The invariant\<close>

text \<open>What holds of the monitor; the area is the screen below the bar.\<close>

definition mon_ok :: "client_id list \<Rightarrow> u32 \<Rightarrow> u32 \<Rightarrow> rmonitor \<Rightarrow> bool" where
  "mon_ok ids sw sh m \<longleftrightarrow> rm_clients m = ids \<and> length (rm_tagset m) = 2 \<and> rm_sel_tags m < 2 \<and> length (rm_layout m) = 2 \<and> rm_sel_layout m < 2 \<and>
     factor_ok (rm_mfact m) \<and> rm_nmaster m = 1 \<and> rm_gap_outer_h m = 4 \<and> rm_gap_outer_v m = 4 \<and> rm_gap_inner_h m = 4 \<and> rm_gap_inner_v m = 4 \<and>
     rm_window_area m = rect_new 0 20 sw (sh - 20)"

definition clients_ok :: "client_id list \<Rightarrow> rwm_state \<Rightarrow> bool" where
  "clients_ok ids s \<longleftrightarrow> (\<forall>c\<in>set ids. \<exists>cl. rs_clients s c = Some cl \<and> rc_cfact cl = 1 \<and> \<not> rc_is_floating cl \<and> \<not> rc_is_fullscreen cl)"

text \<open>The client in focus is on view, and there is one when some client is.\<close>

definition focus_ok :: "rwm_state \<Rightarrow> bool" where
  "focus_ok s = (case rm_focused (mon0 s) of
     None \<Rightarrow> \<forall>c\<in>set (rm_clients (mon0 s)). \<not> on_view s c
   | Some c \<Rightarrow> c \<in> set (rm_clients (mon0 s)) \<and> on_view s c)"

definition rwm_ok :: "client_id list \<Rightarrow> u32 \<Rightarrow> u32 \<Rightarrow> rwm_state \<Rightarrow> bool" where
  "rwm_ok ids sw sh s \<longleftrightarrow> length (rs_monitors s) = 1 \<and> rs_layouts s = builtin_layouts True \<and> mon_ok ids sw sh (mon0 s) \<and> clients_ok ids s \<and> focus_ok s"

lemma set_mon0_simps [simp]:
  "rs_clients (set_mon0 f s) = rs_clients s" "rs_layouts (set_mon0 f s) = rs_layouts s" "length (rs_monitors (set_mon0 f s)) = length (rs_monitors s)"
  by (simp_all add: set_mon0_def on_monitor_def)

lemma mon0_set_mon0 [simp]: "length (rs_monitors s) = 1 \<Longrightarrow> mon0 (set_mon0 f s) = f (mon0 s)"
  by (simp add: set_mon0_def on_monitor_def)

lemma on_view_set_mon0 [simp]: "length (rs_monitors s) = 1 \<Longrightarrow> current_tags (f (mon0 s)) = current_tags (mon0 s) \<Longrightarrow> on_view (set_mon0 f s) = on_view s"
  by (intro ext) (simp add: on_view_def split: option.split)

lemma clients_ok_set_mon0 [simp]: "clients_ok ids (set_mon0 f s) \<longleftrightarrow> clients_ok ids s"
  by (simp add: clients_ok_def)

text \<open>After a refocus the focus is right, whatever it was.\<close>

definition rwm_ok0 :: "client_id list \<Rightarrow> u32 \<Rightarrow> u32 \<Rightarrow> rwm_state \<Rightarrow> bool" where
  "rwm_ok0 ids sw sh s \<longleftrightarrow> length (rs_monitors s) = 1 \<and> rs_layouts s = builtin_layouts True \<and> mon_ok ids sw sh (mon0 s) \<and> clients_ok ids s"

lemma refocus_ok: "rwm_ok0 ids sw sh s \<Longrightarrow> rwm_ok ids sw sh (refocus s)"
proof -
  assume a: "rwm_ok0 ids sw sh s"
  then have l: "length (rs_monitors s) = 1" by (simp add: rwm_ok0_def)
  have v: "on_view (refocus s) = on_view s" unfolding refocus_def using l by (simp add: current_tags_def)
  have "focus_ok (refocus s)" unfolding focus_ok_def v
    using l by (auto simp: refocus_def find_None_iff find_Some_iff split: option.splits)
  then show ?thesis using a l by (simp add: rwm_ok_def rwm_ok0_def refocus_def mon_ok_def)
qed

lemma f32_factors: "factor_ok (f32 (1 / 10))" "factor_ok (f32 (9 / 10))" "factor_ok (f32 (55 / 100))" "f32 (1 / 10) \<le> f32 (9 / 10)"
proof -
  have p: "(2 :: rat) powi (- 126) \<le> 1 / 10" by (simp add: powi_nonpos)
  have "\<bar>f32 (1 / 10) - 1 / 10\<bar> \<le> 1 / 10 / 2 ^ 24" "\<bar>f32 (9 / 10) - 9 / 10\<bar> \<le> 9 / 10 / 2 ^ 24" "\<bar>f32 (55 / 100) - 55 / 100\<bar> \<le> 55 / 100 / 2 ^ 24"
    by (rule f32_error; use p in linarith)+
  then show "factor_ok (f32 (1 / 10))" "factor_ok (f32 (9 / 10))" "factor_ok (f32 (55 / 100))" unfolding factor_ok_def abs_le_iff by auto
  show "f32 (1 / 10) \<le> f32 (9 / 10)" by (rule f32_mono) auto
qed

text \<open>Changes of the monitor that leave its clients and tags alone.\<close>

lemma set_mon0_ok:
  assumes "rwm_ok ids sw sh s" "mon_ok ids sw sh (f (mon0 s))" "current_tags (f (mon0 s)) = current_tags (mon0 s)"
    "rm_focused (f (mon0 s)) = rm_focused (mon0 s) \<or> (\<exists>c\<in>set ids. rm_focused (f (mon0 s)) = Some c \<and> on_view s c)"
  shows "rwm_ok ids sw sh (set_mon0 f s)"
proof -
  have l: "length (rs_monitors s) = 1" using assms(1) by (simp add: rwm_ok_def)
  have c: "rm_clients (f (mon0 s)) = ids" "rm_clients (mon0 s) = ids" using assms(1,2) by (simp_all add: rwm_ok_def mon_ok_def)
  have "focus_ok (set_mon0 f s)" using assms(1,3,4) l by (auto simp: focus_ok_def c rwm_ok_def split: option.splits)
  then show ?thesis using assms(1,2) l by (simp add: rwm_ok_def)
qed

lemma adjust_mfact_ok:
  assumes "rwm_ok ids sw sh s"
  shows "rwm_ok ids sw sh (adjust_mfact d s)"
proof -
  have "factor_ok (clamp (f32 (1 / 10)) (f32 (9 / 10)) v)" for v using f32_factors by (auto simp: clamp_def factor_ok_def)
  then show ?thesis unfolding adjust_mfact_def
    using assms by (intro set_mon0_ok) (auto simp: rwm_ok_def mon_ok_def current_tags_def)
qed

lemma set_layout_ok:
  assumes "rwm_ok ids sw sh s"
  shows "rwm_ok ids sw sh (rwm_set_layout nm s)"
proof (cases "first_index (\<lambda>l. layout_name l = nm) (rs_layouts s)")
  case (Some idx)
  have "mon_ok ids sw sh (mon0 s)" using assms by (simp add: rwm_ok_def)
  then show ?thesis unfolding rwm_set_layout_def Some option.case
    by (intro set_mon0_ok [OF assms]) (simp_all add: mon_ok_def current_tags_def)
qed (use assms in \<open>simp add: rwm_set_layout_def\<close>)

lemma focus_stack_ok:
  assumes "rwm_ok ids sw sh s"
  shows "rwm_ok ids sw sh (focus_stack d s)"
proof -
  let ?vis = "filter (on_view s) (rm_clients (mon0 s))"
  have l: "length (rs_monitors s) = 1" using assms by (simp add: rwm_ok_def)
  show ?thesis
  proof (cases "?vis = []")
    case False
    define n where "n = (if d > 0 then (position_or_0 (rm_focused (mon0 s)) ?vis + 1) mod length ?vis
        else (position_or_0 (rm_focused (mon0 s)) ?vis + length ?vis - 1) mod length ?vis)"
    have "n < length ?vis" using False unfolding n_def by simp
    then have c: "?vis ! n \<in> set ?vis" by (rule nth_mem)
    have eq: "focus_stack d s = set_mon0 (raise_in_stack (?vis ! n)) (set_mon0 (\<lambda>m. m\<lparr>rm_focused := Some (?vis ! n)\<rparr>) s)"
      using False by (simp add: focus_stack_def Let_def n_def)
    have m: "mon_ok ids sw sh (mon0 s)" using assms by (simp add: rwm_ok_def)
    have f: "rwm_ok ids sw sh (set_mon0 (\<lambda>m. m\<lparr>rm_focused := Some (?vis ! n)\<rparr>) s)"
      using m c by (intro set_mon0_ok [OF assms]) (auto simp: mon_ok_def current_tags_def)
    show ?thesis unfolding eq
      using m l by (intro set_mon0_ok [OF f]) (simp_all add: mon_ok_def current_tags_def raise_in_stack_def)
  qed (use assms in \<open>simp add: focus_stack_def\<close>)
qed

lemma view_tag_ok:
  assumes "rwm_ok ids sw sh s"
  shows "rwm_ok ids sw sh (rwm_view_tag tag s)"
proof -
  have l: "length (rs_monitors s) = 1" using assms by (simp add: rwm_ok_def)
  then obtain s1 where v: "view_tags 0 (tag_bit tag) s = Some s1" by (simp add: view_tags_def monitor_at_def)
  have x: "rm_sel_tags (mon0 s) XOR 1 < 2" using assms unfolding rwm_ok_def mon_ok_def by (cases "rm_sel_tags (mon0 s) = 0") (auto simp: less_2_cases_iff)
  have "rwm_ok0 ids sw sh s1" using v l x assms
    by (auto simp: view_tags_def monitor_at_def Let_def rwm_ok_def rwm_ok0_def on_monitor_def mon_ok_def set_view_def clients_ok_def split: if_splits)
  then show ?thesis using v refocus_ok by (simp add: rwm_view_tag_def)
qed

lemma move_to_tag_ok:
  assumes "rwm_ok ids sw sh s"
  shows "rwm_ok ids sw sh (rwm_move_to_tag tag s)"
proof (cases "rm_focused (mon0 s)")
  case (Some cid)
  have "rwm_ok0 ids sw sh (tag_client cid (tag_bit tag) s)" using assms
    by (auto simp: tag_client_def set_tags_def rwm_ok_def rwm_ok0_def clients_ok_def split: option.splits)
  then show ?thesis using Some refocus_ok by (simp add: rwm_move_to_tag_def)
qed (use assms in \<open>simp add: rwm_move_to_tag_def\<close>)

lemma do_ok: "rwm_ok ids sw sh (rl_state l) \<Longrightarrow> rwm_do c l = Some l' \<Longrightarrow> rwm_ok ids sw sh (rl_state l')"
  by (cases c) (auto intro: view_tag_ok move_to_tag_ok focus_stack_ok adjust_mfact_ok set_layout_ok)

subsection \<open>The start\<close>

text \<open>The clients that have been added do not depend on the order of the rest.\<close>

definition start_inv :: "client_id list \<Rightarrow> u32 \<Rightarrow> u32 \<Rightarrow> rwm_state \<Rightarrow> bool" where
  "start_inv ids sw sh s \<longleftrightarrow> length (rs_monitors s) = 1 \<and> rs_layouts s = builtin_layouts True \<and> mon_ok ids sw sh (mon0 s) \<and> clients_ok ids s \<and>
     rm_tagset (mon0 s) = [1, 1] \<and>
     (case ids of [] \<Rightarrow> True | c # _ \<Rightarrow> rm_focused (mon0 s) = Some c \<and> (\<exists>cl. rs_clients s c = Some cl \<and> rc_tags cl = 1))"

lemma start_client_simps [simp]:
  "rc_cfact (start_client i) = 1" "\<not> rc_is_floating (start_client i)" "\<not> rc_is_fullscreen (start_client i)" "rc_tags (start_client 0) = 1"
  by (simp_all add: start_client_def rclient_new_def)

lemma start_add_inv:
  assumes "start_inv ids sw sh s" "c \<notin> set ids" "i = length ids"
  shows "start_inv (ids @ [c]) sw sh (start_add (i, c) s)"
proof -
  let ?s = "rwm_add_client c (start_client i) 0 s"
  have l: "length (rs_monitors s) = 1" using assms(1) by (simp add: start_inv_def)
  then obtain m0 where "rs_monitors s = [m0]" by (auto simp: length_Suc_conv)
  then have m: "mon0 ?s = (mon0 s)\<lparr>rm_clients := rm_clients (mon0 s) @ [c], rm_stack := c # rm_stack (mon0 s)\<rparr>" "length (rs_monitors ?s) = 1"
      "rs_clients ?s = (rs_clients s)(c \<mapsto> (start_client i)\<lparr>rc_mon_id := 0\<rparr>)" "rs_layouts ?s = rs_layouts s"
    by (simp_all add: rwm_add_client_def Let_def on_monitor_def)
  show ?thesis
  proof (cases ids)
    case Nil
    then show ?thesis using assms m by (simp add: start_inv_def start_add_def Let_def mon_ok_def clients_ok_def)
  next
    case (Cons d ds)
    then show ?thesis using assms m by (auto simp: start_inv_def start_add_def Let_def mon_ok_def clients_ok_def)
  qed
qed

lemma start_fold_inv:
  "start_inv ids sw sh s \<Longrightarrow> distinct (ids @ cs) \<Longrightarrow> start_inv (ids @ cs) sw sh (fold start_add (zip [length ids..<length ids + length cs] cs) s)"
proof (induction cs arbitrary: ids s)
  case (Cons c cs)
  have e: "[length ids..<length ids + length (c # cs)] = length ids # [length (ids @ [c])..<length (ids @ [c]) + length cs]"
    using upt_conv_Cons [of "length ids" "length ids + length (c # cs)"] by simp
  have "start_inv (ids @ [c]) sw sh (start_add (length ids, c) s)" using Cons.prems by (intro start_add_inv) auto
  from Cons.IH [OF this] show ?case using Cons.prems(2) unfolding e by simp
qed simp

lemma rwm_start_ok:
  assumes "distinct ids" "length ids = 9"
  shows "rwm_ok ids sw sh (rwm_start ids sw sh)"
proof -
  let ?s = "rwm_state_new\<lparr>rs_screen_w := sw, rs_screen_h := sh, rs_bar_height := RWM_BAR_H, rs_layouts := builtin_layouts True,
      rs_monitors := [start_monitor sw sh], rs_sel_mon := 0\<rparr>"
  have "i32 20 = 20" by (simp add: i32_small)
  then have "start_inv [] sw sh ?s" using f32_factors(3)
    by (simp add: start_inv_def mon_ok_def clients_ok_def start_monitor_def update_bar_pos_def rmonitor_new_def rect_new_def RWM_BAR_H_def Let_def)
  from start_fold_inv [OF this, of ids] have s: "start_inv ids sw sh (rwm_start ids sw sh)" using assms by (simp add: rwm_start_def Let_def)
  obtain c ds where c: "ids = c # ds" using assms(2) by (cases ids) auto
  have "current_tags (mon0 (rwm_start ids sw sh)) = 1"
    using s by (auto simp: start_inv_def mon_ok_def current_tags_def less_2_cases_iff)
  then have "focus_ok (rwm_start ids sw sh)" using s c by (auto simp: start_inv_def focus_ok_def on_view_def mon_ok_def tags_visible_def)
  then show ?thesis using s by (simp add: rwm_ok_def start_inv_def)
qed

section \<open>What is arranged\<close>

lemma clients_where_fst: "map fst (clients_where q m s) = filter (\<lambda>c. case rs_clients s c of Some cl \<Rightarrow> q cl | None \<Rightarrow> False) (rm_clients m)"
proof -
  have "map fst (List.map_filter (\<lambda>cid. case rs_clients s cid of Some c \<Rightarrow> if q c then Some (cid, c) else None | None \<Rightarrow> None) xs) =
    filter (\<lambda>c. case rs_clients s c of Some cl \<Rightarrow> q cl | None \<Rightarrow> False) xs" for xs
    by (induction xs) (auto simp: map_filter_simps split: option.splits)
  then show ?thesis by (simp add: clients_where_def)
qed

lemma clients_where_snd: "(c, cl) \<in> set (clients_where q m s) \<Longrightarrow> rs_clients s c = Some cl \<and> c \<in> set (rm_clients m)"
proof -
  have "(c, cl) \<in> set (List.map_filter (\<lambda>cid. case rs_clients s cid of Some c \<Rightarrow> if q c then Some (cid, c) else None | None \<Rightarrow> None) xs) \<Longrightarrow>
    rs_clients s c = Some cl \<and> c \<in> set xs" for xs
    by (induction xs) (auto simp: map_filter_simps split: option.splits if_splits)
  then show "(c, cl) \<in> set (clients_where q m s) \<Longrightarrow> rs_clients s c = Some cl \<and> c \<in> set (rm_clients m)" by (simp add: clients_where_def)
qed

lemma visible_is_view:
  assumes "rwm_ok ids sw sh s"
  shows "map fst (rwm_visible s) = filter (on_view s) ids" "plain (map snd (rwm_visible s))"
proof -
  have m: "monitor_at 0 s = Some (mon0 s)" "rm_clients (mon0 s) = ids" using assms by (simp_all add: rwm_ok_def monitor_at_def mon_ok_def)
  have c: "clients_ok ids s" using assms by (simp add: rwm_ok_def)
  let ?q = "\<lambda>c. tags_visible (rc_tags c) (current_tags (mon0 s)) \<and> \<not> rc_is_floating c \<and> \<not> rc_is_fullscreen c"
  have v: "rwm_visible s = clients_where ?q (mon0 s) s" by (simp add: rwm_visible_def monitor_tiled_def m(1))
  show "map fst (rwm_visible s) = filter (on_view s) ids" unfolding v clients_where_fst m(2)
    by (rule filter_cong [OF refl]) (use c in \<open>fastforce simp: on_view_def clients_ok_def\<close>)
  show "plain (map snd (rwm_visible s))" unfolding v plain_def
  proof
    fix cl assume "cl \<in> set (map snd (clients_where ?q (mon0 s) s))"
    then obtain i where "(i, cl) \<in> set (clients_where ?q (mon0 s) s)" by auto
    from clients_where_snd [OF this] have "rs_clients s i = Some cl" "i \<in> set ids" using m(2) by auto
    then show "rc_cfact cl = 1" using c by (auto simp: clients_ok_def)
  qed
qed

definition screen_fits :: "u32 \<Rightarrow> u32 \<Rightarrow> bool" where
  "screen_fits sw sh \<longleftrightarrow> 349 \<le> unat sw \<and> unat sw \<le> 900000 \<and> 369 \<le> unat sh \<and> unat sh \<le> 900000"

lemma rwm_roomy:
  assumes "rwm_ok ids sw sh s" "screen_fits sw sh" "n \<le> 9"
  shows "roomy (mon0 s) n (rm_window_area (mon0 s))"
proof -
  have "unat (sh - 20) = unat sh - 20" using assms(2) by (simp add: screen_fits_def unat_sub word_le_nat_alt)
  then have s: "sint sw = int (unat sw)" "sint (sh - 20) = int (unat sh) - 20"
    using sint_small [of sw] sint_small [of "sh - 20"] assms(2) by (auto simp: screen_fits_def simp del: of_nat_unat)
  show ?thesis using assms s by (auto simp: rwm_ok_def mon_ok_def roomy_def rect_new_def screen_fits_def simp del: of_nat_unat)
qed

text \<open>The area of the windows, and whether the layout puts them side by side.\<close>

definition rwm_area :: "u32 \<Rightarrow> u32 \<Rightarrow> rect" where
  "rwm_area sw sh = rect_new 0 20 sw (sh - 20)"

definition side_by_side :: "rwm_state \<Rightarrow> bool" where
  "side_by_side s = (case layout_of 0 s of Some (Some l) \<Rightarrow> l \<noteq> MonocleLayout | _ \<Rightarrow> False)"

lemma stacked_arrangement: "\<not> side_by_side s \<Longrightarrow> rwm_arrangement s = map (\<lambda>(cid, _). (cid, rm_window_area (mon0 s))) (rwm_visible s)"
  by (auto simp: side_by_side_def rwm_arrangement_def layout_monocle_def split: option.splits)

lemma arrangement_ok:
  assumes "rwm_ok ids sw sh s" "screen_fits sw sh" "length ids = 9"
  shows "mset (map fst (rwm_arrangement s)) = mset (filter (on_view s) ids)"
    "(c, r) \<in> set (rwm_arrangement s) \<Longrightarrow> cells r \<noteq> {} \<and> cells r \<subseteq> cells (rwm_area sw sh)"
    "side_by_side s \<Longrightarrow> (c, r) \<in> set (rwm_arrangement s) \<Longrightarrow> (d, q) \<in> set (rwm_arrangement s) \<Longrightarrow> c \<noteq> d \<Longrightarrow> cells r \<inter> cells q = {}"
proof -
  note v = visible_is_view [OF assms(1)]
  have "length (rwm_visible s) = length (filter (on_view s) ids)" using v(1) by (metis length_map)
  then have n: "length (rwm_visible s) \<le> 9" using assms(3) length_filter_le [of "on_view s" ids] by simp
  have m: "rm_window_area (mon0 s) = rwm_area sw sh" "factor_ok (rm_mfact (mon0 s))" "rm_nmaster (mon0 s) \<noteq> 0"
    using assms(1) by (simp_all add: rwm_ok_def mon_ok_def rwm_area_def)
  note ro = rwm_roomy [OF assms(1,2)]
  have side: "tiled (rwm_area sw sh) (rwm_visible s) (rwm_arrangement s)" if sb: "side_by_side s"
  proof -
    obtain l where l: "layout_of 0 s = Some (Some l)" "l \<noteq> MonocleLayout" using sb by (auto simp: side_by_side_def split: option.splits)
    then show ?thesis using arrange_tiled [OF ro [OF n] n v(2) m(2,3) l(2)] by (simp add: rwm_arrangement_def m(1))
  qed
  have "unat (sh - 20) = unat sh - 20" using assms(2) by (simp add: screen_fits_def unat_sub word_le_nat_alt)
  then have "0 < int (unat sw)" "0 < int (unat (sh - 20))" using assms(2) unfolding screen_fits_def by linarith+
  then have "(0, 20) \<in> cells (rwm_area sw sh)" by (simp add: cells_def rwm_area_def rect_new_def)
  then have ne: "cells (rwm_area sw sh) \<noteq> {}" by blast
  show "mset (map fst (rwm_arrangement s)) = mset (filter (on_view s) ids)"
    using side stacked_arrangement [of s] v(1) by (cases "side_by_side s") (auto simp: tiled_def comp_def case_prod_unfold)
  show "(c, r) \<in> set (rwm_arrangement s) \<Longrightarrow> cells r \<noteq> {} \<and> cells r \<subseteq> cells (rwm_area sw sh)"
    using side stacked_arrangement [of s] ne m(1) by (cases "side_by_side s") (auto simp: tiled_def)
  show "side_by_side s \<Longrightarrow> (c, r) \<in> set (rwm_arrangement s) \<Longrightarrow> (d, q) \<in> set (rwm_arrangement s) \<Longrightarrow> c \<noteq> d \<Longrightarrow> cells r \<inter> cells q = {}"
    using side by (fastforce simp: tiled_def)
qed

section \<open>The loop\<close>

lemma turn_ok:
  assumes "rwm_ok ids sw sh (rl_state l)" "rwm_turn cp sw ev l = (l', out, alive)"
  shows "rwm_ok ids sw sh (rl_state l')"
  using assms do_ok by (auto simp: rwm_turn_def rwm_flush_def split: option.splits if_splits prod.splits)

lemma events_ok: "rwm_ok ids sw sh (rl_state l) \<Longrightarrow> rwm_events cp sw evs l = (l', out, alive) \<Longrightarrow> rwm_ok ids sw sh (rl_state l')"
proof (induction evs arbitrary: l out alive)
  case (Cons ev evs)
  obtain l1 d1 a1 where t: "rwm_turn cp sw ev l = (l1, d1, a1)" by (metis surj_pair)
  then show ?case using Cons turn_ok [OF Cons.prems(1) t] by (auto split: if_splits prod.splits)
qed simp

lemma run_ok:
  assumes "distinct ids" "length ids = 9" "rwm_run ids sw sh evs = (l, out, alive)"
  shows "rwm_ok ids sw sh (rl_state l)"
proof -
  obtain l1 d a where e: "rwm_events (compositor_new config_default) sw evs
      \<lparr>rl_state = rwm_start ids sw sh, rl_mod_held = False, rl_shift_held = False, rl_needs_redraw = False, rl_spawned = 0\<rparr> = (l1, d, a)" by (metis surj_pair)
  have "l = l1" using assms(3) by (simp add: rwm_run_def e)
  then show ?thesis using events_ok [OF _ e] rwm_start_ok [OF assms(1,2)] by simp
qed

text \<open>C17: RogueWM arranges exactly the windows on view, and the focus is one of them. After any keys, with any keys of the slot map and any screen
  from 349 by 369 pixels on, the arrangement holds every client on view once and no other, each window lies below the bar inside the screen and
  is not empty, no two windows overlap unless the layout stacks them, and the focus is on a client on view whenever there is one.\<close>

theorem rwm_windows_tile:
  assumes "distinct ids" "length ids = 9" "screen_fits sw sh" "rwm_run ids sw sh evs = (l, out, alive)"
  shows "mset (map fst (rwm_arrangement (rl_state l))) = mset (filter (on_view (rl_state l)) ids) \<and>
    (\<forall>(c, r)\<in>set (rwm_arrangement (rl_state l)). cells r \<noteq> {} \<and> cells r \<subseteq> cells (rwm_area sw sh)) \<and>
    (side_by_side (rl_state l) \<longrightarrow> (\<forall>(c, r)\<in>set (rwm_arrangement (rl_state l)). \<forall>(d, q)\<in>set (rwm_arrangement (rl_state l)).
       c \<noteq> d \<longrightarrow> cells r \<inter> cells q = {})) \<and>
    focus_ok (rl_state l)"
proof -
  note ok = run_ok [OF assms(1,2,4)]
  note a = arrangement_ok [OF ok assms(3,2)]
  show ?thesis using a ok by (auto simp: rwm_ok_def) blast+
qed

theorem rwm_windows_tile_witness:
  "(let r = rwm_run [3, 4, 5, 6, 7, 8, 9, 10, 11] 1280 800 [Some \<lparr>keycode = 10, pressed = True\<rparr>, Some \<lparr>keycode = 21, pressed = True\<rparr>]; s = rl_state (fst r)
    in screen_fits 1280 800 \<and> mset (map fst (rwm_arrangement s)) = mset (filter (on_view s) [3, 4, 5, 6, 7, 8, 9, 10, 11]) \<and> focus_ok s)"
proof -
  let ?r = "rwm_run [3, 4, 5, 6, 7, 8, 9, 10, 11] 1280 800 [Some \<lparr>keycode = 10, pressed = True\<rparr>, Some \<lparr>keycode = 21, pressed = True\<rparr>]"
  have "screen_fits 1280 800" by (simp add: screen_fits_def)
  moreover have "?r = (fst ?r, fst (snd ?r), snd (snd ?r))" by simp
  ultimately show ?thesis using rwm_windows_tile [of "[3, 4, 5, 6, 7, 8, 9, 10, 11]" 1280 800 _ "fst ?r" "fst (snd ?r)" "snd (snd ?r)"] by (simp add: Let_def)
qed

section \<open>What is on the screen\<close>

text \<open>The colours below the bar: the windows of the arrangement over the background, with the rounded corners of the compositor.\<close>

definition rwm_scene :: "rwm_state \<Rightarrow> nat \<Rightarrow> nat \<Rightarrow> u32" where
  "rwm_scene s = scene_colour COLOR_VOID \<lparr>cp_transparency = 255, cp_corner_radius = 8\<rparr> (rwm_rects s)"

lemma rwm_window_composite: "rwm_window r w = composite_window \<lparr>cp_transparency = 255, cp_corner_radius = r\<rparr> w"
  by (simp add: rwm_window_def composite_window_def apply_alpha_to_color_def word_gt_0)

definition above_20 :: "draw_cmd \<Rightarrow> bool" where
  "above_20 c = (case c of FillRect x y w h _ \<Rightarrow> unat x + unat w < 2 ^ 32 \<and> unat y + unat h \<le> 20 | _ \<Rightarrow> False)"

lemma bar_above: "c \<in> set (rwm_draw_bar sw s) \<Longrightarrow> above_20 c"
proof -
  have tag: "above_20 (tag_button s (of_nat i))" if "i < 9" for i
  proof -
    have "i \<in> {0, 1, 2, 3, 4, 5, 6, 7, 8}" using that by auto
    then show ?thesis by (auto simp: above_20_def tag_button_def Let_def TAG_PAD_def TAG_W_def RWM_BAR_H_def)
  qed
  have "unat sw < 2 ^ 32" by (rule unat_u32)
  then show "c \<in> set (rwm_draw_bar sw s) \<Longrightarrow> above_20 c"
    using tag by (auto simp: rwm_draw_bar_def Let_def above_20_def [of "FillRect _ _ _ _ _"] RWM_BAR_H_def TAG_W_def TAG_PAD_def)
qed

lemma cells_bounds:
  assumes "cells r \<noteq> {}" "cells r \<subseteq> cells a"
  shows "rt_x a \<le> rt_x r" "rt_x r + uint (rt_w r) \<le> rt_x a + uint (rt_w a)" "rt_y a \<le> rt_y r" "rt_y r + uint (rt_h r) \<le> rt_y a + uint (rt_h a)"
proof -
  have p: "0 < uint (rt_w r)" "0 < uint (rt_h r)" using assms(1) by (auto simp: cells_def)
  then have "(rt_x r, rt_y r) \<in> cells r" "(rt_x r + uint (rt_w r) - 1, rt_y r + uint (rt_h r) - 1) \<in> cells r" by (auto simp: cells_def)
  then have "(rt_x r, rt_y r) \<in> cells a" "(rt_x r + uint (rt_w r) - 1, rt_y r + uint (rt_h r) - 1) \<in> cells a" using assms(2) by blast+
  then show "rt_x a \<le> rt_x r" "rt_x r + uint (rt_w r) \<le> rt_x a + uint (rt_w a)" "rt_y a \<le> rt_y r" "rt_y r + uint (rt_h r) \<le> rt_y a + uint (rt_h a)"
    by (auto simp: cells_def)
qed

lemma rwm_rects_fit:
  assumes "rwm_ok ids sw sh s" "screen_fits sw sh" "length ids = 9"
  shows "\<forall>w\<in>set (rwm_rects s). window_fits w"
proof
  fix w assume "w \<in> set (rwm_rects s)"
  then obtain c r b k where r: "(c, r) \<in> set (rwm_arrangement s)" "w = to_window_rect r b k"
    by (auto simp: rwm_rects_def dest: in_set_takeD)
  note b = cells_bounds [OF arrangement_ok(2) [OF assms r(1), THEN conjunct1] arrangement_ok(2) [OF assms r(1), THEN conjunct2]]
  have "unat (sh - 20) = unat sh - 20" using assms(2) by (simp add: screen_fits_def unat_sub word_le_nat_alt)
  then have a: "int (unat sw) \<le> 900000" "int (unat (sh - 20)) \<le> 900000" using assms(2) unfolding screen_fits_def by linarith+
  have x: "0 \<le> rt_x r" "rt_x r + uint (rt_w r) \<le> 900000" "0 \<le> rt_y r" "rt_y r + uint (rt_h r) \<le> 900020"
    using b a by (simp_all add: rwm_area_def rect_new_def)
  have u: "unat (word_of_int k :: u32) = nat k" if "0 \<le> k" "k \<le> 900020" for k using that by (simp add: unat_eq_nat_uint uint_word_of_int)
  have "0 \<le> uint (rt_w r)" "0 \<le> uint (rt_h r)" by simp_all
  then have "rt_x r \<le> 900020" "rt_y r \<le> 900020" using x by linarith+
  then have e: "unat (wr_x w) = nat (rt_x r)" "unat (wr_y w) = nat (rt_y r)" using x by (simp_all add: r(2) to_window_rect_def u)
  have "int (nat (rt_x r) + unat (rt_w r)) \<le> 900020" "int (nat (rt_y r) + unat (rt_h r)) \<le> 900020" using x by simp_all
  then have "nat (rt_x r) + unat (rt_w r) \<le> 900020" "nat (rt_y r) + unat (rt_h r) \<le> 900020" by (simp_all only: of_nat_le_numeral_iff)
  then have "nat (rt_x r) + unat (rt_w r) < 2 ^ 32" "nat (rt_y r) + unat (rt_h r) < 2 ^ 32" by simp_all
  then show "window_fits w" unfolding window_fits_def e by (simp add: r(2) to_window_rect_def BORDER_def)
qed

context display_backend
begin

lemma above_keeps:
  "ready m \<Longrightarrow> visible line col \<Longrightarrow> 20 \<le> line \<Longrightarrow> \<forall>c\<in>set cmds. above_20 c \<Longrightarrow> look (fold draw cmds m) line col = look m line col"
proof (induction cmds arbitrary: m)
  case (Cons c cmds)
  then obtain x y w h k where c: "c = FillRect x y w h k" "unat x + unat w < 2 ^ 32" "unat y + unat h \<le> 20"
    by (auto simp: above_20_def split: draw_cmd.splits)
  have "look (draw c m) line col = look m line col"
    unfolding c(1) using draw_fill [OF Cons.prems(1,2) c(2), of y h k] c(3) Cons.prems(3) by simp
  then show ?case using Cons draw_ready by simp
qed simp

lemma rwm_redraw_at:
  assumes "ready m" "visible line col" "20 \<le> line" "rwm_ok ids sw sh s" "screen_fits sw sh" "length ids = 9" "cp_corner_radius cp = 8"
  shows "look (fold draw (rwm_redraw cp sw s) m) line col = rwm_scene s line col"
proof -
  let ?cp = "\<lparr>cp_transparency = 255, cp_corner_radius = 8\<rparr>"
  let ?w = "fold draw (concat (map (composite_window ?cp) (rwm_rects s))) (draw (Clear COLOR_VOID) m)"
  have r: "ready (draw (Clear COLOR_VOID) m)" "ready ?w" "ready (fold draw (rwm_draw_bar sw s) ?w)" using draw_ready fold_ready assms(1) by blast+
  have "look ?w line col = rwm_scene s line col"
    unfolding rwm_scene_def scene_colour_def
    using windows_at [OF r(1) assms(2) rwm_rects_fit [OF assms(4-6)], of ?cp] draw_clear [OF assms(1,2)] by simp
  moreover have "look (fold draw (rwm_draw_bar sw s) ?w) line col = look ?w line col" using above_keeps [OF r(2) assms(2,3)] bar_above by blast
  moreover have "rwm_window 8 = composite_window ?cp" by (intro ext) (rule rwm_window_composite)
  ultimately show ?thesis using draw_flush [OF r(3) assms(2)] by (simp add: rwm_redraw_def assms(7))
qed

lemma rwm_turn_shows:
  assumes "ready m" "visible line col" "20 \<le> line" "rwm_ok ids sw sh (rl_state l)" "screen_fits sw sh" "length ids = 9" "cp_corner_radius cp = 8"
    "\<not> rl_needs_redraw l" "look m line col = rwm_scene (rl_state l) line col" "rwm_turn cp sw ev l = (l', out, alive)"
  shows "\<not> rl_needs_redraw l' \<and> look (fold draw out m) line col = rwm_scene (rl_state l') line col"
proof -
  have redrawn: "look (fold draw (rwm_redraw cp sw (rl_state k)) m) line col = rwm_scene (rl_state k) line col" if "rwm_do c l = Some k" for c k
    using rwm_redraw_at [OF assms(1-3) do_ok [OF assms(4) that] assms(5-7)] .
  have "rl_state k = rl_state l" if "rwm_do c l = Some k" "\<not> rl_needs_redraw k" for c k using that assms(8) by (cases c) auto
  then show ?thesis using assms(8-10) redrawn
    by (auto simp: rwm_turn_def rwm_flush_def split: option.splits if_splits prod.splits)
qed

lemma rwm_events_show:
  assumes "ready m" "visible line col" "20 \<le> line" "rwm_ok ids sw sh (rl_state l)" "screen_fits sw sh" "length ids = 9" "cp_corner_radius cp = 8"
    "\<not> rl_needs_redraw l" "look m line col = rwm_scene (rl_state l) line col" "rwm_events cp sw evs l = (l', out, alive)"
  shows "look (fold draw out m) line col = rwm_scene (rl_state l') line col"
  using assms(1,4,8-10)
proof (induction evs arbitrary: l m out alive)
  case (Cons ev evs)
  obtain l1 d1 a1 where t: "rwm_turn cp sw ev l = (l1, d1, a1)" by (metis surj_pair)
  note s = rwm_turn_shows [OF Cons.prems(1) assms(2,3) Cons.prems(2) assms(5-7) Cons.prems(3,4) t]
  show ?case
  proof (cases a1)
    case True
    obtain l2 d2 a2 where e: "rwm_events cp sw evs l1 = (l2, d2, a2)" by (metis surj_pair)
    have "l2 = l'" "out = d1 @ d2" using Cons.prems(5) t e True by simp_all
    then show ?thesis
      using Cons.IH [OF fold_ready [OF Cons.prems(1)] turn_ok [OF Cons.prems(2) t], of d1 d2 a2] s e by simp
  qed (use s Cons.prems(5) t in simp)
qed simp

end



end
