(* ===== verification/Spec2Isabelle.thy ===== *)
theory Spec2Isabelle
  imports Capability Debug_Regs Ipc Console Eevdf Memmap Address_Space Vfs Heap Elf Anon_Memory Histories
    Faults Multiboot Desktop Terminal User_Lib Cogman Programs Session Rwm_Core Rwm
begin

text \<open>
  RogueOS is an operating system for x86-64 in Rust: a boot loader, a kernel of its own design, a shared ABI (\<open>lib/\<close>), and the programs
  of user space. This development models the kernel, the way from a program into the kernel and back, and the programs that make up the
  running system: the supervisor, the window manager with its clients, the terminal and the command line. Paths below are relative to
  \<open>src/\<close>.

  \<^bold>\<open>How the parts interact.\<close> A Multiboot2 or UEFI loader leaves a memory map and a framebuffer behind; the kernel chooses a region for its
  buddy allocator, from which page tables, process images and anonymous memory are taken. A process is created from an ELF image with a
  capability mask below that of its parent. Everything a process does afterwards is a system call: the entry stub saves its registers, the
  dispatcher checks the capability the call needs and runs one handler. Handlers change the process table, the run queue, the mailboxes,
  the file descriptors, the surfaces and the page tables, which are fields of one kernel state. The first process, the supervisor Cogman,
  starts the others and restarts them. The window manager owns the screen; clients ask it for windows by messages and draw into surfaces.

  \<^bold>\<open>Kernel.\<close>
  \<^item> \<open>Prelude\<close>: machine types, results of calls that fail or stop the machine, saturating and wrapping arithmetic, first matches in lists.
  \<^item> \<open>Ring_Buffers\<close>: the contract of a bounded queue (locale \<open>bounded_fifo\<close>) and the two ring layouts the kernel uses.
  \<^item> \<open>Capability\<close> (\<open>kernel/capability\<close>, \<open>kernel/iflow\<close>): capability masks, their inheritance, the restart journal, flow labels.
  \<^item> \<open>Debug_Regs\<close>, \<open>Perf\<close> (\<open>kernel/arch/x86_64\<close>): hardware breakpoints and counters of a process.
  \<^item> \<open>Process\<close> (\<open>kernel/process\<close>): descriptors, the table, pids (locale \<open>pid_directory\<close>), kernel and user stacks.
  \<^item> \<open>Eevdf\<close> (\<open>kernel/process/scheduler/eevdf.rs\<close>): the run queue by virtual deadlines (locale \<open>runnable_bag\<close>).
  \<^item> \<open>Ipc\<close>, \<open>Console\<close>, \<open>Ps2\<close>: mailboxes, input queues, the serial line discipline, scan codes and mouse packets.
  \<^item> \<open>Buddy\<close>, \<open>Memmap\<close>, \<open>Multiboot\<close> (\<open>kernel/memory/physical\<close>, \<open>multiboot2_parser.rs\<close>): the page allocator (locale \<open>frame_source\<close>)
    and where its region comes from.
  \<^item> \<open>Paging\<close>, \<open>Address_Space\<close>, \<open>Elf\<close> (\<open>kernel/memory/paging\<close>, \<open>virtual\<close>, \<open>kernel/process/loader\<close>): four-level tables, areas, loading.
  \<^item> \<open>Heap\<close> (\<open>kernel/memory/heap\<close>, \<open>slab\<close>): size classes, slabs and object caches.
  \<^item> \<open>Simple_FS\<close>, \<open>Vfs\<close> (\<open>kernel/fs\<close>): the volume on disk, byte by byte, and the descriptors.
  \<^item> \<open>Framebuffer\<close>, \<open>Display\<close> (\<open>kernel/drivers/framebuffer.rs\<close>, \<open>kernel/display\<close>): drawing and the composition of surfaces.
  \<^item> \<open>Kernel\<close>, \<open>Lifecycle\<close>, \<open>Syscalls\<close>, \<open>Device_Calls\<close>, \<open>Dispatch\<close> (\<open>kernel/syscall\<close>, \<open>kernel/process/lifecycle.rs\<close>): the whole state, user
    pointers, creation and exit, all handlers and the dispatcher; \<open>Anon_Memory\<close> and \<open>Histories\<close> prove what spans them.
  \<^item> \<open>Faults\<close> (\<open>kernel/memory/paging/fault.rs\<close>, \<open>exceptions.rs\<close>): what a fault of a program does to it and to the machine.

  \<^bold>\<open>User space.\<close>
  \<^item> \<open>User_Lib\<close> (\<open>userland/src/lib.rs\<close>, \<open>syscall_entry.rs\<close>): the registers every wrapper loads, the entry and exit code instruction by
    instruction, the bump allocator under interleaving threads.
  \<^item> \<open>Cogman\<close> (\<open>userland/src/bin/cogman\<close>): services, restart policies, the journal, control messages, the adviser's privacy rules.
  \<^item> \<open>Display_Protocol\<close>, \<open>Wm\<close>, \<open>Wm_Layout\<close>, \<open>Wm_Events\<close>, \<open>Wm_Safety\<close>, \<open>Rdp\<close>, \<open>Desktop\<close> (\<open>lib/\<close>, \<open>userland/src/bin/wm.rs\<close>, \<open>rdp.rs\<close>): message
    layout, the window manager's state, layouts, handlers and main loop, the client library, and what holds of them together.
  \<^item> \<open>Terminal\<close> (\<open>userland/src/bin/terminal.rs\<close>): the character grid, the line editor, commands and pixels.
  \<^item> \<open>Programs\<close> (\<open>shell.rs\<close>, \<open>editor.rs\<close>, \<open>viewer.rs\<close>, \<open>copy.rs\<close>, \<open>monitor.rs\<close>): the command line over the file layer; the loops that
    read a file to its end share the contract of the locale \<open>pump\<close>.
  \<^item> \<open>Session\<close> (\<open>session.rs\<close>, \<open>userland/core\<close>, \<open>compositor\<close>, \<open>wm\<close>, \<open>backend_kernel.rs\<close>): the demonstration desktop; its scene is drawn through the
    locale \<open>display_backend\<close>, which both backends implement (\<open>direct\<close> on the mapped backbuffer, \<open>calls\<close> on the kernel's display state).
  \<^item> \<open>F32\<close>, \<open>Rwm_Core\<close>, \<open>Rwm\<close> (\<open>userland/rwm-core\<close>, \<open>rwm.rs\<close>): single-precision rounding, the library of the tiling window manager RogueWM with
    its seven layouts, and the program that runs it through the same locale \<open>display_backend\<close>.

  \<^bold>\<open>What is shown.\<close> Authority: no call gives a process a capability its creator did not have, refused calls change nothing, messages follow
  the flow labels, supervised services have the masks declared for them. Memory: frames handed out are fresh, mappings change exactly the
  page asked for, anonymous memory is cleared, allocations do not overlap, user pointers are checked exactly. Processes: the run queue
  holds exactly the runnable processes in every history, exits wake the waiting and release what the process had, faults are contained.
  Storage: what is written is read back, copies are copies. The desktop: an invariant of the window manager under every event, tiled
  windows do not overlap, clients learn the size they are drawn at, the terminal shows the transcript of its session, and every
  pixel that the session program and RogueWM draw is that of the scene of their state, whose windows do not overlap. Each locale is
  interpreted on the model's own operations (\<open>keyq\<close>, \<open>ttyq\<close>, \<open>ipcq\<close>, \<open>pids\<close>, \<open>rqbag\<close>, \<open>buddyf\<close>, \<open>shown\<close>, \<open>copied\<close>, \<open>direct\<close>, \<open>calls\<close>), and the properties use the
  facts of the interpretation.

  \<^bold>\<open>Conventions.\<close> Definitions are executable. Arithmetic wraps as in the release profile, which the workspace builds; where an index is out
  of range the model has the branch the program takes. \<open>Halted\<close> is a stop with a diagnostic, \<open>None\<close> a call or a loop that does not return
  (the program waits for ever); theorems about such operations state that a result is produced. Loops over lists and numbers are total
  functions; the few that depend on input or on the file system are partial functions with values in \<open>option\<close>, so no fuel is needed.
  What the hardware delivers (serial bytes, scan codes, counters, time) is an argument, as are the kernel's answers to a program that is
  modelled by itself. One processor is assumed: the kernel does not switch processes inside a call.
  The links of free pages and the entries of page tables are kept in the state of their component, not in the byte memory of user pages;
  drawing targets are identity mapped, as the kernel maps them.

  \<^bold>\<open>Not modelled.\<close> The UEFI loader and the NVMe driver drive firmware and a device through third-party crates and registers. The initialisers
  of the descriptor tables write constants once. The serial port and the start-up code only print and call the modelled initialisers.
  Of user space, the second display server (\<open>rogue_ds.rs\<close>), which no target builds, the desktop programs in \<open>apps/\<close>, \<open>roguewm/\<close> and
  \<open>rwm-desktop\<close>, which run on Linux with X11 or Wayland crates, the configuration reader \<open>rwm-config\<close>, which deserialises with a
  third-party crate, and the test programs are left out.
\<close>

end
